(* ===== verification/Prelude.thy ===== *)
theory Prelude
  imports Main "HOL-Library.Word"
begin

text \<open>
  What every component shares: the machine types of the 64-bit Apple targets the
  program is built for (\<^verbatim>\<open>char\<close> and \<^verbatim>\<open>bool\<close> are one byte, \<^verbatim>\<open>size_t\<close> and pointers
  are eight, little endian), byte lists read and written as little endian words, the
  byte memory with its regions, and the generic lemmas the components use.
  The collections \<open>region_simps\<close> and \<open>le_simps\<close> gather the rules on memory regions and
  on little endian bytes.
\<close>

unbundle bit_operations_syntax

named_theorems region_simps
named_theorems le_simps

type_synonym byte = "8 word"
type_synonym uint8 = "8 word"
type_synonym uint16 = "16 word"
type_synonym uint32 = "32 word"
type_synonym uint64 = "64 word"
type_synonym size_t = "64 word"
type_synonym addr = "64 word"

section \<open>Little endian bytes\<close>

text \<open>
  \<open>le_word\<close> reads a byte list, first byte least significant, as a word of the width of
  the result; \<open>le_bytes n\<close> writes the low \<open>n\<close> bytes of a word. They are what an aligned
  load and store of an integer object do on the targets of the program.
\<close>

primrec le_word :: "byte list \<Rightarrow> 'a::len word" where
  "le_word [] = 0"
| "le_word (b # bs) = ucast b OR push_bit 8 (le_word bs)"

primrec le_bytes :: "nat \<Rightarrow> 'a::len word \<Rightarrow> byte list" where
  "le_bytes 0 w = []"
| "le_bytes (Suc n) w = ucast w # le_bytes n (drop_bit 8 w)"

lemma length_le_bytes [simp, le_simps]: "length (le_bytes n w) = n"
  by (induction n arbitrary: w) auto

lemma bit_le_word:
  "bit (le_word bs :: 'a::len word) i \<longleftrightarrow>
     i < LENGTH('a) \<and> i div 8 < length bs \<and> bit (bs ! (i div 8)) (i mod 8)"
proof (induction bs arbitrary: i)
  case Nil
  then show ?case by simp
next
  case (Cons b bs)
  show ?case
  proof (cases "i < 8")
    case True
    then show ?thesis by (auto simp: bit_simps)
  next
    case False
    then obtain j where j: "i = j + 8" by (metis add.commute le_Suc_ex not_le)
    have "\<not> bit b i" using False by (auto dest: bit_imp_le_length)
    moreover have "(j + 8) div 8 = Suc (j div 8)" "(j + 8) mod 8 = j mod 8" by auto
    ultimately show ?thesis using j Cons.IH [of j]
      by (auto simp: bit_simps dest: bit_imp_le_length)
  qed
qed

lemma nth_le_bytes:
  "i < n \<Longrightarrow> le_bytes n w ! i = ucast (drop_bit (8 * i) w)" for w :: "'a::len word"
proof (induction n arbitrary: w i)
  case 0
  then show ?case by simp
next
  case (Suc n)
  then show ?case by (cases i) (auto simp: drop_bit_drop_bit add.commute)
qed

lemma le_word_le_bytes: "le_word (le_bytes n w) = take_bit (8 * n) w" for w :: "'a::len word"
proof (rule bit_word_eqI)
  fix i assume "i < LENGTH('a)"
  moreover have "i div 8 < n \<longleftrightarrow> i < 8 * n" by auto
  ultimately show "bit (le_word (le_bytes n w) :: 'a word) i \<longleftrightarrow> bit (take_bit (8 * n) w) i"
    by (auto simp: bit_le_word nth_le_bytes bit_simps)
qed

lemma le_word_le_bytes_full [simp, le_simps]:
  "LENGTH('a) \<le> 8 * n \<Longrightarrow> le_word (le_bytes n w) = w" for w :: "'a::len word"
  by (simp add: le_word_le_bytes take_bit_word_eq_self)

lemma le_bytes_le_word:
  assumes "8 * length bs \<le> LENGTH('a)"
  shows "le_bytes (length bs) (le_word bs :: 'a::len word) = bs"
proof (rule nth_equalityI)
  show "length (le_bytes (length bs) (le_word bs :: 'a word)) = length bs" by simp
next
  fix i assume "i < length (le_bytes (length bs) (le_word bs :: 'a word))"
  then have i: "i < length bs" by simp
  show "le_bytes (length bs) (le_word bs :: 'a word) ! i = bs ! i"
  proof (rule bit_word_eqI)
    fix j :: nat assume "j < LENGTH(8)"
    then have j: "j < 8" by simp
    moreover have "(8 * i + j) div 8 = i" "(8 * i + j) mod 8 = j" using j by auto
    moreover have "8 * i + j < LENGTH('a)" using i j assms by linarith
    ultimately show "bit (le_bytes (length bs) (le_word bs :: 'a word) ! i) j = bit (bs ! i) j"
      using i by (simp add: nth_le_bytes bit_simps bit_le_word)
  qed
qed

lemma unat_shift_right: "unat (drop_bit n w) = unat w div 2 ^ n" for w :: "'a::len word"
  by (simp only: unat_drop_bit_eq) (simp add: drop_bit_eq_div)

lemma and_FF: "b AND 0xff = take_bit 8 b" for b :: "'a::len word"
  by (simp add: take_bit_eq_mask mask_eq_exp_minus_1)

lemma unat_less64: "unat (w :: uint64) < 2 ^ 64"
  using unsigned_less [of w, where ?'a = nat] by simp

lemma unat_less32: "unat (w :: uint32) < 2 ^ 32"
  using unsigned_less [of w, where ?'a = nat] by simp

lemma unat_ucast32 [simp]: "unat (ucast (w :: uint32) :: uint64) = unat w"
  using unat_less32 [of w] by (simp add: unsigned_ucast_eq take_bit_nat_eq_self)

lemma unat_scast64: "unat (scast w :: uint64) = nat (sint w mod 2 ^ 64)" for w :: "'a::len word"
proof -
  have "(scast w :: uint64) = word_of_int (sint w)" by simp
  then show ?thesis by (simp only: unat_eq_nat_uint uint_word_of_int) (simp add: take_bit_eq_mod)
qed

lemma unat_sint64: "unat w = nat (sint w mod 2 ^ 64)" for w :: uint64
  using unat_scast64 [of w] by simp

lemma sint_scast64: "LENGTH('a) \<le> 64 \<Longrightarrow> sint (scast w :: uint64) = sint w" for w :: "'a::len word"
  by (rule sint_up_scast) (simp add: is_up)

lemma unat_scast_negative: "bit w 31 \<Longrightarrow> unat (scast w :: uint64) = 2 ^ 64 - 2 ^ 32 + unat w" for w :: uint32
proof -
  assume n: "bit w 31"
  have u: "0 \<le> uint w" "uint w < 2 ^ 32" using uint_bounded [of w] by simp_all
  then have s: "sint w = uint w - 2 ^ 32"
    using n by (simp add: sint_uint signed_take_bit_eq_take_bit_minus bit_uint_iff take_bit_int_eq_self)
  have "(uint w - 2 ^ 32) mod 2 ^ 64 = (uint w - 2 ^ 32 + 2 ^ 64) mod 2 ^ 64"
    by (rule mod_add_self2 [symmetric])
  also have "\<dots> = uint w - 2 ^ 32 + 2 ^ 64" using u by (intro mod_pos_pos_trivial) simp_all
  finally have "unat (scast w :: uint64) = nat (uint w - 2 ^ 32 + 2 ^ 64)" by (simp only: unat_scast64 s)
  moreover have "uint w - 2 ^ 32 + 2 ^ 64 = int (2 ^ 64 - 2 ^ 32 + unat w)" by simp
  ultimately show ?thesis by (simp only: nat_int)
qed

section \<open>Memory\<close>

text \<open>
  Memory is a total function from addresses to bytes. A region is given by its first
  address and its length; an address belongs to it when its distance from the first one,
  taken modulo the address space as pointer subtraction is, is below the length.
\<close>

type_synonym mem = "addr \<Rightarrow> byte"

definition in_region :: "addr \<Rightarrow> addr \<Rightarrow> nat \<Rightarrow> bool" where
  "in_region a p n \<longleftrightarrow> unat (a - p) < n"

definition mem_read :: "mem \<Rightarrow> addr \<Rightarrow> nat \<Rightarrow> byte list" where
  "mem_read m p n = map (\<lambda>i. m (p + of_nat i)) [0..<n]"

definition mem_write :: "mem \<Rightarrow> addr \<Rightarrow> byte list \<Rightarrow> mem" where
  "mem_write m p bs = (\<lambda>a. if unat (a - p) < length bs then bs ! unat (a - p) else m a)"

abbreviation load8 :: "mem \<Rightarrow> addr \<Rightarrow> uint8" where
  "load8 m p \<equiv> le_word (mem_read m p 1)"

abbreviation load16 :: "mem \<Rightarrow> addr \<Rightarrow> uint16" where
  "load16 m p \<equiv> le_word (mem_read m p 2)"

abbreviation load32 :: "mem \<Rightarrow> addr \<Rightarrow> uint32" where
  "load32 m p \<equiv> le_word (mem_read m p 4)"

abbreviation load64 :: "mem \<Rightarrow> addr \<Rightarrow> uint64" where
  "load64 m p \<equiv> le_word (mem_read m p 8)"

abbreviation store8 :: "mem \<Rightarrow> addr \<Rightarrow> uint8 \<Rightarrow> mem" where
  "store8 m p w \<equiv> mem_write m p (le_bytes 1 w)"

abbreviation store16 :: "mem \<Rightarrow> addr \<Rightarrow> uint16 \<Rightarrow> mem" where
  "store16 m p w \<equiv> mem_write m p (le_bytes 2 w)"

abbreviation store32 :: "mem \<Rightarrow> addr \<Rightarrow> uint32 \<Rightarrow> mem" where
  "store32 m p w \<equiv> mem_write m p (le_bytes 4 w)"

abbreviation store64 :: "mem \<Rightarrow> addr \<Rightarrow> uint64 \<Rightarrow> mem" where
  "store64 m p w \<equiv> mem_write m p (le_bytes 8 w)"

text \<open>\<^verbatim>\<open>*(bool*)p\<close>, read and written.\<close>

definition load_bool :: "mem \<Rightarrow> addr \<Rightarrow> bool" where
  "load_bool m p \<longleftrightarrow> m p \<noteq> 0"

definition store_bool :: "mem \<Rightarrow> addr \<Rightarrow> bool \<Rightarrow> mem" where
  "store_bool m p b = mem_write m p [if b then 1 else 0]"

lemma length_mem_read [simp]: "length (mem_read m p n) = n"
  by (simp add: mem_read_def)

lemma nth_mem_read [simp]: "i < n \<Longrightarrow> mem_read m p n ! i = m (p + of_nat i)"
  by (simp add: mem_read_def)

lemma mem_read_0 [simp]: "mem_read m p 0 = []"
  by (simp add: mem_read_def)

lemma mem_write_Nil [simp]: "mem_write m p [] = m"
  by (simp add: mem_write_def)

lemma mem_write_outside [region_simps]:
  "\<not> in_region a p (length bs) \<Longrightarrow> mem_write m p bs a = m a"
  by (simp add: mem_write_def in_region_def)

lemma unat_of_nat_offset: "i < 2 ^ 64 \<Longrightarrow> unat (p + of_nat i - p :: addr) = i"
  by (simp add: unat_of_nat)

lemma mem_read_write_same:
  assumes "length bs \<le> 2 ^ 64"
  shows "mem_read (mem_write m p bs) p (length bs) = bs"
proof (rule nth_equalityI)
  show "length (mem_read (mem_write m p bs) p (length bs)) = length bs" by simp
next
  fix i assume "i < length (mem_read (mem_write m p bs) p (length bs))"
  then show "mem_read (mem_write m p bs) p (length bs) ! i = bs ! i"
    using assms by (simp add: mem_write_def unat_of_nat)
qed

lemma store_load_same [simp, le_simps]:
  assumes "LENGTH('a) \<le> 8 * n" "n \<le> 8"
  shows "le_word (mem_read (mem_write m p (le_bytes n w)) p n) = (w :: 'a::len word)"
proof -
  have "mem_read (mem_write m p (le_bytes n w)) p n = le_bytes n w"
    using mem_read_write_same [of "le_bytes n w" m p] assms by simp
  then show ?thesis using assms by simp
qed

lemma in_region_offset:
  assumes "in_region a (p + k) n" "unat k + n \<le> l"
  shows "in_region a p l"
proof -
  have "a - p = (a - (p + k)) + k" by simp
  then have "unat (a - p) \<le> unat (a - (p + k)) + unat k"
    by (metis unat_word_ariths(1) mod_less_eq_dividend)
  then show ?thesis using assms by (simp add: in_region_def)
qed

lemma in_region_mono: "in_region a p n \<Longrightarrow> n \<le> l \<Longrightarrow> in_region a p l"
  by (simp add: in_region_def)

lemma mem_read_cong:
  "(\<And>i. i < n \<Longrightarrow> m (p + of_nat i) = m' (p + of_nat i)) \<Longrightarrow> mem_read m p n = mem_read m' p n"
  by (simp add: mem_read_def)


text \<open>
  Two regions that are apart: each begins at or after the end of the other, going round the
  address space. A write to one of them does not change what is read from the other.
\<close>

definition apart :: "addr \<Rightarrow> nat \<Rightarrow> addr \<Rightarrow> nat \<Rightarrow> bool" where
  "apart p n q k \<longleftrightarrow> n \<le> unat (q - p) \<and> k \<le> unat (p - q)"

lemma apart_disjoint:
  assumes "apart p n q k" "in_region a p n" "in_region a q k"
  shows False
proof -
  let ?x = "unat (a - p)" and ?D = "unat (q - p)"
  have lt: "?x < ?D" using assms(1,2) by (simp add: apart_def in_region_def)
  have "a - q = (a - p) - (q - p)" "p - q = 0 - (q - p)" by simp_all
  then have "unat (a - q) = ?x + unat (p - q)"
    using lt unat_sub_if' [of "a - p" "q - p"] unat_sub_if' [of 0 "q - p"] unat_less64 [of "q - p"] by simp
  then show False using assms(1,3) by (simp add: apart_def in_region_def)
qed

lemma apart_sym: "apart p n q k \<Longrightarrow> apart q k p n"
  by (simp add: apart_def)

lemma mem_read_apart [region_simps]:
  assumes "apart p (length bs) q k"
  shows "mem_read (mem_write m p bs) q k = mem_read m q k"
proof (rule mem_read_cong)
  fix i assume i: "i < k"
  have "k \<le> 2 ^ 64" using assms unat_less64 [of "p - q"] by (simp add: apart_def)
  then have "in_region (q + of_nat i) q k" using i by (simp add: in_region_def unat_of_nat)
  then have "\<not> in_region (q + of_nat i) p (length bs)" using apart_disjoint [OF assms] by blast
  then show "mem_write m p bs (q + of_nat i) = m (q + of_nat i)" by (rule mem_write_outside)
qed

lemma load_bool_read: "load_bool m p = (hd (mem_read m p 1) \<noteq> 0)"
  by (simp add: load_bool_def mem_read_def)

lemma load_bool_apart [region_simps]:
  "apart p (length bs) q 1 \<Longrightarrow> load_bool (mem_write m p bs) q = load_bool m q"
  by (simp only: load_bool_read mem_read_apart)

lemma load_store_bool [simp]: "load_bool (store_bool m p b) p = b"
  by (simp add: load_bool_def store_bool_def mem_write_def)

end
