(* ===== verification/Pb_Types.thy ===== *)
theory Pb_Types
  imports Prelude
begin

text \<open>
  \<^verbatim>\<open>nanopb/pb.h\<close>: the integer types of the configuration the build selects
  (\<^verbatim>\<open>PB_FIELD_32BIT=1 PB_NO_PACKED_STRUCTS=1 PB_ENABLE_MALLOC=1\<close>, 64-bit integers,
  custom streams and error messages enabled), the field type numbers, the descriptor
  \<^verbatim>\<open>pb_field_t\<close> and the macros that fill it in from the layout of a C struct.
\<close>

section \<open>Type numbers\<close>

type_synonym pb_type_t = uint8
type_synonym pb_size_t = uint32
type_synonym pb_ssize_t = uint32 \<comment> \<open>read with \<open>sint\<close> and \<open>scast\<close>\<close>
type_synonym pb_byte_t = byte

abbreviation PB_MAX_REQUIRED_FIELDS :: uint32 where "PB_MAX_REQUIRED_FIELDS \<equiv> 64"

abbreviation PB_LTYPE_VARINT :: pb_type_t where "PB_LTYPE_VARINT \<equiv> 0x00"
abbreviation PB_LTYPE_UVARINT :: pb_type_t where "PB_LTYPE_UVARINT \<equiv> 0x01"
abbreviation PB_LTYPE_SVARINT :: pb_type_t where "PB_LTYPE_SVARINT \<equiv> 0x02"
abbreviation PB_LTYPE_FIXED32 :: pb_type_t where "PB_LTYPE_FIXED32 \<equiv> 0x03"
abbreviation PB_LTYPE_FIXED64 :: pb_type_t where "PB_LTYPE_FIXED64 \<equiv> 0x04"
abbreviation PB_LTYPE_LAST_PACKABLE :: pb_type_t where "PB_LTYPE_LAST_PACKABLE \<equiv> 0x04"
abbreviation PB_LTYPE_BYTES :: pb_type_t where "PB_LTYPE_BYTES \<equiv> 0x05"
abbreviation PB_LTYPE_STRING :: pb_type_t where "PB_LTYPE_STRING \<equiv> 0x06"
abbreviation PB_LTYPE_SUBMESSAGE :: pb_type_t where "PB_LTYPE_SUBMESSAGE \<equiv> 0x07"
abbreviation PB_LTYPE_EXTENSION :: pb_type_t where "PB_LTYPE_EXTENSION \<equiv> 0x08"
abbreviation PB_LTYPE_FIXED_LENGTH_BYTES :: pb_type_t where "PB_LTYPE_FIXED_LENGTH_BYTES \<equiv> 0x09"
abbreviation PB_LTYPES_COUNT :: pb_type_t where "PB_LTYPES_COUNT \<equiv> 0x0A"
abbreviation PB_LTYPE_MASK :: pb_type_t where "PB_LTYPE_MASK \<equiv> 0x0F"

abbreviation PB_HTYPE_REQUIRED :: pb_type_t where "PB_HTYPE_REQUIRED \<equiv> 0x00"
abbreviation PB_HTYPE_OPTIONAL :: pb_type_t where "PB_HTYPE_OPTIONAL \<equiv> 0x10"
abbreviation PB_HTYPE_REPEATED :: pb_type_t where "PB_HTYPE_REPEATED \<equiv> 0x20"
abbreviation PB_HTYPE_ONEOF :: pb_type_t where "PB_HTYPE_ONEOF \<equiv> 0x30"
abbreviation PB_HTYPE_MASK :: pb_type_t where "PB_HTYPE_MASK \<equiv> 0x30"

abbreviation PB_ATYPE_STATIC :: pb_type_t where "PB_ATYPE_STATIC \<equiv> 0x00"
abbreviation PB_ATYPE_POINTER :: pb_type_t where "PB_ATYPE_POINTER \<equiv> 0x80"
abbreviation PB_ATYPE_CALLBACK :: pb_type_t where "PB_ATYPE_CALLBACK \<equiv> 0x40"
abbreviation PB_ATYPE_MASK :: pb_type_t where "PB_ATYPE_MASK \<equiv> 0xC0"

definition PB_ATYPE :: "pb_type_t \<Rightarrow> pb_type_t" where "PB_ATYPE x = x AND PB_ATYPE_MASK"
definition PB_HTYPE :: "pb_type_t \<Rightarrow> pb_type_t" where "PB_HTYPE x = x AND PB_HTYPE_MASK"
definition PB_LTYPE :: "pb_type_t \<Rightarrow> pb_type_t" where "PB_LTYPE x = x AND PB_LTYPE_MASK"

lemmas type_masks = PB_ATYPE_def PB_HTYPE_def PB_LTYPE_def

abbreviation PB_SIZE_MAX :: pb_size_t where "PB_SIZE_MAX \<equiv> - 1"

text \<open>
  \<^verbatim>\<open>pb_wire_type_t\<close> is an enum; the decoder stores any value from 0 to 7 in it, so it
  is kept as the number.
\<close>

type_synonym pb_wire_type_t = uint32

abbreviation PB_WT_VARINT :: pb_wire_type_t where "PB_WT_VARINT \<equiv> 0"
abbreviation PB_WT_64BIT :: pb_wire_type_t where "PB_WT_64BIT \<equiv> 1"
abbreviation PB_WT_STRING :: pb_wire_type_t where "PB_WT_STRING \<equiv> 2"
abbreviation PB_WT_32BIT :: pb_wire_type_t where "PB_WT_32BIT \<equiv> 5"

section \<open>Field descriptors\<close>

text \<open>
  A descriptor array is a list that ends with \<open>PB_LAST_FIELD\<close>, as the generated arrays
  do. The untyped member \<^verbatim>\<open>ptr\<close> points at the descriptors of a submessage, at a default
  value, or is null; the two kinds of target are the constructors of \<open>pb_ptr\<close>. A
  descriptor is therefore a finite tree: message types that contain themselves through
  a pointer are not represented (the program's generated files have none).
\<close>

datatype pb_field =
  pb_field (tag: pb_size_t) (ftype: pb_type_t) (data_offset: pb_size_t)
    (size_offset: pb_ssize_t) (data_size: pb_size_t) (array_size: pb_size_t) (ptr: pb_ptr)
and pb_ptr = Null_ptr | Submsg "pb_field list" | Default "byte list"

definition PB_LAST_FIELD :: pb_field where
  "PB_LAST_FIELD = pb_field 0 0 0 0 0 0 Null_ptr"

text \<open>\<^verbatim>\<open>(const pb_field_t*)field->ptr\<close>\<close>

fun submsg_fields :: "pb_ptr \<Rightarrow> pb_field list" where
  "submsg_fields (Submsg fs) = fs"
| "submsg_fields _ = []"

abbreviation atype :: "pb_field \<Rightarrow> pb_type_t" where "atype f \<equiv> PB_ATYPE (ftype f)"
abbreviation htype :: "pb_field \<Rightarrow> pb_type_t" where "htype f \<equiv> PB_HTYPE (ftype f)"
abbreviation ltype :: "pb_field \<Rightarrow> pb_type_t" where "ltype f \<equiv> PB_LTYPE (ftype f)"

text \<open>
  The nesting depth of a descriptor array, which bounds the recursion of the encoder, of
  the decoder and of the default initialisation.
\<close>

fun fields_depth :: "pb_field list \<Rightarrow> nat" and ptr_depth :: "pb_ptr \<Rightarrow> nat" where
  "fields_depth [] = 0"
| "fields_depth (pb_field a b c d e f p # fs) = max (ptr_depth p) (fields_depth fs)"
| "ptr_depth (Submsg fs) = Suc (fields_depth fs)"
| "ptr_depth Null_ptr = 0"
| "ptr_depth (Default v) = 0"

lemma ptr_depth_le: "f \<in> set fs \<Longrightarrow> ptr_depth (ptr f) \<le> fields_depth fs"
proof (induction fs)
  case Nil
  then show ?case by simp
next
  case (Cons g fs)
  then show ?case by (cases g) auto
qed

text \<open>The structure \<^verbatim>\<open>pb_bytes_array_t\<close>: a count at offset 0, the bytes at offset 4.\<close>

definition PB_BYTES_ARRAY_T_ALLOCSIZE :: "uint32 \<Rightarrow> size_t" where
  "PB_BYTES_ARRAY_T_ALLOCSIZE n = ucast n + 4"

definition bytes_size :: "mem \<Rightarrow> addr \<Rightarrow> pb_size_t" where
  "bytes_size m p = load32 m p"

definition bytes_bytes :: "addr \<Rightarrow> addr" where
  "bytes_bytes p = p + 4"

text \<open>
  \<^verbatim>\<open>pb_callback_t\<close> holds a function pointer and an argument pointer;
  \<^verbatim>\<open>pb_extension_t\<close> holds the pointers \<^verbatim>\<open>type\<close>, \<^verbatim>\<open>dest\<close> and \<^verbatim>\<open>next\<close> and the flag
  \<^verbatim>\<open>found\<close>.
\<close>

definition cb_funcs :: "mem \<Rightarrow> addr \<Rightarrow> addr" where "cb_funcs m p = load64 m p"
definition cb_arg_ptr :: "addr \<Rightarrow> addr" where "cb_arg_ptr p = p + 8"

definition ext_type :: "mem \<Rightarrow> addr \<Rightarrow> addr" where "ext_type m e = load64 m e"
definition ext_dest_ptr :: "addr \<Rightarrow> addr" where "ext_dest_ptr e = e + 8"
definition ext_dest :: "mem \<Rightarrow> addr \<Rightarrow> addr" where "ext_dest m e = load64 m (ext_dest_ptr e)"
definition ext_next :: "mem \<Rightarrow> addr \<Rightarrow> addr" where "ext_next m e = load64 m (e + 16)"
definition ext_found_ptr :: "addr \<Rightarrow> addr" where "ext_found_ptr e = e + 24"

section \<open>Struct layout and the descriptor macros\<close>

text \<open>
  A member of a C struct has a name, a size, an alignment and the size of what
  \<^verbatim>\<open>m[0]\<close> denotes (the element of an array, the target of a pointer). A struct is the
  list of its members; each is placed at the next offset that its alignment allows.
\<close>

record member =
  mname :: string
  msize :: nat
  malign :: nat
  melem :: nat

type_synonym cstruct = "member list"

definition align_up :: "nat \<Rightarrow> nat \<Rightarrow> nat" where
  "align_up k a = (k + a - 1) div a * a"

fun place_members :: "nat \<Rightarrow> cstruct \<Rightarrow> (string \<times> nat \<times> member) list" where
  "place_members k [] = []"
| "place_members k (x # xs) =
     (let off = align_up k (malign x) in (mname x, off, x) # place_members (off + msize x) xs)"

definition offsetof :: "cstruct \<Rightarrow> string \<Rightarrow> nat" where
  "offsetof st m = (case map_of (place_members 0 st) m of Some (off, _) \<Rightarrow> off | None \<Rightarrow> 0)"

definition pb_membersize :: "cstruct \<Rightarrow> string \<Rightarrow> nat" where
  "pb_membersize st m = (case map_of (place_members 0 st) m of Some (_, x) \<Rightarrow> msize x | None \<Rightarrow> 0)"

definition pb_elemsize :: "cstruct \<Rightarrow> string \<Rightarrow> nat" where
  "pb_elemsize st m = (case map_of (place_members 0 st) m of Some (_, x) \<Rightarrow> melem x | None \<Rightarrow> 0)"

definition struct_align :: "cstruct \<Rightarrow> nat" where
  "struct_align st = fold (\<lambda>x. max (malign x)) st 1"

definition sizeof :: "cstruct \<Rightarrow> nat" where
  "sizeof st = align_up (fold (\<lambda>x k. align_up k (malign x) + msize x) st 0) (struct_align st)"

definition pb_arraysize :: "cstruct \<Rightarrow> string \<Rightarrow> nat" where
  "pb_arraysize st m = pb_membersize st m div pb_elemsize st m"

definition pb_delta :: "cstruct \<Rightarrow> string \<Rightarrow> string \<Rightarrow> pb_ssize_t" where
  "pb_delta st m1 m2 = of_int (int (offsetof st m1) - int (offsetof st m2))"

datatype placement = FIRST | OTHER | UNION

fun PB_DATAOFFSET :: "placement \<Rightarrow> cstruct \<Rightarrow> string \<Rightarrow> string \<Rightarrow> pb_size_t" where
  "PB_DATAOFFSET FIRST st m1 m2 = of_nat (offsetof st m1)"
| "PB_DATAOFFSET OTHER st m1 m2 =
     of_int (int (offsetof st m1) - int (offsetof st m2) - int (pb_membersize st m2))"
| "PB_DATAOFFSET UNION st m1 m2 = PB_SIZE_MAX"

datatype proto_type = BOOL | BYTES | DOUBLE | ENUM | UENUM | FIXED32 | FIXED64 | FLOAT | INT32
  | INT64 | MESSAGE | SFIXED32 | SFIXED64 | SINT32 | SINT64 | STRING | UINT32 | UINT64
  | EXTENSION | FIXED_LENGTH_BYTES

fun PB_LTYPE_MAP :: "proto_type \<Rightarrow> pb_type_t" where
  "PB_LTYPE_MAP BOOL = PB_LTYPE_VARINT"
| "PB_LTYPE_MAP BYTES = PB_LTYPE_BYTES"
| "PB_LTYPE_MAP DOUBLE = PB_LTYPE_FIXED64"
| "PB_LTYPE_MAP ENUM = PB_LTYPE_VARINT"
| "PB_LTYPE_MAP UENUM = PB_LTYPE_UVARINT"
| "PB_LTYPE_MAP FIXED32 = PB_LTYPE_FIXED32"
| "PB_LTYPE_MAP FIXED64 = PB_LTYPE_FIXED64"
| "PB_LTYPE_MAP FLOAT = PB_LTYPE_FIXED32"
| "PB_LTYPE_MAP INT32 = PB_LTYPE_VARINT"
| "PB_LTYPE_MAP INT64 = PB_LTYPE_VARINT"
| "PB_LTYPE_MAP MESSAGE = PB_LTYPE_SUBMESSAGE"
| "PB_LTYPE_MAP SFIXED32 = PB_LTYPE_FIXED32"
| "PB_LTYPE_MAP SFIXED64 = PB_LTYPE_FIXED64"
| "PB_LTYPE_MAP SINT32 = PB_LTYPE_SVARINT"
| "PB_LTYPE_MAP SINT64 = PB_LTYPE_SVARINT"
| "PB_LTYPE_MAP STRING = PB_LTYPE_STRING"
| "PB_LTYPE_MAP UINT32 = PB_LTYPE_UVARINT"
| "PB_LTYPE_MAP UINT64 = PB_LTYPE_UVARINT"
| "PB_LTYPE_MAP EXTENSION = PB_LTYPE_EXTENSION"
| "PB_LTYPE_MAP FIXED_LENGTH_BYTES = PB_LTYPE_FIXED_LENGTH_BYTES"

definition PB_REQUIRED_STATIC ::
    "pb_size_t \<Rightarrow> cstruct \<Rightarrow> string \<Rightarrow> pb_size_t \<Rightarrow> pb_type_t \<Rightarrow> pb_ptr \<Rightarrow> pb_field" where
  "PB_REQUIRED_STATIC tg st m fd lt p =
     pb_field tg (PB_ATYPE_STATIC OR PB_HTYPE_REQUIRED OR lt) fd 0 (of_nat (pb_membersize st m)) 0 p"

definition PB_OPTIONAL_STATIC ::
    "pb_size_t \<Rightarrow> cstruct \<Rightarrow> string \<Rightarrow> pb_size_t \<Rightarrow> pb_type_t \<Rightarrow> pb_ptr \<Rightarrow> pb_field" where
  "PB_OPTIONAL_STATIC tg st m fd lt p =
     pb_field tg (PB_ATYPE_STATIC OR PB_HTYPE_OPTIONAL OR lt) fd (pb_delta st (''has_'' @ m) m)
       (of_nat (pb_membersize st m)) 0 p"

definition PB_SINGULAR_STATIC ::
    "pb_size_t \<Rightarrow> cstruct \<Rightarrow> string \<Rightarrow> pb_size_t \<Rightarrow> pb_type_t \<Rightarrow> pb_ptr \<Rightarrow> pb_field" where
  "PB_SINGULAR_STATIC tg st m fd lt p =
     pb_field tg (PB_ATYPE_STATIC OR PB_HTYPE_OPTIONAL OR lt) fd 0 (of_nat (pb_membersize st m)) 0 p"

definition PB_REPEATED_STATIC ::
    "pb_size_t \<Rightarrow> cstruct \<Rightarrow> string \<Rightarrow> pb_size_t \<Rightarrow> pb_type_t \<Rightarrow> pb_ptr \<Rightarrow> pb_field" where
  "PB_REPEATED_STATIC tg st m fd lt p =
     pb_field tg (PB_ATYPE_STATIC OR PB_HTYPE_REPEATED OR lt) fd (pb_delta st (m @ ''_count'') m)
       (of_nat (pb_elemsize st m)) (of_nat (pb_arraysize st m)) p"

definition PB_REQUIRED_POINTER ::
    "pb_size_t \<Rightarrow> cstruct \<Rightarrow> string \<Rightarrow> pb_size_t \<Rightarrow> pb_type_t \<Rightarrow> pb_ptr \<Rightarrow> pb_field" where
  "PB_REQUIRED_POINTER tg st m fd lt p =
     pb_field tg (PB_ATYPE_POINTER OR PB_HTYPE_REQUIRED OR lt) fd 0 (of_nat (pb_elemsize st m)) 0 p"

definition PB_OPTIONAL_POINTER ::
    "pb_size_t \<Rightarrow> cstruct \<Rightarrow> string \<Rightarrow> pb_size_t \<Rightarrow> pb_type_t \<Rightarrow> pb_ptr \<Rightarrow> pb_field" where
  "PB_OPTIONAL_POINTER tg st m fd lt p =
     pb_field tg (PB_ATYPE_POINTER OR PB_HTYPE_OPTIONAL OR lt) fd 0 (of_nat (pb_elemsize st m)) 0 p"

definition PB_REPEATED_POINTER ::
    "pb_size_t \<Rightarrow> cstruct \<Rightarrow> string \<Rightarrow> pb_size_t \<Rightarrow> pb_type_t \<Rightarrow> pb_ptr \<Rightarrow> pb_field" where
  "PB_REPEATED_POINTER tg st m fd lt p =
     pb_field tg (PB_ATYPE_POINTER OR PB_HTYPE_REPEATED OR lt) fd (pb_delta st (m @ ''_count'') m)
       (of_nat (pb_elemsize st m)) 0 p"

definition PB_REQUIRED_CALLBACK ::
    "pb_size_t \<Rightarrow> cstruct \<Rightarrow> string \<Rightarrow> pb_size_t \<Rightarrow> pb_type_t \<Rightarrow> pb_ptr \<Rightarrow> pb_field" where
  "PB_REQUIRED_CALLBACK tg st m fd lt p =
     pb_field tg (PB_ATYPE_CALLBACK OR PB_HTYPE_REQUIRED OR lt) fd 0 (of_nat (pb_membersize st m)) 0 p"

definition PB_OPTIONAL_CALLBACK ::
    "pb_size_t \<Rightarrow> cstruct \<Rightarrow> string \<Rightarrow> pb_size_t \<Rightarrow> pb_type_t \<Rightarrow> pb_ptr \<Rightarrow> pb_field" where
  "PB_OPTIONAL_CALLBACK tg st m fd lt p =
     pb_field tg (PB_ATYPE_CALLBACK OR PB_HTYPE_OPTIONAL OR lt) fd 0 (of_nat (pb_membersize st m)) 0 p"

definition PB_REPEATED_CALLBACK ::
    "pb_size_t \<Rightarrow> cstruct \<Rightarrow> string \<Rightarrow> pb_size_t \<Rightarrow> pb_type_t \<Rightarrow> pb_ptr \<Rightarrow> pb_field" where
  "PB_REPEATED_CALLBACK tg st m fd lt p =
     pb_field tg (PB_ATYPE_CALLBACK OR PB_HTYPE_REPEATED OR lt) fd 0 (of_nat (pb_membersize st m)) 0 p"

definition PB_OPTEXT_STATIC ::
    "pb_size_t \<Rightarrow> cstruct \<Rightarrow> string \<Rightarrow> pb_size_t \<Rightarrow> pb_type_t \<Rightarrow> pb_ptr \<Rightarrow> pb_field" where
  "PB_OPTEXT_STATIC tg st m fd lt p =
     pb_field tg (PB_ATYPE_STATIC OR PB_HTYPE_REQUIRED OR lt) 0 0 (of_nat (pb_membersize st m)) 0 p"

text \<open>
  \<^verbatim>\<open>PB_FIELD\<close> pastes the names of the rule and of the allocation into the name of one of
  the macros above.
\<close>

datatype field_rule = REQUIRED | OPTIONAL | SINGULAR | REPEATED | OPTEXT
datatype field_alloc = STATIC | POINTER | CALLBACK

fun PB_RULE_ALLOC :: "field_rule \<Rightarrow> field_alloc \<Rightarrow> pb_size_t \<Rightarrow> cstruct \<Rightarrow> string \<Rightarrow> pb_size_t \<Rightarrow>
    pb_type_t \<Rightarrow> pb_ptr \<Rightarrow> pb_field" where
  "PB_RULE_ALLOC REQUIRED STATIC = PB_REQUIRED_STATIC"
| "PB_RULE_ALLOC OPTIONAL STATIC = PB_OPTIONAL_STATIC"
| "PB_RULE_ALLOC SINGULAR STATIC = PB_SINGULAR_STATIC"
| "PB_RULE_ALLOC REPEATED STATIC = PB_REPEATED_STATIC"
| "PB_RULE_ALLOC OPTEXT STATIC = PB_OPTEXT_STATIC"
| "PB_RULE_ALLOC REQUIRED POINTER = PB_REQUIRED_POINTER"
| "PB_RULE_ALLOC OPTIONAL POINTER = PB_OPTIONAL_POINTER"
| "PB_RULE_ALLOC SINGULAR POINTER = PB_OPTIONAL_POINTER"
| "PB_RULE_ALLOC REPEATED POINTER = PB_REPEATED_POINTER"
| "PB_RULE_ALLOC OPTEXT POINTER = PB_OPTIONAL_POINTER"
| "PB_RULE_ALLOC REQUIRED CALLBACK = PB_REQUIRED_CALLBACK"
| "PB_RULE_ALLOC OPTIONAL CALLBACK = PB_OPTIONAL_CALLBACK"
| "PB_RULE_ALLOC SINGULAR CALLBACK = PB_OPTIONAL_CALLBACK"
| "PB_RULE_ALLOC REPEATED CALLBACK = PB_REPEATED_CALLBACK"
| "PB_RULE_ALLOC OPTEXT CALLBACK = PB_OPTIONAL_CALLBACK"

definition PB_FIELD :: "pb_size_t \<Rightarrow> proto_type \<Rightarrow> field_rule \<Rightarrow> field_alloc \<Rightarrow> placement \<Rightarrow> cstruct \<Rightarrow>
    string \<Rightarrow> string \<Rightarrow> pb_ptr \<Rightarrow> pb_field" where
  "PB_FIELD tg ty rules allocation pl message field prevfield p =
     PB_RULE_ALLOC rules allocation tg message field
       (PB_DATAOFFSET pl message field prevfield) (PB_LTYPE_MAP ty) p"

definition PB_REPEATED_FIXED_COUNT :: "pb_size_t \<Rightarrow> proto_type \<Rightarrow> placement \<Rightarrow> cstruct \<Rightarrow>
    string \<Rightarrow> string \<Rightarrow> pb_ptr \<Rightarrow> pb_field" where
  "PB_REPEATED_FIXED_COUNT tg ty pl message field prevfield p =
     pb_field tg (PB_ATYPE_STATIC OR PB_HTYPE_REPEATED OR PB_LTYPE_MAP ty)
       (PB_DATAOFFSET pl message field prevfield) 0
       (of_nat (pb_elemsize message field)) (of_nat (pb_arraysize message field)) p"

end
