(* ===== verification/Pb_Common.thy ===== *)
theory Pb_Common
  imports Pb_Types
begin

text \<open>
  \<^verbatim>\<open>nanopb/pb_common.c\<close>: the iterator over a descriptor array. The iterator is a record
  with the members of \<^verbatim>\<open>pb_field_iter_t\<close>; the pointer \<^verbatim>\<open>pos\<close> is an index into the
  array \<^verbatim>\<open>start\<close>. \<^verbatim>\<open>pSize\<close> usually points into memory, but the decoder also lets it
  point at its local variable \<^verbatim>\<open>fixed_count_size\<close>, so it has a type of its own.
\<close>

section \<open>The iterator\<close>

datatype size_ptr = In_mem addr | Fixed_count_size

record pb_field_iter =
  start :: "pb_field list"
  pos :: nat
  required_field_index :: uint32
  dest_struct :: addr
  pData :: addr
  pSize :: size_ptr

text \<open>
  Dereferencing \<^verbatim>\<open>pos\<close>. Every array ends with \<open>PB_LAST_FIELD\<close>, which stands for what
  lies beyond it.
\<close>

definition field_at :: "pb_field list \<Rightarrow> nat \<Rightarrow> pb_field" where
  "field_at fs i = (if i < length fs then fs ! i else PB_LAST_FIELD)"

abbreviation cur :: "pb_field_iter \<Rightarrow> pb_field" where
  "cur it \<equiv> field_at (start it) (pos it)"

definition pb_field_iter_begin :: "pb_field list \<Rightarrow> addr \<Rightarrow> bool \<times> pb_field_iter" where
  "pb_field_iter_begin fs dest =
     (let f = field_at fs 0;
          pd = dest + ucast (data_offset f)
      in (tag f \<noteq> 0,
          \<lparr>start = fs, pos = 0, required_field_index = 0, dest_struct = dest,
           pData = pd, pSize = In_mem (pd + scast (size_offset f))\<rparr>))"

text \<open>The number of bytes the previous field occupies in the struct.\<close>

definition prev_size :: "pb_field \<Rightarrow> size_t" where
  "prev_size f =
     (if atype f = PB_ATYPE_STATIC \<and> htype f = PB_HTYPE_REPEATED
      then ucast (data_size f) * ucast (array_size f)
      else if atype f = PB_ATYPE_POINTER then 8
      else ucast (data_size f))"

definition pb_field_iter_next :: "pb_field_iter \<Rightarrow> bool \<times> pb_field_iter" where
  "pb_field_iter_next it =
     (let prev_field = cur it in
      if tag prev_field = 0 then (False, it)
      else
        let it1 = it\<lparr>pos := pos it + 1\<rparr> in
        if tag (cur it1) = 0
        then (False, snd (pb_field_iter_begin (start it) (dest_struct it)))
        else if htype prev_field = PB_HTYPE_ONEOF \<and> htype (cur it1) = PB_HTYPE_ONEOF
                \<and> data_offset (cur it1) = PB_SIZE_MAX
        then (True, it1)
        else
          let it2 = (if htype prev_field = PB_HTYPE_REQUIRED
                     then it1\<lparr>required_field_index := required_field_index it1 + 1\<rparr> else it1);
              pd = pData it + prev_size prev_field + ucast (data_offset (cur it1))
          in (True, it2\<lparr>pData := pd, pSize := In_mem (pd + scast (size_offset (cur it1)))\<rparr>))"

text \<open>
  A step either stays on an empty array, moves to the next field or goes back to the first.
\<close>

lemma start_begin [simp]: "start (snd (pb_field_iter_begin fs p)) = fs"
  by (simp add: pb_field_iter_begin_def Let_def)

lemma pos_begin [simp]: "pos (snd (pb_field_iter_begin fs p)) = 0"
  by (simp add: pb_field_iter_begin_def Let_def)

lemma dest_begin [simp]: "dest_struct (snd (pb_field_iter_begin fs p)) = p"
  by (simp add: pb_field_iter_begin_def Let_def)

lemma fst_begin [simp]: "fst (pb_field_iter_begin fs p) = (tag (field_at fs 0) \<noteq> 0)"
  by (simp add: pb_field_iter_begin_def Let_def)

lemma start_next [simp]: "start (snd (pb_field_iter_next it)) = start it"
  by (simp add: pb_field_iter_next_def Let_def)

lemma dest_next [simp]: "dest_struct (snd (pb_field_iter_next it)) = dest_struct it"
  by (simp add: pb_field_iter_next_def Let_def)

lemma fst_next: "fst (pb_field_iter_next it) \<longleftrightarrow>
    tag (cur it) \<noteq> 0 \<and> tag (field_at (start it) (pos it + 1)) \<noteq> 0"
  by (simp add: pb_field_iter_next_def Let_def)

lemma pos_next: "pos (snd (pb_field_iter_next it)) =
    (if tag (cur it) = 0 then pos it
     else if tag (field_at (start it) (pos it + 1)) = 0 then 0 else pos it + 1)"
  by (simp add: pb_field_iter_next_def Let_def)

lemma field_at_nonzero: "tag (field_at fs i) \<noteq> 0 \<Longrightarrow> i < length fs"
  by (auto simp: field_at_def PB_LAST_FIELD_def split: if_splits)

lemma next_pos_less:
  "pb_field_iter_next it = (True, it') \<Longrightarrow> length (start it') - pos it' < length (start it) - pos it"
proof -
  assume a: "pb_field_iter_next it = (True, it')"
  then have "fst (pb_field_iter_next it)" "snd (pb_field_iter_next it) = it'" by auto
  then have "pos it' = pos it + 1" "pos it + 1 < length (start it)" "start it' = start it"
    using pos_next [of it] start_next [of it] field_at_nonzero by (auto simp: fst_next)
  then show ?thesis by simp
qed

text \<open>
  \<^verbatim>\<open>pb_field_iter_find\<close> walks from the current field, round the end of the array, until
  it meets the tag or is back where it started. The number of steps still allowed bounds
  the walk; \<^term>\<open>length (start it) + 1\<close> steps always suffice, as the
  theory \<open>Pb_Iter\<close> shows.
\<close>

fun iter_find_loop :: "nat \<Rightarrow> nat \<Rightarrow> (pb_field \<Rightarrow> bool) \<Rightarrow> pb_field_iter \<Rightarrow> bool \<times> pb_field_iter" where
  "iter_find_loop 0 st P it = (False, it)"
| "iter_find_loop (Suc n) st P it =
     (if P (cur it) then (True, it)
      else let it' = snd (pb_field_iter_next it)
           in if pos it' \<noteq> st then iter_find_loop n st P it' else (False, it'))"

definition pb_field_iter_find :: "pb_field_iter \<Rightarrow> uint32 \<Rightarrow> bool \<times> pb_field_iter" where
  "pb_field_iter_find it tg =
     iter_find_loop (length (start it) + 1) (pos it)
       (\<lambda>f. tag f = tg \<and> ltype f \<noteq> PB_LTYPE_EXTENSION) it"

section \<open>Loops over the fields of a message\<close>

text \<open>
  The shape \<^verbatim>\<open>do { if (!body) return false; } while (pb_field_iter_next(&iter))\<close>, which the
  encoder, the default initialisation and the release of a message share. The body reads
  the iterator and updates a state; no result (\<open>None\<close>) stands for a body that does not
  return.
\<close>

definition seq :: "(bool \<times> 'a) option \<Rightarrow> ('a \<Rightarrow> (bool \<times> 'a) option) \<Rightarrow> (bool \<times> 'a) option" where
  "seq r g = (case r of None \<Rightarrow> None | Some (False, s) \<Rightarrow> Some (False, s) | Some (True, s) \<Rightarrow> g s)"

lemma seq_simps [simp]:
  "seq None g = None"
  "seq (Some (False, s)) g = Some (False, s)"
  "seq (Some (True, s)) g = g s"
  by (simp_all add: seq_def)

lemma seq_cong [fundef_cong]:
  "r = r' \<Longrightarrow> (\<And>s. r' = Some (True, s) \<Longrightarrow> g s = g' s) \<Longrightarrow> seq r g = seq r' g'"
  by (auto simp: seq_def split: option.splits bool.splits)

lemma seq_eq_True:
  "seq r g = Some (True, t) \<longleftrightarrow> (\<exists>s. r = Some (True, s) \<and> g s = Some (True, t))"
  by (auto simp: seq_def split: option.splits bool.splits)

lemma seq_not_None:
  "seq r g \<noteq> None \<longleftrightarrow> r \<noteq> None \<and> (\<forall>s. r = Some (True, s) \<longrightarrow> g s \<noteq> None)"
  by (auto simp: seq_def split: option.splits bool.splits)

function iter_loop :: "(pb_field_iter \<Rightarrow> 'a \<Rightarrow> (bool \<times> 'a) option) \<Rightarrow> pb_field_iter \<Rightarrow> 'a \<Rightarrow>
    (bool \<times> 'a) option" where
  "iter_loop body it s =
     seq (body it s)
       (\<lambda>s. case pb_field_iter_next it of
              (True, it') \<Rightarrow> iter_loop body it' s
            | (False, it') \<Rightarrow> Some (True, s))"
  by pat_completeness auto
termination
  by (relation "measure (\<lambda>(body, it, s). length (start it) - pos it)")
     (auto dest: next_pos_less [OF sym])

declare iter_loop.simps [simp del]

definition for_fields :: "(pb_field_iter \<Rightarrow> 'a \<Rightarrow> (bool \<times> 'a) option) \<Rightarrow> pb_field list \<Rightarrow> addr \<Rightarrow> 'a \<Rightarrow>
    (bool \<times> 'a) option" where
  "for_fields body fs p s =
     (case pb_field_iter_begin fs p of
        (False, it) \<Rightarrow> Some (True, s)
      | (True, it) \<Rightarrow> iter_loop body it s)"

end
