(* ===== verification/Pb_Ostream.thy ===== *)
theory Pb_Ostream
  imports Pb_Types
begin

text \<open>
  The output side of \<^verbatim>\<open>nanopb\<close>: \<^verbatim>\<open>pb_ostream_t\<close> of \<^verbatim>\<open>pb_encode.h\<close> and the helper
  functions of \<^verbatim>\<open>pb_encode.c\<close> that write scalars.
\<close>

section \<open>Output streams\<close>

text \<open>
  The callback of a stream and its state: no callback (a sizing stream), the buffer
  writer \<^verbatim>\<open>buf_write\<close> (its state is the list of the bytes it has stored so far), or a
  callback of the caller with its own state. A callback touches only its state, as
  rules 2 to 4 of \<^verbatim>\<open>pb_encode.h\<close> ask.
\<close>

datatype 's osink =
    Sizing
  | Buffer "byte list"
  | Callback "'s \<Rightarrow> byte list \<Rightarrow> bool \<times> 's" 's

record 's pb_ostream =
  osink :: "'s osink"
  max_size :: size_t
  bytes_written :: size_t
  oerrmsg :: "string option"

definition PB_OSTREAM_SIZING :: "'s pb_ostream" where
  "PB_OSTREAM_SIZING = \<lparr>osink = Sizing, max_size = 0, bytes_written = 0, oerrmsg = None\<rparr>"

text \<open>\<^verbatim>\<open>PB_SET_ERROR\<close> keeps the first message; \<^verbatim>\<open>PB_RETURN_ERROR\<close> also returns false.\<close>

definition set_oerror :: "'s pb_ostream \<Rightarrow> string \<Rightarrow> 's pb_ostream" where
  "set_oerror os msg = os\<lparr>oerrmsg := (case oerrmsg os of None \<Rightarrow> Some msg | Some e \<Rightarrow> Some e)\<rparr>"

abbreviation oerror :: "'s pb_ostream \<Rightarrow> string \<Rightarrow> bool \<times> 's pb_ostream" where
  "oerror os msg \<equiv> (False, set_oerror os msg)"

definition buf_write :: "byte list \<Rightarrow> byte list \<Rightarrow> size_t \<Rightarrow> bool \<times> byte list" where
  "buf_write dest buf count = (True, dest @ take (unat count) buf)"

definition pb_ostream_from_buffer :: "size_t \<Rightarrow> 's pb_ostream" where
  "pb_ostream_from_buffer bufsize =
     \<lparr>osink = Buffer [], max_size = bufsize, bytes_written = 0, oerrmsg = None\<rparr>"

fun run_osink :: "'s osink \<Rightarrow> byte list \<Rightarrow> size_t \<Rightarrow> bool \<times> 's osink" where
  "run_osink Sizing buf count = (True, Sizing)"
| "run_osink (Buffer d) buf count = (case buf_write d buf count of (b, d') \<Rightarrow> (b, Buffer d'))"
| "run_osink (Callback f s) buf count =
     (case f s (take (unat count) buf) of (b, s') \<Rightarrow> (b, Callback f s'))"

definition pb_write :: "'s pb_ostream \<Rightarrow> byte list \<Rightarrow> size_t \<Rightarrow> bool \<times> 's pb_ostream" where
  "pb_write os buf count =
     (case osink os of
        Sizing \<Rightarrow> (True, os\<lparr>bytes_written := bytes_written os + count\<rparr>)
      | _ \<Rightarrow>
          if bytes_written os + count > max_size os then oerror os ''stream full''
          else (case run_osink (osink os) buf count of
                  (False, k) \<Rightarrow> oerror (os\<lparr>osink := k\<rparr>) ''io error''
                | (True, k) \<Rightarrow> (True, os\<lparr>osink := k, bytes_written := bytes_written os + count\<rparr>)))"

text \<open>Sequencing two calls that report success as a Boolean: \<^verbatim>\<open>if (!f()) return false; g()\<close>.\<close>

definition andthen :: "bool \<times> 'a \<Rightarrow> ('a \<Rightarrow> bool \<times> 'a) \<Rightarrow> bool \<times> 'a" where
  "andthen r g = (case r of (False, s) \<Rightarrow> (False, s) | (True, s) \<Rightarrow> g s)"

lemma andthen_simps [simp]:
  "andthen (False, s) g = (False, s)"
  "andthen (True, s) g = g s"
  by (simp_all add: andthen_def)

section \<open>Scalar writers\<close>

text \<open>
  The loop of \<^verbatim>\<open>pb_encode_varint\<close> fills the buffer with groups of seven bits, each with
  the continuation bit set.
\<close>

function varint_groups :: "uint64 \<Rightarrow> byte list" where
  "varint_groups value =
     (if value = 0 then []
      else ucast ((value AND 0x7F) OR 0x80) # varint_groups (drop_bit 7 value))"
  by pat_completeness auto
termination
proof (relation "measure unat", simp)
  fix v :: uint64 assume "v \<noteq> 0"
  then have "unat v > 0" by (simp add: unat_gt_0)
  moreover have "unat (drop_bit 7 v) = unat v div 128"
    by (simp add: unat_shift_right)
  ultimately show "(drop_bit 7 v, v) \<in> measure unat" by simp
qed

declare varint_groups.simps [simp del]

definition pb_encode_varint :: "'s pb_ostream \<Rightarrow> uint64 \<Rightarrow> bool \<times> 's pb_ostream" where
  "pb_encode_varint os value =
     (if value \<le> 0x7F then pb_write os [ucast value] 1
      else let buffer = varint_groups value;
               i = length buffer;
               buffer = buffer[i - 1 := (buffer ! (i - 1)) AND 0x7F]
           in pb_write os buffer (of_nat i))"

definition pb_encode_svarint :: "'s pb_ostream \<Rightarrow> uint64 \<Rightarrow> bool \<times> 's pb_ostream" where
  "pb_encode_svarint os value =
     (let zigzagged = (if sint value < 0 then NOT (push_bit 1 value) else push_bit 1 value)
      in pb_encode_varint os zigzagged)"

definition pb_encode_fixed32 :: "mem \<Rightarrow> addr \<Rightarrow> 's pb_ostream \<Rightarrow> bool \<times> 's pb_ostream" where
  "pb_encode_fixed32 m p os =
     (let val = load32 m p;
          bytes = [ucast (val AND 0xFF), ucast (drop_bit 8 val AND 0xFF),
                   ucast (drop_bit 16 val AND 0xFF), ucast (drop_bit 24 val AND 0xFF)]
      in pb_write os bytes 4)"

definition pb_encode_fixed64 :: "mem \<Rightarrow> addr \<Rightarrow> 's pb_ostream \<Rightarrow> bool \<times> 's pb_ostream" where
  "pb_encode_fixed64 m p os =
     (let val = load64 m p;
          bytes = [ucast (val AND 0xFF), ucast (drop_bit 8 val AND 0xFF),
                   ucast (drop_bit 16 val AND 0xFF), ucast (drop_bit 24 val AND 0xFF),
                   ucast (drop_bit 32 val AND 0xFF), ucast (drop_bit 40 val AND 0xFF),
                   ucast (drop_bit 48 val AND 0xFF), ucast (drop_bit 56 val AND 0xFF)]
      in pb_write os bytes 8)"

definition pb_encode_tag :: "'s pb_ostream \<Rightarrow> pb_wire_type_t \<Rightarrow> uint32 \<Rightarrow> bool \<times> 's pb_ostream" where
  "pb_encode_tag os wiretype field_number =
     pb_encode_varint os (push_bit 3 (ucast field_number) OR ucast wiretype)"

text \<open>The wire type that \<^verbatim>\<open>pb_encode_tag_for_field\<close> selects; none for the default branch.\<close>

definition field_wire_type :: "pb_type_t \<Rightarrow> pb_wire_type_t option" where
  "field_wire_type lt =
     (if lt = PB_LTYPE_VARINT \<or> lt = PB_LTYPE_UVARINT \<or> lt = PB_LTYPE_SVARINT then Some PB_WT_VARINT
      else if lt = PB_LTYPE_FIXED32 then Some PB_WT_32BIT
      else if lt = PB_LTYPE_FIXED64 then Some PB_WT_64BIT
      else if lt = PB_LTYPE_BYTES \<or> lt = PB_LTYPE_STRING \<or> lt = PB_LTYPE_SUBMESSAGE
              \<or> lt = PB_LTYPE_FIXED_LENGTH_BYTES then Some PB_WT_STRING
      else None)"

definition pb_encode_tag_for_field :: "'s pb_ostream \<Rightarrow> pb_field \<Rightarrow> bool \<times> 's pb_ostream" where
  "pb_encode_tag_for_field os f =
     (case field_wire_type (ltype f) of
        None \<Rightarrow> oerror os ''invalid field type''
      | Some wiretype \<Rightarrow> pb_encode_tag os wiretype (tag f))"

definition pb_encode_string :: "'s pb_ostream \<Rightarrow> byte list \<Rightarrow> size_t \<Rightarrow> bool \<times> 's pb_ostream" where
  "pb_encode_string os buffer sz =
     andthen (pb_encode_varint os sz) (\<lambda>os. pb_write os buffer sz)"

end
