(* ===== verification/Pb_Encode.thy ===== *)
theory Pb_Encode
  imports Pb_Common Pb_Ostream
begin

text \<open>
  \<^verbatim>\<open>nanopb/pb_encode.c\<close>: the field encoders and the message encoder. A message is a
  region of memory that the descriptors describe; encoding reads memory and writes to the
  stream.

  \<open>None\<close> is "no result": the recursion is deeper than the bound \<open>n\<close>, a chain of
  extensions is longer than it, or a null entry of the encoder table is called.
  \<open>Pb_Encode_Spec\<close> shows that the nesting depth of the descriptors is bound enough.
\<close>

section \<open>What the library calls out to\<close>

text \<open>
  The functions a caller of the library supplies: the encoder callbacks of callback fields
  (by function address, applied to the field and to the address of \<^verbatim>\<open>arg\<close>), the custom
  encoders of extension types and the descriptors extension types point at.
\<close>

record 's enc_env =
  enc_callback :: "addr \<Rightarrow> mem \<Rightarrow> pb_field \<Rightarrow> addr \<Rightarrow> 's pb_ostream \<Rightarrow> bool \<times> 's pb_ostream"
  ext_encode :: "addr \<Rightarrow> (mem \<Rightarrow> addr \<Rightarrow> 's pb_ostream \<Rightarrow> bool \<times> 's pb_ostream) option"
  ext_enc_arg :: "addr \<Rightarrow> pb_field"

type_synonym 's encoder = "mem \<Rightarrow> pb_field \<Rightarrow> addr \<Rightarrow> 's pb_ostream \<Rightarrow> (bool \<times> 's pb_ostream) option"
type_synonym 's msg_encoder = "pb_field list \<Rightarrow> addr \<Rightarrow> 's pb_ostream \<Rightarrow> (bool \<times> 's pb_ostream) option"

section \<open>Field encoders\<close>

definition pb_enc_varint :: "'s encoder" where
  "pb_enc_varint m f src os = Some
     (if data_size f = 1 then pb_encode_varint os (scast (load8 m src))
      else if data_size f = 2 then pb_encode_varint os (scast (load16 m src))
      else if data_size f = 4 then pb_encode_varint os (scast (load32 m src))
      else if data_size f = 8 then pb_encode_varint os (load64 m src)
      else oerror os ''invalid data_size'')"

definition pb_enc_uvarint :: "'s encoder" where
  "pb_enc_uvarint m f src os = Some
     (if data_size f = 1 then pb_encode_varint os (ucast (load8 m src))
      else if data_size f = 2 then pb_encode_varint os (ucast (load16 m src))
      else if data_size f = 4 then pb_encode_varint os (ucast (load32 m src))
      else if data_size f = 8 then pb_encode_varint os (load64 m src)
      else oerror os ''invalid data_size'')"

definition pb_enc_svarint :: "'s encoder" where
  "pb_enc_svarint m f src os = Some
     (if data_size f = 1 then pb_encode_svarint os (scast (load8 m src))
      else if data_size f = 2 then pb_encode_svarint os (scast (load16 m src))
      else if data_size f = 4 then pb_encode_svarint os (scast (load32 m src))
      else if data_size f = 8 then pb_encode_svarint os (load64 m src)
      else oerror os ''invalid data_size'')"

definition pb_enc_fixed64 :: "'s encoder" where
  "pb_enc_fixed64 m f src os = Some (pb_encode_fixed64 m src os)"

definition pb_enc_fixed32 :: "'s encoder" where
  "pb_enc_fixed32 m f src os = Some (pb_encode_fixed32 m src os)"

definition pb_enc_bytes :: "'s encoder" where
  "pb_enc_bytes m f src os = Some
     (if src = 0 then pb_encode_string os [] 0
      else if atype f = PB_ATYPE_STATIC
              \<and> PB_BYTES_ARRAY_T_ALLOCSIZE (bytes_size m src) > ucast (data_size f)
      then oerror os ''bytes size exceeded''
      else pb_encode_string os
             (mem_read m (bytes_bytes src) (unat (bytes_size m src))) (ucast (bytes_size m src)))"

text \<open>
  The loop of \<^verbatim>\<open>pb_enc_string\<close>: the length of the string, at most \<open>k\<close>.
\<close>

fun c_strnlen :: "mem \<Rightarrow> addr \<Rightarrow> nat \<Rightarrow> nat" where
  "c_strnlen m p 0 = 0"
| "c_strnlen m p (Suc k) = (if m p \<noteq> 0 then Suc (c_strnlen m (p + 1) k) else 0)"

definition pb_enc_string :: "'s encoder" where
  "pb_enc_string m f src os = Some
     (let max_size = (if atype f = PB_ATYPE_POINTER then - 1 else ucast (data_size f)) :: size_t;
          sz = (if src = 0 then 0 else c_strnlen m src (unat max_size))
      in pb_encode_string os (mem_read m src sz) (of_nat sz))"

text \<open>\<^verbatim>\<open>pb_encode_submessage\<close>, over the encoder of a message.\<close>

definition pb_encode_submessage :: "'s msg_encoder \<Rightarrow> 's msg_encoder" where
  "pb_encode_submessage enc fs src os =
     (case enc fs src PB_OSTREAM_SIZING of
        None \<Rightarrow> None
      | Some (False, substream) \<Rightarrow> Some (False, os\<lparr>oerrmsg := oerrmsg substream\<rparr>)
      | Some (True, substream) \<Rightarrow>
          let sz = bytes_written substream in
          seq (Some (pb_encode_varint os sz)) (\<lambda>os.
            case osink os of
              Sizing \<Rightarrow> Some (pb_write os [] sz)
            | _ \<Rightarrow>
              if bytes_written os + sz > max_size os then Some (oerror os ''stream full'')
              else
                (case enc fs src (substream\<lparr>osink := osink os, max_size := sz,
                                  bytes_written := 0, oerrmsg := None\<rparr>) of
                   None \<Rightarrow> None
                 | Some (status, substream) \<Rightarrow>
                     let os = os\<lparr>bytes_written := bytes_written os + bytes_written substream,
                                 osink := osink substream, oerrmsg := oerrmsg substream\<rparr>
                     in if bytes_written substream \<noteq> sz then Some (oerror os ''submsg size changed'')
                        else Some (status, os))))"

definition pb_enc_submessage :: "'s msg_encoder \<Rightarrow> 's encoder" where
  "pb_enc_submessage enc m f src os =
     (if ptr f = Null_ptr then Some (oerror os ''invalid field descriptor'')
      else pb_encode_submessage enc (submsg_fields (ptr f)) src os)"

definition pb_enc_fixed_length_bytes :: "'s encoder" where
  "pb_enc_fixed_length_bytes m f src os =
     Some (pb_encode_string os (mem_read m src (unat (data_size f))) (ucast (data_size f)))"

definition PB_ENCODERS :: "'s msg_encoder \<Rightarrow> 's encoder option list" where
  "PB_ENCODERS enc =
     [Some pb_enc_varint, Some pb_enc_uvarint, Some pb_enc_svarint, Some pb_enc_fixed32,
      Some pb_enc_fixed64, Some pb_enc_bytes, Some pb_enc_string, Some (pb_enc_submessage enc),
      None, Some pb_enc_fixed_length_bytes]"

text \<open>Calling \<^verbatim>\<open>PB_ENCODERS[PB_LTYPE(field->type)]\<close>; a null entry has no result.\<close>

definition call_encoder :: "'s msg_encoder \<Rightarrow> 's encoder" where
  "call_encoder enc m f p os =
     (if ltype f < PB_LTYPES_COUNT
      then (case PB_ENCODERS enc ! unat (ltype f) of
              None \<Rightarrow> None
            | Some func \<Rightarrow> func m f p os)
      else None)"

section \<open>Encoding a field\<close>

text \<open>The \<^verbatim>\<open>for\<close> loops of \<^verbatim>\<open>encode_array\<close>: \<open>k\<close> entries, \<open>ds\<close> bytes apart.\<close>

primrec encode_items :: "nat \<Rightarrow> (addr \<Rightarrow> 's pb_ostream \<Rightarrow> (bool \<times> 's pb_ostream) option) \<Rightarrow> addr \<Rightarrow>
    pb_size_t \<Rightarrow> 's pb_ostream \<Rightarrow> (bool \<times> 's pb_ostream) option" where
  "encode_items 0 g p ds os = Some (True, os)"
| "encode_items (Suc k) g p ds os = seq (g p os) (\<lambda>os. encode_items k g (p + ucast ds) ds os)"

definition encode_array :: "mem \<Rightarrow> pb_field \<Rightarrow> addr \<Rightarrow> size_t \<Rightarrow>
    (addr \<Rightarrow> 's pb_ostream \<Rightarrow> (bool \<times> 's pb_ostream) option) \<Rightarrow> 's pb_ostream \<Rightarrow>
    (bool \<times> 's pb_ostream) option" where
  "encode_array m f pd count func os =
     (if count = 0 then Some (True, os)
      else if atype f \<noteq> PB_ATYPE_POINTER \<and> count > ucast (array_size f)
      then Some (oerror os ''array max size exceeded'')
      else if ltype f \<le> PB_LTYPE_LAST_PACKABLE then
        seq (Some (pb_encode_tag os PB_WT_STRING (tag f))) (\<lambda>os.
          (case (if ltype f = PB_LTYPE_FIXED32 then Some (True, 4 * count)
                 else if ltype f = PB_LTYPE_FIXED64 then Some (True, 8 * count)
                 else map_option (\<lambda>(b, ss). (b, bytes_written ss))
                        (encode_items (unat count) func pd (data_size f) PB_OSTREAM_SIZING)) of
             None \<Rightarrow> None
           | Some (False, _) \<Rightarrow> Some (False, os)
           | Some (True, sz) \<Rightarrow>
               seq (Some (pb_encode_varint os sz)) (\<lambda>os.
                 case osink os of
                   Sizing \<Rightarrow> Some (pb_write os [] sz)
                 | _ \<Rightarrow> encode_items (unat count) func pd (data_size f) os)))
      else
        encode_items (unat count)
          (\<lambda>p os. seq (Some (pb_encode_tag_for_field os f)) (\<lambda>os.
             if atype f = PB_ATYPE_POINTER \<and> (ltype f = PB_LTYPE_STRING \<or> ltype f = PB_LTYPE_BYTES)
             then func (load64 m p) os
             else func p os))
          pd (data_size f) os)"

text \<open>
  \<^verbatim>\<open>pb_check_proto3_default_value\<close>, which recurses into static submessages.
\<close>

fun pb_check_proto3_default_value :: "nat \<Rightarrow> mem \<Rightarrow> pb_field \<Rightarrow> addr \<Rightarrow> bool option" where
  "pb_check_proto3_default_value 0 m f pd = None"
| "pb_check_proto3_default_value (Suc n) m f pd =
     (let psize = pd + scast (size_offset f) in
      if htype f = PB_HTYPE_REQUIRED then Some False
      else if htype f = PB_HTYPE_REPEATED then Some (load32 m psize = 0)
      else if htype f = PB_HTYPE_ONEOF then Some (load32 m psize = 0)
      else if htype f = PB_HTYPE_OPTIONAL \<and> size_offset f \<noteq> 0 then Some (\<not> load_bool m psize)
      else if atype f = PB_ATYPE_STATIC \<and> ltype f = PB_LTYPE_BYTES then Some (bytes_size m pd = 0)
      else if atype f = PB_ATYPE_STATIC \<and> ltype f = PB_LTYPE_STRING then Some (m pd = 0)
      else if atype f = PB_ATYPE_STATIC \<and> ltype f = PB_LTYPE_FIXED_LENGTH_BYTES
      then Some (data_size f = 0)
      else if atype f = PB_ATYPE_STATIC \<and> ltype f = PB_LTYPE_SUBMESSAGE
      then map_option fst
             (for_fields
               (\<lambda>it u. map_option (\<lambda>b. (b, u)) (pb_check_proto3_default_value n m (cur it) (pData it)))
               (submsg_fields (ptr f)) pd ())
      else Some (list_all (\<lambda>b. b = 0) (mem_read m pd (unat (data_size f)))))"

text \<open>
  \<^verbatim>\<open>encode_basic_field\<close>. The parameter \<open>chk\<close> is the check for the proto3 default value;
  \<open>implicit_has\<close> is the local variable \<^verbatim>\<open>pSize\<close> points at when the field has no size
  member, and is read as a number where the code reads a \<^verbatim>\<open>pb_size_t\<close> there.
\<close>

definition encode_basic_field :: "(pb_field \<Rightarrow> addr \<Rightarrow> bool option) \<Rightarrow> 's msg_encoder \<Rightarrow> mem \<Rightarrow> pb_field \<Rightarrow>
    addr \<Rightarrow> 's pb_ostream \<Rightarrow> (bool \<times> 's pb_ostream) option" where
  "encode_basic_field chk enc m f pd0 os =
     (case (if size_offset f \<noteq> 0 then Some False
            else if htype f = PB_HTYPE_OPTIONAL then map_option Not (chk f pd0)
            else Some True) of
        None \<Rightarrow> None
      | Some implicit_has0 \<Rightarrow>
          let pd = (if atype f = PB_ATYPE_POINTER then load64 m pd0 else pd0);
              implicit_has = (if atype f = PB_ATYPE_POINTER then pd \<noteq> 0 else implicit_has0);
              psize = pd0 + scast (size_offset f);
              has = (if size_offset f \<noteq> 0 then load_bool m psize else implicit_has);
              sz = (if size_offset f \<noteq> 0 then load32 m psize else if implicit_has then 1 else 0)
          in
          if htype f = PB_HTYPE_REQUIRED then
            (if pd = 0 then Some (oerror os ''missing required field'')
             else seq (Some (pb_encode_tag_for_field os f)) (call_encoder enc m f pd))
          else if htype f = PB_HTYPE_OPTIONAL then
            (if has then seq (Some (pb_encode_tag_for_field os f)) (call_encoder enc m f pd)
             else Some (True, os))
          else if htype f = PB_HTYPE_REPEATED then
            encode_array m f pd (ucast (if size_offset f \<noteq> 0 then sz else array_size f))
              (call_encoder enc m f) os
          else if htype f = PB_HTYPE_ONEOF then
            (if sz = tag f then seq (Some (pb_encode_tag_for_field os f)) (call_encoder enc m f pd)
             else Some (True, os))
          else Some (oerror os ''invalid field type''))"

definition encode_callback_field :: "'s enc_env \<Rightarrow> mem \<Rightarrow> pb_field \<Rightarrow> addr \<Rightarrow> 's pb_ostream \<Rightarrow>
    bool \<times> 's pb_ostream" where
  "encode_callback_field env m f pd os =
     (if cb_funcs m pd \<noteq> 0
      then (case enc_callback env (cb_funcs m pd) m f (cb_arg_ptr pd) os of
              (False, os) \<Rightarrow> oerror os ''callback error''
            | (True, os) \<Rightarrow> (True, os))
      else (True, os))"

definition encode_field :: "'s enc_env \<Rightarrow> (pb_field \<Rightarrow> addr \<Rightarrow> bool option) \<Rightarrow> 's msg_encoder \<Rightarrow> mem \<Rightarrow>
    pb_field \<Rightarrow> addr \<Rightarrow> 's pb_ostream \<Rightarrow> (bool \<times> 's pb_ostream) option" where
  "encode_field env chk enc m f pd os =
     (if atype f = PB_ATYPE_STATIC \<or> atype f = PB_ATYPE_POINTER
      then encode_basic_field chk enc m f pd os
      else if atype f = PB_ATYPE_CALLBACK then Some (encode_callback_field env m f pd os)
      else Some (oerror os ''invalid field type''))"

definition default_extension_encoder :: "'s enc_env \<Rightarrow> (pb_field \<Rightarrow> addr \<Rightarrow> bool option) \<Rightarrow> 's msg_encoder \<Rightarrow>
    mem \<Rightarrow> addr \<Rightarrow> 's pb_ostream \<Rightarrow> (bool \<times> 's pb_ostream) option" where
  "default_extension_encoder env chk enc m e os =
     (let f = ext_enc_arg env (ext_type m e) in
      if atype f = PB_ATYPE_POINTER then encode_field env chk enc m f (ext_dest_ptr e) os
      else encode_field env chk enc m f (ext_dest m e) os)"

fun encode_extensions :: "nat \<Rightarrow> 's enc_env \<Rightarrow> (pb_field \<Rightarrow> addr \<Rightarrow> bool option) \<Rightarrow> 's msg_encoder \<Rightarrow>
    mem \<Rightarrow> addr \<Rightarrow> 's pb_ostream \<Rightarrow> (bool \<times> 's pb_ostream) option" where
  "encode_extensions 0 env chk enc m e os = None"
| "encode_extensions (Suc n) env chk enc m e os =
     (if e = 0 then Some (True, os)
      else seq (case ext_encode env (ext_type m e) of
                  Some g \<Rightarrow> Some (g m e os)
                | None \<Rightarrow> default_extension_encoder env chk enc m e os)
               (encode_extensions n env chk enc m (ext_next m e)))"

definition encode_extension_field :: "nat \<Rightarrow> 's enc_env \<Rightarrow> (pb_field \<Rightarrow> addr \<Rightarrow> bool option) \<Rightarrow>
    's msg_encoder \<Rightarrow> mem \<Rightarrow> addr \<Rightarrow> 's pb_ostream \<Rightarrow> (bool \<times> 's pb_ostream) option" where
  "encode_extension_field n env chk enc m pd os =
     encode_extensions (Suc n) env chk enc m (load64 m pd) os"

section \<open>Encoding a message\<close>

fun pb_encode :: "nat \<Rightarrow> 's enc_env \<Rightarrow> mem \<Rightarrow> 's msg_encoder" where
  "pb_encode 0 env m fs src os = None"
| "pb_encode (Suc n) env m fs src os =
     for_fields
       (\<lambda>it os.
          if ltype (cur it) = PB_LTYPE_EXTENSION
          then encode_extension_field n env (pb_check_proto3_default_value (Suc n) m)
                 (pb_encode n env m) m (pData it) os
          else encode_field env (pb_check_proto3_default_value (Suc n) m)
                 (pb_encode n env m) m (cur it) (pData it) os)
       fs src os"

definition pb_encode_delimited :: "nat \<Rightarrow> 's enc_env \<Rightarrow> mem \<Rightarrow> 's msg_encoder" where
  "pb_encode_delimited n env m = pb_encode_submessage (pb_encode n env m)"

definition pb_encode_nullterminated :: "nat \<Rightarrow> 's enc_env \<Rightarrow> mem \<Rightarrow> 's msg_encoder" where
  "pb_encode_nullterminated n env m fs src os =
     seq (pb_encode n env m fs src os) (\<lambda>os. Some (pb_write os [0] 1))"

text \<open>The value stored through \<^verbatim>\<open>size\<close>, or none when the encoder reports failure.\<close>

definition pb_get_encoded_size :: "nat \<Rightarrow> 's enc_env \<Rightarrow> mem \<Rightarrow> pb_field list \<Rightarrow> addr \<Rightarrow> size_t option option" where
  "pb_get_encoded_size n env m fs src =
     map_option (\<lambda>(b, os). if b then Some (bytes_written os) else None)
       (pb_encode n env m fs src (PB_OSTREAM_SIZING :: 's pb_ostream))"

end
