(* ===== verification/Pb_Iter.thy ===== *)
theory Pb_Iter
  imports Pb_Common
begin

text \<open>
  What the iterator of \<^verbatim>\<open>pb_common.c\<close> does, stated without an iterator: \<open>place fs p\<close> lists
  the fields of a message at address \<open>p\<close>, each with the address of its data. The loops over
  the fields run through that list, and the search by tag finds the field the list has.
\<close>

section \<open>The fields of a message and their addresses\<close>

definition next_data :: "pb_field \<Rightarrow> addr \<Rightarrow> pb_field \<Rightarrow> addr" where
  "next_data prev pd f =
     (if htype prev = PB_HTYPE_ONEOF \<and> htype f = PB_HTYPE_ONEOF \<and> data_offset f = PB_SIZE_MAX then pd
      else pd + prev_size prev + ucast (data_offset f))"

fun place_from :: "pb_field \<Rightarrow> addr \<Rightarrow> pb_field list \<Rightarrow> (pb_field \<times> addr) list" where
  "place_from prev pd [] = []"
| "place_from prev pd (f # fs) =
     (if tag f = 0 then [] else (f, next_data prev pd f) # place_from f (next_data prev pd f) fs)"

fun place :: "pb_field list \<Rightarrow> addr \<Rightarrow> (pb_field \<times> addr) list" where
  "place [] p = []"
| "place (f # fs) p =
     (if tag f = 0 then []
      else (f, p + ucast (data_offset f)) # place_from f (p + ucast (data_offset f)) fs)"

primrec seq_all :: "('x \<Rightarrow> 'a \<Rightarrow> (bool \<times> 'a) option) \<Rightarrow> 'x list \<Rightarrow> 'a \<Rightarrow> (bool \<times> 'a) option" where
  "seq_all b [] s = Some (True, s)"
| "seq_all b (x # xs) s = seq (b x s) (seq_all b xs)"

text \<open>A descriptor array ends with the null entry and has no other.\<close>

definition terminated :: "pb_field list \<Rightarrow> bool" where
  "terminated fs \<longleftrightarrow> fs \<noteq> [] \<and> last fs = PB_LAST_FIELD \<and> list_all (\<lambda>f. tag f \<noteq> 0) (butlast fs)"

lemma tag_last [simp]: "tag PB_LAST_FIELD = 0"
  by (simp add: PB_LAST_FIELD_def)

section \<open>Loops\<close>

lemma place_from_in: "(f, q) \<in> set (place_from prev pd fs) \<Longrightarrow> f \<in> set fs"
  by (induction prev pd fs rule: place_from.induct) (auto split: if_splits)

lemma place_in: "(f, q) \<in> set (place fs p) \<Longrightarrow> f \<in> set fs"
  by (cases fs) (auto dest: place_from_in split: if_splits)

lemma seq_all_Nil: "seq_all b [] = (\<lambda>s. Some (True, s))"
  by (rule ext) simp

lemma iter_loop_place:
  assumes "tag (cur it) \<noteq> 0"
  shows "iter_loop (\<lambda>it. b (cur it, pData it)) it s =
    seq (b (cur it, pData it) s) (seq_all b (place_from (cur it) (pData it) (drop (Suc (pos it)) (start it))))"
  using assms
proof (induction "length (start it) - pos it" arbitrary: it s rule: less_induct)
  case less
  let ?n = "field_at (start it) (pos it + 1)"
  obtain r it' where nx: "pb_field_iter_next it = (r, it')" by (cases "pb_field_iter_next it")
  have r: "r = (tag ?n \<noteq> 0)" using fst_next [of it] nx less.prems by simp
  show ?case
  proof (cases "tag ?n = 0")
    case True
    have "place_from (cur it) (pData it) (drop (Suc (pos it)) (start it)) = []"
      using True by (cases "drop (Suc (pos it)) (start it)")
        (auto simp: field_at_def nth_via_drop split: if_splits)
    then show ?thesis using r True nx by (simp add: iter_loop.simps [of _ it] seq_all_Nil)
  next
    case False
    then have lt: "Suc (pos it) < length (start it)" using field_at_nonzero [of "start it" "pos it + 1"] by simp
    have it': "start it' = start it" "pos it' = Suc (pos it)" "cur it' = ?n"
      using start_next [of it] pos_next [of it] nx less.prems False by auto
    have pd: "pData it' = next_data (cur it) (pData it) ?n"
      using nx False less.prems by (auto simp: pb_field_iter_next_def next_data_def Let_def split: if_splits)
    have d: "drop (Suc (pos it)) (start it) = ?n # drop (Suc (Suc (pos it))) (start it)"
      using lt by (simp add: field_at_def Cons_nth_drop_Suc)
    have "length (start it') - pos it' < length (start it) - pos it" using it' lt by simp
    then have IH: "iter_loop (\<lambda>it. b (cur it, pData it)) it' s =
        seq_all b (place_from (cur it) (pData it) (drop (Suc (pos it)) (start it))) s" for s
      using less.hyps [of it' s] it' pd d False by simp
    show ?thesis using r False nx by (simp add: iter_loop.simps [of _ it] IH)
  qed
qed

lemma for_fields_place: "for_fields (\<lambda>it. b (cur it, pData it)) fs p s = seq_all b (place fs p) s"
proof (cases "tag (field_at fs 0) = 0")
  case True
  then have "place fs p = []" by (cases fs) (auto simp: field_at_def)
  then show ?thesis using True by (simp add: for_fields_def pb_field_iter_begin_def Let_def)
next
  case False
  then obtain f gs where fs: "fs = f # gs" using field_at_nonzero [of fs 0] by (cases fs) auto
  let ?it = "snd (pb_field_iter_begin fs p)"
  have c: "cur ?it = f" "pData ?it = p + ucast (data_offset f)"
    using fs by (simp_all add: field_at_def pb_field_iter_begin_def Let_def)
  have "for_fields (\<lambda>it. b (cur it, pData it)) fs p s = iter_loop (\<lambda>it. b (cur it, pData it)) ?it s"
    using False by (simp add: for_fields_def pb_field_iter_begin_def Let_def)
  also have "\<dots> = seq_all b (place fs p) s"
    using iter_loop_place [of ?it b s] c False fs by (simp add: field_at_def)
  finally show ?thesis .
qed


section \<open>The position of the iterator\<close>

lemma length_place_from:
  "terminated (f # fs) \<Longrightarrow> tag f \<noteq> 0 \<Longrightarrow> length (place_from f pd fs) = length fs - 1"
proof (induction f pd fs rule: place_from.induct)
  case (1 prev pd)
  then show ?case by (simp add: terminated_def PB_LAST_FIELD_def)
next
  case (2 prev pd f fs)
  then show ?case by (cases fs) (auto simp: terminated_def PB_LAST_FIELD_def split: if_splits)
qed

lemma length_place: "terminated fs \<Longrightarrow> length (place fs p) = length fs - 1"
  by (cases fs) (auto simp: length_place_from terminated_def PB_LAST_FIELD_def split: if_splits)

text \<open>
  \<open>iter_at it i\<close>: the iterator stands on the field \<open>i\<close> of its message and its data pointer
  is that field's.
\<close>

definition iter_at :: "pb_field_iter \<Rightarrow> nat \<Rightarrow> bool" where
  "iter_at it i \<longleftrightarrow> terminated (start it) \<and> pos it = i \<and>
     i < length (place (start it) (dest_struct it)) \<and>
     (cur it, pData it) = place (start it) (dest_struct it) ! i"

lemma place_from_nth:
  "Suc i < length (place_from prev pd fs) \<Longrightarrow>
     place_from prev pd fs ! Suc i =
       (fs ! Suc i, next_data (fst (place_from prev pd fs ! i)) (snd (place_from prev pd fs ! i)) (fs ! Suc i))"
proof (induction prev pd fs arbitrary: i rule: place_from.induct)
  case (1 prev pd)
  then show ?case by simp
next
  case (2 prev pd f fs)
  then have f: "tag f \<noteq> 0" by (auto split: if_splits)
  show ?case
  proof (cases i)
    case 0
    then show ?thesis using 2(2) f by (cases fs) (auto split: if_splits)
  next
    case (Suc j)
    then show ?thesis using 2(1) [OF f, of j] 2(2) f by simp
  qed
qed

lemma place_nth:
  assumes "Suc i < length (place fs p)"
  shows "place fs p ! Suc i =
     (fs ! Suc i, next_data (fst (place fs p ! i)) (snd (place fs p ! i)) (fs ! Suc i))"
proof (cases fs)
  case Nil
  then show ?thesis using assms by simp
next
  case (Cons f gs)
  then have f: "tag f \<noteq> 0" using assms by (auto split: if_splits)
  show ?thesis
  proof (cases i)
    case 0
    then show ?thesis using assms Cons f by (cases gs) (auto split: if_splits)
  next
    case (Suc j)
    then show ?thesis using place_from_nth [of j f "p + ucast (data_offset f)" gs] assms Cons f by simp
  qed
qed

lemma terminated_tag: "terminated fs \<Longrightarrow> tag (field_at fs i) \<noteq> 0 \<longleftrightarrow> i < length fs - 1"
proof -
  assume t: "terminated fs"
  then have fs: "fs = butlast fs @ [PB_LAST_FIELD]" by (metis terminated_def append_butlast_last_id)
  have "tag (fs ! i) \<noteq> 0" if "i < length fs - 1"
    using t that by (simp add: terminated_def list_all_length nth_butlast)
  moreover have "tag (fs ! i) = 0" if "i = length fs - 1"
    using t that last_conv_nth [of fs] tag_last by (metis terminated_def)
  moreover have "i < length fs - 1 \<or> i = length fs - 1 \<or> length fs \<le> i" by linarith
  ultimately show ?thesis by (auto simp: field_at_def)
qed

lemma iter_at_begin:
  assumes "terminated fs" "length fs \<noteq> 1"
  shows "iter_at (snd (pb_field_iter_begin fs p)) 0"
proof -
  obtain f gs where fs: "fs = f # gs" "gs \<noteq> []" using assms by (cases fs) (auto simp: terminated_def)
  then have "tag f \<noteq> 0" using terminated_tag [OF assms(1), of 0] by (simp add: field_at_def)
  then show ?thesis using assms(1) fs
    by (simp add: iter_at_def pb_field_iter_begin_def field_at_def Let_def)
qed

lemma iter_at_next:
  assumes at: "iter_at it i" and n: "n = length (place (start it) (dest_struct it))"
  shows "fst (pb_field_iter_next it) = (Suc i < n)"
    "iter_at (snd (pb_field_iter_next it)) (if Suc i < n then Suc i else 0)"
proof -
  have t: "terminated (start it)" "pos it = i" "i < n"
    and c: "place (start it) (dest_struct it) ! i = (cur it, pData it)"
    using at n by (auto simp: iter_at_def)
  have l: "n = length (start it) - 1" using n length_place t(1) by simp
  have z: "tag (cur it) \<noteq> 0" "tag (field_at (start it) (pos it + 1)) \<noteq> 0 \<longleftrightarrow> Suc i < n"
    using terminated_tag [OF t(1)] t l by simp_all
  show f: "fst (pb_field_iter_next it) = (Suc i < n)" using z fst_next by simp
  let ?it = "snd (pb_field_iter_next it)"
  show "iter_at ?it (if Suc i < n then Suc i else 0)"
  proof (cases "Suc i < n")
    case True
    have sl: "Suc i < length (start it)" using True l by linarith
    have q: "pos ?it = Suc i" using pos_next [of it] z True t by simp
    have "pData ?it = next_data (cur it) (pData it) (field_at (start it) (pos it + 1))"
      using z True by (auto simp: pb_field_iter_next_def next_data_def Let_def)
    then have "(cur ?it, pData ?it) = place (start it) (dest_struct it) ! Suc i"
      using place_nth [of i "start it" "dest_struct it"] True n c t q sl by (simp add: field_at_def)
    then show ?thesis using True n t q by (simp add: iter_at_def)
  next
    case False
    have "?it = snd (pb_field_iter_begin (start it) (dest_struct it))"
      using z False by (simp add: pb_field_iter_next_def Let_def)
    moreover have "length (start it) \<noteq> 1" using l t(3) by linarith
    ultimately show ?thesis using iter_at_begin [OF t(1)] False by simp
  qed
qed

lemma place_field: "i < length (place fs p) \<Longrightarrow> fst (place fs p ! i) = field_at fs i"
proof -
  assume i: "i < length (place fs p)"
  have "length (place_from g q gs) \<le> length gs" for g q gs
    by (induction g q gs rule: place_from.induct) auto
  then have l: "length (place fs p) \<le> length fs" by (cases fs) (auto simp: le_SucI)
  show ?thesis
  proof (cases i)
    case 0
    then show ?thesis using i by (cases fs) (auto simp: field_at_def split: if_splits)
  next
    case (Suc k)
    then show ?thesis using place_nth [of k fs p] i l by (simp add: field_at_def)
  qed
qed

section \<open>The search by tag\<close>

text \<open>
  The walk of \<^verbatim>\<open>pb_field_iter_find\<close> visits the fields after the first one it looks at, round
  the end, until it is back; the bound on its steps is never reached.
\<close>

lemma iter_find_loop_found:
  "iter_find_loop k st P it = (True, it') \<Longrightarrow> iter_at it i \<Longrightarrow>
     start it' = start it \<and> dest_struct it' = dest_struct it \<and> P (cur it') \<and> (\<exists>j. iter_at it' j)"
proof (induction k arbitrary: it i)
  case (Suc k)
  show ?case
  proof (cases "P (cur it)")
    case True
    then show ?thesis using Suc.prems by auto
  next
    case False
    then have "iter_find_loop k st P (snd (pb_field_iter_next it)) = (True, it')"
      using Suc.prems(1) by (auto simp: Let_def split: if_splits)
    then show ?thesis using Suc.IH iter_at_next(2) [OF Suc.prems(2) refl] by fastforce
  qed
qed simp

definition ahead :: "nat \<Rightarrow> nat \<Rightarrow> nat \<Rightarrow> nat set" where
  "ahead n st i = (if i < st then {i..<st} else {i..<n} \<union> {0..<st})"

lemma ahead_step:
  assumes "j \<in> ahead n st i" "j \<noteq> i" "i < n" "st < n"
  shows "(if Suc i < n then Suc i else 0) \<noteq> st" "j \<in> ahead n st (if Suc i < n then Suc i else 0)"
  using assms by (auto simp: ahead_def split: if_splits)

lemma iter_find_loop_finds:
  assumes "iter_at it i" "n = length (place (start it) (dest_struct it))" "st < n"
    "j \<in> ahead n st i" "P (field_at (start it) j)" "card (ahead n st i) \<le> k"
  shows "fst (iter_find_loop k st P it)"
  using assms
proof (induction k arbitrary: it i)
  case 0
  then show ?case by (auto simp: ahead_def split: if_splits)
next
  case (Suc k)
  have i: "i < n" "pos it = i" using Suc.prems(1,2) by (auto simp: iter_at_def)
  show ?case
  proof (cases "P (cur it)")
    case True
    then show ?thesis by simp
  next
    case False
    let ?it = "snd (pb_field_iter_next it)" and ?i = "if Suc i < n then Suc i else 0"
    have ji: "j \<noteq> i" using False Suc.prems(5) i by auto
    note step = ahead_step [OF Suc.prems(4) ji i(1) Suc.prems(3)]
    have at: "iter_at ?it ?i" using iter_at_next(2) [OF Suc.prems(1,2)] .
    have "ahead n st i = insert i (ahead n st ?i)" "i \<notin> ahead n st ?i"
      using step i Suc.prems(3) by (auto simp: ahead_def split: if_splits)
    then have "card (ahead n st ?i) \<le> k" using Suc.prems(6) by (simp add: ahead_def)
    then have "fst (iter_find_loop k st P ?it)"
      using Suc.IH [OF at _ Suc.prems(3) step(2)] Suc.prems(2,5) by simp
    moreover have "pos ?it \<noteq> st" using at step(1) by (simp add: iter_at_def)
    ultimately show ?thesis using False by (simp add: Let_def)
  qed
qed

lemma ahead_all: "st < n \<Longrightarrow> ahead n st st = {0..<n}"
  by (auto simp: ahead_def)

lemma pb_field_iter_find_iff:
  assumes at: "iter_at it i" and n: "n = length (place (start it) (dest_struct it))"
  shows "fst (pb_field_iter_find it tg) \<longleftrightarrow>
    (\<exists>j<n. tag (field_at (start it) j) = tg \<and> ltype (field_at (start it) j) \<noteq> PB_LTYPE_EXTENSION)"
    (is "?L = ?R")
proof
  let ?P = "\<lambda>f. tag f = tg \<and> ltype f \<noteq> PB_LTYPE_EXTENSION"
  assume L: ?L
  obtain it' where "pb_field_iter_find it tg = (True, it')" using L by (metis prod.collapse)
  then obtain j where "start it' = start it" "dest_struct it' = dest_struct it" "?P (cur it')" "iter_at it' j"
    using iter_find_loop_found at unfolding pb_field_iter_find_def by blast
  then show ?R using n by (auto simp: iter_at_def)
next
  assume ?R
  then obtain j where j: "j < n" "tag (field_at (start it) j) = tg" "ltype (field_at (start it) j) \<noteq> PB_LTYPE_EXTENSION"
    by blast
  have i: "pos it = i" "i < n" using at n by (simp_all add: iter_at_def)
  have "n = length (start it) - 1" using at n length_place by (simp add: iter_at_def)
  then have "card (ahead n i i) \<le> length (start it) + 1" using ahead_all [OF i(2)] by simp
  then show ?L unfolding pb_field_iter_find_def i(1)
    using j ahead_all [OF i(2)] by (intro iter_find_loop_finds [OF at n i(2), of j]) simp_all
qed

text \<open>
  C26: the search by tag is exact. From any field of a message, \<^verbatim>\<open>pb_field_iter_find\<close> succeeds if and only if some
  field of the message has the tag and is not the extension placeholder; then the iterator stands on such a field, with
  the address of that field's data, however far round the array it had to walk.
\<close>

theorem pb_field_iter_find_correct:
  assumes "iter_at it i"
  shows "(fst (pb_field_iter_find it tg) \<longleftrightarrow>
      (\<exists>(f, a) \<in> set (place (start it) (dest_struct it)). tag f = tg \<and> ltype f \<noteq> PB_LTYPE_EXTENSION))
    \<and> (fst (pb_field_iter_find it tg) \<longrightarrow>
      (\<exists>j it'. pb_field_iter_find it tg = (True, it') \<and> iter_at it' j \<and> start it' = start it
         \<and> dest_struct it' = dest_struct it \<and> tag (cur it') = tg
         \<and> (cur it', pData it') = place (start it) (dest_struct it) ! j))"
proof -
  let ?pl = "place (start it) (dest_struct it)"
  have "fst (pb_field_iter_find it tg) \<longleftrightarrow>
      (\<exists>(f, a) \<in> set ?pl. tag f = tg \<and> ltype f \<noteq> PB_LTYPE_EXTENSION)"
  proof -
    have "(\<exists>x \<in> set ?pl. P (fst x)) \<longleftrightarrow> (\<exists>j<length ?pl. P (field_at (start it) j))" for P
      by (metis in_set_conv_nth place_field)
    from this [of "\<lambda>f. tag f = tg \<and> ltype f \<noteq> PB_LTYPE_EXTENSION"] show ?thesis
      unfolding pb_field_iter_find_iff [OF assms refl] case_prod_beta' by simp
  qed
  moreover have "\<exists>j it'. pb_field_iter_find it tg = (True, it') \<and> iter_at it' j \<and> start it' = start it
      \<and> dest_struct it' = dest_struct it \<and> tag (cur it') = tg \<and> (cur it', pData it') = ?pl ! j"
    if found: "fst (pb_field_iter_find it tg)"
  proof -
    obtain it' where it': "pb_field_iter_find it tg = (True, it')" using found by (metis prod.collapse)
    then obtain j where "start it' = start it" "dest_struct it' = dest_struct it" "tag (cur it') = tg" "iter_at it' j"
      using iter_find_loop_found assms unfolding pb_field_iter_find_def by blast
    moreover from this have "(cur it', pData it') = ?pl ! j" unfolding iter_at_def by metis
    ultimately show ?thesis using it' by blast
  qed
  ultimately show ?thesis by blast
qed

text \<open>Three fields, the iterator on the second; the search for the first goes round the end.\<close>

definition three_fields :: "pb_field list" where
  "three_fields = [pb_field 1 0 0 0 4 0 Null_ptr, pb_field 5 0x22 4 0 2 3 Null_ptr, pb_field 9 0 2 0 8 0 Null_ptr, PB_LAST_FIELD]"

theorem pb_field_iter_find_correct_witness:
  "fst (pb_field_iter_find (snd (pb_field_iter_next (snd (pb_field_iter_begin three_fields 0x100)))) 1)"
proof -
  let ?it = "snd (pb_field_iter_begin three_fields 0x100)"
  have t: "terminated three_fields" "length three_fields \<noteq> 1" by code_simp+
  have "length (place three_fields 0x100) = 3" using length_place [OF t(1)] by (simp add: three_fields_def)
  then have "iter_at (snd (pb_field_iter_next ?it)) 1" using iter_at_next(2) [OF iter_at_begin [OF t, of "0x100"] refl] by simp
  from pb_field_iter_find_correct [OF this, of 1] show ?thesis by (simp add: three_fields_def PB_LTYPE_def)
qed

end
