(* ===== verification/Pb_Istream.thy ===== *)
theory Pb_Istream
  imports Pb_Types
begin

text \<open>
  The input side of \<^verbatim>\<open>nanopb\<close>: \<^verbatim>\<open>pb_istream_t\<close> of \<^verbatim>\<open>pb_decode.h\<close> and the functions of
  \<^verbatim>\<open>pb_decode.c\<close> that read scalars, tags and length-delimited substreams.
\<close>

section \<open>Input streams\<close>

text \<open>
  The callback of a stream and its state: the buffer reader \<^verbatim>\<open>buf_read\<close> (its state, a
  pointer into the buffer, is the list of the bytes from there to the end of the buffer) or
  a callback of the caller with its own state, which returns its status, the bytes it
  stored and its new state.
\<close>

datatype 's isource =
    Buffer_at "byte list"
  | Reader "'s \<Rightarrow> size_t \<Rightarrow> bool \<times> byte list \<times> 's" 's

record 's pb_istream =
  isource :: "'s isource"
  bytes_left :: size_t
  ierrmsg :: "string option"

definition set_ierror :: "'s pb_istream \<Rightarrow> string \<Rightarrow> 's pb_istream" where
  "set_ierror ist msg = ist\<lparr>ierrmsg := (case ierrmsg ist of None \<Rightarrow> Some msg | Some e \<Rightarrow> Some e)\<rparr>"

definition buf_read :: "byte list \<Rightarrow> size_t \<Rightarrow> bool \<times> byte list \<times> byte list" where
  "buf_read src count = (True, take (unat count) src, drop (unat count) src)"

fun run_isource :: "'s isource \<Rightarrow> size_t \<Rightarrow> bool \<times> byte list \<times> 's isource" where
  "run_isource (Buffer_at src) count =
     (case buf_read src count of (b, bs, src') \<Rightarrow> (b, bs, Buffer_at src'))"
| "run_isource (Reader f s) count =
     (case f s count of (b, bs, s') \<Rightarrow> (b, bs, Reader f s'))"

definition pb_istream_from_buffer :: "byte list \<Rightarrow> size_t \<Rightarrow> 's pb_istream" where
  "pb_istream_from_buffer buf bufsize =
     \<lparr>isource = Buffer_at buf, bytes_left = bufsize, ierrmsg = None\<rparr>"

text \<open>
  \<^verbatim>\<open>pb_read\<close> with a buffer to read into. The bytes stored there are returned, also when
  the callback fails after storing some of them.
\<close>

definition pb_read :: "'s pb_istream \<Rightarrow> size_t \<Rightarrow> bool \<times> byte list \<times> 's pb_istream" where
  "pb_read ist count =
     (if bytes_left ist < count then (False, [], set_ierror ist ''end-of-stream'')
      else (case run_isource (isource ist) count of
              (False, bs, k) \<Rightarrow> (False, bs, set_ierror (ist\<lparr>isource := k\<rparr>) ''io error'')
            | (True, bs, k) \<Rightarrow> (True, bs, ist\<lparr>isource := k, bytes_left := bytes_left ist - count\<rparr>)))"

lemma pb_read_True:
  assumes "pb_read ist count = (True, bs, ist')"
  shows "count \<le> bytes_left ist" "bytes_left ist' = bytes_left ist - count" "ierrmsg ist' = ierrmsg ist"
  using assms by (auto simp: pb_read_def split: if_splits prod.splits bool.splits)

lemma pb_read_less:
  assumes "pb_read ist count = (True, bs, ist')" "count \<noteq> 0"
  shows "unat (bytes_left ist') < unat (bytes_left ist)"
  using pb_read_True [OF assms(1)] assms(2)
  by (simp add: unat_sub word_le_nat_alt unat_gt_0) (metis diff_less le_zero_eq not_gr_zero unat_eq_zero)

lemma chunk_less: "16 < count \<Longrightarrow> unat (count - 16) < unat count" for count :: size_t
  by (simp add: unat_sub word_le_nat_alt word_less_nat_alt)

text \<open>
  \<^verbatim>\<open>pb_read\<close> with a null buffer: a stream with a callback of its own is read in pieces of
  16 bytes into a temporary.
\<close>

function pb_skip_chunks :: "'s pb_istream \<Rightarrow> size_t \<Rightarrow> bool \<times> 's pb_istream" where
  "pb_skip_chunks ist count =
     (if count > 16
      then (case pb_read ist 16 of
              (False, _, ist') \<Rightarrow> (False, ist')
            | (True, _, ist') \<Rightarrow> pb_skip_chunks ist' (count - 16))
      else (case pb_read ist count of (b, _, ist') \<Rightarrow> (b, ist')))"
  by pat_completeness auto
termination
  by (relation "measure (\<lambda>(ist, count). unat count)") (auto simp: chunk_less)

declare pb_skip_chunks.simps [simp del]

definition pb_read_null :: "'s pb_istream \<Rightarrow> size_t \<Rightarrow> bool \<times> 's pb_istream" where
  "pb_read_null ist count =
     (case isource ist of
        Reader _ _ \<Rightarrow> pb_skip_chunks ist count
      | Buffer_at _ \<Rightarrow> (case pb_read ist count of (b, _, ist') \<Rightarrow> (b, ist')))"

definition pb_readbyte :: "'s pb_istream \<Rightarrow> byte option \<times> 's pb_istream" where
  "pb_readbyte ist =
     (if bytes_left ist = 0 then (None, set_ierror ist ''end-of-stream'')
      else (case run_isource (isource ist) 1 of
              (False, bs, k) \<Rightarrow> (None, set_ierror (ist\<lparr>isource := k\<rparr>) ''io error'')
            | (True, bs, k) \<Rightarrow>
                (Some (case bs of [] \<Rightarrow> 0 | b # _ \<Rightarrow> b),
                 ist\<lparr>isource := k, bytes_left := bytes_left ist - 1\<rparr>)))"

lemma pb_readbyte_less:
  "pb_readbyte ist = (Some b, ist') \<Longrightarrow> unat (bytes_left ist') < unat (bytes_left ist)"
  by (auto simp: pb_readbyte_def unat_minus_one unat_gt_0 split: if_splits prod.splits bool.splits)

section \<open>Scalar readers\<close>

text \<open>
  \<^verbatim>\<open>pb_decode_varint32_eof\<close>. On the targets \<^verbatim>\<open>uint_fast8_t\<close> has eight bits, so
  \<^verbatim>\<open>bitpos\<close> is a \<^typ>\<open>8 word\<close>. The loop returns none when the code returns false. The flag
  is what the code stores through \<^verbatim>\<open>eof\<close>.
\<close>

function varint32_loop :: "'s pb_istream \<Rightarrow> uint8 \<Rightarrow> uint32 \<Rightarrow> (uint32 \<times> uint8 \<times> byte) option \<times> 's pb_istream" where
  "varint32_loop ist bitpos result =
     (case pb_readbyte ist of
        (None, ist') \<Rightarrow> (None, ist')
      | (Some byte, ist') \<Rightarrow>
          if bitpos \<ge> 32
             \<and> byte AND 0x7F \<noteq> 0
             \<and> (drop_bit 31 result = 0 \<or> byte \<noteq> (if bitpos < 63 then 0xFF else 0x01))
          then (None, set_ierror ist' ''varint overflow'')
          else
            let result' = (if bitpos \<ge> 32 then result
                           else result OR push_bit (unat bitpos) (ucast (byte AND 0x7F)));
                bitpos' = bitpos + 7
            in if byte AND 0x80 \<noteq> 0 then varint32_loop ist' bitpos' result'
               else (Some (result', bitpos', byte), ist'))"
  by pat_completeness auto
termination
  by (relation "measure (\<lambda>(ist, _, _). unat (bytes_left ist))")
     (auto dest: pb_readbyte_less [OF sym])

declare varint32_loop.simps [simp del]

definition pb_decode_varint32_eof :: "'s pb_istream \<Rightarrow> uint32 option \<times> bool \<times> 's pb_istream" where
  "pb_decode_varint32_eof ist =
     (case pb_readbyte ist of
        (None, ist') \<Rightarrow> (None, bytes_left ist' = 0, ist')
      | (Some byte, ist') \<Rightarrow>
          if byte AND 0x80 = 0 then (Some (ucast byte), False, ist')
          else (case varint32_loop ist' 7 (ucast (byte AND 0x7F)) of
                  (None, ist'') \<Rightarrow> (None, False, ist'')
                | (Some (result, bitpos, byte), ist'') \<Rightarrow>
                    if bitpos = 35 \<and> byte AND 0x70 \<noteq> 0
                    then (None, False, set_ierror ist'' ''varint overflow'')
                    else (Some result, False, ist'')))"

definition pb_decode_varint32 :: "'s pb_istream \<Rightarrow> uint32 option \<times> 's pb_istream" where
  "pb_decode_varint32 ist = (case pb_decode_varint32_eof ist of (r, _, ist') \<Rightarrow> (r, ist'))"

function varint_loop :: "'s pb_istream \<Rightarrow> uint8 \<Rightarrow> uint64 \<Rightarrow> uint64 option \<times> 's pb_istream" where
  "varint_loop ist bitpos result =
     (if bitpos \<ge> 64 then (None, set_ierror ist ''varint overflow'')
      else (case pb_readbyte ist of
              (None, ist') \<Rightarrow> (None, ist')
            | (Some byte, ist') \<Rightarrow>
                let result' = result OR push_bit (unat bitpos) (ucast (byte AND 0x7F));
                    bitpos' = bitpos + 7
                in if byte AND 0x80 \<noteq> 0 then varint_loop ist' bitpos' result'
                   else (Some result', ist')))"
  by pat_completeness auto
termination
  by (relation "measure (\<lambda>(ist, _, _). unat (bytes_left ist))")
     (auto dest: pb_readbyte_less [OF sym])

declare varint_loop.simps [simp del]

definition pb_decode_varint :: "'s pb_istream \<Rightarrow> uint64 option \<times> 's pb_istream" where
  "pb_decode_varint ist = varint_loop ist 0 0"

definition pb_decode_svarint :: "'s pb_istream \<Rightarrow> uint64 option \<times> 's pb_istream" where
  "pb_decode_svarint ist =
     (case pb_decode_varint ist of
        (None, ist') \<Rightarrow> (None, ist')
      | (Some v, ist') \<Rightarrow>
          (Some (if v AND 1 \<noteq> 0 then NOT (drop_bit 1 v) else drop_bit 1 v), ist'))"

text \<open>
  The word assembled by \<^verbatim>\<open>pb_decode_fixed32\<close> and \<^verbatim>\<open>pb_decode_fixed64\<close> from the local
  array \<^verbatim>\<open>bytes\<close>.
\<close>

definition pb_decode_fixed32 :: "'s pb_istream \<Rightarrow> uint32 option \<times> 's pb_istream" where
  "pb_decode_fixed32 ist =
     (case pb_read ist 4 of
        (False, _, ist') \<Rightarrow> (None, ist')
      | (True, bytes, ist') \<Rightarrow>
          (Some (push_bit 0 (ucast (bytes ! 0)) OR push_bit 8 (ucast (bytes ! 1)) OR
                 push_bit 16 (ucast (bytes ! 2)) OR push_bit 24 (ucast (bytes ! 3))), ist'))"

definition pb_decode_fixed64 :: "'s pb_istream \<Rightarrow> uint64 option \<times> 's pb_istream" where
  "pb_decode_fixed64 ist =
     (case pb_read ist 8 of
        (False, _, ist') \<Rightarrow> (None, ist')
      | (True, bytes, ist') \<Rightarrow>
          (Some (push_bit 0 (ucast (bytes ! 0)) OR push_bit 8 (ucast (bytes ! 1)) OR
                 push_bit 16 (ucast (bytes ! 2)) OR push_bit 24 (ucast (bytes ! 3)) OR
                 push_bit 32 (ucast (bytes ! 4)) OR push_bit 40 (ucast (bytes ! 5)) OR
                 push_bit 48 (ucast (bytes ! 6)) OR push_bit 56 (ucast (bytes ! 7))), ist'))"

section \<open>Skipping\<close>

function pb_skip_varint :: "'s pb_istream \<Rightarrow> bool \<times> 's pb_istream" where
  "pb_skip_varint ist =
     (case pb_read ist 1 of
        (False, _, ist') \<Rightarrow> (False, ist')
      | (True, bs, ist') \<Rightarrow>
          if bs \<noteq> [] \<and> hd bs AND 0x80 \<noteq> 0 then pb_skip_varint ist' else (True, ist'))"
  by pat_completeness auto
termination
  by (relation "measure (\<lambda>ist. unat (bytes_left ist))") (auto dest: pb_read_less [OF sym])

declare pb_skip_varint.simps [simp del]

definition pb_skip_string :: "'s pb_istream \<Rightarrow> bool \<times> 's pb_istream" where
  "pb_skip_string ist =
     (case pb_decode_varint32 ist of
        (None, ist') \<Rightarrow> (False, ist')
      | (Some len, ist') \<Rightarrow> pb_read_null ist' (ucast len))"

definition pb_skip_field :: "'s pb_istream \<Rightarrow> pb_wire_type_t \<Rightarrow> bool \<times> 's pb_istream" where
  "pb_skip_field ist wire_type =
     (if wire_type = PB_WT_VARINT then pb_skip_varint ist
      else if wire_type = PB_WT_64BIT then pb_read_null ist 8
      else if wire_type = PB_WT_STRING then pb_skip_string ist
      else if wire_type = PB_WT_32BIT then pb_read_null ist 4
      else (False, set_ierror ist ''invalid wire_type''))"

section \<open>Tags, raw values and substreams\<close>

text \<open>
  \<^verbatim>\<open>pb_decode_tag\<close>: the wire type and the tag, or none when it returns false; the flag is
  \<^verbatim>\<open>*eof\<close>.
\<close>

definition pb_decode_tag :: "'s pb_istream \<Rightarrow> (pb_wire_type_t \<times> uint32) option \<times> bool \<times> 's pb_istream" where
  "pb_decode_tag ist =
     (case pb_decode_varint32_eof ist of
        (None, eof, ist') \<Rightarrow> (None, eof, ist')
      | (Some temp, eof, ist') \<Rightarrow>
          if temp = 0 then (None, True, ist')
          else (Some (temp AND 7, drop_bit 3 temp), eof, ist'))"

text \<open>
  \<^verbatim>\<open>read_raw_value\<close>: the bytes it stored in the caller's buffer of \<open>max_size\<close> bytes.
\<close>

function read_raw_varint :: "'s pb_istream \<Rightarrow> nat \<Rightarrow> bool \<times> byte list \<times> 's pb_istream" where
  "read_raw_varint ist max_size =
     (if max_size = 0 then (False, [], ist)
      else (case pb_read ist 1 of
              (False, bs, ist') \<Rightarrow> (False, bs, ist')
            | (True, bs, ist') \<Rightarrow>
                if bs \<noteq> [] \<and> hd bs AND 0x80 \<noteq> 0
                then (case read_raw_varint ist' (max_size - 1) of (b, bs', ist'') \<Rightarrow> (b, bs @ bs', ist''))
                else (True, bs, ist')))"
  by pat_completeness auto
termination
  by (relation "measure (\<lambda>(ist, k). k)") auto

declare read_raw_varint.simps [simp del]

definition read_raw_value :: "'s pb_istream \<Rightarrow> pb_wire_type_t \<Rightarrow> nat \<Rightarrow> bool \<times> byte list \<times> 's pb_istream" where
  "read_raw_value ist wire_type max_size =
     (if wire_type = PB_WT_VARINT then read_raw_varint ist max_size
      else if wire_type = PB_WT_64BIT then pb_read ist 8
      else if wire_type = PB_WT_32BIT then pb_read ist 4
      else (False, [], set_ierror ist ''invalid wire_type''))"

text \<open>
  \<^verbatim>\<open>pb_make_string_substream\<close> returns the parent stream and, on success, the substream;
  \<^verbatim>\<open>pb_close_string_substream\<close> drains the substream and hands its position back.
\<close>

definition pb_make_string_substream :: "'s pb_istream \<Rightarrow> 's pb_istream option \<times> 's pb_istream" where
  "pb_make_string_substream ist =
     (case pb_decode_varint32 ist of
        (None, ist') \<Rightarrow> (None, ist')
      | (Some sz, ist') \<Rightarrow>
          if bytes_left ist' < ucast sz then (None, set_ierror ist' ''parent stream too short'')
          else (Some (ist'\<lparr>bytes_left := ucast sz\<rparr>), ist'\<lparr>bytes_left := bytes_left ist' - ucast sz\<rparr>))"

definition pb_close_string_substream :: "'s pb_istream \<Rightarrow> 's pb_istream \<Rightarrow> bool \<times> 's pb_istream" where
  "pb_close_string_substream ist substream =
     (case (if bytes_left substream \<noteq> 0 then pb_read_null substream (bytes_left substream)
            else (True, substream)) of
        (False, _) \<Rightarrow> (False, ist)
      | (True, sub) \<Rightarrow> (True, ist\<lparr>isource := isource sub, ierrmsg := ierrmsg sub\<rparr>))"

end
