(* ===== verification/Pb_Streams.thy ===== *)
theory Pb_Streams
  imports Pb_Ostream Pb_Istream
begin

text \<open>
  The contracts of stream callbacks and the laws of streams over any callback that keeps
  them. \<^verbatim>\<open>pb_decode.h\<close> and \<^verbatim>\<open>pb_encode.h\<close> state the rules for callbacks; the locales
  \<open>byte_source\<close> and \<open>byte_sink\<close> state them once, the lemmas about \<^verbatim>\<open>pb_read\<close>,
  \<^verbatim>\<open>pb_readbyte\<close>, \<^verbatim>\<open>pb_read\<close> with a null buffer, substreams and \<^verbatim>\<open>pb_write\<close> are proved in
  them, and the buffer callbacks \<^verbatim>\<open>buf_read\<close> and \<^verbatim>\<open>buf_write\<close> are shown to be instances.
\<close>

section \<open>Sources\<close>

text \<open>
  \<open>stream_at D ist bs rest\<close>: the stream has the bytes \<open>bs\<close> left to give, and its source
  (related to its bytes by \<open>D\<close>) goes on with \<open>rest\<close> after them, as it does in a substream.
\<close>

definition stream_at ::
    "('s isource \<Rightarrow> byte list \<Rightarrow> bool) \<Rightarrow> 's pb_istream \<Rightarrow> byte list \<Rightarrow> byte list \<Rightarrow> bool" where
  "stream_at D ist bs rest \<longleftrightarrow> D (isource ist) (bs @ rest) \<and> unat (bytes_left ist) = length bs"

definition from_buffer :: "'s isource \<Rightarrow> byte list \<Rightarrow> bool" where
  "from_buffer k bs \<longleftrightarrow> k = Buffer_at bs"

lemma stream_at_buffer:
  "length bs < 2 ^ 64 \<Longrightarrow> stream_at from_buffer (pb_istream_from_buffer bs (of_nat (length bs))) bs []"
  by (simp add: stream_at_def from_buffer_def pb_istream_from_buffer_def unat_of_nat)

lemma stream_at_errmsg [simp]: "stream_at D (set_ierror ist e) bs rest = stream_at D ist bs rest"
  by (simp add: stream_at_def set_ierror_def)

lemma set_ierror_fields [simp]:
  "bytes_left (set_ierror ist e) = bytes_left ist" "isource (set_ierror ist e) = isource ist"
  by (simp_all add: set_ierror_def)

lemma set_ierror_None: "ierrmsg ist = None \<Longrightarrow> ierrmsg (set_ierror ist e) = Some e"
  by (simp add: set_ierror_def)

locale byte_source =
  fixes delivers :: "'s isource \<Rightarrow> byte list \<Rightarrow> bool"
  assumes deliver: "delivers k bs \<Longrightarrow> unat n \<le> length bs \<Longrightarrow>
    \<exists>k'. run_isource k n = (True, take (unat n) bs, k') \<and> delivers k' (drop (unat n) bs)"
begin

lemma pb_read_at:
  assumes "stream_at delivers ist (us @ vs) rest" "unat n = length us"
  shows "\<exists>ist'. pb_read ist n = (True, us, ist') \<and> stream_at delivers ist' vs rest
           \<and> ierrmsg ist' = ierrmsg ist"
proof -
  have l: "unat (bytes_left ist) = length us + length vs"
    using assms(1) by (simp add: stream_at_def)
  have d: "delivers (isource ist) (us @ vs @ rest)"
    using assms(1) by (simp add: stream_at_def)
  obtain k' where k: "run_isource (isource ist) n = (True, us, k')" "delivers k' (vs @ rest)"
    using deliver [OF d, of n] assms(2) by auto
  have le: "n \<le> bytes_left ist" using l assms(2) by (simp add: word_le_nat_alt)
  have "unat (bytes_left ist - n) = length vs" using l assms(2) le by (simp add: unat_sub)
  then show ?thesis using k le by (auto simp: pb_read_def stream_at_def)
qed

lemma pb_read_short:
  assumes "stream_at delivers ist bs rest" "length bs < unat n"
  shows "pb_read ist n = (False, [], set_ierror ist ''end-of-stream'')"
  using assms by (simp add: pb_read_def stream_at_def word_less_nat_alt)

lemma pb_readbyte_at:
  assumes "stream_at delivers ist (b # bs) rest"
  shows "\<exists>ist'. pb_readbyte ist = (Some b, ist') \<and> stream_at delivers ist' bs rest
           \<and> ierrmsg ist' = ierrmsg ist"
proof -
  have l: "unat (bytes_left ist) = Suc (length bs)" and d: "delivers (isource ist) (b # bs @ rest)"
    using assms by (simp_all add: stream_at_def)
  obtain k' where k: "run_isource (isource ist) 1 = (True, [b], k')" "delivers k' (bs @ rest)"
    using deliver [OF d, of 1] by auto
  have nz: "bytes_left ist \<noteq> 0" using l by auto
  then have "unat (bytes_left ist - 1) = length bs" using l by (simp add: unat_minus_one)
  then show ?thesis using k nz by (auto simp: pb_readbyte_def stream_at_def)
qed

lemma pb_readbyte_end:
  assumes "stream_at delivers ist [] rest"
  shows "pb_readbyte ist = (None, set_ierror ist ''end-of-stream'')"
  using assms by (simp add: pb_readbyte_def stream_at_def unat_eq_zero)

lemma pb_skip_chunks_at:
  assumes "stream_at delivers ist (us @ vs) rest" "unat n = length us"
  shows "\<exists>ist'. pb_skip_chunks ist n = (True, ist') \<and> stream_at delivers ist' vs rest
           \<and> ierrmsg ist' = ierrmsg ist"
  using assms
proof (induction ist n arbitrary: us rule: pb_skip_chunks.induct)
  case (1 ist n)
  show ?case
  proof (cases "n > 16")
    case False
    then show ?thesis using pb_read_at [OF "1.prems"]
      by (auto simp: pb_skip_chunks.simps [of ist n])
  next
    case True
    then have l: "16 < length us" using "1.prems"(2) by (simp add: word_less_nat_alt)
    have "stream_at delivers ist (take 16 us @ (drop 16 us @ vs)) rest"
      using "1.prems"(1) by (simp flip: append_assoc)
    then obtain ist1 where r: "pb_read ist 16 = (True, take 16 us, ist1)"
        "stream_at delivers ist1 (drop 16 us @ vs) rest" "ierrmsg ist1 = ierrmsg ist"
      using pb_read_at [of ist "take 16 us" "drop 16 us @ vs" rest 16] l by auto
    have u: "unat (n - 16) = length (drop 16 us)"
      using True "1.prems"(2) by (simp add: unat_sub word_le_nat_alt word_less_nat_alt)
    show ?thesis using "1.IH" [OF True r(1) [symmetric] refl refl r(2) u] True r
      by (auto simp: pb_skip_chunks.simps [of ist n])
  qed
qed

lemma pb_read_null_at:
  assumes "stream_at delivers ist (us @ vs) rest" "unat n = length us"
  shows "\<exists>ist'. pb_read_null ist n = (True, ist') \<and> stream_at delivers ist' vs rest
           \<and> ierrmsg ist' = ierrmsg ist"
  using pb_read_at [OF assms] pb_skip_chunks_at [OF assms]
  by (auto simp: pb_read_null_def split: isource.splits)

text \<open>Closing a substream brings the parent to the byte after it, read or not.\<close>

lemma pb_close_string_substream_at:
  assumes sub: "stream_at delivers sub us (vs @ rest)" and ist: "unat (bytes_left ist) = length vs"
  shows "\<exists>ist'. pb_close_string_substream ist sub = (True, ist') \<and> stream_at delivers ist' vs rest
           \<and> ierrmsg ist' = ierrmsg sub"
proof (cases "bytes_left sub = 0")
  case True
  then have "us = []" using sub by (simp add: stream_at_def)
  then show ?thesis using True assms by (simp add: pb_close_string_substream_def stream_at_def)
next
  case False
  have "stream_at delivers sub (us @ []) (vs @ rest)" "unat (bytes_left sub) = length us"
    using sub by (simp_all add: stream_at_def)
  then obtain sub' where s: "pb_read_null sub (bytes_left sub) = (True, sub')"
      "stream_at delivers sub' [] (vs @ rest)" "ierrmsg sub' = ierrmsg sub"
    using pb_read_null_at by blast
  then show ?thesis using False ist by (auto simp: pb_close_string_substream_def stream_at_def)
qed

end

text \<open>
  A callback with its own state, with the rules of \<^verbatim>\<open>pb_decode.h\<close>: it stores exactly the
  bytes asked for and moves its state past them. It gives a source.
\<close>

locale reader =
  fixes f :: "'s \<Rightarrow> size_t \<Rightarrow> bool \<times> byte list \<times> 's" and content :: "'s \<Rightarrow> byte list"
  assumes read_bytes: "unat n \<le> length (content s) \<Longrightarrow>
    \<exists>s'. f s n = (True, take (unat n) (content s), s') \<and> content s' = drop (unat n) (content s)"
begin

lemma deliver_reader:
  assumes "\<exists>s. k = Reader f s \<and> content s = bs" "unat n \<le> length bs"
  shows "\<exists>k'. run_isource k n = (True, take (unat n) bs, k')
           \<and> (\<exists>s. k' = Reader f s \<and> content s = drop (unat n) bs)"
proof -
  obtain s where s: "k = Reader f s" "content s = bs" using assms(1) by blast
  obtain s' where "f s n = (True, take (unat n) bs, s')" "content s' = drop (unat n) bs"
    using read_bytes [of n s] s(2) assms(2) by auto
  then show ?thesis using s by simp
qed

end

sublocale reader \<subseteq> source: byte_source "\<lambda>k bs. \<exists>s. k = Reader f s \<and> content s = bs"
  by unfold_locales (rule deliver_reader)

interpretation buf_source: byte_source from_buffer
  by unfold_locales (simp add: from_buffer_def buf_read_def)

interpretation buf_reader: reader buf_read "\<lambda>src. src"
  by unfold_locales (simp add: buf_read_def)

section \<open>Sinks\<close>

locale byte_sink =
  fixes holds :: "'s osink \<Rightarrow> byte list \<Rightarrow> bool"
  assumes accept: "holds k d \<Longrightarrow> unat n \<le> length buf \<Longrightarrow>
      \<exists>k'. run_osink k buf n = (True, k') \<and> holds k' (d @ take (unat n) buf)"
    and not_sizing: "\<not> holds Sizing d"
begin

lemma pb_write_room:
  assumes "holds (osink os) d" "unat (bytes_written os) + length bs \<le> unat (max_size os)"
  shows "\<exists>os'. pb_write os bs (of_nat (length bs)) = (True, os') \<and> holds (osink os') (d @ bs)
           \<and> bytes_written os' = bytes_written os + of_nat (length bs)
           \<and> max_size os' = max_size os \<and> oerrmsg os' = oerrmsg os"
proof -
  have m: "unat (max_size os) < 2 ^ 64" by (rule unat_less64)
  have n: "unat (of_nat (length bs) :: size_t) = length bs"
    using assms(2) m by (simp add: unat_of_nat)
  have "unat (bytes_written os + of_nat (length bs)) = unat (bytes_written os) + length bs"
    using assms(2) m n by (simp add: unat_word_ariths)
  then have le: "\<not> max_size os < bytes_written os + of_nat (length bs)"
    using assms(2) by (simp add: word_less_nat_alt)
  obtain k' where k: "run_osink (osink os) bs (of_nat (length bs)) = (True, k')" "holds k' (d @ bs)"
    using accept [OF assms(1), of "of_nat (length bs)" bs] n by auto
  then show ?thesis using le assms(1) not_sizing
    by (cases "osink os") (auto simp: pb_write_def)
qed

lemma pb_write_full:
  assumes "holds (osink os) d" "unat (max_size os) < unat (bytes_written os) + length bs"
    "unat (bytes_written os) + length bs < 2 ^ 64"
  shows "pb_write os bs (of_nat (length bs)) = oerror os ''stream full''"
proof -
  have n: "unat (of_nat (length bs) :: size_t) = length bs" using assms(3) by (simp add: unat_of_nat)
  have "unat (bytes_written os + of_nat (length bs)) = unat (bytes_written os) + length bs"
    using assms(3) n by (simp add: unat_word_ariths)
  then have "max_size os < bytes_written os + of_nat (length bs)"
    using assms(2) by (simp add: word_less_nat_alt)
  then show ?thesis using assms(1) not_sizing by (cases "osink os") (auto simp: pb_write_def)
qed

end

definition in_buffer :: "'s osink \<Rightarrow> byte list \<Rightarrow> bool" where
  "in_buffer k d \<longleftrightarrow> k = Buffer d"

interpretation buf_sink: byte_sink in_buffer
  by unfold_locales (simp_all add: in_buffer_def buf_write_def)

lemma pb_write_sizing:
  "osink os = Sizing \<Longrightarrow> pb_write os bs n = (True, os\<lparr>bytes_written := bytes_written os + n\<rparr>)"
  by (simp add: pb_write_def)

end
