(* ===== verification/Varint.thy ===== *)
theory Varint
  imports Prelude
begin

text \<open>
  The variable length form of a number that both codecs of the program use (\<^verbatim>\<open>nanopb\<close> and the
  storage engine): base 128, the least significant group first, the top bit of a byte set when
  another follows. \<open>varint_bytes\<close> is the form of a natural number, \<open>le7\<close> reads such a byte list
  back; the lemmas here are those that the two encoders and the decoders share.
\<close>

section \<open>Reference form\<close>

fun varint_bytes :: "nat \<Rightarrow> byte list" where
  "varint_bytes n = (if n < 128 then [of_nat n] else of_nat (n mod 128 + 128) # varint_bytes (n div 128))"

declare varint_bytes.simps [simp del]

primrec le7 :: "byte list \<Rightarrow> nat" where
  "le7 [] = 0"
| "le7 (b # bs) = unat b mod 128 + 128 * le7 bs"

text \<open>The continuation bit.\<close>

definition more :: "byte \<Rightarrow> bool" where
  "more b \<longleftrightarrow> b AND 0x80 \<noteq> 0"

lemma more_iff_bit: "more b = bit b 7"
  by (simp add: more_def and_exp_eq_0_iff_not_bit [of b 7, simplified])

lemma and_7F: "b AND 0x7F = take_bit 7 b" for b :: "'a::len word"
  by (simp add: take_bit_eq_mask mask_eq_exp_minus_1)

lemma unat_and_7F: "unat (b AND 0x7F) = unat b mod 128" for b :: "'a::len word"
  by (simp only: and_7F unsigned_take_bit_eq) (simp add: take_bit_eq_mod)

lemma more_iff: "more b \<longleftrightarrow> 128 \<le> unat b"
proof -
  have lt: "unat b < 256" using unsigned_less [of b, where ?'a = nat] by simp
  have "bit b 7 \<longleftrightarrow> bit (unat b) 7" by (simp add: bit_unsigned_iff)
  also have "\<dots> \<longleftrightarrow> odd (unat b div 128)" by (simp add: bit_iff_odd)
  also have "\<dots> \<longleftrightarrow> 128 \<le> unat b"
  proof (cases "unat b < 128")
    case False
    then have "unat b div 128 = 1" using lt by (simp add: div_nat_eqI)
    then show ?thesis using False by simp
  qed simp
  finally show ?thesis by (simp add: more_iff_bit)
qed

lemma unat_group: "unat (of_nat (n mod 128 + 128) :: byte) = n mod 128 + 128"
proof -
  have "n mod 128 + 128 < 256" by (simp add: trans_less_add1)
  then show ?thesis by (subst unat_of_nat) simp
qed

lemma group_byte:
  "ucast ((v AND 0x7F) OR 0x80) = (of_nat (unat v mod 128 + 128) :: byte)" for v :: uint64
proof -
  have d: "(v AND 0x7F) AND 0x80 = 0" by (simp add: and.assoc)
  have "((v AND 0x7F) AND 0x80) + ((v AND 0x7F) OR 0x80) = (v AND 0x7F) + 0x80"
    by (rule word_plus_and_or)
  then have "(v AND 0x7F) OR 0x80 = (v AND 0x7F) + 0x80" by (simp only: d add_0)
  moreover have "unat ((v AND 0x7F) + 0x80) = unat v mod 128 + 128"
    by (simp add: unat_word_ariths unat_and_7F)
  ultimately have "unat ((v AND 0x7F) OR 0x80) = unat v mod 128 + 128" by simp
  then show ?thesis by (metis of_nat_unat)
qed

lemma group_byte_last:
  "ucast ((v AND 0x7F) OR 0x80) AND 0x7F = (of_nat (unat v mod 128) :: byte)" for v :: uint64
proof -
  have "unat (ucast ((v AND 0x7F) OR 0x80) AND 0x7F :: byte) = unat v mod 128"
    by (simp only: group_byte unat_and_7F unat_group) simp
  then show ?thesis by (metis of_nat_unat ucast_id)
qed

lemma le7_varint_bytes: "le7 (varint_bytes n) = n"
proof (induction n rule: varint_bytes.induct)
  case (1 n)
  show ?case
  proof (cases "n < 128")
    case True
    then show ?thesis by (subst varint_bytes.simps) (simp add: unat_of_nat)
  next
    case False
    then show ?thesis using 1
      by (subst varint_bytes.simps) (simp add: unat_group del: of_nat_add)
  qed
qed

lemma varint_bytes_shape:
  "\<exists>us b. varint_bytes n = us @ [b] \<and> list_all more us \<and> \<not> more b"
proof (induction n rule: varint_bytes.induct)
  case (1 n)
  show ?case
  proof (cases "n < 128")
    case True
    then show ?thesis by (subst varint_bytes.simps) (auto simp: more_iff unat_of_nat)
  next
    case False
    then obtain us b where IH: "varint_bytes (n div 128) = us @ [b]" "list_all more us" "\<not> more b"
      using 1 by blast
    have "more (of_nat (n mod 128 + 128))" by (simp only: more_iff unat_group)
    with False IH have "varint_bytes n = (of_nat (n mod 128 + 128) # us) @ [b]"
      "list_all more (of_nat (n mod 128 + 128) # us)"
      by (simp_all add: varint_bytes.simps [of n])
    then show ?thesis using IH(3) by blast
  qed
qed

lemma varint_bytes_length: "n < 128 ^ k \<Longrightarrow> 0 < k \<Longrightarrow> length (varint_bytes n) \<le> k"
proof (induction k arbitrary: n)
  case 0
  then show ?case by simp
next
  case (Suc k)
  show ?case
  proof (cases "n < 128")
    case True
    then show ?thesis by (simp add: varint_bytes.simps [of n])
  next
    case False
    then have "0 < k" using Suc.prems by (cases k) auto
    moreover have "n div 128 < 128 ^ k" using Suc.prems by (simp add: less_mult_imp_div_less mult.commute)
    ultimately show ?thesis using Suc.IH [of "n div 128"] False by (simp add: varint_bytes.simps [of n])
  qed
qed

lemma varint_bytes_length64: "length (varint_bytes (unat (v :: uint64))) \<le> 10"
proof -
  have "unat v < 128 ^ 10" by (rule less_trans [OF unat_less64]) simp
  then show ?thesis by (rule varint_bytes_length) simp
qed

section \<open>Collecting groups\<close>

lemma bit_of_nat_small: "x < 2 ^ k \<Longrightarrow> bit (of_nat x :: 'a::len word) i \<Longrightarrow> i < k"
proof (rule ccontr)
  assume a: "x < 2 ^ k" "bit (of_nat x :: 'a word) i" "\<not> i < k"
  then have "bit x i" by (simp add: bit_of_nat_iff)
  moreover have "x < 2 ^ i" using a by (meson less_le_trans not_le one_le_numeral power_increasing)
  ultimately show False by (simp add: bit_iff_odd)
qed

lemma or_group:
  assumes "x < 2 ^ k"
  shows "of_nat x OR push_bit k (of_nat g) = (of_nat (x + 2 ^ k * g) :: 'a::len word)"
proof -
  have d: "(of_nat x AND push_bit k (of_nat g) :: 'a word) = 0"
    by (rule bit_word_eqI)
       (auto simp: bit_and_iff bit_push_bit_iff dest: bit_of_nat_small [OF assms])
  have "(of_nat x OR push_bit k (of_nat g) :: 'a word) = of_nat x + push_bit k (of_nat g)"
    using word_plus_and_or [of "of_nat x :: 'a word" "push_bit k (of_nat g)"] by (simp only: d add_0)
  then show ?thesis by (simp add: push_bit_eq_mult mult.commute)
qed

lemma ucast_group: "(ucast (b AND 0x7F) :: 'a::len word) = of_nat (unat b mod 128)" for b :: byte
  by (metis of_nat_unat unat_and_7F)

lemma le7_append: "le7 (us @ vs) = le7 us + 128 ^ length us * le7 vs"
  by (induction us) (simp_all add: algebra_simps)

lemma le7_less: "le7 us < 128 ^ length us"
proof (induction us)
  case (Cons u us)
  have "unat u mod 128 < 128" by simp
  then show ?case using Cons.IH by (simp del: mod_less_divisor)
qed simp

lemma group_bound: "x < 2 ^ (7 * i) \<Longrightarrow> x + 2 ^ (7 * i) * (g mod 128) < 2 ^ (7 * Suc i)" for x g :: nat
proof -
  assume x: "x < 2 ^ (7 * i)"
  have "g mod 128 \<le> 127" by (simp add: less_Suc_eq_le [symmetric])
  then have "2 ^ (7 * i) * (g mod 128) \<le> 2 ^ (7 * i) * 127" by (rule mult_le_mono2)
  then have "x + 2 ^ (7 * i) * (g mod 128) < 2 ^ (7 * i) + 2 ^ (7 * i) * 127"
    using x by (rule add_less_le_mono [rotated])
  then show ?thesis by (simp add: power_add)
qed

end
