(* ===== verification/Pb_Varint.thy ===== *)
theory Pb_Varint
  imports Pb_Streams Varint
begin

text \<open>
  Varints of \<^verbatim>\<open>nanopb\<close>: the encoder writes exactly the reference form \<open>varint_bytes\<close>; the
  decoders read it, and any longer form of the same number, back.
\<close>

section \<open>Encoding\<close>

lemma varint_groups_last:
  assumes "v \<noteq> 0"
  shows "let g = varint_groups v; i = length g in
    0 < i \<and> g[i - 1 := (g ! (i - 1)) AND 0x7F] = varint_bytes (unat v)"
  using assms
proof (induction v rule: varint_groups.induct)
  case (1 v)
  let ?w = "drop_bit 7 v"
  have w: "unat ?w = unat v div 128" by (simp add: unat_shift_right)
  show ?case
  proof (cases "?w = 0")
    case True
    then have "unat v < 128" using w by (metis div_eq_0_iff unat_0 zero_neq_numeral)
    then show ?thesis using "1.prems" True
      by (simp add: group_byte_last varint_groups.simps [of v] varint_groups.simps [of 0] varint_bytes.simps [of "unat v"])
  next
    case False
    then have "\<not> unat v < 128" using w by (metis div_less unat_eq_zero)
    then show ?thesis using "1.IH" [OF "1.prems" False] "1.prems" w
      by (auto simp: group_byte varint_groups.simps [of v] varint_bytes.simps [of "unat v"] Let_def nth_Cons'
          list_update.simps split: nat.splits)
  qed
qed

lemma pb_encode_varint_ref:
  "pb_encode_varint os v = pb_write os (varint_bytes (unat v)) (of_nat (length (varint_bytes (unat v))))"
proof (cases "v \<le> 0x7F")
  case True
  then have "unat v < 128" by (simp add: word_le_nat_alt)
  moreover have "ucast v = (of_nat (unat v) :: byte)" by simp
  ultimately show ?thesis using True by (simp add: pb_encode_varint_def varint_bytes.simps [of "unat v"])
next
  case False
  then have "v \<noteq> 0" by auto
  then show ?thesis using varint_groups_last [of v] False
    by (simp add: pb_encode_varint_def Let_def) (metis length_list_update)
qed


section \<open>Decoding\<close>

lemma bitpos_unat: "i \<le> 9 \<Longrightarrow> unat (of_nat (7 * i) :: uint8) = 7 * i"
  by (simp only: unat_of_nat) simp

lemma bitpos_64: "i \<le> 9 \<Longrightarrow> (of_nat (7 * i) :: uint8) < 64"
  by (simp only: word_less_nat_alt bitpos_unat) simp

lemma bitpos_Suc: "of_nat (7 * i) + 7 = (of_nat (7 * Suc i) :: uint8)"
  by simp

lemma varint_loop_step:
  "bitpos < 64 \<Longrightarrow> pb_readbyte ist = (Some b, ist') \<Longrightarrow>
     varint_loop ist bitpos r =
       (let r' = r OR push_bit (unat bitpos) (of_nat (unat b mod 128))
        in if more b then varint_loop ist' (bitpos + 7) r' else (Some r', ist'))"
  by (simp only: varint_loop.simps [of ist bitpos] not_le [symmetric] if_False simp_thms
      prod.case option.case ucast_group more_def Let_def)

lemma varint_loop_group:
  assumes "i \<le> 9" "pb_readbyte ist = (Some b, ist')" "x < 2 ^ (7 * i)"
  shows "varint_loop ist (of_nat (7 * i)) (of_nat x) =
     (let x' = x + 2 ^ (7 * i) * (unat b mod 128)
      in if more b then varint_loop ist' (of_nat (7 * Suc i)) (of_nat x') else (Some (of_nat x'), ist'))"
  by (simp only: varint_loop_step [OF bitpos_64 [OF assms(1)] assms(2)] bitpos_unat [OF assms(1)]
      or_group [OF assms(3)] bitpos_Suc Let_def)

lemma bitpos_32: "i \<le> 4 \<Longrightarrow> (of_nat (7 * i) :: uint8) < 32"
  by (simp only: word_less_nat_alt bitpos_unat) simp

lemma varint32_loop_step:
  "bitpos < 32 \<Longrightarrow> pb_readbyte ist = (Some b, ist') \<Longrightarrow>
     varint32_loop ist bitpos r =
       (let r' = r OR push_bit (unat bitpos) (of_nat (unat b mod 128))
        in if more b then varint32_loop ist' (bitpos + 7) r' else (Some (r', bitpos + 7, b), ist'))"
  by (simp only: varint32_loop.simps [of ist bitpos] not_le [symmetric] if_False simp_thms
      prod.case option.case ucast_group more_def Let_def)

lemma varint32_loop_group:
  assumes "i \<le> 4" "pb_readbyte ist = (Some b, ist')" "x < 2 ^ (7 * i)"
  shows "varint32_loop ist (of_nat (7 * i)) (of_nat x) =
     (let x' = x + 2 ^ (7 * i) * (unat b mod 128)
      in if more b then varint32_loop ist' (of_nat (7 * Suc i)) (of_nat x')
         else (Some (of_nat x', of_nat (7 * Suc i), b), ist'))"
proof -
  have i: "i \<le> 9" using assms(1) by simp
  show ?thesis
    by (simp only: varint32_loop_step [OF bitpos_32 [OF assms(1)] assms(2)] bitpos_unat [OF i]
      or_group [OF assms(3)] bitpos_Suc Let_def)
qed

text \<open>Past the 32nd bit only the bytes of a sign extension are accepted.\<close>

lemma varint32_loop_sign:
  assumes "32 \<le> bitpos" "pb_readbyte ist = (Some b, ist')" "drop_bit 31 r \<noteq> 0"
    "b = (if bitpos < 63 then 0xFF else 0x01)"
  shows "varint32_loop ist bitpos r =
     (if bitpos < 63 then varint32_loop ist' (bitpos + 7) r else (Some (r, bitpos + 7, b), ist'))"
  using assms by (auto simp: varint32_loop.simps [of ist bitpos] Let_def)

lemma varint32_eof_more:
  assumes "pb_readbyte ist = (Some u, ist1)" "more u"
    "varint32_loop ist1 (of_nat (7 * 1)) (of_nat (unat u mod 128)) = (Some (r, bitpos, b), ist2)"
    "bitpos = 35 \<longrightarrow> b AND 0x70 = 0"
  shows "pb_decode_varint32_eof ist = (Some r, False, ist2)"
  using assms by (simp add: pb_decode_varint32_eof_def ucast_group more_def)

lemma and_70: "unat b < 16 \<Longrightarrow> b AND 0x70 = 0" for b :: byte
proof -
  assume "unat b < 16"
  moreover have "unat (b AND 0x0F) = unat b mod 16"
  proof -
    have "b AND 0x0F = take_bit 4 b" by (simp add: take_bit_eq_mask mask_eq_exp_minus_1)
    then show ?thesis by (simp only: unsigned_take_bit_eq) (simp add: take_bit_eq_mod)
  qed
  ultimately have "b = b AND 0x0F" by (simp add: word_unat_eq_iff)
  then have "b AND 0x70 = b AND (0x0F AND 0x70)" by (metis and.assoc)
  then show ?thesis by simp
qed

text \<open>The low groups of a number, each marked for continuation.\<close>

primrec groups :: "nat \<Rightarrow> nat \<Rightarrow> byte list" where
  "groups 0 n = []"
| "groups (Suc k) n = of_nat (n mod 128 + 128) # groups k (n div 128)"

lemma varint_bytes_groups:
  "128 ^ k \<le> n \<Longrightarrow> varint_bytes n = groups k n @ varint_bytes (n div 128 ^ k)"
proof (induction k arbitrary: n)
  case 0
  then show ?case by simp
next
  case (Suc k)
  have "128 ^ k \<le> n div 128" using Suc.prems by (simp add: less_eq_div_iff_mult_less_eq mult.commute)
  moreover have "\<not> n < 128" using Suc.prems
    by (metis le_trans mult_le_mono2 mult.right_neutral not_less one_le_numeral one_le_power power_Suc)
  ultimately show ?case using Suc.IH [of "n div 128"]
    by (simp add: varint_bytes.simps [of n] div_mult2_eq)
qed

lemma length_groups [simp]: "length (groups k n) = k"
  by (induction k arbitrary: n) simp_all

lemma more_groups: "list_all more (groups k n)"
  by (induction k arbitrary: n) (simp_all add: more_iff unat_group del: of_nat_add)

lemma le7_groups: "le7 (groups k n) = n mod 128 ^ k"
proof (induction k arbitrary: n)
  case 0
  then show ?case by simp
next
  case (Suc k)
  have "le7 (groups (Suc k) n) = n mod 128 + 128 * (n div 128 mod 128 ^ k)"
    by (simp only: groups.simps le7.simps unat_group Suc) simp
  also have "\<dots> = n mod 128 ^ Suc k" by (simp add: mod_mult2_eq)
  finally show ?case .
qed

context byte_source
begin

text \<open>
  The loop of \<^verbatim>\<open>pb_decode_varint\<close> over bytes that ask for more; then its three ends: a last
  byte, ten bytes without one, and a stream that stops in the middle.
\<close>

lemma varint_loop_groups:
  assumes "stream_at delivers ist (us @ bs) rest" "list_all more us" "i + length us \<le> 10" "x < 2 ^ (7 * i)"
  shows "\<exists>ist'. varint_loop ist (of_nat (7 * i)) (of_nat x) =
             varint_loop ist' (of_nat (7 * (i + length us))) (of_nat (x + 2 ^ (7 * i) * le7 us))
           \<and> stream_at delivers ist' bs rest \<and> ierrmsg ist' = ierrmsg ist"
  using assms
proof (induction us arbitrary: ist i x)
  case Nil
  then show ?case by auto
next
  case (Cons u us)
  obtain ist1 where r: "pb_readbyte ist = (Some u, ist1)" "stream_at delivers ist1 (us @ bs) rest"
      "ierrmsg ist1 = ierrmsg ist"
    using pb_readbyte_at Cons.prems(1) by fastforce
  let ?x = "x + 2 ^ (7 * i) * (unat u mod 128)"
  have i: "i \<le> 9" using Cons.prems(3) by simp
  have step: "varint_loop ist (of_nat (7 * i)) (of_nat x) = varint_loop ist1 (of_nat (7 * Suc i)) (of_nat ?x)"
    using varint_loop_group [OF i r(1) Cons.prems(4)] Cons.prems(2) by (simp add: Let_def)
  have e: "?x + 2 ^ (7 * Suc i) * le7 us = x + 2 ^ (7 * i) * le7 (u # us)"
    by (simp add: algebra_simps power_add)
  have l: "Suc i + length us = i + length (u # us)" by simp
  have "\<exists>ist'. varint_loop ist1 (of_nat (7 * Suc i)) (of_nat ?x) =
             varint_loop ist' (of_nat (7 * (Suc i + length us))) (of_nat (?x + 2 ^ (7 * Suc i) * le7 us))
           \<and> stream_at delivers ist' bs rest \<and> ierrmsg ist' = ierrmsg ist1"
    using Cons.prems by (intro Cons.IH [OF r(2)] group_bound) simp_all
  then show ?case using r(3) by (simp only: step e l)
qed

lemma pb_decode_varint_groups:
  assumes "stream_at delivers ist (us @ bs) rest" "list_all more us" "length us \<le> 10"
  shows "\<exists>ist'. pb_decode_varint ist = varint_loop ist' (of_nat (7 * length us)) (of_nat (le7 us))
           \<and> stream_at delivers ist' bs rest \<and> ierrmsg ist' = ierrmsg ist"
  using varint_loop_groups [OF assms(1,2), of 0 0] assms(3) by (simp add: pb_decode_varint_def)

lemma pb_decode_varint_overflow:
  assumes "stream_at delivers ist (us @ bs) rest" "list_all more us" "length us = 10"
  shows "\<exists>ist'. pb_decode_varint ist = (None, set_ierror ist' ''varint overflow'')
           \<and> stream_at delivers ist' bs rest \<and> ierrmsg ist' = ierrmsg ist"
  using pb_decode_varint_groups [OF assms(1,2)] assms(3) by (auto simp: varint_loop.simps)

lemma pb_decode_varint_truncated:
  assumes "stream_at delivers ist us rest" "list_all more us" "length us \<le> 9"
  shows "\<exists>ist'. pb_decode_varint ist = (None, set_ierror ist' ''end-of-stream'')
           \<and> stream_at delivers ist' [] rest \<and> ierrmsg ist' = ierrmsg ist"
proof -
  obtain ist1 where r: "pb_decode_varint ist = varint_loop ist1 (of_nat (7 * length us)) (of_nat (le7 us))"
      "stream_at delivers ist1 [] rest" "ierrmsg ist1 = ierrmsg ist"
    using pb_decode_varint_groups [of ist us "[]" rest] assms by auto
  then have "pb_decode_varint ist = (None, set_ierror ist1 ''end-of-stream'')"
    using bitpos_64 [OF assms(3)] by (simp add: varint_loop.simps [of ist1] pb_readbyte_end not_le [symmetric])
  then show ?thesis using r by blast
qed

lemma pb_decode_varint_value:
  assumes "stream_at delivers ist (us @ b # bs) rest" "list_all more us" "\<not> more b" "length us \<le> 9"
  shows "\<exists>ist'. pb_decode_varint ist = (Some (of_nat (le7 (us @ [b]))), ist')
           \<and> stream_at delivers ist' bs rest \<and> ierrmsg ist' = ierrmsg ist"
proof -
  obtain ist1 where r: "pb_decode_varint ist = varint_loop ist1 (of_nat (7 * length us)) (of_nat (le7 us))"
      "stream_at delivers ist1 (b # bs) rest" "ierrmsg ist1 = ierrmsg ist"
    using pb_decode_varint_groups [OF assms(1,2)] assms(4) by auto
  obtain ist2 where b: "pb_readbyte ist1 = (Some b, ist2)" "stream_at delivers ist2 bs rest"
      "ierrmsg ist2 = ierrmsg ist1"
    using pb_readbyte_at r(2) by blast
  have "le7 us < 2 ^ (7 * length us)" using le7_less [of us] by (simp add: power_mult)
  from varint_loop_group [OF assms(4) b(1) this] assms(3)
  have "varint_loop ist1 (of_nat (7 * length us)) (of_nat (le7 us)) = (Some (of_nat (le7 (us @ [b]))), ist2)"
    by (simp add: Let_def le7_append power_mult)
  then show ?thesis using r b by simp
qed

lemma pb_decode_varint_at:
  assumes "stream_at delivers ist (varint_bytes (unat v) @ bs) rest"
  shows "\<exists>ist'. pb_decode_varint ist = (Some v, ist')
           \<and> stream_at delivers ist' bs rest \<and> ierrmsg ist' = ierrmsg ist"
proof -
  obtain us b where u: "varint_bytes (unat v) = us @ [b]" "list_all more us" "\<not> more b"
    using varint_bytes_shape by blast
  have "length us \<le> 9" using varint_bytes_length64 [of v] u(1) by simp
  moreover have "of_nat (le7 (us @ [b])) = v"
    using le7_varint_bytes [of "unat v"] u(1) by (simp del: le7.simps)
  ultimately show ?thesis using pb_decode_varint_value [OF _ u(2,3), of ist bs rest] assms u(1) by simp
qed

text \<open>\<^verbatim>\<open>pb_decode_varint32_eof\<close>\<close>

lemma varint32_loop_groups:
  assumes "stream_at delivers ist (us @ bs) rest" "list_all more us" "i + length us \<le> 5" "x < 2 ^ (7 * i)"
  shows "\<exists>ist'. varint32_loop ist (of_nat (7 * i)) (of_nat x) =
             varint32_loop ist' (of_nat (7 * (i + length us))) (of_nat (x + 2 ^ (7 * i) * le7 us))
           \<and> stream_at delivers ist' bs rest \<and> ierrmsg ist' = ierrmsg ist"
  using assms
proof (induction us arbitrary: ist i x)
  case Nil
  then show ?case by auto
next
  case (Cons u us)
  obtain ist1 where r: "pb_readbyte ist = (Some u, ist1)" "stream_at delivers ist1 (us @ bs) rest"
      "ierrmsg ist1 = ierrmsg ist"
    using pb_readbyte_at Cons.prems(1) by fastforce
  let ?x = "x + 2 ^ (7 * i) * (unat u mod 128)"
  have i: "i \<le> 4" using Cons.prems(3) by simp
  have step: "varint32_loop ist (of_nat (7 * i)) (of_nat x) = varint32_loop ist1 (of_nat (7 * Suc i)) (of_nat ?x)"
    using varint32_loop_group [OF i r(1) Cons.prems(4)] Cons.prems(2) by (simp add: Let_def)
  have e: "?x + 2 ^ (7 * Suc i) * le7 us = x + 2 ^ (7 * i) * le7 (u # us)"
    by (simp add: algebra_simps power_add)
  have l: "Suc i + length us = i + length (u # us)" by simp
  have "\<exists>ist'. varint32_loop ist1 (of_nat (7 * Suc i)) (of_nat ?x) =
             varint32_loop ist' (of_nat (7 * (Suc i + length us))) (of_nat (?x + 2 ^ (7 * Suc i) * le7 us))
           \<and> stream_at delivers ist' bs rest \<and> ierrmsg ist' = ierrmsg ist1"
    using Cons.prems by (intro Cons.IH [OF r(2)] group_bound) simp_all
  then show ?case using r(3) by (simp only: step e l)
qed

lemma pb_decode_varint32_value:
  assumes "stream_at delivers ist (us @ b # bs) rest" "list_all more us" "\<not> more b" "length us \<le> 4"
    "le7 (us @ [b]) < 2 ^ 32"
  shows "\<exists>ist'. pb_decode_varint32_eof ist = (Some (of_nat (le7 (us @ [b]))), False, ist')
           \<and> stream_at delivers ist' bs rest \<and> ierrmsg ist' = ierrmsg ist"
proof (cases us)
  case Nil
  then obtain ist1 where r: "pb_readbyte ist = (Some b, ist1)" "stream_at delivers ist1 bs rest"
      "ierrmsg ist1 = ierrmsg ist"
    using pb_readbyte_at assms(1) by fastforce
  have "(ucast b :: uint32) = of_nat (unat b mod 128)" using assms(3) by (simp add: more_iff)
  then show ?thesis using r Nil assms(3)
    by (simp add: pb_decode_varint32_eof_def more_def)
next
  case (Cons u vs)
  obtain ist1 where r: "pb_readbyte ist = (Some u, ist1)" "stream_at delivers ist1 (vs @ b # bs) rest"
      "ierrmsg ist1 = ierrmsg ist"
    using pb_readbyte_at assms(1) Cons by fastforce
  let ?i = "length us" and ?x = "le7 us"
  obtain ist2 where g: "varint32_loop ist1 (of_nat (7 * 1)) (of_nat (unat u mod 128)) =
        varint32_loop ist2 (of_nat (7 * ?i)) (of_nat ?x)"
      "stream_at delivers ist2 (b # bs) rest" "ierrmsg ist2 = ierrmsg ist1"
    using varint32_loop_groups [OF r(2), of 1 "unat u mod 128"] assms(2,4) Cons by auto
  obtain ist3 where b: "pb_readbyte ist2 = (Some b, ist3)" "stream_at delivers ist3 bs rest"
      "ierrmsg ist3 = ierrmsg ist2"
    using pb_readbyte_at g(2) by blast
  have "?x < 2 ^ (7 * ?i)" using le7_less [of us] by (simp add: power_mult)
  from varint32_loop_group [OF assms(4) b(1) this] assms(3)
  have l: "varint32_loop ist2 (of_nat (7 * ?i)) (of_nat ?x) =
      (Some (of_nat (le7 (us @ [b])), of_nat (7 * Suc ?i), b), ist3)"
    by (simp add: Let_def le7_append power_mult)
  have "b AND 0x70 = 0" if "(of_nat (7 * Suc ?i) :: uint8) = 35"
  proof -
    have "7 * Suc ?i = 35" using that assms(4) bitpos_unat [of "Suc ?i"] by simp
    then have "le7 us + 128 ^ 4 * (unat b mod 128) < 2 ^ 32" using assms(5) by (simp add: le7_append)
    then have "unat b < 16" using assms(3) by (simp add: more_iff)
    then show ?thesis by (rule and_70)
  qed
  then show ?thesis using varint32_eof_more [OF r(1)] g l r(3) b assms(2) Cons by simp
qed

lemma pb_decode_varint32_at:
  assumes "stream_at delivers ist (varint_bytes n @ bs) rest" "n < 2 ^ 32"
  shows "\<exists>ist'. pb_decode_varint32_eof ist = (Some (of_nat n), False, ist')
           \<and> stream_at delivers ist' bs rest \<and> ierrmsg ist' = ierrmsg ist"
proof -
  obtain us b where u: "varint_bytes n = us @ [b]" "list_all more us" "\<not> more b"
    using varint_bytes_shape by blast
  have "n < 128 ^ 5" by (rule less_trans [OF assms(2)]) simp
  then have "length us \<le> 4" using varint_bytes_length [of n 5] u(1) by simp
  moreover have "le7 (us @ [b]) = n" using le7_varint_bytes [of n] u(1) by simp
  ultimately show ?thesis using pb_decode_varint32_value [OF _ u(2,3), of ist bs rest] assms u(1) by simp
qed

lemma varint32_loop_extension:
  assumes "stream_at delivers ist ([0xFF, 0xFF, 0xFF, 0xFF, 0x01] @ bs) rest" "drop_bit 31 r \<noteq> 0"
  shows "\<exists>ist'. varint32_loop ist 35 r = (Some (r, 70, 0x01), ist')
           \<and> stream_at delivers ist' bs rest \<and> ierrmsg ist' = ierrmsg ist"
proof -
  obtain i1 where 1: "pb_readbyte ist = (Some 0xFF, i1)" "ierrmsg i1 = ierrmsg ist"
      "stream_at delivers i1 ([0xFF, 0xFF, 0xFF, 0x01] @ bs) rest"
    using pb_readbyte_at assms(1) by fastforce
  obtain i2 where 2: "pb_readbyte i1 = (Some 0xFF, i2)" "ierrmsg i2 = ierrmsg i1"
      "stream_at delivers i2 ([0xFF, 0xFF, 0x01] @ bs) rest"
    using pb_readbyte_at 1(3) by fastforce
  obtain i3 where 3: "pb_readbyte i2 = (Some 0xFF, i3)" "ierrmsg i3 = ierrmsg i2"
      "stream_at delivers i3 ([0xFF, 0x01] @ bs) rest"
    using pb_readbyte_at 2(3) by fastforce
  obtain i4 where 4: "pb_readbyte i3 = (Some 0xFF, i4)" "ierrmsg i4 = ierrmsg i3"
      "stream_at delivers i4 ([0x01] @ bs) rest"
    using pb_readbyte_at 3(3) by fastforce
  obtain i5 where 5: "pb_readbyte i4 = (Some 0x01, i5)" "ierrmsg i5 = ierrmsg i4" "stream_at delivers i5 bs rest"
    using pb_readbyte_at 4(3) by fastforce
  note sg = varint32_loop_sign [OF _ _ assms(2)]
  show ?thesis
    using sg [OF _ 1(1), of 35] sg [OF _ 2(1), of 42] sg [OF _ 3(1), of 49] sg [OF _ 4(1), of 56]
      sg [OF _ 5(1), of 63] 1(2) 2(2) 3(2) 4(2) 5(2,3)
    by simp
qed

text \<open>A negative number of 32 bits, sign extended to 64 bits as the encoder writes it.\<close>

lemma pb_decode_varint32_negative:
  assumes "stream_at delivers ist (varint_bytes (2 ^ 64 - 2 ^ 32 + unat w) @ bs) rest" "drop_bit 31 w \<noteq> 0"
  shows "\<exists>ist'. pb_decode_varint32_eof ist = (Some w, False, ist')
           \<and> stream_at delivers ist' bs rest \<and> ierrmsg ist' = ierrmsg ist"
proof -
  let ?n = "2 ^ 64 - 2 ^ 32 + unat w"
  have "?n = unat w + (2 ^ 35 - 2 ^ 32) + (2 ^ 29 - 1) * 128 ^ 5" by simp
  moreover have "unat w + (2 ^ 35 - 2 ^ 32) < 128 ^ 5" using unat_less32 [of w] by simp
  moreover have "x < c \<Longrightarrow> (x + k * c) div c = k \<and> (x + k * c) mod c = x" for x k c :: nat by auto
  ultimately have d: "?n div 128 ^ 5 = 2 ^ 29 - 1" "?n mod 128 ^ 5 = unat w + (2 ^ 35 - 2 ^ 32)"
    by presburger+
  have "varint_bytes (2 ^ 29 - 1) = [0xFF, 0xFF, 0xFF, 0xFF, 0x01]"
    by (simp add: varint_bytes.simps)
  then have e: "varint_bytes ?n = groups 5 ?n @ [0xFF, 0xFF, 0xFF, 0xFF, 0x01]"
    using varint_bytes_groups [of 5 ?n] d(1) by simp
  obtain u vs where g: "groups 5 ?n = u # vs" "length vs = 4"
    using groups.simps(2) [of 4 ?n] length_groups [of 4 "?n div 128"] by fastforce
  obtain i1 where r: "pb_readbyte ist = (Some u, i1)" "ierrmsg i1 = ierrmsg ist"
      "stream_at delivers i1 (vs @ ([0xFF, 0xFF, 0xFF, 0xFF, 0x01] @ bs)) rest"
    using pb_readbyte_at [of ist u] assms(1) e g(1) by fastforce
  have m: "more u" "list_all more vs" using more_groups [of 5 ?n] g(1) by simp_all
  have "le7 (u # vs) = unat w + (2 ^ 35 - 2 ^ 32)" using le7_groups [of 5 ?n] d(2) g(1) by simp
  then have v: "(of_nat (le7 (u # vs)) :: uint32) = w" by (simp only: of_nat_add of_nat_unat) simp
  obtain i2 where l: "varint32_loop i1 (of_nat (7 * 1)) (of_nat (unat u mod 128)) = varint32_loop i2 35 w"
      "stream_at delivers i2 ([0xFF, 0xFF, 0xFF, 0xFF, 0x01] @ bs) rest" "ierrmsg i2 = ierrmsg i1"
    using varint32_loop_groups [OF r(3) m(2), of 1 "unat u mod 128"] g(2) v by auto
  obtain i3 where "varint32_loop i2 35 w = (Some (w, 70, 0x01), i3)" "stream_at delivers i3 bs rest"
      "ierrmsg i3 = ierrmsg i2"
    using varint32_loop_extension [OF l(2) assms(2)] by blast
  then show ?thesis using varint32_eof_more [OF r(1) m(1)] l r(2) by simp
qed

end

end
