(* ===== verification/Pb_Scalars.thy ===== *)
theory Pb_Scalars
  imports Pb_Varint
begin

text \<open>
  The other scalars and the framing around them: zigzag numbers, fixed width numbers, tags,
  strings, skipping and substreams. Each writer is related to the bytes it puts on the
  wire and each reader to the bytes it takes from it; the lemmas about readers hold for
  every source that keeps the contract \<open>byte_source\<close>.
\<close>

section \<open>Zigzag\<close>

definition zigzag :: "int \<Rightarrow> nat" where
  "zigzag i = (if i < 0 then nat (- 2 * i - 1) else nat (2 * i))"

definition zigzag_word :: "uint64 \<Rightarrow> uint64" where
  "zigzag_word v = (if sint v < 0 then NOT (push_bit 1 v) else push_bit 1 v)"

lemma sint_neg_iff: "sint v < 0 \<longleftrightarrow> bit v 63" for v :: uint64
  by (simp add: bit_last_iff [symmetric])

lemma unat_zigzag_word: "unat (zigzag_word v) = zigzag (sint v)"
proof -
  have range: "- (2 ^ 63) \<le> sint v" "sint v < 2 ^ 63"
    using sint_range_size [of v] by (simp_all add: word_size)
  have p: "(push_bit 1 v :: uint64) = of_int (2 * sint v)" by (simp add: push_bit_eq_mult)
  show ?thesis
  proof (cases "sint v < 0")
    case True
    have "NOT (push_bit 1 v) = (of_int (- 2 * sint v - 1) :: uint64)"
      by (simp add: p not_eq_complement)
    moreover have "uint (of_int (- 2 * sint v - 1) :: uint64) = - 2 * sint v - 1"
      using True range by (subst uint_word_of_int_eq) (simp add: take_bit_int_eq_self)
    ultimately show ?thesis using True
      by (simp only: zigzag_word_def zigzag_def unat_eq_nat_uint if_True)
  next
    case False
    have "uint (of_int (2 * sint v) :: uint64) = 2 * sint v"
      using False range by (subst uint_word_of_int_eq) (simp add: take_bit_int_eq_self)
    then show ?thesis using False
      by (simp only: zigzag_word_def zigzag_def p unat_eq_nat_uint if_False)
  qed
qed

definition unzigzag_word :: "uint64 \<Rightarrow> uint64" where
  "unzigzag_word v = (if v AND 1 \<noteq> 0 then NOT (drop_bit 1 v) else drop_bit 1 v)"

lemma and_1_bit: "w AND 1 \<noteq> 0 \<longleftrightarrow> bit w 0" for w :: "'a::len word"
  using and_exp_eq_0_iff_not_bit [of w 0] by simp

lemma unzigzag_zigzag: "unzigzag_word (zigzag_word v) = v"
proof (rule bit_word_eqI)
  fix i assume "i < LENGTH(64)"
  moreover have "zigzag_word v AND 1 \<noteq> 0 \<longleftrightarrow> bit v 63"
    by (simp add: and_1_bit zigzag_word_def sint_neg_iff bit_simps bit_0)
  ultimately show "bit (unzigzag_word (zigzag_word v)) i = bit v i"
    by (cases "i = 63") (auto simp: unzigzag_word_def zigzag_word_def sint_neg_iff bit_simps mult.commute [of v 2])
qed


lemma pb_encode_svarint_ref:
  "pb_encode_svarint os v =
     pb_write os (varint_bytes (zigzag (sint v))) (of_nat (length (varint_bytes (zigzag (sint v)))))"
  by (simp add: pb_encode_svarint_def pb_encode_varint_ref unat_zigzag_word [symmetric] zigzag_word_def Let_def)

section \<open>Fixed width\<close>

lemma ucast_and_FF: "ucast (w AND 0xFF) = (ucast w :: byte)" for w :: "'a::len word"
  unfolding and_FF by (auto intro!: bit_word_eqI simp: bit_simps)

lemma le_bytes_load: "8 * n = LENGTH('a) \<Longrightarrow> le_bytes n (le_word (mem_read m p n) :: 'a::len word) = mem_read m p n"
  using le_bytes_le_word [of "mem_read m p n", where ?'a = 'a] by simp

lemma pb_encode_fixed32_ref: "pb_encode_fixed32 m p os = pb_write os (mem_read m p 4) 4"
proof -
  have "le_bytes 4 (load32 m p) = mem_read m p 4" by (rule le_bytes_load) simp
  then show ?thesis by (simp add: pb_encode_fixed32_def ucast_and_FF numeral_eq_Suc drop_bit_drop_bit)
qed

lemma pb_encode_fixed64_ref: "pb_encode_fixed64 m p os = pb_write os (mem_read m p 8) 8"
proof -
  have "le_bytes 8 (load64 m p) = mem_read m p 8" by (rule le_bytes_load) simp
  then show ?thesis by (simp add: pb_encode_fixed64_def ucast_and_FF numeral_eq_Suc drop_bit_drop_bit)
qed


lemma fixed32_assembled:
  "length bs = 4 \<Longrightarrow> push_bit 0 (ucast (bs ! 0)) OR push_bit 8 (ucast (bs ! 1)) OR
     push_bit 16 (ucast (bs ! 2)) OR push_bit 24 (ucast (bs ! 3)) = (le_word bs :: uint32)"
  by (auto simp: numeral_eq_Suc length_Suc_conv push_bit_or [of _ "_ OR _"] push_bit_push_bit or.assoc)

lemma fixed64_assembled:
  "length bs = 8 \<Longrightarrow> push_bit 0 (ucast (bs ! 0)) OR push_bit 8 (ucast (bs ! 1)) OR
     push_bit 16 (ucast (bs ! 2)) OR push_bit 24 (ucast (bs ! 3)) OR
     push_bit 32 (ucast (bs ! 4)) OR push_bit 40 (ucast (bs ! 5)) OR
     push_bit 48 (ucast (bs ! 6)) OR push_bit 56 (ucast (bs ! 7)) = (le_word bs :: uint64)"
  by (auto simp: numeral_eq_Suc length_Suc_conv push_bit_or [of _ "_ OR _"] push_bit_push_bit or.assoc)

section \<open>Tags and strings\<close>

definition tag_bytes :: "pb_wire_type_t \<Rightarrow> uint32 \<Rightarrow> byte list" where
  "tag_bytes wt num = varint_bytes (unat num * 8 + unat wt)"

definition delimited :: "byte list \<Rightarrow> byte list" where
  "delimited bs = varint_bytes (length bs) @ bs"

lemma pb_encode_tag_ref:
  assumes "unat wt < 8"
  shows "pb_encode_tag os wt num = pb_write os (tag_bytes wt num) (of_nat (length (tag_bytes wt num)))"
proof -
  have "(ucast wt OR push_bit 3 (ucast num) :: uint64) = of_nat (unat num * 8 + unat wt)"
    using or_group [of "unat wt" 3 "unat num", where ?'a = 64] assms by (simp add: mult.commute)
  moreover have "unat num * 8 + unat wt < 2 ^ 64" using unat_less32 [of num] unat_less32 [of wt] by simp
  then have "unat (of_nat (unat num * 8 + unat wt) :: uint64) = unat num * 8 + unat wt"
    by (subst unat_of_nat) simp
  ultimately show ?thesis
    by (simp only: pb_encode_tag_def pb_encode_varint_ref tag_bytes_def or.commute)
qed

lemma tag_word:
  assumes "unat wt < 8" "unat num < 2 ^ 29"
  shows "(of_nat (unat num * 8 + unat wt) :: uint32) AND 7 = wt"
    "drop_bit 3 (of_nat (unat num * 8 + unat wt) :: uint32) = num"
    "(of_nat (unat num * 8 + unat wt) :: uint32) = 0 \<longleftrightarrow> wt = 0 \<and> num = 0"
proof -
  let ?t = "of_nat (unat num * 8 + unat wt) :: uint32"
  have t: "unat ?t = unat num * 8 + unat wt" using assms by (subst unat_of_nat) simp
  have "?t AND 7 = take_bit 3 ?t" by (simp add: take_bit_eq_mask mask_eq_exp_minus_1)
  then have "unat (?t AND 7) = unat wt"
    using assms(1) by (simp only: unsigned_take_bit_eq t) (simp add: take_bit_eq_mod)
  then show "?t AND 7 = wt" by (simp only: word_unat_eq_iff)
  have "unat (drop_bit 3 ?t) = unat num" using assms(1) by (simp only: unat_shift_right t) simp
  then show "drop_bit 3 ?t = num" by (simp only: word_unat_eq_iff)
  show "?t = 0 \<longleftrightarrow> wt = 0 \<and> num = 0"
    using t by (simp only: word_unat_eq_iff unat_0) auto
qed

lemma unat_ucast_len: "n < 2 ^ 32 \<Longrightarrow> unat (ucast (of_nat n :: uint32) :: size_t) = n"
  by (simp add: unsigned_ucast_eq unat_of_nat take_bit_nat_eq_self)

context byte_source
begin

lemma pb_decode_svarint_at:
  assumes "stream_at delivers ist (varint_bytes (zigzag (sint v)) @ bs) rest"
  shows "\<exists>ist'. pb_decode_svarint ist = (Some v, ist')
           \<and> stream_at delivers ist' bs rest \<and> ierrmsg ist' = ierrmsg ist"
proof -
  obtain ist' where "pb_decode_varint ist = (Some (zigzag_word v), ist')"
      "stream_at delivers ist' bs rest" "ierrmsg ist' = ierrmsg ist"
    using pb_decode_varint_at [of ist "zigzag_word v"] assms by (auto simp: unat_zigzag_word)
  then show ?thesis using unzigzag_zigzag [of v] by (simp add: pb_decode_svarint_def unzigzag_word_def)
qed

lemma pb_decode_fixed32_at:
  assumes "stream_at delivers ist (us @ bs) rest" "length us = 4"
  shows "\<exists>ist'. pb_decode_fixed32 ist = (Some (le_word us), ist')
           \<and> stream_at delivers ist' bs rest \<and> ierrmsg ist' = ierrmsg ist"
  using pb_read_at [OF assms(1), of 4] assms(2) fixed32_assembled [OF assms(2)]
  by (auto simp: pb_decode_fixed32_def)

lemma pb_decode_fixed64_at:
  assumes "stream_at delivers ist (us @ bs) rest" "length us = 8"
  shows "\<exists>ist'. pb_decode_fixed64 ist = (Some (le_word us), ist')
           \<and> stream_at delivers ist' bs rest \<and> ierrmsg ist' = ierrmsg ist"
  using pb_read_at [OF assms(1), of 8] assms(2) fixed64_assembled [OF assms(2)]
  by (auto simp: pb_decode_fixed64_def)

lemma pb_decode_tag_at:
  assumes "stream_at delivers ist (tag_bytes wt num @ bs) rest" "unat wt < 8" "unat num < 2 ^ 29" "num \<noteq> 0"
  shows "\<exists>ist'. pb_decode_tag ist = (Some (wt, num), False, ist')
           \<and> stream_at delivers ist' bs rest \<and> ierrmsg ist' = ierrmsg ist"
proof -
  have "unat num * 8 + unat wt < 2 ^ 32" using assms(2,3) by simp
  then obtain ist' where "pb_decode_varint32_eof ist = (Some (of_nat (unat num * 8 + unat wt)), False, ist')"
      "stream_at delivers ist' bs rest" "ierrmsg ist' = ierrmsg ist"
    using pb_decode_varint32_at [OF assms(1) [unfolded tag_bytes_def]] by blast
  then show ?thesis using tag_word [OF assms(2,3)] assms(4) by (simp add: pb_decode_tag_def)
qed

lemma pb_decode_tag_end:
  assumes "stream_at delivers ist [] rest"
  shows "pb_decode_tag ist = (None, True, set_ierror ist ''end-of-stream'')"
proof -
  have "bytes_left ist = 0" using assms by (simp add: stream_at_def unat_eq_zero)
  then show ?thesis using pb_readbyte_end [OF assms]
    by (simp add: pb_decode_tag_def pb_decode_varint32_eof_def)
qed

lemma pb_decode_varint32_len:
  assumes "stream_at delivers ist (varint_bytes n @ bs) rest" "n < 2 ^ 32"
  shows "\<exists>ist'. pb_decode_varint32 ist = (Some (of_nat n), ist')
           \<and> stream_at delivers ist' bs rest \<and> ierrmsg ist' = ierrmsg ist"
  using pb_decode_varint32_at [OF assms] by (auto simp: pb_decode_varint32_def)

section \<open>Substreams and skipping\<close>

lemma pb_make_string_substream_at:
  assumes "stream_at delivers ist (delimited us @ vs) rest" "length us < 2 ^ 32"
  shows "\<exists>sub ist'. pb_make_string_substream ist = (Some sub, ist')
           \<and> stream_at delivers sub us (vs @ rest) \<and> unat (bytes_left ist') = length vs
           \<and> ierrmsg sub = ierrmsg ist \<and> ierrmsg ist' = ierrmsg ist"
proof -
  obtain i1 where r: "pb_decode_varint32 ist = (Some (of_nat (length us)), i1)"
      "stream_at delivers i1 (us @ vs) rest" "ierrmsg i1 = ierrmsg ist"
    using pb_decode_varint32_len [of ist "length us" "us @ vs" rest] assms by (auto simp: delimited_def)
  have u: "unat (ucast (of_nat (length us) :: uint32) :: size_t) = length us"
    using assms(2) by (rule unat_ucast_len)
  have l: "unat (bytes_left i1) = length us + length vs" using r(2) by (simp add: stream_at_def)
  then have le: "ucast (of_nat (length us) :: uint32) \<le> bytes_left i1"
    using u by (simp add: word_le_nat_alt)
  then have "unat (bytes_left i1 - ucast (of_nat (length us) :: uint32)) = length vs"
    using u l by (simp add: unat_sub)
  moreover have "\<not> bytes_left i1 < ucast (of_nat (length us) :: uint32)" using le by (simp add: not_less)
  ultimately show ?thesis using r u by (simp add: pb_make_string_substream_def stream_at_def)
qed

lemma pb_skip_varint_at:
  assumes "stream_at delivers ist (us @ b # bs) rest" "list_all more us" "\<not> more b"
  shows "\<exists>ist'. pb_skip_varint ist = (True, ist') \<and> stream_at delivers ist' bs rest
           \<and> ierrmsg ist' = ierrmsg ist"
  using assms
proof (induction us arbitrary: ist)
  case Nil
  then obtain i1 where "pb_read ist 1 = (True, [b], i1)" "stream_at delivers i1 bs rest"
      "ierrmsg i1 = ierrmsg ist"
    using pb_read_at [of ist "[b]" bs rest 1] by auto
  then show ?case using Nil.prems by (simp add: pb_skip_varint.simps [of ist] more_def)
next
  case (Cons u us)
  then obtain i1 where r: "pb_read ist 1 = (True, [u], i1)" "stream_at delivers i1 (us @ b # bs) rest"
      "ierrmsg i1 = ierrmsg ist"
    using pb_read_at [of ist "[u]" "us @ b # bs" rest 1] by auto
  have "pb_skip_varint ist = pb_skip_varint i1"
    using r(1) Cons.prems(2) by (simp add: pb_skip_varint.simps [of ist] more_def)
  then show ?case using Cons.IH [OF r(2)] Cons.prems r(3) by simp
qed

lemma pb_skip_string_at:
  assumes "stream_at delivers ist (delimited us @ bs) rest" "length us < 2 ^ 32"
  shows "\<exists>ist'. pb_skip_string ist = (True, ist') \<and> stream_at delivers ist' bs rest
           \<and> ierrmsg ist' = ierrmsg ist"
proof -
  obtain i1 where r: "pb_decode_varint32 ist = (Some (of_nat (length us)), i1)"
      "stream_at delivers i1 (us @ bs) rest" "ierrmsg i1 = ierrmsg ist"
    using pb_decode_varint32_len [of ist "length us" "us @ bs" rest] assms by (auto simp: delimited_def)
  have "unat (ucast (of_nat (length us) :: uint32) :: size_t) = length us"
    using assms(2) by (rule unat_ucast_len)
  then show ?thesis using pb_read_null_at [OF r(2)] r by (auto simp: pb_skip_string_def)
qed

end

end
