(* ===== verification/Pb_Encode_Spec.thy ===== *)
theory Pb_Encode_Spec
  imports Pb_Encode Pb_Iter Pb_Scalars
begin

text \<open>
  What the encoder writes, as a function from a message in memory to bytes, with no
  streams, no sizing passes and no bound on the recursion; and the proof that
  \<^verbatim>\<open>pb_encode.c\<close> writes just that.

  \<open>writes H w r\<close> is the contract of a function that writes to a stream: it writes the bytes
  \<open>r\<close> to a stream whose sink is related to its contents by \<open>H\<close>, counts them on a sizing
  stream, fails when they do not fit, and never succeeds when there are none (\<open>r\<close> is
  \<open>None\<close>: the message is not encodable).
\<close>

section \<open>Reference encoder\<close>

definition c_string :: "mem \<Rightarrow> addr \<Rightarrow> nat \<Rightarrow> byte list" where
  "c_string m p k = takeWhile (\<lambda>b. b \<noteq> 0) (mem_read m p k)"

definition varint_value :: "mem \<Rightarrow> pb_field \<Rightarrow> addr \<Rightarrow> int option" where
  "varint_value m f p =
     (if data_size f = 1 then Some (sint (load8 m p))
      else if data_size f = 2 then Some (sint (load16 m p))
      else if data_size f = 4 then Some (sint (load32 m p))
      else if data_size f = 8 then Some (sint (load64 m p)) else None)"

definition uvarint_value :: "mem \<Rightarrow> pb_field \<Rightarrow> addr \<Rightarrow> nat option" where
  "uvarint_value m f p =
     (if data_size f = 1 \<or> data_size f = 2 \<or> data_size f = 4 \<or> data_size f = 8
      then Some (unat (le_word (mem_read m p (unat (data_size f))) :: uint64)) else None)"

text \<open>The bytes of one value, without its tag.\<close>

definition value_bytes :: "(addr \<Rightarrow> byte list option) \<Rightarrow> mem \<Rightarrow> pb_field \<Rightarrow> addr \<Rightarrow> byte list option" where
  "value_bytes sub m f p =
     (if ltype f = PB_LTYPE_VARINT
      then map_option (\<lambda>i. varint_bytes (nat (i mod 2 ^ 64))) (varint_value m f p)
      else if ltype f = PB_LTYPE_UVARINT then map_option varint_bytes (uvarint_value m f p)
      else if ltype f = PB_LTYPE_SVARINT then map_option (\<lambda>i. varint_bytes (zigzag i)) (varint_value m f p)
      else if ltype f = PB_LTYPE_FIXED32 then Some (mem_read m p 4)
      else if ltype f = PB_LTYPE_FIXED64 then Some (mem_read m p 8)
      else if ltype f = PB_LTYPE_BYTES then
        (if p = 0 then Some (delimited [])
         else if atype f = PB_ATYPE_STATIC \<and> unat (bytes_size m p) + 4 > unat (data_size f) then None
         else Some (delimited (mem_read m (bytes_bytes p) (unat (bytes_size m p)))))
      else if ltype f = PB_LTYPE_STRING then
        Some (delimited (if p = 0 then []
          else c_string m p (if atype f = PB_ATYPE_POINTER then 2 ^ 64 - 1 else unat (data_size f))))
      else if ltype f = PB_LTYPE_SUBMESSAGE then
        (if ptr f = Null_ptr then None else map_option delimited (sub p))
      else if ltype f = PB_LTYPE_FIXED_LENGTH_BYTES then Some (delimited (mem_read m p (unat (data_size f))))
      else None)"

definition tag_for :: "pb_field \<Rightarrow> byte list option" where
  "tag_for f = map_option (\<lambda>wt. tag_bytes wt (tag f)) (field_wire_type (ltype f))"

text \<open>Concatenation of pieces, none when one of them is missing.\<close>

definition cat :: "byte list option \<Rightarrow> byte list option \<Rightarrow> byte list option" where
  "cat a b = (case a of None \<Rightarrow> None | Some xs \<Rightarrow> map_option (\<lambda>ys. xs @ ys) b)"

primrec cats :: "byte list option list \<Rightarrow> byte list option" where
  "cats [] = Some []"
| "cats (r # rs) = cat r (cats rs)"

definition item_addrs :: "addr \<Rightarrow> pb_size_t \<Rightarrow> nat \<Rightarrow> addr list" where
  "item_addrs p ds k = map (\<lambda>i. p + of_nat i * ucast ds) [0..<k]"

text \<open>
  A repeated field: nothing when it is empty, one packed run for the numeric types, else one
  tagged value per entry.
\<close>

definition array_bytes :: "(addr \<Rightarrow> byte list option) \<Rightarrow> mem \<Rightarrow> pb_field \<Rightarrow> addr \<Rightarrow> nat \<Rightarrow> byte list option" where
  "array_bytes sub m f p count =
     (if count = 0 then Some []
      else if atype f \<noteq> PB_ATYPE_POINTER \<and> count > unat (array_size f) then None
      else if ltype f \<le> PB_LTYPE_LAST_PACKABLE
      then cat (Some (tag_bytes PB_WT_STRING (tag f)))
             (map_option delimited (cats (map (value_bytes sub m f) (item_addrs p (data_size f) count))))
      else cats (map (\<lambda>q. cat (tag_for f) (value_bytes sub m f
             (if atype f = PB_ATYPE_POINTER \<and> (ltype f = PB_LTYPE_STRING \<or> ltype f = PB_LTYPE_BYTES)
              then load64 m q else q))) (item_addrs p (data_size f) count)))"

lemma submsg_size: "g \<in> set (submsg_fields (ptr f)) \<Longrightarrow> size g < size f"
proof -
  assume g: "g \<in> set (submsg_fields (ptr f))"
  then obtain gs where "ptr f = Submsg gs" "g \<in> set gs" by (cases "ptr f") auto
  then show ?thesis by (cases f) (auto dest: size_list_estimation' [of _ _ _ size])
qed

lemma submsg_fields_size: "f \<in> set fs \<Longrightarrow> size_list size (submsg_fields (ptr f)) < size_list size fs"
proof -
  assume f: "f \<in> set fs"
  have "size_list size (submsg_fields (ptr f)) < size f" by (cases f; cases "ptr f") auto
  also have "size f \<le> size_list size fs" using f by (rule size_list_estimation') simp
  finally show ?thesis .
qed

text \<open>Whether a field holds its default value, which an optional field without a flag omits.\<close>

function default_value :: "mem \<Rightarrow> pb_field \<Rightarrow> addr \<Rightarrow> bool" where
  "default_value m f pd =
     (if htype f = PB_HTYPE_REQUIRED then False
      else if htype f = PB_HTYPE_REPEATED \<or> htype f = PB_HTYPE_ONEOF
      then load32 m (pd + scast (size_offset f)) = 0
      else if htype f = PB_HTYPE_OPTIONAL \<and> size_offset f \<noteq> 0
      then \<not> load_bool m (pd + scast (size_offset f))
      else if atype f = PB_ATYPE_STATIC \<and> ltype f = PB_LTYPE_BYTES then bytes_size m pd = 0
      else if atype f = PB_ATYPE_STATIC \<and> ltype f = PB_LTYPE_STRING then m pd = 0
      else if atype f = PB_ATYPE_STATIC \<and> ltype f = PB_LTYPE_FIXED_LENGTH_BYTES then data_size f = 0
      else if atype f = PB_ATYPE_STATIC \<and> ltype f = PB_LTYPE_SUBMESSAGE
      then list_all (\<lambda>(g, q). default_value m g q) (place (submsg_fields (ptr f)) pd)
      else list_all (\<lambda>b. b = 0) (mem_read m pd (unat (data_size f))))"
  by pat_completeness auto
termination
  by (relation "measure (\<lambda>(m, f, pd). size f)") (auto dest!: place_in submsg_size)

declare default_value.simps [simp del]


definition field_bytes :: "(addr \<Rightarrow> byte list option) \<Rightarrow> mem \<Rightarrow> pb_field \<Rightarrow> addr \<Rightarrow> byte list option" where
  "field_bytes sub m f pd0 =
     (let pd = (if atype f = PB_ATYPE_POINTER then load64 m pd0 else pd0);
          psize = pd0 + scast (size_offset f);
          single = cat (tag_for f) (value_bytes sub m f pd)
      in if htype f = PB_HTYPE_REQUIRED then (if pd = 0 then None else single)
         else if htype f = PB_HTYPE_OPTIONAL then
           (if (if size_offset f \<noteq> 0 then load_bool m psize
                else if atype f = PB_ATYPE_POINTER then pd \<noteq> 0 else \<not> default_value m f pd0)
            then single else Some [])
         else if htype f = PB_HTYPE_REPEATED then
           array_bytes sub m f pd (unat (if size_offset f \<noteq> 0 then load32 m psize else array_size f))
         else if htype f = PB_HTYPE_ONEOF then
           (if (if size_offset f \<noteq> 0 then load32 m psize
                else if atype f = PB_ATYPE_POINTER \<and> pd = 0 then 0 else 1) = tag f
            then single else Some [])
         else None)"

function msg_bytes :: "mem \<Rightarrow> pb_field list \<Rightarrow> addr \<Rightarrow> byte list option" where
  "msg_bytes m fs p =
     cats (map (\<lambda>(f, pd). field_bytes (msg_bytes m (submsg_fields (ptr f))) m f pd) (place fs p))"
  by pat_completeness auto
termination
  by (relation "measure (\<lambda>(m, fs, p). size_list size fs)") (auto dest!: place_in submsg_fields_size)

declare msg_bytes.simps [simp del]

text \<open>
  The descriptors the reference covers: static and pointer fields at every level, no
  callback fields and no extensions.
\<close>

fun plain :: "pb_field list \<Rightarrow> bool" and plain_ptr :: "pb_ptr \<Rightarrow> bool" where
  "plain [] = True"
| "plain (pb_field tg t doff soff ds asz p # fs) \<longleftrightarrow>
     (PB_ATYPE t = PB_ATYPE_STATIC \<or> PB_ATYPE t = PB_ATYPE_POINTER) \<and> PB_LTYPE t \<noteq> PB_LTYPE_EXTENSION
     \<and> (PB_LTYPE t = PB_LTYPE_SUBMESSAGE \<longrightarrow> plain_ptr p) \<and> plain fs"
| "plain_ptr Null_ptr = True"
| "plain_ptr (Submsg fs) = plain fs"
| "plain_ptr (Default v) = False"

lemma plain_in:
  assumes "plain fs" "f \<in> set fs"
  shows "atype f = PB_ATYPE_STATIC \<or> atype f = PB_ATYPE_POINTER" "ltype f \<noteq> PB_LTYPE_EXTENSION"
    "ltype f = PB_LTYPE_SUBMESSAGE \<Longrightarrow> plain_ptr (ptr f)"
proof -
  have "(atype f = PB_ATYPE_STATIC \<or> atype f = PB_ATYPE_POINTER) \<and> ltype f \<noteq> PB_LTYPE_EXTENSION
    \<and> (ltype f = PB_LTYPE_SUBMESSAGE \<longrightarrow> plain_ptr (ptr f))"
    using assms
  proof (induction fs)
    case (Cons g fs)
    then show ?case by (cases g) auto
  qed simp
  then show "atype f = PB_ATYPE_STATIC \<or> atype f = PB_ATYPE_POINTER" "ltype f \<noteq> PB_LTYPE_EXTENSION"
    "ltype f = PB_LTYPE_SUBMESSAGE \<Longrightarrow> plain_ptr (ptr f)" by auto
qed

section \<open>Numbers in memory\<close>

lemma ucast_le_word:
  "8 * length bs \<le> LENGTH('a) \<Longrightarrow> ucast (le_word bs :: 'a::len word) = (le_word bs :: uint64)"
  by (rule bit_word_eqI) (auto simp: bit_simps bit_le_word)

lemma c_strnlen_string: "c_strnlen m p k = length (c_string m p k)"
proof (induction k arbitrary: p)
  case (Suc k)
  have "mem_read m p (Suc k) = m p # mem_read m (p + 1) k"
    by (simp add: mem_read_def upt_conv_Cons map_Suc_upt [symmetric] algebra_simps del: upt_Suc)
  then show ?case using Suc by (simp add: c_string_def)
qed (simp add: c_string_def)

lemma mem_read_prefix: "n \<le> k \<Longrightarrow> mem_read m p n = take n (mem_read m p k)"
  by (rule nth_equalityI) auto

lemma mem_read_strnlen: "mem_read m p (length (c_string m p k)) = c_string m p k"
proof -
  have "length (c_string m p k) \<le> k" by (metis c_string_def length_mem_read length_takeWhile_le)
  then show ?thesis using mem_read_prefix [of "length (c_string m p k)" k m p]
    by (simp add: c_string_def) (metis takeWhile_eq_take)
qed

section \<open>The check for the default value\<close>

lemma seq_all_test:
  "(\<And>x. x \<in> set xs \<Longrightarrow> b x u = Some (P x, u)) \<Longrightarrow> map_option fst (seq_all b xs u) = Some (list_all P xs)"
proof (induction xs)
  case (Cons x xs)
  then show ?case by (cases "P x") simp_all
qed simp

lemma submsg_depth: "g \<in> set (submsg_fields p) \<Longrightarrow> ptr_depth (ptr g) < ptr_depth p"
  by (cases p) (auto dest: ptr_depth_le simp: less_Suc_eq_le)

lemma check_default_value:
  "ptr_depth (ptr f) \<le> n \<Longrightarrow> pb_check_proto3_default_value (Suc n) m f pd = Some (default_value m f pd)"
proof (induction n arbitrary: f pd)
  case 0
  have "g \<notin> set (submsg_fields (ptr f))" for g using submsg_depth [of g "ptr f"] 0 by auto
  then have "submsg_fields (ptr f) = []" using last_in_set by blast
  then show ?case by (simp add: default_value.simps [of m f pd] Let_def for_fields_def pb_field_iter_begin_def field_at_def)
next
  case (Suc n)
  let ?fs = "submsg_fields (ptr f)"
  let ?b = "\<lambda>(g, q) u. map_option (\<lambda>b. (b, u)) (pb_check_proto3_default_value (Suc n) m g q)"
  have IH: "?b x u = Some ((\<lambda>(g, q). default_value m g q) x, u)" if "x \<in> set (place ?fs pd)" for x and u :: unit
  proof (cases x)
    case (Pair g q)
    then have "ptr_depth (ptr g) \<le> n" using place_in submsg_depth that Suc.prems by fastforce
    then show ?thesis using Suc.IH Pair by simp
  qed
  have "for_fields (\<lambda>it u. map_option (\<lambda>b. (b, u)) (pb_check_proto3_default_value (Suc n) m (cur it) (pData it))) ?fs pd ()
      = seq_all ?b (place ?fs pd) ()"
    using for_fields_place [of ?b ?fs pd "()"] by simp
  then have "map_option fst (for_fields (\<lambda>it u. map_option (\<lambda>b. (b, u))
       (pb_check_proto3_default_value (Suc n) m (cur it) (pData it))) ?fs pd ())
      = Some (list_all (\<lambda>(g, q). default_value m g q) (place ?fs pd))"
    using seq_all_test [of "place ?fs pd" ?b "()", OF IH] by simp
  then show ?case
    by (simp only: pb_check_proto3_default_value.simps(2) [of "Suc n"] default_value.simps [of m f pd] Let_def) auto
qed

section \<open>The contract of a writer\<close>

definition sizes :: "('s pb_ostream \<Rightarrow> (bool \<times> 's pb_ostream) option) \<Rightarrow> nat \<Rightarrow> bool" where
  "sizes w n \<longleftrightarrow> (\<forall>os. osink os = Sizing \<longrightarrow>
     (\<exists>os'. w os = Some (True, os') \<and> osink os' = Sizing \<and> bytes_written os' = bytes_written os + of_nat n))"

definition stores :: "('s osink \<Rightarrow> byte list \<Rightarrow> bool) \<Rightarrow> ('s pb_ostream \<Rightarrow> (bool \<times> 's pb_ostream) option) \<Rightarrow>
    byte list \<Rightarrow> bool" where
  "stores H w bs \<longleftrightarrow> (\<forall>os d. H (osink os) d \<longrightarrow> unat (max_size os) < 2 ^ 63 \<longrightarrow>
     unat (bytes_written os) + length bs \<le> unat (max_size os) \<longrightarrow>
     (\<exists>os'. w os = Some (True, os') \<and> H (osink os') (d @ bs)
        \<and> bytes_written os' = bytes_written os + of_nat (length bs) \<and> max_size os' = max_size os
        \<and> (oerrmsg os = None \<longrightarrow> oerrmsg os' = None)))"

definition overflows :: "('s osink \<Rightarrow> byte list \<Rightarrow> bool) \<Rightarrow> ('s pb_ostream \<Rightarrow> (bool \<times> 's pb_ostream) option) \<Rightarrow>
    byte list \<Rightarrow> bool" where
  "overflows H w bs \<longleftrightarrow> (\<forall>os d. H (osink os) d \<longrightarrow> unat (max_size os) < 2 ^ 63 \<longrightarrow>
     unat (bytes_written os) \<le> unat (max_size os) \<longrightarrow> unat (max_size os) < unat (bytes_written os) + length bs \<longrightarrow>
     (\<exists>os' k. w os = Some (False, os') \<and> k < length bs \<and> H (osink os') (d @ take k bs)
        \<and> unat (bytes_written os) + k \<le> unat (max_size os)))"

definition writes :: "('s osink \<Rightarrow> byte list \<Rightarrow> bool) \<Rightarrow> ('s pb_ostream \<Rightarrow> (bool \<times> 's pb_ostream) option) \<Rightarrow>
    byte list option \<Rightarrow> bool" where
  "writes H w r \<longleftrightarrow> (case r of
       None \<Rightarrow> (\<forall>os os'. w os \<noteq> Some (True, os'))
     | Some bs \<Rightarrow> length bs < 2 ^ 63 \<longrightarrow> sizes w (length bs) \<and> stores H w bs \<and> overflows H w bs)"

lemma writes_skip: "writes H (\<lambda>os. Some (True, os)) (Some [])"
  by (simp add: writes_def sizes_def stores_def overflows_def)

lemma writes_never: "(\<And>os os'. w os \<noteq> Some (True, os')) \<Longrightarrow> writes H w None"
  by (simp add: writes_def)

lemma unat_add_len:
  "unat (x :: size_t) + n < 2 ^ 64 \<Longrightarrow> unat (x + of_nat n) = unat x + n"
  by (simp add: unat_word_ariths unat_of_nat)

lemma sizes_seq: "sizes w a \<Longrightarrow> sizes v b \<Longrightarrow> sizes (\<lambda>os. seq (w os) v) (a + b)"
  by (fastforce simp: sizes_def)

lemma stores_seq:
  fixes w v :: "'s pb_ostream \<Rightarrow> (bool \<times> 's pb_ostream) option"
  assumes w: "stores H w a" and v: "stores H v b"
  shows "stores H (\<lambda>os. seq (w os) v) (a @ b)"
  unfolding stores_def
proof (intro allI impI)
  fix os :: "'s pb_ostream" and d
  assume h: "H (osink os) d" "unat (max_size os) < 2 ^ 63"
    and fit: "unat (bytes_written os) + length (a @ b) \<le> unat (max_size os)"
  obtain o1 where o1: "w os = Some (True, o1)" "H (osink o1) (d @ a)"
      "bytes_written o1 = bytes_written os + of_nat (length a)" "max_size o1 = max_size os"
      "oerrmsg os = None \<longrightarrow> oerrmsg o1 = None"
    using w h fit unfolding stores_def by fastforce
  have "unat (bytes_written o1) = unat (bytes_written os) + length a"
    using o1(3) unat_add_len [of "bytes_written os" "length a"] h(2) fit by simp
  then obtain o2 where "v o1 = Some (True, o2)" "H (osink o2) ((d @ a) @ b)"
      "bytes_written o2 = bytes_written o1 + of_nat (length b)" "max_size o2 = max_size o1"
      "oerrmsg o1 = None \<longrightarrow> oerrmsg o2 = None"
    using v [unfolded stores_def, rule_format, OF o1(2)] h(2) fit o1(4) by auto
  then show "\<exists>os'. seq (w os) v = Some (True, os') \<and> H (osink os') (d @ a @ b)
      \<and> bytes_written os' = bytes_written os + of_nat (length (a @ b)) \<and> max_size os' = max_size os
      \<and> (oerrmsg os = None \<longrightarrow> oerrmsg os' = None)"
    using o1 by (auto simp: add.assoc)
qed

lemma overflows_seq:
  fixes w v :: "'s pb_ostream \<Rightarrow> (bool \<times> 's pb_ostream) option"
  assumes w: "stores H w a" "overflows H w a" and v: "overflows H v b"
  shows "overflows H (\<lambda>os. seq (w os) v) (a @ b)"
  unfolding overflows_def
proof (intro allI impI)
  fix os :: "'s pb_ostream" and d
  assume h: "H (osink os) d" "unat (max_size os) < 2 ^ 63" "unat (bytes_written os) \<le> unat (max_size os)"
    and over: "unat (max_size os) < unat (bytes_written os) + length (a @ b)"
  show "\<exists>os' k. seq (w os) v = Some (False, os') \<and> k < length (a @ b) \<and> H (osink os') (d @ take k (a @ b))
      \<and> unat (bytes_written os) + k \<le> unat (max_size os)"
  proof (cases "unat (bytes_written os) + length a \<le> unat (max_size os)")
    case True
    obtain o1 where o1: "w os = Some (True, o1)" "H (osink o1) (d @ a)"
        "bytes_written o1 = bytes_written os + of_nat (length a)" "max_size o1 = max_size os"
      using w(1) h True unfolding stores_def by fastforce
    have u: "unat (bytes_written o1) = unat (bytes_written os) + length a"
      using o1(3) unat_add_len [of "bytes_written os" "length a"] h(2) True by simp
    obtain o2 k where "v o1 = Some (False, o2)" "k < length b" "H (osink o2) ((d @ a) @ take k b)"
        "unat (bytes_written o1) + k \<le> unat (max_size os)"
      using v [unfolded overflows_def, rule_format, OF o1(2)] h(2) o1(4) over True u by auto
    then show ?thesis using o1(1) u by (intro exI [of _ o2] exI [of _ "length a + k"]) simp
  next
    case False
    then obtain o1 k where "w os = Some (False, o1)" "k < length a" "H (osink o1) (d @ take k a)"
        "unat (bytes_written os) + k \<le> unat (max_size os)"
      using w(2) h unfolding overflows_def by (meson not_le)
    then show ?thesis by (intro exI [of _ o1] exI [of _ k]) simp
  qed
qed

lemma writes_seq:
  assumes "writes H w a" "writes H v b"
  shows "writes H (\<lambda>os. seq (w os) v) (cat a b)"
  using assms sizes_seq stores_seq overflows_seq
  by (auto simp: writes_def cat_def seq_eq_True split: option.splits)


lemma writes_small: "(length bs < 2 ^ 63 \<Longrightarrow> writes H w (Some bs)) \<Longrightarrow> writes H w (Some bs)"
  by (auto simp: writes_def)

lemma writes_cong: "(\<And>os. w os = w' os) \<Longrightarrow> writes H w' r \<Longrightarrow> writes H w r"
  by (drule ext) simp

lemma seq_Some_andthen: "seq (Some x) (\<lambda>s. Some (g s)) = Some (andthen x g)"
  by (cases x; cases "fst x") (auto simp: andthen_def)

lemma cat_Some [simp]: "cat (Some a) (Some b) = Some (a @ b)"
  by (simp add: cat_def)

lemma item_addrs_Suc: "item_addrs p ds (Suc k) = p # item_addrs (p + ucast ds) ds k"
  by (simp add: item_addrs_def upt_conv_Cons map_Suc_upt [symmetric] algebra_simps del: upt_Suc)

lemma writes_items:
  "(\<And>q. writes H (g q) (b q)) \<Longrightarrow> writes H (encode_items k g p ds) (cats (map b (item_addrs p ds k)))"
proof (induction k arbitrary: p)
  case 0
  have "encode_items 0 g p ds = (\<lambda>os. Some (True, os))" by (rule ext) simp
  then show ?case using writes_skip by (simp add: item_addrs_def)
next
  case (Suc k)
  have "encode_items (Suc k) g p ds = (\<lambda>os. seq (g p os) (encode_items k g (p + ucast ds) ds))"
    by (rule ext) simp
  then show ?case using writes_seq [OF Suc.prems Suc.IH [OF Suc.prems]]
    by (simp add: item_addrs_Suc)
qed

lemma writes_seq_all:
  "(\<And>x. x \<in> set xs \<Longrightarrow> writes H (b x) (r x)) \<Longrightarrow> writes H (seq_all b xs) (cats (map r xs))"
proof (induction xs)
  case Nil
  then show ?case using writes_skip by (simp add: seq_all_Nil)
next
  case (Cons x xs)
  have "seq_all b (x # xs) = (\<lambda>os. seq (b x os) (seq_all b xs))" by (rule ext) simp
  then show ?case using writes_seq [of H "b x" "r x" "seq_all b xs"] Cons by simp
qed

lemma sizes_result:
  assumes "sizes enc n"
  shows "\<exists>sub. enc PB_OSTREAM_SIZING = Some (True, sub) \<and> bytes_written sub = of_nat n"
  using assms [unfolded sizes_def, rule_format, of PB_OSTREAM_SIZING] by (auto simp: PB_OSTREAM_SIZING_def)

lemma cats_length:
  "(\<And>q. v q = Some (mem_read m q c)) \<Longrightarrow> \<exists>bs. cats (map v qs) = Some bs \<and> length bs = c * length qs"
  by (induction qs) (auto simp: cat_def)

lemma fixed_value:
  "ltype f = PB_LTYPE_FIXED32 \<Longrightarrow> value_bytes sub m f q = Some (mem_read m q 4)"
  "ltype f = PB_LTYPE_FIXED64 \<Longrightarrow> value_bytes sub m f q = Some (mem_read m q 8)"
  by (simp_all add: value_bytes_def)

lemma byte_below_10:
  "x < 10 \<Longrightarrow> x = 0 \<or> x = 1 \<or> x = 2 \<or> x = 3 \<or> x = 4 \<or> x = 5 \<or> x = 6 \<or> x = 7 \<or> x = 8 \<or> x = 9"
  for x :: uint8
proof -
  assume "x < 10"
  then have "unat x \<in> set [0..<10]" by (simp add: word_less_nat_alt)
  then have "(of_nat (unat x) :: uint8) \<in> of_nat ` set [0..<10]" by (rule imageI)
  then show ?thesis by (simp add: upt_rec del: set_upt)
qed

lemma call_encoder_entry:
  "ltype f = 0 \<Longrightarrow> call_encoder enc m f p = pb_enc_varint m f p"
  "ltype f = 1 \<Longrightarrow> call_encoder enc m f p = pb_enc_uvarint m f p"
  "ltype f = 2 \<Longrightarrow> call_encoder enc m f p = pb_enc_svarint m f p"
  "ltype f = 3 \<Longrightarrow> call_encoder enc m f p = pb_enc_fixed32 m f p"
  "ltype f = 4 \<Longrightarrow> call_encoder enc m f p = pb_enc_fixed64 m f p"
  "ltype f = 5 \<Longrightarrow> call_encoder enc m f p = pb_enc_bytes m f p"
  "ltype f = 6 \<Longrightarrow> call_encoder enc m f p = pb_enc_string m f p"
  "ltype f = 7 \<Longrightarrow> call_encoder enc m f p = pb_enc_submessage enc m f p"
  "ltype f = 9 \<Longrightarrow> call_encoder enc m f p = pb_enc_fixed_length_bytes m f p"
  by (rule ext, simp add: call_encoder_def PB_ENCODERS_def)+

context byte_sink
begin

lemma writes_pb_write: "writes holds (\<lambda>os. Some (pb_write os bs (of_nat (length bs)))) (Some bs)"
  unfolding writes_def option.case
proof (intro impI conjI)
  assume l: "length bs < 2 ^ 63"
  show "sizes (\<lambda>os. Some (pb_write os bs (of_nat (length bs)))) (length bs)"
    by (simp add: sizes_def pb_write_sizing)
  show "stores holds (\<lambda>os. Some (pb_write os bs (of_nat (length bs)))) bs"
    unfolding stores_def using pb_write_room by fastforce
  show "overflows holds (\<lambda>os. Some (pb_write os bs (of_nat (length bs)))) bs"
    unfolding overflows_def
  proof (intro allI impI)
    fix os :: "'s pb_ostream" and d
    assume h: "holds (osink os) d" "unat (max_size os) < 2 ^ 63" "unat (bytes_written os) \<le> unat (max_size os)"
      "unat (max_size os) < unat (bytes_written os) + length bs"
    then have "pb_write os bs (of_nat (length bs)) = oerror os ''stream full''"
      using pb_write_full [of os d bs] l by simp
    then show "\<exists>os' k. Some (pb_write os bs (of_nat (length bs))) = Some (False, os') \<and> k < length bs
        \<and> holds (osink os') (d @ take k bs) \<and> unat (bytes_written os) + k \<le> unat (max_size os)"
      using h by (intro exI [of _ "set_oerror os ''stream full''"] exI [of _ 0]) (auto simp: set_oerror_def)
  qed
qed

lemma writes_varint: "writes holds (\<lambda>os. Some (pb_encode_varint os v)) (Some (varint_bytes (unat v)))"
  unfolding pb_encode_varint_ref by (rule writes_pb_write)

lemma writes_svarint: "writes holds (\<lambda>os. Some (pb_encode_svarint os v)) (Some (varint_bytes (zigzag (sint v))))"
  unfolding pb_encode_svarint_ref by (rule writes_pb_write)

lemma writes_tag: "unat wt < 8 \<Longrightarrow> writes holds (\<lambda>os. Some (pb_encode_tag os wt num)) (Some (tag_bytes wt num))"
  using writes_pb_write by (simp add: pb_encode_tag_ref)

lemma writes_string:
  assumes "sz = of_nat (length bs)"
  shows "writes holds (\<lambda>os. Some (pb_encode_string os bs sz)) (Some (delimited bs))"
proof (rule writes_small)
  assume "length (delimited bs) < 2 ^ 63"
  then have "unat sz = length bs" using assms by (simp add: delimited_def unat_of_nat)
  then have v: "writes holds (\<lambda>os. Some (pb_encode_varint os sz)) (Some (varint_bytes (length bs)))"
    using writes_varint [of sz] by simp
  show "writes holds (\<lambda>os. Some (pb_encode_string os bs sz)) (Some (delimited bs))"
    using writes_seq [OF v writes_pb_write [of bs]] assms
    by (simp add: pb_encode_string_def seq_Some_andthen delimited_def)
qed

lemma writes_tag_for_field: "writes holds (\<lambda>os. Some (pb_encode_tag_for_field os f)) (tag_for f)"
proof (cases "field_wire_type (ltype f)")
  case None
  then show ?thesis by (simp add: pb_encode_tag_for_field_def tag_for_def writes_def)
next
  case (Some wt)
  then have "unat wt < 8" by (auto simp: field_wire_type_def split: if_splits)
  then show ?thesis using writes_tag Some by (simp add: pb_encode_tag_for_field_def tag_for_def)
qed

text \<open>On a sizing stream a length is added instead of bytes that are written.\<close>

lemma writes_unless_sizing:
  assumes "stores holds v bs" "overflows holds v bs"
  shows "writes holds (\<lambda>os. case osink os of Sizing \<Rightarrow> Some (pb_write os [] (of_nat (length bs))) | _ \<Rightarrow> v os) (Some bs)"
    (is "writes holds ?w _")
proof -
  have "?w os = v os" if "holds (osink os) d" for os d
    using that not_sizing by (cases "osink os") auto
  then have "stores holds ?w bs" "overflows holds ?w bs"
    using assms unfolding stores_def overflows_def by metis+
  moreover have "sizes ?w (length bs)" by (simp add: sizes_def pb_write_sizing)
  ultimately show ?thesis by (simp add: writes_def)
qed

lemma submessage_body:
  assumes s: "stores holds (enc fs src) bs" and l: "length bs < 2 ^ 63"
  shows "writes holds (\<lambda>os. case osink os of
       Sizing \<Rightarrow> Some (pb_write os [] (of_nat (length bs)))
     | _ \<Rightarrow> if bytes_written os + of_nat (length bs) > max_size os then Some (oerror os ''stream full'')
           else (case enc fs src (sub\<lparr>osink := osink os, max_size := of_nat (length bs),
                                  bytes_written := 0, oerrmsg := None\<rparr>) of
                   None \<Rightarrow> None
                 | Some (status, sub') \<Rightarrow>
                     let os = os\<lparr>bytes_written := bytes_written os + bytes_written sub',
                                 osink := osink sub', oerrmsg := oerrmsg sub'\<rparr>
                     in if bytes_written sub' \<noteq> of_nat (length bs) then Some (oerror os ''submsg size changed'')
                        else Some (status, os))) (Some bs)"
    (is "writes holds (\<lambda>os. case osink os of Sizing \<Rightarrow> _ | _ \<Rightarrow> ?v os) _")
proof (rule writes_unless_sizing)
  have n: "unat (of_nat (length bs) :: size_t) = length bs" using l by (simp add: unat_of_nat)
  show "stores holds ?v bs"
    unfolding stores_def
  proof (intro allI impI)
    fix os :: "'s pb_ostream" and d
    assume h: "holds (osink os) d" "unat (max_size os) < 2 ^ 63"
      "unat (bytes_written os) + length bs \<le> unat (max_size os)"
    let ?s = "sub\<lparr>osink := osink os, max_size := of_nat (length bs), bytes_written := 0, oerrmsg := None\<rparr>"
    have "unat (bytes_written os + of_nat (length bs)) = unat (bytes_written os) + length bs"
      using h by (intro unat_add_len) simp
    then have fit: "\<not> bytes_written os + of_nat (length bs) > max_size os" using h(3) by (simp add: word_less_nat_alt)
    obtain s' where "enc fs src ?s = Some (True, s')" "holds (osink s') (d @ bs)"
        "bytes_written s' = of_nat (length bs)" "oerrmsg s' = None"
      using s [unfolded stores_def, rule_format, of ?s d] h(1) n l by auto
    then show "\<exists>os'. ?v os = Some (True, os') \<and> holds (osink os') (d @ bs)
        \<and> bytes_written os' = bytes_written os + of_nat (length bs) \<and> max_size os' = max_size os
        \<and> (oerrmsg os = None \<longrightarrow> oerrmsg os' = None)"
      using fit by simp
  qed
  show "overflows holds ?v bs"
    unfolding overflows_def
  proof (intro allI impI)
    fix os :: "'s pb_ostream" and d
    assume d: "holds (osink os) d" and h: "unat (max_size os) < 2 ^ 63"
      "unat (bytes_written os) \<le> unat (max_size os)" "unat (max_size os) < unat (bytes_written os) + length bs"
    have "unat (bytes_written os + of_nat (length bs)) = unat (bytes_written os) + length bs"
      using h l by (intro unat_add_len) simp
    then have "bytes_written os + of_nat (length bs) > max_size os" using h(3) by (simp add: word_less_nat_alt)
    then show "\<exists>os' k. ?v os = Some (False, os') \<and> k < length bs \<and> holds (osink os') (d @ take k bs)
        \<and> unat (bytes_written os) + k \<le> unat (max_size os)"
      using h d by (intro exI [of _ "set_oerror os ''stream full''"] exI [of _ 0]) (auto simp: set_oerror_def)
  qed
qed

lemma writes_submessage:
  assumes enc: "writes holds (enc fs src) r"
  shows "writes holds (pb_encode_submessage enc fs src) (map_option delimited r)"
proof (cases r)
  case None
  then show ?thesis using enc
    by (auto simp: writes_def pb_encode_submessage_def split: option.splits bool.splits)
next
  case (Some bs)
  have "writes holds (pb_encode_submessage enc fs src) (Some (delimited bs))"
  proof (rule writes_small)
    assume "length (delimited bs) < 2 ^ 63"
    then have l: "length bs < 2 ^ 63" by (simp add: delimited_def)
    then have e: "sizes (enc fs src) (length bs)" "stores holds (enc fs src) bs"
      using enc Some by (simp_all add: writes_def)
    obtain sub where sub: "enc fs src PB_OSTREAM_SIZING = Some (True, sub)" "bytes_written sub = of_nat (length bs)"
      using sizes_result [OF e(1)] by blast
    have v: "writes holds (\<lambda>os. Some (pb_encode_varint os (of_nat (length bs)))) (Some (varint_bytes (length bs)))"
      using writes_varint [of "of_nat (length bs)"] l by (simp add: unat_of_nat)
    show "writes holds (pb_encode_submessage enc fs src) (Some (delimited bs))"
      unfolding delimited_def cat_Some [symmetric]
      by (rule writes_cong [OF _ writes_seq [OF v submessage_body [of enc fs src bs sub, OF e(2) l]]])
         (simp add: pb_encode_submessage_def sub(1), unfold Let_def sub(2), rule refl)
  qed
  then show ?thesis using Some by simp
qed

text \<open>The entries of the table \<^verbatim>\<open>PB_ENCODERS\<close>.\<close>

lemma writes_enc_varint:
  "writes holds (pb_enc_varint m f p) (map_option (\<lambda>i. varint_bytes (nat (i mod 2 ^ 64))) (varint_value m f p))"
  using writes_varint [of "scast (load8 m p)"] writes_varint [of "scast (load16 m p)"]
    writes_varint [of "scast (load32 m p)"] writes_varint [of "load64 m p"]
  by (auto simp: pb_enc_varint_def varint_value_def unat_scast64 unat_sint64 [of "load64 m p"]
      intro: writes_never elim: writes_cong [rotated])

lemma writes_enc_svarint:
  "writes holds (pb_enc_svarint m f p) (map_option (\<lambda>i. varint_bytes (zigzag i)) (varint_value m f p))"
  using writes_svarint [of "scast (load8 m p)"] writes_svarint [of "scast (load16 m p)"]
    writes_svarint [of "scast (load32 m p)"] writes_svarint [of "load64 m p"]
  by (auto simp: pb_enc_svarint_def varint_value_def sint_scast64
      intro: writes_never elim: writes_cong [rotated])

lemma writes_enc_uvarint:
  "writes holds (pb_enc_uvarint m f p) (map_option varint_bytes (uvarint_value m f p))"
  using writes_varint [of "ucast (load8 m p)"] writes_varint [of "ucast (load16 m p)"]
    writes_varint [of "ucast (load32 m p)"] writes_varint [of "load64 m p"]
  by (auto simp: pb_enc_uvarint_def uvarint_value_def ucast_le_word
      intro: writes_never elim: writes_cong [rotated])

lemma writes_enc_bytes:
  assumes "ltype f = PB_LTYPE_BYTES"
  shows "writes holds (pb_enc_bytes m f p) (value_bytes sub m f p)"
proof -
  have a: "PB_BYTES_ARRAY_T_ALLOCSIZE (bytes_size m p) > ucast (data_size f) \<longleftrightarrow>
      unat (bytes_size m p) + 4 > unat (data_size f)"
    using unat_less32 [of "bytes_size m p"]
    by (simp add: PB_BYTES_ARRAY_T_ALLOCSIZE_def word_less_nat_alt unat_word_ariths)
  have e: "writes holds (\<lambda>os. Some (pb_encode_string os [] 0)) (Some (delimited []))"
    by (rule writes_string) simp
  have b: "writes holds (\<lambda>os. Some (pb_encode_string os (mem_read m (bytes_bytes p) (unat (bytes_size m p)))
      (ucast (bytes_size m p)))) (Some (delimited (mem_read m (bytes_bytes p) (unat (bytes_size m p)))))"
    by (rule writes_string) simp
  show ?thesis using e b assms
    by (auto simp: pb_enc_bytes_def value_bytes_def a intro: writes_never elim: writes_cong [rotated])
qed

lemma writes_enc_string:
  assumes "ltype f = PB_LTYPE_STRING"
  shows "writes holds (pb_enc_string m f p) (value_bytes sub m f p)"
proof -
  let ?k = "if atype f = PB_ATYPE_POINTER then 2 ^ 64 - 1 else unat (data_size f)"
  have k: "unat (if atype f = PB_ATYPE_POINTER then - 1 else ucast (data_size f) :: size_t) = ?k"
    by (simp add: unsigned_minus_1_eq_mask mask_eq_exp_minus_1)
  let ?s = "if p = 0 then [] else c_string m p ?k"
  have "pb_enc_string m f p os = Some (pb_encode_string os ?s (of_nat (length ?s)))" for os :: "'s pb_ostream"
    by (simp only: pb_enc_string_def k c_strnlen_string Let_def) (simp add: mem_read_strnlen)
  then have "writes holds (pb_enc_string m f p) (Some (delimited ?s))"
    by (rule writes_cong) (rule writes_string, rule refl)
  then show ?thesis using assms by (simp add: value_bytes_def)
qed

lemma writes_call_encoder:
  assumes "\<And>p. ltype f = PB_LTYPE_SUBMESSAGE \<Longrightarrow> ptr f \<noteq> Null_ptr \<Longrightarrow>
      writes holds (enc (submsg_fields (ptr f)) p) (sub p)"
  shows "writes holds (call_encoder enc m f p) (value_bytes sub m f p)"
proof -
  consider "ltype f = 0" | "ltype f = 1" | "ltype f = 2" | "ltype f = 3" | "ltype f = 4" | "ltype f = 5"
    | "ltype f = 6" | "ltype f = 7" | "ltype f = 9" | "ltype f = 8 \<or> \<not> ltype f < 10"
    using byte_below_10 by blast
  then show ?thesis
  proof cases
    case 1
    then show ?thesis using writes_enc_varint [of m f p] by (simp add: call_encoder_entry value_bytes_def)
  next
    case 2
    then show ?thesis using writes_enc_uvarint [of m f p] by (simp add: call_encoder_entry value_bytes_def)
  next
    case 3
    then show ?thesis using writes_enc_svarint [of m f p] by (simp add: call_encoder_entry value_bytes_def)
  next
    case 4
    then show ?thesis using writes_pb_write [of "mem_read m p 4"]
      by (simp add: call_encoder_entry value_bytes_def pb_enc_fixed32_def [abs_def] pb_encode_fixed32_ref)
  next
    case 5
    then show ?thesis using writes_pb_write [of "mem_read m p 8"]
      by (simp add: call_encoder_entry value_bytes_def pb_enc_fixed64_def [abs_def] pb_encode_fixed64_ref)
  next
    case 6
    then show ?thesis using writes_enc_bytes [OF 6, of m p sub] by (simp add: call_encoder_entry)
  next
    case 7
    then show ?thesis using writes_enc_string [OF 7, of m p sub] by (simp add: call_encoder_entry)
  next
    case 8
    then show ?thesis using writes_submessage [of enc "submsg_fields (ptr f)" p, OF assms]
      by (auto simp: call_encoder_entry value_bytes_def pb_enc_submessage_def [abs_def] intro: writes_never)
  next
    case 9
    have "writes holds (\<lambda>os. Some (pb_encode_string os (mem_read m p (unat (data_size f))) (ucast (data_size f))))
        (Some (delimited (mem_read m p (unat (data_size f)))))"
      by (rule writes_string) simp
    then show ?thesis using 9
      by (simp add: call_encoder_entry value_bytes_def pb_enc_fixed_length_bytes_def [abs_def])
  next
    case 10
    then have "ltype f \<notin> {0, 1, 2, 3, 4, 5, 6, 7, 9}" by (elim disjE) auto
    then have "value_bytes sub m f p = None" by (simp add: value_bytes_def)
    moreover have "call_encoder enc m f p os = None" for os
      using 10 by (auto simp: call_encoder_def PB_ENCODERS_def)
    ultimately show ?thesis by (simp add: writes_def)
  qed
qed

text \<open>Arrays: the packed run, whose length the sizing pass (or a product) gives, and tagged entries.\<close>

lemma packed_size:
  assumes items: "\<And>q. writes holds (func q) (value_bytes sub m f q)"
    and bs: "cats (map (value_bytes sub m f) (item_addrs p (data_size f) (unat count))) = Some bs"
    and l: "length bs < 2 ^ 63"
  shows "(if ltype f = PB_LTYPE_FIXED32 then Some (True, 4 * count)
     else if ltype f = PB_LTYPE_FIXED64 then Some (True, 8 * count)
     else map_option (\<lambda>(b, ss). (b, bytes_written ss))
            (encode_items (unat count) func p (data_size f) PB_OSTREAM_SIZING)) = Some (True, of_nat (length bs))"
proof -
  have len: "length bs = c * unat count" if "\<And>q. value_bytes sub m f q = Some (mem_read m q c)" for c
    using cats_length [of "value_bytes sub m f" m c "item_addrs p (data_size f) (unat count)"] bs that
    by (simp add: item_addrs_def)
  have "sizes (encode_items (unat count) func p (data_size f)) (length bs)"
    using writes_items [of holds func "value_bytes sub m f" "unat count" p "data_size f", OF items] bs l
    by (simp add: writes_def)
  then obtain ss where "encode_items (unat count) func p (data_size f) PB_OSTREAM_SIZING = Some (True, ss)"
      "bytes_written ss = of_nat (length bs)"
    using sizes_result by blast
  then show ?thesis using len [OF fixed_value(1)] len [OF fixed_value(2)] by simp
qed

lemma writes_packed:
  assumes items: "\<And>q. writes holds (func q) (value_bytes sub m f q)"
    and nz: "count \<noteq> 0" and ok: "\<not> (atype f \<noteq> PB_ATYPE_POINTER \<and> count > ucast (array_size f))"
    and packable: "ltype f \<le> PB_LTYPE_LAST_PACKABLE"
  shows "writes holds (encode_array m f p count func) (cat (Some (tag_bytes PB_WT_STRING (tag f)))
     (map_option delimited (cats (map (value_bytes sub m f) (item_addrs p (data_size f) (unat count))))))"
proof -
  let ?r = "cats (map (value_bytes sub m f) (item_addrs p (data_size f) (unat count)))"
  let ?items = "encode_items (unat count) func p (data_size f)"
  have w: "writes holds ?items ?r" by (rule writes_items) (rule items)
  show ?thesis
  proof (cases ?r)
    case None
    have nofix: False if "\<And>q. value_bytes sub m f q = Some (mem_read m q c)" for c
      using cats_length [OF that, of "item_addrs p (data_size f) (unat count)"] None by simp
    have "ltype f \<noteq> PB_LTYPE_FIXED32 \<and> ltype f \<noteq> PB_LTYPE_FIXED64"
      using nofix [OF fixed_value(1)] nofix [OF fixed_value(2)] by blast
    moreover have "?items PB_OSTREAM_SIZING \<noteq> Some (True, ss)" for ss using w None by (simp add: writes_def)
    ultimately show ?thesis using nz ok packable None
      by (auto simp: encode_array_def writes_def cat_def seq_eq_True split: option.splits bool.splits if_splits)
  next
    case (Some bs)
    have "writes holds (encode_array m f p count func) (Some (tag_bytes PB_WT_STRING (tag f) @ delimited bs))"
    proof (rule writes_small)
      assume "length (tag_bytes PB_WT_STRING (tag f) @ delimited bs) < 2 ^ 63"
      then have l: "length bs < 2 ^ 63" by (simp add: delimited_def)
      have t: "writes holds (\<lambda>os. Some (pb_encode_tag os PB_WT_STRING (tag f))) (Some (tag_bytes PB_WT_STRING (tag f)))"
        by (rule writes_tag) simp
      have v: "writes holds (\<lambda>os. Some (pb_encode_varint os (of_nat (length bs)))) (Some (varint_bytes (length bs)))"
        using writes_varint [of "of_nat (length bs)"] l by (simp add: unat_of_nat)
      have b: "writes holds (\<lambda>os. case osink os of Sizing \<Rightarrow> Some (pb_write os [] (of_nat (length bs))) | _ \<Rightarrow> ?items os)
          (Some bs)"
        using w Some l by (intro writes_unless_sizing) (simp_all add: writes_def)
      show "writes holds (encode_array m f p count func) (Some (tag_bytes PB_WT_STRING (tag f) @ delimited bs))"
        unfolding delimited_def cat_Some [symmetric]
        by (rule writes_cong [OF _ writes_seq [OF t writes_seq [OF v b]]])
           (use nz ok packable packed_size [OF items Some l] in \<open>auto simp: encode_array_def\<close>)
    qed
    then show ?thesis using Some by simp
  qed
qed

lemma writes_array:
  assumes items: "\<And>q. writes holds (func q) (value_bytes sub m f q)"
  shows "writes holds (encode_array m f p count func) (array_bytes sub m f p (unat count))"
proof -
  have gt: "count > ucast (array_size f) \<longleftrightarrow> unat count > unat (array_size f)" by (simp add: word_less_nat_alt)
  consider "count = 0" | "count \<noteq> 0" "atype f \<noteq> PB_ATYPE_POINTER \<and> count > ucast (array_size f)"
    | "count \<noteq> 0" "\<not> (atype f \<noteq> PB_ATYPE_POINTER \<and> count > ucast (array_size f))" "ltype f \<le> PB_LTYPE_LAST_PACKABLE"
    | "count \<noteq> 0" "\<not> (atype f \<noteq> PB_ATYPE_POINTER \<and> count > ucast (array_size f))" "\<not> ltype f \<le> PB_LTYPE_LAST_PACKABLE"
    by blast
  then show ?thesis
  proof cases
    case 1
    then show ?thesis using writes_skip by (simp add: encode_array_def [abs_def] array_bytes_def)
  next
    case 2
    then show ?thesis using gt by (auto simp: encode_array_def array_bytes_def unat_eq_zero writes_def)
  next
    case 3
    then show ?thesis using writes_packed [OF items] gt by (auto simp: array_bytes_def unat_eq_zero)
  next
    case 4
    let ?at = "\<lambda>q. if atype f = PB_ATYPE_POINTER \<and> (ltype f = PB_LTYPE_STRING \<or> ltype f = PB_LTYPE_BYTES)
      then load64 m q else q"
    let ?g = "\<lambda>q os. seq (Some (pb_encode_tag_for_field os f)) (\<lambda>os.
             if atype f = PB_ATYPE_POINTER \<and> (ltype f = PB_LTYPE_STRING \<or> ltype f = PB_LTYPE_BYTES)
             then func (load64 m q) os else func q os)"
    have "writes holds (?g q) (cat (tag_for f) (value_bytes sub m f (?at q)))" for q
      by (rule writes_cong [OF _ writes_seq [OF writes_tag_for_field items [of "?at q"]]])
         (rule arg_cong [of _ _ "seq _"], rule ext, auto)
    then have "writes holds (encode_items (unat count) ?g p (data_size f))
        (cats (map (\<lambda>q. cat (tag_for f) (value_bytes sub m f (?at q))) (item_addrs p (data_size f) (unat count))))"
      by (rule writes_items)
    then show ?thesis using 4 gt
      by (auto simp: array_bytes_def unat_eq_zero encode_array_def elim!: writes_cong [rotated])
  qed
qed

text \<open>Fields and messages.\<close>

lemma writes_single:
  assumes "\<And>p. ltype f = PB_LTYPE_SUBMESSAGE \<Longrightarrow> ptr f \<noteq> Null_ptr \<Longrightarrow>
      writes holds (enc (submsg_fields (ptr f)) p) (sub p)"
  shows "writes holds (\<lambda>os. seq (Some (pb_encode_tag_for_field os f)) (call_encoder enc m f pd))
     (cat (tag_for f) (value_bytes sub m f pd))"
  by (rule writes_seq [OF writes_tag_for_field writes_call_encoder]) (rule assms)

lemma writes_field:
  assumes plain: "atype f = PB_ATYPE_STATIC \<or> atype f = PB_ATYPE_POINTER"
    and sub: "\<And>p. ltype f = PB_LTYPE_SUBMESSAGE \<Longrightarrow> ptr f \<noteq> Null_ptr \<Longrightarrow>
      writes holds (enc (submsg_fields (ptr f)) p) (sub p)"
    and chk: "chk f pd = Some (default_value m f pd)"
  shows "writes holds (encode_field env chk enc m f pd) (field_bytes sub m f pd)"
proof -
  let ?pd = "if atype f = PB_ATYPE_POINTER then load64 m pd else pd"
  have e: "encode_field env chk enc m f pd os = encode_basic_field chk enc m f pd os" for os
    using plain by (simp add: encode_field_def)
  note single = writes_single [of f enc sub m, OF sub]
  note array = writes_array [of "call_encoder enc m f" sub m f, OF writes_call_encoder [of f enc sub m, OF sub]]
  note defs = encode_basic_field_def field_bytes_def chk Let_def
  consider (req) "htype f = PB_HTYPE_REQUIRED" | (opt) "htype f = PB_HTYPE_OPTIONAL"
    | (rep) "htype f = PB_HTYPE_REPEATED" | (oneof) "htype f = PB_HTYPE_ONEOF"
    | (other) "htype f \<notin> {PB_HTYPE_REQUIRED, PB_HTYPE_OPTIONAL, PB_HTYPE_REPEATED, PB_HTYPE_ONEOF}"
    by auto
  then have "writes holds (encode_basic_field chk enc m f pd) (field_bytes sub m f pd)"
  proof cases
    case req
    show ?thesis
    proof (cases "?pd = 0")
      case True
      then show ?thesis using req by (auto simp: defs writes_def)
    next
      case False
      then show ?thesis using req by (auto simp: defs intro!: writes_cong [OF _ single] split: if_splits)
    qed
  next
    case opt
    let ?has = "if size_offset f \<noteq> 0 then load_bool m (pd + scast (size_offset f))
      else if atype f = PB_ATYPE_POINTER then ?pd \<noteq> 0 else \<not> default_value m f pd"
    show ?thesis
    proof (cases ?has)
      case True
      then show ?thesis using opt by (auto simp: defs intro!: writes_cong [OF _ single] split: if_splits)
    next
      case False
      then show ?thesis using opt by (auto simp: defs intro!: writes_cong [OF _ writes_skip] split: if_splits)
    qed
  next
    case rep
    then show ?thesis
      using array [of ?pd "ucast (if size_offset f \<noteq> 0 then load32 m (pd + scast (size_offset f)) else array_size f)"]
      by (auto simp: defs elim!: writes_cong [rotated])
  next
    case oneof
    let ?which = "if size_offset f \<noteq> 0 then load32 m (pd + scast (size_offset f))
      else if atype f = PB_ATYPE_POINTER \<and> ?pd = 0 then 0 else 1"
    show ?thesis
    proof (cases "?which = tag f")
      case True
      then show ?thesis using oneof by (auto simp: defs intro!: writes_cong [OF _ single] split: if_splits)
    next
      case False
      then show ?thesis using oneof by (auto simp: defs intro!: writes_cong [OF _ writes_skip] split: if_splits)
    qed
  next
    case other
    then show ?thesis by (simp add: defs writes_def)
  qed
  then show ?thesis by (rule writes_cong [OF e])
qed

lemma pb_encode_step:
  assumes plain: "plain fs" and depth: "fields_depth fs \<le> n"
    and sub: "\<And>f p. f \<in> set fs \<Longrightarrow> ltype f = PB_LTYPE_SUBMESSAGE \<Longrightarrow> ptr f \<noteq> Null_ptr \<Longrightarrow>
      writes holds (pb_encode n env m (submsg_fields (ptr f)) p) (msg_bytes m (submsg_fields (ptr f)) p)"
  shows "writes holds (pb_encode (Suc n) env m fs p) (msg_bytes m fs p)"
proof -
  let ?chk = "pb_check_proto3_default_value (Suc n) m"
  let ?b = "\<lambda>(f, pd). \<lambda>os. if ltype f = PB_LTYPE_EXTENSION
       then encode_extension_field n env ?chk (pb_encode n env m) m pd os
       else encode_field env ?chk (pb_encode n env m) m f pd os"
  let ?r = "\<lambda>(f, pd). field_bytes (msg_bytes m (submsg_fields (ptr f))) m f pd"
  have "writes holds (?b x) (?r x)" if x: "x \<in> set (place fs p)" for x
  proof (cases x)
    case (Pair f pd)
    then have f: "f \<in> set fs" using x place_in by blast
    have "?chk f pd = Some (default_value m f pd)"
      using ptr_depth_le [OF f] depth by (intro check_default_value) simp
    then have "writes holds (encode_field env ?chk (pb_encode n env m) m f pd) (?r x)"
      unfolding Pair prod.case by (intro writes_field [OF plain_in(1) [OF plain f]] sub [OF f])
    then show ?thesis using plain_in(2) [OF plain f] Pair by simp
  qed
  then have "writes holds (seq_all ?b (place fs p)) (cats (map ?r (place fs p)))" by (rule writes_seq_all)
  moreover have "pb_encode (Suc n) env m fs p os = seq_all ?b (place fs p) os" for os
    using for_fields_place [of ?b fs p os] by simp
  ultimately show ?thesis unfolding msg_bytes.simps [of m fs p] by (rule writes_cong [rotated])
qed

lemma pb_encode_writes:
  "plain fs \<Longrightarrow> fields_depth fs \<le> n \<Longrightarrow> writes holds (pb_encode (Suc n) env m fs p) (msg_bytes m fs p)"
proof (induction n arbitrary: fs p)
  case 0
  show ?case
  proof (rule pb_encode_step [OF 0])
    fix f p assume f: "f \<in> set fs" "ltype f = PB_LTYPE_SUBMESSAGE" "ptr f \<noteq> Null_ptr"
    have "ptr_depth (ptr f) = 0" using ptr_depth_le [OF f(1)] 0(2) by simp
    then show "writes holds (pb_encode 0 env m (submsg_fields (ptr f)) p) (msg_bytes m (submsg_fields (ptr f)) p)"
      using plain_in(3) [OF 0(1) f(1,2)] f(3) by (cases "ptr f") auto
  qed
next
  case (Suc n)
  show ?case
  proof (rule pb_encode_step [OF Suc.prems])
    fix f p assume f: "f \<in> set fs" "ltype f = PB_LTYPE_SUBMESSAGE" "ptr f \<noteq> Null_ptr"
    then obtain gs where gs: "ptr f = Submsg gs" using plain_in(3) [OF Suc.prems(1) f(1,2)] by (cases "ptr f") auto
    have "plain gs" "fields_depth gs \<le> n"
      using plain_in(3) [OF Suc.prems(1) f(1,2)] ptr_depth_le [OF f(1)] Suc.prems(2) gs by simp_all
    then show "writes holds (pb_encode (Suc n) env m (submsg_fields (ptr f)) p) (msg_bytes m (submsg_fields (ptr f)) p)"
      unfolding gs submsg_fields.simps by (rule Suc.IH)
  qed
qed

end

end
