(* ===== verification/Cct_Messages.thy ===== *)
theory Cct_Messages
  imports Pb_Common
begin

text \<open>
  The generated message descriptions the program encodes and decodes with \<^verbatim>\<open>nanopb\<close>:
  \<^verbatim>\<open>cct.nanopb.h\<close> and \<^verbatim>\<open>cct.nanopb.c\<close> (the log requests sent to Google's log collector and
  its responses) and \<^verbatim>\<open>firebasecore.nanopb.h\<close> and \<^verbatim>\<open>firebasecore.nanopb.c\<close> (the core
  diagnostics event). Struct layouts follow the C rules on the 64-bit targets; descriptors
  are built with the macros of \<^verbatim>\<open>pb.h\<close>.
\<close>

section \<open>Member types\<close>

definition m_bool :: "string \<Rightarrow> member" where
  "m_bool s = \<lparr>mname = s, msize = 1, malign = 1, melem = 0\<rparr>"

definition m_int32 :: "string \<Rightarrow> member" where
  "m_int32 s = \<lparr>mname = s, msize = 4, malign = 4, melem = 0\<rparr>"

definition m_int64 :: "string \<Rightarrow> member" where
  "m_int64 s = \<lparr>mname = s, msize = 8, malign = 8, melem = 0\<rparr>"

definition m_enum :: "string \<Rightarrow> member" where
  "m_enum s = \<lparr>mname = s, msize = 4, malign = 4, melem = 0\<rparr>"

definition m_count :: "string \<Rightarrow> member" where
  "m_count s = \<lparr>mname = s, msize = 4, malign = 4, melem = 0\<rparr>"

text \<open>A pointer to objects of the given size.\<close>

definition m_ptr :: "string \<Rightarrow> nat \<Rightarrow> member" where
  "m_ptr s k = \<lparr>mname = s, msize = 8, malign = 8, melem = k\<rparr>"

definition m_struct :: "string \<Rightarrow> cstruct \<Rightarrow> member" where
  "m_struct s st = \<lparr>mname = s, msize = sizeof st, malign = struct_align st, melem = 0\<rparr>"

definition pb_bytes_array_struct :: cstruct where
  "pb_bytes_array_struct = [m_count ''size'', \<lparr>mname = ''bytes'', msize = 1, malign = 1, melem = 1\<rparr>]"

lemmas member_defs = m_bool_def m_int32_def m_int64_def m_enum_def m_count_def m_ptr_def m_struct_def

section \<open>Enumerations\<close>

text \<open>Each enumeration is a datatype with the constants of the header and their values.\<close>

datatype gdt_cct_NetworkConnectionInfo_NetworkType =
    gdt_cct_NetworkConnectionInfo_NetworkType_NONE
  | gdt_cct_NetworkConnectionInfo_NetworkType_MOBILE
  | gdt_cct_NetworkConnectionInfo_NetworkType_WIFI
  | gdt_cct_NetworkConnectionInfo_NetworkType_MOBILE_MMS
  | gdt_cct_NetworkConnectionInfo_NetworkType_MOBILE_SUPL
  | gdt_cct_NetworkConnectionInfo_NetworkType_MOBILE_DUN
  | gdt_cct_NetworkConnectionInfo_NetworkType_MOBILE_HIPRI
  | gdt_cct_NetworkConnectionInfo_NetworkType_WIMAX
  | gdt_cct_NetworkConnectionInfo_NetworkType_BLUETOOTH
  | gdt_cct_NetworkConnectionInfo_NetworkType_DUMMY
  | gdt_cct_NetworkConnectionInfo_NetworkType_ETHERNET
  | gdt_cct_NetworkConnectionInfo_NetworkType_MOBILE_FOTA
  | gdt_cct_NetworkConnectionInfo_NetworkType_MOBILE_IMS
  | gdt_cct_NetworkConnectionInfo_NetworkType_MOBILE_CBS
  | gdt_cct_NetworkConnectionInfo_NetworkType_WIFI_P2P
  | gdt_cct_NetworkConnectionInfo_NetworkType_MOBILE_IA
  | gdt_cct_NetworkConnectionInfo_NetworkType_MOBILE_EMERGENCY
  | gdt_cct_NetworkConnectionInfo_NetworkType_PROXY
  | gdt_cct_NetworkConnectionInfo_NetworkType_VPN

primrec gdt_cct_NetworkConnectionInfo_NetworkType_value :: "gdt_cct_NetworkConnectionInfo_NetworkType \<Rightarrow> int" where
  "gdt_cct_NetworkConnectionInfo_NetworkType_value gdt_cct_NetworkConnectionInfo_NetworkType_NONE = -1"
| "gdt_cct_NetworkConnectionInfo_NetworkType_value gdt_cct_NetworkConnectionInfo_NetworkType_MOBILE = 0"
| "gdt_cct_NetworkConnectionInfo_NetworkType_value gdt_cct_NetworkConnectionInfo_NetworkType_WIFI = 1"
| "gdt_cct_NetworkConnectionInfo_NetworkType_value gdt_cct_NetworkConnectionInfo_NetworkType_MOBILE_MMS = 2"
| "gdt_cct_NetworkConnectionInfo_NetworkType_value gdt_cct_NetworkConnectionInfo_NetworkType_MOBILE_SUPL = 3"
| "gdt_cct_NetworkConnectionInfo_NetworkType_value gdt_cct_NetworkConnectionInfo_NetworkType_MOBILE_DUN = 4"
| "gdt_cct_NetworkConnectionInfo_NetworkType_value gdt_cct_NetworkConnectionInfo_NetworkType_MOBILE_HIPRI = 5"
| "gdt_cct_NetworkConnectionInfo_NetworkType_value gdt_cct_NetworkConnectionInfo_NetworkType_WIMAX = 6"
| "gdt_cct_NetworkConnectionInfo_NetworkType_value gdt_cct_NetworkConnectionInfo_NetworkType_BLUETOOTH = 7"
| "gdt_cct_NetworkConnectionInfo_NetworkType_value gdt_cct_NetworkConnectionInfo_NetworkType_DUMMY = 8"
| "gdt_cct_NetworkConnectionInfo_NetworkType_value gdt_cct_NetworkConnectionInfo_NetworkType_ETHERNET = 9"
| "gdt_cct_NetworkConnectionInfo_NetworkType_value gdt_cct_NetworkConnectionInfo_NetworkType_MOBILE_FOTA = 10"
| "gdt_cct_NetworkConnectionInfo_NetworkType_value gdt_cct_NetworkConnectionInfo_NetworkType_MOBILE_IMS = 11"
| "gdt_cct_NetworkConnectionInfo_NetworkType_value gdt_cct_NetworkConnectionInfo_NetworkType_MOBILE_CBS = 12"
| "gdt_cct_NetworkConnectionInfo_NetworkType_value gdt_cct_NetworkConnectionInfo_NetworkType_WIFI_P2P = 13"
| "gdt_cct_NetworkConnectionInfo_NetworkType_value gdt_cct_NetworkConnectionInfo_NetworkType_MOBILE_IA = 14"
| "gdt_cct_NetworkConnectionInfo_NetworkType_value gdt_cct_NetworkConnectionInfo_NetworkType_MOBILE_EMERGENCY = 15"
| "gdt_cct_NetworkConnectionInfo_NetworkType_value gdt_cct_NetworkConnectionInfo_NetworkType_PROXY = 16"
| "gdt_cct_NetworkConnectionInfo_NetworkType_value gdt_cct_NetworkConnectionInfo_NetworkType_VPN = 17"

datatype gdt_cct_NetworkConnectionInfo_MobileSubtype =
    gdt_cct_NetworkConnectionInfo_MobileSubtype_UNKNOWN_MOBILE_SUBTYPE
  | gdt_cct_NetworkConnectionInfo_MobileSubtype_GPRS
  | gdt_cct_NetworkConnectionInfo_MobileSubtype_EDGE
  | gdt_cct_NetworkConnectionInfo_MobileSubtype_UMTS
  | gdt_cct_NetworkConnectionInfo_MobileSubtype_CDMA
  | gdt_cct_NetworkConnectionInfo_MobileSubtype_EVDO_0
  | gdt_cct_NetworkConnectionInfo_MobileSubtype_EVDO_A
  | gdt_cct_NetworkConnectionInfo_MobileSubtype_RTT
  | gdt_cct_NetworkConnectionInfo_MobileSubtype_HSDPA
  | gdt_cct_NetworkConnectionInfo_MobileSubtype_HSUPA
  | gdt_cct_NetworkConnectionInfo_MobileSubtype_HSPA
  | gdt_cct_NetworkConnectionInfo_MobileSubtype_IDEN
  | gdt_cct_NetworkConnectionInfo_MobileSubtype_EVDO_B
  | gdt_cct_NetworkConnectionInfo_MobileSubtype_LTE
  | gdt_cct_NetworkConnectionInfo_MobileSubtype_EHRPD
  | gdt_cct_NetworkConnectionInfo_MobileSubtype_HSPAP
  | gdt_cct_NetworkConnectionInfo_MobileSubtype_GSM
  | gdt_cct_NetworkConnectionInfo_MobileSubtype_TD_SCDMA
  | gdt_cct_NetworkConnectionInfo_MobileSubtype_IWLAN
  | gdt_cct_NetworkConnectionInfo_MobileSubtype_LTE_CA
  | gdt_cct_NetworkConnectionInfo_MobileSubtype_COMBINED

primrec gdt_cct_NetworkConnectionInfo_MobileSubtype_value :: "gdt_cct_NetworkConnectionInfo_MobileSubtype \<Rightarrow> int" where
  "gdt_cct_NetworkConnectionInfo_MobileSubtype_value gdt_cct_NetworkConnectionInfo_MobileSubtype_UNKNOWN_MOBILE_SUBTYPE = 0"
| "gdt_cct_NetworkConnectionInfo_MobileSubtype_value gdt_cct_NetworkConnectionInfo_MobileSubtype_GPRS = 1"
| "gdt_cct_NetworkConnectionInfo_MobileSubtype_value gdt_cct_NetworkConnectionInfo_MobileSubtype_EDGE = 2"
| "gdt_cct_NetworkConnectionInfo_MobileSubtype_value gdt_cct_NetworkConnectionInfo_MobileSubtype_UMTS = 3"
| "gdt_cct_NetworkConnectionInfo_MobileSubtype_value gdt_cct_NetworkConnectionInfo_MobileSubtype_CDMA = 4"
| "gdt_cct_NetworkConnectionInfo_MobileSubtype_value gdt_cct_NetworkConnectionInfo_MobileSubtype_EVDO_0 = 5"
| "gdt_cct_NetworkConnectionInfo_MobileSubtype_value gdt_cct_NetworkConnectionInfo_MobileSubtype_EVDO_A = 6"
| "gdt_cct_NetworkConnectionInfo_MobileSubtype_value gdt_cct_NetworkConnectionInfo_MobileSubtype_RTT = 7"
| "gdt_cct_NetworkConnectionInfo_MobileSubtype_value gdt_cct_NetworkConnectionInfo_MobileSubtype_HSDPA = 8"
| "gdt_cct_NetworkConnectionInfo_MobileSubtype_value gdt_cct_NetworkConnectionInfo_MobileSubtype_HSUPA = 9"
| "gdt_cct_NetworkConnectionInfo_MobileSubtype_value gdt_cct_NetworkConnectionInfo_MobileSubtype_HSPA = 10"
| "gdt_cct_NetworkConnectionInfo_MobileSubtype_value gdt_cct_NetworkConnectionInfo_MobileSubtype_IDEN = 11"
| "gdt_cct_NetworkConnectionInfo_MobileSubtype_value gdt_cct_NetworkConnectionInfo_MobileSubtype_EVDO_B = 12"
| "gdt_cct_NetworkConnectionInfo_MobileSubtype_value gdt_cct_NetworkConnectionInfo_MobileSubtype_LTE = 13"
| "gdt_cct_NetworkConnectionInfo_MobileSubtype_value gdt_cct_NetworkConnectionInfo_MobileSubtype_EHRPD = 14"
| "gdt_cct_NetworkConnectionInfo_MobileSubtype_value gdt_cct_NetworkConnectionInfo_MobileSubtype_HSPAP = 15"
| "gdt_cct_NetworkConnectionInfo_MobileSubtype_value gdt_cct_NetworkConnectionInfo_MobileSubtype_GSM = 16"
| "gdt_cct_NetworkConnectionInfo_MobileSubtype_value gdt_cct_NetworkConnectionInfo_MobileSubtype_TD_SCDMA = 17"
| "gdt_cct_NetworkConnectionInfo_MobileSubtype_value gdt_cct_NetworkConnectionInfo_MobileSubtype_IWLAN = 18"
| "gdt_cct_NetworkConnectionInfo_MobileSubtype_value gdt_cct_NetworkConnectionInfo_MobileSubtype_LTE_CA = 19"
| "gdt_cct_NetworkConnectionInfo_MobileSubtype_value gdt_cct_NetworkConnectionInfo_MobileSubtype_COMBINED = 100"

datatype gdt_cct_ClientInfo_ClientType =
    gdt_cct_ClientInfo_ClientType_CLIENT_UNKNOWN
  | gdt_cct_ClientInfo_ClientType_IOS_FIREBASE

primrec gdt_cct_ClientInfo_ClientType_value :: "gdt_cct_ClientInfo_ClientType \<Rightarrow> int" where
  "gdt_cct_ClientInfo_ClientType_value gdt_cct_ClientInfo_ClientType_CLIENT_UNKNOWN = 0"
| "gdt_cct_ClientInfo_ClientType_value gdt_cct_ClientInfo_ClientType_IOS_FIREBASE = 15"

datatype gdt_cct_QosTierConfiguration_QosTier =
    gdt_cct_QosTierConfiguration_QosTier_DEFAULT
  | gdt_cct_QosTierConfiguration_QosTier_UNMETERED_ONLY
  | gdt_cct_QosTierConfiguration_QosTier_UNMETERED_OR_DAILY
  | gdt_cct_QosTierConfiguration_QosTier_FAST_IF_RADIO_AWAKE
  | gdt_cct_QosTierConfiguration_QosTier_NEVER

primrec gdt_cct_QosTierConfiguration_QosTier_value :: "gdt_cct_QosTierConfiguration_QosTier \<Rightarrow> int" where
  "gdt_cct_QosTierConfiguration_QosTier_value gdt_cct_QosTierConfiguration_QosTier_DEFAULT = 0"
| "gdt_cct_QosTierConfiguration_QosTier_value gdt_cct_QosTierConfiguration_QosTier_UNMETERED_ONLY = 1"
| "gdt_cct_QosTierConfiguration_QosTier_value gdt_cct_QosTierConfiguration_QosTier_UNMETERED_OR_DAILY = 2"
| "gdt_cct_QosTierConfiguration_QosTier_value gdt_cct_QosTierConfiguration_QosTier_FAST_IF_RADIO_AWAKE = 3"
| "gdt_cct_QosTierConfiguration_QosTier_value gdt_cct_QosTierConfiguration_QosTier_NEVER = 4"

datatype logs_proto_mobilesdk_ios_ICoreConfiguration_ConfigurationType =
    logs_proto_mobilesdk_ios_ICoreConfiguration_ConfigurationType_UNKNOWN_CONFIGURATION_TYPE
  | logs_proto_mobilesdk_ios_ICoreConfiguration_ConfigurationType_CORE
  | logs_proto_mobilesdk_ios_ICoreConfiguration_ConfigurationType_SDK

primrec logs_proto_mobilesdk_ios_ICoreConfiguration_ConfigurationType_value :: "logs_proto_mobilesdk_ios_ICoreConfiguration_ConfigurationType \<Rightarrow> int" where
  "logs_proto_mobilesdk_ios_ICoreConfiguration_ConfigurationType_value logs_proto_mobilesdk_ios_ICoreConfiguration_ConfigurationType_UNKNOWN_CONFIGURATION_TYPE = 0"
| "logs_proto_mobilesdk_ios_ICoreConfiguration_ConfigurationType_value logs_proto_mobilesdk_ios_ICoreConfiguration_ConfigurationType_CORE = 1"
| "logs_proto_mobilesdk_ios_ICoreConfiguration_ConfigurationType_value logs_proto_mobilesdk_ios_ICoreConfiguration_ConfigurationType_SDK = 2"

datatype logs_proto_mobilesdk_ios_ICoreConfiguration_BuildType =
    logs_proto_mobilesdk_ios_ICoreConfiguration_BuildType_UNKNOWN_BUILD_TYPE
  | logs_proto_mobilesdk_ios_ICoreConfiguration_BuildType_INTERNAL
  | logs_proto_mobilesdk_ios_ICoreConfiguration_BuildType_EAP
  | logs_proto_mobilesdk_ios_ICoreConfiguration_BuildType_PROD

primrec logs_proto_mobilesdk_ios_ICoreConfiguration_BuildType_value :: "logs_proto_mobilesdk_ios_ICoreConfiguration_BuildType \<Rightarrow> int" where
  "logs_proto_mobilesdk_ios_ICoreConfiguration_BuildType_value logs_proto_mobilesdk_ios_ICoreConfiguration_BuildType_UNKNOWN_BUILD_TYPE = 0"
| "logs_proto_mobilesdk_ios_ICoreConfiguration_BuildType_value logs_proto_mobilesdk_ios_ICoreConfiguration_BuildType_INTERNAL = 1"
| "logs_proto_mobilesdk_ios_ICoreConfiguration_BuildType_value logs_proto_mobilesdk_ios_ICoreConfiguration_BuildType_EAP = 2"
| "logs_proto_mobilesdk_ios_ICoreConfiguration_BuildType_value logs_proto_mobilesdk_ios_ICoreConfiguration_BuildType_PROD = 3"

datatype logs_proto_mobilesdk_ios_ICoreConfiguration_ServiceType =
    logs_proto_mobilesdk_ios_ICoreConfiguration_ServiceType_UNKNOWN_SDK_SERVICE
  | logs_proto_mobilesdk_ios_ICoreConfiguration_ServiceType_ICORE
  | logs_proto_mobilesdk_ios_ICoreConfiguration_ServiceType_ADMOB
  | logs_proto_mobilesdk_ios_ICoreConfiguration_ServiceType_APP_INVITE
  | logs_proto_mobilesdk_ios_ICoreConfiguration_ServiceType_SIGN_IN
  | logs_proto_mobilesdk_ios_ICoreConfiguration_ServiceType_GCM
  | logs_proto_mobilesdk_ios_ICoreConfiguration_ServiceType_MAPS
  | logs_proto_mobilesdk_ios_ICoreConfiguration_ServiceType_SCION
  | logs_proto_mobilesdk_ios_ICoreConfiguration_ServiceType_ANALYTICS
  | logs_proto_mobilesdk_ios_ICoreConfiguration_ServiceType_APP_INDEXING
  | logs_proto_mobilesdk_ios_ICoreConfiguration_ServiceType_CONFIG
  | logs_proto_mobilesdk_ios_ICoreConfiguration_ServiceType_DURABLE_DEEP_LINKS
  | logs_proto_mobilesdk_ios_ICoreConfiguration_ServiceType_CRASH
  | logs_proto_mobilesdk_ios_ICoreConfiguration_ServiceType_AUTH
  | logs_proto_mobilesdk_ios_ICoreConfiguration_ServiceType_DATABASE
  | logs_proto_mobilesdk_ios_ICoreConfiguration_ServiceType_STORAGE
  | logs_proto_mobilesdk_ios_ICoreConfiguration_ServiceType_MESSAGING
  | logs_proto_mobilesdk_ios_ICoreConfiguration_ServiceType_MEASUREMENT
  | logs_proto_mobilesdk_ios_ICoreConfiguration_ServiceType_REMOTE_CONFIG
  | logs_proto_mobilesdk_ios_ICoreConfiguration_ServiceType_DYNAMIC_LINKS
  | logs_proto_mobilesdk_ios_ICoreConfiguration_ServiceType_INVITES
  | logs_proto_mobilesdk_ios_ICoreConfiguration_ServiceType_AUTH_UI
  | logs_proto_mobilesdk_ios_ICoreConfiguration_ServiceType_FIRESTORE
  | logs_proto_mobilesdk_ios_ICoreConfiguration_ServiceType_PERFORMANCE
  | logs_proto_mobilesdk_ios_ICoreConfiguration_ServiceType_ML_VISION_ON_DEVICE_FACE
  | logs_proto_mobilesdk_ios_ICoreConfiguration_ServiceType_ML_VISION_ON_DEVICE_BARCODE
  | logs_proto_mobilesdk_ios_ICoreConfiguration_ServiceType_ML_VISION_ON_DEVICE_TEXT
  | logs_proto_mobilesdk_ios_ICoreConfiguration_ServiceType_ML_VISION_ON_DEVICE_LABEL
  | logs_proto_mobilesdk_ios_ICoreConfiguration_ServiceType_ML_MODEL_INTERPRETER
  | logs_proto_mobilesdk_ios_ICoreConfiguration_ServiceType_IN_APP_MESSAGING
  | logs_proto_mobilesdk_ios_ICoreConfiguration_ServiceType_FUNCTIONS
  | logs_proto_mobilesdk_ios_ICoreConfiguration_ServiceType_ML_NATURAL_LANGUAGE
  | logs_proto_mobilesdk_ios_ICoreConfiguration_ServiceType_ML_VISION_ON_DEVICE_AUTOML
  | logs_proto_mobilesdk_ios_ICoreConfiguration_ServiceType_ML_VISION_ON_DEVICE_OBJECT_DETECTION

primrec logs_proto_mobilesdk_ios_ICoreConfiguration_ServiceType_value :: "logs_proto_mobilesdk_ios_ICoreConfiguration_ServiceType \<Rightarrow> int" where
  "logs_proto_mobilesdk_ios_ICoreConfiguration_ServiceType_value logs_proto_mobilesdk_ios_ICoreConfiguration_ServiceType_UNKNOWN_SDK_SERVICE = 0"
| "logs_proto_mobilesdk_ios_ICoreConfiguration_ServiceType_value logs_proto_mobilesdk_ios_ICoreConfiguration_ServiceType_ICORE = 1"
| "logs_proto_mobilesdk_ios_ICoreConfiguration_ServiceType_value logs_proto_mobilesdk_ios_ICoreConfiguration_ServiceType_ADMOB = 2"
| "logs_proto_mobilesdk_ios_ICoreConfiguration_ServiceType_value logs_proto_mobilesdk_ios_ICoreConfiguration_ServiceType_APP_INVITE = 3"
| "logs_proto_mobilesdk_ios_ICoreConfiguration_ServiceType_value logs_proto_mobilesdk_ios_ICoreConfiguration_ServiceType_SIGN_IN = 5"
| "logs_proto_mobilesdk_ios_ICoreConfiguration_ServiceType_value logs_proto_mobilesdk_ios_ICoreConfiguration_ServiceType_GCM = 6"
| "logs_proto_mobilesdk_ios_ICoreConfiguration_ServiceType_value logs_proto_mobilesdk_ios_ICoreConfiguration_ServiceType_MAPS = 7"
| "logs_proto_mobilesdk_ios_ICoreConfiguration_ServiceType_value logs_proto_mobilesdk_ios_ICoreConfiguration_ServiceType_SCION = 8"
| "logs_proto_mobilesdk_ios_ICoreConfiguration_ServiceType_value logs_proto_mobilesdk_ios_ICoreConfiguration_ServiceType_ANALYTICS = 9"
| "logs_proto_mobilesdk_ios_ICoreConfiguration_ServiceType_value logs_proto_mobilesdk_ios_ICoreConfiguration_ServiceType_APP_INDEXING = 10"
| "logs_proto_mobilesdk_ios_ICoreConfiguration_ServiceType_value logs_proto_mobilesdk_ios_ICoreConfiguration_ServiceType_CONFIG = 11"
| "logs_proto_mobilesdk_ios_ICoreConfiguration_ServiceType_value logs_proto_mobilesdk_ios_ICoreConfiguration_ServiceType_DURABLE_DEEP_LINKS = 12"
| "logs_proto_mobilesdk_ios_ICoreConfiguration_ServiceType_value logs_proto_mobilesdk_ios_ICoreConfiguration_ServiceType_CRASH = 13"
| "logs_proto_mobilesdk_ios_ICoreConfiguration_ServiceType_value logs_proto_mobilesdk_ios_ICoreConfiguration_ServiceType_AUTH = 14"
| "logs_proto_mobilesdk_ios_ICoreConfiguration_ServiceType_value logs_proto_mobilesdk_ios_ICoreConfiguration_ServiceType_DATABASE = 15"
| "logs_proto_mobilesdk_ios_ICoreConfiguration_ServiceType_value logs_proto_mobilesdk_ios_ICoreConfiguration_ServiceType_STORAGE = 16"
| "logs_proto_mobilesdk_ios_ICoreConfiguration_ServiceType_value logs_proto_mobilesdk_ios_ICoreConfiguration_ServiceType_MESSAGING = 17"
| "logs_proto_mobilesdk_ios_ICoreConfiguration_ServiceType_value logs_proto_mobilesdk_ios_ICoreConfiguration_ServiceType_MEASUREMENT = 18"
| "logs_proto_mobilesdk_ios_ICoreConfiguration_ServiceType_value logs_proto_mobilesdk_ios_ICoreConfiguration_ServiceType_REMOTE_CONFIG = 19"
| "logs_proto_mobilesdk_ios_ICoreConfiguration_ServiceType_value logs_proto_mobilesdk_ios_ICoreConfiguration_ServiceType_DYNAMIC_LINKS = 20"
| "logs_proto_mobilesdk_ios_ICoreConfiguration_ServiceType_value logs_proto_mobilesdk_ios_ICoreConfiguration_ServiceType_INVITES = 21"
| "logs_proto_mobilesdk_ios_ICoreConfiguration_ServiceType_value logs_proto_mobilesdk_ios_ICoreConfiguration_ServiceType_AUTH_UI = 22"
| "logs_proto_mobilesdk_ios_ICoreConfiguration_ServiceType_value logs_proto_mobilesdk_ios_ICoreConfiguration_ServiceType_FIRESTORE = 23"
| "logs_proto_mobilesdk_ios_ICoreConfiguration_ServiceType_value logs_proto_mobilesdk_ios_ICoreConfiguration_ServiceType_PERFORMANCE = 24"
| "logs_proto_mobilesdk_ios_ICoreConfiguration_ServiceType_value logs_proto_mobilesdk_ios_ICoreConfiguration_ServiceType_ML_VISION_ON_DEVICE_FACE = 26"
| "logs_proto_mobilesdk_ios_ICoreConfiguration_ServiceType_value logs_proto_mobilesdk_ios_ICoreConfiguration_ServiceType_ML_VISION_ON_DEVICE_BARCODE = 27"
| "logs_proto_mobilesdk_ios_ICoreConfiguration_ServiceType_value logs_proto_mobilesdk_ios_ICoreConfiguration_ServiceType_ML_VISION_ON_DEVICE_TEXT = 28"
| "logs_proto_mobilesdk_ios_ICoreConfiguration_ServiceType_value logs_proto_mobilesdk_ios_ICoreConfiguration_ServiceType_ML_VISION_ON_DEVICE_LABEL = 29"
| "logs_proto_mobilesdk_ios_ICoreConfiguration_ServiceType_value logs_proto_mobilesdk_ios_ICoreConfiguration_ServiceType_ML_MODEL_INTERPRETER = 30"
| "logs_proto_mobilesdk_ios_ICoreConfiguration_ServiceType_value logs_proto_mobilesdk_ios_ICoreConfiguration_ServiceType_IN_APP_MESSAGING = 31"
| "logs_proto_mobilesdk_ios_ICoreConfiguration_ServiceType_value logs_proto_mobilesdk_ios_ICoreConfiguration_ServiceType_FUNCTIONS = 32"
| "logs_proto_mobilesdk_ios_ICoreConfiguration_ServiceType_value logs_proto_mobilesdk_ios_ICoreConfiguration_ServiceType_ML_NATURAL_LANGUAGE = 33"
| "logs_proto_mobilesdk_ios_ICoreConfiguration_ServiceType_value logs_proto_mobilesdk_ios_ICoreConfiguration_ServiceType_ML_VISION_ON_DEVICE_AUTOML = 34"
| "logs_proto_mobilesdk_ios_ICoreConfiguration_ServiceType_value logs_proto_mobilesdk_ios_ICoreConfiguration_ServiceType_ML_VISION_ON_DEVICE_OBJECT_DETECTION = 35"

datatype logs_proto_mobilesdk_ios_ICoreConfiguration_PodName =
    logs_proto_mobilesdk_ios_ICoreConfiguration_PodName_UNKNOWN_POD_NAME
  | logs_proto_mobilesdk_ios_ICoreConfiguration_PodName_GOOGLE
  | logs_proto_mobilesdk_ios_ICoreConfiguration_PodName_FIREBASE

primrec logs_proto_mobilesdk_ios_ICoreConfiguration_PodName_value :: "logs_proto_mobilesdk_ios_ICoreConfiguration_PodName \<Rightarrow> int" where
  "logs_proto_mobilesdk_ios_ICoreConfiguration_PodName_value logs_proto_mobilesdk_ios_ICoreConfiguration_PodName_UNKNOWN_POD_NAME = 0"
| "logs_proto_mobilesdk_ios_ICoreConfiguration_PodName_value logs_proto_mobilesdk_ios_ICoreConfiguration_PodName_GOOGLE = 1"
| "logs_proto_mobilesdk_ios_ICoreConfiguration_PodName_value logs_proto_mobilesdk_ios_ICoreConfiguration_PodName_FIREBASE = 2"

datatype logs_proto_mobilesdk_ios_ICoreConfiguration_DeploymentType =
    logs_proto_mobilesdk_ios_ICoreConfiguration_DeploymentType_UNKNOWN
  | logs_proto_mobilesdk_ios_ICoreConfiguration_DeploymentType_COCOAPODS
  | logs_proto_mobilesdk_ios_ICoreConfiguration_DeploymentType_ZIP_FILE
  | logs_proto_mobilesdk_ios_ICoreConfiguration_DeploymentType_CARTHAGE
  | logs_proto_mobilesdk_ios_ICoreConfiguration_DeploymentType_SPM

primrec logs_proto_mobilesdk_ios_ICoreConfiguration_DeploymentType_value :: "logs_proto_mobilesdk_ios_ICoreConfiguration_DeploymentType \<Rightarrow> int" where
  "logs_proto_mobilesdk_ios_ICoreConfiguration_DeploymentType_value logs_proto_mobilesdk_ios_ICoreConfiguration_DeploymentType_UNKNOWN = 0"
| "logs_proto_mobilesdk_ios_ICoreConfiguration_DeploymentType_value logs_proto_mobilesdk_ios_ICoreConfiguration_DeploymentType_COCOAPODS = 1"
| "logs_proto_mobilesdk_ios_ICoreConfiguration_DeploymentType_value logs_proto_mobilesdk_ios_ICoreConfiguration_DeploymentType_ZIP_FILE = 2"
| "logs_proto_mobilesdk_ios_ICoreConfiguration_DeploymentType_value logs_proto_mobilesdk_ios_ICoreConfiguration_DeploymentType_CARTHAGE = 3"
| "logs_proto_mobilesdk_ios_ICoreConfiguration_DeploymentType_value logs_proto_mobilesdk_ios_ICoreConfiguration_DeploymentType_SPM = 4"

section \<open>Structs\<close>

definition gdt_cct_IosClientInfo :: cstruct where
  "gdt_cct_IosClientInfo = [
     m_ptr ''os_major_version'' (sizeof pb_bytes_array_struct),
     m_ptr ''os_full_version'' (sizeof pb_bytes_array_struct),
     m_ptr ''application_build'' (sizeof pb_bytes_array_struct),
     m_ptr ''country'' (sizeof pb_bytes_array_struct),
     m_ptr ''model'' (sizeof pb_bytes_array_struct),
     m_ptr ''language_code'' (sizeof pb_bytes_array_struct),
     m_ptr ''application_bundle_id'' (sizeof pb_bytes_array_struct)]"

definition gdt_cct_ClientInfo :: cstruct where
  "gdt_cct_ClientInfo = [
     m_bool ''has_client_type'',
     m_enum ''client_type'',
     m_bool ''has_ios_client_info'',
     m_struct ''ios_client_info'' gdt_cct_IosClientInfo]"

definition gdt_cct_NetworkConnectionInfo :: cstruct where
  "gdt_cct_NetworkConnectionInfo = [
     m_bool ''has_network_type'',
     m_enum ''network_type'',
     m_bool ''has_mobile_subtype'',
     m_enum ''mobile_subtype'']"

definition gdt_cct_LogEvent :: cstruct where
  "gdt_cct_LogEvent = [
     m_bool ''has_event_time_ms'',
     m_int64 ''event_time_ms'',
     m_ptr ''source_extension'' (sizeof pb_bytes_array_struct),
     m_bool ''has_event_code'',
     m_int32 ''event_code'',
     m_bool ''has_timezone_offset_seconds'',
     m_int64 ''timezone_offset_seconds'',
     m_bool ''has_event_uptime_ms'',
     m_int64 ''event_uptime_ms'',
     m_bool ''has_network_connection_info'',
     m_struct ''network_connection_info'' gdt_cct_NetworkConnectionInfo]"

definition gdt_cct_LogRequest :: cstruct where
  "gdt_cct_LogRequest = [
     m_bool ''has_client_info'',
     m_struct ''client_info'' gdt_cct_ClientInfo,
     m_bool ''has_log_source'',
     m_int32 ''log_source'',
     m_count ''log_event_count'',
     m_ptr ''log_event'' (sizeof gdt_cct_LogEvent),
     m_bool ''has_request_time_ms'',
     m_int64 ''request_time_ms'',
     m_bool ''has_request_uptime_ms'',
     m_int64 ''request_uptime_ms'',
     m_bool ''has_qos_tier'',
     m_enum ''qos_tier'']"

definition gdt_cct_BatchedLogRequest :: cstruct where
  "gdt_cct_BatchedLogRequest = [
     m_count ''log_request_count'',
     m_ptr ''log_request'' (sizeof gdt_cct_LogRequest)]"

definition gdt_cct_QosTierConfiguration :: cstruct where
  "gdt_cct_QosTierConfiguration = [
     m_bool ''has_qos_tier'',
     m_enum ''qos_tier'',
     m_bool ''has_log_source'',
     m_int32 ''log_source'']"

definition gdt_cct_QosTiersOverride :: cstruct where
  "gdt_cct_QosTiersOverride = [
     m_count ''qos_tier_configuration_count'',
     m_ptr ''qos_tier_configuration'' (sizeof gdt_cct_QosTierConfiguration),
     m_bool ''has_qos_tier_fingerprint'',
     m_int64 ''qos_tier_fingerprint'']"

definition gdt_cct_LogResponse :: cstruct where
  "gdt_cct_LogResponse = [
     m_bool ''has_next_request_wait_millis'',
     m_int64 ''next_request_wait_millis'',
     m_bool ''has_qos_tier'',
     m_struct ''qos_tier'' gdt_cct_QosTiersOverride]"

definition logs_proto_mobilesdk_ios_ICoreConfiguration :: cstruct where
  "logs_proto_mobilesdk_ios_ICoreConfiguration = [
     m_bool ''has_configuration_type'',
     m_enum ''configuration_type'',
     m_count ''sdk_service_installed_count'',
     m_ptr ''sdk_service_installed'' 4,
     m_ptr ''device_model'' (sizeof pb_bytes_array_struct),
     m_ptr ''app_id'' (sizeof pb_bytes_array_struct),
     m_ptr ''bundle_id'' (sizeof pb_bytes_array_struct),
     m_bool ''has_pod_name'',
     m_enum ''pod_name'',
     m_ptr ''icore_version'' (sizeof pb_bytes_array_struct),
     m_ptr ''sdk_version'' (sizeof pb_bytes_array_struct),
     m_bool ''has_sdk_name'',
     m_enum ''sdk_name'',
     m_bool ''has_app_count'',
     m_int32 ''app_count'',
     m_ptr ''os_version'' (sizeof pb_bytes_array_struct),
     m_ptr ''min_supported_ios_version'' (sizeof pb_bytes_array_struct),
     m_bool ''has_use_default_app'',
     m_bool ''use_default_app'',
     m_bool ''has_deployed_in_app_store'',
     m_bool ''deployed_in_app_store'',
     m_bool ''has_dynamic_framework_count'',
     m_int32 ''dynamic_framework_count'',
     m_ptr ''apple_framework_version'' (sizeof pb_bytes_array_struct),
     m_bool ''has_using_zip_file'',
     m_bool ''using_zip_file'',
     m_bool ''has_deployment_type'',
     m_enum ''deployment_type'',
     m_ptr ''platform_info'' (sizeof pb_bytes_array_struct),
     m_bool ''has_swizzling_enabled'',
     m_bool ''swizzling_enabled'',
     m_bool ''has_using_gdt'',
     m_bool ''using_gdt'']"

section \<open>Default values and descriptors\<close>

definition gdt_cct_NetworkConnectionInfo_network_type_default :: "byte list" where
  "gdt_cct_NetworkConnectionInfo_network_type_default =
     le_bytes 4 (of_int (gdt_cct_NetworkConnectionInfo_NetworkType_value gdt_cct_NetworkConnectionInfo_NetworkType_NONE) :: uint32)"

definition gdt_cct_NetworkConnectionInfo_mobile_subtype_default :: "byte list" where
  "gdt_cct_NetworkConnectionInfo_mobile_subtype_default =
     le_bytes 4 (of_int (gdt_cct_NetworkConnectionInfo_MobileSubtype_value gdt_cct_NetworkConnectionInfo_MobileSubtype_UNKNOWN_MOBILE_SUBTYPE) :: uint32)"

definition gdt_cct_LogRequest_qos_tier_default :: "byte list" where
  "gdt_cct_LogRequest_qos_tier_default =
     le_bytes 4 (of_int (gdt_cct_QosTierConfiguration_QosTier_value gdt_cct_QosTierConfiguration_QosTier_DEFAULT) :: uint32)"

definition gdt_cct_QosTierConfiguration_log_source_default :: "byte list" where
  "gdt_cct_QosTierConfiguration_log_source_default = le_bytes 4 (0 :: uint32)"

definition gdt_cct_NetworkConnectionInfo_fields :: "pb_field list" where
  "gdt_cct_NetworkConnectionInfo_fields = [
     PB_FIELD 1 ENUM OPTIONAL STATIC FIRST gdt_cct_NetworkConnectionInfo
       ''network_type'' ''network_type'' (Default gdt_cct_NetworkConnectionInfo_network_type_default),
     PB_FIELD 2 UENUM OPTIONAL STATIC OTHER gdt_cct_NetworkConnectionInfo
       ''mobile_subtype'' ''network_type'' (Default gdt_cct_NetworkConnectionInfo_mobile_subtype_default),
     PB_LAST_FIELD]"

definition gdt_cct_LogEvent_fields :: "pb_field list" where
  "gdt_cct_LogEvent_fields = [
     PB_FIELD 1 INT64 OPTIONAL STATIC FIRST gdt_cct_LogEvent
       ''event_time_ms'' ''event_time_ms'' Null_ptr,
     PB_FIELD 6 BYTES OPTIONAL POINTER OTHER gdt_cct_LogEvent
       ''source_extension'' ''event_time_ms'' Null_ptr,
     PB_FIELD 11 INT32 OPTIONAL STATIC OTHER gdt_cct_LogEvent
       ''event_code'' ''source_extension'' Null_ptr,
     PB_FIELD 15 SINT64 OPTIONAL STATIC OTHER gdt_cct_LogEvent
       ''timezone_offset_seconds'' ''event_code'' Null_ptr,
     PB_FIELD 17 INT64 OPTIONAL STATIC OTHER gdt_cct_LogEvent
       ''event_uptime_ms'' ''timezone_offset_seconds'' Null_ptr,
     PB_FIELD 23 MESSAGE OPTIONAL STATIC OTHER gdt_cct_LogEvent
       ''network_connection_info'' ''event_uptime_ms'' (Submsg gdt_cct_NetworkConnectionInfo_fields),
     PB_LAST_FIELD]"

definition gdt_cct_IosClientInfo_fields :: "pb_field list" where
  "gdt_cct_IosClientInfo_fields = [
     PB_FIELD 3 BYTES OPTIONAL POINTER FIRST gdt_cct_IosClientInfo
       ''os_major_version'' ''os_major_version'' Null_ptr,
     PB_FIELD 4 BYTES OPTIONAL POINTER OTHER gdt_cct_IosClientInfo
       ''os_full_version'' ''os_major_version'' Null_ptr,
     PB_FIELD 5 BYTES OPTIONAL POINTER OTHER gdt_cct_IosClientInfo
       ''application_build'' ''os_full_version'' Null_ptr,
     PB_FIELD 6 BYTES OPTIONAL POINTER OTHER gdt_cct_IosClientInfo
       ''country'' ''application_build'' Null_ptr,
     PB_FIELD 7 BYTES OPTIONAL POINTER OTHER gdt_cct_IosClientInfo
       ''model'' ''country'' Null_ptr,
     PB_FIELD 8 BYTES OPTIONAL POINTER OTHER gdt_cct_IosClientInfo
       ''language_code'' ''model'' Null_ptr,
     PB_FIELD 11 BYTES OPTIONAL POINTER OTHER gdt_cct_IosClientInfo
       ''application_bundle_id'' ''language_code'' Null_ptr,
     PB_LAST_FIELD]"

definition gdt_cct_ClientInfo_fields :: "pb_field list" where
  "gdt_cct_ClientInfo_fields = [
     PB_FIELD 1 UENUM OPTIONAL STATIC FIRST gdt_cct_ClientInfo
       ''client_type'' ''client_type'' Null_ptr,
     PB_FIELD 4 MESSAGE OPTIONAL STATIC OTHER gdt_cct_ClientInfo
       ''ios_client_info'' ''client_type'' (Submsg gdt_cct_IosClientInfo_fields),
     PB_LAST_FIELD]"

definition gdt_cct_LogRequest_fields :: "pb_field list" where
  "gdt_cct_LogRequest_fields = [
     PB_FIELD 1 MESSAGE OPTIONAL STATIC FIRST gdt_cct_LogRequest
       ''client_info'' ''client_info'' (Submsg gdt_cct_ClientInfo_fields),
     PB_FIELD 2 INT32 OPTIONAL STATIC OTHER gdt_cct_LogRequest
       ''log_source'' ''client_info'' Null_ptr,
     PB_FIELD 3 MESSAGE REPEATED POINTER OTHER gdt_cct_LogRequest
       ''log_event'' ''log_source'' (Submsg gdt_cct_LogEvent_fields),
     PB_FIELD 4 INT64 OPTIONAL STATIC OTHER gdt_cct_LogRequest
       ''request_time_ms'' ''log_event'' Null_ptr,
     PB_FIELD 8 INT64 OPTIONAL STATIC OTHER gdt_cct_LogRequest
       ''request_uptime_ms'' ''request_time_ms'' Null_ptr,
     PB_FIELD 9 UENUM OPTIONAL STATIC OTHER gdt_cct_LogRequest
       ''qos_tier'' ''request_uptime_ms'' (Default gdt_cct_LogRequest_qos_tier_default),
     PB_LAST_FIELD]"

definition gdt_cct_BatchedLogRequest_fields :: "pb_field list" where
  "gdt_cct_BatchedLogRequest_fields = [
     PB_FIELD 1 MESSAGE REPEATED POINTER FIRST gdt_cct_BatchedLogRequest
       ''log_request'' ''log_request'' (Submsg gdt_cct_LogRequest_fields),
     PB_LAST_FIELD]"

definition gdt_cct_QosTierConfiguration_fields :: "pb_field list" where
  "gdt_cct_QosTierConfiguration_fields = [
     PB_FIELD 2 UENUM OPTIONAL STATIC FIRST gdt_cct_QosTierConfiguration
       ''qos_tier'' ''qos_tier'' Null_ptr,
     PB_FIELD 3 INT32 OPTIONAL STATIC OTHER gdt_cct_QosTierConfiguration
       ''log_source'' ''qos_tier'' (Default gdt_cct_QosTierConfiguration_log_source_default),
     PB_LAST_FIELD]"

definition gdt_cct_QosTiersOverride_fields :: "pb_field list" where
  "gdt_cct_QosTiersOverride_fields = [
     PB_FIELD 1 MESSAGE REPEATED POINTER FIRST gdt_cct_QosTiersOverride
       ''qos_tier_configuration'' ''qos_tier_configuration'' (Submsg gdt_cct_QosTierConfiguration_fields),
     PB_FIELD 2 INT64 OPTIONAL STATIC OTHER gdt_cct_QosTiersOverride
       ''qos_tier_fingerprint'' ''qos_tier_configuration'' Null_ptr,
     PB_LAST_FIELD]"

definition gdt_cct_LogResponse_fields :: "pb_field list" where
  "gdt_cct_LogResponse_fields = [
     PB_FIELD 1 INT64 OPTIONAL STATIC FIRST gdt_cct_LogResponse
       ''next_request_wait_millis'' ''next_request_wait_millis'' Null_ptr,
     PB_FIELD 3 MESSAGE OPTIONAL STATIC OTHER gdt_cct_LogResponse
       ''qos_tier'' ''next_request_wait_millis'' (Submsg gdt_cct_QosTiersOverride_fields),
     PB_LAST_FIELD]"

definition logs_proto_mobilesdk_ios_ICoreConfiguration_fields :: "pb_field list" where
  "logs_proto_mobilesdk_ios_ICoreConfiguration_fields = [
     PB_FIELD 1 UENUM OPTIONAL STATIC FIRST logs_proto_mobilesdk_ios_ICoreConfiguration
       ''configuration_type'' ''configuration_type'' Null_ptr,
     PB_FIELD 7 UENUM REPEATED POINTER OTHER logs_proto_mobilesdk_ios_ICoreConfiguration
       ''sdk_service_installed'' ''configuration_type'' Null_ptr,
     PB_FIELD 9 BYTES OPTIONAL POINTER OTHER logs_proto_mobilesdk_ios_ICoreConfiguration
       ''device_model'' ''sdk_service_installed'' Null_ptr,
     PB_FIELD 10 BYTES OPTIONAL POINTER OTHER logs_proto_mobilesdk_ios_ICoreConfiguration
       ''app_id'' ''device_model'' Null_ptr,
     PB_FIELD 12 BYTES OPTIONAL POINTER OTHER logs_proto_mobilesdk_ios_ICoreConfiguration
       ''bundle_id'' ''app_id'' Null_ptr,
     PB_FIELD 16 UENUM OPTIONAL STATIC OTHER logs_proto_mobilesdk_ios_ICoreConfiguration
       ''pod_name'' ''bundle_id'' Null_ptr,
     PB_FIELD 18 BYTES OPTIONAL POINTER OTHER logs_proto_mobilesdk_ios_ICoreConfiguration
       ''icore_version'' ''pod_name'' Null_ptr,
     PB_FIELD 19 BYTES OPTIONAL POINTER OTHER logs_proto_mobilesdk_ios_ICoreConfiguration
       ''sdk_version'' ''icore_version'' Null_ptr,
     PB_FIELD 20 UENUM OPTIONAL STATIC OTHER logs_proto_mobilesdk_ios_ICoreConfiguration
       ''sdk_name'' ''sdk_version'' Null_ptr,
     PB_FIELD 21 INT32 OPTIONAL STATIC OTHER logs_proto_mobilesdk_ios_ICoreConfiguration
       ''app_count'' ''sdk_name'' Null_ptr,
     PB_FIELD 22 BYTES OPTIONAL POINTER OTHER logs_proto_mobilesdk_ios_ICoreConfiguration
       ''os_version'' ''app_count'' Null_ptr,
     PB_FIELD 24 BYTES OPTIONAL POINTER OTHER logs_proto_mobilesdk_ios_ICoreConfiguration
       ''min_supported_ios_version'' ''os_version'' Null_ptr,
     PB_FIELD 25 BOOL OPTIONAL STATIC OTHER logs_proto_mobilesdk_ios_ICoreConfiguration
       ''use_default_app'' ''min_supported_ios_version'' Null_ptr,
     PB_FIELD 26 BOOL OPTIONAL STATIC OTHER logs_proto_mobilesdk_ios_ICoreConfiguration
       ''deployed_in_app_store'' ''use_default_app'' Null_ptr,
     PB_FIELD 27 INT32 OPTIONAL STATIC OTHER logs_proto_mobilesdk_ios_ICoreConfiguration
       ''dynamic_framework_count'' ''deployed_in_app_store'' Null_ptr,
     PB_FIELD 28 BYTES OPTIONAL POINTER OTHER logs_proto_mobilesdk_ios_ICoreConfiguration
       ''apple_framework_version'' ''dynamic_framework_count'' Null_ptr,
     PB_FIELD 29 BOOL OPTIONAL STATIC OTHER logs_proto_mobilesdk_ios_ICoreConfiguration
       ''using_zip_file'' ''apple_framework_version'' Null_ptr,
     PB_FIELD 30 UENUM OPTIONAL STATIC OTHER logs_proto_mobilesdk_ios_ICoreConfiguration
       ''deployment_type'' ''using_zip_file'' Null_ptr,
     PB_FIELD 31 BYTES OPTIONAL POINTER OTHER logs_proto_mobilesdk_ios_ICoreConfiguration
       ''platform_info'' ''deployment_type'' Null_ptr,
     PB_FIELD 33 BOOL OPTIONAL STATIC OTHER logs_proto_mobilesdk_ios_ICoreConfiguration
       ''swizzling_enabled'' ''platform_info'' Null_ptr,
     PB_FIELD 36 BOOL OPTIONAL STATIC OTHER logs_proto_mobilesdk_ios_ICoreConfiguration
       ''using_gdt'' ''swizzling_enabled'' Null_ptr,
     PB_LAST_FIELD]"

end
