(* ===== verification/Pb_Encode_Thms.thy ===== *)
theory Pb_Encode_Thms
  imports Pb_Encode_Spec Cct_Messages
begin

text \<open>
  The theorems about the message encoder: it always returns, it writes the bytes of the
  reference encoder or fails when they do not fit or the message is not encodable, and the
  size it computes is the number of bytes it writes.
\<close>

section \<open>The encoder returns\<close>

definition returns :: "'a option \<Rightarrow> bool" where
  "returns r \<longleftrightarrow> r \<noteq> None"

lemma returns_simps [simp]:
  "returns None = False" "returns (Some x) = True"
  "returns (map_option h r) = returns r"
  "returns (seq q g) = (returns q \<and> (\<forall>s. q = Some (True, s) \<longrightarrow> returns (g s)))"
  by (auto simp: returns_def seq_not_None simp del: not_None_eq)

lemma items_return: "(\<And>p os. returns (g p os)) \<Longrightarrow> returns (encode_items k g p ds os)"
  by (induction k arbitrary: p os) simp_all

lemma submessage_returns:
  assumes "\<And>os. returns (enc fs p os)"
  shows "returns (pb_encode_submessage enc fs p os)"
proof -
  have "enc fs p os \<noteq> None" for os using assms by (simp add: returns_def del: not_None_eq)
  then show ?thesis
    by (auto simp: pb_encode_submessage_def Let_def simp del: not_None_eq
        split: option.split prod.split bool.split osink.split)
qed

lemma wire_type_ltypes: "field_wire_type lt \<noteq> None \<Longrightarrow> lt < 10 \<and> lt \<noteq> 8"
  by (auto simp: field_wire_type_def split: if_splits)

lemma call_encoder_returns:
  assumes lt: "ltype f < 10" "ltype f \<noteq> 8"
    and enc: "\<And>p os. ltype f = PB_LTYPE_SUBMESSAGE \<Longrightarrow> ptr f \<noteq> Null_ptr \<Longrightarrow> returns (enc (submsg_fields (ptr f)) p os)"
  shows "returns (call_encoder enc m f p os)"
proof -
  consider "ltype f = 0" | "ltype f = 1" | "ltype f = 2" | "ltype f = 3" | "ltype f = 4" | "ltype f = 5"
    | "ltype f = 6" | "ltype f = 7" | "ltype f = 9"
    using byte_below_10 [OF lt(1)] lt(2) by blast
  then show ?thesis
  proof cases
    case 8
    then show ?thesis using submessage_returns [of enc "submsg_fields (ptr f)" p] enc
      by (simp add: call_encoder_entry pb_enc_submessage_def)
  qed (simp_all add: call_encoder_entry pb_enc_varint_def pb_enc_uvarint_def pb_enc_svarint_def pb_enc_fixed32_def
      pb_enc_fixed64_def pb_enc_bytes_def pb_enc_string_def pb_enc_fixed_length_bytes_def)
qed

lemma single_returns:
  assumes "\<And>p os. ltype f = PB_LTYPE_SUBMESSAGE \<Longrightarrow> ptr f \<noteq> Null_ptr \<Longrightarrow> returns (enc (submsg_fields (ptr f)) p os)"
  shows "returns (seq (Some (pb_encode_tag_for_field os f)) (call_encoder enc m f p))"
proof (cases "field_wire_type (ltype f)")
  case None
  then show ?thesis by (simp add: pb_encode_tag_for_field_def)
next
  case (Some wt)
  then show ?thesis using call_encoder_returns [of f enc] wire_type_ltypes [of "ltype f"] assms
    by simp
qed

lemma packable_ltypes: "x \<le> PB_LTYPE_LAST_PACKABLE \<Longrightarrow> x < 10 \<and> x \<noteq> 8" for x :: uint8
  by (auto simp: word_le_nat_alt word_less_nat_alt)

lemma array_returns:
  assumes enc: "\<And>p os. ltype f = PB_LTYPE_SUBMESSAGE \<Longrightarrow> ptr f \<noteq> Null_ptr \<Longrightarrow> returns (enc (submsg_fields (ptr f)) p os)"
  shows "returns (encode_array m f p count (call_encoder enc m f) os)"
proof (cases "ltype f \<le> PB_LTYPE_LAST_PACKABLE")
  case True
  have items: "returns (encode_items k (call_encoder enc m f) p ds os)" for k p ds os
    using call_encoder_returns [of f enc] packable_ltypes [OF True] enc by (intro items_return) blast
  have "encode_items k (call_encoder enc m f) p ds os \<noteq> None" for k p ds os
    using items [of k p ds os] by (simp add: returns_def del: not_None_eq)
  then show ?thesis using True
    by (auto simp: encode_array_def items simp del: not_None_eq split: option.split prod.split bool.split osink.split)
next
  case False
  have "returns (encode_items k (\<lambda>q os. seq (Some (pb_encode_tag_for_field os f)) (\<lambda>os.
             if atype f = PB_ATYPE_POINTER \<and> (ltype f = PB_LTYPE_STRING \<or> ltype f = PB_LTYPE_BYTES)
             then call_encoder enc m f (load64 m q) os else call_encoder enc m f q os)) p ds os)" for k p ds os
    using single_returns [of f enc, OF enc] by (intro items_return) simp
  then show ?thesis using False by (simp add: encode_array_def)
qed

lemma field_returns:
  assumes enc: "\<And>p os. ltype f = PB_LTYPE_SUBMESSAGE \<Longrightarrow> ptr f \<noteq> Null_ptr \<Longrightarrow> returns (enc (submsg_fields (ptr f)) p os)"
    and chk: "chk f pd = Some b"
  shows "returns (encode_field env chk enc m f pd os)"
  using single_returns [of f enc, OF enc] array_returns [of f enc, OF enc] chk
  by (simp add: encode_field_def encode_basic_field_def Let_def)


lemma seq_all_returns: "(\<And>x os. x \<in> set xs \<Longrightarrow> returns (b x os)) \<Longrightarrow> returns (seq_all b xs os)"
  by (induction xs arbitrary: os) simp_all

lemma encode_step_returns:
  assumes plain: "plain fs" and depth: "fields_depth fs \<le> n"
    and sub: "\<And>f p os. f \<in> set fs \<Longrightarrow> ltype f = PB_LTYPE_SUBMESSAGE \<Longrightarrow> ptr f \<noteq> Null_ptr \<Longrightarrow>
      returns (pb_encode n env m (submsg_fields (ptr f)) p os)"
  shows "returns (pb_encode (Suc n) env m fs p os)"
proof -
  let ?chk = "pb_check_proto3_default_value (Suc n) m"
  let ?b = "\<lambda>(f, pd). \<lambda>os. if ltype f = PB_LTYPE_EXTENSION
       then encode_extension_field n env ?chk (pb_encode n env m) m pd os
       else encode_field env ?chk (pb_encode n env m) m f pd os"
  have "returns (?b x os)" if x: "x \<in> set (place fs p)" for x os
  proof (cases x)
    case (Pair f pd)
    then have f: "f \<in> set fs" using x place_in by blast
    have "?chk f pd = Some (default_value m f pd)"
      using ptr_depth_le [OF f] depth by (intro check_default_value) simp
    then show ?thesis using field_returns [of f "pb_encode n env m", OF sub [OF f]] plain_in(2) [OF plain f] Pair
      by simp
  qed
  then have "returns (seq_all ?b (place fs p) os)" by (rule seq_all_returns)
  moreover have "pb_encode (Suc n) env m fs p os = seq_all ?b (place fs p) os"
    using for_fields_place [of ?b fs p os] by simp
  ultimately show ?thesis by (simp only:)
qed

lemma encode_returns: "plain fs \<Longrightarrow> fields_depth fs \<le> n \<Longrightarrow> returns (pb_encode (Suc n) env m fs p os)"
proof (induction n arbitrary: fs p os)
  case 0
  show ?case
  proof (rule encode_step_returns [OF 0])
    fix f p os assume f: "f \<in> set fs" "ltype f = PB_LTYPE_SUBMESSAGE" "ptr f \<noteq> Null_ptr"
    have "ptr_depth (ptr f) = 0" using ptr_depth_le [OF f(1)] 0(2) by simp
    then show "returns (pb_encode 0 env m (submsg_fields (ptr f)) p os)"
      using plain_in(3) [OF 0(1) f(1,2)] f(3) by (cases "ptr f") auto
  qed
next
  case (Suc n)
  show ?case
  proof (rule encode_step_returns [OF Suc.prems])
    fix f p os assume f: "f \<in> set fs" "ltype f = PB_LTYPE_SUBMESSAGE" "ptr f \<noteq> Null_ptr"
    then obtain gs where gs: "ptr f = Submsg gs" using plain_in(3) [OF Suc.prems(1) f(1,2)] by (cases "ptr f") auto
    have "plain gs" "fields_depth gs \<le> n"
      using plain_in(3) [OF Suc.prems(1) f(1,2)] ptr_depth_le [OF f(1)] Suc.prems(2) gs by simp_all
    then show "returns (pb_encode (Suc n) env m (submsg_fields (ptr f)) p os)"
      unfolding gs submsg_fields.simps by (rule Suc.IH)
  qed
qed


section \<open>Theorems\<close>

text \<open>
  A concrete message: a \<^verbatim>\<open>gdt_cct_NetworkConnectionInfo\<close> at address 4096 with its network
  type present and set to \<^verbatim>\<open>WIFI\<close>, and callbacks that are never called.
\<close>

definition wifi_mem :: mem where
  "wifi_mem a = (if a = 4096 \<or> a = 4100 then 1 else 0)"

definition no_callbacks :: "unit enc_env" where
  "no_callbacks = \<lparr>enc_callback = (\<lambda>_ _ _ _ os. (False, os)), ext_encode = (\<lambda>_. None),
     ext_enc_arg = (\<lambda>_. PB_LAST_FIELD)\<rparr>"

lemma wifi_bytes: "msg_bytes wifi_mem gdt_cct_NetworkConnectionInfo_fields 4096 = Some [8, 1]"
  by code_simp

lemma wifi_fields: "plain gdt_cct_NetworkConnectionInfo_fields" "fields_depth gdt_cct_NetworkConnectionInfo_fields < 1"
  by code_simp+

lemma pb_encode_Suc_writes:
  assumes "plain fs" "fields_depth fs < n"
  shows "writes in_buffer (pb_encode n env m fs p) (msg_bytes m fs p)"
proof -
  obtain k where "n = Suc k" using assms(2) by (cases n) auto
  then show ?thesis using buf_sink.pb_encode_writes [of fs k] assms by (simp del: pb_encode.simps)
qed

lemma pb_encode_Suc_returns:
  assumes "plain fs" "fields_depth fs < n"
  shows "\<exists>b os'. pb_encode n env m fs p os = Some (b, os')"
proof -
  obtain k where "n = Suc k" using assms(2) by (cases n) auto
  then have "returns (pb_encode n env m fs p os)" using encode_returns [of fs k] assms by (simp del: pb_encode.simps)
  then show ?thesis by (auto simp: returns_def)
qed

lemma writes_stores_buffer:
  assumes "writes in_buffer w (Some bs)" "length bs \<le> unat bufsize" "unat bufsize < 2 ^ 63"
  shows "\<exists>os. w (pb_ostream_from_buffer bufsize) = Some (True, os) \<and> osink os = Buffer bs
     \<and> bytes_written os = of_nat (length bs) \<and> oerrmsg os = None"
proof -
  have "stores in_buffer w bs" using assms by (simp add: writes_def)
  from this [unfolded stores_def, rule_format, of "pb_ostream_from_buffer bufsize" "[]"] assms(2,3)
  show ?thesis by (auto simp: pb_ostream_from_buffer_def in_buffer_def)
qed

lemma writes_overflows_buffer:
  assumes "writes in_buffer w (Some bs)" "unat bufsize < length bs" "length bs < 2 ^ 63"
  shows "\<exists>os k. w (pb_ostream_from_buffer bufsize) = Some (False, os) \<and> osink os = Buffer (take k bs) \<and> k \<le> unat bufsize"
proof -
  have "overflows in_buffer w bs" using assms by (simp add: writes_def)
  from this [unfolded overflows_def, rule_format, of "pb_ostream_from_buffer bufsize" "[]"] assms(2,3)
  show ?thesis by (auto simp: pb_ostream_from_buffer_def in_buffer_def)
qed

text \<open>
  C1: encoding a message whose descriptors have static and pointer fields only, into a buffer
  that is large enough, succeeds and leaves exactly the bytes of the reference encoder in
  the buffer; the nesting depth of the descriptors bounds the recursion.
\<close>

theorem pb_encode_correct:
  assumes "plain fs" "fields_depth fs < n" "msg_bytes m fs p = Some bs"
    "length bs \<le> unat bufsize" "unat bufsize < 2 ^ 63"
  shows "\<exists>os. pb_encode n env m fs p (pb_ostream_from_buffer bufsize) = Some (True, os)
     \<and> osink os = Buffer bs \<and> bytes_written os = of_nat (length bs) \<and> oerrmsg os = None"
  by (rule writes_stores_buffer [OF _ assms(4,5)])
     (use pb_encode_Suc_writes [OF assms(1,2), of env m p] assms(3) in simp)

theorem pb_encode_correct_witness:
  "\<exists>os. pb_encode 1 no_callbacks wifi_mem gdt_cct_NetworkConnectionInfo_fields 4096 (pb_ostream_from_buffer 16) =
      Some (True, os) \<and> osink os = Buffer [8, 1] \<and> bytes_written os = 2 \<and> oerrmsg os = None"
  using pb_encode_correct [OF wifi_fields wifi_bytes, of 16 no_callbacks] by simp

text \<open>
  C16: for descriptors with static and pointer fields, when the buffer is too small the encoder reports failure, and what it has
  put in the buffer is a proper prefix of the encoding that fits.
\<close>

theorem pb_encode_too_small:
  assumes "plain fs" "fields_depth fs < n" "msg_bytes m fs p = Some bs"
    "unat bufsize < length bs" "length bs < 2 ^ 63"
  shows "\<exists>os k. pb_encode n env m fs p (pb_ostream_from_buffer bufsize) = Some (False, os)
     \<and> osink os = Buffer (take k bs) \<and> k \<le> unat bufsize"
  by (rule writes_overflows_buffer [OF _ assms(4,5)])
     (use pb_encode_Suc_writes [OF assms(1,2), of env m p] assms(3) in simp)

theorem pb_encode_too_small_witness:
  "\<exists>os k. pb_encode 1 no_callbacks wifi_mem gdt_cct_NetworkConnectionInfo_fields 4096 (pb_ostream_from_buffer 1) =
      Some (False, os) \<and> osink os = Buffer (take k [8, 1]) \<and> k \<le> 1"
  using pb_encode_too_small [OF wifi_fields wifi_bytes, of 1 no_callbacks] by simp

text \<open>
  for descriptors with static and pointer fields the encoder returns on every stream, whatever the stream's callback does: it never
  recurses deeper than the descriptors nest.
\<close>

theorem pb_encode_returns:
  assumes "plain fs" "fields_depth fs < n"
  shows "\<exists>b os'. pb_encode n env m fs p os = Some (b, os')"
  using assms by (rule pb_encode_Suc_returns)

theorem pb_encode_returns_witness:
  "\<exists>b os'. pb_encode 4 no_callbacks wifi_mem gdt_cct_BatchedLogRequest_fields 4096
     \<lparr>osink = Callback (\<lambda>s bs. (False, s)) (), max_size = 10, bytes_written = 0, oerrmsg = None\<rparr> = Some (b, os')"
  by (rule pb_encode_returns) code_simp+

text \<open>
  C17: for descriptors with static and pointer fields, a message that the reference encoder rejects makes the encoder report failure on
  every stream. These are the messages with a required pointer that is null, an array that is longer than its bound, bytes that are
  larger than their storage, a number of an impossible width, a submessage without a descriptor, or a field of an unknown kind.
\<close>

theorem pb_encode_rejects:
  assumes "plain fs" "fields_depth fs < n" "msg_bytes m fs p = None"
  shows "\<exists>os'. pb_encode n env m fs p os = Some (False, os')"
proof -
  have "pb_encode n env m fs p os \<noteq> Some (True, os')" for os'
    using pb_encode_Suc_writes [OF assms(1,2), of env m p] assms(3) by (simp add: writes_def)
  moreover obtain b os' where "pb_encode n env m fs p os = Some (b, os')"
    using pb_encode_Suc_returns [OF assms(1,2)] by blast
  ultimately show ?thesis by (cases b) auto
qed

theorem pb_encode_rejects_witness:
  "\<exists>os'. pb_encode 1 no_callbacks wifi_mem [pb_field 1 0x20 0 4 4 0 Null_ptr, PB_LAST_FIELD] 4092
     (pb_ostream_from_buffer 100) = Some (False, os')"
  by (rule pb_encode_rejects) code_simp+

text \<open>
  \<^verbatim>\<open>pb_get_encoded_size\<close> computes the number of bytes the message takes, which is the
  number of bytes \<^verbatim>\<open>pb_encode\<close> writes.
\<close>

theorem pb_get_encoded_size_correct:
  assumes "plain fs" "fields_depth fs < n" "msg_bytes m fs p = Some bs" "length bs < 2 ^ 63"
  shows "pb_get_encoded_size n env m fs p = Some (Some (of_nat (length bs)))"
proof -
  have "sizes (pb_encode n env m fs p) (length bs)"
    using pb_encode_Suc_writes [OF assms(1,2), of env m p] assms(3,4) by (simp add: writes_def)
  then show ?thesis using sizes_result by (fastforce simp: pb_get_encoded_size_def)
qed

theorem pb_get_encoded_size_correct_witness:
  "pb_get_encoded_size 1 no_callbacks wifi_mem gdt_cct_NetworkConnectionInfo_fields 4096 = Some (Some 2)"
  using pb_get_encoded_size_correct [OF wifi_fields wifi_bytes] by simp

text \<open>
  \<^verbatim>\<open>pb_encode_delimited\<close> writes the length of the message as a varint and then the message;
  the two passes over the message agree, so that the error \<^verbatim>\<open>submsg size changed\<close> does not
  occur.
\<close>

theorem pb_encode_delimited_correct:
  assumes "plain fs" "fields_depth fs < n" "msg_bytes m fs p = Some bs"
    "length (varint_bytes (length bs)) + length bs \<le> unat bufsize" "unat bufsize < 2 ^ 63"
  shows "\<exists>os. pb_encode_delimited n env m fs p (pb_ostream_from_buffer bufsize) = Some (True, os)
     \<and> osink os = Buffer (varint_bytes (length bs) @ bs) \<and> oerrmsg os = None"
  using writes_stores_buffer [OF _ _ assms(5)] assms(4)
    buf_sink.writes_submessage [of "pb_encode n env m" fs p "Some bs"]
    pb_encode_Suc_writes [OF assms(1,2), of env m p] assms(3)
  by (fastforce simp: pb_encode_delimited_def delimited_def)

theorem pb_encode_delimited_correct_witness:
  "\<exists>os. pb_encode_delimited 1 no_callbacks wifi_mem gdt_cct_NetworkConnectionInfo_fields 4096
      (pb_ostream_from_buffer 3) = Some (True, os) \<and> osink os = Buffer [2, 8, 1] \<and> oerrmsg os = None"
  using pb_encode_delimited_correct [OF wifi_fields wifi_bytes, of 3 no_callbacks]
  by (simp add: varint_bytes.simps)

text \<open>
  \<^verbatim>\<open>pb_encode_nullterminated\<close> writes the message and one zero byte.
\<close>

theorem pb_encode_nullterminated_correct:
  assumes "plain fs" "fields_depth fs < n" "msg_bytes m fs p = Some bs"
    "length bs + 1 \<le> unat bufsize" "unat bufsize < 2 ^ 63"
  shows "\<exists>os. pb_encode_nullterminated n env m fs p (pb_ostream_from_buffer bufsize) = Some (True, os)
     \<and> osink os = Buffer (bs @ [0]) \<and> oerrmsg os = None"
proof -
  have "writes in_buffer (\<lambda>os. seq (pb_encode n env m fs p os) (\<lambda>os. Some (pb_write os [0] 1))) (Some (bs @ [0]))"
    using writes_seq [OF pb_encode_Suc_writes [OF assms(1,2), of env m p] buf_sink.writes_pb_write [of "[0]"]] assms(3)
    by simp
  then have "writes in_buffer (pb_encode_nullterminated n env m fs p) (Some (bs @ [0]))"
    by (rule writes_cong [rotated]) (simp add: pb_encode_nullterminated_def)
  then show ?thesis using writes_stores_buffer [OF _ _ assms(5), of _ "bs @ [0]"] assms(4) by fastforce
qed

theorem pb_encode_nullterminated_correct_witness:
  "\<exists>os. pb_encode_nullterminated 1 no_callbacks wifi_mem gdt_cct_NetworkConnectionInfo_fields 4096
      (pb_ostream_from_buffer 3) = Some (True, os) \<and> osink os = Buffer [8, 1, 0] \<and> oerrmsg os = None"
  using pb_encode_nullterminated_correct [OF wifi_fields wifi_bytes, of 3 no_callbacks] by simp

end
