(* ===== verification/Pb_Heap.thy ===== *)
theory Pb_Heap
  imports Pb_Common
begin

text \<open>
  The heap the decoder works on: memory, and the blocks \<^verbatim>\<open>realloc\<close> has handed out with
  their sizes. \<^verbatim>\<open>realloc\<close> chooses the address of a block; the choice, 0 for failure, is a
  parameter of the model (\<open>pick\<close>). What it does to memory is fixed: the common prefix of the
  old and the new block is kept, the rest of a new block is whatever memory holds there.
\<close>

record heap =
  hmem :: mem
  hblocks :: "addr \<Rightarrow> size_t option"

abbreviation upd_mem :: "heap \<Rightarrow> mem \<Rightarrow> heap" where
  "upd_mem h m \<equiv> h\<lparr>hmem := m\<rparr>"

definition block_size :: "heap \<Rightarrow> addr \<Rightarrow> nat" where
  "block_size h p = (case hblocks h p of None \<Rightarrow> 0 | Some k \<Rightarrow> unat k)"

definition pb_realloc :: "(heap \<Rightarrow> addr \<Rightarrow> size_t \<Rightarrow> addr) \<Rightarrow> heap \<Rightarrow> addr \<Rightarrow> size_t \<Rightarrow> addr \<times> heap" where
  "pb_realloc pick h p sz =
     (let q = pick h p sz in
      if q = 0 then (0, h)
      else (q, \<lparr>hmem = mem_write (hmem h) q (mem_read (hmem h) p (min (block_size h p) (unat sz))),
                hblocks = ((hblocks h)(p := None))(q := Some sz)\<rparr>))"

definition pb_free :: "heap \<Rightarrow> addr \<Rightarrow> heap" where
  "pb_free h p = (if p = 0 then h else h\<lparr>hblocks := (hblocks h)(p := None)\<rparr>)"

definition c_memset0 :: "heap \<Rightarrow> addr \<Rightarrow> nat \<Rightarrow> heap" where
  "c_memset0 h p k = upd_mem h (mem_write (hmem h) p (replicate k 0))"

text \<open>Reading and writing through \<^verbatim>\<open>iter->pSize\<close> when it points into memory.\<close>

fun load_size :: "mem \<Rightarrow> size_ptr \<Rightarrow> pb_size_t" where
  "load_size m (In_mem a) = load32 m a"
| "load_size m Fixed_count_size = 0"

fun store_size :: "heap \<Rightarrow> size_ptr \<Rightarrow> pb_size_t \<Rightarrow> heap" where
  "store_size h (In_mem a) v = upd_mem h (store32 (hmem h) a v)"
| "store_size h Fixed_count_size v = h"

end
