(* ===== verification/Pb_Decode.thy ===== *)
theory Pb_Decode
  imports Pb_Heap Pb_Istream
begin

text \<open>
  \<^verbatim>\<open>nanopb/pb_decode.c\<close>: the field decoders, default values, release of allocated fields
  and the message decoder, in the configuration with dynamic allocation.

  \<open>None\<close> is "no result": more than \<open>n\<close> iterations or levels of recursion, or a call of a null
  entry of the decoder table.
\<close>

section \<open>State and environment\<close>

text \<open>
  A decoding function updates the stream, the heap and the local variable
  \<^verbatim>\<open>fixed_count_size\<close> of the enclosing \<^verbatim>\<open>pb_decode_noinit\<close>, which \<^verbatim>\<open>iter->pSize\<close> may
  point at. What is supplied from outside: the choice of \<^verbatim>\<open>realloc\<close>, the decoder callbacks
  (by function address), the custom decoders of extension types and the descriptors
  extension types point at.
\<close>

record 's dstate =
  strm :: "'s pb_istream"
  heap :: heap
  fixed_count_size :: pb_size_t

record 's dec_env =
  pick :: "heap \<Rightarrow> addr \<Rightarrow> size_t \<Rightarrow> addr"
  dec_callback :: "addr \<Rightarrow> pb_field \<Rightarrow> addr \<Rightarrow> 's pb_istream \<Rightarrow> heap \<Rightarrow> bool \<times> 's pb_istream \<times> heap"
  ext_decode :: "addr \<Rightarrow> (addr \<Rightarrow> uint32 \<Rightarrow> pb_wire_type_t \<Rightarrow> 's pb_istream \<Rightarrow> heap \<Rightarrow>
      bool \<times> 's pb_istream \<times> heap) option"
  ext_dec_arg :: "addr \<Rightarrow> pb_field"

type_synonym 's decoder = "pb_field \<Rightarrow> addr \<Rightarrow> 's dstate \<Rightarrow> (bool \<times> 's dstate) option"
type_synonym 's msg_decoder =
  "pb_field list \<Rightarrow> addr \<Rightarrow> 's pb_istream \<Rightarrow> heap \<Rightarrow> (bool \<times> 's pb_istream \<times> heap) option"

abbreviation dmem :: "'s dstate \<Rightarrow> mem" where
  "dmem d \<equiv> hmem (heap d)"

definition set_dmem :: "'s dstate \<Rightarrow> mem \<Rightarrow> 's dstate" where
  "set_dmem d m = d\<lparr>heap := upd_mem (heap d) m\<rparr>"

definition derror :: "'s dstate \<Rightarrow> string \<Rightarrow> bool \<times> 's dstate" where
  "derror d msg = (False, d\<lparr>strm := set_ierror (strm d) msg\<rparr>)"

text \<open>\<^verbatim>\<open>*(pb_size_t*)iter->pSize\<close>, read and written.\<close>

fun read_size :: "'s dstate \<Rightarrow> size_ptr \<Rightarrow> pb_size_t" where
  "read_size d (In_mem a) = load32 (dmem d) a"
| "read_size d Fixed_count_size = fixed_count_size d"

fun write_size :: "'s dstate \<Rightarrow> size_ptr \<Rightarrow> pb_size_t \<Rightarrow> 's dstate" where
  "write_size d (In_mem a) v = set_dmem d (store32 (dmem d) a v)"
| "write_size d Fixed_count_size v = d\<lparr>fixed_count_size := v\<rparr>"

section \<open>Allocation\<close>

definition allocate_field :: "'s dec_env \<Rightarrow> addr \<Rightarrow> size_t \<Rightarrow> size_t \<Rightarrow> 's dstate \<Rightarrow> bool \<times> 's dstate" where
  "allocate_field env pd dsize asize d =
     (let p = load64 (dmem d) pd;
          check_limit = push_bit 32 1 :: size_t;
          size_max = - 1 :: size_t
      in if dsize = 0 \<or> asize = 0 then derror d ''invalid size''
         else if (dsize \<ge> check_limit \<or> asize \<ge> check_limit) \<and> size_max div asize < dsize
         then derror d ''size too large''
         else (case pb_realloc (pick env) (heap d) p (asize * dsize) of
                 (q, h) \<Rightarrow>
                   if q = 0 then derror (d\<lparr>heap := h\<rparr>) ''realloc failed''
                   else (True, set_dmem (d\<lparr>heap := h\<rparr>) (store64 (hmem h) pd q))))"

section \<open>Field decoders\<close>

text \<open>
  The clamping that \<^verbatim>\<open>pb_dec_varint\<close> and \<^verbatim>\<open>pb_dec_svarint\<close> share: store the value at the
  width of the field and fail if it does not read back as the same signed value.
\<close>

definition store_signed :: "pb_field \<Rightarrow> addr \<Rightarrow> uint64 \<Rightarrow> 's dstate \<Rightarrow> bool \<times> 's dstate" where
  "store_signed f dest svalue d =
     (let finish = (\<lambda>clamped d. if clamped \<noteq> svalue then derror d ''integer too large'' else (True, d))
      in if data_size f = 8 then finish svalue (set_dmem d (store64 (dmem d) dest svalue))
         else if data_size f = 4
         then finish (scast (ucast svalue :: uint32)) (set_dmem d (store32 (dmem d) dest (ucast svalue)))
         else if data_size f = 2
         then finish (scast (ucast svalue :: uint16)) (set_dmem d (store16 (dmem d) dest (ucast svalue)))
         else if data_size f = 1
         then finish (scast (ucast svalue :: uint8)) (set_dmem d (store8 (dmem d) dest (ucast svalue)))
         else derror d ''invalid data_size'')"

definition pb_dec_varint :: "'s decoder" where
  "pb_dec_varint f dest d = Some
     (case pb_decode_varint (strm d) of
        (None, s) \<Rightarrow> (False, d\<lparr>strm := s\<rparr>)
      | (Some v, s) \<Rightarrow>
          store_signed f dest
            (if data_size f = 8 then v else scast (ucast v :: uint32)) (d\<lparr>strm := s\<rparr>))"

definition pb_dec_uvarint :: "'s decoder" where
  "pb_dec_uvarint f dest d = Some
     (case pb_decode_varint (strm d) of
        (None, s) \<Rightarrow> (False, d\<lparr>strm := s\<rparr>)
      | (Some v, s) \<Rightarrow>
          let d = d\<lparr>strm := s\<rparr>;
              finish = (\<lambda>clamped d. if clamped \<noteq> v then derror d ''integer too large'' else (True, d))
          in if data_size f = 8 then finish v (set_dmem d (store64 (dmem d) dest v))
             else if data_size f = 4
             then finish (ucast (ucast v :: uint32)) (set_dmem d (store32 (dmem d) dest (ucast v)))
             else if data_size f = 2
             then finish (ucast (ucast v :: uint16)) (set_dmem d (store16 (dmem d) dest (ucast v)))
             else if data_size f = 1
             then finish (ucast (ucast v :: uint8)) (set_dmem d (store8 (dmem d) dest (ucast v)))
             else derror d ''invalid data_size'')"

definition pb_dec_svarint :: "'s decoder" where
  "pb_dec_svarint f dest d = Some
     (case pb_decode_svarint (strm d) of
        (None, s) \<Rightarrow> (False, d\<lparr>strm := s\<rparr>)
      | (Some v, s) \<Rightarrow> store_signed f dest v (d\<lparr>strm := s\<rparr>))"

definition pb_dec_fixed32 :: "'s decoder" where
  "pb_dec_fixed32 f dest d = Some
     (case pb_decode_fixed32 (strm d) of
        (None, s) \<Rightarrow> (False, d\<lparr>strm := s\<rparr>)
      | (Some v, s) \<Rightarrow> (True, set_dmem (d\<lparr>strm := s\<rparr>) (store32 (dmem d) dest v)))"

definition pb_dec_fixed64 :: "'s decoder" where
  "pb_dec_fixed64 f dest d = Some
     (case pb_decode_fixed64 (strm d) of
        (None, s) \<Rightarrow> (False, d\<lparr>strm := s\<rparr>)
      | (Some v, s) \<Rightarrow> (True, set_dmem (d\<lparr>strm := s\<rparr>) (store64 (dmem d) dest v)))"

text \<open>Reading \<open>count\<close> bytes of the stream to an address.\<close>

definition read_to :: "addr \<Rightarrow> size_t \<Rightarrow> 's dstate \<Rightarrow> bool \<times> 's dstate" where
  "read_to p count d =
     (case pb_read (strm d) count of
        (b, bs, s) \<Rightarrow> (b, set_dmem (d\<lparr>strm := s\<rparr>) (mem_write (dmem d) p bs)))"

definition pb_dec_bytes :: "'s dec_env \<Rightarrow> 's decoder" where
  "pb_dec_bytes env f dest d = Some
     (case pb_decode_varint32 (strm d) of
        (None, s) \<Rightarrow> (False, d\<lparr>strm := s\<rparr>)
      | (Some sz, s) \<Rightarrow>
          let d = d\<lparr>strm := s\<rparr>;
              alloc_size = PB_BYTES_ARRAY_T_ALLOCSIZE sz;
              fill = (\<lambda>bdest d. read_to (bytes_bytes bdest) (ucast sz)
                                  (set_dmem d (store32 (dmem d) bdest sz)))
          in if sz > PB_SIZE_MAX then derror d ''bytes overflow''
             else if ucast sz > alloc_size then derror d ''size too large''
             else if atype f = PB_ATYPE_POINTER
             then (case allocate_field env dest alloc_size 1 d of
                     (False, d) \<Rightarrow> (False, d)
                   | (True, d) \<Rightarrow> fill (load64 (dmem d) dest) d)
             else if alloc_size > ucast (data_size f) then derror d ''bytes overflow''
             else fill dest d)"

definition pb_dec_string :: "'s dec_env \<Rightarrow> 's decoder" where
  "pb_dec_string env f dest d = Some
     (case pb_decode_varint32 (strm d) of
        (None, s) \<Rightarrow> (False, d\<lparr>strm := s\<rparr>)
      | (Some sz, s) \<Rightarrow>
          let d = d\<lparr>strm := s\<rparr>;
              alloc_size = ucast (sz + 1) :: size_t;
              fill = (\<lambda>dest d. case read_to dest (ucast sz) d of
                        (status, d) \<Rightarrow> (status, set_dmem d (mem_write (dmem d) (dest + ucast sz) [0])))
          in if alloc_size < ucast sz then derror d ''size too large''
             else if atype f = PB_ATYPE_POINTER
             then (case allocate_field env dest alloc_size 1 d of
                     (False, d) \<Rightarrow> (False, d)
                   | (True, d) \<Rightarrow> fill (load64 (dmem d) dest) d)
             else if alloc_size > ucast (data_size f) then derror d ''string overflow''
             else fill dest d)"

definition pb_dec_fixed_length_bytes :: "'s decoder" where
  "pb_dec_fixed_length_bytes f dest d = Some
     (case pb_decode_varint32 (strm d) of
        (None, s) \<Rightarrow> (False, d\<lparr>strm := s\<rparr>)
      | (Some sz, s) \<Rightarrow>
          let d = d\<lparr>strm := s\<rparr> in
          if sz > PB_SIZE_MAX then derror d ''bytes overflow''
          else if sz = 0
          then (True, d\<lparr>heap := c_memset0 (heap d) dest (unat (data_size f))\<rparr>)
          else if sz \<noteq> data_size f then derror d ''incorrect fixed length bytes size''
          else read_to dest (ucast (data_size f)) d)"

text \<open>
  \<^verbatim>\<open>pb_dec_submessage\<close>, over the decoder that initialises (\<open>init\<close>) and the one that does
  not (\<open>noinit\<close>).
\<close>

definition pb_dec_submessage :: "'s msg_decoder \<Rightarrow> 's msg_decoder \<Rightarrow> 's decoder" where
  "pb_dec_submessage init noinit f dest d =
     (case pb_make_string_substream (strm d) of
        (None, s) \<Rightarrow> Some (False, d\<lparr>strm := s\<rparr>)
      | (Some sub, s) \<Rightarrow>
          if ptr f = Null_ptr then Some (derror (d\<lparr>strm := s\<rparr>) ''invalid field descriptor'')
          else (case (if htype f = PB_HTYPE_REPEATED then init else noinit)
                       (submsg_fields (ptr f)) dest sub (heap d) of
                  None \<Rightarrow> None
                | Some (status, sub', h) \<Rightarrow>
                    (case pb_close_string_substream s sub' of
                       (b, s') \<Rightarrow> Some (b \<and> status, d\<lparr>strm := s', heap := h\<rparr>))))"

definition PB_DECODERS :: "'s dec_env \<Rightarrow> 's msg_decoder \<Rightarrow> 's msg_decoder \<Rightarrow> 's decoder option list" where
  "PB_DECODERS env init noinit =
     [Some pb_dec_varint, Some pb_dec_uvarint, Some pb_dec_svarint, Some pb_dec_fixed32,
      Some pb_dec_fixed64, Some (pb_dec_bytes env), Some (pb_dec_string env),
      Some (pb_dec_submessage init noinit), None, Some pb_dec_fixed_length_bytes]"

definition call_decoder :: "'s dec_env \<Rightarrow> 's msg_decoder \<Rightarrow> 's msg_decoder \<Rightarrow> 's decoder" where
  "call_decoder env init noinit f p d =
     (if ltype f < PB_LTYPES_COUNT
      then (case PB_DECODERS env init noinit ! unat (ltype f) of
              None \<Rightarrow> None
            | Some func \<Rightarrow> func f p d)
      else None)"

section \<open>Default values\<close>

text \<open>
  \<^verbatim>\<open>iter_from_extension\<close>: an iterator over the single descriptor of the extension type.
\<close>

definition iter_from_extension :: "'s dec_env \<Rightarrow> mem \<Rightarrow> addr \<Rightarrow> pb_field_iter" where
  "iter_from_extension env m e =
     (let f = ext_dec_arg env (ext_type m e);
          it = snd (pb_field_iter_begin [f] (ext_dest m e))
      in it\<lparr>pData := (if atype f = PB_ATYPE_POINTER then ext_dest_ptr e else ext_dest m e),
            pSize := In_mem (ext_found_ptr e)\<rparr>)"

text \<open>The static branch of \<^verbatim>\<open>pb_field_set_to_default\<close>, over the function for submessages.\<close>

definition set_static_default :: "(pb_field list \<Rightarrow> addr \<Rightarrow> heap \<Rightarrow> heap option) \<Rightarrow> pb_field_iter \<Rightarrow> heap \<Rightarrow>
    heap option" where
  "set_static_default msg it h =
     (let f = cur it in
      if htype f = PB_HTYPE_REPEATED \<or> htype f = PB_HTYPE_ONEOF then Some (store_size h (pSize it) 0)
      else
        let h = (if htype f = PB_HTYPE_OPTIONAL \<and> pSize it \<noteq> In_mem (pData it)
                 then (case pSize it of
                         In_mem a \<Rightarrow> upd_mem h (store_bool (hmem h) a False)
                       | Fixed_count_size \<Rightarrow> h)
                 else h)
        in if ltype f = PB_LTYPE_SUBMESSAGE then msg (submsg_fields (ptr f)) (pData it) h
           else (case ptr f of
                   Default v \<Rightarrow>
                     Some (upd_mem h (mem_write (hmem h) (pData it) (take (unat (data_size f)) v)))
                 | _ \<Rightarrow> Some (c_memset0 h (pData it) (unat (data_size f)))))"

fun pb_field_set_to_default :: "nat \<Rightarrow> 's dec_env \<Rightarrow> pb_field_iter \<Rightarrow> heap \<Rightarrow> heap option"
  and extensions_set_to_default :: "nat \<Rightarrow> 's dec_env \<Rightarrow> addr \<Rightarrow> heap \<Rightarrow> heap option"
  and pb_message_set_to_defaults :: "nat \<Rightarrow> 's dec_env \<Rightarrow> pb_field list \<Rightarrow> addr \<Rightarrow> heap \<Rightarrow> heap option" where
  "pb_field_set_to_default 0 env it h = None"
| "pb_field_set_to_default (Suc n) env it h =
     (let f = cur it in
      if ltype f = PB_LTYPE_EXTENSION
      then extensions_set_to_default n env (load64 (hmem h) (pData it)) h
      else if atype f = PB_ATYPE_STATIC
      then set_static_default (pb_message_set_to_defaults n env) it h
      else if atype f = PB_ATYPE_POINTER
      then let h = upd_mem h (store64 (hmem h) (pData it) 0) in
           if htype f = PB_HTYPE_REPEATED \<or> htype f = PB_HTYPE_ONEOF
           then Some (store_size h (pSize it) 0) else Some h
      else Some h)"
| "extensions_set_to_default 0 env e h = None"
| "extensions_set_to_default (Suc n) env e h =
     (if e = 0 then Some h
      else let h = upd_mem h (store_bool (hmem h) (ext_found_ptr e) False) in
           (case pb_field_set_to_default n env (iter_from_extension env (hmem h) e) h of
              None \<Rightarrow> None
            | Some h \<Rightarrow> extensions_set_to_default n env (ext_next (hmem h) e) h))"
| "pb_message_set_to_defaults 0 env fs p h = None"
| "pb_message_set_to_defaults (Suc n) env fs p h =
     map_option snd
       (for_fields (\<lambda>it h. map_option (Pair True) (pb_field_set_to_default n env it h)) fs p h)"

section \<open>Releasing allocated fields\<close>

text \<open>The loop that releases \<open>k\<close> submessages, \<open>ds\<close> bytes apart.\<close>

primrec release_items :: "nat \<Rightarrow> (addr \<Rightarrow> heap \<Rightarrow> heap option) \<Rightarrow> addr \<Rightarrow> pb_size_t \<Rightarrow> heap \<Rightarrow> heap option" where
  "release_items 0 rel p ds h = Some h"
| "release_items (Suc k) rel p ds h =
     (case rel p h of None \<Rightarrow> None | Some h \<Rightarrow> release_items k rel (p + ucast ds) ds h)"

text \<open>The loop that frees \<open>k\<close> strings of an array of pointers.\<close>

primrec free_entries :: "nat \<Rightarrow> addr \<Rightarrow> heap \<Rightarrow> heap" where
  "free_entries 0 p h = h"
| "free_entries (Suc k) p h =
     (let h = pb_free h (load64 (hmem h) p)
      in free_entries k (p + 8) (upd_mem h (store64 (hmem h) p 0)))"

text \<open>The number of submessages \<^verbatim>\<open>pb_release_single_field\<close> visits.\<close>

definition release_count :: "pb_field_iter \<Rightarrow> mem \<Rightarrow> pb_size_t" where
  "release_count it m =
     (let f = cur it in
      if htype f = PB_HTYPE_REPEATED
      then let c = (if atype f = PB_ATYPE_STATIC \<and> pSize it = In_mem (pData it)
                    then array_size f else load_size m (pSize it))
           in if atype f = PB_ATYPE_STATIC \<and> c > array_size f then array_size f else c
      else 1)"

text \<open>The last part of \<^verbatim>\<open>pb_release_single_field\<close>, for pointer fields.\<close>

definition release_pointer :: "pb_field_iter \<Rightarrow> heap \<Rightarrow> heap" where
  "release_pointer it h =
     (let f = cur it in
      if atype f = PB_ATYPE_POINTER
      then
        let h = (if htype f = PB_HTYPE_REPEATED
                    \<and> (ltype f = PB_LTYPE_STRING \<or> ltype f = PB_LTYPE_BYTES)
                 then free_entries (unat (load_size (hmem h) (pSize it))) (load64 (hmem h) (pData it)) h
                 else h);
            h = (if htype f = PB_HTYPE_REPEATED then store_size h (pSize it) 0 else h);
            h = pb_free h (load64 (hmem h) (pData it))
        in upd_mem h (store64 (hmem h) (pData it) 0)
      else h)"

fun pb_release_single_field :: "nat \<Rightarrow> 's dec_env \<Rightarrow> pb_field_iter \<Rightarrow> heap \<Rightarrow> heap option"
  and release_extensions :: "nat \<Rightarrow> 's dec_env \<Rightarrow> addr \<Rightarrow> heap \<Rightarrow> heap option"
  and pb_release :: "nat \<Rightarrow> 's dec_env \<Rightarrow> pb_field list \<Rightarrow> addr \<Rightarrow> heap \<Rightarrow> heap option" where
  "pb_release_single_field 0 env it h = None"
| "pb_release_single_field (Suc n) env it h =
     (let f = cur it in
      if htype f = PB_HTYPE_ONEOF \<and> load_size (hmem h) (pSize it) \<noteq> tag f then Some h
      else map_option (release_pointer it)
        (if ltype f = PB_LTYPE_EXTENSION
         then release_extensions n env (load64 (hmem h) (pData it)) h
         else if ltype f = PB_LTYPE_SUBMESSAGE
         then let pItem = (if atype f = PB_ATYPE_POINTER then load64 (hmem h) (pData it) else pData it)
              in if pItem \<noteq> 0
                 then release_items (unat (release_count it (hmem h)))
                        (pb_release n env (submsg_fields (ptr f))) pItem (data_size f) h
                 else Some h
         else Some h))"
| "release_extensions 0 env e h = None"
| "release_extensions (Suc n) env e h =
     (if e = 0 then Some h
      else (case pb_release_single_field n env (iter_from_extension env (hmem h) e) h of
              None \<Rightarrow> None
            | Some h \<Rightarrow> release_extensions n env (ext_next (hmem h) e) h))"
| "pb_release 0 env fs p h = None"
| "pb_release (Suc n) env fs p h =
     (if p = 0 then Some h
      else map_option snd
        (for_fields (\<lambda>it h. map_option (Pair True) (pb_release_single_field n env it h)) fs p h))"

end
