(* ===== verification/Pb_Decode_Msg.thy ===== *)
theory Pb_Decode_Msg
  imports Pb_Decode
begin

text \<open>
  \<^verbatim>\<open>nanopb/pb_decode.c\<close>, continued: decoding one field into the message (static, pointer,
  callback and extension fields) and the loop over a whole message.
\<close>

section \<open>Decoding a single field\<close>

text \<open>The address of an array entry: the product is taken in 32 bits, as the code does.\<close>

definition item_addr :: "addr \<Rightarrow> pb_field \<Rightarrow> pb_size_t \<Rightarrow> addr" where
  "item_addr base f i = base + ucast (data_size f * i)"

text \<open>The loop over a packed array in \<^verbatim>\<open>decode_static_field\<close>; the stream is the substream.\<close>

fun packed_loop :: "nat \<Rightarrow> 's decoder \<Rightarrow> pb_field_iter \<Rightarrow> 's dstate \<Rightarrow> (bool \<times> 's dstate) option" where
  "packed_loop 0 func it d = None"
| "packed_loop (Suc n) func it d =
     (let f = cur it in
      if bytes_left (strm d) > 0 \<and> read_size d (pSize it) < array_size f
      then seq (func f (item_addr (pData it) f (read_size d (pSize it))) d)
             (\<lambda>d. packed_loop n func it (write_size d (pSize it) (read_size d (pSize it) + 1)))
      else Some (True, d))"

definition decode_static_field :: "nat \<Rightarrow> 's dec_env \<Rightarrow> 's decoder \<Rightarrow> pb_wire_type_t \<Rightarrow> pb_field_iter \<Rightarrow>
    's dstate \<Rightarrow> (bool \<times> 's dstate) option" where
  "decode_static_field n env func wire_type it d =
     (let f = cur it in
      if htype f = PB_HTYPE_REQUIRED then func f (pData it) d
      else if htype f = PB_HTYPE_OPTIONAL then
        func f (pData it)
          (if pSize it \<noteq> In_mem (pData it)
           then (case pSize it of
                   In_mem a \<Rightarrow> set_dmem d (store_bool (dmem d) a True)
                 | Fixed_count_size \<Rightarrow> d)
           else d)
      else if htype f = PB_HTYPE_REPEATED then
        (if wire_type = PB_WT_STRING \<and> ltype f \<le> PB_LTYPE_LAST_PACKABLE then
           (case pb_make_string_substream (strm d) of
              (None, s) \<Rightarrow> Some (False, d\<lparr>strm := s\<rparr>)
            | (Some sub, s) \<Rightarrow>
                (case packed_loop n func it (d\<lparr>strm := sub\<rparr>) of
                   None \<Rightarrow> None
                 | Some (status, d') \<Rightarrow>
                     if bytes_left (strm d') \<noteq> 0
                     then Some (derror (d'\<lparr>strm := s\<rparr>) ''array overflow'')
                     else (case pb_close_string_substream s (strm d') of
                             (b, s') \<Rightarrow> Some (b \<and> status, d'\<lparr>strm := s'\<rparr>))))
         else
           let sz = read_size d (pSize it);
               pItem = item_addr (pData it) f sz;
               d = write_size d (pSize it) (sz + 1)
           in if sz \<ge> array_size f then Some (derror d ''array overflow'')
              else func f pItem d)
      else if htype f = PB_HTYPE_ONEOF then
        let d = write_size d (pSize it) (tag f) in
        (if ltype f = PB_LTYPE_SUBMESSAGE
         then (case pb_message_set_to_defaults n env (submsg_fields (ptr f)) (pData it)
                      (c_memset0 (heap d) (pData it) (unat (data_size f))) of
                 None \<Rightarrow> None
               | Some h \<Rightarrow> func f (pData it) (d\<lparr>heap := h\<rparr>))
         else func f (pData it) d)
      else Some (derror d ''invalid field type''))"

definition initialize_pointer_field :: "nat \<Rightarrow> 's dec_env \<Rightarrow> addr \<Rightarrow> pb_field_iter \<Rightarrow> heap \<Rightarrow> heap option" where
  "initialize_pointer_field n env pItem it h =
     (let f = cur it in
      if ltype f = PB_LTYPE_STRING \<or> ltype f = PB_LTYPE_BYTES
      then Some (upd_mem h (store64 (hmem h) pItem 0))
      else if ltype f = PB_LTYPE_SUBMESSAGE
      then pb_message_set_to_defaults n env (submsg_fields (ptr f)) pItem
             (c_memset0 h pItem (unat (data_size f)))
      else Some h)"

text \<open>
  The loop over a packed array in \<^verbatim>\<open>decode_pointer_field\<close>; \<open>allocated\<close> is
  \<^verbatim>\<open>allocated_size\<close>. The flag in the result tells whether the loop stopped with
  \<^verbatim>\<open>"too many array entries"\<close>, which the code records in the outer stream.
\<close>

fun pointer_packed_loop :: "nat \<Rightarrow> 's dec_env \<Rightarrow> 's decoder \<Rightarrow> pb_field_iter \<Rightarrow> size_t \<Rightarrow> 's dstate \<Rightarrow>
    (bool \<times> bool \<times> 's dstate) option" where
  "pointer_packed_loop 0 env func it allocated d = None"
| "pointer_packed_loop (Suc n) env func it allocated d =
     (let f = cur it in
      if bytes_left (strm d) = 0 then Some (True, False, d)
      else
        let grow = ucast (read_size d (pSize it)) + 1 > allocated;
            allocated = (if grow then allocated + ((bytes_left (strm d) - 1) div ucast (data_size f) + 1)
                         else allocated)
        in (case (if grow then allocate_field env (pData it) (ucast (data_size f)) allocated d
                  else (True, d)) of
              (False, d) \<Rightarrow> Some (False, False, d)
            | (True, d) \<Rightarrow>
                let pItem = item_addr (load64 (dmem d) (pData it)) f (read_size d (pSize it)) in
                (case initialize_pointer_field n env pItem it (heap d) of
                   None \<Rightarrow> None
                 | Some h \<Rightarrow>
                     (case func f pItem (d\<lparr>heap := h\<rparr>) of
                        None \<Rightarrow> None
                      | Some (False, d) \<Rightarrow> Some (False, False, d)
                      | Some (True, d) \<Rightarrow>
                          if read_size d (pSize it) = PB_SIZE_MAX then Some (False, True, d)
                          else pointer_packed_loop n env func it allocated
                                 (write_size d (pSize it) (read_size d (pSize it) + 1))))))"

definition decode_pointer_field :: "nat \<Rightarrow> 's dec_env \<Rightarrow> 's decoder \<Rightarrow> pb_wire_type_t \<Rightarrow> pb_field_iter \<Rightarrow>
    's dstate \<Rightarrow> (bool \<times> 's dstate) option" where
  "decode_pointer_field n env func wire_type it d =
     (let f = cur it in
      if htype f = PB_HTYPE_REQUIRED \<or> htype f = PB_HTYPE_OPTIONAL \<or> htype f = PB_HTYPE_ONEOF then
        (case (if ltype f = PB_LTYPE_SUBMESSAGE \<and> load64 (dmem d) (pData it) \<noteq> 0
               then pb_release_single_field n env it (heap d) else Some (heap d)) of
           None \<Rightarrow> None
         | Some h \<Rightarrow>
             let d = d\<lparr>heap := h\<rparr>;
                 d = (if htype f = PB_HTYPE_ONEOF then write_size d (pSize it) (tag f) else d)
             in if ltype f = PB_LTYPE_STRING \<or> ltype f = PB_LTYPE_BYTES
                then func f (pData it) d
                else seq (Some (allocate_field env (pData it) (ucast (data_size f)) 1 d))
                  (\<lambda>d. case initialize_pointer_field n env (load64 (dmem d) (pData it)) it (heap d) of
                         None \<Rightarrow> None
                       | Some h \<Rightarrow>
                           (let d = d\<lparr>heap := h\<rparr> in func f (load64 (dmem d) (pData it)) d)))
      else if htype f = PB_HTYPE_REPEATED then
        (if wire_type = PB_WT_STRING \<and> ltype f \<le> PB_LTYPE_LAST_PACKABLE then
           (case pb_make_string_substream (strm d) of
              (None, s) \<Rightarrow> Some (False, d\<lparr>strm := s\<rparr>)
            | (Some sub, s) \<Rightarrow>
                (case pointer_packed_loop n env func it (ucast (read_size d (pSize it)))
                        (d\<lparr>strm := sub\<rparr>) of
                   None \<Rightarrow> None
                 | Some (status, too_many, d') \<Rightarrow>
                     let s = (if too_many then s\<lparr>ierrmsg := Some ''too many array entries''\<rparr> else s) in
                     (case pb_close_string_substream s (strm d') of
                        (b, s') \<Rightarrow> Some (b \<and> status, d'\<lparr>strm := s'\<rparr>))))
         else if read_size d (pSize it) = PB_SIZE_MAX
         then Some (derror d ''too many array entries'')
         else
           let d = write_size d (pSize it) (read_size d (pSize it) + 1) in
           seq (Some (allocate_field env (pData it) (ucast (data_size f)) (ucast (read_size d (pSize it))) d))
             (\<lambda>d. let pItem = item_addr (load64 (dmem d) (pData it)) f (read_size d (pSize it) - 1) in
                  case initialize_pointer_field n env pItem it (heap d) of
                    None \<Rightarrow> None
                  | Some h \<Rightarrow> func f pItem (d\<lparr>heap := h\<rparr>)))
      else Some (derror d ''invalid field type''))"

text \<open>The loop that calls a decoder callback until the substream is used up.\<close>

fun callback_loop :: "nat \<Rightarrow> 's dec_env \<Rightarrow> addr \<Rightarrow> pb_field \<Rightarrow> addr \<Rightarrow> 's pb_istream \<Rightarrow> heap \<Rightarrow>
    (bool \<times> 's pb_istream \<times> heap) option" where
  "callback_loop 0 env fn f arg s h = None"
| "callback_loop (Suc n) env fn f arg s h =
     (case dec_callback env fn f arg s h of
        (False, s, h) \<Rightarrow> Some (False, s, h)
      | (True, s, h) \<Rightarrow>
          if bytes_left s \<noteq> 0 then callback_loop n env fn f arg s h else Some (True, s, h))"

definition decode_callback_field :: "nat \<Rightarrow> 's dec_env \<Rightarrow> pb_wire_type_t \<Rightarrow> pb_field_iter \<Rightarrow> 's dstate \<Rightarrow>
    (bool \<times> 's dstate) option" where
  "decode_callback_field n env wire_type it d =
     (let f = cur it; pCallback = pData it; fn = cb_funcs (dmem d) pCallback; arg = cb_arg_ptr pCallback in
      if pCallback = 0 \<or> fn = 0
      then Some (case pb_skip_field (strm d) wire_type of (b, s) \<Rightarrow> (b, d\<lparr>strm := s\<rparr>))
      else if wire_type = PB_WT_STRING then
        (case pb_make_string_substream (strm d) of
           (None, s) \<Rightarrow> Some (False, d\<lparr>strm := s\<rparr>)
         | (Some sub, s) \<Rightarrow>
             (case callback_loop n env fn f arg sub (heap d) of
                None \<Rightarrow> None
              | Some (False, _, h) \<Rightarrow> Some (derror (d\<lparr>strm := s, heap := h\<rparr>) ''callback failed'')
              | Some (True, sub, h) \<Rightarrow>
                  (case pb_close_string_substream s sub of
                     (b, s') \<Rightarrow> Some (b, d\<lparr>strm := s', heap := h\<rparr>))))
      else
        (case read_raw_value (strm d) wire_type 10 of
           (False, _, s) \<Rightarrow> Some (False, d\<lparr>strm := s\<rparr>)
         | (True, buffer, s) \<Rightarrow>
             (case dec_callback env fn f arg
                     (pb_istream_from_buffer buffer (of_nat (length buffer))) (heap d) of
                (b, _, h) \<Rightarrow> Some (b, d\<lparr>strm := s, heap := h\<rparr>))))"

text \<open>
  \<^verbatim>\<open>pb_release_union_field\<close> moves the iterator to the old member of the union and back.
\<close>

definition pb_release_union_field :: "nat \<Rightarrow> 's dec_env \<Rightarrow> pb_field_iter \<Rightarrow> 's dstate \<Rightarrow>
    (bool \<times> pb_field_iter \<times> 's dstate) option" where
  "pb_release_union_field n env it d =
     (let old_tag = read_size d (pSize it); new_tag = tag (cur it) in
      if old_tag = 0 \<or> old_tag = new_tag then Some (True, it, d)
      else (case pb_field_iter_find it old_tag of
              (False, it) \<Rightarrow> (case derror d ''invalid union tag'' of (b, d) \<Rightarrow> Some (b, it, d))
            | (True, it) \<Rightarrow>
                (case pb_release_single_field n env it (heap d) of
                   None \<Rightarrow> None
                 | Some h \<Rightarrow>
                     let d = d\<lparr>heap := h\<rparr> in
                     (case pb_field_iter_find it new_tag of
                        (False, it) \<Rightarrow> (case derror d ''iterator error'' of (b, d) \<Rightarrow> Some (b, it, d))
                      | (True, it) \<Rightarrow> Some (True, it, d)))))"

definition decode_field :: "nat \<Rightarrow> 's dec_env \<Rightarrow> 's decoder \<Rightarrow> pb_wire_type_t \<Rightarrow> pb_field_iter \<Rightarrow>
    's dstate \<Rightarrow> (bool \<times> pb_field_iter \<times> 's dstate) option" where
  "decode_field n env func wire_type it d =
     (case (if htype (cur it) = PB_HTYPE_ONEOF then pb_release_union_field n env it d
            else Some (True, it, d)) of
        None \<Rightarrow> None
      | Some (False, it, d) \<Rightarrow> Some (False, it, d)
      | Some (True, it, d) \<Rightarrow>
          map_option (\<lambda>(b, d). (b, it, d))
            (if atype (cur it) = PB_ATYPE_STATIC then decode_static_field n env func wire_type it d
             else if atype (cur it) = PB_ATYPE_POINTER then decode_pointer_field n env func wire_type it d
             else if atype (cur it) = PB_ATYPE_CALLBACK then decode_callback_field n env wire_type it d
             else Some (derror d ''invalid field type'')))"

definition default_extension_decoder :: "nat \<Rightarrow> 's dec_env \<Rightarrow> 's decoder \<Rightarrow> addr \<Rightarrow> uint32 \<Rightarrow>
    pb_wire_type_t \<Rightarrow> 's dstate \<Rightarrow> (bool \<times> 's dstate) option" where
  "default_extension_decoder n env func e tg wire_type d =
     (let f = ext_dec_arg env (ext_type (dmem d) e) in
      if tag f \<noteq> tg then Some (True, d)
      else
        let it = iter_from_extension env (dmem d) e;
            d = set_dmem d (store_bool (dmem d) (ext_found_ptr e) True)
        in map_option (\<lambda>(b, _, d). (b, d)) (decode_field n env func wire_type it d))"

text \<open>
  The loop of \<^verbatim>\<open>decode_extension\<close>; \<open>pos0\<close> is the value of \<^verbatim>\<open>bytes_left\<close> on entry.
\<close>

fun decode_extensions :: "nat \<Rightarrow> 's dec_env \<Rightarrow> 's decoder \<Rightarrow> size_t \<Rightarrow> addr \<Rightarrow> uint32 \<Rightarrow> pb_wire_type_t \<Rightarrow>
    's dstate \<Rightarrow> (bool \<times> 's dstate) option" where
  "decode_extensions 0 env func pos0 e tg wire_type d = None"
| "decode_extensions (Suc n) env func pos0 e tg wire_type d =
     (if e \<noteq> 0 \<and> pos0 = bytes_left (strm d)
      then seq (case ext_decode env (ext_type (dmem d) e) of
                  Some g \<Rightarrow> (case g e tg wire_type (strm d) (heap d) of
                              (b, s, h) \<Rightarrow> Some (b, d\<lparr>strm := s, heap := h\<rparr>))
                | None \<Rightarrow> default_extension_decoder n env func e tg wire_type d)
             (\<lambda>d. decode_extensions n env func pos0 (ext_next (dmem d) e) tg wire_type d)
      else Some (True, d))"

definition decode_extension :: "nat \<Rightarrow> 's dec_env \<Rightarrow> 's decoder \<Rightarrow> uint32 \<Rightarrow> pb_wire_type_t \<Rightarrow>
    pb_field_iter \<Rightarrow> 's dstate \<Rightarrow> (bool \<times> 's dstate) option" where
  "decode_extension n env func tg wire_type it d =
     decode_extensions n env func (bytes_left (strm d)) (load64 (dmem d) (pData it)) tg wire_type d"

definition find_extension_field :: "pb_field_iter \<Rightarrow> bool \<times> pb_field_iter" where
  "find_extension_field it =
     iter_find_loop (length (start it) + 1) (pos it) (\<lambda>f. ltype f = PB_LTYPE_EXTENSION) it"

section \<open>Decoding a message\<close>

text \<open>The local variables of \<^verbatim>\<open>pb_decode_noinit\<close> besides \<^verbatim>\<open>fixed_count_size\<close>.\<close>

record dlocals =
  fields_seen :: "uint32 list"
  extension_range_start :: uint32
  diter :: pb_field_iter
  fixed_count_field :: "nat option"

text \<open>
  What happens to a tag no field has: the extensions get a chance, then the value is
  skipped.
\<close>

definition decode_unknown :: "nat \<Rightarrow> 's dec_env \<Rightarrow> 's decoder \<Rightarrow> uint32 \<Rightarrow> pb_wire_type_t \<Rightarrow>
    dlocals \<Rightarrow> 's dstate \<Rightarrow> (bool \<times> dlocals \<times> 's dstate) option" where
  "decode_unknown n env func tg wire_type l d =
     (let skip = (\<lambda>l d. Some (case pb_skip_field (strm d) wire_type of (b, s) \<Rightarrow> (b, l, d\<lparr>strm := s\<rparr>)))
      in if tg \<ge> extension_range_start l
         then
           (case find_extension_field (diter l) of
              (found, it) \<Rightarrow>
                let l = l\<lparr>diter := it,
                          extension_range_start := (if found then tag (cur it) else - 1)\<rparr>
                in if tg \<ge> extension_range_start l
                   then (case decode_extension n env func tg wire_type it d of
                           None \<Rightarrow> None
                         | Some (False, d') \<Rightarrow> Some (False, l, d')
                         | Some (True, d') \<Rightarrow>
                             if bytes_left (strm d) \<noteq> bytes_left (strm d') then Some (True, l, d')
                             else skip l d')
                   else skip l d)
         else skip l d)"

text \<open>
  The bookkeeping for repeated fields with a fixed count: none when the previous such
  field has not received all its entries.
\<close>

definition track_fixed_count :: "dlocals \<Rightarrow> 's dstate \<Rightarrow> (dlocals \<times> 's dstate) option" where
  "track_fixed_count l d =
     (let it = diter l in
      if htype (cur it) = PB_HTYPE_REPEATED \<and> pSize it = In_mem (pData it)
      then
        (let redirect = (\<lambda>l d. Some (l\<lparr>diter := it\<lparr>pSize := Fixed_count_size\<rparr>\<rparr>, d)) in
         if fixed_count_field l \<noteq> Some (pos it)
         then (case fixed_count_field l of
                 Some i \<Rightarrow>
                   if fixed_count_size d \<noteq> array_size (field_at (start it) i) then None
                   else redirect (l\<lparr>fixed_count_field := Some (pos it)\<rparr>) (d\<lparr>fixed_count_size := 0\<rparr>)
               | None \<Rightarrow> redirect (l\<lparr>fixed_count_field := Some (pos it)\<rparr>) (d\<lparr>fixed_count_size := 0\<rparr>))
         else redirect l d)
      else Some (l, d))"

definition mark_seen :: "dlocals \<Rightarrow> dlocals" where
  "mark_seen l =
     (let it = diter l; i = required_field_index it in
      if htype (cur it) = PB_HTYPE_REQUIRED \<and> i < PB_MAX_REQUIRED_FIELDS
      then let w = unat (drop_bit 5 i)
           in l\<lparr>fields_seen := (fields_seen l)[w := fields_seen l ! w OR push_bit (unat (i AND 31)) 1]\<rparr>
      else l)"

text \<open>
  The \<^verbatim>\<open>while\<close> loop. The Boolean is false when the function returns false from within the
  loop, true when the loop ends normally.
\<close>

fun decode_loop :: "nat \<Rightarrow> nat \<Rightarrow> 's dec_env \<Rightarrow> 's decoder \<Rightarrow> dlocals \<Rightarrow> 's dstate \<Rightarrow>
    (bool \<times> dlocals \<times> 's dstate) option" where
  "decode_loop 0 n env func l d = None"
| "decode_loop (Suc k) n env func l d =
     (if bytes_left (strm d) = 0 then Some (True, l, d)
      else (case pb_decode_tag (strm d) of
              (None, eof, s) \<Rightarrow> Some (eof, l, d\<lparr>strm := s\<rparr>)
            | (Some (wire_type, tg), eof, s) \<Rightarrow>
                let d = d\<lparr>strm := s\<rparr> in
                (case pb_field_iter_find (diter l) tg of
                   (False, it) \<Rightarrow>
                     (case decode_unknown n env func tg wire_type (l\<lparr>diter := it\<rparr>) d of
                        None \<Rightarrow> None
                      | Some (False, l, d) \<Rightarrow> Some (False, l, d)
                      | Some (True, l, d) \<Rightarrow> decode_loop k n env func l d)
                 | (True, it) \<Rightarrow>
                     (case track_fixed_count (l\<lparr>diter := it\<rparr>) d of
                        None \<Rightarrow> (case derror d ''wrong size for fixed count field'' of
                                   (b, d) \<Rightarrow> Some (b, l\<lparr>diter := it\<rparr>, d))
                      | Some (l, d) \<Rightarrow>
                          let l = mark_seen l in
                          (case decode_field n env func wire_type (diter l) d of
                             None \<Rightarrow> None
                           | Some (False, it, d) \<Rightarrow> Some (False, l\<lparr>diter := it\<rparr>, d)
                           | Some (True, it, d) \<Rightarrow> decode_loop k n env func (l\<lparr>diter := it\<rparr>) d)))))"

text \<open>
  The \<^verbatim>\<open>do\<close>-\<^verbatim>\<open>while\<close> that runs the iterator to the last field: the required index and the
  type seen there, and the iterator wrapped to the start.
\<close>

function seek_last :: "pb_field_iter \<Rightarrow> uint32 \<times> pb_type_t \<times> pb_field_iter" where
  "seek_last it =
     (case pb_field_iter_next it of
        (True, it') \<Rightarrow> seek_last it'
      | (False, it') \<Rightarrow> (required_field_index it, ftype (cur it), it'))"
  by pat_completeness auto
termination
  by (relation "measure (\<lambda>it. length (start it) - pos it)") (auto dest: next_pos_less [OF sym])

declare seek_last.simps [simp del]

definition req_field_count :: "pb_field_iter \<Rightarrow> uint32" where
  "req_field_count it =
     (case seek_last it of
        (count, last_type, it') \<Rightarrow>
          let count = (if PB_HTYPE last_type = PB_HTYPE_REQUIRED \<and> tag (cur it') \<noteq> 0
                       then count + 1 else count)
          in if count > PB_MAX_REQUIRED_FIELDS then PB_MAX_REQUIRED_FIELDS else count)"

definition all_required_seen :: "uint32 \<Rightarrow> uint32 list \<Rightarrow> bool" where
  "all_required_seen count seen =
     (let allbits = NOT 0 :: uint32 in
      count = 0 \<or>
      (list_all (\<lambda>i. seen ! i = allbits) [0..<unat (drop_bit 5 count)] \<and>
       (count AND 31 \<noteq> 0 \<longrightarrow>
          seen ! unat (drop_bit 5 count) = drop_bit (unat (32 - (count AND 31))) allbits)))"

definition finish_message :: "dlocals \<Rightarrow> 's dstate \<Rightarrow> bool \<times> 's dstate" where
  "finish_message l d =
     (if (case fixed_count_field l of
            Some i \<Rightarrow> fixed_count_size d \<noteq> array_size (field_at (start (diter l)) i)
          | None \<Rightarrow> False)
      then derror d ''wrong size for fixed count field''
      else if \<not> all_required_seen (req_field_count (diter l)) (fields_seen l)
      then derror d ''missing required field''
      else (True, d))"

text \<open>\<^verbatim>\<open>pb_decode\<close>, over the decoder that does not initialise.\<close>

definition decode_with_init :: "nat \<Rightarrow> 's dec_env \<Rightarrow> 's msg_decoder \<Rightarrow> 's msg_decoder" where
  "decode_with_init n env noinit fs dest s h =
     (case pb_message_set_to_defaults n env fs dest h of
        None \<Rightarrow> None
      | Some h \<Rightarrow>
          (case noinit fs dest s h of
             None \<Rightarrow> None
           | Some (True, s, h) \<Rightarrow> Some (True, s, h)
           | Some (False, s, h) \<Rightarrow>
               map_option (\<lambda>h. (False, s, h)) (pb_release n env fs dest h)))"

definition init_locals :: "pb_field list \<Rightarrow> addr \<Rightarrow> dlocals" where
  "init_locals fs dest =
     \<lparr>fields_seen = [0, 0], extension_range_start = 0,
      diter = snd (pb_field_iter_begin fs dest), fixed_count_field = None\<rparr>"

fun pb_decode_noinit :: "nat \<Rightarrow> 's dec_env \<Rightarrow> 's msg_decoder" where
  "pb_decode_noinit 0 env fs dest s h = None"
| "pb_decode_noinit (Suc n) env fs dest s h =
     (let noinit = pb_decode_noinit n env;
          init = decode_with_init n env noinit
      in (case decode_loop (Suc n) n env (call_decoder env init noinit) (init_locals fs dest)
                 \<lparr>strm = s, heap = h, fixed_count_size = 0\<rparr> of
            None \<Rightarrow> None
          | Some (False, l, d) \<Rightarrow> Some (False, strm d, heap d)
          | Some (True, l, d) \<Rightarrow> (case finish_message l d of (b, d) \<Rightarrow> Some (b, strm d, heap d))))"

definition pb_decode :: "nat \<Rightarrow> 's dec_env \<Rightarrow> 's msg_decoder" where
  "pb_decode n env = decode_with_init n env (pb_decode_noinit n env)"

text \<open>The delimited variants, over the decoder they wrap.\<close>

definition decode_delimited_with :: "'s msg_decoder \<Rightarrow> 's msg_decoder" where
  "decode_delimited_with dec fs dest s h =
     (case pb_make_string_substream s of
        (None, s) \<Rightarrow> Some (False, s, h)
      | (Some sub, s) \<Rightarrow>
          (case dec fs dest sub h of
             None \<Rightarrow> None
           | Some (status, sub, h) \<Rightarrow>
               (case pb_close_string_substream s sub of (b, s) \<Rightarrow> Some (b \<and> status, s, h))))"

definition pb_decode_delimited_noinit :: "nat \<Rightarrow> 's dec_env \<Rightarrow> 's msg_decoder" where
  "pb_decode_delimited_noinit n env = decode_delimited_with (pb_decode_noinit n env)"

definition pb_decode_delimited :: "nat \<Rightarrow> 's dec_env \<Rightarrow> 's msg_decoder" where
  "pb_decode_delimited n env = decode_delimited_with (pb_decode n env)"

definition pb_decode_nullterminated :: "nat \<Rightarrow> 's dec_env \<Rightarrow> 's msg_decoder" where
  "pb_decode_nullterminated n env = pb_decode n env"

end
