(* ===== verification/Pb_Scalar_Thms.thy ===== *)
theory Pb_Scalar_Thms
  imports Pb_Scalars
begin

text \<open>
  The theorems about scalars, tags, skipping and substreams, on buffers: what the writers put
  into a buffer is read back, and the readers do what the wire format says on every input.
\<close>

lemma write_buffer:
  "length bs \<le> unat n \<Longrightarrow>
     \<exists>os. pb_write (pb_ostream_from_buffer n) bs (of_nat (length bs)) = (True, os) \<and> osink os = Buffer bs"
  using buf_sink.pb_write_room [of "pb_ostream_from_buffer n" "[]" bs]
  by (auto simp: pb_ostream_from_buffer_def in_buffer_def)

text \<open>The stream at the start of a buffer, and what it means to stand before its last bytes.\<close>

abbreviation reading :: "byte list \<Rightarrow> 's pb_istream" where
  "reading bs \<equiv> pb_istream_from_buffer bs (of_nat (length bs))"

definition left :: "'s pb_istream \<Rightarrow> byte list \<Rightarrow> bool" where
  "left ist bs \<longleftrightarrow> isource ist = Buffer_at bs \<and> bytes_left ist = of_nat (length bs)"

lemma stream_at_left: "stream_at from_buffer ist bs [] \<Longrightarrow> left ist bs"
  by (simp add: stream_at_def from_buffer_def left_def) (metis of_nat_unat ucast_id)

lemma left_errmsg [simp]: "left (set_ierror ist e) bs = left ist bs"
  by (simp add: left_def)

lemma reading_errmsg [simp]: "ierrmsg (pb_istream_from_buffer bs n) = None"
  by (simp add: pb_istream_from_buffer_def)

text \<open>What one side writes the other reads, and stops after it.\<close>

lemma roundtrip:
  assumes w: "w (pb_ostream_from_buffer n) = pb_write (pb_ostream_from_buffer n) bs (of_nat (length bs))"
    and len: "length bs \<le> unat n" "length bs + length rest < 2 ^ 64"
    and r: "\<And>ist. stream_at from_buffer ist (bs @ rest) [] \<Longrightarrow>
      \<exists>ist'. r ist = (x, ist') \<and> stream_at from_buffer ist' rest [] \<and> ierrmsg ist' = ierrmsg ist"
  shows "\<exists>os bs ist. w (pb_ostream_from_buffer n) = (True, os) \<and> osink os = Buffer bs
     \<and> r (reading (bs @ rest)) = (x, ist) \<and> left ist rest \<and> ierrmsg ist = None"
proof -
  obtain os where os: "w (pb_ostream_from_buffer n) = (True, os)" "osink os = Buffer bs"
    using write_buffer [OF len(1)] w by auto
  have "stream_at from_buffer (reading (bs @ rest)) (bs @ rest) []"
    using len(2) by (intro stream_at_buffer) simp
  then obtain ist where "r (reading (bs @ rest)) = (x, ist)" "stream_at from_buffer ist rest []" "ierrmsg ist = None"
    using r [of "reading (bs @ rest)"] by auto
  then show ?thesis using os stream_at_left by blast
qed

section \<open>Varints\<close>

text \<open>
  \<^verbatim>\<open>pb_encode_varint\<close> writes the number in base 128, least significant group first, with
  the continuation bit on every byte but the last; between one and ten bytes, so the local buffer of
  ten bytes is never exceeded.
\<close>

theorem pb_encode_varint_correct:
  "pb_encode_varint os v = pb_write os (varint_bytes (unat v)) (of_nat (length (varint_bytes (unat v))))
   \<and> length (varint_bytes (unat v)) \<in> {1..10} \<and> le7 (varint_bytes (unat v)) = unat v
   \<and> list_all more (butlast (varint_bytes (unat v))) \<and> \<not> more (last (varint_bytes (unat v)))
   \<and> length (varint_groups v) \<le> 10"
proof -
  obtain us b where u: "varint_bytes (unat v) = us @ [b]" "list_all more us" "\<not> more b"
    using varint_bytes_shape by blast
  have "length (varint_groups v) \<le> 10"
  proof (cases "v = 0")
    case False
    then show ?thesis using varint_groups_last [OF False] varint_bytes_length64 [of v]
      by (metis length_list_update)
  qed (simp add: varint_groups.simps [of 0])
  then show ?thesis using pb_encode_varint_ref [of os v] varint_bytes_length64 [of v] le7_varint_bytes [of "unat v"] u
    by simp
qed

text \<open>
  a number written by \<^verbatim>\<open>pb_encode_varint\<close> is read back by \<^verbatim>\<open>pb_decode_varint\<close>, which stops at
  the byte after it.
\<close>

theorem varint_roundtrip:
  assumes "length rest < 2 ^ 63"
  shows "\<exists>os bs ist. pb_encode_varint (pb_ostream_from_buffer 10) v = (True, os) \<and> osink os = Buffer bs
     \<and> pb_decode_varint (reading (bs @ rest)) = (Some v, ist) \<and> left ist rest \<and> ierrmsg ist = None"
  using varint_bytes_length64 [of v] assms
  by (intro roundtrip [where bs = "varint_bytes (unat v)"] buf_source.pb_decode_varint_at)
     (simp_all add: pb_encode_varint_ref)

theorem varint_roundtrip_witness:
  "\<exists>os bs ist. pb_encode_varint (pb_ostream_from_buffer 10) 300 = (True, os) \<and> osink os = Buffer bs
     \<and> pb_decode_varint (reading (bs @ [7])) = (Some 300, ist) \<and> left ist [7] \<and> ierrmsg ist = None"
  using varint_roundtrip [of "[7]" 300] by simp


text \<open>
  C22: what \<^verbatim>\<open>pb_decode_varint\<close> does on any buffer: it takes the bytes up to the first without the
  continuation bit and returns their value modulo the 64 bits of the result; ten bytes with the continuation
  bit are an overflow, and a buffer that ends before the last byte is the end of the stream.
\<close>

theorem pb_decode_varint_exact:
  assumes "length bs < 2 ^ 64"
  shows "let us = takeWhile more bs; (r, ist) = pb_decode_varint (reading bs :: 's pb_istream) in
     if 10 \<le> length us then r = None \<and> ierrmsg ist = Some ''varint overflow'' \<and> left ist (drop 10 bs)
     else if us = bs then r = None \<and> ierrmsg ist = Some ''end-of-stream'' \<and> left ist []
     else r = Some (of_nat (le7 (take (Suc (length us)) bs))) \<and> ierrmsg ist = None \<and> left ist (drop (Suc (length us)) bs)"
proof -
  let ?us = "takeWhile more bs"
  have at: "stream_at from_buffer (reading bs :: 's pb_istream) bs []" by (rule stream_at_buffer) (rule assms)
  have m: "list_all more ?us" using set_takeWhileD by (fastforce simp: list_all_iff)
  show ?thesis
  proof (cases "10 \<le> length ?us")
    case True
    have t: "take 10 bs = take 10 ?us" using True by (metis append_take_drop_id take_append takeWhile_eq_take take_take min.absorb1)
    then have "list_all more (take 10 bs)" "length (take 10 bs) = 10"
      using m True by (auto simp: list_all_iff dest: in_set_takeD)
    then obtain ist where "pb_decode_varint (reading bs :: 's pb_istream) = (None, set_ierror ist ''varint overflow'')"
        "stream_at from_buffer ist (drop 10 bs) []" "ierrmsg ist = None"
      using buf_source.pb_decode_varint_overflow [of "reading bs :: 's pb_istream" "take 10 bs" "drop 10 bs" "[]"] at by auto
    then show ?thesis using True stream_at_left by (simp add: Let_def set_ierror_None)
  next
    case False
    then have l: "length ?us \<le> 9" by simp
    show ?thesis
    proof (cases "?us = bs")
      case True
      then obtain ist where "pb_decode_varint (reading bs :: 's pb_istream) = (None, set_ierror ist ''end-of-stream'')"
          "stream_at from_buffer ist [] []" "ierrmsg ist = None"
        using buf_source.pb_decode_varint_truncated [of "reading bs :: 's pb_istream" bs "[]"] at m [unfolded True] l [unfolded True]
        by auto
      then show ?thesis using True l stream_at_left by (simp add: Let_def set_ierror_None)
    next
      case ne: False
      then obtain b vs where d: "dropWhile more bs = b # vs" by (cases "dropWhile more bs") (auto simp: takeWhile_eq_all_conv)
      then have nb: "\<not> more b" by (metis hd_dropWhile list.distinct(1) list.sel(1))
      have bs: "bs = ?us @ b # vs" using takeWhile_dropWhile_id [of more bs] d by simp
      then have "take (Suc (length ?us)) bs = ?us @ [b]" "drop (Suc (length ?us)) bs = vs"
        by (metis append_eq_conv_conj append.assoc append_Cons append_Nil length_append_singleton)+
      moreover obtain ist where "pb_decode_varint (reading bs :: 's pb_istream) = (Some (of_nat (le7 (?us @ [b]))), ist)"
          "stream_at from_buffer ist vs []" "ierrmsg ist = None"
        using buf_source.pb_decode_varint_value [of "reading bs :: 's pb_istream" ?us b vs "[]"] at m nb l bs by auto
      ultimately show ?thesis using ne l stream_at_left by (simp add: Let_def)
    qed
  qed
qed


theorem pb_decode_varint_exact_witness:
  "\<exists>ist. pb_decode_varint (reading [0x96, 0x01, 0x05] :: unit pb_istream) = (Some 150, ist)
     \<and> ierrmsg ist = None \<and> left ist [0x05]"
  using pb_decode_varint_exact [of "[0x96, 0x01, 0x05]", where 's = unit]
  by (auto simp: more_def Let_def split: prod.splits)

lemma msb_only: "bit w n \<Longrightarrow> 31 \<le> n \<Longrightarrow> bit w 31" for w :: uint32
proof -
  assume b: "bit w n" "31 \<le> n"
  then have "n = 31" using bit_imp_le_length [of w n] by simp
  then show ?thesis using b by simp
qed

text \<open>
  A 32-bit number is read back by \<^verbatim>\<open>pb_decode_varint32\<close>, both when it was written unsigned and
  when it was written sign extended to 64 bits, as enum values and lengths are.
\<close>

theorem varint32_roundtrip:
  assumes "length rest < 2 ^ 63" "v = ucast w \<or> v = scast (w :: uint32)"
  shows "\<exists>os bs ist. pb_encode_varint (pb_ostream_from_buffer 10) v = (True, os) \<and> osink os = Buffer bs
     \<and> pb_decode_varint32 (reading (bs @ rest)) = (Some w, ist) \<and> left ist rest \<and> ierrmsg ist = None"
proof (rule roundtrip [where bs = "varint_bytes (unat v)"])
  fix ist :: "'b pb_istream"
  assume at: "stream_at from_buffer ist (varint_bytes (unat v) @ rest) []"
  show "\<exists>ist'. pb_decode_varint32 ist = (Some w, ist') \<and> stream_at from_buffer ist' rest [] \<and> ierrmsg ist' = ierrmsg ist"
  proof (cases "v = ucast w")
    case True
    then show ?thesis using buf_source.pb_decode_varint32_len [of ist "unat w" rest "[]"] at unat_less32 [of w] by simp
  next
    case False
    then have v: "v = scast w" using assms(2) by simp
    have neg: "bit w 31"
    proof (rule ccontr)
      assume "\<not> bit w 31"
      then have "scast w = (ucast w :: uint64)"
        by (intro bit_word_eqI) (auto simp: bit_simps min_def dest: msb_only)
      then show False using False v by simp
    qed
    have "bit (drop_bit 31 w) 0" using neg by (simp add: bit_drop_bit_eq)
    then have d: "drop_bit 31 w \<noteq> 0" by (metis bit_0_eq bot_apply bot_bool_def)
    have "stream_at from_buffer ist (varint_bytes (2 ^ 64 - 2 ^ 32 + unat w) @ rest) []"
      using at v unat_scast_negative [OF neg] by simp
    from buf_source.pb_decode_varint32_negative [OF this d] show ?thesis by (auto simp: pb_decode_varint32_def)
  qed
qed (use varint_bytes_length64 [of v] assms(1) in \<open>simp_all add: pb_encode_varint_ref\<close>)


theorem varint32_roundtrip_witness:
  "\<exists>os bs ist. pb_encode_varint (pb_ostream_from_buffer 10 :: unit pb_ostream) (- 1) = (True, os) \<and> osink os = Buffer bs
     \<and> pb_decode_varint32 (reading (bs @ [8]) :: unit pb_istream) = (Some (- 1), ist) \<and> left ist [8] \<and> ierrmsg ist = None"
  using varint32_roundtrip [of "[8]" "- 1" "- 1"] by simp

section \<open>Zigzag and fixed width numbers\<close>

text \<open>
  \<^verbatim>\<open>pb_encode_svarint\<close> writes the zigzag form of a signed number (a number of small magnitude is
  small), and \<^verbatim>\<open>pb_decode_svarint\<close> reads it back.
\<close>

theorem svarint_roundtrip:
  assumes "length rest < 2 ^ 63"
  shows "\<exists>os bs ist. pb_encode_svarint (pb_ostream_from_buffer 10 :: 't pb_ostream) v = (True, os) \<and> osink os = Buffer bs
     \<and> bs = varint_bytes (zigzag (sint v))
     \<and> pb_decode_svarint (reading (bs @ rest) :: 's pb_istream) = (Some v, ist) \<and> left ist rest \<and> ierrmsg ist = None"
proof -
  let ?bs = "varint_bytes (zigzag (sint v))"
  have l: "length ?bs \<le> 10" using varint_bytes_length64 [of "zigzag_word v"] by (simp add: unat_zigzag_word)
  obtain os where os: "pb_encode_svarint (pb_ostream_from_buffer 10 :: 't pb_ostream) v = (True, os)" "osink os = Buffer ?bs"
    using write_buffer [of ?bs 10] l by (auto simp: pb_encode_svarint_ref)
  have "stream_at from_buffer (reading (?bs @ rest) :: 's pb_istream) (?bs @ rest) []"
    using l assms by (intro stream_at_buffer) simp
  from buf_source.pb_decode_svarint_at [OF this] show ?thesis using os stream_at_left by auto
qed

theorem svarint_roundtrip_witness:
  "\<exists>os bs ist. pb_encode_svarint (pb_ostream_from_buffer 10 :: unit pb_ostream) (- 2) = (True, os) \<and> osink os = Buffer bs
     \<and> bs = varint_bytes (zigzag (sint (- 2 :: uint64)))
     \<and> pb_decode_svarint (reading (bs @ []) :: unit pb_istream) = (Some (- 2), ist) \<and> left ist [] \<and> ierrmsg ist = None"
  by (rule svarint_roundtrip) simp

text \<open>
  \<^verbatim>\<open>pb_encode_fixed32\<close> and \<^verbatim>\<open>pb_encode_fixed64\<close> write the bytes of the number in memory, least significant
  first, and \<^verbatim>\<open>pb_decode_fixed32\<close> and \<^verbatim>\<open>pb_decode_fixed64\<close> read the number back.
\<close>

theorem fixed_roundtrip:
  assumes "length rest < 2 ^ 63"
  shows "(\<exists>os bs ist. pb_encode_fixed32 m p (pb_ostream_from_buffer 4) = (True, os) \<and> osink os = Buffer bs
     \<and> pb_decode_fixed32 (reading (bs @ rest)) = (Some (load32 m p), ist) \<and> left ist rest \<and> ierrmsg ist = None)
   \<and> (\<exists>os bs ist. pb_encode_fixed64 m p (pb_ostream_from_buffer 8) = (True, os) \<and> osink os = Buffer bs
     \<and> pb_decode_fixed64 (reading (bs @ rest)) = (Some (load64 m p), ist) \<and> left ist rest \<and> ierrmsg ist = None)"
  using assms
  by (intro conjI roundtrip [where bs = "mem_read m p 4"] roundtrip [where bs = "mem_read m p 8"]
      buf_source.pb_decode_fixed32_at buf_source.pb_decode_fixed64_at)
     (simp_all add: pb_encode_fixed32_ref pb_encode_fixed64_ref)

theorem fixed_roundtrip_witness:
  "\<exists>os bs ist. pb_encode_fixed32 (\<lambda>a. 1) 0 (pb_ostream_from_buffer 4 :: unit pb_ostream) = (True, os) \<and> osink os = Buffer bs
     \<and> pb_decode_fixed32 (reading (bs @ [3]) :: unit pb_istream) = (Some 0x01010101, ist) \<and> left ist [3] \<and> ierrmsg ist = None"
proof -
  have "load32 (\<lambda>a. 1) 0 = 0x01010101" by code_simp
  then show ?thesis using fixed_roundtrip [of "[3]" "\<lambda>a. 1" 0, THEN conjunct1] by simp
qed

section \<open>Tags, skipping and substreams\<close>

text \<open>
  A field number below 2 to the 29 and a wire type, written by \<^verbatim>\<open>pb_encode_tag\<close>, are read back by
  \<^verbatim>\<open>pb_decode_tag\<close>, which does not report the end of the message.
\<close>

theorem tag_roundtrip:
  assumes "unat wt < 8" "num \<noteq> 0" "unat num < 2 ^ 29" "length rest < 2 ^ 63"
  shows "\<exists>os bs ist. pb_encode_tag (pb_ostream_from_buffer 10 :: 't pb_ostream) wt num = (True, os) \<and> osink os = Buffer bs
     \<and> pb_decode_tag (reading (bs @ rest) :: 's pb_istream) = (Some (wt, num), False, ist) \<and> left ist rest \<and> ierrmsg ist = None"
proof -
  let ?bs = "tag_bytes wt num"
  have "unat num * 8 + unat wt < 128 ^ 5" using assms(1,3) by simp
  then have l: "length ?bs \<le> 5" using varint_bytes_length [of _ 5] by (simp add: tag_bytes_def)
  obtain os where os: "pb_encode_tag (pb_ostream_from_buffer 10 :: 't pb_ostream) wt num = (True, os)" "osink os = Buffer ?bs"
    using write_buffer [of ?bs 10] l by (auto simp: pb_encode_tag_ref [OF assms(1)])
  have "stream_at from_buffer (reading (?bs @ rest) :: 's pb_istream) (?bs @ rest) []"
    using l assms(4) by (intro stream_at_buffer) simp
  from buf_source.pb_decode_tag_at [OF this assms(1,3,2)] show ?thesis using os stream_at_left by auto
qed

theorem tag_roundtrip_witness:
  "\<exists>os bs ist. pb_encode_tag (pb_ostream_from_buffer 10 :: unit pb_ostream) PB_WT_STRING 100 = (True, os) \<and> osink os = Buffer bs
     \<and> pb_decode_tag (reading (bs @ []) :: unit pb_istream) = (Some (PB_WT_STRING, 100), False, ist) \<and> left ist [] \<and> ierrmsg ist = None"
  by (rule tag_roundtrip) simp_all

definition wire_value :: "pb_wire_type_t \<Rightarrow> byte list \<Rightarrow> bool" where
  "wire_value wt bs \<longleftrightarrow>
     (if wt = PB_WT_VARINT then bs \<noteq> [] \<and> list_all more (butlast bs) \<and> \<not> more (last bs)
      else if wt = PB_WT_64BIT then length bs = 8
      else if wt = PB_WT_STRING then (\<exists>us. bs = delimited us \<and> length us < 2 ^ 32)
      else if wt = PB_WT_32BIT then length bs = 4 else False)"

text \<open>
  C23: \<^verbatim>\<open>pb_skip_field\<close> skips exactly one value of the wire type: a varint of any length, eight bytes, a length
  and that many bytes, or four bytes.
\<close>

theorem pb_skip_field_correct:
  assumes "wire_value wt bs" "length (bs @ rest) < 2 ^ 64"
  shows "\<exists>ist. pb_skip_field (reading (bs @ rest) :: 's pb_istream) wt = (True, ist) \<and> left ist rest \<and> ierrmsg ist = None"
proof -
  have at: "stream_at from_buffer (reading (bs @ rest) :: 's pb_istream) (bs @ rest) []"
    by (rule stream_at_buffer) (rule assms(2))
  consider "wt = PB_WT_VARINT" | "wt = PB_WT_64BIT" | "wt = PB_WT_STRING" | "wt = PB_WT_32BIT"
    using assms(1) by (auto simp: wire_value_def split: if_splits)
  then show ?thesis
  proof cases
    case 1
    then have bs: "bs = butlast bs @ [last bs]" "list_all more (butlast bs)" "\<not> more (last bs)"
      using assms(1) by (simp_all add: wire_value_def)
    then have "stream_at from_buffer (reading (bs @ rest) :: 's pb_istream) (butlast bs @ last bs # rest) []"
      using at by (metis append.assoc append_Cons append_Nil)
    from buf_source.pb_skip_varint_at [OF this bs(2,3)] show ?thesis
      using 1 stream_at_left by (auto simp: pb_skip_field_def)
  next
    case 2
    then show ?thesis using buf_source.pb_read_null_at [OF at, of 8] assms(1) stream_at_left
      by (auto simp: wire_value_def pb_skip_field_def)
  next
    case 3
    then obtain us where "bs = delimited us" "length us < 2 ^ 32" using assms(1) by (auto simp: wire_value_def)
    then show ?thesis using buf_source.pb_skip_string_at [of "reading (bs @ rest) :: 's pb_istream" us rest "[]"] at 3 stream_at_left
      by (auto simp: pb_skip_field_def)
  next
    case 4
    then show ?thesis using buf_source.pb_read_null_at [OF at, of 4] assms(1) stream_at_left
      by (auto simp: wire_value_def pb_skip_field_def)
  qed
qed

theorem pb_skip_field_correct_witness:
  "\<exists>ist. pb_skip_field (reading ([0x80, 0x80, 0x01] @ [9]) :: unit pb_istream) PB_WT_VARINT = (True, ist)
     \<and> left ist [9] \<and> ierrmsg ist = None"
  by (rule pb_skip_field_correct) (simp_all add: wire_value_def more_def)

text \<open>
  a substream opened by \<^verbatim>\<open>pb_make_string_substream\<close> gives the bytes of the delimited value and no others,
  and closing it, whatever part of it has been read, leaves the parent stream at the byte after the value.
\<close>

theorem substream_correct:
  assumes "length us < 2 ^ 32" "length (delimited us @ vs) < 2 ^ 64"
  shows "\<exists>sub ist. pb_make_string_substream (reading (delimited us @ vs) :: 's pb_istream) = (Some sub, ist)
     \<and> (\<forall>n. unat n \<le> length us \<longrightarrow>
          (\<exists>sub' ist'. pb_read sub n = (True, take (unat n) us, sub')
             \<and> pb_close_string_substream ist sub' = (True, ist') \<and> left ist' vs))
     \<and> (\<forall>n. length us < unat n \<longrightarrow> pb_read sub n = (False, [], set_ierror sub ''end-of-stream''))"
proof -
  have "stream_at from_buffer (reading (delimited us @ vs) :: 's pb_istream) (delimited us @ vs) []"
    by (rule stream_at_buffer) (rule assms(2))
  then obtain sub ist where s: "pb_make_string_substream (reading (delimited us @ vs) :: 's pb_istream) = (Some sub, ist)"
      "stream_at from_buffer sub us vs" "unat (bytes_left ist) = length vs"
    using buf_source.pb_make_string_substream_at [OF _ assms(1)] by fastforce
  have "\<exists>sub' ist'. pb_read sub n = (True, take (unat n) us, sub')
      \<and> pb_close_string_substream ist sub' = (True, ist') \<and> left ist' vs" if n: "unat n \<le> length us" for n
  proof -
    have "stream_at from_buffer sub (take (unat n) us @ drop (unat n) us) vs" using s(2) by simp
    then obtain sub' where r: "pb_read sub n = (True, take (unat n) us, sub')"
        "stream_at from_buffer sub' (drop (unat n) us) vs"
      using buf_source.pb_read_at [of sub "take (unat n) us" "drop (unat n) us" vs n] n by auto
    then obtain ist' where "pb_close_string_substream ist sub' = (True, ist')" "stream_at from_buffer ist' vs []"
      using buf_source.pb_close_string_substream_at [of sub' "drop (unat n) us" vs "[]" ist] s(3) by auto
    then show ?thesis using r stream_at_left by blast
  qed
  then show ?thesis using s buf_source.pb_read_short [OF s(2)] by blast
qed

theorem substream_correct_witness:
  "\<exists>sub ist sub' ist'. pb_make_string_substream (reading (delimited [1, 2, 3] @ [4]) :: unit pb_istream) = (Some sub, ist)
     \<and> pb_read sub 1 = (True, [1], sub') \<and> pb_close_string_substream ist sub' = (True, ist') \<and> left ist' [4]"
  using substream_correct [of "[1, 2, 3]" "[4]", where 's = unit]
  by (force simp: delimited_def varint_bytes.simps dest: spec [of _ 1])


section \<open>Over-long varints\<close>

text \<open>Behind the 32nd bit a byte \<^verbatim>\<open>0x80\<close> only moves the position on, as long as it does not wrap round.\<close>

lemma varint32_loop_padding:
  assumes "stream_at from_buffer ist (replicate n 0x80 @ bs) rest" "\<forall>j < n. 32 \<le> bitpos + 7 * of_nat j"
  shows "\<exists>ist'. varint32_loop ist bitpos r = varint32_loop ist' (bitpos + 7 * of_nat n) r \<and> stream_at from_buffer ist' bs rest \<and>
    ierrmsg ist' = ierrmsg ist"
  using assms
proof (induction n arbitrary: ist bitpos)
  case (Suc n)
  obtain ist1 where r: "pb_readbyte ist = (Some 0x80, ist1)" "stream_at from_buffer ist1 (replicate n 0x80 @ bs) rest" "ierrmsg ist1 = ierrmsg ist"
    using buf_source.pb_readbyte_at [of ist "0x80" "replicate n 0x80 @ bs" rest] Suc.prems(1) by auto
  have "32 \<le> bitpos" using Suc.prems(2) [rule_format, of 0] by simp
  then have step: "varint32_loop ist bitpos r = varint32_loop ist1 (bitpos + 7) r" using r(1) by (simp add: varint32_loop.simps [of ist] Let_def)
  have n: "\<forall>j < n. 32 \<le> bitpos + 7 + 7 * of_nat j" using Suc.prems(2) [rule_format, of "Suc _"] by (simp add: algebra_simps)
  have e: "bitpos + 7 + 7 * of_nat n = bitpos + 7 * of_nat (Suc n)" by (simp add: algebra_simps)
  show ?case using Suc.IH [OF r(2) n] r(3) unfolding step e by auto
qed auto

text \<open>
  C24: \<^verbatim>\<open>pb_decode_varint32_eof\<close> accepts over-long varints that \<^verbatim>\<open>pb_decode_varint\<close> rejects, and returns
  wrong numbers for them: it does not bound the number of bytes, and its eight-bit \<^verbatim>\<open>bitpos\<close> wraps round after
  37 of them. Behind any five bytes with the continuation bit and any payload, and 32 bytes \<^verbatim>\<open>0x80\<close>, the payload of
  any last byte is combined with the number again, from its fourth bit on.
\<close>

theorem varint32_overlong_wraps:
  assumes "length us = 5" "list_all more us" "\<not> more x" "length rest < 2 ^ 63"
  shows "\<exists>ist ist'. pb_decode_varint32 (reading (us @ replicate 32 0x80 @ x # rest) :: 's pb_istream) =
      (Some (of_nat (le7 us) OR push_bit 3 (ucast x)), ist) \<and> left ist rest \<and> ierrmsg ist = None \<and>
    pb_decode_varint (reading (us @ replicate 32 0x80 @ x # rest) :: 's pb_istream) = (None, ist') \<and> ierrmsg ist' = Some ''varint overflow''"
proof -
  let ?bs = "replicate 32 0x80 @ x # rest" and ?ist = "reading (us @ replicate 32 0x80 @ x # rest) :: 's pb_istream"
  obtain u vs where us: "us = u # vs" "length vs = 4" "more u" "list_all more vs" using assms(1,2) by (cases us) auto
  have at: "stream_at from_buffer ?ist (us @ ?bs) []" by (rule stream_at_buffer) (use assms(1,4) in simp)
  then obtain ist1 where 1: "pb_readbyte ?ist = (Some u, ist1)" "stream_at from_buffer ist1 (vs @ ?bs) []" "ierrmsg ist1 = ierrmsg ?ist"
    using buf_source.pb_readbyte_at [of ?ist u "vs @ ?bs" "[]"] us(1) by auto
  have l: "1 + length vs \<le> 5" "unat u mod 128 < 2 ^ (7 * 1)" using us(2) by simp_all
  obtain ist2 where 2: "varint32_loop ist1 (of_nat (7 * 1)) (of_nat (unat u mod 128)) = varint32_loop ist2 35 (of_nat (le7 us))"
    "stream_at from_buffer ist2 ?bs []" "ierrmsg ist2 = ierrmsg ist1"
    using buf_source.varint32_loop_groups [OF 1(2) us(4) l] us(1,2) by auto
  have wrap: "(259 :: uint8) = 3" by simp
  have "\<forall>j < 32. (32 :: uint8) \<le> 35 + 7 * of_nat j" by code_simp
  from varint32_loop_padding [OF 2(2) this] obtain ist3 where
    3: "varint32_loop ist2 35 (of_nat (le7 us)) = varint32_loop ist3 3 (of_nat (le7 us))" "stream_at from_buffer ist3 (x # rest) []" "ierrmsg ist3 = ierrmsg ist2"
    by (auto simp: wrap)
  obtain ist4 where 4: "pb_readbyte ist3 = (Some x, ist4)" "stream_at from_buffer ist4 rest []" "ierrmsg ist4 = ierrmsg ist3"
    using buf_source.pb_readbyte_at [OF 3(2)] by blast
  have "unat x < 128" using assms(3) by (simp add: more_iff)
  then have "of_nat (unat x mod 128) = (ucast x :: uint32)" by simp
  then have "varint32_loop ist3 3 (of_nat (le7 us)) = (Some (of_nat (le7 us) OR push_bit 3 (ucast x), 10, x), ist4)"
    using varint32_loop_step [of 3 ist3 x ist4] 4(1) assms(3) by (simp add: Let_def)
  then have "pb_decode_varint32_eof ?ist = (Some (of_nat (le7 us) OR push_bit 3 (ucast x)), False, ist4)"
    by (intro varint32_eof_more [OF 1(1) us(3)]) (simp_all only: 2(1) 3(1), simp_all)
  moreover have m: "list_all more (us @ replicate 5 0x80)" using assms(2) by (simp add: list_all_iff more_def)
  have s: "us @ ?bs = (us @ replicate 5 0x80) @ replicate 27 0x80 @ x # rest" by (simp add: numeral_eq_Suc)
  obtain ist' where "pb_decode_varint ?ist = (None, set_ierror ist' ''varint overflow'')" "ierrmsg ist' = ierrmsg ?ist"
    using buf_source.pb_decode_varint_overflow [OF at [unfolded s] m] assms(1) unfolding s by auto
  ultimately show ?thesis using 1(3) 2(3) 3(3) 4(2,3) stream_at_left by (auto simp: pb_decode_varint32_def set_ierror_None)
qed

theorem varint32_overlong_wraps_witness:
  "\<exists>ist ist'. pb_decode_varint32 (reading ([0x81, 0x80, 0x80, 0x80, 0x80] @ replicate 32 0x80 @ 0x01 # [7]) :: unit pb_istream) = (Some 9, ist) \<and>
    left ist [7] \<and> pb_decode_varint (reading ([0x81, 0x80, 0x80, 0x80, 0x80] @ replicate 32 0x80 @ 0x01 # [7]) :: unit pb_istream) = (None, ist')"
proof -
  have "list_all more [0x81, 0x80, 0x80, 0x80, 0x80]" "\<not> more 0x01" by (simp_all add: more_def)
  moreover have "of_nat (le7 [0x81, 0x80, 0x80, 0x80, 0x80]) OR push_bit 3 (ucast (0x01 :: byte)) = (9 :: uint32)" by code_simp
  ultimately show ?thesis using varint32_overlong_wraps [of "[0x81, 0x80, 0x80, 0x80, 0x80]" "0x01" "[7]", where 's = unit] by auto
qed

end
