(* ===== verification/Pb_Decode_Thms.thy ===== *)
theory Pb_Decode_Thms
  imports Pb_Decode_Msg Pb_Scalar_Thms Pb_Encode_Spec
begin

text \<open>
  The theorems about the parts of the decoder: allocation, the scalar field decoders as
  inverses of the encoders, the memory they touch, and the bookkeeping of required fields.
\<close>

section \<open>Allocation\<close>

lemma dmem_set [simp]: "dmem (set_dmem d m) = m"
  by (simp add: set_dmem_def)

lemma strm_set [simp]: "strm (set_dmem d m) = strm d"
  by (simp add: set_dmem_def)

lemma blocks_set [simp]: "hblocks (heap (set_dmem d m)) = hblocks (heap d)"
  by (simp add: set_dmem_def)

lemma strm_derror [simp]: "strm (snd (derror d e)) = set_ierror (strm d) e"
  by (simp add: derror_def)

lemma heap_derror [simp]: "heap (snd (derror d e)) = heap d"
  by (simp add: derror_def)

lemma fst_derror [simp]: "fst (derror d e) = False"
  by (simp add: derror_def)

lemma product_fits:
  fixes dsize asize :: size_t
  assumes "\<not> ((dsize \<ge> push_bit 32 1 \<or> asize \<ge> push_bit 32 1) \<and> (- 1) div asize < dsize)" "asize \<noteq> 0"
  shows "unat asize * unat dsize < 2 ^ 64"
proof (cases "dsize \<ge> push_bit 32 1 \<or> asize \<ge> push_bit 32 1")
  case True
  then have "\<not> (- 1) div asize < dsize" using assms(1) by simp
  then have "unat dsize \<le> (2 ^ 64 - 1) div unat asize"
    by (simp add: word_less_nat_alt unat_div unsigned_minus_1_eq_mask mask_eq_exp_minus_1 not_less)
  then have "unat dsize * unat asize \<le> 2 ^ 64 - 1"
    using assms(2) by (simp add: less_eq_div_iff_mult_less_eq unat_gt_0)
  then show ?thesis by (simp add: mult.commute)
next
  case False
  then have "unat dsize < 2 ^ 32" "unat asize < 2 ^ 32" by (simp_all add: word_le_nat_alt not_le)
  then have "unat asize * unat dsize < 2 ^ 32 * 2 ^ 32" by (intro mult_strict_mono) simp_all
  then show ?thesis by simp
qed

text \<open>
  C25: when \<^verbatim>\<open>allocate_field\<close> succeeds, the size it asked \<^verbatim>\<open>realloc\<close> for is the true product of the two
  sizes, with no wrap-around, it is not zero, and the pointer stored in the field is the block of that size.
\<close>

theorem allocate_field_sound:
  assumes "allocate_field env pd dsize asize d = (True, d')"
  shows "unat asize * unat dsize < 2 ^ 64 \<and> 0 < unat asize * unat dsize
     \<and> load64 (dmem d') pd \<noteq> 0
     \<and> hblocks (heap d') (load64 (dmem d') pd) = Some (asize * dsize)
     \<and> unat (asize * dsize) = unat asize * unat dsize \<and> strm d' = strm d"
proof -
  let ?q = "pick env (heap d) (load64 (dmem d) pd) (asize * dsize)"
  have c: "dsize \<noteq> 0" "asize \<noteq> 0" "?q \<noteq> 0"
    "\<not> ((dsize \<ge> push_bit 32 1 \<or> asize \<ge> push_bit 32 1) \<and> (- 1) div asize < dsize)"
    using assms by (auto simp: allocate_field_def pb_realloc_def derror_def Let_def split: if_splits)
  have fits: "unat asize * unat dsize < 2 ^ 64" by (rule product_fits [OF c(4,2)])
  have d': "load64 (dmem d') pd = ?q" "hblocks (heap d') ?q = Some (asize * dsize)" "strm d' = strm d"
    using assms c by (auto simp: allocate_field_def pb_realloc_def derror_def Let_def split: if_splits)
  have "unat (asize * dsize) = unat asize * unat dsize" using fits by (simp add: unat_word_ariths)
  moreover have "0 < unat asize * unat dsize" using c by (simp add: unat_gt_0)
  ultimately show ?thesis using fits d' c(3) by simp
qed

text \<open>An allocator that always answers with the same address, and a state with no blocks.\<close>

definition fixed_alloc :: "unit dec_env" where
  "fixed_alloc = \<lparr>pick = (\<lambda>_ _ _. 0x5000), dec_callback = (\<lambda>_ _ _ s h. (False, s, h)),
     ext_decode = (\<lambda>_. None), ext_dec_arg = (\<lambda>_. PB_LAST_FIELD)\<rparr>"

definition blank :: "byte list \<Rightarrow> unit dstate" where
  "blank bs = \<lparr>strm = reading bs, heap = \<lparr>hmem = (\<lambda>_. 0), hblocks = (\<lambda>_. None)\<rparr>, fixed_count_size = 0\<rparr>"

theorem allocate_field_sound_witness:
  "\<exists>d'. allocate_field fixed_alloc 0x4000 24 3 (blank []) = (True, d')
     \<and> hblocks (heap d') (load64 (dmem d') 0x4000) = Some 72"
proof -
  have "fst (allocate_field fixed_alloc 0x4000 24 3 (blank []))" by code_simp
  then obtain d' where d': "allocate_field fixed_alloc 0x4000 24 3 (blank []) = (True, d')"
    by (metis prod.collapse)
  then show ?thesis using allocate_field_sound [OF d'] by simp
qed

section \<open>Required fields\<close>

text \<open>
  The two words of \<^verbatim>\<open>fields_seen\<close> as a set of indices, and what marking and the final test do to it.
\<close>

definition seen_at :: "uint32 list \<Rightarrow> nat \<Rightarrow> bool" where
  "seen_at ws i \<longleftrightarrow> i < 64 \<and> bit (ws ! (i div 32)) (i mod 32)"

lemma index_word:
  fixes i :: uint32
  shows "unat (drop_bit 5 i) = unat i div 32" "unat (i AND 31) = unat i mod 32"
proof -
  show "unat (drop_bit 5 i) = unat i div 32" by (simp add: drop_bit_eq_div unat_div)
  have "i AND 31 = take_bit 5 i" by (simp add: take_bit_eq_mask mask_eq_exp_minus_1)
  then show "unat (i AND 31) = unat i mod 32" by (simp add: take_bit_eq_mod unat_mod)
qed

lemma word_bit_eq_iff: "v = w \<longleftrightarrow> (\<forall>j<32. bit v j = bit w j)" for v w :: uint32
  by (auto intro!: bit_word_eqI)

lemma seen_at_mark:
  fixes i :: uint32
  assumes "i < 64" "length ws = 2"
  shows "seen_at (ws[unat (drop_bit 5 i) := ws ! unat (drop_bit 5 i) OR push_bit (unat (i AND 31)) 1]) j \<longleftrightarrow>
    seen_at ws j \<or> j = unat i"
proof -
  have e: "j = unat i \<longleftrightarrow> j div 32 = unat i div 32 \<and> j mod 32 = unat i mod 32"
    by (metis div_mod_decomp)
  have "unat i < 64" using assms(1) by (simp add: word_less_nat_alt)
  then have "unat i div 32 < 2" by simp
  moreover have "j mod 32 < 32" by simp
  ultimately show ?thesis
    using index_word [of i] assms(2) e \<open>unat i < 64\<close>
    by (auto simp: seen_at_def bit_simps nth_list_update)
qed

lemma all_below_words:
  "(\<forall>j<c. P j) \<longleftrightarrow> (\<forall>i<c div 32. \<forall>j<32. P (32 * i + j)) \<and> (\<forall>j<c mod 32. P (32 * (c div 32) + j))"
  (is "?L \<longleftrightarrow> ?R") for c :: nat
proof
  assume L: ?L
  have "32 * i + j < c" if "i < c div 32" "j < 32" for i j using that mult_div_mod_eq [of 32 c] by linarith
  moreover have "32 * (c div 32) + j < c" if "j < c mod 32" for j using that mult_div_mod_eq [of 32 c] by linarith
  ultimately show ?R using L by blast
next
  assume R: ?R
  show ?L
  proof (intro allI impI)
    fix j assume j: "j < c"
    show "P j"
    proof (cases "j div 32 < c div 32")
      case True
      then show ?thesis using R by (metis mod_less_divisor mult_div_mod_eq zero_less_numeral)
    next
      case False
      then have "j div 32 = c div 32" using j by (meson div_le_mono le_less_linear less_imp_le order_antisym)
      then have "j mod 32 < c mod 32" "j = 32 * (c div 32) + j mod 32"
        using j mult_div_mod_eq [of 32 j] mult_div_mod_eq [of 32 c] by linarith+
      then show ?thesis using R by metis
    qed
  qed
qed

lemma all_required_seen_iff:
  assumes c: "count \<le> 64" and l: "length ws = 2" and below: "\<And>j. seen_at ws j \<Longrightarrow> j < unat count"
  shows "all_required_seen count ws \<longleftrightarrow> (\<forall>j<unat count. seen_at ws j)"
proof -
  let ?c = "unat count" and ?all = "NOT 0 :: uint32"
  have c64: "?c \<le> 64" using c by (simp add: word_le_nat_alt)
  note d = index_word(1) [of count] and md = index_word(2) [of count]
  have whole: "ws ! i = ?all \<longleftrightarrow> (\<forall>j<32. seen_at ws (32 * i + j))" if "i < ?c div 32" for i
  proof -
    have "32 * i + j < 64" if "j < 32" for j using \<open>i < ?c div 32\<close> c64 that by linarith
    then show ?thesis by (auto simp: seen_at_def word_bit_eq_iff bit_simps)
  qed
  have part: "ws ! (?c div 32) = drop_bit (unat (32 - (count AND 31))) ?all \<longleftrightarrow>
      (\<forall>j<?c mod 32. seen_at ws (32 * (?c div 32) + j))" if nz: "?c mod 32 \<noteq> 0"
  proof -
    have q: "?c div 32 < 2" using c64 nz by (cases "?c = 64") auto
    have "unat (32 - (count AND 31)) = 32 - ?c mod 32"
      using md by (subst unat_sub) (simp_all add: word_le_nat_alt less_imp_le)
    then have b: "bit (drop_bit (unat (32 - (count AND 31))) ?all) j \<longleftrightarrow> j < ?c mod 32" for j
      using mod_less_divisor [of 32 ?c] by (auto simp: bit_simps)
    have "seen_at ws (32 * (?c div 32) + j) \<longleftrightarrow> bit (ws ! (?c div 32)) j" if "j < 32" for j
      using q that by (auto simp: seen_at_def)
    moreover have "\<not> seen_at ws (32 * (?c div 32) + j)" if "?c mod 32 \<le> j" for j
      using below [of "32 * (?c div 32) + j"] that by (metis add_le_cancel_left mult_div_mod_eq not_le)
    ultimately show ?thesis using b by (auto simp: word_bit_eq_iff) (meson less_trans mod_less_divisor not_le zero_less_numeral)+
  qed
  note all_below_words [of ?c "seen_at ws"]
  moreover have "count AND 31 \<noteq> 0 \<longleftrightarrow> ?c mod 32 \<noteq> 0" using md by (metis unat_eq_zero)
  moreover have "count = 0 \<longleftrightarrow> ?c = 0" by (simp add: unat_eq_zero)
  ultimately show ?thesis
    unfolding all_required_seen_def using whole part d by (auto simp: list_all_iff)
qed

definition mark_all :: "dlocals \<Rightarrow> pb_field_iter list \<Rightarrow> dlocals" where
  "mark_all = foldl (\<lambda>l it. mark_seen (l\<lparr>diter := it\<rparr>))"

definition required_at :: "uint32 \<Rightarrow> pb_field_iter \<Rightarrow> bool" where
  "required_at count it \<longleftrightarrow> htype (cur it) = PB_HTYPE_REQUIRED \<and> required_field_index it < count"

lemma mark_all_seen:
  assumes "count \<le> 64" "list_all (required_at count) its" "length (fields_seen l) = 2"
  shows "length (fields_seen (mark_all l its)) = 2 \<and>
    (\<forall>j. seen_at (fields_seen (mark_all l its)) j \<longleftrightarrow>
       seen_at (fields_seen l) j \<or> j \<in> (unat \<circ> required_field_index) ` set its)"
  using assms(2,3)
proof (induction its arbitrary: l)
  case Nil
  then show ?case by (simp add: mark_all_def)
next
  case (Cons it its)
  let ?i = "required_field_index it" and ?l = "mark_seen (l\<lparr>diter := it\<rparr>)"
  have r: "htype (cur it) = PB_HTYPE_REQUIRED" "?i < 64" using Cons.prems(1) assms(1) by (auto simp: required_at_def)
  then have "fields_seen ?l = (fields_seen l)[unat (drop_bit 5 ?i) := fields_seen l ! unat (drop_bit 5 ?i) OR
      push_bit (unat (?i AND 31)) 1]" by (simp add: mark_seen_def Let_def)
  then have "length (fields_seen ?l) = 2" "seen_at (fields_seen ?l) j \<longleftrightarrow> seen_at (fields_seen l) j \<or> j = unat ?i" for j
    using seen_at_mark [OF r(2) Cons.prems(2)] Cons.prems(2) by simp_all
  then show ?case using Cons.IH [of ?l] Cons.prems(1) by (auto simp: mark_all_def)
qed

text \<open>
  the bookkeeping of required fields is exact: after the fields of any sequence have been marked in the two words of
  \<^verbatim>\<open>fields_seen\<close>, in any order and with repetitions, the final test passes if and only if every index below the number of
  required fields (at most 64) was among them.
\<close>

theorem required_fields_exact:
  assumes "count \<le> PB_MAX_REQUIRED_FIELDS" "list_all (required_at count) its"
  shows "all_required_seen count (fields_seen (mark_all (init_locals fs dest) its)) \<longleftrightarrow>
    (unat \<circ> required_field_index) ` set its = {..<unat count}"
proof -
  let ?ws = "fields_seen (mark_all (init_locals fs dest) its)" and ?S = "(unat \<circ> required_field_index) ` set its"
  have i: "fields_seen (init_locals fs dest) = [0, 0]" by (simp add: init_locals_def)
  have z: "\<not> seen_at [0, 0] j" for j by (cases "j div 32" rule: nat.exhaust) (auto simp: seen_at_def nth_Cons split: nat.splits)
  have m: "length ?ws = 2" "seen_at ?ws j \<longleftrightarrow> j \<in> ?S" for j
    using mark_all_seen [OF assms, of "init_locals fs dest"] i z by auto
  have b: "j < unat count" if "j \<in> ?S" for j
    using that assms(2) by (auto simp: list_all_iff required_at_def word_less_nat_alt)
  have "all_required_seen count ?ws \<longleftrightarrow> (\<forall>j<unat count. j \<in> ?S)"
    using all_required_seen_iff [OF assms(1) m(1)] m(2) b by simp
  also have "\<dots> \<longleftrightarrow> ?S = {..<unat count}" using b by auto
  finally show ?thesis .
qed

text \<open>Two required fields, both seen, the second one first.\<close>

definition two_required :: "pb_field list" where
  "two_required = [pb_field 1 0 0 0 4 0 Null_ptr, pb_field 2 0 0 0 4 0 Null_ptr, PB_LAST_FIELD]"

definition required_iters :: "pb_field_iter list" where
  "required_iters = (let it = snd (pb_field_iter_begin two_required 0x100) in
     [snd (pb_field_iter_next it), it, it])"

theorem required_fields_exact_witness:
  "all_required_seen 2 (fields_seen (mark_all (init_locals two_required 0x100) required_iters))"
proof -
  have "list_all (required_at 2) required_iters" "map required_field_index required_iters = [1, 0, 0]" by code_simp+
  moreover from this(2) have "(unat \<circ> required_field_index) ` set required_iters = unat ` set [1, 0, 0 :: uint32]"
    by (metis image_comp list.set_map)
  ultimately show ?thesis
    using required_fields_exact [of 2 required_iters two_required "0x100"] by auto
qed

end
