(* ===== verification/Pb_Codec.thy ===== *)
theory Pb_Codec
  imports Pb_Decode_Thms Pb_Encode_Thms
begin

text \<open>
  The field decoders as inverses of the field encoders. \<open>copying_decoder\<close> is the contract a
  field decoder has towards the code that decodes a field into a message: given the bytes of a value
  (those the reference encoder writes) it stores a copy of the value, consumes the bytes and
  changes nothing else. The numeric decoders and the decoder of fixed length bytes keep it.
\<close>

section \<open>The contract\<close>

definition copied :: "('s isource \<Rightarrow> byte list \<Rightarrow> bool) \<Rightarrow> 's dstate \<Rightarrow> 's dstate \<Rightarrow> addr \<Rightarrow> byte list \<Rightarrow>
    byte list \<Rightarrow> byte list \<Rightarrow> bool" where
  "copied D d d' q data vs rest \<longleftrightarrow>
     stream_at D (strm d') vs rest \<and> ierrmsg (strm d') = ierrmsg (strm d)
     \<and> heap d' = upd_mem (heap d) (mem_write (dmem d) q data) \<and> fixed_count_size d' = fixed_count_size d"

locale copying_decoder =
  fixes D :: "'s isource \<Rightarrow> byte list \<Rightarrow> bool" and dec :: "'s decoder"
    and bytes :: "mem \<Rightarrow> pb_field \<Rightarrow> addr \<Rightarrow> byte list option" and ok :: "pb_field \<Rightarrow> bool"
  assumes copies: "ok f \<Longrightarrow> bytes m f p = Some bs \<Longrightarrow> stream_at D (strm d) (bs @ vs) rest \<Longrightarrow>
    \<exists>d'. dec f q d = Some (True, d') \<and> copied D d d' q (mem_read m p (unat (data_size f))) vs rest"

section \<open>Numbers\<close>

lemma top_bit:
  "31 \<le> n \<Longrightarrow> n < 32 \<Longrightarrow> n = 31" "15 \<le> n \<Longrightarrow> n < 16 \<Longrightarrow> n = 15" "7 \<le> n \<Longrightarrow> n < 8 \<Longrightarrow> n = 7" for n :: nat
  by simp_all

lemma cast32: "ucast (scast w :: uint64) = w" for w :: uint32
  by (rule bit_word_eqI) (auto simp: bit_simps min_def dest: top_bit)

lemma cast16: "scast (ucast (scast w :: uint64) :: uint32) = (scast w :: uint64)" "ucast (scast w :: uint64) = w"
  for w :: uint16
  by (rule bit_word_eqI; auto simp: bit_simps min_def dest: top_bit)+

lemma cast8: "scast (ucast (scast w :: uint64) :: uint32) = (scast w :: uint64)" "ucast (scast w :: uint64) = w"
  for w :: uint8
  by (rule bit_word_eqI; auto simp: bit_simps min_def dest: top_bit)+

lemma loads:
  "le_bytes 1 (load8 m p) = mem_read m p 1" "le_bytes 2 (load16 m p) = mem_read m p 2"
  "le_bytes 4 (load32 m p) = mem_read m p 4" "le_bytes 8 (load64 m p) = mem_read m p 8"
  by (rule le_bytes_load, simp)+

text \<open>Storing a number at the width of the field restores the bytes it was loaded from.\<close>

lemma varint_value_cases:
  assumes "varint_value m f p = Some i"
  obtains "data_size f = 1" "(word_of_int i :: uint64) = scast (load8 m p)" "i = sint (load8 m p)"
    | "data_size f = 2" "(word_of_int i :: uint64) = scast (load16 m p)" "i = sint (load16 m p)"
    | "data_size f = 4" "(word_of_int i :: uint64) = scast (load32 m p)" "i = sint (load32 m p)"
    | "data_size f = 8" "(word_of_int i :: uint64) = load64 m p" "i = sint (load64 m p)"
  using assms by (auto simp: varint_value_def split: if_splits)

lemma store_signed_load:
  assumes "varint_value m f p = Some i"
  shows "store_signed f q (word_of_int i) d =
    (True, set_dmem d (mem_write (dmem d) q (mem_read m p (unat (data_size f)))))"
  using assms
proof (cases rule: varint_value_cases)
  case 1
  then have "store_signed f q (word_of_int i) d = (True, set_dmem d (store8 (dmem d) q (load8 m p)))"
    by (simp only: store_signed_def Let_def) (simp add: cast8)
  then show ?thesis using 1(1) loads(1) [of m p] by simp
next
  case 2
  then have "store_signed f q (word_of_int i) d = (True, set_dmem d (store16 (dmem d) q (load16 m p)))"
    by (simp only: store_signed_def Let_def) (simp add: cast16)
  then show ?thesis using 2(1) loads(2) [of m p] by (simp only:) simp
next
  case 3
  then have "store_signed f q (word_of_int i) d = (True, set_dmem d (store32 (dmem d) q (load32 m p)))"
    by (simp only: store_signed_def Let_def) (simp add: cast32)
  then show ?thesis using 3(1) loads(3) [of m p] by (simp only:) simp
next
  case 4
  then have "store_signed f q (word_of_int i) d = (True, set_dmem d (store64 (dmem d) q (load64 m p)))"
    by (simp only: store_signed_def Let_def) simp
  then show ?thesis using 4(1) loads(4) [of m p] by (simp only:) simp
qed

lemma varint_value_narrow:
  assumes "varint_value m f p = Some i" "data_size f \<noteq> 8"
  shows "scast (ucast (word_of_int i :: uint64) :: uint32) = (word_of_int i :: uint64)"
  using assms(1)
proof (cases rule: varint_value_cases)
  case 4
  then show ?thesis using assms(2) by simp
qed (simp_all only: cast8 cast16 cast32)

lemma sint_varint_value: "varint_value m f p = Some i \<Longrightarrow> sint (word_of_int i :: uint64) = i"
  by (erule varint_value_cases) (simp_all add: sint_scast64)

lemma down_le_word:
  "8 * length bs \<le> LENGTH('a) \<Longrightarrow> LENGTH('a) \<le> 64 \<Longrightarrow> ucast (le_word bs :: uint64) = (le_word bs :: 'a::len word)"
  by (rule bit_word_eqI) (auto simp: bit_simps bit_le_word)

context byte_source
begin

lemma dec_varint_copies:
  assumes v: "varint_value m f p = Some i" and at: "stream_at delivers (strm d) (varint_bytes (nat (i mod 2 ^ 64)) @ vs) rest"
  shows "\<exists>d'. pb_dec_varint f q d = Some (True, d') \<and> copied delivers d d' q (mem_read m p (unat (data_size f))) vs rest"
proof -
  let ?v = "word_of_int i :: uint64"
  have "unat ?v = nat (i mod 2 ^ 64)" by (simp only: unat_eq_nat_uint uint_word_of_int) (simp add: take_bit_eq_mod)
  then obtain s where "pb_decode_varint (strm d) = (Some ?v, s)" "stream_at delivers s vs rest"
      "ierrmsg s = ierrmsg (strm d)"
    using pb_decode_varint_at [of "strm d" ?v vs rest] at by auto
  then show ?thesis using store_signed_load [OF v, of q "d\<lparr>strm := s\<rparr>"] varint_value_narrow [OF v]
    by (simp add: pb_dec_varint_def copied_def set_dmem_def)
qed

lemma dec_svarint_copies:
  assumes v: "varint_value m f p = Some i" and at: "stream_at delivers (strm d) (varint_bytes (zigzag i) @ vs) rest"
  shows "\<exists>d'. pb_dec_svarint f q d = Some (True, d') \<and> copied delivers d d' q (mem_read m p (unat (data_size f))) vs rest"
proof -
  obtain s where "pb_decode_svarint (strm d) = (Some (word_of_int i), s)" "stream_at delivers s vs rest"
      "ierrmsg s = ierrmsg (strm d)"
    using pb_decode_svarint_at [of "strm d" "word_of_int i" vs rest] at sint_varint_value [OF v] by auto
  then show ?thesis using store_signed_load [OF v, of q "d\<lparr>strm := s\<rparr>"]
    by (simp add: pb_dec_svarint_def copied_def set_dmem_def)
qed

lemma dec_uvarint_copies:
  assumes v: "uvarint_value m f p = Some k" and at: "stream_at delivers (strm d) (varint_bytes k @ vs) rest"
  shows "\<exists>d'. pb_dec_uvarint f q d = Some (True, d') \<and> copied delivers d d' q (mem_read m p (unat (data_size f))) vs rest"
proof -
  let ?bs = "mem_read m p (unat (data_size f))"
  have sz: "data_size f = 1 \<or> data_size f = 2 \<or> data_size f = 4 \<or> data_size f = 8" and k: "k = unat (le_word ?bs :: uint64)"
    using v by (auto simp: uvarint_value_def split: if_splits)
  obtain s where s: "pb_decode_varint (strm d) = (Some (le_word ?bs), s)" "stream_at delivers s vs rest"
      "ierrmsg s = ierrmsg (strm d)"
    using pb_decode_varint_at [of "strm d" "le_word ?bs" vs rest] at k by auto
  from sz have "pb_dec_uvarint f q d = Some (True, set_dmem (d\<lparr>strm := s\<rparr>) (mem_write (dmem d) q ?bs))"
  proof (elim disjE)
    assume z: "data_size f = 1"
    then show ?thesis using s(1) loads(1) [of m p] ucast_le_word [of "mem_read m p 1", where 'a = 8]
      by (simp add: pb_dec_uvarint_def Let_def down_le_word)
  next
    assume z: "data_size f = 2"
    then show ?thesis using s(1) loads(2) [of m p] ucast_le_word [of "mem_read m p 2", where 'a = 16]
      by (simp add: pb_dec_uvarint_def Let_def down_le_word)
  next
    assume z: "data_size f = 4"
    then show ?thesis using s(1) loads(3) [of m p] ucast_le_word [of "mem_read m p 4", where 'a = 32]
      by (simp add: pb_dec_uvarint_def Let_def down_le_word)
  next
    assume z: "data_size f = 8"
    then show ?thesis using s(1) loads(4) [of m p] by (simp add: pb_dec_uvarint_def Let_def)
  qed
  then show ?thesis using s by (simp add: copied_def set_dmem_def)
qed

lemma dec_fixed32_copies:
  assumes "data_size f = 4" "stream_at delivers (strm d) (mem_read m p 4 @ vs) rest"
  shows "\<exists>d'. pb_dec_fixed32 f q d = Some (True, d') \<and> copied delivers d d' q (mem_read m p (unat (data_size f))) vs rest"
proof -
  obtain s where "pb_decode_fixed32 (strm d) = (Some (load32 m p), s)" "stream_at delivers s vs rest"
      "ierrmsg s = ierrmsg (strm d)"
    using pb_decode_fixed32_at [OF assms(2)] by auto
  then show ?thesis using assms(1) loads(3) [of m p] by (simp add: pb_dec_fixed32_def copied_def set_dmem_def)
qed

lemma dec_fixed64_copies:
  assumes "data_size f = 8" "stream_at delivers (strm d) (mem_read m p 8 @ vs) rest"
  shows "\<exists>d'. pb_dec_fixed64 f q d = Some (True, d') \<and> copied delivers d d' q (mem_read m p (unat (data_size f))) vs rest"
proof -
  obtain s where "pb_decode_fixed64 (strm d) = (Some (load64 m p), s)" "stream_at delivers s vs rest"
      "ierrmsg s = ierrmsg (strm d)"
    using pb_decode_fixed64_at [OF assms(2)] by auto
  then show ?thesis using assms(1) loads(4) [of m p] by (simp add: pb_dec_fixed64_def copied_def set_dmem_def)
qed

lemma dec_fixed_length_copies:
  assumes at: "stream_at delivers (strm d) (delimited (mem_read m p (unat (data_size f))) @ vs) rest"
  shows "\<exists>d'. pb_dec_fixed_length_bytes f q d = Some (True, d') \<and> copied delivers d d' q (mem_read m p (unat (data_size f))) vs rest"
proof -
  let ?bs = "mem_read m p (unat (data_size f))"
  obtain s where s: "pb_decode_varint32 (strm d) = (Some (data_size f), s)" "stream_at delivers s (?bs @ vs) rest"
      "ierrmsg s = ierrmsg (strm d)"
    using pb_decode_varint32_len [of "strm d" "unat (data_size f)" "?bs @ vs" rest] at unat_less32 [of "data_size f"]
    by (auto simp: delimited_def)
  obtain s' where "pb_read s (ucast (data_size f)) = (True, ?bs, s')" "stream_at delivers s' vs rest" "ierrmsg s' = ierrmsg s"
    using pb_read_at [OF s(2), of "ucast (data_size f)"] by auto
  then show ?thesis using s
    by (auto simp: pb_dec_fixed_length_bytes_def copied_def set_dmem_def read_to_def c_memset0_def Let_def)
qed

end

text \<open>The decoders the table holds for these types, each with the bytes its encoder writes.\<close>

definition copyable :: "pb_field \<Rightarrow> bool" where
  "copyable f \<longleftrightarrow> ltype f = PB_LTYPE_VARINT \<or> ltype f = PB_LTYPE_UVARINT \<or> ltype f = PB_LTYPE_SVARINT
     \<or> ltype f = PB_LTYPE_FIXED32 \<and> data_size f = 4 \<or> ltype f = PB_LTYPE_FIXED64 \<and> data_size f = 8
     \<or> ltype f = PB_LTYPE_FIXED_LENGTH_BYTES"


lemma call_decoder_entry:
  "ltype f = 0 \<Longrightarrow> call_decoder env init noinit f p d = pb_dec_varint f p d"
  "ltype f = 1 \<Longrightarrow> call_decoder env init noinit f p d = pb_dec_uvarint f p d"
  "ltype f = 2 \<Longrightarrow> call_decoder env init noinit f p d = pb_dec_svarint f p d"
  "ltype f = 3 \<Longrightarrow> call_decoder env init noinit f p d = pb_dec_fixed32 f p d"
  "ltype f = 4 \<Longrightarrow> call_decoder env init noinit f p d = pb_dec_fixed64 f p d"
  "ltype f = 5 \<Longrightarrow> call_decoder env init noinit f p d = pb_dec_bytes env f p d"
  "ltype f = 6 \<Longrightarrow> call_decoder env init noinit f p d = pb_dec_string env f p d"
  "ltype f = 7 \<Longrightarrow> call_decoder env init noinit f p d = pb_dec_submessage init noinit f p d"
  "ltype f = 9 \<Longrightarrow> call_decoder env init noinit f p d = pb_dec_fixed_length_bytes f p d"
  by (simp_all add: call_decoder_def PB_DECODERS_def)

lemma call_decoder_copies:
  assumes "copyable f" "value_bytes sub m f p = Some bs" "stream_at from_buffer (strm d) (bs @ vs) rest"
  shows "\<exists>d'. call_decoder env init noinit f q d = Some (True, d')
    \<and> copied from_buffer d d' q (mem_read m p (unat (data_size f))) vs rest"
proof -
  consider "ltype f = 0" | "ltype f = 1" | "ltype f = 2" | "ltype f = 3" "data_size f = 4" | "ltype f = 4" "data_size f = 8"
    | "ltype f = 9"
    using assms(1) by (auto simp: copyable_def)
  then show ?thesis
  proof cases
    case 1
    then show ?thesis using assms(2,3) buf_source.dec_varint_copies by (auto simp: call_decoder_entry value_bytes_def)
  next
    case 2
    then show ?thesis using assms(2,3) buf_source.dec_uvarint_copies by (auto simp: call_decoder_entry value_bytes_def)
  next
    case 3
    then show ?thesis using assms(2,3) buf_source.dec_svarint_copies by (auto simp: call_decoder_entry value_bytes_def)
  next
    case 4
    then show ?thesis using assms(2,3) buf_source.dec_fixed32_copies by (auto simp: call_decoder_entry value_bytes_def)
  next
    case 5
    then show ?thesis using assms(2,3) buf_source.dec_fixed64_copies by (auto simp: call_decoder_entry value_bytes_def)
  next
    case 6
    then show ?thesis using assms(2,3) buf_source.dec_fixed_length_copies by (auto simp: call_decoder_entry value_bytes_def)
  qed
qed

interpretation table_codec: copying_decoder from_buffer "call_decoder env init noinit" "value_bytes sub" copyable
  by unfold_locales (rule call_decoder_copies)


section \<open>Round trip of a field\<close>

lemma varint_bytes_short: "k < 2 ^ 64 \<Longrightarrow> length (varint_bytes k) \<le> 10"
  using varint_bytes_length64 [of "of_nat k"] by (simp add: unat_of_nat)

lemma zigzag_less: "- (2 ^ 63) \<le> i \<Longrightarrow> i < 2 ^ 63 \<Longrightarrow> zigzag i < 2 ^ 64"
  by (simp add: zigzag_def nat_less_iff)

lemma copyable_length:
  assumes "copyable f" "value_bytes sub m f p = Some bs"
  shows "length bs < 2 ^ 63"
proof -
  have l: "length (varint_bytes (nat (i mod 2 ^ 64))) \<le> 10" for i :: int
    by (rule varint_bytes_short) (simp add: nat_less_iff)
  have u: "length (varint_bytes k) \<le> 10" if "uvarint_value m f p = Some k" for k
    using that varint_bytes_length64 by (auto simp: uvarint_value_def split: if_splits)
  have z: "length (varint_bytes (zigzag i)) \<le> 10" if "varint_value m f p = Some i" for i
    using sint_varint_value [OF that] varint_bytes_length64 [of "zigzag_word (word_of_int i)"]
    by (simp add: unat_zigzag_word)
  have d: "length (delimited (mem_read m p (unat (data_size f)))) < 2 ^ 63"
    using varint_bytes_short [of "unat (data_size f)"] unat_less32 [of "data_size f"] by (simp add: delimited_def)
  consider "ltype f = 0" | "ltype f = 1" | "ltype f = 2" | "ltype f = 3" "data_size f = 4" | "ltype f = 4" "data_size f = 8"
    | "ltype f = 9"
    using assms(1) by (auto simp: copyable_def)
  then show ?thesis
  proof cases
    case 1
    then obtain i where "bs = varint_bytes (nat (i mod 2 ^ 64))" using assms(2) by (auto simp: value_bytes_def)
    then show ?thesis using l [of i] by simp
  next
    case 2
    then obtain k where "uvarint_value m f p = Some k" "bs = varint_bytes k" using assms(2) by (auto simp: value_bytes_def)
    then show ?thesis using u [of k] by simp
  next
    case 3
    then obtain i where "varint_value m f p = Some i" "bs = varint_bytes (zigzag i)"
      using assms(2) by (auto simp: value_bytes_def)
    then show ?thesis using z [of i] by simp
  next
    case 6
    then have "bs = delimited (mem_read m p (unat (data_size f)))" using assms(2) by (simp add: value_bytes_def)
    then show ?thesis using d by simp
  qed (use assms(2) in \<open>auto simp: value_bytes_def\<close>)
qed

text \<open>
  a numeric or fixed length field that the encoder of its type writes to a buffer is restored by the decoder of its
  type: the memory at the destination becomes a copy of the field, the bytes are consumed, nothing else
  changes.
\<close>

theorem field_roundtrip:
  assumes "copyable f" "call_encoder enc m f p (pb_ostream_from_buffer n) = Some (True, os)" "osink os = Buffer bs"
    "unat n < 2 ^ 63" "length rest < 2 ^ 62" "strm d = reading (bs @ rest)"
  shows "\<exists>d'. call_decoder env init noinit f q d = Some (True, d')
     \<and> heap d' = upd_mem (heap d) (mem_write (dmem d) q (mem_read m p (unat (data_size f))))
     \<and> left (strm d') rest \<and> ierrmsg (strm d') = None"
proof -
  let ?r = "value_bytes (\<lambda>_. None) m f p"
  have w: "writes in_buffer (call_encoder enc m f p) ?r"
    using assms(1) by (intro buf_sink.writes_call_encoder) (auto simp: copyable_def)
  then obtain vs where vs: "?r = Some vs" using assms(2) by (cases ?r) (auto simp: writes_def)
  have l: "length vs < 2 ^ 63" using copyable_length [OF assms(1) vs] .
  have fit: "length vs \<le> unat n"
  proof (rule ccontr)
    assume "\<not> length vs \<le> unat n"
    then have "\<exists>os'. call_encoder enc m f p (pb_ostream_from_buffer n) = Some (False, os')"
      using writes_overflows_buffer [of "call_encoder enc m f p" vs n] w vs l by auto
    then show False using assms(2) by simp
  qed
  then have "bs = vs" using writes_stores_buffer [of _ vs n] w vs assms(2-4) by fastforce
  moreover have "length (vs @ rest) < 2 ^ 64" using l assms(5) by simp
  then have "stream_at from_buffer (reading (vs @ rest) :: 'c pb_istream) (vs @ rest) []" by (rule stream_at_buffer)
  ultimately show ?thesis
    using table_codec.copies [OF assms(1) vs, of d rest "[]" env init noinit q] assms(6) stream_at_left
    by (auto simp: copied_def)
qed


theorem field_roundtrip_witness:
  "\<exists>d'. call_decoder fixed_alloc (\<lambda>_ _ _ _. None) (\<lambda>_ _ _ _. None) (pb_field 1 0x02 0 0 4 0 Null_ptr) 0x200 (blank [3, 9]) =
       Some (True, d')
     \<and> heap d' = upd_mem (heap (blank [3, 9])) (mem_write (dmem (blank [3, 9])) 0x200
         (mem_read (\<lambda>a. if a = 0x100 then 0xFE else 0xFF) 0x100 4))
     \<and> left (strm d') [9] \<and> ierrmsg (strm d') = None"
proof -
  let ?f = "pb_field 1 0x02 0 0 4 0 Null_ptr" and ?m = "\<lambda>a. if a = 0x100 then 0xFE else 0xFF :: byte"
  have "value_bytes (\<lambda>_. None) ?m ?f 0x100 = Some [3]" "ltype ?f \<noteq> PB_LTYPE_SUBMESSAGE" by code_simp+
  then have "writes in_buffer (call_encoder (\<lambda>_ _ _. None) ?m ?f 0x100) (Some [3])"
    using buf_sink.writes_call_encoder [where f = ?f and enc = "\<lambda>_ _ _. None" and sub = "\<lambda>_. None" and m = ?m and p = "0x100"]
    by simp
  then obtain os where os: "call_encoder (\<lambda>_ _ _. None) ?m ?f 0x100 (pb_ostream_from_buffer 10 :: unit pb_ostream) = Some (True, os)"
      "osink os = Buffer [3]"
    using writes_stores_buffer [of _ "[3]" 10] by fastforce
  have "copyable ?f" by code_simp
  from field_roundtrip [OF this os, where rest = "[9]" and d = "blank [3, 9]" and env = fixed_alloc
      and init = "\<lambda>_ _ _ _. None" and noinit = "\<lambda>_ _ _ _. None" and q = "0x200"]
  show ?thesis by (simp add: blank_def)
qed

end
