(* ===== verification/Pb_Flat.thy ===== *)
theory Pb_Flat
  imports Pb_Codec
begin

text \<open>
  The round trip of a whole message, for message types whose fields are static, optional
  with a presence flag, and numeric or of fixed length, such as \<^verbatim>\<open>gdt_cct_NetworkConnectionInfo\<close> and
  \<^verbatim>\<open>gdt_cct_QosTierConfiguration\<close>: what \<^verbatim>\<open>pb_encode\<close> writes, \<^verbatim>\<open>pb_decode\<close> puts back into any struct whose members
  do not overlap.
\<close>

section \<open>The message types\<close>

definition flat_field :: "pb_field \<Rightarrow> bool" where
  "flat_field f \<longleftrightarrow> atype f = PB_ATYPE_STATIC \<and> htype f = PB_HTYPE_OPTIONAL \<and> size_offset f \<noteq> 0
     \<and> copyable f \<and> unat (tag f) < 2 ^ 29"

definition flat :: "pb_field list \<Rightarrow> bool" where
  "flat fs \<longleftrightarrow> terminated fs \<and> 1 < length fs \<and> list_all flat_field (butlast fs) \<and> distinct (map tag (butlast fs))"

text \<open>The flag of a field and the two regions a field occupies.\<close>

definition flag :: "pb_field \<times> addr \<Rightarrow> addr" where
  "flag x = snd x + scast (size_offset (fst x))"

definition regions :: "pb_field \<times> addr \<Rightarrow> (addr \<times> nat) list" where
  "regions x = [(snd x, unat (data_size (fst x))), (flag x, 1)]"

fun all_apart :: "(addr \<times> nat) list \<Rightarrow> bool" where
  "all_apart [] = True"
| "all_apart ((p, n) # rs) \<longleftrightarrow> list_all (\<lambda>(q, k). apart p n q k) rs \<and> all_apart rs"

definition laid_out :: "pb_field list \<Rightarrow> addr \<Rightarrow> bool" where
  "laid_out fs p \<longleftrightarrow> all_apart (concat (map regions (place fs p)))"

text \<open>A field has been copied: the flags agree, and the values when the flag is set.\<close>

definition same_field :: "mem \<Rightarrow> pb_field \<times> addr \<Rightarrow> mem \<Rightarrow> pb_field \<times> addr \<Rightarrow> bool" where
  "same_field m x m' y \<longleftrightarrow> load_bool m' (flag y) = load_bool m (flag x)
     \<and> (load_bool m (flag x) \<longrightarrow>
          mem_read m' (snd y) (unat (data_size (fst y))) = mem_read m (snd x) (unat (data_size (fst x))))"

section \<open>Regions\<close>

lemma all_apart_append:
  "all_apart (rs @ ss) \<longleftrightarrow> all_apart rs \<and> all_apart ss
     \<and> (\<forall>(p, n)\<in>set rs. \<forall>(q, k)\<in>set ss. apart p n q k)"
  by (induction rs rule: all_apart.induct) (auto simp: list_all_iff)

lemma all_apart_concat:
  assumes "all_apart (concat (map regions xs))" "i < length xs" "j < length xs" "i \<noteq> j"
    "(p, n) \<in> set (regions (xs ! i))" "(q, k) \<in> set (regions (xs ! j))"
  shows "apart p n q k"
  using assms
proof (induction xs arbitrary: i j)
  case (Cons x xs)
  show ?case
  proof (cases i)
    case 0
    then obtain j' where "j = Suc j'" using Cons.prems(4) by (cases j) auto
    then show ?thesis using Cons.prems 0 by (fastforce simp: all_apart_append)
  next
    case (Suc i')
    show ?thesis
    proof (cases j)
      case 0
      then have "apart q k p n" using Cons.prems Suc by (fastforce simp: all_apart_append)
      then show ?thesis by (rule apart_sym)
    next
      case (Suc j')
      then show ?thesis using Cons.IH [of i' j'] Cons.prems \<open>i = Suc i'\<close> by (simp add: all_apart_append)
    qed
  qed
qed simp

lemma all_apart_member: "all_apart (concat rss) \<Longrightarrow> rs \<in> set rss \<Longrightarrow> all_apart rs"
  by (induction rss) (auto simp: all_apart_append)

lemma laid_out_own:
  assumes "laid_out fs p" "i < length (place fs p)"
  shows "apart (snd (place fs p ! i)) (unat (data_size (fst (place fs p ! i)))) (flag (place fs p ! i)) 1"
proof -
  have "all_apart (regions (place fs p ! i))"
    using assms all_apart_member [of "map regions (place fs p)"] by (simp add: laid_out_def)
  then show ?thesis by (simp add: regions_def)
qed

text \<open>A write inside the regions of one field leaves the other fields alone.\<close>

lemma other_field_kept:
  assumes "laid_out fs p" "i < length (place fs p)" "j < length (place fs p)" "i \<noteq> j"
    and w: "(q, n) \<in> set (regions (place fs p ! i))" "length bs \<le> n"
  shows "load_bool (mem_write m q bs) (flag (place fs p ! j)) = load_bool m (flag (place fs p ! j))"
    "mem_read (mem_write m q bs) (snd (place fs p ! j)) (unat (data_size (fst (place fs p ! j)))) =
       mem_read m (snd (place fs p ! j)) (unat (data_size (fst (place fs p ! j))))"
proof -
  have a: "apart q n r k" if "(r, k) \<in> set (regions (place fs p ! j))" for r k
    using all_apart_concat [of "place fs p" i j] assms that unfolding laid_out_def by blast
  have "apart q (length bs) r k" if "(r, k) \<in> set (regions (place fs p ! j))" for r k
    using a [OF that] w(2) by (simp add: apart_def)
  then show "load_bool (mem_write m q bs) (flag (place fs p ! j)) = load_bool m (flag (place fs p ! j))"
    "mem_read (mem_write m q bs) (snd (place fs p ! j)) (unat (data_size (fst (place fs p ! j)))) =
       mem_read m (snd (place fs p ! j)) (unat (data_size (fst (place fs p ! j))))"
    by (simp_all add: regions_def load_bool_apart mem_read_apart)
qed

text \<open>Storing a field: the flag first, then the value.\<close>

definition put_field :: "mem \<Rightarrow> pb_field \<times> addr \<Rightarrow> bool \<Rightarrow> byte list \<Rightarrow> mem" where
  "put_field m x b bs = mem_write (store_bool m (flag x) b) (snd x) bs"

lemma put_field_other:
  assumes "laid_out fs p" "i < length (place fs p)" "j < length (place fs p)" "i \<noteq> j"
    and "length bs \<le> unat (data_size (fst (place fs p ! i)))"
  shows "load_bool (put_field m (place fs p ! i) b bs) (flag (place fs p ! j)) = load_bool m (flag (place fs p ! j))"
    "mem_read (put_field m (place fs p ! i) b bs) (snd (place fs p ! j)) (unat (data_size (fst (place fs p ! j)))) =
       mem_read m (snd (place fs p ! j)) (unat (data_size (fst (place fs p ! j))))"
  using other_field_kept [OF assms(1-4), of "flag (place fs p ! i)" 1 "[if b then 1 else 0]"]
    other_field_kept [OF assms(1-4), of "snd (place fs p ! i)" "unat (data_size (fst (place fs p ! i)))" bs] assms(5)
  by (simp_all add: put_field_def store_bool_def regions_def)

lemma put_field_own:
  assumes "laid_out fs p" "i < length (place fs p)" "length bs \<le> unat (data_size (fst (place fs p ! i)))"
  shows "load_bool (put_field m (place fs p ! i) b bs) (flag (place fs p ! i)) = b"
    "length bs = unat (data_size (fst (place fs p ! i))) \<Longrightarrow>
       mem_read (put_field m (place fs p ! i) b bs) (snd (place fs p ! i)) (unat (data_size (fst (place fs p ! i)))) = bs"
proof -
  have "apart (snd (place fs p ! i)) (length bs) (flag (place fs p ! i)) 1"
    using laid_out_own [OF assms(1,2)] assms(3) by (simp add: apart_def)
  then show "load_bool (put_field m (place fs p ! i) b bs) (flag (place fs p ! i)) = b"
    by (simp add: put_field_def load_bool_apart)
  assume l: "length bs = unat (data_size (fst (place fs p ! i)))"
  have "length bs \<le> 2 ^ 64" using l unat_less32 [of "data_size (fst (place fs p ! i))"] by simp
  then show "mem_read (put_field m (place fs p ! i) b bs) (snd (place fs p ! i)) (unat (data_size (fst (place fs p ! i)))) = bs"
    using mem_read_write_same [of bs] l by (simp add: put_field_def)
qed

section \<open>The iterator on a flat message\<close>

lemma flat_field_at:
  assumes "flat fs" "i < length fs - 1"
  shows "flat_field (field_at fs i)" "tag (field_at fs i) \<noteq> 0"
  using assms terminated_tag [of fs i] by (auto simp: flat_def list_all_length nth_butlast field_at_def)

lemma flat_types:
  assumes "flat_field f"
  shows "htype f = PB_HTYPE_OPTIONAL" "atype f = PB_ATYPE_STATIC" "htype f \<noteq> PB_HTYPE_ONEOF" "htype f \<noteq> PB_HTYPE_REQUIRED"
    "htype f \<noteq> PB_HTYPE_REPEATED"
  using assms by (simp_all add: flat_field_def)

definition flat_iter :: "pb_field list \<Rightarrow> addr \<Rightarrow> pb_field_iter \<Rightarrow> nat \<Rightarrow> bool" where
  "flat_iter fs p it i \<longleftrightarrow> iter_at it i \<and> start it = fs \<and> dest_struct it = p
     \<and> pSize it = In_mem (flag (place fs p ! i)) \<and> required_field_index it = 0"

lemma flat_length: "flat fs \<Longrightarrow> length (place fs p) = length fs - 1"
  by (simp add: flat_def length_place)

lemma flat_iter_cur:
  assumes "flat_iter fs p it i"
  shows "cur it = fst (place fs p ! i)" "pData it = snd (place fs p ! i)" "i < length (place fs p)" "pos it = i"
proof -
  have "(cur it, pData it) = place fs p ! i" using assms by (auto simp: flat_iter_def iter_at_def)
  then show "cur it = fst (place fs p ! i)" "pData it = snd (place fs p ! i)" by (metis fst_conv, metis snd_conv)
  show "i < length (place fs p)" "pos it = i" using assms by (auto simp: flat_iter_def iter_at_def)
qed

lemma flat_iter_begin: "flat fs \<Longrightarrow> flat_iter fs p (snd (pb_field_iter_begin fs p)) 0"
proof -
  assume f: "flat fs"
  have at: "iter_at (snd (pb_field_iter_begin fs p)) 0" using f by (intro iter_at_begin) (auto simp: flat_def)
  then have "place fs p ! 0 = (field_at fs 0, p + ucast (data_offset (field_at fs 0)))"
    by (auto simp: iter_at_def pb_field_iter_begin_def Let_def)
  then show ?thesis using at by (simp add: flat_iter_def pb_field_iter_begin_def flag_def Let_def)
qed

lemma flat_iter_next:
  assumes f: "flat fs" and it: "flat_iter fs p it i"
  shows "fst (pb_field_iter_next it) = (Suc i < length (place fs p))"
    "flat_iter fs p (snd (pb_field_iter_next it)) (if Suc i < length (place fs p) then Suc i else 0)"
proof -
  have b: "iter_at it i" "start it = fs" "dest_struct it = p" "required_field_index it = 0"
    using it by (simp_all add: flat_iter_def)
  have n: "length (place fs p) = length (place (start it) (dest_struct it))" using b by simp
  note nx = iter_at_next [OF b(1) n]
  show "fst (pb_field_iter_next it) = (Suc i < length (place fs p))" by (rule nx(1))
  let ?it = "snd (pb_field_iter_next it)"
  have i: "pos it = i" "i < length fs - 1" using flat_iter_cur [OF it] flat_length [OF f] by simp_all
  show "flat_iter fs p ?it (if Suc i < length (place fs p) then Suc i else 0)"
  proof (cases "Suc i < length (place fs p)")
    case True
    then have s: "Suc i < length fs - 1" using flat_length [OF f] by simp
    have t: "tag (cur it) \<noteq> 0" "htype (cur it) = PB_HTYPE_OPTIONAL" "tag (field_at fs (Suc i)) \<noteq> 0"
      using flat_field_at [OF f i(2)] flat_field_at [OF f s] flat_types(1) i b(2) by auto
    have at: "iter_at ?it (Suc i)" using nx(2) True by simp
    then have "(cur ?it, pData ?it) = place fs p ! Suc i" using b by (auto simp: iter_at_def)
    moreover have "pSize ?it = In_mem (pData ?it + scast (size_offset (cur ?it)))" "required_field_index ?it = 0"
      using t b i by (auto simp: pb_field_iter_next_def Let_def)
    ultimately show ?thesis using at b True by (simp add: flat_iter_def flag_def) (metis fst_conv snd_conv)
  next
    case False
    have "\<not> fst (pb_field_iter_next it)" using nx(1) False by simp
    then have "tag (field_at fs (Suc i)) = 0" "tag (cur it) \<noteq> 0"
      using fst_next [of it] flat_field_at [OF f i(2)] b i by auto
    then have "?it = snd (pb_field_iter_begin fs p)" using b i by (simp add: pb_field_iter_next_def Let_def)
    then show ?thesis using flat_iter_begin [OF f] False by simp
  qed
qed

lemma iter_find_loop_inv:
  assumes "\<And>it. Q it \<Longrightarrow> Q (snd (pb_field_iter_next it))" "Q it"
  shows "Q (snd (iter_find_loop k st P it))"
  using assms(2)
proof (induction k arbitrary: it)
  case (Suc k)
  then show ?case using assms(1) by (simp add: Let_def)
qed simp

lemma field_at_butlast: "i < length fs - 1 \<Longrightarrow> field_at fs i = butlast fs ! i"
  by (auto simp: field_at_def nth_butlast)

lemma flat_find:
  assumes f: "flat fs" and it: "flat_iter fs p it i" and j: "j < length (place fs p)"
  shows "\<exists>it'. pb_field_iter_find it (tag (field_at fs j)) = (True, it') \<and> flat_iter fs p it' j"
proof -
  let ?tg = "tag (field_at fs j)"
  have b: "iter_at it i" "start it = fs" "dest_struct it = p" using it by (simp_all add: flat_iter_def)
  have lt: "copyable (field_at fs j)" using flat_field_at [OF f] j flat_length [OF f] by (auto simp: flat_field_def)
  have "ltype (field_at fs j) \<noteq> PB_LTYPE_EXTENSION" using lt by (auto simp: copyable_def)
  then have "fst (pb_field_iter_find it ?tg)"
    using pb_field_iter_find_iff [OF b(1) refl, of ?tg] b j by auto
  then obtain it' where find: "pb_field_iter_find it ?tg = (True, it')" by (metis prod.collapse)
  have "\<exists>k. flat_iter fs p (snd (pb_field_iter_find it ?tg)) k"
    unfolding pb_field_iter_find_def
    by (rule iter_find_loop_inv [where Q = "\<lambda>it. \<exists>k. flat_iter fs p it k"])
       (use flat_iter_next(2) [OF f] it in blast)+
  then obtain k where k: "flat_iter fs p it' k" using find by auto
  have "tag (cur it') = ?tg" using iter_find_loop_found find b(1) unfolding pb_field_iter_find_def by blast
  then have "tag (field_at fs k) = tag (field_at fs j)" using k flat_iter_cur(4) [OF k] by (simp add: flat_iter_def)
  moreover have "k < length fs - 1" "j < length fs - 1"
    using flat_iter_cur(3) [OF k] j flat_length [OF f] by simp_all
  ultimately have "map tag (butlast fs) ! k = map tag (butlast fs) ! j" "k < length (map tag (butlast fs))"
    "j < length (map tag (butlast fs))"
    by (simp_all add: field_at_butlast)
  then have "k = j" using f by (simp only: flat_def nth_eq_iff_index_eq)
  then show ?thesis using find k by simp
qed


section \<open>Decoding one field\<close>

lemma flag_not_data: "flat_field (fst x) \<Longrightarrow> flag x \<noteq> snd x"
proof -
  assume "flat_field (fst x)"
  then have "size_offset (fst x) \<noteq> 0" by (simp add: flat_field_def)
  then have "(scast (size_offset (fst x)) :: addr) \<noteq> 0" by (metis cast32 ucast_0)
  then show ?thesis by (simp add: flag_def)
qed

lemma decode_static_flat:
  assumes f: "flat_field (fst x)" and it: "cur it = fst x" "pData it = snd x" "pSize it = In_mem (flag x)"
    and v: "value_bytes sub m (fst x) p = Some vb" and at: "stream_at from_buffer (strm d) (vb @ vs) []"
  shows "\<exists>d'. decode_field n env (call_decoder env init noinit) wt it d = Some (True, it, d')
     \<and> stream_at from_buffer (strm d') vs [] \<and> ierrmsg (strm d') = ierrmsg (strm d)
     \<and> dmem d' = put_field (dmem d) x True (mem_read m p (unat (data_size (fst x))))
     \<and> fixed_count_size d' = fixed_count_size d"
proof -
  let ?d = "set_dmem d (store_bool (dmem d) (flag x) True)"
  have c: "copyable (fst x)" using f by (simp add: flat_field_def)
  have "stream_at from_buffer (strm ?d) (vb @ vs) []" using at by simp
  from table_codec.copies [OF c v this, of env init noinit "snd x"]
  obtain d' where d': "call_decoder env init noinit (fst x) (snd x) ?d = Some (True, d')"
      "copied from_buffer ?d d' (snd x) (mem_read m p (unat (data_size (fst x)))) vs []" by blast
  have "decode_field n env (call_decoder env init noinit) wt it d = Some (True, it, d')"
    using it flat_types [OF f] d'(1) flag_not_data [OF f] by (simp add: decode_field_def decode_static_field_def)
  then show ?thesis using d'(2) by (simp add: copied_def put_field_def set_dmem_def)
qed

text \<open>One turn of the loop of \<^verbatim>\<open>pb_decode_noinit\<close> on the bytes of one field.\<close>

lemma decode_loop_flat:
  assumes f: "flat fs" and it: "flat_iter fs q (diter l) i" and j: "j < length (place fs q)"
    and wt: "field_wire_type (ltype (field_at fs j)) = Some wt"
    and v: "value_bytes sub m (field_at fs j) p = Some vb"
    and at: "stream_at from_buffer (strm d) (tag_bytes wt (tag (field_at fs j)) @ vb @ vs) []"
  shows "\<exists>it' d'. decode_loop (Suc k) n env (call_decoder env init noinit) l d =
       decode_loop k n env (call_decoder env init noinit) (l\<lparr>diter := it'\<rparr>) d'
     \<and> flat_iter fs q it' j \<and> stream_at from_buffer (strm d') vs [] \<and> ierrmsg (strm d') = ierrmsg (strm d)
     \<and> dmem d' = put_field (dmem d) (place fs q ! j) True (mem_read m p (unat (data_size (field_at fs j))))
     \<and> fixed_count_size d' = fixed_count_size d"
proof -
  let ?f = "field_at fs j"
  have ff: "flat_field ?f" "tag ?f \<noteq> 0" using flat_field_at [OF f] j flat_length [OF f] by simp_all
  have w8: "unat wt < 8" using wt by (auto simp: field_wire_type_def split: if_splits)
  obtain s where s: "pb_decode_tag (strm d) = (Some (wt, tag ?f), False, s)" "stream_at from_buffer s (vb @ vs) []"
      "ierrmsg s = ierrmsg (strm d)"
    using buf_source.pb_decode_tag_at [OF at w8] ff by (auto simp: flat_field_def)
  have "tag_bytes wt (tag ?f) \<noteq> []" using varint_bytes_shape by (metis tag_bytes_def Nil_is_append_conv list.distinct(1))
  then have nz: "bytes_left (strm d) \<noteq> 0" using at by (auto simp: stream_at_def)
  obtain it' where it': "pb_field_iter_find (diter l) (tag ?f) = (True, it')" "flat_iter fs q it' j"
    using flat_find [OF f it j] by blast
  have cur: "cur it' = ?f" "pData it' = snd (place fs q ! j)" "pSize it' = In_mem (flag (place fs q ! j))"
      "fst (place fs q ! j) = ?f"
    using flat_iter_cur [OF it'(2)] it'(2) by (auto simp: flat_iter_def)
  obtain d' where d': "decode_field n env (call_decoder env init noinit) wt it' (d\<lparr>strm := s\<rparr>) = Some (True, it', d')"
      "stream_at from_buffer (strm d') vs []" "ierrmsg (strm d') = ierrmsg s"
      "dmem d' = put_field (dmem d) (place fs q ! j) True (mem_read m p (unat (data_size ?f)))"
      "fixed_count_size d' = fixed_count_size d"
    using decode_static_flat [of "place fs q ! j" it' sub m p vb "d\<lparr>strm := s\<rparr>" vs n env init noinit wt] ff cur v s(2) by auto
  have "track_fixed_count (l\<lparr>diter := it'\<rparr>) (d\<lparr>strm := s\<rparr>) = Some (l\<lparr>diter := it'\<rparr>, d\<lparr>strm := s\<rparr>)"
    "mark_seen (l\<lparr>diter := it'\<rparr>) = l\<lparr>diter := it'\<rparr>"
    using cur flat_types [OF ff(1)] by (simp_all add: track_fixed_count_def mark_seen_def Let_def)
  then have "decode_loop (Suc k) n env (call_decoder env init noinit) l d =
       decode_loop k n env (call_decoder env init noinit) (l\<lparr>diter := it'\<rparr>) d'"
    using nz s(1) it'(1) d'(1) by (simp add: Let_def)
  then show ?thesis using it'(2) d' s(3) by auto
qed


section \<open>Decoding the message\<close>

definition flat_bytes :: "mem \<Rightarrow> pb_field \<times> addr \<Rightarrow> byte list option" where
  "flat_bytes m x = field_bytes (msg_bytes m (submsg_fields (ptr (fst x)))) m (fst x) (snd x)"

lemma flat_bytes_eq:
  assumes "flat_field (fst x)"
  shows "flat_bytes m x = (if load_bool m (flag x)
    then cat (tag_for (fst x)) (value_bytes (msg_bytes m (submsg_fields (ptr (fst x)))) m (fst x) (snd x)) else Some [])"
  using assms by (simp add: flat_bytes_def field_bytes_def flat_field_def flag_def Let_def)

lemma msg_bytes_flat: "msg_bytes m fs p = cats (map (flat_bytes m) (place fs p))"
  unfolding msg_bytes.simps [of m fs p] flat_bytes_def by (simp add: case_prod_beta')

lemma same_field_put:
  assumes "laid_out fs q" "i < length (place fs q)" "j < length (place fs q)" "i \<noteq> j"
    "length bs \<le> unat (data_size (fst (place fs q ! j)))"
  shows "same_field m x (put_field m' (place fs q ! j) b bs) (place fs q ! i) = same_field m x m' (place fs q ! i)"
  using put_field_other [OF assms(1,3,2) assms(4) [symmetric] assms(5)] by (simp add: same_field_def)

lemma decode_loop_message:
  assumes f: "flat fs" and lay: "laid_out fs q" and j: "j \<le> length (place fs q)"
    and bs: "cats (map (flat_bytes m) (drop j (place fs p))) = Some bs" and at: "stream_at from_buffer (strm d) bs []"
    and it: "flat_iter fs q (diter l) i0" and k: "length (place fs q) - j < k"
    and done_ok: "\<And>i. i < j \<Longrightarrow> same_field m (place fs p ! i) (dmem d) (place fs q ! i)"
    and todo: "\<And>i. j \<le> i \<Longrightarrow> i < length (place fs q) \<Longrightarrow> \<not> load_bool (dmem d) (flag (place fs q ! i))"
  shows "\<exists>l' d' i'. decode_loop k n env (call_decoder env init noinit) l d = Some (True, l', d')
     \<and> flat_iter fs q (diter l') i' \<and> fixed_count_field l' = fixed_count_field l \<and> fields_seen l' = fields_seen l
     \<and> stream_at from_buffer (strm d') [] [] \<and> ierrmsg (strm d') = ierrmsg (strm d)
     \<and> (\<forall>i<length (place fs q). same_field m (place fs p ! i) (dmem d') (place fs q ! i))"
  using assms
proof (induction "length (place fs q) - j" arbitrary: j bs d l i0 k)
  case 0
  then have "j = length (place fs p)" "j = length (place fs q)" using flat_length [OF f] by simp_all
  moreover have "bs = []" using 0 calculation by simp
  moreover obtain k' where "k = Suc k'" using 0 by (cases k) auto
  moreover have "bytes_left (strm d) = 0" using 0 calculation by (simp add: stream_at_def unat_eq_zero)
  ultimately show ?case using 0 by auto
next
  case (Suc r)
  let ?x = "place fs p ! j" and ?y = "place fs q ! j" and ?f = "field_at fs j"
  have jn: "j < length (place fs q)" using Suc.hyps(2) by simp
  then have jm: "j < length (place fs p)" using flat_length [OF f] by simp
  have xy: "fst ?x = ?f" "fst ?y = ?f" using place_field jn jm by simp_all
  have ff: "flat_field ?f" using flat_field_at(1) [OF f] jn flat_length [OF f] by simp
  have "drop j (place fs p) = ?x # drop (Suc j) (place fs p)" using jm by (simp add: Cons_nth_drop_Suc)
  then obtain us vs where us: "flat_bytes m ?x = Some us" "cats (map (flat_bytes m) (drop (Suc j) (place fs p))) = Some vs"
      "bs = us @ vs"
    using Suc.prems(4) by (auto simp: cat_def split: option.splits)
  show ?case
  proof (cases "load_bool m (flag ?x)")
    case False
    then have "us = []" using us(1) flat_bytes_eq [of ?x m] ff xy by simp
    have "same_field m (place fs p ! i) (dmem d) (place fs q ! i)" if "i < Suc j" for i
      using Suc.prems(8) [of i] Suc.prems(9) [of j] that jn False by (cases "i = j") (auto simp: same_field_def)
    then show ?thesis
      using Suc.hyps(1) [of "Suc j" vs d l i0 k] Suc.hyps(2) Suc.prems us \<open>us = []\<close> jn by simp
  next
    case True
    then have "cat (tag_for ?f) (value_bytes (msg_bytes m (submsg_fields (ptr ?f))) m ?f (snd ?x)) = Some us"
      using us(1) flat_bytes_eq [of ?x m] ff xy by simp
    then obtain wt vb where w: "field_wire_type (ltype ?f) = Some wt"
        "value_bytes (msg_bytes m (submsg_fields (ptr ?f))) m ?f (snd ?x) = Some vb" "us = tag_bytes wt (tag ?f) @ vb"
      by (auto simp: cat_def tag_for_def split: option.splits)
    obtain k' where k': "k = Suc k'" using Suc.prems(7) by (cases k) auto
    have at: "stream_at from_buffer (strm d) (tag_bytes wt (tag ?f) @ vb @ vs) []" using Suc.prems(5) us(3) w(3) by simp
    obtain it' d' where d': "decode_loop k n env (call_decoder env init noinit) l d =
          decode_loop k' n env (call_decoder env init noinit) (l\<lparr>diter := it'\<rparr>) d'"
        "flat_iter fs q it' j" "stream_at from_buffer (strm d') vs []" "ierrmsg (strm d') = ierrmsg (strm d)"
        "dmem d' = put_field (dmem d) ?y True (mem_read m (snd ?x) (unat (data_size ?f)))"
      using decode_loop_flat [OF f Suc.prems(6) jn w(1,2) at, of k' n env init noinit] k' by blast
    have len: "length (mem_read m (snd ?x) (unat (data_size ?f))) = unat (data_size (fst ?y))" using xy by simp
    have "same_field m (place fs p ! i) (dmem d') (place fs q ! i)" if "i < Suc j" for i
    proof (cases "i = j")
      case True
      then show ?thesis using put_field_own [OF lay jn] len xy \<open>load_bool m (flag ?x)\<close> d'(5)
        by (simp add: same_field_def)
    next
      case False
      then show ?thesis using same_field_put [OF lay _ jn] Suc.prems(8) [of i] that jn len d'(5) by simp
    qed
    moreover have "\<not> load_bool (dmem d') (flag (place fs q ! i))" if "Suc j \<le> i" "i < length (place fs q)" for i
      using put_field_other(1) [OF lay jn that(2)] len that Suc.prems(9) [of i] d'(5) by simp
    ultimately show ?thesis
      using Suc.hyps(1) [of "Suc j" vs d' "l\<lparr>diter := it'\<rparr>" j k'] Suc.hyps(2) Suc.prems(1,2,7) us(2) d' jn k' by simp
  qed
qed

section \<open>Default values of a flat message\<close>

lemma set_default_flat:
  assumes f: "flat_field (fst x)" and it: "cur it = fst x" "pData it = snd x" "pSize it = In_mem (flag x)"
  shows "\<exists>bs. pb_field_set_to_default (Suc n) env it h = Some (upd_mem h (put_field (hmem h) x False bs))
     \<and> length bs \<le> unat (data_size (fst x))"
proof -
  have t: "ltype (fst x) \<noteq> PB_LTYPE_EXTENSION" "ltype (fst x) \<noteq> PB_LTYPE_SUBMESSAGE"
    using f by (auto simp: flat_field_def copyable_def)
  let ?bs = "case ptr (fst x) of Default v \<Rightarrow> take (unat (data_size (fst x))) v
     | _ \<Rightarrow> replicate (unat (data_size (fst x))) 0"
  have "pb_field_set_to_default (Suc n) env it h = Some (upd_mem h (put_field (hmem h) x False ?bs))"
    using t it flat_types [OF f] flag_not_data [OF f]
    by (cases "ptr (fst x)") (simp_all add: set_static_default_def put_field_def c_memset0_def)
  moreover have "length ?bs \<le> unat (data_size (fst x))" by (cases "ptr (fst x)") simp_all
  ultimately show ?thesis by blast
qed

lemma default_loop_flat:
  assumes f: "flat fs" and lay: "laid_out fs p" and it: "flat_iter fs p it i"
  shows "\<exists>h'. iter_loop (\<lambda>it h. map_option (Pair True) (pb_field_set_to_default (Suc n) env it h)) it h = Some (True, h')
     \<and> (\<forall>j<length (place fs p). load_bool (hmem h') (flag (place fs p ! j)) \<longrightarrow>
          j < i \<and> load_bool (hmem h) (flag (place fs p ! j)))"
  using it
proof (induction "length (place fs p) - i" arbitrary: it i h rule: less_induct)
  case less
  let ?body = "\<lambda>it h. map_option (Pair True) (pb_field_set_to_default (Suc n) env it h)"
  let ?x = "place fs p ! i"
  note c = flat_iter_cur [OF less.prems]
  have ps: "pSize it = In_mem (flag ?x)" using less.prems by (simp add: flat_iter_def)
  have "flat_field (fst ?x)"
    using flat_field_at(1) [OF f, of i] flat_length [OF f, of p] c(3) place_field [OF c(3)] by simp
  from set_default_flat [OF this c(1,2) ps, of n env h]
  obtain bs where "pb_field_set_to_default (Suc n) env it h = Some (upd_mem h (put_field (hmem h) ?x False bs))"
      and len: "length bs \<le> unat (data_size (fst ?x))" by blast
  then have bs: "?body it h = Some (True, upd_mem h (put_field (hmem h) ?x False bs))"
      "length bs \<le> unat (data_size (fst ?x))"
    using len by (simp_all del: pb_field_set_to_default.simps)
  let ?h = "upd_mem h (put_field (hmem h) ?x False bs)"
  have own: "\<not> load_bool (hmem ?h) (flag ?x)" using put_field_own(1) [OF lay c(3) bs(2)] by simp
  have other: "load_bool (hmem ?h) (flag (place fs p ! j)) = load_bool (hmem h) (flag (place fs p ! j))"
    if "j < length (place fs p)" "j \<noteq> i" for j
    using put_field_other(1) [OF lay c(3) that(1) that(2) [symmetric] bs(2)] by simp
  note nx = flat_iter_next [OF f less.prems]
  show ?case
  proof (cases "Suc i < length (place fs p)")
    case True
    obtain it' where it': "pb_field_iter_next it = (True, it')" "flat_iter fs p it' (Suc i)"
      using nx True by (metis prod.collapse)
    obtain h' where h': "iter_loop ?body it' ?h = Some (True, h')"
        "\<forall>j<length (place fs p). load_bool (hmem h') (flag (place fs p ! j)) \<longrightarrow>
           j < Suc i \<and> load_bool (hmem ?h) (flag (place fs p ! j))"
      using less.hyps [OF diff_less_mono2 [OF lessI c(3)] it'(2), of ?h] by blast
    have "iter_loop ?body it h = Some (True, h')"
      using bs(1) it'(1) h'(1) by (simp add: iter_loop.simps [of _ it] del: pb_field_set_to_default.simps)
    moreover have "j < i \<and> load_bool (hmem h) (flag (place fs p ! j))"
      if "j < length (place fs p)" "load_bool (hmem h') (flag (place fs p ! j))" for j
    proof -
      have "j < Suc i" "load_bool (hmem ?h) (flag (place fs p ! j))" using h'(2) that by blast+
      moreover have "j \<noteq> i" using calculation own by blast
      ultimately show ?thesis using other [OF that(1)] by (metis less_Suc_eq)
    qed
    ultimately show ?thesis by blast
  next
    case False
    obtain it' where it': "pb_field_iter_next it = (False, it')" using nx False by (metis prod.collapse)
    have "iter_loop ?body it h = Some (True, ?h)"
      using bs(1) it' by (simp add: iter_loop.simps [of _ it] del: pb_field_set_to_default.simps)
    moreover have "j < i \<and> load_bool (hmem h) (flag (place fs p ! j))"
      if "j < length (place fs p)" "load_bool (hmem ?h) (flag (place fs p ! j))" for j
    proof -
      have "j \<noteq> i" using that own by blast
      then show ?thesis using that other [OF that(1)] False by (metis Suc_lessI less_antisym linorder_neqE_nat order.strict_trans)
    qed
    ultimately show ?thesis by blast
  qed
qed

lemma defaults_flat:
  assumes "flat fs" "laid_out fs p"
  shows "\<exists>h'. pb_message_set_to_defaults (Suc (Suc n)) env fs p h = Some h'
     \<and> (\<forall>j<length (place fs p). \<not> load_bool (hmem h') (flag (place fs p ! j)))"
proof -
  have it: "flat_iter fs p (snd (pb_field_iter_begin fs p)) 0" using flat_iter_begin [OF assms(1)] .
  have "fst (pb_field_iter_begin fs p)"
    using flat_field_at(2) [OF assms(1), of 0] assms(1) by (auto simp: flat_def)
  then have b: "pb_field_iter_begin fs p = (True, snd (pb_field_iter_begin fs p))" by (metis prod.collapse)
  from default_loop_flat [OF assms it, of n env h] obtain h' where
    "iter_loop (\<lambda>it h. map_option (Pair True) (pb_field_set_to_default (Suc n) env it h))
       (snd (pb_field_iter_begin fs p)) h = Some (True, h')"
    "\<forall>j<length (place fs p). \<not> load_bool (hmem h') (flag (place fs p ! j))" by blast
  moreover from this b have "pb_message_set_to_defaults (Suc (Suc n)) env fs p h = Some h'"
    unfolding pb_message_set_to_defaults.simps for_fields_def
    by (auto split: prod.splits simp del: pb_field_set_to_default.simps)
  ultimately show ?thesis by blast
qed

text \<open>No field of a flat message is required.\<close>

lemma seek_last_flat:
  assumes "flat fs" "flat_iter fs p it i"
  shows "\<exists>f it'. seek_last it = (0, ftype f, it') \<and> htype f = PB_HTYPE_OPTIONAL"
  using assms(2)
proof (induction "length (place fs p) - i" arbitrary: it i rule: less_induct)
  case less
  note nx = flat_iter_next [OF assms(1) less.prems] and c = flat_iter_cur [OF less.prems]
  have "flat_field (cur it)"
    using flat_field_at(1) [OF assms(1), of i] flat_length [OF assms(1), of p] c place_field [OF c(3)] by simp
  then have h: "htype (cur it) = PB_HTYPE_OPTIONAL" "required_field_index it = 0"
    using flat_types(1) less.prems by (auto simp: flat_iter_def)
  show ?case
  proof (cases "Suc i < length (place fs p)")
    case True
    then obtain it' where it': "pb_field_iter_next it = (True, it')" "flat_iter fs p it' (Suc i)"
      using nx by (metis prod.collapse)
    then show ?thesis using less.hyps [of "Suc i" it'] True by (simp add: seek_last.simps [of it])
  next
    case False
    then obtain it' where "pb_field_iter_next it = (False, it')" using nx by (metis prod.collapse)
    then show ?thesis using h by (auto simp: seek_last.simps [of it])
  qed
qed

lemma finish_flat:
  assumes "flat fs" "flat_iter fs p (diter l) i" "fixed_count_field l = None"
  shows "finish_message l d = (True, d)"
proof -
  have "req_field_count (diter l) = 0"
    using seek_last_flat [OF assms(1,2)] by (auto simp: req_field_count_def Let_def)
  then show ?thesis using assms(3) by (simp add: finish_message_def all_required_seen_def)
qed

section \<open>The round trip\<close>

lemma plain_Cons:
  "plain (f # fs) \<longleftrightarrow> (atype f = PB_ATYPE_STATIC \<or> atype f = PB_ATYPE_POINTER) \<and> ltype f \<noteq> PB_LTYPE_EXTENSION
     \<and> (ltype f = PB_LTYPE_SUBMESSAGE \<longrightarrow> plain_ptr (ptr f)) \<and> plain fs"
  by (cases f) simp

lemma flat_fields_plain: "list_all flat_field fs \<Longrightarrow> plain (fs @ [PB_LAST_FIELD])"
proof (induction fs)
  case Nil
  then show ?case by code_simp
next
  case (Cons f fs)
  then show ?case by (auto simp: plain_Cons flat_field_def copyable_def)
qed

lemma flat_plain: "flat fs \<Longrightarrow> plain fs"
proof -
  assume f: "flat fs"
  then have "fs = butlast fs @ [PB_LAST_FIELD]" by (metis flat_def terminated_def append_butlast_last_id)
  then show ?thesis using flat_fields_plain [of "butlast fs"] f by (metis flat_def)
qed

lemma decode_flat:
  assumes f: "flat fs" and lay: "laid_out fs q" and bs: "msg_bytes m fs p = Some bs"
    and len: "length bs < 2 ^ 64" and n: "length fs \<le> n"
  shows "\<exists>s' h'. pb_decode n env fs q (reading bs) h = Some (True, s', h') \<and> left s' [] \<and> ierrmsg s' = None
     \<and> (\<forall>i<length (place fs q). same_field m (place fs p ! i) (hmem h') (place fs q ! i))"
proof -
  have "2 \<le> n" using f n by (simp add: flat_def)
  then obtain n' where n': "n = Suc (Suc n')" by (metis add_2_eq_Suc le_Suc_ex)
  from defaults_flat [OF f lay, of n' env h] obtain h0 where
      h0: "pb_message_set_to_defaults n env fs q h = Some h0"
      "\<forall>j<length (place fs q). \<not> load_bool (hmem h0) (flag (place fs q ! j))" using n' by blast
  let ?noinit = "pb_decode_noinit (Suc n') env"
  let ?dec = "call_decoder env (decode_with_init (Suc n') env ?noinit) ?noinit"
  let ?l = "init_locals fs q" and ?d = "\<lparr>strm = reading bs, heap = h0, fixed_count_size = 0\<rparr>"
  have it: "flat_iter fs q (diter ?l) 0" using flat_iter_begin [OF f] by (simp add: init_locals_def)
  have at: "stream_at from_buffer (strm ?d) bs []" using stream_at_buffer [OF len] by simp
  have k: "length (place fs q) - 0 < n" using flat_length [OF f] n f by (auto simp: flat_def)
  from decode_loop_message [where k = n and n = "Suc n'" and l = ?l and d = ?d and m = m and p = p and j = 0 and bs = bs
      and env = env and init = "decode_with_init (Suc n') env ?noinit" and noinit = ?noinit, OF f lay _ _ at it k]
  obtain l' d' i' where d': "decode_loop n (Suc n') env ?dec ?l ?d = Some (True, l', d')" "flat_iter fs q (diter l') i'"
      "fixed_count_field l' = fixed_count_field ?l" "stream_at from_buffer (strm d') [] []"
      "ierrmsg (strm d') = ierrmsg (strm ?d)"
      "\<forall>i<length (place fs q). same_field m (place fs p ! i) (dmem d') (place fs q ! i)"
    using bs msg_bytes_flat [of m fs p] h0(2) by auto
  have "finish_message l' d' = (True, d')"
    using finish_flat [OF f d'(2)] d'(3) by (simp add: init_locals_def)
  then have "pb_decode_noinit n env fs q (reading bs) h0 = Some (True, strm d', heap d')"
    using d'(1) n' by (simp add: Let_def del: decode_loop.simps)
  then have "pb_decode n env fs q (reading bs) h = Some (True, strm d', heap d')"
    using h0(1) by (simp add: pb_decode_def decode_with_init_def)
  then show ?thesis using d' stream_at_left by fastforce
qed

text \<open>The descriptors of \<^verbatim>\<open>gdt_cct_NetworkConnectionInfo\<close> are of this kind.\<close>

lemma network_info_fields:
  "gdt_cct_NetworkConnectionInfo_fields =
     [pb_field 1 0x10 4 (- 4) 4 0 (Default [0xFF, 0xFF, 0xFF, 0xFF]), pb_field 2 0x11 4 (- 4) 4 0 (Default [0, 0, 0, 0]),
      PB_LAST_FIELD]"
  by code_simp

lemma network_info_flat:
  "flat gdt_cct_NetworkConnectionInfo_fields" "laid_out gdt_cct_NetworkConnectionInfo_fields 0x2000"
  "length gdt_cct_NetworkConnectionInfo_fields \<le> 3"
  unfolding network_info_fields
  by (simp_all add: flat_def terminated_def flat_field_def copyable_def laid_out_def regions_def flag_def apart_def
      next_data_def prev_size_def PB_ATYPE_def PB_HTYPE_def PB_LTYPE_def)

text \<open>
  C13: the round trip of a message whose fields are optional, static and numeric or of fixed length. If the
  reference encoding of the message fits the buffer, \<^verbatim>\<open>pb_encode\<close> writes it, and \<^verbatim>\<open>pb_decode\<close> of those bytes
  into any struct whose members do not overlap succeeds, uses all of them, and leaves every presence flag and every
  present value as in the original, whatever the struct held before.
\<close>

theorem flat_roundtrip:
  assumes "flat fs" "laid_out fs q" "msg_bytes m fs p = Some bs" "length bs \<le> unat bufsize" "unat bufsize < 2 ^ 63"
    "fields_depth fs < k" "length fs \<le> n"
  shows "\<exists>os s' h'. pb_encode k eenv m fs p (pb_ostream_from_buffer bufsize) = Some (True, os) \<and> osink os = Buffer bs
     \<and> pb_decode n env fs q (reading bs) h = Some (True, s', h') \<and> left s' [] \<and> ierrmsg s' = None
     \<and> (\<forall>i<length (place fs q). same_field m (place fs p ! i) (hmem h') (place fs q ! i))"
proof -
  have "writes in_buffer (pb_encode k eenv m fs p) (Some bs)"
    using pb_encode_Suc_writes [OF flat_plain [OF assms(1)] assms(6)] assms(3) by metis
  from writes_stores_buffer [OF this assms(4,5)]
  obtain os where "pb_encode k eenv m fs p (pb_ostream_from_buffer bufsize) = Some (True, os)" "osink os = Buffer bs"
    by blast
  moreover have "length bs < 2 ^ 64" using assms(4,5) by simp
  ultimately show ?thesis using decode_flat [OF assms(1-3) _ assms(7), of env h] by blast
qed

theorem flat_roundtrip_witness:
  "\<exists>os s' h'. pb_encode 1 no_callbacks wifi_mem gdt_cct_NetworkConnectionInfo_fields 4096
       (pb_ostream_from_buffer 16) = Some (True, os) \<and> osink os = Buffer [8, 1]
     \<and> pb_decode 3 fixed_alloc gdt_cct_NetworkConnectionInfo_fields 0x2000 (reading [8, 1])
         (heap (blank [])) = Some (True, s', h') \<and> left s' [] \<and> ierrmsg s' = None
     \<and> (\<forall>i<length (place gdt_cct_NetworkConnectionInfo_fields 0x2000).
          same_field wifi_mem (place gdt_cct_NetworkConnectionInfo_fields 4096 ! i)
            (hmem h') (place gdt_cct_NetworkConnectionInfo_fields 0x2000 ! i))"
proof -
  have "length [8, 1 :: byte] \<le> unat (16 :: size_t)" "unat (16 :: size_t) < 2 ^ 63" by simp_all
  from flat_roundtrip [OF network_info_flat(1,2) wifi_bytes this wifi_fields(2) network_info_flat(3),
      of no_callbacks fixed_alloc "heap (blank [])"]
  show ?thesis .
qed

end
