(* ===== verification/Fbase64.thy ===== *)
theory Fbase64
  imports Prelude
begin

text \<open>
  \<^verbatim>\<open>SocketRocket/fbase64.c\<close>: the base64 encoder \<^verbatim>\<open>f_b64_ntop\<close> and decoder
  \<^verbatim>\<open>f_b64_pton\<close> the web socket handshake uses. Both return a C \<^verbatim>\<open>int\<close>, -1 for an error,
  and fill a target buffer of \<open>targsize\<close> bytes.
\<close>

section \<open>Definitions\<close>

definition Base64 :: string where
  "Base64 = ''ABCDEFGHIJKLMNOPQRSTUVWXYZabcdefghijklmnopqrstuvwxyz0123456789+/''"

definition Pad64 :: char where
  "Pad64 = CHR ''=''"

text \<open>Conversion of an unsigned value to a 32-bit \<^verbatim>\<open>int\<close>.\<close>

definition to_c_int :: "nat \<Rightarrow> int" where
  "to_c_int k = sint (of_nat k :: uint32)"

definition base64_char :: "byte \<Rightarrow> char" where
  "base64_char b = Base64 ! unat b"

text \<open>
  The main loop of \<^verbatim>\<open>f_b64_ntop\<close>: whole groups of three bytes. \<open>target\<close> is what has been
  stored so far, so its length is \<^verbatim>\<open>datalength\<close>. The Boolean is false for \<^verbatim>\<open>return (-1)\<close>.
\<close>

fun ntop_loop :: "byte list \<Rightarrow> char list \<Rightarrow> nat \<Rightarrow> bool \<times> byte list \<times> char list" where
  "ntop_loop (i0 # i1 # i2 # src) target targsize =
     (let o0 = drop_bit 2 i0;
          o1 = push_bit 4 (i0 AND 0x03) + drop_bit 4 i1;
          o2 = push_bit 2 (i1 AND 0x0F) + drop_bit 6 i2;
          o3 = i2 AND 0x3F
      in if length target + 4 > targsize then (False, src, target)
         else ntop_loop src
                (target @ [base64_char o0, base64_char o1, base64_char o2, base64_char o3]) targsize)"
| "ntop_loop src target targsize = (True, src, target)"

definition f_b64_ntop :: "byte list \<Rightarrow> nat \<Rightarrow> int \<times> char list" where
  "f_b64_ntop src targsize =
     (case ntop_loop src [] targsize of
        (False, _, target) \<Rightarrow> (-1, target)
      | (True, rest, target) \<Rightarrow>
          let finish = (\<lambda>target.
                if length target \<ge> targsize then (-1, target)
                else (to_c_int (length target), target @ [CHR 0x00]))
          in (case rest of
                [] \<Rightarrow> finish target
              | i0 # rest' \<Rightarrow>
                  let i1 = (case rest' of [] \<Rightarrow> 0 | b # _ \<Rightarrow> b);
                      o0 = drop_bit 2 i0;
                      o1 = push_bit 4 (i0 AND 0x03) + drop_bit 4 i1;
                      o2 = push_bit 2 (i1 AND 0x0F) + drop_bit 6 0
                  in if length target + 4 > targsize then (-1, target)
                     else finish (target @ [base64_char o0, base64_char o1,
                                            if rest' = [] then Pad64 else base64_char o2, Pad64])))"

text \<open>\<^verbatim>\<open>isspace\<close> in the C locale, and the position \<^verbatim>\<open>strchr(Base64, ch)\<close> finds.\<close>

definition isspace :: "char \<Rightarrow> bool" where
  "isspace c \<longleftrightarrow> c \<in> {CHR 0x20, CHR 0x09, CHR 0x0A, CHR 0x0B, CHR 0x0C, CHR 0x0D}"

fun strchr_index :: "string \<Rightarrow> char \<Rightarrow> nat option" where
  "strchr_index [] c = None"
| "strchr_index (x # xs) c = (if x = c then Some 0 else map_option Suc (strchr_index xs c))"

text \<open>
  The decoder's variables. The target is none for a null pointer; otherwise it is the
  buffer, of \<open>targsize\<close> bytes.
\<close>

record pton =
  pstate :: nat
  tarindex :: nat
  target :: "byte list option"

definition bump_index :: "nat \<Rightarrow> nat" where
  "bump_index k = (k + 1) mod 2 ^ 32"

definition put_target :: "nat \<Rightarrow> byte \<Rightarrow> pton \<Rightarrow> pton" where
  "put_target i b p = p\<lparr>target := map_option (\<lambda>t. t[i := b]) (target p)\<rparr>"

definition or_target :: "nat \<Rightarrow> byte \<Rightarrow> pton \<Rightarrow> pton" where
  "or_target i b p = p\<lparr>target := map_option (\<lambda>t. t[i := t ! i OR b]) (target p)\<rparr>"

text \<open>The \<^verbatim>\<open>switch\<close> on the state for the digit \<open>v\<close>; false for \<^verbatim>\<open>return (-1)\<close>.\<close>

definition pton_digit :: "nat \<Rightarrow> byte \<Rightarrow> pton \<Rightarrow> bool \<times> pton" where
  "pton_digit targsize v p =
     (let k = tarindex p; full = (\<lambda>i. target p \<noteq> None \<and> i \<ge> targsize) in
      if pstate p = 0 then
        (if full k then (False, p)
         else (True, (put_target k (push_bit 2 v) p)\<lparr>pstate := 1\<rparr>))
      else if pstate p = 1 then
        (if full (bump_index k) then (False, p)
         else (True, (put_target (bump_index k) (push_bit 4 (v AND 0x0F))
                        (or_target k (drop_bit 4 v) p))\<lparr>tarindex := bump_index k, pstate := 2\<rparr>))
      else if pstate p = 2 then
        (if full (bump_index k) then (False, p)
         else (True, (put_target (bump_index k) (push_bit 6 (v AND 0x03))
                        (or_target k (drop_bit 2 v) p))\<lparr>tarindex := bump_index k, pstate := 3\<rparr>))
      else
        (if full k then (False, p)
         else (True, (or_target k v p)\<lparr>tarindex := bump_index k, pstate := 0\<rparr>)))"

text \<open>
  The main loop over the characters before the terminating null. The Boolean is false for
  \<^verbatim>\<open>return (-1)\<close>; otherwise the loop ended at the end of the string (\<open>None\<close>) or at a pad
  character (\<open>Some\<close> of what follows it).
\<close>

fun pton_loop :: "nat \<Rightarrow> string \<Rightarrow> pton \<Rightarrow> bool \<times> string option \<times> pton" where
  "pton_loop targsize [] p = (True, None, p)"
| "pton_loop targsize (ch # src) p =
     (if isspace ch then pton_loop targsize src p
      else if ch = Pad64 then (True, Some src, p)
      else (case strchr_index Base64 ch of
              None \<Rightarrow> (False, None, p)
            | Some i \<Rightarrow> (case pton_digit targsize (of_nat i) p of
                           (False, p') \<Rightarrow> (False, None, p')
                         | (True, p') \<Rightarrow> pton_loop targsize src p')))"

text \<open>The checks after the loop; true when the input is accepted.\<close>

definition pton_tail_ok :: "string \<Rightarrow> pton \<Rightarrow> bool" where
  "pton_tail_ok rest p \<longleftrightarrow>
     list_all isspace rest \<and> (case target p of None \<Rightarrow> True | Some t \<Rightarrow> t ! tarindex p = 0)"

definition pton_finish :: "string option \<Rightarrow> pton \<Rightarrow> int" where
  "pton_finish r p =
     (case r of
        None \<Rightarrow> if pstate p \<noteq> 0 then -1 else to_c_int (tarindex p)
      | Some rest \<Rightarrow>
          if pstate p = 0 \<or> pstate p = 1 then -1
          else if pstate p = 2 then
            (case dropWhile isspace rest of
               [] \<Rightarrow> -1
             | c # rest' \<Rightarrow> if c = Pad64 \<and> pton_tail_ok rest' p then to_c_int (tarindex p) else -1)
          else if pton_tail_ok rest p then to_c_int (tarindex p) else -1)"

definition f_b64_pton :: "string \<Rightarrow> byte list option \<Rightarrow> nat \<Rightarrow> int \<times> byte list option" where
  "f_b64_pton src tgt targsize =
     (case pton_loop targsize (takeWhile (\<lambda>c. c \<noteq> CHR 0x00) src) \<lparr>pstate = 0, tarindex = 0, target = tgt\<rparr> of
        (False, _, p) \<Rightarrow> (-1, target p)
      | (True, r, p) \<Rightarrow> (pton_finish r p, target p))"

end
