(* ===== verification/Fbase64_Thms.thy ===== *)
theory Fbase64_Thms
  imports Fbase64
begin

text \<open>
  The theorems about base64: the encoder against the definition of the format (groups of
  24 bits as four digits, padding at the end), its use of the target buffer, and the decoder
  as its inverse.
\<close>

section \<open>The format\<close>

definition digit :: "nat \<Rightarrow> char" where
  "digit n = Base64 ! (n mod 64)"

text \<open>The four digits of the 24-bit number that three bytes make.\<close>

definition quad :: "byte \<Rightarrow> byte \<Rightarrow> byte \<Rightarrow> char list" where
  "quad a b c = (let n = unat a * 65536 + unat b * 256 + unat c
     in [digit (n div 262144), digit (n div 4096), digit (n div 64), digit n])"

fun b64 :: "byte list \<Rightarrow> char list" where
  "b64 (a # b # c # bs) = quad a b c @ b64 bs"
| "b64 [a, b] = take 3 (quad a b 0) @ [Pad64]"
| "b64 [a] = take 2 (quad a 0 0) @ [Pad64, Pad64]"
| "b64 [] = []"

section \<open>The digits the code computes\<close>

definition o0 :: "byte \<Rightarrow> byte" where "o0 a = drop_bit 2 a"
definition o1 :: "byte \<Rightarrow> byte \<Rightarrow> byte" where "o1 a b = push_bit 4 (a AND 0x03) + drop_bit 4 b"
definition o2 :: "byte \<Rightarrow> byte \<Rightarrow> byte" where "o2 b c = push_bit 2 (b AND 0x0F) + drop_bit 6 c"
definition o3 :: "byte \<Rightarrow> byte" where "o3 c = c AND 0x3F"

lemma unat_less8: "unat (w :: byte) < 256"
  using unsigned_less [of w, where ?'a = nat] by simp

lemma masks:
  "w AND 0x03 = take_bit 2 w" "w AND 0x0F = take_bit 4 w" "w AND 0x3F = take_bit 6 w" for w :: byte
  by (simp_all add: take_bit_eq_mask mask_eq_exp_minus_1)

lemma unat_take: "unat (take_bit n w) = unat w mod 2 ^ n" for w :: byte
  by (simp only: unsigned_take_bit_eq) (simp add: take_bit_eq_mod)

lemma unat_push: "unat w * 2 ^ n < 256 \<Longrightarrow> unat (push_bit n w) = unat w * 2 ^ n" for w :: byte
  by (simp only: unsigned_push_bit_eq) (simp add: push_bit_eq_mult take_bit_nat_eq_self)

lemma unat_o0: "unat (o0 a) = unat a div 4"
  by (simp add: o0_def unat_shift_right)

lemma unat_o1: "unat (o1 a b) = unat a mod 4 * 16 + unat b div 16"
proof -
  have "unat (push_bit 4 (take_bit 2 a)) = unat a mod 4 * 16"
    using unat_push [of "take_bit 2 a" 4] by (simp add: unat_take)
  moreover have "unat b div 16 < 16" using unat_less8 [of b] by (simp add: less_mult_imp_div_less)
  ultimately show ?thesis
    by (simp add: o1_def masks unat_word_ariths unat_shift_right)
qed

lemma unat_o2: "unat (o2 b c) = unat b mod 16 * 4 + unat c div 64"
proof -
  have "unat (push_bit 2 (take_bit 4 b)) = unat b mod 16 * 4"
    using unat_push [of "take_bit 4 b" 2] by (simp add: unat_take)
  moreover have "unat c div 64 < 4" using unat_less8 [of c] by (simp add: less_mult_imp_div_less)
  ultimately show ?thesis
    by (simp add: o2_def masks unat_word_ariths unat_shift_right)
qed

lemma unat_o3: "unat (o3 c) = unat c mod 64"
  by (simp add: o3_def masks unat_take)


lemma or_plus: "(x AND y = 0) \<Longrightarrow> x + y = x OR y" for x y :: byte
  using word_plus_and_or [of x y] by simp

lemma o1_or: "o1 a b = push_bit 4 (take_bit 2 a) OR drop_bit 4 b"
proof -
  have "push_bit 4 (take_bit 2 a) AND drop_bit 4 b = 0"
    by (rule bit_word_eqI) (auto simp: bit_and_iff bit_push_bit_iff bit_take_bit_iff bit_drop_bit_eq dest: bit_imp_le_length)
  then show ?thesis by (simp only: o1_def masks or_plus)
qed

lemma o2_or: "o2 b c = push_bit 2 (take_bit 4 b) OR drop_bit 6 c"
proof -
  have "push_bit 2 (take_bit 4 b) AND drop_bit 6 c = 0"
    by (rule bit_word_eqI) (auto simp: bit_and_iff bit_push_bit_iff bit_take_bit_iff bit_drop_bit_eq dest: bit_imp_le_length)
  then show ?thesis by (simp only: o2_def masks or_plus)
qed

lemmas byte_bits = bit_or_iff bit_push_bit_iff bit_take_bit_iff bit_drop_bit_eq comp_def

lemma byte_eqI: "(\<And>i. i \<in> {0, 1, 2, 3, 4, 5, 6, 7} \<Longrightarrow> bit x i = bit y i) \<Longrightarrow> x = y" for x y :: byte
proof (rule bit_word_eqI)
  fix i assume a: "\<And>i. i \<in> {0, 1, 2, 3, 4, 5, 6, 7} \<Longrightarrow> bit x i = bit y i" and "i < LENGTH(8)"
  then have "i < 8" by simp
  then have "i \<in> {0, 1, 2, 3, 4, 5, 6, 7}" unfolding insert_iff empty_iff by presburger
  then show "bit x i = bit y i" by (rule a)
qed

lemma bit_byte_high [simp]: "8 \<le> i \<Longrightarrow> bit (w :: byte) i = False"
  using bit_imp_le_length [of w i] by auto

lemma digits_inverse:
  "push_bit 2 (o0 a) OR drop_bit 4 (o1 a b) = a"
  "push_bit 4 (o1 a b AND 0x0F) OR drop_bit 2 (o2 b c) = b"
  "push_bit 6 (o2 b c AND 0x03) OR o3 c = c"
proof -
  show "push_bit 2 (o0 a) OR drop_bit 4 (o1 a b) = a"
    by (rule byte_eqI) (auto simp: o0_def o1_or byte_bits, simp_all add: eval_nat_numeral)
  show "push_bit 4 (o1 a b AND 0x0F) OR drop_bit 2 (o2 b c) = b"
    by (rule byte_eqI) (auto simp: masks o1_or o2_or byte_bits)
  show "push_bit 6 (o2 b c AND 0x03) OR o3 c = c"
    by (rule byte_eqI) (auto simp: masks o2_or o3_def byte_bits)
qed

lemma digits_zero: "push_bit 4 (o1 a 0 AND 0x0F) = 0" "push_bit 6 (o2 b 0 AND 0x03) = 0"
  by (rule byte_eqI; auto simp: masks o1_or o2_or byte_bits)+

lemma base64_digit: "unat d < 64 \<Longrightarrow> base64_char d = digit (unat d)"
  by (simp add: base64_char_def digit_def)

lemma digit_values:
  fixes x y z :: nat
  assumes "y < 256" "z < 256"
  shows "(x * 65536 + y * 256 + z) div 262144 = x div 4"
    "(x * 65536 + y * 256 + z) div 4096 mod 64 = x mod 4 * 16 + y div 16"
    "(x * 65536 + y * 256 + z) div 64 mod 64 = y mod 16 * 4 + z div 64"
    "(x * 65536 + y * 256 + z) mod 64 = z mod 64"
proof -
  let ?n = "x * 65536 + y * 256 + z"
  have "?n div 256 = x * 256 + y" using assms(2) by simp
  then have a: "?n div 4096 = x * 16 + y div 16" using div_mult2_eq [of ?n 256 16] by simp
  have "y div 16 < 16" using assms(1) by (simp add: less_mult_imp_div_less)
  then show "?n div 4096 mod 64 = x mod 4 * 16 + y div 16"
    using mod_mult2_eq [of "x * 16 + y div 16" 16 4] a by (simp add: mult.commute)
  have "y * 256 + z < 65536" using assms by simp
  then have "?n div 65536 = x" by (simp add: div_nat_eqI)
  then show "?n div 262144 = x div 4" using div_mult2_eq [of ?n 65536 4] by simp
  have "?n div 64 = x * 1024 + y * 4 + z div 64" by simp
  then have c: "?n div 64 mod 64 = (x * 1024 + (y * 4 + z div 64)) mod 64" by (simp only: add.assoc)
  have "z div 64 < 4" using assms(2) by (simp add: less_mult_imp_div_less)
  then show "?n div 64 mod 64 = y mod 16 * 4 + z div 64"
    using mod_mult2_eq [of "y * 4 + z div 64" 4 16] mod_mult_self3 [of "x * 16" 64 "y * 4 + z div 64"]
    unfolding c by (simp add: mult.commute)
  have "?n = (x * 1024 + y * 4) * 64 + z" by simp
  then show "?n mod 64 = z mod 64" by (simp only: mod_mult_self3)
qed

lemma quad_chars: "quad a b c = [base64_char (o0 a), base64_char (o1 a b), base64_char (o2 b c), base64_char (o3 c)]"
proof -
  have l: "unat a < 256" "unat b < 256" "unat c < 256" by (rule unat_less8)+
  let ?n = "unat a * 65536 + unat b * 256 + unat c"
  note v = digit_values [OF l(2,3), of "unat a"]
  have "unat a div 4 < 64" using l by (simp add: less_mult_imp_div_less)
  moreover have "unat a mod 4 * 16 + unat b div 16 < 64" "unat b mod 16 * 4 + unat c div 64 < 64"
    using v(2,3) by (metis mod_less_divisor zero_less_numeral)+
  ultimately show ?thesis
    by (simp add: quad_def Let_def base64_digit unat_o0 unat_o1 unat_o2 unat_o3 digit_def v)
qed


section \<open>The encoder\<close>

lemma length_quad [simp]: "length (quad a b c) = 4"
  by (simp add: quad_def Let_def)

lemma length_b64: "length (b64 bs) = 4 * ((length bs + 2) div 3)"
proof (induction bs rule: b64.induct)
  case (1 a b c bs)
  have "length (b64 (a # b # c # bs)) = 4 * ((length bs + 2) div 3 + 1)" using 1 by simp
  also have "(length bs + 2) div 3 + 1 = (length bs + 2 + 3) div 3" by (rule div_add_self2 [symmetric]) simp
  also have "length bs + 2 + 3 = length (a # b # c # bs) + 2" by simp
  finally show ?case .
qed simp_all

lemma ntop_loop_True:
  "ntop_loop src t N = (True, rest, t') \<Longrightarrow> length t \<le> N \<Longrightarrow>
     length rest < 3 \<and> t @ b64 src = t' @ b64 rest \<and> length t' \<le> N"
  by (induction src t N rule: ntop_loop.induct)
     (auto simp: Let_def quad_chars o0_def o1_def o2_def o3_def split: if_splits)

lemma ntop_loop_False:
  "ntop_loop src t N = (False, rest, t') \<Longrightarrow> length t \<le> N \<Longrightarrow>
     \<exists>u. t @ b64 src = t' @ u \<and> length t' \<le> N \<and> N < length t' + 4 \<and> 4 \<le> length u"
  by (induction src t N rule: ntop_loop.induct)
     (auto simp: Let_def quad_chars o0_def o1_def o2_def o3_def split: if_splits)

lemma ntop_tail:
  assumes "length rest < 3" "rest \<noteq> []"
  shows "b64 rest = (let i0 = hd rest; i1 = (case tl rest of [] \<Rightarrow> 0 | b # _ \<Rightarrow> b)
     in [base64_char (o0 i0), base64_char (o1 i0 i1),
         if tl rest = [] then Pad64 else base64_char (o2 i1 0), Pad64])"
  using assms by (cases rest rule: b64.cases) (simp_all add: quad_chars)

lemma ntop_spec:
  "(if length (b64 src) < targsize
    then f_b64_ntop src targsize = (to_c_int (length (b64 src)), b64 src @ [CHR 0x00])
    else fst (f_b64_ntop src targsize) = -1 \<and> (\<exists>k. snd (f_b64_ntop src targsize) = take k (b64 src)
           \<and> length (snd (f_b64_ntop src targsize)) \<le> targsize))
   \<and> length (b64 src) = 4 * ((length src + 2) div 3)"
proof -
  obtain r rest t where l: "ntop_loop src [] targsize = (r, rest, t)" by (cases "ntop_loop src [] targsize") auto
  show ?thesis
  proof (cases r)
    case False
    then obtain u where "b64 src = t @ u" "length t \<le> targsize" "targsize < length t + 4" "4 \<le> length u"
      using ntop_loop_False [of src "[]" targsize rest t] l by auto
    then show ?thesis using l False length_b64 [of src] by (auto simp: f_b64_ntop_def intro!: exI [of _ "length t"])
  next
    case True
    then have t: "length rest < 3" "b64 src = t @ b64 rest" "length t \<le> targsize"
      using ntop_loop_True [of src "[]" targsize rest t] l by simp_all
    show ?thesis
    proof (cases rest)
      case Nil
      then show ?thesis using t l True length_b64 [of src]
        by (auto simp: f_b64_ntop_def Let_def intro!: exI [of _ "length t"])
    next
      case (Cons i0 rs)
      let ?q = "b64 rest"
      have q: "?q = (let i1 = (case rs of [] \<Rightarrow> 0 | b # _ \<Rightarrow> b) in
          [base64_char (drop_bit 2 i0), base64_char (push_bit 4 (i0 AND 0x03) + drop_bit 4 i1),
           if rs = [] then Pad64 else base64_char (push_bit 2 (i1 AND 0x0F) + drop_bit 6 0), Pad64])"
        using ntop_tail [OF t(1), unfolded o0_def o1_def o2_def] Cons by simp
      have "f_b64_ntop src targsize = (if length t + 4 > targsize then (-1, t)
          else if length (t @ ?q) \<ge> targsize then (-1, t @ ?q)
          else (to_c_int (length (t @ ?q)), t @ ?q @ [CHR 0x00]))"
        unfolding f_b64_ntop_def l q using True Cons by (simp add: Let_def)
      moreover have "length ?q = 4" using q by (simp add: Let_def)
      ultimately show ?thesis using t length_b64 [of src]
        by (auto intro: exI [of _ "length t"] exI [of _ "length t + 4"])
    qed
  qed
qed


lemma ntop_room: "length (b64 src) < targsize \<Longrightarrow>
    f_b64_ntop src targsize = (to_c_int (length (b64 src)), b64 src @ [CHR 0x00])"
  using ntop_spec [of src targsize] by simp

text \<open>
  C27: \<^verbatim>\<open>f_b64_ntop\<close> writes the base64 form of its input and a terminating null, and returns the number of
  characters, four for every three bytes begun; when the target has no room for all of it the result is -1 and
  the characters stored are a prefix that fits. It never writes past the target.
\<close>

theorem f_b64_ntop_correct:
  "(if length (b64 src) < targsize
    then f_b64_ntop src targsize = (to_c_int (length (b64 src)), b64 src @ [CHR 0x00])
    else fst (f_b64_ntop src targsize) = -1 \<and> (\<exists>k. snd (f_b64_ntop src targsize) = take k (b64 src)
           \<and> length (snd (f_b64_ntop src targsize)) \<le> targsize))
   \<and> length (b64 src) = 4 * ((length src + 2) div 3)"
  by (rule ntop_spec)

section \<open>The decoder\<close>

lemma Base64_index: "list_all (\<lambda>i. strchr_index Base64 (Base64 ! i) = Some i \<and> \<not> isspace (Base64 ! i)
    \<and> Base64 ! i \<noteq> Pad64 \<and> Base64 ! i \<noteq> CHR 0x00) [0..<64]"
  by code_simp

lemma base64_char_index:
  assumes "unat d < 64"
  shows "strchr_index Base64 (base64_char d) = Some (unat d)" "\<not> isspace (base64_char d)"
    "base64_char d \<noteq> Pad64" "base64_char d \<noteq> CHR 0x00"
  using Base64_index assms by (simp_all add: list_all_length base64_char_def)

lemma digit_range: "unat (o0 a) < 64" "unat (o1 a b) < 64" "unat (o2 b c) < 64" "unat (o3 c) < 64"
proof -
  have "unat a < 256" "unat b < 256" "unat c < 256" by (rule unat_less8)+
  moreover have "unat a mod 4 < 4" "unat b mod 16 < 16" "unat c mod 64 < 64" by simp_all
  moreover have "unat b div 16 < 16" "unat c div 64 < 4" "unat a div 4 < 64"
    using calculation by (simp_all add: less_mult_imp_div_less)
  ultimately show "unat (o0 a) < 64" "unat (o1 a b) < 64" "unat (o2 b c) < 64" "unat (o3 c) < 64"
    unfolding unat_o0 unat_o1 unat_o2 unat_o3 by linarith+
qed

lemma pton_loop_digit:
  "unat d < 64 \<Longrightarrow> pton_loop N (base64_char d # src) p =
     (case pton_digit N d p of (False, p') \<Rightarrow> (False, None, p') | (True, p') \<Rightarrow> pton_loop N src p')"
  by (simp add: base64_char_index pton_loop.simps(2))

declare pton_loop.simps(2) [simp del]

text \<open>One, two and three digits after a byte boundary, and the whole group.\<close>

lemma pton_two:
  assumes "k + 1 < N" "length t = N" "N < 2 ^ 32"
  shows "pton_loop N (base64_char (o0 a) # base64_char (o1 a b) # src) \<lparr>pstate = 0, tarindex = k, target = Some t\<rparr> =
    pton_loop N src \<lparr>pstate = 2, tarindex = k + 1, target = Some (t[k := a, k + 1 := push_bit 4 (o1 a b AND 0x0F)])\<rparr>"
  using assms digits_inverse(1) [of a b]
  by (simp add: pton_loop_digit digit_range pton_digit_def bump_index_def put_target_def or_target_def Let_def)

lemma pton_third:
  assumes "k + 2 < N" "length t = N" "N < 2 ^ 32"
  shows "pton_loop N (base64_char (o2 b c) # src)
      \<lparr>pstate = 2, tarindex = k + 1, target = Some (t[k := a, k + 1 := push_bit 4 (o1 a b AND 0x0F)])\<rparr> =
    pton_loop N src \<lparr>pstate = 3, tarindex = k + 2, target = Some (t[k := a, k + 1 := b, k + 2 := push_bit 6 (o2 b c AND 0x03)])\<rparr>"
  using assms digits_inverse(2) [of a b c]
  by (simp add: pton_loop_digit digit_range pton_digit_def bump_index_def put_target_def or_target_def Let_def)

lemma pton_quad:
  assumes "k + 2 < N" "length t = N" "N < 2 ^ 32"
  shows "pton_loop N (quad a b c @ src) \<lparr>pstate = 0, tarindex = k, target = Some t\<rparr> =
    pton_loop N src \<lparr>pstate = 0, tarindex = k + 3, target = Some (t[k := a, k + 1 := b, k + 2 := c])\<rparr>"
proof -
  have "pton_loop N (base64_char (o3 c) # src)
      \<lparr>pstate = 3, tarindex = k + 2, target = Some (t[k := a, k + 1 := b, k + 2 := push_bit 6 (o2 b c AND 0x03)])\<rparr> =
    pton_loop N src \<lparr>pstate = 0, tarindex = k + 3, target = Some (t[k := a, k + 1 := b, k + 2 := c])\<rparr>"
    using assms digits_inverse(3) [of b c]
    by (simp add: pton_loop_digit digit_range pton_digit_def bump_index_def or_target_def Let_def add.commute)
  then show ?thesis using pton_two [of k N t a b "base64_char (o2 b c) # base64_char (o3 c) # src"]
      pton_third [of k N t b c "base64_char (o3 c) # src" a] assms
    by (simp add: quad_chars)
qed


lemma take_update_group:
  "k + 3 \<le> length t \<Longrightarrow> take (k + 3) (t[k := a, k + 1 := b, k + 2 := c]) = take k t @ [a, b, c]"
  by (rule nth_equalityI) (auto simp: nth_append nth_list_update nth_Cons split: nat.splits)

lemma pad_loop: "pton_loop N (Pad64 # src) p = (True, Some src, p)"
  by (simp add: pton_loop.simps(2) Pad64_def isspace_def)

lemma pton_b64:
  assumes "k + length bs < N" "length t = N" "N < 2 ^ 32"
  shows "\<exists>r p t'. pton_loop N (b64 bs) \<lparr>pstate = 0, tarindex = k, target = Some t\<rparr> = (True, r, p)
     \<and> pton_finish r p = to_c_int (k + length bs) \<and> target p = Some t' \<and> length t' = N
     \<and> take (k + length bs) t' = take k t @ bs"
  using assms
proof (induction bs arbitrary: k t rule: b64.induct)
  case (1 a b c bs)
  let ?t = "t[k := a, k + 1 := b, k + 2 := c]"
  have "take (k + 3) ?t = take k t @ [a, b, c]" using 1(2,3) by (intro take_update_group) simp
  moreover have "k + length (a # b # c # bs) = k + 3 + length bs" by simp
  moreover have "pton_loop N (b64 (a # b # c # bs)) \<lparr>pstate = 0, tarindex = k, target = Some t\<rparr> =
      pton_loop N (b64 bs) \<lparr>pstate = 0, tarindex = k + 3, target = Some ?t\<rparr>"
    using pton_quad [of k N t a b c "b64 bs"] 1(2-4) by simp
  ultimately show ?case using "1.IH" [of "k + 3" ?t] 1(2-4) by (simp only:) simp
next
  case (2 a b)
  let ?t = "t[k := a, k + 1 := b, k + 2 := 0]"
  have "take (k + 2) ?t = take k t @ [a, b]" "?t ! (k + 2) = 0"
    using take_update_group [of k t a b 0] 2 by (simp_all add: take_Suc_conv_app_nth)
  moreover have "pton_loop N (b64 [a, b]) \<lparr>pstate = 0, tarindex = k, target = Some t\<rparr> =
      (True, Some [], \<lparr>pstate = 3, tarindex = k + 2, target = Some ?t\<rparr>)"
    using pton_two [of k N t a b "[base64_char (o2 b 0), Pad64]"] pton_third [of k N t b 0 "[Pad64]" a]
      digits_zero(2) [of b] 2 by (simp add: quad_chars pad_loop)
  ultimately show ?case using 2(2) by (simp add: pton_finish_def pton_tail_ok_def)
next
  case (3 a)
  let ?t = "t[k := a, k + 1 := 0]"
  have "take (k + 1) ?t = take k t @ [a]" "?t ! (k + 1) = 0"
    using 3 by (simp_all add: take_Suc_conv_app_nth)
  moreover have "pton_loop N (b64 [a]) \<lparr>pstate = 0, tarindex = k, target = Some t\<rparr> =
      (True, Some [Pad64], \<lparr>pstate = 2, tarindex = k + 1, target = Some ?t\<rparr>)"
    using pton_two [of k N t a 0 "[Pad64, Pad64]"] digits_zero(1) [of a] 3 by (simp add: quad_chars pad_loop)
  ultimately show ?case using 3(2)
    by (simp add: pton_finish_def pton_tail_ok_def) (simp add: Pad64_def isspace_def)
next
  case 4
  then show ?case by (simp add: pton_finish_def)
qed


lemma to_c_int_small: "n < 2 ^ 31 \<Longrightarrow> to_c_int n = int n"
  by (simp add: to_c_int_def sint_uint uint_nat unat_of_nat signed_take_bit_int_eq_self_iff)

lemma b64_no_null: "list_all (\<lambda>c. c \<noteq> CHR 0x00) (b64 bs)"
  by (induction bs rule: b64.induct) (simp_all add: quad_chars base64_char_index digit_range Pad64_def)

lemma takeWhile_null: "takeWhile (\<lambda>c. c \<noteq> CHR 0x00) (b64 bs @ [CHR 0x00]) = b64 bs"
  using b64_no_null [of bs] by (simp add: list_all_iff takeWhile_append2)

text \<open>
  C28: what \<^verbatim>\<open>f_b64_ntop\<close> encodes \<^verbatim>\<open>f_b64_pton\<close> decodes: it returns the length of the data and stores the
  data at the front of the target. The target must be one byte longer than the data, because the decoder stores
  the unused bits of the last digit.
\<close>

theorem base64_roundtrip:
  assumes "length (b64 src) < targsize" "length src < N" "length t = N" "N < 2 ^ 31"
  shows "\<exists>t'. f_b64_pton (snd (f_b64_ntop src targsize)) (Some t) N = (int (length src), Some t')
     \<and> take (length src) t' = src \<and> length t' = N"
proof -
  have "snd (f_b64_ntop src targsize) = b64 src @ [CHR 0x00]" using ntop_room [OF assms(1)] by simp
  moreover obtain r p t' where "pton_loop N (b64 src) \<lparr>pstate = 0, tarindex = 0, target = Some t\<rparr> = (True, r, p)"
      "pton_finish r p = to_c_int (length src)" "target p = Some t'" "length t' = N" "take (length src) t' = src"
    using pton_b64 [of 0 src N t] assms(2-4) by auto
  ultimately show ?thesis using assms(2,4) by (simp add: f_b64_pton_def takeWhile_null to_c_int_small)
qed

theorem base64_roundtrip_witness:
  "\<exists>t'. f_b64_pton (snd (f_b64_ntop [0x66, 0x6F, 0x6F, 0x62] 9)) (Some [0, 0, 0, 0, 0]) 5 = (4, Some t')
     \<and> take (length [0x66, 0x6F, 0x6F, 0x62 :: byte]) t' = [0x66, 0x6F, 0x6F, 0x62] \<and> length t' = 5"
  using base64_roundtrip [of "[0x66, 0x6F, 0x6F, 0x62]" 9 5 "[0, 0, 0, 0, 0]"] by (simp add: length_b64)

lemma pton_loop_space:
  "pton_loop N (filter (\<lambda>c. \<not> isspace c) src) p =
     (case pton_loop N src p of (b, r, p') \<Rightarrow> (b, map_option (filter (\<lambda>c. \<not> isspace c)) r, p'))"
  by (induction N src p rule: pton_loop.induct)
     (auto simp: pton_loop.simps(2) split: option.splits prod.splits bool.splits)

lemma tail_space: "pton_tail_ok (filter (\<lambda>c. \<not> isspace c) rest) p = pton_tail_ok rest p"
proof -
  have "list_all isspace (filter (\<lambda>c. \<not> isspace c) rest) = list_all isspace rest" by (induction rest) auto
  then show ?thesis by (simp add: pton_tail_ok_def)
qed

lemma dropWhile_space:
  "dropWhile isspace (filter (\<lambda>c. \<not> isspace c) xs) = filter (\<lambda>c. \<not> isspace c) (dropWhile isspace xs)"
  by (induction xs) (auto simp: dropWhile_eq_self_iff)

lemma dropWhile_head: "dropWhile isspace xs = c # ys \<Longrightarrow> \<not> isspace c"
  by (metis hd_dropWhile list.distinct(1) list.sel(1))

lemma pton_finish_space: "pton_finish (map_option (filter (\<lambda>c. \<not> isspace c)) r) p = pton_finish r p"
proof (cases r)
  case (Some a)
  show ?thesis
  proof (cases "dropWhile isspace a")
    case Nil
    then show ?thesis using Some by (simp add: pton_finish_def tail_space dropWhile_space del: dropWhile_eq_Nil_conv)
  next
    case (Cons c ys)
    then show ?thesis using Some dropWhile_head [OF Cons]
      by (simp add: pton_finish_def tail_space dropWhile_space)
  qed
qed (simp add: pton_finish_def)

lemma space_null: "takeWhile (\<lambda>c. c \<noteq> CHR 0x00) (filter (\<lambda>c. \<not> isspace c) src) =
    filter (\<lambda>c. \<not> isspace c) (takeWhile (\<lambda>c. c \<noteq> CHR 0x00) src)"
  by (induction src) (auto simp: isspace_def)

text \<open>
  \<^verbatim>\<open>f_b64_pton\<close> ignores white space anywhere in its input.
\<close>

theorem f_b64_pton_space: "f_b64_pton (filter (\<lambda>c. \<not> isspace c) src) tgt targsize = f_b64_pton src tgt targsize"
  by (simp add: f_b64_pton_def space_null pton_loop_space pton_finish_space split: prod.splits bool.splits)

section \<open>The decoder stays within its target\<close>

text \<open>
  Between two characters the target has its length, nothing at or past \<open>targsize\<close> has changed, and
  the index is inside the target whenever a byte is begun.
\<close>

definition pton_inv :: "nat \<Rightarrow> byte list \<Rightarrow> pton \<Rightarrow> bool" where
  "pton_inv N t p \<longleftrightarrow> (\<exists>t'. target p = Some t' \<and> length t' = length t \<and> drop N t' = drop N t)
     \<and> tarindex p \<le> N \<and> (pstate p \<noteq> 0 \<longrightarrow> tarindex p < N) \<and> pstate p < 4"

lemma drop_update: "i < N \<Longrightarrow> drop N (xs[i := x]) = drop N xs"
  by (simp add: drop_update_cancel)

lemma pton_digit_inv:
  "pton_inv N t p \<Longrightarrow> N < 2 ^ 32 \<Longrightarrow> pton_digit N v p = (r, p') \<Longrightarrow> pton_inv N t p'"
  by (auto simp: pton_inv_def pton_digit_def Let_def put_target_def or_target_def bump_index_def drop_update
      split: if_splits)

lemma pton_loop_inv:
  "pton_loop N src p = (b, r, p') \<Longrightarrow> pton_inv N t p \<Longrightarrow> N < 2 ^ 32 \<Longrightarrow> pton_inv N t p'"
proof (induction N src p rule: pton_loop.induct)
  case (2 N ch src p)
  then show ?case
    by (auto simp: pton_loop.simps(2) dest: pton_digit_inv split: if_splits option.splits prod.splits bool.splits)
qed simp

text \<open>
  C29: on every input string \<^verbatim>\<open>f_b64_pton\<close> changes at most the first \<open>targsize\<close> bytes of the target, and its
  result is -1 or a number of bytes that fits in the target.
\<close>

theorem f_b64_pton_bounds:
  assumes "targsize \<le> length t" "targsize < 2 ^ 31"
  shows "\<exists>t'. snd (f_b64_pton src (Some t) targsize) = Some t' \<and> length t' = length t \<and> drop targsize t' = drop targsize t
     \<and> (fst (f_b64_pton src (Some t) targsize) = -1 \<or>
        0 \<le> fst (f_b64_pton src (Some t) targsize) \<and> fst (f_b64_pton src (Some t) targsize) \<le> int targsize)"
proof -
  let ?p = "\<lparr>pstate = 0, tarindex = 0, target = Some t\<rparr>"
  obtain b r p where l: "pton_loop targsize (takeWhile (\<lambda>c. c \<noteq> CHR 0x00) src) ?p = (b, r, p)"
    by (cases "pton_loop targsize (takeWhile (\<lambda>c. c \<noteq> CHR 0x00) src) ?p") auto
  have "pton_inv targsize t ?p" by (simp add: pton_inv_def)
  then have i: "pton_inv targsize t p" using pton_loop_inv [OF l] assms(2) by simp
  then have "pton_finish r p = -1 \<or> pton_finish r p = int (tarindex p)"
    using assms(2) to_c_int_small [of "tarindex p"] by (auto simp: pton_finish_def pton_inv_def split: option.splits list.splits)
  then show ?thesis using i l by (cases b) (auto simp: f_b64_pton_def pton_inv_def)
qed

theorem f_b64_pton_bounds_witness:
  "\<exists>t'. snd (f_b64_pton ''QUJD'' (Some [0, 0, 7]) 2) = Some t' \<and> length t' = length [0, 0, 7 :: byte]
     \<and> drop 2 t' = drop 2 [0, 0, 7]
     \<and> (fst (f_b64_pton ''QUJD'' (Some [0, 0, 7]) 2) = -1 \<or>
        0 \<le> fst (f_b64_pton ''QUJD'' (Some [0, 0, 7]) 2) \<and> fst (f_b64_pton ''QUJD'' (Some [0, 0, 7]) 2) \<le> int 2)"
  by (rule f_b64_pton_bounds) simp_all

end
