(* ===== verification/Ldb_Coding.thy ===== *)
theory Ldb_Coding
  imports Varint
begin

text \<open>
  \<^verbatim>\<open>leveldb-library/util/coding.h\<close> and \<^verbatim>\<open>coding.cc\<close>: fixed width numbers, varints and length
  prefixed slices of the storage engine. A slice and a string are byte lists; a pointer into a
  buffer with its limit is the list of the bytes from the pointer to the limit, and a null result
  is none. A routine that appends to a string returns the longer string.
\<close>

section \<open>Definitions\<close>

type_synonym slice = "byte list"

definition EncodeFixed32 :: "uint32 \<Rightarrow> byte list" where
  "EncodeFixed32 v = le_bytes 4 v"

definition EncodeFixed64 :: "uint64 \<Rightarrow> byte list" where
  "EncodeFixed64 v = le_bytes 8 v"

definition PutFixed32 :: "byte list \<Rightarrow> uint32 \<Rightarrow> byte list" where
  "PutFixed32 dst v = dst @ EncodeFixed32 v"

definition PutFixed64 :: "byte list \<Rightarrow> uint64 \<Rightarrow> byte list" where
  "PutFixed64 dst v = dst @ EncodeFixed64 v"

text \<open>Reading needs the bytes to be there; the callers check it.\<close>

definition DecodeFixed32 :: "byte list \<Rightarrow> uint32" where
  "DecodeFixed32 p = le_word (take 4 p)"

definition DecodeFixed64 :: "byte list \<Rightarrow> uint64" where
  "DecodeFixed64 p = le_word (take 8 p)"

definition EncodeVarint32 :: "uint32 \<Rightarrow> byte list" where
  "EncodeVarint32 v =
     (if v < push_bit 7 1 then [ucast v]
      else if v < push_bit 14 1 then [ucast (v OR 128), ucast (drop_bit 7 v)]
      else if v < push_bit 21 1 then [ucast (v OR 128), ucast (drop_bit 7 v OR 128), ucast (drop_bit 14 v)]
      else if v < push_bit 28 1 then
        [ucast (v OR 128), ucast (drop_bit 7 v OR 128), ucast (drop_bit 14 v OR 128), ucast (drop_bit 21 v)]
      else [ucast (v OR 128), ucast (drop_bit 7 v OR 128), ucast (drop_bit 14 v OR 128),
            ucast (drop_bit 21 v OR 128), ucast (drop_bit 28 v)])"

definition PutVarint32 :: "byte list \<Rightarrow> uint32 \<Rightarrow> byte list" where
  "PutVarint32 dst v = dst @ EncodeVarint32 v"

lemma shift7_less: "128 \<le> v \<Longrightarrow> unat (drop_bit 7 v) < unat v" for v :: uint64
  by (simp add: unat_shift_right word_le_nat_alt)

function EncodeVarint64 :: "uint64 \<Rightarrow> byte list" where
  "EncodeVarint64 v = (if v \<ge> 128 then ucast (v OR 128) # EncodeVarint64 (drop_bit 7 v) else [ucast v])"
  by pat_completeness auto
termination
  by (relation "measure unat") (auto simp: shift7_less)

declare EncodeVarint64.simps [simp del]

definition PutVarint64 :: "byte list \<Rightarrow> uint64 \<Rightarrow> byte list" where
  "PutVarint64 dst v = dst @ EncodeVarint64 v"

definition PutLengthPrefixedSlice :: "byte list \<Rightarrow> slice \<Rightarrow> byte list" where
  "PutLengthPrefixedSlice dst s = PutVarint32 dst (of_nat (length s)) @ s"

text \<open>The result of \<^verbatim>\<open>VarintLength\<close> is an \<^verbatim>\<open>int\<close> of at most 10.\<close>

function varint_length_loop :: "uint64 \<Rightarrow> nat \<Rightarrow> nat" where
  "varint_length_loop v len = (if v \<ge> 128 then varint_length_loop (drop_bit 7 v) (len + 1) else len)"
  by pat_completeness auto
termination
  by (relation "measure (unat \<circ> fst)") (auto simp: shift7_less)

declare varint_length_loop.simps [simp del]

definition VarintLength :: "uint64 \<Rightarrow> nat" where
  "VarintLength v = varint_length_loop v 1"

text \<open>
  The loops of \<^verbatim>\<open>GetVarint32PtrFallback\<close> and \<^verbatim>\<open>GetVarint64Ptr\<close>; \<open>shift\<close> grows by 7 until it
  exceeds 28 or 63.
\<close>

fun varint32_ptr_loop :: "nat \<Rightarrow> uint32 \<Rightarrow> byte list \<Rightarrow> (uint32 \<times> byte list) option" where
  "varint32_ptr_loop shift result [] = None"
| "varint32_ptr_loop shift result (b # p) =
     (if shift \<le> 28
      then if (ucast b :: uint32) AND 128 \<noteq> 0
           then varint32_ptr_loop (shift + 7) (result OR push_bit shift (ucast b AND 127)) p
           else Some (result OR push_bit shift (ucast b), p)
      else None)"

definition GetVarint32PtrFallback :: "byte list \<Rightarrow> (uint32 \<times> byte list) option" where
  "GetVarint32PtrFallback p = varint32_ptr_loop 0 0 p"

definition GetVarint32Ptr :: "byte list \<Rightarrow> (uint32 \<times> byte list) option" where
  "GetVarint32Ptr p =
     (case p of
        b # q \<Rightarrow> if (ucast b :: uint32) AND 128 = 0 then Some (ucast b, q) else GetVarint32PtrFallback p
      | [] \<Rightarrow> GetVarint32PtrFallback p)"

definition GetVarint32 :: "slice \<Rightarrow> uint32 option \<times> slice" where
  "GetVarint32 input =
     (case GetVarint32Ptr input of None \<Rightarrow> (None, input) | Some (v, q) \<Rightarrow> (Some v, q))"

fun varint64_ptr_loop :: "nat \<Rightarrow> uint64 \<Rightarrow> byte list \<Rightarrow> (uint64 \<times> byte list) option" where
  "varint64_ptr_loop shift result [] = None"
| "varint64_ptr_loop shift result (b # p) =
     (if shift \<le> 63
      then if (ucast b :: uint64) AND 128 \<noteq> 0
           then varint64_ptr_loop (shift + 7) (result OR push_bit shift (ucast b AND 127)) p
           else Some (result OR push_bit shift (ucast b), p)
      else None)"

definition GetVarint64Ptr :: "byte list \<Rightarrow> (uint64 \<times> byte list) option" where
  "GetVarint64Ptr p = varint64_ptr_loop 0 0 p"

definition GetVarint64 :: "slice \<Rightarrow> uint64 option \<times> slice" where
  "GetVarint64 input =
     (case GetVarint64Ptr input of None \<Rightarrow> (None, input) | Some (v, q) \<Rightarrow> (Some v, q))"

text \<open>The two versions of \<^verbatim>\<open>GetLengthPrefixedSlice\<close>, on pointers and on a slice.\<close>

definition GetLengthPrefixedSlicePtr :: "byte list \<Rightarrow> (slice \<times> byte list) option" where
  "GetLengthPrefixedSlicePtr p =
     (case GetVarint32Ptr p of
        None \<Rightarrow> None
      | Some (len, q) \<Rightarrow>
          if unat len > length q then None else Some (take (unat len) q, drop (unat len) q))"

definition GetLengthPrefixedSlice :: "slice \<Rightarrow> slice option \<times> slice" where
  "GetLengthPrefixedSlice input =
     (case GetVarint32 input of
        (None, input) \<Rightarrow> (None, input)
      | (Some len, input) \<Rightarrow>
          if length input \<ge> unat len then (Some (take (unat len) input), drop (unat len) input)
          else (None, input))"

section \<open>Encoding\<close>

text \<open>Storing a word with the continuation bit into a byte, and without it when it is small.\<close>

lemma more_byte: "ucast (v OR 128) = (of_nat (unat v mod 128 + 128) :: byte)" if "LENGTH('a) \<ge> 8" for v :: "'a::len word"
proof (rule bit_word_eqI)
  fix i assume "i < LENGTH(8)"
  then have i: "i < 8" by simp
  have b: "bit (128 :: 'b::len word) i \<longleftrightarrow> i = 7 \<and> 7 < LENGTH('b)" for i
    using bit_exp_iff [of 7 i, where 'a = "'b word"] by auto
  have "of_nat (unat v mod 128) OR push_bit 7 (of_nat 1) = (of_nat (unat v mod 128 + 2 ^ 7 * 1) :: byte)"
    by (rule or_group) simp
  then have "(of_nat (unat v mod 128 + 128) :: byte) = of_nat (unat v mod 128) OR 128" by simp
  moreover have "bit (of_nat (unat v mod 128) :: byte) i \<longleftrightarrow> i < 7 \<and> bit v i"
    using i bit_take_bit_iff [of 7 "unat v" i] by (simp add: bit_of_nat_iff take_bit_eq_mod bit_unsigned_iff)
  ultimately have "bit (of_nat (unat v mod 128 + 128) :: byte) i \<longleftrightarrow> i < 7 \<and> bit v i \<or> i = 7"
    by (simp only: bit_or_iff b) simp
  moreover have "bit (ucast (v OR 128) :: byte) i \<longleftrightarrow> bit v i \<or> i = 7"
    using i that by (simp only: bit_ucast_iff bit_or_iff b) auto
  ultimately show "bit (ucast (v OR 128) :: byte) i = bit (of_nat (unat v mod 128 + 128) :: byte) i"
    using i by auto
qed

lemma EncodeVarint64_ref: "EncodeVarint64 v = varint_bytes (unat v)"
proof (induction v rule: EncodeVarint64.induct)
  case (1 v)
  then show ?case
    by (subst EncodeVarint64.simps, subst varint_bytes.simps)
       (simp add: more_byte unat_shift_right word_le_nat_alt del: of_nat_add)
qed

lemma varint_bytes_more: "128 \<le> n \<Longrightarrow> varint_bytes n = of_nat (n mod 128 + 128) # varint_bytes (n div 128)"
  by (simp add: varint_bytes.simps [of n])

lemma varint_bytes_last: "n < 128 \<Longrightarrow> varint_bytes n = [of_nat n]"
  by (simp add: varint_bytes.simps [of n])

lemma EncodeVarint32_ref: "EncodeVarint32 v = varint_bytes (unat v)"
proof -
  have step: "varint_bytes (unat w) = ucast (w OR 128) # varint_bytes (unat (drop_bit 7 w))" if "\<not> w < 128" for w :: uint32
    using that varint_bytes_more [of "unat w"] by (simp add: more_byte word_less_nat_alt unat_shift_right del: of_nat_add)
  have last: "varint_bytes (unat w) = [ucast w]" if "w < 128" for w :: uint32
    using that varint_bytes_last [of "unat w"] by (simp add: word_less_nat_alt)
  have c: "v < push_bit 7 1 \<longleftrightarrow> v < 128" "v < push_bit 14 1 \<longleftrightarrow> drop_bit 7 v < 128"
    "v < push_bit 21 1 \<longleftrightarrow> drop_bit 14 v < 128" "v < push_bit 28 1 \<longleftrightarrow> drop_bit 21 v < 128" "drop_bit 28 v < 128"
    using unat_less32 [of v] by (auto simp: word_less_nat_alt unat_shift_right)
  have d: "drop_bit 7 (drop_bit 7 v) = drop_bit 14 v" "drop_bit 7 (drop_bit 14 v) = drop_bit 21 v"
    "drop_bit 7 (drop_bit 21 v) = drop_bit 28 v" by (simp_all add: drop_bit_drop_bit)
  show ?thesis unfolding EncodeVarint32_def c
    using step [of v] step [of "drop_bit 7 v"] step [of "drop_bit 14 v"] step [of "drop_bit 21 v"]
      last [of v] last [of "drop_bit 7 v"] last [of "drop_bit 14 v"] last [of "drop_bit 21 v"] last [OF c(5)]
    unfolding d
    by (cases "v < 128"; cases "drop_bit 7 v < 128"; cases "drop_bit 14 v < 128"; cases "drop_bit 21 v < 128") simp_all
qed

lemma VarintLength_ref: "VarintLength v = length (varint_bytes (unat v))"
proof -
  have "varint_length_loop v len = len + length (varint_bytes (unat v)) - 1" for len
  proof (induction v len rule: varint_length_loop.induct)
    case (1 v len)
    have "varint_bytes n \<noteq> []" for n by (subst varint_bytes.simps) simp
    then show ?case using 1
      by (subst varint_length_loop.simps, subst varint_bytes.simps)
         (auto simp: unat_shift_right word_le_nat_alt)
  qed
  then show ?thesis by (simp add: VarintLength_def)
qed

section \<open>Decoding\<close>

lemma more_ucast32: "(ucast b :: uint32) AND 128 \<noteq> 0 \<longleftrightarrow> more b" for b :: byte
proof -
  have "(ucast b :: uint32) AND 2 ^ 7 \<noteq> 0 \<longleftrightarrow> bit (ucast b :: uint32) 7" by (simp only: and_exp_eq_0_iff_not_bit) simp
  then show ?thesis by (simp add: more_iff_bit bit_ucast_iff)
qed

lemma more_ucast64: "(ucast b :: uint64) AND 128 \<noteq> 0 \<longleftrightarrow> more b" for b :: byte
proof -
  have "(ucast b :: uint64) AND 2 ^ 7 \<noteq> 0 \<longleftrightarrow> bit (ucast b :: uint64) 7" by (simp only: and_exp_eq_0_iff_not_bit) simp
  then show ?thesis by (simp add: more_iff_bit bit_ucast_iff)
qed

lemma group_value:
  fixes b :: byte
  assumes "8 \<le> LENGTH('a)"
  shows "(ucast b AND 127 :: 'a::len word) = of_nat (unat b mod 128)"
proof -
  have "(2 :: nat) ^ 8 \<le> 2 ^ LENGTH('a)" using assms by (intro power_increasing) simp_all
  then have "unat b < 2 ^ LENGTH('a)" using unsigned_less [of b, where ?'a = nat] by simp
  then have "unat (ucast b :: 'a word) = unat b" by (simp add: unsigned_ucast_eq take_bit_nat_eq_self)
  then have "unat (ucast b AND 127 :: 'a word) = unat b mod 128" using unat_and_7F [of "ucast b :: 'a word"] by simp
  then show ?thesis by (metis of_nat_unat ucast_id)
qed

lemma last_group_value: "\<not> more b \<Longrightarrow> ucast b = of_nat (unat b mod 128)" for b :: byte
  by (simp add: more_iff)

text \<open>
  The two decoders do the same at their widths: split off at most five or ten groups, up to the first without
  the continuation bit, and take their value modulo the width.
\<close>

fun varint_split :: "nat \<Rightarrow> byte list \<Rightarrow> (byte list \<times> byte list) option" where
  "varint_split 0 bs = None"
| "varint_split (Suc k) [] = None"
| "varint_split (Suc k) (b # bs) =
     (if more b then map_option (\<lambda>(us, rest). (b # us, rest)) (varint_split k bs) else Some ([b], bs))"

lemma varint64_ptr_loop_split:
  "i \<le> 10 \<Longrightarrow> x < 2 ^ (7 * i) \<Longrightarrow> varint64_ptr_loop (7 * i) (of_nat x) bs =
     map_option (\<lambda>(us, rest). (of_nat (x + 2 ^ (7 * i) * le7 us), rest)) (varint_split (10 - i) bs)"
proof (induction bs arbitrary: i x)
  case Nil
  then show ?case by (cases "10 - i") auto
next
  case (Cons b bs)
  show ?case
  proof (cases "i = 10")
    case False
    then have i: "7 * i \<le> 63" "10 - i = Suc (10 - Suc i)" "Suc i \<le> 10" using Cons.prems by auto
    let ?x = "x + 2 ^ (7 * i) * (unat b mod 128)"
    have e: "of_nat x OR push_bit (7 * i) (of_nat (unat b mod 128)) = (of_nat ?x :: uint64)"
      by (rule or_group [OF Cons.prems(2)])
    have "varint64_ptr_loop (7 * i + 7) (of_nat ?x) bs = map_option (\<lambda>(us, rest).
        (of_nat (?x + 2 ^ (7 * Suc i) * le7 us), rest)) (varint_split (10 - Suc i) bs)"
      using Cons.IH [OF i(3) group_bound [OF Cons.prems(2)], of "unat b"] by (simp add: add.commute)
    then show ?thesis
      unfolding i(2) varint64_ptr_loop.simps varint_split.simps more_ucast64
      using i(1) by (simp add: group_value last_group_value e option.map_comp comp_def case_prod_beta')
         (simp add: power_add algebra_simps)
  qed simp
qed

lemma GetVarint64Ptr_split:
  "GetVarint64Ptr bs = map_option (\<lambda>(us, rest). (of_nat (le7 us), rest)) (varint_split 10 bs)"
  using varint64_ptr_loop_split [of 0 0 bs] by (simp add: GetVarint64Ptr_def)

lemma varint32_ptr_loop_split:
  "i \<le> 5 \<Longrightarrow> x < 2 ^ (7 * i) \<Longrightarrow> varint32_ptr_loop (7 * i) (of_nat x) bs =
     map_option (\<lambda>(us, rest). (of_nat (x + 2 ^ (7 * i) * le7 us), rest)) (varint_split (5 - i) bs)"
proof (induction bs arbitrary: i x)
  case Nil
  then show ?case by (cases "5 - i") auto
next
  case (Cons b bs)
  show ?case
  proof (cases "i = 5")
    case False
    then have i: "7 * i \<le> 28" "5 - i = Suc (5 - Suc i)" "Suc i \<le> 5" using Cons.prems by auto
    let ?x = "x + 2 ^ (7 * i) * (unat b mod 128)"
    have e: "of_nat x OR push_bit (7 * i) (of_nat (unat b mod 128)) = (of_nat ?x :: uint32)"
      by (rule or_group [OF Cons.prems(2)])
    have "varint32_ptr_loop (7 * i + 7) (of_nat ?x) bs = map_option (\<lambda>(us, rest).
        (of_nat (?x + 2 ^ (7 * Suc i) * le7 us), rest)) (varint_split (5 - Suc i) bs)"
      using Cons.IH [OF i(3) group_bound [OF Cons.prems(2)], of "unat b"] by (simp add: add.commute)
    then show ?thesis
      unfolding i(2) varint32_ptr_loop.simps varint_split.simps more_ucast32
      using i(1) by (simp add: group_value last_group_value e option.map_comp comp_def case_prod_beta')
         (simp add: power_add algebra_simps)
  qed simp
qed

lemma GetVarint32Ptr_split:
  "GetVarint32Ptr bs = map_option (\<lambda>(us, rest). (of_nat (le7 us), rest)) (varint_split 5 bs)"
proof -
  have "GetVarint32PtrFallback bs = map_option (\<lambda>(us, rest). (of_nat (le7 us), rest)) (varint_split 5 bs)"
    using varint32_ptr_loop_split [of 0 0 bs] by (simp add: GetVarint32PtrFallback_def)
  moreover have "GetVarint32Ptr bs = GetVarint32PtrFallback bs"
    using more_ucast32 by (cases bs) (auto simp: GetVarint32Ptr_def GetVarint32PtrFallback_def)
  ultimately show ?thesis by simp
qed

lemma varint_split_Cons_more:
  "list_all more us \<Longrightarrow> \<not> more b \<Longrightarrow> length us < k \<Longrightarrow> varint_split k (us @ b # rest) = Some (us @ [b], rest)"
proof (induction us arbitrary: k)
  case Nil
  then show ?case by (cases k) auto
next
  case (Cons u us)
  then show ?case by (cases k) auto
qed

lemma varint_split_ref: "length (varint_bytes n) \<le> k \<Longrightarrow> varint_split k (varint_bytes n @ rest) = Some (varint_bytes n, rest)"
  using varint_bytes_shape [of n] varint_split_Cons_more by fastforce

lemma varint_bytes_length32: "length (varint_bytes (unat (v :: uint32))) \<le> 5"
proof -
  have "unat v < 128 ^ 5" by (rule less_trans [OF unat_less32]) simp
  then show ?thesis by (rule varint_bytes_length) simp
qed

lemma GetVarint32_put [simp]: "GetVarint32 (EncodeVarint32 v @ rest) = (Some v, rest)"
  by (simp add: GetVarint32_def GetVarint32Ptr_split EncodeVarint32_ref varint_split_ref [OF varint_bytes_length32]
      le7_varint_bytes)

lemma GetVarint64_put [simp]: "GetVarint64 (EncodeVarint64 v @ rest) = (Some v, rest)"
  by (simp add: GetVarint64_def GetVarint64Ptr_split EncodeVarint64_ref varint_split_ref [OF varint_bytes_length64]
      le7_varint_bytes)

lemma GetVarint32Ptr_put [simp]: "GetVarint32Ptr (EncodeVarint32 v @ rest) = Some (v, rest)"
  by (simp add: GetVarint32Ptr_split EncodeVarint32_ref varint_split_ref [OF varint_bytes_length32] le7_varint_bytes)

text \<open>A slice with its length in front.\<close>

definition prefixed :: "slice \<Rightarrow> byte list" where
  "prefixed s = EncodeVarint32 (of_nat (length s)) @ s"

lemma PutLengthPrefixedSlice_eq: "PutLengthPrefixedSlice dst s = dst @ prefixed s"
  by (simp add: PutLengthPrefixedSlice_def PutVarint32_def prefixed_def)

lemma unat_len32: "length s < 2 ^ 32 \<Longrightarrow> unat (of_nat (length s) :: uint32) = length s"
  by (simp add: unat_of_nat)

lemma GetLengthPrefixedSlice_put [simp]:
  "length s < 2 ^ 32 \<Longrightarrow> GetLengthPrefixedSlice (prefixed s @ rest) = (Some s, rest)"
  by (simp add: GetLengthPrefixedSlice_def prefixed_def unat_of_nat)

lemma GetLengthPrefixedSlicePtr_put [simp]:
  "length s < 2 ^ 32 \<Longrightarrow> GetLengthPrefixedSlicePtr (prefixed s @ rest) = Some (s, rest)"
  by (simp add: GetLengthPrefixedSlicePtr_def prefixed_def unat_of_nat)

lemma DecodeFixed32_put [simp]: "DecodeFixed32 (EncodeFixed32 v @ rest) = v"
  by (simp add: DecodeFixed32_def EncodeFixed32_def)

lemma DecodeFixed64_put [simp]: "DecodeFixed64 (EncodeFixed64 v @ rest) = v"
  by (simp add: DecodeFixed64_def EncodeFixed64_def)

lemma length_EncodeFixed [simp]: "length (EncodeFixed32 v) = 4" "length (EncodeFixed64 w) = 8"
  by (simp_all add: EncodeFixed32_def EncodeFixed64_def)

lemma DecodeFixed32_Encode [simp]: "DecodeFixed32 (EncodeFixed32 v) = v"
  using DecodeFixed32_put [of v "[]"] by simp

lemma EncodeFixed32_Decode: "4 \<le> length b \<Longrightarrow> EncodeFixed32 (DecodeFixed32 b) = take 4 b"
  using le_bytes_le_word [of "take 4 b", where 'a = 32] by (simp add: EncodeFixed32_def DecodeFixed32_def)

lemma DecodeFixed64_Encode [simp]: "DecodeFixed64 (EncodeFixed64 v) = v"
  using DecodeFixed64_put [of v "[]"] by simp

text \<open>An array of fixed width numbers.\<close>

definition fixed_array :: "uint32 list \<Rightarrow> byte list" where
  "fixed_array ws = concat (map EncodeFixed32 ws)"

lemma fixed_array_simps [simp]: "fixed_array [] = []" "fixed_array (w # ws) = EncodeFixed32 w @ fixed_array ws"
  by (simp_all add: fixed_array_def)

lemma foldl_PutFixed32: "foldl PutFixed32 r ws = r @ fixed_array ws"
  by (induction ws arbitrary: r) (simp_all add: PutFixed32_def)

lemma DecodeFixed32_array: "i < length ws \<Longrightarrow> DecodeFixed32 (drop (4 * i) (fixed_array ws @ post)) = ws ! i"
proof (induction ws arbitrary: i)
  case (Cons w ws)
  then show ?case by (cases i) auto
qed simp

lemma length_array [simp]: "length (fixed_array ws) = 4 * length ws"
  by (induction ws) simp_all

lemma unat32: "n < 2 ^ 32 \<Longrightarrow> unat (of_nat n :: uint32) = n"
  by (simp add: unat_of_nat)

lemma varint_split_append: "varint_split k bs = Some (us, rest) \<Longrightarrow> bs = us @ rest"
  by (induction k bs arbitrary: us rule: varint_split.induct) (auto split: if_splits)

lemma slice_rest_shorter: "(Some s, rest) = GetLengthPrefixedSlice input \<Longrightarrow> length rest \<le> length input"
  by (auto simp: GetLengthPrefixedSlice_def GetVarint32_def GetVarint32Ptr_split split: if_splits option.splits prod.splits
      dest!: varint_split_append)

section \<open>Properties\<close>

text \<open>
  On every input \<^verbatim>\<open>GetVarint32Ptr\<close> and \<^verbatim>\<open>GetVarint64Ptr\<close> split off the groups up to the first without the
  continuation bit, at most five and ten of them, and give their base 128 value modulo the width; without such a
  group within the input and the bound they fail.
\<close>

theorem varint_get_exact:
  "GetVarint32Ptr bs = map_option (\<lambda>(us, rest). (of_nat (le7 us), rest)) (varint_split 5 bs) \<and>
   GetVarint64Ptr bs = map_option (\<lambda>(us, rest). (of_nat (le7 us), rest)) (varint_split 10 bs)"
  by (simp add: GetVarint32Ptr_split GetVarint64Ptr_split)

text \<open>
  Slices appended by \<^verbatim>\<open>PutLengthPrefixedSlice\<close> one after the other are read back by
  \<^verbatim>\<open>GetLengthPrefixedSlice\<close> in order, on a slice and on pointers alike, whatever follows them.
\<close>

theorem slice_roundtrip:
  assumes "length s < 2 ^ 32" "length t < 2 ^ 32"
  shows "\<exists>mid. GetLengthPrefixedSlice (PutLengthPrefixedSlice (PutLengthPrefixedSlice [] s) t @ rest) = (Some s, mid) \<and>
    GetLengthPrefixedSlicePtr (PutLengthPrefixedSlice (PutLengthPrefixedSlice [] s) t @ rest) = Some (s, mid) \<and>
    GetLengthPrefixedSlice mid = (Some t, rest) \<and> GetLengthPrefixedSlicePtr mid = Some (t, rest)"
  using assms by (simp add: PutLengthPrefixedSlice_eq)

theorem slice_roundtrip_witness:
  "\<exists>mid. GetLengthPrefixedSlice (PutLengthPrefixedSlice (PutLengthPrefixedSlice [] [1, 2]) [] @ [7]) = (Some [1, 2], mid) \<and>
    GetLengthPrefixedSlicePtr (PutLengthPrefixedSlice (PutLengthPrefixedSlice [] [1, 2]) [] @ [7]) = Some ([1, 2], mid) \<and>
    GetLengthPrefixedSlice mid = (Some [], [7]) \<and> GetLengthPrefixedSlicePtr mid = Some ([], [7])"
  by (rule slice_roundtrip) simp_all

end
