(* ===== verification/Ldb_Status.thy ===== *)
theory Ldb_Status
  imports Ldb_Coding
begin

text \<open>
  \<^verbatim>\<open>leveldb-library/include/leveldb/slice.h\<close>, \<^verbatim>\<open>include/leveldb/status.h\<close> and
  \<^verbatim>\<open>util/status.cc\<close>: the operations on slices that compare bytes, and the result of the operations
  of the storage engine. A status holds a null pointer or an allocated array with the length of the
  message, the code and the message; the array is a byte list here, and copying it is the identity.
\<close>

section \<open>Strings and slices\<close>

text \<open>A C string literal as bytes.\<close>

definition c_str :: "string \<Rightarrow> byte list" where
  "c_str s = map (\<lambda>c. of_nat (of_char c)) s"

text \<open>The decimal form printed for \<^verbatim>\<open>%u\<close> and, with a sign, for \<^verbatim>\<open>%d\<close>.\<close>

fun dec_nat :: "nat \<Rightarrow> byte list" where
  "dec_nat n = (if n < 10 then [of_nat (48 + n)] else dec_nat (n div 10) @ [of_nat (48 + n mod 10)])"

declare dec_nat.simps [simp del]

definition dec_int :: "int \<Rightarrow> byte list" where
  "dec_int i = (if i < 0 then c_str ''-'' @ dec_nat (nat (- i)) else dec_nat (nat i))"

text \<open>\<^verbatim>\<open>memcmp\<close> on two arrays of the same length, by its sign.\<close>

fun memcmp :: "byte list \<Rightarrow> byte list \<Rightarrow> int" where
  "memcmp (x # xs) (y # ys) = (if x < y then - 1 else if y < x then 1 else memcmp xs ys)"
| "memcmp _ _ = 0"

definition remove_prefix :: "nat \<Rightarrow> slice \<Rightarrow> slice" where
  "remove_prefix n s = drop n s"

definition starts_with :: "slice \<Rightarrow> slice \<Rightarrow> bool" where
  "starts_with s x \<longleftrightarrow> length s \<ge> length x \<and> memcmp (take (length x) s) x = 0"

definition slice_eq :: "slice \<Rightarrow> slice \<Rightarrow> bool" where
  "slice_eq x y \<longleftrightarrow> length x = length y \<and> memcmp x y = 0"

definition slice_compare :: "slice \<Rightarrow> slice \<Rightarrow> int" where
  "slice_compare a b =
     (let min_len = (if length a < length b then length a else length b);
          r = memcmp (take min_len a) (take min_len b)
      in if r = 0 then if length a < length b then - 1 else if length a > length b then 1 else r
         else r)"

section \<open>Status\<close>

datatype Code = kOk | kNotFound | kCorruption | kNotSupported | kInvalidArgument | kIOError

fun code_char :: "Code \<Rightarrow> byte" where
  "code_char kOk = 0"
| "code_char kNotFound = 1"
| "code_char kCorruption = 2"
| "code_char kNotSupported = 3"
| "code_char kInvalidArgument = 4"
| "code_char kIOError = 5"

text \<open>\<^verbatim>\<open>state_\<close>, none for a null pointer.\<close>

type_synonym status = "byte list option"

text \<open>The constructor; messages are shorter than 4 GiB, so the array it allocates holds them.\<close>

definition Status_new :: "Code \<Rightarrow> slice \<Rightarrow> slice \<Rightarrow> status" where
  "Status_new code msg msg2 =
     (let len1 = of_nat (length msg) :: uint32;
          len2 = of_nat (length msg2) :: uint32;
          size = len1 + (if len2 \<noteq> 0 then 2 + len2 else 0)
      in Some (le_bytes 4 size @ [code_char code] @ take (unat len1) msg
               @ (if len2 \<noteq> 0 then c_str '': '' @ take (unat len2) msg2 else [])))"

definition OK :: status where
  "OK = None"

definition NotFound :: "slice \<Rightarrow> slice \<Rightarrow> status" where
  "NotFound msg msg2 = Status_new kNotFound msg msg2"

definition Corruption :: "slice \<Rightarrow> slice \<Rightarrow> status" where
  "Corruption msg msg2 = Status_new kCorruption msg msg2"

definition NotSupported :: "slice \<Rightarrow> slice \<Rightarrow> status" where
  "NotSupported msg msg2 = Status_new kNotSupported msg msg2"

definition InvalidArgument :: "slice \<Rightarrow> slice \<Rightarrow> status" where
  "InvalidArgument msg msg2 = Status_new kInvalidArgument msg msg2"

definition IOError :: "slice \<Rightarrow> slice \<Rightarrow> status" where
  "IOError msg msg2 = Status_new kIOError msg msg2"

definition ok :: "status \<Rightarrow> bool" where
  "ok s \<longleftrightarrow> s = None"

text \<open>\<^verbatim>\<open>code()\<close> as the value of the enumeration.\<close>

definition status_code :: "status \<Rightarrow> int" where
  "status_code s = (case s of None \<Rightarrow> 0 | Some st \<Rightarrow> sint (st ! 4))"

definition IsNotFound :: "status \<Rightarrow> bool" where
  "IsNotFound s \<longleftrightarrow> status_code s = 1"

definition IsCorruption :: "status \<Rightarrow> bool" where
  "IsCorruption s \<longleftrightarrow> status_code s = 2"

definition IsNotSupportedError :: "status \<Rightarrow> bool" where
  "IsNotSupportedError s \<longleftrightarrow> status_code s = 3"

definition IsInvalidArgument :: "status \<Rightarrow> bool" where
  "IsInvalidArgument s \<longleftrightarrow> status_code s = 4"

definition IsIOError :: "status \<Rightarrow> bool" where
  "IsIOError s \<longleftrightarrow> status_code s = 5"

text \<open>\<^verbatim>\<open>CopyState\<close> copies as many bytes as the length in front of the array says.\<close>

definition CopyState :: "byte list \<Rightarrow> byte list" where
  "CopyState st = take (unat (le_word (take 4 st) + 5 :: uint32)) st"

definition Status_ToString :: "status \<Rightarrow> byte list" where
  "Status_ToString s =
     (case s of
        None \<Rightarrow> c_str ''OK''
      | Some st \<Rightarrow>
          (let c = status_code s;
               type = (if c = 0 then c_str ''OK''
                       else if c = 1 then c_str ''NotFound: ''
                       else if c = 2 then c_str ''Corruption: ''
                       else if c = 3 then c_str ''Not implemented: ''
                       else if c = 4 then c_str ''Invalid argument: ''
                       else if c = 5 then c_str ''IO error: ''
                       else c_str ''Unknown code('' @ dec_int c @ c_str ''): '')
           in type @ take (unat (le_word (take 4 st) :: uint32)) (drop 5 st)))"

section \<open>Lemmas\<close>

lemma length_c_str [simp]: "length (c_str s) = length s"
  by (simp add: c_str_def)

lemma ok_simps [simp]: "ok OK" "ok None" "\<not> ok (Some st)" "\<not> ok (Status_new c m n)"
  by (simp_all add: ok_def OK_def Status_new_def Let_def)

lemma error_not_ok [simp]:
  "\<not> ok (NotFound m n)" "\<not> ok (Corruption m n)" "\<not> ok (NotSupported m n)" "\<not> ok (InvalidArgument m n)"
  "\<not> ok (IOError m n)"
  by (simp_all add: NotFound_def Corruption_def NotSupported_def InvalidArgument_def IOError_def)

lemma ok_iff: "ok s \<longleftrightarrow> s = OK"
  by (simp add: ok_def OK_def)

lemma error_neq_OK [simp]: "Corruption m n \<noteq> OK" "InvalidArgument m n \<noteq> OK" "IOError m n \<noteq> OK" "NotFound m n \<noteq> OK"
  using error_not_ok by (simp_all only: ok_iff not_False_eq_True)

lemma memcmp_eq_0: "length xs = length ys \<Longrightarrow> memcmp xs ys = 0 \<longleftrightarrow> xs = ys"
  by (induction xs ys rule: list_induct2) auto

lemma starts_with_prefix [simp]: "starts_with s x \<longleftrightarrow> take (length x) s = x"
proof -
  have "length x \<le> length s" if "take (length x) s = x" using that by (metis length_take min.cobounded1)
  then show ?thesis using memcmp_eq_0 [of "take (length x) s" x] by (auto simp: starts_with_def)
qed

lemma slice_eq_iff [simp]: "slice_eq x y \<longleftrightarrow> x = y"
  using memcmp_eq_0 by (auto simp: slice_eq_def)

text \<open>\<open>slice_compare\<close> is the three-way comparison of the lexicographic order on bytes.\<close>

fun bytes_less :: "byte list \<Rightarrow> byte list \<Rightarrow> bool" where
  "bytes_less xs [] = False"
| "bytes_less [] (y # ys) = True"
| "bytes_less (x # xs) (y # ys) = (x < y \<or> x = y \<and> bytes_less xs ys)"

lemma slice_compare_Cons:
  "slice_compare (x # xs) (y # ys) = (if x < y then - 1 else if y < x then 1 else slice_compare xs ys)"
  by (auto simp: slice_compare_def Let_def)

lemma slice_compare_Nil [simp]:
  "slice_compare [] [] = 0" "slice_compare [] (y # ys) = - 1" "slice_compare (x # xs) [] = 1"
  by (auto simp: slice_compare_def Let_def)

lemma slice_compare_order:
  "(slice_compare a b < 0 \<longleftrightarrow> bytes_less a b) \<and> (slice_compare a b = 0 \<longleftrightarrow> a = b) \<and>
   (slice_compare a b > 0 \<longleftrightarrow> bytes_less b a)"
proof (induction a b rule: bytes_less.induct)
  case (1 xs)
  then show ?case by (cases xs) auto
next
  case (3 x xs y ys)
  then show ?case by (auto simp: slice_compare_Cons)
qed simp

lemma bytes_less_trans: "bytes_less a b \<Longrightarrow> bytes_less b c \<Longrightarrow> bytes_less a c"
proof (induction a b arbitrary: c rule: bytes_less.induct)
  case (2 y ys)
  then show ?case by (cases c) auto
next
  case (3 x xs y ys)
  then show ?case by (cases c) auto
qed simp

lemma bytes_less_irrefl [simp]: "\<not> bytes_less a a"
  by (induction a) auto

lemma bytes_less_linear: "bytes_less a b \<or> a = b \<or> bytes_less b a"
  using slice_compare_order [of a b] by linarith

text \<open>A message survives its encoding in \<^verbatim>\<open>state_\<close>.\<close>

definition full_message :: "slice \<Rightarrow> slice \<Rightarrow> byte list" where
  "full_message msg msg2 = msg @ (if msg2 = [] then [] else c_str '': '' @ msg2)"

lemma Status_new_layout:
  assumes "length msg + length msg2 + 7 < 2 ^ 32"
  shows "Status_new code msg msg2 =
    Some (le_bytes 4 (of_nat (length (full_message msg msg2)) :: uint32) @ code_char code # full_message msg msg2)"
proof -
  have l: "unat (of_nat (length msg) :: uint32) = length msg" "unat (of_nat (length msg2) :: uint32) = length msg2"
    using assms by (simp_all add: unat_of_nat)
  then have "(of_nat (length msg2) :: uint32) = 0 \<longleftrightarrow> msg2 = []" by (metis length_0_conv unat_eq_zero of_nat_0)
  then show ?thesis unfolding Status_new_def Let_def l full_message_def by (simp add: ac_simps)
qed

lemma CopyState_new:
  assumes "length msg + length msg2 + 7 < 2 ^ 32" "Status_new code msg msg2 = Some st"
  shows "CopyState st = st"
proof -
  let ?m = "full_message msg msg2"
  have "length ?m + 5 < 2 ^ LENGTH(32)" using assms(1) by (simp add: full_message_def)
  then have "unat (of_nat (length ?m + 5) :: uint32) = length ?m + 5" by (simp add: unat_of_nat del: of_nat_add)
  then have "unat (of_nat (length ?m) + 5 :: uint32) = length ?m + 5" by (simp add: add.commute)
  then show ?thesis using assms(2) unfolding Status_new_layout [OF assms(1)] CopyState_def by auto
qed

definition type_text :: "Code \<Rightarrow> string" where
  "type_text c = (case c of kOk \<Rightarrow> ''OK'' | kNotFound \<Rightarrow> ''NotFound: '' | kCorruption \<Rightarrow> ''Corruption: ''
     | kNotSupported \<Rightarrow> ''Not implemented: '' | kInvalidArgument \<Rightarrow> ''Invalid argument: '' | kIOError \<Rightarrow> ''IO error: '')"

lemma code_char_inj: "code_char c = code_char d \<longleftrightarrow> c = d"
  by (cases c; cases d) auto

lemma status_code_new: "status_code (Status_new c msg msg2) = sint (code_char c)"
  by (simp add: Status_new_def Let_def status_code_def nth_append)

lemma Status_ToString_new:
  assumes "length msg + length msg2 + 7 < 2 ^ 32"
  shows "Status_ToString (Status_new c msg msg2) = c_str (type_text c) @ full_message msg msg2"
proof -
  have "length (full_message msg msg2) < 2 ^ LENGTH(32)" using assms by (simp add: full_message_def)
  then have "unat (of_nat (length (full_message msg msg2)) :: uint32) = length (full_message msg msg2)" by (simp add: unat_of_nat del: of_nat_add)
  moreover have "status_code (Some (le_bytes 4 (of_nat (length (full_message msg msg2)) :: uint32)
      @ code_char c # full_message msg msg2)) = sint (code_char c)"
    using status_code_new [of c msg msg2] by (simp only: Status_new_layout [OF assms])
  ultimately show ?thesis unfolding Status_new_layout [OF assms] Status_ToString_def
    by (cases c) (simp_all add: type_text_def)
qed

end
