(* ===== verification/Ldb_Crc32c_Tables.thy ===== *)
theory Ldb_Crc32c_Tables
  imports Ldb_Crc32c
begin

text \<open>
  The bitwise CRC-32C: one bit at a time the register is shifted, and the reflected Castagnoli
  polynomial is added when the bit that leaves is set. The register is a linear function of its
  start and of the data, which is what the tables and the interleaving rest on; the five literal
  tables are shown to be the tables of this function for 8, 104, 112, 120 and 128 steps.
\<close>

section \<open>The bitwise definition\<close>

definition crc_bit :: "uint32 \<Rightarrow> uint32" where
  "crc_bit l = (if bit l 0 then drop_bit 1 l XOR 0x82f63b78 else drop_bit 1 l)"

primrec adv :: "nat \<Rightarrow> uint32 \<Rightarrow> uint32" where
  "adv 0 l = l"
| "adv (Suc n) l = adv n (crc_bit l)"

definition crc_byte :: "uint32 \<Rightarrow> byte \<Rightarrow> uint32" where
  "crc_byte l b = adv 8 (l XOR ucast b)"

definition crc32c_ref :: "uint32 \<Rightarrow> byte list \<Rightarrow> uint32" where
  "crc32c_ref crc p = foldl crc_byte (crc XOR 0xffffffff) p XOR 0xffffffff"

lemma drop_bit_xor [simp]: "drop_bit n (x XOR y) = drop_bit n x XOR drop_bit n y" for x y :: "'a::len word"
  by (rule bit_word_eqI) (auto simp: bit_simps)

lemma crc_bit_xor: "crc_bit (x XOR y) = crc_bit x XOR crc_bit y"
  by (simp add: crc_bit_def bit_simps ac_simps)

lemma adv_xor: "adv n (x XOR y) = adv n x XOR adv n y"
  by (induction n arbitrary: x y) (simp_all add: crc_bit_xor)

lemma adv_add: "adv (m + n) x = adv n (adv m x)"
  by (induction m arbitrary: x) simp_all

lemma adv_zero [simp]: "adv n 0 = 0"
  by (induction n) (simp_all add: crc_bit_def)

lemma adv_push: "n \<le> m \<Longrightarrow> take_bit n x = 0 \<Longrightarrow> adv m x = adv (m - n) (drop_bit n x)"
proof (induction n arbitrary: m x)
  case (Suc n)
  obtain k where k: "m = Suc k" using Suc.prems(1) by (cases m) auto
  have z: "\<not> bit x i" if "i < Suc n" for i
    using Suc.prems(2) that by (metis bit_0_eq bit_take_bit_iff bot_apply bot_bool_def)
  then have c: "crc_bit x = drop_bit 1 x" by (simp add: crc_bit_def)
  have "take_bit n (drop_bit 1 x) = 0"
    by (rule bit_word_eqI) (use z in \<open>auto simp: bit_simps\<close>)
  then show ?case using Suc.IH [of k "drop_bit 1 x"] Suc.prems(1) k c by (simp add: drop_bit_drop_bit)
qed simp

section \<open>Tables\<close>

text \<open>
  A table of a linear function is spanned by its values at the single bits. Checking a literal
  table is then a matter of eight values and 255 additions.
\<close>

definition span :: "uint32 list \<Rightarrow> uint32 list" where
  "span ts = foldl (\<lambda>acc t. acc @ map (\<lambda>x. x XOR t) acc) [0] ts"

lemma of_nat_bit_xor: "i < 2 ^ k \<Longrightarrow> (of_nat (2 ^ k + i) :: uint32) = of_nat i XOR push_bit k 1"
proof -
  assume i: "i < 2 ^ k"
  have "of_nat i XOR push_bit k 1 = (of_nat i OR push_bit k (of_nat 1) :: uint32)"
  proof (rule bit_word_eqI)
    fix j
    have "\<not> (bit (of_nat i :: uint32) j \<and> bit (push_bit k 1 :: uint32) j)"
      using bit_of_nat_small [OF i, where 'a = 32] by (auto simp: bit_simps)
    then show "bit (of_nat i XOR push_bit k 1 :: uint32) j = bit (of_nat i OR push_bit k (of_nat 1) :: uint32) j"
      by (auto simp: bit_or_iff bit_xor_iff)
  qed
  then show ?thesis using or_group [OF i, of 1, where 'a = 32] by (simp add: add.commute)
qed

lemma span_linear:
  fixes f :: "uint32 \<Rightarrow> uint32"
  assumes "\<And>x y. f (x XOR y) = f x XOR f y"
  shows "span (map (\<lambda>j. f (push_bit j 1)) [0..<k]) = map (\<lambda>i. f (of_nat i)) [0..<2 ^ k]"
proof (induction k)
  case 0
  have "f 0 = 0" using assms [of 0 0] by simp
  then show ?case by (simp add: span_def)
next
  case (Suc k)
  have "[0..<2 ^ Suc k] = [0..<2 ^ k] @ map (\<lambda>i. 2 ^ k + i) [0..<2 ^ k]"
    by (rule nth_equalityI) (auto simp: nth_append)
  then show ?case using Suc
    by (auto simp: span_def assms [symmetric] of_nat_bit_xor simp del: of_nat_add)
qed

lemma span_nth:
  fixes f :: "uint32 \<Rightarrow> uint32"
  assumes "\<And>x y. f (x XOR y) = f x XOR f y" "T = span (map (\<lambda>j. f (push_bit j 1)) [0..<8])" "unat x < 256"
  shows "T ! unat x = f x"
  using assms(2,3) span_linear [of f 8, OF assms(1)] by simp

lemma adv_push_bit: "j \<le> n \<Longrightarrow> j < 32 \<Longrightarrow> adv n (push_bit j 1) = adv (n - j) 1"
proof -
  assume j: "j \<le> n" "j < 32"
  have "take_bit j (push_bit j 1 :: uint32) = 0" by (rule bit_word_eqI) (auto simp: bit_simps)
  moreover have "drop_bit j (push_bit j 1) = (1 :: uint32)"
    by (rule bit_word_eqI) (use j(2) in \<open>auto simp: bit_simps\<close>)
  ultimately show ?thesis using adv_push [OF j(1)] by simp
qed

primrec orbit :: "nat \<Rightarrow> uint32 \<Rightarrow> uint32 list" where
  "orbit 0 x = [x]"
| "orbit (Suc n) x = x # orbit n (crc_bit x)"

lemma orbit_nth: "i \<le> n \<Longrightarrow> orbit n x ! i = adv i x"
  by (induction n arbitrary: x i) (auto simp: nth_Cons split: nat.splits)

text \<open>The values of the register that starts at 1, after 97 to 128 steps.\<close>

lemma orbit_values:
  "drop 97 (orbit 128 1) = [
     0x18b8ea18, 0xc5c750c, 0x62e3a86, 0x3171d43, 0x837db5d9, 0xc348e194, 0x61a470ca, 0x30d23865,
     0x9a9f274a, 0x4d4f93a5, 0xa451f2aa, 0x5228f955, 0xabe247d2, 0x55f123e9, 0xa80eaa8c, 0x54075546,
     0x2a03aaa3, 0x97f7ee29, 0xc90dcc6c, 0x6486e636, 0x3243731b, 0x9bd782f5, 0xcf1dfa02, 0x678efd01,
     0xb13145f8, 0x5898a2fc, 0x2c4c517e, 0x162628bf, 0x89e52f27, 0xc604aceb, 0xe1f46d0d, 0xf20c0dfe]"
  by code_simp

lemma byte_orbit_values: "orbit 8 1 = [0x1, 0x82f63b78, 0x417b1dbc, 0x20bd8ede, 0x105ec76f, 0x8ad958cf, 0xc79a971f, 0xe13b70f7, 0xf26b8303]"
  by code_simp

lemma basis_orbit:
  assumes "7 \<le> n" "n \<le> m"
  shows "map (\<lambda>j. adv n (push_bit j 1)) [0..<8] = rev (take 8 (drop (n - 7) (orbit m 1)))"
proof (rule nth_equalityI)
  have l: "length (orbit k x) = Suc k" for k x by (induction k arbitrary: x) simp_all
  show "length (map (\<lambda>j. adv n (push_bit j 1)) [0..<8]) = length (rev (take 8 (drop (n - 7) (orbit m 1))))"
    using assms by (simp add: l)
  fix j assume "j < length (map (\<lambda>j. adv n (push_bit j 1)) [0..<8])"
  then have j: "j < 8" by simp
  have "rev (take 8 (drop (n - 7) (orbit m 1))) ! j = orbit m 1 ! (n - j)"
    using j assms by (simp add: rev_nth l)
  also have "\<dots> = adv n (push_bit j 1)" using j assms orbit_nth [of "n - j" m 1] adv_push_bit [of j n] by simp
  finally show "map (\<lambda>j. adv n (push_bit j 1)) [0..<8] ! j = rev (take 8 (drop (n - 7) (orbit m 1))) ! j"
    using j by simp
qed

lemma table_nth:
  assumes "7 \<le> n" "n \<le> m" "T = span (rev (take 8 (drop (n - 7) (orbit m 1))))" "unat x < 256"
  shows "T ! unat x = adv n x"
  using assms(3,4) basis_orbit [OF assms(1,2)] by (intro span_nth [OF adv_xor]) simp_all

lemma byte_table: "unat x < 256 \<Longrightarrow> kByteExtensionTable ! unat x = adv 8 x"
proof (rule table_nth [where m = 8])
  show "kByteExtensionTable = span (rev (take 8 (drop (8 - 7) (orbit 8 1))))" unfolding byte_orbit_values by code_simp
qed simp_all

lemma late_orbit: "97 \<le> n \<Longrightarrow> drop n (orbit 128 1) = drop (n - 97) (drop 97 (orbit 128 1))"
  by simp

lemma stride_table0: "unat x < 256 \<Longrightarrow> kStrideExtensionTable0 ! unat x = adv 104 x"
proof (rule table_nth [where m = 128])
  show "kStrideExtensionTable0 = span (rev (take 8 (drop (104 - 7) (orbit 128 1))))"
    by (subst late_orbit, simp, subst orbit_values, code_simp)
qed simp_all

lemma stride_table1: "unat x < 256 \<Longrightarrow> kStrideExtensionTable1 ! unat x = adv 112 x"
proof (rule table_nth [where m = 128])
  show "kStrideExtensionTable1 = span (rev (take 8 (drop (112 - 7) (orbit 128 1))))"
    by (subst late_orbit, simp, subst orbit_values, code_simp)
qed simp_all

lemma stride_table2: "unat x < 256 \<Longrightarrow> kStrideExtensionTable2 ! unat x = adv 120 x"
proof (rule table_nth [where m = 128])
  show "kStrideExtensionTable2 = span (rev (take 8 (drop (120 - 7) (orbit 128 1))))"
    by (subst late_orbit, simp, subst orbit_values, code_simp)
qed simp_all

lemma stride_table3: "unat x < 256 \<Longrightarrow> kStrideExtensionTable3 ! unat x = adv 128 x"
proof (rule table_nth [where m = 128])
  show "kStrideExtensionTable3 = span (rev (take 8 (drop (128 - 7) (orbit 128 1))))"
    by (subst late_orbit, simp, subst orbit_values, code_simp)
qed simp_all

end
