(* ===== verification/Ldb_Crc32c_Thms.thy ===== *)
theory Ldb_Crc32c_Thms
  imports Ldb_Crc32c_Tables
begin

text \<open>
  The table driven, interleaved checksum of \<^verbatim>\<open>crc32c.cc\<close> is the bitwise CRC-32C.
\<close>

section \<open>Bytes, words and swaths\<close>

lemma split_low: "x = (x AND 0xff) XOR push_bit 8 (drop_bit 8 x)" for x :: uint32
proof -
  have "x AND 0xff = take_bit 8 x" by (simp add: take_bit_eq_mask mask_eq_exp_minus_1)
  moreover have "take_bit 8 x XOR push_bit 8 (drop_bit 8 x) = x" by (rule bit_word_eqI) (auto simp: bit_simps)
  ultimately show ?thesis by simp
qed

lemma low_byte_less: "unat (x AND 0xff) < 256" for x :: uint32
proof -
  have "x AND 0xff = take_bit 8 x" by (simp add: take_bit_eq_mask mask_eq_exp_minus_1)
  moreover have "take_bit 8 (unat x) < 2 ^ 8" by (rule take_bit_nat_less_exp)
  ultimately show ?thesis by (simp add: unsigned_take_bit_eq)
qed

lemma take_push_zero: "take_bit n (push_bit n x) = 0" for x :: uint32
  by (rule bit_word_eqI) (auto simp: bit_simps)

lemma drop_push_drop: "drop_bit 8 (push_bit 8 (drop_bit 8 x)) = drop_bit 8 x" for x :: uint32
  by (rule bit_word_eqI) (auto simp: bit_simps dest: bit_imp_le_length)

lemma adv_8: "adv 8 x = adv 8 (x AND 0xff) XOR drop_bit 8 x"
proof -
  have "adv 8 x = adv 8 (x AND 0xff) XOR adv 8 (push_bit 8 (drop_bit 8 x))"
    by (subst split_low [of x]) (rule adv_xor)
  also have "adv 8 (push_bit 8 (drop_bit 8 x)) = drop_bit 8 x"
    using adv_push [of 8 8 "push_bit 8 (drop_bit 8 x)"] take_push_zero [of 8] drop_push_drop by simp
  finally show ?thesis .
qed

lemma STEP1_ref: "STEP1 l b = crc_byte l b"
proof -
  have m: "(0xff :: uint32) = mask 8" by (simp add: mask_eq_exp_minus_1)
  have e: "(l XOR ucast b) AND 0xff = (l AND 0xff) XOR ucast b" "drop_bit 8 (l XOR ucast b) = drop_bit 8 l"
    unfolding m using bit_imp_le_length [of b] by (fastforce intro!: bit_word_eqI simp: bit_simps)+
  have "crc_byte l b = adv 8 ((l AND 0xff) XOR ucast b) XOR drop_bit 8 l"
    unfolding crc_byte_def by (subst adv_8) (simp only: e)
  moreover have "unat ((l AND 0xff) XOR ucast b) < 256" using low_byte_less [of "l XOR ucast b"] by (simp only: e)
  ultimately show ?thesis by (simp add: STEP1_def byte_table)
qed

lemma word_steps_ref: "word_steps n w = adv (8 * n) w"
proof (induction n arbitrary: w)
  case (Suc n)
  have "drop_bit 8 w XOR kByteExtensionTable ! unat (w AND 0xff) = adv 8 w"
    using adv_8 [of w] byte_table [OF low_byte_less [of w]] by (simp add: ac_simps)
  then show ?case using Suc adv_add [of 8 "8 * n" w] by simp
qed simp

lemma STEP4W_ref: "STEP4W w l = adv 32 (w XOR l)"
  by (simp add: STEP4W_def word_steps_ref)

text \<open>The four bytes of a word at once.\<close>

lemma le_word_small: "8 * length bs \<le> n \<Longrightarrow> take_bit n (le_word bs :: uint32) = le_word bs"
  by (rule bit_word_eqI) (auto simp: bit_simps bit_le_word)

lemma foldl_word: "length bs \<le> 4 \<Longrightarrow> foldl crc_byte l bs = adv (8 * length bs) (l XOR le_word bs)"
proof (induction bs arbitrary: l)
  case (Cons b bs)
  let ?w = "le_word bs :: uint32"
  have w: "take_bit 24 ?w = ?w" using Cons.prems by (intro le_word_small) simp
  have "ucast b OR push_bit 8 ?w = ucast b XOR push_bit 8 ?w"
    by (rule bit_word_eqI) (auto simp: bit_simps dest: bit_imp_le_length)
  then have "adv 8 (l XOR le_word (b # bs)) = crc_byte l b XOR adv 8 (push_bit 8 ?w)"
    by (simp add: crc_byte_def adv_xor ac_simps)
  also have "adv 8 (push_bit 8 ?w) = ?w"
  proof -
    have "drop_bit 8 (push_bit 8 ?w) = take_bit 24 ?w" by (rule bit_word_eqI) (auto simp: bit_simps)
    then show ?thesis using adv_push [of 8 8 "push_bit 8 ?w"] take_push_zero [of 8 ?w] w by simp
  qed
  finally have "adv (8 * length bs) (crc_byte l b XOR ?w) = adv (8 + 8 * length bs) (l XOR le_word (b # bs))"
    by (simp only: adv_add)
  then show ?case using Cons by simp
qed simp

lemma foldl_take4: "4 \<le> length p \<Longrightarrow> foldl crc_byte l (take 4 p) = adv 32 (l XOR ReadUint32LE p)"
  using foldl_word [of "take 4 p" l] by (simp add: ReadUint32LE_def DecodeFixed32_def)

lemma byte_parts:
  "x = (x AND 0xff) XOR push_bit 8 (drop_bit 8 x AND 0xff) XOR push_bit 16 (drop_bit 16 x AND 0xff)
     XOR push_bit 24 (drop_bit 24 x)" for x :: uint32
proof -
  have m: "(0xff :: uint32) = mask 8" by (simp add: mask_eq_exp_minus_1)
  show ?thesis unfolding m by (rule bit_word_eqI) (auto simp: bit_simps)
qed

lemma adv_128: "STEP4 p crc = ReadUint32LE p XOR adv 128 crc"
proof -
  let ?b1 = "drop_bit 8 crc AND 0xff" and ?b2 = "drop_bit 16 crc AND 0xff" and ?b3 = "drop_bit 24 crc"
  have m: "(0xff :: uint32) = mask 8" by (simp add: mask_eq_exp_minus_1)
  have b3: "unat ?b3 < 256" using unat_less32 [of crc] by (simp add: unat_shift_right)
  have d: "drop_bit 8 (push_bit 8 ?b1) = ?b1" "drop_bit 16 (push_bit 16 ?b2) = ?b2" "drop_bit 24 (push_bit 24 ?b3) = ?b3"
    unfolding m using bit_imp_le_length [of crc] by (fastforce intro!: bit_word_eqI simp: bit_simps)+
  have "adv 128 crc = adv 128 (crc AND 0xff) XOR adv 128 (push_bit 8 ?b1) XOR adv 128 (push_bit 16 ?b2) XOR adv 128 (push_bit 24 ?b3)"
    by (subst byte_parts [of crc]) (simp only: adv_xor)
  also have "\<dots> = adv 128 (crc AND 0xff) XOR adv 120 ?b1 XOR adv 112 ?b2 XOR adv 104 ?b3"
    using adv_push [of 8 128 "push_bit 8 ?b1"] adv_push [of 16 128 "push_bit 16 ?b2"] adv_push [of 24 128 "push_bit 24 ?b3"]
    by (simp only: take_push_zero d) simp
  finally show ?thesis
    using stride_table0 [OF b3] by (simp add: STEP4_def low_byte_less stride_table1 stride_table2 stride_table3 ac_simps)
qed

section \<open>The interleaved loops\<close>

text \<open>
  What the four strides stand for: combining them gives the register after all the bytes read so far.
  One word moves them one place on.
\<close>

lemma combine_ref: "combine (c0, c1, c2, c3) = adv 32 (adv 32 (adv 32 (adv 32 c0 XOR c1) XOR c2) XOR c3)"
  by (simp add: combine_def STEP4W_ref ac_simps)

lemma combine_word: "combine (c1, c2, c3, STEP4 p c0) = adv 32 (combine (c0, c1, c2, c3) XOR ReadUint32LE p)"
proof -
  have "adv 32 (adv 32 (adv 32 (adv 32 c0))) = adv 128 c0" by (simp add: adv_add [symmetric])
  then show ?thesis by (simp add: combine_ref adv_128 adv_xor ac_simps)
qed

lemma foldl_split: "foldl crc_byte l p = foldl crc_byte (foldl crc_byte l (take n p)) (drop n p)"
  by (metis append_take_drop_id foldl_append)

lemma combine_step:
  "4 \<le> length p \<Longrightarrow> foldl crc_byte (combine (c0, c1, c2, c3)) p = foldl crc_byte (combine (c1, c2, c3, STEP4 p c0)) (drop 4 p)"
  by (subst foldl_split [of _ p 4]) (simp add: combine_word foldl_take4)

lemma word_loop_ref:
  "word_loop c p = (c', p') \<Longrightarrow> foldl crc_byte (combine c) p = foldl crc_byte (combine c') p'"
proof (induction c p arbitrary: c' p' rule: word_loop.induct)
  case (1 c0 c1 c2 c3 p)
  then show ?case using combine_step [of p c0 c1 c2 c3]
    by (simp add: word_loop.simps [of c0] split: if_splits)
qed

lemma swath_loop_ref:
  "swath_loop c p = (c', p') \<Longrightarrow> foldl crc_byte (combine c) p = foldl crc_byte (combine c') p'"
proof (induction c p arbitrary: c' p' rule: swath_loop.induct)
  case (1 c0 c1 c2 c3 p)
  show ?case
  proof (cases "16 \<le> length p")
    case True
    have "foldl crc_byte (combine (c0, c1, c2, c3)) p =
        foldl crc_byte (combine (STEP4 p c0, STEP4 (drop 4 p) c1, STEP4 (drop 8 p) c2, STEP4 (drop 12 p) c3)) (drop 16 p)"
      using True by (simp add: combine_step)
    then show ?thesis using 1 True by (simp add: swath_loop.simps [of c0])
  next
    case False
    then show ?thesis using 1(2) by (simp add: swath_loop.simps [of c0])
  qed
qed

lemma first_swath:
  assumes "16 \<le> length p"
  shows "foldl crc_byte l p = foldl crc_byte
    (combine (ReadUint32LE p XOR l, ReadUint32LE (drop 4 p), ReadUint32LE (drop 8 p), ReadUint32LE (drop 12 p))) (drop 16 p)"
proof -
  have "foldl crc_byte l p = foldl crc_byte (foldl crc_byte (foldl crc_byte (foldl crc_byte
      (foldl crc_byte l (take 4 p)) (take 4 (drop 4 p))) (take 4 (drop 8 p))) (take 4 (drop 12 p))) (drop 16 p)"
    using foldl_split [of l p 4] foldl_split [of _ "drop 4 p" 4] foldl_split [of _ "drop 8 p" 4] foldl_split [of _ "drop 12 p" 4]
    by simp
  then show ?thesis using assms by (simp add: foldl_take4 combine_ref ac_simps)
qed

lemma Extend_ref: "Extend a crc p = crc32c_ref crc p"
proof -
  have s: "STEP1 = crc_byte" by (intro ext) (rule STEP1_ref)
  have acc: "\<not> CanAccelerateCRC32C" by (simp add: CanAccelerateCRC32C_def AcceleratedCRC32C_def)
  obtain l q where q: "(if lead a \<le> length p then (foldl STEP1 (crc XOR kCRC32Xor) (take (lead a) p), drop (lead a) p)
      else (crc XOR kCRC32Xor, p)) = (l, q)" by (metis surj_pair)
  then have lq: "foldl crc_byte (crc XOR kCRC32Xor) p = foldl crc_byte l q"
    using foldl_split [of "crc XOR kCRC32Xor" p "lead a"] by (auto simp: s split: if_splits)
  let ?c = "(ReadUint32LE q XOR l, ReadUint32LE (drop 4 q), ReadUint32LE (drop 8 q), ReadUint32LE (drop 12 q))"
  obtain c1 q1 where c1: "swath_loop ?c (drop 16 q) = (c1, q1)" by (metis surj_pair)
  obtain c2 q2 where c2: "word_loop c1 q1 = (c2, q2)" by (metis surj_pair)
  have "foldl crc_byte l q = foldl crc_byte (combine c2) q2" if "16 \<le> length q"
    using first_swath [OF that] swath_loop_ref [OF c1] word_loop_ref [OF c2] by simp
  moreover have "Extend a crc p = (case (if 16 \<le> length q then (combine c2, q2) else (l, q)) of
      (l, p) \<Rightarrow> foldl STEP1 l p XOR kCRC32Xor)"
    unfolding Extend_def Let_def q prod.case c1 c2 using acc by simp
  ultimately show ?thesis using lq by (simp add: crc32c_ref_def s kCRC32Xor_def)
qed

lemma crc32c_ref_append: "crc32c_ref (crc32c_ref crc p) q = crc32c_ref crc (p @ q)"
  by (simp add: crc32c_ref_def xor.assoc)

section \<open>Checksums\<close>

text \<open>
  C30: \<^verbatim>\<open>Extend\<close>, with its tables, its four interleaved strides and its alignment of the data, computes the bitwise
  CRC-32C wherever the data lies in memory, and extending the checksum of one block by another gives the checksum of
  their concatenation.
\<close>

theorem crc32c_correct:
  "Extend a crc p = crc32c_ref crc p \<and> Extend b (Value a p) q = Value c (p @ q)"
  by (simp add: Extend_ref Value_def crc32c_ref_append)

lemma Unmask_Mask [simp]: "Unmask (Mask crc) = crc"
proof -
  have "drop_bit 17 (drop_bit 15 crc OR push_bit 17 crc) OR push_bit 15 (drop_bit 15 crc OR push_bit 17 crc) = crc"
    using bit_imp_le_length [of crc] by (fastforce intro!: bit_word_eqI simp: bit_simps)
  then show ?thesis by (simp add: Mask_def Unmask_def)
qed

lemma Mask_Unmask [simp]: "Mask (Unmask w) = w"
proof -
  have "drop_bit 15 (drop_bit 17 r OR push_bit 15 r) OR push_bit 17 (drop_bit 17 r OR push_bit 15 r) = r" for r :: uint32
    using bit_imp_le_length [of r] by (fastforce intro!: bit_word_eqI simp: bit_simps)
  then show ?thesis by (simp add: Mask_def Unmask_def Let_def)
qed

lemma Value_Cons: "Value a (b # p) = Extend c (Value d [b]) p"
  using crc32c_ref_append [of 0 "[b]" p] by (simp add: Value_def Extend_ref)

end
