(* ===== verification/Ldb_Log.thy ===== *)
theory Ldb_Log
  imports Ldb_Env Ldb_Crc32c_Thms
begin

text \<open>
  \<^verbatim>\<open>leveldb-library/db/log_format.h\<close>, \<^verbatim>\<open>log_writer.h\<close>, \<^verbatim>\<open>log_writer.cc\<close>, \<^verbatim>\<open>log_reader.h\<close> and
  \<^verbatim>\<open>log_reader.cc\<close>: the log of records in blocks of 32 KiB that holds the recent writes and the
  manifest of a database. The virtual functions of the files are arguments, a record of functions;
  none is a call that does not return. Slices have no address here: \<open>Extend_ref\<close> shows that a
  checksum does not depend on it, so it is taken to be 0.
\<close>

section \<open>Format\<close>

datatype RecordType = kZeroType | kFullType | kFirstType | kMiddleType | kLastType

fun record_type :: "RecordType \<Rightarrow> nat" where
  "record_type kZeroType = 0"
| "record_type kFullType = 1"
| "record_type kFirstType = 2"
| "record_type kMiddleType = 3"
| "record_type kLastType = 4"

definition kMaxRecordType :: nat where
  "kMaxRecordType = record_type kLastType"

definition kBlockSize :: nat where
  "kBlockSize = 32768"

definition kHeaderSize :: nat where
  "kHeaderSize = 4 + 2 + 1"

section \<open>Writer\<close>

record 'f WritableFile =
  vAppend :: "slice \<Rightarrow> 'f \<Rightarrow> (status \<times> 'f) option"
  vFlush :: "'f \<Rightarrow> (status \<times> 'f) option"

text \<open>
  \<open>block_offset\<close> is an \<^verbatim>\<open>int\<close> that stays between 0 and \<^verbatim>\<open>kBlockSize\<close>. A difference that the code
  finds negative is 0 here, which the tests on it treat alike.
\<close>

record 'f Writer =
  dest :: 'f
  block_offset :: nat
  type_crc :: "uint32 list"

definition InitTypeCrc :: "uint32 list" where
  "InitTypeCrc = map (\<lambda>i. Value 0 [of_nat i]) [0..<kMaxRecordType + 1]"

definition Writer_new :: "'f \<Rightarrow> 'f Writer" where
  "Writer_new dst = \<lparr>dest = dst, block_offset = 0, type_crc = InitTypeCrc\<rparr>"

definition Writer_reopen :: "'f \<Rightarrow> uint64 \<Rightarrow> 'f Writer" where
  "Writer_reopen dst dest_length =
     \<lparr>dest = dst, block_offset = unat (dest_length mod of_nat kBlockSize), type_crc = InitTypeCrc\<rparr>"

definition EmitPhysicalRecord ::
    "'f WritableFile \<Rightarrow> RecordType \<Rightarrow> byte list \<Rightarrow> 'f Writer \<Rightarrow> (status \<times> 'f Writer) option" where
  "EmitPhysicalRecord vt t ptr w =
     (let n = length ptr;
          crc = Mask (Extend 0 (type_crc w ! record_type t) ptr);
          buf = EncodeFixed32 crc @ [of_nat n AND 0xff, of_nat (n div 2 ^ 8), of_nat (record_type t)]
      in do {
        (s, f) \<leftarrow> vAppend vt buf (dest w);
        (s, f) \<leftarrow> (if ok s
                   then do {
                     (s, f) \<leftarrow> vAppend vt ptr f;
                     if ok s then vFlush vt f else Some (s, f) }
                   else Some (s, f));
        Some (s, w\<lparr>dest := f, block_offset := block_offset w + (kHeaderSize + n)\<rparr>) })"

text \<open>The start of the loop of \<^verbatim>\<open>AddRecord\<close>, which ignores the status of the trailer.\<close>

definition switch_block :: "'f WritableFile \<Rightarrow> 'f Writer \<Rightarrow> 'f Writer option" where
  "switch_block vt w =
     (let leftover = kBlockSize - block_offset w in
      if leftover < kHeaderSize
      then do {
        f \<leftarrow> (if leftover > 0
             then do { (_, f) \<leftarrow> vAppend vt (replicate leftover 0) (dest w); Some f }
             else Some (dest w));
        Some (w\<lparr>dest := f, block_offset := 0\<rparr>) }
      else Some w)"

definition fragment_type :: "bool \<Rightarrow> bool \<Rightarrow> RecordType" where
  "fragment_type at_begin at_end =
     (if at_begin \<and> at_end then kFullType else if at_begin then kFirstType
      else if at_end then kLastType else kMiddleType)"

lemma EmitPhysicalRecord_offset:
  "EmitPhysicalRecord vt t ptr w = Some (s, w') \<Longrightarrow> block_offset w' = block_offset w + (kHeaderSize + length ptr)"
  by (auto simp: EmitPhysicalRecord_def Let_def bind_eq_Some_conv)

lemma switch_block_offset:
  "switch_block vt w = Some w' \<Longrightarrow>
     block_offset w' = (if kBlockSize - block_offset w < kHeaderSize then 0 else block_offset w)"
  by (auto simp: switch_block_def Let_def bind_eq_Some_conv split: if_splits)

text \<open>The loop; \<open>ptr\<close> are the bytes that are left.\<close>

function add_loop :: "'f WritableFile \<Rightarrow> bool \<Rightarrow> byte list \<Rightarrow> 'f Writer \<Rightarrow> (status \<times> 'f Writer) option" where
  "add_loop vt at_begin ptr w =
     (case switch_block vt w of
        None \<Rightarrow> None
      | Some w1 \<Rightarrow>
          (let avail = kBlockSize - block_offset w1 - kHeaderSize;
               fragment_length = (if length ptr < avail then length ptr else avail);
               at_end = (length ptr = fragment_length)
           in case EmitPhysicalRecord vt (fragment_type at_begin at_end) (take fragment_length ptr) w1 of
                None \<Rightarrow> None
              | Some (s, w2) \<Rightarrow>
                  (let left = drop fragment_length ptr in
                   if ok s \<and> left \<noteq> [] then add_loop vt False left w2 else Some (s, w2))))"
  by pat_completeness auto
termination
proof (relation "measures [\<lambda>(vt, b, ptr, w). length ptr, \<lambda>(vt, b, ptr, w). if block_offset w < kBlockSize then 1 else 0]",
    goal_cases)
  case (2 vt b ptr w w1 avail fl e p s w2 left)
  then have o: "block_offset w2 = block_offset w1 + (kHeaderSize + fl)"
    using EmitPhysicalRecord_offset [of vt _ "take fl ptr" w1 s w2] by (auto split: if_splits)
  then show ?case using 2 switch_block_offset [OF 2(1)]
    by (cases "fl = 0") (auto simp: kBlockSize_def kHeaderSize_def split: if_splits)
qed simp

declare add_loop.simps [simp del]

definition AddRecord :: "'f WritableFile \<Rightarrow> slice \<Rightarrow> 'f Writer \<Rightarrow> (status \<times> 'f Writer) option" where
  "AddRecord vt s w = add_loop vt True s w"

section \<open>Reader\<close>

record 'f SequentialFile =
  vRead :: "nat \<Rightarrow> slice \<Rightarrow> 'f \<Rightarrow> (status \<times> slice \<times> 'f) option"
  vSkip :: "uint64 \<Rightarrow> 'f \<Rightarrow> (status \<times> 'f) option"

text \<open>
  The fields of \<^verbatim>\<open>Reader\<close>. The reporter is none when \<^verbatim>\<open>reporter_\<close> is null and otherwise the list of
  the calls of its function \<^verbatim>\<open>Corruption\<close> so far.
\<close>

record 'f Reader =
  rfile :: 'f
  reporter :: "(size_t \<times> status) list option"
  checksum :: bool
  buffer :: slice
  eof :: bool
  last_record_offset :: uint64
  end_of_buffer_offset :: uint64
  initial_offset :: uint64
  resyncing :: bool

definition Reader_new :: "'f \<Rightarrow> (size_t \<times> status) list option \<Rightarrow> bool \<Rightarrow> uint64 \<Rightarrow> 'f Reader" where
  "Reader_new f rep chk off =
     \<lparr>rfile = f, reporter = rep, checksum = chk, buffer = [], eof = False, last_record_offset = 0,
      end_of_buffer_offset = 0, initial_offset = off, resyncing = (off > 0)\<rparr>"

definition kEof :: uint32 where
  "kEof = of_nat (kMaxRecordType + 1)"

definition kBadRecord :: uint32 where
  "kBadRecord = of_nat (kMaxRecordType + 2)"

definition ReportDrop :: "uint64 \<Rightarrow> status \<Rightarrow> 'f Reader \<Rightarrow> 'f Reader" where
  "ReportDrop bytes reason rd =
     (case reporter rd of
        None \<Rightarrow> rd
      | Some log \<Rightarrow>
          if end_of_buffer_offset rd - of_nat (length (buffer rd)) - bytes \<ge> initial_offset rd
          then rd\<lparr>reporter := Some (log @ [(bytes, reason)])\<rparr> else rd)"

definition ReportCorruption :: "uint64 \<Rightarrow> string \<Rightarrow> 'f Reader \<Rightarrow> 'f Reader" where
  "ReportCorruption bytes reason rd = ReportDrop bytes (Corruption (c_str reason) []) rd"

text \<open>\<^verbatim>\<open>offset_in_block > kBlockSize - 6\<close> compares a \<^verbatim>\<open>size_t\<close> with a positive constant.\<close>

definition SkipToInitialBlock :: "'f SequentialFile \<Rightarrow> 'f Reader \<Rightarrow> (bool \<times> 'f Reader) option" where
  "SkipToInitialBlock vt rd =
     (let offset_in_block = initial_offset rd mod of_nat kBlockSize;
          block_start_location = initial_offset rd - offset_in_block;
          block_start_location = (if offset_in_block > of_nat (kBlockSize - 6)
                                  then block_start_location + of_nat kBlockSize else block_start_location);
          rd = rd\<lparr>end_of_buffer_offset := block_start_location\<rparr>
      in if block_start_location > 0
         then do {
           (skip_status, f) \<leftarrow> vSkip vt block_start_location (rfile rd);
           let rd = rd\<lparr>rfile := f\<rparr>;
           if \<not> ok skip_status then Some (False, ReportDrop block_start_location skip_status rd)
           else Some (True, rd) }
         else Some (True, rd))"

text \<open>
  \<^verbatim>\<open>ReadPhysicalRecord\<close>. The result is the type and, when \<^verbatim>\<open>*result\<close> is assigned, the fragment. The
  type is a \<^verbatim>\<open>char\<close> that becomes an \<^verbatim>\<open>unsigned int\<close>, so it is sign-extended. The first definition is
  the body of the loop behind the test on the size of the buffer, the second is the loop: after a read the
  buffer holds a block or the end of the file was reached, so it runs at most twice.
\<close>

definition parse_record :: "'f Reader \<Rightarrow> uint32 \<times> slice option \<times> 'f Reader" where
  "parse_record rd =
     (let header = buffer rd;
          a = ucast (header ! 4) AND 0xff :: uint32;
          b = ucast (header ! 5) AND 0xff :: uint32;
          type = scast (header ! 6) :: uint32;
          len = a OR push_bit 8 b
      in if kHeaderSize + unat len > length (buffer rd) then
           (let drop_size = of_nat (length (buffer rd)); rd = rd\<lparr>buffer := []\<rparr> in
            if \<not> eof rd then (kBadRecord, None, ReportCorruption drop_size ''bad record length'' rd)
            else (kEof, None, rd))
         else if type = of_nat (record_type kZeroType) \<and> len = 0 then (kBadRecord, None, rd\<lparr>buffer := []\<rparr>)
         else if checksum rd \<and> Value 0 (take (1 + unat len) (drop 6 header)) \<noteq> Unmask (DecodeFixed32 header) then
           (let drop_size = of_nat (length (buffer rd)); rd = rd\<lparr>buffer := []\<rparr> in
            (kBadRecord, None, ReportCorruption drop_size ''checksum mismatch'' rd))
         else
           (let rd = rd\<lparr>buffer := remove_prefix (kHeaderSize + unat len) (buffer rd)\<rparr> in
            if end_of_buffer_offset rd - of_nat (length (buffer rd)) - of_nat kHeaderSize - ucast len < initial_offset rd
            then (kBadRecord, Some [], rd)
            else (type, Some (take (unat len) (drop kHeaderSize header)), rd)))"

function ReadPhysicalRecord ::
    "'f SequentialFile \<Rightarrow> 'f Reader \<Rightarrow> (uint32 \<times> slice option \<times> 'f Reader) option" where
  "ReadPhysicalRecord vt rd =
     (if length (buffer rd) < kHeaderSize then
        if \<not> eof rd then
          (case vRead vt kBlockSize [] (rfile rd) of
             None \<Rightarrow> None
           | Some (status, bytes, f) \<Rightarrow>
               (let rd = rd\<lparr>rfile := f, buffer := bytes,
                            end_of_buffer_offset := end_of_buffer_offset rd + of_nat (length bytes)\<rparr>
                in if \<not> ok status then
                     Some (kEof, None,
                       (ReportDrop (of_nat kBlockSize) status (rd\<lparr>buffer := []\<rparr>))\<lparr>eof := True\<rparr>)
                   else ReadPhysicalRecord vt (if length bytes < kBlockSize then rd\<lparr>eof := True\<rparr> else rd)))
        else Some (kEof, None, rd\<lparr>buffer := []\<rparr>)
      else Some (parse_record rd))"
  by pat_completeness auto
termination
  by (relation "measure (\<lambda>(vt, rd). if length (buffer rd) < kHeaderSize \<and> \<not> eof rd then 1 else 0)")
     (auto simp: kHeaderSize_def kBlockSize_def)

declare ReadPhysicalRecord.simps [simp del]

text \<open>
  The loop of \<^verbatim>\<open>ReadRecord\<close>. Its locals are \<^verbatim>\<open>scratch\<close>, \<^verbatim>\<open>in_fragmented_record\<close>,
  \<^verbatim>\<open>prospective_record_offset\<close> and \<^verbatim>\<open>fragment\<close>; the result is the record, none at the end of the
  input. A file without an end can keep the loop running.
\<close>

partial_function (option) read_loop ::
    "'f SequentialFile \<Rightarrow> slice \<Rightarrow> bool \<Rightarrow> uint64 \<Rightarrow> slice \<Rightarrow> 'f Reader \<Rightarrow> (slice option \<times> 'f Reader) option" where
  "read_loop vt scratch in_frag prospective fragment rd = do {
     (rtype, result, rd) \<leftarrow> ReadPhysicalRecord vt rd;
     let fragment = (case result of None \<Rightarrow> fragment | Some r \<Rightarrow> r);
     let physical_record_offset =
       end_of_buffer_offset rd - of_nat (length (buffer rd)) - of_nat kHeaderSize - of_nat (length fragment);
     let was_resyncing = resyncing rd;
     let rd = (if was_resyncing \<and> rtype \<noteq> of_nat (record_type kMiddleType) then rd\<lparr>resyncing := False\<rparr> else rd);
     if was_resyncing \<and> (rtype = of_nat (record_type kMiddleType) \<or> rtype = of_nat (record_type kLastType))
     then read_loop vt scratch in_frag prospective fragment rd
     else if rtype = of_nat (record_type kFullType) then
       (let rd = (if in_frag \<and> scratch \<noteq> []
                  then ReportCorruption (of_nat (length scratch)) ''partial record without end(1)'' rd else rd)
        in Some (Some fragment, rd\<lparr>last_record_offset := physical_record_offset\<rparr>))
     else if rtype = of_nat (record_type kFirstType) then
       (let rd = (if in_frag \<and> scratch \<noteq> []
                  then ReportCorruption (of_nat (length scratch)) ''partial record without end(2)'' rd else rd)
        in read_loop vt fragment True physical_record_offset fragment rd)
     else if rtype = of_nat (record_type kMiddleType) then
       (if \<not> in_frag
        then read_loop vt scratch in_frag prospective fragment
               (ReportCorruption (of_nat (length fragment)) ''missing start of fragmented record(1)'' rd)
        else read_loop vt (scratch @ fragment) in_frag prospective fragment rd)
     else if rtype = of_nat (record_type kLastType) then
       (if \<not> in_frag
        then read_loop vt scratch in_frag prospective fragment
               (ReportCorruption (of_nat (length fragment)) ''missing start of fragmented record(2)'' rd)
        else Some (Some (scratch @ fragment), rd\<lparr>last_record_offset := prospective\<rparr>))
     else if rtype = kEof then Some (None, rd)
     else if rtype = kBadRecord then
       (if in_frag
        then read_loop vt [] False prospective fragment
               (ReportCorruption (of_nat (length scratch)) ''error in middle of record'' rd)
        else read_loop vt scratch in_frag prospective fragment rd)
     else
       read_loop vt [] False prospective fragment
         (ReportDrop (of_nat (length fragment) + (if in_frag then of_nat (length scratch) else 0))
            (Corruption (c_str ''unknown record type '' @ dec_nat (unat rtype)) []) rd) }"

definition ReadRecord :: "'f SequentialFile \<Rightarrow> 'f Reader \<Rightarrow> (slice option \<times> 'f Reader) option" where
  "ReadRecord vt rd = do {
     (skipped, rd) \<leftarrow> (if last_record_offset rd < initial_offset rd then SkipToInitialBlock vt rd else Some (True, rd));
     if \<not> skipped then Some (None, rd)
     else read_loop vt [] False 0 [] rd }"

definition LastRecordOffset :: "'f Reader \<Rightarrow> uint64" where
  "LastRecordOffset rd = last_record_offset rd"

end
