(* ===== verification/Ldb_File.thy ===== *)
theory Ldb_File
  imports Ldb_Env
begin

text \<open>
  The contracts of the abstract file classes of \<^verbatim>\<open>leveldb-library/include/leveldb/env.h\<close>, as the
  log relies on them, and the proof that the classes of \<^verbatim>\<open>env_posix.cc\<close> keep them. What is assumed
  of the system calls on a regular file stands in \<open>reads_ok\<close>, \<open>seeks_ok\<close> and \<open>writes_ok\<close>: a read gives the
  bytes asked for as far as the file has them; a write stores a non-empty initial part of its data and says how
  much; either may be interrupted, but not for ever, which a measure \<open>pend\<close> on the state of the system bounds.
\<close>

section \<open>Sequential files\<close>

text \<open>
  \<open>rest f\<close> are the bytes from the position of \<open>f\<close> to its end.
\<close>

locale sequential_file =
  fixes read :: "nat \<Rightarrow> slice \<Rightarrow> 'f \<Rightarrow> (status \<times> slice \<times> 'f) option"
    and skip :: "uint64 \<Rightarrow> 'f \<Rightarrow> (status \<times> 'f) option"
    and rest :: "'f \<Rightarrow> byte list"
    and invar :: "'f \<Rightarrow> bool"
  assumes read_returns: "invar f \<Longrightarrow>
      \<exists>f'. read n r f = Some (OK, take n (rest f), f') \<and> rest f' = drop n (rest f) \<and> invar f'"
    and skip_returns: "invar f \<Longrightarrow> unat k < 2 ^ 63 \<Longrightarrow>
      \<exists>f'. skip k f = Some (OK, f') \<and> rest f' = drop (unat k) (rest f) \<and> invar f'"

definition reads_ok :: "'os sys \<Rightarrow> int \<Rightarrow> ('os \<Rightarrow> byte list) \<Rightarrow> ('os \<Rightarrow> nat) \<Rightarrow> bool" where
  "reads_ok sys fd rest pend \<longleftrightarrow> (\<forall>n os.
     case sys_read sys fd n os of
       (Ret bytes, os') \<Rightarrow> bytes = take n (rest os) \<and> rest os' = drop n (rest os)
     | (Err e, os') \<Rightarrow> e = EINTR \<and> rest os' = rest os \<and> pend os' < pend os)"

definition seeks_ok :: "'os sys \<Rightarrow> int \<Rightarrow> ('os \<Rightarrow> byte list) \<Rightarrow> bool" where
  "seeks_ok sys fd rest \<longleftrightarrow> (\<forall>k os. 0 \<le> k \<longrightarrow>
     fst (sys_lseek_cur sys fd k os) = Ret () \<and>
     rest (snd (sys_lseek_cur sys fd k os)) = drop (nat k) (rest os))"

lemma PosixSequentialFile_Read_returns:
  assumes "reads_ok sys (sf_fd sf) rest pend"
  shows "\<exists>os'. PosixSequentialFile_Read sys sf n r os = Some (OK, take n (rest os), os') \<and>
    rest os' = drop n (rest os)"
proof (induction "pend os" arbitrary: os rule: less_induct)
  case less
  obtain x os' where s: "sys_read sys (sf_fd sf) n os = (x, os')" by fastforce
  note a = assms [unfolded reads_ok_def, THEN spec, THEN spec, of n os, unfolded s]
  show ?case
  proof (cases x)
    case (Ret bytes)
    then show ?thesis using a s by (subst PosixSequentialFile_Read.simps) simp
  next
    case (Err e)
    then show ?thesis using a s less [of os'] by (subst PosixSequentialFile_Read.simps) simp
  qed
qed

lemma sint_small: "unat k < 2 ^ 63 \<Longrightarrow> sint k = int (unat k)" for k :: uint64
proof -
  assume "unat k < 2 ^ 63"
  then have "int (unat k) < int (2 ^ 63)" by (simp only: of_nat_less_iff)
  then have "uint k < 2 ^ 63" by simp
  then have "signed_take_bit 63 (uint k) = uint k" using uint_ge_0 [of k] by (intro signed_take_bit_int_eq_self) linarith+
  then show ?thesis by (simp add: sint_uint)
qed

lemma PosixSequentialFile_Skip_returns:
  assumes "seeks_ok sys (sf_fd sf) rest" "unat k < 2 ^ 63"
  shows "\<exists>os'. PosixSequentialFile_Skip sys sf k os = Some (OK, os') \<and> rest os' = drop (unat k) (rest os)"
proof -
  have "fst (sys_lseek_cur sys (sf_fd sf) (sint k) os) = Ret ()"
    "rest (snd (sys_lseek_cur sys (sf_fd sf) (sint k) os)) = drop (unat k) (rest os)"
    using assms unfolding seeks_ok_def by (simp_all add: sint_small)
  then show ?thesis by (cases "sys_lseek_cur sys (sf_fd sf) (sint k) os") (simp add: PosixSequentialFile_Skip_def)
qed

interpretation posix_seq: sequential_file
  "PosixSequentialFile_Read sys sf" "PosixSequentialFile_Skip sys sf" rest
  "\<lambda>_. reads_ok sys (sf_fd sf) rest pend \<and> seeks_ok sys (sf_fd sf) rest"
  for sys sf rest pend
  by unfold_locales
     (auto intro: PosixSequentialFile_Read_returns [of _ _ _ pend] PosixSequentialFile_Skip_returns)

section \<open>Writable files\<close>

text \<open>
  \<open>contents f\<close> are the bytes appended so far and \<open>disk f\<close> those the system has.
  Appending one slice after the other is \<open>append_all\<close>.
\<close>

fun append_all :: "(slice \<Rightarrow> 'f \<Rightarrow> (status \<times> 'f) option) \<Rightarrow> slice list \<Rightarrow> 'f \<Rightarrow> (status \<times> 'f) option" where
  "append_all app [] f = Some (OK, f)"
| "append_all app (s # ss) f = do {
     (status, f) \<leftarrow> app s f;
     if ok status then append_all app ss f else Some (status, f) }"

locale writable_file =
  fixes append :: "slice \<Rightarrow> 'f \<Rightarrow> (status \<times> 'f) option"
    and flush :: "'f \<Rightarrow> (status \<times> 'f) option"
    and contents :: "'f \<Rightarrow> byte list"
    and disk :: "'f \<Rightarrow> byte list"
    and invar :: "'f \<Rightarrow> bool"
  assumes append_returns: "invar f \<Longrightarrow> \<exists>f'. append s f = Some (OK, f') \<and> contents f' = contents f @ s \<and> invar f'"
    and flush_returns: "invar f \<Longrightarrow>
      \<exists>f'. flush f = Some (OK, f') \<and> contents f' = contents f \<and> disk f' = contents f \<and> invar f'"
    and disk_prefix: "invar f \<Longrightarrow> prefix (disk f) (contents f)"
begin

lemma append_all_returns:
  "invar f \<Longrightarrow> \<exists>f'. append_all append ss f = Some (OK, f') \<and> contents f' = contents f @ concat ss \<and> invar f'"
proof (induction ss arbitrary: f)
  case (Cons s ss)
  obtain g where g: "append s f = Some (OK, g)" "contents g = contents f @ s" "invar g"
    using append_returns [OF Cons.prems] by blast
  then show ?case using Cons.IH [OF g(3)] by auto
qed simp

lemma append_all_flush:
  assumes "invar f"
  shows "\<exists>f1 f2. append_all append ss f = Some (OK, f1) \<and> flush f1 = Some (OK, f2) \<and>
    disk f2 = contents f @ concat ss"
proof -
  obtain f1 where f1: "append_all append ss f = Some (OK, f1)" "contents f1 = contents f @ concat ss" "invar f1"
    using append_all_returns [OF assms] by blast
  then show ?thesis using flush_returns [OF f1(3)] by auto
qed

end

definition writes_ok :: "'os sys \<Rightarrow> int \<Rightarrow> ('os \<Rightarrow> byte list) \<Rightarrow> ('os \<Rightarrow> nat) \<Rightarrow> bool" where
  "writes_ok sys fd disk pend \<longleftrightarrow> (\<forall>bs os. bs \<noteq> [] \<longrightarrow>
     (case sys_write sys fd bs os of
        (Ret k, os') \<Rightarrow> 0 < k \<and> k \<le> length bs \<and> disk os' = disk os @ take k bs
      | (Err e, os') \<Rightarrow> e = EINTR \<and> disk os' = disk os \<and> pend os' < pend os))"

lemma writes_okD:
  assumes "writes_ok sys fd disk pend" "bs \<noteq> []" "sys_write sys fd bs os = (x, os')"
  shows "case x of Ret k \<Rightarrow> 0 < k \<and> k \<le> length bs \<and> disk os' = disk os @ take k bs
     | Err e \<Rightarrow> e = EINTR \<and> disk os' = disk os \<and> pend os' < pend os"
  using assms(1) [unfolded writes_ok_def, THEN spec, THEN spec, of bs os] assms(2) by (cases x) (simp_all add: assms(3))

lemma WriteUnbuffered_returns:
  assumes "writes_ok sys (wf_fd f) disk pend"
  shows "\<exists>os'. WriteUnbuffered sys f data os = Some (OK, os') \<and> disk os' = disk os @ data"
proof (induction "length data" arbitrary: data os rule: less_induct)
  case outer: less
  show ?case
  proof (induction "pend os" arbitrary: os rule: less_induct)
    case less
    show ?case
    proof (cases "data = []")
      case True
      then show ?thesis by (subst WriteUnbuffered.simps) simp
    next
      case ne: False
      obtain x os' where s: "sys_write sys (wf_fd f) data os = (x, os')" by fastforce
      note a = writes_okD [OF assms ne s]
      show ?thesis
      proof (cases x)
        case (Ret k)
        then have k: "0 < k" "k \<le> length data" "disk os' = disk os @ take k data" using a by auto
        then have "length (drop k data) < length data" using ne by simp
        from outer [OF this, of os'] show ?thesis using k s ne Ret by (subst WriteUnbuffered.simps) auto
      next
        case (Err e)
        then show ?thesis using a s ne less [of os'] by (subst WriteUnbuffered.simps) simp
      qed
    qed
  qed
qed

lemma FlushBuffer_returns:
  assumes "writes_ok sys (wf_fd f) disk pend"
  shows "\<exists>os'. FlushBuffer sys (f, os) = Some (OK, f\<lparr>buf := []\<rparr>, os') \<and> disk os' = disk os @ buf f"
  using WriteUnbuffered_returns [OF assms, of "buf f" os] by (auto simp: FlushBuffer_def)

lemma Append_returns:
  assumes ok: "writes_ok sys (wf_fd f) disk pend"
  shows "\<exists>f' os'. PosixWritableFile_Append sys data (f, os) = Some (OK, f', os') \<and>
    disk os' @ buf f' = disk os @ buf f @ data \<and> wf_fd f' = wf_fd f \<and> wf_filename f' = wf_filename f \<and>
    (pos f \<le> kWritableFileBufferSize \<longrightarrow> pos f' \<le> kWritableFileBufferSize)"
proof -
  let ?c = "min (length data) (kWritableFileBufferSize - pos f)"
  let ?g = "f\<lparr>buf := buf f @ take ?c data\<rparr>"
  have g: "wf_fd ?g = wf_fd f" by simp
  obtain os1 where fl: "FlushBuffer sys (?g, os) = Some (OK, ?g\<lparr>buf := []\<rparr>, os1)" "disk os1 = disk os @ buf ?g"
    using FlushBuffer_returns [of sys ?g disk pend os] ok by auto
  obtain os2 where wr: "WriteUnbuffered sys (?g\<lparr>buf := []\<rparr>) (drop ?c data) os1 = Some (OK, os2)"
    "disk os2 = disk os1 @ drop ?c data"
    using WriteUnbuffered_returns [of sys "?g\<lparr>buf := []\<rparr>" disk pend "drop ?c data" os1] ok by auto
  show ?thesis
  proof (cases "drop ?c data = []")
    case True
    then have "take ?c data = data" by (metis append_Nil2 append_take_drop_id)
    then show ?thesis using True by (auto simp: PosixWritableFile_Append_def Let_def)
  next
    case False
    then show ?thesis using fl wr
      by (cases "length (drop ?c data) < kWritableFileBufferSize")
         (auto simp: PosixWritableFile_Append_def Let_def)
  qed
qed

definition pf_contents :: "('os \<Rightarrow> byte list) \<Rightarrow> PosixWritableFile \<times> 'os \<Rightarrow> byte list" where
  "pf_contents disk fo = disk (snd fo) @ buf (fst fo)"

interpretation posix_file: writable_file
  "PosixWritableFile_Append sys" "PosixWritableFile_Flush sys" "pf_contents disk" "\<lambda>fo. disk (snd fo)"
  "\<lambda>fo. writes_ok sys (wf_fd (fst fo)) disk pend"
  for sys :: "'os sys" and disk pend
proof unfold_locales
  fix fo :: "PosixWritableFile \<times> 'os" and s
  assume "writes_ok sys (wf_fd (fst fo)) disk pend"
  then show "\<exists>fo'. PosixWritableFile_Append sys s fo = Some (OK, fo') \<and>
      pf_contents disk fo' = pf_contents disk fo @ s \<and> writes_ok sys (wf_fd (fst fo')) disk pend"
    using Append_returns [of sys "fst fo" disk pend s "snd fo"] by (auto simp: pf_contents_def)
next
  fix fo :: "PosixWritableFile \<times> 'os"
  assume "writes_ok sys (wf_fd (fst fo)) disk pend"
  then show "\<exists>fo'. PosixWritableFile_Flush sys fo = Some (OK, fo') \<and> pf_contents disk fo' = pf_contents disk fo \<and>
      disk (snd fo') = pf_contents disk fo \<and> writes_ok sys (wf_fd (fst fo')) disk pend"
    using FlushBuffer_returns [of sys "fst fo" disk pend "snd fo"]
    by (auto simp: PosixWritableFile_Flush_def pf_contents_def)
qed (simp add: pf_contents_def)

section \<open>What a writable file promises when writes fail\<close>

text \<open>
  Only that the system does what it says: a write that reports a count has stored that initial part
  of the data, and a failed write has stored nothing.
\<close>

definition writes_honest :: "'os sys \<Rightarrow> int \<Rightarrow> ('os \<Rightarrow> byte list) \<Rightarrow> bool" where
  "writes_honest sys fd disk \<longleftrightarrow> (\<forall>bs os.
     case sys_write sys fd bs os of
       (Ret k, os') \<Rightarrow> k \<le> length bs \<and> disk os' = disk os @ take k bs
     | (Err e, os') \<Rightarrow> disk os' = disk os)"

lemma PosixError_not_ok [simp]: "\<not> ok (PosixError sys c e)"
  by (simp add: PosixError_def)

lemma WriteUnbuffered_sound:
  assumes "WriteUnbuffered sys f data os = Some y" "writes_honest sys (wf_fd f) disk"
  shows "\<exists>k. disk (snd y) = disk os @ take k data \<and> (ok (fst y) \<longrightarrow> disk (snd y) = disk os @ data)"
  using assms
proof (induction rule: WriteUnbuffered.raw_induct [rotated 1, consumes 1, case_names 1])
  case (1 W sys f data os y)
  show ?case
  proof (cases "data = []")
    case True
    then show ?thesis using 1 by auto
  next
    case False
    obtain x o1 where s: "sys_write sys (wf_fd f) data os = (x, o1)" by fastforce
    note h = 1(3) [unfolded writes_honest_def, THEN spec, THEN spec, of data os, unfolded s]
    show ?thesis
    proof (cases x)
      case (Ret k)
      then have "W sys f (drop k data) o1 = Some y" using 1(2) s False by simp
      from 1(1) [OF this 1(3)] obtain j where "disk (snd y) = disk o1 @ take j (drop k data)"
        "ok (fst y) \<longrightarrow> disk (snd y) = disk o1 @ drop k data" by blast
      then show ?thesis using h Ret take_add [of k j data] by (auto intro!: exI [of _ "k + j"])
    next
      case (Err e)
      show ?thesis
      proof (cases "e = EINTR")
        case True
        then have "W sys f data o1 = Some y" using 1(2) s False Err by simp
        from 1(1) [OF this 1(3)] show ?thesis using h Err by simp
      next
        case no: False
        then have "y = (PosixError sys (wf_filename f) e, o1)" using 1(2) s False Err by simp
        then show ?thesis using h Err by (auto intro: exI [of _ 0])
      qed
    qed
  qed
qed

lemma FlushBuffer_sound:
  assumes "FlushBuffer sys (f, os) = Some (st, f', os')" "writes_honest sys (wf_fd f) disk"
  shows "f' = f\<lparr>buf := []\<rparr>" "prefix (disk os) (disk os')" "prefix (disk os') (disk os @ buf f)"
    "ok st \<Longrightarrow> disk os' = disk os @ buf f"
proof -
  obtain w: "WriteUnbuffered sys f (buf f) os = Some (st, os')" "f' = f\<lparr>buf := []\<rparr>"
    using assms(1) by (auto simp: FlushBuffer_def bind_eq_Some_conv)
  then show "f' = f\<lparr>buf := []\<rparr>" by simp
  show "prefix (disk os) (disk os')" "prefix (disk os') (disk os @ buf f)" "ok st \<Longrightarrow> disk os' = disk os @ buf f"
    using WriteUnbuffered_sound [OF w(1) assms(2)] by (auto simp: take_is_prefix)
qed

text \<open>
  Whatever the system does, as long as it is honest about what it wrote, \<^verbatim>\<open>PosixWritableFile::Append\<close> writes
  only bytes that were appended, in their order: when it returns, the file grew by an initial part of the buffered and
  the new bytes, and if the status is OK the file and the buffer together hold all of them.
\<close>

theorem posix_append_sound:
  assumes "PosixWritableFile_Append sys data (f, os) = Some (st, f', os')" "writes_honest sys (wf_fd f) disk"
  shows "prefix (disk os) (disk os') \<and> prefix (disk os') (disk os @ buf f @ data) \<and>
    (ok st \<longrightarrow> disk os' @ buf f' = disk os @ buf f @ data)"
proof -
  let ?c = "min (length data) (kWritableFileBufferSize - pos f)"
  let ?g = "f\<lparr>buf := buf f @ take ?c data\<rparr>"
  have all: "take ?c data @ drop ?c data = data" by simp
  have pre: "prefix (disk os @ buf ?g) (disk os @ buf f @ data)" by (simp add: take_is_prefix)
  show ?thesis
  proof (cases "drop ?c data = []")
    case True
    then show ?thesis using assms(1) all by (auto simp: PosixWritableFile_Append_def Let_def)
  next
    case False
    obtain s1 g1 o1 where fl: "FlushBuffer sys (?g, os) = Some (s1, g1, o1)"
      using assms(1) False by (auto simp: PosixWritableFile_Append_def Let_def bind_eq_Some_conv)
    have h: "writes_honest sys (wf_fd ?g) disk" using assms(2) by simp
    note fs = FlushBuffer_sound [OF fl h]
    consider "\<not> ok s1" "st = s1" "os' = o1" | "ok s1" "f' = g1\<lparr>buf := drop ?c data\<rparr>" "os' = o1"
      | "ok s1" "f' = g1" "WriteUnbuffered sys g1 (drop ?c data) o1 = Some (st, os')"
      using assms(1) False fl by (auto simp: PosixWritableFile_Append_def Let_def bind_eq_Some_conv split: if_splits)
    then show ?thesis
    proof cases
      case 1
      then show ?thesis using fs pre by (auto intro: prefix_order.trans)
    next
      case 2
      then show ?thesis using fs pre all by auto
    next
      case 3
      then show ?thesis using fs WriteUnbuffered_sound [OF 3(3), of disk] h
        by (auto simp: take_is_prefix) (metis all append.assoc append_prefixD prefixI same_prefix_prefix take_is_prefix)
    qed
  qed
qed

text \<open>
  A system on which all of this can be observed: its state is the bytes of a file and a number of
  interrupts to come; reads take bytes from the front, writes store at most three bytes at the end.
\<close>

definition slow_sys :: "(byte list \<times> nat) sys" where
  "slow_sys =
     \<lparr>sys_read = \<lambda>fd n (d, k). if k = 0 then (Ret (take n d), drop n d, 0) else (Err EINTR, d, k - 1),
      sys_pread = \<lambda>fd n off (d, k). (if off < 0 then Err 22 else Ret (take n (drop (nat off) d)), d, k),
      sys_write = \<lambda>fd bs (d, k). if k = 0 then (Ret (min 3 (length bs)), d @ take 3 bs, 0) else (Err EINTR, d, k - 1),
      sys_lseek_cur = \<lambda>fd n (d, k). (Ret (), drop (nat n) d, k),
      sys_open_rdonly = \<lambda>name os. (Ret 3, os),
      sys_close = \<lambda>fd os. (Ret (), os),
      sys_full_fsync = \<lambda>fd os. (Ret (), os),
      sys_fsync = \<lambda>fd os. (Ret (), os),
      sys_munmap = \<lambda>base n os. (Ret (), os),
      sys_strerror = \<lambda>e. []\<rparr>"

lemma slow_sys_ok:
  "writes_ok slow_sys fd fst snd" "reads_ok slow_sys fd fst snd" "seeks_ok slow_sys fd fst"
  "writes_honest slow_sys fd fst"
  by (auto simp: slow_sys_def writes_ok_def reads_ok_def seeks_ok_def writes_honest_def min_def split: if_splits)

theorem posix_append_sound_witness:
  "\<exists>st f' os'. PosixWritableFile_Append slow_sys [1, 2, 3] (PosixWritableFile_new (c_str ''a/b'') 4, [], 2) = Some (st, f', os') \<and>
     ok st \<and> fst os' @ buf f' = [1, 2, 3]"
proof -
  let ?f = "PosixWritableFile_new (c_str ''a/b'') 4"
  have "PosixWritableFile_Append slow_sys [1, 2, 3] (?f, [], 2) = Some (OK, ?f\<lparr>buf := [1, 2, 3]\<rparr>, [], 2)"
    by (simp add: PosixWritableFile_Append_def PosixWritableFile_new_def kWritableFileBufferSize_def)
  from posix_append_sound [OF this slow_sys_ok(4)] this show ?thesis
    by (auto simp: PosixWritableFile_new_def)
qed

text \<open>
  On a system whose writes do not fail, however short each of them is and however often it is interrupted,
  appending any slices to a \<^verbatim>\<open>PosixWritableFile\<close> and flushing it returns OK, and the file then holds what it
  and the buffer held, followed by the slices in order.
\<close>

theorem posix_append_flush:
  assumes "writes_ok sys (wf_fd f) disk pend"
  shows "\<exists>f1 os1 f2 os2. append_all (PosixWritableFile_Append sys) slices (f, os) = Some (OK, f1, os1) \<and>
    PosixWritableFile_Flush sys (f1, os1) = Some (OK, f2, os2) \<and> disk os2 = disk os @ buf f @ concat slices"
  using posix_file.append_all_flush [of sys "(f, os)" disk pend slices] assms by (auto simp: pf_contents_def)

theorem posix_append_flush_witness:
  "\<exists>f1 os1 f2 os2. append_all (PosixWritableFile_Append slow_sys) [[1, 2], [], [3, 4, 5, 6]]
      (PosixWritableFile_new (c_str ''a/b'') 4, [9], 2) = Some (OK, f1, os1) \<and>
    PosixWritableFile_Flush slow_sys (f1, os1) = Some (OK, f2, os2) \<and> fst os2 = [9, 1, 2, 3, 4, 5, 6]"
  using posix_append_flush [of slow_sys "PosixWritableFile_new (c_str ''a/b'') 4" fst snd "[[1, 2], [], [3, 4, 5, 6]]" "([9], 2)"]
  by (simp add: slow_sys_ok PosixWritableFile_new_def)

end
