(* ===== verification/Ldb_Log_Thms.thy ===== *)
theory Ldb_Log_Thms
  imports Ldb_Log Ldb_File
begin

text \<open>
  The log as a format, independent of the code: a physical record, the ways to lay out a record in
  fragments from a position of the file on, and the layout of a sequence of records. The writer is
  shown to produce such a layout on every file that keeps the contract \<open>writable_file\<close>, and the
  reader to recover the records of every such layout, cut anywhere, from every file that keeps the
  contract \<open>sequential_file\<close>; the posix files keep both.
\<close>

section \<open>Format\<close>

definition phys :: "RecordType \<Rightarrow> byte list \<Rightarrow> byte list" where
  "phys t d = EncodeFixed32 (Mask (Value 0 (of_nat (record_type t) # d)))
     @ [of_nat (length d) AND 0xff, of_nat (length d div 2 ^ 8), of_nat (record_type t)] @ d"

lemma length_phys [simp]: "length (phys t d) = 7 + length d"
  by (simp add: phys_def)

text \<open>The bytes left in the block of a position, and the trailer that is skipped when a header does not fit.\<close>

definition room :: "nat \<Rightarrow> nat" where
  "room p = kBlockSize - p mod kBlockSize"

definition trailer :: "nat \<Rightarrow> nat" where
  "trailer p = (if room p < 7 then room p else 0)"

inductive fragments :: "nat \<Rightarrow> bool \<Rightarrow> byte list \<Rightarrow> byte list \<Rightarrow> bool" where
  final: "7 + length d \<le> room (p + trailer p) \<Longrightarrow>
    fragments p first d (replicate (trailer p) 0 @ phys (fragment_type first True) d)"
| more: "7 + length d1 \<le> room (p + trailer p) \<Longrightarrow> d2 \<noteq> [] \<Longrightarrow>
    fragments (p + trailer p + 7 + length d1) False d2 bs \<Longrightarrow>
    fragments p first (d1 @ d2) (replicate (trailer p) 0 @ phys (fragment_type first False) d1 @ bs)"

inductive log_at :: "nat \<Rightarrow> slice list \<Rightarrow> byte list \<Rightarrow> bool" where
  Nil: "log_at p [] []"
| Cons: "fragments p True r bs \<Longrightarrow> log_at (p + length bs) rs cs \<Longrightarrow> log_at p (r # rs) (bs @ cs)"

lemma log_at_append: "log_at p rs bs \<Longrightarrow> log_at (p + length bs) qs cs \<Longrightarrow> log_at p (rs @ qs) (bs @ cs)"
  by (induction rule: log_at.induct) (auto simp: add.assoc intro: log_at.Cons)

lemma room_bounds: "0 < room p" "room p \<le> kBlockSize"
  by (simp_all add: room_def kBlockSize_def)

lemma room_start: "7 \<le> room (p + trailer p)"
proof (cases "room p < 7")
  case True
  have "(p + (kBlockSize - p mod kBlockSize)) mod kBlockSize = 0"
    by (metis add.commute le_add_diff_inverse mod_add_left_eq mod_less_divisor mod_self nat_less_le
        kBlockSize_def zero_less_numeral)
  then show ?thesis using True by (simp add: trailer_def room_def kBlockSize_def)
qed (simp add: trailer_def)

lemma room_within: "k < room q \<Longrightarrow> q + k + room (q + k) = q + room q"
proof -
  assume "k < room q"
  then have "q mod kBlockSize + k < kBlockSize" by (simp add: room_def)
  then have "(q + k) mod kBlockSize = q mod kBlockSize + k" by (metis mod_add_left_eq mod_less)
  then show ?thesis using \<open>q mod kBlockSize + k < kBlockSize\<close> by (simp add: room_def)
qed

section \<open>The writer produces the format\<close>

text \<open>The offset in the block follows the length of the file; the writer may stand at the end of a block.\<close>

definition writer_at :: "nat \<Rightarrow> 'f Writer \<Rightarrow> bool" where
  "writer_at p w \<longleftrightarrow> block_offset w \<le> kBlockSize \<and> block_offset w mod kBlockSize = p mod kBlockSize \<and>
     type_crc w = InitTypeCrc"

lemma InitTypeCrc_nth: "InitTypeCrc ! record_type t = Value 0 [of_nat (record_type t)]"
  by (cases t) (simp_all add: InitTypeCrc_def kMaxRecordType_def upt_rec numeral_eq_Suc)

lemma writer_at_leftover:
  assumes "writer_at p w"
  shows "kBlockSize - block_offset w = (if block_offset w = kBlockSize then 0 else room p)"
  using assms by (auto simp: writer_at_def room_def kBlockSize_def)

text \<open>Adding records one after the other.\<close>

fun add_all :: "'f WritableFile \<Rightarrow> slice list \<Rightarrow> 'f Writer \<Rightarrow> (status \<times> 'f Writer) option" where
  "add_all vt [] w = Some (OK, w)"
| "add_all vt (r # rs) w = do {
     (status, w) \<leftarrow> AddRecord vt r w;
     if ok status then add_all vt rs w else Some (status, w) }"

context writable_file
begin

abbreviation vt :: "'f WritableFile" where
  "vt \<equiv> \<lparr>vAppend = append, vFlush = flush\<rparr>"

lemma EmitPhysicalRecord_returns:
  assumes "invar (dest w)" "type_crc w = InitTypeCrc"
  shows "\<exists>w'. EmitPhysicalRecord vt t d w = Some (OK, w') \<and> invar (dest w') \<and> type_crc w' = InitTypeCrc \<and>
    block_offset w' = block_offset w + (7 + length d) \<and> contents (dest w') = contents (dest w) @ phys t d \<and>
    disk (dest w') = contents (dest w')"
proof -
  let ?h = "EncodeFixed32 (Mask (Value 0 (of_nat (record_type t) # d)))
     @ [of_nat (length d) AND 0xff, of_nat (length d div 2 ^ 8), of_nat (record_type t)]"
  obtain f1 where f1: "append ?h (dest w) = Some (OK, f1)" "contents f1 = contents (dest w) @ ?h" "invar f1"
    using append_returns [OF assms(1)] by blast
  obtain f2 where f2: "append d f1 = Some (OK, f2)" "contents f2 = contents f1 @ d" "invar f2"
    using append_returns [OF f1(3)] by blast
  obtain f3 where f3: "flush f2 = Some (OK, f3)" "contents f3 = contents f2" "disk f3 = contents f2" "invar f3"
    using flush_returns [OF f2(3)] by blast
  have "Extend 0 (InitTypeCrc ! record_type t) d = Value 0 (of_nat (record_type t) # d)"
    using Value_Cons [of 0 "of_nat (record_type t)" d 0 0] by (simp add: InitTypeCrc_nth)
  then show ?thesis using f1 f2 f3 assms(2)
    by (simp add: EmitPhysicalRecord_def Let_def phys_def kHeaderSize_def)
qed

lemma switch_block_returns:
  assumes "invar (dest w)" "writer_at p w"
  shows "\<exists>w'. switch_block vt w = Some w' \<and> invar (dest w') \<and> writer_at (p + trailer p) w' \<and>
    block_offset w' < kBlockSize \<and> contents (dest w') = contents (dest w) @ replicate (trailer p) 0"
proof -
  note l = writer_at_leftover [OF assms(2)]
  have p: "(p + room p) mod kBlockSize = 0" for p
    unfolding room_def by (metis add.commute le_add_diff_inverse mod_add_left_eq mod_less_divisor mod_self nat_less_le
        kBlockSize_def zero_less_numeral)
  show ?thesis
  proof (cases "kBlockSize - block_offset w < 7")
    case True
    show ?thesis
    proof (cases "block_offset w = kBlockSize")
      case full: True
      then have "p mod kBlockSize = 0" using assms(2) by (simp add: writer_at_def)
      then have "trailer p = 0" by (simp add: trailer_def room_def kBlockSize_def)
      then show ?thesis using assms full \<open>p mod kBlockSize = 0\<close>
        by (auto simp: switch_block_def kHeaderSize_def writer_at_def kBlockSize_def)
    next
      case False
      then have r: "kBlockSize - block_offset w = room p" using l by simp
      obtain f1 where f1: "append (replicate (room p) 0) (dest w) = Some (OK, f1)"
        "contents f1 = contents (dest w) @ replicate (room p) 0" "invar f1"
        using append_returns [OF assms(1)] by blast
      have "switch_block vt w = Some (w\<lparr>dest := f1, block_offset := 0\<rparr>)"
        using True f1(1) room_bounds(1) [of p] unfolding switch_block_def Let_def r by (simp add: kHeaderSize_def)
      moreover have "trailer p = room p" using True r by (simp add: trailer_def)
      ultimately show ?thesis using f1 assms(2) p [of p] by (simp add: writer_at_def kBlockSize_def)
    qed
  next
    case False
    then have "trailer p = 0" "block_offset w < kBlockSize"
      using l assms(2) by (auto simp: trailer_def writer_at_def split: if_splits)
    then show ?thesis using False assms by (simp add: switch_block_def kHeaderSize_def)
  qed
qed

lemma add_loop_returns:
  assumes "invar (dest w)" "writer_at p w"
  shows "\<exists>w' bs. add_loop vt first d w = Some (OK, w') \<and> invar (dest w') \<and> writer_at (p + length bs) w' \<and>
    fragments p first d bs \<and> contents (dest w') = contents (dest w) @ bs \<and> disk (dest w') = contents (dest w')"
  using assms
proof (induction vt first d w arbitrary: p rule: add_loop.induct)
  case (1 first d w)
  obtain w1 where w1: "switch_block vt w = Some w1" "invar (dest w1)" "writer_at (p + trailer p) w1"
      "block_offset w1 < kBlockSize" "contents (dest w1) = contents (dest w) @ replicate (trailer p) 0"
    using switch_block_returns [OF 1(2,3)] by blast
  have o: "kBlockSize - block_offset w1 = room (p + trailer p)" using writer_at_leftover [OF w1(3)] w1(4) by auto
  obtain n where nd: "n = (if length d < room (p + trailer p) - 7 then length d else room (p + trailer p) - 7)" by simp
  then have nn: "(if length d < kBlockSize - block_offset w1 - kHeaderSize then length d
      else kBlockSize - block_offset w1 - kHeaderSize) = n" by (simp add: o kHeaderSize_def)
  have n: "7 + length (take n d) \<le> room (p + trailer p)" "length (take n d) = n" "drop n d = [] \<longleftrightarrow> length d = n"
    using room_start [of p] by (auto simp: nd)
  obtain w2 where w2: "EmitPhysicalRecord vt (fragment_type first (length d = n)) (take n d) w1 = Some (OK, w2)"
      "invar (dest w2)" "type_crc w2 = InitTypeCrc" "block_offset w2 = block_offset w1 + (7 + n)"
      "contents (dest w2) = contents (dest w1) @ phys (fragment_type first (length d = n)) (take n d)"
      "disk (dest w2) = contents (dest w2)"
    using EmitPhysicalRecord_returns [OF w1(2), of "fragment_type first (length d = n)" "take n d"] w1(3) n(2)
    by (auto simp: writer_at_def)
  have at2: "writer_at (p + trailer p + 7 + n) w2"
    using w1(3) w2(3,4) n o room_bounds [of "p + trailer p"] mod_add_cong [of "block_offset w1" kBlockSize "p + trailer p" "7 + n" "7 + n"]
    by (auto simp: writer_at_def add.assoc)
  show ?case
  proof (cases "drop n d = []")
    case True
    then have e: "length d = n" "take n d = d" using n by auto
    have "add_loop vt first d w = Some (OK, w2)"
      unfolding add_loop.simps [of vt first d w] w1(1) option.case Let_def nn w2(1) using True by simp
    moreover have "fragments p first d (replicate (trailer p) 0 @ phys (fragment_type first True) d)"
      using n e by (intro fragments.final) simp
    ultimately show ?thesis using w1 w2 at2 e
      by (intro exI [of _ w2] exI [of _ "replicate (trailer p) 0 @ phys (fragment_type first True) d"]) (simp add: add.assoc)
  next
    case False
    then have e: "length d \<noteq> n" using n by auto
    obtain w3 bs where w3: "add_loop vt False (drop n d) w2 = Some (OK, w3)" "invar (dest w3)"
        "writer_at (p + trailer p + 7 + n + length bs) w3" "fragments (p + trailer p + 7 + n) False (drop n d) bs"
        "contents (dest w3) = contents (dest w2) @ bs" "disk (dest w3) = contents (dest w3)"
      using 1(1) [OF w1(1) refl nn [symmetric] refl w2(1) refl refl _ w2(2) at2] False by auto
    have "add_loop vt first d w = Some (OK, w3)"
      unfolding add_loop.simps [of vt first d w] w1(1) option.case Let_def nn w2(1) using False w3(1) by simp
    moreover have "fragments p first (take n d @ drop n d)
        (replicate (trailer p) 0 @ phys (fragment_type first False) (take n d) @ bs)"
      using n w3(4) False by (intro fragments.more) auto
    ultimately show ?thesis using w1 w2 w3 n e
      by (intro exI [of _ w3] exI [of _ "replicate (trailer p) 0 @ phys (fragment_type first False) (take n d) @ bs"])
         (simp add: ac_simps)
  qed
qed

lemma add_all_returns:
  assumes "invar (dest w)" "writer_at p w" "disk (dest w) = contents (dest w)"
  shows "\<exists>w' bs. add_all vt rs w = Some (OK, w') \<and> invar (dest w') \<and> writer_at (p + length bs) w' \<and>
    log_at p rs bs \<and> contents (dest w') = contents (dest w) @ bs \<and> disk (dest w') = contents (dest w')"
  using assms
proof (induction rs arbitrary: w p)
  case Nil
  then show ?case by (auto intro!: exI [of _ "[]"] log_at.Nil)
next
  case (Cons r rs)
  obtain w1 bs where w1: "AddRecord vt r w = Some (OK, w1)" "invar (dest w1)" "writer_at (p + length bs) w1"
      "fragments p True r bs" "contents (dest w1) = contents (dest w) @ bs" "disk (dest w1) = contents (dest w1)"
    using add_loop_returns [OF Cons.prems(1,2)] unfolding AddRecord_def by blast
  obtain w2 cs where w2: "add_all vt rs w1 = Some (OK, w2)" "invar (dest w2)" "writer_at (p + length bs + length cs) w2"
      "log_at (p + length bs) rs cs" "contents (dest w2) = contents (dest w1) @ cs" "disk (dest w2) = contents (dest w2)"
    using Cons.IH [OF w1(2,3,6)] by blast
  show ?case using w1 w2 log_at.Cons [OF w1(4) w2(4)]
    by (intro exI [of _ w2] exI [of _ "bs @ cs"]) (simp add: add.assoc)
qed

end

section \<open>The reader recovers the records\<close>

text \<open>
  A reader that started at offset 0 stands at position \<open>p\<close> of a file with the bytes \<open>C\<close>: its buffer are the bytes
  from there to the position \<open>e\<close> of the file, which is the end of a block, or the end of the file in the last block.
\<close>

definition reader_at :: "('f \<Rightarrow> byte list) \<Rightarrow> byte list \<Rightarrow> nat \<Rightarrow> 'f Reader \<Rightarrow> bool" where
  "reader_at rest C p rd \<longleftrightarrow> initial_offset rd = 0 \<and> \<not> resyncing rd \<and> (\<exists>e. p \<le> e \<and> e \<le> length C \<and>
     rest (rfile rd) = drop e C \<and> buffer rd = take (e - p) (drop p C) \<and> end_of_buffer_offset rd = of_nat e \<and>
     (if eof rd then e = length C \<and> length C < p + room p else e mod kBlockSize = 0 \<and> (e = p \<or> e = p + room p)))"

lemma byte_value: "(ucast b AND 0xff :: uint32) = of_nat (unat b)" for b :: byte
  unfolding and_FF by (rule bit_word_eqI) (auto simp: bit_simps dest: bit_imp_le_length)

lemma header_length:
  assumes "n < 2 ^ 16"
  shows "(ucast (of_nat n AND 0xff :: byte) AND 0xff) OR push_bit 8 (ucast (of_nat (n div 2 ^ 8) :: byte) AND 0xff)
      = (of_nat n :: uint32)"
proof -
  have "unat (of_nat n AND 0xff :: byte) = n mod 256"
    unfolding and_FF by (simp add: take_bit_word_eq_self unat_of_nat)
  moreover have "unat (of_nat (n div 2 ^ 8) :: byte) = n div 256" using assms by (simp add: unat_of_nat)
  moreover have "of_nat (n mod 256) OR push_bit 8 (of_nat (n div 256)) = (of_nat (n mod 256 + 2 ^ 8 * (n div 256)) :: uint32)"
    by (rule or_group) simp
  ultimately show ?thesis unfolding byte_value by simp
qed

lemma parse_phys:
  assumes "buffer rd = phys t d @ post" "length d < 2 ^ 16" "t \<noteq> kZeroType" "initial_offset rd = 0"
  shows "parse_record rd = (of_nat (record_type t), Some d, rd\<lparr>buffer := post\<rparr>)"
proof -
  let ?h = "EncodeFixed32 (Mask (Value 0 (of_nat (record_type t) # d)))"
  have h: "buffer rd ! 4 = of_nat (length d) AND 0xff" "buffer rd ! 5 = of_nat (length d div 2 ^ 8)"
    "buffer rd ! 6 = of_nat (record_type t)" "DecodeFixed32 (buffer rd) = Mask (Value 0 (of_nat (record_type t) # d))"
    "drop 6 (buffer rd) = of_nat (record_type t) # d @ post"
    unfolding assms(1) phys_def by (simp_all add: nth_append)
  have u: "unat (of_nat (length d) :: uint32) = length d" using assms(2) by (simp add: unat_of_nat)
  have ty: "(scast (of_nat (record_type t) :: byte) :: uint32) = of_nat (record_type t)" "record_type t \<noteq> 0"
    using assms(3) by (cases t; simp)+
  have z: "(of_nat (record_type t) :: uint32) \<noteq> 0" using assms(3) by (cases t) simp_all
  have "drop 7 (phys t d) = d" by (simp add: phys_def)
  then have c: "drop (7 + length d) (buffer rd) = post" "take (length d) (drop 7 (buffer rd)) = d"
    "length (buffer rd) = 7 + length d + length post"
    unfolding assms(1) by simp_all
  show ?thesis unfolding parse_record_def Let_def h header_length [OF assms(2)] u ty kHeaderSize_def
    using assms(4) z c by (simp add: remove_prefix_def)
qed

lemma parse_short:
  assumes "buffer rd = take k (phys t d)" "7 \<le> k" "k < 7 + length d" "length d < 2 ^ 16" "eof rd"
  shows "parse_record rd = (kEof, None, rd\<lparr>buffer := []\<rparr>)"
proof -
  have h: "buffer rd ! 4 = of_nat (length d) AND 0xff" "buffer rd ! 5 = of_nat (length d div 2 ^ 8)"
    using assms(2) unfolding assms(1) phys_def by (simp_all add: nth_append)
  have u: "unat (of_nat (length d) :: uint32) = length d" using assms(4) by (simp add: unat_of_nat)
  have l: "length (buffer rd) = k" using assms(1,3) by simp
  show ?thesis unfolding parse_record_def Let_def h header_length [OF assms(4)] u l
    using assms(3,5) by (simp add: kHeaderSize_def)
qed

text \<open>
  What a reader that is not at the end keeps: reading a physical record starts at the next header, and
  finds the end of the file exactly if no header fits.
\<close>

abbreviation reader_frame :: "'f Reader \<Rightarrow> 'f Reader \<Rightarrow> bool" where
  "reader_frame rd rd' \<equiv> reporter rd' = reporter rd \<and> resyncing rd' = resyncing rd"

text \<open>The branches of the loop of \<^verbatim>\<open>ReadRecord\<close> that a log without damage takes.\<close>

definition record_start :: "'f Reader \<Rightarrow> slice \<Rightarrow> uint64" where
  "record_start rd d = end_of_buffer_offset rd - of_nat (length (buffer rd)) - of_nat kHeaderSize - of_nat (length d)"

lemma record_start_at:
  "end_of_buffer_offset rd - of_nat (length (buffer rd)) = of_nat (q + 7 + length d) \<Longrightarrow> record_start rd d = of_nat q"
  by (simp add: record_start_def kHeaderSize_def)

lemma read_loop_steps:
  assumes "\<not> resyncing rd'"
  shows "ReadPhysicalRecord vt rd = Some (of_nat (record_type kFullType), Some d, rd') \<Longrightarrow>
      read_loop vt [] False pr fr rd = Some (Some d, rd'\<lparr>last_record_offset := record_start rd' d\<rparr>)"
    and "ReadPhysicalRecord vt rd = Some (of_nat (record_type kFirstType), Some d, rd') \<Longrightarrow>
      read_loop vt [] False pr fr rd = read_loop vt d True (record_start rd' d) d rd'"
    and "ReadPhysicalRecord vt rd = Some (of_nat (record_type kMiddleType), Some d, rd') \<Longrightarrow>
      read_loop vt s True pr fr rd = read_loop vt (s @ d) True pr d rd'"
    and "ReadPhysicalRecord vt rd = Some (of_nat (record_type kLastType), Some d, rd') \<Longrightarrow>
      read_loop vt s True pr fr rd = Some (Some (s @ d), rd'\<lparr>last_record_offset := pr\<rparr>)"
  using assms by (subst read_loop.simps; simp add: Let_def record_start_def)+

lemma read_loop_eof:
  "ReadPhysicalRecord vt rd = Some (kEof, None, rd') \<Longrightarrow> \<not> resyncing rd' \<Longrightarrow> read_loop vt s b pr fr rd = Some (None, rd')"
  by (subst read_loop.simps) (simp add: Let_def kEof_def kMaxRecordType_def)

text \<open>Reading records until the reader says that there are no more.\<close>

inductive all_records :: "'f SequentialFile \<Rightarrow> 'f Reader \<Rightarrow> slice list \<Rightarrow> 'f Reader \<Rightarrow> bool" for vt where
  no_more: "ReadRecord vt rd = Some (None, rd') \<Longrightarrow> all_records vt rd [] rd'"
| one_more: "ReadRecord vt rd = Some (Some r, rd1) \<Longrightarrow> all_records vt rd1 rs rd' \<Longrightarrow> all_records vt rd (r # rs) rd'"

lemma ReadRecord_from_start: "initial_offset rd = 0 \<Longrightarrow> ReadRecord vt rd = read_loop vt [] False 0 [] rd"
  by (simp add: ReadRecord_def)

lemma fragments_length: "fragments p first d bs \<Longrightarrow> 7 \<le> length bs"
  by (induction rule: fragments.induct) simp_all

context sequential_file
begin

abbreviation svt :: "'f SequentialFile" where
  "svt \<equiv> \<lparr>vRead = read, vSkip = skip\<rparr>"

lemma ReadPhysicalRecord_at:
  assumes "invar (rfile rd)" "reader_at rest C p rd"
  shows "\<exists>rd'. invar (rfile rd') \<and> reader_frame rd rd' \<and>
    (if p + trailer p + 7 \<le> length C
     then ReadPhysicalRecord svt rd = Some (parse_record rd') \<and> reader_at rest C (p + trailer p) rd' \<and>
       7 \<le> length (buffer rd')
     else ReadPhysicalRecord svt rd = Some (kEof, None, rd'))"
proof -
  obtain e where e: "initial_offset rd = 0" "\<not> resyncing rd" "p \<le> e" "e \<le> length C" "rest (rfile rd) = drop e C"
      "buffer rd = take (e - p) (drop p C)" "end_of_buffer_offset rd = of_nat e"
      "if eof rd then e = length C \<and> length C < p + room p else e mod kBlockSize = 0 \<and> (e = p \<or> e = p + room p)"
    using assms(2) unfolding reader_at_def by blast
  have lb: "length (buffer rd) = e - p" using e by simp
  show ?thesis
  proof (cases "length (buffer rd) < 7")
    case False
    then have "trailer p = 0" using e(8) lb by (auto simp: trailer_def split: if_splits)
    moreover have "p + 7 \<le> length C" using False lb e(3,4) by simp
    moreover have "ReadPhysicalRecord svt rd = Some (parse_record rd)"
      using False by (subst ReadPhysicalRecord.simps) (simp add: kHeaderSize_def)
    ultimately show ?thesis using assms False by (intro exI [of _ rd]) simp
  next
    case small: True
    show ?thesis
    proof (cases "eof rd")
      case True
      then have "\<not> p + trailer p + 7 \<le> length C" using e(3,8) small lb by simp
      moreover have "ReadPhysicalRecord svt rd = Some (kEof, None, rd\<lparr>buffer := []\<rparr>)"
        using small True by (subst ReadPhysicalRecord.simps) (simp add: kHeaderSize_def)
      ultimately show ?thesis using assms(1) by (intro exI [of _ "rd\<lparr>buffer := []\<rparr>"]) simp
    next
      case False
      then have q: "e mod kBlockSize = 0" "e = p + trailer p"
        using e(8) lb small room_start [of p] by (auto simp: trailer_def room_def kBlockSize_def)
      obtain f where f: "read kBlockSize [] (rfile rd) = Some (OK, take kBlockSize (drop e C), f)"
          "rest f = drop kBlockSize (drop e C)" "invar f"
        using read_returns [OF assms(1), of kBlockSize "[]"] unfolding e(5) by blast
      let ?b = "take kBlockSize (drop e C)"
      let ?rd = "rd\<lparr>rfile := f, buffer := ?b, end_of_buffer_offset := end_of_buffer_offset rd + of_nat (length ?b)\<rparr>"
      let ?rd' = "if length ?b < kBlockSize then ?rd\<lparr>eof := True\<rparr> else ?rd"
      have step: "ReadPhysicalRecord svt rd = ReadPhysicalRecord svt ?rd'"
        using f(1) small False by (subst ReadPhysicalRecord.simps) (simp add: kHeaderSize_def Let_def)
      have room: "room e = kBlockSize" using q(1) by (simp add: room_def)
      have len: "length ?b = (if length C < e + kBlockSize then length C - e else kBlockSize)" by auto
      have at: "reader_at rest C e ?rd'"
      proof (cases "length C < e + kBlockSize")
        case True
        then show ?thesis using e f q(1) room unfolding reader_at_def
          by (intro conjI exI [of _ "length C"]) (simp_all add: len of_nat_diff)
      next
        case False
        then have "(e + kBlockSize) mod kBlockSize = 0" using q(1) by simp
        then show ?thesis using e f q(1) room False \<open>\<not> eof rd\<close> unfolding reader_at_def
          by (intro conjI exI [of _ "e + kBlockSize"]) (simp_all add: len add.commute)
      qed
      obtain rd' where r: "rd' = ?rd'" by blast
      have r': "rfile rd' = f" "buffer rd' = ?b" "reader_frame rd rd'" "eof rd' \<longleftrightarrow> length ?b < kBlockSize"
        using False by (auto simp: r)
      show ?thesis
      proof (cases "e + 7 \<le> length C")
        case True
        then have l: "7 \<le> length (buffer rd')" using r'(2) len by (simp add: kBlockSize_def)
        then have "ReadPhysicalRecord svt rd' = Some (parse_record rd')"
          by (subst ReadPhysicalRecord.simps) (simp add: kHeaderSize_def)
        then show ?thesis using step at True f(3) q(2) l r' r by (intro exI [of _ rd']) simp
      next
        case short: False
        then have "length (buffer rd') < 7" "eof rd'" using r'(2,4) len by (simp_all add: kBlockSize_def)
        then have "ReadPhysicalRecord svt rd' = Some (kEof, None, rd'\<lparr>buffer := []\<rparr>)"
          by (subst ReadPhysicalRecord.simps) (simp add: kHeaderSize_def)
        then show ?thesis using step short f(3) q(2) r' r by (intro exI [of _ "rd'\<lparr>buffer := []\<rparr>"]) simp
      qed
    qed
  qed
qed

text \<open>A physical record that the cut leaves whole is read, one that it cuts ends the input.\<close>

lemma ReadPhysicalRecord_phys:
  assumes at: "invar (rfile rd)" "reader_at rest (take n C) p rd"
    and fits: "7 + length d \<le> room (p + trailer p)" "t \<noteq> kZeroType"
    and C: "C = pre @ replicate (trailer p) 0 @ phys t d @ post" "length pre = p"
  shows "\<exists>rd'. invar (rfile rd') \<and> reader_frame rd rd' \<and>
    (if p + trailer p + 7 + length d \<le> n
     then ReadPhysicalRecord svt rd = Some (of_nat (record_type t), Some d, rd') \<and>
       reader_at rest (take n C) (p + trailer p + 7 + length d) rd' \<and>
       end_of_buffer_offset rd' - of_nat (length (buffer rd')) = of_nat (p + trailer p + 7 + length d)
     else ReadPhysicalRecord svt rd = Some (kEof, None, rd'))"
proof -
  let ?q = "p + trailer p" and ?C = "take n C"
  have lC: "?q + 7 + length d \<le> length C" using C by simp
  have d16: "length d < 2 ^ 16" using fits(1) room_bounds(2) [of ?q] by (simp add: kBlockSize_def)
  have "drop ?q C = phys t d @ post" using C by (metis append.assoc append_eq_conv_conj length_append length_replicate)
  then have dq: "drop ?q ?C = take (n - ?q) (phys t d @ post)" by (simp only: drop_take)
  obtain rd1 where r1: "invar (rfile rd1)" "reader_frame rd rd1"
      "if ?q + 7 \<le> length ?C
       then ReadPhysicalRecord svt rd = Some (parse_record rd1) \<and> reader_at rest ?C ?q rd1 \<and> 7 \<le> length (buffer rd1)
       else ReadPhysicalRecord svt rd = Some (kEof, None, rd1)"
    using ReadPhysicalRecord_at [OF at] by blast
  show ?thesis
  proof (cases "?q + 7 \<le> length ?C")
    case False
    then have "\<not> ?q + 7 + length d \<le> n" using lC by auto
    then show ?thesis using r1 False by (intro exI [of _ rd1]) simp
  next
    case True
    then have read: "ReadPhysicalRecord svt rd = Some (parse_record rd1)" "reader_at rest ?C ?q rd1" "7 \<le> length (buffer rd1)"
      using r1(3) by simp_all
    then obtain e where e: "initial_offset rd1 = 0" "\<not> resyncing rd1" "?q \<le> e" "e \<le> length ?C" "rest (rfile rd1) = drop e ?C"
        "buffer rd1 = take (e - ?q) (drop ?q ?C)" "end_of_buffer_offset rd1 = of_nat e"
        "if eof rd1 then e = length ?C \<and> length ?C < ?q + room ?q else e mod kBlockSize = 0 \<and> (e = ?q \<or> e = ?q + room ?q)"
      unfolding reader_at_def by blast
    have e': "\<not> eof rd1 \<Longrightarrow> e = ?q + room ?q" using e(6,8) read(3) by auto
    show ?thesis
    proof (cases "?q + 7 + length d \<le> n")
      case whole: True
      have fit: "?q + 7 + length d \<le> e" using e(8) e' whole fits(1) lC by (cases "eof rd1") auto
      then have b: "buffer rd1 = phys t d @ take (e - (?q + 7 + length d)) (drop (?q + 7 + length d) ?C)"
      proof -
        have "drop ?q ?C = phys t d @ drop (7 + length d) (drop ?q ?C)" using whole by (simp only: dq) simp
        then have "take (e - ?q) (drop ?q ?C) = phys t d @ take (e - ?q - (7 + length d)) (drop (7 + length d) (drop ?q ?C))"
          using fit take_append [of "e - ?q" "phys t d" "drop (7 + length d) (drop ?q ?C)"] by simp
        then show ?thesis unfolding e(6) by (simp add: add.commute add.left_commute)
      qed
      have "parse_record rd1 = (of_nat (record_type t), Some d,
          rd1\<lparr>buffer := take (e - (?q + 7 + length d)) (drop (?q + 7 + length d) ?C)\<rparr>)" (is "_ = (_, _, ?rd2)")
        by (rule parse_phys [OF b d16 fits(2) e(1)])
      moreover have "reader_at rest ?C (?q + 7 + length d) ?rd2"
      proof -
        have "if eof rd1 then e = length ?C \<and> length ?C < ?q + 7 + length d + room (?q + 7 + length d)
          else e mod kBlockSize = 0 \<and> (e = ?q + 7 + length d \<or> e = ?q + 7 + length d + room (?q + 7 + length d))"
        proof (cases "7 + length d = room ?q")
          case True
          then show ?thesis using e(8) e' fit by (cases "eof rd1") auto
        next
          case False
          then have "?q + 7 + length d + room (?q + 7 + length d) = ?q + room ?q"
            using fits(1) room_within [of "7 + length d" ?q] by (simp add: add.assoc)
          then show ?thesis using e(8) e' by (cases "eof rd1") auto
        qed
        then show ?thesis unfolding reader_at_def using e fit by (intro conjI exI [of _ e]) simp_all
      qed
      moreover have "length (buffer ?rd2) = e - (?q + 7 + length d)" using e(4) by auto
      ultimately show ?thesis using r1(1,2) read(1) whole e(7) fit by (intro exI [of _ ?rd2]) (simp add: of_nat_diff)
    next
      case cut: False
      have "eof rd1" using e' e(4) cut fits(1) by auto
      then have "buffer rd1 = take (n - ?q) (phys t d)" using e cut lC dq by simp
      moreover have "7 \<le> n - ?q" "n - ?q < 7 + length d" using True cut by auto
      ultimately have "parse_record rd1 = (kEof, None, rd1\<lparr>buffer := []\<rparr>)" using parse_short d16 \<open>eof rd1\<close> by blast
      then show ?thesis using r1(1,2) read(1) cut by (intro exI [of _ "rd1\<lparr>buffer := []\<rparr>"]) simp
    qed
  qed
qed

lemma reader_at_not_resyncing: "reader_at rest C p rd \<Longrightarrow> \<not> resyncing rd"
  by (simp add: reader_at_def)

lemma read_loop_fragments:
  assumes "fragments p first d bs" "C = pre @ bs @ post" "length pre = p" "invar (rfile rd)"
    "reader_at rest (take n C) p rd" "\<not> first \<or> s = []"
  shows "\<exists>rd'. invar (rfile rd') \<and> reporter rd' = reporter rd \<and>
    (if p + length bs \<le> n
     then read_loop svt s (\<not> first) pr fr rd = Some (Some (s @ d), rd') \<and> reader_at rest (take n C) (p + length bs) rd' \<and>
       last_record_offset rd' = (if first then of_nat (p + trailer p) else pr)
     else read_loop svt s (\<not> first) pr fr rd = Some (None, rd'))"
  using assms
proof (induction arbitrary: pre rd s pr fr rule: fragments.induct)
  case (final d p first)
  let ?t = "fragment_type first True"
  have t: "?t \<noteq> kZeroType" "?t = (if first then kFullType else kLastType)" by (auto simp: fragment_type_def)
  obtain rd1 where r: "invar (rfile rd1)" "reader_frame rd rd1"
    "if p + trailer p + 7 + length d \<le> n
     then ReadPhysicalRecord svt rd = Some (of_nat (record_type ?t), Some d, rd1) \<and>
       reader_at rest (take n C) (p + trailer p + 7 + length d) rd1 \<and>
       end_of_buffer_offset rd1 - of_nat (length (buffer rd1)) = of_nat (p + trailer p + 7 + length d)
     else ReadPhysicalRecord svt rd = Some (kEof, None, rd1)"
    using ReadPhysicalRecord_phys [OF final.prems(3,4) final.hyps t(1), of pre post] final.prems(1,2) by auto
  have nr: "\<not> resyncing rd1" using r(2) final.prems(4) by (simp add: reader_at_def)
  show ?case
  proof (cases "p + trailer p + 7 + length d \<le> n")
    case True
    let ?rd = "rd1\<lparr>last_record_offset := if first then of_nat (p + trailer p) else pr\<rparr>"
    have "record_start rd1 d = of_nat (p + trailer p)" using r(3) True by (intro record_start_at) simp
    then have "read_loop svt s (\<not> first) pr fr rd = Some (Some (s @ d), ?rd)"
      using read_loop_steps [OF nr] r(3) True t(2) final.prems(5) by (cases first) auto
    moreover have "reader_at rest (take n C) (p + trailer p + 7 + length d) ?rd" using r(3) True by (simp add: reader_at_def)
    ultimately show ?thesis using r True by (intro exI [of _ ?rd]) (simp add: add.assoc)
  next
    case False
    then have "read_loop svt s (\<not> first) pr fr rd = Some (None, rd1)" using r(3) nr by (simp add: read_loop_eof)
    then show ?thesis using r False by (intro exI [of _ rd1]) (simp add: add.assoc)
  qed
next
  case (more d1 p d2 bs first)
  let ?t = "fragment_type first False" and ?p = "p + trailer p + 7 + length d1"
  have t: "?t \<noteq> kZeroType" "?t = (if first then kFirstType else kMiddleType)" by (auto simp: fragment_type_def)
  obtain rd1 where r: "invar (rfile rd1)" "reader_frame rd rd1"
    "if ?p \<le> n
     then ReadPhysicalRecord svt rd = Some (of_nat (record_type ?t), Some d1, rd1) \<and>
       reader_at rest (take n C) ?p rd1 \<and> end_of_buffer_offset rd1 - of_nat (length (buffer rd1)) = of_nat ?p
     else ReadPhysicalRecord svt rd = Some (kEof, None, rd1)"
    using ReadPhysicalRecord_phys [OF more.prems(3,4) more.hyps(1) t(1), of pre "bs @ post"] more.prems(1,2) by auto
  have nr: "\<not> resyncing rd1" using r(2) more.prems(4) by (simp add: reader_at_def)
  show ?case
  proof (cases "?p \<le> n")
    case True
    let ?pr = "if first then of_nat (p + trailer p) else pr"
    have "record_start rd1 d1 = of_nat (p + trailer p)" using r(3) True by (intro record_start_at) simp
    then have step: "read_loop svt s (\<not> first) pr fr rd = read_loop svt (s @ d1) (\<not> False) ?pr d1 rd1"
      using read_loop_steps [OF nr] r(3) True t(2) more.prems(5) by (cases first) auto
    let ?pre = "pre @ replicate (trailer p) 0 @ phys ?t d1"
    have C: "C = ?pre @ bs @ post" "length ?pre = ?p" "reader_at rest (take n C) ?p rd1"
      using more.prems(1,2) r(3) True by simp_all
    obtain rd2 where "invar (rfile rd2)" "reporter rd2 = reporter rd1"
      "if ?p + length bs \<le> n
       then read_loop svt (s @ d1) (\<not> False) ?pr d1 rd1 = Some (Some ((s @ d1) @ d2), rd2) \<and>
         reader_at rest (take n C) (?p + length bs) rd2 \<and> last_record_offset rd2 = (if False then of_nat (?p + trailer ?p) else ?pr)
       else read_loop svt (s @ d1) (\<not> False) ?pr d1 rd1 = Some (None, rd2)"
      using more.IH [OF C(1,2) r(1) C(3), of "s @ d1" ?pr d1] by blast
    then show ?thesis using step r(2) by (intro exI [of _ rd2]) (simp add: add.assoc split: if_splits)
  next
    case False
    then have "read_loop svt s (\<not> first) pr fr rd = Some (None, rd1)" using r(3) nr by (simp add: read_loop_eof)
    then show ?thesis using r False by (intro exI [of _ rd1]) simp
  qed
qed

lemma ReadRecord_fragments:
  assumes "fragments p True r bs" "C = pre @ bs @ post" "length pre = p" "invar (rfile rd)" "reader_at rest (take n C) p rd"
  shows "\<exists>rd'. invar (rfile rd') \<and> reporter rd' = reporter rd \<and>
    (if p + length bs \<le> n
     then ReadRecord svt rd = Some (Some r, rd') \<and> reader_at rest (take n C) (p + length bs) rd'
     else ReadRecord svt rd = Some (None, rd'))"
proof -
  have "initial_offset rd = 0" using assms(5) by (simp add: reader_at_def)
  then have "ReadRecord svt rd = read_loop svt [] (\<not> True) 0 [] rd" by (simp add: ReadRecord_from_start)
  then show ?thesis using read_loop_fragments [OF assms, of "[]" 0 "[]"] by (auto split: if_splits)
qed

lemma all_records_log:
  assumes "log_at p rs bs" "fragments (p + length bs) True r cs" "C = pre @ bs @ cs @ post" "length pre = p"
    "invar (rfile rd)" "reader_at rest (take n C) p rd" "p + length bs \<le> n" "n < p + length bs + length cs"
  shows "\<exists>rd'. all_records svt rd rs rd' \<and> reporter rd' = reporter rd"
  using assms
proof (induction arbitrary: pre rd rule: log_at.induct)
  case (Nil p)
  have "C = pre @ cs @ post" "fragments p True r cs" "\<not> p + length cs \<le> n" using Nil.prems by simp_all
  then show ?case using ReadRecord_fragments [of p r cs C pre post rd n] Nil.prems(3,4,5)
    by (auto intro: all_records.no_more)
next
  case (Cons p r' bs rs cs')
  have C: "C = pre @ bs @ (cs' @ cs @ post)" "p + length bs \<le> n" using Cons.prems by simp_all
  obtain rd1 where r1: "invar (rfile rd1)" "reporter rd1 = reporter rd" "ReadRecord svt rd = Some (Some r', rd1)"
      "reader_at rest (take n C) (p + length bs) rd1"
    using ReadRecord_fragments [OF Cons.hyps(1) C(1) Cons.prems(3,4,5)] C(2) by auto
  have "C = (pre @ bs) @ cs' @ cs @ post" "length (pre @ bs) = p + length bs"
    "fragments (p + length bs + length cs') True r cs" "p + length bs + length cs' \<le> n"
    "n < p + length bs + length cs' + length cs"
    using Cons.prems by (simp_all add: add.assoc)
  then obtain rd2 where "all_records svt rd1 rs rd2" "reporter rd2 = reporter rd1"
    using Cons.IH [OF _ _ _ r1(1,4)] by blast
  then show ?case using r1(2,3) by (auto intro: all_records.one_more)
qed

text \<open>A file cut behind a complete record, anywhere before the end of the next.\<close>

lemma all_records_cut:
  assumes "log_at 0 rs bs" "fragments (length bs) True r cs" "prefix bs D" "strict_prefix D (bs @ cs)"
    "invar f" "rest f = D"
  shows "\<exists>rd. all_records svt (Reader_new f rep chk 0) rs rd \<and> reporter rd = rep"
proof -
  let ?rd = "Reader_new f rep chk 0"
  obtain tl where tl: "bs @ cs = D @ tl" "tl \<noteq> []" using assms(4) by (auto simp: strict_prefix_def prefix_def)
  then have D: "take (length D) (bs @ cs) = D" by simp
  have at: "reader_at rest (take (length D) (bs @ cs)) 0 ?rd"
    unfolding D reader_at_def using assms(6) by (simp add: Reader_new_def exI [of _ 0])
  have l: "length bs \<le> length D" using assms(3) by (rule prefix_length_le)
  have "length (bs @ cs) = length D + length tl" using tl by simp
  then have "length D < length bs + length cs" using tl(2) by simp
  then show ?thesis using all_records_log [of 0 rs bs r cs "bs @ cs" "[]" "[]" ?rd "length D"] assms(1,2,5) at l
    by (simp add: Reader_new_def)
qed

end

section \<open>Properties\<close>

definition posix_writable :: "'os sys \<Rightarrow> (PosixWritableFile \<times> 'os) WritableFile" where
  "posix_writable sys = \<lparr>vAppend = PosixWritableFile_Append sys, vFlush = PosixWritableFile_Flush sys\<rparr>"

definition posix_sequential :: "'os sys \<Rightarrow> PosixSequentialFile \<Rightarrow> 'os SequentialFile" where
  "posix_sequential sys sf = \<lparr>vRead = PosixSequentialFile_Read sys sf, vSkip = PosixSequentialFile_Skip sys sf\<rparr>"

lemma writer_at_new: "writer_at 0 (Writer_new f)"
  by (simp add: writer_at_def Writer_new_def kBlockSize_def)

lemma writer_at_reopen: "writer_at n (Writer_reopen f (of_nat n))"
proof -
  have "n mod 2 ^ 64 mod 32768 = n mod 32768" by (rule mod_mod_cancel) (simp add: dvd_def exI [of _ "2 ^ 49"])
  then show ?thesis by (simp add: writer_at_def Writer_reopen_def kBlockSize_def unat_mod unat_of_nat)
qed

lemma posix_log_write:
  assumes "writes_ok sys (wf_fd (fst (dest w))) disk pend" "writer_at p w" "buf (fst (dest w)) = []"
  shows "\<exists>w' bs. add_all (posix_writable sys) rs w = Some (OK, w') \<and> writes_ok sys (wf_fd (fst (dest w'))) disk pend \<and>
    writer_at (p + length bs) w' \<and> log_at p rs bs \<and> disk (snd (dest w')) = disk (snd (dest w)) @ bs \<and> buf (fst (dest w')) = []"
proof -
  have d: "disk (snd (dest w)) = pf_contents disk (dest w)" using assms(3) by (simp add: pf_contents_def)
  note posix_file.add_all_returns [where sys = sys and disk = disk and pend = pend and w = w and p = p and rs = rs,
      OF assms(1,2) d, folded posix_writable_def]
  then show ?thesis using assms(3) by (auto simp: pf_contents_def)
qed

lemma posix_log_read:
  assumes "log_at 0 rs bs" "fragments (length bs) True r cs" "prefix bs D" "strict_prefix D (bs @ cs)"
    "reads_ok sys (sf_fd sf) rest pend" "seeks_ok sys (sf_fd sf) rest" "rest os = D"
  shows "\<exists>rd. all_records (posix_sequential sys sf) (Reader_new os rep chk 0) rs rd \<and> reporter rd = rep"
  using posix_seq.all_records_cut [OF assms(1-4), of sys sf rest pend os rep chk] assms(5-7)
  by (simp add: posix_sequential_def)

lemma posix_log_next:
  assumes "writes_ok wsys (wf_fd pf) disk wpend" "buf pf = []" "disk wos = []"
  shows "\<exists>w1 w2 bs cs. add_all (posix_writable wsys) rs (Writer_new (pf, wos)) = Some (OK, w1) \<and>
    AddRecord (posix_writable wsys) r w1 = Some (OK, w2) \<and> log_at 0 rs bs \<and> fragments (length bs) True r cs \<and>
    disk (snd (dest w1)) = bs \<and> disk (snd (dest w2)) = bs @ cs \<and> strict_prefix bs (bs @ cs)"
proof -
  have d: "dest (Writer_new (pf, wos)) = (pf, wos)" by (simp add: Writer_new_def)
  obtain w1 bs where w1: "add_all (posix_writable wsys) rs (Writer_new (pf, wos)) = Some (OK, w1)"
      "writes_ok wsys (wf_fd (fst (dest w1))) disk wpend" "writer_at (length bs) w1" "log_at 0 rs bs"
      "disk (snd (dest w1)) = bs" "buf (fst (dest w1)) = []"
    using posix_log_write [OF _ writer_at_new, of wsys "(pf, wos)" disk wpend rs] assms(1-3) unfolding d by auto
  obtain w2 cs where w2: "AddRecord (posix_writable wsys) r w1 = Some (OK, w2)" "fragments (length bs) True r cs"
      "disk (snd (dest w2)) = bs @ cs"
    using posix_log_write [OF w1(2,3,6), of "[r]"] w1(5)
    by (auto simp: bind_eq_Some_conv ok_def OK_def elim!: log_at.cases split: if_splits)
  have "cs \<noteq> []" using fragments_length [OF w2(2)] by auto
  then show ?thesis using w1(1,4,5) w2 by (auto simp: strict_prefix_def)
qed

text \<open>
  C14: The log survives a crash. Records added by \<^verbatim>\<open>log::Writer\<close> to an empty posix file are added without error, however
  the system splits the writes and interrupts writes and reads. If the file is then found cut anywhere behind the last of these records and
  before the end of the next one, a \<^verbatim>\<open>log::Reader\<close> from the start of it returns exactly the records, in order, then the
  end of the input, and reports no corruption.
\<close>

theorem log_crash_safe:
  assumes "writes_ok wsys (wf_fd pf) disk wpend" "buf pf = []" "disk wos = []"
    and "reads_ok rsys (sf_fd sf) rest rpend" "seeks_ok rsys (sf_fd sf) rest"
  shows "\<exists>w1 w2. add_all (posix_writable wsys) rs (Writer_new (pf, wos)) = Some (OK, w1) \<and>
    AddRecord (posix_writable wsys) r w1 = Some (OK, w2) \<and>
    strict_prefix (disk (snd (dest w1))) (disk (snd (dest w2))) \<and>
    (\<forall>D os rep chk. prefix (disk (snd (dest w1))) D \<and> strict_prefix D (disk (snd (dest w2))) \<and> rest os = D \<longrightarrow>
       (\<exists>rd. all_records (posix_sequential rsys sf) (Reader_new os rep chk 0) rs rd \<and> reporter rd = rep))"
proof -
  obtain w1 w2 bs cs where w: "add_all (posix_writable wsys) rs (Writer_new (pf, wos)) = Some (OK, w1)"
      "AddRecord (posix_writable wsys) r w1 = Some (OK, w2)" "log_at 0 rs bs" "fragments (length bs) True r cs"
      "disk (snd (dest w1)) = bs" "disk (snd (dest w2)) = bs @ cs" "strict_prefix bs (bs @ cs)"
    using posix_log_next [OF assms(1-3)] by blast
  then show ?thesis using posix_log_read [OF w(3,4) _ _ assms(4,5)] by auto
qed

theorem log_crash_safe_witness:
  "\<exists>w1 rd. add_all (posix_writable slow_sys) [[1, 2, 3], []] (Writer_new (PosixWritableFile_new (c_str ''000003.log'') 4, [], 2))
      = Some (OK, w1) \<and>
    all_records (posix_sequential slow_sys \<lparr>sf_filename = c_str ''000003.log'', sf_fd = 5\<rparr>)
      (Reader_new (fst (snd (dest w1)), 1) (Some []) True 0) [[1, 2, 3], []] rd \<and> reporter rd = Some []"
proof -
  let ?pf = "PosixWritableFile_new (c_str ''000003.log'') 4"
  have b: "buf ?pf = []" by (simp add: PosixWritableFile_new_def)
  obtain w1 w2 where w: "add_all (posix_writable slow_sys) [[1, 2, 3], []] (Writer_new (?pf, [], 2)) = Some (OK, w1)"
    "AddRecord (posix_writable slow_sys) [4] w1 = Some (OK, w2)"
    "strict_prefix (fst (snd (dest w1))) (fst (snd (dest w2)))"
    "\<forall>D os rep chk. prefix (fst (snd (dest w1))) D \<and> strict_prefix D (fst (snd (dest w2))) \<and> fst os = D \<longrightarrow>
       (\<exists>rd. all_records (posix_sequential slow_sys \<lparr>sf_filename = c_str ''000003.log'', sf_fd = 5\<rparr>)
         (Reader_new os rep chk 0) [[1, 2, 3], []] rd \<and> reporter rd = rep)"
    using log_crash_safe [OF slow_sys_ok(1) b fst_conv slow_sys_ok(2,3), of "[[1, 2, 3], []]" 2 "[4]"
        "\<lparr>sf_filename = c_str ''000003.log'', sf_fd = 5\<rparr>"]
    by (elim exE conjE) (rule that)
  show ?thesis using w(1,3) w(4) [rule_format, of "fst (snd (dest w1))" "(fst (snd (dest w1)), 1)" "Some []" True] by auto
qed

text \<open>
  A log can be extended: when a \<^verbatim>\<open>log::Writer\<close> is opened with the length of a file that holds a log, records it adds
  are read back behind those that were there.
\<close>

theorem log_reopen:
  assumes "writes_ok wsys (wf_fd pf) disk wpend" "buf pf = []" "disk wos = []"
    and "reads_ok rsys (sf_fd sf) rest rpend" "seeks_ok rsys (sf_fd sf) rest"
  shows "\<exists>w1 w2. add_all (posix_writable wsys) rs (Writer_new (pf, wos)) = Some (OK, w1) \<and>
    add_all (posix_writable wsys) qs (Writer_reopen (dest w1) (of_nat (length (disk (snd (dest w1)))))) = Some (OK, w2) \<and>
    (\<forall>os rep chk. rest os = disk (snd (dest w2)) \<longrightarrow>
       (\<exists>rd. all_records (posix_sequential rsys sf) (Reader_new os rep chk 0) (rs @ qs) rd \<and> reporter rd = rep))"
proof -
  have d: "dest (Writer_new (pf, wos)) = (pf, wos)" by (simp add: Writer_new_def)
  obtain w1 bs where w1: "add_all (posix_writable wsys) rs (Writer_new (pf, wos)) = Some (OK, w1)"
      "writes_ok wsys (wf_fd (fst (dest w1))) disk wpend" "log_at 0 rs bs" "disk (snd (dest w1)) = bs" "buf (fst (dest w1)) = []"
    using posix_log_write [OF _ writer_at_new, of wsys "(pf, wos)" disk wpend rs] assms(1-3) unfolding d by auto
  have d2: "dest (Writer_reopen (dest w1) (of_nat (length bs))) = dest w1" by (simp add: Writer_reopen_def)
  obtain w2 cs where w2: "add_all (posix_writable wsys) qs (Writer_reopen (dest w1) (of_nat (length bs))) = Some (OK, w2)"
      "writes_ok wsys (wf_fd (fst (dest w2))) disk wpend" "writer_at (length bs + length cs) w2"
      "log_at (length bs) qs cs" "disk (snd (dest w2)) = bs @ cs" "buf (fst (dest w2)) = []"
    using posix_log_write [OF _ writer_at_reopen, of wsys "dest w1" "length bs" disk wpend qs] w1(2,4,5) unfolding d2 by auto
  obtain es where es: "fragments (length bs + length cs) True [] es"
    using posix_log_write [OF w2(2,3,6), of "[[]]"] by (auto elim!: log_at.cases)
  have "log_at 0 (rs @ qs) (bs @ cs)" using log_at_append [OF w1(3)] w2(4) by simp
  moreover have "es \<noteq> []" using fragments_length [OF es] by auto
  ultimately show ?thesis using w1(1,4) w2(1,5) es posix_log_read [of "rs @ qs" "bs @ cs" "[]" es "bs @ cs", OF _ _ _ _ assms(4,5)]
    by (auto simp: strict_prefix_def)
qed

theorem log_reopen_witness:
  "\<exists>w1 w2 rd. add_all (posix_writable slow_sys) [[1, 2, 3]] (Writer_new (PosixWritableFile_new (c_str ''000003.log'') 4, [], 2))
      = Some (OK, w1) \<and>
    add_all (posix_writable slow_sys) [[], [4]] (Writer_reopen (dest w1) (of_nat (length (fst (snd (dest w1)))))) = Some (OK, w2) \<and>
    all_records (posix_sequential slow_sys \<lparr>sf_filename = c_str ''000003.log'', sf_fd = 5\<rparr>)
      (Reader_new (fst (snd (dest w2)), 1) (Some []) True 0) [[1, 2, 3], [], [4]] rd \<and> reporter rd = Some []"
proof -
  let ?pf = "PosixWritableFile_new (c_str ''000003.log'') 4"
  have b: "buf ?pf = []" by (simp add: PosixWritableFile_new_def)
  from log_reopen [OF slow_sys_ok(1) b fst_conv slow_sys_ok(2,3), of "[[1, 2, 3]]" 2 "[[], [4]]" "\<lparr>sf_filename = c_str ''000003.log'', sf_fd = 5\<rparr>"]
  obtain w1 w2 where w: "add_all (posix_writable slow_sys) [[1, 2, 3]] (Writer_new (?pf, [], 2)) = Some (OK, w1)"
    "add_all (posix_writable slow_sys) [[], [4]] (Writer_reopen (dest w1) (of_nat (length (fst (snd (dest w1)))))) = Some (OK, w2)"
    "\<forall>os rep chk. fst os = fst (snd (dest w2)) \<longrightarrow>
       (\<exists>rd. all_records (posix_sequential slow_sys \<lparr>sf_filename = c_str ''000003.log'', sf_fd = 5\<rparr>)
         (Reader_new os rep chk 0) ([[1, 2, 3]] @ [[], [4]]) rd \<and> reporter rd = rep)"
    by (elim exE conjE) (rule that)
  show ?thesis using w(1,2) w(3) [rule_format, of "(fst (snd (dest w2)), 1)" "Some []" True] by auto
qed

end
