(* ===== verification/Ldb_Log_Safe.thy ===== *)
theory Ldb_Log_Safe
  imports Ldb_Log_Thms
begin

text \<open>
  What the reader of a log does on files that no writer produced: it returns on every file, and with
  checksums it returns only fragments whose header carries the length and the checksum of the data.
\<close>

section \<open>Reading ends\<close>

lemma ReportDrop_fields [simp]:
  "rfile (ReportDrop k r rd) = rfile rd" "buffer (ReportDrop k r rd) = buffer rd" "eof (ReportDrop k r rd) = eof rd"
  "rfile (ReportCorruption k m rd) = rfile rd" "buffer (ReportCorruption k m rd) = buffer rd"
  "eof (ReportCorruption k m rd) = eof rd"
  by (simp_all add: ReportDrop_def ReportCorruption_def split: option.split)

lemma parse_record_shrinks:
  assumes "parse_record rd = (ty, res, rd')" "7 \<le> length (buffer rd)"
  shows "rfile rd' = rfile rd" "length (buffer rd') < length (buffer rd)"
  using assms by (auto simp: parse_record_def Let_def remove_prefix_def kHeaderSize_def split: if_splits)

text \<open>The bytes in the buffer and in the rest of the file.\<close>

definition unread :: "('f \<Rightarrow> byte list) \<Rightarrow> 'f Reader \<Rightarrow> nat" where
  "unread rest rd = length (buffer rd) + length (rest (rfile rd))"

context sequential_file
begin

lemma ReadPhysicalRecord_returns:
  assumes "invar (rfile rd)"
  shows "\<exists>ty res rd'. ReadPhysicalRecord svt rd = Some (ty, res, rd') \<and> invar (rfile rd') \<and>
    (ty = kEof \<or> unread rest rd' < unread rest rd)"
  using assms
proof (induction svt rd rule: ReadPhysicalRecord.induct)
  case (1 rd)
  show ?case
  proof (cases "length (buffer rd) < kHeaderSize")
    case False
    obtain ty res rd' where p: "parse_record rd = (ty, res, rd')" by (metis surj_pair)
    moreover have "ReadPhysicalRecord svt rd = Some (parse_record rd)"
      using False by (subst ReadPhysicalRecord.simps) simp
    ultimately show ?thesis using parse_record_shrinks [OF p] False 1(2) by (auto simp: kHeaderSize_def unread_def)
  next
    case small: True
    show ?thesis
    proof (cases "eof rd")
      case True
      then show ?thesis using small 1(2) by (subst ReadPhysicalRecord.simps) simp
    next
      case False
      obtain f where f: "read kBlockSize [] (rfile rd) = Some (OK, take kBlockSize (rest (rfile rd)), f)"
          "rest f = drop kBlockSize (rest (rfile rd))" "invar f"
        using read_returns [OF 1(2), of kBlockSize "[]"] by blast
      let ?b = "take kBlockSize (rest (rfile rd))"
      let ?rd = "rd\<lparr>rfile := f, buffer := ?b, end_of_buffer_offset := end_of_buffer_offset rd + of_nat (length ?b)\<rparr>"
      let ?rd' = "if length ?b < kBlockSize then ?rd\<lparr>eof := True\<rparr> else ?rd"
      have "ReadPhysicalRecord svt rd = ReadPhysicalRecord svt ?rd'"
        using f(1) small False by (subst ReadPhysicalRecord.simps) (simp add: Let_def)
      moreover have "unread rest ?rd' \<le> unread rest rd" "invar (rfile ?rd')" using f by (simp_all add: unread_def)
      moreover have "\<exists>ty res rd'. ReadPhysicalRecord svt ?rd' = Some (ty, res, rd') \<and> invar (rfile rd') \<and>
          (ty = kEof \<or> unread rest rd' < unread rest ?rd')"
        using 1(1) [OF small False, of "(OK, ?b, f)" OK "(?b, f)" ?b f ?rd] f(1,3) by simp
      ultimately show ?thesis by (metis (no_types, lifting) less_le_trans)
    qed
  qed
qed

lemma read_loop_returns:
  assumes "invar (rfile rd)"
  shows "\<exists>r rd'. read_loop svt s b pr fr rd = Some (r, rd')"
  using assms
proof (induction "unread rest rd" arbitrary: s b pr fr rd rule: less_induct)
  case less
  obtain ty res rd1 where r: "ReadPhysicalRecord svt rd = Some (ty, res, rd1)" "invar (rfile rd1)"
      "ty = kEof \<or> unread rest rd1 < unread rest rd"
    using ReadPhysicalRecord_returns [OF less.prems] by blast
  have eq: "unread rest (rd1\<lparr>resyncing := False\<rparr>) = unread rest rd1" "unread rest (ReportCorruption k m rd2) = unread rest rd2"
    "unread rest (ReportDrop k st rd2) = unread rest rd2" for k m st and rd2 :: "'f Reader"
    by (simp_all add: unread_def)
  show ?case
  proof (cases "ty = kEof")
    case True
    then show ?thesis using r(1) by (subst read_loop.simps) (simp add: Let_def kEof_def kMaxRecordType_def)
  next
    case False
    then have "unread rest rd1 < unread rest rd" using r(3) by simp
    then have ih: "\<exists>r rd'. read_loop svt s b pr fr rd2 = Some (r, rd')"
      if "rfile rd2 = rfile rd1" "buffer rd2 = buffer rd1" for s b pr fr rd2
      using less.hyps [of rd2] that r(2) by (simp add: unread_def)
    show ?thesis using r(1) by (subst read_loop.simps) (simp add: Let_def ih)
  qed
qed

lemma ReadRecord_returns:
  assumes "invar (rfile rd)" "unat (initial_offset rd) < 2 ^ 62"
  shows "\<exists>r rd'. ReadRecord svt rd = Some (r, rd')"
proof -
  let ?o = "initial_offset rd mod of_nat kBlockSize"
  let ?b = "initial_offset rd - ?o"
  let ?l = "if ?o > of_nat (kBlockSize - 6) then ?b + of_nat kBlockSize else ?b"
  have "unat ?b \<le> unat (initial_offset rd)"
    by (metis unat_mod mod_less_eq_dividend unat_sub diff_le_self word_le_nat_alt)
  then have "unat (?b + of_nat kBlockSize) < 2 ^ 63" "unat ?b < 2 ^ 63"
    using assms(2) by (simp_all add: unat_word_ariths kBlockSize_def)
  then have "unat ?l < 2 ^ 63" by simp
  from skip_returns [OF assms(1) this]
  obtain f where f: "skip ?l (rfile rd) = Some (OK, f)" "invar f" by blast
  then have "\<exists>ok rd1. SkipToInitialBlock svt rd = Some (ok, rd1) \<and> invar (rfile rd1)"
    using assms(1) unfolding SkipToInitialBlock_def Let_def by auto
  then show ?thesis using read_loop_returns assms(1) unfolding ReadRecord_def
    by (cases "last_record_offset rd < initial_offset rd") (auto split: if_splits)
qed

end

text \<open>
  C18: \<^verbatim>\<open>Reader::ReadRecord\<close> returns: on a regular file, whatever bytes it holds and whatever state the reader is in, it
  finds a record or the end of the input, also when it starts at an offset, below \<open>2 ^ 62\<close>, and when reads are interrupted.
\<close>

theorem log_read_returns:
  assumes "reads_ok sys (sf_fd sf) rest pend" "seeks_ok sys (sf_fd sf) rest" "unat (initial_offset rd) < 2 ^ 62"
  shows "\<exists>r rd'. ReadRecord (posix_sequential sys sf) rd = Some (r, rd')"
  using posix_seq.ReadRecord_returns [where sys = sys and sf = sf and rest = rest and pend = pend and rd = rd] assms
  by (simp add: posix_sequential_def)

theorem log_read_returns_witness:
  "\<exists>r rd'. ReadRecord (posix_sequential slow_sys \<lparr>sf_filename = c_str ''000003.log'', sf_fd = 5\<rparr>)
     (Reader_new ([1, 2, 3, 4, 5, 6, 7, 8, 9], 3) (Some []) True 40) = Some (r, rd')"
  by (rule log_read_returns [OF slow_sys_ok(2,3)]) (simp add: Reader_new_def)

section \<open>Checksums guard what is read\<close>

lemma split_header:
  assumes "7 \<le> length b"
  shows "b = take 4 b @ [b ! 4, b ! 5, b ! 6] @ drop 7 b"
proof -
  have "drop 4 b = b ! 4 # b ! 5 # b ! 6 # drop 7 b"
    using Cons_nth_drop_Suc [of 4 b] Cons_nth_drop_Suc [of 5 b] Cons_nth_drop_Suc [of 6 b] assms by simp
  then show ?thesis using append_take_drop_id [of 4 b] by simp
qed

lemma parse_record_checked:
  assumes "parse_record rd = (ty, Some d, rd')" "7 \<le> length (buffer rd)" "checksum rd" "ty \<noteq> kBadRecord"
  shows "\<exists>t. ty = scast t \<and> length d < 2 ^ 16 \<and>
    buffer rd = EncodeFixed32 (Mask (Value 0 (t # d))) @ [of_nat (length d) AND 0xff, of_nat (length d div 2 ^ 8), t] @ d @ buffer rd'"
proof -
  let ?b = "buffer rd"
  let ?len = "(ucast (?b ! 4) AND 0xff) OR push_bit 8 (ucast (?b ! 5) AND 0xff) :: uint32"
  have v: "of_nat (unat (?b ! 4)) OR push_bit 8 (of_nat (unat (?b ! 5))) = (of_nat (unat (?b ! 4) + 2 ^ 8 * unat (?b ! 5)) :: uint32)"
    by (rule or_group) (use unsigned_less [of "?b ! 4", where ?'a = nat] in simp)
  have small: "unat (?b ! 4) < 256" "unat (?b ! 5) < 256"
    using unsigned_less [of "?b ! 4", where ?'a = nat] unsigned_less [of "?b ! 5", where ?'a = nat] by simp_all
  then have ln: "unat ?len = unat (?b ! 4) + 256 * unat (?b ! 5)" unfolding byte_value v by (simp add: unat_of_nat del: of_nat_add)
  have c: "kHeaderSize + unat ?len \<le> length ?b" "Value 0 (take (1 + unat ?len) (drop 6 ?b)) = Unmask (DecodeFixed32 ?b)"
    "ty = scast (?b ! 6)" "d = take (unat ?len) (drop kHeaderSize ?b)" "buffer rd' = drop (kHeaderSize + unat ?len) ?b"
    using assms by (auto simp: parse_record_def Let_def remove_prefix_def split: if_splits)
  have l: "length d = unat ?len" using c(1,4) by (simp add: kHeaderSize_def)
  have d6: "take (1 + unat ?len) (drop 6 ?b) = ?b ! 6 # d"
    using Cons_nth_drop_Suc [of 6 ?b, symmetric] assms(2) c(4) by (simp add: kHeaderSize_def)
  then have E: "EncodeFixed32 (Mask (Value 0 (?b ! 6 # d))) = take 4 ?b" using c(2) assms(2) by (simp add: EncodeFixed32_Decode)
  have D: "d @ buffer rd' = drop 7 ?b"
    using c(4,5) append_take_drop_id [of "unat ?len" "drop 7 ?b"] by (simp only: drop_drop kHeaderSize_def) (simp add: add.commute)
  have ld: "length d = unat (?b ! 4) + 256 * unat (?b ! 5)" using l ln by simp
  have z: "256 = (0 :: byte)" by simp
  have B4: "(of_nat (length d) AND 0xff :: byte) = ?b ! 4"
    unfolding ld and_FF by (simp add: take_bit_word_eq_self) (simp only: z mult_zero_left)
  have B5: "(of_nat (length d div 2 ^ 8) :: byte) = ?b ! 5" unfolding ld using small by simp
  have "length d < 2 ^ 16" unfolding ld using small by simp
  moreover have "?b = EncodeFixed32 (Mask (Value 0 (?b ! 6 # d)))
      @ [of_nat (length d) AND 0xff, of_nat (length d div 2 ^ 8), ?b ! 6] @ d @ buffer rd'"
    unfolding E B4 B5 D by (rule split_header [OF assms(2)])
  ultimately show ?thesis using c(3) by blast
qed

text \<open>
  C19: With checksums on, \<^verbatim>\<open>ReadPhysicalRecord\<close> returns the data of a fragment only if the bytes it took from the buffer, or
  from the block it just read, are a header with the length of the data and the masked checksum of its type and data,
  followed by the data; what it leaves in the buffer is what follows.
\<close>

theorem log_read_checked:
  assumes "ReadPhysicalRecord vt rd = Some (ty, Some d, rd')" "checksum rd" "ty \<noteq> kBadRecord"
  shows "\<exists>t b. ty = scast t \<and> length d < 2 ^ 16 \<and>
    b = EncodeFixed32 (Mask (Value 0 (t # d))) @ [of_nat (length d) AND 0xff, of_nat (length d div 2 ^ 8), t] @ d @ buffer rd' \<and>
    (b = buffer rd \<or> (\<exists>f. vRead vt kBlockSize [] (rfile rd) = Some (OK, b, f)))"
proof (cases "length (buffer rd) < kHeaderSize")
  case False
  then have "parse_record rd = (ty, Some d, rd')" using assms(1) by (simp add: ReadPhysicalRecord.simps [of vt rd])
  from parse_record_checked [OF this _ assms(2,3)] False show ?thesis by (auto simp: kHeaderSize_def)
next
  case small: True
  then obtain b f where f: "vRead vt kBlockSize [] (rfile rd) = Some (OK, b, f)"
    using assms(1) by (auto simp: ReadPhysicalRecord.simps [of vt rd] Let_def ok_def OK_def split: if_splits option.splits)
  let ?rd = "rd\<lparr>rfile := f, buffer := b, end_of_buffer_offset := end_of_buffer_offset rd + of_nat (length b)\<rparr>"
  let ?rd' = "if length b < kBlockSize then ?rd\<lparr>eof := True\<rparr> else ?rd"
  have "ReadPhysicalRecord vt ?rd' = Some (ty, Some d, rd')"
    using assms(1) f small by (simp add: ReadPhysicalRecord.simps [of vt rd] Let_def split: if_splits)
  then have "parse_record ?rd' = (ty, Some d, rd')" "7 \<le> length b"
    by (subst (asm) ReadPhysicalRecord.simps, auto simp: kHeaderSize_def kBlockSize_def split: if_splits)+
  moreover have "buffer ?rd' = b" "checksum ?rd'" using assms(2) by simp_all
  ultimately obtain t where "ty = scast t" "length d < 2 ^ 16"
    "b = EncodeFixed32 (Mask (Value 0 (t # d))) @ [of_nat (length d) AND 0xff, of_nat (length d div 2 ^ 8), t] @ d @ buffer rd'"
    using parse_record_checked [of ?rd' ty d rd'] assms(3) by metis
  then show ?thesis using f by blast
qed

theorem log_read_checked_witness:
  "\<exists>t b. (of_nat (record_type kFullType) :: uint32) = scast t \<and> length [7 :: byte] < 2 ^ 16 \<and>
    b = EncodeFixed32 (Mask (Value 0 (t # [7]))) @ [of_nat (length [7 :: byte]) AND 0xff, of_nat (length [7 :: byte] div 2 ^ 8), t] @ [7] @ []"
proof -
  let ?rd = "(Reader_new ([] :: byte list, 0 :: nat) None True 0)\<lparr>buffer := phys kFullType [7]\<rparr>"
  have "parse_record ?rd = (of_nat (record_type kFullType), Some [7], ?rd\<lparr>buffer := []\<rparr>)"
    by (rule parse_phys) (simp_all add: Reader_new_def)
  then have "ReadPhysicalRecord (posix_sequential slow_sys \<lparr>sf_filename = [], sf_fd = 5\<rparr>) ?rd = Some (of_nat (record_type kFullType), Some [7], ?rd\<lparr>buffer := []\<rparr>)"
    by (subst ReadPhysicalRecord.simps) (simp add: kHeaderSize_def)
  from log_read_checked [OF this] show ?thesis by (auto simp: Reader_new_def kBadRecord_def kMaxRecordType_def)
qed

end
