(* ===== verification/Ldb_Comparator.thy ===== *)
theory Ldb_Comparator
  imports Ldb_Status
begin

text \<open>
  \<^verbatim>\<open>leveldb-library/util/comparator.cc\<close> and \<^verbatim>\<open>db/dbformat.h\<close>, \<^verbatim>\<open>dbformat.cc\<close>: the bytewise
  comparator, internal keys and their comparator. The locale \<open>comparator\<close> is the contract of
  \<^verbatim>\<open>include/leveldb/comparator.h\<close>; the bytewise comparator keeps it, and so does the comparator of
  internal keys over every comparator that does.
\<close>

section \<open>Bytewise comparator\<close>

fun diff_index :: "byte list \<Rightarrow> byte list \<Rightarrow> nat" where
  "diff_index (x # xs) (y # ys) = (if x = y then Suc (diff_index xs ys) else 0)"
| "diff_index _ _ = 0"

definition FindShortestSeparator :: "slice \<Rightarrow> slice \<Rightarrow> slice" where
  "FindShortestSeparator start limit =
     (let min_length = min (length start) (length limit);
          i = diff_index start limit
      in if i \<ge> min_length then start
         else let diff_byte = start ! i in
              if diff_byte < 0xff \<and> unat diff_byte + 1 < unat (limit ! i)
              then take (i + 1) (start[i := diff_byte + 1]) else start)"

text \<open>The loop over the bytes of the key, with the bytes passed so far.\<close>

fun short_successor :: "byte list \<Rightarrow> byte list \<Rightarrow> byte list" where
  "short_successor before [] = before"
| "short_successor before (b # key) =
     (if b \<noteq> 0xff then before @ [b + 1] else short_successor (before @ [b]) key)"

definition FindShortSuccessor :: "slice \<Rightarrow> slice" where
  "FindShortSuccessor key = short_successor [] key"

section \<open>Internal keys\<close>

datatype ValueType = kTypeDeletion | kTypeValue

fun value_type :: "ValueType \<Rightarrow> uint64" where
  "value_type kTypeDeletion = 0"
| "value_type kTypeValue = 1"

definition kValueTypeForSeek :: ValueType where
  "kValueTypeForSeek = kTypeValue"

definition kMaxSequenceNumber :: uint64 where
  "kMaxSequenceNumber = push_bit 56 1 - 1"

text \<open>
  A parsed key; the type is the value of the byte, which need not be that of a constructor of \<open>ValueType\<close>.
\<close>

record ParsedInternalKey =
  pk_user_key :: slice
  pk_sequence :: uint64
  pk_type :: uint64

definition PackSequenceAndType :: "uint64 \<Rightarrow> ValueType \<Rightarrow> uint64" where
  "PackSequenceAndType seq t = push_bit 8 seq OR value_type t"

definition InternalKeyEncodingLength :: "ParsedInternalKey \<Rightarrow> nat" where
  "InternalKeyEncodingLength key = length (pk_user_key key) + 8"

definition AppendInternalKey :: "byte list \<Rightarrow> slice \<Rightarrow> uint64 \<Rightarrow> ValueType \<Rightarrow> byte list" where
  "AppendInternalKey res user_key seq t = PutFixed64 (res @ user_key) (PackSequenceAndType seq t)"

definition ExtractUserKey :: "slice \<Rightarrow> slice" where
  "ExtractUserKey internal_key = take (length internal_key - 8) internal_key"

definition ParseInternalKey :: "slice \<Rightarrow> bool \<times> ParsedInternalKey option" where
  "ParseInternalKey internal_key =
     (let n = length internal_key in
      if n < 8 then (False, None)
      else let num = DecodeFixed64 (drop (n - 8) internal_key);
               c = num AND 0xff
           in (c \<le> value_type kTypeValue,
               Some \<lparr>pk_user_key = take (n - 8) internal_key, pk_sequence = drop_bit 8 num, pk_type = c\<rparr>))"

text \<open>The comparator of internal keys, over the functions of the user comparator.\<close>

definition key_num :: "slice \<Rightarrow> uint64" where
  "key_num key = DecodeFixed64 (drop (length key - 8) key)"

definition InternalKey_Compare :: "(slice \<Rightarrow> slice \<Rightarrow> int) \<Rightarrow> slice \<Rightarrow> slice \<Rightarrow> int" where
  "InternalKey_Compare user_compare akey bkey =
     (let r = user_compare (ExtractUserKey akey) (ExtractUserKey bkey) in
      if r = 0 then
        let anum = key_num akey; bnum = key_num bkey in
        if anum > bnum then - 1 else if anum < bnum then 1 else r
      else r)"

definition InternalKey_FindShortestSeparator ::
    "(slice \<Rightarrow> slice \<Rightarrow> int) \<Rightarrow> (slice \<Rightarrow> slice \<Rightarrow> slice) \<Rightarrow> slice \<Rightarrow> slice \<Rightarrow> slice" where
  "InternalKey_FindShortestSeparator user_compare user_separator start limit =
     (let user_start = ExtractUserKey start;
          user_limit = ExtractUserKey limit;
          tmp = user_separator user_start user_limit
      in if length tmp < length user_start \<and> user_compare user_start tmp < 0
         then PutFixed64 tmp (PackSequenceAndType kMaxSequenceNumber kValueTypeForSeek)
         else start)"

definition InternalKey_FindShortSuccessor ::
    "(slice \<Rightarrow> slice \<Rightarrow> int) \<Rightarrow> (slice \<Rightarrow> slice) \<Rightarrow> slice \<Rightarrow> slice" where
  "InternalKey_FindShortSuccessor user_compare user_successor key =
     (let user_key = ExtractUserKey key;
          tmp = user_successor user_key
      in if length tmp < length user_key \<and> user_compare user_key tmp < 0
         then PutFixed64 tmp (PackSequenceAndType kMaxSequenceNumber kValueTypeForSeek)
         else key)"

text \<open>\<^verbatim>\<open>LookupKey\<close>: the array of the key, with the position of the user key in it.\<close>

record LookupKey =
  lk_array :: "byte list"
  lk_kstart :: nat

definition LookupKey_new :: "slice \<Rightarrow> uint64 \<Rightarrow> LookupKey" where
  "LookupKey_new user_key s =
     (let len = EncodeVarint32 (of_nat (length user_key + 8)) in
      \<lparr>lk_array = len @ user_key @ EncodeFixed64 (PackSequenceAndType s kValueTypeForSeek), lk_kstart = length len\<rparr>)"

definition memtable_key :: "LookupKey \<Rightarrow> slice" where
  "memtable_key k = lk_array k"

definition internal_key :: "LookupKey \<Rightarrow> slice" where
  "internal_key k = drop (lk_kstart k) (lk_array k)"

definition lookup_user_key :: "LookupKey \<Rightarrow> slice" where
  "lookup_user_key k = take (length (lk_array k) - lk_kstart k - 8) (drop (lk_kstart k) (lk_array k))"

section \<open>The contract\<close>

text \<open>
  \<open>valid\<close> are the keys the comparator is used on. A separator lies between its arguments, the first included, and
  a successor is not before its argument; for keys that compare equal a separator is not behind them.
\<close>

locale key_order =
  fixes valid :: "'k \<Rightarrow> bool"
    and compare :: "'k \<Rightarrow> 'k \<Rightarrow> int"
  assumes refl: "valid a \<Longrightarrow> compare a a = 0"
    and flip: "valid a \<Longrightarrow> valid b \<Longrightarrow> compare a b < 0 \<longleftrightarrow> 0 < compare b a"
    and trans: "valid a \<Longrightarrow> valid b \<Longrightarrow> valid c \<Longrightarrow> compare a b \<le> 0 \<Longrightarrow> compare b c \<le> 0 \<Longrightarrow> compare a c \<le> 0"
begin

lemma less_trans:
  assumes "valid a" "valid b" "valid c" "compare a b < 0" "compare b c \<le> 0"
  shows "compare a c < 0"
proof (rule ccontr)
  assume "\<not> compare a c < 0"
  then have "compare c a \<le> 0" using flip [OF assms(1,3)] by linarith
  then have "compare b a \<le> 0" using trans [OF assms(2,3,1) assms(5)] by simp
  then show False using flip [OF assms(1,2)] assms(4) by linarith
qed

lemma less_trans2:
  assumes "valid a" "valid b" "valid c" "compare a b \<le> 0" "compare b c < 0"
  shows "compare a c < 0"
proof (rule ccontr)
  assume "\<not> compare a c < 0"
  then have "compare c a \<le> 0" using flip [OF assms(1,3)] by linarith
  then have "compare c b \<le> 0" using trans [OF assms(3,1,2) _ assms(4)] by simp
  then show False using flip [OF assms(2,3)] assms(5) by linarith
qed

end

locale comparator = key_order valid compare
  for valid :: "slice \<Rightarrow> bool" and compare :: "slice \<Rightarrow> slice \<Rightarrow> int" +
  fixes separator :: "slice \<Rightarrow> slice \<Rightarrow> slice"
    and successor :: "slice \<Rightarrow> slice"
  assumes separator: "valid a \<Longrightarrow> valid b \<Longrightarrow> compare a b < 0 \<Longrightarrow>
      valid (separator a b) \<and> compare a (separator a b) \<le> 0 \<and> compare (separator a b) b < 0"
    and separator_equal: "valid a \<Longrightarrow> valid b \<Longrightarrow> compare a b = 0 \<Longrightarrow> \<not> compare a (separator a b) < 0"
    and successor: "valid a \<Longrightarrow> valid (successor a) \<and> compare a (successor a) \<le> 0"

section \<open>The bytewise comparator keeps the contract\<close>

lemma bytes_less_asym: "bytes_less a b \<Longrightarrow> \<not> bytes_less b a"
  using bytes_less_trans bytes_less_irrefl by blast

lemma diff_index_split:
  assumes "diff_index a b < min (length a) (length b)"
  shows "a ! diff_index a b \<noteq> b ! diff_index a b" "take (diff_index a b) a = take (diff_index a b) b"
  using assms by (induction a b rule: diff_index.induct) auto

lemma bytes_less_append: "bytes_less (p @ a) (p @ b) = bytes_less a b"
  by (induction p) auto

lemma bytes_less_at:
  assumes "i < length a" "i < length b" "take i a = take i b" "a ! i < b ! i"
  shows "bytes_less a b"
proof -
  have "bytes_less (take i a @ a ! i # drop (Suc i) a) (take i a @ b ! i # drop (Suc i) b)"
    using assms(4) by (simp add: bytes_less_append)
  then show ?thesis using assms(1,2,3) id_take_nth_drop [of i a] id_take_nth_drop [of i b] by simp
qed

lemma separator_between:
  assumes "bytes_less a b"
  shows "\<not> bytes_less (FindShortestSeparator a b) a" "bytes_less (FindShortestSeparator a b) b"
proof -
  let ?i = "diff_index a b"
  have "FindShortestSeparator a b = a \<or> \<not> bytes_less (FindShortestSeparator a b) a \<and> bytes_less (FindShortestSeparator a b) b"
  proof (cases "?i < min (length a) (length b) \<and> a ! ?i < 0xff \<and> unat (a ! ?i) + 1 < unat (b ! ?i)")
    case True
    let ?s = "take ?i a @ [a ! ?i + 1]"
    have i: "?i < length a" "?i < length b" "?i < min (length a) (length b)" using True by auto
    have "FindShortestSeparator a b = take (?i + 1) (a[?i := a ! ?i + 1])"
      using True by (auto simp: FindShortestSeparator_def Let_def)
    also have "\<dots> = ?s" using i(1) by (simp add: take_Suc_conv_app_nth)
    finally have s: "FindShortestSeparator a b = ?s" .
    have u: "unat (a ! ?i + 1) = unat (a ! ?i) + 1" using True unsigned_less [of "b ! ?i", where ?'a = nat] by (simp add: unat_word_ariths)
    have "bytes_less a ?s" by (rule bytes_less_at [of ?i]) (use i(1) u in \<open>simp_all add: nth_append word_less_nat_alt\<close>)
    moreover have "bytes_less ?s b"
      by (rule bytes_less_at [of ?i]) (use i True u diff_index_split(2) [OF i(3)] in \<open>simp_all add: nth_append word_less_nat_alt\<close>)
    ultimately show ?thesis using bytes_less_asym by (simp add: s)
  next
    case False
    then show ?thesis by (auto simp: FindShortestSeparator_def Let_def not_less)
  qed
  then show "\<not> bytes_less (FindShortestSeparator a b) a" "bytes_less (FindShortestSeparator a b) b" using assms by auto
qed

lemma diff_index_same: "length a \<le> diff_index a a"
  by (induction a) auto

lemma successor_not_before: "\<not> bytes_less (FindShortSuccessor a) a"
proof -
  have "\<not> bytes_less (short_successor p a) (p @ a)" for p
  proof (induction p a rule: short_successor.induct)
    case (2 p b key)
    have "bytes_less (b # key) [b + 1]" if "b \<noteq> 0xff"
    proof -
      have "b < b + 1" using that by (unat_arith; simp)
      then show ?thesis by simp
    qed
    then show ?case using 2 bytes_less_append [of p] bytes_less_asym by auto
  qed simp
  from this [of "[]"] show ?thesis by (simp add: FindShortSuccessor_def)
qed

lemma compare_less: "slice_compare a b < 0 \<longleftrightarrow> bytes_less a b" "slice_compare a b \<le> 0 \<longleftrightarrow> \<not> bytes_less b a"
  "slice_compare a b = 0 \<longleftrightarrow> a = b" "0 < slice_compare a b \<longleftrightarrow> bytes_less b a"
  using slice_compare_order [of a b] by linarith+

interpretation bytewise: comparator "\<lambda>_. True" slice_compare FindShortestSeparator FindShortSuccessor
proof
  fix a b c
  show "slice_compare a b \<le> 0 \<Longrightarrow> slice_compare b c \<le> 0 \<Longrightarrow> slice_compare a c \<le> 0"
    unfolding compare_less using bytes_less_trans bytes_less_linear by metis
  show "slice_compare a b = 0 \<Longrightarrow> \<not> slice_compare a (FindShortestSeparator a b) < 0"
    unfolding compare_less using diff_index_same [of b] by (simp add: FindShortestSeparator_def)
qed (auto simp: compare_less separator_between successor_not_before)

section \<open>The comparator of internal keys keeps the contract\<close>

lemma ExtractUserKey_append [simp]: "ExtractUserKey (u @ EncodeFixed64 n) = u"
  by (simp add: ExtractUserKey_def)

lemma key_num_append [simp]: "key_num (u @ EncodeFixed64 n) = n"
  by (simp add: key_num_def)

definition internal_valid :: "(slice \<Rightarrow> bool) \<Rightarrow> slice \<Rightarrow> bool" where
  "internal_valid valid k \<longleftrightarrow> 8 \<le> length k \<and> valid (ExtractUserKey k)"

lemma internal_le:
  "InternalKey_Compare compare a b \<le> 0 \<longleftrightarrow>
     compare (ExtractUserKey a) (ExtractUserKey b) < 0 \<or>
     compare (ExtractUserKey a) (ExtractUserKey b) = 0 \<and> key_num b \<le> key_num a"
  by (auto simp: InternalKey_Compare_def Let_def)

lemma internal_less:
  "InternalKey_Compare compare a b < 0 \<longleftrightarrow>
     compare (ExtractUserKey a) (ExtractUserKey b) < 0 \<or>
     compare (ExtractUserKey a) (ExtractUserKey b) = 0 \<and> key_num b < key_num a"
  by (auto simp: InternalKey_Compare_def Let_def)

lemma internal_equal:
  "InternalKey_Compare compare a b = 0 \<longleftrightarrow> compare (ExtractUserKey a) (ExtractUserKey b) = 0 \<and> key_num a = key_num b"
  by (auto simp: InternalKey_Compare_def Let_def)

text \<open>The order of internal keys over any order of user keys.\<close>

lemma internal_key_order_laws:
  assumes "key_order valid compare"
  shows "key_order (internal_valid valid) (InternalKey_Compare compare)"
proof
  fix a b c
  assume "internal_valid valid a"
  then have ua: "valid (ExtractUserKey a)" by (simp add: internal_valid_def)
  show "InternalKey_Compare compare a a = 0" using key_order.refl [OF assms ua] by (simp add: InternalKey_Compare_def)
  assume "internal_valid valid b"
  then have ub: "valid (ExtractUserKey b)" by (simp add: internal_valid_def)
  show "InternalKey_Compare compare a b < 0 \<longleftrightarrow> 0 < InternalKey_Compare compare b a"
    using key_order.flip [OF assms ua ub] key_order.flip [OF assms ub ua] by (auto simp: InternalKey_Compare_def Let_def)
  assume "internal_valid valid c"
  then have uc: "valid (ExtractUserKey c)" by (simp add: internal_valid_def)
  show "InternalKey_Compare compare a c \<le> 0"
    if ab: "InternalKey_Compare compare a b \<le> 0" and bc: "InternalKey_Compare compare b c \<le> 0"
  proof -
    let ?a = "ExtractUserKey a" and ?b = "ExtractUserKey b" and ?c = "ExtractUserKey c"
    have le: "compare ?a ?b \<le> 0" "compare ?b ?c \<le> 0" using ab bc by (auto simp: internal_le)
    have "compare ?a ?c < 0" if "compare ?a ?b < 0 \<or> compare ?b ?c < 0"
      using that key_order.less_trans [OF assms ua ub uc _ le(2)] key_order.less_trans2 [OF assms ua ub uc le(1)] by blast
    moreover have "compare ?a ?c \<le> 0" by (rule key_order.trans [OF assms ua ub uc le])
    moreover have "key_num c \<le> key_num a" if "\<not> compare ?a ?b < 0" "\<not> compare ?b ?c < 0"
      using that ab bc by (auto simp: internal_le)
    ultimately show ?thesis by (auto simp: internal_le)
  qed
qed

context comparator
begin

lemma internal_separator:
  assumes a: "internal_valid valid a" and b: "internal_valid valid b" and less: "InternalKey_Compare compare a b < 0"
  defines "s \<equiv> InternalKey_FindShortestSeparator compare separator a b"
  shows "internal_valid valid s \<and> InternalKey_Compare compare a s \<le> 0 \<and> InternalKey_Compare compare s b < 0"
proof -
  have ua: "valid (ExtractUserKey a)" and ub: "valid (ExtractUserKey b)" using a b by (simp_all add: internal_valid_def)
  show ?thesis
  proof (cases "compare (ExtractUserKey a) (ExtractUserKey b) < 0")
    case True
    from separator [OF ua ub this] show ?thesis using a less refl [OF ua]
      by (auto simp: s_def InternalKey_FindShortestSeparator_def Let_def internal_le internal_less internal_valid_def PutFixed64_def)
  next
    case False
    then have "compare (ExtractUserKey a) (ExtractUserKey b) = 0" using less by (simp add: internal_less)
    from separator_equal [OF ua ub this] show ?thesis using a less refl [OF ua]
      by (simp add: s_def InternalKey_FindShortestSeparator_def Let_def internal_le)
  qed
qed

lemma internal_comparator:
  "comparator (internal_valid valid) (InternalKey_Compare compare) (InternalKey_FindShortestSeparator compare separator)
     (InternalKey_FindShortSuccessor compare successor)"
proof (intro comparator.intro internal_key_order_laws key_order_axioms comparator_axioms.intro internal_separator)
  fix a b
  assume a: "internal_valid valid a"
  then have ua: "valid (ExtractUserKey a)" by (simp add: internal_valid_def)
  show "internal_valid valid (InternalKey_FindShortSuccessor compare successor a) \<and>
      InternalKey_Compare compare a (InternalKey_FindShortSuccessor compare successor a) \<le> 0"
    using a successor [OF ua] refl [OF ua]
    by (auto simp: InternalKey_FindShortSuccessor_def Let_def internal_le internal_valid_def PutFixed64_def)
  assume b: "internal_valid valid b" and eq: "InternalKey_Compare compare a b = 0"
  then have ub: "valid (ExtractUserKey b)" by (simp add: internal_valid_def)
  from separator_equal [OF ua ub] show "\<not> InternalKey_Compare compare a (InternalKey_FindShortestSeparator compare separator a b) < 0"
    using refl [OF ua] eq by (simp add: InternalKey_FindShortestSeparator_def Let_def internal_less internal_equal)
qed

end

interpretation internal: comparator "internal_valid (\<lambda>_. True)" "InternalKey_Compare slice_compare"
  "InternalKey_FindShortestSeparator slice_compare FindShortestSeparator"
  "InternalKey_FindShortSuccessor slice_compare FindShortSuccessor"
  by (rule bytewise.internal_comparator)

section \<open>Properties\<close>

lemma unat_pack:
  assumes "seq \<le> kMaxSequenceNumber"
  shows "unat (PackSequenceAndType seq t) = 256 * unat seq + unat (value_type t)"
proof -
  have s: "unat seq < 2 ^ 56" using assms by (simp add: kMaxSequenceNumber_def word_le_nat_alt)
  have t: "unat (value_type t) < 2" by (cases t) simp_all
  have "of_nat (unat (value_type t)) OR push_bit 8 (of_nat (unat seq)) = (of_nat (unat (value_type t) + 2 ^ 8 * unat seq) :: uint64)"
    by (rule or_group) (use t in simp)
  then have "PackSequenceAndType seq t = of_nat (256 * unat seq + unat (value_type t))"
    by (simp add: PackSequenceAndType_def or.commute add.commute)
  then show ?thesis using s t by (simp only: unat_of_nat) simp
qed

lemma pack_parts:
  assumes "seq \<le> kMaxSequenceNumber"
  shows "drop_bit 8 (PackSequenceAndType seq t) = seq" "PackSequenceAndType seq t AND 0xff = value_type t"
proof -
  have t: "unat (value_type t) < 256" by (cases t) simp_all
  show "drop_bit 8 (PackSequenceAndType seq t) = seq"
    using t by (simp add: word_unat_eq_iff unat_shift_right unat_pack [OF assms])
  show "PackSequenceAndType seq t AND 0xff = value_type t"
  proof -
    have "unat (PackSequenceAndType seq t AND 0xff) = unat (PackSequenceAndType seq t) mod 256"
      unfolding and_FF by (simp only: unsigned_take_bit_eq) (simp add: take_bit_eq_mod)
    then show ?thesis using t by (simp add: word_unat_eq_iff unat_pack [OF assms])
  qed
qed

lemma AppendInternalKey_parts [simp]:
  "ExtractUserKey (AppendInternalKey [] u s t) = u" "key_num (AppendInternalKey [] u s t) = PackSequenceAndType s t"
  "length (AppendInternalKey [] u s t) = length u + 8"
  by (simp_all add: AppendInternalKey_def PutFixed64_def)

lemma ParseInternalKey_append:
  "q \<le> kMaxSequenceNumber \<Longrightarrow>
    ParseInternalKey (AppendInternalKey [] k q t) = (True, Some \<lparr>pk_user_key = k, pk_sequence = q, pk_type = value_type t\<rparr>)"
  by (cases t) (simp_all add: ParseInternalKey_def AppendInternalKey_def PutFixed64_def Let_def pack_parts)

text \<open>
  C33: Internal keys carry what they were made of: \<^verbatim>\<open>ParseInternalKey\<close> recovers the user key, the sequence number and the type
  from a key made by \<^verbatim>\<open>AppendInternalKey\<close>, and \<^verbatim>\<open>InternalKeyComparator\<close> orders such keys by increasing user key, then by
  decreasing sequence number, then with values before deletions.
\<close>

theorem internal_key_order:
  assumes "s1 \<le> kMaxSequenceNumber" "s2 \<le> kMaxSequenceNumber"
  shows "ParseInternalKey (AppendInternalKey [] u1 s1 t1) =
      (True, Some \<lparr>pk_user_key = u1, pk_sequence = s1, pk_type = value_type t1\<rparr>) \<and>
    (InternalKey_Compare slice_compare (AppendInternalKey [] u1 s1 t1) (AppendInternalKey [] u2 s2 t2) < 0 \<longleftrightarrow>
      bytes_less u1 u2 \<or> u1 = u2 \<and> (s2 < s1 \<or> s1 = s2 \<and> t1 = kTypeValue \<and> t2 = kTypeDeletion))"
proof
  show "ParseInternalKey (AppendInternalKey [] u1 s1 t1) =
      (True, Some \<lparr>pk_user_key = u1, pk_sequence = s1, pk_type = value_type t1\<rparr>)"
    by (rule ParseInternalKey_append [OF assms(1)])
  have "PackSequenceAndType s2 t2 < PackSequenceAndType s1 t1 \<longleftrightarrow>
      s2 < s1 \<or> s1 = s2 \<and> t1 = kTypeValue \<and> t2 = kTypeDeletion"
    unfolding word_less_nat_alt unat_pack [OF assms(1)] unat_pack [OF assms(2)] word_unat_eq_iff
    by (cases t1; cases t2) auto
  then show "InternalKey_Compare slice_compare (AppendInternalKey [] u1 s1 t1) (AppendInternalKey [] u2 s2 t2) < 0 \<longleftrightarrow>
      bytes_less u1 u2 \<or> u1 = u2 \<and> (s2 < s1 \<or> s1 = s2 \<and> t1 = kTypeValue \<and> t2 = kTypeDeletion)"
    by (simp add: internal_less compare_less)
qed

theorem internal_key_order_witness:
  "InternalKey_Compare slice_compare (AppendInternalKey [] [1, 2] 7 kTypeDeletion) (AppendInternalKey [] [1, 2] 5 kTypeValue) < 0"
  using internal_key_order [of 7 5 "[1, 2]" kTypeDeletion "[1, 2]" kTypeValue] by (simp add: kMaxSequenceNumber_def)

lemma separator_length: "length (InternalKey_FindShortestSeparator c sep a b) \<le> max 8 (length a)"
  by (auto simp: InternalKey_FindShortestSeparator_def Let_def PutFixed64_def ExtractUserKey_def)

text \<open>
  The keys of an index block separate the data blocks: for internal keys in order, \<^verbatim>\<open>FindShortestSeparator\<close> of the internal
  comparator gives an internal key that is not before the first and before the second and no longer than the first, and
  \<^verbatim>\<open>FindShortSuccessor\<close> an internal key that is not before its argument.
\<close>

theorem index_separators:
  assumes "8 \<le> length a" "8 \<le> length b" "InternalKey_Compare slice_compare a b < 0"
  shows "let s = InternalKey_FindShortestSeparator slice_compare FindShortestSeparator a b;
      t = InternalKey_FindShortSuccessor slice_compare FindShortSuccessor a
    in InternalKey_Compare slice_compare a s \<le> 0 \<and> InternalKey_Compare slice_compare s b < 0 \<and>
       8 \<le> length s \<and> length s \<le> length a \<and> InternalKey_Compare slice_compare a t \<le> 0 \<and> 8 \<le> length t"
  using internal.separator [of a b] internal.successor [of a] separator_length [of slice_compare FindShortestSeparator a b] assms
  by (auto simp: internal_valid_def Let_def max_def split: if_splits)

theorem index_separators_witness:
  "InternalKey_Compare slice_compare (AppendInternalKey [] [1, 2, 3] 7 kTypeValue)
     (InternalKey_FindShortestSeparator slice_compare FindShortestSeparator
       (AppendInternalKey [] [1, 2, 3] 7 kTypeValue) (AppendInternalKey [] [9] 5 kTypeValue)) \<le> 0"
proof -
  have "InternalKey_Compare slice_compare (AppendInternalKey [] [1, 2, 3] 7 kTypeValue) (AppendInternalKey [] [9] 5 kTypeValue) < 0"
    by (simp add: internal_less compare_less)
  then show ?thesis
    using index_separators [of "AppendInternalKey [] [1, 2, 3] 7 kTypeValue" "AppendInternalKey [] [9] 5 kTypeValue"]
    by (simp add: Let_def)
qed

end
