(* ===== verification/Ldb_Skiplist.thy ===== *)
theory Ldb_Skiplist
  imports Ldb_Comparator "HOL-Library.Monad_Syntax"
begin

text \<open>
  \<^verbatim>\<open>leveldb-library/util/random.h\<close> and \<^verbatim>\<open>db/skiplist.h\<close>: the pseudo random numbers and the skip list
  of the in-memory table. A pointer to a node is its index in the list of nodes in the order of
  their allocation, none for null; the head is node 0. The functions are those a single thread
  sees. Loops that follow pointers have the result none when they do not return.
\<close>

section \<open>Random numbers\<close>

definition Random_new :: "uint32 \<Rightarrow> uint32" where
  "Random_new s = (let seed = s AND 0x7fffffff in if seed = 0 \<or> seed = 2147483647 then 1 else seed)"

definition Random_Next :: "uint32 \<Rightarrow> uint32 \<times> uint32" where
  "Random_Next seed =
     (let M = 2147483647 :: uint32;
          A = 16807 :: uint64;
          product = ucast seed * A;
          seed = ucast (drop_bit 31 product + (product AND ucast M)) :: uint32;
          seed = (if seed > M then seed - M else seed)
      in (seed, seed))"

definition Uniform :: "uint32 \<Rightarrow> uint32 \<Rightarrow> uint32 \<times> uint32" where
  "Uniform n seed = (let (r, seed) = Random_Next seed in (r mod n, seed))"

definition OneIn :: "uint32 \<Rightarrow> uint32 \<Rightarrow> bool \<times> uint32" where
  "OneIn n seed = (let (r, seed) = Random_Next seed in (r mod n = 0, seed))"

definition Skewed :: "uint32 \<Rightarrow> uint32 \<Rightarrow> uint32 \<times> uint32" where
  "Skewed max_log seed = (let (b, seed) = Uniform (max_log + 1) seed in Uniform (push_bit (unat b) 1) seed)"

section \<open>Skip list\<close>

definition kMaxHeight :: nat where
  "kMaxHeight = 12"

text \<open>\<open>links\<close> is the array \<^verbatim>\<open>next_\<close> of the height of the node.\<close>

record 'k node =
  node_key :: 'k
  links :: "nat option list"

record 'k SkipList =
  nodes :: "'k node list"
  max_height :: nat
  rnd :: uint32

abbreviation head :: nat where
  "head \<equiv> 0"

definition Node_Next :: "'k SkipList \<Rightarrow> nat \<Rightarrow> nat \<Rightarrow> nat option" where
  "Node_Next l x n = links (nodes l ! x) ! n"

definition SetNext :: "nat \<Rightarrow> nat \<Rightarrow> nat option \<Rightarrow> 'k SkipList \<Rightarrow> 'k SkipList" where
  "SetNext x n p l = l\<lparr>nodes := (nodes l)[x := (nodes l ! x)\<lparr>links := (links (nodes l ! x))[n := p]\<rparr>]\<rparr>"

text \<open>A new node, with links that are not set yet.\<close>

definition NewNode :: "'k \<Rightarrow> nat \<Rightarrow> 'k SkipList \<Rightarrow> nat \<times> 'k SkipList" where
  "NewNode key height l = (length (nodes l), l\<lparr>nodes := nodes l @ [\<lparr>node_key = key, links = replicate height None\<rparr>]\<rparr>)"

text \<open>The key of the head is any key.\<close>

definition SkipList_new :: "'k \<Rightarrow> 'k SkipList" where
  "SkipList_new any_key =
     foldl (\<lambda>l i. SetNext head i None l)
       (snd (NewNode any_key kMaxHeight \<lparr>nodes = [], max_height = 1, rnd = Random_new 0xdeadbeef\<rparr>)) [0..<kMaxHeight]"

function random_height :: "nat \<Rightarrow> uint32 \<Rightarrow> nat \<times> uint32" where
  "random_height height seed =
     (if height < kMaxHeight
      then let (r, seed) = Random_Next seed in
           if r mod 4 = 0 then random_height (height + 1) seed else (height, seed)
      else (height, seed))"
  by pat_completeness auto
termination
  by (relation "measure (\<lambda>(h, s). kMaxHeight - h)") auto

declare random_height.simps [simp del]

definition RandomHeight :: "'k SkipList \<Rightarrow> nat \<times> 'k SkipList" where
  "RandomHeight l = (let (h, seed) = random_height 1 (rnd l) in (h, l\<lparr>rnd := seed\<rparr>))"

definition KeyIsAfterNode :: "('k \<Rightarrow> 'k \<Rightarrow> int) \<Rightarrow> 'k SkipList \<Rightarrow> 'k \<Rightarrow> nat option \<Rightarrow> bool" where
  "KeyIsAfterNode cmp l key n = (case n of None \<Rightarrow> False | Some x \<Rightarrow> cmp (node_key (nodes l ! x)) key < 0)"

text \<open>The loop of \<^verbatim>\<open>FindGreaterOrEqual\<close>; \<open>prev\<close> is none for a null pointer.\<close>

partial_function (option) find_ge ::
    "('k \<Rightarrow> 'k \<Rightarrow> int) \<Rightarrow> 'k SkipList \<Rightarrow> 'k \<Rightarrow> nat list option \<Rightarrow> nat \<Rightarrow> nat \<Rightarrow> (nat option \<times> nat list option) option" where
  "find_ge cmp l key prev x level =
     (let nxt = Node_Next l x level in
      if KeyIsAfterNode cmp l key nxt then find_ge cmp l key prev (the nxt) level
      else let prev = map_option (\<lambda>p. p[level := x]) prev in
           if level = 0 then Some (nxt, prev) else find_ge cmp l key prev x (level - 1))"

definition FindGreaterOrEqual ::
    "('k \<Rightarrow> 'k \<Rightarrow> int) \<Rightarrow> 'k SkipList \<Rightarrow> 'k \<Rightarrow> nat list option \<Rightarrow> (nat option \<times> nat list option) option" where
  "FindGreaterOrEqual cmp l key prev = find_ge cmp l key prev head (max_height l - 1)"

partial_function (option) find_lt :: "('k \<Rightarrow> 'k \<Rightarrow> int) \<Rightarrow> 'k SkipList \<Rightarrow> 'k \<Rightarrow> nat \<Rightarrow> nat \<Rightarrow> nat option" where
  "find_lt cmp l key x level =
     (let nxt = Node_Next l x level in
      if nxt = None \<or> cmp (node_key (nodes l ! the nxt)) key \<ge> 0
      then if level = 0 then Some x else find_lt cmp l key x (level - 1)
      else find_lt cmp l key (the nxt) level)"

definition FindLessThan :: "('k \<Rightarrow> 'k \<Rightarrow> int) \<Rightarrow> 'k SkipList \<Rightarrow> 'k \<Rightarrow> nat option" where
  "FindLessThan cmp l key = find_lt cmp l key head (max_height l - 1)"

partial_function (option) find_last :: "'k SkipList \<Rightarrow> nat \<Rightarrow> nat \<Rightarrow> nat option" where
  "find_last l x level =
     (let nxt = Node_Next l x level in
      if nxt = None then if level = 0 then Some x else find_last l x (level - 1)
      else find_last l (the nxt) level)"

definition FindLast :: "'k SkipList \<Rightarrow> nat option" where
  "FindLast l = find_last l head (max_height l - 1)"

text \<open>The loop that links the new node \<open>x\<close> at each level.\<close>

definition link_level :: "nat \<Rightarrow> nat list \<Rightarrow> 'k SkipList \<Rightarrow> nat \<Rightarrow> 'k SkipList" where
  "link_level x prev l i = SetNext (prev ! i) i (Some x) (SetNext x i (Node_Next l (prev ! i) i) l)"

definition Insert :: "('k \<Rightarrow> 'k \<Rightarrow> int) \<Rightarrow> 'k \<Rightarrow> 'k SkipList \<Rightarrow> 'k SkipList option" where
  "Insert cmp key l = do {
     (_, prev) \<leftarrow> FindGreaterOrEqual cmp l key (Some (replicate kMaxHeight 0));
     let prev = the prev;
     let (height, l) = RandomHeight l;
     let (prev, l) = (if height > max_height l
                      then (foldl (\<lambda>p i. p[i := head]) prev [max_height l..<height], l\<lparr>max_height := height\<rparr>)
                      else (prev, l));
     let (x, l) = NewNode key height l;
     Some (foldl (link_level x prev) l [0..<height]) }"

definition Contains :: "('k \<Rightarrow> 'k \<Rightarrow> int) \<Rightarrow> 'k \<Rightarrow> 'k SkipList \<Rightarrow> bool option" where
  "Contains cmp key l = do {
     (x, _) \<leftarrow> FindGreaterOrEqual cmp l key None;
     Some (case x of None \<Rightarrow> False | Some n \<Rightarrow> cmp key (node_key (nodes l ! n)) = 0) }"

text \<open>The iterator is its pointer \<^verbatim>\<open>node_\<close>.\<close>

definition Iter_key :: "'k SkipList \<Rightarrow> nat \<Rightarrow> 'k" where
  "Iter_key l n = node_key (nodes l ! n)"

definition Iter_Next :: "'k SkipList \<Rightarrow> nat \<Rightarrow> nat option" where
  "Iter_Next l n = Node_Next l n 0"

definition Iter_Prev :: "('k \<Rightarrow> 'k \<Rightarrow> int) \<Rightarrow> 'k SkipList \<Rightarrow> nat \<Rightarrow> nat option option" where
  "Iter_Prev cmp l n = do {
     x \<leftarrow> FindLessThan cmp l (node_key (nodes l ! n));
     Some (if x = head then None else Some x) }"

definition Iter_Seek :: "('k \<Rightarrow> 'k \<Rightarrow> int) \<Rightarrow> 'k SkipList \<Rightarrow> 'k \<Rightarrow> nat option option" where
  "Iter_Seek cmp l target = do { (x, _) \<leftarrow> FindGreaterOrEqual cmp l target None; Some x }"

definition Iter_SeekToFirst :: "'k SkipList \<Rightarrow> nat option" where
  "Iter_SeekToFirst l = Node_Next l head 0"

definition Iter_SeekToLast :: "'k SkipList \<Rightarrow> nat option option" where
  "Iter_SeekToLast l = do { x \<leftarrow> FindLast l; Some (if x = head then None else Some x) }"

end
