(* ===== verification/Ldb_Skiplist_Thms.thy ===== *)
theory Ldb_Skiplist_Thms
  imports Ldb_Skiplist "HOL-Library.Sublist"
begin

text \<open>
  The skip list is a sorted list: an invariant on its nodes and links, the search functions, and
  insertion, for every order on keys that keeps the contract \<open>key_order\<close>. The links of each level
  run through the nodes that are high enough, in the order of the lowest level.
\<close>

section \<open>Random numbers\<close>

lemma mersenne_coprime: "coprime (2147483647 :: nat) 16807"
  by (simp add: coprime_iff_gcd_eq_1 gcd_non_0_nat)

text \<open>The multiplication modulo \<open>2 ^ 31 - 1\<close> by shifting, and that the seed stays in its range.\<close>

lemma random_step:
  assumes "0 < unat seed" "unat seed < 2147483647"
  shows "unat (fst (Random_Next seed)) = unat seed * 16807 mod 2147483647"
    "0 < unat (fst (Random_Next seed))" "unat (fst (Random_Next seed)) < 2147483647"
proof -
  let ?p = "unat seed * 16807"
  let ?s = "?p div 2 ^ 31 + ?p mod 2 ^ 31"
  have p: "unat (ucast seed * 16807 :: uint64) = ?p"
    using assms(2) by (simp add: unat_word_ariths)
  have "w AND 2147483647 = take_bit 31 w" for w :: uint64 by (simp add: take_bit_eq_mask mask_eq_exp_minus_1)
  then have a: "unat (w AND 2147483647) = unat w mod 2 ^ 31" for w :: uint64
    by (simp only: unsigned_take_bit_eq) (simp add: take_bit_eq_mod)
  have q: "?p div 2 ^ 31 < 16807" using assms(2) by simp
  have r: "?p mod 2 ^ 31 < 2 ^ 31" by simp
  let ?W = "drop_bit 31 (ucast seed * 16807 :: uint64) + (ucast seed * 16807 AND 2147483647)"
  have w: "unat ?W = ?s" unfolding unat_word_ariths(1) a unat_shift_right p using q r by simp
  have s32: "?s < 2 ^ 32" "?s < 4294967294" using q r by simp_all
  have s: "unat (ucast ?W :: uint32) = ?s" using s32(1) by (simp only: unsigned_ucast_eq w) (simp add: take_bit_nat_eq_self)
  have c: "?p = ?p div 2 ^ 31 * 2147483647 + ?s" by simp
  have m: "?s mod 2147483647 = ?p mod 2147483647" by (metis c mod_mult_self3)
  have "\<not> 2147483647 dvd ?p"
    using assms coprime_dvd_mult_left_iff [OF mersenne_coprime, of "unat seed"] by (auto dest: dvd_imp_le)
  then have n: "?p mod 2147483647 \<noteq> 0" by (simp add: dvd_eq_mod_eq_0)
  then have "?s \<noteq> 2147483647" using m by auto
  moreover have "(2147483647 < (ucast ?W :: uint32)) \<longleftrightarrow> 2147483647 < ?s" using s by (simp add: word_less_nat_alt)
  moreover have "fst (Random_Next seed) = (if 2147483647 < (ucast ?W :: uint32) then ucast ?W - 2147483647 else ucast ?W)"
    by (simp add: Random_Next_def Let_def)
  ultimately have v: "unat (fst (Random_Next seed)) = (if 2147483647 < ?s then ?s - 2147483647 else ?s) \<and> ?s \<noteq> 2147483647"
    using s s32 by (auto simp: unat_sub word_le_nat_alt)
  have "?s mod 2147483647 = (if 2147483647 < ?s then ?s - 2147483647 else ?s)"
  proof (cases "2147483647 < ?s")
    case True
    then have "?s mod 2147483647 = (?s - 2147483647) mod 2147483647" by (intro le_mod_geq) linarith
    also have "\<dots> = ?s - 2147483647" using s32(2) by (intro mod_less) linarith
    finally show ?thesis using True by simp
  next
    case False
    then show ?thesis using v by simp
  qed
  then show u: "unat (fst (Random_Next seed)) = unat seed * 16807 mod 2147483647" using v m by simp
  show "0 < unat (fst (Random_Next seed))" "unat (fst (Random_Next seed)) < 2147483647" unfolding u using n by simp_all
qed

section \<open>Links\<close>

abbreviation skey :: "'k SkipList \<Rightarrow> nat \<Rightarrow> 'k" where
  "skey l n \<equiv> node_key (nodes l ! n)"

definition height :: "'k SkipList \<Rightarrow> nat \<Rightarrow> nat" where
  "height l n = length (links (nodes l ! n))"

abbreviation at_level :: "'k SkipList \<Rightarrow> nat \<Rightarrow> nat list \<Rightarrow> nat list" where
  "at_level l i ns \<equiv> filter (\<lambda>n. i < height l n) ns"

fun chain :: "'k SkipList \<Rightarrow> nat \<Rightarrow> nat \<Rightarrow> nat list \<Rightarrow> bool" where
  "chain l i x [] = (Node_Next l x i = None)"
| "chain l i x (n # ns) = (Node_Next l x i = Some n \<and> chain l i n ns)"

definition first :: "'a list \<Rightarrow> 'a option" where
  "first xs = (case xs of [] \<Rightarrow> None | x # _ \<Rightarrow> Some x)"

lemma first_simps [simp]: "first [] = None" "first (x # xs) = Some x"
  by (simp_all add: first_def)

lemma first_drop: "first (drop j xs) = (if j < length xs then Some (xs ! j) else None)"
  by (cases "j < length xs") (simp_all add: Cons_nth_drop_Suc [symmetric])

lemma chain_from: "chain l i x (us @ y # vs) \<Longrightarrow> chain l i y vs"
  by (induction us arbitrary: x) auto

lemma chain_next: "chain l i x ns \<Longrightarrow> Node_Next l x i = first ns"
  by (cases ns) auto

text \<open>
  The nodes of a list in two parts, and a search that has come to \<open>x\<close> at a level with the nodes \<open>vs\<close> of the first
  part ahead of it.
\<close>

definition linked :: "'k SkipList \<Rightarrow> nat \<Rightarrow> nat list \<Rightarrow> nat list \<Rightarrow> bool" where
  "linked l h A B \<longleftrightarrow> (\<forall>i \<le> h. chain l i head (at_level l i A @ at_level l i B))"

definition walk :: "'k SkipList \<Rightarrow> nat list \<Rightarrow> nat \<Rightarrow> nat \<Rightarrow> nat list \<Rightarrow> bool" where
  "walk l A x i vs \<longleftrightarrow> (\<exists>us. head # at_level l i A = us @ x # vs)"

abbreviation last_at :: "'k SkipList \<Rightarrow> nat list \<Rightarrow> nat \<Rightarrow> nat" where
  "last_at l A i \<equiv> last (head # at_level l i A)"

lemma walk_chain:
  assumes "linked l h A B" "walk l A x i vs" "i \<le> h"
  shows "chain l i x (vs @ at_level l i B)"
proof -
  obtain us where us: "head # at_level l i A = us @ x # vs" using assms(2) by (auto simp: walk_def)
  have c: "chain l i head (at_level l i A @ at_level l i B)" using assms(1,3) by (simp add: linked_def)
  show ?thesis
  proof (cases us)
    case Nil
    then show ?thesis using c us by simp
  next
    case (Cons u us')
    then show ?thesis using c us chain_from [of l i head us' x "vs @ at_level l i B"] by simp
  qed
qed

lemma walk_step:
  assumes "linked l h A B" "walk l A x i (n # vs)" "i \<le> h"
  shows "Node_Next l x i = Some n" "n \<in> set A" "walk l A n i vs"
proof -
  obtain us where us: "head # at_level l i A = us @ x # n # vs" using assms(2) by (auto simp: walk_def)
  show "Node_Next l x i = Some n" using walk_chain [OF assms] by simp
  have "n \<in> set (tl (us @ x # n # vs))" by (cases us) auto
  then have "n \<in> set (at_level l i A)" by (metis list.sel(3) us)
  then show "n \<in> set A" by simp
  show "walk l A n i vs" using us unfolding walk_def by (intro exI [of _ "us @ [x]"]) simp
qed

lemma walk_end:
  assumes "linked l h A B" "walk l A x i []" "i \<le> h"
  shows "Node_Next l x i = first (at_level l i B)" "x = last_at l A i"
proof -
  show "Node_Next l x i = first (at_level l i B)" using walk_chain [OF assms] chain_next by simp
  show "x = last_at l A i" using assms(2) by (metis last_snoc walk_def)
qed

lemma walk_down:
  assumes "walk l A x (Suc i) []"
  shows "\<exists>vs. walk l A x i vs"
proof -
  have "x \<in> set (head # at_level l (Suc i) A)" using assms by (metis in_set_conv_decomp walk_def)
  then have "x \<in> set (head # at_level l i A)" by auto
  then show ?thesis using split_list unfolding walk_def by metis
qed

lemma walk_head: "walk l A head i (at_level l i A)"
  by (simp add: walk_def)

lemma first_filter_0: "\<forall>n \<in> set B. 0 < height l n \<Longrightarrow> at_level l 0 B = B"
  by (simp add: filter_id_conv)

text \<open>The three loops.\<close>

fun set_prevs :: "'k SkipList \<Rightarrow> nat list \<Rightarrow> nat \<Rightarrow> nat list \<Rightarrow> nat list" where
  "set_prevs l A 0 p = p[0 := last_at l A 0]"
| "set_prevs l A (Suc i) p = set_prevs l A i (p[Suc i := last_at l A (Suc i)])"

lemma set_prevs_0: "set_prevs l A 0 = (\<lambda>p. p[0 := last_at l A 0])"
  by (simp add: fun_eq_iff)

lemma set_prevs_Suc: "set_prevs l A (Suc i) = (\<lambda>p. set_prevs l A i (p[Suc i := last_at l A (Suc i)]))"
  by (simp add: fun_eq_iff)

lemma set_prevs_nth:
  assumes "h < length p" "i < length p"
  shows "length (set_prevs l A h p) = length p"
    "set_prevs l A h p ! i = (if i \<le> h then last_at l A i else p ! i)"
  using assms by (induction h arbitrary: p) (auto simp: nth_list_update le_Suc_eq)

lemma find_ge_walk:
  assumes "linked l h A B" "\<forall>n \<in> set A. cmp (skey l n) key < 0" "\<forall>n \<in> set B. \<not> cmp (skey l n) key < 0"
    "walk l A x i vs" "i \<le> h"
  shows "find_ge cmp l key prev x i = Some (first (at_level l 0 B), map_option (set_prevs l A i) prev)"
  using assms(4,5)
proof (induction i arbitrary: x vs prev)
  case 0
  then show ?case
  proof (induction vs arbitrary: x)
    case Nil
    have "\<not> KeyIsAfterNode cmp l key (first (at_level l 0 B))"
      using assms(3) by (cases "at_level l 0 B") (auto simp: KeyIsAfterNode_def dest!: filter_eq_ConsD)
    then show ?case using walk_end [OF assms(1) Nil] by (subst find_ge.simps) (simp add: Let_def set_prevs_0)
  next
    case (Cons n vs)
    note s = walk_step [OF assms(1) Cons.prems]
    then show ?case using Cons.IH [OF s(3) Cons.prems(2)] assms(2) by (subst find_ge.simps) (simp add: Let_def KeyIsAfterNode_def del: set_prevs.simps last.simps)
  qed
next
  case (Suc i)
  from Suc.prems show ?case
  proof (induction vs arbitrary: x)
    case Nil
    obtain vs' where w: "walk l A x i vs'" using walk_down [OF Nil(1)] by blast
    have "\<not> KeyIsAfterNode cmp l key (first (at_level l (Suc i) B))"
      using assms(3) by (cases "at_level l (Suc i) B") (auto simp: KeyIsAfterNode_def dest!: filter_eq_ConsD)
    then show ?case using walk_end [OF assms(1) Nil] Suc.IH [OF w] Nil(2)
      by (subst find_ge.simps) (simp add: Let_def option.map_comp comp_def set_prevs_Suc)
  next
    case (Cons n vs)
    note s = walk_step [OF assms(1) Cons.prems]
    then show ?case using Cons.IH [OF s(3) Cons.prems(2)] assms(2) by (subst find_ge.simps) (simp add: Let_def KeyIsAfterNode_def del: set_prevs.simps last.simps)
  qed
qed

lemma find_lt_walk:
  assumes "linked l h A B" "\<forall>n \<in> set A. cmp (skey l n) key < 0" "\<forall>n \<in> set B. \<not> cmp (skey l n) key < 0"
    "walk l A x i vs" "i \<le> h"
  shows "find_lt cmp l key x i = Some (last_at l A 0)"
  using assms(4,5)
proof (induction i arbitrary: x vs)
  case 0
  then show ?case
  proof (induction vs arbitrary: x)
    case Nil
    show ?case using walk_end [OF assms(1) Nil] assms(3)
      by (subst find_lt.simps; cases "at_level l 0 B") (auto simp: Let_def dest!: filter_eq_ConsD)
  next
    case (Cons n vs)
    note s = walk_step [OF assms(1) Cons.prems]
    then show ?case using Cons.IH [OF s(3) Cons.prems(2)] assms(2) by (subst find_lt.simps) (auto simp: Let_def)
  qed
next
  case (Suc i)
  from Suc.prems show ?case
  proof (induction vs arbitrary: x)
    case Nil
    obtain vs' where w: "walk l A x i vs'" using walk_down [OF Nil(1)] by blast
    show ?case using walk_end [OF assms(1) Nil] Suc.IH [OF w] Nil(2) assms(3)
      by (subst find_lt.simps; cases "at_level l (Suc i) B") (auto simp: Let_def dest!: filter_eq_ConsD)
  next
    case (Cons n vs)
    note s = walk_step [OF assms(1) Cons.prems]
    then show ?case using Cons.IH [OF s(3) Cons.prems(2)] assms(2) by (subst find_lt.simps) (auto simp: Let_def)
  qed
qed

lemma find_last_walk:
  assumes "linked l h A []" "walk l A x i vs" "i \<le> h"
  shows "find_last l x i = Some (last_at l A 0)"
  using assms(2,3)
proof (induction i arbitrary: x vs)
  case 0
  then show ?case
  proof (induction vs arbitrary: x)
    case Nil
    show ?case using walk_end [OF assms(1) Nil] by (subst find_last.simps) (simp add: Let_def)
  next
    case (Cons n vs)
    note s = walk_step [OF assms(1) Cons.prems]
    then show ?case using Cons.IH [OF s(3) Cons.prems(2)] by (subst find_last.simps) (simp add: Let_def)
  qed
next
  case (Suc i)
  from Suc.prems show ?case
  proof (induction vs arbitrary: x)
    case Nil
    obtain vs' where w: "walk l A x i vs'" using walk_down [OF Nil(1)] by blast
    show ?case using walk_end [OF assms(1) Nil] Suc.IH [OF w] Nil(2) by (subst find_last.simps) (simp add: Let_def)
  next
    case (Cons n vs)
    note s = walk_step [OF assms(1) Cons.prems]
    then show ?case using Cons.IH [OF s(3) Cons.prems(2)] by (subst find_last.simps) (simp add: Let_def)
  qed
qed

section \<open>The invariant\<close>

text \<open>
  \<open>ns\<close> are the nodes in the order of the lowest level: all nodes but the head, with keys in order. Every level links those
  of them that reach it.
\<close>

definition skip_inv :: "('k \<Rightarrow> bool) \<Rightarrow> ('k \<Rightarrow> 'k \<Rightarrow> int) \<Rightarrow> 'k SkipList \<Rightarrow> nat list \<Rightarrow> bool" where
  "skip_inv valid cmp l ns \<longleftrightarrow>
     nodes l \<noteq> [] \<and> height l head = kMaxHeight \<and> 1 \<le> max_height l \<and> max_height l \<le> kMaxHeight \<and>
     distinct ns \<and> set ns = {1..<length (nodes l)} \<and>
     (\<forall>n \<in> set ns. 1 \<le> height l n \<and> height l n \<le> max_height l \<and> valid (skey l n)) \<and>
     sorted_wrt (\<lambda>a b. cmp (skey l a) (skey l b) < 0) ns \<and>
     (\<forall>i < kMaxHeight. chain l i head (at_level l i ns))"

lemma skip_linked:
  assumes "skip_inv valid cmp l (A @ B)"
  shows "linked l (max_height l - 1) A B"
  using assms by (auto simp: skip_inv_def linked_def)

lemma skip_ground:
  assumes "skip_inv valid cmp l ns"
  shows "at_level l 0 ns = ns" "chain l 0 head ns" "head \<notin> set ns"
proof -
  have s: "\<forall>n \<in> set ns. 0 < height l n" "set ns = {1..<length (nodes l)}" and c: "\<forall>i < kMaxHeight. chain l i head (at_level l i ns)"
    using assms by (simp_all add: skip_inv_def Suc_le_eq)
  show h: "at_level l 0 ns = ns" by (rule first_filter_0 [OF s(1)])
  show "chain l 0 head ns" using c [rule_format, of 0] unfolding h by (simp add: kMaxHeight_def)
  show "head \<notin> set ns" unfolding s(2) by simp
qed

lemma chain_cong:
  "\<forall>y \<in> set (s # ns). Node_Next l' y i = Node_Next l y i \<Longrightarrow> chain l' i s ns = chain l i s ns"
  by (induction ns arbitrary: s) auto

lemma chain_insert:
  assumes "chain l i s (U @ V)" "distinct (s # U @ V)"
    "Node_Next l' (last (s # U)) i = Some x" "Node_Next l' x i = Node_Next l (last (s # U)) i"
    "\<forall>y \<in> set (s # U @ V). y \<noteq> last (s # U) \<longrightarrow> Node_Next l' y i = Node_Next l y i"
  shows "chain l' i s (U @ x # V)"
  using assms
proof (induction U arbitrary: s)
  case Nil
  show ?case
  proof (cases V)
    case Nil
    then show ?thesis using Nil.prems by simp
  next
    case (Cons v V')
    have "chain l' i v V' = chain l i v V'" by (rule chain_cong) (use Nil.prems Cons in auto)
    then show ?thesis using Nil.prems Cons by simp
  qed
next
  case (Cons u U)
  have "last (u # U) \<in> set (u # U)" by (rule last_in_set) simp
  then have "s \<noteq> last (s # u # U)" using Cons.prems(2) by auto
  then have "Node_Next l' s i = Some u" using Cons.prems(1,5) by auto
  moreover have "chain l' i u (U @ x # V)" by (rule Cons.IH) (use Cons.prems in auto)
  ultimately show ?case by simp
qed

section \<open>Linking a new node\<close>

lemma SetNext_simps [simp]:
  "length (nodes (SetNext y i p l)) = length (nodes l)" "max_height (SetNext y i p l) = max_height l" "rnd (SetNext y i p l) = rnd l"
  by (simp_all add: SetNext_def)

lemma SetNext_node [simp]:
  "skey (SetNext y i p l) n = skey l n" "height (SetNext y i p l) n = height l n"
  by (cases "y < length (nodes l)"; simp add: SetNext_def height_def nth_list_update list_update_beyond)+

lemma Next_SetNext:
  assumes "y < length (nodes l)" "i < height l y"
  shows "Node_Next (SetNext y i p l) z j = (if z = y \<and> j = i then p else Node_Next l z j)"
  using assms by (simp add: SetNext_def Node_Next_def height_def nth_list_update)

lemma link_level_simps [simp]:
  "length (nodes (link_level x prev l i)) = length (nodes l)" "skey (link_level x prev l i) n = skey l n"
  "height (link_level x prev l i) n = height l n" "max_height (link_level x prev l i) = max_height l"
  "rnd (link_level x prev l i) = rnd l"
  by (simp_all add: link_level_def)

lemma Next_link_level:
  assumes "x < length (nodes l)" "i < height l x" "prev ! i < length (nodes l)" "i < height l (prev ! i)" "prev ! i \<noteq> x"
  shows "Node_Next (link_level x prev l i) z j =
    (if j = i \<and> z = x then Node_Next l (prev ! i) i else if j = i \<and> z = prev ! i then Some x else Node_Next l z j)"
  using assms by (simp add: link_level_def Next_SetNext)

lemma link_levels:
  assumes "x < length (nodes l)" "k \<le> height l x"
    "\<forall>i < k. prev ! i < length (nodes l) \<and> prev ! i \<noteq> x \<and> i < height l (prev ! i)"
  defines "l' \<equiv> foldl (link_level x prev) l [0..<k]"
  shows "length (nodes l') = length (nodes l) \<and> max_height l' = max_height l \<and>
    (\<forall>n. skey l' n = skey l n \<and> height l' n = height l n) \<and>
    (\<forall>y j. Node_Next l' y j =
       (if j < k \<and> y = x then Node_Next l (prev ! j) j else if j < k \<and> y = prev ! j then Some x else Node_Next l y j))"
  using assms(2,3) unfolding l'_def
proof (induction k)
  case (Suc k)
  then have IH: "length (nodes (foldl (link_level x prev) l [0..<k])) = length (nodes l)"
    "max_height (foldl (link_level x prev) l [0..<k]) = max_height l"
    "\<And>n. skey (foldl (link_level x prev) l [0..<k]) n = skey l n"
    "\<And>n. height (foldl (link_level x prev) l [0..<k]) n = height l n"
    "\<And>y j. Node_Next (foldl (link_level x prev) l [0..<k]) y j =
       (if j < k \<and> y = x then Node_Next l (prev ! j) j else if j < k \<and> y = prev ! j then Some x else Node_Next l y j)"
    by simp_all
  have "prev ! k < length (nodes l)" "prev ! k \<noteq> x" "k < height l (prev ! k)" "k < height l x" using Suc.prems by auto
  then show ?case using assms(1)
    by (simp add: IH Next_link_level less_Suc_eq)
qed simp

section \<open>Searching and inserting\<close>

lemma random_height_bounds: "h \<le> kMaxHeight \<Longrightarrow> h \<le> fst (random_height h s) \<and> fst (random_height h s) \<le> kMaxHeight"
proof (induction h s rule: random_height.induct)
  case (1 h s)
  obtain r s' b where r: "Random_Next s = (r, s')" "b \<longleftrightarrow> r mod 4 = 0" by fastforce
  then have e: "random_height h s = (if h < kMaxHeight then if b then random_height (h + 1) s' else (h, s') else (h, s))"
    by (subst random_height.simps) simp
  have "h + 1 \<le> fst (random_height (h + 1) s') \<and> fst (random_height (h + 1) s') \<le> kMaxHeight" if "h < kMaxHeight" "b"
    using 1(1) [OF that(1) r(1) [symmetric] refl] that r(2) by simp
  then show ?case unfolding e using 1(2) by auto
qed

lemma level_above: "\<forall>n \<in> set A. height l n \<le> i \<Longrightarrow> at_level l i A = []"
  by (auto simp: filter_empty_conv)

lemma fold_update_nth:
  "i < length p \<Longrightarrow> foldl (\<lambda>p i. p[i := v]) p is ! i = (if i \<in> set is then v else p ! i) \<and>
     length (foldl (\<lambda>p i. p[i := v]) p is) = length p"
  by (induction "is" arbitrary: p) auto

text \<open>A list that represents the keys \<open>ks\<close>, in order, and where a key belongs in them.\<close>

definition represents :: "('k \<Rightarrow> bool) \<Rightarrow> ('k \<Rightarrow> 'k \<Rightarrow> int) \<Rightarrow> 'k SkipList \<Rightarrow> 'k list \<Rightarrow> bool" where
  "represents valid cmp l ks \<longleftrightarrow> (\<exists>ns. skip_inv valid cmp l ns \<and> ks = map (skey l) ns)"

fun insert_key :: "('k \<Rightarrow> 'k \<Rightarrow> int) \<Rightarrow> 'k \<Rightarrow> 'k list \<Rightarrow> 'k list" where
  "insert_key cmp key [] = [key]"
| "insert_key cmp key (k # ks) = (if cmp k key < 0 then k # insert_key cmp key ks else key # k # ks)"

lemma insert_key_split:
  "insert_key cmp key ks = takeWhile (\<lambda>k. cmp k key < 0) ks @ key # dropWhile (\<lambda>k. cmp k key < 0) ks"
  by (induction ks) auto

context key_order
begin

lemma after_not_less:
  assumes "sorted_wrt (\<lambda>a b. compare (f a) (f b) < 0) ns" "\<forall>n \<in> set ns. valid (f n)" "valid key"
    "n \<in> set (dropWhile (\<lambda>n. compare (f n) key < 0) ns)"
  shows "\<not> compare (f n) key < 0"
  using assms
proof (induction ns)
  case (Cons m ns)
  show ?case
  proof (cases "compare (f m) key < 0")
    case True
    then show ?thesis using Cons by simp
  next
    case m: False
    show ?thesis
    proof
      assume "compare (f n) key < 0"
      moreover have "n = m \<or> compare (f m) (f n) < 0" "valid (f n)" "valid (f m)" using Cons.prems m by auto
      ultimately show False using m less_trans [of "f m" "f n" key] Cons.prems(3) by auto
    qed
  qed
qed simp

lemma rest_not_less:
  assumes "skip_inv valid compare l ns" "valid key" "n \<in> set (dropWhile (\<lambda>n. compare (skey l n) key < 0) ns)"
  shows "\<not> compare (skey l n) key < 0"
  using after_not_less [of "skey l" ns key n] assms by (simp add: skip_inv_def)

lemma find_ge:
  assumes "skip_inv valid compare l ns" "valid key"
  defines "A \<equiv> takeWhile (\<lambda>n. compare (skey l n) key < 0) ns"
    and "B \<equiv> dropWhile (\<lambda>n. compare (skey l n) key < 0) ns"
  shows "FindGreaterOrEqual compare l key prev = Some (first B, map_option (set_prevs l A (max_height l - 1)) prev)"
    "FindLessThan compare l key = Some (last (head # A))"
proof -
  have AB: "ns = A @ B" by (simp add: A_def B_def)
  have lk: "linked l (max_height l - 1) A B" using skip_linked assms(1) AB by metis
  have a: "\<forall>n \<in> set A. compare (skey l n) key < 0" by (auto simp: A_def dest: set_takeWhileD)
  have b: "\<forall>n \<in> set B. \<not> compare (skey l n) key < 0"
    unfolding B_def using rest_not_less [OF assms(1,2)] by blast
  have "\<forall>n \<in> set ns. 0 < height l n" using assms(1) by (simp add: skip_inv_def Suc_le_eq)
  then have h: "at_level l 0 B = B" "at_level l 0 A = A" unfolding AB by (auto intro!: first_filter_0)
  show "FindGreaterOrEqual compare l key prev = Some (first B, map_option (set_prevs l A (max_height l - 1)) prev)"
    using find_ge_walk [where cmp = compare and x = head and prev = prev, OF lk a b walk_head le_refl] unfolding h(1) by (simp only: FindGreaterOrEqual_def)
  show "FindLessThan compare l key = Some (last (head # A))"
    using find_lt_walk [where cmp = compare and x = head, OF lk a b walk_head le_refl] unfolding h(2) by (simp only: FindLessThan_def)
qed

lemma insert_chain:
  assumes "chain l i head (at_level l i A @ at_level l i B)" "distinct (head # A @ B)"
    "\<forall>y \<in> set (A @ B). height l' y = height l y"
    "\<forall>y \<in> set (head # A @ B). Node_Next l' y i = (if i < h \<and> y = last_at l A i then Some x else Node_Next l y i)"
    "height l' x = h" "i < h \<Longrightarrow> Node_Next l' x i = Node_Next l (last_at l A i) i"
  shows "chain l' i head (at_level l' i (A @ x # B))"
proof -
  have lv: "at_level l' i A = at_level l i A" "at_level l' i B = at_level l i B" using assms(3) by (auto intro!: filter_cong)
  show ?thesis
  proof (cases "i < h")
    case True
    have "last_at l A i \<in> set (head # at_level l i A)" by (rule last_in_set) simp
    then have "Node_Next l' (last_at l A i) i = Some x" using assms(4) True by auto
    moreover have "\<forall>y \<in> set (head # at_level l i A @ at_level l i B). y \<noteq> last_at l A i \<longrightarrow> Node_Next l' y i = Node_Next l y i"
      using assms(4) by auto
    moreover have "distinct (head # at_level l i A @ at_level l i B)" using assms(2) by auto
    ultimately have "chain l' i head (at_level l i A @ x # at_level l i B)"
      using chain_insert [OF assms(1)] assms(6) True by blast
    then show ?thesis using True assms(5) lv by simp
  next
    case False
    have "chain l' i head (at_level l i A @ at_level l i B) = chain l i head (at_level l i A @ at_level l i B)"
      by (rule chain_cong) (use assms(4) False in auto)
    then show ?thesis using False assms(1,5) lv by simp
  qed
qed

text \<open>The links of the new node, whichever height it gets.\<close>

lemma insert_links:
  fixes seed :: uint32
  assumes inv: "skip_inv valid compare l (A @ B)"
    and "valid key" "\<forall>n \<in> set A. compare (skey l n) key < 0" "\<forall>n \<in> set B. compare key (skey l n) < 0"
    and h: "1 \<le> h" "h \<le> kMaxHeight" and prev: "\<forall>i < h. prev ! i = last_at l A i"
  defines "x \<equiv> length (nodes l)"
    and "l1 \<equiv> snd (NewNode key h (l\<lparr>rnd := seed, max_height := max h (max_height l)\<rparr>))"
  defines "l' \<equiv> foldl (link_level x prev) l1 [0..<h]"
  shows "skip_inv valid compare l' (A @ x # B) \<and> map (skey l') (A @ x # B) = map (skey l) A @ key # map (skey l) B"
proof -
  have n: "nodes l1 = nodes l @ [\<lparr>node_key = key, links = replicate h None\<rparr>]" by (simp add: l1_def NewNode_def)
  have old: "skey l1 y = skey l y" "height l1 y = height l y" "Node_Next l1 y j = Node_Next l y j" if "y < x" for y j
    using that by (simp_all add: n x_def nth_append height_def Node_Next_def)
  have new: "skey l1 x = key" "height l1 x = h" by (simp_all add: n x_def height_def)
  have ns: "set (A @ B) = {1..<x}" "distinct (A @ B)" "0 < x" "height l head = kMaxHeight"
    and hs: "\<forall>n \<in> set (A @ B). 1 \<le> height l n \<and> height l n \<le> max_height l \<and> valid (skey l n)"
    and mh: "1 \<le> max_height l" "max_height l \<le> kMaxHeight"
    using inv by (auto simp: skip_inv_def x_def)
  have h0: "head \<notin> set (A @ B)" unfolding ns(1) by simp
  have lt: "y < x" if "y \<in> set (head # A @ B)" for y using that ns(1,3) by auto
  have pm: "last_at l A i \<in> set (head # at_level l i A)" for i by (rule last_in_set) simp
  have p: "prev ! i < x \<and> i < height l (prev ! i)" if "i < h" for i
    using pm [of i] that prev h(2) ns(3,4) lt by auto
  have x1: "x < length (nodes l1)" by (simp add: n x_def)
  have pl: "\<forall>i < h. prev ! i < length (nodes l1) \<and> prev ! i \<noteq> x \<and> i < height l1 (prev ! i)"
  proof (intro allI impI)
    fix i assume "i < h"
    from p [OF this] show "prev ! i < length (nodes l1) \<and> prev ! i \<noteq> x \<and> i < height l1 (prev ! i)"
      using x1 old(2) by simp
  qed
  note L = link_levels [OF x1 eq_refl [OF new(2) [symmetric]] pl, folded l'_def]
  have N: "Node_Next l' y j = (if j < h \<and> y = x then Node_Next l (prev ! j) j
      else if j < h \<and> y = prev ! j then Some x else Node_Next l y j)" if "y < x \<or> y = x \<and> j < h" for y j
    using L p old(3) that by auto
  have K: "skey l' y = skey l y" "height l' y = height l y" if "y < x" for y using L old [OF that] by simp_all
  have KX: "skey l' x = key" "height l' x = h" using L new by simp_all
  have "chain l' i head (at_level l' i (A @ x # B))" if i: "i < kMaxHeight" for i
  proof (rule insert_chain [OF _ _ _ _ KX(2)])
    show "chain l i head (at_level l i A @ at_level l i B)" using inv i by (simp add: skip_inv_def)
    show "distinct (head # A @ B)" using h0 ns(2) by auto
    show "\<forall>y \<in> set (A @ B). height l' y = height l y" using K(2) lt by auto
    show "\<forall>y \<in> set (head # A @ B). Node_Next l' y i = (if i < h \<and> y = last_at l A i then Some x else Node_Next l y i)"
    proof
      fix y assume "y \<in> set (head # A @ B)"
      from lt [OF this] show "Node_Next l' y i = (if i < h \<and> y = last_at l A i then Some x else Node_Next l y i)"
        using N [of y i] prev by auto
    qed
    show "i < h \<Longrightarrow> Node_Next l' x i = Node_Next l (last_at l A i) i" using N [of x i] prev by simp
  qed
  moreover have M: "map (skey l') (A @ x # B) = map (skey l) A @ key # map (skey l) B"
    using K(1) KX(1) lt by auto
  moreover have "sorted_wrt (\<lambda>a b. compare a b < 0) (map (skey l') (A @ x # B))"
    unfolding M using inv assms(3,4) by (auto simp: skip_inv_def sorted_wrt_append sorted_wrt_map)
  then have "sorted_wrt (\<lambda>a b. compare (skey l' a) (skey l' b) < 0) (A @ x # B)" by (simp only: sorted_wrt_map)
  moreover have "distinct (A @ x # B)" using ns(2) lt by auto
  moreover have "length (nodes l') = Suc x" "max_height l' = max h (max_height l)"
    using L by (simp_all add: n x_def) (simp add: l1_def NewNode_def)
  moreover have "set (A @ x # B) = {1..<Suc x}" using ns(1,3) by auto
  moreover have "\<forall>n \<in> set (A @ x # B). 1 \<le> height l' n \<and> height l' n \<le> max h (max_height l) \<and> valid (skey l' n)"
    using hs K KX lt h(1) assms(2) by (auto simp: le_max_iff_disj)
  ultimately show ?thesis using h ns(3,4) K(2) mh unfolding skip_inv_def by (simp del: distinct_append) fastforce
qed

lemma insert_fresh:
  assumes inv: "skip_inv valid compare l ns" and "valid key" and fresh: "\<forall>n \<in> set ns. compare (skey l n) key \<noteq> 0"
  shows "\<exists>l' ns'. Insert compare key l = Some l' \<and> skip_inv valid compare l' ns' \<and>
    map (skey l') ns' = insert_key compare key (map (skey l) ns)"
proof -
  define A where "A = takeWhile (\<lambda>n. compare (skey l n) key < 0) ns"
  define B where "B = dropWhile (\<lambda>n. compare (skey l n) key < 0) ns"
  have AB: "ns = A @ B" by (simp add: A_def B_def)
  obtain h seed where r: "random_height 1 (rnd l) = (h, seed)" by fastforce
  have h: "1 \<le> h" "h \<le> kMaxHeight" using random_height_bounds [of 1 "rnd l"] r by (simp_all add: kMaxHeight_def)
  have mh: "1 \<le> max_height l" "max_height l \<le> kMaxHeight"
    and vs: "\<forall>n \<in> set (A @ B). height l n \<le> max_height l \<and> valid (skey l n)" using inv AB by (auto simp: skip_inv_def)
  define p where "p = set_prevs l A (max_height l - 1) (replicate kMaxHeight 0)"
  define prev where "prev = (if max_height l < h then foldl (\<lambda>p i. p[i := head]) p [max_height l..<h] else p)"
  have pn: "length p = kMaxHeight" "p ! i = (if i \<le> max_height l - 1 then last_at l A i else head)" if "i < kMaxHeight" for i
    using set_prevs_nth [of "max_height l - 1" "replicate kMaxHeight 0" i l A] mh that by (simp_all add: p_def)
  have top: "last_at l A i = head" if "max_height l \<le> i" for i
    using level_above [of A l i] vs that by (auto dest: order_trans)
  have "prev ! i = last_at l A i" if "i < h" for i
    using fold_update_nth [of i p head "[max_height l..<h]"] pn [of i] top [of i] that h mh by (auto simp: prev_def)
  moreover have "\<forall>n \<in> set A. compare (skey l n) key < 0" by (auto simp: A_def dest: set_takeWhileD)
  moreover have "\<forall>n \<in> set B. compare key (skey l n) < 0"
  proof
    fix n assume n: "n \<in> set B"
    then have "\<not> compare (skey l n) key < 0" "valid (skey l n)"
      using rest_not_less [OF inv assms(2), folded B_def] vs by simp_all
    moreover have "compare (skey l n) key \<noteq> 0" using fresh n by (simp add: AB)
    ultimately show "compare key (skey l n) < 0" using flip [OF assms(2), of "skey l n"] by linarith
  qed
  ultimately have "skip_inv valid compare (foldl (link_level (length (nodes l)) prev)
        (snd (NewNode key h (l\<lparr>rnd := seed, max_height := max h (max_height l)\<rparr>))) [0..<h]) (A @ length (nodes l) # B) \<and>
      map (skey (foldl (link_level (length (nodes l)) prev)
        (snd (NewNode key h (l\<lparr>rnd := seed, max_height := max h (max_height l)\<rparr>))) [0..<h])) (A @ length (nodes l) # B) =
        map (skey l) A @ key # map (skey l) B"
    using insert_links [of l A B key h prev seed] inv AB assms(2) h by blast
  moreover have "Insert compare key l = Some (foldl (link_level (length (nodes l)) prev)
        (snd (NewNode key h (l\<lparr>rnd := seed, max_height := max h (max_height l)\<rparr>))) [0..<h])"
    using find_ge(1) [OF inv assms(2), of "Some (replicate kMaxHeight 0)"] r
    by (simp add: Insert_def RandomHeight_def NewNode_def Let_def prev_def p_def A_def max_def)
  moreover have "insert_key compare key (map (skey l) ns) = map (skey l) A @ key # map (skey l) B"
    by (simp add: insert_key_split takeWhile_map dropWhile_map A_def B_def comp_def)
  ultimately show ?thesis by metis
qed

lemma contains_key:
  assumes inv: "skip_inv valid compare l ns" and v: "valid key"
  shows "Contains compare key l = Some (\<exists>n \<in> set ns. compare key (skey l n) = 0)"
proof -
  let ?P = "\<lambda>n. compare (skey l n) key < 0"
  have vs: "valid (skey l n)" if "n \<in> set ns" for n using inv that by (simp add: skip_inv_def)
  have st: "sorted_wrt (\<lambda>a b. compare (skey l a) (skey l b) < 0) (dropWhile ?P ns)"
  proof -
    have "sorted_wrt (\<lambda>a b. compare (skey l a) (skey l b) < 0) ns" using inv by (simp add: skip_inv_def)
    then show ?thesis by (metis sorted_wrt_append takeWhile_dropWhile_id)
  qed
  have pre: "compare key (skey l n) \<noteq> 0" if "n \<in> set (takeWhile ?P ns)" for n
  proof -
    have "n \<in> set ns" "compare (skey l n) key < 0" using set_takeWhileD [OF that] by auto
    then show ?thesis using flip [OF vs v] by simp
  qed
  have "(\<exists>n \<in> set (dropWhile ?P ns). compare key (skey l n) = 0) \<longleftrightarrow>
      (case first (dropWhile ?P ns) of None \<Rightarrow> False | Some n \<Rightarrow> compare key (skey l n) = 0)"
  proof (cases "dropWhile ?P ns")
    case (Cons b bs)
    have b: "b \<in> set ns" "set bs \<subseteq> set ns" using Cons by (metis list.set_intros set_dropWhileD set_ConsD subsetI)+
    have "\<not> compare (skey l b) key < 0" using rest_not_less [OF inv v] Cons by simp
    then have kb: "compare key (skey l b) \<le> 0" using flip [OF vs [OF b(1)] v] by linarith
    have "compare key (skey l n) \<noteq> 0" if n: "n \<in> set bs" for n
    proof -
      have "valid (skey l n)" "compare (skey l b) (skey l n) < 0" using vs b(2) n st Cons by auto
      then show ?thesis using less_trans2 [OF v vs [OF b(1)] _ kb] by fastforce
    qed
    then show ?thesis using Cons by auto
  next
    case Nil
    then show ?thesis by (simp only: Nil list.set first_simps option.case) simp
  qed
  then have "(\<exists>n \<in> set ns. compare key (skey l n) = 0) \<longleftrightarrow>
      (case first (dropWhile ?P ns) of None \<Rightarrow> False | Some n \<Rightarrow> compare key (skey l n) = 0)"
    using pre takeWhile_dropWhile_id [of ?P ns] by (metis Un_iff set_append)
  then show ?thesis using find_ge(1) [OF inv v, of None] by (simp add: Contains_def)
qed

lemma find_first: "first (dropWhile P xs) = find (\<lambda>x. \<not> P x) xs"
  by (induction xs) auto

lemma iter_seek:
  assumes "skip_inv valid compare l ns" "valid key"
  shows "Iter_Seek compare l key = Some (find (\<lambda>n. 0 \<le> compare (skey l n) key) ns)"
  using find_ge(1) [OF assms, of None] by (simp add: Iter_Seek_def find_first not_less)

lemma iter_ends:
  assumes "skip_inv valid compare l ns"
  shows "Iter_SeekToFirst l = first ns" "Iter_SeekToLast l = Some (if ns = [] then None else Some (last ns))"
proof -
  note h = skip_ground(1) [OF assms] and c = skip_ground(2) [OF assms] and z = skip_ground(3) [OF assms]
  show "Iter_SeekToFirst l = first ns" using chain_next [OF c] by (simp add: Iter_SeekToFirst_def)
  have "linked l (max_height l - 1) ns []" using skip_linked [of valid compare l ns "[]"] assms by simp
  then have "FindLast l = Some (last (head # ns))"
    using find_last_walk [of l "max_height l - 1" ns head, OF _ walk_head le_refl] h by (simp add: FindLast_def)
  moreover have "last ns \<noteq> head" if "ns \<noteq> []" using last_in_set [OF that] z by metis
  ultimately show "Iter_SeekToLast l = Some (if ns = [] then None else Some (last ns))"
    by (cases "ns = []") (simp_all add: Iter_SeekToLast_def)
qed

lemma iter_steps:
  assumes inv: "skip_inv valid compare l ns" and i: "i < length ns"
  shows "Iter_Next l (ns ! i) = first (drop (Suc i) ns)"
    "Iter_Prev compare l (ns ! i) = Some (if i = 0 then None else Some (ns ! (i - 1)))"
proof -
  note c = skip_ground(2) [OF inv] and z = skip_ground(3) [OF inv]
  have s: "sorted_wrt (\<lambda>a b. compare (skey l a) (skey l b) < 0) ns" and vs: "\<forall>n \<in> set ns. valid (skey l n)"
    using inv by (simp_all add: skip_inv_def)
  have e: "ns = take i ns @ ns ! i # drop (Suc i) ns" using i by (rule id_take_nth_drop)
  then have "chain l 0 (ns ! i) (drop (Suc i) ns)" using c chain_from by metis
  then show "Iter_Next l (ns ! i) = first (drop (Suc i) ns)" using chain_next by (simp add: Iter_Next_def)
  have "takeWhile (\<lambda>n. compare (skey l n) (skey l (ns ! i)) < 0) (take i ns @ ns ! i # drop (Suc i) ns) = take i ns"
    using s i refl [of "skey l (ns ! i)"] vs [rule_format, OF nth_mem [OF i]]
    by (subst takeWhile_append2) (auto simp: in_set_conv_nth sorted_wrt_iff_nth_less)
  then have t: "takeWhile (\<lambda>n. compare (skey l n) (skey l (ns ! i)) < 0) ns = take i ns" using e by metis
  have "last (head # take i ns) = (if i = 0 then head else ns ! (i - 1))"
    using i by (cases i) (simp_all add: take_Suc_conv_app_nth)
  moreover have "ns ! (i - 1) \<noteq> head" using i z by (metis less_imp_diff_less nth_mem)
  ultimately show "Iter_Prev compare l (ns ! i) = Some (if i = 0 then None else Some (ns ! (i - 1)))"
    using find_ge(2) [OF inv, of "skey l (ns ! i)"] vs i unfolding t by (simp add: Iter_Prev_def)
qed

end

section \<open>The contract of an ordered store\<close>

text \<open>
  What the in-memory table relies on: keys can be added that are not there yet, and the first key that is not before
  a given one can be found. \<open>rep\<close> relates a store to its keys in order.
\<close>

locale sorted_store = key_order valid compare
  for valid :: "'k \<Rightarrow> bool" and compare :: "'k \<Rightarrow> 'k \<Rightarrow> int" +
  fixes rep :: "'t \<Rightarrow> 'k list \<Rightarrow> bool"
    and create :: "'k \<Rightarrow> 't"
    and add :: "'k \<Rightarrow> 't \<Rightarrow> 't option"
    and seek :: "'t \<Rightarrow> 'k \<Rightarrow> 'k option option"
  assumes create: "rep (create k) []"
    and sorted: "rep t ks \<Longrightarrow> sorted_wrt (\<lambda>a b. compare a b < 0) ks \<and> (\<forall>k \<in> set ks. valid k)"
    and add: "rep t ks \<Longrightarrow> valid k \<Longrightarrow> \<forall>x \<in> set ks. compare x k \<noteq> 0 \<Longrightarrow>
      \<exists>t'. add k t = Some t' \<and> rep t' (insert_key compare k ks)"
    and seek: "rep t ks \<Longrightarrow> valid k \<Longrightarrow> seek t k = Some (find (\<lambda>x. 0 \<le> compare x k) ks)"
begin

lemma seek_None:
  assumes "rep t ks" "valid k" "\<forall>x \<in> set ks. compare x k < 0"
  shows "seek t k = Some None"
  using assms seek by (force simp: find_None_iff)

lemma seek_least:
  assumes "rep t ks" "valid k" "x \<in> set ks" "0 \<le> compare x k" "\<forall>y \<in> set ks. 0 \<le> compare y k \<longrightarrow> 0 \<le> compare y x"
  shows "seek t k = Some (Some x)"
proof -
  obtain i where i: "i < length ks" "ks ! i = x" using assms(3) by (auto simp: in_set_conv_nth)
  have s: "compare (ks ! j) x < 0" if "j < i" for j
    using sorted [OF assms(1)] that i by (auto simp: sorted_wrt_iff_nth_less)
  have "find (\<lambda>x. 0 \<le> compare x k) ks = Some x"
    unfolding find_Some_iff using i assms(4,5) s by (force intro!: exI [of _ i])
  then show ?thesis using seek assms(1,2) by simp
qed

end

definition seek_key :: "('k \<Rightarrow> 'k \<Rightarrow> int) \<Rightarrow> 'k SkipList \<Rightarrow> 'k \<Rightarrow> 'k option option" where
  "seek_key cmp l k = map_option (map_option (Iter_key l)) (Iter_Seek cmp l k)"

lemma SkipList_new_inv: "skip_inv valid cmp (SkipList_new k) []"
proof -
  have "SkipList_new k = \<lparr>nodes = [\<lparr>node_key = k, links = replicate 12 None\<rparr>], max_height = 1, rnd = Random_new 0xdeadbeef\<rparr>"
    by (simp add: SkipList_new_def NewNode_def SetNext_def kMaxHeight_def upt_rec numeral_eq_Suc)
  then show ?thesis
    by (simp add: skip_inv_def height_def kMaxHeight_def Node_Next_def)
qed

lemma skiplist_sorted:
  assumes "represents valid cmp l ks"
  shows "sorted_wrt (\<lambda>a b. cmp a b < 0) ks" "\<forall>k \<in> set ks. valid k"
  using assms by (auto simp: represents_def skip_inv_def sorted_wrt_map)

lemma find_map: "find P (map f xs) = map_option f (find (\<lambda>x. P (f x)) xs)"
  by (induction xs) auto

context key_order
begin

lemma skiplist_store: "sorted_store valid compare (represents valid compare) SkipList_new (Insert compare) (seek_key compare)"
proof
  fix k ks t
  show "represents valid compare (SkipList_new k) []" using SkipList_new_inv by (auto simp: represents_def)
  assume r: "represents valid compare t ks"
  then show "sorted_wrt (\<lambda>a b. compare a b < 0) ks \<and> (\<forall>k \<in> set ks. valid k)" using skiplist_sorted by blast
  assume v: "valid k"
  obtain ns where ns: "skip_inv valid compare t ns" "ks = map (skey t) ns" using r by (auto simp: represents_def)
  show "seek_key compare t k = Some (find (\<lambda>x. 0 \<le> compare x k) ks)"
    using iter_seek [OF ns(1) v] ns(2) by (simp add: seek_key_def find_map Iter_key_def [abs_def])
  assume "\<forall>x \<in> set ks. compare x k \<noteq> 0"
  then show "\<exists>t'. Insert compare k t = Some t' \<and> represents valid compare t' (insert_key compare k ks)"
    using insert_fresh [OF ns(1) v] ns(2) by (fastforce simp: represents_def)
qed

end

interpretation skiplist: sorted_store "\<lambda>_. True" slice_compare "represents (\<lambda>_. True) slice_compare" SkipList_new
  "Insert slice_compare" "seek_key slice_compare"
  by (rule bytewise.skiplist_store)

section \<open>Properties\<close>

text \<open>
  C31: \<^verbatim>\<open>SkipList::Insert\<close> keeps the invariant of the skip list, whatever height it draws: for every comparator that keeps its
  contract, a list that represents keys in order, and a key that compares equal to none of them, insertion returns and the
  new list represents the keys with the new one at its place. A new list represents no keys.
\<close>

theorem skiplist_insert:
  assumes "key_order valid cmp" "represents valid cmp l ks" "valid key" "\<forall>k \<in> set ks. cmp k key \<noteq> 0"
  shows "(\<exists>l'. Insert cmp key l = Some l' \<and> represents valid cmp l' (insert_key cmp key ks)) \<and>
    represents valid cmp (SkipList_new any_key) []"
  using sorted_store.add [OF key_order.skiplist_store [OF assms(1)] assms(2-4)]
    sorted_store.create [OF key_order.skiplist_store [OF assms(1)]] by blast

theorem skiplist_insert_witness:
  "\<exists>l. Insert slice_compare [5] (SkipList_new []) = Some l \<and> represents (\<lambda>_. True) slice_compare l [[5]]"
  using skiplist_insert [of "\<lambda>_. True" slice_compare "SkipList_new []" "[]" "[5]"] bytewise.key_order_axioms skiplist.create
  by simp

text \<open>
  C32: The iterator of the skip list moves over the nodes in the order of their keys: \<^verbatim>\<open>Seek\<close> stops at the first node that is
  not before the target, \<^verbatim>\<open>SeekToFirst\<close> and \<^verbatim>\<open>SeekToLast\<close> at the ends, \<^verbatim>\<open>Next\<close> and \<^verbatim>\<open>Prev\<close> at the neighbours, all of them
  return, and \<^verbatim>\<open>Contains\<close> tells whether a key compares equal.
\<close>

theorem skiplist_iterator:
  assumes "key_order valid cmp" "skip_inv valid cmp l ns" "valid target"
  shows "Contains cmp target l = Some (\<exists>n \<in> set ns. cmp target (Iter_key l n) = 0) \<and>
    Iter_Seek cmp l target = Some (find (\<lambda>n. 0 \<le> cmp (Iter_key l n) target) ns) \<and>
    Iter_SeekToFirst l = first ns \<and>
    Iter_SeekToLast l = Some (if ns = [] then None else Some (last ns)) \<and>
    (\<forall>i < length ns. Iter_Next l (ns ! i) = (if Suc i < length ns then Some (ns ! Suc i) else None) \<and>
      Iter_Prev cmp l (ns ! i) = Some (if i = 0 then None else Some (ns ! (i - 1))))"
  using key_order.contains_key [OF assms] key_order.iter_seek [OF assms] key_order.iter_ends [OF assms(1,2)]
    key_order.iter_steps [OF assms(1,2)] by (simp add: Iter_key_def first_drop)

theorem skiplist_iterator_witness:
  "\<exists>l n. Insert slice_compare [5] (SkipList_new []) = Some l \<and> Iter_Seek slice_compare l [3] = Some (Some n) \<and> Iter_key l n = [5]"
proof -
  obtain l ns where l: "Insert slice_compare [5] (SkipList_new []) = Some l" "skip_inv (\<lambda>_. True) slice_compare l ns"
    and k: "map (skey l) ns = [[5]]"
    using bytewise.insert_fresh [OF SkipList_new_inv [of "\<lambda>_. True" slice_compare "[]"], of "[5]"] by auto
  from k obtain n where n: "ns = [n]" "skey l n = [5]" by (cases ns) auto
  have "0 \<le> slice_compare [5] [3]" by code_simp
  then show ?thesis using skiplist_iterator [OF bytewise.key_order_axioms l(2), of "[3]"] l n by (simp add: Iter_key_def)
qed

end
