(* ===== verification/Ldb_Memtable.thy ===== *)
theory Ldb_Memtable
  imports Ldb_Skiplist_Thms
begin

text \<open>
  \<^verbatim>\<open>leveldb-library/db/memtable.h\<close> and \<^verbatim>\<open>memtable.cc\<close>: the in-memory table of the storage engine over the
  skip list. A pointer to an entry is the list of the bytes from it on. The table is a map from user keys
  and snapshots to values: a lookup finds the newest entry that is not newer than its snapshot.
\<close>

section \<open>Entries\<close>

text \<open>
  The static function \<^verbatim>\<open>GetLengthPrefixedSlice\<close> of this file reads a varint in at most five bytes; the second part of
  the result are the bytes behind the slice. A corrupted length, which the code takes not to occur, gives none.
\<close>

definition entry_slice :: "byte list \<Rightarrow> (slice \<times> byte list) option" where
  "entry_slice p =
     (case GetVarint32Ptr (take 5 p) of
        None \<Rightarrow> None
      | Some (len, r) \<Rightarrow>
          let q = drop (length (take 5 p) - length r) p in Some (take (unat len) q, drop (unat len) q))"

definition entry_key :: "byte list \<Rightarrow> slice" where
  "entry_key p = (case entry_slice p of None \<Rightarrow> [] | Some (k, _) \<Rightarrow> k)"

definition entry_value :: "byte list \<Rightarrow> slice" where
  "entry_value p = (case entry_slice p of None \<Rightarrow> [] | Some (_, rest) \<Rightarrow> entry_key rest)"

definition KeyComparator :: "(slice \<Rightarrow> slice \<Rightarrow> int) \<Rightarrow> byte list \<Rightarrow> byte list \<Rightarrow> int" where
  "KeyComparator user_compare aptr bptr = InternalKey_Compare user_compare (entry_key aptr) (entry_key bptr)"

definition EncodeKey :: "slice \<Rightarrow> byte list" where
  "EncodeKey target = PutVarint32 [] (of_nat (length target)) @ target"

section \<open>The table\<close>

record MemTable =
  table :: "byte list SkipList"
  refs :: int

definition MemTable_new :: MemTable where
  "MemTable_new = \<lparr>table = SkipList_new [], refs = 0\<rparr>"

definition MemTable_Ref :: "MemTable \<Rightarrow> MemTable" where
  "MemTable_Ref m = m\<lparr>refs := refs m + 1\<rparr>"

text \<open>None: the table is deleted.\<close>

definition MemTable_Unref :: "MemTable \<Rightarrow> MemTable option" where
  "MemTable_Unref m = (if refs m - 1 \<le> 0 then None else Some (m\<lparr>refs := refs m - 1\<rparr>))"

definition encoded_len :: "slice \<Rightarrow> slice \<Rightarrow> nat" where
  "encoded_len key value =
     VarintLength (of_nat (length key + 8)) + (length key + 8) + VarintLength (of_nat (length value)) + length value"

definition encode_entry :: "uint64 \<Rightarrow> ValueType \<Rightarrow> slice \<Rightarrow> slice \<Rightarrow> byte list" where
  "encode_entry s type key value =
     EncodeVarint32 (of_nat (length key + 8)) @ key @ EncodeFixed64 (push_bit 8 s OR value_type type) @
     EncodeVarint32 (of_nat (length value)) @ value"

definition MemTable_Add ::
    "(slice \<Rightarrow> slice \<Rightarrow> int) \<Rightarrow> uint64 \<Rightarrow> ValueType \<Rightarrow> slice \<Rightarrow> slice \<Rightarrow> MemTable \<Rightarrow> MemTable option" where
  "MemTable_Add user_compare s type key value m = do {
     t \<leftarrow> Insert (KeyComparator user_compare) (encode_entry s type key value) (table m);
     Some (m\<lparr>table := t\<rparr>) }"

text \<open>
  The result, the string \<open>value\<close> and the status \<open>s\<close> after the call. The outer option is none when the search does not return.
\<close>

definition MemTable_Get ::
    "(slice \<Rightarrow> slice \<Rightarrow> int) \<Rightarrow> LookupKey \<Rightarrow> byte list \<Rightarrow> status \<Rightarrow> MemTable \<Rightarrow> (bool \<times> byte list \<times> status) option" where
  "MemTable_Get user_compare key value s m = do {
     it \<leftarrow> Iter_Seek (KeyComparator user_compare) (table m) (memtable_key key);
     Some (case it of
       None \<Rightarrow> (False, value, s)
     | Some n \<Rightarrow>
         let entry = Iter_key (table m) n in
         (case GetVarint32Ptr (take 5 entry) of
            None \<Rightarrow> (False, value, s)
          | Some (key_length, r) \<Rightarrow>
              let key_ptr = drop (length (take 5 entry) - length r) entry in
              if user_compare (take (unat (key_length - 8)) key_ptr) (lookup_user_key key) = 0 then
                let tag = DecodeFixed64 (drop (unat key_length - 8) key_ptr) in
                if tag AND 0xff = value_type kTypeValue
                then (True, entry_key (drop (unat key_length) key_ptr), s)
                else if tag AND 0xff = value_type kTypeDeletion then (True, value, NotFound [] [])
                else (False, value, s)
              else (False, value, s))) }"

text \<open>\<^verbatim>\<open>MemTableIterator\<close> is the iterator of the skip list.\<close>

definition MemIter_Seek :: "(slice \<Rightarrow> slice \<Rightarrow> int) \<Rightarrow> MemTable \<Rightarrow> slice \<Rightarrow> nat option option" where
  "MemIter_Seek user_compare m k = Iter_Seek (KeyComparator user_compare) (table m) (EncodeKey k)"

definition MemIter_SeekToFirst :: "MemTable \<Rightarrow> nat option" where
  "MemIter_SeekToFirst m = Iter_SeekToFirst (table m)"

definition MemIter_SeekToLast :: "MemTable \<Rightarrow> nat option option" where
  "MemIter_SeekToLast m = Iter_SeekToLast (table m)"

definition MemIter_Next :: "MemTable \<Rightarrow> nat \<Rightarrow> nat option" where
  "MemIter_Next m n = Iter_Next (table m) n"

definition MemIter_Prev :: "(slice \<Rightarrow> slice \<Rightarrow> int) \<Rightarrow> MemTable \<Rightarrow> nat \<Rightarrow> nat option option" where
  "MemIter_Prev user_compare m n = Iter_Prev (KeyComparator user_compare) (table m) n"

definition MemIter_key :: "MemTable \<Rightarrow> nat \<Rightarrow> slice" where
  "MemIter_key m n = entry_key (Iter_key (table m) n)"

definition MemIter_value :: "MemTable \<Rightarrow> nat \<Rightarrow> slice" where
  "MemIter_value m n = entry_value (Iter_key (table m) n)"

end
