(* ===== verification/Ldb_Memtable_Thms.thy ===== *)
theory Ldb_Memtable_Thms
  imports Ldb_Memtable
begin

text \<open>
  The in-memory table answers a lookup with the last write at or before its snapshot, for every order of user
  keys. The table is related to the list of the writes so far.
\<close>

section \<open>Entries\<close>

lemma entry_slice_prefixed [simp]:
  assumes "length k < 2 ^ 32"
  shows "GetVarint32Ptr (take 5 (prefixed k @ rest)) =
      Some (of_nat (length k), take (5 - length (EncodeVarint32 (of_nat (length k)))) (k @ rest))"
    "entry_slice (prefixed k @ rest) = Some (k, rest)" "entry_key (prefixed k @ rest) = k"
proof -
  let ?n = "EncodeVarint32 (of_nat (length k))"
  have n: "length ?n \<le> 5" unfolding EncodeVarint32_ref by (rule varint_bytes_length32)
  show v: "GetVarint32Ptr (take 5 (prefixed k @ rest)) = Some (of_nat (length k), take (5 - length ?n) (k @ rest))"
    using n by (simp add: prefixed_def)
  have "length (take 5 (prefixed k @ rest)) - length (take (5 - length ?n) (k @ rest)) = length ?n"
    using n by (simp add: prefixed_def min_def)
  then show e: "entry_slice (prefixed k @ rest) = Some (k, rest)"
    using assms by (simp only: entry_slice_def v option.case prod.case Let_def unat_len32) (simp add: prefixed_def)
  show "entry_key (prefixed k @ rest) = k" by (simp add: entry_key_def e)
qed

lemma encode_entry_eq: "encode_entry s t k v = prefixed (AppendInternalKey [] k s t) @ prefixed v"
  by (simp add: encode_entry_def prefixed_def AppendInternalKey_def PutFixed64_def PackSequenceAndType_def)

lemma encode_entry_parts [simp]:
  assumes "length k + 8 < 2 ^ 32" "length v < 2 ^ 32"
  shows "entry_key (encode_entry s t k v) = AppendInternalKey [] k s t" "entry_value (encode_entry s t k v) = v"
  using assms entry_slice_prefixed(3) [of v "[]"] by (simp_all add: encode_entry_eq entry_value_def)

text \<open>The buffer of an entry has the size that is allocated for it.\<close>

lemma encoded_len_exact:
  assumes "length k + 8 < 2 ^ 32" "length v < 2 ^ 32"
  shows "length (encode_entry s t k v) = encoded_len k v"
  using assms by (simp add: encode_entry_def encoded_len_def VarintLength_ref EncodeVarint32_ref unat_of_nat del: of_nat_add)

lemma lookup_key_parts:
  assumes "length u + 8 < 2 ^ 32"
  shows "memtable_key (LookupKey_new u s) = prefixed (AppendInternalKey [] u s kTypeValue)"
    "lookup_user_key (LookupKey_new u s) = u"
  by (simp_all add: memtable_key_def lookup_user_key_def LookupKey_new_def Let_def prefixed_def AppendInternalKey_def
      PutFixed64_def kValueTypeForSeek_def)

text \<open>What \<^verbatim>\<open>Get\<close> does with the entry it finds.\<close>

definition get_entry :: "(slice \<Rightarrow> slice \<Rightarrow> int) \<Rightarrow> slice \<Rightarrow> byte list \<Rightarrow> status \<Rightarrow> byte list \<Rightarrow> bool \<times> byte list \<times> status" where
  "get_entry cmp u value s e =
     (case GetVarint32Ptr (take 5 e) of
        None \<Rightarrow> (False, value, s)
      | Some (key_length, r) \<Rightarrow>
          let key_ptr = drop (length (take 5 e) - length r) e in
          if cmp (take (unat (key_length - 8)) key_ptr) u = 0 then
            let tag = DecodeFixed64 (drop (unat key_length - 8) key_ptr) in
            if tag AND 0xff = value_type kTypeValue then (True, entry_key (drop (unat key_length) key_ptr), s)
            else if tag AND 0xff = value_type kTypeDeletion then (True, value, NotFound [] [])
            else (False, value, s)
          else (False, value, s))"

lemma Get_seek:
  "MemTable_Get cmp key value s m =
     map_option (\<lambda>e. case e of None \<Rightarrow> (False, value, s) | Some e \<Rightarrow> get_entry cmp (lookup_user_key key) value s e)
       (seek_key (KeyComparator cmp) (table m) (memtable_key key))"
  by (cases "Iter_Seek (KeyComparator cmp) (table m) (memtable_key key)")
    (auto simp: MemTable_Get_def seek_key_def get_entry_def Iter_key_def Let_def split: option.splits)

lemma get_entry_encoded:
  assumes "length k + 8 < 2 ^ 32" "length v < 2 ^ 32" "q \<le> kMaxSequenceNumber"
  shows "get_entry cmp u value s (encode_entry q t k v) =
    (if cmp k u = 0 then (case t of kTypeValue \<Rightarrow> (True, v, s) | kTypeDeletion \<Rightarrow> (True, value, NotFound [] []))
     else (False, value, s))"
proof -
  let ?ik = "AppendInternalKey [] k q t" and ?n = "EncodeVarint32 (of_nat (length k + 8))"
  have ik: "?ik = k @ EncodeFixed64 (PackSequenceAndType q t)" by (simp add: AppendInternalKey_def PutFixed64_def)
  have n: "length ?n \<le> 5" unfolding EncodeVarint32_ref by (rule varint_bytes_length32)
  have d: "length (take 5 (prefixed ?ik @ prefixed v)) - length (take (5 - length ?n) (?ik @ prefixed v)) = length ?n"
    using n by (simp add: prefixed_def min_def)
  have u: "unat (of_nat (length k + 8) :: uint32) = length k + 8" "unat (of_nat (length k + 8) - 8 :: uint32) = length k"
    using assms(1) by (simp add: unat_of_nat del: of_nat_add) (use assms(1) in \<open>simp add: unat_of_nat\<close>)
  have dr: "drop (length ?n) (prefixed ?ik @ prefixed v) = ?ik @ prefixed v" by (simp add: prefixed_def)
  have g: "GetVarint32Ptr (take 5 (prefixed ?ik @ prefixed v)) = Some (of_nat (length k + 8), take (5 - length ?n) (?ik @ prefixed v))"
    using entry_slice_prefixed(1) [of ?ik "prefixed v"] assms(1) by (simp only: AppendInternalKey_parts(3) simp_thms)
  have "get_entry cmp u value s (encode_entry q t k v) =
      (if cmp (take (unat (of_nat (length k + 8) - 8 :: uint32)) (?ik @ prefixed v)) u = 0 then
         let tag = DecodeFixed64 (drop (length k) (?ik @ prefixed v)) in
         if tag AND 0xff = value_type kTypeValue then (True, entry_key (drop (length k + 8) (?ik @ prefixed v)), s)
         else if tag AND 0xff = value_type kTypeDeletion then (True, value, NotFound [] [])
         else (False, value, s)
       else (False, value, s))"
    by (simp only: get_entry_def encode_entry_eq g option.case prod.case Let_def d dr u(1) add_diff_cancel_right')
  moreover have "take (unat (of_nat (length k + 8) - 8 :: uint32)) (?ik @ prefixed v) = k"
    "drop (length k) (?ik @ prefixed v) = EncodeFixed64 (PackSequenceAndType q t) @ prefixed v"
    "drop (length k + 8) (?ik @ prefixed v) = prefixed v" by (simp_all only: u(2) ik) simp_all
  moreover have "entry_key (prefixed v) = v" using entry_slice_prefixed(3) [of v "[]"] assms(2) by simp
  ultimately show ?thesis using pack_parts(2) [OF assms(3), of t]
    by (cases t) (simp_all only: Let_def DecodeFixed64_put ValueType.case value_type.simps, simp_all)
qed

section \<open>The table as a list of writes\<close>

type_synonym mem_write = "uint64 \<times> ValueType \<times> slice \<times> slice"

fun encode_write :: "mem_write \<Rightarrow> byte list" where
  "encode_write (q, t, k, v) = encode_entry q t k v"

fun write_ok :: "(slice \<Rightarrow> bool) \<Rightarrow> mem_write \<Rightarrow> bool" where
  "write_ok valid (q, t, k, v) \<longleftrightarrow> valid k \<and> length k + 8 < 2 ^ 32 \<and> length v < 2 ^ 32 \<and> q \<le> kMaxSequenceNumber"

definition entry_valid :: "(slice \<Rightarrow> bool) \<Rightarrow> byte list \<Rightarrow> bool" where
  "entry_valid valid e \<longleftrightarrow> internal_valid valid (entry_key e)"

text \<open>
  \<open>holds\<close>: the table represents exactly the entries of the writes \<open>ws\<close>, whose sequence numbers grow.
\<close>

definition writes_fit :: "(slice \<Rightarrow> bool) \<Rightarrow> mem_write list \<Rightarrow> bool" where
  "writes_fit valid ws \<longleftrightarrow> (\<forall>w \<in> set ws. write_ok valid w) \<and> sorted_wrt (\<lambda>a b. fst a < fst b) ws"

definition holds :: "(slice \<Rightarrow> bool) \<Rightarrow> (slice \<Rightarrow> slice \<Rightarrow> int) \<Rightarrow> MemTable \<Rightarrow> mem_write list \<Rightarrow> bool" where
  "holds valid cmp m ws \<longleftrightarrow> writes_fit valid ws \<and>
     (\<exists>ks. represents (entry_valid valid) (KeyComparator cmp) (table m) ks \<and> set ks = encode_write ` set ws)"

text \<open>The writes of a key that a snapshot sees, oldest first, and the answer for the last of them.\<close>

definition visible :: "(slice \<Rightarrow> slice \<Rightarrow> int) \<Rightarrow> slice \<Rightarrow> uint64 \<Rightarrow> mem_write list \<Rightarrow> mem_write list" where
  "visible cmp u s ws = filter (\<lambda>(q, t, k, v). cmp k u = 0 \<and> q \<le> s) ws"

definition answer :: "mem_write list \<Rightarrow> byte list \<Rightarrow> status \<Rightarrow> bool \<times> byte list \<times> status" where
  "answer ws value st =
     (if ws = [] then (False, value, st)
      else case last ws of (_, kTypeValue, _, v) \<Rightarrow> (True, v, st) | (_, kTypeDeletion, _, _) \<Rightarrow> (True, value, NotFound [] []))"

lemma key_order_map: "key_order valid cmp \<Longrightarrow> key_order (\<lambda>a. valid (f a)) (\<lambda>a b. cmp (f a) (f b))"
  unfolding key_order_def by blast

lemma insert_key_set [simp]: "set (insert_key cmp k ks) = insert k (set ks)"
  by (induction ks) auto

lemma pack_le:
  assumes "q \<le> kMaxSequenceNumber" "s \<le> kMaxSequenceNumber"
  shows "PackSequenceAndType q t \<le> PackSequenceAndType s kTypeValue \<longleftrightarrow> q \<le> s"
    "PackSequenceAndType q t = PackSequenceAndType s t' \<longleftrightarrow> q = s \<and> t = t'"
    "q < s \<Longrightarrow> PackSequenceAndType q t < PackSequenceAndType s t'"
proof -
  note u = unat_pack [OF assms(1)] unat_pack [OF assms(2)]
  show "PackSequenceAndType q t \<le> PackSequenceAndType s kTypeValue \<longleftrightarrow> q \<le> s"
    by (cases t) (simp_all add: word_le_nat_alt u, presburger+)
  show "PackSequenceAndType q t = PackSequenceAndType s t' \<longleftrightarrow> q = s \<and> t = t'"
    by (cases t; cases t') (simp_all add: word_unat_eq_iff u, presburger+)
  show "q < s \<Longrightarrow> PackSequenceAndType q t < PackSequenceAndType s t'"
    by (cases t; cases t') (simp_all add: word_less_nat_alt u)
qed

lemma sorted_last:
  "sorted_wrt (\<lambda>a b. fst a < fst b) xs \<Longrightarrow> x \<in> set xs \<Longrightarrow> x = last xs \<or> fst x < (fst (last xs) :: 'a :: order)"
  by (induction xs) auto

locale user_order = key_order valid compare
  for valid :: "slice \<Rightarrow> bool" and compare :: "slice \<Rightarrow> slice \<Rightarrow> int"
begin

lemma entry_order: "key_order (entry_valid valid) (KeyComparator compare)"
  unfolding entry_valid_def KeyComparator_def by (rule key_order_map [OF internal_key_order_laws [OF key_order_axioms]])

lemma entry_store: "sorted_store (entry_valid valid) (KeyComparator compare) (represents (entry_valid valid) (KeyComparator compare))
    SkipList_new (Insert (KeyComparator compare)) (seek_key (KeyComparator compare))"
  by (rule key_order.skiplist_store [OF entry_order])

lemma entry_valid_encoded: "write_ok valid (q, t, k, v) \<Longrightarrow> entry_valid valid (encode_entry q t k v)"
  by (simp add: entry_valid_def internal_valid_def)

lemma holds_new: "holds valid compare MemTable_new []"
  using sorted_store.create [OF entry_store, of "[]"] by (auto simp: holds_def writes_fit_def MemTable_new_def)

lemma add_holds:
  assumes "holds valid compare m ws" "write_ok valid (q, t, k, v)" "\<forall>w \<in> set ws. fst w < q"
  shows "\<exists>m'. MemTable_Add compare q t k v m = Some m' \<and> holds valid compare m' (ws @ [(q, t, k, v)]) \<and> refs m' = refs m"
proof -
  obtain ks where ks: "represents (entry_valid valid) (KeyComparator compare) (table m) ks" "set ks = encode_write ` set ws"
    and ws: "writes_fit valid ws" using assms(1) by (auto simp: holds_def)
  have "KeyComparator compare x (encode_entry q t k v) \<noteq> 0" if x: "x \<in> set ks" for x
  proof -
    obtain q' t' k' v' where w: "(q', t', k', v') \<in> set ws" "x = encode_entry q' t' k' v'" using x ks(2) by auto
    then have "write_ok valid (q', t', k', v')" "q' < q" using ws assms(3) by (force simp: writes_fit_def)+
    then show ?thesis using assms(2) w(2) pack_le(2) [of q' q t' t] by (auto simp: KeyComparator_def internal_equal)
  qed
  then obtain l where l: "Insert (KeyComparator compare) (encode_entry q t k v) (table m) = Some l"
    "represents (entry_valid valid) (KeyComparator compare) l (insert_key (KeyComparator compare) (encode_entry q t k v) ks)"
    using sorted_store.add [OF entry_store ks(1) entry_valid_encoded [OF assms(2)]] by blast
  have "set (insert_key (KeyComparator compare) (encode_entry q t k v) ks) = encode_write ` set (ws @ [(q, t, k, v)])"
    using ks(2) by simp
  moreover have "writes_fit valid (ws @ [(q, t, k, v)])" using ws assms(2,3) by (auto simp: writes_fit_def sorted_wrt_append)
  ultimately have "holds valid compare (m\<lparr>table := l\<rparr>) (ws @ [(q, t, k, v)])" using l(2) unfolding holds_def by (metis MemTable.select_convs(1) MemTable.update_convs(1) MemTable.surjective)
  then show ?thesis using l(1) by (simp add: MemTable_Add_def)
qed

lemma entry_not_before:
  assumes "write_ok valid (q, t, k, v)" "write_ok valid (q', t', k', v')" "valid u" "compare k u = 0"
    "0 < compare k' u \<or> compare k' u = 0 \<and> ((q', t', k', v') = (q, t, k, v) \<or> q' < q)"
  shows "0 \<le> KeyComparator compare (encode_entry q' t' k' v') (encode_entry q t k v)"
proof -
  have vs: "valid k" "valid k'" using assms(1,2) by simp_all
  have u: "compare u k \<le> 0" using flip [OF vs(1) assms(3)] flip [OF assms(3) vs(1)] assms(4) by linarith
  have "\<not> InternalKey_Compare compare (AppendInternalKey [] k' q' t') (AppendInternalKey [] k q t) < 0"
    using assms(5)
  proof (elim disjE conjE)
    assume "0 < compare k' u"
    then have "compare k k' < 0" using less_trans2 [OF vs(1) assms(3) vs(2)] assms(4) flip [OF assms(3) vs(2)] by simp
    then show ?thesis using flip [OF vs] by (simp add: internal_less)
  next
    assume "compare k' u = 0" "(q', t', k', v') = (q, t, k, v)"
    then show ?thesis using refl [OF vs(1)] by (simp add: internal_less)
  next
    assume k: "compare k' u = 0" "q' < q"
    then have "compare u k' \<le> 0" using flip [OF vs(2) assms(3)] flip [OF assms(3) vs(2)] by linarith
    then have "compare k k' \<le> 0" using trans [OF vs(1) assms(3) vs(2)] assms(4) by simp
    then have "\<not> compare k' k < 0" using flip [OF vs(2,1)] by linarith
    then show ?thesis using pack_le(3) [of q' q t' t] k(2) assms(1,2) by (auto simp: internal_less)
  qed
  then show ?thesis using assms(1,2) by (simp add: KeyComparator_def)
qed

lemma compare_target:
  assumes "write_ok valid (q, t, k, v)" "length u + 8 < 2 ^ 32" "s \<le> kMaxSequenceNumber"
  shows "0 \<le> KeyComparator compare (encode_entry q t k v) (memtable_key (LookupKey_new u s)) \<longleftrightarrow>
    0 < compare k u \<or> compare k u = 0 \<and> q \<le> s"
  using assms pack_le(1) [of q s t] entry_slice_prefixed(3) [of "AppendInternalKey [] u s kTypeValue" "[]"]
    internal_less [of compare "AppendInternalKey [] k q t" "AppendInternalKey [] u s kTypeValue"]
  by (auto simp: KeyComparator_def lookup_key_parts not_less [symmetric])

lemma get_last:
  assumes h: "holds valid compare m ws" and u: "valid u" "length u + 8 < 2 ^ 32" and s: "s \<le> kMaxSequenceNumber"
  shows "MemTable_Get compare (LookupKey_new u s) value st m = Some (answer (visible compare u s ws) value st)"
proof -
  obtain ks where ks: "represents (entry_valid valid) (KeyComparator compare) (table m) ks" "set ks = encode_write ` set ws"
    and ws: "writes_fit valid ws" using h by (auto simp: holds_def)
  let ?t = "memtable_key (LookupKey_new u s)"
  have vt: "entry_valid valid ?t"
    using u entry_slice_prefixed(3) [of "AppendInternalKey [] u s kTypeValue" "[]"]
    by (simp add: lookup_key_parts entry_valid_def internal_valid_def)
  have ok: "write_ok valid w" if "w \<in> set ws" for w using ws that by (auto simp: writes_fit_def)
  show ?thesis
  proof (cases "visible compare u s ws = []")
    case True
    have "get_entry compare u value st e = (False, value, st)" if e: "e \<in> set ks" "0 \<le> KeyComparator compare e ?t" for e
    proof -
      obtain q t k v where w: "(q, t, k, v) \<in> set ws" "e = encode_entry q t k v" using e(1) ks(2) by auto
      then have "\<not> (compare k u = 0 \<and> q \<le> s)" using True by (force simp: visible_def filter_empty_conv)
      moreover have "0 < compare k u \<or> compare k u = 0 \<and> q \<le> s" using compare_target [OF ok [OF w(1)] u(2) s] e(2) w(2) by simp
      ultimately have "compare k u \<noteq> 0" by auto
      then show ?thesis using ok [OF w(1)] w(2) by (simp add: get_entry_encoded)
    qed
    then have "(case find (\<lambda>e. 0 \<le> KeyComparator compare e ?t) ks of None \<Rightarrow> (False, value, st)
        | Some e \<Rightarrow> get_entry compare u value st e) = (False, value, st)"
      by (auto split: option.split simp: find_Some_iff)
    then show ?thesis
      using sorted_store.seek [OF entry_store ks(1) vt] True unfolding Get_seek lookup_key_parts(2) [OF u(2)]
      by (simp add: answer_def)
  next
    case False
    obtain q t k v where l: "last (visible compare u s ws) = (q, t, k, v)" by (metis prod_cases4)
    then have "(q, t, k, v) \<in> set (visible compare u s ws)" using last_in_set [OF False] by simp
    then have w: "(q, t, k, v) \<in> set ws" "compare k u = 0" "q \<le> s" by (auto simp: visible_def)
    note o = ok [OF w(1)]
    have sv: "sorted_wrt (\<lambda>a b. fst a < fst b) (visible compare u s ws)"
      using ws by (simp add: writes_fit_def visible_def sorted_wrt_filter)
    have "0 \<le> KeyComparator compare y (encode_entry q t k v)" if y: "y \<in> set ks" "0 \<le> KeyComparator compare y ?t" for y
    proof -
      obtain q' t' k' v' where w': "(q', t', k', v') \<in> set ws" "y = encode_entry q' t' k' v'" using y(1) ks(2) by auto
      have "0 < compare k' u \<or> compare k' u = 0 \<and> q' \<le> s" using compare_target [OF ok [OF w'(1)] u(2) s] y(2) w'(2) by simp
      moreover have "(q', t', k', v') \<in> set (visible compare u s ws)" if "compare k' u = 0" "q' \<le> s"
        using w'(1) that by (simp add: visible_def)
      ultimately have "0 < compare k' u \<or> compare k' u = 0 \<and> ((q', t', k', v') = (q, t, k, v) \<or> q' < q)"
        using sorted_last [OF sv, of "(q', t', k', v')"] unfolding l by auto
      then show ?thesis using entry_not_before [OF o ok [OF w'(1)] u(1) w(2)] w'(2) by simp
    qed
    then have "seek_key (KeyComparator compare) (table m) ?t = Some (Some (encode_entry q t k v))"
      using sorted_store.seek_least [OF entry_store ks(1) vt, of "encode_entry q t k v"] compare_target [OF o u(2) s]
        w(2,3) ks(2) imageI [OF w(1), of encode_write] by simp
    then show ?thesis using o w(2) False u(2) l
      by (simp add: Get_seek lookup_key_parts answer_def get_entry_encoded split: ValueType.split)
  qed
qed

end

interpretation bytewise_table: user_order "\<lambda>_. True" slice_compare ..

section \<open>Properties\<close>

text \<open>
  The writes applied one after the other. None: some search of the skip list does not return.
\<close>

fun add_writes :: "(slice \<Rightarrow> slice \<Rightarrow> int) \<Rightarrow> mem_write list \<Rightarrow> MemTable \<Rightarrow> MemTable option" where
  "add_writes cmp [] m = Some m"
| "add_writes cmp ((q, t, k, v) # ws) m = do { m \<leftarrow> MemTable_Add cmp q t k v m; add_writes cmp ws m }"

context user_order
begin

lemma add_writes_holds:
  assumes "holds valid compare m ws" "writes_fit valid (ws @ ws')"
  shows "\<exists>m'. add_writes compare ws' m = Some m' \<and> holds valid compare m' (ws @ ws')"
  using assms
proof (induction ws' arbitrary: m ws)
  case (Cons w ws')
  obtain q t k v where w: "w = (q, t, k, v)" by (metis prod_cases4)
  have "write_ok valid (q, t, k, v)" "\<forall>x \<in> set ws. fst x < q" using Cons.prems(2) w by (auto simp: writes_fit_def sorted_wrt_append)
  then obtain m' where "MemTable_Add compare q t k v m = Some m'" "holds valid compare m' (ws @ [w])"
    using add_holds [OF Cons.prems(1)] w by blast
  then show ?case using Cons.IH [of m' "ws @ [w]"] Cons.prems(2) w by simp
qed simp

end

text \<open>
  C34: The in-memory table is a multi-version map. For every user comparator that keeps its contract, adding writes with growing
  sequence numbers to a new table returns, and then \<^verbatim>\<open>MemTable::Get\<close> at any snapshot returns and gives the value of the
  last write of the key at or before the snapshot, or that it was deleted, or that the table has no such write.
\<close>

theorem memtable_get:
  assumes "key_order valid cmp" "\<forall>w \<in> set ws. write_ok valid w" "sorted_wrt (\<lambda>a b. fst a < fst b) ws"
    "valid u" "length u + 8 < 2 ^ 32" "s \<le> kMaxSequenceNumber"
  shows "\<exists>m. add_writes cmp ws MemTable_new = Some m \<and>
    MemTable_Get cmp (LookupKey_new u s) value st m = Some (answer (visible cmp u s ws) value st)"
proof -
  have uo: "user_order valid cmp" using assms(1) by (rule user_order.intro)
  from user_order.add_writes_holds [OF uo user_order.holds_new [OF uo], of ws] assms(2,3)
  obtain m where "add_writes cmp ws MemTable_new = Some m" "holds valid cmp m ws" by (auto simp: writes_fit_def)
  then show ?thesis using user_order.get_last [OF uo _ assms(4-6)] by blast
qed

theorem memtable_get_witness:
  "\<exists>m. add_writes slice_compare [(1, kTypeValue, [7], [10]), (2, kTypeValue, [8], [11]), (3, kTypeDeletion, [7], [])] MemTable_new = Some m \<and>
    MemTable_Get slice_compare (LookupKey_new [7] 2) [] OK m = Some (True, [10], OK) \<and>
    MemTable_Get slice_compare (LookupKey_new [7] 3) [] OK m = Some (True, [], NotFound [] [])"
proof -
  let ?ws = "[(1, kTypeValue, [7], [10]), (2, kTypeValue, [8], [11]), (3, kTypeDeletion, [7], [])] :: mem_write list"
  have m: "(2 :: uint64) \<le> kMaxSequenceNumber" "(3 :: uint64) \<le> kMaxSequenceNumber" "(1 :: uint64) \<le> kMaxSequenceNumber"
    by (simp_all add: kMaxSequenceNumber_def)
  have c: "slice_compare [7] [7] = 0" "slice_compare [8] [7] \<noteq> 0" by code_simp+
  show ?thesis
    using memtable_get [OF bytewise.key_order_axioms, of ?ws "[7]" 2 "[]" OK] memtable_get [OF bytewise.key_order_axioms, of ?ws "[7]" 3 "[]" OK] m
    by (auto simp: visible_def answer_def c)
qed

end
