(* ===== verification/Ldb_Batch.thy ===== *)
theory Ldb_Batch
  imports Ldb_Memtable_Thms
begin

text \<open>
  \<^verbatim>\<open>leveldb-library/db/write_batch.cc\<close> and \<^verbatim>\<open>write_batch_internal.h\<close>: batches of updates in their binary form, their
  replay through a handler, and the handler that adds them to the in-memory table. A batch is its string \<^verbatim>\<open>rep_\<close>.
\<close>

section \<open>Definitions\<close>

type_synonym WriteBatch = "byte list"

definition kHeader :: nat where
  "kHeader = 12"

definition Batch_Clear :: WriteBatch where
  "Batch_Clear = replicate kHeader 0"

definition Batch_ApproximateSize :: "WriteBatch \<Rightarrow> nat" where
  "Batch_ApproximateSize b = length b"

definition Batch_Count :: "WriteBatch \<Rightarrow> int" where
  "Batch_Count b = sint (DecodeFixed32 (drop 8 b))"

definition SetCount :: "WriteBatch \<Rightarrow> int \<Rightarrow> WriteBatch" where
  "SetCount b n = take 8 b @ EncodeFixed32 (of_int n) @ drop 12 b"

definition Batch_Sequence :: "WriteBatch \<Rightarrow> uint64" where
  "Batch_Sequence b = DecodeFixed64 b"

definition SetSequence :: "WriteBatch \<Rightarrow> uint64 \<Rightarrow> WriteBatch" where
  "SetSequence b seq = EncodeFixed64 seq @ drop 8 b"

definition SetContents :: "WriteBatch \<Rightarrow> slice \<Rightarrow> WriteBatch" where
  "SetContents b contents = contents"

definition Batch_Put :: "WriteBatch \<Rightarrow> slice \<Rightarrow> slice \<Rightarrow> WriteBatch" where
  "Batch_Put b key value =
     (let b = SetCount b (Batch_Count b + 1);
          b = b @ [ucast (value_type kTypeValue)];
          b = PutLengthPrefixedSlice b key
      in PutLengthPrefixedSlice b value)"

definition Batch_Delete :: "WriteBatch \<Rightarrow> slice \<Rightarrow> WriteBatch" where
  "Batch_Delete b key =
     (let b = SetCount b (Batch_Count b + 1);
          b = b @ [ucast (value_type kTypeDeletion)]
      in PutLengthPrefixedSlice b key)"

definition Batch_Append :: "WriteBatch \<Rightarrow> WriteBatch \<Rightarrow> WriteBatch" where
  "Batch_Append dst src = SetCount dst (Batch_Count dst + Batch_Count src) @ drop kHeader src"

text \<open>
  The virtual functions of a handler, on its state; none when they do not return.
\<close>

record 'h Handler =
  on_put :: "slice \<Rightarrow> slice \<Rightarrow> 'h \<Rightarrow> 'h option"
  on_delete :: "slice \<Rightarrow> 'h \<Rightarrow> 'h option"

text \<open>
  The loop of \<^verbatim>\<open>Iterate\<close>: an error, or the number of records. They are counted with an \<^verbatim>\<open>int\<close> of 32 bits; there is no result when
  \<^verbatim>\<open>found++\<close> would overflow.
\<close>

function iterate_loop :: "'h Handler \<Rightarrow> slice \<Rightarrow> int \<Rightarrow> 'h \<Rightarrow> ((status + int) \<times> 'h) option" where
  "iterate_loop H input found h =
     (case input of
        [] \<Rightarrow> Some (Inr found, h)
      | tag # input \<Rightarrow>
          if found = 2 ^ 31 - 1 then None
          else if tag = ucast (value_type kTypeValue) then
            (case GetLengthPrefixedSlice input of
               (None, _) \<Rightarrow> Some (Inl (Corruption (c_str ''bad WriteBatch Put'') []), h)
             | (Some key, input) \<Rightarrow>
                 (case GetLengthPrefixedSlice input of
                    (None, _) \<Rightarrow> Some (Inl (Corruption (c_str ''bad WriteBatch Put'') []), h)
                  | (Some value, input) \<Rightarrow>
                      (case on_put H key value h of
                         None \<Rightarrow> None
                       | Some h \<Rightarrow> iterate_loop H input (found + 1) h)))
          else if tag = ucast (value_type kTypeDeletion) then
            (case GetLengthPrefixedSlice input of
               (None, _) \<Rightarrow> Some (Inl (Corruption (c_str ''bad WriteBatch Delete'') []), h)
             | (Some key, input) \<Rightarrow>
                 (case on_delete H key h of
                    None \<Rightarrow> None
                  | Some h \<Rightarrow> iterate_loop H input (found + 1) h))
          else Some (Inl (Corruption (c_str ''unknown WriteBatch tag'') []), h))"
  by pat_completeness auto
termination
  by (relation "measure (\<lambda>(_, input, _, _). length input)") (auto dest!: slice_rest_shorter intro: order.strict_trans1)

declare iterate_loop.simps [simp del]

definition Iterate :: "'h Handler \<Rightarrow> WriteBatch \<Rightarrow> 'h \<Rightarrow> (status \<times> 'h) option" where
  "Iterate H b h =
     (if length b < kHeader then Some (Corruption (c_str ''malformed WriteBatch (too small)'') [], h)
      else case iterate_loop H (remove_prefix kHeader b) 0 h of
             None \<Rightarrow> None
           | Some (Inl s, h) \<Rightarrow> Some (s, h)
           | Some (Inr found, h) \<Rightarrow>
               Some (if found \<noteq> Batch_Count b then Corruption (c_str ''WriteBatch has wrong count'') [] else OK, h))"

text \<open>\<^verbatim>\<open>MemTableInserter\<close>: the next sequence number and the table.\<close>

definition MemTableInserter :: "(slice \<Rightarrow> slice \<Rightarrow> int) \<Rightarrow> (uint64 \<times> MemTable) Handler" where
  "MemTableInserter cmp =
     \<lparr>on_put = (\<lambda>key value (sequence, mem). do {
        mem \<leftarrow> MemTable_Add cmp sequence kTypeValue key value mem; Some (sequence + 1, mem) }),
      on_delete = (\<lambda>key (sequence, mem). do {
        mem \<leftarrow> MemTable_Add cmp sequence kTypeDeletion key [] mem; Some (sequence + 1, mem) })\<rparr>"

definition InsertInto :: "(slice \<Rightarrow> slice \<Rightarrow> int) \<Rightarrow> WriteBatch \<Rightarrow> MemTable \<Rightarrow> (status \<times> MemTable) option" where
  "InsertInto cmp b memtable = do {
     (s, _, mem) \<leftarrow> Iterate (MemTableInserter cmp) b (Batch_Sequence b, memtable);
     Some (s, mem) }"

section \<open>Batches as lists of updates\<close>

datatype batch_update = Put_update slice slice | Delete_update slice

fun update_bytes :: "batch_update \<Rightarrow> byte list" where
  "update_bytes (Put_update k v) = 1 # prefixed k @ prefixed v"
| "update_bytes (Delete_update k) = 0 # prefixed k"

fun update_fits :: "batch_update \<Rightarrow> bool" where
  "update_fits (Put_update k v) \<longleftrightarrow> length k < 2 ^ 32 \<and> length v < 2 ^ 32"
| "update_fits (Delete_update k) \<longleftrightarrow> length k < 2 ^ 32"

definition batch_of :: "uint64 \<Rightarrow> batch_update list \<Rightarrow> WriteBatch" where
  "batch_of seq us = EncodeFixed64 seq @ EncodeFixed32 (of_nat (length us)) @ concat (map update_bytes us)"

lemma batch_parts [simp]:
  "Batch_Sequence (batch_of seq us) = seq" "SetSequence (batch_of seq us) seq' = batch_of seq' us"
  "Batch_Count (batch_of seq us) = sint (of_nat (length us) :: uint32)"
  "drop kHeader (batch_of seq us) = concat (map update_bytes us)" "\<not> length (batch_of seq us) < kHeader"
  by (simp_all add: batch_of_def Batch_Sequence_def SetSequence_def Batch_Count_def kHeader_def)

lemma set_count_batch: "SetCount (batch_of seq us) n = EncodeFixed64 seq @ EncodeFixed32 (of_int n) @ concat (map update_bytes us)"
  by (simp add: SetCount_def batch_of_def)

lemma of_int_count: "of_int (sint (of_nat n :: uint32) + 1) = (of_nat (Suc n) :: uint32)"
  "of_int (sint (of_nat n :: uint32) + sint (of_nat m :: uint32)) = (of_nat (n + m) :: uint32)"
  by (simp_all add: add.commute)

lemma batch_ops:
  "Batch_Clear = batch_of 0 []"
  "Batch_Put (batch_of seq us) k v = batch_of seq (us @ [Put_update k v])"
  "Batch_Delete (batch_of seq us) k = batch_of seq (us @ [Delete_update k])"
  "Batch_Append (batch_of seq us) (batch_of seq' us') = batch_of seq (us @ us')"
proof -
  show "Batch_Clear = batch_of 0 []" by (simp add: Batch_Clear_def kHeader_def batch_of_def) code_simp
  show "Batch_Put (batch_of seq us) k v = batch_of seq (us @ [Put_update k v])"
    unfolding Batch_Put_def Let_def set_count_batch batch_parts of_int_count
    by (simp add: batch_of_def PutLengthPrefixedSlice_eq)
  show "Batch_Delete (batch_of seq us) k = batch_of seq (us @ [Delete_update k])"
    unfolding Batch_Delete_def Let_def set_count_batch batch_parts of_int_count
    by (simp add: batch_of_def PutLengthPrefixedSlice_eq)
  show "Batch_Append (batch_of seq us) (batch_of seq' us') = batch_of seq (us @ us')"
    unfolding Batch_Append_def set_count_batch batch_parts of_int_count by (simp add: batch_of_def)
qed

section \<open>Replay\<close>

fun replay :: "'h Handler \<Rightarrow> batch_update list \<Rightarrow> 'h \<Rightarrow> 'h option" where
  "replay H [] h = Some h"
| "replay H (Put_update k v # us) h = do { h \<leftarrow> on_put H k v h; replay H us h }"
| "replay H (Delete_update k # us) h = do { h \<leftarrow> on_delete H k h; replay H us h }"

lemma iterate_loop_replay:
  "\<forall>u \<in> set us. update_fits u \<Longrightarrow> found + int (length us) < 2 ^ 31 \<Longrightarrow>
     iterate_loop H (concat (map update_bytes us)) found h = map_option (\<lambda>h. (Inr (found + int (length us)), h)) (replay H us h)"
proof (induction H us h arbitrary: found rule: replay.induct)
  case (1 H h)
  then show ?case by (simp add: iterate_loop.simps)
next
  case (2 H k v us h)
  then show ?case by (subst iterate_loop.simps) (auto simp: algebra_simps split: option.split bind_split)
next
  case (3 H k us h)
  then show ?case by (subst iterate_loop.simps) (auto simp: algebra_simps split: option.split bind_split)
qed

lemma iterate_batch:
  assumes "\<forall>u \<in> set us. update_fits u" "length us < 2 ^ 31"
  shows "Iterate H (batch_of seq us) h = map_option (\<lambda>h. (OK, h)) (replay H us h)"
proof -
  have "sint (of_nat (length us) :: uint32) = int (length us)"
    using assms(2) by (simp add: signed_of_nat signed_take_bit_int_eq_self)
  then show ?thesis
    using iterate_loop_replay [OF assms(1), of 0 H h] assms(2)
    by (simp add: Iterate_def remove_prefix_def split: option.split)
qed

text \<open>A batch that is accepted has called its handler once for each of its updates.\<close>

lemma iterate_loop_cases:
  assumes "iterate_loop H input found h = Some (r, h')"
  obtains "h' = h" "r = Inr found \<or> (\<exists>st. r = Inl st \<and> \<not> ok st)"
    | u h1 rest where "replay H [u] h = Some h1" "iterate_loop H rest (found + 1) h1 = Some (r, h')" "length rest < length input"
proof (cases input)
  case Nil
  then show ?thesis using assms that(1) by (subst (asm) iterate_loop.simps) auto
next
  case (Cons tag input')
  obtain k rest where k: "GetLengthPrefixedSlice input' = (k, rest)" by fastforce
  obtain v rest' where v: "GetLengthPrefixedSlice rest = (v, rest')" by fastforce
  consider (put) key val h1 where "k = Some key" "v = Some val" "on_put H key val h = Some h1" "iterate_loop H rest' (found + 1) h1 = Some (r, h')"
    | (del) key h1 where "k = Some key" "on_delete H key h = Some h1" "iterate_loop H rest (found + 1) h1 = Some (r, h')"
    | "h' = h" "r = Inr found \<or> (\<exists>st. r = Inl st \<and> \<not> ok st)"
    using assms unfolding Cons
    by (subst (asm) iterate_loop.simps) (auto simp: k v split: if_splits option.splits)
  then show ?thesis
  proof cases
    case put
    then have "length rest \<le> length input'" "length rest' \<le> length rest" using k v slice_rest_shorter by metis+
    then show ?thesis using that(2) [of "Put_update key val" h1 rest'] put Cons by simp
  next
    case del
    then have "length rest \<le> length input'" using k slice_rest_shorter by metis
    then show ?thesis using that(2) [of "Delete_update key" h1 rest] del Cons by simp
  qed (use that(1) in auto)
qed

lemma iterate_loop_found:
  "iterate_loop H input found h = Some (r, h') \<Longrightarrow>
     \<exists>us. replay H us h = Some h' \<and> (\<forall>n. r = Inr n \<longrightarrow> n = found + int (length us)) \<and> (\<forall>st. r = Inl st \<longrightarrow> \<not> ok st)"
proof (induction "length input" arbitrary: input found h rule: less_induct)
  case less
  from less(2) show ?case
  proof (cases rule: iterate_loop_cases)
    case 1
    then show ?thesis by (intro exI [of _ "[]"]) auto
  next
    case (2 u h1 rest)
    from less(1) [OF 2(3,2)] obtain us where "replay H us h1 = Some h'" "\<forall>n. r = Inr n \<longrightarrow> n = found + 1 + int (length us)"
      "\<forall>st. r = Inl st \<longrightarrow> \<not> ok st" by blast
    then show ?thesis using 2(1) by (cases u) (force split: bind_splits intro!: exI [of _ "u # us"])+
  qed
qed

lemma iterate_loop_total:
  assumes "\<forall>k v h. on_put H k v h \<noteq> None" "\<forall>k h. on_delete H k h \<noteq> None"
  shows "found + int (length input) < 2 ^ 31 \<Longrightarrow> iterate_loop H input found h \<noteq> None"
proof (induction "length input" arbitrary: input found h rule: less_induct)
  case less
  define p d where "p = (\<lambda>k v h. the (on_put H k v h))" and "d = (\<lambda>k h. the (on_delete H k h))"
  then have pd: "\<And>k v h. on_put H k v h = Some (p k v h)" "\<And>k h. on_delete H k h = Some (d k h)" using assms by simp_all
  show ?case
  proof (cases input)
    case Nil
    then show ?thesis by (simp add: iterate_loop.simps)
  next
    case (Cons tag input')
    obtain k rest where k: "GetLengthPrefixedSlice input' = (k, rest)" by fastforce
    obtain v rest' where v: "GetLengthPrefixedSlice rest = (v, rest')" by fastforce
    have "k \<noteq> None \<Longrightarrow> length rest \<le> length input'" "v \<noteq> None \<Longrightarrow> length rest' \<le> length rest"
      using k v slice_rest_shorter by (metis option.exhaust)+
    then have "k \<noteq> None \<Longrightarrow> iterate_loop H rest (found + 1) h \<noteq> None"
      "k \<noteq> None \<Longrightarrow> v \<noteq> None \<Longrightarrow> iterate_loop H rest' (found + 1) h \<noteq> None" for h
      using less Cons by (simp_all add: le_imp_less_Suc)
    then show ?thesis using less(2) unfolding Cons by (subst iterate_loop.simps) (cases k; cases v; simp add: k v pd)
  qed
qed

fun apply_update :: "WriteBatch \<Rightarrow> batch_update \<Rightarrow> WriteBatch" where
  "apply_update b (Put_update k v) = Batch_Put b k v"
| "apply_update b (Delete_update k) = Batch_Delete b k"

lemma build_batch: "foldl apply_update (batch_of seq us) us' = batch_of seq (us @ us')"
proof (induction us' arbitrary: us)
  case (Cons u us')
  then show ?case by (cases u) (simp_all add: batch_ops)
qed simp

section \<open>Batches and the in-memory table\<close>

fun number :: "uint64 \<Rightarrow> batch_update list \<Rightarrow> mem_write list" where
  "number q [] = []"
| "number q (Put_update k v # us) = (q, kTypeValue, k, v) # number (q + 1) us"
| "number q (Delete_update k # us) = (q, kTypeDeletion, k, []) # number (q + 1) us"

lemma replay_inserter:
  "replay (MemTableInserter cmp) us (q, m) = map_option (\<lambda>m. (q + of_nat (length us), m)) (add_writes cmp (number q us) m)"
  by (induction q us arbitrary: m rule: number.induct)
    (auto simp: MemTableInserter_def option.map_comp comp_def algebra_simps split: bind_split)

lemma fits_number: "\<forall>w \<in> set (number q us). write_ok valid w \<Longrightarrow> \<forall>u \<in> set us. update_fits u"
  by (induction q us rule: number.induct) auto

lemma insert_into_batch:
  assumes "\<forall>w \<in> set (number q us). write_ok valid w" "length us < 2 ^ 31"
  shows "InsertInto cmp (batch_of q us) m = map_option (\<lambda>m. (OK, m)) (add_writes cmp (number q us) m)"
  using iterate_batch [OF fits_number [OF assms(1)] assms(2), of "MemTableInserter cmp" q "(q, m)"]
  by (auto simp: InsertInto_def replay_inserter option.map_comp comp_def split: bind_split)

text \<open>Batches inserted one after the other; none also when a batch is not accepted.\<close>

fun insert_all :: "(slice \<Rightarrow> slice \<Rightarrow> int) \<Rightarrow> WriteBatch list \<Rightarrow> MemTable \<Rightarrow> MemTable option" where
  "insert_all cmp [] m = Some m"
| "insert_all cmp (b # bs) m = do { (s, m) \<leftarrow> InsertInto cmp b m; if ok s then insert_all cmp bs m else None }"

definition batch_writes :: "(uint64 \<times> batch_update list) list \<Rightarrow> mem_write list" where
  "batch_writes bs = concat (map (\<lambda>(q, us). number q us) bs)"

lemma add_writes_append: "add_writes cmp (ws @ ws') m = Option.bind (add_writes cmp ws m) (add_writes cmp ws')"
proof (induction ws arbitrary: m)
  case (Cons w ws)
  then show ?case by (cases w) (auto split: bind_split)
qed simp

lemma insert_all_batches:
  assumes "\<forall>w \<in> set (batch_writes bs). write_ok valid w" "\<forall>(q, us) \<in> set bs. length us < 2 ^ 31"
  shows "insert_all cmp (map (\<lambda>(q, us). batch_of q us) bs) m = add_writes cmp (batch_writes bs) m"
  using assms
proof (induction bs arbitrary: m)
  case (Cons b bs)
  obtain q us where b: "b = (q, us)" by fastforce
  have "\<forall>w \<in> set (number q us). write_ok valid w" "length us < 2 ^ 31"
    and IH: "\<And>m. insert_all cmp (map (\<lambda>(q, us). batch_of q us) bs) m = add_writes cmp (batch_writes bs) m"
    using Cons b by (auto simp: batch_writes_def)
  then show ?case
    by (auto simp: b insert_into_batch [of q us valid] batch_writes_def [of "(q, us) # bs"] batch_writes_def [of bs, symmetric]
        add_writes_append IH ok_def OK_def split: bind_split)
qed (simp add: batch_writes_def)

text \<open>The contents of a batch as it is handed to the log.\<close>

fun batch_record :: "uint64 \<times> batch_update list \<Rightarrow> slice" where
  "batch_record (q, us) = SetSequence (foldl apply_update Batch_Clear us) q"

text \<open>Batches and the in-memory table compose to a multi-version map.\<close>

lemma batches_answer:
  assumes "key_order valid cmp" "\<forall>w \<in> set (batch_writes bs). write_ok valid w"
    "sorted_wrt (\<lambda>a b. fst a < fst b) (batch_writes bs)" "\<forall>(q, us) \<in> set bs. length us < 2 ^ 31"
    "valid u" "length u + 8 < 2 ^ 32" "s \<le> kMaxSequenceNumber"
  shows "\<exists>m. insert_all cmp (map batch_record bs) MemTable_new = Some m \<and>
    MemTable_Get cmp (LookupKey_new u s) value st m = Some (answer (visible cmp u s (batch_writes bs)) value st)"
proof -
  have uo: "user_order valid cmp" using assms(1) by (rule user_order.intro)
  have b: "batch_record = (\<lambda>(q, us). batch_of q us)"
    by (auto simp: fun_eq_iff batch_ops(1) build_batch)
  from user_order.add_writes_holds [OF uo user_order.holds_new [OF uo], of "batch_writes bs"] assms(2,3)
  obtain m where "add_writes cmp (batch_writes bs) MemTable_new = Some m" "holds valid cmp m (batch_writes bs)"
    by (auto simp: writes_fit_def)
  then show ?thesis using user_order.get_last [OF uo _ assms(5-7)] insert_all_batches [OF assms(2,4)] by (simp add: b)
qed

section \<open>Properties\<close>

text \<open>
  C35: Updates collected in a \<^verbatim>\<open>WriteBatch\<close> with \<^verbatim>\<open>Put\<close> and \<^verbatim>\<open>Delete\<close> are what \<^verbatim>\<open>Iterate\<close> hands to any handler, all of them
  and in order, with the status OK; and \<^verbatim>\<open>Append\<close> gives the batch with the updates of both.
\<close>

theorem write_batch_roundtrip:
  assumes "\<forall>u \<in> set us. update_fits u" "length us < 2 ^ 31"
  shows "Iterate H (foldl apply_update Batch_Clear us) h = map_option (\<lambda>h. (OK, h)) (replay H us h) \<and>
    Batch_Append (foldl apply_update Batch_Clear us) (foldl apply_update Batch_Clear us') = foldl apply_update Batch_Clear (us @ us')"
  using iterate_batch [OF assms] by (simp add: batch_ops(1,4) build_batch)

theorem write_batch_roundtrip_witness:
  "Iterate \<lparr>on_put = \<lambda>k v h. Some (h @ [(k, v)]), on_delete = \<lambda>k h. Some (h @ [(k, [])])\<rparr>
     (Batch_Delete (Batch_Put Batch_Clear [1] [2, 3]) [4]) [] = Some (OK, [([1], [2, 3]), ([4], [])])"
  using write_batch_roundtrip [of "[Put_update [1] [2, 3], Delete_update [4]]"
      "\<lparr>on_put = \<lambda>k v h. Some (h @ [(k, v)]), on_delete = \<lambda>k h. Some (h @ [(k, [])])\<rparr>" "[]"] by simp

text \<open>
  C36: Whatever bytes a batch of less than 2 GiB has (one read back from a damaged log, say), \<^verbatim>\<open>Iterate\<close> with a handler that returns
  does return, the count of records does not overflow, it has handed a sequence of updates to the handler, and reports OK only when the batch has a header whose count is their
  number; a batch shorter than its header is rejected with no update.
\<close>

theorem write_batch_checked:
  assumes "\<forall>k v h. on_put H k v h \<noteq> None" "\<forall>k h. on_delete H k h \<noteq> None" "length b < 2 ^ 31"
  shows "\<exists>st h' us. Iterate H b h = Some (st, h') \<and> replay H us h = Some h' \<and>
    (ok st \<longrightarrow> kHeader \<le> length b \<and> Batch_Count b = int (length us)) \<and> (length b < kHeader \<longrightarrow> us = [] \<and> IsCorruption st)"
proof (cases "length b < kHeader")
  case True
  then show ?thesis
    by (intro exI [of _ "Corruption (c_str ''malformed WriteBatch (too small)'') []"] exI [of _ h] exI [of _ "[]"])
      (simp add: Iterate_def IsCorruption_def Corruption_def [of _ "[]"] status_code_new)
next
  case False
  obtain r h' where l: "iterate_loop H (remove_prefix kHeader b) 0 h = Some (r, h')"
    using iterate_loop_total [OF assms(1,2), of 0 "remove_prefix kHeader b" h] assms(3) by (fastforce simp: remove_prefix_def)
  then obtain st where "Iterate H b h = Some (st, h')" "r = Inl st \<or> (\<exists>n. r = Inr n \<and> (ok st \<longrightarrow> n = Batch_Count b))"
    using False by (cases r) (auto simp: Iterate_def)
  then show ?thesis using iterate_loop_found [OF l] False by fastforce
qed

theorem write_batch_checked_witness:
  "\<exists>st h. Iterate \<lparr>on_put = \<lambda>k v h. Some (Suc h), on_delete = \<lambda>k h. Some (Suc h)\<rparr> [1, 2, 3] 0 = Some (st, h) \<and> IsCorruption st"
  using write_batch_checked [of "\<lparr>on_put = \<lambda>k v h. Some (Suc h), on_delete = \<lambda>k h. Some (Suc h)\<rparr>" "[1, 2, 3]" 0]
  by (force simp: kHeader_def)

end
