(* ===== verification/Ldb_Iterator.thy ===== *)
theory Ldb_Iterator
  imports Ldb_Comparator
begin

text \<open>
  The contract of \<^verbatim>\<open>include/leveldb/iterator.h\<close> as a locale: an iterator over entries in the order of their keys. The
  iterators of blocks and of the in-memory table keep it. The state of an iterator is related to a number, the
  index of the entry it stands on, or the number of entries when it is not valid.
\<close>

type_synonym kv = "slice \<times> slice"

text \<open>The place of a target, counted in entries.\<close>

definition first_ge :: "(slice \<Rightarrow> slice \<Rightarrow> int) \<Rightarrow> slice \<Rightarrow> kv list \<Rightarrow> nat" where
  "first_ge cmp target kvs = length (takeWhile (\<lambda>kv. cmp (fst kv) target < 0) kvs)"

lemma first_ge_eqI:
  assumes "i \<le> length kvs" "\<forall>j < i. cmp (fst (kvs ! j)) target < 0" "i < length kvs \<Longrightarrow> \<not> cmp (fst (kvs ! i)) target < 0"
  shows "first_ge cmp target kvs = i"
proof -
  have "takeWhile (\<lambda>kv. cmp (fst kv) target < 0) kvs = take i kvs" using assms(2,3) by (intro takeWhile_eq_take_P_nth) auto
  then show ?thesis using assms(1) by (simp add: first_ge_def)
qed

text \<open>The entries that the loop \<^verbatim>\<open>for (; iter->Valid(); iter->Next())\<close> passes in \<open>n\<close> rounds.\<close>

fun scan :: "('it \<Rightarrow> bool) \<Rightarrow> ('it \<Rightarrow> kv) \<Rightarrow> ('it \<Rightarrow> 'it option) \<Rightarrow> nat \<Rightarrow> 'it \<Rightarrow> kv list option" where
  "scan is_valid entry nxt 0 it = (if is_valid it then None else Some [])"
| "scan is_valid entry nxt (Suc n) it =
     (if is_valid it then
        (case nxt it of None \<Rightarrow> None | Some it' \<Rightarrow> map_option (\<lambda>kvs. entry it # kvs) (scan is_valid entry nxt n it'))
      else Some [])"

locale entry_iterator = key_order valid compare
  for valid :: "slice \<Rightarrow> bool" and compare :: "slice \<Rightarrow> slice \<Rightarrow> int" +
  fixes rep :: "'s \<Rightarrow> kv list \<Rightarrow> bool"
    and pos :: "'s \<Rightarrow> 'it \<Rightarrow> nat \<Rightarrow> bool"
    and is_valid :: "'s \<Rightarrow> 'it \<Rightarrow> bool"
    and entry :: "'s \<Rightarrow> 'it \<Rightarrow> kv"
    and seek :: "'s \<Rightarrow> slice \<Rightarrow> 'it \<Rightarrow> 'it option"
    and to_first :: "'s \<Rightarrow> 'it \<Rightarrow> 'it option"
    and to_last :: "'s \<Rightarrow> 'it \<Rightarrow> 'it option"
    and nxt :: "'s \<Rightarrow> 'it \<Rightarrow> 'it option"
    and prv :: "'s \<Rightarrow> 'it \<Rightarrow> 'it option"
  assumes contents: "rep s kvs \<Longrightarrow> sorted_wrt (\<lambda>a b. compare (fst a) (fst b) < 0) kvs \<and> (\<forall>kv \<in> set kvs. valid (fst kv))"
    and entry: "rep s kvs \<Longrightarrow> pos s it i \<Longrightarrow>
      i \<le> length kvs \<and> (is_valid s it \<longleftrightarrow> i < length kvs) \<and> (i < length kvs \<longrightarrow> entry s it = kvs ! i)"
    and seek: "rep s kvs \<Longrightarrow> pos s it i \<Longrightarrow> valid t \<Longrightarrow> \<exists>it'. seek s t it = Some it' \<and> pos s it' (first_ge compare t kvs)"
    and to_first: "rep s kvs \<Longrightarrow> pos s it i \<Longrightarrow> \<exists>it'. to_first s it = Some it' \<and> pos s it' 0"
    and to_last: "rep s kvs \<Longrightarrow> pos s it i \<Longrightarrow> \<exists>it'. to_last s it = Some it' \<and> pos s it' (length kvs - 1)"
    and nxt: "rep s kvs \<Longrightarrow> pos s it i \<Longrightarrow> i < length kvs \<Longrightarrow> \<exists>it'. nxt s it = Some it' \<and> pos s it' (Suc i)"
    and prv: "rep s kvs \<Longrightarrow> pos s it i \<Longrightarrow> i < length kvs \<Longrightarrow>
      \<exists>it'. prv s it = Some it' \<and> pos s it' (if i = 0 then length kvs else i - 1)"
begin

lemma scan_rest: "rep s kvs \<Longrightarrow> pos s it i \<Longrightarrow> scan (is_valid s) (entry s) (nxt s) (length kvs - i) it = Some (drop i kvs)"
proof (induction "length kvs - i" arbitrary: it i)
  case 0
  then show ?case using entry by force
next
  case (Suc n)
  then have i: "i < length kvs" by linarith
  obtain it' where it': "nxt s it = Some it'" "pos s it' (Suc i)" using nxt [OF Suc.prems i] by blast
  have n: "n = length kvs - Suc i" using Suc.hyps(2) by linarith
  then have "scan (is_valid s) (entry s) (nxt s) n it' = Some (drop (Suc i) kvs)" using Suc.hyps(1) Suc.prems(1) it'(2) by blast
  then show ?case using entry [OF Suc.prems] i it'(1) by (simp add: Suc.hyps(2) [symmetric] Cons_nth_drop_Suc)
qed

lemma scan_back:
  "rep s kvs \<Longrightarrow> pos s it i \<Longrightarrow> i < length kvs \<Longrightarrow> scan (is_valid s) (entry s) (prv s) (Suc i) it = Some (rev (take (Suc i) kvs))"
proof (induction i arbitrary: it)
  case 0
  obtain it' where "prv s it = Some it'" "pos s it' (length kvs)" using prv [OF 0] by auto
  then show ?case using entry [OF 0(1,2)] entry [OF 0(1), of it'] 0(3) by (simp add: take_Suc_conv_app_nth)
next
  case (Suc i)
  obtain it' where "prv s it = Some it'" "pos s it' i" using prv [OF Suc.prems] by auto
  then show ?case using Suc.IH [of it'] entry [OF Suc.prems(1,2)] Suc.prems(1,3)
    by (simp add: take_Suc_conv_app_nth del: scan.simps) (simp add: take_Suc_conv_app_nth)
qed

text \<open>Full scans, and the search for one key.\<close>

lemma full_scan_back:
  assumes "rep s kvs" "pos s it i"
  shows "\<exists>it'. to_last s it = Some it' \<and> scan (is_valid s) (entry s) (prv s) (length kvs) it' = Some (rev kvs)"
proof -
  obtain it' where it': "to_last s it = Some it'" "pos s it' (length kvs - 1)" using to_last [OF assms] by blast
  show ?thesis
  proof (cases kvs)
    case Nil
    then show ?thesis using it' entry [OF assms(1) it'(2)] by simp
  next
    case (Cons kv kvs')
    then show ?thesis using it' scan_back [OF assms(1) it'(2)] by simp
  qed
qed

lemma full_scan:
  assumes "rep s kvs" "pos s it i"
  shows "\<exists>it'. to_first s it = Some it' \<and> scan (is_valid s) (entry s) (nxt s) (length kvs) it' = Some kvs"
  using to_first [OF assms] scan_rest [OF assms(1)] by fastforce

lemma before_first_ge: "j < first_ge compare t kvs \<Longrightarrow> compare (fst (kvs ! j)) t < 0"
  unfolding first_ge_def using nth_mem set_takeWhileD by (metis takeWhile_nth)

lemma no_match:
  assumes "sorted_wrt (\<lambda>a b. compare (fst a) (fst b) < 0) kvs" "\<forall>kv \<in> set kvs. valid (fst kv)" "valid t"
  defines "i \<equiv> first_ge compare t kvs"
  assumes no: "\<not> (i < length kvs \<and> compare (fst (kvs ! i)) t = 0)" and j: "j < length kvs"
  shows "compare (fst (kvs ! j)) t \<noteq> 0"
proof (cases "j < i")
  case True
  then show ?thesis using before_first_ge [of j t kvs] unfolding i_def by auto
next
  case ge: False
  have i: "i < length kvs" using ge j by linarith
  have v: "valid (fst (kvs ! i))" "valid (fst (kvs ! j))" using assms(2) i j by auto
  have "\<not> compare (fst (kvs ! i)) t < 0" using i nth_length_takeWhile unfolding i_def first_ge_def by metis
  then have gt: "compare t (fst (kvs ! i)) < 0" using no i flip [OF assms(3) v(1)] by (simp add: linorder_neq_iff)
  show ?thesis
  proof (cases "j = i")
    case True
    then show ?thesis using no i by simp
  next
    case ne: False
    then have "compare (fst (kvs ! i)) (fst (kvs ! j)) < 0" using assms(1) ge j by (simp add: sorted_wrt_iff_nth_less)
    then have "compare t (fst (kvs ! j)) < 0" using less_trans [OF assms(3) v gt] by simp
    then show ?thesis using flip [OF assms(3) v(2)] by simp
  qed
qed

lemma lookup:
  assumes "rep s kvs" "pos s it i" "valid t"
  shows "\<exists>it'. seek s t it = Some it' \<and>
    (if is_valid s it' \<and> compare (fst (entry s it')) t = 0 then Some (entry s it') else None) =
      find (\<lambda>kv. compare (fst kv) t = 0) kvs"
proof -
  obtain it' where it': "seek s t it = Some it'" "pos s it' (first_ge compare t kvs)" using seek [OF assms] by blast
  let ?i = "first_ge compare t kvs"
  note e = entry [OF assms(1) it'(2)] and c = contents [OF assms(1)]
  have "find (\<lambda>kv. compare (fst kv) t = 0) kvs =
      (if ?i < length kvs \<and> compare (fst (kvs ! ?i)) t = 0 then Some (kvs ! ?i) else None)"
  proof (cases "?i < length kvs \<and> compare (fst (kvs ! ?i)) t = 0")
    case True
    then have "\<exists>i < length kvs. compare (fst (kvs ! i)) t = 0 \<and> kvs ! ?i = kvs ! i \<and> (\<forall>j < i. compare (fst (kvs ! j)) t \<noteq> 0)"
      using before_first_ge by (intro exI [of _ ?i]) force
    then show ?thesis using True by (simp add: find_Some_iff)
  next
    case False
    then have "\<forall>kv \<in> set kvs. compare (fst kv) t \<noteq> 0" using no_match [of kvs t] c assms(3) by (metis in_set_conv_nth)
    then show ?thesis using False by (auto simp: find_None_iff)
  qed
  then show ?thesis using it'(1) e by (intro exI [of _ it']) auto
qed

end

end
