(* ===== verification/Ldb_Mem_Iterator.thy ===== *)
theory Ldb_Mem_Iterator
  imports Ldb_Memtable_Thms Ldb_Iterator
begin

text \<open>
  The iterator of the in-memory table keeps the contract of iterators: it passes the entries in the order
  of their internal keys.
\<close>

section \<open>The nodes of a skip list are unique\<close>

lemma chain_unique: "chain l i x ns \<Longrightarrow> chain l i x ns' \<Longrightarrow> ns = ns'"
proof (induction ns arbitrary: x ns')
  case Nil
  then show ?case by (cases ns') auto
next
  case (Cons n ns)
  then show ?case by (cases ns') auto
qed

lemma skip_inv_unique: "skip_inv valid cmp l ns \<Longrightarrow> skip_inv valid cmp l ns' \<Longrightarrow> ns = ns'"
  using skip_ground(2) chain_unique by metis

section \<open>Positions\<close>

definition mem_entry :: "MemTable \<Rightarrow> nat \<Rightarrow> kv" where
  "mem_entry m n = (MemIter_key m n, MemIter_value m n)"

definition short_key :: "(slice \<Rightarrow> bool) \<Rightarrow> slice \<Rightarrow> bool" where
  "short_key valid k \<longleftrightarrow> internal_valid valid k \<and> length k < 2 ^ 32"

definition mem_rep :: "(slice \<Rightarrow> bool) \<Rightarrow> (slice \<Rightarrow> slice \<Rightarrow> int) \<Rightarrow> MemTable \<Rightarrow> kv list \<Rightarrow> bool" where
  "mem_rep valid cmp m kvs \<longleftrightarrow> (\<exists>ns. skip_inv (entry_valid valid) (KeyComparator cmp) (table m) ns \<and>
     kvs = map (mem_entry m) ns) \<and> (\<forall>kv \<in> set kvs. length (fst kv) < 2 ^ 32)"

definition mem_pos :: "(slice \<Rightarrow> bool) \<Rightarrow> (slice \<Rightarrow> slice \<Rightarrow> int) \<Rightarrow> MemTable \<Rightarrow> nat option \<Rightarrow> nat \<Rightarrow> bool" where
  "mem_pos valid cmp m it i \<longleftrightarrow> (\<exists>ns. skip_inv (entry_valid valid) (KeyComparator cmp) (table m) ns \<and> i \<le> length ns \<and>
     it = (if i < length ns then Some (ns ! i) else None))"

lemma find_first_ge:
  "find (\<lambda>n. 0 \<le> cmp (f n) t) ns = (if length (takeWhile (\<lambda>n. cmp (f n) t < 0) ns) < length ns
     then Some (ns ! length (takeWhile (\<lambda>n. cmp (f n) t < 0) ns)) else None)" for cmp :: "'a \<Rightarrow> 'a \<Rightarrow> int"
  by (induction ns) (auto simp: not_less)

lemma EncodeKey_key: "length t < 2 ^ 32 \<Longrightarrow> entry_key (EncodeKey t) = t"
  using entry_slice_prefixed(3) [of t "[]"] by (simp add: EncodeKey_def PutVarint32_def prefixed_def)

context user_order
begin

lemma short_key_order: "key_order (short_key valid) (InternalKey_Compare compare)"
  using internal_key_order_laws [OF key_order_axioms] unfolding key_order_def short_key_def by blast

lemma mem_seek:
  assumes "skip_inv (entry_valid valid) (KeyComparator compare) (table m) ns" "short_key valid t"
  shows "\<exists>it. MemIter_Seek compare m t = Some it \<and>
    mem_pos valid compare m it (first_ge (InternalKey_Compare compare) t (map (mem_entry m) ns))"
proof -
  have v: "entry_valid valid (EncodeKey t)" and k: "entry_key (EncodeKey t) = t"
    using assms(2) by (simp_all add: entry_valid_def EncodeKey_key short_key_def)
  let ?i = "length (takeWhile (\<lambda>n. KeyComparator compare (skey (table m) n) (EncodeKey t) < 0) ns)"
  have i: "first_ge (InternalKey_Compare compare) t (map (mem_entry m) ns) = ?i"
    by (simp add: first_ge_def takeWhile_map comp_def mem_entry_def MemIter_key_def Iter_key_def KeyComparator_def k)
  have "Iter_Seek (KeyComparator compare) (table m) (EncodeKey t) = Some (if ?i < length ns then Some (ns ! ?i) else None)"
    using key_order.iter_seek [OF entry_order assms(1) v]
      find_first_ge [of "KeyComparator compare" "skey (table m)" "EncodeKey t" ns] by (simp only:)
  then show ?thesis unfolding i MemIter_Seek_def mem_pos_def using assms(1) length_takeWhile_le by blast
qed

lemma mem_entry_iterator:
  "entry_iterator (short_key valid) (InternalKey_Compare compare) (mem_rep valid compare) (mem_pos valid compare)
    (\<lambda>_ it. it \<noteq> None) (\<lambda>m it. mem_entry m (the it)) (\<lambda>m t _. MemIter_Seek compare m t)
    (\<lambda>m _. Some (MemIter_SeekToFirst m)) (\<lambda>m _. MemIter_SeekToLast m)
    (\<lambda>m it. map_option (MemIter_Next m) it) (\<lambda>m it. Option.bind it (MemIter_Prev compare m))"
proof (intro entry_iterator.intro short_key_order entry_iterator_axioms.intro)
  fix m kvs it i t
  assume r: "mem_rep valid compare m kvs"
  then obtain ns where ns: "skip_inv (entry_valid valid) (KeyComparator compare) (table m) ns" "kvs = map (mem_entry m) ns"
    and len: "\<forall>kv \<in> set kvs. length (fst kv) < 2 ^ 32" by (auto simp: mem_rep_def)
  show "sorted_wrt (\<lambda>a b. InternalKey_Compare compare (fst a) (fst b) < 0) kvs \<and> (\<forall>kv \<in> set kvs. short_key valid (fst kv))"
    using ns len by (auto simp: skip_inv_def sorted_wrt_map mem_entry_def MemIter_key_def Iter_key_def KeyComparator_def
        entry_valid_def short_key_def)
  assume "mem_pos valid compare m it i"
  then have it: "it = (if i < length ns then Some (ns ! i) else None)" "i \<le> length ns"
    using skip_inv_unique [OF ns(1)] by (auto simp: mem_pos_def)
  show "i \<le> length kvs \<and> (it \<noteq> None \<longleftrightarrow> i < length kvs) \<and> (i < length kvs \<longrightarrow> mem_entry m (the it) = kvs ! i)"
    using it ns(2) by auto
  show "short_key valid t \<Longrightarrow> \<exists>it'. MemIter_Seek compare m t = Some it' \<and>
      mem_pos valid compare m it' (first_ge (InternalKey_Compare compare) t kvs)" using mem_seek [OF ns(1)] ns(2) by simp
  note ends = key_order.iter_ends [OF entry_order ns(1)]
  show "\<exists>it'. Some (MemIter_SeekToFirst m) = Some it' \<and> mem_pos valid compare m it' 0"
    unfolding mem_pos_def MemIter_SeekToFirst_def ends(1)
    using ns(1) by (intro exI [of _ "first ns"] conjI exI [of _ ns]) (auto simp: first_drop [of 0, simplified])
  show "\<exists>it'. MemIter_SeekToLast m = Some it' \<and> mem_pos valid compare m it' (length kvs - 1)"
    unfolding mem_pos_def MemIter_SeekToLast_def ends(2) ns(2)
    using ns(1) by (intro exI [of _ "if ns = [] then None else Some (last ns)"] conjI exI [of _ ns]) (auto simp: last_conv_nth)
  assume i: "i < length kvs"
  then have i': "i < length ns" using ns(2) by simp
  note steps = key_order.iter_steps [OF entry_order ns(1) i']
  show "\<exists>it'. map_option (MemIter_Next m) it = Some it' \<and> mem_pos valid compare m it' (Suc i)"
    using steps(1) it i' ns(1) unfolding mem_pos_def MemIter_Next_def
    by (intro exI [of _ "first (drop (Suc i) ns)"] conjI exI [of _ ns]) (simp_all add: first_drop)
  show "\<exists>it'. Option.bind it (MemIter_Prev compare m) = Some it' \<and> mem_pos valid compare m it' (if i = 0 then length kvs else i - 1)"
    using steps(2) it i' ns unfolding mem_pos_def MemIter_Prev_def
    by (intro exI [of _ "if i = 0 then None else Some (ns ! (i - 1))"] conjI exI [of _ ns]) auto
qed

end

interpretation mem_iterator: entry_iterator "short_key (\<lambda>_. True)" "InternalKey_Compare slice_compare"
  "mem_rep (\<lambda>_. True) slice_compare" "mem_pos (\<lambda>_. True) slice_compare" "\<lambda>_ it. it \<noteq> None" "\<lambda>m it. mem_entry m (the it)"
  "\<lambda>m t _. MemIter_Seek slice_compare m t" "\<lambda>m _. Some (MemIter_SeekToFirst m)" "\<lambda>m _. MemIter_SeekToLast m"
  "\<lambda>m it. map_option (MemIter_Next m) it" "\<lambda>m it. Option.bind it (MemIter_Prev slice_compare m)"
  by (rule bytewise_table.mem_entry_iterator)

end
