(* ===== verification/Ldb_Format.thy ===== *)
theory Ldb_Format
  imports Ldb_File Ldb_Crc32c_Thms
begin

text \<open>
  \<^verbatim>\<open>leveldb-library/table/format.h\<close> and \<^verbatim>\<open>format.cc\<close>: block handles, the footer of a table file and reading a block with
  its checksum, over the virtual functions of \<^verbatim>\<open>RandomAccessFile\<close>. The compression library is not configured.
\<close>

section \<open>Handles and footer\<close>

record BlockHandle =
  bh_offset :: uint64
  bh_size :: uint64

definition kMaxEncodedLength :: nat where
  "kMaxEncodedLength = 10 + 10"

definition BlockHandle_new :: BlockHandle where
  "BlockHandle_new = \<lparr>bh_offset = NOT 0, bh_size = NOT 0\<rparr>"

definition BlockHandle_EncodeTo :: "BlockHandle \<Rightarrow> byte list \<Rightarrow> byte list" where
  "BlockHandle_EncodeTo h dst = PutVarint64 (PutVarint64 dst (bh_offset h)) (bh_size h)"

definition BlockHandle_DecodeFrom :: "BlockHandle \<Rightarrow> slice \<Rightarrow> status \<times> BlockHandle \<times> slice" where
  "BlockHandle_DecodeFrom h input =
     (case GetVarint64 input of
        (None, input) \<Rightarrow> (Corruption (c_str ''bad block handle'') [], h, input)
      | (Some v, input) \<Rightarrow>
          (case GetVarint64 input of
             (None, input) \<Rightarrow> (Corruption (c_str ''bad block handle'') [], h\<lparr>bh_offset := v\<rparr>, input)
           | (Some w, input) \<Rightarrow> (OK, h\<lparr>bh_offset := v, bh_size := w\<rparr>, input)))"

definition kTableMagicNumber :: uint64 where
  "kTableMagicNumber = 0xdb4775248b80fb57"

record Footer =
  metaindex_handle :: BlockHandle
  index_handle :: BlockHandle

definition Footer_kEncodedLength :: nat where
  "Footer_kEncodedLength = 2 * kMaxEncodedLength + 8"

text \<open>\<^verbatim>\<open>std::string::resize\<close> cuts the string or pads it with null characters.\<close>

definition resize :: "nat \<Rightarrow> byte list \<Rightarrow> byte list" where
  "resize n s = take n s @ replicate (n - length s) 0"

definition Footer_EncodeTo :: "Footer \<Rightarrow> byte list \<Rightarrow> byte list" where
  "Footer_EncodeTo f dst =
     (let dst = BlockHandle_EncodeTo (metaindex_handle f) dst;
          dst = BlockHandle_EncodeTo (index_handle f) dst;
          dst = resize (2 * kMaxEncodedLength) dst;
          dst = PutFixed32 dst (ucast (kTableMagicNumber AND 0xffffffff))
      in PutFixed32 dst (ucast (drop_bit 32 kTableMagicNumber)))"

text \<open>The input has at least the length of a footer; the caller reads that many bytes.\<close>

definition Footer_DecodeFrom :: "Footer \<Rightarrow> slice \<Rightarrow> status \<times> Footer \<times> slice" where
  "Footer_DecodeFrom f input =
     (let magic_ptr = drop (Footer_kEncodedLength - 8) input;
          magic_lo = DecodeFixed32 magic_ptr;
          magic_hi = DecodeFixed32 (drop 4 magic_ptr);
          magic = push_bit 32 (ucast magic_hi) OR ucast magic_lo :: uint64
      in if magic \<noteq> kTableMagicNumber then (Corruption (c_str ''not an sstable (bad magic number)'') [], f, input)
         else case BlockHandle_DecodeFrom (metaindex_handle f) input of (res, h, rest) \<Rightarrow>
                (let f = f\<lparr>metaindex_handle := h\<rparr> in
                 if \<not> ok res then (res, f, rest)
                 else case BlockHandle_DecodeFrom (index_handle f) rest of (res, h, rest) \<Rightarrow>
                        (res, f\<lparr>index_handle := h\<rparr>, if ok res then drop Footer_kEncodedLength input else rest)))"

section \<open>Reading a block\<close>

datatype CompressionType = kNoCompression | kSnappyCompression

fun compression_type :: "CompressionType \<Rightarrow> byte" where
  "compression_type kNoCompression = 0"
| "compression_type kSnappyCompression = 1"

definition kBlockTrailerSize :: nat where
  "kBlockTrailerSize = 5"

text \<open>The functions of \<^verbatim>\<open>port_stdcxx.h\<close> without the compression library.\<close>

definition Snappy_Compress :: "slice \<Rightarrow> slice option" where
  "Snappy_Compress input = None"

definition Snappy_GetUncompressedLength :: "slice \<Rightarrow> nat option" where
  "Snappy_GetUncompressedLength input = None"

definition Snappy_Uncompress :: "slice \<Rightarrow> slice option" where
  "Snappy_Uncompress input = None"

text \<open>
  The virtual function \<^verbatim>\<open>Read\<close>: the status, the bytes, and whether the file put them into the scratch space.
\<close>

record 'f RandomAccessFile =
  vReadAt :: "uint64 \<Rightarrow> nat \<Rightarrow> 'f \<Rightarrow> status \<times> slice \<times> bool \<times> 'f"

record BlockContents =
  bc_data :: slice
  cachable :: bool
  heap_allocated :: bool

definition BlockContents_empty :: BlockContents where
  "BlockContents_empty = \<lparr>bc_data = [], cachable = False, heap_allocated = False\<rparr>"

text \<open>
  The sizes are computed at 64 bits. None: the code goes on to read outside the bytes that it has got.
\<close>

definition ReadBlock ::
    "'f RandomAccessFile \<Rightarrow> bool \<Rightarrow> BlockHandle \<Rightarrow> 'f \<Rightarrow> (status \<times> BlockContents \<times> 'f) option" where
  "ReadBlock vt verify_checksums handle f =
     (let n = bh_size handle;
          len = n + of_nat kBlockTrailerSize;
          (s, contents, in_scratch, f) = vReadAt vt (bh_offset handle) (unat len) f;
          result = BlockContents_empty
      in if \<not> ok s then Some (s, result, f)
         else if length contents \<noteq> unat len then Some (Corruption (c_str ''truncated block read'') [], result, f)
         else if length contents < unat n + kBlockTrailerSize then None
         else if verify_checksums \<and> Value 0 (take (unat n + 1) contents) \<noteq> Unmask (DecodeFixed32 (drop (unat n + 1) contents))
         then Some (Corruption (c_str ''block checksum mismatch'') [], result, f)
         else let type = contents ! unat n; data = take (unat n) contents in
              if type = compression_type kNoCompression
              then Some (OK, \<lparr>bc_data = data, cachable = in_scratch, heap_allocated = in_scratch\<rparr>, f)
              else if type = compression_type kSnappyCompression then
                (case Snappy_GetUncompressedLength data of
                   None \<Rightarrow> Some (Corruption (c_str ''corrupted compressed block contents'') [], result, f)
                 | Some ulength \<Rightarrow>
                     (case Snappy_Uncompress data of
                        None \<Rightarrow> Some (Corruption (c_str ''corrupted compressed block contents'') [], result, f)
                      | Some u \<Rightarrow> Some (OK, \<lparr>bc_data = take ulength u, cachable = True, heap_allocated = True\<rparr>, f)))
              else Some (Corruption (c_str ''bad block type'') [], result, f))"

section \<open>Round trips\<close>

lemma BlockHandle_roundtrip [simp]:
  "BlockHandle_DecodeFrom h0 (BlockHandle_EncodeTo h [] @ rest) = (OK, h, rest)"
  by (simp add: BlockHandle_DecodeFrom_def BlockHandle_EncodeTo_def PutVarint64_def)

lemma BlockHandle_EncodeTo_append: "BlockHandle_EncodeTo h dst = dst @ BlockHandle_EncodeTo h []"
  by (simp add: BlockHandle_EncodeTo_def PutVarint64_def)

lemma length_EncodeVarint64: "length (EncodeVarint64 v) \<le> 10"
  by (simp add: EncodeVarint64_ref varint_bytes_length64)

lemma length_handle: "length (BlockHandle_EncodeTo h []) \<le> kMaxEncodedLength"
  using length_EncodeVarint64 [of "bh_offset h"] length_EncodeVarint64 [of "bh_size h"]
  by (simp add: BlockHandle_EncodeTo_def PutVarint64_def kMaxEncodedLength_def)

text \<open>The two handles of a footer with the zeros that fill the space left.\<close>

definition footer_handles :: "Footer \<Rightarrow> byte list" where
  "footer_handles f = BlockHandle_EncodeTo (metaindex_handle f) [] @ BlockHandle_EncodeTo (index_handle f) []"

lemma length_footer_handles: "length (footer_handles f) \<le> 40"
  using length_handle [of "metaindex_handle f"] length_handle [of "index_handle f"]
  by (simp add: footer_handles_def kMaxEncodedLength_def)

lemma Footer_EncodeTo_eq:
  "Footer_EncodeTo f [] = footer_handles f @ replicate (40 - length (footer_handles f)) 0
     @ EncodeFixed32 0x8b80fb57 @ EncodeFixed32 0xdb477524"
  using length_footer_handles [of f]
  by (simp add: Footer_EncodeTo_def BlockHandle_EncodeTo_append [of "index_handle f" "BlockHandle_EncodeTo _ _"]
      resize_def kMaxEncodedLength_def PutFixed32_def kTableMagicNumber_def Let_def footer_handles_def)

lemma length_Footer_EncodeTo [simp]: "length (Footer_EncodeTo f []) = Footer_kEncodedLength"
  using length_footer_handles [of f] by (simp add: Footer_EncodeTo_eq Footer_kEncodedLength_def kMaxEncodedLength_def)

lemma Footer_roundtrip:
  "Footer_DecodeFrom f0 (Footer_EncodeTo f [] @ rest) = (OK, f, rest)"
proof -
  let ?z = "replicate (40 - length (footer_handles f)) (0 :: byte)"
  let ?m = "EncodeFixed32 0x8b80fb57 @ EncodeFixed32 0xdb477524 :: byte list"
  have l: "length (footer_handles f @ ?z) = 40" using length_footer_handles [of f] by simp
  have e: "Footer_EncodeTo f [] @ rest = (footer_handles f @ ?z) @ ?m @ rest" by (simp add: Footer_EncodeTo_eq)
  have d: "drop 40 (Footer_EncodeTo f [] @ rest) = ?m @ rest" unfolding e using l by simp
  have r: "drop 48 (Footer_EncodeTo f [] @ rest) = rest"
    using length_Footer_EncodeTo [of f] by (simp add: Footer_kEncodedLength_def kMaxEncodedLength_def)
  have h: "Footer_EncodeTo f [] @ rest = BlockHandle_EncodeTo (metaindex_handle f) [] @
      BlockHandle_EncodeTo (index_handle f) [] @ ?z @ ?m @ rest"
    by (simp add: Footer_EncodeTo_eq footer_handles_def)
  have m: "push_bit 32 (ucast (0xdb477524 :: uint32)) OR ucast (0x8b80fb57 :: uint32) = kTableMagicNumber"
    by (simp add: kTableMagicNumber_def)
  show ?thesis
    unfolding Footer_DecodeFrom_def Let_def Footer_kEncodedLength_def kMaxEncodedLength_def
    using d r m by (simp add: h)
qed

section \<open>The image of a block\<close>

text \<open>A block as the builder writes it: the contents, the type, and the masked checksum of both.\<close>

definition raw_block :: "CompressionType \<Rightarrow> byte list \<Rightarrow> byte list" where
  "raw_block t d = d @ [compression_type t] @ EncodeFixed32 (Mask (Value 0 (d @ [compression_type t])))"

lemma length_raw_block [simp]: "length (raw_block t d) = length d + kBlockTrailerSize"
  by (simp add: raw_block_def kBlockTrailerSize_def)

lemma ReadBlock_total:
  assumes "unat (bh_size h) + kBlockTrailerSize < 2 ^ 64"
  shows "\<exists>s bc f'. ReadBlock vt verify h f = Some (s, bc, f')"
proof -
  have u: "unat (bh_size h + of_nat kBlockTrailerSize) = unat (bh_size h) + kBlockTrailerSize"
    using assms by (simp add: unat_word_ariths kBlockTrailerSize_def)
  show ?thesis by (auto simp: ReadBlock_def Let_def u split: prod.split option.split)
qed

section \<open>The contract of files for random access\<close>

text \<open>
  \<open>contents f\<close> are the bytes of the file. A read that reports success has returned the bytes at the offset, fewer at the end of the
  file, and a read within the file succeeds. Files that are mapped keep this only for reads that end below \<open>2 ^ 64\<close>.
\<close>

locale random_access_file =
  fixes vt :: "'f RandomAccessFile"
    and contents :: "'f \<Rightarrow> byte list"
    and invar :: "'f \<Rightarrow> bool"
  assumes read_returns: "invar f \<Longrightarrow> unat off + n \<le> length (contents f) \<Longrightarrow>
      \<exists>b f'. vReadAt vt off n f = (OK, take n (drop (unat off) (contents f)), b, f')"
    and read_honest: "invar f \<Longrightarrow> unat off + n < 2 ^ 64 \<Longrightarrow> vReadAt vt off n f = (OK, r, b, f') \<Longrightarrow> r = take n (drop (unat off) (contents f))"
    and read_keeps: "invar f \<Longrightarrow> vReadAt vt off n f = (s, r, b, f') \<Longrightarrow> contents f' = contents f \<and> invar f'"
begin

lemma ReadBlock_image:
  assumes i: "invar f" and c: "contents f = pre @ raw_block kNoCompression d @ post"
    and o: "unat (bh_offset h) = length pre" and n: "unat (bh_size h) = length d" and b: "length d + kBlockTrailerSize < 2 ^ 64"
  shows "\<exists>b f'. ReadBlock vt verify h f = Some (OK, \<lparr>bc_data = d, cachable = b, heap_allocated = b\<rparr>, f') \<and>
    contents f' = contents f \<and> invar f'"
proof -
  have u: "unat (bh_size h + of_nat kBlockTrailerSize) = length d + kBlockTrailerSize"
    using n b by (simp add: unat_word_ariths kBlockTrailerSize_def)
  have t: "take (length d + kBlockTrailerSize) (drop (unat (bh_offset h)) (contents f)) = raw_block kNoCompression d"
    by (simp add: c o)
  obtain b f' where r: "vReadAt vt (bh_offset h) (length d + kBlockTrailerSize) f = (OK, raw_block kNoCompression d, b, f')"
    using read_returns [OF i, of "bh_offset h" "length d + kBlockTrailerSize"] t by (auto simp: c o)
  have k: "take (Suc (length d)) (raw_block kNoCompression d) = d @ [0]" "raw_block kNoCompression d ! length d = 0"
      "take (length d) (raw_block kNoCompression d) = d"
      "drop (Suc (length d)) (raw_block kNoCompression d) = EncodeFixed32 (Mask (Value 0 (d @ [0])))"
    by (simp_all add: raw_block_def)
  show ?thesis using read_keeps [OF i r] by (simp add: ReadBlock_def Let_def u r n k)
qed

end

text \<open>Files that check the place of every read.\<close>

locale checked_access_file = random_access_file vt contents invar
  for vt :: "'f RandomAccessFile" and contents :: "'f \<Rightarrow> byte list" and invar :: "'f \<Rightarrow> bool" +
  assumes read_checked: "invar f \<Longrightarrow> vReadAt vt off n f = (OK, r, b, f') \<Longrightarrow> r = take n (drop (unat off) (contents f))"
begin

text \<open>Only such an image passes the check of the checksum.\<close>

lemma ReadBlock_verified:
  assumes i: "invar f" and r: "ReadBlock vt True h f = Some (OK, bc, f')"
  shows "take (unat (bh_size h) + kBlockTrailerSize) (drop (unat (bh_offset h)) (contents f)) = raw_block kNoCompression (bc_data bc) \<and>
    length (bc_data bc) = unat (bh_size h)"
proof -
  let ?n = "unat (bh_size h)"
  obtain s c b g where v: "vReadAt vt (bh_offset h) (unat (bh_size h + of_nat kBlockTrailerSize)) f = (s, c, b, g)"
    by (cases "vReadAt vt (bh_offset h) (unat (bh_size h + of_nat kBlockTrailerSize)) f") auto
  have g: "ok s" "length c = unat (bh_size h + of_nat kBlockTrailerSize)" "length c \<ge> ?n + kBlockTrailerSize"
      "Value 0 (take (?n + 1) c) = Unmask (DecodeFixed32 (drop (?n + 1) c))" "c ! ?n = 0" "bc_data bc = take ?n c"
    using r by (auto simp: ReadBlock_def v Let_def Snappy_GetUncompressedLength_def split: if_splits)
  have "unat (bh_size h + of_nat kBlockTrailerSize) \<le> ?n + kBlockTrailerSize"
    by (simp add: unat_word_ariths kBlockTrailerSize_def)
  then have l: "length c = ?n + kBlockTrailerSize" "unat (bh_size h + of_nat kBlockTrailerSize) = ?n + kBlockTrailerSize"
    using g(2,3) by simp_all
  have s: "s = OK" using g(1) by (simp add: ok_iff)
  have c: "c = take (?n + kBlockTrailerSize) (drop (unat (bh_offset h)) (contents f))"
    using read_checked [OF i v [unfolded s l(2)]] .
  have "take (?n + 1) c = take ?n c @ [0]" using l(1) g(5) by (simp add: take_Suc_conv_app_nth kBlockTrailerSize_def)
  moreover have "drop (?n + 1) c = EncodeFixed32 (Mask (Value 0 (take (?n + 1) c)))"
    using l(1) g(4) by (simp add: kBlockTrailerSize_def EncodeFixed32_Decode)
  ultimately have "c = raw_block kNoCompression (take ?n c)"
    using append_take_drop_id [of "?n + 1" c] by (simp add: raw_block_def)
  then have "c = raw_block kNoCompression (bc_data bc)" by (simp only: g(6))
  moreover have "length (bc_data bc) = ?n" using l(1) by (simp add: g(6))
  ultimately show ?thesis by (simp only: c [symmetric])
qed

end

text \<open>
  A posix file: \<^verbatim>\<open>pread\<close> gives the bytes of the file at an offset and refuses a negative one, and opening the file by its name
  for one read succeeds. The contents are shorter than \<open>2 ^ 63\<close> bytes, as an \<^verbatim>\<open>off_t\<close> is.
\<close>

definition preads_ok :: "'os sys \<Rightarrow> PosixRandomAccessFile \<Rightarrow> ('os \<Rightarrow> byte list) \<Rightarrow> byte list \<Rightarrow> bool" where
  "preads_ok sys rf contents bytes \<longleftrightarrow> length bytes < 2 ^ 63 \<and>
     (\<forall>os. contents os = bytes \<longrightarrow>
        (\<forall>fd n k. (case sys_pread sys fd n k os of
           (Ret r, os') \<Rightarrow> 0 \<le> k \<and> r = take n (drop (nat k) bytes) \<and> contents os' = bytes
         | (Err e, os') \<Rightarrow> k < 0 \<and> contents os' = bytes)) \<and>
        (\<forall>fd. contents (snd (sys_close sys fd os)) = bytes) \<and>
        (case sys_open_rdonly sys (ra_filename rf) os of (Ret fd, os') \<Rightarrow> contents os' = bytes | _ \<Rightarrow> False))"

definition posix_random_access :: "'os sys \<Rightarrow> PosixRandomAccessFile \<Rightarrow> 'os RandomAccessFile" where
  "posix_random_access sys rf =
     \<lparr>vReadAt = (\<lambda>off n os. case PosixRandomAccessFile_Read sys rf off n [] os of (s, r, os) \<Rightarrow> (s, r, True, os))\<rparr>"

lemma nat_sint: "0 \<le> sint k \<Longrightarrow> nat (sint k) = unat k" for k :: uint64
proof -
  assume "0 \<le> sint k"
  then have "even (uint k div 2 ^ 63)" by (simp add: sint_uint signed_take_bit_nonnegative_iff bit_iff_odd)
  moreover have "uint k div 2 ^ 63 < 2" "0 \<le> uint k div 2 ^ 63" using uint_lt2p [of k] by (simp_all add: pos_imp_zdiv_nonneg_iff)
  moreover have "x = 0" if "even x" "x < 2" "0 \<le> x" for x :: int using that by presburger
  ultimately have z: "uint k div 2 ^ 63 = 0" by blast
  have "uint k mod 2 ^ 63 < 2 ^ 63" by (rule pos_mod_bound) simp
  then have "uint k < 2 ^ 63" using div_mult_mod_eq [of "uint k" "2 ^ 63"] unfolding z by (simp only: mult_zero_left add_0)
  then have "int (unat k) < int (2 ^ 63)" by simp
  then have "unat k < 2 ^ 63" by (simp only: of_nat_less_iff)
  then show ?thesis by (simp only: sint_small nat_int)
qed

lemma posix_read:
  assumes p: "preads_ok sys rf contents bytes" and os: "contents os = bytes"
  shows "\<exists>s r os'. vReadAt (posix_random_access sys rf) off n os = (s, r, True, os') \<and> contents os' = bytes \<and>
    (if 0 \<le> sint off then s = OK \<and> r = take n (drop (unat off) bytes) else \<not> ok s)"
proof -
  obtain fd0 os0 where op: "sys_open_rdonly sys (ra_filename rf) os = (Ret fd0, os0)" "contents os0 = bytes"
    using p os unfolding preads_ok_def
    by (cases "sys_open_rdonly sys (ra_filename rf) os"; cases "fst (sys_open_rdonly sys (ra_filename rf) os)") auto
  define fd os1 where "fd = (if has_permanent_fd rf then ra_fd rf else fd0)" and "os1 = (if has_permanent_fd rf then os else os0)"
  have os1: "contents os1 = bytes" using os op(2) by (simp add: os1_def)
  obtain x os2 where x: "sys_pread sys fd n (sint off) os1 = (x, os2)" by fastforce
  define os3 where "os3 = (if has_permanent_fd rf then os2 else snd (sys_close sys fd os2))"
  have k: "case x of Ret r \<Rightarrow> 0 \<le> sint off \<and> r = take n (drop (nat (sint off)) bytes) \<and> contents os2 = bytes
      | Err e \<Rightarrow> sint off < 0 \<and> contents os2 = bytes"
    using p [unfolded preads_ok_def, THEN conjunct2, THEN spec, of os1, THEN mp, OF os1, THEN conjunct1, THEN spec, of fd,
        THEN spec, of n, THEN spec, of "sint off"] unfolding x prod.case .
  then have os2: "contents os2 = bytes" by (cases x) simp_all
  then have os3: "contents os3 = bytes" using p unfolding preads_ok_def os3_def by simp
  have e: "vReadAt (posix_random_access sys rf) off n os =
      (case x of Ret r \<Rightarrow> (OK, r, True, os3) | Err e \<Rightarrow> (PosixError sys (ra_filename rf) e, [], True, os3))"
    using x op(1) unfolding fd_def os1_def os3_def
    by (cases x) (auto simp: posix_random_access_def PosixRandomAccessFile_Read_def Let_def split: if_splits)
  show ?thesis using k os3 by (cases x) (auto simp: e nat_sint PosixError_not_ok)
qed

lemma posix_random_access_file:
  "checked_access_file (posix_random_access sys rf) contents (\<lambda>os. preads_ok sys rf contents (contents os))"
proof (unfold_locales, goal_cases)
  case (1 os off n)
  then have "sint off = int (unat off)" using sint_small [of off] by (simp add: preads_ok_def)
  then show ?case using posix_read [OF 1(1) refl, of off n] by auto
next
  case (2 os off n r b os')
  then show ?case using posix_read [OF 2(1) refl, of off n] by (auto split: if_splits)
next
  case (3 os off n s r b os')
  then show ?case using posix_read [OF 3(1) refl, of off n] by auto
next
  case (4 os off n r b os')
  then show ?case using posix_read [OF 4(1) refl, of off n] by (auto split: if_splits)
qed

interpretation posix_random: checked_access_file "posix_random_access sys rf" contents "\<lambda>os. preads_ok sys rf contents (contents os)"
  for sys rf contents
  by (rule posix_random_access_file)

lemma slow_sys_preads: "length bytes < 2 ^ 63 \<Longrightarrow> preads_ok slow_sys rf fst bytes"
  by (auto simp: preads_ok_def slow_sys_def)

section \<open>What is read is what was written\<close>

text \<open>
  C20: For a handle whose size and the five bytes of the trailer do not wrap around at 64 bits, \<^verbatim>\<open>ReadBlock\<close> on a posix file returns, and
  with checksums it reports success with some contents exactly when the file holds, at the handle, these contents with the type of uncompressed blocks and the masked checksum of both. In particular a block
  that was written as such is read back, and a file that ends early, another type or a wrong checksum are reported.
\<close>

theorem read_block_verified:
  assumes p: "preads_ok sys rf contents (contents os)" and n: "unat (bh_size h) + kBlockTrailerSize < 2 ^ 64"
  shows "\<exists>s bc os'. ReadBlock (posix_random_access sys rf) True h os = Some (s, bc, os') \<and>
    (ok s \<and> bc_data bc = d \<longleftrightarrow>
     take (unat (bh_size h) + kBlockTrailerSize) (drop (unat (bh_offset h)) (contents os)) = raw_block kNoCompression d \<and>
     length d = unat (bh_size h))"
proof -
  obtain s bc os' where r: "ReadBlock (posix_random_access sys rf) True h os = Some (s, bc, os')"
    using ReadBlock_total [OF n, of "posix_random_access sys rf" True os] by blast
  let ?n = "unat (bh_size h) + kBlockTrailerSize" and ?o = "unat (bh_offset h)"
  have "take ?n (drop ?o (contents os)) = raw_block kNoCompression d \<and> length d = unat (bh_size h)" if "ok s" "bc_data bc = d"
    using posix_random.ReadBlock_verified [OF p, of h bc os'] r that by (simp add: ok_iff)
  moreover have "ok s \<and> bc_data bc = d"
    if t: "take ?n (drop ?o (contents os)) = raw_block kNoCompression d" and l: "length d = unat (bh_size h)"
  proof -
    have c: "contents os = take ?o (contents os) @ raw_block kNoCompression d @ drop ?n (drop ?o (contents os))"
      by (simp only: t [symmetric] append_take_drop_id)
    have "?n \<le> length (contents os) - ?o" using arg_cong [OF t, of length] l by simp
    then have o: "?o = length (take ?o (contents os))" by (simp add: kBlockTrailerSize_def)
    show ?thesis using posix_random.ReadBlock_image [OF p c o l [symmetric], of True] n l r by auto
  qed
  ultimately show ?thesis using r by blast
qed

theorem read_block_verified_witness:
  "\<exists>s bc os'. ReadBlock (posix_random_access slow_sys \<lparr>has_permanent_fd = False, ra_fd = - 1, ra_filename = c_str ''000005.ldb''\<rparr>) True
      \<lparr>bh_offset = 2, bh_size = 3\<rparr> ([7, 7] @ raw_block kNoCompression [1, 2, 3] @ [9], 1) = Some (s, bc, os') \<and> ok s \<and> bc_data bc = [1, 2, 3]"
  using read_block_verified [of slow_sys "\<lparr>has_permanent_fd = False, ra_fd = - 1, ra_filename = c_str ''000005.ldb''\<rparr>" fst
      "([7, 7] @ raw_block kNoCompression [1, 2, 3] @ [9], 1)" "\<lparr>bh_offset = 2, bh_size = 3\<rparr>" "[1, 2, 3]"]
    slow_sys_preads [of "[7, 7] @ raw_block kNoCompression [1, 2, 3] @ [9]"]
  by (auto simp: kBlockTrailerSize_def raw_block_def)

text \<open>
  C38: \<^verbatim>\<open>ReadBlock\<close> adds the length of the trailer to the size of the handle at 64 bits. For a handle whose size is among the five
  largest numbers the sum wraps to less than five, the few bytes read have the length that is expected, and the code goes on to read
  the type and the checksum at places outside of the buffer it has allocated.
\<close>

theorem read_block_wraps:
  assumes p: "preads_ok sys rf contents (contents os)" and k: "k < 5" and l: "unat off + k \<le> length (contents os)"
  shows "ReadBlock (posix_random_access sys rf) verify \<lparr>bh_offset = off, bh_size = of_nat k - 5\<rparr> os = None"
proof -
  have u: "unat (of_nat k - 5 + of_nat kBlockTrailerSize :: uint64) = k"
    using k by (simp add: kBlockTrailerSize_def unat_of_nat)
  have s: "k < unat (of_nat k - 5 :: uint64) + kBlockTrailerSize"
    using k by (intro less_le_trans [OF k]) (simp add: kBlockTrailerSize_def)
  obtain b os' where r: "vReadAt (posix_random_access sys rf) off k os = (OK, take k (drop (unat off) (contents os)), b, os')"
    using posix_random.read_returns [OF p l] by blast
  show ?thesis using s l by (simp add: ReadBlock_def Let_def u r)
qed

theorem read_block_wraps_witness:
  "ReadBlock (posix_random_access slow_sys \<lparr>has_permanent_fd = False, ra_fd = - 1, ra_filename = c_str ''000005.ldb''\<rparr>) True
      \<lparr>bh_offset = 2, bh_size = - 1\<rparr> ([1, 2, 3, 4, 5, 6, 7], 0) = None"
  using read_block_wraps [of slow_sys "\<lparr>has_permanent_fd = False, ra_fd = - 1, ra_filename = c_str ''000005.ldb''\<rparr>" fst
      "([1, 2, 3, 4, 5, 6, 7], 0)" 4 2 True] slow_sys_preads [of "[1, 2, 3, 4, 5, 6, 7]"]
  by simp

end
