(* ===== verification/Ldb_Block.thy ===== *)
theory Ldb_Block
  imports Ldb_Comparator "HOL-Library.Monad_Syntax"
begin

text \<open>
  \<^verbatim>\<open>leveldb-library/table/block_builder.cc\<close> and \<^verbatim>\<open>block.cc\<close>: blocks of entries with prefix compressed keys, their
  builder and their iterator. A position in a block is its offset; \<open>u32\<close> marks where the code keeps a number in 32 bits.
  A slice into the block is its offset and length. Loops that parse entries have the result none when they do not return.
\<close>

section \<open>Builder\<close>

definition u32 :: "nat \<Rightarrow> nat" where
  "u32 n = n mod 2 ^ 32"

record BlockBuilder =
  bb_interval :: nat
  bb_buffer :: "byte list"
  bb_restarts :: "uint32 list"
  bb_counter :: nat
  bb_finished :: bool
  bb_last_key :: "byte list"

text \<open>\<open>interval\<close> is the option \<^verbatim>\<open>block_restart_interval\<close>.\<close>

definition BlockBuilder_new :: "nat \<Rightarrow> BlockBuilder" where
  "BlockBuilder_new interval =
     \<lparr>bb_interval = interval, bb_buffer = [], bb_restarts = [0], bb_counter = 0, bb_finished = False, bb_last_key = []\<rparr>"

definition BlockBuilder_Reset :: "BlockBuilder \<Rightarrow> BlockBuilder" where
  "BlockBuilder_Reset b =
     b\<lparr>bb_buffer := [], bb_restarts := [0], bb_counter := 0, bb_finished := False, bb_last_key := []\<rparr>"

definition CurrentSizeEstimate :: "BlockBuilder \<Rightarrow> nat" where
  "CurrentSizeEstimate b = length (bb_buffer b) + length (bb_restarts b) * 4 + 4"

definition BlockBuilder_empty :: "BlockBuilder \<Rightarrow> bool" where
  "BlockBuilder_empty b \<longleftrightarrow> bb_buffer b = []"

text \<open>The contents of the block are the buffer of the result.\<close>

definition BlockBuilder_Finish :: "BlockBuilder \<Rightarrow> BlockBuilder" where
  "BlockBuilder_Finish b =
     (let buf = foldl PutFixed32 (bb_buffer b) (bb_restarts b);
          buf = PutFixed32 buf (of_nat (length (bb_restarts b)))
      in b\<lparr>bb_buffer := buf, bb_finished := True\<rparr>)"

definition BlockBuilder_Add :: "slice \<Rightarrow> slice \<Rightarrow> BlockBuilder \<Rightarrow> BlockBuilder" where
  "BlockBuilder_Add key value b =
     (let (shared, b) =
            (if bb_counter b < bb_interval b then (diff_index (bb_last_key b) key, b)
             else (0, b\<lparr>bb_restarts := bb_restarts b @ [of_nat (length (bb_buffer b))], bb_counter := 0\<rparr>));
          non_shared = length key - shared;
          buf = PutVarint32 (bb_buffer b) (of_nat shared);
          buf = PutVarint32 buf (of_nat non_shared);
          buf = PutVarint32 buf (of_nat (length value));
          buf = buf @ take non_shared (drop shared key) @ value
      in b\<lparr>bb_buffer := buf, bb_last_key := take shared (bb_last_key b) @ take non_shared (drop shared key),
           bb_counter := bb_counter b + 1\<rparr>)"

section \<open>Block\<close>

record Block =
  bl_data :: "byte list"
  bl_size :: nat
  bl_restart_offset :: nat

definition NumRestarts :: "byte list \<Rightarrow> nat \<Rightarrow> nat" where
  "NumRestarts data sz = unat (DecodeFixed32 (drop (sz - 4) data))"

text \<open>A restart offset that is not set is 0.\<close>

definition Block_new :: "byte list \<Rightarrow> Block" where
  "Block_new contents =
     (let sz = length contents in
      if sz < 4 then \<lparr>bl_data = contents, bl_size = 0, bl_restart_offset = 0\<rparr>
      else let max_restarts_allowed = (sz - 4) div 4 in
           if NumRestarts contents sz > max_restarts_allowed
           then \<lparr>bl_data = contents, bl_size = 0, bl_restart_offset = 0\<rparr>
           else \<lparr>bl_data = contents, bl_size = sz,
                 bl_restart_offset = u32 (sz - u32 (1 + NumRestarts contents sz) * 4)\<rparr>)"

text \<open>
  \<^verbatim>\<open>DecodeEntry\<close>: the position of the key delta, with the numbers \<open>shared\<close>, \<open>non_shared\<close> and \<open>value_length\<close>.
\<close>

definition DecodeEntry :: "byte list \<Rightarrow> nat \<Rightarrow> nat \<Rightarrow> (nat \<times> nat \<times> nat \<times> nat) option" where
  "DecodeEntry data p limit =
     (if int limit - int p < 3 then None
      else do {
        let bs = take (limit - p) (drop p data);
        let a = bs ! 0; let b = bs ! 1; let c = bs ! 2;
        (shared, non_shared, value_length, rest) \<leftarrow>
          (if (ucast a :: uint32) OR ucast b OR ucast c < 128
           then Some (ucast a, ucast b, ucast c, drop 3 bs)
           else do {
             (shared, q) \<leftarrow> GetVarint32Ptr bs;
             (non_shared, q) \<leftarrow> GetVarint32Ptr q;
             (value_length, q) \<leftarrow> GetVarint32Ptr q;
             Some (shared, non_shared, value_length, q) });
        if (of_nat (length rest) :: uint32) < non_shared + value_length then None
        else Some (limit - length rest, unat shared, unat non_shared, unat value_length) })"

section \<open>Iterator\<close>

text \<open>\<open>it_voff\<close> and \<open>it_vlen\<close> are the slice \<^verbatim>\<open>value_\<close>.\<close>

record BlockIter =
  it_data :: "byte list"
  it_restarts :: nat
  it_num_restarts :: nat
  it_current :: nat
  it_restart_index :: nat
  it_key :: "byte list"
  it_voff :: nat
  it_vlen :: nat
  it_status :: status

definition BlockIter_new :: "byte list \<Rightarrow> nat \<Rightarrow> nat \<Rightarrow> BlockIter" where
  "BlockIter_new data restarts num_restarts =
     \<lparr>it_data = data, it_restarts = restarts, it_num_restarts = num_restarts, it_current = restarts,
      it_restart_index = num_restarts, it_key = [], it_voff = 0, it_vlen = 0, it_status = OK\<rparr>"

text \<open>\<^verbatim>\<open>NewIterator\<close>: an iterator with an error, the empty iterator, or one over the block.\<close>

definition Block_NewIterator :: "Block \<Rightarrow> status + BlockIter option" where
  "Block_NewIterator b =
     (if bl_size b < 4 then Inl (Corruption (c_str ''bad block contents'') [])
      else let num_restarts = NumRestarts (bl_data b) (bl_size b) in
           if num_restarts = 0 then Inr None
           else Inr (Some (BlockIter_new (bl_data b) (bl_restart_offset b) num_restarts)))"

definition BlockIter_Valid :: "BlockIter \<Rightarrow> bool" where
  "BlockIter_Valid it \<longleftrightarrow> it_current it < it_restarts it"

definition BlockIter_value :: "BlockIter \<Rightarrow> slice" where
  "BlockIter_value it = take (it_vlen it) (drop (it_voff it) (it_data it))"

definition NextEntryOffset :: "BlockIter \<Rightarrow> nat" where
  "NextEntryOffset it = u32 (it_voff it + it_vlen it)"

definition GetRestartPoint :: "BlockIter \<Rightarrow> nat \<Rightarrow> nat" where
  "GetRestartPoint it index = unat (DecodeFixed32 (drop (it_restarts it + index * 4) (it_data it)))"

definition SeekToRestartPoint :: "nat \<Rightarrow> BlockIter \<Rightarrow> BlockIter" where
  "SeekToRestartPoint index it =
     it\<lparr>it_key := [], it_restart_index := index, it_voff := GetRestartPoint it index, it_vlen := 0\<rparr>"

definition CorruptionError :: "BlockIter \<Rightarrow> BlockIter" where
  "CorruptionError it =
     it\<lparr>it_current := it_restarts it, it_restart_index := it_num_restarts it,
        it_status := Corruption (c_str ''bad entry in block'') [], it_key := [], it_voff := 0, it_vlen := 0\<rparr>"

function next_restart_index :: "BlockIter \<Rightarrow> nat \<Rightarrow> nat" where
  "next_restart_index it i =
     (if i + 1 < it_num_restarts it \<and> GetRestartPoint it (i + 1) < it_current it then next_restart_index it (i + 1) else i)"
  by pat_completeness auto
termination
  by (relation "measure (\<lambda>(it, i). it_num_restarts it - i)") auto

declare next_restart_index.simps [simp del]

definition ParseNextKey :: "BlockIter \<Rightarrow> bool \<times> BlockIter" where
  "ParseNextKey it =
     (let it = it\<lparr>it_current := NextEntryOffset it\<rparr> in
      if it_current it \<ge> it_restarts it
      then (False, it\<lparr>it_current := it_restarts it, it_restart_index := it_num_restarts it\<rparr>)
      else case DecodeEntry (it_data it) (it_current it) (it_restarts it) of
             None \<Rightarrow> (False, CorruptionError it)
           | Some (p, shared, non_shared, value_length) \<Rightarrow>
               if length (it_key it) < shared then (False, CorruptionError it)
               else let it = it\<lparr>it_key := take shared (it_key it) @ take non_shared (drop p (it_data it)),
                                it_voff := p + non_shared, it_vlen := value_length\<rparr>
                    in (True, it\<lparr>it_restart_index := next_restart_index it (it_restart_index it)\<rparr>))"

definition BlockIter_Next :: "BlockIter \<Rightarrow> BlockIter" where
  "BlockIter_Next it = snd (ParseNextKey it)"

text \<open>The first loop of \<^verbatim>\<open>Prev\<close>: none when there are no more entries.\<close>

function prev_restart :: "BlockIter \<Rightarrow> nat \<Rightarrow> nat \<Rightarrow> nat option" where
  "prev_restart it original i =
     (if GetRestartPoint it i \<ge> original then if i = 0 then None else prev_restart it original (i - 1) else Some i)"
  by pat_completeness auto
termination
  by (relation "measure (\<lambda>(it, original, i). i)") auto

declare prev_restart.simps [simp del]

text \<open>Parsing while entries end before \<open>limit\<close>.\<close>

partial_function (option) parse_until :: "nat \<Rightarrow> BlockIter \<Rightarrow> BlockIter option" where
  "parse_until limit it =
     (case ParseNextKey it of (more_left, it) \<Rightarrow>
        if more_left \<and> NextEntryOffset it < limit then parse_until limit it else Some it)"

definition BlockIter_Prev :: "BlockIter \<Rightarrow> BlockIter option" where
  "BlockIter_Prev it =
     (case prev_restart it (it_current it) (it_restart_index it) of
        None \<Rightarrow> Some (it\<lparr>it_current := it_restarts it, it_restart_index := it_num_restarts it\<rparr>)
      | Some i \<Rightarrow> parse_until (it_current it) (SeekToRestartPoint i it))"

text \<open>The binary search: none in the inner option for a corrupted entry.\<close>

partial_function (option) seek_restart ::
    "(slice \<Rightarrow> slice \<Rightarrow> int) \<Rightarrow> BlockIter \<Rightarrow> slice \<Rightarrow> nat \<Rightarrow> nat \<Rightarrow> nat option option" where
  "seek_restart cmp it target left right =
     (if left < right then
        let mid = u32 (left + right + 1) div 2 in
        case DecodeEntry (it_data it) (GetRestartPoint it mid) (it_restarts it) of
          None \<Rightarrow> Some None
        | Some (key_ptr, shared, non_shared, value_length) \<Rightarrow>
            if shared \<noteq> 0 then Some None
            else if cmp (take non_shared (drop key_ptr (it_data it))) target < 0
                 then seek_restart cmp it target mid right
                 else seek_restart cmp it target left (mid - 1)
      else Some (Some left))"

partial_function (option) seek_linear :: "(slice \<Rightarrow> slice \<Rightarrow> int) \<Rightarrow> slice \<Rightarrow> BlockIter \<Rightarrow> BlockIter option" where
  "seek_linear cmp target it =
     (case ParseNextKey it of (more_left, it) \<Rightarrow>
        if \<not> more_left then Some it
        else if cmp (it_key it) target \<ge> 0 then Some it
        else seek_linear cmp target it)"

definition BlockIter_Seek :: "(slice \<Rightarrow> slice \<Rightarrow> int) \<Rightarrow> slice \<Rightarrow> BlockIter \<Rightarrow> BlockIter option" where
  "BlockIter_Seek cmp target it = do {
     r \<leftarrow> seek_restart cmp it target 0 (it_num_restarts it - 1);
     case r of
       None \<Rightarrow> Some (CorruptionError it)
     | Some left \<Rightarrow> seek_linear cmp target (SeekToRestartPoint left it) }"

definition BlockIter_SeekToFirst :: "BlockIter \<Rightarrow> BlockIter" where
  "BlockIter_SeekToFirst it = snd (ParseNextKey (SeekToRestartPoint 0 it))"

definition BlockIter_SeekToLast :: "BlockIter \<Rightarrow> BlockIter option" where
  "BlockIter_SeekToLast it = parse_until (it_restarts it) (SeekToRestartPoint (it_num_restarts it - 1) it)"

end
