(* ===== verification/Ldb_Bloom.thy ===== *)
theory Ldb_Bloom
  imports Ldb_Coding
begin

text \<open>
  \<^verbatim>\<open>leveldb-library/util/hash.cc\<close>, \<^verbatim>\<open>util/bloom.cc\<close> and \<^verbatim>\<open>table/filter_block.h\<close>,
  \<^verbatim>\<open>filter_block.cc\<close>: the hash function, the bloom filter and the block of filters of a table. The
  contract \<open>filter_policy\<close> is what a filter block relies on, and the bloom filter keeps it: a filter matches the
  keys it was made for.
\<close>

section \<open>Hashing\<close>

fun hash_words :: "uint32 \<Rightarrow> byte list \<Rightarrow> uint32 \<times> byte list" where
  "hash_words h (b0 # b1 # b2 # b3 # data) =
     (let w = DecodeFixed32 [b0, b1, b2, b3];
          h = (h + w) * 0xc6a4a793;
          h = h XOR drop_bit 16 h
      in hash_words h data)"
| "hash_words h data = (h, data)"

definition Hash :: "byte list \<Rightarrow> uint32 \<Rightarrow> uint32" where
  "Hash data seed =
     (let m = 0xc6a4a793;
          r = 24;
          h = seed XOR (of_nat (length data) * m);
          (h, data) = hash_words h data;
          h = (if length data = 3 then h + push_bit 16 (ucast (data ! 2)) else h);
          h = (if length data = 3 \<or> length data = 2 then h + push_bit 8 (ucast (data ! 1)) else h)
      in if length data = 3 \<or> length data = 2 \<or> length data = 1
         then (let h = (h + ucast (data ! 0)) * m in h XOR drop_bit r h)
         else h)"

definition BloomHash :: "slice \<Rightarrow> uint32" where
  "BloomHash key = Hash key 0xbc9f1d34"

section \<open>Bloom filter\<close>

text \<open>
  \<open>k\<close> is the product with 0.69, rounded down and brought into the range from 1 to 30; the floating point product
  and the quotient here agree where this range does not decide. The number of keys and of bits per key are values of
  \<^verbatim>\<open>int\<close> that are not negative, so their product does not exceed a \<^verbatim>\<open>size_t\<close>.
\<close>

record BloomFilterPolicy =
  bits_per_key :: nat
  k_probes :: nat

definition BloomFilterPolicy_new :: "nat \<Rightarrow> BloomFilterPolicy" where
  "BloomFilterPolicy_new bpk =
     (let k = bpk * 69 div 100;
          k = (if k < 1 then 1 else k);
          k = (if k > 30 then 30 else k)
      in \<lparr>bits_per_key = bpk, k_probes = k\<rparr>)"

definition bloom_delta :: "uint32 \<Rightarrow> uint32" where
  "bloom_delta h = drop_bit 17 h OR push_bit 15 h"

text \<open>The loop over the probes of a key, on the array in front of the byte with the number of probes.\<close>

fun add_probes :: "nat \<Rightarrow> uint32 \<Rightarrow> uint32 \<Rightarrow> nat \<Rightarrow> byte list \<Rightarrow> byte list" where
  "add_probes 0 h delta bits array = array"
| "add_probes (Suc j) h delta bits array =
     (let bitpos = unat h mod bits in
      add_probes j (h + delta) delta bits
        (array[bitpos div 8 := array ! (bitpos div 8) OR push_bit (bitpos mod 8) 1]))"

definition add_key :: "nat \<Rightarrow> nat \<Rightarrow> byte list \<Rightarrow> slice \<Rightarrow> byte list" where
  "add_key k bits array key = (let h = BloomHash key in add_probes k h (bloom_delta h) bits array)"

definition CreateFilter :: "BloomFilterPolicy \<Rightarrow> slice list \<Rightarrow> byte list \<Rightarrow> byte list" where
  "CreateFilter p keys dst =
     (let bits = length keys * bits_per_key p;
          bits = (if bits < 64 then 64 else bits);
          bytes = (bits + 7) div 8;
          bits = bytes * 8
      in dst @ foldl (add_key (k_probes p) bits) (replicate bytes 0) keys @ [of_nat (k_probes p)])"

fun match_probes :: "nat \<Rightarrow> uint32 \<Rightarrow> uint32 \<Rightarrow> nat \<Rightarrow> byte list \<Rightarrow> bool" where
  "match_probes 0 h delta bits array = True"
| "match_probes (Suc j) h delta bits array =
     (let bitpos = unat h mod bits in
      if array ! (bitpos div 8) AND push_bit (bitpos mod 8) 1 = 0 then False
      else match_probes j (h + delta) delta bits array)"

definition KeyMayMatch :: "slice \<Rightarrow> slice \<Rightarrow> bool" where
  "KeyMayMatch key bloom_filter =
     (let len = length bloom_filter in
      if len < 2 then False
      else let bits = (len - 1) * 8;
               k = unat (scast (bloom_filter ! (len - 1)) :: size_t)
           in if k > 30 then True
              else let h = BloomHash key in match_probes k h (bloom_delta h) bits bloom_filter)"

section \<open>No false negatives\<close>

text \<open>Setting bits keeps those that are set.\<close>

definition bits_kept :: "byte list \<Rightarrow> byte list \<Rightarrow> bool" where
  "bits_kept a b \<longleftrightarrow> length a = length b \<and> (\<forall>i < length a. \<forall>j. bit (a ! i) j \<longrightarrow> bit (b ! i) j)"

lemma bits_kept_refl [simp]: "bits_kept a a"
  by (simp add: bits_kept_def)

lemma bits_kept_trans: "bits_kept a b \<Longrightarrow> bits_kept b c \<Longrightarrow> bits_kept a c"
  by (simp add: bits_kept_def)

lemma bits_kept_set: "bits_kept a (a[i := a ! i OR w])"
  by (cases "i < length a") (auto simp: bits_kept_def nth_list_update bit_or_iff)

lemma add_probes_kept: "bits_kept a (add_probes k h delta bits a)"
proof (induction k arbitrary: h a)
  case (Suc k)
  then show ?case by (auto simp: Let_def intro: bits_kept_trans [OF bits_kept_set])
qed simp

lemma match_probes_kept:
  assumes "match_probes k h delta bits a" "bits_kept a b" "bits = 8 * length a" "0 < bits"
  shows "match_probes k h delta bits (b @ post)"
  using assms
proof (induction k arbitrary: h)
  case (Suc k)
  have i: "unat h mod bits div 8 < length a" using Suc.prems(3,4) by (simp add: less_mult_imp_div_less mult.commute)
  then show ?case using Suc i by (auto simp: Let_def and_exp_eq_0_iff_not_bit bits_kept_def nth_append split: if_splits)
qed simp

lemma match_add_probes:
  assumes "bits = 8 * length a" "0 < bits"
  shows "match_probes k h delta bits (add_probes k h delta bits a @ post)"
  using assms
proof (induction k arbitrary: h a)
  case (Suc k)
  let ?i = "unat h mod bits div 8" and ?j = "unat h mod bits mod 8"
  let ?a = "a[?i := a ! ?i OR push_bit ?j 1]"
  let ?b = "add_probes k (h + delta) delta bits ?a"
  have i: "?i < length a" using Suc.prems by (simp add: less_mult_imp_div_less mult.commute)
  have "bit (?a ! ?i) ?j" using i by (simp add: bit_or_iff bit_exp_iff)
  then have "bit ((?b @ post) ! ?i) ?j" "length ?b = length a"
    using add_probes_kept [of ?a k "h + delta" delta bits] i by (auto simp: bits_kept_def nth_append)
  moreover have "match_probes k (h + delta) delta bits (?b @ post)" using Suc.IH [of ?a] Suc.prems by simp
  ultimately show ?case by (simp add: Let_def and_exp_eq_0_iff_not_bit)
qed simp

lemma fold_add_key_kept: "bits_kept a (foldl (add_key k bits) a keys)"
proof (induction keys arbitrary: a)
  case (Cons key keys)
  then show ?case by (auto simp: add_key_def Let_def intro: bits_kept_trans [OF add_probes_kept])
qed simp

lemma fold_add_key_match:
  assumes "key \<in> set keys" "bits = 8 * length a" "0 < bits"
  shows "match_probes k (BloomHash key) (bloom_delta (BloomHash key)) bits (foldl (add_key k bits) a keys @ post)"
  using assms
proof (induction keys arbitrary: a)
  case (Cons key' keys)
  let ?a = "add_key k bits a key'"
  have l: "length ?a = length a" using add_probes_kept [of a k] by (simp add: add_key_def Let_def bits_kept_def)
  show ?case
  proof (cases "key = key'")
    case True
    have "match_probes k (BloomHash key) (bloom_delta (BloomHash key)) bits (?a @ [])"
      using match_add_probes [OF Cons.prems(2,3)] True by (simp only: add_key_def Let_def)
    then show ?thesis using match_probes_kept [OF _ fold_add_key_kept, of k _ _ bits ?a k bits keys post] Cons.prems(2,3) l
      by simp
  next
    case False
    then show ?thesis using Cons.IH [of ?a] Cons.prems l by simp
  qed
qed simp

lemma probes_byte:
  assumes "k \<le> 30"
  shows "unat (scast (of_nat k :: byte) :: size_t) = k"
proof -
  have "k \<in> set [0..<31]" using assms by (simp only: set_upt) simp
  moreover have "\<forall>k \<in> set [0..<31]. (scast (of_nat k :: byte) :: size_t) = of_nat k" by code_simp
  ultimately have "(scast (of_nat k :: byte) :: size_t) = of_nat k" by blast
  then show ?thesis using assms by (simp add: unat_of_nat)
qed

lemma KeyMayMatch_filter:
  assumes "k \<le> 30" "0 < length a"
    "match_probes k (BloomHash key) (bloom_delta (BloomHash key)) (length a * 8) (a @ [of_nat k])"
  shows "KeyMayMatch key (a @ [of_nat k])"
  using assms by (simp add: KeyMayMatch_def Let_def probes_byte)

lemma KeyMayMatch_created:
  assumes "key \<in> set keys" "k_probes p \<le> 30"
  shows "\<exists>f. CreateFilter p keys dst = dst @ f \<and> KeyMayMatch key f"
proof -
  obtain bytes where b: "bytes = ((if length keys * bits_per_key p < 64 then 64 else length keys * bits_per_key p) + 7) div 8"
    by blast
  let ?a = "foldl (add_key (k_probes p) (bytes * 8)) (replicate bytes 0) keys"
  have len: "length ?a = bytes" using fold_add_key_kept [of "replicate bytes 0"] by (simp add: bits_kept_def)
  have pos: "0 < bytes" by (auto simp: b)
  then have ne: "0 < length ?a" by (simp only: len)
  have "match_probes (k_probes p) (BloomHash key) (bloom_delta (BloomHash key)) (length ?a * 8) (?a @ [of_nat (k_probes p)])"
    unfolding len by (rule fold_add_key_match [OF assms(1)]) (use pos in simp_all)
  then have "KeyMayMatch key (?a @ [of_nat (k_probes p)])" by (rule KeyMayMatch_filter [OF assms(2) ne])
  then show ?thesis
    by (intro exI [of _ "?a @ [of_nat (k_probes p)]"]) (simp add: CreateFilter_def Let_def b [symmetric])
qed

lemma k_probes_bound: "1 \<le> k_probes (BloomFilterPolicy_new bpk)" "k_probes (BloomFilterPolicy_new bpk) \<le> 30"
  by (simp_all add: BloomFilterPolicy_new_def Let_def)

text \<open>The contract of \<^verbatim>\<open>FilterPolicy\<close>: a filter is appended, and it matches the keys it was made for.\<close>

locale filter_policy =
  fixes create :: "slice list \<Rightarrow> byte list \<Rightarrow> byte list"
    and matches :: "slice \<Rightarrow> slice \<Rightarrow> bool"
  assumes create_matches: "\<exists>f. create keys dst = dst @ f \<and> (\<forall>key \<in> set keys. matches key f)"

interpretation bloom: filter_policy "CreateFilter (BloomFilterPolicy_new bpk)" KeyMayMatch for bpk
proof
  fix keys dst
  have "\<exists>f. CreateFilter (BloomFilterPolicy_new bpk) keys dst = dst @ f" by (simp add: CreateFilter_def Let_def)
  then obtain f where f: "CreateFilter (BloomFilterPolicy_new bpk) keys dst = dst @ f" by blast
  then have "KeyMayMatch key f" if "key \<in> set keys" for key
    using KeyMayMatch_created [OF that k_probes_bound(2), of bpk dst] by auto
  then show "\<exists>f. CreateFilter (BloomFilterPolicy_new bpk) keys dst = dst @ f \<and> (\<forall>key \<in> set keys. KeyMayMatch key f)"
    using f by blast
qed

text \<open>
  A bloom filter has no false negatives: a filter made by \<^verbatim>\<open>CreateFilter\<close> for any keys and any number of bits per
  key matches each of them, also behind other data in the same string.
\<close>

theorem bloom_no_false_negatives:
  "\<exists>f. CreateFilter (BloomFilterPolicy_new bpk) keys dst = dst @ f \<and> list_all (\<lambda>key. KeyMayMatch key f) keys"
  using bloom.create_matches [of bpk keys dst] by (auto simp: list_all_iff)

section \<open>Filter blocks\<close>

definition kFilterBaseLg :: nat where
  "kFilterBaseLg = 11"

definition kFilterBase :: nat where
  "kFilterBase = 2 ^ kFilterBaseLg"

text \<open>\<open>create\<close> and \<open>matches\<close> are the virtual functions of the policy.\<close>

record FilterBlockBuilder =
  keys_flat :: "byte list"
  start :: "nat list"
  result :: "byte list"
  filter_offsets :: "uint32 list"

definition FilterBlockBuilder_new :: FilterBlockBuilder where
  "FilterBlockBuilder_new = \<lparr>keys_flat = [], start = [], result = [], filter_offsets = []\<rparr>"

definition GenerateFilter :: "(slice list \<Rightarrow> byte list \<Rightarrow> byte list) \<Rightarrow> FilterBlockBuilder \<Rightarrow> FilterBlockBuilder" where
  "GenerateFilter create b =
     (let num_keys = length (start b) in
      if num_keys = 0 then b\<lparr>filter_offsets := filter_offsets b @ [of_nat (length (result b))]\<rparr>
      else
        let st = start b @ [length (keys_flat b)];
            tmp_keys = map (\<lambda>i. take (st ! (i + 1) - st ! i) (drop (st ! i) (keys_flat b))) [0..<num_keys]
        in b\<lparr>filter_offsets := filter_offsets b @ [of_nat (length (result b))],
             result := create tmp_keys (result b), keys_flat := [], start := []\<rparr>)"

lemma length_GenerateFilter [simp]: "length (filter_offsets (GenerateFilter create b)) = Suc (length (filter_offsets b))"
  by (simp add: GenerateFilter_def Let_def)

text \<open>The loop of \<^verbatim>\<open>StartBlock\<close>, up to the index of the filter.\<close>

function generate_until ::
    "(slice list \<Rightarrow> byte list \<Rightarrow> byte list) \<Rightarrow> nat \<Rightarrow> FilterBlockBuilder \<Rightarrow> FilterBlockBuilder" where
  "generate_until create filter_index b =
     (if filter_index > length (filter_offsets b) then generate_until create filter_index (GenerateFilter create b) else b)"
  by pat_completeness auto
termination
  by (relation "measure (\<lambda>(create, n, b). n - length (filter_offsets b))") auto

declare generate_until.simps [simp del]

definition StartBlock ::
    "(slice list \<Rightarrow> byte list \<Rightarrow> byte list) \<Rightarrow> uint64 \<Rightarrow> FilterBlockBuilder \<Rightarrow> FilterBlockBuilder" where
  "StartBlock create block_offset b = generate_until create (unat (block_offset div of_nat kFilterBase)) b"

definition AddKey :: "slice \<Rightarrow> FilterBlockBuilder \<Rightarrow> FilterBlockBuilder" where
  "AddKey key b = b\<lparr>start := start b @ [length (keys_flat b)], keys_flat := keys_flat b @ key\<rparr>"

definition FilterBlock_Finish :: "(slice list \<Rightarrow> byte list \<Rightarrow> byte list) \<Rightarrow> FilterBlockBuilder \<Rightarrow> slice" where
  "FilterBlock_Finish create b =
     (let b = (if start b \<noteq> [] then GenerateFilter create b else b);
          array_offset = of_nat (length (result b)) :: uint32
      in foldl PutFixed32 (result b) (filter_offsets b @ [array_offset]) @ [of_nat kFilterBaseLg])"

text \<open>
  The reader keeps pointers into the contents: the data, the offset of the array in it, the number of entries and
  the parameter, a \<^verbatim>\<open>char\<close> that is sign-extended. An empty array of entries stands for a null pointer as well.
  The code shifts by the parameter, which is not defined from 64 on; the model gives 0 there.
\<close>

record FilterBlockReader =
  fr_data :: slice
  fr_offset :: nat
  fr_num :: nat
  base_lg :: size_t

definition FilterBlockReader_new :: "slice \<Rightarrow> FilterBlockReader" where
  "FilterBlockReader_new contents =
     (let n = length contents; r = \<lparr>fr_data = [], fr_offset = 0, fr_num = 0, base_lg = 0\<rparr> in
      if n < 5 then r
      else let r = r\<lparr>base_lg := scast (contents ! (n - 1))\<rparr>;
               last_word = unat (DecodeFixed32 (drop (n - 5) contents))
           in if last_word > n - 5 then r
              else r\<lparr>fr_data := contents, fr_offset := last_word, fr_num := (n - 5 - last_word) div 4\<rparr>)"

definition FilterBlock_KeyMayMatch ::
    "(slice \<Rightarrow> slice \<Rightarrow> bool) \<Rightarrow> FilterBlockReader \<Rightarrow> uint64 \<Rightarrow> slice \<Rightarrow> bool" where
  "FilterBlock_KeyMayMatch matches r block_offset key =
     (let index = unat (drop_bit (unat (base_lg r)) block_offset) in
      if index < fr_num r then
        let start = unat (DecodeFixed32 (drop (fr_offset r + index * 4) (fr_data r)));
            limit = unat (DecodeFixed32 (drop (fr_offset r + index * 4 + 4) (fr_data r)))
        in if start \<le> limit \<and> limit \<le> fr_offset r then matches key (take (limit - start) (drop start (fr_data r)))
           else if start = limit then False
           else True
      else True)"

end
