(* ===== verification/Ldb_Table.thy ===== *)
theory Ldb_Table
  imports Ldb_Format Ldb_Block Ldb_Bloom Ldb_Log "HOL-Library.Multiset"
begin

text \<open>
  \<^verbatim>\<open>leveldb-library/table/table_builder.cc\<close> and \<^verbatim>\<open>table.cc\<close>: writing a table file and looking a key up in one, over the
  virtual functions of the file, of the comparator, of the filter policy and of the block cache. None: an operation of the file
  does not return, or bytes outside of what was read are used. The assertions of the code are not part of its
  behaviour; the theorems show the states in which the operations are called.
\<close>

section \<open>Options\<close>

text \<open>The virtual functions; a comparator has an address, which the code compares.\<close>

record Comparator =
  cmp_addr :: addr
  vCompare :: "slice \<Rightarrow> slice \<Rightarrow> int"
  vSeparator :: "slice \<Rightarrow> slice \<Rightarrow> slice"
  vSuccessor :: "slice \<Rightarrow> slice"

record FilterPolicy =
  vName :: "byte list"
  vCreate :: "slice list \<Rightarrow> byte list \<Rightarrow> byte list"
  vMatches :: "slice \<Rightarrow> slice \<Rightarrow> bool"

record Options =
  opt_comparator :: Comparator
  paranoid_checks :: bool
  block_size :: nat
  block_restart_interval :: nat
  compression :: CompressionType
  opt_filter :: "FilterPolicy option"

record ReadOptions =
  verify_checksums :: bool
  fill_cache :: bool

definition ReadOptions_new :: ReadOptions where
  "ReadOptions_new = \<lparr>verify_checksums = False, fill_cache = True\<rparr>"

text \<open>The filter policy over internal keys, \<^verbatim>\<open>InternalFilterPolicy\<close>.\<close>

definition InternalFilterPolicy :: "FilterPolicy \<Rightarrow> FilterPolicy" where
  "InternalFilterPolicy user =
     \<lparr>vName = vName user, vCreate = (\<lambda>keys dst. vCreate user (map ExtractUserKey keys) dst),
      vMatches = (\<lambda>key f. vMatches user (ExtractUserKey key) f)\<rparr>"

section \<open>Builder\<close>

record 'f TableBuilder =
  tb_options :: Options
  tb_file :: 'f
  tb_offset :: uint64
  tb_status :: status
  data_block :: BlockBuilder
  index_block :: BlockBuilder
  tb_last_key :: "byte list"
  num_entries :: uint64
  tb_closed :: bool
  tb_filter :: "FilterBlockBuilder option"
  pending_index_entry :: bool
  pending_handle :: BlockHandle
  compressed_output :: "byte list"

text \<open>The interval of the index block is 1.\<close>

definition TableBuilder_new :: "Options \<Rightarrow> 'f \<Rightarrow> 'f TableBuilder" where
  "TableBuilder_new opt f =
     \<lparr>tb_options = opt, tb_file = f, tb_offset = 0, tb_status = OK,
      data_block = BlockBuilder_new (block_restart_interval opt), index_block = BlockBuilder_new 1,
      tb_last_key = [], num_entries = 0, tb_closed = False,
      tb_filter = map_option (\<lambda>policy. StartBlock (vCreate policy) 0 FilterBlockBuilder_new) (opt_filter opt),
      pending_index_entry = False, pending_handle = BlockHandle_new, compressed_output = []\<rparr>"

text \<open>The block builders hold a pointer to the options, so they see the new interval.\<close>

definition ChangeOptions :: "Options \<Rightarrow> 'f TableBuilder \<Rightarrow> status \<times> 'f TableBuilder" where
  "ChangeOptions opt r =
     (if cmp_addr (opt_comparator opt) \<noteq> cmp_addr (opt_comparator (tb_options r))
      then (InvalidArgument (c_str ''changing comparator while building table'') [], r)
      else (OK, r\<lparr>tb_options := opt, data_block := (data_block r)\<lparr>bb_interval := block_restart_interval opt\<rparr>\<rparr>))"

definition WriteRawBlock ::
    "'f WritableFile \<Rightarrow> slice \<Rightarrow> CompressionType \<Rightarrow> 'f TableBuilder \<Rightarrow> (BlockHandle \<times> 'f TableBuilder) option" where
  "WriteRawBlock vt block_contents type r = do {
     let handle = \<lparr>bh_offset = tb_offset r, bh_size = of_nat (length block_contents)\<rparr>;
     (s, f) \<leftarrow> vAppend vt block_contents (tb_file r);
     let r = r\<lparr>tb_file := f, tb_status := s\<rparr>;
     if ok s then do {
       let crc = Value 0 block_contents;
       let crc = Extend 0 crc [compression_type type];
       let trailer = compression_type type # EncodeFixed32 (Mask crc);
       (s, f) \<leftarrow> vAppend vt trailer (tb_file r);
       let r = r\<lparr>tb_file := f, tb_status := s\<rparr>;
       Some (handle, if ok s then r\<lparr>tb_offset := tb_offset r + of_nat (length block_contents + kBlockTrailerSize)\<rparr> else r)
     } else Some (handle, r) }"

text \<open>\<^verbatim>\<open>WriteBlock\<close> on a block builder, which is returned reset.\<close>

definition WriteBlock ::
    "'f WritableFile \<Rightarrow> BlockBuilder \<Rightarrow> 'f TableBuilder \<Rightarrow> (BlockHandle \<times> BlockBuilder \<times> 'f TableBuilder) option" where
  "WriteBlock vt block r = do {
     let block = BlockBuilder_Finish block;
     let raw = bb_buffer block;
     let (block_contents, type, r) =
       (case compression (tb_options r) of
          kNoCompression \<Rightarrow> (raw, kNoCompression, r)
        | kSnappyCompression \<Rightarrow>
            (case Snappy_Compress raw of
               Some compressed \<Rightarrow>
                 let r = r\<lparr>compressed_output := compressed\<rparr> in
                 if length compressed < length raw - length raw div 8 then (compressed, kSnappyCompression, r)
                 else (raw, kNoCompression, r)
             | None \<Rightarrow> (raw, kNoCompression, r)));
     (handle, r) \<leftarrow> WriteRawBlock vt block_contents type r;
     Some (handle, BlockBuilder_Reset block, r\<lparr>compressed_output := []\<rparr>) }"

definition TableBuilder_Flush :: "'f WritableFile \<Rightarrow> 'f TableBuilder \<Rightarrow> 'f TableBuilder option" where
  "TableBuilder_Flush vt r =
     (if \<not> ok (tb_status r) then Some r
      else if BlockBuilder_empty (data_block r) then Some r
      else do {
        (handle, block, r) \<leftarrow> WriteBlock vt (data_block r) r;
        let r = r\<lparr>data_block := block, pending_handle := handle\<rparr>;
        r \<leftarrow> (if ok (tb_status r) then do {
               let r = r\<lparr>pending_index_entry := True\<rparr>;
               (s, f) \<leftarrow> vFlush vt (tb_file r);
               Some (r\<lparr>tb_file := f, tb_status := s\<rparr>)
             } else Some r);
        Some (case opt_filter (tb_options r) of
                None \<Rightarrow> r
              | Some policy \<Rightarrow> r\<lparr>tb_filter := map_option (StartBlock (vCreate policy) (tb_offset r)) (tb_filter r)\<rparr>) })"

text \<open>The entry of the index for the last data block, with a key from that block on.\<close>

definition add_index_entry :: "slice \<Rightarrow> 'f TableBuilder \<Rightarrow> 'f TableBuilder" where
  "add_index_entry key r =
     r\<lparr>tb_last_key := key, index_block := BlockBuilder_Add key (BlockHandle_EncodeTo (pending_handle r) []) (index_block r),
       pending_index_entry := False\<rparr>"

definition TableBuilder_Add :: "'f WritableFile \<Rightarrow> slice \<Rightarrow> slice \<Rightarrow> 'f TableBuilder \<Rightarrow> 'f TableBuilder option" where
  "TableBuilder_Add vt key value r =
     (if \<not> ok (tb_status r) then Some r
      else
        let r = (if pending_index_entry r then add_index_entry (vSeparator (opt_comparator (tb_options r)) (tb_last_key r) key) r else r);
            r = r\<lparr>tb_filter := map_option (AddKey key) (tb_filter r)\<rparr>;
            r = r\<lparr>tb_last_key := key, num_entries := num_entries r + 1, data_block := BlockBuilder_Add key value (data_block r)\<rparr>
        in if CurrentSizeEstimate (data_block r) \<ge> block_size (tb_options r) then TableBuilder_Flush vt r else Some r)"

definition write_filter_block :: "'f WritableFile \<Rightarrow> 'f TableBuilder \<Rightarrow> (BlockHandle \<times> 'f TableBuilder) option" where
  "write_filter_block vt r =
     (case (opt_filter (tb_options r), tb_filter r) of
        (Some policy, Some b) \<Rightarrow>
          if ok (tb_status r) then WriteRawBlock vt (FilterBlock_Finish (vCreate policy) b) kNoCompression r
          else Some (BlockHandle_new, r)
      | _ \<Rightarrow> Some (BlockHandle_new, r))"

definition write_metaindex_block :: "'f WritableFile \<Rightarrow> BlockHandle \<Rightarrow> 'f TableBuilder \<Rightarrow> (BlockHandle \<times> 'f TableBuilder) option" where
  "write_metaindex_block vt filter_block_handle r =
     (if ok (tb_status r) then do {
        let meta = BlockBuilder_new (block_restart_interval (tb_options r));
        let meta = (case (opt_filter (tb_options r), tb_filter r) of
                      (Some policy, Some _) \<Rightarrow>
                        BlockBuilder_Add (c_str ''filter.'' @ vName policy) (BlockHandle_EncodeTo filter_block_handle []) meta
                    | _ \<Rightarrow> meta);
        (handle, _, r) \<leftarrow> WriteBlock vt meta r;
        Some (handle, r)
      } else Some (BlockHandle_new, r))"

definition write_index_block :: "'f WritableFile \<Rightarrow> 'f TableBuilder \<Rightarrow> (BlockHandle \<times> 'f TableBuilder) option" where
  "write_index_block vt r =
     (if ok (tb_status r) then do {
        let r = (if pending_index_entry r then add_index_entry (vSuccessor (opt_comparator (tb_options r)) (tb_last_key r)) r else r);
        (handle, block, r) \<leftarrow> WriteBlock vt (index_block r) r;
        Some (handle, r\<lparr>index_block := block\<rparr>)
      } else Some (BlockHandle_new, r))"

definition write_footer :: "'f WritableFile \<Rightarrow> BlockHandle \<Rightarrow> BlockHandle \<Rightarrow> 'f TableBuilder \<Rightarrow> 'f TableBuilder option" where
  "write_footer vt metaindex_block_handle index_block_handle r =
     (if ok (tb_status r) then do {
        let footer_encoding = Footer_EncodeTo \<lparr>metaindex_handle = metaindex_block_handle, index_handle = index_block_handle\<rparr> [];
        (s, f) \<leftarrow> vAppend vt footer_encoding (tb_file r);
        let r = r\<lparr>tb_file := f, tb_status := s\<rparr>;
        Some (if ok s then r\<lparr>tb_offset := tb_offset r + of_nat (length footer_encoding)\<rparr> else r)
      } else Some r)"

definition TableBuilder_Finish :: "'f WritableFile \<Rightarrow> 'f TableBuilder \<Rightarrow> (status \<times> 'f TableBuilder) option" where
  "TableBuilder_Finish vt r = do {
     r \<leftarrow> TableBuilder_Flush vt r;
     let r = r\<lparr>tb_closed := True\<rparr>;
     (filter_block_handle, r) \<leftarrow> write_filter_block vt r;
     (metaindex_block_handle, r) \<leftarrow> write_metaindex_block vt filter_block_handle r;
     (index_block_handle, r) \<leftarrow> write_index_block vt r;
     r \<leftarrow> write_footer vt metaindex_block_handle index_block_handle r;
     Some (tb_status r, r) }"

definition TableBuilder_Abandon :: "'f TableBuilder \<Rightarrow> 'f TableBuilder" where
  "TableBuilder_Abandon r = r\<lparr>tb_closed := True\<rparr>"

definition NumEntries :: "'f TableBuilder \<Rightarrow> uint64" where
  "NumEntries r = num_entries r"

definition TableBuilder_FileSize :: "'f TableBuilder \<Rightarrow> uint64" where
  "TableBuilder_FileSize r = tb_offset r"

section \<open>Iterators of blocks\<close>

text \<open>
  An iterator that \<^verbatim>\<open>Block::NewIterator\<close> or \<^verbatim>\<open>NewErrorIterator\<close> returns: an \<^verbatim>\<open>EmptyIterator\<close> with its status, or one over a block.
\<close>

datatype Iterator = EmptyIterator status | OverBlock BlockIter

definition NewEmptyIterator :: Iterator where
  "NewEmptyIterator = EmptyIterator OK"

definition NewErrorIterator :: "status \<Rightarrow> Iterator" where
  "NewErrorIterator s = EmptyIterator s"

definition NewIterator :: "Block \<Rightarrow> Iterator" where
  "NewIterator b = (case Block_NewIterator b of Inl s \<Rightarrow> NewErrorIterator s | Inr None \<Rightarrow> NewEmptyIterator | Inr (Some it) \<Rightarrow> OverBlock it)"

fun iter_Valid :: "Iterator \<Rightarrow> bool" where
  "iter_Valid (EmptyIterator s) = False"
| "iter_Valid (OverBlock it) = BlockIter_Valid it"

fun iter_Seek :: "(slice \<Rightarrow> slice \<Rightarrow> int) \<Rightarrow> slice \<Rightarrow> Iterator \<Rightarrow> Iterator option" where
  "iter_Seek cmp target (EmptyIterator s) = Some (EmptyIterator s)"
| "iter_Seek cmp target (OverBlock it) = map_option OverBlock (BlockIter_Seek cmp target it)"

fun iter_SeekToFirst :: "Iterator \<Rightarrow> Iterator option" where
  "iter_SeekToFirst (EmptyIterator s) = Some (EmptyIterator s)"
| "iter_SeekToFirst (OverBlock it) = Some (OverBlock (BlockIter_SeekToFirst it))"

fun iter_SeekToLast :: "Iterator \<Rightarrow> Iterator option" where
  "iter_SeekToLast (EmptyIterator s) = Some (EmptyIterator s)"
| "iter_SeekToLast (OverBlock it) = map_option OverBlock (BlockIter_SeekToLast it)"

fun iter_Next :: "Iterator \<Rightarrow> Iterator option" where
  "iter_Next (EmptyIterator s) = Some (EmptyIterator s)"
| "iter_Next (OverBlock it) = Some (OverBlock (BlockIter_Next it))"

fun iter_Prev :: "Iterator \<Rightarrow> Iterator option" where
  "iter_Prev (EmptyIterator s) = Some (EmptyIterator s)"
| "iter_Prev (OverBlock it) = map_option OverBlock (BlockIter_Prev it)"

fun iter_key :: "Iterator \<Rightarrow> slice" where
  "iter_key (EmptyIterator s) = []"
| "iter_key (OverBlock it) = it_key it"

fun iter_value :: "Iterator \<Rightarrow> slice" where
  "iter_value (EmptyIterator s) = []"
| "iter_value (OverBlock it) = BlockIter_value it"

fun iter_status :: "Iterator \<Rightarrow> status" where
  "iter_status (EmptyIterator s) = s"
| "iter_status (OverBlock it) = it_status it"

section \<open>Table\<close>

text \<open>
  The virtual functions of a cache for values of type \<open>'v\<close>; the deleter is called by the cache. A result of none is a loop in the cache
  that does not end.
\<close>

record ('h, 'c, 'v) Cache =
  vNewId :: "'c \<Rightarrow> uint64 \<times> 'c"
  vLookup :: "slice \<Rightarrow> 'c \<Rightarrow> ('h option \<times> 'c) option"
  vValue :: "'h \<Rightarrow> 'c \<Rightarrow> 'v"
  vInsert :: "slice \<Rightarrow> 'v \<Rightarrow> nat \<Rightarrow> 'c \<Rightarrow> ('h \<times> 'c) option"
  vRelease :: "'h \<Rightarrow> 'c \<Rightarrow> 'c"

record Table =
  t_options :: Options
  t_cache_id :: uint64
  t_filter :: "FilterBlockReader option"
  t_metaindex_handle :: BlockHandle
  t_index_block :: Block

text \<open>The options for the blocks that are read when the table is opened.\<close>

definition open_options :: "Options \<Rightarrow> ReadOptions" where
  "open_options opt = (if paranoid_checks opt then ReadOptions_new\<lparr>verify_checksums := True\<rparr> else ReadOptions_new)"

definition ReadFilter :: "'f RandomAccessFile \<Rightarrow> slice \<Rightarrow> Table \<Rightarrow> 'f \<Rightarrow> (Table \<times> 'f) option" where
  "ReadFilter vt filter_handle_value t f =
     (case BlockHandle_DecodeFrom BlockHandle_new filter_handle_value of (s, filter_handle, _) \<Rightarrow>
        if \<not> ok s then Some (t, f)
        else do {
          (s, block, f) \<leftarrow> ReadBlock vt (verify_checksums (open_options (t_options t))) filter_handle f;
          if \<not> ok s then Some (t, f)
          else Some (t\<lparr>t_filter := Some (FilterBlockReader_new (bc_data block))\<rparr>, f) })"

definition ReadMeta :: "'f RandomAccessFile \<Rightarrow> Footer \<Rightarrow> Table \<Rightarrow> 'f \<Rightarrow> (Table \<times> 'f) option" where
  "ReadMeta vt footer t f =
     (case opt_filter (t_options t) of
        None \<Rightarrow> Some (t, f)
      | Some policy \<Rightarrow> do {
          (s, contents, f) \<leftarrow> ReadBlock vt (verify_checksums (open_options (t_options t))) (metaindex_handle footer) f;
          if \<not> ok s then Some (t, f)
          else do {
            let iter = NewIterator (Block_new (bc_data contents));
            let key = c_str ''filter.'' @ vName policy;
            iter \<leftarrow> iter_Seek slice_compare key iter;
            if iter_Valid iter \<and> slice_eq (iter_key iter) key then ReadFilter vt (iter_value iter) t f else Some (t, f) } })"

text \<open>
  \<^verbatim>\<open>Open\<close>, with the block cache of the options, if there is one. A file that returns fewer bytes than a footer has leaves
  the rest of the buffer on the stack as it is, and the code decodes it: none.
\<close>

definition Table_Open ::
    "'f RandomAccessFile \<Rightarrow> ('h, 'c, Block) Cache option \<Rightarrow> Options \<Rightarrow> uint64 \<Rightarrow> 'f \<Rightarrow> 'c \<Rightarrow> (status \<times> Table option \<times> 'f \<times> 'c) option" where
  "Table_Open vt cache opt sz f c =
     (if unat sz < Footer_kEncodedLength then Some (Corruption (c_str ''file is too short to be an sstable'') [], None, f, c)
      else case vReadAt vt (sz - of_nat Footer_kEncodedLength) Footer_kEncodedLength f of (s, footer_input, _, f) \<Rightarrow>
        if \<not> ok s then Some (s, None, f, c)
        else if length footer_input < Footer_kEncodedLength then None
        else case Footer_DecodeFrom \<lparr>metaindex_handle = BlockHandle_new, index_handle = BlockHandle_new\<rparr> footer_input of
          (s, footer, _) \<Rightarrow>
            if \<not> ok s then Some (s, None, f, c)
            else do {
              (s, contents, f) \<leftarrow> ReadBlock vt (verify_checksums (open_options opt)) (index_handle footer) f;
              if \<not> ok s then Some (s, None, f, c)
              else do {
                let (cache_id, c) = (case cache of None \<Rightarrow> (0, c) | Some cv \<Rightarrow> vNewId cv c);
                let t = \<lparr>t_options = opt, t_cache_id = cache_id, t_filter = None, t_metaindex_handle = metaindex_handle footer,
                         t_index_block = Block_new (bc_data contents)\<rparr>;
                (t, f) \<leftarrow> ReadMeta vt footer t f;
                Some (s, Some t, f, c) } })"

text \<open>The key of a block in the cache.\<close>

definition cache_key :: "uint64 \<Rightarrow> uint64 \<Rightarrow> slice" where
  "cache_key cache_id offset = EncodeFixed64 cache_id @ EncodeFixed64 offset"

text \<open>
  The part of \<^verbatim>\<open>BlockReader\<close> that finds the block, in the cache or in the file: the status, and the block with its handle in the
  cache.
\<close>

definition find_block ::
    "'f RandomAccessFile \<Rightarrow> ('h, 'c, Block) Cache option \<Rightarrow> Table \<Rightarrow> ReadOptions \<Rightarrow> BlockHandle \<Rightarrow> 'f \<Rightarrow> 'c \<Rightarrow>
      (status \<times> Block option \<times> 'h option \<times> 'f \<times> 'c) option" where
  "find_block vt cache t opt handle f c =
     (case cache of
        Some cv \<Rightarrow>
          (let key = cache_key (t_cache_id t) (bh_offset handle) in do {
             (cache_handle, c) \<leftarrow> vLookup cv key c;
             (case cache_handle of
                Some h \<Rightarrow> Some (OK, Some (vValue cv h c), Some h, f, c)
              | None \<Rightarrow> do {
                  (s, contents, f) \<leftarrow> ReadBlock vt (verify_checksums opt) handle f;
                  if ok s then
                    let block = Block_new (bc_data contents) in
                    if cachable contents \<and> fill_cache opt
                    then do { (h, c) \<leftarrow> vInsert cv key block (bl_size block) c; Some (s, Some block, Some h, f, c) }
                    else Some (s, Some block, None, f, c)
                  else Some (s, None, None, f, c) }) })
      | None \<Rightarrow> do {
          (s, contents, f) \<leftarrow> ReadBlock vt (verify_checksums opt) handle f;
          Some (s, if ok s then Some (Block_new (bc_data contents)) else None, None, f, c) })"

text \<open>The iterator comes with the handle that its cleanup function releases.\<close>

definition BlockReader ::
    "'f RandomAccessFile \<Rightarrow> ('h, 'c, Block) Cache option \<Rightarrow> Table \<Rightarrow> ReadOptions \<Rightarrow> slice \<Rightarrow> 'f \<Rightarrow> 'c \<Rightarrow>
      (Iterator \<times> 'h option \<times> 'f \<times> 'c) option" where
  "BlockReader vt cache t opt index_value f c =
     (case BlockHandle_DecodeFrom BlockHandle_new index_value of (s, handle, _) \<Rightarrow> do {
        (s, block, h, f, c) \<leftarrow> (if ok s then find_block vt cache t opt handle f c else Some (s, None, None, f, c));
        Some (case block of Some b \<Rightarrow> NewIterator b | None \<Rightarrow> NewErrorIterator s, h, f, c) })"

definition ReleaseBlock :: "('h, 'c, Block) Cache option \<Rightarrow> 'h option \<Rightarrow> 'c \<Rightarrow> 'c" where
  "ReleaseBlock cache h c = (case (cache, h) of (Some cv, Some h) \<Rightarrow> vRelease cv h c | _ \<Rightarrow> c)"

text \<open>The lookup within one block; \<open>handle_result\<close> is called on its argument with the key and the value that were found.\<close>

definition get_from_block ::
    "'f RandomAccessFile \<Rightarrow> ('h, 'c, Block) Cache option \<Rightarrow> Table \<Rightarrow> ReadOptions \<Rightarrow> slice \<Rightarrow> 'a \<Rightarrow> ('a \<Rightarrow> slice \<Rightarrow> slice \<Rightarrow> 'a) \<Rightarrow>
      slice \<Rightarrow> 'f \<Rightarrow> 'c \<Rightarrow> (status \<times> 'a \<times> 'f \<times> 'c) option" where
  "get_from_block vt cache t opt k arg handle_result handle_value f c = do {
     (block_iter, h, f, c) \<leftarrow> BlockReader vt cache t opt handle_value f c;
     block_iter \<leftarrow> iter_Seek (vCompare (opt_comparator (t_options t))) k block_iter;
     let arg = (if iter_Valid block_iter then handle_result arg (iter_key block_iter) (iter_value block_iter) else arg);
     Some (iter_status block_iter, arg, f, ReleaseBlock cache h c) }"

definition InternalGet ::
    "'f RandomAccessFile \<Rightarrow> ('h, 'c, Block) Cache option \<Rightarrow> Table \<Rightarrow> ReadOptions \<Rightarrow> slice \<Rightarrow> 'a \<Rightarrow> ('a \<Rightarrow> slice \<Rightarrow> slice \<Rightarrow> 'a) \<Rightarrow>
      'f \<Rightarrow> 'c \<Rightarrow> (status \<times> 'a \<times> 'f \<times> 'c) option" where
  "InternalGet vt cache t opt k arg handle_result f c = do {
     let cmp = vCompare (opt_comparator (t_options t));
     iiter \<leftarrow> iter_Seek cmp k (NewIterator (t_index_block t));
     (s, arg, f, c) \<leftarrow>
       (if iter_Valid iiter then
          let handle_value = iter_value iiter;
              (s, handle, _) = BlockHandle_DecodeFrom BlockHandle_new handle_value
          in case (t_filter t, opt_filter (t_options t)) of
               (Some reader, Some policy) \<Rightarrow>
                 if ok s \<and> \<not> FilterBlock_KeyMayMatch (vMatches policy) reader (bh_offset handle) k then Some (OK, arg, f, c)
                 else get_from_block vt cache t opt k arg handle_result handle_value f c
             | _ \<Rightarrow> get_from_block vt cache t opt k arg handle_result handle_value f c
        else Some (OK, arg, f, c));
     Some (if ok s then iter_status iiter else s, arg, f, c) }"

definition ApproximateOffsetOf :: "Table \<Rightarrow> slice \<Rightarrow> uint64 option" where
  "ApproximateOffsetOf t key = do {
     index_iter \<leftarrow> iter_Seek (vCompare (opt_comparator (t_options t))) key (NewIterator (t_index_block t));
     Some (if iter_Valid index_iter then
             (case BlockHandle_DecodeFrom BlockHandle_new (iter_value index_iter) of
                (s, handle, _) \<Rightarrow> if ok s then bh_offset handle else bh_offset (t_metaindex_handle t))
           else bh_offset (t_metaindex_handle t)) }"

section \<open>The contract of a cache\<close>

text \<open>
  \<open>holds c k v\<close>: a lookup of \<open>k\<close> may return \<open>v\<close>. \<open>lent c\<close> are the handles that were returned and not released. What is held was
  inserted, and the value of a handle does not change while the handle is lent, whatever else is done with the cache.
\<close>

locale value_cache =
  fixes cv :: "('h, 'c, 'v) Cache"
    and holds :: "'c \<Rightarrow> slice \<Rightarrow> 'v \<Rightarrow> bool"
    and lent :: "'c \<Rightarrow> 'h multiset"
    and invar :: "'c \<Rightarrow> bool"
  assumes new_id: "invar c \<Longrightarrow> vNewId cv c = (i, c') \<Longrightarrow>
      invar c' \<and> lent c' = lent c \<and> (\<forall>k v. holds c' k v \<longrightarrow> holds c k v) \<and> (\<forall>h. h \<in># lent c \<longrightarrow> vValue cv h c' = vValue cv h c)"
    and lookup: "invar c \<Longrightarrow> \<exists>r c'. vLookup cv k c = Some (r, c') \<and>
      invar c' \<and> (\<forall>k v. holds c' k v \<longrightarrow> holds c k v) \<and> (\<forall>h. h \<in># lent c \<longrightarrow> vValue cv h c' = vValue cv h c) \<and>
      (case r of None \<Rightarrow> lent c' = lent c | Some h \<Rightarrow> lent c' = add_mset h (lent c) \<and> holds c k (vValue cv h c'))"
    and insert: "invar c \<Longrightarrow> \<exists>h c'. vInsert cv k v n c = Some (h, c') \<and>
      invar c' \<and> lent c' = add_mset h (lent c) \<and> vValue cv h c' = v \<and>
      (\<forall>k' v'. holds c' k' v' \<longrightarrow> holds c k' v' \<or> k' = k \<and> v' = v) \<and> (\<forall>h. h \<in># lent c \<longrightarrow> vValue cv h c' = vValue cv h c)"
    and release: "invar c \<Longrightarrow> h \<in># lent c \<Longrightarrow> c' = vRelease cv h c \<Longrightarrow>
      invar c' \<and> lent c' = lent c - {#h#} \<and> (\<forall>k v. holds c' k v \<longrightarrow> holds c k v) \<and>
      (\<forall>h'. h' \<in># lent c' \<longrightarrow> vValue cv h' c' = vValue cv h' c)"

end
