(* ===== verification/Ldb_Block_Thms.thy ===== *)
theory Ldb_Block_Thms
  imports Ldb_Block Ldb_Iterator
begin

text \<open>
  Blocks are read back as they were built: on a block made by the builder from entries in order, the iterator
  stands on the entries and finds the first one that is not before a target.
\<close>

section \<open>Decoding one entry\<close>

lemma u32_id [simp]: "n < 2 ^ 32 \<Longrightarrow> u32 n = n"
  by (simp add: u32_def)

definition entry_bytes :: "nat \<Rightarrow> slice \<Rightarrow> slice \<Rightarrow> byte list" where
  "entry_bytes s k v =
     EncodeVarint32 (of_nat s) @ EncodeVarint32 (of_nat (length k - s)) @ EncodeVarint32 (of_nat (length v)) @ drop s k @ v"

lemma GetVarint32Ptr_byte: "b < 128 \<Longrightarrow> GetVarint32Ptr (b # q) = Some (ucast b, q)" for b :: byte
  using more_ucast32 [of b] by (auto simp: GetVarint32Ptr_def more_iff word_less_nat_alt)

text \<open>The fast path is a special case of the slow one.\<close>

lemma DecodeEntry_slow:
  assumes "p + 3 \<le> limit" "limit \<le> length data"
  shows "DecodeEntry data p limit = do {
      (shared, q) \<leftarrow> GetVarint32Ptr (take (limit - p) (drop p data));
      (non_shared, q) \<leftarrow> GetVarint32Ptr q;
      (value_length, q) \<leftarrow> GetVarint32Ptr q;
      if (of_nat (length q) :: uint32) < non_shared + value_length then None
      else Some (limit - length q, unat shared, unat non_shared, unat value_length) }"
proof -
  let ?bs = "take (limit - p) (drop p data)"
  have "3 \<le> length ?bs" using assms by simp
  then obtain a b c q where bs: "?bs = a # b # c # q" unfolding numeral_3_eq_3 Suc_le_length_iff by blast
  have ub: "unat x < 2 ^ LENGTH(8)" for x :: byte by (rule unsigned_less)
  have "unat (ucast x :: uint32) = unat x" for x :: byte
    using ub [of x] by (simp add: unsigned_ucast_eq take_bit_nat_eq_self)
  then have le: "(ucast x :: uint32) < 128 \<longleftrightarrow> x < 128" for x :: byte by (simp only: word_less_nat_alt) simp
  have "a < 128 \<and> b < 128 \<and> c < 128" if "(ucast a :: uint32) OR ucast b OR ucast c < 128"
    using that le_word_or2 [of "ucast a :: uint32" "ucast b OR ucast c"] le_word_or1 [of "ucast b OR ucast c :: uint32" "ucast a"]
      le_word_or2 [of "ucast b :: uint32" "ucast c"] le_word_or1 [of "ucast c :: uint32" "ucast b"] le
    by (meson le_less_trans order_trans)
  then show ?thesis using assms(1)
    by (auto simp: DecodeEntry_def Let_def bs GetVarint32Ptr_byte split: bind_split)
qed

lemma DecodeEntry_bytes:
  assumes "data = pre @ entry_bytes s k v @ post" "length pre + length (entry_bytes s k v) \<le> limit" "limit \<le> length data"
    "length data < 2 ^ 32" "s \<le> length k" "length k < 2 ^ 32"
  shows "\<exists>p. DecodeEntry data (length pre) limit = Some (p, s, length k - s, length v) \<and>
    take (length k - s) (drop p data) = drop s k \<and> take (length v) (drop (p + (length k - s)) data) = v \<and>
    p + (length k - s) + length v = length pre + length (entry_bytes s k v)"
proof -
  let ?e = "entry_bytes s k v" and ?p = "length pre"
  let ?va = "EncodeVarint32 (of_nat s)" and ?vb = "EncodeVarint32 (of_nat (length k - s))" and ?vc = "EncodeVarint32 (of_nat (length v))"
  let ?n = "length ?va + length ?vb + length ?vc"
  have e: "?e = ?va @ ?vb @ ?vc @ drop s k @ v" by (simp add: entry_bytes_def)
  have pos: "0 < length (EncodeVarint32 x)" for x by (simp add: EncodeVarint32_def)
  have kv: "length data = ?p + ?n + (length k - s) + length v + length post" by (simp add: assms(1) e)
  have le: "length ?e = ?n + (length k - s) + length v" by (simp add: e)
  have le3: "?p + 3 \<le> limit"
    using pos [of "of_nat s"] pos [of "of_nat (length k - s)"] pos [of "of_nat (length v)"] assms(2) le by linarith
  obtain q where q: "take (limit - ?p) (drop ?p data) = ?va @ ?vb @ ?vc @ drop s k @ v @ q" "length q = limit - (?p + length ?e)"
  proof
    show "take (limit - ?p) (drop ?p data) = ?va @ ?vb @ ?vc @ drop s k @ v @ take (limit - (?p + length ?e)) post"
      using assms(2) by (simp add: assms(1) e add.assoc)
    show "length (take (limit - (?p + length ?e)) post) = limit - (?p + length ?e)" using assms(1-3) by simp
  qed
  have r: "length (drop s k @ v @ q) = length k - s + length v + length q" by simp
  have b: "s < 2 ^ 32" "length k - s < 2 ^ 32" "length v < 2 ^ 32" "length k - s + length v < 2 ^ 32"
    "length k - s + length v + length q < 2 ^ 32"
    using assms(2-6) kv q(2) le by linarith+
  note u = unat32 [OF b(1)] unat32 [OF b(2)] unat32 [OF b(3)]
  have l: "\<not> (of_nat (length (drop s k @ v @ q)) :: uint32) < of_nat (length k - s) + of_nat (length v)"
    unfolding r word_less_nat_alt of_nat_add [symmetric] unat32 [OF b(4)] unat32 [OF b(5)] by simp
  have d: "DecodeEntry data ?p limit = Some (limit - length (drop s k @ v @ q), s, length k - s, length v)"
    unfolding DecodeEntry_slow [OF le3 assms(3)] q(1)
    using l by (simp only: GetVarint32Ptr_put bind.bind_lunit prod.case if_False u)
  have p: "limit - length (drop s k @ v @ q) = ?p + ?n" using q(2) le assms(2) by simp
  have "take (length k - s) (drop (?p + ?n) data) = drop s k" "take (length v) (drop (?p + ?n + (length k - s)) data) = v"
    by (simp_all add: assms(1) e)
  then show ?thesis using d le by (intro exI [of _ "?p + ?n"]) (simp only: p, simp)
qed

section \<open>The builder\<close>

definition build :: "nat \<Rightarrow> kv list \<Rightarrow> BlockBuilder" where
  "build K kvs = foldl (\<lambda>b (k, v). BlockBuilder_Add k v b) (BlockBuilder_new K) kvs"

text \<open>The offset of an entry, and how many bytes its key shares with the key before it.\<close>

definition off :: "nat \<Rightarrow> kv list \<Rightarrow> nat \<Rightarrow> nat" where
  "off K kvs i = length (bb_buffer (build K (take i kvs)))"

definition shared_at :: "nat \<Rightarrow> kv list \<Rightarrow> nat \<Rightarrow> nat" where
  "shared_at K kvs i =
     (if i = 0 \<or> i mod K = 0 then 0 else diff_index (fst (kvs ! (i - 1))) (fst (kvs ! i)))"

lemma build_snoc: "build K (kvs @ [(k, v)]) = BlockBuilder_Add k v (build K kvs)"
  by (simp add: build_def)

lemma diff_index_le: "diff_index a b \<le> length a" "diff_index a b \<le> length b" "take (diff_index a b) a = take (diff_index a b) b"
  by (induction a b rule: diff_index.induct) auto

lemma diff_index_Nil [simp]: "diff_index [] b = 0"
  by (cases b) auto

text \<open>The state of the builder after some entries.\<close>

lemma build_state:
  assumes "0 < K"
  shows "bb_interval (build K kvs) = K" "bb_last_key (build K kvs) = (if kvs = [] then [] else fst (last kvs))"
    "bb_counter (build K kvs) = (if kvs = [] then 0 else (length kvs - 1) mod K + 1)"
proof (induction kvs rule: rev_induct)
  case Nil
  case 1 show ?case by (simp add: build_def BlockBuilder_new_def)
  case 2 show ?case by (simp add: build_def BlockBuilder_new_def)
  case 3 show ?case by (simp add: build_def BlockBuilder_new_def)
next
  case (snoc x kvs)
  obtain k v where x: "x = (k, v)" by fastforce
  note d = diff_index_le [of "bb_last_key (build K kvs)" k]
  case 1 show ?case using snoc(1) by (simp add: x build_snoc BlockBuilder_Add_def Let_def)
  case 2 show ?case using d by (auto simp: x build_snoc BlockBuilder_Add_def Let_def)
  case 3 show ?case
  proof (cases "kvs = []")
    case True
    then show ?thesis using snoc(1,3) assms
      by (simp add: x build_snoc [of K "[]", simplified] BlockBuilder_Add_def Let_def)
  next
    case False
    then obtain n where n: "length kvs = Suc n" by (cases kvs) auto
    have "Suc n mod K = (if Suc (n mod K) = K then 0 else Suc (n mod K))" by (rule mod_Suc)
    moreover have "n mod K < K" using assms by simp
    ultimately show ?thesis using snoc(1,3) False n by (simp add: x build_snoc BlockBuilder_Add_def Let_def)
  qed
qed

lemma shares: "0 < K \<Longrightarrow> bb_counter (build K kvs) < K \<longleftrightarrow> kvs = [] \<or> length kvs mod K \<noteq> 0"
proof (cases kvs)
  case (Cons x xs)
  assume "0 < K"
  then have "length xs mod K < K" by simp
  then show ?thesis using build_state(3) [OF \<open>0 < K\<close>, of kvs] mod_Suc [of "length xs" K] by (auto simp: Cons)
qed (simp add: build_def BlockBuilder_new_def)

lemma shared_le:
  "0 < i \<Longrightarrow> shared_at K kvs i \<le> length (fst (kvs ! (i - 1)))" "shared_at K kvs i \<le> length (fst (kvs ! i))"
  "0 < i \<Longrightarrow> take (shared_at K kvs i) (fst (kvs ! (i - 1))) = take (shared_at K kvs i) (fst (kvs ! i))"
  using diff_index_le by (auto simp: shared_at_def)

lemma build_entry:
  assumes "0 < K" "i < length kvs"
  shows "bb_buffer (build K (take (Suc i) kvs)) =
      bb_buffer (build K (take i kvs)) @ entry_bytes (shared_at K kvs i) (fst (kvs ! i)) (snd (kvs ! i))"
proof -
  obtain k v where kv: "kvs ! i = (k, v)" by fastforce
  have t: "take (Suc i) kvs = take i kvs @ [(k, v)]" using assms(2) kv by (simp add: take_Suc_conv_app_nth)
  have "i = 0 \<or> last (take i kvs) = kvs ! (i - 1)" using assms(2) by (cases i) (simp_all add: take_Suc_conv_app_nth)
  then have s: "(if bb_counter (build K (take i kvs)) < K then diff_index (bb_last_key (build K (take i kvs))) k else 0) = shared_at K kvs i"
    unfolding shares [OF assms(1)] build_state(2) [OF assms(1)] using assms(2) kv by (auto simp: shared_at_def)
  show ?thesis unfolding t build_snoc BlockBuilder_Add_def Let_def build_state(1) [OF assms(1)]
    using s by (auto simp: PutVarint32_def entry_bytes_def kv)
qed

definition nrestarts :: "nat \<Rightarrow> nat \<Rightarrow> nat" where
  "nrestarts K n = (n - 1) div K + 1"

lemma off_append: "i \<le> length kvs \<Longrightarrow> off K (kvs @ xs) i = off K kvs i"
  by (simp add: off_def)

lemma off_0 [simp]: "off K kvs 0 = 0"
  by (simp add: off_def build_def BlockBuilder_new_def)

lemma nrestarts_Suc:
  assumes "0 < K"
  shows "nrestarts K (Suc n) = (if n = 0 \<or> n mod K \<noteq> 0 then nrestarts K n else nrestarts K n + 1)"
    "0 < n \<Longrightarrow> n mod K = 0 \<Longrightarrow> nrestarts K n * K = n"
proof -
  have d: "n div K = (if n mod K = 0 then (n - 1) div K + 1 else (n - 1) div K)" if "0 < n"
    using that div_Suc [of "n - 1" K] by auto
  then show "nrestarts K (Suc n) = (if n = 0 \<or> n mod K \<noteq> 0 then nrestarts K n else nrestarts K n + 1)"
    by (cases "n = 0") (auto simp: nrestarts_def)
  show "0 < n \<Longrightarrow> n mod K = 0 \<Longrightarrow> nrestarts K n * K = n"
    using d unfolding nrestarts_def by (metis div_mult_mod_eq add_0_right)
qed

lemma restart_le: "0 < K \<Longrightarrow> j < nrestarts K n \<Longrightarrow> j * K \<le> n \<and> (0 < n \<longrightarrow> j * K < n)"
proof -
  assume "0 < K" "j < nrestarts K n"
  then have "j \<le> (n - 1) div K" by (simp add: nrestarts_def)
  then have "j * K \<le> (n - 1) div K * K" by (rule mult_le_mono1)
  also have "\<dots> \<le> n - 1" by simp
  finally show ?thesis by linarith
qed

lemma build_restarts:
  assumes "0 < K"
  shows "bb_restarts (build K kvs) = map (\<lambda>j. of_nat (off K kvs (j * K))) [0..<nrestarts K (length kvs)]"
proof (induction kvs rule: rev_induct)
  case Nil
  show ?case by (simp add: build_def BlockBuilder_new_def nrestarts_def)
next
  case (snoc x kvs)
  obtain k v where x: "x = (k, v)" by fastforce
  let ?n = "length kvs"
  have m: "map (\<lambda>j. of_nat (off K (kvs @ [x]) (j * K))) [0..<nrestarts K ?n] = bb_restarts (build K kvs)"
    unfolding snoc by (rule map_cong) (use restart_le [OF assms] off_append in auto)
  have "bb_restarts (build K (kvs @ [x])) = bb_restarts (build K kvs) @
      (if kvs = [] \<or> ?n mod K \<noteq> 0 then [] else [of_nat (off K (kvs @ [x]) ?n)])"
    unfolding x build_snoc BlockBuilder_Add_def Let_def build_state(1) [OF assms] shares [OF assms]
    by (auto simp: off_def)
  then show ?case using nrestarts_Suc [OF assms, of ?n] m by (auto simp: upt_Suc_append)
qed

section \<open>The finished block\<close>

definition block_data :: "nat \<Rightarrow> kv list \<Rightarrow> byte list" where
  "block_data K kvs = bb_buffer (BlockBuilder_Finish (build K kvs))"

definition block_fits :: "nat \<Rightarrow> kv list \<Rightarrow> bool" where
  "block_fits K kvs \<longleftrightarrow> 0 < K \<and> length (block_data K kvs) < 2 ^ 32 \<and> (\<forall>kv \<in> set kvs. length (fst kv) < 2 ^ 32)"

lemma block_data_eq:
  assumes "0 < K"
  shows "block_data K kvs = bb_buffer (build K kvs) @ fixed_array (bb_restarts (build K kvs)) @
      EncodeFixed32 (of_nat (nrestarts K (length kvs)))"
  by (simp add: block_data_def BlockBuilder_Finish_def Let_def foldl_PutFixed32 PutFixed32_def build_restarts [OF assms])

lemma off_Suc: "0 < K \<Longrightarrow> i < length kvs \<Longrightarrow>
    off K kvs (Suc i) = off K kvs i + length (entry_bytes (shared_at K kvs i) (fst (kvs ! i)) (snd (kvs ! i)))"
  by (simp add: off_def build_entry)

lemma off_less: "0 < K \<Longrightarrow> i < j \<Longrightarrow> j \<le> length kvs \<Longrightarrow> off K kvs i < off K kvs j"
proof (induction j)
  case (Suc j)
  have "0 < length (entry_bytes s k v)" for s k v by (simp add: entry_bytes_def EncodeVarint32_def)
  then have "off K kvs j < off K kvs (Suc j)" using Suc.prems off_Suc [of K j kvs] by simp
  then show ?case using Suc by (cases "i = j") auto
qed simp

lemma off_le: "0 < K \<Longrightarrow> i \<le> j \<Longrightarrow> j \<le> length kvs \<Longrightarrow> off K kvs i \<le> off K kvs j"
  using off_less [of K i j kvs] by (cases "i = j") auto

lemma off_less_iff: "0 < K \<Longrightarrow> i \<le> length kvs \<Longrightarrow> j \<le> length kvs \<Longrightarrow> off K kvs i < off K kvs j \<longleftrightarrow> i < j"
  using off_less [of K i j kvs] off_le [of K j i kvs] by (meson leD linorder_not_less)

lemma block_length: "0 < K \<Longrightarrow> length (block_data K kvs) = off K kvs (length kvs) + nrestarts K (length kvs) * 4 + 4"
  by (simp add: block_data_eq off_def build_restarts)

lemma build_append: "\<exists>rest. bb_buffer (build K (kvs @ xs)) = bb_buffer (build K kvs) @ rest"
proof (induction xs rule: rev_induct)
  case (snoc x xs)
  obtain k v where "x = (k, v)" by fastforce
  then show ?case using snoc build_snoc [of K "kvs @ xs" k v] by (auto simp: BlockBuilder_Add_def Let_def PutVarint32_def)
qed simp

lemma build_prefix: "\<exists>rest. bb_buffer (build K kvs) = bb_buffer (build K (take i kvs)) @ rest"
  using build_append [of K "take i kvs" "drop i kvs"] by simp

lemma block_split:
  assumes "0 < K" "i < length kvs"
  shows "\<exists>pre post. block_data K kvs = pre @ entry_bytes (shared_at K kvs i) (fst (kvs ! i)) (snd (kvs ! i)) @ post \<and>
    length pre = off K kvs i"
proof -
  obtain rest where "bb_buffer (build K kvs) = bb_buffer (build K (take (Suc i) kvs)) @ rest" using build_prefix by blast
  then show ?thesis using build_entry [OF assms] by (auto simp: block_data_eq [OF assms(1)] off_def intro!: exI)
qed

section \<open>The iterator on a finished block\<close>

text \<open>
  An iterator of the block; one that comes to entry \<open>i\<close> next; and one that stands on entry \<open>i\<close>, or behind the last entry
  when \<open>i\<close> is their number.
\<close>

definition iter_of :: "nat \<Rightarrow> kv list \<Rightarrow> BlockIter \<Rightarrow> bool" where
  "iter_of K kvs it \<longleftrightarrow> it_data it = block_data K kvs \<and> it_restarts it = off K kvs (length kvs) \<and>
     it_num_restarts it = nrestarts K (length kvs) \<and> it_status it = OK"

definition comes_to :: "nat \<Rightarrow> kv list \<Rightarrow> BlockIter \<Rightarrow> nat \<Rightarrow> bool" where
  "comes_to K kvs it i \<longleftrightarrow> iter_of K kvs it \<and> i \<le> length kvs \<and> it_voff it + it_vlen it = off K kvs i \<and>
     it_restart_index it < it_num_restarts it \<and>
     (i < length kvs \<longrightarrow> shared_at K kvs i \<le> length (it_key it) \<and>
        take (shared_at K kvs i) (it_key it) = take (shared_at K kvs i) (fst (kvs ! i)))"

definition stands :: "nat \<Rightarrow> kv list \<Rightarrow> BlockIter \<Rightarrow> nat \<Rightarrow> bool" where
  "stands K kvs it i \<longleftrightarrow> iter_of K kvs it \<and>
     (if i < length kvs
      then it_current it = off K kvs i \<and> it_key it = fst (kvs ! i) \<and> BlockIter_value it = snd (kvs ! i) \<and>
           it_voff it + it_vlen it = off K kvs (Suc i) \<and> it_restart_index it < it_num_restarts it
      else i = length kvs \<and> it_current it = it_restarts it)"

lemma stands_comes_to:
  assumes "stands K kvs it i" "i < length kvs"
  shows "comes_to K kvs it (Suc i)"
  using assms shared_le(1,3) [of "Suc i" K kvs] by (auto simp: stands_def comes_to_def)

lemma off_bound: "block_fits K kvs \<Longrightarrow> i \<le> length kvs \<Longrightarrow> off K kvs i < 2 ^ 32"
  using off_le [of K i "length kvs" kvs] block_length [of K kvs] by (simp add: block_fits_def)

lemma restart_point:
  assumes "block_fits K kvs" "iter_of K kvs it" "j < nrestarts K (length kvs)"
  shows "GetRestartPoint it j = off K kvs (j * K)"
proof -
  have K: "0 < K" using assms(1) by (simp add: block_fits_def)
  have "drop (off K kvs (length kvs) + j * 4) (block_data K kvs) =
      drop (4 * j) (fixed_array (bb_restarts (build K kvs)) @ EncodeFixed32 (of_nat (nrestarts K (length kvs))))"
    by (simp add: block_data_eq [OF K] off_def mult.commute)
  then have "DecodeFixed32 (drop (off K kvs (length kvs) + j * 4) (block_data K kvs)) = of_nat (off K kvs (j * K))"
    using DecodeFixed32_array [of j "bb_restarts (build K kvs)"] assms(3) by (simp add: build_restarts [OF K])
  then show ?thesis using assms(1,2) off_bound restart_le [OF K assms(3)] by (simp add: GetRestartPoint_def iter_of_def unat32)
qed

lemma next_restart_index_bound: "i < it_num_restarts it \<Longrightarrow> next_restart_index it i < it_num_restarts it"
  by (induction it i rule: next_restart_index.induct) (subst next_restart_index.simps, auto)

lemma decode_at:
  assumes fits: "block_fits K kvs" and i: "i < length kvs"
  defines "k \<equiv> fst (kvs ! i)" and "v \<equiv> snd (kvs ! i)" and "s \<equiv> shared_at K kvs i"
  shows "\<exists>p. DecodeEntry (block_data K kvs) (off K kvs i) (off K kvs (length kvs)) = Some (p, s, length k - s, length v) \<and>
    take (length k - s) (drop p (block_data K kvs)) = drop s k \<and>
    take (length v) (drop (p + (length k - s)) (block_data K kvs)) = v \<and> p + (length k - s) + length v = off K kvs (Suc i)"
proof -
  let ?R = "off K kvs (length kvs)"
  have K: "0 < K" and len: "length (block_data K kvs) < 2 ^ 32" "length k < 2 ^ 32" using fits i by (auto simp: block_fits_def k_def)
  obtain pre post where b: "block_data K kvs = pre @ entry_bytes s k v @ post" "length pre = off K kvs i"
    using block_split [OF K i] unfolding k_def v_def s_def by blast
  have o: "off K kvs i + length (entry_bytes s k v) = off K kvs (Suc i)" "off K kvs (Suc i) \<le> ?R"
    using off_Suc [OF K i] off_le [OF K, of "Suc i" "length kvs" kvs] i unfolding k_def v_def s_def by auto
  have R: "?R \<le> length (block_data K kvs)" using block_length [OF K] by simp
  have "s \<le> length k" unfolding s_def k_def by (rule shared_le(2))
  then show ?thesis using DecodeEntry_bytes [OF b(1) _ R len(1) _ len(2)] o b(2) by auto
qed

lemma parse_entry:
  assumes fits: "block_fits K kvs" and c: "comes_to K kvs it i" and i: "i < length kvs"
  shows "\<exists>it'. ParseNextKey it = (True, it') \<and> stands K kvs it' i"
proof -
  let ?k = "fst (kvs ! i)" and ?v = "snd (kvs ! i)" and ?s = "shared_at K kvs i"
  have o: "off K kvs i < off K kvs (length kvs)" using off_less [of K i "length kvs" kvs] fits i by (simp add: block_fits_def)
  obtain p where p: "DecodeEntry (block_data K kvs) (off K kvs i) (off K kvs (length kvs)) = Some (p, ?s, length ?k - ?s, length ?v)"
      "take (length ?k - ?s) (drop p (block_data K kvs)) = drop ?s ?k"
      "take (length ?v) (drop (p + (length ?k - ?s)) (block_data K kvs)) = ?v"
      "p + (length ?k - ?s) + length ?v = off K kvs (Suc i)"
    using decode_at [OF fits i] by blast
  have n: "NextEntryOffset it = off K kvs i" using c off_bound [OF fits] i by (simp add: comes_to_def NextEntryOffset_def)
  let ?it = "it\<lparr>it_current := off K kvs i, it_key := ?k, it_voff := p + (length ?k - ?s), it_vlen := length ?v\<rparr>"
  have "ParseNextKey it = (True, ?it\<lparr>it_restart_index := next_restart_index ?it (it_restart_index it)\<rparr>)"
    using c i o p(1,2) append_take_drop_id [of ?s ?k]
    by (simp add: ParseNextKey_def Let_def n comes_to_def iter_of_def del: append_take_drop_id)
  moreover have "stands K kvs (?it\<lparr>it_restart_index := next_restart_index ?it (it_restart_index it)\<rparr>) i"
    using c i p(3,4) next_restart_index_bound [of "it_restart_index it" ?it]
    by (auto simp: stands_def comes_to_def iter_of_def BlockIter_value_def)
  ultimately show ?thesis by blast
qed

lemma parse_end:
  assumes "block_fits K kvs" "comes_to K kvs it (length kvs)"
  shows "\<exists>it'. ParseNextKey it = (False, it') \<and> stands K kvs it' (length kvs)"
  using assms off_bound [of K kvs "length kvs"]
  by (auto simp: ParseNextKey_def Let_def comes_to_def stands_def iter_of_def NextEntryOffset_def)

lemma parse_stands:
  assumes "block_fits K kvs" "comes_to K kvs it i"
  shows "stands K kvs (snd (ParseNextKey it)) i"
proof (cases "i < length kvs")
  case True
  then show ?thesis using parse_entry [OF assms] by auto
next
  case False
  then have "i = length kvs" using assms(2) by (simp add: comes_to_def)
  then obtain it' where "ParseNextKey it = (False, it')" "stands K kvs it' i" using parse_end [OF assms(1)] assms(2) by blast
  then show ?thesis by simp
qed

lemma restart_comes_to:
  assumes "block_fits K kvs" "iter_of K kvs it" "j < nrestarts K (length kvs)"
  shows "comes_to K kvs (SeekToRestartPoint j it) (j * K)"
proof -
  have "0 < K" using assms(1) by (simp add: block_fits_def)
  moreover have "shared_at K kvs (j * K) = 0" by (simp add: shared_at_def)
  ultimately show ?thesis using restart_point [OF assms] restart_le [of K j "length kvs"] assms(2,3)
    by (simp add: comes_to_def SeekToRestartPoint_def iter_of_def)
qed

lemma seek_linear_stands:
  assumes "block_fits K kvs" "comes_to K kvs it i" "\<forall>j < i. cmp (fst (kvs ! j)) target < 0"
  shows "\<exists>it'. seek_linear cmp target it = Some it' \<and> stands K kvs it' (first_ge cmp target kvs)"
  using assms(2,3)
proof (induction "length kvs - i" arbitrary: it i)
  case 0
  then have i: "i = length kvs" by (simp add: comes_to_def)
  then have "\<forall>kv \<in> set kvs. cmp (fst kv) target < 0" using 0(3) by (metis in_set_conv_nth)
  then have "takeWhile (\<lambda>kv. cmp (fst kv) target < 0) kvs = kvs" by (simp add: takeWhile_eq_all_conv)
  then have "first_ge cmp target kvs = length kvs" unfolding first_ge_def by (rule arg_cong)
  moreover obtain it' where "ParseNextKey it = (False, it')" "stands K kvs it' (length kvs)"
    using parse_end [OF assms(1)] 0(2) i by blast
  ultimately show ?case by (subst seek_linear.simps) simp
next
  case (Suc n)
  then have i: "i < length kvs" by linarith
  obtain it' where p: "ParseNextKey it = (True, it')" "stands K kvs it' i" using parse_entry [OF assms(1) Suc.prems(1) i] by blast
  then have k: "it_key it' = fst (kvs ! i)" using i by (simp add: stands_def)
  show ?case
  proof (cases "cmp (fst (kvs ! i)) target < 0")
    case True
    then have "\<forall>j < Suc i. cmp (fst (kvs ! j)) target < 0" using Suc.prems(2) by (simp add: less_Suc_eq)
    moreover have "n = length kvs - Suc i" using Suc.hyps(2) by simp
    ultimately obtain it2 where "seek_linear cmp target it' = Some it2" "stands K kvs it2 (first_ge cmp target kvs)"
      using Suc.hyps(1) [OF _ stands_comes_to [OF p(2) i]] by blast
    then show ?thesis using p(1) k True by (subst seek_linear.simps) simp
  next
    case False
    then have "takeWhile (\<lambda>kv. cmp (fst kv) target < 0) kvs = take i kvs"
      using Suc.prems(2) by (intro takeWhile_eq_take_P_nth) auto
    then have "first_ge cmp target kvs = i" using i by (simp add: first_ge_def)
    then show ?thesis using p k False by (subst seek_linear.simps) simp
  qed
qed

lemma parse_until_stands:
  assumes "block_fits K kvs" "comes_to K kvs it i" "i < m" "m \<le> length kvs"
  shows "\<exists>it'. parse_until (off K kvs m) it = Some it' \<and> stands K kvs it' (m - 1)"
  using assms(2,3)
proof (induction "m - i" arbitrary: it i)
  case (Suc n)
  then have i: "i < length kvs" using assms(4) by linarith
  have K: "0 < K" using assms(1) by (simp add: block_fits_def)
  obtain it' where p: "ParseNextKey it = (True, it')" "stands K kvs it' i" using parse_entry [OF assms(1) Suc.prems(1) i] by blast
  then have "NextEntryOffset it' = off K kvs (Suc i)" using i off_bound [OF assms(1)] by (simp add: stands_def NextEntryOffset_def)
  then have o: "NextEntryOffset it' < off K kvs m \<longleftrightarrow> Suc i < m" using off_less_iff [OF K] i assms(4) by simp
  show ?case
  proof (cases "Suc i < m")
    case True
    then show ?thesis using Suc.hyps(1) [OF _ stands_comes_to [OF p(2) i]] Suc.hyps(2) p(1) o
      by (subst parse_until.simps) simp
  next
    case False
    then have "i = m - 1" using Suc.prems(2) by linarith
    then show ?thesis using p o False by (subst parse_until.simps) simp
  qed
qed simp

lemma prev_restart_before:
  assumes "block_fits K kvs" "iter_of K kvs it" "r < nrestarts K (length kvs)" "0 < i" "i \<le> length kvs"
  shows "\<exists>j < nrestarts K (length kvs). prev_restart it (off K kvs i) r = Some j \<and> j * K < i"
  using assms(3)
proof (induction r)
  case 0
  then show ?case using restart_point [OF assms(1,2), of 0] off_less [of K 0 i kvs] assms
    by (subst prev_restart.simps) (auto simp: block_fits_def)
next
  case (Suc r)
  have K: "0 < K" using assms(1) by (simp add: block_fits_def)
  have "GetRestartPoint it (Suc r) = off K kvs (Suc r * K)" by (rule restart_point [OF assms(1,2) Suc.prems])
  moreover have "off K kvs (Suc r * K) < off K kvs i \<longleftrightarrow> Suc r * K < i"
    using off_less_iff [OF K] restart_le [OF K Suc.prems] assms(5) by blast
  ultimately show ?case using Suc by (subst prev_restart.simps) auto
qed

lemma seek_restart_before:
  assumes fits: "block_fits K kvs" and it: "iter_of K kvs it" and "left \<le> right" "right < nrestarts K (length kvs)"
    "left = 0 \<or> cmp (fst (kvs ! (left * K))) target < 0"
  shows "\<exists>j < nrestarts K (length kvs). seek_restart cmp it target left right = Some (Some j) \<and>
    (j = 0 \<or> cmp (fst (kvs ! (j * K))) target < 0)"
  using assms(3-5)
proof (induction "right - left" arbitrary: left right rule: less_induct)
  case less
  show ?case
  proof (cases "left < right")
    case False
    then show ?thesis using less.prems by (subst seek_restart.simps) auto
  next
    case lt: True
    have K: "0 < K" and len: "length (block_data K kvs) < 2 ^ 32" using fits by (simp_all add: block_fits_def)
    define mid where "mid = (left + right + 1) div 2"
    have m: "left < mid" "mid \<le> right" using lt by (auto simp: mid_def)
    have "u32 (left + right + 1) div 2 = mid"
      using block_length [OF K, of kvs] len less.prems(2) lt by (simp add: mid_def)
    have mn: "mid < nrestarts K (length kvs)" using m less.prems(2) by linarith
    then have i: "mid * K < length kvs" using restart_le [OF K mn] m(1) K by (cases "length kvs") auto
    have s: "shared_at K kvs (mid * K) = 0" by (simp add: shared_at_def)
    obtain p where p: "DecodeEntry (block_data K kvs) (off K kvs (mid * K)) (off K kvs (length kvs)) =
          Some (p, 0, length (fst (kvs ! (mid * K))), length (snd (kvs ! (mid * K))))"
        "take (length (fst (kvs ! (mid * K)))) (drop p (block_data K kvs)) = fst (kvs ! (mid * K))"
      using decode_at [OF fits i] unfolding s by auto
    have e: "seek_restart cmp it target left right = (if cmp (fst (kvs ! (mid * K))) target < 0
        then seek_restart cmp it target mid right else seek_restart cmp it target left (mid - 1))"
      using lt p restart_point [OF fits it mn] it \<open>u32 (left + right + 1) div 2 = mid\<close>
      by (subst seek_restart.simps) (simp add: Let_def iter_of_def)
    show ?thesis
    proof (cases "cmp (fst (kvs ! (mid * K))) target < 0")
      case True
      then show ?thesis unfolding e using less.hyps [of right mid] m less.prems(2) by auto
    next
      case False
      then show ?thesis unfolding e using less.hyps [of "mid - 1" left] m less.prems(2,3) by auto
    qed
  qed
qed

lemma block_iterator_new:
  assumes "block_fits K kvs"
  shows "\<exists>it. Block_NewIterator (Block_new (block_data K kvs)) = Inr (Some it) \<and> stands K kvs it (length kvs)"
proof -
  have K: "0 < K" and len: "length (block_data K kvs) < 2 ^ 32" using assms by (simp_all add: block_fits_def)
  let ?n = "nrestarts K (length kvs)"
  have n: "0 < ?n" "?n < 2 ^ 32" "length (block_data K kvs) = off K kvs (length kvs) + ?n * 4 + 4"
    using block_length [OF K, of kvs] len by (simp_all add: nrestarts_def)
  have "drop (length (block_data K kvs) - 4) (block_data K kvs) = EncodeFixed32 (of_nat ?n)"
    by (simp add: block_data_eq [OF K] build_restarts [OF K])
  then have r: "NumRestarts (block_data K kvs) (length (block_data K kvs)) = ?n" using n(2) by (simp add: NumRestarts_def unat32)
  have "Block_new (block_data K kvs) =
      \<lparr>bl_data = block_data K kvs, bl_size = length (block_data K kvs), bl_restart_offset = off K kvs (length kvs)\<rparr>"
    using n len r off_bound [OF assms, of "length kvs"] by (simp add: Block_new_def Let_def)
  then show ?thesis using n r by (simp add: Block_NewIterator_def BlockIter_new_def stands_def iter_of_def Let_def)
qed

lemma block_next:
  assumes "block_fits K kvs" "stands K kvs it i" "i < length kvs"
  shows "stands K kvs (BlockIter_Next it) (Suc i)"
  unfolding BlockIter_Next_def by (rule parse_stands [OF assms(1) stands_comes_to [OF assms(2,3)]])

lemma block_prev:
  assumes "block_fits K kvs" "stands K kvs it i" "i < length kvs"
  shows "\<exists>it'. BlockIter_Prev it = Some it' \<and> stands K kvs it' (if i = 0 then length kvs else i - 1)"
proof -
  have it: "iter_of K kvs it" "it_current it = off K kvs i" "it_restart_index it < nrestarts K (length kvs)"
    using assms(2,3) by (auto simp: stands_def iter_of_def)
  show ?thesis
  proof (cases "i = 0")
    case True
    have "prev_restart it (off K kvs 0) r = None" for r
      by (induction r) (subst prev_restart.simps, simp)+
    then show ?thesis using True it by (simp add: BlockIter_Prev_def stands_def iter_of_def)
  next
    case False
    obtain j where j: "j < nrestarts K (length kvs)" "prev_restart it (off K kvs i) (it_restart_index it) = Some j" "j * K < i"
      using prev_restart_before [OF assms(1) it(1,3), of i] False assms(3) by auto
    show ?thesis
      using parse_until_stands [OF assms(1) restart_comes_to [OF assms(1) it(1) j(1)] j(3)] j(2) it(2) False assms(3)
      by (simp add: BlockIter_Prev_def)
  qed
qed

lemma block_ends:
  assumes "block_fits K kvs" "iter_of K kvs it"
  shows "stands K kvs (BlockIter_SeekToFirst it) 0"
    "\<exists>it'. BlockIter_SeekToLast it = Some it' \<and> stands K kvs it' (length kvs - 1)"
proof -
  have K: "0 < K" using assms(1) by (simp add: block_fits_def)
  let ?m = "nrestarts K (length kvs) - 1"
  have n: "0 < nrestarts K (length kvs)" "?m < nrestarts K (length kvs)" by (simp_all add: nrestarts_def)
  have f: "comes_to K kvs (SeekToRestartPoint 0 it) 0" using restart_comes_to [OF assms n(1)] by simp
  show "stands K kvs (BlockIter_SeekToFirst it) 0"
    unfolding BlockIter_SeekToFirst_def by (rule parse_stands [OF assms(1) f])
  have l: "comes_to K kvs (SeekToRestartPoint ?m it) (?m * K)" by (rule restart_comes_to [OF assms n(2)])
  have s: "BlockIter_SeekToLast it = parse_until (off K kvs (length kvs)) (SeekToRestartPoint ?m it)"
    using assms(2) by (simp add: BlockIter_SeekToLast_def iter_of_def)
  show "\<exists>it'. BlockIter_SeekToLast it = Some it' \<and> stands K kvs it' (length kvs - 1)"
  proof (cases "kvs = []")
    case True
    then obtain it' where "ParseNextKey (SeekToRestartPoint ?m it) = (False, it')" "stands K kvs it' 0"
      using parse_end [OF assms(1), of "SeekToRestartPoint ?m it"] l by (auto simp: nrestarts_def)
    then show ?thesis unfolding s using True by (subst parse_until.simps) simp
  next
    case False
    then have "?m * K < length kvs" using restart_le [OF K n(2)] by simp
    then show ?thesis unfolding s using parse_until_stands [OF assms(1) l] by simp
  qed
qed

lemma block_seek:
  assumes "key_order valid cmp" "block_fits K kvs" "iter_of K kvs it" "\<forall>kv \<in> set kvs. valid (fst kv)" "valid target"
    "sorted_wrt (\<lambda>a b. cmp (fst a) (fst b) < 0) kvs"
  shows "\<exists>it'. BlockIter_Seek cmp target it = Some it' \<and> stands K kvs it' (first_ge cmp target kvs)"
proof -
  have K: "0 < K" using assms(2) by (simp add: block_fits_def)
  have n: "it_num_restarts it = nrestarts K (length kvs)" "0 < nrestarts K (length kvs)"
    using assms(3) by (simp_all add: iter_of_def nrestarts_def)
  obtain j where j: "j < nrestarts K (length kvs)" "seek_restart cmp it target 0 (it_num_restarts it - 1) = Some (Some j)"
      "j = 0 \<or> cmp (fst (kvs ! (j * K))) target < 0"
    using seek_restart_before [OF assms(2,3), of 0 "it_num_restarts it - 1" cmp target] n by auto
  have "cmp (fst (kvs ! i)) target < 0" if i: "i < j * K" for i
  proof -
    have jn: "j * K < length kvs" using restart_le [OF K j(1)] i by (cases "length kvs") auto
    then have "kvs ! i \<in> set kvs" "kvs ! (j * K) \<in> set kvs" using i by auto
    then have "valid (fst (kvs ! i))" "valid (fst (kvs ! (j * K)))" using assms(4) by auto
    moreover have "cmp (fst (kvs ! i)) (fst (kvs ! (j * K))) < 0" using assms(6) i jn by (simp add: sorted_wrt_iff_nth_less)
    moreover have "cmp (fst (kvs ! (j * K))) target < 0" using j(3) i by auto
    ultimately show ?thesis using key_order.less_trans [OF assms(1) _ _ assms(5)] by (meson less_imp_le)
  qed
  then show ?thesis
    using seek_linear_stands [OF assms(2) restart_comes_to [OF assms(2,3) j(1)]] j(2) by (simp add: BlockIter_Seek_def)
qed

section \<open>The contract of iterators\<close>

definition block_rep :: "(slice \<Rightarrow> bool) \<Rightarrow> (slice \<Rightarrow> slice \<Rightarrow> int) \<Rightarrow> nat \<times> kv list \<Rightarrow> kv list \<Rightarrow> bool" where
  "block_rep valid cmp b kvs \<longleftrightarrow> kvs = snd b \<and> block_fits (fst b) kvs \<and>
     sorted_wrt (\<lambda>a b. cmp (fst a) (fst b) < 0) kvs \<and> (\<forall>kv \<in> set kvs. valid (fst kv))"

abbreviation block_entry :: "BlockIter \<Rightarrow> kv" where
  "block_entry it \<equiv> (it_key it, BlockIter_value it)"

lemma stands_entry:
  assumes "block_fits K kvs" "stands K kvs it i"
  shows "i \<le> length kvs \<and> (BlockIter_Valid it \<longleftrightarrow> i < length kvs) \<and> (i < length kvs \<longrightarrow> block_entry it = kvs ! i)"
proof -
  have "off K kvs i < off K kvs (length kvs)" if "i < length kvs"
    using off_less [of K i "length kvs" kvs] that assms(1) by (simp add: block_fits_def)
  then show ?thesis using assms(2) by (auto simp: stands_def BlockIter_Valid_def iter_of_def split: if_splits)
qed

lemma block_entry_iterator:
  assumes "key_order valid cmp"
  shows "entry_iterator valid cmp (block_rep valid cmp) (\<lambda>b. stands (fst b) (snd b)) (\<lambda>_. BlockIter_Valid) (\<lambda>_. block_entry)
    (\<lambda>_. BlockIter_Seek cmp) (\<lambda>_ it. Some (BlockIter_SeekToFirst it)) (\<lambda>_. BlockIter_SeekToLast)
    (\<lambda>_ it. Some (BlockIter_Next it)) (\<lambda>_. BlockIter_Prev)"
proof (intro entry_iterator.intro assms entry_iterator_axioms.intro)
  fix b kvs it i t
  assume "block_rep valid cmp b kvs"
  then have b: "kvs = snd b" "block_fits (fst b) (snd b)" "sorted_wrt (\<lambda>a b. cmp (fst a) (fst b) < 0) (snd b)"
    "\<forall>kv \<in> set (snd b). valid (fst kv)" by (auto simp: block_rep_def)
  show "sorted_wrt (\<lambda>a b. cmp (fst a) (fst b) < 0) kvs \<and> (\<forall>kv \<in> set kvs. valid (fst kv))" using b by simp
  assume st: "stands (fst b) (snd b) it i"
  then have it: "iter_of (fst b) (snd b) it" by (simp add: stands_def)
  show "i \<le> length kvs \<and> (BlockIter_Valid it \<longleftrightarrow> i < length kvs) \<and> (i < length kvs \<longrightarrow> block_entry it = kvs ! i)"
    using stands_entry [OF b(2) st] b(1) by simp
  show "valid t \<Longrightarrow> \<exists>it'. BlockIter_Seek cmp t it = Some it' \<and> stands (fst b) (snd b) it' (first_ge cmp t kvs)"
    using block_seek [OF assms b(2) it b(4) _ b(3)] b(1) by simp
  show "\<exists>it'. Some (BlockIter_SeekToFirst it) = Some it' \<and> stands (fst b) (snd b) it' 0"
    "\<exists>it'. BlockIter_SeekToLast it = Some it' \<and> stands (fst b) (snd b) it' (length kvs - 1)"
    using block_ends [OF b(2) it] b(1) by simp_all
  assume "i < length kvs"
  then have i: "i < length (snd b)" using b(1) by simp
  show "\<exists>it'. Some (BlockIter_Next it) = Some it' \<and> stands (fst b) (snd b) it' (Suc i)"
    using block_next [OF b(2) st i] by simp
  show "\<exists>it'. BlockIter_Prev it = Some it' \<and> stands (fst b) (snd b) it' (if i = 0 then length kvs else i - 1)"
    unfolding b(1) by (rule block_prev [OF b(2) st i])
qed

interpretation data_block: entry_iterator "internal_valid (\<lambda>_. True)" "InternalKey_Compare slice_compare"
  "block_rep (internal_valid (\<lambda>_. True)) (InternalKey_Compare slice_compare)" "\<lambda>b. stands (fst b) (snd b)" "\<lambda>_. BlockIter_Valid"
  "\<lambda>_. block_entry" "\<lambda>_. BlockIter_Seek (InternalKey_Compare slice_compare)" "\<lambda>_ it. Some (BlockIter_SeekToFirst it)"
  "\<lambda>_. BlockIter_SeekToLast" "\<lambda>_ it. Some (BlockIter_Next it)" "\<lambda>_. BlockIter_Prev"
  by (rule block_entry_iterator [OF internal.key_order_axioms])

section \<open>Properties\<close>

text \<open>
  C15: A block is read back as it was built. For entries in the order of a comparator that keeps its contract, and any restart
  interval, the block of \<^verbatim>\<open>BlockBuilder\<close> is accepted by \<^verbatim>\<open>Block\<close>; its iterator passes exactly the entries, in order from
  \<^verbatim>\<open>SeekToFirst\<close> with \<^verbatim>\<open>Next\<close> and in reverse from \<^verbatim>\<open>SeekToLast\<close> with \<^verbatim>\<open>Prev\<close>; and \<^verbatim>\<open>Seek\<close> returns and finds the entry
  of a key if and only if the block has one.
\<close>

theorem block_roundtrip:
  assumes "key_order valid cmp" "block_fits K kvs" "sorted_wrt (\<lambda>a b. cmp (fst a) (fst b) < 0) kvs"
    "\<forall>kv \<in> set kvs. valid (fst kv)" "valid target"
  shows "\<exists>it. Block_NewIterator (Block_new (block_data K kvs)) = Inr (Some it) \<and>
    scan BlockIter_Valid block_entry (\<lambda>it. Some (BlockIter_Next it)) (length kvs) (BlockIter_SeekToFirst it) = Some kvs \<and>
    (\<exists>it'. BlockIter_SeekToLast it = Some it' \<and> scan BlockIter_Valid block_entry BlockIter_Prev (length kvs) it' = Some (rev kvs)) \<and>
    (\<exists>it'. BlockIter_Seek cmp target it = Some it' \<and>
       (if BlockIter_Valid it' \<and> cmp (it_key it') target = 0 then Some (block_entry it') else None) =
         find (\<lambda>kv. cmp (fst kv) target = 0) kvs)"
proof -
  obtain it where it: "Block_NewIterator (Block_new (block_data K kvs)) = Inr (Some it)" "stands K kvs it (length kvs)"
    using block_iterator_new [OF assms(2)] by blast
  have r: "block_rep valid cmp (K, kvs) kvs" and st: "stands (fst (K, kvs)) (snd (K, kvs)) it (length kvs)"
    using assms it(2) by (simp_all add: block_rep_def)
  note bi = block_entry_iterator [OF assms(1)]
  show ?thesis
    using it(1) entry_iterator.full_scan [OF bi r st] entry_iterator.full_scan_back [OF bi r st]
      entry_iterator.lookup [OF bi r st assms(5)] by simp
qed

theorem block_roundtrip_witness:
  "\<exists>it it'. Block_NewIterator (Block_new (block_data 2 [([1], [7]), ([1, 2], [8]), ([1, 3], [9])])) = Inr (Some it) \<and>
    BlockIter_Seek slice_compare [1, 3] it = Some it' \<and> block_entry it' = ([1, 3], [9])"
proof -
  let ?kvs = "[([1], [7]), ([1, 2], [8]), ([1, 3], [9])] :: kv list"
  have s: "sorted_wrt (\<lambda>a b. slice_compare (fst a) (fst b) < 0) ?kvs" by code_simp
  have "length (block_data 2 ?kvs) = 28" by code_simp
  then have f: "block_fits 2 ?kvs" by (simp add: block_fits_def)
  have c: "slice_compare [1] [1, 3] \<noteq> 0" "slice_compare [1, 2] [1, 3] \<noteq> 0" "slice_compare [1, 3] [1, 3] = 0" by code_simp+
  show ?thesis using block_roundtrip [OF bytewise.key_order_axioms f s, of "[1, 3]"] by (auto simp: c split: if_splits)
qed

lemma GetVarint32Ptr_rest: "GetVarint32Ptr bs = Some (v, q) \<Longrightarrow> length q < length bs"
proof -
  have ne: "varint_split k bs = Some (us, q) \<Longrightarrow> us \<noteq> []" for k bs us q
    by (induction k bs arbitrary: us rule: varint_split.induct) (auto split: if_splits)
  assume "GetVarint32Ptr bs = Some (v, q)"
  then obtain us where us: "varint_split 5 bs = Some (us, q)" by (auto simp: GetVarint32Ptr_split)
  then show ?thesis using ne [OF us] varint_split_append [OF us] by simp
qed

lemma decode_entry_inside:
  assumes d: "DecodeEntry data p limit = Some (q, shared, non_shared, value_length)" and l: "limit \<le> length data" "length data < 2 ^ 32"
    and s: "non_shared + value_length < 2 ^ 32"
  shows "p < q \<and> q + non_shared + value_length \<le> limit"
proof -
  have p: "p + 3 \<le> limit" using d by (auto simp: DecodeEntry_def split: if_splits)
  obtain x1 q1 x2 q2 x3 q3 where g: "GetVarint32Ptr (take (limit - p) (drop p data)) = Some (x1, q1)" "GetVarint32Ptr q1 = Some (x2, q2)"
      "GetVarint32Ptr q2 = Some (x3, q3)" "\<not> (of_nat (length q3) :: uint32) < x2 + x3"
      "q = limit - length q3" "non_shared = unat x2" "value_length = unat x3"
    using d unfolding DecodeEntry_slow [OF p l(1)] by (auto simp: bind_eq_Some_conv split: if_splits)
  have q3: "length q3 < limit - p" using GetVarint32Ptr_rest [OF g(1)] GetVarint32Ptr_rest [OF g(2)] GetVarint32Ptr_rest [OF g(3)] l p by simp
  have "unat (x2 + x3) = unat x2 + unat x3" using s g(6,7) by (simp add: unat_word_ariths)
  moreover have "unat (of_nat (length q3) :: uint32) = length q3" using q3 l by (intro unat32) linarith
  ultimately have "unat x2 + unat x3 \<le> length q3" using g(4) by (simp add: word_less_nat_alt)
  then show ?thesis using q3 g(5-7) by linarith
qed

text \<open>
  C37: \<^verbatim>\<open>DecodeEntry\<close> adds \<open>non_shared\<close> and \<open>value_length\<close> in 32 bits before it compares them with the bytes that are left, so an
  entry with huge lengths whose sum wraps around is accepted: here, a key delta of 4294967295 bytes in a block of eight.
  Short of such a sum, an accepted entry lies within the block.
\<close>

theorem decode_entry_wraps:
  "DecodeEntry [0, 255, 255, 255, 255, 15, 2, 7] 0 8 = Some (7, 0, 4294967295, 2) \<and>
   (DecodeEntry data p limit = Some (q, shared, non_shared, value_length) \<and> limit \<le> length data \<and> length data < 2 ^ 32 \<and>
      non_shared + value_length < 2 ^ 32 \<longrightarrow> p < q \<and> q + non_shared + value_length \<le> limit)"
proof
  show "DecodeEntry [0, 255, 255, 255, 255, 15, 2, 7] 0 8 = Some (7, 0, 4294967295, 2)"
    by (simp add: DecodeEntry_def GetVarint32Ptr_def GetVarint32PtrFallback_def)
qed (use decode_entry_inside in blast)

theorem decode_entry_wraps_witness:
  "DecodeEntry [0, 1, 1, 5, 6] 0 5 = Some (3, 0, 1, 1) \<and> (3 :: nat) + 1 + 1 \<le> 5"
proof
  show d: "DecodeEntry [0, 1, 1, 5, 6] 0 5 = Some (3, 0, 1, 1)" by (simp add: DecodeEntry_def)
  show "(3 :: nat) + 1 + 1 \<le> 5"
    using decode_entry_wraps [of "[0, 1, 1, 5, 6]" 0 5 3 0 1 1] d by simp
qed

end
