(* ===== verification/Ldb_Filter_Thms.thy ===== *)
theory Ldb_Filter_Thms
  imports Ldb_Bloom
begin

text \<open>
  The block of filters of a table has no false negatives, for every policy that keeps the contract
  \<open>filter_policy\<close>. A builder is related to the filters it has generated and the keys that wait for
  the next one.
\<close>

section \<open>Offsets of the parts of a concatenation\<close>

definition starts :: "'a list list \<Rightarrow> nat list" where
  "starts xs = map (\<lambda>i. length (concat (take i xs))) [0..<length xs]"

lemma starts_Nil [simp]: "starts [] = []"
  by (simp add: starts_def)

lemma length_starts [simp]: "length (starts xs) = length xs"
  by (simp add: starts_def)

lemma starts_snoc [simp]: "starts (xs @ [x]) = starts xs @ [length (concat xs)]"
  by (auto simp: starts_def)

lemma starts_end_nth: "i \<le> length xs \<Longrightarrow> (starts xs @ [length (concat xs)]) ! i = length (concat (take i xs))"
  by (auto simp: starts_def nth_append)

lemma concat_part:
  "i < length xs \<Longrightarrow> take (length (xs ! i)) (drop (length (concat (take i xs))) (concat xs)) = xs ! i"
proof -
  assume "i < length xs"
  then have "concat xs = concat (take i xs) @ xs ! i @ concat (drop (Suc i) xs)"
    by (metis concat.simps(2) concat_append id_take_nth_drop)
  then show ?thesis by simp
qed

lemma part_length: "i < length xs \<Longrightarrow> length (concat (take (Suc i) xs)) = length (concat (take i xs)) + length (xs ! i)"
  by (simp add: take_Suc_conv_app_nth)

lemma parts_recovered:
  "map (\<lambda>i. take ((starts xs @ [length (concat xs)]) ! (i + 1) - (starts xs @ [length (concat xs)]) ! i)
     (drop ((starts xs @ [length (concat xs)]) ! i) (concat xs))) [0..<length xs] = xs"
  by (rule nth_equalityI) (simp_all add: starts_end_nth part_length concat_part del: upt_Suc)

section \<open>What a builder stands for\<close>

definition filters :: "FilterBlockBuilder \<Rightarrow> byte list list \<Rightarrow> slice list \<Rightarrow> bool" where
  "filters b Fs K \<longleftrightarrow> result b = concat Fs \<and> filter_offsets b = map of_nat (starts Fs) \<and>
     keys_flat b = concat K \<and> start b = starts K"

lemma filters_new: "filters FilterBlockBuilder_new [] []"
  by (simp add: filters_def FilterBlockBuilder_new_def)

lemma filters_AddKey: "filters b Fs K \<Longrightarrow> filters (AddKey key b) Fs (K @ [key])"
  by (simp add: filters_def AddKey_def)

lemma filters_AddKeys: "filters b Fs K \<Longrightarrow> filters (foldl (\<lambda>b key. AddKey key b) b keys) Fs (K @ keys)"
proof (induction keys arbitrary: b K)
  case (Cons key keys)
  then show ?case using filters_AddKey [of b Fs K key] by fastforce
qed simp

text \<open>The calls that a table makes: for each data block its offset and the keys in it.\<close>

definition build_filters ::
    "(slice list \<Rightarrow> byte list \<Rightarrow> byte list) \<Rightarrow> (uint64 \<times> slice list) list \<Rightarrow> FilterBlockBuilder" where
  "build_filters create blocks =
     foldl (\<lambda>b (off, keys). foldl (\<lambda>b key. AddKey key b) (StartBlock create off b) keys) FilterBlockBuilder_new blocks"

definition filter_index :: "uint64 \<Rightarrow> nat" where
  "filter_index off = unat off div 2048"

text \<open>Each key of \<open>S\<close>, with the index of its filter, matches that filter or waits for it.\<close>

definition stored :: "(slice \<Rightarrow> slice \<Rightarrow> bool) \<Rightarrow> (nat \<times> slice) set \<Rightarrow> byte list list \<Rightarrow> slice list \<Rightarrow> bool" where
  "stored matches S Fs K \<longleftrightarrow> (\<forall>(i, key) \<in> S. i < length Fs \<and> matches key (Fs ! i) \<or> i = length Fs \<and> key \<in> set K)"

lemma stored_generate: "stored matches S Fs K \<Longrightarrow> \<forall>key \<in> set K. matches key f \<Longrightarrow> stored matches S (Fs @ [f]) []"
  by (fastforce simp: stored_def nth_append)

section \<open>Reading the block\<close>

text \<open>The entries of a block: where each filter starts, and where the last one ends.\<close>

definition entries :: "byte list list \<Rightarrow> uint32 list" where
  "entries Fs = map of_nat (starts Fs @ [length (concat Fs)])"

definition filter_block :: "byte list list \<Rightarrow> byte list" where
  "filter_block Fs = concat Fs @ fixed_array (entries Fs) @ [of_nat kFilterBaseLg]"

lemma length_entries [simp]: "length (entries Fs) = Suc (length Fs)"
  by (simp add: entries_def)

lemma entries_nth: "i \<le> length Fs \<Longrightarrow> entries Fs ! i = of_nat (length (concat (take i Fs)))"
  unfolding entries_def by (subst nth_map) (simp_all add: starts_end_nth)

lemma Finish_filters:
  assumes "filters b Fs K" "K = []"
  shows "FilterBlock_Finish create b = filter_block Fs"
proof -
  have "start b = []" "result b = concat Fs" "filter_offsets b @ [of_nat (length (concat Fs))] = entries Fs"
    using assms by (simp_all add: filters_def entries_def)
  then show ?thesis by (simp add: FilterBlock_Finish_def Let_def foldl_PutFixed32 filter_block_def del: foldl_append)
qed

lemma filter_block_entry:
  assumes "i \<le> length Fs" "length (concat Fs) < 2 ^ 32"
  shows "unat (DecodeFixed32 (drop (length (concat Fs) + 4 * i) (filter_block Fs))) = length (concat (take i Fs))"
proof -
  have "drop (length (concat Fs) + 4 * i) (filter_block Fs) = drop (4 * i) (fixed_array (entries Fs) @ [of_nat kFilterBaseLg])"
    by (simp add: filter_block_def)
  then have "DecodeFixed32 (drop (length (concat Fs) + 4 * i) (filter_block Fs)) = of_nat (length (concat (take i Fs)))"
    using DecodeFixed32_array [of i "entries Fs" "[of_nat kFilterBaseLg]"] assms(1) by (simp add: entries_nth)
  moreover have "length (concat (take i Fs)) \<le> length (concat Fs)"
    by (metis append_take_drop_id concat_append le_add1 length_append)
  ultimately show ?thesis using assms(2) by (simp add: unat_of_nat)
qed

lemma length_filter_block: "length (filter_block Fs) = length (concat Fs) + 4 * length Fs + 5"
  by (simp add: filter_block_def)

lemma FilterBlockReader_filter_block:
  assumes "length (concat Fs) < 2 ^ 32"
  shows "FilterBlockReader_new (filter_block Fs) =
    \<lparr>fr_data = filter_block Fs, fr_offset = length (concat Fs), fr_num = length Fs, base_lg = 11\<rparr>"
proof -
  have l: "filter_block Fs ! (4 + (length (concat Fs) + 4 * length Fs)) = 11"
    by (simp add: filter_block_def kFilterBaseLg_def nth_append)
  have w: "unat (DecodeFixed32 (drop (length (concat Fs) + 4 * length Fs) (filter_block Fs))) = length (concat Fs)"
    using filter_block_entry [OF order_refl assms] by simp
  show ?thesis unfolding FilterBlockReader_new_def Let_def length_filter_block using l w by simp
qed

context filter_policy
begin

lemma GenerateFilter_filters:
  assumes "filters b Fs K"
  shows "\<exists>f. filters (GenerateFilter create b) (Fs @ [f]) [] \<and> (\<forall>key \<in> set K. matches key f)"
proof (cases "K = []")
  case True
  then show ?thesis using assms by (intro exI [of _ "[]"]) (simp add: filters_def GenerateFilter_def)
next
  case False
  obtain f where f: "create K (result b) = result b @ f" "\<forall>key \<in> set K. matches key f" using create_matches by blast
  have "start b = starts K" "keys_flat b = concat K" "length (start b) = length K" using assms by (simp_all add: filters_def)
  then have "filters (GenerateFilter create b) (Fs @ [f]) []"
    using assms f(1) False unfolding GenerateFilter_def Let_def by (simp add: filters_def parts_recovered [simplified])
  then show ?thesis using f(2) by blast
qed

lemma generate_until_filters:
  assumes "filters b Fs K" "stored matches S Fs K" "length Fs \<le> n"
  shows "\<exists>Fs' K'. filters (generate_until create n b) Fs' K' \<and> stored matches S Fs' K' \<and> length Fs' = n"
  using assms
proof (induction "n - length Fs" arbitrary: b Fs K)
  case 0
  then have "length (filter_offsets b) = n" by (simp add: filters_def)
  then show ?case using 0 by (subst generate_until.simps) auto
next
  case (Suc k)
  obtain f where f: "filters (GenerateFilter create b) (Fs @ [f]) []" "\<forall>key \<in> set K. matches key f"
    using GenerateFilter_filters [OF Suc.prems(1)] by blast
  have "generate_until create n b = generate_until create n (GenerateFilter create b)"
    using Suc.hyps(2) Suc.prems(1) by (subst generate_until.simps) (simp add: filters_def)
  then show ?case using Suc.hyps(1) [OF _ f(1) stored_generate [OF Suc.prems(2) f(2)]] Suc.hyps(2) by simp
qed

lemma StartBlock_filters:
  assumes "filters b Fs K" "stored matches S Fs K" "length Fs \<le> filter_index off"
  shows "\<exists>Fs' K'. filters (StartBlock create off b) Fs' K' \<and> stored matches S Fs' K' \<and> length Fs' = filter_index off"
proof -
  have "unat (off div of_nat kFilterBase) = filter_index off"
    by (simp add: filter_index_def kFilterBase_def kFilterBaseLg_def unat_div)
  then show ?thesis using generate_until_filters [OF assms] by (simp add: StartBlock_def)
qed

lemma build_block_filters:
  assumes "filters b Fs K" "stored matches S Fs K" "length Fs \<le> filter_index off"
  shows "\<exists>Fs' K'. filters (foldl (\<lambda>b key. AddKey key b) (StartBlock create off b) keys) Fs' K' \<and>
    stored matches (S \<union> {filter_index off} \<times> set keys) Fs' K' \<and> length Fs' = filter_index off"
proof -
  obtain Fs' K' where s: "filters (StartBlock create off b) Fs' K'" "stored matches S Fs' K'" "length Fs' = filter_index off"
    using StartBlock_filters [OF assms] by blast
  then have "stored matches (S \<union> {filter_index off} \<times> set keys) Fs' (K' @ keys)" by (auto simp: stored_def)
  then show ?thesis using filters_AddKeys [OF s(1), of keys] s(3) by blast
qed

lemma build_filters_stored:
  assumes "sorted (map (filter_index \<circ> fst) blocks)"
  shows "\<exists>Fs K. filters (build_filters create blocks) Fs K \<and>
    stored matches (\<Union>(off, keys) \<in> set blocks. {filter_index off} \<times> set keys) Fs K \<and>
    (blocks = [] \<longrightarrow> Fs = []) \<and> (blocks \<noteq> [] \<longrightarrow> length Fs = filter_index (fst (last blocks)))"
  using assms
proof (induction blocks rule: rev_induct)
  case Nil
  show ?case using filters_new by (auto simp: build_filters_def stored_def)
next
  case (snoc block blocks)
  obtain off keys where b: "block = (off, keys)" by (cases block)
  obtain Fs K where ih: "filters (build_filters create blocks) Fs K"
      "stored matches (\<Union>(off, keys) \<in> set blocks. {filter_index off} \<times> set keys) Fs K"
      "blocks = [] \<longrightarrow> Fs = []" "blocks \<noteq> [] \<longrightarrow> length Fs = filter_index (fst (last blocks))"
    using snoc by (auto simp: sorted_append)
  have "length Fs \<le> filter_index off"
    using ih(3,4) snoc.prems b by (cases "blocks = []") (auto simp: sorted_append)
  from build_block_filters [OF ih(1,2) this, of keys] obtain Fs' K'
    where "filters (foldl (\<lambda>b key. AddKey key b) (StartBlock create off (build_filters create blocks)) keys) Fs' K'"
      "stored matches ((\<Union>(off, keys) \<in> set blocks. {filter_index off} \<times> set keys) \<union> {filter_index off} \<times> set keys) Fs' K'"
      "length Fs' = filter_index off" by blast
  moreover have "(\<Union>(off, keys) \<in> set (blocks @ [block]). {filter_index off} \<times> set keys) =
      (\<Union>(off, keys) \<in> set blocks. {filter_index off} \<times> set keys) \<union> {filter_index off} \<times> set keys"
    by (auto simp: b)
  ultimately show ?case by (auto simp: build_filters_def b)
qed

lemma FilterBlock_matches:
  assumes "stored matches S Fs []" "(filter_index off, key) \<in> S" "length (concat Fs) < 2 ^ 32"
  shows "FilterBlock_KeyMayMatch matches (FilterBlockReader_new (filter_block Fs)) off key"
proof -
  let ?i = "filter_index off" and ?n = "length (concat Fs)"
  have i: "?i < length Fs" "matches key (Fs ! ?i)" using assms(1,2) by (auto simp: stored_def)
  have idx: "unat (drop_bit (unat (11 :: size_t)) off) = ?i" by (simp add: filter_index_def unat_shift_right)
  have e: "unat (DecodeFixed32 (drop (?n + ?i * 4) (filter_block Fs))) = length (concat (take ?i Fs))"
    "unat (DecodeFixed32 (drop (?n + ?i * 4 + 4) (filter_block Fs))) = length (concat (take ?i Fs)) + length (Fs ! ?i)"
    using filter_block_entry [of ?i Fs] filter_block_entry [of "Suc ?i" Fs] i(1) assms(3) part_length [OF i(1)]
    by (simp_all add: ac_simps)
  have E: "concat Fs = concat (take ?i Fs) @ Fs ! ?i @ concat (drop (Suc ?i) Fs)"
    using i(1) by (metis concat.simps(2) concat_append id_take_nth_drop)
  then have le: "length (concat (take ?i Fs)) + length (Fs ! ?i) \<le> ?n" by (metis append.assoc le_add1 length_append)
  have "filter_block Fs = concat (take ?i Fs) @ Fs ! ?i @ concat (drop (Suc ?i) Fs) @ fixed_array (entries Fs) @ [of_nat kFilterBaseLg]"
    unfolding filter_block_def by (subst E) simp
  then have f: "take (length (Fs ! ?i)) (drop (length (concat (take ?i Fs))) (filter_block Fs)) = Fs ! ?i" by simp
  show ?thesis unfolding FilterBlockReader_filter_block [OF assms(3)] FilterBlock_KeyMayMatch_def Let_def
      FilterBlockReader.select_convs idx e using i le f by simp
qed

lemma filter_block_complete:
  assumes "sorted (map (filter_index \<circ> fst) blocks)" "(off, keys) \<in> set blocks" "key \<in> set keys"
    "length (FilterBlock_Finish create (build_filters create blocks)) < 2 ^ 32"
  shows "FilterBlock_KeyMayMatch matches
    (FilterBlockReader_new (FilterBlock_Finish create (build_filters create blocks))) off key"
proof -
  let ?S = "\<Union>(off, keys) \<in> set blocks. {filter_index off} \<times> set keys"
  obtain Fs K where b: "filters (build_filters create blocks) Fs K" "stored matches ?S Fs K"
    using build_filters_stored [OF assms(1)] by blast
  obtain Fs' where b': "FilterBlock_Finish create (build_filters create blocks) = filter_block Fs'" "stored matches ?S Fs' []"
  proof (cases "K = []")
    case True
    then show ?thesis using that [OF Finish_filters [OF b(1) True]] b(2) by simp
  next
    case False
    then have "start (build_filters create blocks) \<noteq> []" using b(1) by (auto simp: filters_def starts_def)
    moreover obtain f where f: "filters (GenerateFilter create (build_filters create blocks)) (Fs @ [f]) []"
        "\<forall>key \<in> set K. matches key f" using GenerateFilter_filters [OF b(1)] by blast
    moreover have "start (GenerateFilter create (build_filters create blocks)) = []" using f(1) by (simp add: filters_def)
    ultimately have "FilterBlock_Finish create (build_filters create blocks) =
        FilterBlock_Finish create (GenerateFilter create (build_filters create blocks))"
      by (simp add: FilterBlock_Finish_def)
    then show ?thesis using that [of "Fs @ [f]"] Finish_filters [OF f(1) refl] stored_generate [OF b(2) f(2)] by simp
  qed
  have "length (concat Fs') < 2 ^ 32" using assms(4) by (simp add: b'(1) length_filter_block)
  then show ?thesis using FilterBlock_matches [OF b'(2)] assms(2,3) b'(1) by auto
qed

end

section \<open>Properties\<close>

text \<open>
  C21: The filter block of a table has no false negatives: when the blocks of a table are announced in the order of their
  offsets and their keys added, and the finished block is shorter than 4 GiB, the reader of the block answers that the key
  may be there for the offset of each block and each of its keys. The policy is the bloom filter.
\<close>

theorem filter_block_no_false_negatives:
  assumes "sorted (map (filter_index \<circ> fst) blocks)" "(off, keys) \<in> set blocks" "key \<in> set keys"
    "length (FilterBlock_Finish (CreateFilter (BloomFilterPolicy_new bpk)) (build_filters (CreateFilter (BloomFilterPolicy_new bpk)) blocks)) < 2 ^ 32"
  shows "FilterBlock_KeyMayMatch KeyMayMatch (FilterBlockReader_new
    (FilterBlock_Finish (CreateFilter (BloomFilterPolicy_new bpk)) (build_filters (CreateFilter (BloomFilterPolicy_new bpk)) blocks))) off key"
  by (rule bloom.filter_block_complete [OF assms])

lemma length_CreateFilter:
  "length (CreateFilter p keys dst) =
     length dst + ((if length keys * bits_per_key p < 64 then 64 else length keys * bits_per_key p) + 7) div 8 + 1"
proof -
  have "length (foldl (add_key k bits) a keys) = length a" for k bits a
    using fold_add_key_kept [of a k bits keys] by (simp add: bits_kept_def)
  then show ?thesis by (simp add: CreateFilter_def Let_def)
qed

theorem filter_block_no_false_negatives_witness:
  "FilterBlock_KeyMayMatch KeyMayMatch (FilterBlockReader_new
    (FilterBlock_Finish (CreateFilter (BloomFilterPolicy_new 10))
      (build_filters (CreateFilter (BloomFilterPolicy_new 10)) [(0, [[1, 2], []])]))) 0 [1, 2]"
proof (rule filter_block_no_false_negatives)
  show "(0, [[1, 2], []]) \<in> set [(0 :: uint64, [[1, 2 :: byte], []])]" by simp
  have "build_filters (CreateFilter (BloomFilterPolicy_new 10)) [(0, [[1, 2], []])] =
      \<lparr>keys_flat = [1, 2], start = [0, 2], result = [], filter_offsets = []\<rparr>"
    by (simp add: build_filters_def StartBlock_def generate_until.simps AddKey_def FilterBlockBuilder_new_def)
  then show "length (FilterBlock_Finish (CreateFilter (BloomFilterPolicy_new 10))
      (build_filters (CreateFilter (BloomFilterPolicy_new 10)) [(0, [[1, 2], []])])) < 2 ^ 32"
    by (simp add: FilterBlock_Finish_def Let_def GenerateFilter_def foldl_PutFixed32 PutFixed32_def length_CreateFilter
        BloomFilterPolicy_new_def)
qed simp_all

end
