(* ===== verification/Ldb_Table_Build.thy ===== *)
theory Ldb_Table_Build
  imports Ldb_Table Ldb_Block_Thms Ldb_Filter_Thms Ldb_Log_Thms
begin

text \<open>
  What the table builder writes: the images of the data blocks, of the filter block, of the metaindex block and of the index block,
  and the footer, as a function of the groups of entries that make up the data blocks.
\<close>

section \<open>The image of a table\<close>

definition blocks_image :: "nat \<Rightarrow> kv list list \<Rightarrow> byte list" where
  "blocks_image K bs = concat (map (\<lambda>kvs. raw_block kNoCompression (block_data K kvs)) bs)"

definition handle_at :: "nat \<Rightarrow> kv list list \<Rightarrow> nat \<Rightarrow> BlockHandle" where
  "handle_at K bs i = \<lparr>bh_offset = of_nat (length (blocks_image K (take i bs))), bh_size = of_nat (length (block_data K (bs ! i)))\<rparr>"

text \<open>The entries of the index up to the last group, each with a key between its group and the next one.\<close>

definition index_entries :: "(slice \<Rightarrow> slice \<Rightarrow> slice) \<Rightarrow> nat \<Rightarrow> kv list list \<Rightarrow> kv list" where
  "index_entries sep K bs =
     map (\<lambda>i. (sep (fst (last (bs ! i))) (fst (hd (bs ! Suc i))), BlockHandle_EncodeTo (handle_at K bs i) [])) [0..<length bs - 1]"

text \<open>The calls of the filter block builder: for each group the offset of its block and its keys.\<close>

definition filter_calls :: "nat \<Rightarrow> kv list list \<Rightarrow> (uint64 \<times> slice list) list" where
  "filter_calls K bs = map (\<lambda>i. (bh_offset (handle_at K bs i), map fst (bs ! i))) [0..<length bs]"

lemma blocks_image_snoc [simp]: "blocks_image K (bs @ [b]) = blocks_image K bs @ raw_block kNoCompression (block_data K b)"
  by (simp add: blocks_image_def)

lemma handle_at_append [simp]: "i < length bs \<Longrightarrow> handle_at K (bs @ cs) i = handle_at K bs i"
  by (simp add: handle_at_def nth_append)

lemma index_entries_snoc:
  "index_entries sep K (bs @ [c]) = (if bs = [] then [] else
     index_entries sep K bs @ [(sep (fst (last (last bs))) (fst (hd c)), BlockHandle_EncodeTo (handle_at K bs (length bs - 1)) [])])"
proof (cases bs rule: rev_cases)
  case (snoc ds d)
  have "[0..<Suc (length ds)] = [0..<length ds] @ [length ds]" by simp
  then show ?thesis by (auto simp: index_entries_def snoc nth_append handle_at_def)
qed (simp add: index_entries_def)

lemma index_entries_last:
  "c \<noteq> [] \<Longrightarrow> index_entries sep K (bs @ [c @ d]) = index_entries sep K (bs @ [c])"
  by (simp add: index_entries_snoc)

lemma filter_calls_snoc:
  "filter_calls K (bs @ [c]) = filter_calls K bs @ [(of_nat (length (blocks_image K bs)), map fst c)]"
  by (auto simp: filter_calls_def nth_append handle_at_def)

text \<open>The contents of the other blocks, and the bytes in front of each of them.\<close>

definition filter_contents :: "Options \<Rightarrow> kv list list \<Rightarrow> byte list option" where
  "filter_contents opt bs =
     map_option (\<lambda>p. FilterBlock_Finish (vCreate p) (build_filters (vCreate p) (filter_calls (block_restart_interval opt) (bs @ [[]]))))
       (opt_filter opt)"

definition before_filter :: "Options \<Rightarrow> kv list list \<Rightarrow> byte list" where
  "before_filter opt bs = blocks_image (block_restart_interval opt) bs"

definition before_meta :: "Options \<Rightarrow> kv list list \<Rightarrow> byte list" where
  "before_meta opt bs = before_filter opt bs @ (case filter_contents opt bs of None \<Rightarrow> [] | Some d \<Rightarrow> raw_block kNoCompression d)"

definition handle_of :: "byte list \<Rightarrow> byte list \<Rightarrow> BlockHandle" where
  "handle_of pre d = \<lparr>bh_offset = of_nat (length pre), bh_size = of_nat (length d)\<rparr>"

definition meta_entries :: "Options \<Rightarrow> kv list list \<Rightarrow> kv list" where
  "meta_entries opt bs =
     (case (opt_filter opt, filter_contents opt bs) of
        (Some p, Some d) \<Rightarrow> [(c_str ''filter.'' @ vName p, BlockHandle_EncodeTo (handle_of (before_filter opt bs) d) [])]
      | _ \<Rightarrow> [])"

definition meta_contents :: "Options \<Rightarrow> kv list list \<Rightarrow> byte list" where
  "meta_contents opt bs = block_data (block_restart_interval opt) (meta_entries opt bs)"

definition before_index :: "Options \<Rightarrow> kv list list \<Rightarrow> byte list" where
  "before_index opt bs = before_meta opt bs @ raw_block kNoCompression (meta_contents opt bs)"

definition full_index :: "Options \<Rightarrow> kv list list \<Rightarrow> kv list" where
  "full_index opt bs =
     index_entries (vSeparator (opt_comparator opt)) (block_restart_interval opt) bs @
     (if bs = [] then [] else [(vSuccessor (opt_comparator opt) (fst (last (last bs))),
        BlockHandle_EncodeTo (handle_at (block_restart_interval opt) bs (length bs - 1)) [])])"

definition index_contents :: "Options \<Rightarrow> kv list list \<Rightarrow> byte list" where
  "index_contents opt bs = block_data 1 (full_index opt bs)"

definition table_footer :: "Options \<Rightarrow> kv list list \<Rightarrow> Footer" where
  "table_footer opt bs =
     \<lparr>metaindex_handle = handle_of (before_meta opt bs) (meta_contents opt bs),
      index_handle = handle_of (before_index opt bs) (index_contents opt bs)\<rparr>"

definition table_image :: "Options \<Rightarrow> kv list list \<Rightarrow> byte list" where
  "table_image opt bs =
     before_index opt bs @ raw_block kNoCompression (index_contents opt bs) @ Footer_EncodeTo (table_footer opt bs) []"

section \<open>The state of the builder\<close>

text \<open>
  The builder after the data blocks \<open>bs\<close> were written, with the entries \<open>cur\<close> in the block that is being built.
\<close>

definition groups :: "kv list list \<Rightarrow> kv list \<Rightarrow> kv list list" where
  "groups bs cur = (if cur = [] then bs else bs @ [cur])"

definition tb_inv :: "('f \<Rightarrow> byte list) \<Rightarrow> ('f \<Rightarrow> bool) \<Rightarrow> Options \<Rightarrow> kv list list \<Rightarrow> kv list \<Rightarrow> 'f TableBuilder \<Rightarrow> bool" where
  "tb_inv contents invar opt bs cur r \<longleftrightarrow>
     (let K = block_restart_interval opt in
      tb_options r = opt \<and> tb_status r = OK \<and> invar (tb_file r) \<and> contents (tb_file r) = blocks_image K bs \<and>
      tb_offset r = of_nat (length (blocks_image K bs)) \<and> data_block r = build K cur \<and>
      index_block r = build 1 (index_entries (vSeparator (opt_comparator opt)) K (groups bs cur)) \<and>
      (groups bs cur \<noteq> [] \<longrightarrow> tb_last_key r = fst (last (last (groups bs cur)))) \<and>
      num_entries r = of_nat (length (concat (groups bs cur))) \<and>
      tb_filter r = map_option (\<lambda>p. build_filters (vCreate p) (filter_calls K (bs @ [cur]))) (opt_filter opt) \<and>
      pending_index_entry r = (bs \<noteq> [] \<and> cur = []) \<and>
      (bs \<noteq> [] \<and> cur = [] \<longrightarrow> pending_handle r = handle_at K bs (length bs - 1)) \<and> compressed_output r = [])"

lemma Reset_build: "BlockBuilder_Reset (BlockBuilder_Finish (build K kvs)) = build K []" if "0 < K"
  using build_state(1) [OF that, of kvs]
  by (simp add: BlockBuilder_Reset_def BlockBuilder_Finish_def build_def BlockBuilder_new_def Let_def)

lemma build_empty_iff: "0 < K \<Longrightarrow> BlockBuilder_empty (build K kvs) \<longleftrightarrow> kvs = []"
  using off_less [of K 0 "length kvs" kvs] by (cases kvs) (auto simp: BlockBuilder_empty_def off_def build_def BlockBuilder_new_def)

lemma build_filters_AddKey:
  "build_filters create (xs @ [(o1, ks @ [k])]) = AddKey k (build_filters create (xs @ [(o1, ks)]))"
  by (simp add: build_filters_def)

lemma build_filters_StartBlock:
  "build_filters create (xs @ [(o1, [])]) = StartBlock create o1 (build_filters create xs)"
  by (simp add: build_filters_def)

lemma groups_snoc: "groups bs (cur @ [kv]) = bs @ [cur @ [kv]]"
  by (simp add: groups_def)

text \<open>The steps of \<^verbatim>\<open>Add\<close> before the test of the size.\<close>

definition add_entry :: "slice \<Rightarrow> slice \<Rightarrow> 'f TableBuilder \<Rightarrow> 'f TableBuilder" where
  "add_entry key value r =
     (let r = (if pending_index_entry r then add_index_entry (vSeparator (opt_comparator (tb_options r)) (tb_last_key r) key) r else r);
          r = r\<lparr>tb_filter := map_option (AddKey key) (tb_filter r)\<rparr>
      in r\<lparr>tb_last_key := key, num_entries := num_entries r + 1, data_block := BlockBuilder_Add key value (data_block r)\<rparr>)"

lemma TableBuilder_Add_entry:
  "ok (tb_status r) \<Longrightarrow> TableBuilder_Add vt key value r =
     (let r = add_entry key value r in
      if CurrentSizeEstimate (data_block r) \<ge> block_size (tb_options r) then TableBuilder_Flush vt r else Some r)"
  by (simp add: TableBuilder_Add_def add_entry_def Let_def)

lemma add_entry_inv:
  assumes "tb_inv contents invar opt bs cur r"
  shows "tb_inv contents invar opt bs (cur @ [(k, v)]) (add_entry k v r)"
proof -
  let ?K = "block_restart_interval opt" and ?sep = "vSeparator (opt_comparator opt)"
  have i: "index_block (add_entry k v r) = build 1 (index_entries ?sep ?K (bs @ [cur @ [(k, v)]]))"
  proof (cases "cur = []")
    case True
    then show ?thesis using assms
      by (cases "bs = []") (auto simp: tb_inv_def Let_def add_entry_def add_index_entry_def groups_def index_entries_snoc build_snoc
          index_entries_def [of _ _ "[_]"] index_entries_def [of _ _ "[]"])
  next
    case False
    then show ?thesis using assms
      by (simp add: tb_inv_def Let_def add_entry_def groups_def index_entries_last)
  qed
  have f: "filter_calls ?K (bs @ [cur @ [(k, v)]]) = filter_calls ?K bs @ [(of_nat (length (blocks_image ?K bs)), map fst cur @ [k])]"
    by (simp add: filter_calls_snoc)
  show ?thesis using assms i
    by (auto simp: tb_inv_def Let_def groups_snoc f build_filters_AddKey filter_calls_snoc [of _ bs cur] option.map_comp o_def build_snoc
        add_entry_def add_index_entry_def groups_def)
qed

text \<open>The state while \<^verbatim>\<open>Finish\<close> writes the blocks behind the data: the bytes written so far are \<open>y\<close>.\<close>

definition closing :: "('f \<Rightarrow> byte list) \<Rightarrow> ('f \<Rightarrow> bool) \<Rightarrow> Options \<Rightarrow> kv list list \<Rightarrow> byte list \<Rightarrow> 'f TableBuilder \<Rightarrow> bool" where
  "closing contents invar opt bs y r \<longleftrightarrow>
     (let K = block_restart_interval opt in
      invar (tb_file r) \<and> contents (tb_file r) = y \<and> tb_offset r = of_nat (length y) \<and> tb_status r = OK \<and> tb_options r = opt \<and>
      index_block r = build 1 (index_entries (vSeparator (opt_comparator opt)) K bs) \<and> pending_index_entry r = (bs \<noteq> []) \<and>
      (bs \<noteq> [] \<longrightarrow> pending_handle r = handle_at K bs (length bs - 1) \<and> tb_last_key r = fst (last (last bs))) \<and>
      num_entries r = of_nat (length (concat bs)) \<and>
      tb_filter r = map_option (\<lambda>p. build_filters (vCreate p) (filter_calls K (bs @ [[]]))) (opt_filter opt) \<and> compressed_output r = [])"

lemma closing_start: "tb_inv contents invar opt bs [] r \<Longrightarrow> closing contents invar opt bs (before_filter opt bs) (r\<lparr>tb_closed := True\<rparr>)"
  by (simp add: tb_inv_def closing_def Let_def groups_def before_filter_def)

lemma closing_step:
  "closing contents invar opt bs y r \<Longrightarrow> invar f \<Longrightarrow> contents f = y @ z \<Longrightarrow>
    closing contents invar opt bs (y @ z) (r\<lparr>tb_file := f, tb_status := OK, tb_offset := tb_offset r + of_nat (length z)\<rparr>)"
  by (simp add: closing_def Let_def)

text \<open>Adding entries one after the other.\<close>

fun table_add_all :: "'f WritableFile \<Rightarrow> kv list \<Rightarrow> 'f TableBuilder \<Rightarrow> 'f TableBuilder option" where
  "table_add_all vt [] r = Some r"
| "table_add_all vt (kv # kvs) r = Option.bind (TableBuilder_Add vt (fst kv) (snd kv) r) (table_add_all vt kvs)"

lemma tb_inv_new:
  assumes "invar f" "contents f = []"
  shows "tb_inv contents invar opt [] [] (TableBuilder_new opt f)"
proof -
  have "build_filters create (filter_calls K [[]]) = StartBlock create 0 FilterBlockBuilder_new" for create K
    by (simp add: build_filters_def filter_calls_def handle_at_def blocks_image_def)
  then show ?thesis using assms
    by (simp add: tb_inv_def TableBuilder_new_def groups_def build_def index_entries_def blocks_image_def)
qed

context writable_file
begin

lemma WriteRawBlock_writes:
  assumes "invar (tb_file r)"
  shows "\<exists>f'. WriteRawBlock vt d t r =
      Some (\<lparr>bh_offset = tb_offset r, bh_size = of_nat (length d)\<rparr>,
        r\<lparr>tb_file := f', tb_status := OK, tb_offset := tb_offset r + of_nat (length (raw_block t d))\<rparr>) \<and>
    contents f' = contents (tb_file r) @ raw_block t d \<and> invar f'"
proof -
  let ?t = "compression_type t # EncodeFixed32 (Mask (Extend 0 (Value 0 d) [compression_type t]))"
  obtain f1 where f1: "append d (tb_file r) = Some (OK, f1)" "contents f1 = contents (tb_file r) @ d" "invar f1"
    using append_returns [OF assms] by blast
  obtain f2 where f2: "append ?t f1 = Some (OK, f2)" "contents f2 = contents f1 @ ?t" "invar f2"
    using append_returns [OF f1(3)] by blast
  have "Extend 0 (Value 0 d) [compression_type t] = Value 0 (d @ [compression_type t])"
    by (simp add: Extend_ref Value_def crc32c_ref_append)
  then have "d @ ?t = raw_block t d" by (simp add: raw_block_def)
  then show ?thesis using f1 f2 by (intro exI [of _ f2]) (simp add: WriteRawBlock_def Let_def)
qed

lemma WriteBlock_writes:
  assumes "invar (tb_file r)" "0 < K" "compressed_output r = []"
  shows "\<exists>f'. WriteBlock vt (build K kvs) r =
      Some (\<lparr>bh_offset = tb_offset r, bh_size = of_nat (length (block_data K kvs))\<rparr>, build K [],
        r\<lparr>tb_file := f', tb_status := OK, tb_offset := tb_offset r + of_nat (length (raw_block kNoCompression (block_data K kvs)))\<rparr>) \<and>
    contents f' = contents (tb_file r) @ raw_block kNoCompression (block_data K kvs) \<and> invar f'"
proof -
  let ?d = "block_data K kvs"
  obtain f' where f': "WriteRawBlock vt ?d kNoCompression r =
      Some (\<lparr>bh_offset = tb_offset r, bh_size = of_nat (length ?d)\<rparr>,
        r\<lparr>tb_file := f', tb_status := OK, tb_offset := tb_offset r + of_nat (length (raw_block kNoCompression ?d))\<rparr>)"
      "contents f' = contents (tb_file r) @ raw_block kNoCompression ?d" "invar f'"
    using WriteRawBlock_writes [OF assms(1)] by blast
  have r: "r\<lparr>tb_file := f', tb_status := OK, tb_offset := x, compressed_output := []\<rparr> = r\<lparr>tb_file := f', tb_status := OK, tb_offset := x\<rparr>" for x
    using assms(3) by (cases r) simp
  have d: "bb_buffer (BlockBuilder_Finish (build K kvs)) = ?d" by (simp add: block_data_def)
  have "WriteBlock vt (build K kvs) r =
      Some (\<lparr>bh_offset = tb_offset r, bh_size = of_nat (length ?d)\<rparr>, build K [],
        r\<lparr>tb_file := f', tb_status := OK, tb_offset := tb_offset r + of_nat (length (raw_block kNoCompression ?d))\<rparr>)"
    using f'(1) r by (cases "compression (tb_options r)")
      (simp_all add: WriteBlock_def Let_def Snappy_Compress_def Reset_build [OF assms(2)] d)
  then show ?thesis using f'(2,3) by blast
qed

lemma Flush_inv:
  assumes i: "tb_inv contents invar opt bs cur r" and K: "0 < block_restart_interval opt"
  shows "\<exists>r'. TableBuilder_Flush vt r = Some r' \<and> tb_inv contents invar opt (groups bs cur) [] r'"
proof (cases "cur = []")
  case True
  then show ?thesis using i build_empty_iff [OF K, of "[]"] by (auto simp: TableBuilder_Flush_def tb_inv_def Let_def groups_def)
next
  case False
  let ?K = "block_restart_interval opt"
  note I = i [unfolded tb_inv_def Let_def]
  obtain f1 where f1: "WriteBlock vt (build ?K cur) r =
      Some (\<lparr>bh_offset = tb_offset r, bh_size = of_nat (length (block_data ?K cur))\<rparr>, build ?K [],
        r\<lparr>tb_file := f1, tb_status := OK, tb_offset := tb_offset r + of_nat (length (raw_block kNoCompression (block_data ?K cur)))\<rparr>)"
      "contents f1 = contents (tb_file r) @ raw_block kNoCompression (block_data ?K cur)" "invar f1"
    using WriteBlock_writes [OF _ K, of r cur] I by auto
  obtain f2 where f2: "flush f1 = Some (OK, f2)" "contents f2 = contents f1" "invar f2" using flush_returns [OF f1(3)] by blast
  have h: "handle_at ?K (bs @ [cur]) (length bs) = \<lparr>bh_offset = tb_offset r, bh_size = of_nat (length (block_data ?K cur))\<rparr>"
    using I by (simp add: handle_at_def)
  have "tb_offset r + of_nat (length (raw_block kNoCompression (block_data ?K cur))) = of_nat (length (blocks_image ?K (bs @ [cur])))"
    using I by simp
  then have c: "build_filters create (filter_calls ?K (bs @ [cur, []])) =
      StartBlock create (tb_offset r + of_nat (length (raw_block kNoCompression (block_data ?K cur)))) (build_filters create (filter_calls ?K (bs @ [cur])))" for create
    using filter_calls_snoc [of ?K "bs @ [cur]" "[]"] build_filters_StartBlock [of create "filter_calls ?K (bs @ [cur])"] by simp
  show ?thesis
    using I f1 f2 h build_empty_iff [OF K, of cur] False
    by (cases "opt_filter opt") (auto simp: TableBuilder_Flush_def tb_inv_def Let_def groups_def c)
qed

lemma Add_inv:
  assumes i: "tb_inv contents invar opt bs cur r" and K: "0 < block_restart_interval opt"
  shows "\<exists>r' bs' cur'. TableBuilder_Add vt k v r = Some r' \<and> tb_inv contents invar opt bs' cur' r' \<and>
    concat (groups bs' cur') = concat (groups bs cur) @ [(k, v)] \<and> ([] \<notin> set bs \<longrightarrow> [] \<notin> set bs')"
proof -
  note a = add_entry_inv [OF i, of k v]
  have s: "ok (tb_status r)" using i by (simp add: tb_inv_def Let_def)
  obtain r' where r': "TableBuilder_Flush vt (add_entry k v r) = Some r'"
      "tb_inv contents invar opt (groups bs (cur @ [(k, v)])) [] r'"
    using Flush_inv [OF a K] by blast
  have g: "concat (groups bs (cur @ [(k, v)])) = concat (groups bs cur) @ [(k, v)]" by (simp add: groups_def)
  show ?thesis
  proof (cases "CurrentSizeEstimate (data_block (add_entry k v r)) \<ge> block_size (tb_options (add_entry k v r))")
    case True
    then have e: "TableBuilder_Add vt k v r = Some r'"
      using r'(1) by (simp only: TableBuilder_Add_entry [OF s] Let_def if_True)
    have "concat (groups (groups bs (cur @ [(k, v)])) []) = concat (groups bs cur) @ [(k, v)]"
      "[] \<notin> set bs \<longrightarrow> [] \<notin> set (groups bs (cur @ [(k, v)]))" by (simp_all add: groups_def)
    then show ?thesis using e r'(2) by (intro exI conjI)
  next
    case False
    then have e: "TableBuilder_Add vt k v r = Some (add_entry k v r)"
      by (simp only: TableBuilder_Add_entry [OF s] Let_def if_False)
    show ?thesis by (intro exI conjI) (rule e, rule a, rule g, rule impI, assumption)
  qed
qed

text \<open>Closing the table.\<close>

lemma write_filter_closing:
  assumes c: "closing contents invar opt bs (before_filter opt bs) r"
  shows "\<exists>h r'. write_filter_block vt r = Some (h, r') \<and> closing contents invar opt bs (before_meta opt bs) r' \<and>
    (\<forall>d. filter_contents opt bs = Some d \<longrightarrow> h = handle_of (before_filter opt bs) d)"
proof (cases "opt_filter opt")
  case None
  then show ?thesis using c by (auto simp: write_filter_block_def closing_def Let_def before_meta_def filter_contents_def)
next
  case (Some p)
  note C = c [unfolded closing_def Let_def]
  obtain d where d: "filter_contents opt bs = Some d" "d = FilterBlock_Finish (vCreate p)
      (build_filters (vCreate p) (filter_calls (block_restart_interval opt) (bs @ [[]])))" using Some by (simp add: filter_contents_def)
  obtain f' where f': "WriteRawBlock vt d kNoCompression r =
      Some (\<lparr>bh_offset = tb_offset r, bh_size = of_nat (length d)\<rparr>,
        r\<lparr>tb_file := f', tb_status := OK, tb_offset := tb_offset r + of_nat (length (raw_block kNoCompression d))\<rparr>)"
      "contents f' = before_filter opt bs @ raw_block kNoCompression d" "invar f'" using WriteRawBlock_writes [of r d kNoCompression] C by auto
  have "write_filter_block vt r = WriteRawBlock vt d kNoCompression r"
    using C Some by (simp add: write_filter_block_def d(2))
  then show ?thesis using closing_step [OF c f'(3,2)] f'(1) C d(1) by (auto simp: before_meta_def handle_of_def)
qed

lemma write_meta_closing:
  assumes c: "closing contents invar opt bs (before_meta opt bs) r" and K: "0 < block_restart_interval opt"
    and h: "\<forall>d. filter_contents opt bs = Some d \<longrightarrow> h = handle_of (before_filter opt bs) d"
  shows "\<exists>r'. write_metaindex_block vt h r = Some (metaindex_handle (table_footer opt bs), r') \<and>
    closing contents invar opt bs (before_index opt bs) r'"
proof -
  let ?K = "block_restart_interval opt"
  note C = c [unfolded closing_def Let_def]
  have "(case (opt_filter (tb_options r), tb_filter r) of
      (Some policy, Some _) \<Rightarrow> BlockBuilder_Add (c_str ''filter.'' @ vName policy) (BlockHandle_EncodeTo h []) (BlockBuilder_new ?K)
    | _ \<Rightarrow> BlockBuilder_new ?K) = build ?K (meta_entries opt bs)"
    using C h by (cases "opt_filter opt") (auto simp: meta_entries_def filter_contents_def build_def)
  moreover obtain f' where f': "WriteBlock vt (build ?K (meta_entries opt bs)) r =
      Some (\<lparr>bh_offset = tb_offset r, bh_size = of_nat (length (meta_contents opt bs))\<rparr>, build ?K [],
        r\<lparr>tb_file := f', tb_status := OK, tb_offset := tb_offset r + of_nat (length (raw_block kNoCompression (meta_contents opt bs)))\<rparr>)"
      "contents f' = before_meta opt bs @ raw_block kNoCompression (meta_contents opt bs)" "invar f'"
    using WriteBlock_writes [OF _ K, of r "meta_entries opt bs"] C by (auto simp: meta_contents_def)
  ultimately have "write_metaindex_block vt h r = Some (metaindex_handle (table_footer opt bs),
      r\<lparr>tb_file := f', tb_status := OK, tb_offset := tb_offset r + of_nat (length (raw_block kNoCompression (meta_contents opt bs)))\<rparr>)"
    using C by (simp add: write_metaindex_block_def Let_def table_footer_def handle_of_def)
  then show ?thesis using closing_step [OF c f'(3,2)] by (simp only: before_index_def) blast
qed

lemma write_index_closing:
  assumes c: "closing contents invar opt bs (before_index opt bs) r"
  shows "\<exists>r'. write_index_block vt r = Some (index_handle (table_footer opt bs), r') \<and>
    invar (tb_file r') \<and> contents (tb_file r') = before_index opt bs @ raw_block kNoCompression (index_contents opt bs) \<and>
    tb_offset r' = of_nat (length (before_index opt bs @ raw_block kNoCompression (index_contents opt bs))) \<and> tb_status r' = OK \<and>
    num_entries r' = of_nat (length (concat bs))"
proof -
  note C = c [unfolded closing_def Let_def]
  define r1 where "r1 = (if pending_index_entry r then add_index_entry (vSuccessor (opt_comparator (tb_options r)) (tb_last_key r)) r else r)"
  have i: "index_block r1 = build 1 (full_index opt bs)" using C by (auto simp: r1_def full_index_def add_index_entry_def build_snoc)
  have r1: "invar (tb_file r1)" "compressed_output r1 = []" "tb_offset r1 = tb_offset r" "contents (tb_file r1) = before_index opt bs"
      "num_entries r1 = of_nat (length (concat bs))" using C by (auto simp: r1_def add_index_entry_def)
  have ok: "ok (tb_status r)" and o: "tb_offset r = of_nat (length (before_index opt bs))" using C by simp_all
  obtain f' where f': "WriteBlock vt (build 1 (full_index opt bs)) r1 =
      Some (\<lparr>bh_offset = tb_offset r1, bh_size = of_nat (length (index_contents opt bs))\<rparr>, build 1 [],
        r1\<lparr>tb_file := f', tb_status := OK, tb_offset := tb_offset r1 + of_nat (length (raw_block kNoCompression (index_contents opt bs)))\<rparr>)"
      "contents f' = before_index opt bs @ raw_block kNoCompression (index_contents opt bs)" "invar f'"
    using WriteBlock_writes [OF r1(1), of 1 "full_index opt bs"] r1(2,4) by (auto simp: index_contents_def)
  have "write_index_block vt r = Some (index_handle (table_footer opt bs),
      r1\<lparr>tb_file := f', tb_status := OK, tb_offset := tb_offset r1 + of_nat (length (raw_block kNoCompression (index_contents opt bs))),
         index_block := build 1 []\<rparr>)"
    unfolding write_index_block_def Let_def r1_def [symmetric] i f'(1) using ok r1(3) o by (simp add: table_footer_def handle_of_def)
  then show ?thesis using f'(2,3) r1(3,5) o by simp
qed

lemma Finish_writes:
  assumes i: "tb_inv contents invar opt bs cur r" and K: "0 < block_restart_interval opt"
  shows "\<exists>r'. TableBuilder_Finish vt r = Some (OK, r') \<and> invar (tb_file r') \<and>
    contents (tb_file r') = table_image opt (groups bs cur) \<and> tb_offset r' = of_nat (length (table_image opt (groups bs cur))) \<and>
    num_entries r' = of_nat (length (concat (groups bs cur)))"
proof -
  let ?G = "groups bs cur"
  obtain r0 where r0: "TableBuilder_Flush vt r = Some r0" "tb_inv contents invar opt ?G [] r0" using Flush_inv [OF assms] by blast
  obtain h r1 where r1: "write_filter_block vt (r0\<lparr>tb_closed := True\<rparr>) = Some (h, r1)" "closing contents invar opt ?G (before_meta opt ?G) r1"
      "\<forall>d. filter_contents opt ?G = Some d \<longrightarrow> h = handle_of (before_filter opt ?G) d"
    using write_filter_closing [OF closing_start [OF r0(2)]] by blast
  obtain r2 where r2: "write_metaindex_block vt h r1 = Some (metaindex_handle (table_footer opt ?G), r2)"
      "closing contents invar opt ?G (before_index opt ?G) r2" using write_meta_closing [OF r1(2) K r1(3)] by blast
  let ?y = "before_index opt ?G @ raw_block kNoCompression (index_contents opt ?G)"
  obtain r3 where r3: "write_index_block vt r2 = Some (index_handle (table_footer opt ?G), r3)" "invar (tb_file r3)"
      "contents (tb_file r3) = ?y" "tb_offset r3 = of_nat (length ?y)" "tb_status r3 = OK" "num_entries r3 = of_nat (length (concat ?G))"
    using write_index_closing [OF r2(2)] by blast
  obtain f4 where f4: "append (Footer_EncodeTo (table_footer opt ?G) []) (tb_file r3) = Some (OK, f4)"
      "contents f4 = ?y @ Footer_EncodeTo (table_footer opt ?G) []" "invar f4" using append_returns [OF r3(2)] r3(3) by auto
  have e: "\<lparr>metaindex_handle = metaindex_handle (table_footer opt ?G), index_handle = index_handle (table_footer opt ?G)\<rparr> = table_footer opt ?G"
    by simp
  let ?r = "r3\<lparr>tb_file := f4, tb_status := OK, tb_offset := tb_offset r3 + of_nat (length (Footer_EncodeTo (table_footer opt ?G) []))\<rparr>"
  have "write_footer vt (metaindex_handle (table_footer opt ?G)) (index_handle (table_footer opt ?G)) r3 = Some ?r"
    using r3(5) f4(1) by (simp add: write_footer_def Let_def e)
  then have "TableBuilder_Finish vt r = Some (OK, ?r)"
    using r0(1) r1(1) r2(1) r3(1) by (simp add: TableBuilder_Finish_def Let_def)
  moreover have "contents f4 = table_image opt ?G" using f4(2) by (simp add: table_image_def)
  moreover have "tb_offset ?r = of_nat (length (table_image opt ?G))" using r3(4) by (simp add: table_image_def)
  ultimately show ?thesis using f4(3) r3(6) by (intro exI [of _ ?r]) simp
qed

lemma add_all_inv:
  assumes K: "0 < block_restart_interval opt"
  shows "tb_inv contents invar opt bs cur r \<Longrightarrow> [] \<notin> set bs \<Longrightarrow>
    \<exists>r' bs' cur'. table_add_all vt kvs r = Some r' \<and> tb_inv contents invar opt bs' cur' r' \<and>
      concat (groups bs' cur') = concat (groups bs cur) @ kvs \<and> [] \<notin> set bs'"
proof (induction kvs arbitrary: bs cur r)
  case Nil
  then show ?case by (intro exI [of _ r] exI [of _ bs] exI [of _ cur]) simp
next
  case (Cons kv kvs)
  obtain r1 bs1 cur1 where 1: "TableBuilder_Add vt (fst kv) (snd kv) r = Some r1" "tb_inv contents invar opt bs1 cur1 r1"
      "concat (groups bs1 cur1) = concat (groups bs cur) @ [(fst kv, snd kv)]" "[] \<notin> set bs \<longrightarrow> [] \<notin> set bs1"
    using Add_inv [OF Cons.prems(1) K] by blast
  have "[] \<notin> set bs1" using 1(4) Cons.prems(2) by simp
  from Cons.IH [OF 1(2) this] obtain r2 bs2 cur2 where 2: "table_add_all vt kvs r1 = Some r2" "tb_inv contents invar opt bs2 cur2 r2"
      "concat (groups bs2 cur2) = concat (groups bs1 cur1) @ kvs" "[] \<notin> set bs2" by blast
  show ?case using 1(1,3) 2 by (intro exI [of _ r2] exI [of _ bs2] exI [of _ cur2]) simp
qed

lemma table_written:
  assumes "invar f" "contents f = []" and K: "0 < block_restart_interval opt"
  shows "\<exists>r r' bs. table_add_all vt kvs (TableBuilder_new opt f) = Some r \<and> TableBuilder_Finish vt r = Some (OK, r') \<and> invar (tb_file r') \<and>
    contents (tb_file r') = table_image opt bs \<and> tb_offset r' = of_nat (length (table_image opt bs)) \<and>
    num_entries r' = of_nat (length kvs) \<and> concat bs = kvs \<and> [] \<notin> set bs"
proof -
  obtain r bs cur where r: "table_add_all vt kvs (TableBuilder_new opt f) = Some r" "tb_inv contents invar opt bs cur r"
      "concat (groups bs cur) = kvs" "[] \<notin> set bs"
    using add_all_inv [OF K tb_inv_new [of invar f contents, OF assms(1,2)], of kvs] by (auto simp: groups_def [of "[]"])
  have "[] \<notin> set (groups bs cur)" using r(4) by (simp add: groups_def)
  then show ?thesis using Finish_writes [OF r(2) K] r(1,3) by auto
qed

end

end
