(* ===== verification/Ldb_Table_Read.thy ===== *)
theory Ldb_Table_Read
  imports Ldb_Table_Build
begin

text \<open>
  Reading a table that the builder has written: opening it gives the index and the filter that were written, and a lookup finds the
  first entry that is not before the key.
\<close>

section \<open>Blocks of the image\<close>

text \<open>A key is not longer than the bytes of the block up to the end of its entry.\<close>

lemma key_within_block: "0 < K \<Longrightarrow> i < length kvs \<Longrightarrow> length (fst (kvs ! i)) \<le> off K kvs (Suc i)"
proof (induction i)
  case 0
  then show ?case by (simp add: off_Suc shared_at_def entry_bytes_def)
next
  case (Suc i)
  have "length (fst (kvs ! Suc i)) \<le> length (fst (kvs ! i)) + length (entry_bytes (shared_at K kvs (Suc i)) (fst (kvs ! Suc i)) (snd (kvs ! Suc i)))"
    using shared_le(1) [of "Suc i" K kvs] shared_le(2) [of K kvs "Suc i"] by (simp add: entry_bytes_def)
  then show ?case using Suc off_Suc [of K "Suc i" kvs] by simp
qed

lemma block_fits_size: "0 < K \<Longrightarrow> length (block_data K kvs) < 2 ^ 32 \<Longrightarrow> block_fits K kvs"
proof -
  assume K: "0 < K" and l: "length (block_data K kvs) < 2 ^ 32"
  have "length (fst (kvs ! i)) < 2 ^ 32" if "i < length kvs" for i
    using key_within_block [OF K that] off_le [OF K, of "Suc i" "length kvs" kvs] block_length [OF K, of kvs] that l by simp
  then show ?thesis using K l unfolding block_fits_def by (metis in_set_conv_nth)
qed

lemma handle_at_eq: "handle_at K bs i = handle_of (blocks_image K (take i bs)) (block_data K (bs ! i))"
  by (simp add: handle_at_def handle_of_def)

lemma blocks_split:
  assumes "i < length bs"
  shows "blocks_image K bs =
    blocks_image K (take i bs) @ raw_block kNoCompression (block_data K (bs ! i)) @ blocks_image K (drop (Suc i) bs)"
  using arg_cong [OF id_take_nth_drop [OF assms], of "blocks_image K"] by (simp add: blocks_image_def)

text \<open>A table of less than 4 GiB.\<close>

definition table_fits :: "Options \<Rightarrow> kv list list \<Rightarrow> bool" where
  "table_fits opt bs \<longleftrightarrow> 0 < block_restart_interval opt \<and> length (table_image opt bs) < 2 ^ 32"

lemma image_parts:
  "\<exists>post. table_image opt bs = before_filter opt bs @ post"
  "filter_contents opt bs = Some d \<Longrightarrow> \<exists>post. table_image opt bs = before_filter opt bs @ raw_block kNoCompression d @ post"
  "table_image opt bs = before_meta opt bs @ raw_block kNoCompression (meta_contents opt bs) @
     raw_block kNoCompression (index_contents opt bs) @ Footer_EncodeTo (table_footer opt bs) []"
  "table_image opt bs = before_index opt bs @ raw_block kNoCompression (index_contents opt bs) @ Footer_EncodeTo (table_footer opt bs) []"
  by (simp_all add: table_image_def before_index_def before_meta_def)

lemma image_data_block:
  assumes "i < length bs"
  shows "\<exists>post. table_image opt bs = blocks_image (block_restart_interval opt) (take i bs) @
    raw_block kNoCompression (block_data (block_restart_interval opt) (bs ! i)) @ post"
  using image_parts(1) [of opt bs] blocks_split [OF assms, of "block_restart_interval opt"] by (auto simp: before_filter_def)

lemma parts_fit:
  assumes "table_fits opt bs"
  shows "i < length bs \<Longrightarrow> block_fits (block_restart_interval opt) (bs ! i)"
    "block_fits (block_restart_interval opt) (meta_entries opt bs)" "block_fits 1 (full_index opt bs)"
    "filter_contents opt bs = Some d \<Longrightarrow> length d < 2 ^ 32"
proof -
  have K: "0 < block_restart_interval opt" and l: "length (table_image opt bs) < 2 ^ 32" using assms by (simp_all add: table_fits_def)
  show "block_fits (block_restart_interval opt) (bs ! i)" if "i < length bs"
    using image_data_block [OF that, of opt] l by (intro block_fits_size K) auto
  show "block_fits (block_restart_interval opt) (meta_entries opt bs)"
    using l by (intro block_fits_size K) (simp add: image_parts(3) meta_contents_def)
  show "block_fits 1 (full_index opt bs)"
    using l by (intro block_fits_size) (simp_all add: image_parts(4) index_contents_def)
  show "length d < 2 ^ 32" if "filter_contents opt bs = Some d" using image_parts(2) [OF that] l by auto
qed

lemma NewIterator_block:
  "block_fits K kvs \<Longrightarrow> \<exists>it. NewIterator (Block_new (block_data K kvs)) = OverBlock it \<and> stands K kvs it (length kvs)"
  using block_iterator_new [of K kvs] by (auto simp: NewIterator_def)

section \<open>Opening a table\<close>

text \<open>The table that is opened on an image, with options \<open>ropt\<close> that have the same filter policy as those it was written with.\<close>

definition opened :: "Options \<Rightarrow> Options \<Rightarrow> uint64 \<Rightarrow> kv list list \<Rightarrow> Table" where
  "opened ropt opt cid bs =
     \<lparr>t_options = ropt, t_cache_id = cid, t_filter = map_option FilterBlockReader_new (filter_contents opt bs),
      t_metaindex_handle = handle_of (before_meta opt bs) (meta_contents opt bs), t_index_block = Block_new (index_contents opt bs)\<rparr>"

context random_access_file
begin

lemma ReadBlock_at:
  assumes "invar f" "contents f = pre @ raw_block kNoCompression d @ post" "length (contents f) < 2 ^ 32"
  shows "\<exists>b f'. ReadBlock vt verify (handle_of pre d) f = Some (OK, \<lparr>bc_data = d, cachable = b, heap_allocated = b\<rparr>, f') \<and>
    contents f' = contents f \<and> invar f'"
proof (rule ReadBlock_image [OF assms(1,2)])
  have "length pre < 2 ^ 64" "length d + kBlockTrailerSize < 2 ^ 64" using assms(2,3) by simp_all
  then show "unat (bh_offset (handle_of pre d)) = length pre" "unat (bh_size (handle_of pre d)) = length d" "length d + kBlockTrailerSize < 2 ^ 64"
    by (simp_all add: handle_of_def unat_of_nat)
qed

text \<open>The options of the reader differ from those of the builder only in what does not change the format.\<close>

lemma ReadMeta_opened:
  assumes i: "invar f" and c: "contents f = table_image opt bs" and fits: "table_fits opt bs" and p: "opt_filter ropt = opt_filter opt"
  shows "\<exists>f'. ReadMeta vt (table_footer opt bs) ((opened ropt opt cid bs)\<lparr>t_filter := None\<rparr>) f = Some (opened ropt opt cid bs, f') \<and>
    contents f' = contents f \<and> invar f'"
proof (cases "opt_filter opt")
  case None
  then show ?thesis using i p by (simp add: ReadMeta_def opened_def filter_contents_def)
next
  case (Some policy)
  let ?t = "(opened ropt opt cid bs)\<lparr>t_filter := None\<rparr>" and ?K = "block_restart_interval opt"
  let ?key = "c_str ''filter.'' @ vName policy" and ?v = "verify_checksums (open_options ropt)"
  have l: "length (contents f) < 2 ^ 32" using fits c by (simp add: table_fits_def)
  obtain d where d: "filter_contents opt bs = Some d" using Some by (auto simp: filter_contents_def)
  obtain b1 f1 where f1: "ReadBlock vt ?v (metaindex_handle (table_footer opt bs)) f =
      Some (OK, \<lparr>bc_data = meta_contents opt bs, cachable = b1, heap_allocated = b1\<rparr>, f1)" "contents f1 = contents f" "invar f1"
    using ReadBlock_at [OF i c [unfolded image_parts(3)] l, of ?v] by (auto simp: table_footer_def)
  let ?m = "[(?key, BlockHandle_EncodeTo (handle_of (before_filter opt bs) d) [])]"
  have m: "meta_entries opt bs = ?m" using Some d by (simp add: meta_entries_def)
  obtain it where it: "NewIterator (Block_new (meta_contents opt bs)) = OverBlock it" "stands ?K ?m it (length ?m)"
    using NewIterator_block [OF parts_fit(2) [OF fits]] unfolding meta_contents_def m by blast
  have bf: "block_fits ?K ?m" using parts_fit(2) [OF fits] m by simp
  have io: "iter_of ?K ?m it" using it(2) by (simp add: stands_def)
  obtain it2 where it2: "BlockIter_Seek slice_compare ?key it = Some it2" "stands ?K ?m it2 (first_ge slice_compare ?key ?m)"
    using block_seek [OF bytewise.key_order_axioms bf io, of ?key] by auto
  have "first_ge slice_compare ?key ?m = 0" using bytewise.refl [of ?key] by (simp add: first_ge_def)
  then have e: "BlockIter_Valid it2" "it_key it2 = ?key" "BlockIter_value it2 = BlockHandle_EncodeTo (handle_of (before_filter opt bs) d) []"
    using stands_entry [OF bf it2(2)] by simp_all
  obtain post where post: "contents f1 = before_filter opt bs @ raw_block kNoCompression d @ post"
    using image_parts(2) [OF d] c f1(2) by auto
  obtain b2 f2 where f2: "ReadBlock vt ?v (handle_of (before_filter opt bs) d) f1 = Some (OK, \<lparr>bc_data = d, cachable = b2, heap_allocated = b2\<rparr>, f2)"
      "contents f2 = contents f1" "invar f2"
    using ReadBlock_at [OF f1(3) post, of ?v] l f1(2) by auto
  have dec: "BlockHandle_DecodeFrom BlockHandle_new (BlockHandle_EncodeTo h []) = (OK, h, [])" for h
    using BlockHandle_roundtrip [of BlockHandle_new h "[]"] by simp
  have "ReadFilter vt (BlockHandle_EncodeTo (handle_of (before_filter opt bs) d) []) ?t f1 = Some (opened ropt opt cid bs, f2)"
    using f2(1) by (simp add: ReadFilter_def dec opened_def d)
  then have "ReadMeta vt (table_footer opt bs) ?t f = Some (opened ropt opt cid bs, f2)"
    using f1(1) p Some it(1) it2(1) e by (simp add: ReadMeta_def opened_def Let_def)
  then show ?thesis using f1(2) f2(2,3) by simp
qed

lemma Table_Open_image:
  assumes i: "invar f" and c: "contents f = table_image opt bs" and fits: "table_fits opt bs" and p: "opt_filter ropt = opt_filter opt"
  shows "\<exists>f'. Table_Open vt cache ropt (of_nat (length (table_image opt bs))) f c0 =
      (case (case cache of None \<Rightarrow> (0, c0) | Some cv \<Rightarrow> vNewId cv c0) of (cid, c1) \<Rightarrow> Some (OK, Some (opened ropt opt cid bs), f', c1)) \<and>
    contents f' = contents f \<and> invar f'"
proof -
  let ?n = "length (table_image opt bs)" and ?F = "Footer_EncodeTo (table_footer opt bs) []"
  let ?v = "verify_checksums (open_options ropt)"
  obtain cid c1 where cid: "(case cache of None \<Rightarrow> (0, c0) | Some cv \<Rightarrow> vNewId cv c0) = (cid, c1)" by fastforce
  have l: "?n < 2 ^ 32" using fits by (simp add: table_fits_def)
  have n: "?n = length (before_index opt bs @ raw_block kNoCompression (index_contents opt bs)) + 48"
    by (simp add: image_parts(4) Footer_kEncodedLength_def kMaxEncodedLength_def)
  have u: "unat (of_nat ?n :: uint64) = ?n" using l by (simp add: unat_of_nat)
  have k: "unat (of_nat Footer_kEncodedLength :: uint64) = 48" by (simp add: Footer_kEncodedLength_def kMaxEncodedLength_def)
  have "of_nat Footer_kEncodedLength \<le> (of_nat ?n :: uint64)" unfolding word_le_nat_alt u k using n by linarith
  then have o: "unat (of_nat ?n - of_nat Footer_kEncodedLength :: uint64) = ?n - 48" by (simp only: unat_sub u k)
  have t: "take 48 (drop (?n - 48) (contents f)) = ?F" unfolding c n by (simp add: image_parts(4) Footer_kEncodedLength_def kMaxEncodedLength_def)
  obtain b0 f0 where f0: "vReadAt vt (of_nat ?n - of_nat Footer_kEncodedLength) Footer_kEncodedLength f = (OK, ?F, b0, f0)"
    using read_returns [OF i, of "of_nat ?n - of_nat Footer_kEncodedLength" 48] o t n c
    by (auto simp: Footer_kEncodedLength_def kMaxEncodedLength_def)
  have k0: "contents f0 = contents f" "invar f0" using read_keeps [OF i f0] by simp_all
  have dec: "Footer_DecodeFrom \<lparr>metaindex_handle = BlockHandle_new, index_handle = BlockHandle_new\<rparr> ?F = (OK, table_footer opt bs, [])"
    using Footer_roundtrip [of _ "table_footer opt bs" "[]"] by simp
  obtain b1 f1 where f1: "ReadBlock vt ?v (index_handle (table_footer opt bs)) f0 =
      Some (OK, \<lparr>bc_data = index_contents opt bs, cachable = b1, heap_allocated = b1\<rparr>, f1)" "contents f1 = contents f0" "invar f1"
    using ReadBlock_at [OF k0(2), of "before_index opt bs" "index_contents opt bs" ?F ?v] l k0(1) c image_parts(4) [of opt bs]
    by (auto simp: table_footer_def)
  obtain f2 where f2: "ReadMeta vt (table_footer opt bs) ((opened ropt opt cid bs)\<lparr>t_filter := None\<rparr>) f1 = Some (opened ropt opt cid bs, f2)"
      "contents f2 = contents f1" "invar f2" using ReadMeta_opened [OF f1(3) _ fits p, of cid] f1(2) k0(1) c by auto
  have e: "(opened ropt opt cid bs)\<lparr>t_filter := None\<rparr> = \<lparr>t_options = ropt, t_cache_id = cid, t_filter = None,
      t_metaindex_handle = metaindex_handle (table_footer opt bs), t_index_block = Block_new (index_contents opt bs)\<rparr>"
    by (simp add: opened_def table_footer_def)
  have "\<not> unat (of_nat ?n :: uint64) < Footer_kEncodedLength" using n u by (simp add: Footer_kEncodedLength_def kMaxEncodedLength_def)
  then have "Table_Open vt cache ropt (of_nat ?n) f c0 = Some (OK, Some (opened ropt opt cid bs), f2, c1)"
    using f0 dec f1(1) f2(1) cid unfolding e by (simp add: Table_Open_def Let_def)
  then show ?thesis using k0(1) f1(2) f2(2,3) by (simp add: cid)
qed

end

section \<open>The index\<close>

text \<open>The key of the index for a group: between the group and the next one, and not before the last group.\<close>

definition index_key :: "Options \<Rightarrow> kv list list \<Rightarrow> nat \<Rightarrow> slice" where
  "index_key opt bs i =
     (if Suc i < length bs then vSeparator (opt_comparator opt) (fst (last (bs ! i))) (fst (hd (bs ! Suc i)))
      else vSuccessor (opt_comparator opt) (fst (last (bs ! i))))"

lemma full_index_eq:
  "full_index opt bs = map (\<lambda>i. (index_key opt bs i, BlockHandle_EncodeTo (handle_at (block_restart_interval opt) bs i) [])) [0..<length bs]"
proof (cases bs rule: rev_cases)
  case (snoc cs c)
  have "[0..<length bs] = [0..<length bs - 1] @ [length bs - 1]" using snoc by simp
  then show ?thesis using snoc by (simp add: full_index_def index_entries_def index_key_def)
qed (simp add: full_index_def index_entries_def)

text \<open>The contract of the comparator, with entries in order and in groups that are not empty.\<close>

definition table_ordered :: "(slice \<Rightarrow> bool) \<Rightarrow> Options \<Rightarrow> kv list list \<Rightarrow> bool" where
  "table_ordered valid opt bs \<longleftrightarrow>
     comparator valid (vCompare (opt_comparator opt)) (vSeparator (opt_comparator opt)) (vSuccessor (opt_comparator opt)) \<and>
     sorted_wrt (\<lambda>a b. vCompare (opt_comparator opt) (fst a) (fst b) < 0) (concat bs) \<and> (\<forall>kv \<in> set (concat bs). valid (fst kv)) \<and>
     [] \<notin> set bs"

lemma sorted_groups:
  assumes "sorted_wrt P (concat bs)" "i < j" "j < length bs" "x \<in> set (bs ! i)" "y \<in> set (bs ! j)"
  shows "P x y"
proof -
  have "bs = take j bs @ bs ! j # drop (Suc j) bs" using assms(3) by (rule id_take_nth_drop)
  then have "concat bs = concat (take j bs) @ bs ! j @ concat (drop (Suc j) bs)" by (metis concat.simps(2) concat_append)
  then have "sorted_wrt P (concat (take j bs) @ bs ! j)" using assms(1) by (metis append.assoc sorted_wrt_append)
  moreover have "x \<in> set (concat (take j bs))" using assms(2,3,4) nth_mem [of i "take j bs"] by auto
  ultimately show ?thesis using assms(5) by (auto simp: sorted_wrt_append)
qed

lemma sorted_group: "sorted_wrt P (concat bs) \<Longrightarrow> i < length bs \<Longrightarrow> sorted_wrt P (bs ! i)"
  by (metis concat.simps(2) concat_append id_take_nth_drop sorted_wrt_append)

lemma table_ordered_facts:
  assumes "table_ordered valid opt bs" "i < length bs"
  shows "bs ! i \<noteq> []" "kv \<in> set (bs ! i) \<Longrightarrow> valid (fst kv)" "last (bs ! i) \<in> set (bs ! i)" "hd (bs ! i) \<in> set (bs ! i)"
proof -
  show "bs ! i \<noteq> []" using assms unfolding table_ordered_def by (metis nth_mem)
  then show "last (bs ! i) \<in> set (bs ! i)" "hd (bs ! i) \<in> set (bs ! i)" by simp_all
  show "kv \<in> set (bs ! i) \<Longrightarrow> valid (fst kv)" using assms nth_mem [of i bs] by (auto simp: table_ordered_def)
qed

lemma sorted_wrt_last: "sorted_wrt P xs \<Longrightarrow> x \<in> set xs \<Longrightarrow> x = last xs \<or> P x (last xs)"
  by (induction xs) (auto split: if_splits)

lemma sorted_wrt_hd: "sorted_wrt P xs \<Longrightarrow> x \<in> set xs \<Longrightarrow> x = hd xs \<or> P (hd xs) x"
  by (cases xs) auto

lemma index_key_after:
  assumes o: "table_ordered valid opt bs" and i: "i < length bs" and kv: "kv \<in> set (bs ! i)"
  shows "valid (index_key opt bs i)" "vCompare (opt_comparator opt) (fst kv) (index_key opt bs i) \<le> 0"
proof -
  let ?cmp = "vCompare (opt_comparator opt)" and ?sep = "vSeparator (opt_comparator opt)" and ?l = "last (bs ! i)"
  have C: "comparator valid ?cmp ?sep (vSuccessor (opt_comparator opt))" and s: "sorted_wrt (\<lambda>a b. ?cmp (fst a) (fst b) < 0) (concat bs)"
    using o by (simp_all add: table_ordered_def)
  note O = comparator.axioms(1) [OF C] and v = table_ordered_facts [OF o i]
  have k: "valid (index_key opt bs i) \<and> ?cmp (fst ?l) (index_key opt bs i) \<le> 0"
  proof (cases "Suc i < length bs")
    case True
    note w = table_ordered_facts [OF o True]
    show ?thesis using comparator.separator [OF C v(2) [OF v(3)] w(2) [OF w(4)]] sorted_groups [OF s _ True v(3) w(4)] True
      by (simp add: index_key_def)
  next
    case False
    then show ?thesis using comparator.successor [OF C v(2) [OF v(3)]] by (simp add: index_key_def)
  qed
  then show "valid (index_key opt bs i)" by simp
  have "?cmp (fst kv) (fst ?l) \<le> 0"
    using sorted_wrt_last [OF sorted_group [OF s i] kv] key_order.refl [OF O v(2) [OF v(3)]] by auto
  then show "?cmp (fst kv) (index_key opt bs i) \<le> 0"
    using key_order.trans [OF O v(2) [OF kv] v(2) [OF v(3)]] k by blast
qed

lemma index_key_before:
  assumes o: "table_ordered valid opt bs" and j: "i < j" "j < length bs" and kv: "kv \<in> set (bs ! j)"
  shows "vCompare (opt_comparator opt) (index_key opt bs i) (fst kv) < 0"
proof -
  let ?cmp = "vCompare (opt_comparator opt)" and ?sep = "vSeparator (opt_comparator opt)"
  have C: "comparator valid ?cmp ?sep (vSuccessor (opt_comparator opt))" and s: "sorted_wrt (\<lambda>a b. ?cmp (fst a) (fst b) < 0) (concat bs)"
    using o by (simp_all add: table_ordered_def)
  have i: "i < length bs" and i': "Suc i < length bs" using j by simp_all
  note O = comparator.axioms(1) [OF C] and v = table_ordered_facts [OF o i] and w = table_ordered_facts [OF o i'] and u = table_ordered_facts [OF o j(2)]
  have k: "valid (index_key opt bs i)" using index_key_after(1) [OF o i v(3)] .
  have 1: "?cmp (index_key opt bs i) (fst (hd (bs ! Suc i))) < 0"
    using comparator.separator [OF C v(2) [OF v(3)] w(2) [OF w(4)]] sorted_groups [OF s _ i' v(3) w(4)] i' by (simp add: index_key_def)
  have "hd (bs ! Suc i) = kv \<or> ?cmp (fst (hd (bs ! Suc i))) (fst kv) < 0"
  proof (cases "j = Suc i")
    case True
    then show ?thesis using sorted_wrt_hd [OF sorted_group [OF s i'], of kv] kv by auto
  next
    case False
    then show ?thesis using sorted_groups [OF s _ j(2) w(4) kv] j(1) by simp
  qed
  then show ?thesis using 1 key_order.less_trans [OF O k w(2) [OF w(4)] u(2) [OF kv] 1] by auto
qed

lemma full_index_sorted:
  assumes o: "table_ordered valid opt bs"
  shows "sorted_wrt (\<lambda>a b. vCompare (opt_comparator opt) (fst a) (fst b) < 0) (full_index opt bs)"
    "\<forall>kv \<in> set (full_index opt bs). valid (fst kv)"
proof -
  let ?cmp = "vCompare (opt_comparator opt)"
  have O: "key_order valid ?cmp" using o comparator.axioms(1) by (auto simp: table_ordered_def)
  have v: "valid (index_key opt bs i)" if "i < length bs" for i using index_key_after(1) [OF o that table_ordered_facts(3) [OF o that]] .
  then show "\<forall>kv \<in> set (full_index opt bs). valid (fst kv)" by (auto simp: full_index_eq)
  have "?cmp (index_key opt bs i) (index_key opt bs j) < 0" if "i < j" "j < length bs" for i j
  proof -
    have i: "i < length bs" using that by simp
    note w = table_ordered_facts [OF o that(2)]
    show ?thesis using key_order.less_trans [OF O v [OF i] w(2) [OF w(4)] v [OF that(2)] index_key_before [OF o that w(4)]
        index_key_after(2) [OF o that(2) w(4)]] .
  qed
  then show "sorted_wrt (\<lambda>a b. ?cmp (fst a) (fst b) < 0) (full_index opt bs)"
    by (auto simp: full_index_eq sorted_wrt_iff_nth_less)
qed

text \<open>Where a key is: the group that the index gives, and the place in it.\<close>

definition group_of :: "Options \<Rightarrow> kv list list \<Rightarrow> slice \<Rightarrow> nat" where
  "group_of opt bs k = first_ge (vCompare (opt_comparator opt)) k (full_index opt bs)"

lemma first_ge_le: "first_ge cmp k kvs \<le> length kvs"
  by (simp add: first_ge_def length_takeWhile_le)

lemma first_ge_nth: "j < first_ge cmp k kvs \<Longrightarrow> cmp (fst (kvs ! j)) k < 0"
  unfolding first_ge_def using nth_mem set_takeWhileD by (metis takeWhile_nth)

lemma first_ge_stop: "first_ge cmp k kvs < length kvs \<Longrightarrow> \<not> cmp (fst (kvs ! first_ge cmp k kvs)) k < 0"
  unfolding first_ge_def using nth_length_takeWhile by metis

lemma group_of_le: "group_of opt bs k \<le> length bs"
  using first_ge_le [of _ k "full_index opt bs"] by (simp add: group_of_def full_index_eq)

lemma group_of_stop: "group_of opt bs k < length bs \<Longrightarrow> \<not> vCompare (opt_comparator opt) (index_key opt bs (group_of opt bs k)) k < 0"
  using first_ge_stop [of "vCompare (opt_comparator opt)" k "full_index opt bs", folded group_of_def] by (simp add: full_index_eq)

lemma find_at_first_ge:
  "find (\<lambda>kv. \<not> cmp (fst kv) k < 0) kvs = (if first_ge cmp k kvs < length kvs then Some (kvs ! first_ge cmp k kvs) else None)"
  by (induction kvs) (auto simp: first_ge_def)

lemma before_group:
  assumes o: "table_ordered valid opt bs" and k: "valid k" and i: "i < group_of opt bs k" and kv: "kv \<in> set (bs ! i)"
  shows "vCompare (opt_comparator opt) (fst kv) k < 0"
proof -
  have O: "key_order valid (vCompare (opt_comparator opt))" using o comparator.axioms(1) by (auto simp: table_ordered_def)
  have l: "i < length bs" using i group_of_le [of opt bs k] by simp
  have "vCompare (opt_comparator opt) (index_key opt bs i) k < 0"
    using first_ge_nth [OF i [unfolded group_of_def]] l by (simp add: full_index_eq)
  then show ?thesis
    using key_order.less_trans2 [OF O table_ordered_facts(2) [OF o l kv] index_key_after(1) [OF o l kv] k index_key_after(2) [OF o l kv]] by simp
qed

lemma after_group:
  assumes o: "table_ordered valid opt bs" and k: "valid k" and i: "group_of opt bs k < i" "i < length bs" and kv: "kv \<in> set (bs ! i)"
  shows "\<not> vCompare (opt_comparator opt) (fst kv) k < 0"
proof
  let ?cmp = "vCompare (opt_comparator opt)" and ?j = "group_of opt bs k"
  have O: "key_order valid ?cmp" using o comparator.axioms(1) by (auto simp: table_ordered_def)
  have l: "?j < length bs" using i by simp
  have v: "valid (index_key opt bs ?j)" using index_key_after(1) [OF o l table_ordered_facts(3) [OF o l]] .
  have "\<not> ?cmp (index_key opt bs ?j) k < 0" using group_of_stop l by blast
  moreover assume "?cmp (fst kv) k < 0"
  then have "?cmp (index_key opt bs ?j) k < 0"
    using key_order.less_trans [OF O v table_ordered_facts(2) [OF o i(2) kv] k index_key_before [OF o i kv]] by simp
  ultimately show False by simp
qed

lemma find_append_Nil: "(\<And>x. x \<in> set xs \<Longrightarrow> \<not> P x) \<Longrightarrow> find P (xs @ ys) = find P ys"
  by (induction xs) auto

lemma find_in_group:
  assumes o: "table_ordered valid opt bs" and k: "valid k"
  defines "P \<equiv> \<lambda>kv. \<not> vCompare (opt_comparator opt) (fst kv) k < 0" and "j \<equiv> group_of opt bs k"
  shows "find P (concat bs) = (if j < length bs then find P (bs ! j @ concat (drop (Suc j) bs)) else None)"
proof -
  have b: "\<not> P kv" if kv: "kv \<in> set (concat (take j bs))" for kv
  proof -
    obtain i where "i < length (take j bs)" "kv \<in> set (take j bs ! i)" using kv by (auto simp: in_set_conv_nth [of _ "take j bs"])
    then show ?thesis using before_group [OF o k, of i kv] by (simp add: P_def j_def)
  qed
  show ?thesis
  proof (cases "j < length bs")
    case True
    have "concat bs = concat (take j bs) @ bs ! j @ concat (drop (Suc j) bs)"
      using arg_cong [OF id_take_nth_drop [OF True], of concat] by simp
    then show ?thesis using find_append_Nil [OF b, of "concat (take j bs)"] True by simp
  next
    case False
    then have "take j bs = bs" by simp
    then show ?thesis using False b by (auto simp: find_None_iff)
  qed
qed

text \<open>
  A lookup in one group finds the first entry of the table that is not before the key, unless it is the first of a later group.
\<close>

lemma find_group:
  assumes o: "table_ordered valid opt bs" and k: "valid k" and j: "group_of opt bs k < length bs"
    and f: "find (\<lambda>kv. \<not> vCompare (opt_comparator opt) (fst kv) k < 0) (bs ! group_of opt bs k) = Some kv"
  shows "find (\<lambda>kv. \<not> vCompare (opt_comparator opt) (fst kv) k < 0) (concat bs) = Some kv"
proof -
  have "find P xs = Some x \<Longrightarrow> find P (xs @ ys) = Some x" for P :: "kv \<Rightarrow> bool" and xs ys x by (induction xs) (auto split: if_splits)
  then show ?thesis using find_in_group [OF o k] j f by simp
qed

lemma find_group_None:
  assumes o: "table_ordered valid opt bs" and k: "valid k"
    and f: "find (\<lambda>kv. \<not> vCompare (opt_comparator opt) (fst kv) k < 0) (concat bs) = Some kv"
    and sep: "\<And>a. valid a \<Longrightarrow> vCompare (opt_comparator opt) a k < 0 \<Longrightarrow> vCompare (opt_comparator opt) a (fst kv) < 0 \<Longrightarrow>
      vCompare (opt_comparator opt) (vSeparator (opt_comparator opt) a (fst kv)) k < 0"
  shows "group_of opt bs k < length bs \<and>
    find (\<lambda>kv. \<not> vCompare (opt_comparator opt) (fst kv) k < 0) (bs ! group_of opt bs k) = Some kv"
proof -
  let ?cmp = "vCompare (opt_comparator opt)" and ?j = "group_of opt bs k"
  let ?P = "\<lambda>kv. \<not> ?cmp (fst kv) k < 0"
  have j: "?j < length bs" using find_in_group [OF o k] f by (simp split: if_splits)
  note v = table_ordered_facts [OF o j]
  have s: "sorted_wrt (\<lambda>a b. ?cmp (fst a) (fst b) < 0) (concat bs)" using o by (simp add: table_ordered_def)
  have "find ?P (bs ! ?j) \<noteq> None"
  proof
    assume n: "find ?P (bs ! ?j) = None"
    then have b: "?cmp (fst x) k < 0" if "x \<in> set (bs ! ?j)" for x using that unfolding find_None_iff by blast
    have r: "find ?P (concat (drop (Suc ?j) bs)) = Some kv"
      using find_in_group [OF o k] j f find_append_Nil [of "bs ! ?j" ?P] b by simp
    then have "drop (Suc ?j) bs \<noteq> []" by auto
    then have j': "Suc ?j < length bs" by simp
    note w = table_ordered_facts [OF o j']
    have "drop (Suc ?j) bs = bs ! Suc ?j # drop (Suc (Suc ?j)) bs" using j' by (simp add: Cons_nth_drop_Suc)
    moreover have "?P (hd (bs ! Suc ?j))" using after_group [OF o k _ j' w(4)] by simp
    ultimately have kv: "kv = hd (bs ! Suc ?j)" using r w(1) by (cases "bs ! Suc ?j") auto
    have "?cmp (index_key opt bs ?j) k < 0"
      using sep [OF v(2) [OF v(3)] b [OF v(3)]] sorted_groups [OF s _ j' v(3) w(4)] j' by (simp add: index_key_def kv)
    then show False using group_of_stop j by blast
  qed
  then show ?thesis using find_group [OF o k j] f j by auto
qed

section \<open>The filter\<close>

lemma block_offsets:
  assumes "table_fits opt bs"
  shows "unat (bh_offset (handle_at (block_restart_interval opt) bs i)) = length (blocks_image (block_restart_interval opt) (take i bs))"
    "i < j \<Longrightarrow> j \<le> length bs \<Longrightarrow> length (blocks_image (block_restart_interval opt) (take i bs)) < length (blocks_image (block_restart_interval opt) (take j bs))"
proof -
  let ?K = "block_restart_interval opt"
  have l: "length (blocks_image ?K bs) < 2 ^ 32" using image_parts(1) [of opt bs] assms by (auto simp: table_fits_def before_filter_def)
  have "blocks_image ?K bs = blocks_image ?K (take i bs) @ blocks_image ?K (drop i bs)"
    unfolding blocks_image_def by (simp only: concat_append [symmetric] map_append [symmetric] append_take_drop_id)
  then have "length (blocks_image ?K (take i bs)) < 2 ^ 32" using l by (metis length_append add_lessD1)
  then have "length (blocks_image ?K (take i bs)) < 2 ^ 64" by (rule less_trans) simp
  then show "unat (bh_offset (handle_at ?K bs i)) = length (blocks_image ?K (take i bs))" by (simp add: handle_at_def unat_of_nat)
  assume "i < j" "j \<le> length bs"
  then have "take j bs = take i bs @ bs ! i # take (j - Suc i) (drop (Suc i) bs)"
    using take_add [of i "j - i" bs] by (simp add: Cons_nth_drop_Suc [symmetric] take_Cons')
  then show "length (blocks_image ?K (take i bs)) < length (blocks_image ?K (take j bs))"
    by (simp add: blocks_image_def kBlockTrailerSize_def)
qed

lemma filter_calls_sorted:
  assumes "table_fits opt bs"
  shows "sorted (map (filter_index \<circ> fst) (filter_calls (block_restart_interval opt) (bs @ [[]])))"
proof -
  let ?K = "block_restart_interval opt"
  have "filter_calls ?K (bs @ [[]]) = map (\<lambda>i. (bh_offset (handle_at ?K bs i), map fst ((bs @ [[]]) ! i))) [0..<Suc (length bs)]"
    by (auto simp: filter_calls_def handle_at_def)
  moreover have "length (blocks_image ?K (take i bs)) \<le> length (blocks_image ?K (take j bs))" if "i \<le> j" "j < Suc (length bs)" for i j
    using block_offsets(2) [OF assms, of i j] that by (cases "i = j") auto
  ultimately show ?thesis
    by (auto simp: sorted_iff_nth_mono filter_index_def block_offsets(1) [OF assms] div_le_mono simp del: upt_Suc)
qed

lemma filter_matches:
  assumes fits: "table_fits opt bs" and p: "opt_filter opt = Some policy" "filter_policy (vCreate policy) (vMatches policy)"
    and d: "filter_contents opt bs = Some d" and i: "i < length bs" and kv: "kv \<in> set (bs ! i)"
    and k: "\<And>f. vMatches policy k f = vMatches policy (fst kv) f"
  shows "FilterBlock_KeyMayMatch (vMatches policy) (FilterBlockReader_new d) (bh_offset (handle_at (block_restart_interval opt) bs i)) k"
proof -
  let ?K = "block_restart_interval opt"
  have e: "d = FilterBlock_Finish (vCreate policy) (build_filters (vCreate policy) (filter_calls ?K (bs @ [[]])))"
    using d p(1) by (simp add: filter_contents_def)
  have "filter_calls ?K (bs @ [[]]) ! i = (bh_offset (handle_at ?K bs i), map fst (bs ! i))" "i < length (filter_calls ?K (bs @ [[]]))"
    using i by (simp_all add: filter_calls_def nth_append del: upt_Suc)
  then have m: "(bh_offset (handle_at ?K bs i), map fst (bs ! i)) \<in> set (filter_calls ?K (bs @ [[]]))" by (metis nth_mem)
  have "FilterBlock_KeyMayMatch (vMatches policy) (FilterBlockReader_new d) (bh_offset (handle_at ?K bs i)) (fst kv)"
    using filter_policy.filter_block_complete [OF p(2) filter_calls_sorted [OF fits] m, of "fst kv"] kv parts_fit(4) [OF fits d]
    by (simp add: e)
  then show ?thesis unfolding FilterBlock_KeyMayMatch_def k .
qed

section \<open>Where blocks come from\<close>

text \<open>
  \<^verbatim>\<open>BlockReader\<close> finds the blocks of the table, in the file or in the cache, and releasing the handle it returns leaves the state as
  good as it was. \<open>state f c H\<close>: the handles \<open>H\<close> of the cache are lent.
\<close>

definition with_handle :: "'h option \<Rightarrow> 'h multiset \<Rightarrow> 'h multiset" where
  "with_handle h H = (case h of None \<Rightarrow> H | Some h \<Rightarrow> add_mset h H)"

locale block_source =
  fixes vt :: "'f RandomAccessFile"
    and cache :: "('h, 'c, Block) Cache option"
    and ropt :: Options
    and opt :: Options
    and cid :: uint64
    and bs :: "kv list list"
    and ro :: ReadOptions
    and state :: "'f \<Rightarrow> 'c \<Rightarrow> 'h multiset \<Rightarrow> bool"
  assumes options: "state f c H \<Longrightarrow> table_fits opt bs \<and> opt_comparator ropt = opt_comparator opt \<and> opt_filter ropt = opt_filter opt"
    and find: "state f c H \<Longrightarrow> i < length bs \<Longrightarrow>
      \<exists>h f' c'. find_block vt cache (opened ropt opt cid bs) ro (handle_at (block_restart_interval opt) bs i) f c =
          Some (OK, Some (Block_new (block_data (block_restart_interval opt) (bs ! i))), h, f', c') \<and> state f' c' (with_handle h H)"
    and release: "state f c (with_handle h H) \<Longrightarrow> state f (ReleaseBlock cache h c) H"
begin

lemma decode_handle: "BlockHandle_DecodeFrom BlockHandle_new (BlockHandle_EncodeTo h []) = (OK, h, [])"
  using BlockHandle_roundtrip [of BlockHandle_new h "[]"] by simp

lemma BlockReader_opened:
  assumes "state f c H" "i < length bs"
  shows "\<exists>it h f' c'. BlockReader vt cache (opened ropt opt cid bs) ro
      (BlockHandle_EncodeTo (handle_at (block_restart_interval opt) bs i) []) f c = Some (OverBlock it, h, f', c') \<and>
    stands (block_restart_interval opt) (bs ! i) it (length (bs ! i)) \<and> state f' c' (with_handle h H)"
proof -
  let ?K = "block_restart_interval opt"
  note fits = options [OF assms(1), THEN conjunct1]
  obtain h f' c' where h: "find_block vt cache (opened ropt opt cid bs) ro (handle_at ?K bs i) f c =
      Some (OK, Some (Block_new (block_data ?K (bs ! i))), h, f', c')" "state f' c' (with_handle h H)" using find [OF assms] by blast
  obtain it where it: "NewIterator (Block_new (block_data ?K (bs ! i))) = OverBlock it" "stands ?K (bs ! i) it (length (bs ! i))"
    using NewIterator_block [OF parts_fit(1) [OF fits assms(2)]] by blast
  show ?thesis using h it by (simp add: BlockReader_def decode_handle)
qed

lemma get_from_block_opened:
  assumes o: "table_ordered valid opt bs" and k: "valid k" and s: "state f c H" and i: "i < length bs"
  shows "\<exists>f' c'. get_from_block vt cache (opened ropt opt cid bs) ro k arg handle_result
      (BlockHandle_EncodeTo (handle_at (block_restart_interval opt) bs i) []) f c =
    Some (OK, case find (\<lambda>kv. \<not> vCompare (opt_comparator opt) (fst kv) k < 0) (bs ! i) of
        None \<Rightarrow> arg | Some kv \<Rightarrow> handle_result arg (fst kv) (snd kv), f', c') \<and> state f' c' H"
proof -
  let ?K = "block_restart_interval opt" and ?cmp = "vCompare (opt_comparator opt)"
  note fits = options [OF s, THEN conjunct1] and same = options [OF s, THEN conjunct2]
  obtain it h f' c' where r: "BlockReader vt cache (opened ropt opt cid bs) ro (BlockHandle_EncodeTo (handle_at ?K bs i) []) f c =
      Some (OverBlock it, h, f', c')" "stands ?K (bs ! i) it (length (bs ! i))" "state f' c' (with_handle h H)"
    using BlockReader_opened [OF s i] by blast
  have O: "key_order valid ?cmp" and srt: "sorted_wrt (\<lambda>a b. ?cmp (fst a) (fst b) < 0) (concat bs)"
    using o comparator.axioms(1) by (auto simp: table_ordered_def)
  note bf = parts_fit(1) [OF fits i]
  have io: "iter_of ?K (bs ! i) it" using r(2) by (simp add: stands_def)
  have v: "\<forall>kv \<in> set (bs ! i). valid (fst kv)" using table_ordered_facts(2) [OF o i] by blast
  obtain it2 where it2: "BlockIter_Seek ?cmp k it = Some it2" "stands ?K (bs ! i) it2 (first_ge ?cmp k (bs ! i))"
    using block_seek [OF O bf io v k sorted_group [OF srt i]] by blast
  have st: "it_status it2 = OK" using it2(2) by (simp add: stands_def iter_of_def)
  have cmp: "vCompare (opt_comparator (t_options (opened ropt opt cid bs))) = ?cmp" using same by (simp add: opened_def)
  have e: "(if BlockIter_Valid it2 then handle_result arg (it_key it2) (BlockIter_value it2) else arg) =
      (case find (\<lambda>kv. \<not> ?cmp (fst kv) k < 0) (bs ! i) of None \<Rightarrow> arg | Some kv \<Rightarrow> handle_result arg (fst kv) (snd kv))"
    using stands_entry [OF bf it2(2)] by (auto simp: find_at_first_ge prod_eq_iff)
  have "get_from_block vt cache (opened ropt opt cid bs) ro k arg handle_result (BlockHandle_EncodeTo (handle_at ?K bs i) []) f c =
      Some (OK, if BlockIter_Valid it2 then handle_result arg (it_key it2) (BlockIter_value it2) else arg, f', ReleaseBlock cache h c')"
    using r(1) it2(1) st by (simp add: get_from_block_def cmp)
  then show ?thesis using release [OF r(3)] unfolding e by blast
qed

text \<open>A lookup in the table.\<close>

lemma InternalGet_opened:
  assumes o: "table_ordered valid opt bs" and k: "valid k" and s: "state f c H"
    and pol: "\<And>p. opt_filter opt = Some p \<Longrightarrow> filter_policy (vCreate p) (vMatches p)"
  shows "\<exists>r f' c'. InternalGet vt cache (opened ropt opt cid bs) ro k arg handle_result f c =
      Some (OK, case r of None \<Rightarrow> arg | Some kv \<Rightarrow> handle_result arg (fst kv) (snd kv), f', c') \<and> state f' c' H \<and>
    (\<forall>kv. r = Some kv \<longrightarrow> find (\<lambda>kv. \<not> vCompare (opt_comparator opt) (fst kv) k < 0) (concat bs) = Some kv) \<and>
    (\<forall>kv. find (\<lambda>kv. \<not> vCompare (opt_comparator opt) (fst kv) k < 0) (concat bs) = Some kv \<longrightarrow>
       (\<forall>p f. opt_filter opt = Some p \<longrightarrow> vMatches p k f = vMatches p (fst kv) f) \<longrightarrow>
       (\<forall>a. valid a \<longrightarrow> vCompare (opt_comparator opt) a k < 0 \<longrightarrow> vCompare (opt_comparator opt) a (fst kv) < 0 \<longrightarrow>
          vCompare (opt_comparator opt) (vSeparator (opt_comparator opt) a (fst kv)) k < 0) \<longrightarrow> r = Some kv)"
proof -
  let ?K = "block_restart_interval opt" and ?cmp = "vCompare (opt_comparator opt)" and ?t = "opened ropt opt cid bs"
  let ?P = "\<lambda>kv. \<not> ?cmp (fst kv) k < 0" and ?j = "group_of opt bs k" and ?I = "full_index opt bs"
  note fits = options [OF s, THEN conjunct1] and same = options [OF s, THEN conjunct2]
  let ?res = "\<lambda>r. case r of None \<Rightarrow> arg | Some kv \<Rightarrow> handle_result arg (fst kv) (snd kv)"
  have O: "key_order valid ?cmp" using o comparator.axioms(1) by (auto simp: table_ordered_def)
  have cmp: "vCompare (opt_comparator (t_options ?t)) = ?cmp" using same by (simp add: opened_def)
  note bf = parts_fit(3) [OF fits]
  obtain it where it: "NewIterator (t_index_block ?t) = OverBlock it" "stands 1 ?I it (length ?I)"
    using NewIterator_block [OF bf] by (auto simp: opened_def index_contents_def)
  have io: "iter_of 1 ?I it" using it(2) by (simp add: stands_def)
  obtain it2 where it2: "BlockIter_Seek ?cmp k it = Some it2" "stands 1 ?I it2 ?j"
    using block_seek [OF O bf io full_index_sorted(2) [OF o] k full_index_sorted(1) [OF o]] unfolding group_of_def by blast
  have st: "it_status it2 = OK" using it2(2) by (simp add: stands_def iter_of_def)
  have len: "length ?I = length bs" by (simp add: full_index_eq)
  note e = stands_entry [OF bf it2(2), unfolded len]
  have finish: ?thesis if g: "InternalGet vt cache ?t ro k arg handle_result f c = Some (OK, ?res r, f', c')" "state f' c' H"
      and r: "r = None \<or> ?j < length bs \<and> r = find ?P (bs ! ?j)"
      and n: "\<And>kv. r = None \<Longrightarrow> ?j < length bs \<Longrightarrow> find ?P (bs ! ?j) = Some kv \<Longrightarrow>
        \<exists>p f. opt_filter opt = Some p \<and> vMatches p k f \<noteq> vMatches p (fst kv) f" for r f' c'
  proof (intro exI conjI allI impI)
    show "InternalGet vt cache ?t ro k arg handle_result f c = Some (OK, ?res r, f', c')" "state f' c' H" by (fact g)+
    show "find ?P (concat bs) = Some kv" if "r = Some kv" for kv
    proof -
      have "?j < length bs" "find ?P (bs ! ?j) = Some kv" using r that by auto
      then show ?thesis by (rule find_group [OF o k])
    qed
    fix kv
    assume a: "find ?P (concat bs) = Some kv" "\<forall>p f. opt_filter opt = Some p \<longrightarrow> vMatches p k f = vMatches p (fst kv) f"
      "\<forall>a. valid a \<longrightarrow> ?cmp a k < 0 \<longrightarrow> ?cmp a (fst kv) < 0 \<longrightarrow> ?cmp (vSeparator (opt_comparator opt) a (fst kv)) k < 0"
    have "?j < length bs \<and> find ?P (bs ! ?j) = Some kv" using find_group_None [OF o k a(1)] a(3) by blast
    then show "r = Some kv" using r n [of kv] a(2) by auto
  qed
  show ?thesis
  proof (cases "?j < length bs")
    case False
    then have "InternalGet vt cache ?t ro k arg handle_result f c = Some (OK, ?res None, f, c)"
      using it(1) it2(1) st e by (simp add: InternalGet_def cmp Let_def)
    then show ?thesis using finish [of None f c] s False by blast
  next
    case True
    let ?h = "handle_at ?K bs ?j"
    have v: "BlockIter_value it2 = BlockHandle_EncodeTo ?h []" "BlockIter_Valid it2" using e True by (simp_all add: full_index_eq)
    show ?thesis
    proof (cases "\<exists>p d. opt_filter opt = Some p \<and> filter_contents opt bs = Some d \<and>
        \<not> FilterBlock_KeyMayMatch (vMatches p) (FilterBlockReader_new d) (bh_offset ?h) k")
      case rejected: True
      then obtain p d where p: "opt_filter opt = Some p" "filter_contents opt bs = Some d"
          "\<not> FilterBlock_KeyMayMatch (vMatches p) (FilterBlockReader_new d) (bh_offset ?h) k" by blast
      then have "t_filter ?t = Some (FilterBlockReader_new d)" "opt_filter (t_options ?t) = Some p" using same by (simp_all add: opened_def)
      then have g: "InternalGet vt cache ?t ro k arg handle_result f c = Some (OK, ?res None, f, c)"
        using it(1) it2(1) st v p(3) by (simp add: InternalGet_def cmp Let_def decode_handle)
      have "\<exists>p f. opt_filter opt = Some p \<and> vMatches p k f \<noteq> vMatches p (fst kv) f" if "find ?P (bs ! ?j) = Some kv" for kv
      proof (rule ccontr)
        assume "\<not> ?thesis"
        then have "vMatches p k f = vMatches p (fst kv) f" for f using p(1) by blast
        moreover have "kv \<in> set (bs ! ?j)" using that by (auto simp: find_Some_iff)
        ultimately show False using filter_matches [OF fits p(1) pol [OF p(1)] p(2) True, of kv k] p(3) by blast
      qed
      then show ?thesis using finish [OF g s] by blast
    next
      case passed: False
      obtain f' c' where g: "get_from_block vt cache ?t ro k arg handle_result (BlockHandle_EncodeTo ?h []) f c =
          Some (OK, ?res (find ?P (bs ! ?j)), f', c')" "state f' c' H" using get_from_block_opened [OF o k s True, of arg handle_result] by blast
      have "InternalGet vt cache ?t ro k arg handle_result f c = Some (OK, ?res (find ?P (bs ! ?j)), f', c')"
        using it(1) it2(1) st v g(1) passed same
        by (auto simp: InternalGet_def cmp Let_def decode_handle opened_def split: option.splits)
      then show ?thesis
      proof (rule finish [OF _ g(2)])
        show "find ?P (bs ! ?j) = None \<or> ?j < length bs \<and> find ?P (bs ! ?j) = find ?P (bs ! ?j)" using True by simp
      qed simp
    qed
  qed
qed

end

section \<open>Blocks from a file, with and without a cache\<close>

text \<open>The file holds the image, and the options agree.\<close>

definition image_in :: "('f \<Rightarrow> byte list) \<Rightarrow> ('f \<Rightarrow> bool) \<Rightarrow> Options \<Rightarrow> Options \<Rightarrow> kv list list \<Rightarrow> 'f \<Rightarrow> bool" where
  "image_in contents invar ropt opt bs f \<longleftrightarrow> table_fits opt bs \<and> opt_comparator ropt = opt_comparator opt \<and>
     opt_filter ropt = opt_filter opt \<and> contents f = table_image opt bs \<and> invar f"

text \<open>What the cache holds under the keys of the table are its blocks; \<open>L\<close> below are the handles that other clients have.\<close>

definition right_blocks :: "('c \<Rightarrow> slice \<Rightarrow> Block \<Rightarrow> bool) \<Rightarrow> Options \<Rightarrow> uint64 \<Rightarrow> kv list list \<Rightarrow> 'c \<Rightarrow> bool" where
  "right_blocks holds opt cid bs c \<longleftrightarrow> (\<forall>i < length bs. \<forall>b.
     holds c (cache_key cid (bh_offset (handle_at (block_restart_interval opt) bs i))) b \<longrightarrow>
     b = Block_new (block_data (block_restart_interval opt) (bs ! i)))"

context random_access_file
begin

lemma ReadBlock_data:
  assumes s: "image_in contents invar ropt opt bs f" and i: "i < length bs"
  shows "\<exists>b f'. ReadBlock vt verify (handle_at (block_restart_interval opt) bs i) f =
      Some (OK, \<lparr>bc_data = block_data (block_restart_interval opt) (bs ! i), cachable = b, heap_allocated = b\<rparr>, f') \<and>
    image_in contents invar ropt opt bs f'"
proof -
  have f: "invar f" "contents f = table_image opt bs" "length (contents f) < 2 ^ 32" using s by (simp_all add: image_in_def table_fits_def)
  obtain post where p: "table_image opt bs = blocks_image (block_restart_interval opt) (take i bs) @
      raw_block kNoCompression (block_data (block_restart_interval opt) (bs ! i)) @ post" using image_data_block [OF i] by blast
  obtain b f' where r: "ReadBlock vt verify (handle_of (blocks_image (block_restart_interval opt) (take i bs)) (block_data (block_restart_interval opt) (bs ! i))) f =
      Some (OK, \<lparr>bc_data = block_data (block_restart_interval opt) (bs ! i), cachable = b, heap_allocated = b\<rparr>, f')"
      "contents f' = contents f" "invar f'" using ReadBlock_at [OF f(1) f(2) [unfolded p] f(3), of verify] by blast
  then show ?thesis using s unfolding handle_at_eq by (auto simp: image_in_def)
qed

lemma blocks_from_file:
  "block_source vt None ropt opt cid bs ro (\<lambda>f c H. image_in contents invar ropt opt bs f \<and> H = {#})"
proof (unfold_locales, goal_cases)
  case (1 f c H)
  then show ?case by (simp add: image_in_def)
next
  case (2 f c H i)
  then show ?case using ReadBlock_data [of ropt opt bs f i "verify_checksums ro"]
    by (auto simp: find_block_def with_handle_def)
next
  case (3 f c h H)
  then show ?case by (simp add: ReleaseBlock_def with_handle_def split: option.splits)
qed

end

lemma cache_key_inject: "cache_key cid o1 = cache_key cid o2 \<longleftrightarrow> o1 = o2"
  unfolding cache_key_def by (metis DecodeFixed64_Encode same_append_eq)

lemma blocks_from_cache:
  assumes F: "random_access_file vt contents invar" and C: "value_cache cv holds lent cinvar"
  shows "block_source vt (Some cv) ropt opt cid bs ro
    (\<lambda>f c H. image_in contents invar ropt opt bs f \<and> cinvar c \<and> lent c = L + H \<and> right_blocks holds opt cid bs c)"
proof (unfold_locales, goal_cases)
  case (1 f c H)
  then show ?case by (simp add: image_in_def)
next
  case (2 f c H i)
  let ?K = "block_restart_interval opt"
  let ?h = "handle_at ?K bs i" and ?b = "Block_new (block_data ?K (bs ! i))" and ?key = "cache_key cid (bh_offset (handle_at ?K bs i))"
  have im: "image_in contents invar ropt opt bs f" and inv: "cinvar c" and H: "lent c = L + H" and rb: "right_blocks holds opt cid bs c"
    using 2(1) by simp_all
  have fits: "table_fits opt bs" using im by (simp add: image_in_def)
  obtain r c1 where l: "vLookup cv ?key c = Some (r, c1)"
    and L: "cinvar c1 \<and> (\<forall>k v. holds c1 k v \<longrightarrow> holds c k v) \<and> (\<forall>h. h \<in># lent c \<longrightarrow> vValue cv h c1 = vValue cv h c) \<and>
      (case r of None \<Rightarrow> lent c1 = lent c | Some h \<Rightarrow> lent c1 = add_mset h (lent c) \<and> holds c ?key (vValue cv h c1))"
    using value_cache.lookup [OF C inv, of ?key] by (elim exE conjE) (rule that, assumption, intro conjI)
  have rb1: "right_blocks holds opt cid bs c1" using rb L unfolding right_blocks_def by blast
  have id: "t_cache_id (opened ropt opt cid bs) = cid" by (simp add: opened_def)
  show ?case
  proof (cases r)
    case (Some h)
    have "vValue cv h c1 = ?b" using L rb 2(2) Some unfolding right_blocks_def by simp
    then have "find_block vt (Some cv) (opened ropt opt cid bs) ro ?h f c = Some (OK, Some ?b, Some h, f, c1)"
      using l Some by (simp add: find_block_def id)
    moreover have "lent c1 = L + with_handle (Some h) H" using L Some H by (simp add: with_handle_def)
    ultimately show ?thesis using im L rb1 by blast
  next
    case None
    obtain b f' where f': "ReadBlock vt (verify_checksums ro) ?h f =
        Some (OK, \<lparr>bc_data = block_data ?K (bs ! i), cachable = b, heap_allocated = b\<rparr>, f')" "image_in contents invar ropt opt bs f'"
      using random_access_file.ReadBlock_data [OF F im 2(2)] by blast
    have H1: "lent c1 = L + H" using L None H by simp
    show ?thesis
    proof (cases "b \<and> fill_cache ro")
      case True
      obtain h c2 where c2: "vInsert cv ?key ?b (bl_size ?b) c1 = Some (h, c2)"
        and I: "cinvar c2" "lent c2 = add_mset h (lent c1)" "\<And>k v. holds c2 k v \<Longrightarrow> holds c1 k v \<or> k = ?key \<and> v = ?b"
        using value_cache.insert [OF C conjunct1 [OF L], of ?key ?b "bl_size ?b"] by blast
      have "right_blocks holds opt cid bs c2"
        unfolding right_blocks_def
      proof (intro allI impI)
        fix j v
        assume j: "j < length bs" and v: "holds c2 (cache_key cid (bh_offset (handle_at ?K bs j))) v"
        show "v = Block_new (block_data ?K (bs ! j))"
        proof (cases "holds c1 (cache_key cid (bh_offset (handle_at ?K bs j))) v")
          case True
          then show ?thesis using rb1 j unfolding right_blocks_def by blast
        next
          case False
          then have e: "bh_offset (handle_at ?K bs j) = bh_offset ?h" "v = ?b" using I(3) [OF v] by (simp_all add: cache_key_inject)
          have "j = i" using arg_cong [OF e(1), of unat] block_offsets(2) [OF fits, of i j] block_offsets(2) [OF fits, of j i] j 2(2)
            unfolding block_offsets(1) [OF fits] by (metis less_imp_le nat_neq_iff)
          then show ?thesis using e(2) by simp
        qed
      qed
      moreover have "find_block vt (Some cv) (opened ropt opt cid bs) ro ?h f c = Some (OK, Some ?b, Some h, f', c2)"
        using l None f'(1) True c2 by (simp add: find_block_def id Let_def)
      moreover have "lent c2 = L + with_handle (Some h) H" using H1 I(2) by (simp add: with_handle_def)
      ultimately show ?thesis using f'(2) I(1) by blast
    next
      case False
      then have "find_block vt (Some cv) (opened ropt opt cid bs) ro ?h f c = Some (OK, Some ?b, None, f', c1)"
        using l None f'(1) by (auto simp: find_block_def id Let_def)
      moreover have "lent c1 = L + with_handle None H" using H1 by (simp add: with_handle_def)
      ultimately show ?thesis using f'(2) L rb1 by blast
    qed
  qed
next
  case (3 f c h H)
  show ?case
  proof (cases h)
    case None
    then show ?thesis using 3 by (simp add: ReleaseBlock_def with_handle_def)
  next
    case (Some h)
    then have m: "h \<in># lent c" and s: "lent c = add_mset h (L + H)" using 3 by (simp_all add: with_handle_def)
    note R = value_cache.release [OF C _ m refl]
    then show ?thesis using 3 s Some unfolding right_blocks_def ReleaseBlock_def by (simp add: with_handle_def)
  qed
qed

end
