(* ===== verification/Ldb_Table_Get.thy ===== *)
theory Ldb_Table_Get
  imports Ldb_Table_Read
begin

text \<open>
  Tables of internal keys: what is written with the table builder is found by \<^verbatim>\<open>InternalGet\<close>, for every comparator of user keys that
  keeps its contract and with or without a filter policy.
\<close>

section \<open>Internal keys\<close>

text \<open>The object of class \<^verbatim>\<open>InternalKeyComparator\<close> over a comparator of user keys.\<close>

definition InternalKeyComparator ::
    "addr \<Rightarrow> (slice \<Rightarrow> slice \<Rightarrow> int) \<Rightarrow> (slice \<Rightarrow> slice \<Rightarrow> slice) \<Rightarrow> (slice \<Rightarrow> slice) \<Rightarrow> Comparator" where
  "InternalKeyComparator a compare separator successor =
     \<lparr>cmp_addr = a, vCompare = InternalKey_Compare compare, vSeparator = InternalKey_FindShortestSeparator compare separator,
      vSuccessor = InternalKey_FindShortSuccessor compare successor\<rparr>"

text \<open>The object of class \<^verbatim>\<open>BloomFilterPolicy\<close>.\<close>

definition NewBloomFilterPolicy :: "nat \<Rightarrow> FilterPolicy" where
  "NewBloomFilterPolicy bpk =
     \<lparr>vName = c_str ''leveldb.BuiltinBloomFilter2'', vCreate = CreateFilter (BloomFilterPolicy_new bpk), vMatches = KeyMayMatch\<rparr>"

text \<open>
  The options of a database: internal keys, and a filter policy that does not tell keys apart that compare equal.
\<close>

definition db_options ::
    "(slice \<Rightarrow> bool) \<Rightarrow> (slice \<Rightarrow> slice \<Rightarrow> int) \<Rightarrow> (slice \<Rightarrow> slice \<Rightarrow> slice) \<Rightarrow> (slice \<Rightarrow> slice) \<Rightarrow> FilterPolicy option \<Rightarrow> Options \<Rightarrow> bool" where
  "db_options valid compare separator successor policy opt \<longleftrightarrow>
     comparator valid compare separator successor \<and>
     (\<exists>a. opt_comparator opt = InternalKeyComparator a compare separator successor) \<and>
     opt_filter opt = map_option InternalFilterPolicy policy \<and>
     (\<forall>p. policy = Some p \<longrightarrow> filter_policy (vCreate p) (vMatches p) \<and>
        (\<forall>u u' f. compare u u' = 0 \<longrightarrow> vMatches p u f = vMatches p u' f)) \<and>
     0 < block_restart_interval opt"

text \<open>
  What a lookup of the internal key \<open>k\<close> may find: only the first entry that is not before \<open>k\<close>, and this entry if it has the user key
  of \<open>k\<close>.
\<close>

definition found :: "(slice \<Rightarrow> slice \<Rightarrow> int) \<Rightarrow> kv list \<Rightarrow> slice \<Rightarrow> kv option \<Rightarrow> bool" where
  "found compare kvs k res \<longleftrightarrow>
     (\<forall>kv. res = Some kv \<longrightarrow> find (\<lambda>kv. \<not> InternalKey_Compare compare (fst kv) k < 0) kvs = Some kv) \<and>
     (\<forall>kv. find (\<lambda>kv. \<not> InternalKey_Compare compare (fst kv) k < 0) kvs = Some kv \<longrightarrow>
        compare (ExtractUserKey (fst kv)) (ExtractUserKey k) = 0 \<longrightarrow> res = Some kv)"

lemma internal_filter_policy:
  assumes "filter_policy (vCreate p) (vMatches p)"
  shows "filter_policy (vCreate (InternalFilterPolicy p)) (vMatches (InternalFilterPolicy p))"
proof
  fix keys dst
  obtain f where "vCreate p (map ExtractUserKey keys) dst = dst @ f" "\<forall>key \<in> set (map ExtractUserKey keys). vMatches p key f"
    using filter_policy.create_matches [OF assms] by blast
  then show "\<exists>f. vCreate (InternalFilterPolicy p) keys dst = dst @ f \<and> (\<forall>key \<in> set keys. vMatches (InternalFilterPolicy p) key f)"
    by (auto simp: InternalFilterPolicy_def)
qed

interpretation bloom_policy: filter_policy "vCreate (InternalFilterPolicy (NewBloomFilterPolicy n))" "vMatches (InternalFilterPolicy (NewBloomFilterPolicy n))" for n
  by (rule internal_filter_policy) (simp add: NewBloomFilterPolicy_def bloom.filter_policy_axioms)

context comparator
begin

text \<open>The separator in front of an entry is before every key with the user key of the entry that is not in front of the separator's block.\<close>

lemma separator_before:
  assumes a: "internal_valid valid a" and b: "internal_valid valid b" and k: "internal_valid valid k"
    and less: "InternalKey_Compare compare a k < 0" "InternalKey_Compare compare a b < 0"
    and eq: "compare (ExtractUserKey b) (ExtractUserKey k) = 0"
  shows "InternalKey_Compare compare (InternalKey_FindShortestSeparator compare separator a b) k < 0"
proof -
  let ?ua = "ExtractUserKey a" and ?ub = "ExtractUserKey b" and ?uk = "ExtractUserKey k"
  have v: "valid ?ua" "valid ?ub" "valid ?uk" using a b k by (simp_all add: internal_valid_def)
  show ?thesis
  proof (cases "compare ?ua (separator ?ua ?ub) < 0")
    case True
    then have "compare ?ua ?ub \<noteq> 0" using separator_equal [OF v(1,2)] by auto
    then have s: "valid (separator ?ua ?ub)" "compare (separator ?ua ?ub) ?ub < 0"
      using separator [OF v(1,2)] less(2) by (auto simp: internal_less)
    have "compare (separator ?ua ?ub) ?uk < 0" using less_trans [OF s(1) v(2,3) s(2)] eq by simp
    then show ?thesis using less(1) by (auto simp: InternalKey_FindShortestSeparator_def Let_def internal_less PutFixed64_def)
  next
    case False
    then show ?thesis using less(1) by (simp add: InternalKey_FindShortestSeparator_def Let_def)
  qed
qed

end

context block_source
begin

lemma internal_get:
  assumes d: "db_options valid compare separator successor policy opt"
    and kvs: "concat bs = kvs" "[] \<notin> set bs" "sorted_wrt (\<lambda>a b. InternalKey_Compare compare (fst a) (fst b) < 0) kvs"
      "\<forall>kv \<in> set kvs. internal_valid valid (fst kv)"
    and k: "internal_valid valid k" and s: "state f c H"
  shows "\<exists>r f' c'. InternalGet vt cache (opened ropt opt cid bs) ro k arg handle_result f c =
      Some (OK, case r of None \<Rightarrow> arg | Some kv \<Rightarrow> handle_result arg (fst kv) (snd kv), f', c') \<and> state f' c' H \<and> found compare kvs k r"
proof -
  have C: "comparator valid compare separator successor" using d by (simp add: db_options_def)
  obtain a where oc: "opt_comparator opt = InternalKeyComparator a compare separator successor" using d by (auto simp: db_options_def)
  have cmp: "vCompare (opt_comparator opt) = InternalKey_Compare compare"
      "vSeparator (opt_comparator opt) = InternalKey_FindShortestSeparator compare separator"
      "vSuccessor (opt_comparator opt) = InternalKey_FindShortSuccessor compare successor" by (simp_all add: oc InternalKeyComparator_def)
  have o: "table_ordered (internal_valid valid) opt bs"
    using comparator.internal_comparator [OF C] kvs by (simp add: table_ordered_def cmp)
  have pol: "filter_policy (vCreate p) (vMatches p)" if "opt_filter opt = Some p" for p
    using that d internal_filter_policy by (cases policy) (auto simp: db_options_def)
  have m: "vMatches p k f = vMatches p (fst kv) f"
    if "compare (ExtractUserKey (fst kv)) (ExtractUserKey k) = 0" "opt_filter opt = Some p" for p f kv
    using that d by (cases policy) (auto simp: db_options_def InternalFilterPolicy_def)
  obtain r f' c' where r: "InternalGet vt cache (opened ropt opt cid bs) ro k arg handle_result f c =
      Some (OK, case r of None \<Rightarrow> arg | Some kv \<Rightarrow> handle_result arg (fst kv) (snd kv), f', c')" "state f' c' H"
      "\<forall>kv. r = Some kv \<longrightarrow> find (\<lambda>kv. \<not> InternalKey_Compare compare (fst kv) k < 0) kvs = Some kv"
      "\<And>kv. find (\<lambda>kv. \<not> InternalKey_Compare compare (fst kv) k < 0) kvs = Some kv \<Longrightarrow>
        \<forall>p f. opt_filter opt = Some p \<longrightarrow> vMatches p k f = vMatches p (fst kv) f \<Longrightarrow>
        \<forall>a. internal_valid valid a \<longrightarrow> InternalKey_Compare compare a k < 0 \<longrightarrow> InternalKey_Compare compare a (fst kv) < 0 \<longrightarrow>
          InternalKey_Compare compare (InternalKey_FindShortestSeparator compare separator a (fst kv)) k < 0 \<Longrightarrow> r = Some kv"
    using InternalGet_opened [OF o k s pol, of arg handle_result] unfolding cmp kvs(1) by blast
  have c: "r = Some kv" if f: "find (\<lambda>kv. \<not> InternalKey_Compare compare (fst kv) k < 0) kvs = Some kv"
      and e: "compare (ExtractUserKey (fst kv)) (ExtractUserKey k) = 0" for kv
  proof (rule r(4) [OF f])
    have "kv \<in> set kvs" using f by (auto simp: find_Some_iff)
    then have v: "internal_valid valid (fst kv)" using kvs(4) by blast
    show "\<forall>p f. opt_filter opt = Some p \<longrightarrow> vMatches p k f = vMatches p (fst kv) f" using m [OF e] by blast
    show "\<forall>a. internal_valid valid a \<longrightarrow> InternalKey_Compare compare a k < 0 \<longrightarrow> InternalKey_Compare compare a (fst kv) < 0 \<longrightarrow>
        InternalKey_Compare compare (InternalKey_FindShortestSeparator compare separator a (fst kv)) k < 0"
      by (intro allI impI) (rule comparator.separator_before [OF C _ v k _ _ e])
  qed
  have "found compare kvs k r" unfolding found_def by (intro conjI r(3) allI impI) (rule c)
  then show ?thesis using r(1,2) by (intro exI conjI)
qed

end

section \<open>Tables in posix files\<close>

interpretation posix_blocks: block_source "posix_random_access sys rf" None ropt opt cid bs ro
  "\<lambda>os c H. image_in contents (\<lambda>os. preads_ok sys rf contents (contents os)) ropt opt bs os \<and> H = {#}"
  for sys rf contents ropt opt cid bs ro
  by (rule posix_random.blocks_from_file)

lemma posix_table_written:
  assumes "writes_ok sys (wf_fd pf) disk pend" "buf pf = []" "disk os = []" "0 < block_restart_interval opt"
  shows "\<exists>r r' bs. table_add_all (posix_writable sys) kvs (TableBuilder_new opt (pf, os)) = Some r \<and>
    TableBuilder_Finish (posix_writable sys) r = Some (OK, r') \<and> pf_contents disk (tb_file r') = table_image opt bs \<and>
    tb_offset r' = of_nat (length (table_image opt bs)) \<and> num_entries r' = of_nat (length kvs) \<and> concat bs = kvs \<and> [] \<notin> set bs"
proof -
  have c: "pf_contents disk (pf, os) = []" using assms(2,3) by (simp add: pf_contents_def)
  show ?thesis using posix_file.table_written [where sys = sys and disk = disk and pend = pend and f = "(pf, os)" and opt = opt and kvs = kvs,
        OF _ c assms(4), folded posix_writable_def] assms(1) by auto
qed

text \<open>
  C3: What is written to a table is found in it. Entries with internal keys in order are added to a \<^verbatim>\<open>TableBuilder\<close> on an empty posix
  file, which succeeds, and the table is finished. When a file with these bytes, of less than 4 GiB, is opened by \<^verbatim>\<open>Table::Open\<close> with the
  same comparator and filter policy, this succeeds, and \<^verbatim>\<open>InternalGet\<close> of any key returns OK; what it finds is the first entry that is
  not before the key, and it finds that entry whenever it has the user key that is looked up. This holds for every comparator of user keys
  that keeps its contract, with every filter policy that keeps its own, for all options and with or without checks of the checksums.
\<close>

theorem table_get:
  assumes d: "db_options valid compare separator successor policy opt"
    and kvs: "sorted_wrt (\<lambda>a b. InternalKey_Compare compare (fst a) (fst b) < 0) kvs" "\<forall>kv \<in> set kvs. internal_valid valid (fst kv)"
    and w: "writes_ok wsys (wf_fd pf) disk pend" "buf pf = []" "disk wos = []"
    and same: "opt_comparator ropt = opt_comparator opt" "opt_filter ropt = opt_filter opt"
  shows "\<exists>r r'. table_add_all (posix_writable wsys) kvs (TableBuilder_new opt (pf, wos)) = Some r \<and>
    TableBuilder_Finish (posix_writable wsys) r = Some (OK, r') \<and> NumEntries r' = of_nat (length kvs) \<and>
    (\<forall>os. contents os = pf_contents disk (tb_file r') \<and> length (contents os) < 2 ^ 32 \<and> preads_ok rsys rf contents (contents os) \<longrightarrow>
       (\<exists>t os'. Table_Open (posix_random_access rsys rf) (None :: (unit, unit, Block) Cache option) ropt (TableBuilder_FileSize r') os () =
            Some (OK, Some t, os', ()) \<and> contents os' = contents os \<and>
          (\<forall>k os1. internal_valid valid k \<and> contents os1 = contents os \<longrightarrow>
             (\<exists>res os2. InternalGet (posix_random_access rsys rf) (None :: (unit, unit, Block) Cache option) t ro k None (\<lambda>_ k v. Some (k, v)) os1 () =
                Some (OK, res, os2, ()) \<and> contents os2 = contents os \<and> found compare kvs k res))))"
proof -
  have K: "0 < block_restart_interval opt" using d by (simp add: db_options_def)
  obtain r r' bs where r: "table_add_all (posix_writable wsys) kvs (TableBuilder_new opt (pf, wos)) = Some r"
      "TableBuilder_Finish (posix_writable wsys) r = Some (OK, r')" "pf_contents disk (tb_file r') = table_image opt bs"
      "tb_offset r' = of_nat (length (table_image opt bs))" "num_entries r' = of_nat (length kvs)" "concat bs = kvs" "[] \<notin> set bs"
    using posix_table_written [OF w K] by blast
  let ?vt = "posix_random_access rsys rf" and ?no = "None :: (unit, unit, Block) Cache option"
  let ?inv = "\<lambda>os. preads_ok rsys rf contents (contents os)"
  have "\<exists>t os'. Table_Open ?vt ?no ropt (TableBuilder_FileSize r') os () = Some (OK, Some t, os', ()) \<and> contents os' = contents os \<and>
      (\<forall>k os1. internal_valid valid k \<and> contents os1 = contents os \<longrightarrow>
         (\<exists>res os2. InternalGet ?vt ?no t ro k None (\<lambda>_ k v. Some (k, v)) os1 () = Some (OK, res, os2, ()) \<and> contents os2 = contents os \<and>
            found compare kvs k res))"
    if c: "contents os = table_image opt bs" and l: "length (contents os) < 2 ^ 32" and p: "?inv os" for os
  proof -
    have fits: "table_fits opt bs" using l K by (simp add: table_fits_def c)
    obtain os' where o: "Table_Open ?vt ?no ropt (TableBuilder_FileSize r') os () = Some (OK, Some (opened ropt opt 0 bs), os', ())"
        "contents os' = contents os"
      using posix_random.Table_Open_image [where cache = ?no, OF p c fits same(2), of "()"] r(4) by (auto simp: TableBuilder_FileSize_def)
    have "\<exists>res os2. InternalGet ?vt ?no (opened ropt opt 0 bs) ro k None (\<lambda>_ k v. Some (k, v)) os1 () = Some (OK, res, os2, ()) \<and>
        contents os2 = contents os \<and> found compare kvs k res" if k: "internal_valid valid k" and c1: "contents os1 = contents os" for k os1
    proof -
      have i: "image_in contents ?inv ropt opt bs os1 \<and> {#} = {#}" using fits same c c1 p by (simp add: image_in_def)
      obtain q os2 c2 where q: "InternalGet ?vt ?no (opened ropt opt 0 bs) ro k None (\<lambda>_ k v. Some (k, v)) os1 () =
          Some (OK, case q of None \<Rightarrow> None | Some kv \<Rightarrow> Some (fst kv, snd kv), os2, c2)"
          "image_in contents ?inv ropt opt bs os2" "found compare kvs k q"
        using posix_blocks.internal_get [OF d r(6,7) kvs k i, where cid = 0 and ro = ro and arg = None and handle_result = "\<lambda>_ k v. Some (k, v)" and c = "()"]
        by (elim exE conjE) (rule that)
      have "(case q of None \<Rightarrow> None | Some kv \<Rightarrow> Some (fst kv, snd kv)) = q" by (cases q) simp_all
      then show ?thesis using q c by (auto simp: image_in_def)
    qed
    then show ?thesis using o by blast
  qed
  then show ?thesis using r(1,2,3,5) by (auto simp: NumEntries_def)
qed

text \<open>The length of a table, without its checksums.\<close>

lemma length_table_image:
  "length (table_image opt bs) = sum_list (map (\<lambda>b. length (block_data (block_restart_interval opt) b) + 5) bs) +
     (case filter_contents opt bs of None \<Rightarrow> 0 | Some d \<Rightarrow> length d + 5) + length (meta_contents opt bs) + length (index_contents opt bs) + 58"
  by (auto simp: image_parts(3) before_meta_def before_filter_def blocks_image_def kBlockTrailerSize_def Footer_kEncodedLength_def
      kMaxEncodedLength_def length_concat comp_def split: option.split)

definition small_options :: Options where
  "small_options = \<lparr>opt_comparator = InternalKeyComparator 0 slice_compare FindShortestSeparator FindShortSuccessor, paranoid_checks = True,
     block_size = 4096, block_restart_interval = 16, compression = kSnappyCompression, opt_filter = None\<rparr>"

lemma small_options_db: "db_options (\<lambda>_. True) slice_compare FindShortestSeparator FindShortSuccessor None small_options"
  using bytewise.comparator_axioms by (auto simp: db_options_def small_options_def)

text \<open>A table of one entry has one block.\<close>

lemma one_group: "concat bs = [x] \<Longrightarrow> [] \<notin> set bs \<Longrightarrow> bs = [[x]]"
proof (induction bs)
  case (Cons b bs)
  then show ?case by (cases bs) (auto simp: append_eq_Cons_conv)
qed simp

lemma small_table_length: "length (table_image small_options [[(AppendInternalKey [] [7] 1 kTypeValue, [10])]]) < 2 ^ 32"
proof -
  let ?b = "[(AppendInternalKey [] [7] 1 kTypeValue, [10])] :: kv list"
  have b: "length (block_data 16 ?b) = 21" by code_simp
  have "length (block_data 16 []) = 8" by code_simp
  then have m: "length (meta_contents small_options [?b]) = 8" by (simp add: meta_contents_def meta_entries_def filter_contents_def small_options_def)
  have "handle_at 16 [?b] 0 = \<lparr>bh_offset = 0, bh_size = 21\<rparr>" using b by (simp add: handle_at_def blocks_image_def)
  then have f: "full_index small_options [?b] = [(InternalKey_FindShortSuccessor slice_compare FindShortSuccessor (AppendInternalKey [] [7] 1 kTypeValue),
      BlockHandle_EncodeTo \<lparr>bh_offset = 0, bh_size = 21\<rparr> [])]"
    by (simp add: full_index_eq index_key_def small_options_def InternalKeyComparator_def)
  have "length (index_contents small_options [?b]) = 22" unfolding index_contents_def f by code_simp
  then show ?thesis using b m unfolding length_table_image by (simp add: small_options_def filter_contents_def)
qed

theorem table_get_witness:
  "\<exists>r r' t os' os2. table_add_all (posix_writable slow_sys) [(AppendInternalKey [] [7] 1 kTypeValue, [10])]
      (TableBuilder_new small_options (PosixWritableFile_new (c_str ''000005.ldb'') 4, [], 2)) = Some r \<and>
    TableBuilder_Finish (posix_writable slow_sys) r = Some (OK, r') \<and>
    Table_Open (posix_random_access slow_sys \<lparr>has_permanent_fd = True, ra_fd = 3, ra_filename = c_str ''000005.ldb''\<rparr>)
      (None :: (unit, unit, Block) Cache option) small_options (TableBuilder_FileSize r') (pf_contents fst (tb_file r'), 0) () = Some (OK, Some t, os', ()) \<and>
    InternalGet (posix_random_access slow_sys \<lparr>has_permanent_fd = True, ra_fd = 3, ra_filename = c_str ''000005.ldb''\<rparr>)
      (None :: (unit, unit, Block) Cache option) t ReadOptions_new (AppendInternalKey [] [7] 9 kTypeValue) None (\<lambda>_ k v. Some (k, v)) os' () =
      Some (OK, Some (AppendInternalKey [] [7] 1 kTypeValue, [10]), os2, ())"
proof -
  let ?kvs = "[(AppendInternalKey [] [7] 1 kTypeValue, [10])] :: kv list" and ?pf = "PosixWritableFile_new (c_str ''000005.ldb'') 4"
  let ?vt = "posix_random_access slow_sys \<lparr>has_permanent_fd = True, ra_fd = 3, ra_filename = c_str ''000005.ldb''\<rparr>"
  let ?no = "None :: (unit, unit, Block) Cache option" and ?k = "AppendInternalKey [] [7] 9 kTypeValue"
  have b: "buf ?pf = []" "fst ([] :: byte list, 2 :: nat) = []" by (simp_all add: PosixWritableFile_new_def)
  have s: "sorted_wrt (\<lambda>a b. InternalKey_Compare slice_compare (fst a) (fst b) < 0) ?kvs" "\<forall>kv \<in> set ?kvs. internal_valid (\<lambda>_. True) (fst kv)"
    by (simp_all add: internal_valid_def)
  obtain r r' where r: "table_add_all (posix_writable slow_sys) ?kvs (TableBuilder_new small_options (?pf, [], 2)) = Some r"
      "TableBuilder_Finish (posix_writable slow_sys) r = Some (OK, r')"
      "\<And>os. fst os = pf_contents fst (tb_file r') \<and> length (fst os) < 2 ^ 32 \<and>
          preads_ok slow_sys \<lparr>has_permanent_fd = True, ra_fd = 3, ra_filename = c_str ''000005.ldb''\<rparr> fst (fst os) \<Longrightarrow>
        (\<exists>t os'. Table_Open ?vt ?no small_options (TableBuilder_FileSize r') os () = Some (OK, Some t, os', ()) \<and> fst os' = fst os \<and>
          (\<forall>k os1. internal_valid (\<lambda>_. True) k \<and> fst os1 = fst os \<longrightarrow>
             (\<exists>res os2. InternalGet ?vt ?no t ReadOptions_new k None (\<lambda>_ k v. Some (k, v)) os1 () = Some (OK, res, os2, ()) \<and>
                fst os2 = fst os \<and> found slice_compare ?kvs k res)))"
    using table_get [OF small_options_db s slow_sys_ok(1) b refl refl, where contents = fst and rsys = slow_sys and
        rf = "\<lparr>has_permanent_fd = True, ra_fd = 3, ra_filename = c_str ''000005.ldb''\<rparr>" and ro = ReadOptions_new]
    by (elim exE conjE) (rule that, assumption+, drule spec, erule mp, assumption)
  obtain q q' bs where q: "table_add_all (posix_writable slow_sys) ?kvs (TableBuilder_new small_options (?pf, [], 2)) = Some q"
      "TableBuilder_Finish (posix_writable slow_sys) q = Some (OK, q')" "pf_contents fst (tb_file q') = table_image small_options bs"
      "concat bs = ?kvs" "[] \<notin> set bs"
    using posix_table_written [OF slow_sys_ok(1) b, where opt = small_options and kvs = ?kvs] by (auto simp: small_options_def)
  have l: "length (pf_contents fst (tb_file r')) < 2 ^ 32"
    using q r(1,2) one_group [OF q(4,5)] small_table_length by simp
  let ?os = "(pf_contents fst (tb_file r'), 0 :: nat)"
  have p: "fst ?os = pf_contents fst (tb_file r') \<and> length (fst ?os) < 2 ^ 32 \<and>
      preads_ok slow_sys \<lparr>has_permanent_fd = True, ra_fd = 3, ra_filename = c_str ''000005.ldb''\<rparr> fst (fst ?os)"
    using l slow_sys_preads [of "pf_contents fst (tb_file r')"] by simp
  obtain t os' where t: "Table_Open ?vt ?no small_options (TableBuilder_FileSize r') ?os () = Some (OK, Some t, os', ())" "fst os' = fst ?os"
      "\<forall>k os1. internal_valid (\<lambda>_. True) k \<and> fst os1 = fst ?os \<longrightarrow>
         (\<exists>res os2. InternalGet ?vt ?no t ReadOptions_new k None (\<lambda>_ k v. Some (k, v)) os1 () = Some (OK, res, os2, ()) \<and>
           fst os2 = fst ?os \<and> found slice_compare ?kvs k res)"
    using r(3) [OF p] by (elim exE conjE) (rule that)
  have v: "internal_valid (\<lambda>_. True) ?k \<and> fst os' = fst ?os" using t(2) by (simp add: internal_valid_def)
  obtain res os2 where g: "InternalGet ?vt ?no t ReadOptions_new ?k None (\<lambda>_ k v. Some (k, v)) os' () = Some (OK, res, os2, ())"
      "found slice_compare ?kvs ?k res" using t(3) [THEN spec, THEN spec, THEN mp, OF v] by (elim exE conjE) (rule that)
  have e: "slice_compare [7] [7] = 0" by code_simp
  then have n: "\<not> InternalKey_Compare slice_compare (AppendInternalKey [] [7] 1 kTypeValue) ?k < 0"
    by (simp add: internal_less PackSequenceAndType_def)
  have "res = Some (AppendInternalKey [] [7] 1 kTypeValue, [10])"
    using g(2) [unfolded found_def, THEN conjunct2, THEN spec, THEN mp, THEN mp] n e by simp
  then show ?thesis using r(1,2) t(1) g(1) by blast
qed

end
