(* ===== verification/Ldb_Version_Edit.thy ===== *)
theory Ldb_Version_Edit
  imports Ldb_Comparator "HOL-Library.Monad_Syntax"
begin

text \<open>
  \<^verbatim>\<open>leveldb-library/db/version_edit.h\<close> and \<^verbatim>\<open>version_edit.cc\<close>: the changes to the set of table files that the manifest records.
  The encoded form is a sequence of tagged fields; what is decoded is what was encoded. The set of the deleted files is the list of
  its members in order.
\<close>

section \<open>Files and edits\<close>

definition kNumLevels :: int where
  "kNumLevels = 7"

record FileMetaData =
  fm_refs :: int
  allowed_seeks :: int
  fm_number :: uint64
  fm_size :: uint64
  smallest :: slice
  largest :: slice

text \<open>The constructor leaves the number of the file unset; it is assigned before it is read.\<close>

definition FileMetaData_new :: FileMetaData where
  "FileMetaData_new = \<lparr>fm_refs = 0, allowed_seeks = 2 ^ 30, fm_number = 0, fm_size = 0, smallest = [], largest = []\<rparr>"

record VersionEdit =
  ve_comparator :: slice
  log_number :: uint64
  prev_log_number :: uint64
  next_file_number :: uint64
  last_sequence :: uint64
  has_comparator :: bool
  has_log_number :: bool
  has_prev_log_number :: bool
  has_next_file_number :: bool
  has_last_sequence :: bool
  compact_pointers :: "(int \<times> slice) list"
  deleted_files :: "(int \<times> uint64) list"
  new_files :: "(int \<times> FileMetaData) list"

text \<open>\<^verbatim>\<open>Clear\<close> does not clear the compaction pointers.\<close>

definition VersionEdit_Clear :: "VersionEdit \<Rightarrow> VersionEdit" where
  "VersionEdit_Clear e =
     e\<lparr>ve_comparator := [], log_number := 0, prev_log_number := 0, last_sequence := 0, next_file_number := 0, has_comparator := False,
       has_log_number := False, has_prev_log_number := False, has_next_file_number := False, has_last_sequence := False,
       deleted_files := [], new_files := []\<rparr>"

definition VersionEdit_new :: VersionEdit where
  "VersionEdit_new = VersionEdit_Clear
     \<lparr>ve_comparator = [], log_number = 0, prev_log_number = 0, next_file_number = 0, last_sequence = 0, has_comparator = False,
      has_log_number = False, has_prev_log_number = False, has_next_file_number = False, has_last_sequence = False,
      compact_pointers = [], deleted_files = [], new_files = []\<rparr>"

definition SetComparatorName :: "slice \<Rightarrow> VersionEdit \<Rightarrow> VersionEdit" where
  "SetComparatorName name e = e\<lparr>has_comparator := True, ve_comparator := name\<rparr>"

definition SetLogNumber :: "uint64 \<Rightarrow> VersionEdit \<Rightarrow> VersionEdit" where
  "SetLogNumber num e = e\<lparr>has_log_number := True, log_number := num\<rparr>"

definition SetPrevLogNumber :: "uint64 \<Rightarrow> VersionEdit \<Rightarrow> VersionEdit" where
  "SetPrevLogNumber num e = e\<lparr>has_prev_log_number := True, prev_log_number := num\<rparr>"

definition SetNextFile :: "uint64 \<Rightarrow> VersionEdit \<Rightarrow> VersionEdit" where
  "SetNextFile num e = e\<lparr>has_next_file_number := True, next_file_number := num\<rparr>"

definition SetLastSequence :: "uint64 \<Rightarrow> VersionEdit \<Rightarrow> VersionEdit" where
  "SetLastSequence seq e = e\<lparr>has_last_sequence := True, last_sequence := seq\<rparr>"

definition SetCompactPointer :: "int \<Rightarrow> slice \<Rightarrow> VersionEdit \<Rightarrow> VersionEdit" where
  "SetCompactPointer level key e = e\<lparr>compact_pointers := compact_pointers e @ [(level, key)]\<rparr>"

definition AddFile :: "int \<Rightarrow> uint64 \<Rightarrow> uint64 \<Rightarrow> slice \<Rightarrow> slice \<Rightarrow> VersionEdit \<Rightarrow> VersionEdit" where
  "AddFile level f size_of_file small large e =
     e\<lparr>new_files := new_files e @ [(level, FileMetaData_new\<lparr>fm_number := f, fm_size := size_of_file, smallest := small, largest := large\<rparr>)]\<rparr>"

text \<open>The order of pairs, and insertion into an ordered set.\<close>

definition pair_less :: "int \<times> uint64 \<Rightarrow> int \<times> uint64 \<Rightarrow> bool" where
  "pair_less a b \<longleftrightarrow> fst a < fst b \<or> fst a = fst b \<and> snd a < snd b"

fun set_insert :: "int \<times> uint64 \<Rightarrow> (int \<times> uint64) list \<Rightarrow> (int \<times> uint64) list" where
  "set_insert x [] = [x]"
| "set_insert x (y # ys) = (if pair_less x y then x # y # ys else if x = y then y # ys else y # set_insert x ys)"

definition VersionEdit_DeleteFile :: "int \<Rightarrow> uint64 \<Rightarrow> VersionEdit \<Rightarrow> VersionEdit" where
  "VersionEdit_DeleteFile level f e = e\<lparr>deleted_files := set_insert (level, f) (deleted_files e)\<rparr>"

section \<open>Encoding\<close>

datatype Tag = kComparator | kLogNumber | kNextFileNumber | kLastSequence | kCompactPointer | kDeletedFile | kNewFile | kPrevLogNumber

fun tag_value :: "Tag \<Rightarrow> uint32" where
  "tag_value kComparator = 1"
| "tag_value kLogNumber = 2"
| "tag_value kNextFileNumber = 3"
| "tag_value kLastSequence = 4"
| "tag_value kCompactPointer = 5"
| "tag_value kDeletedFile = 6"
| "tag_value kNewFile = 7"
| "tag_value kPrevLogNumber = 9"

definition put_number :: "bool \<Rightarrow> Tag \<Rightarrow> uint64 \<Rightarrow> byte list \<Rightarrow> byte list" where
  "put_number has tag n dst = (if has then PutVarint64 (PutVarint32 dst (tag_value tag)) n else dst)"

text \<open>\<^verbatim>\<open>InternalKey::Encode\<close> asserts that the key is not empty; the result is none when it is.\<close>

definition InternalKey_Encode :: "slice \<Rightarrow> slice option" where
  "InternalKey_Encode rep = (if rep \<noteq> [] then Some rep else None)"

definition put_pointer :: "byte list \<Rightarrow> int \<times> slice \<Rightarrow> byte list option" where
  "put_pointer dst p =
     (let dst = PutVarint32 (PutVarint32 dst (tag_value kCompactPointer)) (of_int (fst p))
      in map_option (PutLengthPrefixedSlice dst) (InternalKey_Encode (snd p)))"

definition put_deleted :: "byte list \<Rightarrow> int \<times> uint64 \<Rightarrow> byte list" where
  "put_deleted dst p = PutVarint64 (PutVarint32 (PutVarint32 dst (tag_value kDeletedFile)) (of_int (fst p))) (snd p)"

definition put_file :: "byte list \<Rightarrow> int \<times> FileMetaData \<Rightarrow> byte list option" where
  "put_file dst p = do {
     let f = snd p;
     let dst = PutVarint32 (PutVarint32 dst (tag_value kNewFile)) (of_int (fst p));
     let dst = PutVarint64 (PutVarint64 dst (fm_number f)) (fm_size f);
     small \<leftarrow> InternalKey_Encode (smallest f);
     large \<leftarrow> InternalKey_Encode (largest f);
     Some (PutLengthPrefixedSlice (PutLengthPrefixedSlice dst small) large) }"

text \<open>A loop that appends each element.\<close>

fun put_all :: "(byte list \<Rightarrow> 'a \<Rightarrow> byte list option) \<Rightarrow> byte list \<Rightarrow> 'a list \<Rightarrow> byte list option" where
  "put_all put dst [] = Some dst"
| "put_all put dst (p # ps) = do { dst \<leftarrow> put dst p; put_all put dst ps }"

definition VersionEdit_EncodeTo :: "VersionEdit \<Rightarrow> byte list \<Rightarrow> byte list option" where
  "VersionEdit_EncodeTo e dst =
     (let dst = (if has_comparator e then PutLengthPrefixedSlice (PutVarint32 dst (tag_value kComparator)) (ve_comparator e) else dst);
          dst = put_number (has_log_number e) kLogNumber (log_number e) dst;
          dst = put_number (has_prev_log_number e) kPrevLogNumber (prev_log_number e) dst;
          dst = put_number (has_next_file_number e) kNextFileNumber (next_file_number e) dst;
          dst = put_number (has_last_sequence e) kLastSequence (last_sequence e) dst
      in do {
        dst \<leftarrow> put_all put_pointer dst (compact_pointers e);
        let dst = foldl put_deleted dst (deleted_files e);
        put_all put_file dst (new_files e) })"

section \<open>Decoding\<close>

definition GetInternalKey :: "slice \<Rightarrow> slice option \<times> slice" where
  "GetInternalKey input = GetLengthPrefixedSlice input"

definition GetLevel :: "slice \<Rightarrow> int option \<times> slice" where
  "GetLevel input =
     (case GetVarint32 input of
        (Some v, rest) \<Rightarrow> if v < of_int kNumLevels then (Some (uint v), rest) else (None, rest)
      | (None, rest) \<Rightarrow> (None, rest))"

text \<open>
  The next value of the input or the message of the field, and what is done with the value. The result is the message if there is one,
  the rest of the input and the edit.
\<close>

type_synonym edit_step = "string option \<times> slice \<times> VersionEdit"

definition get_then :: "string \<Rightarrow> 'a option \<times> slice \<Rightarrow> ('a \<Rightarrow> slice \<Rightarrow> edit_step) \<Rightarrow> VersionEdit \<Rightarrow> edit_step" where
  "get_then msg got k e = (case got of (Some x, rest) \<Rightarrow> k x rest | (None, rest) \<Rightarrow> (Some msg, rest, e))"

text \<open>The cases of the switch.\<close>

definition edit_field :: "uint32 \<Rightarrow> slice \<Rightarrow> VersionEdit \<Rightarrow> edit_step" where
  "edit_field tag input e =
     (if tag = tag_value kComparator then
        get_then ''comparator name'' (GetLengthPrefixedSlice input) (\<lambda>str rest. (None, rest, e\<lparr>ve_comparator := str, has_comparator := True\<rparr>)) e
      else if tag = tag_value kLogNumber then
        get_then ''log number'' (GetVarint64 input) (\<lambda>n rest. (None, rest, e\<lparr>log_number := n, has_log_number := True\<rparr>)) e
      else if tag = tag_value kPrevLogNumber then
        get_then ''previous log number'' (GetVarint64 input) (\<lambda>n rest. (None, rest, e\<lparr>prev_log_number := n, has_prev_log_number := True\<rparr>)) e
      else if tag = tag_value kNextFileNumber then
        get_then ''next file number'' (GetVarint64 input) (\<lambda>n rest. (None, rest, e\<lparr>next_file_number := n, has_next_file_number := True\<rparr>)) e
      else if tag = tag_value kLastSequence then
        get_then ''last sequence number'' (GetVarint64 input) (\<lambda>n rest. (None, rest, e\<lparr>last_sequence := n, has_last_sequence := True\<rparr>)) e
      else if tag = tag_value kCompactPointer then
        get_then ''compaction pointer'' (GetLevel input) (\<lambda>level rest.
          get_then ''compaction pointer'' (GetInternalKey rest) (\<lambda>key rest.
            (None, rest, e\<lparr>compact_pointers := compact_pointers e @ [(level, key)]\<rparr>)) e) e
      else if tag = tag_value kDeletedFile then
        get_then ''deleted file'' (GetLevel input) (\<lambda>level rest.
          get_then ''deleted file'' (GetVarint64 rest) (\<lambda>num rest.
            (None, rest, e\<lparr>deleted_files := set_insert (level, num) (deleted_files e)\<rparr>)) e) e
      else if tag = tag_value kNewFile then
        get_then ''new-file entry'' (GetLevel input) (\<lambda>level rest.
          get_then ''new-file entry'' (GetVarint64 rest) (\<lambda>num rest.
            get_then ''new-file entry'' (GetVarint64 rest) (\<lambda>size_of_file rest.
              get_then ''new-file entry'' (GetInternalKey rest) (\<lambda>small rest.
                get_then ''new-file entry'' (GetInternalKey rest) (\<lambda>large rest.
                  (None, rest, e\<lparr>new_files := new_files e @
                     [(level, FileMetaData_new\<lparr>fm_number := num, fm_size := size_of_file, smallest := small, largest := large\<rparr>)]\<rparr>)) e) e) e) e) e
      else (Some ''unknown tag'', input, e))"

lemma varint_split_shorter: "varint_split k bs = Some (us, r) \<Longrightarrow> length r < length bs"
  by (induction k bs arbitrary: us rule: varint_split.induct) (auto split: if_splits)

lemma varint_rest_shorter:
  "GetVarint32 input = (Some v, rest) \<Longrightarrow> length rest < length input"
  "GetVarint64 input = (Some w, rest) \<Longrightarrow> length rest < length input"
  by (auto simp: GetVarint32_def GetVarint32Ptr_split GetVarint64_def GetVarint64Ptr_split varint_split_shorter
      split: option.splits)

text \<open>No step of decoding moves back.\<close>

definition reads_on :: "'a option \<times> slice \<Rightarrow> slice \<Rightarrow> bool" where
  "reads_on got input \<longleftrightarrow> (\<forall>x rest. got = (Some x, rest) \<longrightarrow> length rest \<le> length input)"

lemma reads_on_get [simp]:
  "reads_on (GetVarint32 input) input" "reads_on (GetVarint64 input) input" "reads_on (GetLengthPrefixedSlice input) input"
  "reads_on (GetInternalKey input) input" "reads_on (GetLevel input) input"
  using slice_rest_shorter [of _ _ input] varint_rest_shorter [of input]
  by (auto simp: reads_on_def GetInternalKey_def GetLevel_def less_imp_le split: option.splits prod.splits if_splits)

lemma get_then_None:
  assumes "get_then msg got k e = (None, r, e')"
  obtains x rest where "got = (Some x, rest)" "k x rest = (None, r, e')"
  using assms by (auto simp: get_then_def split: prod.splits option.splits)

lemma get_then_shorter:
  assumes "get_then msg got k e = (None, r, e')" "reads_on got input"
    "\<And>x rest. length rest \<le> length input \<Longrightarrow> k x rest = (None, r, e') \<Longrightarrow> length r \<le> length rest"
  shows "length r \<le> length input"
  using assms by (elim get_then_None) (force simp: reads_on_def)

lemma edit_field_shorter: "edit_field tag input e = (None, r, e') \<Longrightarrow> length r \<le> length input"
  unfolding edit_field_def
  by (simp only: split: if_splits; (elim get_then_shorter)?; simp)

function edit_loop :: "slice \<Rightarrow> VersionEdit \<Rightarrow> edit_step" where
  "edit_loop input e =
     (case GetVarint32 input of
        (None, _) \<Rightarrow> (None, input, e)
      | (Some tag, rest) \<Rightarrow>
          (case edit_field tag rest e of
             (Some msg, rest, e) \<Rightarrow> (Some msg, rest, e)
           | (None, rest, e) \<Rightarrow> edit_loop rest e))"
  by pat_completeness auto
termination
  by (relation "measure (\<lambda>(input, e). length input)")
    (auto dest!: edit_field_shorter varint_rest_shorter(1) [OF sym] sym [of "(None, _)"])

declare edit_loop.simps [simp del]

definition VersionEdit_DecodeFrom :: "slice \<Rightarrow> VersionEdit \<Rightarrow> status \<times> VersionEdit" where
  "VersionEdit_DecodeFrom src e =
     (let (msg, input, e) = edit_loop src (VersionEdit_Clear e);
          msg = (if msg = None \<and> input \<noteq> [] then Some ''invalid tag'' else msg)
      in case msg of None \<Rightarrow> (OK, e) | Some m \<Rightarrow> (Corruption (c_str ''VersionEdit'') (c_str m), e))"

section \<open>Well-formed edits\<close>

definition level_ok :: "int \<Rightarrow> bool" where
  "level_ok level \<longleftrightarrow> 0 \<le> level \<and> level < kNumLevels"

text \<open>What is not set has its initial value, the deleted files are a set in order, and files are new.\<close>

definition edit_shape :: "VersionEdit \<Rightarrow> bool" where
  "edit_shape e \<longleftrightarrow>
     (\<not> has_comparator e \<longrightarrow> ve_comparator e = []) \<and> (\<not> has_log_number e \<longrightarrow> log_number e = 0) \<and>
     (\<not> has_prev_log_number e \<longrightarrow> prev_log_number e = 0) \<and> (\<not> has_next_file_number e \<longrightarrow> next_file_number e = 0) \<and>
     (\<not> has_last_sequence e \<longrightarrow> last_sequence e = 0) \<and> sorted_wrt pair_less (deleted_files e) \<and>
     (\<forall>p \<in> set (new_files e). fm_refs (snd p) = 0 \<and> allowed_seeks (snd p) = 2 ^ 30)"

text \<open>The levels are those of the database.\<close>

definition levels_ok :: "VersionEdit \<Rightarrow> bool" where
  "levels_ok e \<longleftrightarrow> (\<forall>p \<in> set (compact_pointers e). level_ok (fst p)) \<and> (\<forall>p \<in> set (deleted_files e). level_ok (fst p)) \<and>
     (\<forall>p \<in> set (new_files e). level_ok (fst p))"

text \<open>What decoding leaves behind the compaction pointers that were there before.\<close>

definition decoded_wf :: "(int \<times> slice) list \<Rightarrow> VersionEdit \<Rightarrow> bool" where
  "decoded_wf old e \<longleftrightarrow> (\<exists>ps. compact_pointers e = old @ ps \<and> edit_shape e \<and> levels_ok (e\<lparr>compact_pointers := ps\<rparr>))"

text \<open>The edits that the operations of the class make; \<^verbatim>\<open>DecodeFrom\<close> may leave one behind when it fails.\<close>

inductive edited :: "VersionEdit \<Rightarrow> bool" where
  edited_new: "edited VersionEdit_new"
| edited_clear: "edited e \<Longrightarrow> edited (VersionEdit_Clear e)"
| edited_comparator: "edited e \<Longrightarrow> edited (SetComparatorName name e)"
| edited_log: "edited e \<Longrightarrow> edited (SetLogNumber n e)"
| edited_prev_log: "edited e \<Longrightarrow> edited (SetPrevLogNumber n e)"
| edited_next_file: "edited e \<Longrightarrow> edited (SetNextFile n e)"
| edited_sequence: "edited e \<Longrightarrow> edited (SetLastSequence n e)"
| edited_pointer: "edited e \<Longrightarrow> edited (SetCompactPointer level key e)"
| edited_add: "edited e \<Longrightarrow> edited (AddFile level f n small large e)"
| edited_delete: "edited e \<Longrightarrow> edited (VersionEdit_DeleteFile level f e)"
| edited_decode: "edited e \<Longrightarrow> VersionEdit_DecodeFrom src e = (st, e') \<Longrightarrow> edited e'"

lemma set_insert_set [simp]: "set (set_insert x xs) = insert x (set xs)"
  by (induction xs) auto

lemma pair_less_linear: "\<not> pair_less x y \<Longrightarrow> x \<noteq> y \<Longrightarrow> pair_less y x"
  by (cases x; cases y) (auto simp: pair_less_def)

lemma pair_less_trans: "pair_less x y \<Longrightarrow> pair_less y z \<Longrightarrow> pair_less x z"
  by (auto simp: pair_less_def)

lemma set_insert_sorted: "sorted_wrt pair_less xs \<Longrightarrow> sorted_wrt pair_less (set_insert x xs)"
  by (induction xs) (auto dest: pair_less_linear pair_less_trans)

lemma set_insert_last: "\<forall>y \<in> set xs. pair_less y x \<Longrightarrow> set_insert x xs = xs @ [x]"
  by (induction xs) (auto simp: pair_less_def)

lemma GetLevel_ok: "GetLevel input = (Some level, rest) \<Longrightarrow> level_ok level"
  by (auto simp: GetLevel_def level_ok_def kNumLevels_def word_less_def split: prod.splits option.splits if_splits)

lemma get_then_wf:
  assumes "decoded_wf old e" "\<And>x rest. got = (Some x, rest) \<Longrightarrow> decoded_wf old (snd (snd (k x rest)))"
  shows "decoded_wf old (snd (snd (get_then msg got k e)))"
  using assms by (auto simp: get_then_def split: prod.splits option.splits)

lemma edit_shape_updates:
  assumes "edit_shape e"
  shows "edit_shape (e\<lparr>ve_comparator := s, has_comparator := True\<rparr>)" "edit_shape (e\<lparr>log_number := n, has_log_number := True\<rparr>)"
    "edit_shape (e\<lparr>prev_log_number := n, has_prev_log_number := True\<rparr>)" "edit_shape (e\<lparr>next_file_number := n, has_next_file_number := True\<rparr>)"
    "edit_shape (e\<lparr>last_sequence := n, has_last_sequence := True\<rparr>)" "edit_shape (e\<lparr>compact_pointers := ps\<rparr>)"
    "edit_shape (e\<lparr>deleted_files := set_insert (level, n) (deleted_files e)\<rparr>)"
    "edit_shape (e\<lparr>new_files := new_files e @
       [(level, FileMetaData_new\<lparr>fm_number := n, fm_size := n', smallest := s, largest := s'\<rparr>)]\<rparr>)"
  using assms by (auto simp: edit_shape_def FileMetaData_new_def set_insert_sorted)

lemma decoded_wf_updates:
  assumes "decoded_wf old e"
  shows "decoded_wf old (e\<lparr>ve_comparator := s, has_comparator := True\<rparr>)" "decoded_wf old (e\<lparr>log_number := n, has_log_number := True\<rparr>)"
    "decoded_wf old (e\<lparr>prev_log_number := n, has_prev_log_number := True\<rparr>)" "decoded_wf old (e\<lparr>next_file_number := n, has_next_file_number := True\<rparr>)"
    "decoded_wf old (e\<lparr>last_sequence := n, has_last_sequence := True\<rparr>)"
    "level_ok level \<Longrightarrow> decoded_wf old (e\<lparr>compact_pointers := compact_pointers e @ [(level, s)]\<rparr>)"
    "level_ok level \<Longrightarrow> decoded_wf old (e\<lparr>deleted_files := set_insert (level, n) (deleted_files e)\<rparr>)"
    "level_ok level \<Longrightarrow> decoded_wf old (e\<lparr>new_files := new_files e @
       [(level, FileMetaData_new\<lparr>fm_number := n, fm_size := n', smallest := s, largest := s'\<rparr>)]\<rparr>)"
  using assms edit_shape_updates by (auto simp: decoded_wf_def levels_ok_def)

lemma edit_field_wf: "decoded_wf old e \<Longrightarrow> decoded_wf old (snd (snd (edit_field tag input e)))"
  unfolding edit_field_def
  by (auto simp: decoded_wf_updates GetLevel_ok intro!: get_then_wf)

lemma edit_loop_wf: "edit_loop input e = (m, r, e') \<Longrightarrow> decoded_wf old e \<Longrightarrow> decoded_wf old e'"
proof (induction input e arbitrary: m r e' rule: edit_loop.induct)
  case (1 input e)
  show ?case
  proof (cases "GetVarint32 input")
    case (Pair tag rest)
    then show ?thesis using 1 by (auto simp: edit_loop.simps [of input e] split: option.splits prod.splits)
        (metis edit_field_wf snd_conv)+
  qed
qed

lemma decoded_wf_clear: "decoded_wf (compact_pointers e) (VersionEdit_Clear e)"
  by (simp add: decoded_wf_def edit_shape_def levels_ok_def VersionEdit_Clear_def)

lemma DecodeFrom_wf: "decoded_wf (compact_pointers e) (snd (VersionEdit_DecodeFrom src e))"
  using edit_loop_wf [OF _ decoded_wf_clear [of e], of src]
  by (auto simp: VersionEdit_DecodeFrom_def Let_def split: prod.splits option.splits if_splits)

lemma edited_shape: "edited e \<Longrightarrow> edit_shape e"
proof (induction rule: edited.induct)
  case (edited_decode e src st e')
  then show ?case using DecodeFrom_wf [of e src] by (auto simp: decoded_wf_def)
qed (simp_all add: SetComparatorName_def SetLogNumber_def SetPrevLogNumber_def SetNextFile_def SetLastSequence_def
    SetCompactPointer_def AddFile_def VersionEdit_DeleteFile_def VersionEdit_new_def VersionEdit_Clear_def edit_shape_updates, simp_all add: edit_shape_def)

section \<open>What is encoded is decoded\<close>

text \<open>Slices are shorter than 4 GiB, and internal keys are not empty.\<close>

definition internal_key_fits :: "slice \<Rightarrow> bool" where
  "internal_key_fits k \<longleftrightarrow> k \<noteq> [] \<and> length k < 2 ^ 32"

definition slices_fit :: "VersionEdit \<Rightarrow> bool" where
  "slices_fit e \<longleftrightarrow> length (ve_comparator e) < 2 ^ 32 \<and> (\<forall>p \<in> set (compact_pointers e). internal_key_fits (snd p)) \<and>
     (\<forall>p \<in> set (new_files e). internal_key_fits (smallest (snd p)) \<and> internal_key_fits (largest (snd p)))"

lemma GetLevel_put [simp]: "level_ok level \<Longrightarrow> GetLevel (EncodeVarint32 (of_int level) @ rest) = (Some level, rest)"
  by (auto simp: GetLevel_def level_ok_def kNumLevels_def word_less_def uint_word_of_int)

lemma get_then_Some [simp]: "get_then msg (Some x, rest) k e = k x rest"
  by (simp add: get_then_def)

lemma edit_loop_field:
  "edit_field tag input e = (None, rest, e') \<Longrightarrow> edit_loop (EncodeVarint32 tag @ input) e = edit_loop rest e'"
  by (subst edit_loop.simps) simp

lemma edit_loop_end [simp]: "edit_loop [] e = (None, [], e)"
  by (subst edit_loop.simps) (simp add: GetVarint32_def GetVarint32Ptr_def GetVarint32PtrFallback_def)

lemma put_number_append: "put_number has tag n dst = dst @ put_number has tag n []"
  by (simp add: put_number_def PutVarint32_def PutVarint64_def)

lemmas put_defs = put_number_def PutVarint32_def PutVarint64_def PutLengthPrefixedSlice_eq

lemma edit_loop_numbers:
  "edit_loop (put_number (has_log_number e) kLogNumber (log_number e) [] @ rest) d =
     edit_loop rest (if has_log_number e then d\<lparr>log_number := log_number e, has_log_number := True\<rparr> else d)"
  "edit_loop (put_number (has_prev_log_number e) kPrevLogNumber (prev_log_number e) [] @ rest) d =
     edit_loop rest (if has_prev_log_number e then d\<lparr>prev_log_number := prev_log_number e, has_prev_log_number := True\<rparr> else d)"
  "edit_loop (put_number (has_next_file_number e) kNextFileNumber (next_file_number e) [] @ rest) d =
     edit_loop rest (if has_next_file_number e then d\<lparr>next_file_number := next_file_number e, has_next_file_number := True\<rparr> else d)"
  "edit_loop (put_number (has_last_sequence e) kLastSequence (last_sequence e) [] @ rest) d =
     edit_loop rest (if has_last_sequence e then d\<lparr>last_sequence := last_sequence e, has_last_sequence := True\<rparr> else d)"
  by (auto simp: put_defs edit_field_def intro!: edit_loop_field)

text \<open>The fields that repeat.\<close>

lemma foldl_put: "(\<And>dst p. put dst p = dst @ put [] p) \<Longrightarrow> foldl put dst ps = dst @ concat (map (put []) ps)"
proof (induction ps arbitrary: dst)
  case (Cons p ps)
  have "put dst p = dst @ put [] p" by (rule Cons.prems)
  then show ?case using Cons.IH [OF Cons.prems] by simp
qed simp

lemma put_deleted_append: "put_deleted dst q = dst @ put_deleted [] q"
  by (simp add: put_deleted_def put_defs)

lemma put_all_append:
  assumes "\<forall>p \<in> set ps. \<forall>dst. put dst p = Some (dst @ enc p)"
  shows "put_all put dst ps = Some (dst @ concat (map enc ps))"
  using assms by (induction ps arbitrary: dst) simp_all

text \<open>The bytes of a compaction pointer and of a new file.\<close>

definition pointer_bytes :: "int \<times> slice \<Rightarrow> byte list" where
  "pointer_bytes p = PutLengthPrefixedSlice (PutVarint32 (PutVarint32 [] (tag_value kCompactPointer)) (of_int (fst p))) (snd p)"

definition file_bytes :: "int \<times> FileMetaData \<Rightarrow> byte list" where
  "file_bytes p = PutLengthPrefixedSlice (PutLengthPrefixedSlice
     (PutVarint64 (PutVarint64 (PutVarint32 (PutVarint32 [] (tag_value kNewFile)) (of_int (fst p))) (fm_number (snd p))) (fm_size (snd p)))
     (smallest (snd p))) (largest (snd p))"

lemma put_bytes:
  "internal_key_fits (snd p) \<Longrightarrow> put_pointer dst p = Some (dst @ pointer_bytes p)"
  "internal_key_fits (smallest (snd f)) \<Longrightarrow> internal_key_fits (largest (snd f)) \<Longrightarrow> put_file dst f = Some (dst @ file_bytes f)"
  by (simp_all add: internal_key_fits_def InternalKey_Encode_def put_pointer_def pointer_bytes_def put_file_def file_bytes_def put_defs Let_def)

lemma edit_loop_pointers:
  "\<forall>p \<in> set ps. level_ok (fst p) \<and> internal_key_fits (snd p) \<Longrightarrow>
   edit_loop (concat (map pointer_bytes ps) @ rest) d = edit_loop rest (d\<lparr>compact_pointers := compact_pointers d @ ps\<rparr>)"
proof (induction ps arbitrary: d)
  case (Cons p ps)
  have "edit_loop (pointer_bytes p @ concat (map pointer_bytes ps) @ rest) d =
      edit_loop (concat (map pointer_bytes ps) @ rest) (d\<lparr>compact_pointers := compact_pointers d @ [p]\<rparr>)"
    using Cons.prems by (auto simp: pointer_bytes_def internal_key_fits_def put_defs edit_field_def GetInternalKey_def intro!: edit_loop_field)
  then show ?case using Cons by simp
qed simp

lemma edit_loop_deleted:
  "\<forall>p \<in> set ps. level_ok (fst p) \<Longrightarrow> sorted_wrt pair_less (deleted_files d @ ps) \<Longrightarrow>
   edit_loop (concat (map (put_deleted []) ps) @ rest) d = edit_loop rest (d\<lparr>deleted_files := deleted_files d @ ps\<rparr>)"
proof (induction ps arbitrary: d)
  case (Cons p ps)
  have "set_insert p (deleted_files d) = deleted_files d @ [p]"
    using Cons.prems(2) by (intro set_insert_last) (auto simp: sorted_wrt_append)
  then have "edit_loop (put_deleted [] p @ concat (map (put_deleted []) ps) @ rest) d =
      edit_loop (concat (map (put_deleted []) ps) @ rest) (d\<lparr>deleted_files := deleted_files d @ [p]\<rparr>)"
    using Cons.prems(1) by (auto simp: put_deleted_def put_defs edit_field_def intro!: edit_loop_field)
  then show ?case using Cons by simp
qed simp

definition new_file_ok :: "int \<times> FileMetaData \<Rightarrow> bool" where
  "new_file_ok p \<longleftrightarrow> level_ok (fst p) \<and> fm_refs (snd p) = 0 \<and> allowed_seeks (snd p) = 2 ^ 30 \<and>
     internal_key_fits (smallest (snd p)) \<and> internal_key_fits (largest (snd p))"

lemma edit_loop_files:
  "\<forall>p \<in> set ps. new_file_ok p \<Longrightarrow>
   edit_loop (concat (map file_bytes ps) @ rest) d = edit_loop rest (d\<lparr>new_files := new_files d @ ps\<rparr>)"
proof (induction ps arbitrary: d)
  case (Cons p ps)
  obtain level f where p: "p = (level, f)" by (cases p)
  have "new_file_ok p" using Cons.prems by simp
  then have "edit_loop (file_bytes p @ concat (map file_bytes ps) @ rest) d =
      edit_loop (concat (map file_bytes ps) @ rest) (d\<lparr>new_files := new_files d @ [p]\<rparr>)"
    by (auto simp: p file_bytes_def internal_key_fits_def put_defs edit_field_def GetInternalKey_def new_file_ok_def FileMetaData_new_def
        intro!: edit_loop_field)
  then show ?case using Cons by simp
qed simp

lemma edit_loop_comparator:
  "length s < 2 ^ 32 \<Longrightarrow> edit_loop ((if has then PutLengthPrefixedSlice (PutVarint32 [] (tag_value kComparator)) s else []) @ rest) d =
     edit_loop rest (if has then d\<lparr>ve_comparator := s, has_comparator := True\<rparr> else d)"
  by (auto simp: put_defs edit_field_def intro!: edit_loop_field)

definition edit_bytes :: "VersionEdit \<Rightarrow> byte list" where
  "edit_bytes e =
     (if has_comparator e then PutLengthPrefixedSlice (PutVarint32 [] (tag_value kComparator)) (ve_comparator e) else []) @
     put_number (has_log_number e) kLogNumber (log_number e) [] @
     put_number (has_prev_log_number e) kPrevLogNumber (prev_log_number e) [] @
     put_number (has_next_file_number e) kNextFileNumber (next_file_number e) [] @
     put_number (has_last_sequence e) kLastSequence (last_sequence e) [] @
     concat (map pointer_bytes (compact_pointers e)) @ concat (map (put_deleted []) (deleted_files e)) @
     concat (map file_bytes (new_files e))"

lemma EncodeTo_bytes:
  assumes "slices_fit e"
  shows "VersionEdit_EncodeTo e [] = Some (edit_bytes e)"
proof -
  have p: "\<forall>p \<in> set (compact_pointers e). \<forall>dst. put_pointer dst p = Some (dst @ pointer_bytes p)"
    and f: "\<forall>f \<in> set (new_files e). \<forall>dst. put_file dst f = Some (dst @ file_bytes f)"
    using assms put_bytes by (simp_all add: slices_fit_def)
  show ?thesis
    unfolding VersionEdit_EncodeTo_def Let_def put_all_append [OF p] put_all_append [OF f] foldl_put [of put_deleted, OF put_deleted_append]
      put_number_append [of _ _ _ "put_number _ _ _ _"] put_number_append [of _ _ _ "if _ then _ else _"]
    by (simp add: edit_bytes_def put_all_append [OF f] foldl_put [of put_deleted, OF put_deleted_append])
qed

lemma decode_encoded:
  assumes "edit_shape e" "levels_ok e" "slices_fit e"
  shows "VersionEdit_DecodeFrom (edit_bytes e) e0 = (OK, e\<lparr>compact_pointers := compact_pointers e0 @ compact_pointers e\<rparr>)"
proof -
  have l: "length (ve_comparator e) < 2 ^ 32" "\<forall>p \<in> set (compact_pointers e). level_ok (fst p) \<and> internal_key_fits (snd p)"
    "\<forall>p \<in> set (deleted_files e). level_ok (fst p)" "\<forall>p \<in> set (new_files e). new_file_ok p" "sorted_wrt pair_less (deleted_files e)"
    using assms by (auto simp: edit_shape_def levels_ok_def slices_fit_def new_file_ok_def)
  have f: "edit_loop (concat (map file_bytes (new_files e))) d = (None, [], d\<lparr>new_files := new_files d @ new_files e\<rparr>)" for d
    using edit_loop_files [OF l(4), of "[]" d] by simp
  have "edit_loop (edit_bytes e) (VersionEdit_Clear e0) =
      (None, [], e\<lparr>compact_pointers := compact_pointers e0 @ compact_pointers e\<rparr>)"
    unfolding edit_bytes_def edit_loop_comparator [OF l(1)] edit_loop_numbers edit_loop_pointers [OF l(2)]
    by (subst edit_loop_deleted [OF l(3)]) (use l(5) assms(1) in \<open>auto simp: VersionEdit_Clear_def f edit_shape_def\<close>)
  then show ?thesis by (simp add: VersionEdit_DecodeFrom_def)
qed

section \<open>Properties\<close>

text \<open>
  C12: Whatever bytes are decoded, into whatever edit, and whether the decoding succeeds or not: the compaction pointers that the edit had
  stay in front, and apart from them what is left in the edit is well formed. The levels of the decoded compaction pointers, deleted files and new
  files are levels of the database, the deleted files are in order and without duplicates, what is not set has its initial value, and
  every new file has its initial counts.
\<close>

theorem edit_typed:
  "\<exists>ps. compact_pointers (snd (VersionEdit_DecodeFrom src e)) = compact_pointers e @ ps \<and>
    edit_shape (snd (VersionEdit_DecodeFrom src e)) \<and> levels_ok ((snd (VersionEdit_DecodeFrom src e))\<lparr>compact_pointers := ps\<rparr>)"
  using DecodeFrom_wf [of e src] by (simp add: decoded_wf_def)

text \<open>
  C11: The manifest gives back what was recorded: for every edit made by the operations of the class at levels of the database, with slices
  of less than 4 GiB and internal keys that are not empty, \<^verbatim>\<open>EncodeTo\<close> returns, \<^verbatim>\<open>DecodeFrom\<close> of what it wrote returns OK, and
  the edit it decodes into is the one that was encoded, apart from the compaction pointers that it had before, which \<^verbatim>\<open>Clear\<close>
  leaves in place.
\<close>

theorem edit_roundtrip:
  assumes "edited e" "levels_ok e" "slices_fit e"
  shows "\<exists>dst. VersionEdit_EncodeTo e [] = Some dst \<and> VersionEdit_DecodeFrom dst VersionEdit_new = (OK, e) \<and>
    VersionEdit_DecodeFrom dst e0 = (OK, e\<lparr>compact_pointers := compact_pointers e0 @ compact_pointers e\<rparr>)"
  using EncodeTo_bytes [OF assms(3)] decode_encoded [OF edited_shape [OF assms(1)] assms(2,3), of VersionEdit_new]
    decode_encoded [OF edited_shape [OF assms(1)] assms(2,3), of e0]
  by (simp add: VersionEdit_new_def VersionEdit_Clear_def)

theorem edit_roundtrip_witness:
  "\<exists>dst. VersionEdit_EncodeTo (VersionEdit_DeleteFile 3 4 (AddFile 2 7 300 [1, 2] [3] (SetLogNumber 6 VersionEdit_new))) [] = Some dst \<and>
    VersionEdit_DecodeFrom dst (SetCompactPointer 1 [9] VersionEdit_new) =
      (OK, VersionEdit_DeleteFile 3 4 (AddFile 2 7 300 [1, 2] [3] (SetLogNumber 6 (SetCompactPointer 1 [9] VersionEdit_new))))"
proof -
  let ?e = "VersionEdit_DeleteFile 3 4 (AddFile 2 7 300 [1, 2] [3] (SetLogNumber 6 VersionEdit_new))"
  have "edited ?e" by (intro edited.intros)
  moreover have "slices_fit ?e" "levels_ok ?e"
    by (simp_all add: slices_fit_def levels_ok_def level_ok_def kNumLevels_def internal_key_fits_def VersionEdit_DeleteFile_def AddFile_def
        SetLogNumber_def VersionEdit_new_def VersionEdit_Clear_def)
  ultimately show ?thesis using edit_roundtrip [of ?e "SetCompactPointer 1 [9] VersionEdit_new"]
    by (auto simp: VersionEdit_DeleteFile_def AddFile_def SetLogNumber_def SetCompactPointer_def VersionEdit_new_def VersionEdit_Clear_def)
qed

end
