(* ===== verification/Ldb_Flush.thy ===== *)
theory Ldb_Flush
  imports Ldb_Table_Get Ldb_Mem_Iterator Ldb_Version_Edit
begin

text \<open>
  The in-memory table is written to a table file: the part of \<^verbatim>\<open>BuildTable\<close> of \<^verbatim>\<open>leveldb-library/db/builder.cc\<close> that works
  on the created file, and the callback \<^verbatim>\<open>SaveValue\<close> of \<^verbatim>\<open>db/version_set.cc\<close> that receives what a lookup in a table finds.
  A lookup in the table file gives the answer of the in-memory table.
\<close>

section \<open>Writing the table\<close>

text \<open>The loop of \<^verbatim>\<open>BuildTable\<close> over the iterator of the in-memory table.\<close>

partial_function (option) build_loop ::
    "'f WritableFile \<Rightarrow> MemTable \<Rightarrow> nat option \<Rightarrow> FileMetaData \<Rightarrow> 'f TableBuilder \<Rightarrow> (FileMetaData \<times> 'f TableBuilder) option" where
  "build_loop vt m it meta r =
     (case it of
        None \<Rightarrow> Some (meta, r)
      | Some n \<Rightarrow> do {
          r \<leftarrow> TableBuilder_Add vt (MemIter_key m n) (MemIter_value m n) r;
          build_loop vt m (MemIter_Next m n) (meta\<lparr>largest := MemIter_key m n\<rparr>) r })"

text \<open>
  The functions \<open>sync\<close> and \<open>close\<close> are those of the file. The status, the description of the file, and the file; its destructor has
  nothing left to do after \<^verbatim>\<open>Close\<close>.
\<close>

definition build_file ::
    "'f WritableFile \<Rightarrow> ('f \<Rightarrow> (status \<times> 'f) option) \<Rightarrow> ('f \<Rightarrow> (status \<times> 'f) option) \<Rightarrow> Options \<Rightarrow> MemTable \<Rightarrow> nat \<Rightarrow> FileMetaData \<Rightarrow> 'f \<Rightarrow>
      (status \<times> FileMetaData \<times> 'f) option" where
  "build_file vt sync close opt m n meta f = do {
     let meta = meta\<lparr>smallest := MemIter_key m n\<rparr>;
     (meta, r) \<leftarrow> build_loop vt m (Some n) meta (TableBuilder_new opt f);
     (s, r) \<leftarrow> TableBuilder_Finish vt r;
     let meta = (if ok s then meta\<lparr>fm_size := TableBuilder_FileSize r\<rparr> else meta);
     let f = tb_file r;
     (s, f) \<leftarrow> (if ok s then sync f else Some (s, f));
     (s, f) \<leftarrow> (if ok s then close f else Some (s, f));
     Some (s, meta, f) }"

text \<open>\<^verbatim>\<open>BuildTable\<close> without the calls that create, check and delete the file; no file is touched when there are no entries.\<close>

definition BuildTable ::
    "'f WritableFile \<Rightarrow> ('f \<Rightarrow> (status \<times> 'f) option) \<Rightarrow> ('f \<Rightarrow> (status \<times> 'f) option) \<Rightarrow> Options \<Rightarrow> MemTable \<Rightarrow> FileMetaData \<Rightarrow> 'f \<Rightarrow>
      (status \<times> FileMetaData \<times> 'f) option" where
  "BuildTable vt sync close opt m meta f =
     (let meta = meta\<lparr>fm_size := 0\<rparr>
      in case MemIter_SeekToFirst m of
           None \<Rightarrow> Some (OK, meta, f)
         | Some n \<Rightarrow> build_file vt sync close opt m n meta f)"

section \<open>The callback of lookups\<close>

datatype SaverState = kNotFound | kFound | kDeleted | kCorrupt

record Saver =
  sv_state :: SaverState
  sv_user_key :: slice
  sv_value :: "byte list"

definition SaveValue :: "(slice \<Rightarrow> slice \<Rightarrow> int) \<Rightarrow> Saver \<Rightarrow> slice \<Rightarrow> slice \<Rightarrow> Saver" where
  "SaveValue ucmp s ikey v =
     (case ParseInternalKey ikey of
        (False, _) \<Rightarrow> s\<lparr>sv_state := kCorrupt\<rparr>
      | (True, None) \<Rightarrow> s
      | (True, Some parsed_key) \<Rightarrow>
          if ucmp (pk_user_key parsed_key) (sv_user_key s) = 0
          then if pk_type parsed_key = value_type kTypeValue then s\<lparr>sv_state := kFound, sv_value := v\<rparr>
               else s\<lparr>sv_state := kDeleted\<rparr>
          else s)"

text \<open>
  What \<^verbatim>\<open>Version::Get\<close> makes of the state after the lookup in one file: go on, or return the status. The pair has whether it
  returns, and the status, as the result of \<^verbatim>\<open>MemTable::Get\<close> has.
\<close>

definition saver_result :: "status \<Rightarrow> Saver \<Rightarrow> bool \<times> status" where
  "saver_result s sv =
     (case sv_state sv of
        kNotFound \<Rightarrow> (False, s)
      | kFound \<Rightarrow> (True, s)
      | kDeleted \<Rightarrow> (True, NotFound [] [])
      | kCorrupt \<Rightarrow> (True, Corruption (c_str ''corrupted key for '') (sv_user_key sv)))"

section \<open>The entries that are written\<close>

lemma build_loop_at:
  assumes "skip_inv (entry_valid valid) (KeyComparator cmp) (table m) ns" "key_order (entry_valid valid) (KeyComparator cmp)" "i \<le> length ns"
  shows "build_loop vt m (if i < length ns then Some (ns ! i) else None) meta r =
    map_option (Pair (if i < length ns then meta\<lparr>largest := MemIter_key m (last ns)\<rparr> else meta))
      (table_add_all vt (map (mem_entry m) (drop i ns)) r)"
  using assms(3)
proof (induction "length ns - i" arbitrary: i meta r)
  case 0
  then show ?case by (subst build_loop.simps) simp
next
  case (Suc n)
  then have i: "i < length ns" by linarith
  have nxt: "MemIter_Next m (ns ! i) = (if Suc i < length ns then Some (ns ! Suc i) else None)"
    using key_order.iter_steps(1) [OF assms(2,1) i] by (simp add: MemIter_Next_def first_drop)
  have n: "n = length ns - Suc i" using Suc.hyps(2) by linarith
  have l: "meta\<lparr>largest := MemIter_key m (ns ! i)\<rparr>\<lparr>largest := x\<rparr> = meta\<lparr>largest := x\<rparr>" for x by simp
  have last: "\<not> Suc i < length ns \<Longrightarrow> last ns = ns ! i" using i by (metis last_conv_nth Suc_lessI diff_Suc_1 length_0_conv not_less_zero)
  note IH = Suc.hyps(1) [OF n Suc_leI [OF i]]
  have d: "drop i ns = ns ! i # drop (Suc i) ns" using i by (simp add: Cons_nth_drop_Suc)
  show ?case
    unfolding d
    by (subst build_loop.simps; cases "TableBuilder_Add vt (MemIter_key m (ns ! i)) (MemIter_value m (ns ! i)) r")
      (auto simp: i nxt IH last mem_entry_def)
qed

lemma SaveValue_encoded:
  assumes "q \<le> kMaxSequenceNumber"
  shows "SaveValue ucmp sv (AppendInternalKey [] k q t) v =
    (if ucmp k (sv_user_key sv) = 0
     then (case t of kTypeValue \<Rightarrow> sv\<lparr>sv_state := kFound, sv_value := v\<rparr> | kTypeDeletion \<Rightarrow> sv\<lparr>sv_state := kDeleted\<rparr>) else sv)"
  using ParseInternalKey_append [OF assms, of k t] by (cases t) (simp_all add: SaveValue_def)

text \<open>The saver before the lookup, and after a lookup that found \<open>q\<close>.\<close>

definition saver_new :: "slice \<Rightarrow> byte list \<Rightarrow> Saver" where
  "saver_new u value = \<lparr>sv_state = kNotFound, sv_user_key = u, sv_value = value\<rparr>"

definition saver_after :: "(slice \<Rightarrow> slice \<Rightarrow> int) \<Rightarrow> Saver \<Rightarrow> kv option \<Rightarrow> Saver" where
  "saver_after ucmp sv q = (case q of None \<Rightarrow> sv | Some kv \<Rightarrow> SaveValue ucmp sv (fst kv) (snd kv))"

text \<open>The result of a lookup as \<^verbatim>\<open>MemTable::Get\<close> returns it.\<close>

definition saver_answer :: "status \<Rightarrow> Saver \<Rightarrow> bool \<times> byte list \<times> status" where
  "saver_answer st sv = (case saver_result st sv of (b, s) \<Rightarrow> (b, sv_value sv, s))"

lemma lookup_internal_key: "internal_key (LookupKey_new u s) = AppendInternalKey [] u s kTypeValue"
  by (simp add: internal_key_def LookupKey_new_def Let_def AppendInternalKey_def PutFixed64_def kValueTypeForSeek_def)

context user_order
begin

lemma holds_entries:
  assumes "holds valid compare m ws"
  obtains ns where "skip_inv (entry_valid valid) (KeyComparator compare) (table m) ns"
    "set (map (skey (table m)) ns) = encode_write ` set ws" "mem_rep valid compare m (map (mem_entry m) ns)" "ns = [] \<longleftrightarrow> ws = []"
proof -
  obtain ks where ks: "represents (entry_valid valid) (KeyComparator compare) (table m) ks" "set ks = encode_write ` set ws"
    and ok: "\<forall>w \<in> set ws. write_ok valid w" using assms by (auto simp: holds_def writes_fit_def)
  then obtain ns where ns: "skip_inv (entry_valid valid) (KeyComparator compare) (table m) ns" "ks = map (skey (table m)) ns"
    by (auto simp: represents_def)
  have "length (MemIter_key m n) < 2 ^ 32" if "n \<in> set ns" for n
  proof -
    have "skey (table m) n \<in> encode_write ` set ws" using that ks(2) ns(2) by auto
    then obtain q t k v where w: "(q, t, k, v) \<in> set ws" "skey (table m) n = encode_entry q t k v" by auto
    then show ?thesis using ok by (auto simp: MemIter_key_def Iter_key_def)
  qed
  then have "mem_rep valid compare m (map (mem_entry m) ns)" using ns(1) by (auto simp: mem_rep_def mem_entry_def)
  moreover have "ns = [] \<longleftrightarrow> ws = []" using ks(2) ns(2) by (metis image_is_empty list.map_disc_iff set_empty)
  ultimately show ?thesis using that [OF ns(1)] ks(2) ns(2) by blast
qed

lemma find_mem: "find P xs = Some x \<Longrightarrow> x \<in> set xs"
  by (induction xs) (auto split: if_splits)

text \<open>Looking a key up in the entries gives what the in-memory table answers.\<close>

lemma table_answer:
  assumes h: "holds valid compare m ws" and ns: "skip_inv (entry_valid valid) (KeyComparator compare) (table m) ns"
    and u: "valid u" "length u + 8 < 2 ^ 32"
    and f: "found compare (map (mem_entry m) ns) (internal_key (LookupKey_new u s)) q"
  shows "MemTable_Get compare (LookupKey_new u s) value st m = Some (saver_answer st (saver_after compare (saver_new u value) q))"
proof -
  let ?t = "memtable_key (LookupKey_new u s)" and ?k = "internal_key (LookupKey_new u s)"
  have t: "entry_key ?t = ?k"
    using u entry_slice_prefixed(3) [of "AppendInternalKey [] u s kTypeValue" "[]"] by (simp add: lookup_key_parts lookup_internal_key)
  have vt: "entry_valid valid ?t" using u by (simp add: entry_valid_def t lookup_internal_key internal_valid_def)
  let ?ks = "map (skey (table m)) ns"
  have ks: "represents (entry_valid valid) (KeyComparator compare) (table m) ?ks" using ns by (auto simp: represents_def)
  have w: "\<exists>q t k v. write_ok valid (q, t, k, v) \<and> e = encode_entry q t k v" if "e \<in> set ?ks" for e
  proof -
    obtain ks where "represents (entry_valid valid) (KeyComparator compare) (table m) ks" "set ks = encode_write ` set ws"
      and ok: "\<forall>w \<in> set ws. write_ok valid w" using h by (auto simp: holds_def writes_fit_def)
    moreover from this(1) have "ks = ?ks" using skip_inv_unique [OF ns] by (auto simp: represents_def)
    ultimately have "e \<in> encode_write ` set ws" using that by simp
    then obtain q t k v where "(q, t, k, v) \<in> set ws" "e = encode_write (q, t, k, v)" by auto
    then show ?thesis using ok by (intro exI conjI) auto
  qed
  have entry: "mem_entry m n = (entry_key (skey (table m) n), entry_value (skey (table m) n))" for n
    by (simp add: mem_entry_def MemIter_key_def MemIter_value_def Iter_key_def)
  have fi: "find (\<lambda>kv. \<not> InternalKey_Compare compare (fst kv) ?k < 0) (map (mem_entry m) ns) =
      map_option (\<lambda>e. (entry_key e, entry_value e)) (find (\<lambda>e. 0 \<le> KeyComparator compare e ?t) ?ks)"
    by (induction ns) (auto simp: entry KeyComparator_def t not_less)
  have g: "MemTable_Get compare (LookupKey_new u s) value st m =
      Some (case find (\<lambda>e. 0 \<le> KeyComparator compare e ?t) ?ks of None \<Rightarrow> (False, value, st) | Some e \<Rightarrow> get_entry compare u value st e)"
    using sorted_store.seek [OF entry_store ks vt] unfolding Get_seek lookup_key_parts(2) [OF u(2)] by simp
  show ?thesis
  proof (cases "find (\<lambda>e. 0 \<le> KeyComparator compare e ?t) ?ks")
    case None
    then have "q = None" using f fi by (cases q) (auto simp: found_def)
    then show ?thesis unfolding g None by (simp add: saver_answer_def saver_after_def saver_new_def saver_result_def)
  next
    case (Some e)
    obtain q' t' k v where e: "write_ok valid (q', t', k, v)" "e = encode_entry q' t' k v"
      using w [OF find_mem [OF Some]] by (elim exE conjE) (rule that)
    have kv: "find (\<lambda>kv. \<not> InternalKey_Compare compare (fst kv) ?k < 0) (map (mem_entry m) ns) = Some (AppendInternalKey [] k q' t', v)"
      using e fi Some by simp
    have q1: "q = None \<or> q = Some (AppendInternalKey [] k q' t', v)"
    proof (cases q)
      case (Some kv')
      then show ?thesis using HOL.trans [OF kv [symmetric] f [unfolded found_def, THEN conjunct1, THEN spec, THEN mp, OF Some]] by simp
    qed simp
    have q2: "compare k u = 0 \<longrightarrow> q = Some (AppendInternalKey [] k q' t', v)"
      using f [unfolded found_def, THEN conjunct2, THEN spec, THEN mp, OF kv] by (simp add: lookup_internal_key)
    have ge: "get_entry compare u value st e =
      (if compare k u = 0 then (case t' of kTypeValue \<Rightarrow> (True, v, st) | kTypeDeletion \<Rightarrow> (True, value, NotFound [] [])) else (False, value, st))"
      using e by (simp add: get_entry_encoded)
    have q': "q' \<le> kMaxSequenceNumber" using e(1) by simp
    have s: "saver_after compare (saver_new u value) (Some (AppendInternalKey [] k q' t', v)) =
        (if compare k u = 0 then (case t' of kTypeValue \<Rightarrow> (saver_new u v)\<lparr>sv_state := kFound\<rparr>
          | kTypeDeletion \<Rightarrow> (saver_new u value)\<lparr>sv_state := kDeleted\<rparr>) else saver_new u value)"
      by (cases t') (simp_all add: saver_after_def SaveValue_encoded [OF q'] saver_new_def)
    have n: "saver_after compare sv None = sv" for sv by (simp add: saver_after_def)
    show ?thesis unfolding g Some option.case ge
    proof (cases "compare k u = 0")
      case True
      then have "q = Some (AppendInternalKey [] k q' t', v)" using q2 by blast
      then show "Some (if compare k u = 0 then (case t' of kTypeValue \<Rightarrow> (True, v, st) | kTypeDeletion \<Rightarrow> (True, value, NotFound [] []))
          else (False, value, st)) = Some (saver_answer st (saver_after compare (saver_new u value) q))"
        using True s by (cases t') (simp_all add: saver_answer_def saver_result_def, simp_all add: saver_new_def)
    next
      case False
      then have "saver_after compare (saver_new u value) q = saver_new u value" using q1 s n by (elim disjE) simp_all
      then show "Some (if compare k u = 0 then (case t' of kTypeValue \<Rightarrow> (True, v, st) | kTypeDeletion \<Rightarrow> (True, value, NotFound [] []))
          else (False, value, st)) = Some (saver_answer st (saver_after compare (saver_new u value) q))"
        using False by (simp add: saver_answer_def saver_result_def saver_new_def)
    qed
  qed
qed

end

section \<open>The file on disk\<close>

text \<open>A system whose \<^verbatim>\<open>fsync\<close>, \<^verbatim>\<open>close\<close> and \<^verbatim>\<open>open\<close> of directories succeed and leave the bytes of the file alone.\<close>

definition syncs_ok :: "'os sys \<Rightarrow> ('os \<Rightarrow> byte list) \<Rightarrow> bool" where
  "syncs_ok sys disk \<longleftrightarrow>
     (\<forall>fd os. \<exists>os'. sys_fsync sys fd os = (Ret (), os') \<and> disk os' = disk os) \<and>
     (\<forall>fd os. disk (snd (sys_full_fsync sys fd os)) = disk os) \<and>
     (\<forall>fd os. \<exists>os'. sys_close sys fd os = (Ret (), os') \<and> disk os' = disk os) \<and>
     (\<forall>d os. \<exists>fd os'. sys_open_rdonly sys d os = (Ret fd, os') \<and> disk os' = disk os)"

lemma SyncFd_ok: "syncs_ok sys disk \<Longrightarrow> \<exists>os'. SyncFd sys fd p os = (OK, os') \<and> disk os' = disk os"
proof -
  assume s: "syncs_ok sys disk"
  obtain r os1 where f: "sys_full_fsync sys fd os = (r, os1)" by fastforce
  then have "disk os1 = disk os" using s unfolding syncs_ok_def by (metis snd_conv)
  moreover obtain os2 where "sys_fsync sys fd os1 = (Ret (), os2)" "disk os2 = disk os1" using s unfolding syncs_ok_def by blast
  ultimately show ?thesis by (cases r) (simp_all add: SyncFd_def f)
qed

lemma SyncDir_ok: "syncs_ok sys disk \<Longrightarrow> \<exists>os'. SyncDirIfManifest sys f os = (OK, os') \<and> disk os' = disk os"
proof -
  assume s: "syncs_ok sys disk"
  obtain fd os1 where o: "sys_open_rdonly sys (dirname f) os = (Ret fd, os1)" "disk os1 = disk os" using s unfolding syncs_ok_def by blast
  obtain os2 where y: "SyncFd sys fd (dirname f) os1 = (OK, os2)" "disk os2 = disk os1" using SyncFd_ok [OF s] by blast
  obtain os3 where "sys_close sys fd os2 = (Ret (), os3)" "disk os3 = disk os2" using s unfolding syncs_ok_def by blast
  then show ?thesis by (simp add: SyncDirIfManifest_def o y)
qed

lemma sync_close_ok:
  assumes "syncs_ok sys disk" "writes_ok sys (wf_fd (fst fo)) disk pend"
  shows "\<exists>fo' fo''. PosixWritableFile_Sync sys fo = Some (OK, fo') \<and> PosixWritableFile_Close sys fo' = Some (OK, fo'') \<and>
    disk (snd fo'') = pf_contents disk fo"
proof -
  obtain f os where fo: "fo = (f, os)" by (cases fo)
  obtain os1 where 1: "SyncDirIfManifest sys f os = (OK, os1)" "disk os1 = disk os" using SyncDir_ok [OF assms(1)] by blast
  obtain os2 where 2: "FlushBuffer sys (f, os1) = Some (OK, f\<lparr>buf := []\<rparr>, os2)" "disk os2 = disk os1 @ buf f"
    using FlushBuffer_returns assms(2) fo by fastforce
  obtain os3 where 3: "SyncFd sys (wf_fd f) (wf_filename f) os2 = (OK, os3)" "disk os3 = disk os2" using SyncFd_ok [OF assms(1)] by blast
  have w: "writes_ok sys (wf_fd (f\<lparr>buf := []\<rparr>)) disk pend" using assms(2) fo by simp
  obtain os4 where 4: "FlushBuffer sys (f\<lparr>buf := []\<rparr>, os3) = Some (OK, f\<lparr>buf := []\<rparr>, os4)" "disk os4 = disk os3"
    using FlushBuffer_returns [OF w, of os3] by auto
  obtain os5 where "sys_close sys (wf_fd f) os4 = (Ret (), os5)" "disk os5 = disk os4" using assms(1) unfolding syncs_ok_def by blast
  then show ?thesis using 1 2 3 4
    by (simp add: fo PosixWritableFile_Sync_def PosixWritableFile_Close_def pf_contents_def)
qed

context user_order
begin

lemma BuildTable_entries:
  assumes ns: "skip_inv (entry_valid valid) (KeyComparator compare) (table m) ns" "ns \<noteq> []"
    and r: "table_add_all vt (map (mem_entry m) ns) (TableBuilder_new opt f) = Some r" "TableBuilder_Finish vt r = Some (OK, r')"
    and s: "sync (tb_file r') = Some (OK, f1)" "close f1 = Some (OK, f2)"
  shows "BuildTable vt sync close opt m meta f = Some (OK, meta\<lparr>fm_size := TableBuilder_FileSize r', smallest := MemIter_key m (hd ns),
    largest := MemIter_key m (last ns)\<rparr>, f2)"
proof -
  have f: "MemIter_SeekToFirst m = Some (ns ! 0)"
    using key_order.iter_ends(1) [OF entry_order ns(1)] ns(2) by (cases ns) (simp_all add: MemIter_SeekToFirst_def)
  have "build_loop vt m (Some (ns ! 0)) meta' (TableBuilder_new opt f) = Some (meta'\<lparr>largest := MemIter_key m (last ns)\<rparr>, r)" for meta'
    using build_loop_at [OF ns(1) entry_order, of 0 vt meta' "TableBuilder_new opt f"] ns(2) r(1) by simp
  then show ?thesis using r(2) s ns(2) by (simp add: BuildTable_def f build_file_def hd_conv_nth)
qed

lemma flush_written:
  assumes d: "db_options valid compare separator successor policy opt"
    and ws: "\<forall>w \<in> set ws. write_ok valid w" "sorted_wrt (\<lambda>a b. fst a < fst b) ws" "ws \<noteq> []"
    and w: "writes_ok wsys (wf_fd pf) disk pend" "buf pf = []" "disk wos = []" "syncs_ok wsys disk"
  obtains m ns meta' f' bs where "add_writes compare ws MemTable_new = Some m" "holds valid compare m ws"
    "skip_inv (entry_valid valid) (KeyComparator compare) (table m) ns" "mem_rep valid compare m (map (mem_entry m) ns)"
    "BuildTable (posix_writable wsys) (PosixWritableFile_Sync wsys) (PosixWritableFile_Close wsys) opt m meta (pf, wos) = Some (OK, meta', f')"
    "disk (snd f') = table_image opt bs" "fm_size meta' = of_nat (length (table_image opt bs))"
    "concat bs = map (mem_entry m) ns" "[] \<notin> set bs" "smallest meta' = MemIter_key m (hd ns)" "largest meta' = MemIter_key m (last ns)"
proof -
  have K: "0 < block_restart_interval opt" using d by (simp add: db_options_def)
  from add_writes_holds [OF holds_new, of ws] ws(1,2)
  obtain m where m: "add_writes compare ws MemTable_new = Some m" "holds valid compare m ws" by (auto simp: writes_fit_def)
  from holds_entries [OF m(2)]
  obtain ns where ns: "skip_inv (entry_valid valid) (KeyComparator compare) (table m) ns" "mem_rep valid compare m (map (mem_entry m) ns)"
      "ns = [] \<longleftrightarrow> ws = []" by metis
  have c0: "pf_contents disk (pf, wos) = []" using w(2,3) by (simp add: pf_contents_def)
  obtain r r' bs where r: "table_add_all (posix_writable wsys) (map (mem_entry m) ns) (TableBuilder_new opt (pf, wos)) = Some r"
      "TableBuilder_Finish (posix_writable wsys) r = Some (OK, r')" "writes_ok wsys (wf_fd (fst (tb_file r'))) disk pend"
      "pf_contents disk (tb_file r') = table_image opt bs" "tb_offset r' = of_nat (length (table_image opt bs))"
      "concat bs = map (mem_entry m) ns" "[] \<notin> set bs"
    using posix_file.table_written [where sys = wsys and disk = disk and pend = pend and f = "(pf, wos)" and opt = opt and kvs = "map (mem_entry m) ns",
        OF _ c0 K, folded posix_writable_def] w(1) by auto
  obtain f1 f2 where f: "PosixWritableFile_Sync wsys (tb_file r') = Some (OK, f1)" "PosixWritableFile_Close wsys f1 = Some (OK, f2)"
      "disk (snd f2) = table_image opt bs" using sync_close_ok [OF w(4) r(3)] r(4) by auto
  have ne: "ns \<noteq> []" using ns(3) ws(3) by simp
  show ?thesis
  proof (rule that [OF m ns(1,2) _ f(3) _ r(6,7)])
    show "BuildTable (posix_writable wsys) (PosixWritableFile_Sync wsys) (PosixWritableFile_Close wsys) opt m meta (pf, wos) =
        Some (OK, meta\<lparr>fm_size := TableBuilder_FileSize r', smallest := MemIter_key m (hd ns), largest := MemIter_key m (last ns)\<rparr>, f2)"
      using BuildTable_entries [OF ns(1) ne r(1,2), where sync = "PosixWritableFile_Sync wsys" and close = "PosixWritableFile_Close wsys"]
        f(1,2) by blast
  qed (simp_all add: TableBuilder_FileSize_def r(5))
qed

end

section \<open>Properties\<close>

text \<open>
  C4: The table file answers as the in-memory table does. After any non-empty sequence of writes with growing sequence numbers, the table
  that \<^verbatim>\<open>BuildTable\<close> writes to an empty posix file from the in-memory table, with its bytes on disk when \<^verbatim>\<open>Sync\<close> and
  \<^verbatim>\<open>Close\<close> have returned, can be opened with the file size that is recorded for it, and for every user key and every snapshot the lookup
  of \<^verbatim>\<open>Version::Get\<close> with \<^verbatim>\<open>SaveValue\<close> in this file leads to the value and status that \<^verbatim>\<open>MemTable::Get\<close>
  returns, a deletion and a missing key included. This holds for every comparator and filter policy that keep their contracts.
\<close>

theorem flush_refines:
  assumes d: "db_options valid compare separator successor policy opt"
    and ws: "\<forall>w \<in> set ws. write_ok valid w" "sorted_wrt (\<lambda>a b. fst a < fst b) ws" "ws \<noteq> []"
    and w: "writes_ok wsys (wf_fd pf) disk pend" "buf pf = []" "disk wos = []" "syncs_ok wsys disk"
    and same: "opt_comparator ropt = opt_comparator opt" "opt_filter ropt = opt_filter opt"
  shows "\<exists>m meta' f'. add_writes compare ws MemTable_new = Some m \<and>
    BuildTable (posix_writable wsys) (PosixWritableFile_Sync wsys) (PosixWritableFile_Close wsys) opt m meta (pf, wos) = Some (OK, meta', f') \<and>
    (\<forall>os. contents os = disk (snd f') \<and> length (contents os) < 2 ^ 32 \<and> preads_ok rsys rf contents (contents os) \<longrightarrow>
       (\<exists>t os'. Table_Open (posix_random_access rsys rf) (None :: (unit, unit, Block) Cache option) ropt (fm_size meta') os () =
            Some (OK, Some t, os', ()) \<and>
          (\<forall>u s os1. valid u \<and> length u + 8 < 2 ^ 32 \<and> contents os1 = contents os \<longrightarrow>
             (\<exists>sv os2. InternalGet (posix_random_access rsys rf) (None :: (unit, unit, Block) Cache option) t ro (internal_key (LookupKey_new u s))
                  (saver_new u old) (SaveValue compare) os1 () = Some (OK, sv, os2, ()) \<and>
                MemTable_Get compare (LookupKey_new u s) old st m = Some (saver_answer st sv)))))"
proof -
  let ?vt = "posix_random_access rsys rf" and ?no = "None :: (unit, unit, Block) Cache option"
  let ?inv = "\<lambda>os. preads_ok rsys rf contents (contents os)"
  have K: "0 < block_restart_interval opt" and C: "comparator valid compare separator successor" using d by (simp_all add: db_options_def)
  have uo: "user_order valid compare" using C by (simp add: user_order_def comparator_def)
  obtain m ns meta' f' bs where m: "add_writes compare ws MemTable_new = Some m" "holds valid compare m ws"
    "skip_inv (entry_valid valid) (KeyComparator compare) (table m) ns" "mem_rep valid compare m (map (mem_entry m) ns)"
    and b: "BuildTable (posix_writable wsys) (PosixWritableFile_Sync wsys) (PosixWritableFile_Close wsys) opt m meta (pf, wos) = Some (OK, meta', f')"
    "disk (snd f') = table_image opt bs" "fm_size meta' = of_nat (length (table_image opt bs))" "concat bs = map (mem_entry m) ns" "[] \<notin> set bs"
    by (rule user_order.flush_written [OF uo d ws w, where meta = meta])
  let ?kvs = "map (mem_entry m) ns"
  have kvs: "sorted_wrt (\<lambda>a b. InternalKey_Compare compare (fst a) (fst b) < 0) ?kvs" "\<forall>kv \<in> set ?kvs. internal_valid valid (fst kv)"
    using entry_iterator.contents [OF user_order.mem_entry_iterator [OF uo] m(4)] by (auto simp: short_key_def)
  have "\<exists>t os'. Table_Open ?vt ?no ropt (fm_size meta') os () = Some (OK, Some t, os', ()) \<and>
      (\<forall>u s os1. valid u \<and> length u + 8 < 2 ^ 32 \<and> contents os1 = contents os \<longrightarrow>
         (\<exists>sv os2. InternalGet ?vt ?no t ro (internal_key (LookupKey_new u s)) (saver_new u old) (SaveValue compare) os1 () = Some (OK, sv, os2, ()) \<and>
            MemTable_Get compare (LookupKey_new u s) old st m = Some (saver_answer st sv)))"
    if c: "contents os = disk (snd f')" and l: "length (contents os) < 2 ^ 32" and p: "?inv os" for os
  proof -
    have c': "contents os = table_image opt bs" using c b(2) by simp
    have fits: "table_fits opt bs" using l K by (simp add: table_fits_def c')
    obtain os' where o: "Table_Open ?vt ?no ropt (fm_size meta') os () = Some (OK, Some (opened ropt opt 0 bs), os', ())"
      using posix_random.Table_Open_image [where cache = ?no, OF p c' fits same(2), of "()"] b(3) by auto
    have "\<exists>sv os2. InternalGet ?vt ?no (opened ropt opt 0 bs) ro (internal_key (LookupKey_new u s)) (saver_new u old) (SaveValue compare) os1 () =
        Some (OK, sv, os2, ()) \<and> MemTable_Get compare (LookupKey_new u s) old st m = Some (saver_answer st sv)"
      if u: "valid u" "length u + 8 < 2 ^ 32" and c1: "contents os1 = contents os" for u s os1
    proof -
      have i: "image_in contents ?inv ropt opt bs os1 \<and> {#} = {#}" using fits same c' c1 p by (simp add: image_in_def)
      have k: "internal_valid valid (internal_key (LookupKey_new u s))" using u(1) by (simp add: lookup_internal_key internal_valid_def)
      obtain q os2 c2 where q: "InternalGet ?vt ?no (opened ropt opt 0 bs) ro (internal_key (LookupKey_new u s)) (saver_new u old) (SaveValue compare) os1 () =
          Some (OK, case q of None \<Rightarrow> saver_new u old | Some kv \<Rightarrow> SaveValue compare (saver_new u old) (fst kv) (snd kv), os2, c2)"
          "found compare ?kvs (internal_key (LookupKey_new u s)) q"
        using posix_blocks.internal_get [OF d b(4,5) kvs k i, where cid = 0 and ro = ro and arg = "saver_new u old" and handle_result = "SaveValue compare" and c = "()"]
        by (elim exE conjE) (rule that)
      then show ?thesis
        using user_order.table_answer [OF uo m(2,3) u q(2), of old st] by (intro exI conjI) (simp_all add: saver_after_def)
    qed
    then show ?thesis using o by auto
  qed
  then show ?thesis using m(1) b(1) by blast
qed

theorem flush_refines_witness:
  "\<exists>m meta' f' t os' sv os2. add_writes slice_compare [(1, kTypeValue, [7], [10])] MemTable_new = Some m \<and>
    BuildTable (posix_writable slow_sys) (PosixWritableFile_Sync slow_sys) (PosixWritableFile_Close slow_sys) small_options m FileMetaData_new
      (PosixWritableFile_new (c_str ''000005.ldb'') 4, [], 2) = Some (OK, meta', f') \<and>
    Table_Open (posix_random_access slow_sys \<lparr>has_permanent_fd = True, ra_fd = 3, ra_filename = c_str ''000005.ldb''\<rparr>)
      (None :: (unit, unit, Block) Cache option) small_options (fm_size meta') (fst (snd f'), 0) () = Some (OK, Some t, os', ()) \<and>
    InternalGet (posix_random_access slow_sys \<lparr>has_permanent_fd = True, ra_fd = 3, ra_filename = c_str ''000005.ldb''\<rparr>)
      (None :: (unit, unit, Block) Cache option) t ReadOptions_new (internal_key (LookupKey_new [7] 5)) (saver_new [7] []) (SaveValue slice_compare)
      (fst (snd f'), 0) () = Some (OK, sv, os2, ()) \<and>
    saver_answer OK sv = (True, [10], OK)"
proof -
  let ?ws = "[(1, kTypeValue, [7], [10])] :: mem_write list" and ?pf = "PosixWritableFile_new (c_str ''000005.ldb'') 4"
  let ?rf = "\<lparr>has_permanent_fd = True, ra_fd = 3, ra_filename = c_str ''000005.ldb''\<rparr>"
  let ?vt = "posix_random_access slow_sys ?rf" and ?no = "None :: (unit, unit, Block) Cache option"
  have b: "buf ?pf = []" "fst ([] :: byte list, 2 :: nat) = []" by (simp_all add: PosixWritableFile_new_def)
  have y: "syncs_ok slow_sys fst" by (simp add: syncs_ok_def slow_sys_def)
  have ws: "\<forall>w \<in> set ?ws. write_ok (\<lambda>_. True) w" "sorted_wrt (\<lambda>a b. fst a < fst b) ?ws" "?ws \<noteq> []"
    by (simp_all add: kMaxSequenceNumber_def)
  obtain m ns meta' f' bs where m: "add_writes slice_compare ?ws MemTable_new = Some m" "holds (\<lambda>_. True) slice_compare m ?ws"
    "skip_inv (entry_valid (\<lambda>_. True)) (KeyComparator slice_compare) (table m) ns"
    and f: "BuildTable (posix_writable slow_sys) (PosixWritableFile_Sync slow_sys) (PosixWritableFile_Close slow_sys) small_options m FileMetaData_new
        (?pf, [], 2) = Some (OK, meta', f')"
      "fst (snd f') = table_image small_options bs" "concat bs = map (mem_entry m) ns" "[] \<notin> set bs"
    by (rule bytewise_table.flush_written [OF small_options_db ws slow_sys_ok(1) b y, where meta = FileMetaData_new])
  have "map (mem_entry m) ns = [(AppendInternalKey [] [7] 1 kTypeValue, [10])]"
  proof -
    from bytewise_table.holds_entries [OF m(2)] obtain ns' where
      n': "skip_inv (entry_valid (\<lambda>_. True)) (KeyComparator slice_compare) (table m) ns'" "set (map (skey (table m)) ns') = encode_write ` set ?ws" by metis
    have n: "set (map (skey (table m)) ns) = {encode_entry 1 kTypeValue [7] [10]}" using n' skip_inv_unique [OF m(3) n'(1)] by simp
    have s: "sorted_wrt (\<lambda>a b. KeyComparator slice_compare (skey (table m) a) (skey (table m) b) < 0) ns" using m(3) by (simp add: skip_inv_def)
    obtain x xs where ns: "ns = x # xs" using n by (cases ns) auto
    have "xs = []"
    proof (rule ccontr)
      assume "xs \<noteq> []"
      then obtain y where "y \<in> set xs" by (cases xs) auto
      then have "KeyComparator slice_compare (skey (table m) x) (skey (table m) y) < 0" "skey (table m) x = skey (table m) y"
        using s n ns by auto
      then show False using bytewise.refl by (simp add: KeyComparator_def internal_less)
    qed
    then show ?thesis using n ns by (simp add: mem_entry_def MemIter_key_def MemIter_value_def Iter_key_def)
  qed
  then have bs: "bs = [[(AppendInternalKey [] [7] 1 kTypeValue, [10])]]" using one_group f(3,4) by simp
  have l: "length (fst (snd f')) < 2 ^ 32" using small_table_length f(2) bs by simp
  obtain m2 meta2 f2 where 2: "add_writes slice_compare ?ws MemTable_new = Some m2"
      "BuildTable (posix_writable slow_sys) (PosixWritableFile_Sync slow_sys) (PosixWritableFile_Close slow_sys) small_options m2 FileMetaData_new
        (?pf, [], 2) = Some (OK, meta2, f2)"
      "\<And>os. fst os = fst (snd f2) \<and> length (fst os) < 2 ^ 32 \<and> preads_ok slow_sys ?rf fst (fst os) \<Longrightarrow>
        (\<exists>t os'. Table_Open ?vt ?no small_options (fm_size meta2) os () = Some (OK, Some t, os', ()) \<and>
          (\<forall>u s os1. True \<and> length u + 8 < 2 ^ 32 \<and> fst os1 = fst os \<longrightarrow>
             (\<exists>sv os2. InternalGet ?vt ?no t ReadOptions_new (internal_key (LookupKey_new u s)) (saver_new u []) (SaveValue slice_compare) os1 () =
                Some (OK, sv, os2, ()) \<and> MemTable_Get slice_compare (LookupKey_new u s) [] OK m2 = Some (saver_answer OK sv))))"
    using flush_refines [OF small_options_db ws slow_sys_ok(1) b y refl refl, where contents = fst and rsys = slow_sys and
        rf = ?rf and ro = ReadOptions_new and meta = FileMetaData_new and old = "[]" and st = OK]
    by (elim exE conjE) (rule that, assumption+, drule spec, erule mp, assumption)
  have e: "m2 = m" "meta2 = meta'" "f2 = f'" using 2(1,2) m(1) f(1) by simp_all
  let ?os = "(fst (snd f'), 0 :: nat)"
  have p: "fst ?os = fst (snd f2) \<and> length (fst ?os) < 2 ^ 32 \<and> preads_ok slow_sys ?rf fst (fst ?os)"
    using l slow_sys_preads [of "fst (snd f')"] by (simp add: e)
  obtain t os' where t: "Table_Open ?vt ?no small_options (fm_size meta') ?os () = Some (OK, Some t, os', ())"
      "\<forall>u s os1. True \<and> length u + 8 < 2 ^ 32 \<and> fst os1 = fst ?os \<longrightarrow>
         (\<exists>sv os2. InternalGet ?vt ?no t ReadOptions_new (internal_key (LookupKey_new u s)) (saver_new u []) (SaveValue slice_compare) os1 () =
            Some (OK, sv, os2, ()) \<and> MemTable_Get slice_compare (LookupKey_new u s) [] OK m = Some (saver_answer OK sv))"
    using 2(3) [OF p] unfolding e by (elim exE conjE) (rule that)
  have c: "True \<and> length ([7] :: byte list) + 8 < 2 ^ 32 \<and> fst ?os = fst ?os" by simp
  obtain sv os2 where g: "InternalGet ?vt ?no t ReadOptions_new (internal_key (LookupKey_new [7] 5)) (saver_new [7] []) (SaveValue slice_compare) ?os () =
        Some (OK, sv, os2, ())" "MemTable_Get slice_compare (LookupKey_new [7] 5) [] OK m = Some (saver_answer OK sv)"
    using t(2) [THEN spec [of _ "[7]"], THEN spec [of _ 5], THEN spec [of _ ?os], THEN mp, OF c] by (elim exE conjE) (rule that)
  have "(5 :: uint64) \<le> kMaxSequenceNumber" by (simp add: kMaxSequenceNumber_def)
  then have "MemTable_Get slice_compare (LookupKey_new [7] 5) [] OK m = Some (answer (visible slice_compare [7] 5 ?ws) [] OK)"
    by (intro bytewise_table.get_last [OF m(2)]) simp_all
  moreover have "slice_compare [7] [7] = 0" by code_simp
  ultimately have "saver_answer OK sv = (True, [10], OK)" using g(2) by (simp add: visible_def answer_def)
  then show ?thesis using m(1) f(1) t(1) g(1) by blast
qed

end
