(* ===== verification/Ldb_Version.thy ===== *)
theory Ldb_Version
  imports Ldb_Flush
begin

text \<open>
  \<^verbatim>\<open>leveldb-library/db/version_set.h\<close> and \<^verbatim>\<open>version_set.cc\<close>, class \<^verbatim>\<open>Version\<close>: the table files of each level, the search
  for the files that may hold a key, and the files that overlap a range of keys. The objects of type \<^verbatim>\<open>FileMetaData\<close> are shared
  between versions: a version has their addresses, and the functions take the content of the heap as a function of the address.
  None: a loop does not end. The scores of compactions, which are floating point numbers, are not modelled.
\<close>

section \<open>Sizes\<close>

record DBOptions = Options +
  max_file_size :: uint64

definition kMaxMemCompactLevel :: nat where
  "kMaxMemCompactLevel = 2"

definition TargetFileSize :: "DBOptions \<Rightarrow> uint64" where
  "TargetFileSize opt = max_file_size opt"

text \<open>Numbers of type \<^verbatim>\<open>int64_t\<close> are words, compared as signed numbers.\<close>

definition MaxGrandParentOverlapBytes :: "DBOptions \<Rightarrow> uint64" where
  "MaxGrandParentOverlapBytes opt = 10 * TargetFileSize opt"

definition ExpandedCompactionByteSizeLimit :: "DBOptions \<Rightarrow> uint64" where
  "ExpandedCompactionByteSizeLimit opt = 25 * TargetFileSize opt"

definition MaxFileSizeForLevel :: "DBOptions \<Rightarrow> nat \<Rightarrow> uint64" where
  "MaxFileSizeForLevel opt level = TargetFileSize opt"

type_synonym metas = "nat \<Rightarrow> FileMetaData"

definition TotalFileSize :: "metas \<Rightarrow> nat list \<Rightarrow> uint64" where
  "TotalFileSize h files = foldl (\<lambda>sum p. sum + fm_size (h p)) 0 files"

section \<open>The search in a level\<close>

definition file_start :: "metas \<Rightarrow> nat \<Rightarrow> slice" where
  "file_start h p = ExtractUserKey (smallest (h p))"

definition file_limit :: "metas \<Rightarrow> nat \<Rightarrow> slice" where
  "file_limit h p = ExtractUserKey (largest (h p))"

partial_function (option) find_file_loop ::
    "(slice \<Rightarrow> slice \<Rightarrow> int) \<Rightarrow> metas \<Rightarrow> nat list \<Rightarrow> slice \<Rightarrow> uint32 \<Rightarrow> uint32 \<Rightarrow> uint32 option" where
  "find_file_loop ucmp h files key left right =
     (if left < right then
        let mid = (left + right) div 2 in
        if InternalKey_Compare ucmp (largest (h (files ! unat mid))) key < 0 then find_file_loop ucmp h files key (mid + 1) right
        else find_file_loop ucmp h files key left mid
      else Some right)"

definition FindFile :: "(slice \<Rightarrow> slice \<Rightarrow> int) \<Rightarrow> metas \<Rightarrow> nat list \<Rightarrow> slice \<Rightarrow> uint32 option" where
  "FindFile ucmp h files key = find_file_loop ucmp h files key 0 (of_nat (length files))"

text \<open>A null pointer to a key is none.\<close>

definition AfterFile :: "(slice \<Rightarrow> slice \<Rightarrow> int) \<Rightarrow> metas \<Rightarrow> slice option \<Rightarrow> nat \<Rightarrow> bool" where
  "AfterFile ucmp h user_key f = (case user_key of None \<Rightarrow> False | Some k \<Rightarrow> ucmp k (file_limit h f) > 0)"

definition BeforeFile :: "(slice \<Rightarrow> slice \<Rightarrow> int) \<Rightarrow> metas \<Rightarrow> slice option \<Rightarrow> nat \<Rightarrow> bool" where
  "BeforeFile ucmp h user_key f = (case user_key of None \<Rightarrow> False | Some k \<Rightarrow> ucmp k (file_start h f) < 0)"

fun some_file_overlaps :: "(slice \<Rightarrow> slice \<Rightarrow> int) \<Rightarrow> metas \<Rightarrow> nat list \<Rightarrow> slice option \<Rightarrow> slice option \<Rightarrow> bool" where
  "some_file_overlaps ucmp h [] small large = False"
| "some_file_overlaps ucmp h (f # fs) small large =
     (if AfterFile ucmp h small f \<or> BeforeFile ucmp h large f then some_file_overlaps ucmp h fs small large else True)"

definition SomeFileOverlapsRange ::
    "(slice \<Rightarrow> slice \<Rightarrow> int) \<Rightarrow> metas \<Rightarrow> bool \<Rightarrow> nat list \<Rightarrow> slice option \<Rightarrow> slice option \<Rightarrow> bool option" where
  "SomeFileOverlapsRange ucmp h disjoint_sorted_files files small large =
     (if \<not> disjoint_sorted_files then Some (some_file_overlaps ucmp h files small large)
      else do {
        index \<leftarrow> (case small of
                    None \<Rightarrow> Some 0
                  | Some k \<Rightarrow> FindFile ucmp h files (AppendInternalKey [] k kMaxSequenceNumber kValueTypeForSeek));
        if unat index \<ge> length files then Some False
        else Some (\<not> BeforeFile ucmp h large (files ! unat index)) })"

text \<open>\<^verbatim>\<open>LevelFileNumIterator\<close>: the iterator is its index.\<close>

definition LevelFile_new :: "nat list \<Rightarrow> uint32" where
  "LevelFile_new flist = of_nat (length flist)"

definition LevelFile_Valid :: "nat list \<Rightarrow> uint32 \<Rightarrow> bool" where
  "LevelFile_Valid flist index \<longleftrightarrow> unat index < length flist"

definition LevelFile_Seek :: "(slice \<Rightarrow> slice \<Rightarrow> int) \<Rightarrow> metas \<Rightarrow> nat list \<Rightarrow> slice \<Rightarrow> uint32 \<Rightarrow> uint32 option" where
  "LevelFile_Seek ucmp h flist target index = FindFile ucmp h flist target"

definition LevelFile_SeekToFirst :: "nat list \<Rightarrow> uint32 \<Rightarrow> uint32" where
  "LevelFile_SeekToFirst flist index = 0"

definition LevelFile_SeekToLast :: "nat list \<Rightarrow> uint32 \<Rightarrow> uint32" where
  "LevelFile_SeekToLast flist index = (if flist = [] then 0 else of_nat (length flist - 1))"

definition LevelFile_Next :: "nat list \<Rightarrow> uint32 \<Rightarrow> uint32" where
  "LevelFile_Next flist index = index + 1"

definition LevelFile_Prev :: "nat list \<Rightarrow> uint32 \<Rightarrow> uint32" where
  "LevelFile_Prev flist index = (if index = 0 then of_nat (length flist) else index - 1)"

definition LevelFile_key :: "metas \<Rightarrow> nat list \<Rightarrow> uint32 \<Rightarrow> slice" where
  "LevelFile_key h flist index = largest (h (flist ! unat index))"

definition LevelFile_value :: "metas \<Rightarrow> nat list \<Rightarrow> uint32 \<Rightarrow> slice" where
  "LevelFile_value h flist index =
     EncodeFixed64 (fm_number (h (flist ! unat index))) @ EncodeFixed64 (fm_size (h (flist ! unat index)))"

section \<open>Versions\<close>

text \<open>The files of each level in the order of the vector.\<close>

record Version =
  v_files :: "nat list list"
  v_refs :: int
  file_to_compact :: "nat option"
  file_to_compact_level :: int

definition Version_new :: Version where
  "Version_new = \<lparr>v_files = replicate (nat kNumLevels) [], v_refs = 0, file_to_compact = None, file_to_compact_level = - 1\<rparr>"

definition NumFiles :: "Version \<Rightarrow> nat \<Rightarrow> nat" where
  "NumFiles v level = length (v_files v ! level)"

definition NewestFirst :: "metas \<Rightarrow> nat \<Rightarrow> nat \<Rightarrow> bool" where
  "NewestFirst h a b \<longleftrightarrow> fm_number (h a) > fm_number (h b)"

text \<open>
  Sorting by insertion; \<^verbatim>\<open>std::sort\<close> leaves open how it sorts, and which order it gives to elements of which none is before
  the other. Files have different numbers.
\<close>

fun insert_by :: "('a \<Rightarrow> 'a \<Rightarrow> bool) \<Rightarrow> 'a \<Rightarrow> 'a list \<Rightarrow> 'a list" where
  "insert_by before x [] = [x]"
| "insert_by before x (y # ys) = (if before x y then x # y # ys else y # insert_by before x ys)"

definition sort_by :: "('a \<Rightarrow> 'a \<Rightarrow> bool) \<Rightarrow> 'a list \<Rightarrow> 'a list" where
  "sort_by before xs = fold (insert_by before) xs []"

text \<open>The files of level zero that may hold the key, newest first, and the one of another level.\<close>

definition level0_files :: "(slice \<Rightarrow> slice \<Rightarrow> int) \<Rightarrow> metas \<Rightarrow> nat list \<Rightarrow> slice \<Rightarrow> nat list" where
  "level0_files ucmp h files user_key =
     sort_by (NewestFirst h) (filter (\<lambda>f. ucmp user_key (file_start h f) \<ge> 0 \<and> ucmp user_key (file_limit h f) \<le> 0) files)"

definition level_file :: "(slice \<Rightarrow> slice \<Rightarrow> int) \<Rightarrow> metas \<Rightarrow> nat list \<Rightarrow> slice \<Rightarrow> slice \<Rightarrow> nat list option" where
  "level_file ucmp h files user_key ikey = do {
     index \<leftarrow> FindFile ucmp h files ikey;
     Some (if unat index \<ge> length files then []
           else if ucmp user_key (file_start h (files ! unat index)) < 0 then []
           else [files ! unat index]) }"

definition files_to_search :: "(slice \<Rightarrow> slice \<Rightarrow> int) \<Rightarrow> metas \<Rightarrow> Version \<Rightarrow> slice \<Rightarrow> slice \<Rightarrow> nat \<Rightarrow> nat list option" where
  "files_to_search ucmp h v user_key ikey level =
     (let files = v_files v ! level in
      if files = [] then Some []
      else if level = 0 then Some (level0_files ucmp h files user_key)
      else level_file ucmp h files user_key ikey)"

text \<open>\<^verbatim>\<open>ForEachOverlapping\<close>: the Boolean is false when the function has returned false.\<close>

fun each_file :: "('a \<Rightarrow> nat \<Rightarrow> nat \<Rightarrow> bool \<times> 'a) \<Rightarrow> nat \<Rightarrow> nat list \<Rightarrow> 'a \<Rightarrow> bool \<times> 'a" where
  "each_file func level [] arg = (True, arg)"
| "each_file func level (f # fs) arg =
     (case func arg level f of (True, arg) \<Rightarrow> each_file func level fs arg | (False, arg) \<Rightarrow> (False, arg))"

fun each_level ::
    "(slice \<Rightarrow> slice \<Rightarrow> int) \<Rightarrow> metas \<Rightarrow> Version \<Rightarrow> slice \<Rightarrow> slice \<Rightarrow> ('a \<Rightarrow> nat \<Rightarrow> nat \<Rightarrow> bool \<times> 'a) \<Rightarrow> nat list \<Rightarrow> 'a \<Rightarrow> 'a option" where
  "each_level ucmp h v user_key ikey func [] arg = Some arg"
| "each_level ucmp h v user_key ikey func (level # levels) arg = do {
     files \<leftarrow> files_to_search ucmp h v user_key ikey level;
     case each_file func level files arg of
       (True, arg) \<Rightarrow> each_level ucmp h v user_key ikey func levels arg
     | (False, arg) \<Rightarrow> Some arg }"

definition ForEachOverlapping ::
    "(slice \<Rightarrow> slice \<Rightarrow> int) \<Rightarrow> metas \<Rightarrow> Version \<Rightarrow> slice \<Rightarrow> slice \<Rightarrow> 'a \<Rightarrow> ('a \<Rightarrow> nat \<Rightarrow> nat \<Rightarrow> bool \<times> 'a) \<Rightarrow> 'a option" where
  "ForEachOverlapping ucmp h v user_key ikey arg func = each_level ucmp h v user_key ikey func [0..<nat kNumLevels] arg"

section \<open>Lookup\<close>

record GetStats =
  seek_file :: "nat option"
  seek_file_level :: int

definition GetStats_new :: GetStats where
  "GetStats_new = \<lparr>seek_file = None, seek_file_level = - 1\<rparr>"

text \<open>The local variables of \<^verbatim>\<open>Get\<close>, the string of the caller and the state of the files and caches.\<close>

record 'w get_state =
  g_stats :: GetStats
  last_file_read :: "nat option"
  last_file_read_level :: int
  g_value :: "byte list"
  g_world :: 'w

text \<open>\<^verbatim>\<open>TableCache::Get\<close> with the callback \<^verbatim>\<open>SaveValue\<close>, on the number and the size of a file and an internal key.\<close>

type_synonym 'w table_reader = "uint64 \<Rightarrow> uint64 \<Rightarrow> slice \<Rightarrow> Saver \<Rightarrow> (Saver \<Rightarrow> slice \<Rightarrow> slice \<Rightarrow> Saver) \<Rightarrow> 'w \<Rightarrow> (status \<times> Saver \<times> 'w) option"

definition charge_seek :: "nat \<Rightarrow> nat \<Rightarrow> 'w get_state \<Rightarrow> 'w get_state" where
  "charge_seek level f g =
     (let g = (if last_file_read g \<noteq> None \<and> seek_file (g_stats g) = None
               then g\<lparr>g_stats := \<lparr>seek_file = last_file_read g, seek_file_level = last_file_read_level g\<rparr>\<rparr> else g)
      in g\<lparr>last_file_read := Some f, last_file_read_level := int level\<rparr>)"

fun get_files ::
    "'w table_reader \<Rightarrow> (slice \<Rightarrow> slice \<Rightarrow> int) \<Rightarrow> metas \<Rightarrow> slice \<Rightarrow> slice \<Rightarrow> nat \<Rightarrow> nat list \<Rightarrow> 'w get_state \<Rightarrow> (status option \<times> 'w get_state) option" where
  "get_files tget ucmp h user_key ikey level [] g = Some (None, g)"
| "get_files tget ucmp h user_key ikey level (f # fs) g = do {
     let g = charge_seek level f g;
     (s, saver, w) \<leftarrow> tget (fm_number (h f)) (fm_size (h f)) ikey (saver_new user_key (g_value g)) (SaveValue ucmp) (g_world g);
     let g = g\<lparr>g_value := sv_value saver, g_world := w\<rparr>;
     if \<not> ok s then Some (Some s, g)
     else case saver_result s saver of
            (True, s) \<Rightarrow> Some (Some s, g)
          | (False, s) \<Rightarrow> get_files tget ucmp h user_key ikey level fs g }"

fun get_levels ::
    "'w table_reader \<Rightarrow> (slice \<Rightarrow> slice \<Rightarrow> int) \<Rightarrow> metas \<Rightarrow> Version \<Rightarrow> slice \<Rightarrow> slice \<Rightarrow> nat list \<Rightarrow> 'w get_state \<Rightarrow> (status \<times> 'w get_state) option" where
  "get_levels tget ucmp h v user_key ikey [] g = Some (NotFound [] [], g)"
| "get_levels tget ucmp h v user_key ikey (level # levels) g = do {
     files \<leftarrow> files_to_search ucmp h v user_key ikey level;
     (r, g) \<leftarrow> get_files tget ucmp h user_key ikey level files g;
     case r of Some s \<Rightarrow> Some (s, g) | None \<Rightarrow> get_levels tget ucmp h v user_key ikey levels g }"

definition Version_Get ::
    "'w table_reader \<Rightarrow> (slice \<Rightarrow> slice \<Rightarrow> int) \<Rightarrow> metas \<Rightarrow> Version \<Rightarrow> LookupKey \<Rightarrow> byte list \<Rightarrow> 'w \<Rightarrow> (status \<times> byte list \<times> GetStats \<times> 'w) option" where
  "Version_Get tget ucmp h v k val w = do {
     (s, g) \<leftarrow> get_levels tget ucmp h v (lookup_user_key k) (internal_key k) [0..<nat kNumLevels]
       \<lparr>g_stats = GetStats_new, last_file_read = None, last_file_read_level = - 1, g_value = val, g_world = w\<rparr>;
     Some (s, g_value g, g_stats g, g_world g) }"

text \<open>The statistics of seeks change the file and the version.\<close>

definition UpdateStats :: "GetStats \<Rightarrow> metas \<times> Version \<Rightarrow> bool \<times> metas \<times> Version" where
  "UpdateStats stats hv =
     (case hv of (h, v) \<Rightarrow>
        case seek_file stats of
          None \<Rightarrow> (False, h, v)
        | Some f \<Rightarrow>
            let h = h(f := (h f)\<lparr>allowed_seeks := allowed_seeks (h f) - 1\<rparr>) in
            if allowed_seeks (h f) \<le> 0 \<and> file_to_compact v = None
            then (True, h, v\<lparr>file_to_compact := Some f, file_to_compact_level := seek_file_level stats\<rparr>)
            else (False, h, v))"

text \<open>The first matching file, and the number of matches.\<close>

definition match_file :: "GetStats \<times> nat \<Rightarrow> nat \<Rightarrow> nat \<Rightarrow> bool \<times> GetStats \<times> nat" where
  "match_file state level f =
     (case state of (stats, matches) \<Rightarrow>
        let matches = matches + 1;
            stats = (if matches = 1 then \<lparr>seek_file = Some f, seek_file_level = int level\<rparr> else stats)
        in (matches < 2, stats, matches))"

definition RecordReadSample :: "(slice \<Rightarrow> slice \<Rightarrow> int) \<Rightarrow> slice \<Rightarrow> metas \<times> Version \<Rightarrow> (bool \<times> metas \<times> Version) option" where
  "RecordReadSample ucmp ikey hv =
     (case ParseInternalKey ikey of
        (True, Some parsed) \<Rightarrow> do {
          (stats, matches) \<leftarrow> ForEachOverlapping ucmp (fst hv) (snd hv) (pk_user_key parsed) ikey (GetStats_new, 0) match_file;
          Some (if matches \<ge> 2 then UpdateStats stats hv else (False, hv)) }
      | _ \<Rightarrow> Some (False, hv))"

section \<open>Ranges\<close>

definition OverlapInLevel :: "(slice \<Rightarrow> slice \<Rightarrow> int) \<Rightarrow> metas \<Rightarrow> Version \<Rightarrow> nat \<Rightarrow> slice option \<Rightarrow> slice option \<Rightarrow> bool option" where
  "OverlapInLevel ucmp h v level small large = SomeFileOverlapsRange ucmp h (level > 0) (v_files v ! level) small large"

text \<open>A key of a file against an end of the range, which is none for a range without that end.\<close>

definition key_before :: "(slice \<Rightarrow> slice \<Rightarrow> int) \<Rightarrow> slice \<Rightarrow> slice option \<Rightarrow> bool" where
  "key_before ucmp k bound = (case bound of None \<Rightarrow> False | Some b \<Rightarrow> ucmp k b < 0)"

definition key_after :: "(slice \<Rightarrow> slice \<Rightarrow> int) \<Rightarrow> slice \<Rightarrow> slice option \<Rightarrow> bool" where
  "key_after ucmp k bound = (case bound of None \<Rightarrow> False | Some b \<Rightarrow> ucmp k b > 0)"

text \<open>
  The loop of \<^verbatim>\<open>GetOverlappingInputs\<close>, which starts again when a file of level zero has made the range larger. Its variables are
  the two ends of the range, the index and the files so far.
\<close>

definition overlap_step ::
    "(slice \<Rightarrow> slice \<Rightarrow> int) \<Rightarrow> metas \<Rightarrow> nat \<Rightarrow> nat \<Rightarrow> slice option \<times> slice option \<times> nat \<times> nat list \<Rightarrow> slice option \<times> slice option \<times> nat \<times> nat list" where
  "overlap_step ucmp h level f vars =
     (case vars of (user_begin, user_end, i, inputs) \<Rightarrow>
        if key_before ucmp (file_limit h f) user_begin then (user_begin, user_end, i + 1, inputs)
        else if key_after ucmp (file_start h f) user_end then (user_begin, user_end, i + 1, inputs)
        else if level = 0 \<and> key_before ucmp (file_start h f) user_begin then (Some (file_start h f), user_end, 0, [])
        else if level = 0 \<and> key_after ucmp (file_limit h f) user_end then (user_begin, Some (file_limit h f), 0, [])
        else (user_begin, user_end, i + 1, inputs @ [f]))"

partial_function (option) overlap_loop ::
    "(slice \<Rightarrow> slice \<Rightarrow> int) \<Rightarrow> metas \<Rightarrow> nat \<Rightarrow> nat list \<Rightarrow> slice option \<times> slice option \<times> nat \<times> nat list \<Rightarrow> nat list option" where
  "overlap_loop ucmp h level files vars =
     (case vars of (user_begin, user_end, i, inputs) \<Rightarrow>
        if i < length files then overlap_loop ucmp h level files (overlap_step ucmp h level (files ! i) vars) else Some inputs)"

definition GetOverlappingInputs ::
    "(slice \<Rightarrow> slice \<Rightarrow> int) \<Rightarrow> metas \<Rightarrow> Version \<Rightarrow> nat \<Rightarrow> slice option \<Rightarrow> slice option \<Rightarrow> nat list option" where
  "GetOverlappingInputs ucmp h v level begin_key end_key =
     overlap_loop ucmp h level (v_files v ! level) (map_option ExtractUserKey begin_key, map_option ExtractUserKey end_key, 0, [])"

partial_function (option) pick_level_loop ::
    "DBOptions \<Rightarrow> (slice \<Rightarrow> slice \<Rightarrow> int) \<Rightarrow> metas \<Rightarrow> Version \<Rightarrow> slice \<Rightarrow> slice \<Rightarrow> nat \<Rightarrow> nat option" where
  "pick_level_loop opt ucmp h v small large level =
     (if level < kMaxMemCompactLevel then do {
        o1 \<leftarrow> OverlapInLevel ucmp h v (level + 1) (Some small) (Some large);
        if o1 then Some level
        else if level + 2 < nat kNumLevels then do {
          overlaps \<leftarrow> GetOverlappingInputs ucmp h v (level + 2) (Some (AppendInternalKey [] small kMaxSequenceNumber kValueTypeForSeek))
            (Some (AppendInternalKey [] large 0 kTypeDeletion));
          if MaxGrandParentOverlapBytes opt <s TotalFileSize h overlaps then Some level
          else pick_level_loop opt ucmp h v small large (level + 1) }
        else pick_level_loop opt ucmp h v small large (level + 1) }
      else Some level)"

definition PickLevelForMemTableOutput ::
    "DBOptions \<Rightarrow> (slice \<Rightarrow> slice \<Rightarrow> int) \<Rightarrow> metas \<Rightarrow> Version \<Rightarrow> slice \<Rightarrow> slice \<Rightarrow> nat option" where
  "PickLevelForMemTableOutput opt ucmp h v small large = do {
     o0 \<leftarrow> OverlapInLevel ucmp h v 0 (Some small) (Some large);
     if o0 then Some 0 else pick_level_loop opt ucmp h v small large 0 }"

end
