(* ===== verification/Ldb_Version_Search.thy ===== *)
theory Ldb_Version_Search
  imports Ldb_Version
begin

text \<open>
  The searches in a version: the binary search finds the first file that can hold a key, in levels of disjoint files the search finds an
  overlap whenever there is one, the files that overlap a range are collected completely, and the level for a new table is free of overlaps.
\<close>

section \<open>Files in order\<close>

definition key_ok :: "(slice \<Rightarrow> bool) \<Rightarrow> slice \<Rightarrow> bool" where
  "key_ok valid k \<longleftrightarrow> (\<exists>u q t. k = AppendInternalKey [] u q t \<and> valid u \<and> q \<le> kMaxSequenceNumber)"

definition file_ok :: "(slice \<Rightarrow> bool) \<Rightarrow> (slice \<Rightarrow> slice \<Rightarrow> int) \<Rightarrow> metas \<Rightarrow> nat \<Rightarrow> bool" where
  "file_ok valid ucmp h f \<longleftrightarrow> key_ok valid (smallest (h f)) \<and> key_ok valid (largest (h f)) \<and>
     InternalKey_Compare ucmp (smallest (h f)) (largest (h f)) \<le> 0"

text \<open>The files of a level above zero: each is before the next. The indices of the code have 32 bits.\<close>

definition files_disjoint :: "(slice \<Rightarrow> slice \<Rightarrow> int) \<Rightarrow> metas \<Rightarrow> nat list \<Rightarrow> bool" where
  "files_disjoint ucmp h files \<longleftrightarrow> sorted_wrt (\<lambda>a b. InternalKey_Compare ucmp (largest (h a)) (smallest (h b)) < 0) files"

definition version_ok :: "(slice \<Rightarrow> bool) \<Rightarrow> (slice \<Rightarrow> slice \<Rightarrow> int) \<Rightarrow> metas \<Rightarrow> Version \<Rightarrow> bool" where
  "version_ok valid ucmp h v \<longleftrightarrow> length (v_files v) = nat kNumLevels \<and>
     (\<forall>files \<in> set (v_files v). length files < 2 ^ 31 \<and> (\<forall>f \<in> set files. file_ok valid ucmp h f)) \<and>
     (\<forall>files \<in> set (tl (v_files v)). files_disjoint ucmp h files)"

text \<open>A file overlaps a range of user keys, given by its ends.\<close>

definition overlaps :: "(slice \<Rightarrow> slice \<Rightarrow> int) \<Rightarrow> metas \<Rightarrow> slice option \<Rightarrow> slice option \<Rightarrow> nat \<Rightarrow> bool" where
  "overlaps ucmp h b e f \<longleftrightarrow> \<not> key_before ucmp (file_limit h f) b \<and> \<not> key_after ucmp (file_start h f) e"

lemma version_ok_level:
  assumes "version_ok valid ucmp h v" "level < nat kNumLevels"
  shows "length (v_files v ! level) < 2 ^ 31" "\<forall>f \<in> set (v_files v ! level). file_ok valid ucmp h f"
    "0 < level \<Longrightarrow> files_disjoint ucmp h (v_files v ! level)"
proof -
  have m: "v_files v ! level \<in> set (v_files v)" using assms by (simp add: version_ok_def)
  then show "length (v_files v ! level) < 2 ^ 31" "\<forall>f \<in> set (v_files v ! level). file_ok valid ucmp h f"
    using assms(1) by (auto simp: version_ok_def)
  show "files_disjoint ucmp h (v_files v ! level)" if "0 < level"
  proof -
    have "v_files v ! level = tl (v_files v) ! (level - 1)" "level - 1 < length (tl (v_files v))"
      using assms that by (auto simp: version_ok_def nth_tl)
    then show ?thesis using assms(1) nth_mem by (metis version_ok_def)
  qed
qed

section \<open>Binary search\<close>

lemma half_uint32:
  fixes l r :: uint32
  assumes "unat l < unat r" "unat r < 2 ^ 31"
  shows "unat ((l + r) div 2) = (unat l + unat r) div 2"
proof -
  have "unat (l + r) = unat l + unat r" using assms by (simp add: unat_word_ariths)
  then show ?thesis by (simp add: unat_div)
qed

lemma find_file_loop_bounds:
  assumes down: "\<And>i j. i < j \<Longrightarrow> j < length files \<Longrightarrow> P j \<Longrightarrow> P i"
    and P: "\<And>i. P i \<longleftrightarrow> InternalKey_Compare ucmp (largest (h (files ! i))) key < 0"
    and n: "length files < 2 ^ 31"
    and lr: "unat left \<le> unat right" "unat right \<le> length files" "\<forall>i < unat left. P i" "unat right < length files \<longrightarrow> \<not> P (unat right)"
  shows "\<exists>i. find_file_loop ucmp h files key left right = Some i \<and> unat i \<le> length files \<and> (\<forall>j < unat i. P j) \<and>
    (unat i < length files \<longrightarrow> \<not> P (unat i))"
  using lr
proof (induction "unat right - unat left" arbitrary: left right rule: less_induct)
  case less
  show ?case
  proof (cases "left < right")
    case False
    then have "unat left = unat right" using less.prems(1) by (simp add: word_less_nat_alt)
    then show ?thesis using less.prems False by (subst find_file_loop.simps) auto
  next
    case True
    then have lt: "unat left < unat right" by (simp add: word_less_nat_alt)
    let ?mid = "(left + right) div 2"
    have m: "unat ?mid = (unat left + unat right) div 2" using half_uint32 lt less.prems(2) n by simp
    have b: "unat left \<le> unat ?mid" "unat ?mid < unat right" using m lt by auto
    show ?thesis
    proof (cases "P (unat ?mid)")
      case p: True
      have s: "unat (?mid + 1) = unat ?mid + 1" using b(2) less.prems(2) n by (simp add: unat_word_ariths)
      have all: "\<forall>i < unat (?mid + 1). P i"
      proof (intro allI impI)
        fix i assume "i < unat (?mid + 1)"
        then show "P i" using p down [of i "unat ?mid"] b less.prems(2) s by (cases "i = unat ?mid") simp_all
      qed
      have ih: "\<exists>i. find_file_loop ucmp h files key (?mid + 1) right = Some i \<and> unat i \<le> length files \<and> (\<forall>j < unat i. P j) \<and>
          (unat i < length files \<longrightarrow> \<not> P (unat i))"
        using b s by (intro less.hyps less.prems(2,4) all) linarith+
      have "find_file_loop ucmp h files key left right = find_file_loop ucmp h files key (?mid + 1) right"
        using p [unfolded P] True by (subst find_file_loop.simps) (simp only: Let_def if_True)
      then show ?thesis using ih by simp
    next
      case p: False
      then have ih: "\<exists>i. find_file_loop ucmp h files key left ?mid = Some i \<and> unat i \<le> length files \<and> (\<forall>j < unat i. P j) \<and>
          (unat i < length files \<longrightarrow> \<not> P (unat i))"
        using b less.prems(2,3) p by (intro less.hyps impI) simp_all
      have "find_file_loop ucmp h files key left right = find_file_loop ucmp h files key left ?mid"
        using p [unfolded P] True by (subst find_file_loop.simps) (simp only: Let_def if_True if_False)
      then show ?thesis using ih by simp
    qed
  qed
qed

text \<open>The files of a level as the entries of \<^verbatim>\<open>LevelFileNumIterator\<close>.\<close>

definition level_entries :: "metas \<Rightarrow> nat list \<Rightarrow> kv list" where
  "level_entries h files = map (\<lambda>f. (largest (h f), EncodeFixed64 (fm_number (h f)) @ EncodeFixed64 (fm_size (h f)))) files"

lemma first_ge_level: "first_ge cmp key (level_entries h files) = length (takeWhile (\<lambda>f. cmp (largest (h f)) key < 0) files)"
  by (simp add: first_ge_def level_entries_def takeWhile_map comp_def)

context user_order
begin

lemma internal_order: "key_order (internal_valid valid) (InternalKey_Compare compare)"
  by (rule internal_key_order_laws [OF key_order_axioms])

lemma key_ok_valid: "key_ok valid k \<Longrightarrow> internal_valid valid k"
  by (auto simp: key_ok_def internal_valid_def AppendInternalKey_def PutFixed64_def)

lemma file_valid:
  assumes "file_ok valid compare h f"
  shows "internal_valid valid (smallest (h f))" "internal_valid valid (largest (h f))" "valid (file_start h f)" "valid (file_limit h f)"
    "compare (file_start h f) (file_limit h f) \<le> 0"
  using assms key_ok_valid by (auto simp: file_ok_def internal_valid_def file_start_def file_limit_def internal_le)

lemma level_entries_sorted:
  assumes "\<forall>f \<in> set files. file_ok valid compare h f" "files_disjoint compare h files"
  shows "sorted_wrt (\<lambda>a b. InternalKey_Compare compare (fst a) (fst b) < 0) (level_entries h files)"
    "\<forall>kv \<in> set (level_entries h files). internal_valid valid (fst kv)"
proof -
  have "sorted_wrt (\<lambda>a b. InternalKey_Compare compare (largest (h a)) (largest (h b)) < 0) files"
  proof (rule sorted_wrt_mono_rel [OF _ assms(2) [unfolded files_disjoint_def]])
    fix a b assume "a \<in> set files" "b \<in> set files" and l: "InternalKey_Compare compare (largest (h a)) (smallest (h b)) < 0"
    then have "file_ok valid compare h a" "file_ok valid compare h b" using assms(1) by auto
    then show "InternalKey_Compare compare (largest (h a)) (largest (h b)) < 0"
      using key_order.less_trans [OF internal_order _ _ _ l] file_valid by (auto simp: file_ok_def)
  qed
  then show "sorted_wrt (\<lambda>a b. InternalKey_Compare compare (fst a) (fst b) < 0) (level_entries h files)"
    by (simp add: level_entries_def sorted_wrt_map)
  show "\<forall>kv \<in> set (level_entries h files). internal_valid valid (fst kv)" using assms(1) file_valid by (auto simp: level_entries_def)
qed

lemma FindFile_index:
  assumes "\<forall>f \<in> set files. file_ok valid compare h f" "files_disjoint compare h files" "length files < 2 ^ 31" "internal_valid valid key"
  shows "\<exists>i. FindFile compare h files key = Some i \<and> unat i = first_ge (InternalKey_Compare compare) key (level_entries h files)"
proof -
  let ?P = "\<lambda>i. InternalKey_Compare compare (largest (h (files ! i))) key < 0"
  note s = level_entries_sorted [OF assms(1,2)]
  have down: "?P i" if ij: "i < j" "j < length files" and p: "?P j" for i j
  proof -
    have "InternalKey_Compare compare (largest (h (files ! i))) (largest (h (files ! j))) < 0"
      using s(1) ij by (auto simp: level_entries_def sorted_wrt_iff_nth_less)
    moreover have "internal_valid valid (largest (h (files ! i)))" "internal_valid valid (largest (h (files ! j)))"
      using assms(1) ij file_valid(2) by (metis nth_mem order_less_trans)+
    ultimately show ?thesis using key_order.less_trans [OF internal_order _ _ assms(4)] p by (meson order_less_imp_le)
  qed
  have n: "unat (of_nat (length files) :: uint32) = length files" using assms(3) by (simp add: unat_of_nat take_bit_nat_eq_self)
  have "\<exists>i. FindFile compare h files key = Some i \<and> unat i \<le> length files \<and> (\<forall>j < unat i. ?P j) \<and> (unat i < length files \<longrightarrow> \<not> ?P (unat i))"
    unfolding FindFile_def by (rule find_file_loop_bounds [where P = ?P, OF down]) (use assms(3) n in simp_all)
  then obtain i where i: "FindFile compare h files key = Some i" "unat i \<le> length files" "\<forall>j < unat i. ?P j" "unat i < length files \<longrightarrow> \<not> ?P (unat i)"
    by (elim exE conjE) (rule that)
  have "first_ge (InternalKey_Compare compare) key (level_entries h files) = unat i"
    by (rule first_ge_eqI) (use i in \<open>auto simp: level_entries_def\<close>)
  then show ?thesis using i(1) by auto
qed

lemma level_file_iterator:
  "entry_iterator (internal_valid valid) (InternalKey_Compare compare)
    (\<lambda>(h, files) kvs. (\<forall>f \<in> set files. file_ok valid compare h f) \<and> files_disjoint compare h files \<and> length files < 2 ^ 31 \<and>
      kvs = level_entries h files)
    (\<lambda>(h, files) it i. unat it = i \<and> i \<le> length files) (\<lambda>(h, files). LevelFile_Valid files)
    (\<lambda>(h, files) it. (LevelFile_key h files it, LevelFile_value h files it)) (\<lambda>(h, files). LevelFile_Seek compare h files)
    (\<lambda>(h, files) it. Some (LevelFile_SeekToFirst files it)) (\<lambda>(h, files) it. Some (LevelFile_SeekToLast files it))
    (\<lambda>(h, files) it. Some (LevelFile_Next files it)) (\<lambda>(h, files) it. Some (LevelFile_Prev files it))"
  (is "entry_iterator _ _ ?rep ?pos _ _ _ _ _ _ _")
proof (intro entry_iterator.intro internal_order entry_iterator_axioms.intro)
  fix s kvs it i t
  assume "?rep s kvs"
  then obtain h files where s: "s = (h, files)" and f: "\<forall>f \<in> set files. file_ok valid compare h f" "files_disjoint compare h files"
    "length files < 2 ^ 31" and kvs: "kvs = level_entries h files" by (cases s) simp
  show "sorted_wrt (\<lambda>a b. InternalKey_Compare compare (fst a) (fst b) < 0) kvs \<and> (\<forall>kv \<in> set kvs. internal_valid valid (fst kv))"
    using level_entries_sorted [OF f(1,2)] kvs by simp
  assume "?pos s it i"
  then have it: "unat it = i" "i \<le> length files" by (simp_all add: s)
  have len: "length kvs = length files" by (simp add: kvs level_entries_def)
  have n: "unat (of_nat k :: uint32) = k" if "k \<le> length files" for k using that f(3) by (simp add: unat_of_nat take_bit_nat_eq_self)
  show "i \<le> length kvs \<and> ((case s of (h, files) \<Rightarrow> LevelFile_Valid files) it \<longleftrightarrow> i < length kvs) \<and>
      (i < length kvs \<longrightarrow> (case s of (h, files) \<Rightarrow> \<lambda>it. (LevelFile_key h files it, LevelFile_value h files it)) it = kvs ! i)"
    using it len by (simp add: s kvs LevelFile_Valid_def LevelFile_key_def LevelFile_value_def level_entries_def)
  show "\<exists>it'. (case s of (h, files) \<Rightarrow> LevelFile_Seek compare h files) t it = Some it' \<and>
      ?pos s it' (first_ge (InternalKey_Compare compare) t kvs)" if "internal_valid valid t"
    using FindFile_index [OF f that] length_takeWhile_le by (auto simp: s kvs LevelFile_Seek_def first_ge_level)
  show "\<exists>it'. (case s of (h, files) \<Rightarrow> \<lambda>it. Some (LevelFile_SeekToFirst files it)) it = Some it' \<and> ?pos s it' 0"
    by (simp add: s LevelFile_SeekToFirst_def)
  show "\<exists>it'. (case s of (h, files) \<Rightarrow> \<lambda>it. Some (LevelFile_SeekToLast files it)) it = Some it' \<and> ?pos s it' (length kvs - 1)"
    unfolding len by (simp add: s LevelFile_SeekToLast_def n del: of_nat_diff)
  assume i: "i < length kvs"
  show "\<exists>it'. (case s of (h, files) \<Rightarrow> \<lambda>it. Some (LevelFile_Next files it)) it = Some it' \<and> ?pos s it' (Suc i)"
    using it i f(3) by (simp add: s len LevelFile_Next_def unat_word_ariths)
  show "\<exists>it'. (case s of (h, files) \<Rightarrow> \<lambda>it. Some (LevelFile_Prev files it)) it = Some it' \<and> ?pos s it' (if i = 0 then length kvs else i - 1)"
    using it i n [of "length files"] unat_minus_one [of it] by (cases "it = 0") (auto simp: s len LevelFile_Prev_def unat_eq_zero)
qed

section \<open>Overlaps\<close>

lemma AfterFile_key: "valid k \<Longrightarrow> file_ok valid compare h f \<Longrightarrow> AfterFile compare h (Some k) f \<longleftrightarrow> key_before compare (file_limit h f) (Some k)"
  using flip [of "file_limit h f" k] file_valid(4) by (simp add: AfterFile_def key_before_def)

lemma BeforeFile_key: "valid k \<Longrightarrow> file_ok valid compare h f \<Longrightarrow> BeforeFile compare h (Some k) f \<longleftrightarrow> key_after compare (file_start h f) (Some k)"
  using flip [of k "file_start h f"] file_valid(3) by (simp add: BeforeFile_def key_after_def)

lemma range_test:
  assumes "\<forall>k \<in> set_option b \<union> set_option e. valid k" "file_ok valid compare h f"
  shows "AfterFile compare h b f \<or> BeforeFile compare h e f \<longleftrightarrow> \<not> overlaps compare h b e f"
proof -
  have "AfterFile compare h b f \<longleftrightarrow> key_before compare (file_limit h f) b"
    using assms AfterFile_key by (cases b) (simp_all add: AfterFile_def key_before_def)
  moreover have "BeforeFile compare h e f \<longleftrightarrow> key_after compare (file_start h f) e"
    using assms BeforeFile_key by (cases e) (simp_all add: BeforeFile_def key_after_def)
  ultimately show ?thesis by (simp add: overlaps_def)
qed

lemma some_file_overlaps_iff:
  assumes "\<forall>k \<in> set_option b \<union> set_option e. valid k" "\<forall>f \<in> set files. file_ok valid compare h f"
  shows "some_file_overlaps compare h files b e \<longleftrightarrow> (\<exists>f \<in> set files. overlaps compare h b e f)"
  using assms(2) by (induction files) (auto simp: range_test [OF assms(1)])

text \<open>The first internal key of a user key is not behind any key of a file.\<close>

lemma seek_key_less:
  assumes "key_ok valid k" "valid u"
  shows "InternalKey_Compare compare k (AppendInternalKey [] u kMaxSequenceNumber kValueTypeForSeek) < 0 \<longleftrightarrow> compare (ExtractUserKey k) u < 0"
proof -
  obtain v q t where k: "k = AppendInternalKey [] v q t" "q \<le> kMaxSequenceNumber" using assms(1) by (auto simp: key_ok_def)
  have "PackSequenceAndType q t \<le> PackSequenceAndType kMaxSequenceNumber kTypeValue"
    using pack_le(1) [OF k(2), of kMaxSequenceNumber] k(2) by simp
  then show ?thesis using k by (auto simp: internal_less AppendInternalKey_def PutFixed64_def kValueTypeForSeek_def)
qed

lemma key_after_mono:
  assumes "\<forall>k \<in> set_option e. valid k" "valid a" "valid b" "compare a b \<le> 0" "key_after compare a e"
  shows "key_after compare b e"
proof -
  obtain k where k: "e = Some k" "compare a k > 0" "valid k" using assms(1,5) by (cases e) (auto simp: key_after_def)
  have "compare k a < 0" using flip [OF k(3) assms(2)] k(2) by simp
  then have "compare k b < 0" by (rule less_trans [OF k(3) assms(2,3) _ assms(4)])
  then show ?thesis using flip [OF k(3) assms(3)] k(1) by (simp add: key_after_def)
qed

lemma disjoint_user:
  assumes "\<forall>f \<in> set files. file_ok valid compare h f" "files_disjoint compare h files" "i < j" "j < length files"
  shows "compare (file_start h (files ! i)) (file_start h (files ! j)) \<le> 0" "compare (file_limit h (files ! i)) (file_start h (files ! j)) \<le> 0"
proof -
  have m: "files ! i \<in> set files" "files ! j \<in> set files" using assms(3,4) by auto
  then have f: "file_ok valid compare h (files ! i)" "file_ok valid compare h (files ! j)" using assms(1) by auto
  have "InternalKey_Compare compare (largest (h (files ! i))) (smallest (h (files ! j))) < 0"
    using assms(2-4) by (simp add: files_disjoint_def sorted_wrt_iff_nth_less)
  then show l: "compare (file_limit h (files ! i)) (file_start h (files ! j)) \<le> 0"
    by (auto simp: internal_less file_limit_def file_start_def)
  show "compare (file_start h (files ! i)) (file_start h (files ! j)) \<le> 0"
    by (rule trans [OF file_valid(3) [OF f(1)] file_valid(4) [OF f(1)] file_valid(3) [OF f(2)] file_valid(5) [OF f(1)] l])
qed

lemma first_overlap:
  assumes "\<forall>k \<in> set_option e. valid k" "\<forall>f \<in> set files. file_ok valid compare h f" "files_disjoint compare h files"
    and i: "i < length files" "\<forall>j < i. \<not> overlaps compare h b e (files ! j)" "\<not> key_before compare (file_limit h (files ! i)) b"
  shows "(\<exists>f \<in> set files. overlaps compare h b e f) \<longleftrightarrow> \<not> key_after compare (file_start h (files ! i)) e"
proof
  assume "\<exists>f \<in> set files. overlaps compare h b e f"
  then obtain j where j: "j < length files" "overlaps compare h b e (files ! j)" by (auto simp: in_set_conv_nth)
  then have "i \<le> j" using i(2) by (meson not_le)
  have v: "valid (file_start h (files ! k))" if "k < length files" for k using assms(2) file_valid(3) that by (meson nth_mem)
  have "key_after compare (file_start h (files ! j)) e" if "key_after compare (file_start h (files ! i)) e"
  proof (cases "i = j")
    case False
    then have "i < j" using \<open>i \<le> j\<close> by simp
    show ?thesis by (rule key_after_mono [OF assms(1) v [OF i(1)] v [OF j(1)] disjoint_user(1) [OF assms(2,3) \<open>i < j\<close> j(1)] that])
  qed (use that in simp)
  then show "\<not> key_after compare (file_start h (files ! i)) e" using j(2) by (auto simp: overlaps_def)
next
  assume "\<not> key_after compare (file_start h (files ! i)) e"
  then have "overlaps compare h b e (files ! i)" using i(3) by (simp add: overlaps_def)
  then show "\<exists>f \<in> set files. overlaps compare h b e f" using i(1) by auto
qed

lemma SomeFileOverlapsRange_iff:
  assumes k: "\<forall>k \<in> set_option b \<union> set_option e. valid k" and f: "\<forall>f \<in> set files. file_ok valid compare h f"
    and d: "dis \<Longrightarrow> files_disjoint compare h files" "dis \<Longrightarrow> length files < 2 ^ 31"
  shows "SomeFileOverlapsRange compare h dis files b e = Some (\<exists>f \<in> set files. overlaps compare h b e f)"
proof (cases dis)
  case False
  then show ?thesis using some_file_overlaps_iff [OF k f] by (simp add: SomeFileOverlapsRange_def)
next
  case True
  let ?P = "\<lambda>f. key_before compare (file_limit h f) b"
  let ?i = "length (takeWhile ?P files)"
  have "\<exists>w. (case b of None \<Rightarrow> Some 0 | Some k \<Rightarrow> FindFile compare h files (AppendInternalKey [] k kMaxSequenceNumber kValueTypeForSeek)) = Some w \<and> unat w = ?i"
  proof (cases b)
    case None
    then show ?thesis by (cases files) (simp_all add: key_before_def)
  next
    case (Some u)
    let ?k = "AppendInternalKey [] u kMaxSequenceNumber kValueTypeForSeek"
    have u: "valid u" using k Some by simp
    then have "internal_valid valid ?k" by (simp add: internal_valid_def AppendInternalKey_def PutFixed64_def)
    moreover have "takeWhile (\<lambda>f. InternalKey_Compare compare (largest (h f)) ?k < 0) files = takeWhile ?P files"
      using f seek_key_less [OF _ u] by (intro takeWhile_cong) (auto simp: file_ok_def key_before_def Some file_limit_def)
    ultimately show ?thesis using FindFile_index [OF f d(1) [OF True] d(2) [OF True], of ?k] by (simp add: Some first_ge_level)
  qed
  then obtain w where w: "SomeFileOverlapsRange compare h dis files b e =
      Some (if ?i \<ge> length files then False else \<not> BeforeFile compare h e (files ! ?i))" using True
    by (auto simp: SomeFileOverlapsRange_def)
  have before: "\<not> overlaps compare h b e (files ! j)" if "j < ?i" for j
  proof -
    have "takeWhile ?P files ! j \<in> set (takeWhile ?P files)" using that by (rule nth_mem)
    then show ?thesis using that by (auto simp: takeWhile_nth overlaps_def dest: set_takeWhileD)
  qed
  show ?thesis
  proof (cases "?i < length files")
    case False
    have "\<not> overlaps compare h b e f" if m: "f \<in> set files" for f
    proof -
      obtain j where j: "j < length files" "f = files ! j" using m by (auto simp: in_set_conv_nth)
      then show ?thesis using before [of j] False by simp
    qed
    then show ?thesis using w False by auto
  next
    case i: True
    then have fi: "file_ok valid compare h (files ! ?i)" using f by simp
    have "BeforeFile compare h e (files ! ?i) \<longleftrightarrow> key_after compare (file_start h (files ! ?i)) e"
      using k fi BeforeFile_key by (cases e) (simp_all add: BeforeFile_def key_after_def)
    moreover have "\<not> ?P (files ! ?i)" using i by (rule nth_length_takeWhile)
    moreover have "(\<exists>f \<in> set files. overlaps compare h b e f) \<longleftrightarrow> \<not> key_after compare (file_start h (files ! ?i)) e"
      by (rule first_overlap) (use k f d(1) [OF True] i before calculation(2) in auto)
    ultimately show ?thesis using w i by simp
  qed
qed

end

section \<open>Overlapping files\<close>

text \<open>
  The files of level zero that are linked with a range: those that overlap it, and those that overlap the range of a file that is linked.
\<close>

inductive linked :: "(slice \<Rightarrow> slice \<Rightarrow> int) \<Rightarrow> metas \<Rightarrow> nat list \<Rightarrow> slice option \<Rightarrow> slice option \<Rightarrow> nat \<Rightarrow> bool"
  for ucmp h files b e where
  in_range: "f \<in> set files \<Longrightarrow> overlaps ucmp h b e f \<Longrightarrow> linked ucmp h files b e f"
| next_to: "linked ucmp h files b e g \<Longrightarrow> f \<in> set files \<Longrightarrow> overlaps ucmp h (Some (file_start h g)) (Some (file_limit h g)) f \<Longrightarrow>
    linked ucmp h files b e f"

inductive_cases linked_cases: "linked ucmp h files b e f"

text \<open>A file within a range.\<close>

definition within :: "(slice \<Rightarrow> slice \<Rightarrow> int) \<Rightarrow> metas \<Rightarrow> slice option \<Rightarrow> slice option \<Rightarrow> nat \<Rightarrow> bool" where
  "within ucmp h b e f \<longleftrightarrow> \<not> key_before ucmp (file_start h f) b \<and> \<not> key_after ucmp (file_limit h f) e"

text \<open>The files that are outside at one of the ends become fewer when the range grows.\<close>

definition outside :: "(slice \<Rightarrow> slice \<Rightarrow> int) \<Rightarrow> metas \<Rightarrow> nat list \<Rightarrow> slice option \<Rightarrow> slice option \<Rightarrow> nat" where
  "outside ucmp h files b e = length (filter (\<lambda>f. key_before ucmp (file_start h f) b) files) +
     length (filter (\<lambda>f. key_after ucmp (file_limit h f) e) files)"

definition linked_range :: "(slice \<Rightarrow> slice \<Rightarrow> int) \<Rightarrow> metas \<Rightarrow> nat list \<Rightarrow> slice option \<Rightarrow> slice option \<Rightarrow> slice option \<Rightarrow> slice option \<Rightarrow> bool" where
  "linked_range ucmp h files b e b' e' \<longleftrightarrow> (\<forall>f \<in> set files. overlaps ucmp h b' e' f \<longrightarrow> linked ucmp h files b e f) \<and>
     (\<forall>f \<in> set files. overlaps ucmp h b e f \<longrightarrow> overlaps ucmp h b' e' f)"

lemma filter_fewer:
  assumes "\<And>x. x \<in> set xs \<Longrightarrow> P x \<Longrightarrow> Q x" "x \<in> set xs" "Q x" "\<not> P x"
  shows "length (filter P xs) < length (filter Q xs)"
proof -
  have "filter P xs = filter P (filter Q xs)" using assms(1) by (auto intro: filter_cong)
  moreover have "x \<in> set (filter Q xs)" using assms(2,3) by simp
  ultimately show ?thesis using length_filter_less [of x "filter Q xs" P] assms(4) by simp
qed

context user_order
begin

lemma key_before_mono:
  assumes "\<forall>k \<in> set_option b. valid k" "valid x" "valid y" "compare x y \<le> 0" "key_before compare y b"
  shows "key_before compare x b"
  using assms less_trans2 [of x y] by (cases b) (auto simp: key_before_def)

text \<open>A range that grows to the start or to the limit of a file that overlaps it.\<close>

lemma grow_begin:
  assumes f: "file_ok valid compare h f" "file_ok valid compare h g" and b: "valid b" and o: "overlaps compare h (Some b) e f"
    "key_before compare (file_start h f) (Some b)"
  shows "overlaps compare h (Some b) e g \<Longrightarrow> overlaps compare h (Some (file_start h f)) e g"
    "overlaps compare h (Some (file_start h f)) e g \<Longrightarrow>
       overlaps compare h (Some b) e g \<or> overlaps compare h (Some (file_start h f)) (Some (file_limit h f)) g"
proof -
  note v = file_valid [OF f(1)] file_valid [OF f(2)]
  have s: "compare (file_start h f) b < 0" using o(2) by (simp add: key_before_def)
  show "overlaps compare h (Some b) e g \<Longrightarrow> overlaps compare h (Some (file_start h f)) e g"
    using less_trans [OF v(9) v(3) b _ order_less_imp_le [OF s]] by (auto simp: overlaps_def key_before_def)
  assume g: "overlaps compare h (Some (file_start h f)) e g"
  have "key_before compare (file_limit h g) (Some b) \<Longrightarrow> \<not> key_after compare (file_start h g) (Some (file_limit h f))"
  proof
    assume a: "key_before compare (file_limit h g) (Some b)" "key_after compare (file_start h g) (Some (file_limit h f))"
    have "\<not> compare (file_limit h f) b < 0" using o(1) by (simp add: overlaps_def key_before_def)
    moreover have "compare (file_start h g) b < 0" using less_trans2 [OF v(8,9) b v(10)] a(1) by (simp add: key_before_def)
    moreover have "compare (file_limit h f) (file_start h g) < 0" using a(2) flip [OF v(4,8)] by (simp add: key_after_def)
    ultimately show False using less_trans [OF v(4,8) b] by simp
  qed
  then show "overlaps compare h (Some b) e g \<or> overlaps compare h (Some (file_start h f)) (Some (file_limit h f)) g"
    using g by (auto simp: overlaps_def)
qed

lemma grow_end:
  assumes f: "file_ok valid compare h f" "file_ok valid compare h g" and e: "valid e" and o: "overlaps compare h b (Some e) f"
    "key_after compare (file_limit h f) (Some e)"
  shows "overlaps compare h b (Some e) g \<Longrightarrow> overlaps compare h b (Some (file_limit h f)) g"
    "overlaps compare h b (Some (file_limit h f)) g \<Longrightarrow>
       overlaps compare h b (Some e) g \<or> overlaps compare h (Some (file_start h f)) (Some (file_limit h f)) g"
proof -
  note v = file_valid [OF f(1)] file_valid [OF f(2)]
  have s: "compare e (file_limit h f) < 0" using o(2) flip [OF e v(4)] by (simp add: key_after_def)
  show "overlaps compare h b (Some e) g \<Longrightarrow> overlaps compare h b (Some (file_limit h f)) g"
    using less_trans [OF e v(4) v(8) s] flip [OF e v(8)] flip [OF v(4) v(8)] by (auto simp: overlaps_def key_after_def)
  assume g: "overlaps compare h b (Some (file_limit h f)) g"
  have "key_after compare (file_start h g) (Some e) \<Longrightarrow> \<not> key_before compare (file_limit h g) (Some (file_start h f))"
  proof
    assume a: "key_after compare (file_start h g) (Some e)" "key_before compare (file_limit h g) (Some (file_start h f))"
    have "\<not> 0 < compare (file_start h f) e" using o(1) by (simp add: overlaps_def key_after_def)
    moreover have "compare (file_start h g) (file_start h f) < 0" using less_trans2 [OF v(8,9,3) v(10)] a(2) by (simp add: key_before_def)
    ultimately have "compare (file_start h g) e < 0" using less_trans [OF v(8,3) e] by simp
    then show False using a(1) by (simp add: key_after_def)
  qed
  then show "overlaps compare h b (Some e) g \<or> overlaps compare h (Some (file_start h f)) (Some (file_limit h f)) g"
    using g by (auto simp: overlaps_def)
qed

lemma outside_begin:
  assumes "\<forall>f \<in> set files. file_ok valid compare h f" "f \<in> set files" "valid b" "key_before compare (file_start h f) (Some b)"
  shows "outside compare h files (Some (file_start h f)) e < outside compare h files (Some b) e"
proof -
  have s: "compare (file_start h f) b < 0" using assms(4) by (simp add: key_before_def)
  have v: "valid (file_start h g)" if "g \<in> set files" for g using that assms(1) file_valid(3) by blast
  have "length (filter (\<lambda>g. key_before compare (file_start h g) (Some (file_start h f))) files) <
      length (filter (\<lambda>g. key_before compare (file_start h g) (Some b)) files)"
    using less_trans [OF v v assms(3) _ order_less_imp_le [OF s]] assms(2) refl [OF v] s
    by (intro filter_fewer [of _ _ _ f]) (auto simp: key_before_def)
  then show ?thesis by (simp add: outside_def)
qed

lemma outside_end:
  assumes "\<forall>f \<in> set files. file_ok valid compare h f" "f \<in> set files" "valid e" "key_after compare (file_limit h f) (Some e)"
  shows "outside compare h files b (Some (file_limit h f)) < outside compare h files b (Some e)"
proof -
  have v: "valid (file_limit h g)" if "g \<in> set files" for g using that assms(1) file_valid(4) by blast
  have s: "compare e (file_limit h f) < 0" using assms(4) flip [OF assms(3) v [OF assms(2)]] by (simp add: key_after_def)
  have "0 < compare (file_limit h g) e" if "g \<in> set files" "0 < compare (file_limit h g) (file_limit h f)" for g
    using less_trans [OF assms(3) v [OF assms(2)] v [OF that(1)] s] flip [OF v [OF assms(2)] v [OF that(1)]] flip [OF assms(3) v [OF that(1)]] that(2) by simp
  then have "length (filter (\<lambda>g. key_after compare (file_limit h g) (Some (file_limit h f))) files) <
      length (filter (\<lambda>g. key_after compare (file_limit h g) (Some e)) files)"
    using assms(2,4) refl [OF v [OF assms(2)]] by (intro filter_fewer [of _ _ _ f]) (auto simp: key_after_def)
  then show ?thesis by (simp add: outside_def)
qed

lemma linked_range_begin:
  assumes "\<forall>f \<in> set files. file_ok valid compare h f" "f \<in> set files" "valid x" "overlaps compare h (Some x) e' f"
    "key_before compare (file_start h f) (Some x)" "linked_range compare h files b e (Some x) e'"
  shows "linked_range compare h files b e (Some (file_start h f)) e'"
proof -
  have f: "file_ok valid compare h f" "linked compare h files b e f" using assms(1,2,4,6) by (auto simp: linked_range_def)
  have "linked compare h files b e g" if g: "g \<in> set files" "overlaps compare h (Some (file_start h f)) e' g" for g
  proof -
    have "file_ok valid compare h g" using g(1) assms(1) by blast
    then consider "overlaps compare h (Some x) e' g" | "overlaps compare h (Some (file_start h f)) (Some (file_limit h f)) g"
      using grow_begin(2) [OF f(1) _ assms(3-5) g(2)] by blast
    then show ?thesis using g(1) f(2) assms(6) linked.next_to by cases (auto simp: linked_range_def)
  qed
  then show ?thesis using assms(1,6) grow_begin(1) [OF f(1) _ assms(3-5)] by (auto simp: linked_range_def)
qed

lemma linked_range_end:
  assumes "\<forall>f \<in> set files. file_ok valid compare h f" "f \<in> set files" "valid x" "overlaps compare h b' (Some x) f"
    "key_after compare (file_limit h f) (Some x)" "linked_range compare h files b e b' (Some x)"
  shows "linked_range compare h files b e b' (Some (file_limit h f))"
proof -
  have f: "file_ok valid compare h f" "linked compare h files b e f" using assms(1,2,4,6) by (auto simp: linked_range_def)
  have "linked compare h files b e g" if g: "g \<in> set files" "overlaps compare h b' (Some (file_limit h f)) g" for g
  proof -
    have "file_ok valid compare h g" using g(1) assms(1) by blast
    then consider "overlaps compare h b' (Some x) g" | "overlaps compare h (Some (file_start h f)) (Some (file_limit h f)) g"
      using grow_end(2) [OF f(1) _ assms(3-5) g(2)] by blast
    then show ?thesis using g(1) f(2) assms(6) linked.next_to by cases (auto simp: linked_range_def)
  qed
  then show ?thesis using assms(1,6) grow_end(1) [OF f(1) _ assms(3-5)] by (auto simp: linked_range_def)
qed

text \<open>When no file sticks out of the range, the files in the range are the linked ones.\<close>

lemma linked_closed:
  assumes ok: "\<forall>f \<in> set files. file_ok valid compare h f" and l: "linked_range compare h files b e b' e'"
    and v: "\<forall>k \<in> set_option b' \<union> set_option e'. valid k"
    and w: "\<forall>f \<in> set files. overlaps compare h b' e' f \<longrightarrow> within compare h b' e' f" and f: "f \<in> set files"
  shows "overlaps compare h b' e' f \<longleftrightarrow> linked compare h files b e f"
proof
  show "overlaps compare h b' e' f \<Longrightarrow> linked compare h files b e f" using l f by (simp add: linked_range_def)
  show "linked compare h files b e f \<Longrightarrow> overlaps compare h b' e' f"
  proof (induction rule: linked.induct)
    case (in_range f)
    then show ?case using l by (simp add: linked_range_def)
  next
    case (next_to g f)
    have g: "g \<in> set files" using next_to.hyps(1) by (auto elim: linked_cases)
    then have "file_ok valid compare h g" "file_ok valid compare h f" using ok next_to.hyps(2) by auto
    note vs = file_valid [OF this(1)] file_valid [OF this(2)]
    have wg: "\<not> key_before compare (file_start h g) b'" "\<not> key_after compare (file_limit h g) e'"
      using w g next_to.IH by (auto simp: within_def)
    have o: "compare (file_start h g) (file_limit h f) \<le> 0" "compare (file_start h f) (file_limit h g) \<le> 0"
      using next_to.hyps(3) flip [OF vs(9,3)] flip [OF vs(3,9)] by (simp_all add: overlaps_def key_before_def key_after_def)
    show ?case unfolding overlaps_def
      using key_before_mono [OF _ vs(3,9) o(1), of b'] key_after_mono [OF _ vs(8,4) o(2), of e'] wg v by blast
  qed
qed

text \<open>The loop: on other levels it selects, and on level zero it returns the linked files.\<close>

lemma overlap_loop_select:
  "level \<noteq> 0 \<Longrightarrow> overlap_loop compare h level files (b, e, i, inputs) = Some (inputs @ filter (overlaps compare h b e) (drop i files))"
proof (induction "length files - i" arbitrary: i inputs)
  case 0
  then show ?case by (subst overlap_loop.simps) simp
next
  case (Suc n)
  then have i: "i < length files" and n: "n = length files - Suc i" by linarith+
  have d: "drop i files = files ! i # drop (Suc i) files" using i by (simp add: Cons_nth_drop_Suc)
  note IH = Suc.hyps(1) [OF n Suc.prems]
  show ?case unfolding d
    by (subst overlap_loop.simps) (use i Suc.prems IH in \<open>auto simp: overlap_step_def overlaps_def\<close>)
qed

lemma overlap_loop_linked:
  assumes ok: "\<forall>f \<in> set files. file_ok valid compare h f"
    and "linked_range compare h files b e b' e'" "\<forall>k \<in> set_option b' \<union> set_option e'. valid k" "i \<le> length files"
    and "inputs = filter (overlaps compare h b' e') (take i files)" "\<forall>f \<in> set inputs. within compare h b' e' f"
  shows "overlap_loop compare h 0 files (b', e', i, inputs) = Some (filter (linked compare h files b e) files)"
  using assms(2-)
proof (induction "(outside compare h files b' e', length files - i)" arbitrary: b' e' i inputs
    rule: wf_induct_rule [OF wf_lex_prod [OF wf_less_than wf_less_than]])
  case (1 b' e' i inputs)
  note l = "1.prems"(1) and v = "1.prems"(2) and i = "1.prems"(3) and inp = "1.prems"(4) and w = "1.prems"(5)
  note IH = "1.hyps"
  show ?case
  proof (cases "i < length files")
    case False
    then have all: "inputs = filter (overlaps compare h b' e') files" using i inp by simp
    then have "filter (overlaps compare h b' e') files = filter (linked compare h files b e) files"
      using w by (intro filter_cong HOL.refl linked_closed [OF ok l v]) auto
    then show ?thesis using False all by (subst overlap_loop.simps) simp
  next
    case True
    let ?f = "files ! i"
    have m: "?f \<in> set files" using True by simp
    have f: "valid (file_start h ?f)" "valid (file_limit h ?f)" using ok m file_valid by blast+
    have t: "take (Suc i) files = take i files @ [?f]" using True by (simp add: take_Suc_conv_app_nth)
    have step: "overlap_loop compare h 0 files (b', e', i, inputs) = overlap_loop compare h 0 files (overlap_step compare h 0 ?f (b', e', i, inputs))"
      using True by (subst overlap_loop.simps) simp
    consider "\<not> overlaps compare h b' e' ?f" | "overlaps compare h b' e' ?f" "key_before compare (file_start h ?f) b'"
      | "overlaps compare h b' e' ?f" "\<not> key_before compare (file_start h ?f) b'" "key_after compare (file_limit h ?f) e'"
      | "overlaps compare h b' e' ?f" "within compare h b' e' ?f" by (auto simp: within_def)
    then show ?thesis
    proof cases
      case 1
      then have "overlap_step compare h 0 ?f (b', e', i, inputs) = (b', e', Suc i, inputs)" by (auto simp: overlap_step_def overlaps_def)
      moreover have "overlap_loop compare h 0 files (b', e', Suc i, inputs) = Some (filter (linked compare h files b e) files)"
        by (rule IH) (use True l v inp w 1 t in auto)
      ultimately show ?thesis using step by simp
    next
      case 2
      then obtain x where x: "b' = Some x" "valid x" using v by (cases b') (auto simp: key_before_def)
      have "overlap_step compare h 0 ?f (b', e', i, inputs) = (Some (file_start h ?f), e', 0, [])"
        using 2 by (auto simp: overlap_step_def overlaps_def)
      moreover have "overlap_loop compare h 0 files (Some (file_start h ?f), e', 0, []) = Some (filter (linked compare h files b e) files)"
        by (rule IH) (use outside_begin [OF ok m x(2), of e'] linked_range_begin [OF ok m x(2), of e' b e] 2 l x v f in auto)
      ultimately show ?thesis using step by simp
    next
      case 3
      then obtain x where x: "e' = Some x" "valid x" using v by (cases e') (auto simp: key_after_def)
      have "overlap_step compare h 0 ?f (b', e', i, inputs) = (b', Some (file_limit h ?f), 0, [])"
        using 3 by (auto simp: overlap_step_def overlaps_def)
      moreover have "overlap_loop compare h 0 files (b', Some (file_limit h ?f), 0, []) = Some (filter (linked compare h files b e) files)"
        by (rule IH) (use outside_end [OF ok m x(2), of b'] linked_range_end [OF ok m x(2), of b' b e] 3 l x v f in auto)
      ultimately show ?thesis using step by simp
    next
      case 4
      then have "overlap_step compare h 0 ?f (b', e', i, inputs) = (b', e', Suc i, inputs @ [?f])"
        by (auto simp: overlap_step_def overlaps_def within_def)
      moreover have "overlap_loop compare h 0 files (b', e', Suc i, inputs @ [?f]) = Some (filter (linked compare h files b e) files)"
        by (rule IH) (use True l v inp w 4 t in auto)
      ultimately show ?thesis using step by simp
    qed
  qed
qed

text \<open>What \<^verbatim>\<open>GetOverlappingInputs\<close> returns on each level.\<close>

lemma GetOverlappingInputs_files:
  assumes "\<forall>f \<in> set (v_files vs ! level). file_ok valid compare h f" "\<forall>k \<in> set_option b \<union> set_option e. internal_valid valid k"
  shows "GetOverlappingInputs compare h vs level b e = Some (filter
    (if level = 0 then linked compare h (v_files vs ! level) (map_option ExtractUserKey b) (map_option ExtractUserKey e)
     else overlaps compare h (map_option ExtractUserKey b) (map_option ExtractUserKey e)) (v_files vs ! level))"
proof (cases "level = 0")
  case False
  then show ?thesis using overlap_loop_select by (simp add: GetOverlappingInputs_def)
next
  case True
  have "overlap_loop compare h 0 (v_files vs ! 0) (map_option ExtractUserKey b, map_option ExtractUserKey e, 0, []) =
      Some (filter (linked compare h (v_files vs ! 0) (map_option ExtractUserKey b) (map_option ExtractUserKey e)) (v_files vs ! 0))"
    by (rule overlap_loop_linked) (use assms True in \<open>auto simp: linked_range_def internal_valid_def linked.in_range\<close>)
  then show ?thesis using True by (simp add: GetOverlappingInputs_def)
qed

section \<open>The level for a new table\<close>

lemma OverlapInLevel_iff:
  assumes "version_ok valid compare h v" "level < nat kNumLevels" "\<forall>k \<in> set_option b \<union> set_option e. valid k"
  shows "OverlapInLevel compare h v level b e = Some (\<exists>f \<in> set (v_files v ! level). overlaps compare h b e f)"
  unfolding OverlapInLevel_def using version_ok_level [OF assms(1,2)] by (intro SomeFileOverlapsRange_iff assms(3)) auto

lemma pick_level_loop_free:
  assumes ok: "version_ok valid compare h v" and k: "valid small" "valid large"
    and l: "level \<le> kMaxMemCompactLevel" "\<forall>i \<le> level. \<forall>f \<in> set (v_files v ! i). \<not> overlaps compare h (Some small) (Some large) f"
  shows "\<exists>l. pick_level_loop opt compare h v small large level = Some l \<and> l \<le> kMaxMemCompactLevel \<and>
    (\<forall>i \<le> l. \<forall>f \<in> set (v_files v ! i). \<not> overlaps compare h (Some small) (Some large) f)"
  using l
proof (induction "kMaxMemCompactLevel - level" arbitrary: level)
  case 0
  then show ?case by (subst pick_level_loop.simps) auto
next
  case (Suc n)
  then have lt: "level < kMaxMemCompactLevel" and n: "n = kMaxMemCompactLevel - (level + 1)" by linarith+
  have lv: "level + 2 < nat kNumLevels" using lt by (simp add: kMaxMemCompactLevel_def kNumLevels_def)
  note o1 = OverlapInLevel_iff [OF ok, of "level + 1" "Some small" "Some large"]
  have k2: "\<forall>k \<in> set_option (Some (AppendInternalKey [] small kMaxSequenceNumber kValueTypeForSeek)) \<union>
      set_option (Some (AppendInternalKey [] large 0 kTypeDeletion)). internal_valid valid k"
    using k by (simp add: internal_valid_def AppendInternalKey_def PutFixed64_def)
  note o2 = GetOverlappingInputs_files [OF version_ok_level(2) [OF ok lv] k2]
  have stop: ?case if "pick_level_loop opt compare h v small large level = Some level" using that Suc.prems by blast
  show ?case
  proof (cases "\<exists>f \<in> set (v_files v ! (level + 1)). overlaps compare h (Some small) (Some large) f")
    case True
    then show ?thesis using o1 lv k lt by (intro stop) (subst pick_level_loop.simps, simp)
  next
    case False
    then have ih: "\<exists>l. pick_level_loop opt compare h v small large (level + 1) = Some l \<and> l \<le> kMaxMemCompactLevel \<and>
        (\<forall>i \<le> l. \<forall>f \<in> set (v_files v ! i). \<not> overlaps compare h (Some small) (Some large) f)"
      using Suc.prems(2) lt by (intro Suc.hyps(1) [OF n]) (auto simp: le_Suc_eq)
    let ?g = "filter (overlaps compare h (Some small) (Some large)) (v_files v ! (level + 2))"
    have g: "GetOverlappingInputs compare h v (level + 2) (Some (AppendInternalKey [] small kMaxSequenceNumber kValueTypeForSeek))
        (Some (AppendInternalKey [] large 0 kTypeDeletion)) = Some ?g" using o2 by (simp add: AppendInternalKey_def PutFixed64_def)
    have o: "OverlapInLevel compare h v (level + 1) (Some small) (Some large) = Some False" using o1 lv k False by simp
    have e: "pick_level_loop opt compare h v small large level =
        (if MaxGrandParentOverlapBytes opt <s TotalFileSize h ?g then Some level else pick_level_loop opt compare h v small large (level + 1))"
      by (subst pick_level_loop.simps) (simp only: lt lv o g if_True if_False bind.bind_lunit)
    show ?thesis
    proof (cases "MaxGrandParentOverlapBytes opt <s TotalFileSize h ?g")
      case True
      then show ?thesis using e by (intro stop) (simp only: if_True)
    next
      case False
      then show ?thesis using ih e by (simp only: if_False)
    qed
  qed
qed

end

end
