(* ===== verification/Ldb_Version_Get.thy ===== *)
theory Ldb_Version_Get
  imports Ldb_Version_Search
begin

text \<open>
  \<^verbatim>\<open>Version::Get\<close> answers from all levels as one map with versions would: with the newest write of the key that the snapshot sees. What is
  relied on is the contract of lookups in table files, and that newer writes of a key are in newer files.
\<close>

section \<open>The contract of table files\<close>

text \<open>\<open>tables\<close> relates the number and the size of a file to the entries of the table.\<close>

locale table_files = user_order valid compare
  for valid :: "slice \<Rightarrow> bool" and compare :: "slice \<Rightarrow> slice \<Rightarrow> int" +
  fixes tget :: "'w table_reader"
    and inv :: "'w \<Rightarrow> bool"
    and tables :: "uint64 \<Rightarrow> uint64 \<Rightarrow> kv list \<Rightarrow> bool"
  assumes lookup: "inv w \<Longrightarrow> tables n sz kvs \<Longrightarrow> internal_valid valid k \<Longrightarrow>
    \<exists>q w'. tget n sz k sv hr w = Some (OK, (case q of None \<Rightarrow> sv | Some kv \<Rightarrow> hr sv (fst kv) (snd kv)), w') \<and> inv w' \<and> found compare kvs k q"

section \<open>What a version holds\<close>

fun write_kv :: "mem_write \<Rightarrow> kv" where
  "write_kv (q, t, k, v) = (AppendInternalKey [] k q t, v)"

text \<open>\<open>fw\<close> gives the writes that are in a file.\<close>

definition file_holds ::
    "(slice \<Rightarrow> slice \<Rightarrow> int) \<Rightarrow> (uint64 \<Rightarrow> uint64 \<Rightarrow> kv list \<Rightarrow> bool) \<Rightarrow> metas \<Rightarrow> mem_write set \<Rightarrow> nat \<Rightarrow> bool" where
  "file_holds ucmp tables h A f \<longleftrightarrow> (\<exists>kvs. tables (fm_number (h f)) (fm_size (h f)) kvs \<and> kvs \<noteq> [] \<and>
     sorted_wrt (\<lambda>a b. InternalKey_Compare ucmp (fst a) (fst b) < 0) kvs \<and> set kvs = write_kv ` A \<and>
     smallest (h f) = fst (hd kvs) \<and> largest (h f) = fst (last kvs))"

definition newer :: "(slice \<Rightarrow> slice \<Rightarrow> int) \<Rightarrow> mem_write set \<Rightarrow> mem_write set \<Rightarrow> bool" where
  "newer ucmp A B \<longleftrightarrow> (\<forall>(q, t, k, v) \<in> A. \<forall>(q', t', k', v') \<in> B. ucmp k k' = 0 \<longrightarrow> q' < q)"

definition newer_first :: "(slice \<Rightarrow> slice \<Rightarrow> int) \<Rightarrow> metas \<Rightarrow> Version \<Rightarrow> (nat \<Rightarrow> mem_write set) \<Rightarrow> bool" where
  "newer_first ucmp h v fw \<longleftrightarrow>
     (\<forall>j < nat kNumLevels. \<forall>i < j. \<forall>f \<in> set (v_files v ! i). \<forall>g \<in> set (v_files v ! j). newer ucmp (fw f) (fw g)) \<and>
     (\<forall>f \<in> set (v_files v ! 0). \<forall>g \<in> set (v_files v ! 0). NewestFirst h f g \<longrightarrow> newer ucmp (fw f) (fw g)) \<and>
     distinct (map (\<lambda>f. fm_number (h f)) (v_files v ! 0))"

definition version_files :: "Version \<Rightarrow> nat set" where
  "version_files v = (\<Union>files \<in> set (v_files v). set files)"

definition version_holds ::
    "(slice \<Rightarrow> bool) \<Rightarrow> (slice \<Rightarrow> slice \<Rightarrow> int) \<Rightarrow> (uint64 \<Rightarrow> uint64 \<Rightarrow> kv list \<Rightarrow> bool) \<Rightarrow> metas \<Rightarrow> Version \<Rightarrow>
      (nat \<Rightarrow> mem_write set) \<Rightarrow> mem_write list \<Rightarrow> bool" where
  "version_holds valid ucmp tables h v fw ws \<longleftrightarrow> version_ok valid ucmp h v \<and> writes_fit valid ws \<and>
     set ws = (\<Union>f \<in> version_files v. fw f) \<and> (\<forall>f \<in> version_files v. file_holds ucmp tables h (fw f) f) \<and> newer_first ucmp h v fw"

text \<open>The status and the value for the answer that \<^verbatim>\<open>MemTable::Get\<close> would give.\<close>

definition version_answer :: "mem_write list \<Rightarrow> byte list \<Rightarrow> status \<times> byte list" where
  "version_answer vis old = (case answer vis old OK of (b, v, s) \<Rightarrow> (if b then s else NotFound [] [], v))"

section \<open>Sorting\<close>

lemma set_insert_by: "set (insert_by before x ys) = insert x (set ys)"
  by (induction ys) auto

lemma set_sort_by [simp]: "set (sort_by before xs) = set xs"
proof -
  have "set (fold (insert_by before) xs ys) = set xs \<union> set ys" for ys by (induction xs arbitrary: ys) (auto simp: set_insert_by)
  then show ?thesis by (simp add: sort_by_def)
qed

lemma sorted_insert_by:
  assumes lt: "\<And>x y. before x y \<longleftrightarrow> f y < (f x :: 'a :: linorder)" and "sorted_wrt before ys" "f x \<notin> f ` set ys"
  shows "sorted_wrt before (insert_by before x ys)"
  using assms(2,3)
proof (induction ys)
  case (Cons y ys)
  show ?case
  proof (cases "before x y")
    case True
    then have "before x z" if "z \<in> set ys" for z using Cons.prems(1) that lt by (meson list.set_intros(1) order.strict_trans sorted_wrt.simps(2))
    then show ?thesis using True Cons.prems(1) by simp
  next
    case False
    then have "before y x" using Cons.prems(2) unfolding lt by (metis image_eqI list.set_intros(1) linorder_neqE)
    then show ?thesis using False Cons by (simp add: set_insert_by)
  qed
qed simp

lemma sorted_sort_by:
  assumes "distinct (map f xs)" and lt: "\<And>x y. before x y \<longleftrightarrow> f y < (f x :: 'a :: linorder)"
  shows "sorted_wrt before (sort_by before xs)"
proof -
  have "sorted_wrt before (fold (insert_by before) xs ys)"
    if "distinct (map f xs)" "f ` set xs \<inter> f ` set ys = {}" "sorted_wrt before ys" for ys
    using that
  proof (induction xs arbitrary: ys)
    case (Cons x xs)
    have "f ` set xs \<inter> f ` set (insert_by before x ys) = {}" using Cons.prems(1,2) by (auto simp: set_insert_by)
    moreover have "f x \<notin> f ` set ys" using Cons.prems(2) by simp
    ultimately show ?case
      using Cons.IH [of "insert_by before x ys"] sorted_insert_by [of before f, OF lt Cons.prems(3)] Cons.prems(1) by simp
  qed simp
  then show ?thesis using assms(1) by (simp add: sort_by_def)
qed

section \<open>One file\<close>

lemma sorted_unique:
  assumes "sorted_wrt P xs" "sorted_wrt P ys" "set xs = set ys" "\<And>x y. x \<in> set xs \<Longrightarrow> y \<in> set xs \<Longrightarrow> P x y \<Longrightarrow> \<not> P y x"
  shows "xs = ys"
  using assms
proof (induction xs arbitrary: ys)
  case (Cons x xs)
  obtain y zs where ys: "ys = y # zs" using Cons.prems(3) by (cases ys) simp_all
  have irr: "\<not> P z z" if "z \<in> set (x # xs)" for z using Cons.prems(4) [OF that that] by blast
  have "x = y"
  proof (rule ccontr)
    assume "x \<noteq> y"
    then have "y \<in> set xs" "x \<in> set zs" using Cons.prems(3) ys by auto
    then have "P x y" "P y x" using Cons.prems(1,2) ys by auto
    then show False using Cons.prems(4) [of x y] \<open>y \<in> set xs\<close> by simp
  qed
  have "x \<notin> set xs" "y \<notin> set zs" using Cons.prems(1,2) irr ys \<open>x = y\<close> by auto
  then have e: "set xs = set zs" using Cons.prems(3) ys \<open>x = y\<close> by auto
  have "xs = zs"
  proof (rule Cons.IH [OF _ _ e])
    show "sorted_wrt P xs" "sorted_wrt P zs" using Cons.prems(1,2) ys by simp_all
    show "a \<in> set xs \<Longrightarrow> b \<in> set xs \<Longrightarrow> P a b \<Longrightarrow> \<not> P b a" for a b by (rule Cons.prems(4)) simp_all
  qed
  then show ?case using \<open>x = y\<close> ys by simp
qed simp

context user_order
begin

lemma writes_fit_filter: "writes_fit valid ws \<Longrightarrow> writes_fit valid (filter P ws)"
  by (auto simp: writes_fit_def sorted_wrt_filter)

text \<open>A lookup in the table of some writes answers with the last of those that are seen.\<close>

lemma file_answer:
  assumes ws: "writes_fit valid ws"
    and kvs: "sorted_wrt (\<lambda>a b. InternalKey_Compare compare (fst a) (fst b) < 0) kvs" "set kvs = write_kv ` set ws"
    and u: "valid u" "length u + 8 < 2 ^ 32" "s \<le> kMaxSequenceNumber" and f: "found compare kvs (internal_key (LookupKey_new u s)) q"
  shows "saver_answer OK (saver_after compare (saver_new u old) q) = answer (visible compare u s ws) old OK"
proof -
  from add_writes_holds [OF holds_new, of ws] ws
  obtain m where m: "holds valid compare m ws" by (auto simp: writes_fit_def)
  obtain ns where ns: "skip_inv (entry_valid valid) (KeyComparator compare) (table m) ns"
    "set (map (skey (table m)) ns) = encode_write ` set ws" "mem_rep valid compare m (map (mem_entry m) ns)" using holds_entries [OF m] by metis
  have sorted: "sorted_wrt (\<lambda>a b. InternalKey_Compare compare (fst a) (fst b) < 0) (map (mem_entry m) ns)"
    "\<forall>kv \<in> set (map (mem_entry m) ns). internal_valid valid (fst kv)"
    using entry_iterator.contents [OF mem_entry_iterator ns(3)] by (auto simp: short_key_def)
  have e: "(entry_key (encode_write w), entry_value (encode_write w)) = write_kv w" if w: "w \<in> set ws" for w
  proof -
    obtain q t k v where qv: "w = (q, t, k, v)" by (metis prod_cases4)
    then have "write_ok valid (q, t, k, v)" using w ws by (auto simp: writes_fit_def)
    then show ?thesis by (simp add: qv)
  qed
  have "set (map (mem_entry m) ns) = (\<lambda>x. (entry_key x, entry_value x)) ` set (map (skey (table m)) ns)"
    by (force simp: mem_entry_def MemIter_key_def MemIter_value_def Iter_key_def)
  also have "\<dots> = write_kv ` set ws" unfolding ns(2) image_image by (rule image_cong) (use e in auto)
  finally have same: "set (map (mem_entry m) ns) = set kvs" using kvs(2) by simp
  have "map (mem_entry m) ns = kvs"
  proof (rule sorted_unique [OF sorted(1) kvs(1) same])
    fix x y assume "x \<in> set (map (mem_entry m) ns)" "y \<in> set (map (mem_entry m) ns)"
    then have "internal_valid valid (fst x)" "internal_valid valid (fst y)" using sorted(2) by blast+
    then show "InternalKey_Compare compare (fst x) (fst y) < 0 \<Longrightarrow> \<not> InternalKey_Compare compare (fst y) (fst x) < 0"
      using key_order.flip [OF internal_order] by (metis less_asym)
  qed
  then have "MemTable_Get compare (LookupKey_new u s) old OK m = Some (saver_answer OK (saver_after compare (saver_new u old) q))"
    using table_answer [OF m ns(1) u(1,2)] f by simp
  then show ?thesis using get_last [OF m u, of old OK] by simp
qed

end

section \<open>All files\<close>

text \<open>The writes of a file that are seen.\<close>

definition seen_in :: "(slice \<Rightarrow> slice \<Rightarrow> int) \<Rightarrow> slice \<Rightarrow> uint64 \<Rightarrow> mem_write list \<Rightarrow> mem_write set \<Rightarrow> mem_write list" where
  "seen_in ucmp u s ws A = visible ucmp u s (filter (\<lambda>w. w \<in> A) ws)"

lemma answer_cases:
  "ws = [] \<Longrightarrow> answer ws old st = (False, old, st)" "ws \<noteq> [] \<Longrightarrow> \<exists>v s. answer ws old st = (True, v, s)"
  by (auto simp: answer_def split: prod.splits ValueType.splits)

lemma find_append: "find P (xs @ ys) = (case find P xs of None \<Rightarrow> find P ys | Some x \<Rightarrow> Some x)"
  by (induction xs) auto

lemma charge_seek_same [simp]: "g_value (charge_seek level f g) = g_value g" "g_world (charge_seek level f g) = g_world g"
  by (simp_all add: charge_seek_def Let_def)

lemma writes_filter: "set ws = (\<Union>f \<in> F. fw f) \<Longrightarrow> f \<in> F \<Longrightarrow> set (filter (\<lambda>w. w \<in> fw f) ws) = fw f"
  by auto

lemma sorted_levels:
  assumes "\<And>l. l \<in> set ls \<Longrightarrow> sorted_wrt R (F l)" "\<And>i j f g. i \<in> set ls \<Longrightarrow> j \<in> set ls \<Longrightarrow> i < j \<Longrightarrow> f \<in> set (F i) \<Longrightarrow> g \<in> set (F j) \<Longrightarrow> R f g"
    and "sorted_wrt (<) (ls :: nat list)"
  shows "sorted_wrt R (concat (map F ls))"
  using assms
proof (induction ls)
  case (Cons l ls)
  have "sorted_wrt R (concat (map F ls))"
  proof (rule Cons.IH)
    show "R f g" if "i \<in> set ls" "j \<in> set ls" "i < j" "f \<in> set (F i)" "g \<in> set (F j)" for i j f g
      by (rule Cons.prems(2) [OF _ _ that(3-5)]) (use that in simp_all)
  qed (use Cons.prems(1,3) in auto)
  moreover have "R f g" if "f \<in> set (F l)" "j \<in> set ls" "g \<in> set (F j)" for f g j
    by (rule Cons.prems(2) [of l j f g]) (use that Cons.prems(3) in auto)
  ultimately show ?case using Cons.prems(1) [of l] by (auto simp: sorted_wrt_append)
qed simp

text \<open>The files that \<^verbatim>\<open>Get\<close> looks into.\<close>

definition searched :: "(slice \<Rightarrow> slice \<Rightarrow> int) \<Rightarrow> metas \<Rightarrow> Version \<Rightarrow> slice \<Rightarrow> slice \<Rightarrow> nat \<Rightarrow> nat list" where
  "searched ucmp h v u k l = (let files = v_files v ! l; i = first_ge (InternalKey_Compare ucmp) k (level_entries h files)
    in if l = 0 then level0_files ucmp h files u
       else if i < length files \<and> \<not> ucmp u (file_start h (files ! i)) < 0 then [files ! i] else [])"

lemma before_first_ge': "j < first_ge cmp t kvs \<Longrightarrow> cmp (fst (kvs ! j)) t < 0"
  unfolding first_ge_def using nth_mem set_takeWhileD by (metis takeWhile_nth)

context key_order
begin

lemma equal_trans: "valid a \<Longrightarrow> valid b \<Longrightarrow> valid c \<Longrightarrow> compare a b = 0 \<Longrightarrow> compare b c = 0 \<Longrightarrow> compare a c = 0"
  using trans [of a b c] less_trans [of c a b] flip [of c b] flip [of b c] flip [of a c] trans [of c b a] flip [of a b] flip [of b a] flip [of c a]
  by (metis less_irrefl linorder_neqE_linordered_idom order_refl not_le)

end

context user_order
begin

lemma write_key_valid: "write_ok valid w \<Longrightarrow> internal_valid valid (fst (write_kv w))"
  by (cases w) (simp add: internal_valid_def AppendInternalKey_def PutFixed64_def)

text \<open>The keys of a file are between its smallest and its largest, which is one of them.\<close>

lemma file_range:
  assumes "file_holds compare tables h A f" "\<forall>w \<in> A. write_ok valid w"
  shows "w \<in> A \<Longrightarrow> InternalKey_Compare compare (smallest (h f)) (fst (write_kv w)) \<le> 0"
    "w \<in> A \<Longrightarrow> InternalKey_Compare compare (fst (write_kv w)) (largest (h f)) \<le> 0"
    "\<exists>w \<in> A. fst (write_kv w) = largest (h f)"
proof -
  obtain kvs where kvs: "kvs \<noteq> []" "sorted_wrt (\<lambda>a b. InternalKey_Compare compare (fst a) (fst b) < 0) kvs" "set kvs = write_kv ` A"
    "smallest (h f) = fst (hd kvs)" "largest (h f) = fst (last kvs)" using assms(1) by (auto simp: file_holds_def)
  have l: "last kvs \<in> write_kv ` A" using kvs(1,3) last_in_set by blast
  then show "\<exists>w \<in> A. fst (write_kv w) = largest (h f)" using kvs(5) by force
  assume w: "w \<in> A"
  have r: "InternalKey_Compare compare (fst (write_kv w)) (fst (write_kv w)) = 0"
    using key_order.refl [OF internal_order write_key_valid] assms(2) w by blast
  have m: "write_kv w \<in> set kvs" using w kvs(3) by simp
  show "InternalKey_Compare compare (smallest (h f)) (fst (write_kv w)) \<le> 0"
    using kvs(1,2,4) m r by (cases kvs) auto
  have "x = last kvs \<or> InternalKey_Compare compare (fst x) (fst (last kvs)) < 0" if "x \<in> set kvs" for x
    using kvs(2) that by (induction kvs) auto
  from this [OF m] show "InternalKey_Compare compare (fst (write_kv w)) (largest (h f)) \<le> 0"
    unfolding kvs(5) using r by (elim disjE) simp_all
qed

lemma searched_files:
  assumes "version_ok valid compare h v" "l < nat kNumLevels" "internal_valid valid k"
  shows "files_to_search compare h v u k l = Some (searched compare h v u k l)" "set (searched compare h v u k l) \<subseteq> set (v_files v ! l)"
proof -
  show "set (searched compare h v u k l) \<subseteq> set (v_files v ! l)" by (auto simp: searched_def Let_def level0_files_def)
  show "files_to_search compare h v u k l = Some (searched compare h v u k l)"
  proof (cases "l = 0 \<or> v_files v ! l = []")
    case True
    then show ?thesis by (auto simp: files_to_search_def searched_def level0_files_def sort_by_def first_ge_level Let_def)
  next
    case False
    obtain i where "FindFile compare h (v_files v ! l) k = Some i" "unat i = first_ge (InternalKey_Compare compare) k (level_entries h (v_files v ! l))"
      using FindFile_index [of "v_files v ! l" h k] version_ok_level [OF assms(1,2)] assms(3) False by auto
    then show ?thesis using False by (simp add: files_to_search_def searched_def level_file_def Let_def not_le)
  qed
qed

end

context table_files
begin

lemma get_files_answer:
  assumes v: "version_holds valid compare tables h v fw ws" and u: "valid u" "length u + 8 < 2 ^ 32" "s \<le> kMaxSequenceNumber"
    and fs: "set fs \<subseteq> version_files v" and w: "inv (g_world g)"
  shows "\<exists>r g'. get_files tget compare h u (internal_key (LookupKey_new u s)) level fs g = Some (r, g') \<and> inv (g_world g') \<and>
    (case find (\<lambda>f. seen_in compare u s ws (fw f) \<noteq> []) fs of
       None \<Rightarrow> r = None \<and> g_value g' = g_value g
     | Some f \<Rightarrow> (case version_answer (seen_in compare u s ws (fw f)) (g_value g) of (st, x) \<Rightarrow> r = Some st \<and> g_value g' = x))"
  using fs w
proof (induction fs arbitrary: g)
  case (Cons f fs)
  let ?k = "internal_key (LookupKey_new u s)" and ?ws = "filter (\<lambda>w. w \<in> fw f) ws"
  have f: "f \<in> version_files v" using Cons.prems(1) by simp
  obtain kvs where kvs: "tables (fm_number (h f)) (fm_size (h f)) kvs" "set kvs = write_kv ` fw f"
    "sorted_wrt (\<lambda>a b. InternalKey_Compare compare (fst a) (fst b) < 0) kvs" using v f unfolding version_holds_def file_holds_def by blast
  have fit: "writes_fit valid ?ws" using v writes_fit_filter unfolding version_holds_def by blast
  have set: "set kvs = write_kv ` set ?ws" using kvs(2) writes_filter [of ws fw "version_files v" f] v f by (simp add: version_holds_def)
  have k: "internal_valid valid ?k" using u(1) by (simp add: lookup_internal_key internal_valid_def AppendInternalKey_def PutFixed64_def)
  have wi: "inv (g_world (charge_seek level f g))" using Cons.prems(2) by simp
  obtain q w' where q: "tget (fm_number (h f)) (fm_size (h f)) ?k (saver_new u (g_value g)) (SaveValue compare) (g_world g) =
      Some (OK, saver_after compare (saver_new u (g_value g)) q, w')" "inv w'" "found compare kvs ?k q"
    using lookup [OF Cons.prems(2) kvs(1) k, of "saver_new u (g_value g)" "SaveValue compare"]
    by (elim exE conjE) (rule that, simp_all add: saver_after_def)
  let ?sv = "saver_after compare (saver_new u (g_value g)) q" and ?g = "charge_seek level f g\<lparr>g_value := sv_value (saver_after compare (saver_new u (g_value g)) q), g_world := w'\<rparr>"
  have a: "saver_answer OK ?sv = answer (seen_in compare u s ws (fw f)) (g_value g) OK"
    using file_answer [OF fit kvs(3) set u q(3), of "g_value g"] by (simp add: seen_in_def)
  have step: "get_files tget compare h u ?k level (f # fs) g = (case saver_result OK ?sv of (True, st) \<Rightarrow> Some (Some st, ?g)
      | (False, st) \<Rightarrow> get_files tget compare h u ?k level fs ?g)" using q(1) by (simp add: Let_def)
  show ?case
  proof (cases "seen_in compare u s ws (fw f) = []")
    case True
    then have n: "saver_result OK ?sv = (False, OK)" "sv_value ?sv = g_value g"
      using a answer_cases(1) by (auto simp: saver_answer_def split: prod.splits)
    have ih: "\<exists>r g'. get_files tget compare h u ?k level fs ?g = Some (r, g') \<and> inv (g_world g') \<and>
      (case find (\<lambda>f. seen_in compare u s ws (fw f) \<noteq> []) fs of
         None \<Rightarrow> r = None \<and> g_value g' = g_value ?g
       | Some f \<Rightarrow> (case version_answer (seen_in compare u s ws (fw f)) (g_value ?g) of (st, x) \<Rightarrow> r = Some st \<and> g_value g' = x))"
      using Cons.prems(1) q(2) by (intro Cons.IH) simp_all
    have e: "get_files tget compare h u ?k level (f # fs) g = get_files tget compare h u ?k level fs ?g" unfolding step n(1) by simp
    have gv: "g_value ?g = g_value g" using n(2) by simp
    have fe: "find (\<lambda>f. seen_in compare u s ws (fw f) \<noteq> []) (f # fs) = find (\<lambda>f. seen_in compare u s ws (fw f) \<noteq> []) fs" using True by simp
    show ?thesis unfolding e fe by (rule ih [unfolded gv])
  next
    case False
    obtain x st where x: "answer (seen_in compare u s ws (fw f)) (g_value g) OK = (True, x, st)" using answer_cases(2) [OF False] by blast
    have n: "saver_result OK ?sv = (True, st)" "sv_value ?sv = x" using a x by (auto simp: saver_answer_def split: prod.splits)
    have e: "get_files tget compare h u ?k level (f # fs) g = Some (Some st, ?g)" unfolding step n(1) by simp
    have fe: "find (\<lambda>f. seen_in compare u s ws (fw f) \<noteq> []) (f # fs) = Some f" using False by simp
    show ?thesis unfolding e fe using q(2) n(2) x by (simp add: version_answer_def)
  qed
qed simp

lemma get_levels_answer:
  assumes v: "version_holds valid compare tables h v fw ws" and u: "valid u" "length u + 8 < 2 ^ 32" "s \<le> kMaxSequenceNumber"
    and F: "\<And>l. l \<in> set ls \<Longrightarrow> files_to_search compare h v u (internal_key (LookupKey_new u s)) l = Some (F l) \<and> set (F l) \<subseteq> version_files v"
    and w: "inv (g_world g)"
  shows "\<exists>st g'. get_levels tget compare h v u (internal_key (LookupKey_new u s)) ls g = Some (st, g') \<and> inv (g_world g') \<and>
    (st, g_value g') = version_answer (case find (\<lambda>f. seen_in compare u s ws (fw f) \<noteq> []) (concat (map F ls)) of
       None \<Rightarrow> [] | Some f \<Rightarrow> seen_in compare u s ws (fw f)) (g_value g)"
  using F w
proof (induction ls arbitrary: g)
  case Nil
  then show ?case by (simp add: version_answer_def answer_def)
next
  case (Cons l ls)
  let ?P = "\<lambda>f. seen_in compare u s ws (fw f) \<noteq> []" and ?k = "internal_key (LookupKey_new u s)"
  have Fl: "files_to_search compare h v u ?k l = Some (F l)" "set (F l) \<subseteq> version_files v" using Cons.prems(1) [of l] by simp_all
  obtain r g1 where r: "get_files tget compare h u ?k l (F l) g = Some (r, g1)" "inv (g_world g1)"
    "case find ?P (F l) of None \<Rightarrow> r = None \<and> g_value g1 = g_value g
     | Some f \<Rightarrow> (case version_answer (seen_in compare u s ws (fw f)) (g_value g) of (st, x) \<Rightarrow> r = Some st \<and> g_value g1 = x)"
    using get_files_answer [OF v u Fl(2) Cons.prems(2), of l] by (elim exE conjE) (rule that)
  have ca: "find ?P (concat (map F (l # ls))) = (case find ?P (F l) of None \<Rightarrow> find ?P (concat (map F ls)) | Some f \<Rightarrow> Some f)"
    by (simp add: find_append)
  show ?case
  proof (cases "find ?P (F l)")
    case None
    then have n: "r = None" "g_value g1 = g_value g" using r(3) by simp_all
    have "\<exists>st g'. get_levels tget compare h v u ?k ls g1 = Some (st, g') \<and> inv (g_world g') \<and>
        (st, g_value g') = version_answer (case find ?P (concat (map F ls)) of None \<Rightarrow> [] | Some f \<Rightarrow> seen_in compare u s ws (fw f)) (g_value g1)"
      using Cons.prems(1) r(2) by (intro Cons.IH) simp_all
    then show ?thesis unfolding ca None using n r(1) Fl(1) by simp
  next
    case (Some f)
    then show ?thesis unfolding ca using r Fl(1) by (auto split: prod.splits)
  qed
qed

lemma version_files_level: "length (v_files v) = nat kNumLevels \<Longrightarrow> f \<in> version_files v \<longleftrightarrow> (\<exists>l < nat kNumLevels. f \<in> set (v_files v ! l))"
  unfolding version_files_def set_conv_nth [of "v_files v"] by (simp only: UN_iff Bex_def mem_Collect_eq) (elim subst, blast)

lemma searched_sorted:
  assumes v: "version_holds valid compare tables h v fw ws" and k: "internal_valid valid k"
  shows "sorted_wrt (\<lambda>f g. newer compare (fw f) (fw g)) (concat (map (searched compare h v u k) [0..<nat kNumLevels]))"
proof (rule sorted_levels)
  have ok: "version_ok valid compare h v" and nf: "newer_first compare h v fw" using v by (simp_all add: version_holds_def)
  fix i j f g
  assume a: "i \<in> set [0..<nat kNumLevels]" "j \<in> set [0..<nat kNumLevels]" "i < j" "f \<in> set (searched compare h v u k i)"
    "g \<in> set (searched compare h v u k j)"
  then have "i < nat kNumLevels" "j < nat kNumLevels" by simp_all
  then have "f \<in> set (v_files v ! i)" "g \<in> set (v_files v ! j)" using searched_files(2) [OF ok _ k, of _ u] a(4,5) by blast+
  then show "newer compare (fw f) (fw g)" using nf a(2,3) by (auto simp: newer_first_def)
next
  have nf: "newer_first compare h v fw" using v by (simp add: version_holds_def)
  show "sorted_wrt (\<lambda>f g. newer compare (fw f) (fw g)) (searched compare h v u k l)" for l
  proof (cases "l = 0")
    case False
    then show ?thesis by (simp add: searched_def Let_def)
  next
    case True
    let ?fs = "filter (\<lambda>f. compare u (file_start h f) \<ge> 0 \<and> compare u (file_limit h f) \<le> 0) (v_files v ! 0)"
    have "distinct (map (\<lambda>f. fm_number (h f)) ?fs)" using nf by (simp add: newer_first_def distinct_map_filter)
    then have "sorted_wrt (NewestFirst h) (sort_by (NewestFirst h) ?fs)"
      by (rule sorted_sort_by) (simp add: NewestFirst_def)
    then have "sorted_wrt (\<lambda>f g. newer compare (fw f) (fw g)) (sort_by (NewestFirst h) ?fs)"
      by (rule sorted_wrt_mono_rel [rotated]) (use nf in \<open>auto simp: newer_first_def\<close>)
    then show ?thesis using True by (simp add: searched_def level0_files_def Let_def)
  qed
qed simp

text \<open>The file with the newest write that is seen is among them.\<close>

lemma searched_newest:
  assumes v: "version_holds valid compare tables h v fw ws" and u: "valid u" "s \<le> kMaxSequenceNumber"
    and ne: "visible compare u s ws \<noteq> []" and m: "last (visible compare u s ws) \<in> fw g" and l: "l < nat kNumLevels" "g \<in> set (v_files v ! l)"
  shows "g \<in> set (searched compare h v u (AppendInternalKey [] u s kTypeValue) l)"
proof -
  let ?k = "AppendInternalKey [] u s kTypeValue" and ?w = "last (visible compare u s ws)"
  have ok: "version_ok valid compare h v" and fit: "writes_fit valid ws" and sub: "\<And>f. f \<in> version_files v \<Longrightarrow> fw f \<subseteq> set ws"
    and fh: "\<And>f. f \<in> version_files v \<Longrightarrow> file_holds compare tables h (fw f) f" using v by (auto simp: version_holds_def)
  have wok: "\<forall>w \<in> fw f. write_ok valid w" if "f \<in> version_files v" for f using fit sub [OF that] by (auto simp: writes_fit_def)
  have vf: "f \<in> version_files v" if "f \<in> set (v_files v ! l)" for f
    using version_files_level ok l(1) that by (auto simp: version_ok_def)
  obtain q t k x where w: "?w = (q, t, k, x)" by (metis prod_cases4)
  have vis: "?w \<in> set (visible compare u s ws)" using last_in_set [OF ne] .
  then have "?w \<in> set ws" "(q, t, k, x) \<in> set (visible compare u s ws)" unfolding w by (simp_all add: visible_def)
  then have wk: "?w \<in> set ws" "compare k u = 0" "q \<le> s" by (simp_all add: visible_def)
  then have kq: "valid k" "q \<le> kMaxSequenceNumber" using fit w by (auto simp: writes_fit_def)
  let ?e = "fst (write_kv ?w)"
  have vk: "internal_valid valid ?k" "internal_valid valid ?e" using u(1) kq by (simp_all add: w internal_valid_def AppendInternalKey_def PutFixed64_def)
  have uk: "compare u k = 0" using flip [OF u(1) kq(1)] flip [OF kq(1) u(1)] wk(2) by linarith
  have ke: "InternalKey_Compare compare ?k ?e \<le> 0"
    using pack_le(1) [OF kq(2) u(2), of t] wk(3) uk by (simp add: w internal_le AppendInternalKey_def PutFixed64_def)
  note r = file_range [OF fh [OF vf [OF l(2)]] wok [OF vf [OF l(2)]]]
  have sm: "InternalKey_Compare compare (smallest (h g)) ?e \<le> 0" "InternalKey_Compare compare ?e (largest (h g)) \<le> 0" using r(1,2) [OF m] by simp_all
  have gok: "file_ok valid compare h g" using version_ok_level(2) [OF ok l(1)] l(2) by simp
  note gv = file_valid [OF gok]
  have su: "compare (file_start h g) u \<le> 0" "compare u (file_limit h g) \<le> 0"
    using trans [OF gv(3) kq(1) u(1)] trans [OF u(1) kq(1) gv(4)] sm wk(2) uk
    by (auto simp: internal_le w file_start_def file_limit_def AppendInternalKey_def PutFixed64_def)
  show ?thesis
  proof (cases "l = 0")
    case True
    then show ?thesis using l(2) su flip [OF gv(3) u(1)] flip [OF u(1) gv(3)] by (auto simp: searched_def level0_files_def)
  next
    case False
    let ?files = "v_files v ! l"
    let ?i = "first_ge (InternalKey_Compare compare) ?k (level_entries h ?files)"
    have lv: "\<forall>f \<in> set ?files. file_ok valid compare h f" "files_disjoint compare h ?files" using version_ok_level [OF ok l(1)] False by auto
    obtain p where p: "p < length ?files" "g = ?files ! p" using l(2) by (auto simp: in_set_conv_nth)
    have len: "length (level_entries h ?files) = length ?files" by (simp add: level_entries_def)
    have nl: "\<not> InternalKey_Compare compare (largest (h g)) ?k < 0"
      using key_order.trans [OF internal_order vk(1,2) gv(2) ke sm(2)] key_order.flip [OF internal_order gv(2) vk(1)] by simp
    have ip: "?i \<le> p"
    proof (rule ccontr)
      assume "\<not> ?i \<le> p"
      then have "InternalKey_Compare compare (fst (level_entries h ?files ! p)) ?k < 0" by (intro before_first_ge') simp
      then show False using nl p by (simp add: level_entries_def)
    qed
    have "?i = p"
    proof (rule ccontr)
      assume "?i \<noteq> p"
      then have lt: "?i < p" using ip by simp
      then have i: "?i < length ?files" using p(1) by simp
      let ?f = "?files ! ?i"
      have f: "?f \<in> set ?files" using i by simp
      have fok: "file_ok valid compare h ?f" using lv(1) f by blast
      obtain w' where w': "w' \<in> fw ?f" "fst (write_kv w') = largest (h ?f)" using file_range(3) [OF fh [OF vf [OF f]] wok [OF vf [OF f]]] by blast
      obtain q' t' k' x' where e: "w' = (q', t', k', x')" by (metis prod_cases4)
      have ws': "w' \<in> set ws" using w'(1) sub [OF vf [OF f]] by blast
      then have k': "valid k'" "q' \<le> kMaxSequenceNumber" using fit e by (auto simp: writes_fit_def)
      have "\<not> InternalKey_Compare compare (largest (h ?f)) ?k < 0"
        using i nth_length_takeWhile [of "\<lambda>f. InternalKey_Compare compare (largest (h f)) ?k < 0" ?files] unfolding first_ge_level by simp
      then have a: "InternalKey_Compare compare ?k (largest (h ?f)) \<le> 0"
        using key_order.flip [OF internal_order vk(1) file_valid(2) [OF fok]] key_order.flip [OF internal_order file_valid(2) [OF fok] vk(1)] by linarith
      have "InternalKey_Compare compare (largest (h ?f)) (smallest (h g)) < 0"
        using lv(2) lt p by (simp add: files_disjoint_def sorted_wrt_iff_nth_less)
      then have b: "InternalKey_Compare compare (largest (h ?f)) ?e < 0"
        by (rule key_order.less_trans [OF internal_order file_valid(2) [OF fok] gv(1) vk(2) _ sm(1)])
      have lk: "largest (h ?f) = AppendInternalKey [] k' q' t'" "?e = AppendInternalKey [] k q t" using w'(2) by (simp_all add: e w)
      note a = a [unfolded lk(1)] and b = b [unfolded lk]
      have le: "compare u k' \<le> 0" "compare k' k \<le> 0" using a b by (auto simp: internal_le internal_less AppendInternalKey_def PutFixed64_def)
      have "compare k' u \<le> 0" using trans [OF k'(1) kq(1) u(1) le(2)] wk(2) by simp
      then have same: "compare k' u = 0" "compare u k' = 0" using le(1) flip [OF u(1) k'(1)] flip [OF k'(1) u(1)] by linarith+
      have "compare k k' \<le> 0" by (rule trans [OF kq(1) u(1) k'(1)]) (use wk(2) same in simp_all)
      then have kk: "\<not> compare k' k < 0" using flip [OF k'(1) kq(1)] by simp
      have "q' \<le> s" using a same pack_le(1) [OF k'(2) u(2), of t'] by (simp add: internal_le AppendInternalKey_def PutFixed64_def)
      then have "w' \<in> set (visible compare u s ws)" using ws' same by (simp add: visible_def e)
      moreover have "sorted_wrt (\<lambda>a b. fst a < fst b) (visible compare u s ws)" using fit by (simp add: writes_fit_def visible_def sorted_wrt_filter)
      ultimately have "w' = ?w \<or> q' < q" using sorted_last [of "visible compare u s ws" w'] by (auto simp: e w)
      then show False using b kk pack_le(3) [OF k'(2) kq(2), of t' t] by (auto simp: internal_less e w AppendInternalKey_def PutFixed64_def)
    qed
    moreover have "\<not> compare u (file_start h g) < 0" using su(1) flip [OF u(1) gv(3)] by simp
    ultimately show ?thesis using p False by (simp add: searched_def Let_def)
  qed
qed

lemma version_get_answer:
  assumes v: "version_holds valid compare tables h v fw ws" and u: "valid u" "length u + 8 < 2 ^ 32" "s \<le> kMaxSequenceNumber" and w: "inv w"
  shows "\<exists>st x stats w'. Version_Get tget compare h v (LookupKey_new u s) old w = Some (st, x, stats, w') \<and> inv w' \<and>
    (st, x) = version_answer (visible compare u s ws) old"
proof -
  let ?k = "internal_key (LookupKey_new u s)" and ?P = "\<lambda>f. seen_in compare u s ws (fw f) \<noteq> []" and ?ls = "[0..<nat kNumLevels]"
  let ?S = "concat (map (searched compare h v u ?k) ?ls)"
  have ok: "version_ok valid compare h v" and un: "set ws = (\<Union>f \<in> version_files v. fw f)" and fit: "writes_fit valid ws"
    using v by (simp_all add: version_holds_def)
  note lev = version_files_level [OF ok [unfolded version_ok_def, THEN conjunct1]]
  have k: "internal_valid valid ?k" using u(1) by (simp add: lookup_internal_key internal_valid_def AppendInternalKey_def PutFixed64_def)
  have "\<exists>st g'. get_levels tget compare h v u ?k ?ls
      \<lparr>g_stats = GetStats_new, last_file_read = None, last_file_read_level = - 1, g_value = old, g_world = w\<rparr> = Some (st, g') \<and> inv (g_world g') \<and>
      (st, g_value g') = version_answer (case find ?P ?S of None \<Rightarrow> [] | Some f \<Rightarrow> seen_in compare u s ws (fw f))
        (g_value \<lparr>g_stats = GetStats_new, last_file_read = None, last_file_read_level = - 1, g_value = old, g_world = w\<rparr>)"
  proof (rule get_levels_answer [OF v u])
    fix l assume "l \<in> set ?ls"
    then have l: "l < nat kNumLevels" by simp
    show "files_to_search compare h v u ?k l = Some (searched compare h v u ?k l) \<and> set (searched compare h v u ?k l) \<subseteq> version_files v"
      using searched_files [OF ok l k, of u] lev l by blast
  qed (use w in simp)
  moreover have "version_answer (case find ?P ?S of None \<Rightarrow> [] | Some f \<Rightarrow> seen_in compare u s ws (fw f)) old =
      version_answer (visible compare u s ws) old"
  proof (cases "visible compare u s ws = []")
    case True
    then have "seen_in compare u s ws A = []" for A by (auto simp: seen_in_def visible_def filter_empty_conv)
    then show ?thesis using True by (simp split: option.splits)
  next
    case False
    let ?w = "last (visible compare u s ws)"
    have vis: "?w \<in> set (visible compare u s ws)" using last_in_set [OF False] .
    have "?w \<in> set ws" using vis by (simp add: visible_def)
    then obtain g where g: "g \<in> version_files v" "?w \<in> fw g" using un by blast
    obtain l where l: "l < nat kNumLevels" "g \<in> set (v_files v ! l)" using g(1) lev by blast
    have gS: "g \<in> set ?S" using searched_newest [OF v u(1,3) False g(2) l] l(1) by (auto simp: lookup_internal_key)
    have seen: "x \<in> set (seen_in compare u s ws (fw f)) \<longleftrightarrow> x \<in> set (visible compare u s ws) \<and> x \<in> fw f" for x f
      by (auto simp: seen_in_def visible_def)
    have "?w \<in> set (seen_in compare u s ws (fw g))" using seen g(2) vis by blast
    then have "?P g" by auto
    then obtain f where f: "find ?P ?S = Some f" using gS by (metis (mono_tags, lifting) find_None_iff option.exhaust)
    obtain i where i: "i < length ?S" "?P f" "f = ?S ! i" "\<forall>j < i. \<not> ?P (?S ! j)" using f by (auto simp: find_Some_iff)
    obtain j where j: "j < length ?S" "g = ?S ! j" using gS by (metis in_set_conv_nth)
    have ij: "i \<le> j" using i(4) j \<open>?P g\<close> by (metis not_le)
    have wf: "?w \<in> fw f"
    proof (cases "i = j")
      case True
      then show ?thesis using g(2) i(3) j(2) by simp
    next
      case ne: False
      then have nw: "newer compare (fw f) (fw g)"
        using searched_sorted [OF v k, of u] i(1,3) j ij by (simp add: sorted_wrt_iff_nth_less)
      obtain x where x: "x \<in> set (visible compare u s ws)" "x \<in> fw f" using i(2) seen [of _ f] by (metis list.set_sel(1))
      have "sorted_wrt (\<lambda>a b. fst a < fst b) (visible compare u s ws)" using fit by (simp add: writes_fit_def visible_def sorted_wrt_filter)
      from sorted_last [OF this x(1)] show ?thesis
      proof
        assume lt: "fst x < fst ?w"
        obtain q t k y where qx: "x = (q, t, k, y)" by (metis prod_cases4)
        obtain q' t' k' y' where qw: "?w = (q', t', k', y')" by (metis prod_cases4)
        have c: "compare k u = 0" "compare k' u = 0" using x(1) vis unfolding qx qw by (simp_all add: visible_def)
        have vk: "valid k" "valid k'" using fit x(1) vis unfolding qx qw by (auto simp: writes_fit_def visible_def)
        have kk: "compare k k' = 0" by (rule equal_trans [OF vk(1) u(1) vk(2) c(1)]) (use c(2) flip [OF u(1) vk(2)] flip [OF vk(2) u(1)] in linarith)
        have "q' < q" using nw x(2) g(2) kk unfolding qx qw newer_def by fastforce
        then show ?thesis using lt by (simp add: qx qw)
      qed (use x(2) in simp)
    qed
    have "last (seen_in compare u s ws (fw f)) = ?w"
    proof -
      have so: "sorted_wrt (\<lambda>a b. fst a < fst b) (visible compare u s ws)" "sorted_wrt (\<lambda>a b. fst a < fst b) (seen_in compare u s ws (fw f))"
        using fit by (simp_all add: writes_fit_def visible_def seen_in_def sorted_wrt_filter)
      have "last (seen_in compare u s ws (fw f)) \<in> set (visible compare u s ws)" using i(2) seen [of _ f] last_in_set by blast
      from sorted_last [OF so(1) this] sorted_last [OF so(2), of ?w] show ?thesis using seen [of ?w f] vis wf by auto
    qed
    then show ?thesis using f i(2) False by (simp add: version_answer_def answer_def)
  qed
  ultimately show ?thesis by (auto simp: Version_Get_def lookup_key_parts(2) [OF u(2)])
qed

end

end
