(* ===== verification/Ldb_Posix_Env.thy ===== *)
theory Ldb_Posix_Env
  imports Ldb_Format "HOL-Library.Multiset"
begin

text \<open>
  \<^verbatim>\<open>PosixEnv::NewRandomAccessFile\<close> of \<^verbatim>\<open>leveldb-library/util/env_posix.cc\<close>: files for random access are mapped into memory, or read with
  \<^verbatim>\<open>pread\<close> when there are as many mapped files as the limit allows. Both kinds keep the contract of an environment that opens
  files and reads them, over what is relied on of the operating system.
\<close>

section \<open>The environment\<close>

text \<open>The system calls beyond those of the file classes, and the memory of the process as a mapped file may show in it.\<close>

record 'os env_sys =
  es_sys :: "'os sys"
  sys_stat_size :: "byte list \<Rightarrow> 'os \<Rightarrow> uint64 sysres \<times> 'os"
  sys_mmap :: "uint64 \<Rightarrow> int \<Rightarrow> 'os \<Rightarrow> addr sysres \<times> 'os"
  sys_mem :: "'os \<Rightarrow> mem"

record 'os PosixEnv =
  pe_os :: 'os
  mmap_limiter :: limiter
  fd_limiter :: limiter

datatype PosixReadable = Pread PosixRandomAccessFile | Mapped PosixMmapReadableFile

definition PosixEnv_GetFileSize :: "'os env_sys \<Rightarrow> byte list \<Rightarrow> 'os PosixEnv \<Rightarrow> status \<times> uint64 \<times> 'os PosixEnv" where
  "PosixEnv_GetFileSize sys filename env =
     (case sys_stat_size sys filename (pe_os env) of
        (Err e, os) \<Rightarrow> (PosixError (es_sys sys) filename e, 0, env\<lparr>pe_os := os\<rparr>)
      | (Ret n, os) \<Rightarrow> (OK, n, env\<lparr>pe_os := os\<rparr>))"

definition map_file :: "'os env_sys \<Rightarrow> byte list \<Rightarrow> int \<Rightarrow> 'os PosixEnv \<Rightarrow> status \<times> PosixReadable option \<times> 'os PosixEnv" where
  "map_file sys filename fd env =
     (case PosixEnv_GetFileSize sys filename env of
        (status, file_size, env) \<Rightarrow>
          if ok status then
            (case sys_mmap sys file_size fd (pe_os env) of
               (Ret base, os) \<Rightarrow> (OK, Some (Mapped \<lparr>mmap_base = base, mmap_length = file_size, mm_filename = filename\<rparr>), env\<lparr>pe_os := os\<rparr>)
             | (Err e, os) \<Rightarrow> (PosixError (es_sys sys) filename e, None, env\<lparr>pe_os := os\<rparr>))
          else (status, None, env))"

definition PosixEnv_NewRandomAccessFile ::
    "'os env_sys \<Rightarrow> byte list \<Rightarrow> 'os PosixEnv \<Rightarrow> status \<times> PosixReadable option \<times> 'os PosixEnv" where
  "PosixEnv_NewRandomAccessFile sys filename env =
     (case sys_open_rdonly (es_sys sys) filename (pe_os env) of
        (Err e, os) \<Rightarrow> (PosixError (es_sys sys) filename e, None, env\<lparr>pe_os := os\<rparr>)
      | (Ret fd, os) \<Rightarrow>
          (case Limiter_Acquire (mmap_limiter env) of
             (False, mm) \<Rightarrow>
               (case PosixRandomAccessFile_new (es_sys sys) filename fd (fd_limiter env) os of
                  (file, fdl, os) \<Rightarrow> (OK, Some (Pread file), env\<lparr>pe_os := os, mmap_limiter := mm, fd_limiter := fdl\<rparr>))
           | (True, mm) \<Rightarrow>
               (case map_file sys filename fd (env\<lparr>pe_os := os, mmap_limiter := mm\<rparr>) of
                  (status, result, env) \<Rightarrow>
                    (let env = env\<lparr>pe_os := snd (sys_close (es_sys sys) fd (pe_os env))\<rparr>
                     in (status, result, if ok status then env else env\<lparr>mmap_limiter := Limiter_Release (mmap_limiter env)\<rparr>)))))"

text \<open>The virtual functions of an environment and of its files, as far as tables need them.\<close>

record ('w, 'x) TableEnv =
  vNewRandomAccessFile :: "byte list \<Rightarrow> 'w \<Rightarrow> status \<times> 'x option \<times> 'w"
  vAccess :: "'x \<Rightarrow> 'w RandomAccessFile"
  vDelete :: "'x \<Rightarrow> 'w \<Rightarrow> 'w"

fun posix_read_at :: "'os env_sys \<Rightarrow> PosixReadable \<Rightarrow> uint64 \<Rightarrow> nat \<Rightarrow> 'os PosixEnv \<Rightarrow> status \<times> slice \<times> bool \<times> 'os PosixEnv" where
  "posix_read_at sys (Pread file) off n env =
     (case PosixRandomAccessFile_Read (es_sys sys) file off n [] (pe_os env) of (s, r, os) \<Rightarrow> (s, r, True, env\<lparr>pe_os := os\<rparr>))"
| "posix_read_at sys (Mapped file) off n env =
     (case PosixMmapReadableFile_Read (es_sys sys) (sys_mem sys (pe_os env)) file off (of_nat n) of (s, r) \<Rightarrow> (s, r, False, env))"

fun posix_delete :: "'os env_sys \<Rightarrow> PosixReadable \<Rightarrow> 'os PosixEnv \<Rightarrow> 'os PosixEnv" where
  "posix_delete sys (Pread file) env =
     (case PosixRandomAccessFile_destroy (es_sys sys) file (fd_limiter env) (pe_os env) of
        (fdl, os) \<Rightarrow> env\<lparr>pe_os := os, fd_limiter := fdl\<rparr>)"
| "posix_delete sys (Mapped file) env =
     (case PosixMmapReadableFile_destroy (es_sys sys) file (mmap_limiter env) (pe_os env) of
        (mm, os) \<Rightarrow> env\<lparr>pe_os := os, mmap_limiter := mm\<rparr>)"

definition posix_env :: "'os env_sys \<Rightarrow> ('os PosixEnv, PosixReadable) TableEnv" where
  "posix_env sys =
     \<lparr>vNewRandomAccessFile = PosixEnv_NewRandomAccessFile sys, vAccess = (\<lambda>x. \<lparr>vReadAt = posix_read_at sys x\<rparr>), vDelete = posix_delete sys\<rparr>"

section \<open>The contract\<close>

text \<open>
  \<open>data\<close> are the files that exist, with their bytes. The state is described together with the files that are open, each with its bytes:
  a file that is opened is added to them, a read leaves them as they are and, if it reports success, returns the bytes, and a file that is
  deleted leaves them, with what it holds of the system, and leaves the others as they are.
\<close>

locale env_files =
  fixes env :: "('w, 'x) TableEnv"
    and data :: "byte list \<Rightarrow> byte list option"
    and winv :: "'w \<Rightarrow> ('x \<times> byte list) multiset \<Rightarrow> bool"
  assumes short: "winv w M \<Longrightarrow> (x, d) \<in># M \<Longrightarrow> length d < 2 ^ 63"
    and open_file: "winv w M \<Longrightarrow> data name = Some d \<Longrightarrow> d \<noteq> [] \<Longrightarrow>
      \<exists>x w'. vNewRandomAccessFile env name w = (OK, Some x, w') \<and> winv w' (add_mset (x, d) M)"
    and no_file: "winv w M \<Longrightarrow> data name = None \<Longrightarrow> \<exists>s w'. vNewRandomAccessFile env name w = (s, None, w') \<and> \<not> ok s \<and> winv w' M"
    and read: "winv w M \<Longrightarrow> (x, d) \<in># M \<Longrightarrow> vReadAt (vAccess env x) off n w = (s, r, b, w') \<Longrightarrow>
      winv w' M \<and> (unat off + n < 2 ^ 64 \<longrightarrow> ok s \<longrightarrow> r = take n (drop (unat off) d)) \<and> (unat off + n \<le> length d \<longrightarrow> ok s)"
    and delete: "winv w (add_mset (x, d) M) \<Longrightarrow> winv (vDelete env x w) M"
begin

text \<open>Each open file keeps the contract of its class, and the other files stay open.\<close>

lemma open_random_access:
  assumes "(x, d) \<in># M"
  shows "random_access_file (vAccess env x) (\<lambda>_. d) (\<lambda>w. winv w M)"
proof (unfold_locales, goal_cases)
  case (1 w off n)
  obtain s r b w' where r: "vReadAt (vAccess env x) off n w = (s, r, b, w')" by (metis prod_cases4)
  have "length d < 2 ^ 63" using short [OF 1(1) assms] .
  then have "ok s" "r = take n (drop (unat off) d)" using read [OF 1(1) assms r] 1(2) by auto
  then show ?case using r by (auto simp: ok_iff)
next
  case (2 w off n r b w')
  then show ?case using read [OF _ assms 2(3)] by simp
next
  case (3 w off n s r b w')
  then show ?case using read [OF _ assms 3(2)] by simp
qed

end

section \<open>The posix environment keeps it\<close>

text \<open>
  What is relied on of the operating system, for the states with \<open>I\<close>: a file that exists is opened with a new descriptor, \<open>fds\<close> are
  the bytes behind the open descriptors, and \<^verbatim>\<open>pread\<close> returns them; closing a descriptor affects no other. None of these calls
  changes the mapped files.
\<close>

definition os_keeps :: "('os \<Rightarrow> int \<Rightarrow> byte list option) \<Rightarrow> ('os \<Rightarrow> addr \<Rightarrow> byte list option) \<Rightarrow> 'os \<Rightarrow> 'os \<Rightarrow> bool" where
  "os_keeps fds maps os os' \<longleftrightarrow> (\<forall>fd d. fds os fd = Some d \<longrightarrow> fds os' fd = Some d) \<and> maps os' = maps os"

definition os_files_ok ::
    "'os sys \<Rightarrow> (byte list \<Rightarrow> byte list option) \<Rightarrow> ('os \<Rightarrow> bool) \<Rightarrow> ('os \<Rightarrow> int \<Rightarrow> byte list option) \<Rightarrow> ('os \<Rightarrow> addr \<Rightarrow> byte list option) \<Rightarrow> bool" where
  "os_files_ok sys data I fds maps \<longleftrightarrow> (\<forall>name d. data name = Some d \<longrightarrow> length d < 2 ^ 63) \<and>
     (\<forall>os name. I os \<longrightarrow> (case sys_open_rdonly sys name os of (r, os') \<Rightarrow> I os' \<and> os_keeps fds maps os os' \<and>
        (case data name of None \<Rightarrow> (\<exists>e. r = Err e) | Some d \<Rightarrow> (\<exists>fd. r = Ret fd \<and> fds os fd = None \<and> fds os' fd = Some d)))) \<and>
     (\<forall>os fd d n k. I os \<longrightarrow> fds os fd = Some d \<longrightarrow> (case sys_pread sys fd n k os of (r, os') \<Rightarrow> I os' \<and> os_keeps fds maps os os' \<and>
        (if 0 \<le> k then r = Ret (take n (drop (nat k) d)) else (\<exists>e. r = Err e)))) \<and>
     (\<forall>os fd. I os \<longrightarrow> (case sys_close sys fd os of (r, os') \<Rightarrow> I os' \<and> (\<forall>y. y \<noteq> fd \<longrightarrow> fds os' y = fds os y) \<and> maps os' = maps os))"

text \<open>
  For mapped files: the size of a file is reported; while fewer than \<open>most\<close> files are mapped, a file that is not empty can be mapped to a new
  place; and a region that is unmapped is gone, with no effect on the others.
\<close>

definition os_maps_ok ::
    "'os env_sys \<Rightarrow> (byte list \<Rightarrow> byte list option) \<Rightarrow> ('os \<Rightarrow> bool) \<Rightarrow> ('os \<Rightarrow> int \<Rightarrow> byte list option) \<Rightarrow> ('os \<Rightarrow> addr \<Rightarrow> byte list option) \<Rightarrow> nat \<Rightarrow> bool" where
  "os_maps_ok sys data I fds maps most \<longleftrightarrow>
     (\<forall>os name d. I os \<longrightarrow> data name = Some d \<longrightarrow> (case sys_stat_size sys name os of (r, os') \<Rightarrow>
        r = Ret (of_nat (length d)) \<and> I os' \<and> os_keeps fds maps os os')) \<and>
     (\<forall>os fd d. I os \<longrightarrow> fds os fd = Some d \<longrightarrow> d \<noteq> [] \<longrightarrow> card (dom (maps os)) < most \<longrightarrow>
        (case sys_mmap sys (of_nat (length d)) fd os of (r, os') \<Rightarrow> I os' \<and> (\<forall>y e. fds os y = Some e \<longrightarrow> fds os' y = Some e) \<and>
           (\<exists>a. r = Ret a \<and> maps os a = None \<and> maps os' = (maps os)(a \<mapsto> d)))) \<and>
     (\<forall>os a d. I os \<longrightarrow> maps os a = Some d \<longrightarrow> (case sys_munmap (es_sys sys) a (of_nat (length d)) os of (r, os') \<Rightarrow>
        I os' \<and> (\<forall>y e. fds os y = Some e \<longrightarrow> fds os' y = Some e) \<and> maps os' = (maps os)(a := None)))"

definition maps_shown :: "'os env_sys \<Rightarrow> ('os \<Rightarrow> bool) \<Rightarrow> ('os \<Rightarrow> addr \<Rightarrow> byte list option) \<Rightarrow> bool" where
  "maps_shown sys I maps \<longleftrightarrow> (\<forall>os a d. I os \<longrightarrow> maps os a = Some d \<longrightarrow> length d < 2 ^ 63 \<and>
     (\<forall>i n. i + n \<le> length d \<longrightarrow> mem_read (sys_mem sys os) (a + of_nat i) n = take n (drop i d)))"

definition posix_sys_ok ::
    "'os env_sys \<Rightarrow> (byte list \<Rightarrow> byte list option) \<Rightarrow> ('os \<Rightarrow> bool) \<Rightarrow> ('os \<Rightarrow> int \<Rightarrow> byte list option) \<Rightarrow> ('os \<Rightarrow> addr \<Rightarrow> byte list option) \<Rightarrow> nat \<Rightarrow> bool" where
  "posix_sys_ok sys data I fds maps most \<longleftrightarrow>
     os_files_ok (es_sys sys) data I fds maps \<and> maps_shown sys I maps \<and> os_maps_ok sys data I fds maps most"

text \<open>What an open file holds of the system, and its bytes behind it.\<close>

datatype resource = Descriptor int | Region addr

fun resource_of :: "PosixReadable \<Rightarrow> resource option" where
  "resource_of (Pread f) = (if has_permanent_fd f then Some (Descriptor (ra_fd f)) else None)"
| "resource_of (Mapped f) = Some (Region (mmap_base f))"

fun posix_open ::
    "(byte list \<Rightarrow> byte list option) \<Rightarrow> ('os \<Rightarrow> int \<Rightarrow> byte list option) \<Rightarrow> ('os \<Rightarrow> addr \<Rightarrow> byte list option) \<Rightarrow> 'os \<Rightarrow> PosixReadable \<times> byte list \<Rightarrow> bool" where
  "posix_open data fds maps os (Pread f, d) \<longleftrightarrow> length d < 2 ^ 63 \<and>
     (if has_permanent_fd f then fds os (ra_fd f) = Some d else data (ra_filename f) = Some d)"
| "posix_open data fds maps os (Mapped f, d) \<longleftrightarrow> maps os (mmap_base f) = Some d \<and> mmap_length f = of_nat (length d)"

text \<open>No two open files hold the same.\<close>

definition apart :: "(PosixReadable \<times> byte list) multiset \<Rightarrow> bool" where
  "apart M \<longleftrightarrow> (\<forall>r. size {#y \<in># M. resource_of (fst y) = Some r#} \<le> 1)"

fun permanent :: "PosixReadable \<Rightarrow> bool" where
  "permanent (Pread f) \<longleftrightarrow> has_permanent_fd f"
| "permanent (Mapped f) \<longleftrightarrow> False"

text \<open>The limiters count what is free of \<open>most\<close> mapped files and \<open>fd_most\<close> descriptors.\<close>

definition posix_inv ::
    "'os env_sys \<Rightarrow> (byte list \<Rightarrow> byte list option) \<Rightarrow> ('os \<Rightarrow> bool) \<Rightarrow> ('os \<Rightarrow> int \<Rightarrow> byte list option) \<Rightarrow> ('os \<Rightarrow> addr \<Rightarrow> byte list option) \<Rightarrow> nat \<Rightarrow> int \<Rightarrow>
      'os PosixEnv \<Rightarrow> (PosixReadable \<times> byte list) multiset \<Rightarrow> bool" where
  "posix_inv sys data I fds maps most fd_most w M \<longleftrightarrow> posix_sys_ok sys data I fds maps most \<and> I (pe_os w) \<and> finite (dom (maps (pe_os w))) \<and>
     int (card (dom (maps (pe_os w)))) + mmap_limiter w = int most \<and> int (size {#y \<in># M. permanent (fst y)#}) + fd_limiter w = fd_most \<and> apart M \<and> (\<forall>y \<in># M. posix_open data fds maps (pe_os w) y)"

lemma apart_add:
  assumes "apart M" "\<forall>y \<in># M. resource_of x \<noteq> None \<longrightarrow> resource_of (fst y) \<noteq> resource_of x"
  shows "apart (add_mset (x, d) M)"
  unfolding apart_def
proof
  fix r
  show "size {#y \<in># add_mset (x, d) M. resource_of (fst y) = Some r#} \<le> 1"
  proof (cases "resource_of x = Some r")
    case True
    then have "{#y \<in># M. resource_of (fst y) = Some r#} = {#}" using assms(2) by auto
    then show ?thesis using True by simp
  next
    case False
    then show ?thesis using assms(1) by (simp add: apart_def)
  qed
qed

lemma apart_del:
  assumes "apart (add_mset (x, d) M)"
  shows "apart M" "y \<in># M \<Longrightarrow> resource_of x = Some r \<Longrightarrow> resource_of (fst y) \<noteq> Some r"
proof -
  have s: "size {#y \<in># M. resource_of (fst y) = Some r#} + (if resource_of x = Some r then 1 else 0) \<le> 1" for r
    using assms [unfolded apart_def, THEN spec [of _ r]] by (auto split: if_splits)
  show "apart M" unfolding apart_def using s le_trans [OF le_add1] by blast
  assume y: "y \<in># M" "resource_of x = Some r"
  then have "{#y \<in># M. resource_of (fst y) = Some r#} = {#}" using s [of r] by simp
  then show "resource_of (fst y) \<noteq> Some r" using y(1) by (cases y) auto
qed

lemma open_keeps:
  assumes "os_keeps fds maps os os'" "posix_open data fds maps os y"
  shows "posix_open data fds maps os' y"
  using assms by (cases "(data, fds, maps, os, y)" rule: posix_open.cases) (auto simp: os_keeps_def)

text \<open>An open file that holds something else is as it was.\<close>

lemma open_close:
  assumes "\<forall>z. z \<noteq> fd \<longrightarrow> fds os' z = fds os z" "maps os' = maps os" "posix_open data fds maps os y" "resource_of (fst y) \<noteq> Some (Descriptor fd)"
  shows "posix_open data fds maps os' y"
  using assms by (cases "(data, fds, maps, os, y)" rule: posix_open.cases) (auto split: if_splits)

lemma open_unmap:
  assumes "\<forall>z e. fds os z = Some e \<longrightarrow> fds os' z = Some e" "maps os' = (maps os)(a := v)" "posix_open data fds maps os y"
    "resource_of (fst y) \<noteq> Some (Region a)"
  shows "posix_open data fds maps os' y"
  using assms by (cases "(data, fds, maps, os, y)" rule: posix_open.cases) auto

lemma os_open:
  assumes "os_files_ok sys data I fds maps" "I os"
  shows "data name = None \<Longrightarrow> \<exists>e os'. sys_open_rdonly sys name os = (Err e, os') \<and> I os' \<and> os_keeps fds maps os os'"
    "data name = Some d \<Longrightarrow> \<exists>fd os'. sys_open_rdonly sys name os = (Ret fd, os') \<and> I os' \<and> os_keeps fds maps os os' \<and> fds os fd = None \<and>
      fds os' fd = Some d \<and> length d < 2 ^ 63"
proof -
  note p = assms(1) [unfolded os_files_ok_def, THEN conjunct2, THEN conjunct1, THEN spec [of _ os], THEN spec [of _ name], THEN mp, OF assms(2)]
  obtain r os' where r: "sys_open_rdonly sys name os = (r, os')" by fastforce
  show "data name = None \<Longrightarrow> \<exists>e os'. sys_open_rdonly sys name os = (Err e, os') \<and> I os' \<and> os_keeps fds maps os os'" using p by (auto simp: r)
  assume d: "data name = Some d"
  then have "length d < 2 ^ 63" using assms(1) unfolding os_files_ok_def by blast
  then show "\<exists>fd os'. sys_open_rdonly sys name os = (Ret fd, os') \<and> I os' \<and> os_keeps fds maps os os' \<and> fds os fd = None \<and>
      fds os' fd = Some d \<and> length d < 2 ^ 63" using p d by (auto simp: r)
qed

lemma os_pread:
  assumes "os_files_ok sys data I fds maps" "I os" "fds os fd = Some d"
  shows "\<exists>r os'. sys_pread sys fd n k os = (r, os') \<and> I os' \<and> os_keeps fds maps os os' \<and>
    (if 0 \<le> k then r = Ret (take n (drop (nat k) d)) else (\<exists>e. r = Err e))"
  using assms(1) [unfolded os_files_ok_def, THEN conjunct2, THEN conjunct2, THEN conjunct1, THEN spec [of _ os], THEN spec [of _ fd],
      THEN spec [of _ d], THEN spec [of _ n], THEN spec [of _ k], THEN mp, OF assms(2), THEN mp, OF assms(3)]
  by (cases "sys_pread sys fd n k os") simp

lemma os_close:
  assumes "os_files_ok sys data I fds maps" "I os"
  shows "I (snd (sys_close sys fd os))" "y \<noteq> fd \<Longrightarrow> fds (snd (sys_close sys fd os)) y = fds os y" "maps (snd (sys_close sys fd os)) = maps os"
  using assms(1) [unfolded os_files_ok_def, THEN conjunct2, THEN conjunct2, THEN conjunct2, THEN spec [of _ os], THEN spec [of _ fd],
      THEN mp, OF assms(2)]
  by (cases "sys_close sys fd os"; simp)+

text \<open>Closing a descriptor that was opened in between.\<close>

lemma close_new:
  assumes "os_files_ok sys data I fds maps" "I os2" "os_keeps fds maps os os2" "fds os fd = None"
  shows "I (snd (sys_close sys fd os2))" "os_keeps fds maps os (snd (sys_close sys fd os2))"
proof -
  note c = os_close [OF assms(1,2)]
  show "I (snd (sys_close sys fd os2))" by (rule c(1))
  show "os_keeps fds maps os (snd (sys_close sys fd os2))"
    unfolding os_keeps_def
  proof (intro conjI allI impI)
    fix y d assume y: "fds os y = Some d"
    then have "y \<noteq> fd" using assms(4) by auto
    then show "fds (snd (sys_close sys fd os2)) y = Some d" using c(2) y assms(3) by (simp add: os_keeps_def)
  qed (use c(3) assms(3) in \<open>simp add: os_keeps_def\<close>)
qed

lemma keeps_trans: "os_keeps fds maps a b \<Longrightarrow> os_keeps fds maps b c \<Longrightarrow> os_keeps fds maps a c"
  by (simp add: os_keeps_def)

text \<open>A file is mapped to a new place, and its descriptor is closed.\<close>

lemma map_file_ok:
  assumes "os_maps_ok sys data I fds maps most" "I (pe_os w)" "data name = Some d" "d \<noteq> []" "fds (pe_os w) fd = Some d"
    "card (dom (maps (pe_os w))) < most"
  shows "\<exists>f os'. map_file sys name fd w = (OK, Some (Mapped f), w\<lparr>pe_os := os'\<rparr>) \<and> I os' \<and>
    (\<forall>y e. fds (pe_os w) y = Some e \<longrightarrow> fds os' y = Some e) \<and> maps (pe_os w) (mmap_base f) = None \<and>
    maps os' = (maps (pe_os w))(mmap_base f \<mapsto> d) \<and> mmap_length f = of_nat (length d)"
proof -
  obtain r os1 where r: "sys_stat_size sys name (pe_os w) = (r, os1)" by fastforce
  have 1: "r = Ret (of_nat (length d))" "I os1" "os_keeps fds maps (pe_os w) os1"
    using assms(1) [unfolded os_maps_ok_def, THEN conjunct1, THEN spec [of _ "pe_os w"], THEN spec [of _ name], THEN spec [of _ d], THEN mp,
        OF assms(2), THEN mp, OF assms(3)] by (simp_all add: r)
  have fd: "fds os1 fd = Some d" "maps os1 = maps (pe_os w)" using 1(3) assms(5) by (simp_all add: os_keeps_def)
  obtain q os2 where q: "sys_mmap sys (of_nat (length d)) fd os1 = (q, os2)" by fastforce
  have 2: "I os2" "\<forall>y e. fds os1 y = Some e \<longrightarrow> fds os2 y = Some e" "\<exists>a. q = Ret a \<and> maps os1 a = None \<and> maps os2 = (maps os1)(a \<mapsto> d)"
    using assms(1) [unfolded os_maps_ok_def, THEN conjunct2, THEN conjunct1, THEN spec [of _ os1], THEN spec [of _ fd], THEN spec [of _ d], THEN mp,
        OF 1(2), THEN mp, OF fd(1), THEN mp, OF assms(4)] assms(6) by (simp_all add: q fd(2))
  obtain a where a: "q = Ret a" "maps os1 a = None" "maps os2 = (maps os1)(a \<mapsto> d)" using 2(3) by blast
  have "map_file sys name fd w = (OK, Some (Mapped \<lparr>mmap_base = a, mmap_length = of_nat (length d), mm_filename = name\<rparr>), w\<lparr>pe_os := os2\<rparr>)"
    using r q 1(1) a(1) by (simp add: map_file_def PosixEnv_GetFileSize_def)
  then show ?thesis using 1(3) 2(1,2) a(2,3) fd(2)
    by (intro exI [of _ "\<lparr>mmap_base = a, mmap_length = of_nat (length d), mm_filename = name\<rparr>"] exI [of _ os2]) (simp add: os_keeps_def)
qed

text \<open>The two ways of reading.\<close>

lemma mapped_read:
  assumes "maps_shown sys I maps" "I (pe_os w)" "maps (pe_os w) (mmap_base f) = Some d" "mmap_length f = of_nat (length d)"
  shows "\<exists>s r. posix_read_at sys (Mapped f) off n w = (s, r, False, w) \<and> (unat off + n < 2 ^ 64 \<longrightarrow> ok s \<longrightarrow> r = take n (drop (unat off) d)) \<and>
    (unat off + n \<le> length d \<longrightarrow> ok s)"
proof -
  have l: "length d < 2 ^ 63" and sh: "\<And>i n. i + n \<le> length d \<Longrightarrow> mem_read (sys_mem sys (pe_os w)) (mmap_base f + of_nat i) n = take n (drop i d)"
    using assms(1) [unfolded maps_shown_def, THEN spec [of _ "pe_os w"], THEN spec [of _ "mmap_base f"], THEN spec [of _ d], THEN mp, OF assms(2),
        THEN mp, OF assms(3)] by blast+
  have len: "unat (of_nat (length d) :: uint64) = length d" using l by (simp add: unat_of_nat take_bit_nat_eq_self)
  have sum: "unat (off + of_nat n) = unat off + n \<and> unat (of_nat n :: uint64) = n" if "unat off + n < 2 ^ 64"
    using that by (simp add: unat_word_ariths unat_of_nat take_bit_nat_eq_self)
  have g: "mmap_length f < off + of_nat n \<longleftrightarrow> length d < unat off + n" if "unat off + n < 2 ^ 64"
    using sum [OF that] len assms(4) by (simp add: word_less_nat_alt)
  show ?thesis
  proof (cases "unat off + n < 2 ^ 64")
    case True
    then show ?thesis using g [OF True] sum [OF True] sh [of "unat off" n]
      by (auto simp: PosixMmapReadableFile_Read_def PosixError_not_ok)
  next
    case False
    then have "\<not> unat off + n \<le> length d" using l by simp
    then show ?thesis using False by (cases "PosixMmapReadableFile_Read (es_sys sys) (sys_mem sys (pe_os w)) f off (of_nat n)") simp
  qed
qed

lemma pread_read:
  assumes ok: "os_files_ok sys data I fds maps" "I os"
    and f: "if has_permanent_fd f then fds os (ra_fd f) = Some d else data (ra_filename f) = Some d"
  shows "\<exists>s r os'. PosixRandomAccessFile_Read sys f off n [] os = (s, r, os') \<and> I os' \<and> os_keeps fds maps os os' \<and>
    (if 0 \<le> sint off then s = OK \<and> r = take n (drop (unat off) d) else \<not> ok s)"
proof (cases "has_permanent_fd f")
  case True
  then obtain r os1 where r: "sys_pread sys (ra_fd f) n (sint off) os = (r, os1)" "I os1" "os_keeps fds maps os os1"
    "if 0 \<le> sint off then r = Ret (take n (drop (nat (sint off)) d)) else (\<exists>e. r = Err e)" using os_pread [OF ok, of "ra_fd f" d n "sint off"] f by (auto split: if_splits)
  then show ?thesis using True by (auto simp: PosixRandomAccessFile_Read_def nat_sint PosixError_not_ok split: if_splits)
next
  case False
  then obtain fd os1 where o: "sys_open_rdonly sys (ra_filename f) os = (Ret fd, os1)" "I os1" "os_keeps fds maps os os1" "fds os fd = None"
    "fds os1 fd = Some d" using os_open(2) [OF ok, of "ra_filename f" d] f by auto
  obtain r os2 where r: "sys_pread sys fd n (sint off) os1 = (r, os2)" "I os2" "os_keeps fds maps os1 os2"
    "if 0 \<le> sint off then r = Ret (take n (drop (nat (sint off)) d)) else (\<exists>e. r = Err e)" using os_pread [OF ok(1) o(2), of fd d n "sint off"] o(5) by (auto split: if_splits)
  note c = close_new [OF ok(1) r(2) keeps_trans [OF o(3) r(3)] o(4)]
  then show ?thesis using False o(1) r(1,4) by (auto simp: PosixRandomAccessFile_Read_def nat_sint PosixError_not_ok Let_def split: if_splits)
qed

text \<open>Opening a file, in the three ways.\<close>

lemma posix_open_new:
  assumes inv: "posix_inv sys data I fds maps most fd_most w M" and d: "data name = Some d" "d \<noteq> []"
  shows "\<exists>x w'. PosixEnv_NewRandomAccessFile sys name w = (OK, Some x, w') \<and> posix_inv sys data I fds maps most fd_most w' (add_mset (x, d) M)"
proof -
  have sok: "posix_sys_ok sys data I fds maps most" and ok: "os_files_ok (es_sys sys) data I fds maps" "I (pe_os w)"
    and m: "os_maps_ok sys data I fds maps most" and fin: "finite (dom (maps (pe_os w)))" "int (card (dom (maps (pe_os w)))) + mmap_limiter w = int most"
    and pm: "int (size {#y \<in># M. permanent (fst y)#}) + fd_limiter w = fd_most" and M: "apart M" "\<forall>y \<in># M. posix_open data fds maps (pe_os w) y"
    using inv by (simp_all add: posix_inv_def posix_sys_ok_def)
  obtain fd os1 where o: "sys_open_rdonly (es_sys sys) name (pe_os w) = (Ret fd, os1)" "I os1" "os_keeps fds maps (pe_os w) os1"
    "fds (pe_os w) fd = None" "fds os1 fd = Some d" "length d < 2 ^ 63" using os_open(2) [OF ok d(1)] by blast
  have new_fd: "resource_of (fst y) \<noteq> Some (Descriptor fd)" if "y \<in># M" for y
    using M(2) [rule_format, OF that] o(4) by (cases "(data, fds, maps, pe_os w, y)" rule: posix_open.cases) auto
  have M1: "\<forall>y \<in># M. posix_open data fds maps os1 y" using M(2) open_keeps [OF o(3)] by blast
  have m1: "maps os1 = maps (pe_os w)" using o(3) by (simp add: os_keeps_def)
  show ?thesis
  proof (cases "0 < mmap_limiter w")
    case True
    let ?w1 = "w\<lparr>pe_os := os1, mmap_limiter := mmap_limiter w - 1\<rparr>"
    have c: "card (dom (maps (pe_os ?w1))) < most" using fin(2) True m1 by simp
    obtain f os2 where f: "map_file sys name fd ?w1 = (OK, Some (Mapped f), ?w1\<lparr>pe_os := os2\<rparr>)" "I os2" "\<forall>y e. fds os1 y = Some e \<longrightarrow> fds os2 y = Some e"
      "maps os1 (mmap_base f) = None" "maps os2 = (maps os1)(mmap_base f \<mapsto> d)" "mmap_length f = of_nat (length d)"
      using map_file_ok [OF m _ d _ c, of fd] o(2,5) by auto
    let ?os3 = "snd (sys_close (es_sys sys) fd os2)"
    let ?w' = "?w1\<lparr>pe_os := ?os3\<rparr>"
    have cl: "I ?os3" "\<forall>z. z \<noteq> fd \<longrightarrow> fds ?os3 z = fds os2 z" "maps ?os3 = maps os2" using os_close [OF ok(1) f(2)] by blast+
    have new_base: "resource_of (fst y) \<noteq> Some (Region (mmap_base f))" if "y \<in># M" for y
      using M1 [rule_format, OF that] f(4) by (cases "(data, fds, maps, os1, y)" rule: posix_open.cases) auto
    have "posix_open data fds maps ?os3 y" if "y \<in># M" for y
      using open_close [where fd = fd, OF cl(2,3)] open_unmap [OF f(3,5)] M1 new_fd new_base that by blast
    moreover have "posix_open data fds maps ?os3 (Mapped f, d)" using f(5,6) cl(3) by simp
    moreover have "apart (add_mset (Mapped f, d) M)" using new_base by (intro apart_add [OF M(1)]) simp
    moreover have "maps (pe_os w) (mmap_base f) = None" using f(4) m1 by simp
    then have "finite (dom (maps ?os3)) \<and> int (card (dom (maps ?os3))) + (mmap_limiter w - 1) = int most"
      using fin unfolding cl(3) f(5) m1 by (simp add: card_insert_if domIff)
    ultimately have "posix_inv sys data I fds maps most fd_most ?w' (add_mset (Mapped f, d) M)" using sok cl(1) pm by (simp add: posix_inv_def)
    moreover have "PosixEnv_NewRandomAccessFile sys name w = (OK, Some (Mapped f), ?w')"
      using o(1) f(1) True by (simp add: PosixEnv_NewRandomAccessFile_def Limiter_Acquire_def Let_def)
    ultimately show ?thesis by blast
  next
    case no_map: False
    show ?thesis
    proof (cases "0 < fd_limiter w")
      case True
      let ?f = "\<lparr>has_permanent_fd = True, ra_fd = fd, ra_filename = name\<rparr>"
      let ?w' = "w\<lparr>pe_os := os1, fd_limiter := fd_limiter w - 1\<rparr>"
      have "PosixEnv_NewRandomAccessFile sys name w = (OK, Some (Pread ?f), ?w')"
        using o(1) True no_map by (simp add: PosixEnv_NewRandomAccessFile_def PosixRandomAccessFile_new_def Limiter_Acquire_def Let_def)
      moreover have "apart (add_mset (Pread ?f, d) M)" using new_fd by (intro apart_add [OF M(1)]) simp
      then have "posix_inv sys data I fds maps most fd_most ?w' (add_mset (Pread ?f, d) M)"
        using sok o(2,5,6) fin M1 pm by (simp add: posix_inv_def m1)
      ultimately show ?thesis by blast
    next
      case False
      let ?f = "\<lparr>has_permanent_fd = False, ra_fd = - 1, ra_filename = name\<rparr>" and ?os2 = "snd (sys_close (es_sys sys) fd os1)"
      let ?w' = "w\<lparr>pe_os := ?os2\<rparr>"
      note c = close_new [OF ok(1) o(2,3,4)]
      have "PosixEnv_NewRandomAccessFile sys name w = (OK, Some (Pread ?f), ?w')"
        using o(1) False no_map by (simp add: PosixEnv_NewRandomAccessFile_def PosixRandomAccessFile_new_def Limiter_Acquire_def Let_def)
      moreover have "apart (add_mset (Pread ?f, d) M)" by (rule apart_add [OF M(1)]) simp
      moreover have "maps ?os2 = maps (pe_os w)" using c(2) by (simp add: os_keeps_def)
      ultimately have "posix_inv sys data I fds maps most fd_most ?w' (add_mset (Pread ?f, d) M)"
        using sok c fin pm M(2) open_keeps [OF c(2)] d(1) o(6) by (simp add: posix_inv_def)
      then show ?thesis
        using o(1) False no_map by (simp add: PosixEnv_NewRandomAccessFile_def PosixRandomAccessFile_new_def Limiter_Acquire_def Let_def)
    qed
  qed
qed

text \<open>Deleting a file gives back what it holds.\<close>

lemma posix_delete_inv:
  assumes inv: "posix_inv sys data I fds maps most fd_most w (add_mset (x, d) M)"
  shows "posix_inv sys data I fds maps most fd_most (posix_delete sys x w) M"
proof -
  have sok: "posix_sys_ok sys data I fds maps most" and ok: "os_files_ok (es_sys sys) data I fds maps" "I (pe_os w)"
    and m: "os_maps_ok sys data I fds maps most" and fin: "finite (dom (maps (pe_os w)))" "int (card (dom (maps (pe_os w)))) + mmap_limiter w = int most"
    and pm: "int (size {#y \<in># add_mset (x, d) M. permanent (fst y)#}) + fd_limiter w = fd_most" and M: "apart (add_mset (x, d) M)" "\<forall>y \<in># M. posix_open data fds maps (pe_os w) y" and x: "posix_open data fds maps (pe_os w) (x, d)"
    using inv by (simp_all add: posix_inv_def posix_sys_ok_def)
  note a = apart_del [OF M(1)]
  show ?thesis
  proof (cases x)
    case (Pread f)
    show ?thesis
    proof (cases "has_permanent_fd f")
      case True
      let ?os = "snd (sys_close (es_sys sys) (ra_fd f) (pe_os w))"
      have c: "I ?os" "\<forall>z. z \<noteq> ra_fd f \<longrightarrow> fds ?os z = fds (pe_os w) z" "maps ?os = maps (pe_os w)" using os_close [OF ok] by blast+
      have "\<forall>y \<in># M. posix_open data fds maps ?os y"
        using open_close [where fd = "ra_fd f", OF c(2,3)] M(2) a(2) Pread True by simp
      then show ?thesis using sok c(1,3) fin pm a(1) Pread True
        by (simp add: posix_inv_def PosixRandomAccessFile_destroy_def Limiter_Release_def)
    next
      case False
      then show ?thesis using inv a(1) Pread by (simp add: posix_inv_def PosixRandomAccessFile_destroy_def)
    qed
  next
    case (Mapped f)
    let ?a = "mmap_base f"
    have f: "maps (pe_os w) ?a = Some d" "mmap_length f = of_nat (length d)" using x Mapped by simp_all
    obtain r os1 where r: "sys_munmap (es_sys sys) ?a (of_nat (length d)) (pe_os w) = (r, os1)" by fastforce
    have u: "I os1" "\<forall>y e. fds (pe_os w) y = Some e \<longrightarrow> fds os1 y = Some e" "maps os1 = (maps (pe_os w))(?a := None)"
      using m [unfolded os_maps_ok_def, THEN conjunct2, THEN conjunct2, THEN spec [of _ "pe_os w"], THEN spec [of _ ?a], THEN spec [of _ d], THEN mp,
          OF ok(2), THEN mp, OF f(1)] by (simp_all add: r)
    have "posix_open data fds maps os1 y" if "y \<in># M" for y
      using open_unmap [OF u(2,3)] M(2) a(2) [OF that] Mapped that by simp
    moreover have "finite (dom (maps os1)) \<and> int (card (dom (maps os1))) + (mmap_limiter w + 1) = int most"
    proof -
      have "?a \<in> dom (maps (pe_os w))" using f(1) by blast
      then have "card (dom (maps (pe_os w))) = Suc (card (dom (maps os1)))"
        using card.remove [OF fin(1)] unfolding u(3) by simp
      then show ?thesis using fin unfolding u(3) by simp
    qed
    ultimately show ?thesis using sok u(1) a(1) pm Mapped r f(2)
      by (simp add: posix_inv_def PosixMmapReadableFile_destroy_def Limiter_Release_def)
  qed
qed

lemma posix_env_files:
  "env_files (posix_env sys) data (posix_inv sys data I fds maps most fd_most)"
proof (unfold_locales, goal_cases)
  case (1 w M x d)
  then have "posix_open data fds maps (pe_os w) (x, d)" "maps_shown sys I maps" "I (pe_os w)" by (auto simp: posix_inv_def posix_sys_ok_def)
  then show ?case by (cases x) (auto simp: maps_shown_def)
next
  case (2 w M name d)
  then show ?case using posix_open_new by (simp add: posix_env_def)
next
  case (3 w M name)
  then have ok: "os_files_ok (es_sys sys) data I fds maps" "I (pe_os w)" by (simp_all add: posix_inv_def posix_sys_ok_def)
  obtain e os1 where o: "sys_open_rdonly (es_sys sys) name (pe_os w) = (Err e, os1)" "I os1" "os_keeps fds maps (pe_os w) os1"
    using os_open(1) [OF ok 3(2)] by blast
  then have "posix_inv sys data I fds maps most fd_most (w\<lparr>pe_os := os1\<rparr>) M" using 3(1) open_keeps [OF o(3)] by (simp add: posix_inv_def os_keeps_def)
  then show ?case using o(1) by (simp add: posix_env_def PosixEnv_NewRandomAccessFile_def PosixError_not_ok)
next
  case (4 w M x d off n s r b w')
  then have ok: "os_files_ok (es_sys sys) data I fds maps" "maps_shown sys I maps" "I (pe_os w)" and x: "posix_open data fds maps (pe_os w) (x, d)"
    by (auto simp: posix_inv_def posix_sys_ok_def)
  have v: "posix_read_at sys x off n w = (s, r, b, w')" using 4(3) by (simp add: posix_env_def)
  show ?case
  proof (cases x)
    case (Mapped f)
    then have m: "maps (pe_os w) (mmap_base f) = Some d" "mmap_length f = of_nat (length d)" using x by simp_all
    then show ?thesis using mapped_read [OF ok(2,3) m, of off n] v Mapped 4(1) by (auto split: prod.splits if_splits)
  next
    case (Pread f)
    then have f: "length d < 2 ^ 63" "if has_permanent_fd f then fds (pe_os w) (ra_fd f) = Some d else data (ra_filename f) = Some d"
      using x by simp_all
    obtain s' r' os' where p: "PosixRandomAccessFile_Read (es_sys sys) f off n [] (pe_os w) = (s', r', os')" "I os'" "os_keeps fds maps (pe_os w) os'"
      "if 0 \<le> sint off then s' = OK \<and> r' = take n (drop (unat off) d) else \<not> ok s'" using pread_read [OF ok(1,3) f(2), of off n] by blast
    have e: "s = s'" "r = r'" "w' = w\<lparr>pe_os := os'\<rparr>" using v p(1) Pread by simp_all
    have "posix_inv sys data I fds maps most fd_most w' M"
      using 4(1) p(2,3) open_keeps [OF p(3)] unfolding e(3) by (simp add: posix_inv_def os_keeps_def)
    moreover have "unat off + n \<le> length d \<Longrightarrow> sint off = int (unat off)" using f(1) sint_small [of off] by simp
    ultimately show ?thesis using p(4) e(1,2) by (auto split: if_splits)
  qed
next
  case (5 w x d M)
  then show ?case using posix_delete_inv by (simp add: posix_env_def)
qed

interpretation posix_files: env_files "posix_env sys" data "posix_inv sys data I fds maps most fd_most"
  for sys data I fds maps most fd_most
  by (rule posix_env_files)

section \<open>Reads that wrap around\<close>

text \<open>
  C40: A read of a mapped file computes the end of the bytes at 64 bits. For an offset among the last numbers of 64 bits, such as a damaged
  handle of a block may have, and a length that makes the sum wrap to an end within the file, the check passes, and the bytes that are
  returned start in front of the mapped region.
\<close>

theorem mmap_read_wraps:
  assumes "0 < j" "j + k < 2 ^ 64" "k \<le> unat (mmap_length file)"
  shows "PosixMmapReadableFile_Read sys m file (- of_nat j) (of_nat (j + k)) = (OK, mem_read m (mmap_base file - of_nat j) (j + k))"
proof -
  have u: "unat (of_nat (j + k) :: size_t) = j + k" "unat (of_nat k :: uint64) = k"
    using assms(2) by (simp_all only: unat_of_nat take_bit_nat_eq_self) (simp_all add: take_bit_nat_eq_self)
  have "- of_nat j + of_nat (j + k) = (of_nat k :: uint64)" by simp
  then have "\<not> mmap_length file < - of_nat j + of_nat (j + k)" using u(2) assms(3) by (simp only: word_less_nat_alt not_less)
  then show ?thesis unfolding PosixMmapReadableFile_Read_def u(1) by simp
qed

theorem mmap_read_wraps_witness:
  "PosixMmapReadableFile_Read slow_sys (\<lambda>a. if a < 4096 then 7 else 1) \<lparr>mmap_base = 4096, mmap_length = 100, mm_filename = c_str ''000005.ldb''\<rparr>
     (- 3) 5 = (OK, [7, 7, 7, 1, 1])"
  using mmap_read_wraps [of 3 2 "\<lparr>mmap_base = 4096, mmap_length = 100, mm_filename = c_str ''000005.ldb''\<rparr>" slow_sys
      "\<lambda>a. if a < 4096 then 7 else 1"]
  by (simp add: mem_read_def upt_rec)

end
