(* ===== verification/Ldb_Filename.thy ===== *)
theory Ldb_Filename
  imports Ldb_Status
begin

text \<open>
  \<^verbatim>\<open>leveldb-library/db/filename.h\<close> and \<^verbatim>\<open>filename.cc\<close>, with the decimal numbers of \<^verbatim>\<open>util/logging.cc\<close>: the names of the files of a
  database, and the numbers and types that are read back from them.
\<close>

section \<open>Numbers\<close>

definition AppendNumberTo :: "byte list \<Rightarrow> uint64 \<Rightarrow> byte list" where
  "AppendNumberTo str num = str @ dec_nat (unat num)"

definition NumberToString :: "uint64 \<Rightarrow> byte list" where
  "NumberToString num = AppendNumberTo [] num"

definition kMaxUint64 :: uint64 where
  "kMaxUint64 = - 1"

definition kLastDigitOfMaxUint64 :: byte where
  "kLastDigitOfMaxUint64 = 48 + ucast (kMaxUint64 mod 10)"

text \<open>The digits in front; none when the number does not fit.\<close>

fun consume_digits :: "slice \<Rightarrow> uint64 \<Rightarrow> (uint64 \<times> slice) option" where
  "consume_digits [] v = Some (v, [])"
| "consume_digits (ch # s) v =
     (if ch < 48 \<or> ch > 57 then Some (v, ch # s)
      else if v > kMaxUint64 div 10 \<or> v = kMaxUint64 div 10 \<and> ch > kLastDigitOfMaxUint64 then None
      else consume_digits s (v * 10 + (ucast ch - 48)))"

text \<open>The result, the number if it has been set, and what is left.\<close>

definition ConsumeDecimalNumber :: "slice \<Rightarrow> bool \<times> uint64 option \<times> slice" where
  "ConsumeDecimalNumber s =
     (case consume_digits s 0 of
        None \<Rightarrow> (False, None, s)
      | Some (v, rest) \<Rightarrow> (length s - length rest \<noteq> 0, Some v, rest))"

section \<open>Names\<close>

datatype FileType = kLogFile | kDBLockFile | kTableFile | kDescriptorFile | kCurrentFile | kTempFile | kInfoLogFile

text \<open>\<^verbatim>\<open>snprintf\<close> with \<^verbatim>\<open>%06llu\<close> into a buffer of 100 bytes.\<close>

definition dec_pad6 :: "uint64 \<Rightarrow> byte list" where
  "dec_pad6 n = replicate (6 - length (dec_nat (unat n))) 48 @ dec_nat (unat n)"

definition MakeFileName :: "byte list \<Rightarrow> uint64 \<Rightarrow> byte list \<Rightarrow> byte list" where
  "MakeFileName dbname number suffix = dbname @ take 99 (c_str ''/'' @ dec_pad6 number @ c_str ''.'' @ suffix)"

text \<open>The names with a number assert that it is positive; the result is none when it is not.\<close>

definition LogFileName :: "byte list \<Rightarrow> uint64 \<Rightarrow> byte list option" where
  "LogFileName dbname number = (if number > 0 then Some (MakeFileName dbname number (c_str ''log'')) else None)"

definition TableFileName :: "byte list \<Rightarrow> uint64 \<Rightarrow> byte list option" where
  "TableFileName dbname number = (if number > 0 then Some (MakeFileName dbname number (c_str ''ldb'')) else None)"

definition SSTTableFileName :: "byte list \<Rightarrow> uint64 \<Rightarrow> byte list option" where
  "SSTTableFileName dbname number = (if number > 0 then Some (MakeFileName dbname number (c_str ''sst'')) else None)"

definition DescriptorFileName :: "byte list \<Rightarrow> uint64 \<Rightarrow> byte list option" where
  "DescriptorFileName dbname number = (if number > 0 then Some (dbname @ take 99 (c_str ''/MANIFEST-'' @ dec_pad6 number)) else None)"

definition CurrentFileName :: "byte list \<Rightarrow> byte list" where
  "CurrentFileName dbname = dbname @ c_str ''/CURRENT''"

definition LockFileName :: "byte list \<Rightarrow> byte list" where
  "LockFileName dbname = dbname @ c_str ''/LOCK''"

definition TempFileName :: "byte list \<Rightarrow> uint64 \<Rightarrow> byte list option" where
  "TempFileName dbname number = (if number > 0 then Some (MakeFileName dbname number (c_str ''dbtmp'')) else None)"

definition InfoLogFileName :: "byte list \<Rightarrow> byte list" where
  "InfoLogFileName dbname = dbname @ c_str ''/LOG''"

definition OldInfoLogFileName :: "byte list \<Rightarrow> byte list" where
  "OldInfoLogFileName dbname = dbname @ c_str ''/LOG.old''"

text \<open>None: the function returns false, and has set nothing.\<close>

definition parse_descriptor :: "slice \<Rightarrow> (uint64 \<times> FileType) option" where
  "parse_descriptor rest =
     (case ConsumeDecimalNumber rest of
        (True, Some num, rest) \<Rightarrow> if rest \<noteq> [] then None else Some (num, kDescriptorFile)
      | _ \<Rightarrow> None)"

definition parse_numbered :: "slice \<Rightarrow> (uint64 \<times> FileType) option" where
  "parse_numbered rest =
     (case ConsumeDecimalNumber rest of
        (True, Some num, suffix) \<Rightarrow>
          if slice_eq suffix (c_str ''.log'') then Some (num, kLogFile)
          else if slice_eq suffix (c_str ''.sst'') \<or> slice_eq suffix (c_str ''.ldb'') then Some (num, kTableFile)
          else if slice_eq suffix (c_str ''.dbtmp'') then Some (num, kTempFile)
          else None
      | _ \<Rightarrow> None)"

definition ParseFileName :: "slice \<Rightarrow> (uint64 \<times> FileType) option" where
  "ParseFileName rest =
     (if slice_eq rest (c_str ''CURRENT'') then Some (0, kCurrentFile)
      else if slice_eq rest (c_str ''LOCK'') then Some (0, kDBLockFile)
      else if slice_eq rest (c_str ''LOG'') \<or> slice_eq rest (c_str ''LOG.old'') then Some (0, kInfoLogFile)
      else if starts_with rest (c_str ''MANIFEST-'') then parse_descriptor (remove_prefix (length (c_str ''MANIFEST-'')) rest)
      else parse_numbered rest)"

section \<open>Reading back\<close>

definition digit_byte :: "byte \<Rightarrow> bool" where
  "digit_byte b \<longleftrightarrow> \<not> (b < 48 \<or> b > 57)"

definition digits_value :: "byte list \<Rightarrow> nat \<Rightarrow> nat" where
  "digits_value ds v = foldl (\<lambda>a d. 10 * a + (unat d - 48)) v ds"

lemma digits_value_simps [simp]:
  "digits_value [] v = v" "digits_value (d # ds) v = digits_value ds (10 * v + (unat d - 48))"
  "digits_value (ds @ es) v = digits_value es (digits_value ds v)"
  by (simp_all add: digits_value_def)

lemma digits_value_ge: "v \<le> digits_value ds v"
proof (induction ds arbitrary: v)
  case (Cons d ds)
  show ?case using Cons [of "10 * v + (unat d - 48)"] by simp
qed simp

lemma dec_nat_digits: "(\<forall>d \<in> set (dec_nat n). digit_byte d) \<and> digits_value (dec_nat n) 0 = n \<and> dec_nat n \<noteq> []"
proof (induction n rule: dec_nat.induct)
  case (1 n)
  have d: "digit_byte (of_nat (48 + k))" "unat (of_nat (48 + k) :: byte) = 48 + k" if "k < 10" for k
    using that by (auto simp: digit_byte_def word_less_nat_alt unat_of_nat take_bit_nat_eq_self simp del: of_nat_add)
  show ?case
  proof (cases "n < 10")
    case True
    then show ?thesis using d [of n] by (subst (1 2 3) dec_nat.simps) simp
  next
    case False
    have e: "dec_nat n = dec_nat (n div 10) @ [of_nat (48 + n mod 10)]" using False by (subst dec_nat.simps) simp
    show ?thesis unfolding e using 1 [OF False] d [of "n mod 10"] by (auto simp del: of_nat_add)
  qed
qed

lemma length_dec_nat: "n < 10 ^ k \<Longrightarrow> 0 < k \<Longrightarrow> length (dec_nat n) \<le> k"
proof (induction k arbitrary: n)
  case (Suc k)
  show ?case
  proof (cases "n < 10")
    case True
    then show ?thesis by (subst dec_nat.simps) simp
  next
    case False
    then have k: "0 < k" using Suc.prems(1) by (cases k) simp_all
    have "n div 10 < 10 ^ k" using Suc.prems(1) by (simp add: less_mult_imp_div_less)
    then have "length (dec_nat (n div 10)) \<le> k" using Suc.IH k by blast
    then show ?thesis using False by (subst dec_nat.simps) simp
  qed
qed simp

lemma consume_digits_value:
  assumes "\<forall>d \<in> set ds. digit_byte d" "digits_value ds (unat v) < 2 ^ 64" "rest = [] \<or> \<not> digit_byte (hd rest)"
  shows "consume_digits (ds @ rest) v = Some (of_nat (digits_value ds (unat v)), rest)"
  using assms(1,2)
proof (induction ds arbitrary: v)
  case Nil
  then show ?case using assms(3) by (cases rest) (simp_all add: digit_byte_def)
next
  case (Cons d ds)
  have d: "48 \<le> unat d" "unat d \<le> 57" using Cons.prems(1) by (auto simp: digit_byte_def word_less_nat_alt not_less)
  have le: "10 * unat v + (unat d - 48) < 2 ^ 64" using digits_value_ge [of "10 * unat v + (unat d - 48)" ds] Cons.prems(2) by simp
  have u: "unat (ucast d - 48 :: uint64) = unat d - 48"
    using d by (subst unat_sub) (simp_all add: word_le_nat_alt unsigned_ucast_eq take_bit_nat_eq_self)
  have v: "unat (v * 10 + (ucast d - 48)) = 10 * unat v + (unat d - 48)"
    using le by (simp add: unat_word_ariths u mult.commute)
  have "\<not> (v > kMaxUint64 div 10 \<or> v = kMaxUint64 div 10 \<and> d > kLastDigitOfMaxUint64)"
    using le d by (auto simp: kMaxUint64_def kLastDigitOfMaxUint64_def word_less_nat_alt unat_div)
  then show ?case using Cons.IH [of "v * 10 + (ucast d - 48)"] Cons.prems v by (simp add: digit_byte_def)
qed

lemma dec_pad6_digits: "(\<forall>d \<in> set (dec_pad6 n). digit_byte d) \<and> digits_value (dec_pad6 n) 0 = unat n \<and> dec_pad6 n \<noteq> [] \<and> length (dec_pad6 n) \<le> 20"
proof -
  have z: "digits_value (replicate k 48) 0 = 0" for k by (induction k) simp_all
  have "unat n < 10 ^ 20" using unat_less64 [of n] by simp
  then have "length (dec_nat (unat n)) \<le> 20" by (rule length_dec_nat) simp
  then show ?thesis using dec_nat_digits [of "unat n"] by (auto simp: dec_pad6_def z digit_byte_def)
qed

lemma consume_number:
  assumes "rest = [] \<or> \<not> digit_byte (hd rest)"
  shows "ConsumeDecimalNumber (dec_pad6 n @ rest) = (True, Some n, rest)"
  using consume_digits_value [of "dec_pad6 n" 0 rest] dec_pad6_digits [of n] unat_less64 [of n] assms
  by (simp add: ConsumeDecimalNumber_def)

text \<open>A name that starts with a digit is none of the others.\<close>

lemma starts_with_iff: "starts_with s x \<longleftrightarrow> take (length x) s = x"
  using slice_eq_iff [of "take (length x) s" x] by (auto simp: starts_with_def slice_eq_def)

lemma parse_digits: "ParseFileName (dec_pad6 n @ s) = parse_numbered (dec_pad6 n @ s)"
proof -
  obtain d ds where d: "dec_pad6 n = d # ds" "digit_byte d" using dec_pad6_digits [of n] by (cases "dec_pad6 n") auto
  have "d \<noteq> 67" "d \<noteq> 76" "d \<noteq> 77" using d(2) by (auto simp: digit_byte_def)
  then show ?thesis by (simp add: ParseFileName_def slice_eq_iff starts_with_iff d c_str_def)
qed

lemma make_name: "length suffix < 70 \<Longrightarrow> MakeFileName dbname n suffix = dbname @ c_str ''/'' @ dec_pad6 n @ c_str ''.'' @ suffix"
  using dec_pad6_digits [of n] by (simp add: MakeFileName_def c_str_def) linarith

text \<open>
  C39: The names of the files of a database are read back. Behind the name of the database and a slash, the name of a log, table, descriptor
  or temporary file with any positive number of 64 bits is parsed to this number and to its type, with the old suffix for tables also, and
  the names without a number are parsed to their types.
\<close>

theorem filename_roundtrip:
  assumes "0 < n"
  shows "\<exists>l t s d m. LogFileName db n = Some (db @ c_str ''/'' @ l) \<and> ParseFileName l = Some (n, kLogFile) \<and>
    TableFileName db n = Some (db @ c_str ''/'' @ t) \<and> ParseFileName t = Some (n, kTableFile) \<and>
    SSTTableFileName db n = Some (db @ c_str ''/'' @ s) \<and> ParseFileName s = Some (n, kTableFile) \<and>
    DescriptorFileName db n = Some (db @ c_str ''/'' @ d) \<and> ParseFileName d = Some (n, kDescriptorFile) \<and>
    TempFileName db n = Some (db @ c_str ''/'' @ m) \<and> ParseFileName m = Some (n, kTempFile) \<and>
    ParseFileName (drop (length db + 1) (CurrentFileName db)) = Some (0, kCurrentFile) \<and>
    ParseFileName (drop (length db + 1) (LockFileName db)) = Some (0, kDBLockFile) \<and>
    ParseFileName (drop (length db + 1) (InfoLogFileName db)) = Some (0, kInfoLogFile) \<and>
    ParseFileName (drop (length db + 1) (OldInfoLogFileName db)) = Some (0, kInfoLogFile)"
proof -
  let ?dot = "\<lambda>x. dec_pad6 n @ c_str ''.'' @ c_str x"
  have p: "parse_numbered (?dot x) = (if c_str x = c_str ''log'' then Some (n, kLogFile)
      else if c_str x = c_str ''sst'' \<or> c_str x = c_str ''ldb'' then Some (n, kTableFile)
      else if c_str x = c_str ''dbtmp'' then Some (n, kTempFile) else None)" for x
    using consume_number [of "c_str ''.'' @ c_str x" n] by (simp add: parse_numbered_def slice_eq_iff digit_byte_def c_str_def)
  have d: "DescriptorFileName db n = Some (db @ c_str ''/'' @ c_str ''MANIFEST-'' @ dec_pad6 n)"
    using dec_pad6_digits [of n] assms by (simp add: DescriptorFileName_def c_str_def)
  have m: "ParseFileName (c_str ''MANIFEST-'' @ dec_pad6 n) = Some (n, kDescriptorFile)"
    using consume_number [of "[]" n]
    by (simp add: ParseFileName_def parse_descriptor_def slice_eq_iff starts_with_iff remove_prefix_def c_str_def)
  show ?thesis
    by (intro exI [of _ "?dot ''log''"] exI [of _ "?dot ''ldb''"] exI [of _ "?dot ''sst''"] exI [of _ "c_str ''MANIFEST-'' @ dec_pad6 n"]
        exI [of _ "?dot ''dbtmp''"])
      (simp add: LogFileName_def TableFileName_def SSTTableFileName_def TempFileName_def make_name d m parse_digits p assms,
       simp add: ParseFileName_def slice_eq_iff CurrentFileName_def LockFileName_def InfoLogFileName_def OldInfoLogFileName_def c_str_def)
qed

theorem filename_roundtrip_witness:
  "\<exists>t. TableFileName (c_str ''db'') 7 = Some (c_str ''db'' @ c_str ''/'' @ t) \<and> ParseFileName t = Some (7, kTableFile)"
  using filename_roundtrip [of 7 "c_str ''db''"] by auto

end
