(* ===== verification/Ldb_Cache.thy ===== *)
theory Ldb_Cache
  imports Ldb_Bloom "HOL-Library.Monad_Syntax"
begin

text \<open>
  \<^verbatim>\<open>leveldb-library/util/cache.cc\<close>: the cache with the least recently used entries first to go. The entries are objects on the
  heap that point to one another: an entry is in the chain of a bucket of the hash table, and in one of two rings. The fields of the entries
  are functions of their address, the heap is partitioned by the shard that allocates, and the two heads of the rings have the addresses 1 and 2
  in each part; 0 is the null pointer. Counts of entries and references are natural numbers: the counters of the code
  would wrap only with \<open>2 ^ 32\<close> of them at a time.
\<close>

section \<open>Entries\<close>

record 'v handles =
  live :: "nat set"
  h_value :: "nat \<Rightarrow> 'v"
  h_deleter :: "nat \<Rightarrow> addr"
  next_hash :: "nat \<Rightarrow> nat"
  h_next :: "nat \<Rightarrow> nat"
  h_prev :: "nat \<Rightarrow> nat"
  h_charge :: "nat \<Rightarrow> uint64"
  h_key :: "nat \<Rightarrow> slice"
  in_cache :: "nat \<Rightarrow> bool"
  h_refs :: "nat \<Rightarrow> nat"
  h_hash :: "nat \<Rightarrow> uint32"

definition lru :: nat where
  "lru = 1"

definition in_use :: nat where
  "in_use = 2"

section \<open>The hash table\<close>

record HandleTable =
  ht_length :: nat
  ht_elems :: nat
  ht_list :: "nat list"

text \<open>A pointer to a pointer: to an element of the array or to the field of an entry.\<close>

datatype slot = Bucket nat | NextOf nat

fun slot_get :: "'v handles \<Rightarrow> HandleTable \<Rightarrow> slot \<Rightarrow> nat" where
  "slot_get m t (Bucket i) = ht_list t ! i"
| "slot_get m t (NextOf a) = next_hash m a"

fun slot_set :: "slot \<Rightarrow> nat \<Rightarrow> 'v handles \<times> HandleTable \<Rightarrow> 'v handles \<times> HandleTable" where
  "slot_set (Bucket i) p (m, t) = (m, t\<lparr>ht_list := (ht_list t)[i := p]\<rparr>)"
| "slot_set (NextOf a) p (m, t) = (m\<lparr>next_hash := (next_hash m)(a := p)\<rparr>, t)"

definition hash_index :: "uint32 \<Rightarrow> nat \<Rightarrow> nat" where
  "hash_index hash n = unat (hash AND (of_nat n - 1))"

partial_function (option) find_slot :: "'v handles \<Rightarrow> HandleTable \<Rightarrow> slice \<Rightarrow> uint32 \<Rightarrow> slot \<Rightarrow> slot option" where
  "find_slot m t key hash ptr =
     (let p = slot_get m t ptr in
      if p \<noteq> 0 \<and> (h_hash m p \<noteq> hash \<or> key \<noteq> h_key m p) then find_slot m t key hash (NextOf p) else Some ptr)"

definition FindPointer :: "'v handles \<Rightarrow> HandleTable \<Rightarrow> slice \<Rightarrow> uint32 \<Rightarrow> slot option" where
  "FindPointer m t key hash = find_slot m t key hash (Bucket (hash_index hash (ht_length t)))"

definition HandleTable_Lookup :: "'v handles \<Rightarrow> HandleTable \<Rightarrow> slice \<Rightarrow> uint32 \<Rightarrow> nat option" where
  "HandleTable_Lookup m t key hash = map_option (slot_get m t) (FindPointer m t key hash)"

partial_function (option) grow_length :: "nat \<Rightarrow> nat \<Rightarrow> nat option" where
  "grow_length new_length elems = (if new_length < elems then grow_length (new_length * 2) elems else Some new_length)"

partial_function (option) rehash_chain :: "nat \<Rightarrow> nat \<Rightarrow> 'v handles \<Rightarrow> nat list \<Rightarrow> ('v handles \<times> nat list) option" where
  "rehash_chain new_length h m new_list =
     (if h = 0 then Some (m, new_list)
      else let nxt = next_hash m h;
               i = hash_index (h_hash m h) new_length;
               m = m\<lparr>next_hash := (next_hash m)(h := new_list ! i)\<rparr>
           in rehash_chain new_length nxt m (new_list[i := h]))"

text \<open>The loop over the buckets.\<close>

fun rehash :: "nat \<Rightarrow> nat list \<Rightarrow> 'v handles \<Rightarrow> nat list \<Rightarrow> ('v handles \<times> nat list) option" where
  "rehash new_length [] m new_list = Some (m, new_list)"
| "rehash new_length (h # hs) m new_list = do {
     (m, new_list) \<leftarrow> rehash_chain new_length h m new_list;
     rehash new_length hs m new_list }"

definition Resize :: "'v handles \<Rightarrow> HandleTable \<Rightarrow> ('v handles \<times> HandleTable) option" where
  "Resize m t = do {
     new_length \<leftarrow> grow_length 4 (ht_elems t);
     (m, new_list) \<leftarrow> rehash new_length (ht_list t) m (replicate new_length 0);
     Some (m, t\<lparr>ht_list := new_list, ht_length := new_length\<rparr>) }"

definition HandleTable_new :: "'v handles \<Rightarrow> ('v handles \<times> HandleTable) option" where
  "HandleTable_new m = Resize m \<lparr>ht_length = 0, ht_elems = 0, ht_list = []\<rparr>"

definition HandleTable_Insert :: "nat \<Rightarrow> 'v handles \<Rightarrow> HandleTable \<Rightarrow> (nat \<times> 'v handles \<times> HandleTable) option" where
  "HandleTable_Insert h m t = do {
     ptr \<leftarrow> FindPointer m t (h_key m h) (h_hash m h);
     let old = slot_get m t ptr;
     let m = m\<lparr>next_hash := (next_hash m)(h := if old = 0 then 0 else next_hash m old)\<rparr>;
     let (m, t) = slot_set ptr h (m, t);
     if old = 0 then do {
       let t = t\<lparr>ht_elems := ht_elems t + 1\<rparr>;
       (m, t) \<leftarrow> (if ht_elems t > ht_length t then Resize m t else Some (m, t));
       Some (old, m, t)
     } else Some (old, m, t) }"

definition HandleTable_Remove :: "slice \<Rightarrow> uint32 \<Rightarrow> 'v handles \<Rightarrow> HandleTable \<Rightarrow> (nat \<times> 'v handles \<times> HandleTable) option" where
  "HandleTable_Remove key hash m t = do {
     ptr \<leftarrow> FindPointer m t key hash;
     let result = slot_get m t ptr;
     if result \<noteq> 0 then do {
       let (m, t) = slot_set ptr (next_hash m result) (m, t);
       Some (result, m, t\<lparr>ht_elems := ht_elems t - 1\<rparr>)
     } else Some (result, m, t) }"

section \<open>A shard\<close>

text \<open>\<open>deleted\<close> records the calls of the deleters: the function, the key and the value.\<close>

record 'v LRUCache =
  capacity :: uint64
  usage :: uint64
  lc_mem :: "'v handles"
  lc_table :: HandleTable
  deleted :: "(addr \<times> slice \<times> 'v) list"

definition LRU_Remove :: "nat \<Rightarrow> 'v handles \<Rightarrow> 'v handles" where
  "LRU_Remove e m =
     (let m = m\<lparr>h_prev := (h_prev m)(h_next m e := h_prev m e)\<rparr>
      in m\<lparr>h_next := (h_next m)(h_prev m e := h_next m e)\<rparr>)"

definition LRU_Append :: "nat \<Rightarrow> nat \<Rightarrow> 'v handles \<Rightarrow> 'v handles" where
  "LRU_Append l e m =
     (let m = m\<lparr>h_next := (h_next m)(e := l)\<rparr>;
          m = m\<lparr>h_prev := (h_prev m)(e := h_prev m l)\<rparr>;
          m = m\<lparr>h_next := (h_next m)(h_prev m e := e)\<rparr>
      in m\<lparr>h_prev := (h_prev m)(h_next m e := e)\<rparr>)"

definition LRU_Ref :: "nat \<Rightarrow> 'v LRUCache \<Rightarrow> 'v LRUCache" where
  "LRU_Ref e c =
     (let m = lc_mem c;
          m = (if h_refs m e = 1 \<and> in_cache m e then LRU_Append in_use e (LRU_Remove e m) else m)
      in c\<lparr>lc_mem := m\<lparr>h_refs := (h_refs m)(e := h_refs m e + 1)\<rparr>\<rparr>)"

definition LRU_Unref :: "nat \<Rightarrow> 'v LRUCache \<Rightarrow> 'v LRUCache" where
  "LRU_Unref e c =
     (let m = lc_mem c;
          m = m\<lparr>h_refs := (h_refs m)(e := h_refs m e - 1)\<rparr>
      in if h_refs m e = 0
         then c\<lparr>lc_mem := m\<lparr>live := live m - {e}\<rparr>, deleted := deleted c @ [(h_deleter m e, h_key m e, h_value m e)]\<rparr>
         else if in_cache m e \<and> h_refs m e = 1 then c\<lparr>lc_mem := LRU_Append lru e (LRU_Remove e m)\<rparr>
         else c\<lparr>lc_mem := m\<rparr>)"

text \<open>The memory of a shard before anything is allocated, with the rings of the two heads.\<close>

definition handles_init :: "'v handles \<Rightarrow> 'v handles" where
  "handles_init m =
     m\<lparr>live := {}, h_next := (h_next m)(lru := lru, in_use := in_use), h_prev := (h_prev m)(lru := lru, in_use := in_use)\<rparr>"

definition LRUCache_new :: "'v handles \<Rightarrow> 'v LRUCache option" where
  "LRUCache_new m = do {
     (m, t) \<leftarrow> HandleTable_new (handles_init m);
     Some \<lparr>capacity = 0, usage = 0, lc_mem = m, lc_table = t, deleted = []\<rparr> }"

definition LRU_SetCapacity :: "uint64 \<Rightarrow> 'v LRUCache \<Rightarrow> 'v LRUCache" where
  "LRU_SetCapacity n c = c\<lparr>capacity := n\<rparr>"

definition LRU_TotalCharge :: "'v LRUCache \<Rightarrow> uint64" where
  "LRU_TotalCharge c = usage c"

definition LRU_Lookup :: "slice \<Rightarrow> uint32 \<Rightarrow> 'v LRUCache \<Rightarrow> (nat option \<times> 'v LRUCache) option" where
  "LRU_Lookup key hash c = do {
     e \<leftarrow> HandleTable_Lookup (lc_mem c) (lc_table c) key hash;
     Some (if e \<noteq> 0 then (Some e, LRU_Ref e c) else (None, c)) }"

definition LRU_Release :: "nat \<Rightarrow> 'v LRUCache \<Rightarrow> 'v LRUCache" where
  "LRU_Release e c = LRU_Unref e c"

definition FinishErase :: "nat \<Rightarrow> 'v LRUCache \<Rightarrow> bool \<times> 'v LRUCache" where
  "FinishErase e c =
     (if e \<noteq> 0 then
        let m = LRU_Remove e (lc_mem c);
            m = m\<lparr>in_cache := (in_cache m)(e := False)\<rparr>;
            c = c\<lparr>lc_mem := m, usage := usage c - h_charge m e\<rparr>
        in (True, LRU_Unref e c)
      else (False, c))"

definition LRU_Erase :: "slice \<Rightarrow> uint32 \<Rightarrow> 'v LRUCache \<Rightarrow> (bool \<times> 'v LRUCache) option" where
  "LRU_Erase key hash c = do {
     (e, m, t) \<leftarrow> HandleTable_Remove key hash (lc_mem c) (lc_table c);
     Some (FinishErase e (c\<lparr>lc_mem := m, lc_table := t\<rparr>)) }"

text \<open>The loop at the end of \<^verbatim>\<open>Insert\<close>.\<close>

partial_function (option) evict :: "'v LRUCache \<Rightarrow> 'v LRUCache option" where
  "evict c =
     (let old = h_next (lc_mem c) lru in
      if usage c > capacity c \<and> old \<noteq> lru
      then do { (erased, c) \<leftarrow> LRU_Erase (h_key (lc_mem c) old) (h_hash (lc_mem c) old) c; evict c }
      else Some c)"

partial_function (option) LRU_Prune :: "'v LRUCache \<Rightarrow> 'v LRUCache option" where
  "LRU_Prune c =
     (let e = h_next (lc_mem c) lru in
      if e \<noteq> lru then do { (erased, c) \<leftarrow> LRU_Erase (h_key (lc_mem c) e) (h_hash (lc_mem c) e) c; LRU_Prune c }
      else Some c)"

text \<open>The new entry, from \<^verbatim>\<open>malloc\<close> to the copy of the key.\<close>

definition new_handle :: "nat \<Rightarrow> slice \<Rightarrow> uint32 \<Rightarrow> 'v \<Rightarrow> uint64 \<Rightarrow> addr \<Rightarrow> 'v handles \<Rightarrow> 'v handles" where
  "new_handle e key hash v n deleter m =
     m\<lparr>live := insert e (live m), h_value := (h_value m)(e := v), h_deleter := (h_deleter m)(e := deleter),
       h_charge := (h_charge m)(e := n), h_key := (h_key m)(e := key), h_hash := (h_hash m)(e := hash),
       in_cache := (in_cache m)(e := False), h_refs := (h_refs m)(e := 1)\<rparr>"

text \<open>\<open>malloc\<close> is the allocator: it chooses an address that is not in use.\<close>

definition LRU_Insert ::
    "(nat set \<Rightarrow> nat) \<Rightarrow> slice \<Rightarrow> uint32 \<Rightarrow> 'v \<Rightarrow> uint64 \<Rightarrow> addr \<Rightarrow> 'v LRUCache \<Rightarrow> (nat \<times> 'v LRUCache) option" where
  "LRU_Insert malloc key hash v n deleter c = do {
     let e = malloc (live (lc_mem c));
     let m = new_handle e key hash v n deleter (lc_mem c);
     c \<leftarrow> (if capacity c > 0 then do {
             let m = m\<lparr>h_refs := (h_refs m)(e := h_refs m e + 1), in_cache := (in_cache m)(e := True)\<rparr>;
             let m = LRU_Append in_use e m;
             (old, m, t) \<leftarrow> HandleTable_Insert e m (lc_table c);
             Some (snd (FinishErase old (c\<lparr>lc_mem := m, lc_table := t, usage := usage c + n\<rparr>)))
           } else Some (c\<lparr>lc_mem := m\<lparr>h_next := (h_next m)(e := 0)\<rparr>\<rparr>));
     c \<leftarrow> evict c;
     Some (e, c) }"

text \<open>The destructor, from the entry \<open>e\<close> on.\<close>

partial_function (option) destroy_loop :: "nat \<Rightarrow> 'v LRUCache \<Rightarrow> 'v LRUCache option" where
  "destroy_loop e c =
     (if e \<noteq> lru then
        let m = lc_mem c; nxt = h_next m e; m = m\<lparr>in_cache := (in_cache m)(e := False)\<rparr>
        in destroy_loop nxt (LRU_Unref e (c\<lparr>lc_mem := m\<rparr>))
      else Some c)"

definition LRUCache_destroy :: "'v LRUCache \<Rightarrow> 'v LRUCache option" where
  "LRUCache_destroy c = destroy_loop (h_next (lc_mem c) lru) c"

section \<open>The shards\<close>

record 'v ShardedLRUCache =
  shard :: "'v LRUCache list"
  last_id :: uint64

definition kNumShards :: nat where
  "kNumShards = 16"

definition HashSlice :: "slice \<Rightarrow> uint32" where
  "HashSlice s = Hash s 0"

definition Shard :: "uint32 \<Rightarrow> nat" where
  "Shard hash = unat (drop_bit 28 hash)"

fun new_shards :: "'v handles list \<Rightarrow> uint64 \<Rightarrow> 'v LRUCache list option" where
  "new_shards [] n = Some []"
| "new_shards (m # ms) n = do {
     c \<leftarrow> LRUCache_new m;
     cs \<leftarrow> new_shards ms n;
     Some (LRU_SetCapacity n c # cs) }"

text \<open>\<open>ms\<close> are the memories of the shards, with whatever they have in them.\<close>

definition NewLRUCache :: "'v handles list \<Rightarrow> uint64 \<Rightarrow> 'v ShardedLRUCache option" where
  "NewLRUCache ms n = do {
     cs \<leftarrow> new_shards ms ((n + (of_nat kNumShards - 1)) div of_nat kNumShards);
     Some \<lparr>shard = cs, last_id = 0\<rparr> }"

text \<open>A handle is the address of its entry: the part of the heap and the address in it.\<close>

type_synonym handle = "nat \<times> nat"

definition Cache_Insert ::
    "(nat set \<Rightarrow> nat) \<Rightarrow> slice \<Rightarrow> 'v \<Rightarrow> uint64 \<Rightarrow> addr \<Rightarrow> 'v ShardedLRUCache \<Rightarrow> (handle \<times> 'v ShardedLRUCache) option" where
  "Cache_Insert malloc key v n deleter c = do {
     let hash = HashSlice key;
     let s = Shard hash;
     (e, x) \<leftarrow> LRU_Insert malloc key hash v n deleter (shard c ! s);
     Some ((s, e), c\<lparr>shard := (shard c)[s := x]\<rparr>) }"

definition Cache_Lookup :: "slice \<Rightarrow> 'v ShardedLRUCache \<Rightarrow> (handle option \<times> 'v ShardedLRUCache) option" where
  "Cache_Lookup key c = do {
     let hash = HashSlice key;
     let s = Shard hash;
     (e, x) \<leftarrow> LRU_Lookup key hash (shard c ! s);
     Some (map_option (Pair s) e, c\<lparr>shard := (shard c)[s := x]\<rparr>) }"

definition Cache_Release :: "handle \<Rightarrow> 'v ShardedLRUCache \<Rightarrow> 'v ShardedLRUCache" where
  "Cache_Release h c =
     (let s = Shard (h_hash (lc_mem (shard c ! fst h)) (snd h))
      in c\<lparr>shard := (shard c)[s := LRU_Release (snd h) (shard c ! s)]\<rparr>)"

definition Cache_Erase :: "slice \<Rightarrow> 'v ShardedLRUCache \<Rightarrow> 'v ShardedLRUCache option" where
  "Cache_Erase key c = do {
     let hash = HashSlice key;
     let s = Shard hash;
     (erased, x) \<leftarrow> LRU_Erase key hash (shard c ! s);
     Some (c\<lparr>shard := (shard c)[s := x]\<rparr>) }"

definition Cache_Value :: "handle \<Rightarrow> 'v ShardedLRUCache \<Rightarrow> 'v" where
  "Cache_Value h c = h_value (lc_mem (shard c ! fst h)) (snd h)"

definition Cache_NewId :: "'v ShardedLRUCache \<Rightarrow> uint64 \<times> 'v ShardedLRUCache" where
  "Cache_NewId c = (last_id c + 1, c\<lparr>last_id := last_id c + 1\<rparr>)"

fun prune_shards :: "'v LRUCache list \<Rightarrow> 'v LRUCache list option" where
  "prune_shards [] = Some []"
| "prune_shards (c # cs) = do { c \<leftarrow> LRU_Prune c; cs \<leftarrow> prune_shards cs; Some (c # cs) }"

definition Cache_Prune :: "'v ShardedLRUCache \<Rightarrow> 'v ShardedLRUCache option" where
  "Cache_Prune c = map_option (\<lambda>cs. c\<lparr>shard := cs\<rparr>) (prune_shards (shard c))"

definition Cache_TotalCharge :: "'v ShardedLRUCache \<Rightarrow> uint64" where
  "Cache_TotalCharge c = foldl (\<lambda>total x. total + LRU_TotalCharge x) 0 (shard c)"

end
