(* ===== verification/Ldb_Cache_Table.thy ===== *)
theory Ldb_Cache_Table
  imports Ldb_Cache
begin

text \<open>
  The hash table of the cache holds a set of entries: a lookup finds the entry with the hash and the key, insertion replaces
  the entry with the same hash and key, removal takes it out, and growing the array keeps the set. Only the field \<^verbatim>\<open>next_hash\<close> of the
  entries is changed.
\<close>

section \<open>Chains\<close>

fun hpath :: "(nat \<Rightarrow> nat) \<Rightarrow> nat \<Rightarrow> nat list \<Rightarrow> nat \<Rightarrow> bool" where
  "hpath nh p [] q \<longleftrightarrow> p = q"
| "hpath nh p (a # as) q \<longleftrightarrow> p = a \<and> a \<noteq> 0 \<and> hpath nh (nh a) as q"

abbreviation hlist :: "(nat \<Rightarrow> nat) \<Rightarrow> nat \<Rightarrow> nat list \<Rightarrow> bool" where
  "hlist nh p as \<equiv> hpath nh p as 0"

lemma hpath_append [simp]: "hpath nh p (as @ bs) q \<longleftrightarrow> (\<exists>r. hpath nh p as r \<and> hpath nh r bs q)"
  by (induction as arbitrary: p) auto

lemma hpath_update [simp]: "a \<notin> set as \<Longrightarrow> hpath (nh(a := v)) p as q \<longleftrightarrow> hpath nh p as q"
  by (induction as arbitrary: p) auto

lemma hpath_cong: "(\<And>a. a \<in> set as \<Longrightarrow> nh a = nh' a) \<Longrightarrow> hpath nh p as q \<longleftrightarrow> hpath nh' p as q"
  by (induction as arbitrary: p) auto

lemma hpath_last: "hpath nh p (as @ [a]) q \<Longrightarrow> a \<notin> set as \<Longrightarrow> hpath (nh(a := v)) p (as @ [a]) v"
  by auto

lemma hpath_nonzero: "hpath nh p as q \<Longrightarrow> 0 \<notin> set as"
  by (induction as arbitrary: p) auto

section \<open>The set of the entries\<close>

definition hash_key :: "'v handles \<Rightarrow> nat \<Rightarrow> uint32 \<times> slice" where
  "hash_key m a = (h_hash m a, h_key m a)"

lemma hash_key_next [simp]: "hash_key (m\<lparr>next_hash := nh\<rparr>) = hash_key m"
  by (simp add: hash_key_def fun_eq_iff)

text \<open>The chains from the heads \<open>hs\<close> hold the entries of \<open>S\<close> by their hash.\<close>

definition chains :: "'v handles \<Rightarrow> nat \<Rightarrow> nat list \<Rightarrow> (nat \<Rightarrow> nat list) \<Rightarrow> nat set \<Rightarrow> bool" where
  "chains m n hs bs S \<longleftrightarrow> length hs = n \<and>
     (\<forall>i < n. hlist (next_hash m) (hs ! i) (bs i) \<and> distinct (bs i) \<and> set (bs i) = {a \<in> S. hash_index (h_hash m a) n = i})"

definition htab :: "'v handles \<Rightarrow> HandleTable \<Rightarrow> nat set \<Rightarrow> bool" where
  "htab m t S \<longleftrightarrow> (\<exists>k. 2 \<le> k \<and> ht_length t = 2 ^ k) \<and> (\<exists>bs. chains m (ht_length t) (ht_list t) bs S) \<and>
     finite S \<and> 0 \<notin> S \<and> ht_elems t = card S \<and> inj_on (hash_key m) S"

lemma hash_index_less: "hash_index hash (2 ^ k) < 2 ^ k"
proof (cases "k < 32")
  case True
  have "(2 :: nat) ^ k < 2 ^ 32" using True by (intro power_strict_increasing) simp_all
  then have u: "unat ((2 :: uint32) ^ k) = 2 ^ k" using unat32 [of "2 ^ k"] by simp
  have "unat (hash AND (2 ^ k - 1)) \<le> unat ((2 :: uint32) ^ k - 1)" by (simp add: word_and_le1 word_le_nat_alt [symmetric])
  also have "\<dots> = 2 ^ k - 1" using u by (simp add: unat_sub_if')
  finally show ?thesis by (simp add: hash_index_def) (metis One_nat_def Suc_pred le_imp_less_Suc zero_less_numeral zero_less_power)
next
  case False
  have "unat (hash AND (of_nat (2 ^ k) - 1)) < 2 ^ 32" by (rule unat_less32)
  also have "\<dots> \<le> (2 :: nat) ^ k" using False by (intro power_increasing) simp_all
  finally show ?thesis by (simp add: hash_index_def)
qed

lemma chains_in:
  assumes "chains m n hs bs S" "a \<in> set (bs i)" "i < n"
  shows "a \<in> S \<and> hash_index (h_hash m a) n = i"
  using assms by (auto simp: chains_def)

section \<open>Finding a slot\<close>

definition entry_is :: "'v handles \<Rightarrow> slice \<Rightarrow> uint32 \<Rightarrow> nat \<Rightarrow> bool" where
  "entry_is m key hash a \<longleftrightarrow> h_hash m a = hash \<and> h_key m a = key"

definition slot_after :: "slot \<Rightarrow> nat list \<Rightarrow> slot" where
  "slot_after ptr ys = (if ys = [] then ptr else NextOf (last ys))"

lemma find_slot_splits:
  "hlist (next_hash m) (slot_get m t ptr) as \<Longrightarrow>
   \<exists>ys zs. as = ys @ zs \<and> find_slot m t key hash ptr = Some (slot_after ptr ys) \<and> (\<forall>a \<in> set ys. \<not> entry_is m key hash a) \<and>
     hpath (next_hash m) (slot_get m t ptr) ys (slot_get m t (slot_after ptr ys)) \<and>
     hlist (next_hash m) (slot_get m t (slot_after ptr ys)) zs \<and> (zs = [] \<or> entry_is m key hash (hd zs))"
proof (induction as arbitrary: ptr)
  case Nil
  then show ?case by (subst find_slot.simps) (simp add: slot_after_def)
next
  case (Cons a as)
  show ?case
  proof (cases "entry_is m key hash a")
    case True
    then show ?thesis using Cons.prems
      by (intro exI [of _ "[]"] exI [of _ "a # as"], subst find_slot.simps) (auto simp: slot_after_def entry_is_def)
  next
    case False
    have "hlist (next_hash m) (slot_get m t (NextOf a)) as" using Cons.prems by simp
    from Cons.IH [OF this] obtain ys zs where 1: "as = ys @ zs" "find_slot m t key hash (NextOf a) = Some (slot_after (NextOf a) ys)"
      "\<forall>a \<in> set ys. \<not> entry_is m key hash a"
      "hpath (next_hash m) (slot_get m t (NextOf a)) ys (slot_get m t (slot_after (NextOf a) ys))"
      "hlist (next_hash m) (slot_get m t (slot_after (NextOf a) ys)) zs" "zs = [] \<or> entry_is m key hash (hd zs)" by blast
    have s: "slot_after ptr (a # ys) = slot_after (NextOf a) ys" by (simp add: slot_after_def)
    have "find_slot m t key hash ptr = Some (slot_after ptr (a # ys))"
      using Cons.prems False 1(2) by (subst find_slot.simps) (auto simp: entry_is_def s)
    then show ?thesis using 1 Cons.prems False by (intro exI [of _ "a # ys"] exI [of _ zs]) (simp add: s)
  qed
qed

text \<open>What \<^verbatim>\<open>FindPointer\<close> finds in the table.\<close>

lemma FindPointer_splits:
  assumes "ht_length t = 2 ^ k" "chains m (ht_length t) (ht_list t) bs S"
  obtains ys zs where "bs (hash_index hash (ht_length t)) = ys @ zs"
    "FindPointer m t key hash = Some (slot_after (Bucket (hash_index hash (ht_length t))) ys)" "\<forall>a \<in> set ys. \<not> entry_is m key hash a"
    "hpath (next_hash m) (ht_list t ! hash_index hash (ht_length t)) ys (slot_get m t (slot_after (Bucket (hash_index hash (ht_length t))) ys))"
    "hlist (next_hash m) (slot_get m t (slot_after (Bucket (hash_index hash (ht_length t))) ys)) zs" "zs = [] \<or> entry_is m key hash (hd zs)"
proof -
  have "hlist (next_hash m) (slot_get m t (Bucket (hash_index hash (ht_length t)))) (bs (hash_index hash (ht_length t)))"
    using assms hash_index_less [of hash k] by (simp add: chains_def)
  from find_slot_splits [OF this, of key hash] show ?thesis using that by (auto simp: FindPointer_def)
qed

lemma chain_unique_entry:
  assumes c: "chains m n hs bs S" and i: "hash_index hash n < n" and s: "bs (hash_index hash n) = ys @ zs"
    and ys: "\<forall>a \<in> set ys. \<not> entry_is m key hash a" and zs: "zs = [] \<or> entry_is m key hash (hd zs)" and inj: "inj_on (hash_key m) S"
  shows "{a \<in> S. entry_is m key hash a} = set (take 1 zs)"
proof -
  have b: "set (ys @ zs) = {a \<in> S. hash_index (h_hash m a) n = hash_index hash n}" and d: "distinct (ys @ zs)"
    using c [unfolded chains_def, THEN conjunct2, THEN spec, THEN mp, OF i] by (simp_all only: s)
  have u: "a = a'" if "a \<in> S" "a' \<in> S" "entry_is m key hash a" "entry_is m key hash a'" for a a'
    using inj that by (auto simp: inj_on_def hash_key_def entry_is_def)
  show ?thesis
  proof (cases zs)
    case Nil
    then show ?thesis using b ys by (auto simp: entry_is_def)
  next
    case (Cons z zs')
    then have z: "z \<in> S" "entry_is m key hash z" using b zs by auto
    then show ?thesis using u Cons by auto
  qed
qed

text \<open>A lookup gives the entry, or the null pointer.\<close>

lemma HandleTable_Lookup_finds:
  assumes "htab m t S"
  shows "\<exists>p. HandleTable_Lookup m t key hash = Some p \<and> {a \<in> S. entry_is m key hash a} = (if p = 0 then {} else {p})"
proof -
  obtain k bs where k: "2 \<le> k" "ht_length t = 2 ^ k" and c: "chains m (ht_length t) (ht_list t) bs S" using assms by (auto simp: htab_def)
  obtain ys zs where f: "bs (hash_index hash (ht_length t)) = ys @ zs"
    "FindPointer m t key hash = Some (slot_after (Bucket (hash_index hash (ht_length t))) ys)" "\<forall>a \<in> set ys. \<not> entry_is m key hash a"
    "hlist (next_hash m) (slot_get m t (slot_after (Bucket (hash_index hash (ht_length t))) ys)) zs" "zs = [] \<or> entry_is m key hash (hd zs)"
    using FindPointer_splits [OF k(2) c] by metis
  have i: "hash_index hash (ht_length t) < ht_length t" using hash_index_less k(2) by simp
  have "{a \<in> S. entry_is m key hash a} = set (take 1 zs)" using assms by (intro chain_unique_entry [OF c i f(1,3,5)]) (simp add: htab_def)
  then show ?thesis using f(2,4) by (cases zs) (auto simp: HandleTable_Lookup_def)
qed

section \<open>Inserting and removing\<close>

text \<open>
  The slot behind \<open>ys\<close> in the chain \<open>i\<close> is set to \<open>p\<close>, from where the chain goes on with \<open>zs'\<close>.
\<close>

lemma chains_set:
  assumes c: "chains m n (ht_list t) bs S" and i: "i < n" and s: "bs i = ys @ zs"
    and p: "hpath (next_hash m) (ht_list t ! i) ys q"
    and m1: "m1 = m\<lparr>next_hash := nh1\<rparr>" "\<And>a. a \<in> S \<Longrightarrow> nh1 a = next_hash m a"
    and zs': "hlist nh1 p zs'" "distinct (ys @ zs')" "set (ys @ zs') = {a \<in> S'. hash_index (h_hash m a) n = i}"
    and S': "\<And>j a. j < n \<Longrightarrow> j \<noteq> i \<Longrightarrow> a \<in> S' \<and> hash_index (h_hash m a) n = j \<longleftrightarrow> a \<in> S \<and> hash_index (h_hash m a) n = j"
    and set: "slot_set (slot_after (Bucket i) ys) p (m1, t) = (m2, t2)"
  shows "\<exists>nh2 hs2. m2 = m\<lparr>next_hash := nh2\<rparr> \<and> t2 = t\<lparr>ht_list := hs2\<rparr> \<and> chains m2 n hs2 (bs(i := ys @ zs')) S'"
proof -
  have ys: "set ys \<subseteq> S" "\<forall>a \<in> set ys. hash_index (h_hash m a) n = i" using chains_in [OF c _ i] s by auto
  have p1: "hpath nh1 (ht_list t ! i) ys q" using p hpath_cong [of ys nh1 "next_hash m"] m1(2) ys(1) by blast
  have other: "a \<notin> set (bs j)" if "a \<in> set ys" "j < n" "j \<noteq> i" for a j using chains_in [OF c _ that(2), of a] ys(2) that by auto
  have len: "length (ht_list t) = n" using c by (simp add: chains_def)
  have bs: "hlist nh1 (ht_list t ! j) (bs j) \<and> distinct (bs j) \<and> set (bs j) = {a \<in> S'. hash_index (h_hash m a) n = j}" if "j < n" "j \<noteq> i" for j
  proof -
    have j: "hlist (next_hash m) (ht_list t ! j) (bs j)" "distinct (bs j)" "set (bs j) = {a \<in> S. hash_index (h_hash m a) n = j}"
      using c that(1) by (auto simp: chains_def)
    have "hlist nh1 (ht_list t ! j) (bs j)" using j(1) hpath_cong [of "bs j" nh1 "next_hash m"] m1(2) j(3) by blast
    then show ?thesis using j S' [OF that] by auto
  qed
  show ?thesis
  proof (cases "ys = []")
    case True
    then have e: "m2 = m1" "t2 = t\<lparr>ht_list := (ht_list t)[i := p]\<rparr>" using set by (simp_all add: slot_after_def)
    have "chains m2 n ((ht_list t)[i := p]) (bs(i := ys @ zs')) S'"
      unfolding chains_def using bs zs' True e(1) len i by (auto simp: m1(1) nth_list_update)
    then show ?thesis using e m1(1) by auto
  next
    case False
    then have e: "m2 = m\<lparr>next_hash := nh1(last ys := p)\<rparr>" "t2 = t" using set by (auto simp: slot_after_def m1(1))
    obtain ys' y where y: "ys = ys' @ [y]" using False by (metis append_butlast_last_id)
    have "hpath (nh1(y := p)) (ht_list t ! i) ys p" using hpath_last [of nh1 _ ys' y q p] p1 zs'(2) y by auto
    moreover have "hlist (nh1(y := p)) p zs'" using zs'(1,2) y by simp
    ultimately have "hlist (nh1(last ys := p)) (ht_list t ! i) (ys @ zs')" using y by auto
    moreover have "hlist (nh1(last ys := p)) (ht_list t ! j) (bs j)" if "j < n" "j \<noteq> i" for j
      using bs [OF that] other [OF _ that, of "last ys"] False by simp
    ultimately have "chains m2 n (ht_list t) (bs(i := ys @ zs')) S'"
      unfolding chains_def using bs zs'(2,3) e(1) len by auto
    then show ?thesis using e by (intro exI [of _ "nh1(last ys := p)"] exI [of _ "ht_list t"]) simp
  qed
qed

lemma htab_remove:
  assumes "htab m t S"
  shows "\<exists>r nh t'. HandleTable_Remove key hash m t = Some (r, m\<lparr>next_hash := nh\<rparr>, t') \<and> htab (m\<lparr>next_hash := nh\<rparr>) t' (S - {r}) \<and>
    {a \<in> S. entry_is m key hash a} = (if r = 0 then {} else {r})"
proof -
  obtain k bs where k: "2 \<le> k" "ht_length t = 2 ^ k" and c: "chains m (ht_length t) (ht_list t) bs S" and S: "finite S" "0 \<notin> S"
      "ht_elems t = card S" "inj_on (hash_key m) S" using assms by (auto simp: htab_def)
  let ?n = "ht_length t"
  let ?i = "hash_index hash ?n"
  have i: "?i < ?n" using hash_index_less k(2) by simp
  obtain ys zs where f: "bs ?i = ys @ zs" "FindPointer m t key hash = Some (slot_after (Bucket ?i) ys)" "\<forall>a \<in> set ys. \<not> entry_is m key hash a"
    "hpath (next_hash m) (ht_list t ! ?i) ys (slot_get m t (slot_after (Bucket ?i) ys))"
    "hlist (next_hash m) (slot_get m t (slot_after (Bucket ?i) ys)) zs" "zs = [] \<or> entry_is m key hash (hd zs)"
    by (rule FindPointer_splits [OF k(2) c])
  have u: "{a \<in> S. entry_is m key hash a} = set (take 1 zs)" by (rule chain_unique_entry [OF c i f(1,3,6) S(4)])
  show ?thesis
  proof (cases zs)
    case Nil
    then have "HandleTable_Remove key hash m t = Some (0, m, t)" using f(2,5) by (simp add: HandleTable_Remove_def)
    then show ?thesis using u Nil assms S(2) by (intro exI [of _ 0] exI [of _ "next_hash m"] exI [of _ t]) simp
  next
    case (Cons z zs')
    then have z: "slot_get m t (slot_after (Bucket ?i) ys) = z" "z \<noteq> 0" "hlist (next_hash m) (next_hash m z) zs'" using f(5) by auto
    have b: "distinct (ys @ z # zs')" "set (ys @ z # zs') = {a \<in> S. hash_index (h_hash m a) ?n = ?i}"
      using c [unfolded chains_def, THEN conjunct2, THEN spec, THEN mp, OF i] f(1) Cons by simp_all
    then have zS: "z \<in> S" "hash_index (h_hash m z) ?n = ?i" by auto
    obtain m2 t2 where set: "slot_set (slot_after (Bucket ?i) ys) (next_hash m z) (m, t) = (m2, t2)" by fastforce
    have "\<exists>nh2 hs2. m2 = m\<lparr>next_hash := nh2\<rparr> \<and> t2 = t\<lparr>ht_list := hs2\<rparr> \<and> chains m2 ?n hs2 (bs(?i := ys @ zs')) (S - {z})"
    proof (rule chains_set [OF c i f(1,4) _ _ z(3) _ _ _ set])
      show "distinct (ys @ zs')" "set (ys @ zs') = {a \<in> S - {z}. hash_index (h_hash m a) ?n = ?i}" using b by auto
      show "a \<in> S - {z} \<and> hash_index (h_hash m a) ?n = j \<longleftrightarrow> a \<in> S \<and> hash_index (h_hash m a) ?n = j" if "j \<noteq> ?i" for j a
        using zS that by auto
    qed simp_all
    then obtain nh2 hs2 where 2: "m2 = m\<lparr>next_hash := nh2\<rparr>" "t2 = t\<lparr>ht_list := hs2\<rparr>" "chains m2 ?n hs2 (bs(?i := ys @ zs')) (S - {z})" by blast
    have "HandleTable_Remove key hash m t = Some (z, m2, t2\<lparr>ht_elems := ht_elems t2 - 1\<rparr>)"
      using f(2) z(1,2) set by (simp add: HandleTable_Remove_def)
    moreover have "htab m2 (t2\<lparr>ht_elems := ht_elems t2 - 1\<rparr>) (S - {z})"
      unfolding htab_def using k 2 S zS(1) by (auto simp: hash_key_def inj_on_def)
    moreover have "{a \<in> S. entry_is m key hash a} = {z}" using u Cons by simp
    ultimately show ?thesis using 2(1) z(2) by (intro exI [of _ z] exI [of _ nh2] exI [of _ "t2\<lparr>ht_elems := ht_elems t2 - 1\<rparr>"]) simp
  qed
qed

section \<open>Growing\<close>

lemma grow_length_returns: "\<exists>k'. grow_length (2 ^ k) e = Some (2 ^ k') \<and> k \<le> k'"
proof (induction "e - 2 ^ k" arbitrary: k rule: less_induct)
  case less
  show ?case
  proof (cases "2 ^ k < e")
    case True
    moreover have "0 < (2 :: nat) ^ k" by simp
    ultimately have "e - 2 ^ Suc k < e - 2 ^ k" unfolding power_Suc by linarith
    from less [OF this] obtain k' where "grow_length (2 ^ Suc k) e = Some (2 ^ k')" "Suc k \<le> k'" by blast
    then show ?thesis using True by (subst grow_length.simps) (auto simp: mult.commute intro!: exI [of _ k'])
  next
    case False
    then show ?thesis by (subst grow_length.simps) auto
  qed
qed

lemma chains_cons:
  assumes c: "chains m n hs bs S" and a: "a \<noteq> 0" "a \<notin> S" and i: "hash_index (h_hash m a) n = i" "i < n"
  shows "chains (m\<lparr>next_hash := (next_hash m)(a := hs ! i)\<rparr>) n (hs[i := a]) (bs(i := a # bs i)) (insert a S)"
  unfolding chains_def
proof (intro conjI allI impI)
  fix j assume j: "j < n"
  have b: "hlist (next_hash m) (hs ! j) (bs j)" "distinct (bs j)" "set (bs j) = {a \<in> S. hash_index (h_hash m a) n = j}" for j'
    using c j by (auto simp: chains_def)
  have l: "length hs = n" using c by (simp add: chains_def)
  have na: "a \<notin> set (bs j)" using b(3) a(2) by auto
  show "hlist (next_hash (m\<lparr>next_hash := (next_hash m)(a := hs ! i)\<rparr>)) (hs[i := a] ! j) ((bs(i := a # bs i)) j)"
    using b(1) a(1) na j l by (auto simp: nth_list_update)
  show "distinct ((bs(i := a # bs i)) j)" using b(2) na by auto
  show "set ((bs(i := a # bs i)) j) = {b \<in> insert a S. hash_index (h_hash (m\<lparr>next_hash := (next_hash m)(a := hs ! i)\<rparr>) b) n = j}"
    using b(3) i(1) by auto
qed (use c in \<open>simp add: chains_def\<close>)

lemma rehash_chain_returns:
  assumes "hlist (next_hash m) h as" "distinct as" "chains m n hs bs S" "set as \<inter> S = {}" "n = 2 ^ k"
  shows "\<exists>nh hs' bs'. rehash_chain n h m hs = Some (m\<lparr>next_hash := nh\<rparr>, hs') \<and> chains (m\<lparr>next_hash := nh\<rparr>) n hs' bs' (set as \<union> S) \<and>
    (\<forall>a. a \<notin> set as \<longrightarrow> nh a = next_hash m a)"
  using assms
proof (induction as arbitrary: h m hs bs S)
  case Nil
  then show ?case by (subst rehash_chain.simps) (auto intro!: exI [of _ "next_hash m"])
next
  case (Cons a as)
  let ?i = "hash_index (h_hash m a) n"
  let ?m = "m\<lparr>next_hash := (next_hash m)(a := hs ! ?i)\<rparr>"
  have a: "h = a" "a \<noteq> 0" "hlist (next_hash m) (next_hash m a) as" "a \<notin> set as" "a \<notin> S" using Cons.prems by auto
  have i: "?i < n" using hash_index_less Cons.prems(5) by simp
  have c: "chains ?m n (hs[?i := a]) (bs(?i := a # bs ?i)) (insert a S)" by (rule chains_cons [OF Cons.prems(3) a(2,5) HOL.refl i])
  have h: "hlist (next_hash ?m) (next_hash m a) as" "distinct as" "set as \<inter> insert a S = {}" using a Cons.prems by auto
  obtain nh hs' bs' where r: "rehash_chain n (next_hash m a) ?m (hs[?i := a]) = Some (?m\<lparr>next_hash := nh\<rparr>, hs')"
      "chains (?m\<lparr>next_hash := nh\<rparr>) n hs' bs' (set as \<union> insert a S)" "\<forall>b. b \<notin> set as \<longrightarrow> nh b = next_hash ?m b"
    using Cons.IH [OF h(1,2) c h(3) Cons.prems(5)] by blast
  have "rehash_chain n h m hs = Some (m\<lparr>next_hash := nh\<rparr>, hs')" using a(1,2) r(1) by (subst rehash_chain.simps) (simp add: Let_def)
  then show ?case using r(2,3) by (intro exI [of _ nh] exI [of _ hs'] exI [of _ bs']) simp
qed

lemma rehash_returns:
  assumes "list_all2 (hlist (next_hash m)) hs ass" "distinct (concat ass)" "chains m n hs1 bs S" "set (concat ass) \<inter> S = {}" "n = 2 ^ k"
  shows "\<exists>nh hs' bs'. rehash n hs m hs1 = Some (m\<lparr>next_hash := nh\<rparr>, hs') \<and> chains (m\<lparr>next_hash := nh\<rparr>) n hs' bs' (set (concat ass) \<union> S)"
  using assms
proof (induction hs arbitrary: ass m hs1 bs S)
  case Nil
  then show ?case by (auto intro!: exI [of _ "next_hash m"])
next
  case (Cons h hs)
  obtain as ass' where ass: "ass = as # ass'" using Cons.prems(1) by (auto simp: list_all2_Cons1)
  have 1: "hlist (next_hash m) h as" "distinct as" "set as \<inter> S = {}" using Cons.prems ass by auto
  obtain nh hs2 bs2 where r: "rehash_chain n h m hs1 = Some (m\<lparr>next_hash := nh\<rparr>, hs2)" "chains (m\<lparr>next_hash := nh\<rparr>) n hs2 bs2 (set as \<union> S)"
      "\<forall>a. a \<notin> set as \<longrightarrow> nh a = next_hash m a" using rehash_chain_returns [OF 1(1,2) Cons.prems(3) 1(3) Cons.prems(5)] by blast
  have "list_all2 (hlist nh) hs ass'"
  proof (rule list.rel_mono_strong [of "hlist (next_hash m)"])
    show "list_all2 (hlist (next_hash m)) hs ass'" using Cons.prems(1) ass by simp
    fix h' as' assume "as' \<in> set ass'" "hlist (next_hash m) h' as'"
    moreover from this have "\<And>a. a \<in> set as' \<Longrightarrow> nh a = next_hash m a" using Cons.prems(2) ass r(3) by fastforce
    ultimately show "hlist nh h' as'" using hpath_cong [of as' nh "next_hash m"] by blast
  qed
  then have l: "list_all2 (hlist (next_hash (m\<lparr>next_hash := nh\<rparr>))) hs ass'" by simp
  have d: "distinct (concat ass')" "set (concat ass') \<inter> (set as \<union> S) = {}" using Cons.prems(2,4) ass by auto
  obtain nh' hs' bs' where "rehash n hs (m\<lparr>next_hash := nh\<rparr>) hs2 = Some (m\<lparr>next_hash := nh\<rparr>\<lparr>next_hash := nh'\<rparr>, hs')"
      "chains (m\<lparr>next_hash := nh\<rparr>\<lparr>next_hash := nh'\<rparr>) n hs' bs' (set (concat ass') \<union> (set as \<union> S))"
    using Cons.IH [OF l d(1) r(2) d(2) Cons.prems(5)] by blast
  then show ?case using r(1) ass by (intro exI [of _ nh'] exI [of _ hs'] exI [of _ bs']) (simp add: Un_ac)
qed

lemma chains_empty: "chains m n (replicate n 0) (\<lambda>_. []) {}"
  by (simp add: chains_def)

lemma Resize_htab:
  assumes "htab m t S"
  shows "\<exists>nh t'. Resize m t = Some (m\<lparr>next_hash := nh\<rparr>, t') \<and> htab (m\<lparr>next_hash := nh\<rparr>) t' S"
proof -
  obtain k bs where k: "ht_length t = 2 ^ k" and c: "chains m (ht_length t) (ht_list t) bs S" and S: "finite S" "0 \<notin> S"
      "ht_elems t = card S" "inj_on (hash_key m) S" using assms by (auto simp: htab_def)
  let ?ass = "map bs [0..<ht_length t]"
  obtain k' where g: "grow_length 4 (ht_elems t) = Some (2 ^ k')" "2 \<le> k'" using grow_length_returns [of 2 "ht_elems t"] by auto
  have b: "hlist (next_hash m) (ht_list t ! i) (bs i) \<and> distinct (bs i) \<and> set (bs i) = {a \<in> S. hash_index (h_hash m a) (ht_length t) = i}"
    if "i < ht_length t" for i using c that by (simp add: chains_def)
  have l: "length (ht_list t) = ht_length t" using c by (simp add: chains_def)
  have 1: "list_all2 (hlist (next_hash m)) (ht_list t) ?ass" using b l by (simp add: list_all2_conv_all_nth)
  have "distinct (concat (map bs [0..<n]))" if "n \<le> ht_length t" for n
    using that
  proof (induction n)
    case (Suc n)
    then show ?case using b by auto
  qed simp
  then have 2: "distinct (concat ?ass)" by simp
  have 3: "set (concat ?ass) = S" using b hash_index_less [of _ k] k by auto
  obtain nh hs' bs' where r: "rehash (2 ^ k') (ht_list t) m (replicate (2 ^ k') 0) = Some (m\<lparr>next_hash := nh\<rparr>, hs')"
      "chains (m\<lparr>next_hash := nh\<rparr>) (2 ^ k') hs' bs' S"
    using rehash_returns [OF 1 2 chains_empty _ HOL.refl, of k'] unfolding 3 Int_empty_right Un_empty_right by blast
  then have "Resize m t = Some (m\<lparr>next_hash := nh\<rparr>, t\<lparr>ht_list := hs', ht_length := 2 ^ k'\<rparr>)" using g(1) by (simp add: Resize_def)
  moreover have "htab (m\<lparr>next_hash := nh\<rparr>) (t\<lparr>ht_list := hs', ht_length := 2 ^ k'\<rparr>) S"
    unfolding htab_def using r(2) g(2) S by (auto simp: hash_key_def inj_on_def)
  ultimately show ?thesis by blast
qed

lemma HandleTable_new_htab: "\<exists>t. HandleTable_new m = Some (m, t) \<and> htab m t {}"
proof -
  have g: "grow_length 4 0 = Some 4" by (subst grow_length.simps) simp
  have "chains m 4 [0, 0, 0, 0] (\<lambda>_. []) {}" using chains_empty [of m 4] by (simp add: numeral_eq_Suc)
  then have "htab m \<lparr>ht_length = 4, ht_elems = 0, ht_list = [0, 0, 0, 0]\<rparr> {}"
    unfolding htab_def by (auto intro: exI [of _ 2])
  moreover have "replicate 4 0 = [0, 0, 0, 0 :: nat]" by (simp add: numeral_eq_Suc)
  ultimately show ?thesis by (simp add: HandleTable_new_def Resize_def g)
qed

lemma htab_insert:
  assumes "htab m t S" and h: "h \<notin> S" "h \<noteq> 0"
  shows "\<exists>old nh t'. HandleTable_Insert h m t = Some (old, m\<lparr>next_hash := nh\<rparr>, t') \<and> htab (m\<lparr>next_hash := nh\<rparr>) t' (insert h (S - {old})) \<and>
    {a \<in> S. entry_is m (h_key m h) (h_hash m h) a} = (if old = 0 then {} else {old})"
proof -
  obtain k bs where k: "2 \<le> k" "ht_length t = 2 ^ k" and c: "chains m (ht_length t) (ht_list t) bs S" and S: "finite S" "0 \<notin> S"
      "ht_elems t = card S" "inj_on (hash_key m) S" using assms by (auto simp: htab_def)
  let ?n = "ht_length t" and ?key = "h_key m h" and ?hash = "h_hash m h"
  let ?i = "hash_index ?hash ?n"
  have i: "?i < ?n" using hash_index_less k(2) by simp
  obtain ys zs where f: "bs ?i = ys @ zs" "FindPointer m t ?key ?hash = Some (slot_after (Bucket ?i) ys)" "\<forall>a \<in> set ys. \<not> entry_is m ?key ?hash a"
    "hpath (next_hash m) (ht_list t ! ?i) ys (slot_get m t (slot_after (Bucket ?i) ys))"
    "hlist (next_hash m) (slot_get m t (slot_after (Bucket ?i) ys)) zs" "zs = [] \<or> entry_is m ?key ?hash (hd zs)"
    by (rule FindPointer_splits [OF k(2) c])
  have u: "{a \<in> S. entry_is m ?key ?hash a} = set (take 1 zs)" by (rule chain_unique_entry [OF c i f(1,3,6) S(4)])
  let ?old = "slot_get m t (slot_after (Bucket ?i) ys)"
  let ?nh1 = "(next_hash m)(h := if ?old = 0 then 0 else next_hash m ?old)"
  let ?m1 = "m\<lparr>next_hash := ?nh1\<rparr>" and ?zs = "h # tl zs"
  have b: "distinct (ys @ zs)" "set (ys @ zs) = {a \<in> S. hash_index (h_hash m a) ?n = ?i}"
    using c [unfolded chains_def, THEN conjunct2, THEN spec, THEN mp, OF i] f(1) by simp_all
  have old: "?old = (if zs = [] then 0 else hd zs)" using f(5) by (cases zs) auto
  have hd: "hd zs \<in> S \<and> hd zs \<noteq> 0 \<and> hash_index (h_hash m (hd zs)) ?n = ?i" if "zs \<noteq> []"
  proof -
    have "hd zs \<in> {a \<in> S. hash_index (h_hash m a) ?n = ?i}" unfolding b(2) [symmetric] using that by simp
    then show ?thesis using S(2) by (metis (mono_tags, lifting) mem_Collect_eq)
  qed
  have oldS: "?old \<in> S \<and> ?old \<noteq> 0 \<and> hash_index (h_hash m ?old) ?n = ?i" if "zs \<noteq> []"
    unfolding old if_not_P [OF that] by (rule hd [OF that])
  have hz: "h \<notin> set (ys @ zs)" using b(2) h(1) by auto
  have rest: "hlist (next_hash m) (if ?old = 0 then 0 else next_hash m ?old) (tl zs)" using f(5) by (cases zs) auto
  have S': "insert h (S - {?old}) = (if zs = [] then insert h S else insert h (S - {hd zs}))" using old S(2) by auto
  obtain m2 t2 where set: "slot_set (slot_after (Bucket ?i) ys) h (?m1, t) = (m2, t2)" by fastforce
  have "\<exists>nh2 hs2. m2 = m\<lparr>next_hash := nh2\<rparr> \<and> t2 = t\<lparr>ht_list := hs2\<rparr> \<and> chains m2 ?n hs2 (bs(?i := ys @ ?zs)) (insert h (S - {?old}))"
  proof (rule chains_set [OF c i f(1,4) HOL.refl _ _ _ _ _ set])
    show "?nh1 a = next_hash m a" if "a \<in> S" for a using that h(1) by auto
    show "hlist ?nh1 h ?zs" using rest h(2) hz by (cases zs) auto
    show "distinct (ys @ ?zs)" using b(1) hz by (cases zs) auto
    show "set (ys @ ?zs) = {a \<in> insert h (S - {?old}). hash_index (h_hash m a) ?n = ?i}"
      unfolding S' using b by (cases zs) auto
    show "a \<in> insert h (S - {?old}) \<and> hash_index (h_hash m a) ?n = j \<longleftrightarrow> a \<in> S \<and> hash_index (h_hash m a) ?n = j" if "j \<noteq> ?i" for j a
      using oldS that old S(2) by (cases "zs = []") auto
  qed
  then obtain nh2 hs2 where 2: "m2 = m\<lparr>next_hash := nh2\<rparr>" "t2 = t\<lparr>ht_list := hs2\<rparr>"
    "chains m2 ?n hs2 (bs(?i := ys @ ?zs)) (insert h (S - {?old}))" by blast
  have nomatch: "hash_key m a \<noteq> hash_key m h" if "a \<in> S" "a \<noteq> ?old" for a
  proof
    assume "hash_key m a = hash_key m h"
    then have "a \<in> {a \<in> S. entry_is m ?key ?hash a}" using that(1) by (simp add: entry_is_def hash_key_def)
    then show False unfolding u using that(2) old by (cases zs) auto
  qed
  have "inj_on (hash_key m) (insert h (S - {?old}))"
    using inj_on_subset [OF S(4), of "S - {?old}"] nomatch nomatch [THEN not_sym] by (auto simp: inj_on_insert)
  then have inj: "inj_on (hash_key m2) (insert h (S - {?old}))" by (simp add: 2(1))
  show ?thesis
  proof (cases "zs = []")
    case True
    let ?t = "t2\<lparr>ht_elems := ht_elems t2 + 1\<rparr>"
    have o: "?old = 0" "insert h (S - {?old}) = insert h S" using True old S(2) by auto
    have tab: "htab m2 ?t (insert h S)"
      unfolding htab_def using k 2 S h inj unfolding o by auto
    have ins: "HandleTable_Insert h m t = (if ht_elems ?t > ht_length ?t
        then Option.bind (Resize m2 ?t) (\<lambda>(m, t). Some (0, m, t)) else Some (0, m2, ?t))"
      using f(2) set o(1) by (simp add: HandleTable_Insert_def Let_def)
    show ?thesis
    proof (cases "ht_elems ?t > ht_length ?t")
      case big: True
      obtain nh t' where "Resize m2 ?t = Some (m2\<lparr>next_hash := nh\<rparr>, t')" "htab (m2\<lparr>next_hash := nh\<rparr>) t' (insert h S)"
        using Resize_htab [OF tab] by blast
      then show ?thesis using ins big u True 2(1) S(2) by (intro exI [of _ 0] exI [of _ nh] exI [of _ t']) (simp add: o)
    next
      case False
      then show ?thesis using ins tab u True 2(1) S(2) by (intro exI [of _ 0] exI [of _ nh2] exI [of _ ?t]) (simp add: o)
    qed
  next
    case False
    then have o: "?old \<noteq> 0" "?old \<in> S" using oldS by simp_all
    have "HandleTable_Insert h m t = Some (?old, m2, t2)" using f(2) set o(1) by (simp add: HandleTable_Insert_def Let_def)
    moreover have "htab m2 t2 (insert h (S - {?old}))"
    proof -
      have "card (insert h (S - {?old})) = card S" using S(1) o(2) h(1) by (simp add: card_Diff_singleton) (metis Suc_pred card_gt_0_iff empty_iff)
      then show ?thesis unfolding htab_def using k 2 S h inj by auto
    qed
    moreover have "{a \<in> S. entry_is m ?key ?hash a} = {?old}" using u False old by (cases zs) auto
    ultimately show ?thesis using 2(1) o(1) by (intro exI [of _ ?old] exI [of _ nh2] exI [of _ t2]) simp
  qed
qed

end
