(* ===== verification/Ldb_Cache_Thms.thy ===== *)
theory Ldb_Cache_Thms
  imports Ldb_Cache_Table "HOL-Library.Multiset"
begin

text \<open>
  The cache keeps its rings, its hash table and its counts in order, calls each deleter once, never for an entry that a client
  holds, and gives back what was inserted.
\<close>

section \<open>Rings\<close>

definition doubly_linked :: "(nat \<Rightarrow> nat) \<Rightarrow> (nat \<Rightarrow> nat) \<Rightarrow> nat list \<Rightarrow> bool" where
  "doubly_linked n p xs \<longleftrightarrow> successively (\<lambda>a b. n a = b \<and> p b = a) xs"

text \<open>Two rings without common elements, with heads \<open>l\<close> and \<open>l'\<close>.\<close>

definition rings :: "(nat \<Rightarrow> nat) \<Rightarrow> (nat \<Rightarrow> nat) \<Rightarrow> nat \<Rightarrow> nat list \<Rightarrow> nat \<Rightarrow> nat list \<Rightarrow> bool" where
  "rings n p l xs l' ys \<longleftrightarrow> distinct (l # xs @ l' # ys) \<and> doubly_linked n p (l # xs @ [l]) \<and> doubly_linked n p (l' # ys @ [l'])"

lemma rings_sym: "rings n p l xs l' ys \<Longrightarrow> rings n p l' ys l xs"
  by (auto simp: rings_def)

lemma doubly_linked_append:
  "doubly_linked n p (xs @ ys) \<longleftrightarrow> doubly_linked n p xs \<and> doubly_linked n p ys \<and>
     (xs = [] \<or> ys = [] \<or> n (last xs) = hd ys \<and> p (hd ys) = last xs)"
  by (auto simp: doubly_linked_def successively_append_iff)

lemma doubly_linked_frame:
  assumes "doubly_linked n p xs" "\<And>x. x \<in> set (butlast xs) \<Longrightarrow> n' x = n x" "\<And>x. x \<in> set (tl xs) \<Longrightarrow> p' x = p x"
  shows "doubly_linked n' p' xs"
  using assms
proof (induction xs rule: induct_list012)
  case (3 x y zs)
  then have "doubly_linked n' p' (y # zs)" by (intro 3(2)) (auto simp: doubly_linked_def)
  then show ?case using 3(3-5) by (auto simp: doubly_linked_def)
qed (simp_all add: doubly_linked_def)

lemma butlast_not_last: "distinct xs \<Longrightarrow> x \<in> set (butlast xs) \<Longrightarrow> x \<noteq> last xs"
  by (cases xs rule: rev_cases) auto

lemma rings_next: "rings n p l xs l' ys \<Longrightarrow> n l = (if xs = [] then l else hd xs)"
  by (cases xs) (auto simp: rings_def doubly_linked_def successively_Cons)

lemma LRU_Remove_rings:
  assumes r: "rings (h_next m) (h_prev m) l (as @ e # bs) l' ys"
  shows "\<exists>n p. LRU_Remove e m = m\<lparr>h_next := n, h_prev := p\<rparr> \<and> rings n p l (as @ bs) l' ys"
proof -
  let ?n = "h_next m" and ?p = "h_prev m" and ?a = "last (l # as)" and ?b = "hd (bs @ [l])"
  have d: "distinct (l # (as @ e # bs) @ l' # ys)" and c: "doubly_linked ?n ?p ((l # as) @ e # bs @ [l])" "doubly_linked ?n ?p (l' # ys @ [l'])"
    using r by (simp_all add: rings_def)
  have c1: "doubly_linked ?n ?p (l # as)" "doubly_linked ?n ?p (bs @ [l])" "?p e = ?a" "?n e = ?b"
    using c(1) doubly_linked_append [of ?n ?p "l # as" "e # bs @ [l]"] doubly_linked_append [of ?n ?p "[e]" "bs @ [l]"] by auto
  let ?n' = "?n(?a := ?b)" and ?p' = "?p(?b := ?a)"
  have b: "?b = l \<and> bs = [] \<or> ?b \<in> set bs" by (cases bs) auto
  then have "?b \<noteq> e" using d by auto
  then have e: "LRU_Remove e m = m\<lparr>h_next := ?n', h_prev := ?p'\<rparr>" using c1(3,4) by (simp add: LRU_Remove_def Let_def)
  have a: "?a \<in> set (l # as)" by (rule last_in_set) simp
  have "doubly_linked ?n' ?p' (l # as)"
  proof (rule doubly_linked_frame [OF c1(1)])
    fix x assume "x \<in> set (butlast (l # as))"
    then have "x \<noteq> ?a" using d by (intro butlast_not_last) auto
    then show "?n' x = ?n x" by simp
  next
    fix x assume "x \<in> set (tl (l # as))"
    then show "?p' x = ?p x" using b d by auto
  qed
  moreover have "doubly_linked ?n' ?p' (bs @ [l])"
  proof (rule doubly_linked_frame [OF c1(2)])
    fix x assume "x \<in> set (butlast (bs @ [l]))"
    then show "?n' x = ?n x" using a d by auto
  next
    fix x assume "x \<in> set (tl (bs @ [l]))"
    then show "?p' x = ?p x" using d by (cases bs) auto
  qed
  ultimately have "doubly_linked ?n' ?p' ((l # as) @ bs @ [l])" unfolding doubly_linked_append [of _ _ "l # as"] by simp
  moreover have "doubly_linked ?n' ?p' (l' # ys @ [l'])"
  proof (rule doubly_linked_frame [OF c(2)])
    fix x assume "x \<in> set (butlast (l' # ys @ [l']))"
    then have "x \<in> set (l' # ys)" by (simp add: butlast_append split: if_splits)
    then show "?n' x = ?n x" using a d by auto
  next
    fix x assume "x \<in> set (tl (l' # ys @ [l']))"
    then show "?p' x = ?p x" using b d by auto
  qed
  ultimately have "rings ?n' ?p' l (as @ bs) l' ys" using d by (auto simp: rings_def)
  then show ?thesis using e by blast
qed

lemma LRU_Append_rings:
  assumes r: "rings (h_next m) (h_prev m) l xs l' ys" and e: "e \<notin> set (l # xs @ l' # ys)"
  shows "\<exists>n p. LRU_Append l e m = m\<lparr>h_next := n, h_prev := p\<rparr> \<and> rings n p l (xs @ [e]) l' ys"
proof -
  let ?n = "h_next m" and ?p = "h_prev m" and ?a = "last (l # xs)"
  have d: "distinct (l # xs @ l' # ys)" and c: "doubly_linked ?n ?p ((l # xs) @ [l])" "doubly_linked ?n ?p (l' # ys @ [l'])"
    using r by (simp_all add: rings_def)
  have c1: "doubly_linked ?n ?p (l # xs)" "?p l = ?a" using c(1) unfolding doubly_linked_append [of _ _ "l # xs"] by auto
  let ?n' = "?n(e := l, ?a := e)" and ?p' = "?p(e := ?a, l := e)"
  have a: "?a \<in> set (l # xs)" by (rule last_in_set) simp
  then have "?a \<noteq> e" using e by auto
  then have eq: "LRU_Append l e m = m\<lparr>h_next := ?n', h_prev := ?p'\<rparr>" using c1(2) e by (simp add: LRU_Append_def Let_def fun_upd_twist)
  have "doubly_linked ?n' ?p' (l # xs)"
  proof (rule doubly_linked_frame [OF c1(1)])
    fix x assume x: "x \<in> set (butlast (l # xs))"
    then have "x \<noteq> ?a" using d by (intro butlast_not_last) auto
    moreover have "x \<noteq> e" using in_set_butlastD [OF x] e by auto
    ultimately show "?n' x = ?n x" by simp
  next
    fix x assume "x \<in> set (tl (l # xs))"
    then show "?p' x = ?p x" using d e by auto
  qed
  then have "doubly_linked ?n' ?p' ((l # xs) @ [e, l])"
    unfolding doubly_linked_append [of _ _ "l # xs"] using e \<open>?a \<noteq> e\<close> by (auto simp: doubly_linked_def)
  moreover have "doubly_linked ?n' ?p' (l' # ys @ [l'])"
  proof (rule doubly_linked_frame [OF c(2)])
    fix x assume "x \<in> set (butlast (l' # ys @ [l']))"
    then have "x \<in> set (l' # ys)" by (simp add: butlast_append split: if_splits)
    then show "?n' x = ?n x" using a d e by auto
  next
    fix x assume "x \<in> set (tl (l' # ys @ [l']))"
    then show "?p' x = ?p x" using d e by auto
  qed
  ultimately have "rings ?n' ?p' l (xs @ [e]) l' ys" using d e by (auto simp: rings_def)
  then show ?thesis using eq by blast
qed

section \<open>The state of a shard\<close>

definition cached :: "'v handles \<Rightarrow> nat set" where
  "cached m = {a \<in> live m. in_cache m a}"

text \<open>How often an entry is lent to clients.\<close>

definition lent_count :: "'v handles \<Rightarrow> nat \<Rightarrow> nat" where
  "lent_count m a = (if a \<in> live m then h_refs m a - (if in_cache m a then 1 else 0) else 0)"

text \<open>
  The entries of the cache are in the ring \<^verbatim>\<open>lru\<close> when the cache has the only reference, \<open>xs\<close>, and in the ring \<^verbatim>\<open>in_use\<close> otherwise, \<open>ys\<close>.
\<close>

definition entries_ok :: "'v handles \<Rightarrow> nat list \<Rightarrow> nat list \<Rightarrow> bool" where
  "entries_ok m xs ys \<longleftrightarrow> finite (live m) \<and> (\<forall>a \<in> live m. 2 < a \<and> 1 \<le> h_refs m a) \<and> rings (h_next m) (h_prev m) lru xs in_use ys \<and>
     set xs \<union> set ys = cached m \<and> (\<forall>a \<in> set xs. h_refs m a = 1) \<and> (\<forall>a \<in> set ys. 2 \<le> h_refs m a)"

definition charges :: "'v handles \<Rightarrow> uint64" where
  "charges m = sum (h_charge m) (cached m)"

definition lru_inv :: "'v LRUCache \<Rightarrow> nat list \<Rightarrow> nat list \<Rightarrow> bool" where
  "lru_inv c xs ys \<longleftrightarrow> entries_ok (lc_mem c) xs ys \<and> htab (lc_mem c) (lc_table c) (cached (lc_mem c)) \<and> usage c = charges (lc_mem c)"

text \<open>What was inserted: the entries that were passed to their deleters and those that are allocated.\<close>

definition entry_of :: "'v handles \<Rightarrow> nat \<Rightarrow> addr \<times> slice \<times> 'v" where
  "entry_of m a = (h_deleter m a, h_key m a, h_value m a)"

definition account :: "'v LRUCache \<Rightarrow> (addr \<times> slice \<times> 'v) multiset" where
  "account c = mset (deleted c) + image_mset (entry_of (lc_mem c)) (mset_set (live (lc_mem c)))"

text \<open>What the operations other than insertion do not change.\<close>

definition frame :: "'v LRUCache \<Rightarrow> 'v LRUCache \<Rightarrow> bool" where
  "frame c c' \<longleftrightarrow> h_value (lc_mem c') = h_value (lc_mem c) \<and> h_key (lc_mem c') = h_key (lc_mem c) \<and> h_hash (lc_mem c') = h_hash (lc_mem c) \<and>
     h_charge (lc_mem c') = h_charge (lc_mem c) \<and> h_deleter (lc_mem c') = h_deleter (lc_mem c) \<and> capacity c' = capacity c \<and>
     live (lc_mem c') \<subseteq> live (lc_mem c) \<and> cached (lc_mem c') \<subseteq> cached (lc_mem c) \<and> account c' = account c"

lemma frame_refl [simp]: "frame c c"
  by (simp add: frame_def)

lemma frame_trans: "frame c c' \<Longrightarrow> frame c' c'' \<Longrightarrow> frame c c''"
  by (auto simp: frame_def)

lemma htab_cong:
  "htab m t S \<Longrightarrow> next_hash m' = next_hash m \<Longrightarrow> h_hash m' = h_hash m \<Longrightarrow> h_key m' = h_key m \<Longrightarrow> htab m' t S"
  by (simp add: htab_def chains_def hash_key_def [abs_def])

lemma entries_heads: "entries_ok m xs ys \<Longrightarrow> a \<in> live m \<Longrightarrow> a \<noteq> lru \<and> a \<noteq> in_use \<and> a \<noteq> 0"
  by (auto simp: entries_ok_def lru_def in_use_def)

lemma entries_cached:
  assumes "entries_ok m xs ys" "a \<in> live m"
  shows "in_cache m a \<and> h_refs m a = 1 \<longleftrightarrow> a \<in> set xs" "in_cache m a \<and> 2 \<le> h_refs m a \<longleftrightarrow> a \<in> set ys"
proof -
  have "a \<in> set xs \<or> a \<in> set ys \<longleftrightarrow> in_cache m a" using assms by (simp add: entries_ok_def cached_def set_eq_iff)
  moreover have "a \<in> set xs \<Longrightarrow> h_refs m a = 1" "a \<in> set ys \<Longrightarrow> 2 \<le> h_refs m a" using assms(1) by (simp_all add: entries_ok_def)
  ultimately show "in_cache m a \<and> h_refs m a = 1 \<longleftrightarrow> a \<in> set xs" "in_cache m a \<and> 2 \<le> h_refs m a \<longleftrightarrow> a \<in> set ys" by auto
qed

text \<open>Moving an entry between the rings.\<close>

lemma entries_move:
  assumes "entries_ok m (as @ e # bs) ys"
  shows "\<exists>n p. LRU_Append in_use e (LRU_Remove e m) = m\<lparr>h_next := n, h_prev := p\<rparr> \<and> rings n p lru (as @ bs) in_use (ys @ [e])"
proof -
  have r: "rings (h_next m) (h_prev m) lru (as @ e # bs) in_use ys" using assms by (simp add: entries_ok_def)
  obtain n p where 1: "LRU_Remove e m = m\<lparr>h_next := n, h_prev := p\<rparr>" "rings n p lru (as @ bs) in_use ys" using LRU_Remove_rings [OF r] by blast
  let ?m = "m\<lparr>h_next := n, h_prev := p\<rparr>"
  have r2: "rings (h_next ?m) (h_prev ?m) in_use ys lru (as @ bs)" using rings_sym [OF 1(2)] by simp
  have "e \<notin> set (in_use # ys @ lru # (as @ bs))" using r by (auto simp: rings_def)
  from LRU_Append_rings [OF r2 this] obtain n' p' where "LRU_Append in_use e ?m = m\<lparr>h_next := n', h_prev := p'\<rparr>" "rings n' p' in_use (ys @ [e]) lru (as @ bs)"
    by auto
  then show ?thesis using 1(1) by (intro exI [of _ n'] exI [of _ p']) (simp add: rings_sym)
qed

lemma entries_move_back:
  assumes "rings (h_next m) (h_prev m) lru xs in_use (as @ e # bs)"
  shows "\<exists>n p. LRU_Append lru e (LRU_Remove e m) = m\<lparr>h_next := n, h_prev := p\<rparr> \<and> rings n p lru (xs @ [e]) in_use (as @ bs)"
proof -
  have r: "rings (h_next m) (h_prev m) in_use (as @ e # bs) lru xs" using rings_sym [OF assms] .
  obtain n p where 1: "LRU_Remove e m = m\<lparr>h_next := n, h_prev := p\<rparr>" "rings n p in_use (as @ bs) lru xs" using LRU_Remove_rings [OF r] by blast
  let ?m = "m\<lparr>h_next := n, h_prev := p\<rparr>"
  have r2: "rings (h_next ?m) (h_prev ?m) lru xs in_use (as @ bs)" using rings_sym [OF 1(2)] by simp
  have "e \<notin> set (lru # xs @ in_use # (as @ bs))" using r by (auto simp: rings_def)
  from LRU_Append_rings [OF r2 this] obtain n' p' where "LRU_Append lru e ?m = m\<lparr>h_next := n', h_prev := p'\<rparr>" "rings n' p' lru (xs @ [e]) in_use (as @ bs)"
    by auto
  then show ?thesis using 1(1) by auto
qed

section \<open>References\<close>

lemma account_entry_cong:
  assumes "deleted c' = deleted c" "live (lc_mem c') = live (lc_mem c)" "h_value (lc_mem c') = h_value (lc_mem c)"
    "h_key (lc_mem c') = h_key (lc_mem c)" "h_deleter (lc_mem c') = h_deleter (lc_mem c)"
  shows "account c' = account c"
  using assms by (simp add: account_def entry_of_def [abs_def])

lemma Ref_inv:
  assumes i: "lru_inv c xs ys" and e: "e \<in> cached (lc_mem c)"
  shows "\<exists>n p xs' ys'. LRU_Ref e c = c\<lparr>lc_mem := (lc_mem c)\<lparr>h_next := n, h_prev := p, h_refs := (h_refs (lc_mem c))(e := h_refs (lc_mem c) e + 1)\<rparr>\<rparr> \<and>
    lru_inv (LRU_Ref e c) xs' ys'"
proof -
  let ?m = "lc_mem c"
  have ok: "entries_ok ?m xs ys" and t: "htab ?m (lc_table c) (cached ?m)" "usage c = charges ?m" using i by (simp_all add: lru_inv_def)
  have live: "e \<in> live ?m" "in_cache ?m e" using e by (simp_all add: cached_def)
  have inv: "lru_inv (c\<lparr>lc_mem := ?m\<lparr>h_next := n, h_prev := p, h_refs := (h_refs ?m)(e := h_refs ?m e + 1)\<rparr>\<rparr>) xs' ys'"
    if "rings n p lru xs' in_use ys'" "set xs' \<union> set ys' = cached ?m" "\<forall>a \<in> set xs'. a \<noteq> e \<and> h_refs ?m a = 1" "\<forall>a \<in> set ys'. a = e \<or> 2 \<le> h_refs ?m a"
    for n p xs' ys'
  proof -
    let ?m' = "?m\<lparr>h_next := n, h_prev := p, h_refs := (h_refs ?m)(e := h_refs ?m e + 1)\<rparr>"
    have c: "cached ?m' = cached ?m" by (simp add: cached_def)
    have "1 \<le> h_refs ?m e" using ok live by (simp add: entries_ok_def)
    then have "entries_ok ?m' xs' ys'" using ok that unfolding entries_ok_def c by auto
    moreover have "htab ?m' (lc_table c) (cached ?m')" unfolding c by (rule htab_cong [OF t(1)]) simp_all
    moreover have "charges ?m' = charges ?m" unfolding charges_def c by simp
    ultimately show ?thesis using t(2) by (simp add: lru_inv_def)
  qed
  show ?thesis
  proof (cases "h_refs ?m e = 1")
    case True
    then have "e \<in> set xs" using entries_cached(1) [OF ok live(1)] live(2) by simp
    then obtain as bs where xs: "xs = as @ e # bs" by (auto simp: in_set_conv_decomp)
    obtain n p where m: "LRU_Append in_use e (LRU_Remove e ?m) = ?m\<lparr>h_next := n, h_prev := p\<rparr>" "rings n p lru (as @ bs) in_use (ys @ [e])"
      using entries_move ok xs by blast
    have eq: "LRU_Ref e c = c\<lparr>lc_mem := ?m\<lparr>h_next := n, h_prev := p, h_refs := (h_refs ?m)(e := h_refs ?m e + 1)\<rparr>\<rparr>"
      using True live(2) m(1) by (simp add: LRU_Ref_def Let_def)
    have "e \<notin> set (as @ bs)" using m(2) by (auto simp: rings_def)
    then have "lru_inv (LRU_Ref e c) (as @ bs) (ys @ [e])" unfolding eq using ok xs by (intro inv [OF m(2)]) (auto simp: entries_ok_def)
    then show ?thesis using eq by blast
  next
    case False
    then have eq: "LRU_Ref e c = c\<lparr>lc_mem := ?m\<lparr>h_next := h_next ?m, h_prev := h_prev ?m, h_refs := (h_refs ?m)(e := h_refs ?m e + 1)\<rparr>\<rparr>"
      using live(2) by (simp add: LRU_Ref_def Let_def)
    have "lru_inv (LRU_Ref e c) xs ys" unfolding eq using ok False by (intro inv) (auto simp: entries_ok_def)
    then show ?thesis using eq by blast
  qed
qed

lemma Ref_frame:
  assumes "lru_inv c xs ys" "e \<in> cached (lc_mem c)"
  shows "frame c (LRU_Ref e c) \<and> lent_count (lc_mem (LRU_Ref e c)) = (lent_count (lc_mem c))(e := lent_count (lc_mem c) e + 1) \<and>
    cached (lc_mem (LRU_Ref e c)) = cached (lc_mem c) \<and> (\<exists>xs' ys'. lru_inv (LRU_Ref e c) xs' ys')"
proof -
  let ?m = "lc_mem c"
  obtain n p xs' ys' where r: "LRU_Ref e c = c\<lparr>lc_mem := ?m\<lparr>h_next := n, h_prev := p, h_refs := (h_refs ?m)(e := h_refs ?m e + 1)\<rparr>\<rparr>"
    "lru_inv (LRU_Ref e c) xs' ys'" using Ref_inv [OF assms] by blast
  have "1 \<le> h_refs ?m e" "e \<in> live ?m" using assms by (auto simp: lru_inv_def entries_ok_def cached_def)
  then show ?thesis using r(2) account_entry_cong [of "LRU_Ref e c" c]
    by (auto simp: r(1) frame_def cached_def lent_count_def fun_eq_iff)
qed

lemma entries_cong:
  assumes "entries_ok m xs ys" "live m' = live m" "in_cache m' = in_cache m" "h_refs m' = h_refs m"
    "rings (h_next m') (h_prev m') lru xs' in_use ys'" "set xs' \<union> set ys' = set xs \<union> set ys"
    "\<forall>a \<in> set xs'. h_refs m' a = 1" "\<forall>a \<in> set ys'. 2 \<le> h_refs m' a"
  shows "entries_ok m' xs' ys'"
  using assms by (simp add: entries_ok_def cached_def)

text \<open>
  The release of a reference that a client has, or of the last one of an entry that has just left the cache. The entry goes when it was
  the last reference.
\<close>

lemma drop_ref_free:
  assumes i: "lru_inv c xs ys" and e: "e \<in> live (lc_mem c)" "\<not> in_cache (lc_mem c) e" "h_refs (lc_mem c) e = 1"
  shows "\<exists>c'. LRU_Unref e c = c' \<and> lru_inv c' xs ys \<and> frame c c' \<and> live (lc_mem c') = live (lc_mem c) - {e} \<and>
    deleted c' = deleted c @ [entry_of (lc_mem c) e] \<and> cached (lc_mem c') = cached (lc_mem c) \<and>
    lent_count (lc_mem c') = (lent_count (lc_mem c))(e := 0)"
proof -
  let ?m = "lc_mem c"
  let ?m' = "?m\<lparr>h_refs := (h_refs ?m)(e := 0), live := live ?m - {e}\<rparr>"
  let ?c = "c\<lparr>lc_mem := ?m', deleted := deleted c @ [entry_of ?m e]\<rparr>"
  have eq: "LRU_Unref e c = ?c" using e by (simp add: LRU_Unref_def Let_def entry_of_def)
  have cc: "cached ?m' = cached ?m" using e(2) by (auto simp: cached_def)
  have ne: "e \<notin> cached ?m" using e(2) by (simp add: cached_def)
  have ok: "entries_ok ?m xs ys" using i by (simp add: lru_inv_def)
  then have "e \<notin> set xs" "e \<notin> set ys" using ne by (auto simp: entries_ok_def)
  then have "entries_ok ?m' xs ys" using ok unfolding entries_ok_def cc by auto
  moreover have "htab ?m' (lc_table c) (cached ?m')" unfolding cc by (rule htab_cong [of ?m]) (use i in \<open>simp_all add: lru_inv_def\<close>)
  moreover have "charges ?m' = charges ?m" unfolding charges_def cc by simp
  ultimately have inv: "lru_inv ?c xs ys" using i by (simp add: lru_inv_def)
  have f: "finite (live ?m)" using ok by (simp add: entries_ok_def)
  have "mset_set (live ?m) = add_mset e (mset_set (live ?m - {e}))" using f e(1) by (simp add: mset_set.remove)
  then have "account ?c = account c" by (simp add: account_def entry_of_def [abs_def])
  then have "frame c ?c" using cc by (auto simp: frame_def)
  then show ?thesis using eq inv cc by (auto simp: lent_count_def fun_eq_iff)
qed

lemma Unref_inv:
  assumes i: "lru_inv c xs ys" and e: "0 < lent_count (lc_mem c) e"
  shows "\<exists>xs' ys'. lru_inv (LRU_Unref e c) xs' ys' \<and> frame c (LRU_Unref e c) \<and> cached (lc_mem (LRU_Unref e c)) = cached (lc_mem c) \<and>
    lent_count (lc_mem (LRU_Unref e c)) = (lent_count (lc_mem c))(e := lent_count (lc_mem c) e - 1)"
proof -
  let ?m = "lc_mem c"
  have ok: "entries_ok ?m xs ys" and t: "htab ?m (lc_table c) (cached ?m)" "usage c = charges ?m" using i by (simp_all add: lru_inv_def)
  have live: "e \<in> live ?m" using e by (simp add: lent_count_def split: if_splits)
  have n: "lent_count ?m e = h_refs ?m e - (if in_cache ?m e then 1 else 0)" using live by (simp add: lent_count_def)
  have result: ?thesis
    if eq: "LRU_Unref e c = c\<lparr>lc_mem := ?m\<lparr>h_next := nx, h_prev := p, h_refs := (h_refs ?m)(e := h_refs ?m e - 1)\<rparr>\<rparr>"
      and r: "rings nx p lru xs' in_use ys'" "set xs' \<union> set ys' = cached ?m" "1 \<le> h_refs ?m e - 1"
        "\<forall>a \<in> set xs'. (if a = e then h_refs ?m a = 2 else h_refs ?m a = 1)" "\<forall>a \<in> set ys'. (if a = e then 3 \<le> h_refs ?m a else 2 \<le> h_refs ?m a)"
    for nx p xs' ys'
  proof -
    let ?m' = "?m\<lparr>h_next := nx, h_prev := p, h_refs := (h_refs ?m)(e := h_refs ?m e - 1)\<rparr>"
    have c: "cached ?m' = cached ?m" by (simp add: cached_def)
    have "entries_ok ?m' xs' ys'" using ok r unfolding entries_ok_def c by auto
    moreover have "htab ?m' (lc_table c) (cached ?m')" unfolding c by (rule htab_cong [OF t(1)]) simp_all
    moreover have "charges ?m' = charges ?m" unfolding charges_def c by simp
    ultimately have "lru_inv (LRU_Unref e c) xs' ys'" using t(2) unfolding eq by (simp add: lru_inv_def)
    moreover have "account (LRU_Unref e c) = account c" by (rule account_entry_cong) (simp_all add: eq)
    ultimately show ?thesis using live by (intro exI conjI) (auto simp: eq frame_def cached_def lent_count_def fun_eq_iff)
  qed
  show ?thesis
  proof (cases "in_cache ?m e")
    case ic: True
    then have ge: "2 \<le> h_refs ?m e" using e n by simp
    then have "e \<in> set ys" using entries_cached(2) [OF ok live] ic by simp
    then obtain as bs where ys: "ys = as @ e # bs" by (auto simp: in_set_conv_decomp)
    have d: "e \<notin> set as" "e \<notin> set bs" "e \<notin> set xs" using ok ys by (auto simp: entries_ok_def rings_def)
    show ?thesis
    proof (cases "h_refs ?m e = 2")
      case True
      let ?m1 = "?m\<lparr>h_refs := (h_refs ?m)(e := 1)\<rparr>"
      have "rings (h_next ?m1) (h_prev ?m1) lru xs in_use (as @ e # bs)" using ok ys by (simp add: entries_ok_def)
      from entries_move_back [OF this] obtain nx p where
        m: "LRU_Append lru e (LRU_Remove e ?m1) = ?m1\<lparr>h_next := nx, h_prev := p\<rparr>" "rings nx p lru (xs @ [e]) in_use (as @ bs)" by blast
      have eq: "LRU_Unref e c = c\<lparr>lc_mem := ?m\<lparr>h_next := nx, h_prev := p, h_refs := (h_refs ?m)(e := h_refs ?m e - 1)\<rparr>\<rparr>"
        using True ic m(1) by (simp add: LRU_Unref_def Let_def)
      show ?thesis by (rule result [OF eq m(2)]) (use ok ys True d in \<open>auto simp: entries_ok_def\<close>)
    next
      case False
      then have "h_refs ?m e - Suc 0 \<noteq> Suc 0" "h_refs ?m e - Suc 0 \<noteq> 0" using ge by auto
      then have eq: "LRU_Unref e c = c\<lparr>lc_mem := ?m\<lparr>h_next := h_next ?m, h_prev := h_prev ?m, h_refs := (h_refs ?m)(e := h_refs ?m e - 1)\<rparr>\<rparr>"
        by (simp add: LRU_Unref_def Let_def)
      show ?thesis by (rule result [OF eq, of xs ys]) (use ok ys False ge d in \<open>auto simp: entries_ok_def\<close>)
    qed
  next
    case nic: False
    show ?thesis
    proof (cases "h_refs ?m e = 1")
      case True
      then have "lent_count ?m e = 1" using n nic by simp
      then show ?thesis using drop_ref_free [OF i live nic True] by auto
    next
      case False
      then have ge: "2 \<le> h_refs ?m e" using e n nic by simp
      have d: "e \<notin> set xs" "e \<notin> set ys" using ok nic by (auto simp: entries_ok_def cached_def)
      have eq: "LRU_Unref e c = c\<lparr>lc_mem := ?m\<lparr>h_next := h_next ?m, h_prev := h_prev ?m, h_refs := (h_refs ?m)(e := h_refs ?m e - 1)\<rparr>\<rparr>"
        using ge nic by (simp add: LRU_Unref_def Let_def)
      show ?thesis by (rule result [OF eq, of xs ys]) (use ok ge d in \<open>auto simp: entries_ok_def\<close>)
    qed
  qed
qed

section \<open>Leaving the cache\<close>

text \<open>The entry \<open>e\<close> is no longer in the hash table \<open>t\<close>; \<open>xs\<close> and \<open>ys\<close> are the rings with it.\<close>

lemma FinishErase_inv:
  assumes ok: "entries_ok (lc_mem c) xs ys" and t: "htab (lc_mem c) (lc_table c) (cached (lc_mem c) - {e})" and u: "usage c = charges (lc_mem c)"
    and e: "e \<in> cached (lc_mem c)"
  shows "\<exists>c'. FinishErase e c = (True, c') \<and> lru_inv c' (removeAll e xs) (removeAll e ys) \<and> frame c c' \<and>
    cached (lc_mem c') = cached (lc_mem c) - {e} \<and> lent_count (lc_mem c') = lent_count (lc_mem c) \<and>
    deleted c' = deleted c @ (if e \<in> set xs then [entry_of (lc_mem c) e] else []) \<and>
    live (lc_mem c') = live (lc_mem c) - (if e \<in> set xs then {e} else {})"
proof -
  let ?m = "lc_mem c"
  have live: "e \<in> live ?m" "in_cache ?m e" using e by (simp_all add: cached_def)
  have r: "rings (h_next ?m) (h_prev ?m) lru xs in_use ys" using ok by (simp add: entries_ok_def)
  have "e \<in> set xs \<or> e \<in> set ys" using ok e by (auto simp: entries_ok_def)
  then obtain n p where m: "LRU_Remove e ?m = ?m\<lparr>h_next := n, h_prev := p\<rparr>" "rings n p lru (removeAll e xs) in_use (removeAll e ys)"
  proof
    assume "e \<in> set xs"
    then obtain as bs where xs: "xs = as @ e # bs" by (auto simp: in_set_conv_decomp)
    then have "e \<notin> set as" "e \<notin> set bs" "e \<notin> set ys" using r by (auto simp: rings_def)
    then show ?thesis using LRU_Remove_rings [of ?m lru as e bs in_use ys] r xs that by auto
  next
    assume "e \<in> set ys"
    then obtain as bs where ys: "ys = as @ e # bs" by (auto simp: in_set_conv_decomp)
    then have "e \<notin> set as" "e \<notin> set bs" "e \<notin> set xs" using r by (auto simp: rings_def)
    then show ?thesis using LRU_Remove_rings [of ?m in_use as e bs lru xs] rings_sym [OF r] ys that by (auto dest: rings_sym)
  qed
  let ?m1 = "?m\<lparr>h_next := n, h_prev := p, in_cache := (in_cache ?m)(e := False)\<rparr>"
  let ?k = "h_refs ?m e - 1"
  let ?m2 = "?m1\<lparr>h_refs := (h_refs ?m)(e := ?k)\<rparr>"
  have c1: "cached ?m1 = cached ?m - {e}" by (auto simp: cached_def)
  have xs: "e \<in> set xs \<longleftrightarrow> h_refs ?m e = 1" using entries_cached(1) [OF ok live(1)] live(2) by simp
  have ge: "1 \<le> h_refs ?m e" using ok live(1) by (simp add: entries_ok_def)
  have ch: "usage c - h_charge ?m e = sum (h_charge ?m) (cached ?m - {e})"
  proof -
    have "finite (cached ?m)" using ok by (simp add: entries_ok_def cached_def)
    then show ?thesis using u e by (simp add: charges_def sum.remove)
  qed
  let ?c1 = "c\<lparr>lc_mem := ?m1, usage := usage c - h_charge ?m e\<rparr>"
  have fe: "FinishErase e c = (True, LRU_Unref e ?c1)" using entries_heads [OF ok live(1)] m(1) by (simp add: FinishErase_def Let_def)
  have lc: "lent_count ?m e = ?k" using live by (simp add: lent_count_def)
  have sets: "set (removeAll e xs) \<union> set (removeAll e ys) = cached ?m - {e}" using ok by (auto simp: entries_ok_def)
  show ?thesis
  proof (cases "h_refs ?m e = 1")
    case True
    let ?m3 = "?m2\<lparr>live := live ?m - {e}\<rparr>" and ?d = "deleted c @ [entry_of ?m e]"
    let ?c = "c\<lparr>lc_mem := ?m3, usage := usage c - h_charge ?m e, deleted := ?d\<rparr>"
    have eq: "LRU_Unref e ?c1 = ?c" using True by (simp add: LRU_Unref_def Let_def entry_of_def)
    have cc: "cached ?m3 = cached ?m - {e}" by (auto simp: cached_def)
    have "entries_ok ?m3 (removeAll e xs) (removeAll e ys)" using ok m(2) sets unfolding entries_ok_def cc by auto
    moreover have "htab ?m3 (lc_table c) (cached ?m3)" unfolding cc by (rule htab_cong [OF t]) simp_all
    moreover have "charges ?m3 = usage c - h_charge ?m e" unfolding charges_def cc ch by simp
    ultimately have inv: "lru_inv ?c (removeAll e xs) (removeAll e ys)" by (simp add: lru_inv_def)
    have "finite (live ?m)" using ok by (simp add: entries_ok_def)
    then have "mset_set (live ?m) = add_mset e (mset_set (live ?m - {e}))" using live(1) by (simp add: mset_set.remove)
    then have "account ?c = account c" by (simp add: account_def entry_of_def [abs_def])
    then have "frame c ?c" using cc by (auto simp: frame_def)
    moreover have "lent_count ?m3 = lent_count ?m" using lc True by (auto simp: lent_count_def fun_eq_iff)
    ultimately show ?thesis using inv eq fe xs True cc by simp
  next
    case False
    let ?c = "c\<lparr>lc_mem := ?m2, usage := usage c - h_charge ?m e\<rparr>"
    have k: "?k \<noteq> 0" "h_refs ?m e - Suc 0 \<noteq> 0" using False ge by auto
    then have eq: "LRU_Unref e ?c1 = ?c" by (simp add: LRU_Unref_def Let_def)
    have cc: "cached ?m2 = cached ?m - {e}" by (auto simp: cached_def)
    have "entries_ok ?m2 (removeAll e xs) (removeAll e ys)" using ok m(2) sets k unfolding entries_ok_def cc by auto
    moreover have "htab ?m2 (lc_table c) (cached ?m2)" unfolding cc by (rule htab_cong [OF t]) simp_all
    moreover have "charges ?m2 = usage c - h_charge ?m e" unfolding charges_def cc ch by simp
    ultimately have inv: "lru_inv ?c (removeAll e xs) (removeAll e ys)" by (simp add: lru_inv_def)
    have "account ?c = account c" by (rule account_entry_cong) simp_all
    then have "frame c ?c" using cc by (auto simp: frame_def)
    moreover have "lent_count ?m2 = lent_count ?m" using lc live by (auto simp: lent_count_def fun_eq_iff)
    ultimately show ?thesis using inv eq fe xs False cc by simp
  qed
qed

lemma Erase_inv:
  assumes i: "lru_inv c xs ys"
  shows "\<exists>r c'. LRU_Erase key hash c = Some (r \<noteq> 0, c') \<and> {a \<in> cached (lc_mem c). entry_is (lc_mem c) key hash a} = (if r = 0 then {} else {r}) \<and>
    lru_inv c' (removeAll r xs) (removeAll r ys) \<and> frame c c' \<and> cached (lc_mem c') = cached (lc_mem c) - {r} \<and>
    lent_count (lc_mem c') = lent_count (lc_mem c) \<and> deleted c' = deleted c @ (if r \<in> set xs then [entry_of (lc_mem c) r] else [])"
proof -
  let ?m = "lc_mem c"
  have ok: "entries_ok ?m xs ys" and t: "htab ?m (lc_table c) (cached ?m)" "usage c = charges ?m" using i by (simp_all add: lru_inv_def)
  obtain r nh t' where r: "HandleTable_Remove key hash ?m (lc_table c) = Some (r, ?m\<lparr>next_hash := nh\<rparr>, t')"
    "htab (?m\<lparr>next_hash := nh\<rparr>) t' (cached ?m - {r})" "{a \<in> cached ?m. entry_is ?m key hash a} = (if r = 0 then {} else {r})"
    using htab_remove [OF t(1)] by blast
  let ?c = "c\<lparr>lc_mem := ?m\<lparr>next_hash := nh\<rparr>, lc_table := t'\<rparr>"
  have c: "cached (lc_mem ?c) = cached ?m" by (simp add: cached_def)
  have ok': "entries_ok (lc_mem ?c) xs ys" using ok by (simp add: entries_ok_def cached_def)
  have ch: "charges (?m\<lparr>next_hash := nh\<rparr>) = charges ?m" by (simp add: charges_def cached_def)
  have "account ?c = account c" by (rule account_entry_cong) simp_all
  then have f: "frame c ?c" by (simp add: frame_def cached_def)
  have eo: "entry_of (?m\<lparr>next_hash := nh\<rparr>) = entry_of ?m" and lc: "lent_count (?m\<lparr>next_hash := nh\<rparr>) = lent_count ?m"
    by (simp_all add: entry_of_def lent_count_def fun_eq_iff)
  show ?thesis
  proof (cases "r = 0")
    case True
    have z: "0 \<notin> cached ?m" using entries_heads [OF ok] by (auto simp: cached_def)
    then have n: "0 \<notin> set xs" "0 \<notin> set ys" using ok by (auto simp: entries_ok_def)
    have "LRU_Erase key hash c = Some (False, ?c)" using r(1) True by (simp add: LRU_Erase_def FinishErase_def)
    moreover have "lru_inv ?c xs ys" using ok' r(2) t(2) z True ch c by (simp add: lru_inv_def)
    ultimately show ?thesis using r(3) True f n z c lc by (intro exI [of _ 0] exI [of _ ?c]) simp
  next
    case False
    then have rc: "r \<in> cached ?m" using r(3) by auto
    have p: "htab (lc_mem ?c) (lc_table ?c) (cached (lc_mem ?c) - {r})" "usage ?c = charges (lc_mem ?c)" "r \<in> cached (lc_mem ?c)"
      using r(2) t(2) rc c ch by simp_all
    obtain c' where c': "FinishErase r ?c = (True, c')" "lru_inv c' (removeAll r xs) (removeAll r ys)" "frame ?c c'"
      "cached (lc_mem c') = cached ?m - {r}" "lent_count (lc_mem c') = lent_count ?m" "deleted c' = deleted c @ (if r \<in> set xs then [entry_of ?m r] else [])"
      using FinishErase_inv [OF ok' p] unfolding c by (auto simp: eo lc)
    have "LRU_Erase key hash c = Some (True, c')" using r(1) c'(1) by (simp add: LRU_Erase_def)
    then show ?thesis using r(3) False c'(2,4,5,6) frame_trans [OF f c'(3)] by (intro exI [of _ r] exI [of _ c']) simp
  qed
qed

section \<open>Eviction\<close>

lemma Erase_oldest:
  assumes i: "lru_inv c (e # xs) ys"
  shows "\<exists>c'. LRU_Erase (h_key (lc_mem c) e) (h_hash (lc_mem c) e) c = Some (True, c') \<and> lru_inv c' xs ys \<and> frame c c' \<and>
    cached (lc_mem c') = cached (lc_mem c) - {e} \<and> lent_count (lc_mem c') = lent_count (lc_mem c) \<and> deleted c' = deleted c @ [entry_of (lc_mem c) e]"
proof -
  have ok: "entries_ok (lc_mem c) (e # xs) ys" using i by (simp add: lru_inv_def)
  have e: "e \<in> cached (lc_mem c)" "e \<notin> set xs" "e \<notin> set ys" using ok by (auto simp: entries_ok_def rings_def)
  obtain r c' where r: "LRU_Erase (h_key (lc_mem c) e) (h_hash (lc_mem c) e) c = Some (r \<noteq> 0, c')"
    "{a \<in> cached (lc_mem c). entry_is (lc_mem c) (h_key (lc_mem c) e) (h_hash (lc_mem c) e) a} = (if r = 0 then {} else {r})"
    "lru_inv c' (removeAll r (e # xs)) (removeAll r ys)" "frame c c'" "cached (lc_mem c') = cached (lc_mem c) - {r}"
    "lent_count (lc_mem c') = lent_count (lc_mem c)" "deleted c' = deleted c @ (if r \<in> set (e # xs) then [entry_of (lc_mem c) r] else [])"
    using Erase_inv [OF i] by blast
  have "e \<in> {a \<in> cached (lc_mem c). entry_is (lc_mem c) (h_key (lc_mem c) e) (h_hash (lc_mem c) e) a}" using e(1) by (simp add: entry_is_def)
  then have "r = e" "r \<noteq> 0" unfolding r(2) by (auto split: if_splits)
  then show ?thesis using r e(2,3) by (intro exI [of _ c']) simp
qed

lemma lru_head: "lru_inv c xs ys \<Longrightarrow> h_next (lc_mem c) lru = (if xs = [] then lru else hd xs)"
  by (rule rings_next [of _ "h_prev (lc_mem c)" _ _ in_use ys]) (simp add: lru_inv_def entries_ok_def)

lemma lru_not_head: "lru_inv c (e # xs) ys \<Longrightarrow> e \<noteq> lru"
  by (auto simp: lru_inv_def entries_ok_def rings_def)

text \<open>The loop takes the oldest entries out, one by one, until the rest fits or no entry is left that is not in use.\<close>

definition evicted :: "'v LRUCache \<Rightarrow> nat list \<Rightarrow> nat \<Rightarrow> 'v LRUCache \<Rightarrow> bool" where
  "evicted c xs k c' \<longleftrightarrow> k \<le> length xs \<and> frame c c' \<and> lent_count (lc_mem c') = lent_count (lc_mem c) \<and>
     cached (lc_mem c') = cached (lc_mem c) - set (take k xs) \<and> deleted c' = deleted c @ map (entry_of (lc_mem c)) (take k xs)"

lemma evicted_0: "evicted c xs 0 c"
  by (simp add: evicted_def)

lemma frame_entry: "frame c c' \<Longrightarrow> entry_of (lc_mem c') = entry_of (lc_mem c)"
  by (simp add: frame_def entry_of_def [abs_def])

lemma evicted_Suc:
  assumes "frame c c1" "cached (lc_mem c1) = cached (lc_mem c) - {e}" "lent_count (lc_mem c1) = lent_count (lc_mem c)"
    "deleted c1 = deleted c @ [entry_of (lc_mem c) e]" "evicted c1 xs k c'"
  shows "evicted c (e # xs) (Suc k) c'"
  using assms frame_entry [OF assms(1)] by (auto simp: evicted_def dest: frame_trans)

text \<open>And none of them before it has to: what is left would not fit the capacity together with the charges of the entries still taken out.\<close>

definition had_to_go :: "'v LRUCache \<Rightarrow> nat list \<Rightarrow> nat \<Rightarrow> 'v LRUCache \<Rightarrow> bool" where
  "had_to_go c xs k c' \<longleftrightarrow> (k = length xs \<or> usage c' \<le> capacity c) \<and>
     (\<forall>j < k. capacity c < usage c' + sum_list (map (h_charge (lc_mem c)) (drop j (take k xs))))"

lemma had_to_go_0: "xs = [] \<or> usage c \<le> capacity c \<Longrightarrow> had_to_go c xs 0 c"
  by (auto simp: had_to_go_def)

lemma had_to_go_Suc:
  assumes "had_to_go c1 xs k c'" "frame c c1" "capacity c < usage c" "usage c = usage c' + sum_list (map (h_charge (lc_mem c)) (take (Suc k) (e # xs)))"
  shows "had_to_go c (e # xs) (Suc k) c'"
proof -
  have "capacity c < usage c' + sum_list (map (h_charge (lc_mem c)) (drop j (take (Suc k) (e # xs))))" if "j < Suc k" for j
    using that assms by (cases j) (auto simp: had_to_go_def frame_def)
  then show ?thesis using assms(1,2) by (simp add: had_to_go_def frame_def)
qed

lemma had_to_go_cong:
  assumes "had_to_go c1 xs k c'" "capacity c1 = capacity c" "\<And>a. a \<in> set xs \<Longrightarrow> h_charge (lc_mem c1) a = h_charge (lc_mem c) a"
  shows "had_to_go c xs k c'"
proof -
  have eq: "map (h_charge (lc_mem c1)) (drop j (take k xs)) = map (h_charge (lc_mem c)) (drop j (take k xs))" for j
    using assms(3) by (auto dest!: in_set_dropD in_set_takeD)
  show ?thesis using assms(1) unfolding had_to_go_def eq assms(2) .
qed

lemma usage_erased:
  assumes "lru_inv c xs ys" "lru_inv c1 xs' ys'" "frame c c1" "cached (lc_mem c1) = cached (lc_mem c) - {e}" "e \<in> cached (lc_mem c)"
  shows "usage c = usage c1 + h_charge (lc_mem c) e"
proof -
  have "finite (cached (lc_mem c))" using assms(1) by (simp add: lru_inv_def entries_ok_def cached_def)
  then show ?thesis using assms by (simp add: lru_inv_def charges_def frame_def sum.remove)
qed

lemma evict_inv:
  assumes "lru_inv c xs ys"
  shows "\<exists>k c'. evict c = Some c' \<and> lru_inv c' (drop k xs) ys \<and> evicted c xs k c' \<and> had_to_go c xs k c' \<and>
    usage c = usage c' + sum_list (map (h_charge (lc_mem c)) (take k xs))"
  using assms
proof (induction xs arbitrary: c)
  case Nil
  then have "evict c = Some c" using lru_head [OF Nil] by (subst evict.simps) simp
  then show ?case using Nil by (intro exI [of _ 0] exI [of _ c]) (simp add: evicted_0 had_to_go_0)
next
  case (Cons e xs)
  show ?case
  proof (cases "capacity c < usage c")
    case True
    obtain c1 where c1: "LRU_Erase (h_key (lc_mem c) e) (h_hash (lc_mem c) e) c = Some (True, c1)" "lru_inv c1 xs ys" "frame c c1"
      "cached (lc_mem c1) = cached (lc_mem c) - {e}" "lent_count (lc_mem c1) = lent_count (lc_mem c)" "deleted c1 = deleted c @ [entry_of (lc_mem c) e]"
      using Erase_oldest [OF Cons.prems] by blast
    obtain k c' where k: "evict c1 = Some c'" "lru_inv c' (drop k xs) ys" "evicted c1 xs k c'" "had_to_go c1 xs k c'"
      "usage c1 = usage c' + sum_list (map (h_charge (lc_mem c1)) (take k xs))"
      using Cons.IH [OF c1(2)] by blast
    have "evict c = Some c'" using lru_head [OF Cons.prems] lru_not_head [OF Cons.prems] True c1(1) k(1) by (subst evict.simps) simp
    moreover have "e \<in> cached (lc_mem c)" using Cons.prems by (auto simp: lru_inv_def entries_ok_def)
    then have "usage c = usage c' + sum_list (map (h_charge (lc_mem c)) (take (Suc k) (e # xs)))"
      using usage_erased [OF Cons.prems c1(2,3,4)] k(5) c1(3) by (simp add: frame_def)
    ultimately show ?thesis using k(2) evicted_Suc [OF c1(3,4,5,6) k(3)] had_to_go_Suc [OF k(4) c1(3) True]
      by (intro exI [of _ "Suc k"] exI [of _ c']) simp
  next
    case False
    then have "evict c = Some c" by (subst evict.simps) simp
    then show ?thesis using Cons.prems False by (intro exI [of _ 0] exI [of _ c]) (simp add: evicted_0 had_to_go_0)
  qed
qed

lemma Prune_inv:
  assumes "lru_inv c xs ys"
  shows "\<exists>c'. LRU_Prune c = Some c' \<and> lru_inv c' [] ys \<and> evicted c xs (length xs) c'"
  using assms
proof (induction xs arbitrary: c)
  case Nil
  then have "LRU_Prune c = Some c" using lru_head [OF Nil] by (subst LRU_Prune.simps) simp
  then show ?case using Nil by (simp add: evicted_0)
next
  case (Cons e xs)
  obtain c1 where c1: "LRU_Erase (h_key (lc_mem c) e) (h_hash (lc_mem c) e) c = Some (True, c1)" "lru_inv c1 xs ys" "frame c c1"
    "cached (lc_mem c1) = cached (lc_mem c) - {e}" "lent_count (lc_mem c1) = lent_count (lc_mem c)" "deleted c1 = deleted c @ [entry_of (lc_mem c) e]"
    using Erase_oldest [OF Cons.prems] by blast
  obtain c' where k: "LRU_Prune c1 = Some c'" "lru_inv c' [] ys" "evicted c1 xs (length xs) c'" using Cons.IH [OF c1(2)] by blast
  have "LRU_Prune c = Some c'" using lru_head [OF Cons.prems] lru_not_head [OF Cons.prems] c1(1) k(1) by (subst LRU_Prune.simps) simp
  then show ?case using k evicted_Suc [OF c1(3,4,5,6) k(3)] by auto
qed

section \<open>Looking up and inserting\<close>

lemma Lookup_inv:
  assumes i: "lru_inv c xs ys"
  shows "\<exists>r c'. LRU_Lookup key hash c = Some (r, c') \<and> (\<exists>xs' ys'. lru_inv c' xs' ys') \<and> frame c c' \<and> cached (lc_mem c') = cached (lc_mem c) \<and>
    {a \<in> cached (lc_mem c). entry_is (lc_mem c) key hash a} = set_option r \<and>
    lent_count (lc_mem c') = (case r of None \<Rightarrow> lent_count (lc_mem c) | Some e \<Rightarrow> (lent_count (lc_mem c))(e := lent_count (lc_mem c) e + 1))"
proof -
  have h: "htab (lc_mem c) (lc_table c) (cached (lc_mem c))" using i by (simp add: lru_inv_def)
  obtain p where p: "HandleTable_Lookup (lc_mem c) (lc_table c) key hash = Some p"
    "{a \<in> cached (lc_mem c). entry_is (lc_mem c) key hash a} = (if p = 0 then {} else {p})"
    using HandleTable_Lookup_finds [OF h] by blast
  show ?thesis
  proof (cases "p = 0")
    case True
    then have "LRU_Lookup key hash c = Some (None, c)" using p(1) by (simp add: LRU_Lookup_def)
    then show ?thesis using p(2) True i by (intro exI [of _ None] exI [of _ c]) auto
  next
    case False
    then have "LRU_Lookup key hash c = Some (Some p, LRU_Ref p c)" using p(1) by (simp add: LRU_Lookup_def)
    moreover have "p \<in> cached (lc_mem c)" using p(2) False by auto
    ultimately show ?thesis using p(2) False Ref_frame [OF i, of p] by (intro exI [of _ "Some p"] exI [of _ "LRU_Ref p c"]) simp
  qed
qed

text \<open>The allocator chooses an address that is not in use and not that of a head.\<close>

definition fresh_malloc :: "(nat set \<Rightarrow> nat) \<Rightarrow> bool" where
  "fresh_malloc malloc \<longleftrightarrow> (\<forall>L. finite L \<longrightarrow> malloc L \<notin> L \<and> 2 < malloc L)"

lemma htab_cong_on:
  assumes "htab m t S" "\<And>a. a \<in> S \<Longrightarrow> next_hash m' a = next_hash m a \<and> h_hash m' a = h_hash m a \<and> h_key m' a = h_key m a"
  shows "htab m' t S"
proof -
  obtain bs where c: "chains m (ht_length t) (ht_list t) bs S" using assms(1) by (auto simp: htab_def)
  have "chains m' (ht_length t) (ht_list t) bs S"
    unfolding chains_def
  proof (intro conjI allI impI)
    fix i assume i: "i < ht_length t"
    then have b: "hlist (next_hash m) (ht_list t ! i) (bs i)" "distinct (bs i)" "set (bs i) = {a \<in> S. hash_index (h_hash m a) (ht_length t) = i}"
      using c by (simp_all add: chains_def)
    show "hlist (next_hash m') (ht_list t ! i) (bs i)" using b(1) hpath_cong [of "bs i" "next_hash m'" "next_hash m"] assms(2) b(3) by blast
    show "distinct (bs i)" using b(2) .
    show "set (bs i) = {a \<in> S. hash_index (h_hash m' a) (ht_length t) = i}" unfolding b(3) using assms(2) by auto
  qed (use c in \<open>simp add: chains_def\<close>)
  moreover have "inj_on (hash_key m') S"
    using assms(1) inj_on_cong [of S "hash_key m'" "hash_key m"] assms(2) by (simp add: htab_def hash_key_def)
  ultimately show ?thesis using assms(1) by (auto simp: htab_def)
qed

text \<open>
  Insertion: the new entry is lent once, and it is cached unless the capacity is zero. The entry \<open>old\<close> with the same key, if there
  is one, leaves the cache, and then the oldest entries do.
\<close>

definition inserted :: "'v LRUCache \<Rightarrow> nat \<Rightarrow> slice \<Rightarrow> uint32 \<Rightarrow> 'v \<Rightarrow> addr \<Rightarrow> 'v LRUCache \<Rightarrow> bool" where
  "inserted c e key hash v deleter c' \<longleftrightarrow>
     e \<notin> live (lc_mem c) \<and> e \<in> live (lc_mem c') \<and> h_value (lc_mem c') = (h_value (lc_mem c))(e := v) \<and>
     h_key (lc_mem c') = (h_key (lc_mem c))(e := key) \<and> h_hash (lc_mem c') = (h_hash (lc_mem c))(e := hash) \<and>
     capacity c' = capacity c \<and> lent_count (lc_mem c') = (lent_count (lc_mem c))(e := 1) \<and>
     account c' = add_mset (deleter, key, v) (account c) \<and> cached (lc_mem c') \<subseteq> insert e (cached (lc_mem c)) \<and>
     (e \<in> cached (lc_mem c') \<longleftrightarrow> 0 < capacity c)"

text \<open>The state before the loop: with the new entry, and without the one that it replaces.\<close>

lemma insert_new:
  assumes i: "lru_inv c xs ys" and e: "e \<notin> live (lc_mem c)" "2 < e" and cap: "0 < capacity c"
    and m: "m = (let m = new_handle e key hash v n deleter (lc_mem c); m = m\<lparr>h_refs := (h_refs m)(e := h_refs m e + 1), in_cache := (in_cache m)(e := True)\<rparr>
      in LRU_Append in_use e m)"
  shows "\<exists>nx p. m = (new_handle e key hash v n deleter (lc_mem c))\<lparr>h_next := nx, h_prev := p, h_refs := (h_refs (lc_mem c))(e := 2),
      in_cache := (in_cache (lc_mem c))(e := True)\<rparr> \<and> entries_ok m xs (ys @ [e]) \<and> cached m = insert e (cached (lc_mem c)) \<and>
    htab m (lc_table c) (cached (lc_mem c)) \<and> usage c + n = charges m \<and> lent_count m = (lent_count (lc_mem c))(e := 1) \<and>
    account (c\<lparr>lc_mem := m\<rparr>) = add_mset (deleter, key, v) (account c)"
proof -
  let ?m = "lc_mem c"
  let ?m1 = "(new_handle e key hash v n deleter ?m)\<lparr>h_refs := (h_refs ?m)(e := 2), in_cache := (in_cache ?m)(e := True)\<rparr>"
  have ok: "entries_ok ?m xs ys" and t: "htab ?m (lc_table c) (cached ?m)" "usage c = charges ?m" using i by (simp_all add: lru_inv_def)
  have fin: "finite (live ?m)" using ok by (simp add: entries_ok_def)
  have nc: "e \<notin> cached ?m" using e(1) by (simp add: cached_def)
  have sets: "set xs \<union> set ys = cached ?m" using ok by (simp add: entries_ok_def)
  have r: "rings (h_next ?m1) (h_prev ?m1) in_use ys lru xs" by (rule rings_sym) (use ok in \<open>simp add: entries_ok_def new_handle_def\<close>)
  have "e \<notin> set (in_use # ys @ lru # xs)" using sets nc e(2) by (auto simp: lru_def in_use_def)
  from LRU_Append_rings [OF r this] obtain nx p where a: "LRU_Append in_use e ?m1 = ?m1\<lparr>h_next := nx, h_prev := p\<rparr>" "rings nx p in_use (ys @ [e]) lru xs"
    by blast
  have m1: "m = ?m1\<lparr>h_next := nx, h_prev := p\<rparr>" unfolding m a(1) [symmetric] by (simp add: Let_def new_handle_def numeral_2_eq_2)
  have cm: "cached m = insert e (cached ?m)" using e(1) by (auto simp: m1 cached_def new_handle_def)
  have live: "live m = insert e (live ?m)" by (simp add: m1 new_handle_def)
  have old: "\<And>a. a \<in> live ?m \<Longrightarrow> a \<noteq> e" using e(1) by auto
  have "entries_ok m xs (ys @ [e])"
    unfolding entries_ok_def cm live
  proof (intro conjI)
    show "rings (h_next m) (h_prev m) lru xs in_use (ys @ [e])" using rings_sym [OF a(2)] by (simp add: m1)
    show "set xs \<union> set (ys @ [e]) = insert e (cached ?m)" using sets by auto
    show "\<forall>a\<in>set xs. h_refs m a = 1" using ok sets nc by (auto simp: entries_ok_def m1 new_handle_def)
    show "\<forall>a\<in>set (ys @ [e]). 2 \<le> h_refs m a" using ok by (auto simp: entries_ok_def m1 new_handle_def)
    show "\<forall>a\<in>insert e (live ?m). 2 < a \<and> 1 \<le> h_refs m a" using ok e(2) by (auto simp: entries_ok_def m1 new_handle_def)
  qed (use fin in simp)
  moreover have "htab m (lc_table c) (cached ?m)" using nc by (intro htab_cong_on [OF t(1)]) (auto simp: m1 new_handle_def)
  moreover have "usage c + n = charges m"
  proof -
    have "finite (cached ?m)" using fin by (simp add: cached_def)
    moreover have "sum (h_charge m) (cached ?m) = sum (h_charge ?m) (cached ?m)" using nc by (intro sum.cong) (auto simp: m1 new_handle_def)
    ultimately show ?thesis using nc t(2) unfolding charges_def cm by (simp add: m1 new_handle_def)
  qed
  moreover have "lent_count m = (lent_count ?m)(e := 1)" by (auto simp: lent_count_def fun_eq_iff m1 new_handle_def)
  moreover have "account (c\<lparr>lc_mem := m\<rparr>) = add_mset (deleter, key, v) (account c)"
  proof -
    have "image_mset (entry_of m) (mset_set (live ?m)) = image_mset (entry_of ?m) (mset_set (live ?m))"
      using fin old by (intro image_mset_cong) (auto simp: entry_of_def m1 new_handle_def)
    moreover have "entry_of m e = (deleter, key, v)" by (simp add: entry_of_def m1 new_handle_def)
    ultimately show ?thesis using fin e(1) by (simp add: account_def live)
  qed
  ultimately show ?thesis using cm m1 by (intro exI [of _ nx] exI [of _ p]) simp
qed

lemma Insert_inv:
  assumes i: "lru_inv c xs ys" and fm: "fresh_malloc malloc"
  shows "\<exists>e old k c'. LRU_Insert malloc key hash v n deleter c = Some (e, c') \<and> inserted c e key hash v deleter c' \<and>
    {a \<in> cached (lc_mem c). entry_is (lc_mem c) key hash a \<and> 0 < capacity c} = (if old = 0 then {} else {old}) \<and>
    lru_inv c' (drop k (removeAll old xs)) (removeAll old ys @ (if 0 < capacity c then [e] else [])) \<and>
    deleted c' = deleted c @ (if old \<in> set xs then [entry_of (lc_mem c) old] else []) @ map (entry_of (lc_mem c)) (take k (removeAll old xs)) \<and>
    had_to_go c (removeAll old xs) k c'"
proof -
  let ?m = "lc_mem c"
  let ?e = "malloc (live ?m)"
  have ok: "entries_ok ?m xs ys" and t: "htab ?m (lc_table c) (cached ?m)" "usage c = charges ?m" using i by (simp_all add: lru_inv_def)
  have fin: "finite (live ?m)" using ok by (simp add: entries_ok_def)
  then have e: "?e \<notin> live ?m" "2 < ?e" using fm by (auto simp: fresh_malloc_def)
  have sets: "set xs \<union> set ys = cached ?m" using ok by (simp add: entries_ok_def)
  have nc: "?e \<notin> cached ?m" using e(1) by (simp add: cached_def)
  have z: "0 \<notin> cached ?m" using entries_heads [OF ok] by (auto simp: cached_def)
  have fin_step: ?thesis
    if ins: "LRU_Insert malloc key hash v n deleter c = Option.bind (evict c1) (\<lambda>c. Some (?e, c))"
      and inv: "lru_inv c1 (removeAll old xs) (removeAll old ys @ (if 0 < capacity c then [?e] else []))"
      and ent: "h_value (lc_mem c1) = (h_value ?m)(?e := v)" "h_key (lc_mem c1) = (h_key ?m)(?e := key)" "h_hash (lc_mem c1) = (h_hash ?m)(?e := hash)"
        "h_charge (lc_mem c1) = (h_charge ?m)(?e := n)" "\<And>a. a \<in> cached ?m \<Longrightarrow> entry_of (lc_mem c1) a = entry_of ?m a"
      and c1: "capacity c1 = capacity c" "lent_count (lc_mem c1) = (lent_count ?m)(?e := 1)" "account c1 = add_mset (deleter, key, v) (account c)"
        "cached (lc_mem c1) \<subseteq> insert ?e (cached ?m)" "?e \<in> cached (lc_mem c1) \<longleftrightarrow> 0 < capacity c" "?e \<in> live (lc_mem c1)"
        "deleted c1 = deleted c @ (if old \<in> set xs then [entry_of ?m old] else [])"
        "{a \<in> cached ?m. entry_is ?m key hash a \<and> 0 < capacity c} = (if old = 0 then {} else {old})"
    for c1 old
  proof -
    obtain k c' where k: "evict c1 = Some c'" "lru_inv c' (drop k (removeAll old xs)) (removeAll old ys @ (if 0 < capacity c then [?e] else []))"
      "evicted c1 (removeAll old xs) k c'" "had_to_go c1 (removeAll old xs) k c'" using evict_inv [OF inv] by blast
    have f: "frame c1 c'" and lc: "lent_count (lc_mem c') = lent_count (lc_mem c1)" using k(3) by (simp_all add: evicted_def)
    have tk: "set (take k (removeAll old xs)) \<subseteq> cached ?m" using sets set_take_subset [of k "removeAll old xs"] by auto
    have "?e \<in> live (lc_mem c')"
    proof (rule ccontr)
      assume "?e \<notin> live (lc_mem c')"
      then have "lent_count (lc_mem c') ?e = 0" by (simp add: lent_count_def)
      then show False using lc c1(2) by simp
    qed
    moreover have "?e \<in> cached (lc_mem c') \<longleftrightarrow> 0 < capacity c" using k(3) c1(5) tk nc by (auto simp: evicted_def)
    ultimately have "inserted c ?e key hash v deleter c'"
      using f lc ent(1-3) c1 e(1) unfolding inserted_def frame_def by auto
    moreover have "map (entry_of (lc_mem c1)) (take k (removeAll old xs)) = map (entry_of ?m) (take k (removeAll old xs))"
      using ent(5) tk by auto
    then have "deleted c' = deleted c @ (if old \<in> set xs then [entry_of ?m old] else []) @ map (entry_of ?m) (take k (removeAll old xs))"
      using k(3) c1(7) by (simp add: evicted_def)
    moreover have "h_charge (lc_mem c1) a = h_charge ?m a" if "a \<in> set (removeAll old xs)" for a using that sets nc ent(4) by auto
    then have "had_to_go c (removeAll old xs) k c'" using had_to_go_cong [OF k(4) c1(1)] by blast
    ultimately show ?thesis using ins k(1,2) c1(8) by (intro exI [of _ ?e] exI [of _ old] exI [of _ k] exI [of _ c']) simp
  qed
  show ?thesis
  proof (cases "0 < capacity c")
    case cap: True
    define m where "m = (let m = new_handle ?e key hash v n deleter ?m; m = m\<lparr>h_refs := (h_refs m)(?e := h_refs m ?e + 1), in_cache := (in_cache m)(?e := True)\<rparr>
      in LRU_Append in_use ?e m)"
    obtain nx p where m: "m = (new_handle ?e key hash v n deleter ?m)\<lparr>h_next := nx, h_prev := p, h_refs := (h_refs ?m)(?e := 2),
        in_cache := (in_cache ?m)(?e := True)\<rparr>" "entries_ok m xs (ys @ [?e])" "cached m = insert ?e (cached ?m)" "htab m (lc_table c) (cached ?m)"
        "usage c + n = charges m" "lent_count m = (lent_count ?m)(?e := 1)" "account (c\<lparr>lc_mem := m\<rparr>) = add_mset (deleter, key, v) (account c)"
      using insert_new [OF i e cap m_def] by blast
    have ke: "h_key m ?e = key" "h_hash m ?e = hash" by (simp_all add: m(1) new_handle_def)
    obtain old nh t' where h: "HandleTable_Insert ?e m (lc_table c) = Some (old, m\<lparr>next_hash := nh\<rparr>, t')"
      "htab (m\<lparr>next_hash := nh\<rparr>) t' (insert ?e (cached ?m - {old}))" "{a \<in> cached ?m. entry_is m key hash a} = (if old = 0 then {} else {old})"
      using htab_insert [OF m(4) nc] e(2) unfolding ke by force
    let ?c = "c\<lparr>lc_mem := m\<lparr>next_hash := nh\<rparr>, lc_table := t', usage := usage c + n\<rparr>"
    have ins: "LRU_Insert malloc key hash v n deleter c = Option.bind (evict (snd (FinishErase old ?c))) (\<lambda>c. Some (?e, c))"
      using cap h(1) by (simp add: LRU_Insert_def m_def Let_def)
    have eo: "entry_of (m\<lparr>next_hash := nh\<rparr>) a = entry_of ?m a" if "a \<in> cached ?m" for a
      using that nc by (auto simp: entry_of_def m(1) new_handle_def)
    have ei: "{a \<in> cached ?m. entry_is ?m key hash a \<and> 0 < capacity c} = (if old = 0 then {} else {old})"
      unfolding h(3) [symmetric] using cap nc by (auto simp: entry_is_def m(1) new_handle_def)
    have ok2: "entries_ok (m\<lparr>next_hash := nh\<rparr>) xs (ys @ [?e])" using m(2) by (simp add: entries_ok_def cached_def)
    have ch: "charges (m\<lparr>next_hash := nh\<rparr>) = charges m" "cached (m\<lparr>next_hash := nh\<rparr>) = cached m" "lent_count (m\<lparr>next_hash := nh\<rparr>) = lent_count m"
      by (simp_all add: charges_def cached_def lent_count_def fun_eq_iff)
    have acc: "account ?c = add_mset (deleter, key, v) (account c)" unfolding m(7) [symmetric] by (rule account_entry_cong) simp_all
    show ?thesis
    proof (cases "old = 0")
      case True
      have n0: "0 \<notin> set xs" "0 \<notin> set ys" using z sets by auto
      have fe: "FinishErase old ?c = (False, ?c)" using True by (simp add: FinishErase_def)
      have "insert ?e (cached ?m - {old}) = cached m" using True z m(3) by auto
      then have inv: "lru_inv ?c xs (ys @ [?e])" using ok2 h(2) m(5) ch by (simp add: lru_inv_def)
      show ?thesis
        by (rule fin_step [of ?c old]) (use ins fe inv n0 True cap eo ei acc m(3,6) ch in \<open>auto simp: m(1) new_handle_def\<close>)
    next
      case False
      then have oc: "old \<in> cached ?m" using ei by auto
      then have "old \<noteq> ?e" using nc by auto
      then have s: "insert ?e (cached ?m - {old}) = cached m - {old}" using m(3) by auto
      have p: "entries_ok (lc_mem ?c) xs (ys @ [?e])" "htab (lc_mem ?c) (lc_table ?c) (cached (lc_mem ?c) - {old})" "usage ?c = charges (lc_mem ?c)"
          "old \<in> cached (lc_mem ?c)" using ok2 h(2) m(3,5) ch oc unfolding s by simp_all
      obtain c2 where c2: "FinishErase old ?c = (True, c2)" "lru_inv c2 (removeAll old xs) (removeAll old (ys @ [?e]))" "frame ?c c2"
        "cached (lc_mem c2) = cached m - {old}" "lent_count (lc_mem c2) = lent_count m"
        "deleted c2 = deleted c @ (if old \<in> set xs then [entry_of (m\<lparr>next_hash := nh\<rparr>) old] else [])"
        "live (lc_mem c2) = live m - (if old \<in> set xs then {old} else {})"
        using FinishErase_inv [OF p] ch by auto
      have eo2: "entry_of (lc_mem c2) = entry_of (m\<lparr>next_hash := nh\<rparr>)" using frame_entry [OF c2(3)] by simp
      show ?thesis
      proof (rule fin_step [of c2 old])
        show "LRU_Insert malloc key hash v n deleter c = Option.bind (evict c2) (\<lambda>c. Some (?e, c))" using ins c2(1) by simp
        show "lru_inv c2 (removeAll old xs) (removeAll old ys @ (if 0 < capacity c then [?e] else []))" using c2(2) cap \<open>old \<noteq> ?e\<close> by simp
        show "h_value (lc_mem c2) = (h_value ?m)(?e := v)" "h_key (lc_mem c2) = (h_key ?m)(?e := key)" "h_hash (lc_mem c2) = (h_hash ?m)(?e := hash)"
          "h_charge (lc_mem c2) = (h_charge ?m)(?e := n)"
          "capacity c2 = capacity c" using c2(3) by (simp_all add: frame_def m(1) new_handle_def)
        show "entry_of (lc_mem c2) a = entry_of ?m a" if "a \<in> cached ?m" for a using eo [OF that] eo2 by simp
        show "lent_count (lc_mem c2) = (lent_count ?m)(?e := 1)" using c2(5) m(6) by simp
        show "account c2 = add_mset (deleter, key, v) (account c)" using c2(3) acc by (simp add: frame_def)
        show "cached (lc_mem c2) \<subseteq> insert ?e (cached ?m)" using c2(4) m(3) by auto
        show "?e \<in> cached (lc_mem c2) \<longleftrightarrow> 0 < capacity c" using c2(4) m(3) cap \<open>old \<noteq> ?e\<close> by auto
        show "?e \<in> live (lc_mem c2)" using c2(7) \<open>old \<noteq> ?e\<close> by (simp add: m(1) new_handle_def)
        show "deleted c2 = deleted c @ (if old \<in> set xs then [entry_of ?m old] else [])" using c2(6) eo [OF oc] by simp
        show "{a \<in> cached ?m. entry_is ?m key hash a \<and> 0 < capacity c} = (if old = 0 then {} else {old})" by (rule ei)
      qed
    qed
  next
    case cap: False
    let ?m1 = "(new_handle ?e key hash v n deleter ?m)\<lparr>h_next := (h_next ?m)(?e := 0)\<rparr>"
    let ?c = "c\<lparr>lc_mem := ?m1\<rparr>"
    have ins: "LRU_Insert malloc key hash v n deleter c = Option.bind (evict ?c) (\<lambda>c. Some (?e, c))"
      using cap by (simp add: LRU_Insert_def Let_def new_handle_def)
    have c1: "cached ?m1 = cached ?m" using e(1) by (auto simp: cached_def new_handle_def)
    have n0: "0 \<notin> set xs" "0 \<notin> set ys" using z sets by auto
    have ne: "?e \<notin> set xs" "?e \<notin> set ys" "?e \<noteq> lru" "?e \<noteq> in_use" using sets nc e(2) by (auto simp: lru_def in_use_def)
    have r: "rings (h_next ?m) (h_prev ?m) lru xs in_use ys" using ok by (simp add: entries_ok_def)
    have "rings ((h_next ?m)(?e := 0)) (h_prev ?m) lru xs in_use ys"
      unfolding rings_def
    proof (intro conjI)
      show "doubly_linked ((h_next ?m)(?e := 0)) (h_prev ?m) (lru # xs @ [lru])"
        by (rule doubly_linked_frame [of "h_next ?m" "h_prev ?m"])
          (use r ne in \<open>auto simp: rings_def butlast_append dest!: in_set_butlastD split: if_splits\<close>)
      show "doubly_linked ((h_next ?m)(?e := 0)) (h_prev ?m) (in_use # ys @ [in_use])"
        by (rule doubly_linked_frame [of "h_next ?m" "h_prev ?m"])
          (use r ne in \<open>auto simp: rings_def butlast_append dest!: in_set_butlastD split: if_splits\<close>)
    qed (use r in \<open>simp add: rings_def\<close>)
    then have "entries_ok ?m1 xs ys" using ok ne e(2) unfolding entries_ok_def c1 by (auto simp: new_handle_def)
    moreover have "htab ?m1 (lc_table c) (cached ?m1)" unfolding c1 using nc by (intro htab_cong_on [OF t(1)]) (auto simp: new_handle_def)
    moreover have "usage c = charges ?m1" using t(2) nc unfolding charges_def c1 by (auto simp: new_handle_def intro!: sum.cong)
    ultimately have inv: "lru_inv ?c xs ys" by (simp add: lru_inv_def)
    have lc: "lent_count ?m1 = (lent_count ?m)(?e := 1)" by (auto simp: lent_count_def fun_eq_iff new_handle_def)
    have "image_mset (entry_of ?m1) (mset_set (live ?m)) = image_mset (entry_of ?m) (mset_set (live ?m))"
      using fin e(1) by (intro image_mset_cong) (auto simp: entry_of_def new_handle_def)
    then have acc: "account ?c = add_mset (deleter, key, v) (account c)"
      using fin e(1) by (simp add: account_def new_handle_def) (simp add: entry_of_def)
    show ?thesis
    proof (rule fin_step [of ?c 0, OF ins])
      show "lru_inv ?c (removeAll 0 xs) (removeAll 0 ys @ (if 0 < capacity c then [?e] else []))" using inv n0 cap by simp
      show "entry_of (lc_mem ?c) a = entry_of ?m a" if "a \<in> cached ?m" for a using that nc by (auto simp: entry_of_def new_handle_def)
      show "{a \<in> cached ?m. entry_is ?m key hash a \<and> 0 < capacity c} = (if (0 :: nat) = 0 then {} else {0})" using cap by simp
      show "?e \<in> cached (lc_mem ?c) \<longleftrightarrow> 0 < capacity c" using c1 nc cap by simp
      show "cached (lc_mem ?c) \<subseteq> insert ?e (cached ?m)" using c1 by auto
      show "deleted ?c = deleted c @ (if 0 \<in> set xs then [entry_of ?m 0] else [])" using n0 by simp
    qed (use lc acc in \<open>simp_all add: new_handle_def\<close>)
  qed
qed

section \<open>Construction and destruction\<close>

lemma LRUCache_new_inv:
  "\<exists>c. LRUCache_new m = Some c \<and> lru_inv (LRU_SetCapacity n c) [] [] \<and> capacity (LRU_SetCapacity n c) = n \<and>
    account (LRU_SetCapacity n c) = {#} \<and> live (lc_mem (LRU_SetCapacity n c)) = {}"
proof -
  let ?m = "handles_init m"
  obtain t where t: "HandleTable_new ?m = Some (?m, t)" "htab ?m t {}" using HandleTable_new_htab by blast
  have c: "cached ?m = {}" "live ?m = {}" by (simp_all add: cached_def handles_init_def)
  have "entries_ok ?m [] []" unfolding entries_ok_def c
    by (simp add: rings_def doubly_linked_def handles_init_def lru_def in_use_def)
  then show ?thesis using t c by (simp add: LRUCache_new_def lru_inv_def LRU_SetCapacity_def charges_def account_def)
qed

lemma destroy_loop_returns:
  assumes "doubly_linked (h_next (lc_mem c)) p (xs @ [lru])" "distinct (lru # xs)" "\<forall>a \<in> set xs. h_refs (lc_mem c) a = 1"
  shows "\<exists>c'. destroy_loop (hd (xs @ [lru])) c = Some c' \<and> deleted c' = deleted c @ map (entry_of (lc_mem c)) xs \<and>
    live (lc_mem c') = live (lc_mem c) - set xs"
  using assms
proof (induction xs arbitrary: c)
  case Nil
  then show ?case by (subst destroy_loop.simps) simp
next
  case (Cons e xs)
  let ?m = "lc_mem c"
  let ?m' = "?m\<lparr>in_cache := (in_cache ?m)(e := False), h_refs := (h_refs ?m)(e := 0), live := live ?m - {e}\<rparr>"
  let ?c = "c\<lparr>lc_mem := ?m', deleted := deleted c @ [entry_of ?m e]\<rparr>"
  have n: "h_next ?m e = hd (xs @ [lru])" using Cons.prems(1) by (cases xs) (auto simp: doubly_linked_def)
  have u: "LRU_Unref e (c\<lparr>lc_mem := ?m\<lparr>in_cache := (in_cache ?m)(e := False)\<rparr>\<rparr>) = ?c"
    using Cons.prems(3) by (simp add: LRU_Unref_def Let_def entry_of_def)
  have "doubly_linked (h_next (lc_mem ?c)) p (xs @ [lru])" using Cons.prems(1) by (cases xs) (auto simp: doubly_linked_def)
  moreover have "\<forall>a \<in> set xs. h_refs (lc_mem ?c) a = 1" using Cons.prems(2,3) by auto
  ultimately obtain c' where c': "destroy_loop (hd (xs @ [lru])) ?c = Some c'" "deleted c' = deleted ?c @ map (entry_of (lc_mem ?c)) xs"
      "live (lc_mem c') = live (lc_mem ?c) - set xs" using Cons.IH [of ?c] Cons.prems(2) by auto
  have eo: "entry_of ?m' = entry_of ?m" by (simp add: entry_of_def [abs_def])
  have "destroy_loop e c = Some c'" using Cons.prems(2) c'(1) u n by (subst destroy_loop.simps) (auto simp: Let_def)
  then show ?case using c'(2,3) eo by auto
qed

lemma destroy_inv:
  assumes i: "lru_inv c xs ys" and free: "\<forall>e. lent_count (lc_mem c) e = 0"
  shows "\<exists>c'. LRUCache_destroy c = Some c' \<and> mset (deleted c') = account c \<and> live (lc_mem c') = {}"
proof -
  let ?m = "lc_mem c"
  have ok: "entries_ok ?m xs ys" using i by (simp add: lru_inv_def)
  have refs: "h_refs ?m a = 1 \<and> in_cache ?m a" if "a \<in> live ?m" for a
  proof -
    have "1 \<le> h_refs ?m a" "h_refs ?m a - (if in_cache ?m a then 1 else 0) = 0"
      using ok free that by (auto simp: entries_ok_def lent_count_def split: if_splits)
    then show ?thesis by (auto split: if_splits)
  qed
  have lx: "live ?m = set xs"
  proof
    show "live ?m \<subseteq> set xs" using refs entries_cached(1) [OF ok] by blast
    show "set xs \<subseteq> live ?m" using ok by (auto simp: entries_ok_def cached_def)
  qed
  have r: "rings (h_next ?m) (h_prev ?m) lru xs in_use ys" using ok by (simp add: entries_ok_def)
  have d: "doubly_linked (h_next ?m) (h_prev ?m) (xs @ [lru])"
    using r doubly_linked_append [of "h_next ?m" "h_prev ?m" "[lru]" "xs @ [lru]"] by (simp add: rings_def)
  have x: "distinct (lru # xs)" using r by (simp add: rings_def)
  have "\<forall>a \<in> set xs. h_refs ?m a = 1" using ok by (simp add: entries_ok_def)
  from destroy_loop_returns [OF d x this] obtain c' where c': "destroy_loop (hd (xs @ [lru])) c = Some c'"
    "deleted c' = deleted c @ map (entry_of ?m) xs" "live (lc_mem c') = live ?m - set xs" by blast
  have "h_next ?m lru = hd (xs @ [lru])" using lru_head [OF i] by (cases xs) simp_all
  moreover have "mset_set (live ?m) = mset xs" using x unfolding lx by (simp add: mset_set_set)
  ultimately show ?thesis using c' lx by (simp add: LRUCache_destroy_def account_def)
qed

section \<open>Runs\<close>

text \<open>
  The calls that clients can make of a shard, which release only what they have: \<open>H\<close> are the handles that are lent, \<open>I\<close> is what was
  inserted so far.
\<close>

inductive lru_run :: "(nat set \<Rightarrow> nat) \<Rightarrow> uint64 \<Rightarrow> 'v LRUCache \<Rightarrow> nat multiset \<Rightarrow> (addr \<times> slice \<times> 'v) multiset \<Rightarrow> bool"
  for malloc cap where
  run_new: "LRUCache_new m = Some c \<Longrightarrow> lru_run malloc cap (LRU_SetCapacity cap c) {#} {#}"
| run_insert: "lru_run malloc cap c H I \<Longrightarrow> LRU_Insert malloc key hash v n deleter c = Some (e, c') \<Longrightarrow>
    lru_run malloc cap c' (add_mset e H) (add_mset (deleter, key, v) I)"
| run_hit: "lru_run malloc cap c H I \<Longrightarrow> LRU_Lookup key hash c = Some (Some e, c') \<Longrightarrow> lru_run malloc cap c' (add_mset e H) I"
| run_miss: "lru_run malloc cap c H I \<Longrightarrow> LRU_Lookup key hash c = Some (None, c') \<Longrightarrow> lru_run malloc cap c' H I"
| run_release: "lru_run malloc cap c H I \<Longrightarrow> e \<in># H \<Longrightarrow> lru_run malloc cap (LRU_Release e c) (H - {#e#}) I"
| run_erase: "lru_run malloc cap c H I \<Longrightarrow> LRU_Erase key hash c = Some (b, c') \<Longrightarrow> lru_run malloc cap c' H I"
| run_prune: "lru_run malloc cap c H I \<Longrightarrow> LRU_Prune c = Some c' \<Longrightarrow> lru_run malloc cap c' H I"

definition run_ok :: "uint64 \<Rightarrow> 'v LRUCache \<Rightarrow> nat multiset \<Rightarrow> (addr \<times> slice \<times> 'v) multiset \<Rightarrow> bool" where
  "run_ok cap c H I \<longleftrightarrow> (\<exists>xs ys. lru_inv c xs ys) \<and> lent_count (lc_mem c) = count H \<and> account c = I \<and> capacity c = cap"

lemma run_ok_frame: "run_ok cap c H I \<Longrightarrow> frame c c' \<Longrightarrow> lru_inv c' xs ys \<Longrightarrow> lent_count (lc_mem c') = count H' \<Longrightarrow> run_ok cap c' H' I"
  by (auto simp: run_ok_def frame_def)

lemma lru_run_ok:
  assumes "lru_run malloc cap c H I" "fresh_malloc malloc"
  shows "run_ok cap c H I"
  using assms(1)
proof (induction rule: lru_run.induct)
  case (run_new m c)
  obtain c' where "LRUCache_new m = Some c'" "lru_inv (LRU_SetCapacity cap c') [] []" "capacity (LRU_SetCapacity cap c') = cap"
    "account (LRU_SetCapacity cap c') = {#}" "live (lc_mem (LRU_SetCapacity cap c')) = {}" using LRUCache_new_inv [of m cap] by blast
  then show ?case using run_new by (auto simp: run_ok_def lent_count_def fun_eq_iff)
next
  case (run_insert c H I key hash v n deleter e c')
  then obtain xs ys where i: "lru_inv c xs ys" by (auto simp: run_ok_def)
  obtain e1 old k c2 where 1: "LRU_Insert malloc key hash v n deleter c = Some (e1, c2)" "inserted c e1 key hash v deleter c2"
    "lru_inv c2 (drop k (removeAll old xs)) (removeAll old ys @ (if 0 < capacity c then [e1] else []))"
    using Insert_inv [OF i assms(2), of key hash v n deleter] by (elim exE conjE) (rule that)
  have e: "e1 = e" "c2 = c'" using 1(1) run_insert.hyps(2) by simp_all
  have l: "lent_count (lc_mem c) = count H" using run_insert.IH by (simp add: run_ok_def)
  have n: "e \<notin> live (lc_mem c)" using 1(2) e(1) by (simp add: inserted_def)
  have "count H e = 0" using n unfolding l [symmetric] by (simp add: lent_count_def)
  then have "lent_count (lc_mem c') = count (add_mset e H)" using 1(2) l unfolding e by (auto simp: inserted_def fun_eq_iff)
  moreover have "account c' = add_mset (deleter, key, v) I" "capacity c' = cap"
    using 1(2) run_insert.IH unfolding e by (simp_all add: inserted_def run_ok_def)
  ultimately show ?case using 1(3) unfolding e run_ok_def by blast
next
  case (run_hit c H I key hash e c')
  then obtain xs ys where i: "lru_inv c xs ys" by (auto simp: run_ok_def)
  have "frame c c' \<and> (\<exists>xs' ys'. lru_inv c' xs' ys') \<and> lent_count (lc_mem c') = (lent_count (lc_mem c))(e := lent_count (lc_mem c) e + 1)"
    using Lookup_inv [OF i, of key hash] run_hit.hyps(2) by auto
  moreover have "lent_count (lc_mem c) = count H" using run_hit.IH by (simp add: run_ok_def)
  ultimately show ?case using run_ok_frame [OF run_hit.IH] by (auto simp: fun_eq_iff)
next
  case (run_miss c H I key hash c')
  then obtain xs ys where i: "lru_inv c xs ys" by (auto simp: run_ok_def)
  have "frame c c' \<and> (\<exists>xs' ys'. lru_inv c' xs' ys') \<and> lent_count (lc_mem c') = lent_count (lc_mem c)"
    using Lookup_inv [OF i, of key hash] run_miss.hyps(2) by auto
  moreover have "lent_count (lc_mem c) = count H" using run_miss.IH by (simp add: run_ok_def)
  ultimately show ?case using run_ok_frame [OF run_miss.IH] by auto
next
  case (run_release c H I e)
  then obtain xs ys where i: "lru_inv c xs ys" by (auto simp: run_ok_def)
  have l: "lent_count (lc_mem c) = count H" using run_release.IH by (simp add: run_ok_def)
  then have "0 < lent_count (lc_mem c) e" using run_release.hyps(2) by simp
  from Unref_inv [OF i this] obtain xs' ys' where "lru_inv (LRU_Release e c) xs' ys'" "frame c (LRU_Release e c)"
    "lent_count (lc_mem (LRU_Release e c)) = (lent_count (lc_mem c))(e := lent_count (lc_mem c) e - 1)" unfolding LRU_Release_def by blast
  then show ?case using run_ok_frame [OF run_release.IH] l by (auto simp: fun_eq_iff)
next
  case (run_erase c H I key hash b c')
  then obtain xs ys where i: "lru_inv c xs ys" by (auto simp: run_ok_def)
  have "frame c c' \<and> (\<exists>xs' ys'. lru_inv c' xs' ys') \<and> lent_count (lc_mem c') = lent_count (lc_mem c)"
    using Erase_inv [OF i, of key hash] run_erase.hyps(2) by auto
  moreover have "lent_count (lc_mem c) = count H" using run_erase.IH by (simp add: run_ok_def)
  ultimately show ?case using run_ok_frame [OF run_erase.IH] by auto
next
  case (run_prune c H I c')
  then obtain xs ys where i: "lru_inv c xs ys" by (auto simp: run_ok_def)
  have "frame c c' \<and> (\<exists>xs' ys'. lru_inv c' xs' ys') \<and> lent_count (lc_mem c') = lent_count (lc_mem c)"
    using Prune_inv [OF i] run_prune.hyps(2) by (auto simp: evicted_def)
  moreover have "lent_count (lc_mem c) = count H" using run_prune.IH by (simp add: run_ok_def)
  ultimately show ?case using run_ok_frame [OF run_prune.IH] by auto
qed

section \<open>Properties\<close>

text \<open>
  C6: The cache neither loses nor frees an entry too early. After any calls of clients, which release only handles that they have, every
  call of \<^verbatim>\<open>Insert\<close>, \<^verbatim>\<open>Lookup\<close>, \<^verbatim>\<open>Erase\<close> and \<^verbatim>\<open>Prune\<close> returns, every handle that is lent is that of an
  allocated entry, and everything that was inserted has either been passed to its deleter, exactly once, or is still allocated. When all
  handles have been released, the destructor returns and everything that was inserted has been passed to its deleter exactly once.
\<close>

theorem lru_cache_safe:
  assumes "fresh_malloc malloc" "lru_run malloc cap c H I"
  shows "(\<forall>e. e \<in># H \<longrightarrow> e \<in> live (lc_mem c)) \<and>
    mset (deleted c) + image_mset (\<lambda>a. (h_deleter (lc_mem c) a, h_key (lc_mem c) a, h_value (lc_mem c) a)) (mset_set (live (lc_mem c))) = I \<and>
    (\<forall>key hash v n deleter. LRU_Insert malloc key hash v n deleter c \<noteq> None) \<and> (\<forall>key hash. LRU_Lookup key hash c \<noteq> None) \<and>
    (\<forall>key hash. LRU_Erase key hash c \<noteq> None) \<and> LRU_Prune c \<noteq> None \<and>
    (H = {#} \<longrightarrow> (\<exists>c'. LRUCache_destroy c = Some c' \<and> mset (deleted c') = I \<and> live (lc_mem c') = {}))"
proof -
  have r: "run_ok cap c H I" by (rule lru_run_ok [OF assms(2,1)])
  then obtain xs ys where i: "lru_inv c xs ys" by (auto simp: run_ok_def)
  have l: "lent_count (lc_mem c) = count H" and a: "account c = I" using r by (simp_all add: run_ok_def)
  have "e \<in> live (lc_mem c)" if "e \<in># H" for e
    using that arg_cong [OF l, of "\<lambda>f. f e"] by (auto simp: lent_count_def count_eq_zero_iff split: if_splits)
  moreover have "LRU_Insert malloc key hash v n deleter c \<noteq> None" for key hash v n deleter
    using Insert_inv [OF i assms(1), of key hash v n deleter] by auto
  moreover have "LRU_Lookup key hash c \<noteq> None" "LRU_Erase key hash c \<noteq> None" for key hash
    using Lookup_inv [OF i, of key hash] Erase_inv [OF i, of key hash] by auto
  moreover have "LRU_Prune c \<noteq> None" using Prune_inv [OF i] by auto
  moreover have "\<exists>c'. LRUCache_destroy c = Some c' \<and> mset (deleted c') = I \<and> live (lc_mem c') = {}" if "H = {#}"
    using destroy_inv [OF i] l that a by simp
  ultimately show ?thesis using a by (auto simp: account_def entry_of_def [abs_def])
qed

text \<open>An allocator.\<close>

definition next_malloc :: "nat set \<Rightarrow> nat" where
  "next_malloc L = Max (insert 2 L) + 1"

lemma next_malloc_fresh: "fresh_malloc next_malloc"
proof -
  have "a < next_malloc L" if "finite L" "a \<in> insert 2 L" for a L
    using Max_ge [of "insert 2 L" a] that by (simp add: next_malloc_def less_Suc_eq_le)
  then show ?thesis unfolding fresh_malloc_def by blast
qed

text \<open>A memory with \<open>v\<close> in it everywhere.\<close>

definition memory_of :: "'v \<Rightarrow> 'v handles" where
  "memory_of v = \<lparr>live = {}, h_value = \<lambda>_. v, h_deleter = \<lambda>_. 0, next_hash = \<lambda>_. 0, h_next = \<lambda>_. 0, h_prev = \<lambda>_. 0, h_charge = \<lambda>_. 0,
     h_key = \<lambda>_. [], in_cache = \<lambda>_. False, h_refs = \<lambda>_. 0, h_hash = \<lambda>_. 0\<rparr>"

theorem lru_cache_safe_witness:
  "\<exists>c c1 e c2. LRUCache_new (memory_of 0) = Some c \<and> LRU_Insert next_malloc [1] 5 (7 :: nat) 1 9 (LRU_SetCapacity 1 c) = Some (e, c1) \<and>
    LRUCache_destroy (LRU_Release e c1) = Some c2 \<and> deleted c2 = [(9, [1], 7)] \<and> live (lc_mem c2) = {}"
proof -
  obtain c where c: "LRUCache_new (memory_of (0 :: nat)) = Some c" using LRUCache_new_inv by blast
  have r: "lru_run next_malloc 1 (LRU_SetCapacity 1 c) {#} {#}" by (rule run_new [OF c])
  have "LRU_Insert next_malloc [1] 5 (7 :: nat) 1 9 (LRU_SetCapacity 1 c) \<noteq> None" using lru_cache_safe [OF next_malloc_fresh r] by blast
  then obtain e c1 where i: "LRU_Insert next_malloc [1] 5 (7 :: nat) 1 9 (LRU_SetCapacity 1 c) = Some (e, c1)" by auto
  have "lru_run next_malloc 1 (LRU_Release e c1) {#} {#(9, [1], 7)#}" using run_release [OF run_insert [OF r i], of e] by simp
  from lru_cache_safe [OF next_malloc_fresh this] obtain c2 where c2: "LRUCache_destroy (LRU_Release e c1) = Some c2"
    "mset (deleted c2) = {#(9, [1], 7)#}" "live (lc_mem c2) = {}" by auto
  then show ?thesis using c i by (intro exI conjI) simp_all
qed

text \<open>
  C8: Insertion keeps the least recently used order. In a cache with a capacity, \<^verbatim>\<open>Insert\<close> returns a handle whose value a lookup of
  the key finds; an entry with the same key is replaced, and then the entries that no client uses leave the cache from the oldest on and are
  passed to their deleters in this order, until what is left fits the capacity or all of them have left, and no more of them than that:
  with any entry that left as the last ones, what is left would be over the capacity. Entries in use stay.
\<close>

theorem lru_insert:
  assumes "fresh_malloc malloc" "lru_inv c xs ys" "0 < capacity c"
  shows "\<exists>e k c' c'' rest. rest = filter (\<lambda>a. \<not> entry_is (lc_mem c) key hash a) xs \<and> LRU_Insert malloc key hash v n deleter c = Some (e, c') \<and>
    LRU_Lookup key hash c' = Some (Some e, c'') \<and> h_value (lc_mem c'') e = v \<and>
    lru_inv c' (drop k rest) (filter (\<lambda>a. \<not> entry_is (lc_mem c) key hash a) ys @ [e]) \<and>
    deleted c' = deleted c @ map (entry_of (lc_mem c)) (filter (entry_is (lc_mem c) key hash) xs @ take k rest) \<and>
    (k = length rest \<or> usage c' \<le> capacity c) \<and>
    (\<forall>j < k. capacity c < usage c' + sum_list (map (h_charge (lc_mem c)) (drop j (take k rest))))"
proof -
  let ?is = "entry_is (lc_mem c) key hash"
  let ?rest = "filter (\<lambda>a. \<not> entry_is (lc_mem c) key hash a) xs"
  obtain e old k c' where 1: "LRU_Insert malloc key hash v n deleter c = Some (e, c')" "inserted c e key hash v deleter c'"
    "{a \<in> cached (lc_mem c). ?is a \<and> 0 < capacity c} = (if old = 0 then {} else {old})"
    "lru_inv c' (drop k (removeAll old xs)) (removeAll old ys @ (if 0 < capacity c then [e] else []))"
    "deleted c' = deleted c @ (if old \<in> set xs then [entry_of (lc_mem c) old] else []) @ map (entry_of (lc_mem c)) (take k (removeAll old xs))"
    "had_to_go c (removeAll old xs) k c'"
    using Insert_inv [OF assms(2,1), of key hash v n deleter] by blast
  have ok: "entries_ok (lc_mem c) xs ys" using assms(2) by (simp add: lru_inv_def)
  have z: "0 \<notin> cached (lc_mem c)" using entries_heads [OF ok] by (auto simp: cached_def)
  have sets: "set xs \<union> set ys = cached (lc_mem c)" and d: "distinct xs" using ok by (auto simp: entries_ok_def rings_def)
  have m: "?is a \<longleftrightarrow> a = old" if "a \<in> cached (lc_mem c)" for a
  proof
    assume "?is a"
    then have "a \<in> {a \<in> cached (lc_mem c). ?is a \<and> 0 < capacity c}" using that assms(3) by simp
    then show "a = old" unfolding 1(3) by (simp split: if_splits)
  next
    assume a: "a = old"
    then have "old \<noteq> 0" using that z by metis
    then have "a \<in> (if old = 0 then {} else {old})" using a by simp
    then show "?is a" unfolding 1(3) [symmetric] by simp
  qed
  have r: "removeAll old zs = filter (\<lambda>a. \<not> ?is a) zs" if "set zs \<subseteq> cached (lc_mem c)" for zs
    using that by (induction zs) (auto simp: m)
  have x: "removeAll old xs = ?rest" "removeAll old ys = filter (\<lambda>a. \<not> ?is a) ys" using r sets by auto
  have f: "filter ?is xs = (if old \<in> set xs then [old] else [])"
  proof -
    have "a \<in> cached (lc_mem c)" if "a \<in> set xs" for a using that sets by blast
    then have "filter ?is xs = filter (\<lambda>a. a = old) xs" using m by (intro filter_cong HOL.refl) blast
    also have "\<dots> = (if old \<in> set xs then [old] else [])" using d by (induction xs) (auto simp: filter_empty_conv)
    finally show ?thesis .
  qed
  obtain r c'' where l: "LRU_Lookup key hash c' = Some (r, c'')" "frame c' c''" "{a \<in> cached (lc_mem c'). entry_is (lc_mem c') key hash a} = set_option r"
    using Lookup_inv [OF 1(4), of key hash] by blast
  have "e \<in> {a \<in> cached (lc_mem c'). entry_is (lc_mem c') key hash a}" using 1(2) assms(3) by (simp add: inserted_def entry_is_def)
  then have "r = Some e" unfolding l(3) by (cases r) simp_all
  moreover have "h_value (lc_mem c'') e = v" using l(2) 1(2) by (simp add: frame_def inserted_def)
  ultimately show ?thesis using 1(1,4,5) 1(6) [unfolded had_to_go_def] l(1) assms(3) f unfolding x
    by (intro exI [of _ e] exI [of _ k] exI [of _ c'] exI [of _ c''] exI [of _ ?rest]) simp
qed

theorem lru_insert_witness:
  "\<exists>c e c' c''. LRUCache_new (memory_of (0 :: nat)) = Some c \<and> LRU_Insert next_malloc [1] 5 7 1 9 (LRU_SetCapacity 1 c) = Some (e, c') \<and>
    LRU_Lookup [1] 5 c' = Some (Some e, c'') \<and> h_value (lc_mem c'') e = 7 \<and> deleted c' = deleted (LRU_SetCapacity 1 c)"
proof -
  obtain c where c: "LRUCache_new (memory_of (0 :: nat)) = Some c" "lru_inv (LRU_SetCapacity 1 c) [] []" "capacity (LRU_SetCapacity 1 c) = 1"
    using LRUCache_new_inv [of "memory_of (0 :: nat)" 1] by blast
  then have "0 < capacity (LRU_SetCapacity 1 c)" by simp
  from lru_insert [OF next_malloc_fresh c(2) this, of "[1]" 5 7 1 9] show ?thesis using c(1) by auto
qed

end
