(* ===== verification/Ldb_Cache_Blocks.thy ===== *)
theory Ldb_Cache_Blocks
  imports Ldb_Cache_Thms Ldb_Table_Get
begin

text \<open>
  The cache of all shards keeps the contract that tables rely on, so a lookup in a table finds the same with the cache as without.
\<close>

section \<open>The contract\<close>

definition shard_ok :: "nat \<Rightarrow> 'v LRUCache \<Rightarrow> bool" where
  "shard_ok s c \<longleftrightarrow> (\<exists>xs ys. lru_inv c xs ys) \<and>
     (\<forall>a \<in> live (lc_mem c). h_hash (lc_mem c) a = HashSlice (h_key (lc_mem c) a) \<and> Shard (h_hash (lc_mem c) a) = s)"

definition cache_ok :: "'v ShardedLRUCache \<Rightarrow> bool" where
  "cache_ok c \<longleftrightarrow> length (shard c) = kNumShards \<and> (\<forall>s < kNumShards. shard_ok s (shard c ! s))"

text \<open>What is cached, and the handles that are lent.\<close>

definition cache_holds :: "'v ShardedLRUCache \<Rightarrow> slice \<Rightarrow> 'v \<Rightarrow> bool" where
  "cache_holds c k v \<longleftrightarrow> (\<exists>s < kNumShards. \<exists>a \<in> cached (lc_mem (shard c ! s)). h_key (lc_mem (shard c ! s)) a = k \<and> h_value (lc_mem (shard c ! s)) a = v)"

definition lent_of :: "'v handles \<Rightarrow> nat multiset" where
  "lent_of m = (\<Sum>a \<in> live m. replicate_mset (lent_count m a) a)"

definition cache_lent :: "'v ShardedLRUCache \<Rightarrow> handle multiset" where
  "cache_lent c = (\<Sum>s < kNumShards. image_mset (Pair s) (lent_of (lc_mem (shard c ! s))))"

definition lru_cache :: "(nat set \<Rightarrow> nat) \<Rightarrow> addr \<Rightarrow> (handle, 'v ShardedLRUCache, 'v) Cache" where
  "lru_cache malloc deleter =
     \<lparr>vNewId = Cache_NewId, vLookup = Cache_Lookup, vValue = Cache_Value, vInsert = (\<lambda>k v n. Cache_Insert malloc k v (of_nat n) deleter),
      vRelease = Cache_Release\<rparr>"

lemma count_lent_of: "finite (live m) \<Longrightarrow> count (lent_of m) a = lent_count m a"
proof -
  assume f: "finite (live m)"
  have "count (lent_of m) a = (\<Sum>b \<in> live m. if b = a then lent_count m b else 0)" by (auto simp: lent_of_def count_sum intro!: sum.cong)
  also have "\<dots> = lent_count m a" using f by (simp add: lent_count_def)
  finally show ?thesis .
qed

lemma count_image_pair: "count (image_mset (Pair s) M) (s', a) = (if s = s' then count M a else 0)"
  by (induction M) auto

lemma count_cache_lent:
  assumes "cache_ok c"
  shows "count (cache_lent c) (s, a) = (if s < kNumShards then lent_count (lc_mem (shard c ! s)) a else 0)"
proof -
  have f: "finite (live (lc_mem (shard c ! s)))" if "s < kNumShards" for s
    using assms that by (auto simp: cache_ok_def shard_ok_def lru_inv_def entries_ok_def)
  have "count (cache_lent c) (s, a) = (\<Sum>t < kNumShards. if t = s then count (lent_of (lc_mem (shard c ! s))) a else 0)"
    by (auto simp: cache_lent_def count_sum count_image_pair intro!: sum.cong)
  also have "\<dots> = (if s < kNumShards then count (lent_of (lc_mem (shard c ! s))) a else 0)" by simp
  finally show ?thesis using f count_lent_of by auto
qed

lemma Shard_less: "Shard hash < kNumShards"
proof -
  have "unat (drop_bit 28 hash) = unat hash div 2 ^ 28" by (simp add: unat_shift_right)
  then show ?thesis using unat_less32 [of hash] by (simp add: Shard_def kNumShards_def)
qed

text \<open>One shard is replaced.\<close>

lemma cache_ok_update:
  assumes "cache_ok c" "shard_ok s x"
  shows "cache_ok (c\<lparr>shard := (shard c)[s := x]\<rparr>)"
  unfolding cache_ok_def
proof (intro conjI allI impI)
  fix t assume "t < kNumShards"
  then show "shard_ok t (shard (c\<lparr>shard := (shard c)[s := x]\<rparr>) ! t)" using assms by (cases "t = s") (simp_all add: cache_ok_def)
qed (use assms(1) in \<open>simp add: cache_ok_def\<close>)

lemma cache_lent_update:
  assumes "cache_ok c" "shard_ok s x" "s < kNumShards" "lent_count (lc_mem x) = count M"
    "\<And>a. count H (s, a) = count M a" "\<And>t a. t \<noteq> s \<Longrightarrow> count H (t, a) = count (cache_lent c) (t, a)"
  shows "cache_lent (c\<lparr>shard := (shard c)[s := x]\<rparr>) = H"
proof (rule multiset_eqI)
  fix h :: handle
  obtain t a where h: "h = (t, a)" by (cases h)
  have l: "length (shard c) = kNumShards" using assms(1) by (simp add: cache_ok_def)
  show "count (cache_lent (c\<lparr>shard := (shard c)[s := x]\<rparr>)) h = count H h"
    unfolding h count_cache_lent [OF cache_ok_update [OF assms(1,2)]]
    using assms(3-6) count_cache_lent [OF assms(1), of t a] l by (cases "t = s") auto
qed

lemma shard_at: "cache_ok c \<Longrightarrow> shard_ok (Shard hash) (shard c ! Shard hash) \<and> Shard hash < length (shard c)"
  using Shard_less by (simp add: cache_ok_def)

lemma holds_update:
  assumes "cache_ok c" "cache_holds (c\<lparr>shard := (shard c)[s := x]\<rparr>) k v" "s < kNumShards"
  shows "cache_holds c k v \<or> (\<exists>a \<in> cached (lc_mem x). h_key (lc_mem x) a = k \<and> h_value (lc_mem x) a = v)"
proof -
  obtain t a where t: "t < kNumShards" "a \<in> cached (lc_mem ((shard c)[s := x] ! t))" "h_key (lc_mem ((shard c)[s := x] ! t)) a = k"
    "h_value (lc_mem ((shard c)[s := x] ! t)) a = v" using assms(2) by (auto simp: cache_holds_def)
  show ?thesis
  proof (cases "t = s")
    case True
    then show ?thesis using t assms(1,3) by (auto simp: cache_ok_def)
  next
    case False
    then show ?thesis using t by (auto simp: cache_holds_def)
  qed
qed

lemma frame_holds:
  assumes "cache_ok c" "frame (shard c ! s) x" "cache_holds (c\<lparr>shard := (shard c)[s := x]\<rparr>) k v" "s < kNumShards"
  shows "cache_holds c k v"
  using holds_update [OF assms(1,3,4)] assms(2,4) by (auto simp: cache_holds_def frame_def)

lemma frame_shard_ok:
  assumes "shard_ok s c" "frame c c'" "lru_inv c' xs ys"
  shows "shard_ok s c'"
  using assms by (auto simp: shard_ok_def frame_def)

lemma value_update:
  assumes "h_value (lc_mem x) = h_value (lc_mem (shard c ! s))"
  shows "Cache_Value h (c\<lparr>shard := (shard c)[s := x]\<rparr>) = Cache_Value h c"
  using assms by (cases "s < length (shard c)"; cases "fst h = s") (simp_all add: Cache_Value_def list_update_beyond)

lemma lru_cache_contract:
  assumes fm: "fresh_malloc malloc"
  shows "value_cache (lru_cache malloc deleter :: (handle, 'v ShardedLRUCache, 'v) Cache) cache_holds cache_lent cache_ok"
proof
  fix c c' :: "'v ShardedLRUCache" and i
  assume "cache_ok c" "vNewId (lru_cache malloc deleter) c = (i, c')"
  then have "shard c' = shard c" "cache_ok c" by (auto simp: lru_cache_def Cache_NewId_def)
  then show "cache_ok c' \<and> cache_lent c' = cache_lent c \<and> (\<forall>k v. cache_holds c' k v \<longrightarrow> cache_holds c k v) \<and>
      (\<forall>h. h \<in># cache_lent c \<longrightarrow> vValue (lru_cache malloc deleter) h c' = vValue (lru_cache malloc deleter) h c)"
    by (simp add: cache_ok_def cache_lent_def cache_holds_def lru_cache_def Cache_Value_def)
next
  fix c :: "'v ShardedLRUCache" and k
  assume ok: "cache_ok c"
  let ?s = "Shard (HashSlice k)"
  let ?x = "shard c ! ?s"
  obtain xs ys where i: "lru_inv ?x xs ys" using shard_at [OF ok, of "HashSlice k"] by (auto simp: shard_ok_def)
  obtain r x where r: "LRU_Lookup k (HashSlice k) ?x = Some (r, x)" "\<exists>xs' ys'. lru_inv x xs' ys'" "frame ?x x" "cached (lc_mem x) = cached (lc_mem ?x)"
    "{a \<in> cached (lc_mem ?x). entry_is (lc_mem ?x) k (HashSlice k) a} = set_option r"
    "lent_count (lc_mem x) = (case r of None \<Rightarrow> lent_count (lc_mem ?x) | Some e \<Rightarrow> (lent_count (lc_mem ?x))(e := lent_count (lc_mem ?x) e + 1))"
    using Lookup_inv [OF i, of k "HashSlice k"] by (elim exE conjE) (rule that, assumption, intro exI, assumption+)
  let ?c = "c\<lparr>shard := (shard c)[?s := x]\<rparr>"
  have sx: "shard_ok ?s x" using shard_at [OF ok] r(2,3) frame_shard_ok by blast
  have ok': "cache_ok ?c" by (rule cache_ok_update [OF ok sx])
  have v: "vValue (lru_cache malloc deleter) h ?c = vValue (lru_cache malloc deleter) h c" for h
    using value_update [of x c ?s h] r(3) by (simp add: lru_cache_def frame_def)
  have fin: "finite (live (lc_mem x))" using r(2) by (auto simp: lru_inv_def entries_ok_def)
  have h: "cache_holds ?c k' v' \<Longrightarrow> cache_holds c k' v'" for k' v' by (rule frame_holds [OF ok r(3) _ Shard_less])
  have l: "lent_count (lc_mem x) = count (lent_of (lc_mem x))" using count_lent_of [OF fin] by (simp add: fun_eq_iff)
  have "case map_option (Pair ?s) r of None \<Rightarrow> cache_lent ?c = cache_lent c
      | Some h \<Rightarrow> cache_lent ?c = add_mset h (cache_lent c) \<and> cache_holds c k (vValue (lru_cache malloc deleter) h ?c)"
  proof (cases r)
    case None
    have "cache_lent ?c = cache_lent c"
      by (rule cache_lent_update [OF ok sx Shard_less l]) (use r(6) None l count_cache_lent [OF ok] Shard_less in simp_all)
    then show ?thesis using None by simp
  next
    case (Some e)
    have "cache_lent ?c = add_mset (?s, e) (cache_lent c)"
      by (rule cache_lent_update [OF ok sx Shard_less l]) (use r(6) Some l [symmetric] count_cache_lent [OF ok] Shard_less in auto)
    moreover have "e \<in> cached (lc_mem ?x)" "h_key (lc_mem ?x) e = k" using r(5) Some by (auto simp: entry_is_def)
    then have "cache_holds c k (h_value (lc_mem ?x) e)" using Shard_less by (auto simp: cache_holds_def)
    then have "cache_holds c k (vValue (lru_cache malloc deleter) (?s, e) ?c)" unfolding v by (simp add: lru_cache_def Cache_Value_def)
    ultimately show ?thesis using Some by simp
  qed
  moreover have "vLookup (lru_cache malloc deleter) k c = Some (map_option (Pair ?s) r, ?c)"
    using r(1) by (simp add: lru_cache_def Cache_Lookup_def Let_def)
  ultimately show "\<exists>r c'. vLookup (lru_cache malloc deleter) k c = Some (r, c') \<and> cache_ok c' \<and> (\<forall>k v. cache_holds c' k v \<longrightarrow> cache_holds c k v) \<and>
      (\<forall>h. h \<in># cache_lent c \<longrightarrow> vValue (lru_cache malloc deleter) h c' = vValue (lru_cache malloc deleter) h c) \<and>
      (case r of None \<Rightarrow> cache_lent c' = cache_lent c
       | Some h \<Rightarrow> cache_lent c' = add_mset h (cache_lent c) \<and> cache_holds c k (vValue (lru_cache malloc deleter) h c'))"
    using ok' h v by (intro exI [of _ "map_option (Pair ?s) r"] exI [of _ ?c] conjI) simp_all
next
  fix c :: "'v ShardedLRUCache" and k v n
  assume ok: "cache_ok c"
  let ?s = "Shard (HashSlice k)"
  let ?x = "shard c ! ?s"
  obtain xs ys where i: "lru_inv ?x xs ys" using shard_at [OF ok, of "HashSlice k"] by (auto simp: shard_ok_def)
  obtain e x xs' ys' where r: "LRU_Insert malloc k (HashSlice k) v (of_nat n) deleter ?x = Some (e, x)" "inserted ?x e k (HashSlice k) v deleter x"
    "lru_inv x xs' ys'" using Insert_inv [OF i fm, of k "HashSlice k" v "of_nat n" deleter] by blast
  let ?c = "c\<lparr>shard := (shard c)[?s := x]\<rparr>"
  have acc: "lent_count (lc_mem x) = (lent_count (lc_mem ?x))(e := 1)" "e \<notin> live (lc_mem ?x)" "e \<in> live (lc_mem x)"
    "h_value (lc_mem x) = (h_value (lc_mem ?x))(e := v)" "h_key (lc_mem x) = (h_key (lc_mem ?x))(e := k)"
    "h_hash (lc_mem x) = (h_hash (lc_mem ?x))(e := HashSlice k)" "cached (lc_mem x) \<subseteq> insert e (cached (lc_mem ?x))"
    using r(2) by (simp_all add: inserted_def)
  have live: "a \<in> live (lc_mem ?x) \<or> a = e" if "a \<in> live (lc_mem x)" for a
  proof (rule ccontr)
    assume n: "\<not> (a \<in> live (lc_mem ?x) \<or> a = e)"
    then have "lent_count (lc_mem x) a = 0" using acc(1) by (simp add: lent_count_def)
    moreover have "a \<notin> cached (lc_mem x)" using n acc(7) by (auto simp: cached_def)
    ultimately have "h_refs (lc_mem x) a = 0" using that by (simp add: lent_count_def cached_def)
    then show False using r(3) that by (auto simp: lru_inv_def entries_ok_def)
  qed
  have sx: "shard_ok ?s x" using shard_at [OF ok, of "HashSlice k"] r(3) live acc(5,6) by (auto simp: shard_ok_def)
  have ok': "cache_ok ?c" by (rule cache_ok_update [OF ok sx])
  have len: "?s < length (shard c)" using shard_at [OF ok] by simp
  have fin: "finite (live (lc_mem x))" using r(3) by (auto simp: lru_inv_def entries_ok_def)
  have l: "lent_count (lc_mem x) = count (lent_of (lc_mem x))" using count_lent_of [OF fin] by (simp add: fun_eq_iff)
  have e0: "lent_count (lc_mem ?x) e = 0" using acc(2) by (simp add: lent_count_def)
  have 1: "cache_lent ?c = add_mset (?s, e) (cache_lent c)"
    by (rule cache_lent_update [OF ok sx Shard_less l]) (use acc(1) e0 l [symmetric] count_cache_lent [OF ok] Shard_less in auto)
  have 2: "vValue (lru_cache malloc deleter) (?s, e) ?c = v" using acc(4) len by (simp add: lru_cache_def Cache_Value_def)
  have 3: "cache_holds c k' v' \<or> k' = k \<and> v' = v" if h: "cache_holds ?c k' v'" for k' v'
  proof -
    consider "cache_holds c k' v'" | a where "a \<in> cached (lc_mem x)" "h_key (lc_mem x) a = k'" "h_value (lc_mem x) a = v'"
      using holds_update [OF ok h Shard_less] by blast
    then show ?thesis
    proof cases
      case (2 a)
      then show ?thesis using acc(4,5,7) Shard_less by (cases "a = e") (auto simp: cache_holds_def)
    qed simp
  qed
  have 4: "vValue (lru_cache malloc deleter) h ?c = vValue (lru_cache malloc deleter) h c" if h: "h \<in># cache_lent c" for h
  proof -
    obtain t a where ta: "h = (t, a)" by (cases h)
    have "0 < count (cache_lent c) (t, a)" using h ta by simp
    then have "t = ?s \<Longrightarrow> a \<noteq> e" using count_cache_lent [OF ok, of t a] e0 Shard_less by (auto simp: count_eq_zero_iff)
    then show ?thesis using acc(4) len ta by (cases "t = ?s") (auto simp: lru_cache_def Cache_Value_def)
  qed
  have "vInsert (lru_cache malloc deleter) k v n c = Some ((?s, e), ?c)" using r(1) by (simp add: lru_cache_def Cache_Insert_def Let_def)
  then show "\<exists>h c'. vInsert (lru_cache malloc deleter) k v n c = Some (h, c') \<and> cache_ok c' \<and> cache_lent c' = add_mset h (cache_lent c) \<and>
      vValue (lru_cache malloc deleter) h c' = v \<and> (\<forall>k' v'. cache_holds c' k' v' \<longrightarrow> cache_holds c k' v' \<or> k' = k \<and> v' = v) \<and>
      (\<forall>h. h \<in># cache_lent c \<longrightarrow> vValue (lru_cache malloc deleter) h c' = vValue (lru_cache malloc deleter) h c)"
    using ok' 1 2 3 4 by (intro exI [of _ "(?s, e)"] exI [of _ ?c] conjI allI impI) simp_all
next
  fix c c' :: "'v ShardedLRUCache" and h :: handle
  assume ok: "cache_ok c" and h: "h \<in># cache_lent c" and c': "c' = vRelease (lru_cache malloc deleter) h c"
  obtain s e where se: "h = (s, e)" by (cases h)
  have "0 < count (cache_lent c) (s, e)" using h se by simp
  then have s: "s < kNumShards" "0 < lent_count (lc_mem (shard c ! s)) e" using count_cache_lent [OF ok, of s e] by (auto split: if_splits)
  let ?x = "shard c ! s"
  have sx: "shard_ok s ?x" using ok s(1) by (simp add: cache_ok_def)
  have "e \<in> live (lc_mem ?x)" using s(2) by (simp add: lent_count_def split: if_splits)
  then have sh: "Shard (h_hash (lc_mem ?x) e) = s" using sx unfolding shard_ok_def by blast
  obtain xs ys where i: "lru_inv ?x xs ys" using ok s(1) by (auto simp: cache_ok_def shard_ok_def)
  let ?y = "LRU_Release e ?x"
  obtain xs' ys' where r: "lru_inv ?y xs' ys'" "frame ?x ?y" "lent_count (lc_mem ?y) = (lent_count (lc_mem ?x))(e := lent_count (lc_mem ?x) e - 1)"
    using Unref_inv [OF i s(2)] unfolding LRU_Release_def by blast
  let ?c = "c\<lparr>shard := (shard c)[s := ?y]\<rparr>"
  have eq: "c' = ?c" using c' se sh by (simp add: lru_cache_def Cache_Release_def)
  have sy: "shard_ok s ?y" using ok s(1) frame_shard_ok [OF _ r(2,1)] by (auto simp: cache_ok_def)
  have fin: "finite (live (lc_mem ?y))" using r(1) by (auto simp: lru_inv_def entries_ok_def)
  have l: "lent_count (lc_mem ?y) = count (lent_of (lc_mem ?y))" using count_lent_of [OF fin] by (simp add: fun_eq_iff)
  have "cache_lent ?c = cache_lent c - {#h#}"
    by (rule cache_lent_update [OF ok sy s(1) l]) (use r(3) l [symmetric] count_cache_lent [OF ok] s(1) se in auto)
  moreover have "cache_ok ?c" by (rule cache_ok_update [OF ok sy])
  moreover have "cache_holds ?c k v \<Longrightarrow> cache_holds c k v" for k v by (rule frame_holds [OF ok r(2) _ s(1)])
  moreover have "vValue (lru_cache malloc deleter) h' ?c = vValue (lru_cache malloc deleter) h' c" for h'
    using value_update [of ?y c s h'] r(2) by (simp add: lru_cache_def frame_def)
  ultimately show "cache_ok c' \<and> cache_lent c' = cache_lent c - {#h#} \<and> (\<forall>k v. cache_holds c' k v \<longrightarrow> cache_holds c k v) \<and>
      (\<forall>h'. h' \<in># cache_lent c' \<longrightarrow> vValue (lru_cache malloc deleter) h' c' = vValue (lru_cache malloc deleter) h' c)"
    unfolding eq by blast
qed

interpretation block_cache: value_cache "lru_cache next_malloc deleter" cache_holds cache_lent cache_ok for deleter
  by (rule lru_cache_contract [OF next_malloc_fresh])

section \<open>What the cache owns\<close>

text \<open>
  A cache owns what was inserted until it calls the deleter with it: \<open>gone c c'\<close> are the keys and values that the deleter has been called
  with between two states, in order. What is lent to a client is still owned.
\<close>

locale owning_cache = value_cache cv holds lent invar
  for cv :: "('h, 'c, 'v) Cache" and holds lent invar +
  fixes owned :: "'c \<Rightarrow> (slice \<times> 'v) multiset"
    and gone :: "'c \<Rightarrow> 'c \<Rightarrow> (slice \<times> 'v) list"
  assumes lookup_owned: "invar c \<Longrightarrow> vLookup cv k c = Some (r, c') \<Longrightarrow>
      owned c' + mset (gone c c') = owned c \<and> (\<forall>h. r = Some h \<longrightarrow> (k, vValue cv h c') \<in># owned c')"
    and insert_owned: "invar c \<Longrightarrow> vInsert cv k v n c = Some (h, c') \<Longrightarrow>
      owned c' + mset (gone c c') = add_mset (k, v) (owned c) \<and> (k, v) \<in># owned c'"
    and release_owned: "invar c \<Longrightarrow> h \<in># lent c \<Longrightarrow> owned (vRelease cv h c) + mset (gone c (vRelease cv h c)) = owned c"

definition shard_owned :: "'v LRUCache \<Rightarrow> (slice \<times> 'v) multiset" where
  "shard_owned c = image_mset (\<lambda>a. (h_key (lc_mem c) a, h_value (lc_mem c) a)) (mset_set (live (lc_mem c)))"

definition cache_owned :: "'v ShardedLRUCache \<Rightarrow> (slice \<times> 'v) multiset" where
  "cache_owned c = (\<Sum>s < kNumShards. shard_owned (shard c ! s))"

text \<open>The calls of the deleter are at the end of the record of the shard that made them.\<close>

definition shard_deleted :: "'v LRUCache \<Rightarrow> 'v LRUCache \<Rightarrow> (slice \<times> 'v) list" where
  "shard_deleted c c' = map snd (drop (length (deleted c)) (deleted c'))"

definition cache_deleted :: "'v ShardedLRUCache \<Rightarrow> 'v ShardedLRUCache \<Rightarrow> (slice \<times> 'v) list" where
  "cache_deleted c c' = concat (map2 shard_deleted (shard c) (shard c'))"

lemma concat_map2_update:
  "i < length xs \<Longrightarrow> (\<And>y. f y y = []) \<Longrightarrow> concat (map2 f xs (xs[i := x])) = f (xs ! i) x"
proof (induction xs arbitrary: i)
  case (Cons y ys)
  have "concat (map2 f ys ys) = []" using Cons.prems(2) by (induction ys) simp_all
  then show ?case using Cons by (cases i) simp_all
qed simp

lemma shard_owned_account: "image_mset snd (account c) = mset (map snd (deleted c)) + shard_owned c"
  by (simp add: account_def shard_owned_def entry_of_def comp_def multiset.map_comp)

lemma owned_update:
  assumes ok: "cache_ok c" and s: "s < kNumShards" and d: "deleted x = deleted (shard c ! s) @ ds" and a: "account x = A + account (shard c ! s)"
  shows "cache_owned (c\<lparr>shard := (shard c)[s := x]\<rparr>) + mset (cache_deleted c (c\<lparr>shard := (shard c)[s := x]\<rparr>)) = image_mset snd A + cache_owned c"
proof -
  have l: "length (shard c) = kNumShards" using ok by (simp add: cache_ok_def)
  have "cache_deleted c (c\<lparr>shard := (shard c)[s := x]\<rparr>) = map snd ds"
    using concat_map2_update [of s "shard c" shard_deleted x] s l d by (simp add: cache_deleted_def shard_deleted_def)
  moreover have "mset (map snd ds) + shard_owned x = image_mset snd A + shard_owned (shard c ! s)"
    using arg_cong [OF a, of "image_mset snd"] by (simp add: shard_owned_account d)
  moreover have "cache_owned (c\<lparr>shard := (shard c)[s := x]\<rparr>) = shard_owned x + (\<Sum>t \<in> {..<kNumShards} - {s}. shard_owned (shard c ! t))"
    using s l by (simp add: cache_owned_def sum.remove [of _ s])
  moreover have "cache_owned c = shard_owned (shard c ! s) + (\<Sum>t \<in> {..<kNumShards} - {s}. shard_owned (shard c ! t))"
    using s by (simp add: cache_owned_def sum.remove [of _ s])
  ultimately show ?thesis by (simp add: ac_simps)
qed

lemma live_owned:
  assumes "length (shard c) = kNumShards" "s < kNumShards" "a \<in> live (lc_mem (shard c ! s))" "finite (live (lc_mem (shard c ! s)))"
  shows "(h_key (lc_mem (shard c ! s)) a, h_value (lc_mem (shard c ! s)) a) \<in># cache_owned c"
proof -
  have "(h_key (lc_mem (shard c ! s)) a, h_value (lc_mem (shard c ! s)) a) \<in># shard_owned (shard c ! s)" using assms(3,4) by (simp add: shard_owned_def)
  moreover have "cache_owned c = shard_owned (shard c ! s) + (\<Sum>t \<in> {..<kNumShards} - {s}. shard_owned (shard c ! t))"
    using assms(2) by (simp add: cache_owned_def sum.remove [of _ s])
  ultimately show ?thesis by simp
qed

lemma lru_cache_owns:
  assumes fm: "fresh_malloc malloc"
  shows "owning_cache (lru_cache malloc deleter :: (handle, 'v ShardedLRUCache, 'v) Cache) cache_holds cache_lent cache_ok cache_owned cache_deleted"
proof (rule owning_cache.intro [OF lru_cache_contract [OF fm]], unfold_locales)
  fix c c' :: "'v ShardedLRUCache" and k r
  assume ok: "cache_ok c" and l: "vLookup (lru_cache malloc deleter) k c = Some (r, c')"
  let ?s = "Shard (HashSlice k)"
  let ?x = "shard c ! ?s"
  obtain xs ys where i: "lru_inv ?x xs ys" using shard_at [OF ok, of "HashSlice k"] by (auto simp: shard_ok_def)
  obtain q x where q: "LRU_Lookup k (HashSlice k) ?x = Some (q, x)" "\<exists>xs' ys'. lru_inv x xs' ys'" "frame ?x x" "cached (lc_mem x) = cached (lc_mem ?x)"
    "{a \<in> cached (lc_mem ?x). entry_is (lc_mem ?x) k (HashSlice k) a} = set_option q"
    using Lookup_inv [OF i, of k "HashSlice k"] by (elim exE conjE) (rule that, assumption, intro exI, assumption+)
  have c': "c' = c\<lparr>shard := (shard c)[?s := x]\<rparr>" "r = map_option (Pair ?s) q" using l q(1) by (simp_all add: lru_cache_def Cache_Lookup_def Let_def)
  have d: "deleted x = deleted ?x @ []" using q(1) by (auto simp: LRU_Lookup_def LRU_Ref_def Let_def split: if_splits bind_splits)
  have a: "account x = {#} + account ?x" using q(3) by (simp add: frame_def)
  have len: "length (shard c') = kNumShards" "shard c' ! ?s = x" using ok Shard_less by (simp_all add: c'(1) cache_ok_def)
  have "(k, vValue (lru_cache malloc deleter) h c') \<in># cache_owned c'" if h: "r = Some h" for h
  proof -
    obtain e where e: "q = Some e" "h = (?s, e)" using h c'(2) by auto
    then have "e \<in> cached (lc_mem x)" "h_key (lc_mem x) e = k" using q(3-5) by (auto simp: entry_is_def frame_def)
    moreover have "finite (live (lc_mem x))" using q(2) by (auto simp: lru_inv_def entries_ok_def)
    ultimately show ?thesis using live_owned [OF len(1) Shard_less, of e "HashSlice k"] e(2) len(2)
      by (simp add: lru_cache_def Cache_Value_def cached_def)
  qed
  then show "cache_owned c' + mset (cache_deleted c c') = cache_owned c \<and> (\<forall>h. r = Some h \<longrightarrow> (k, vValue (lru_cache malloc deleter) h c') \<in># cache_owned c')"
    using owned_update [OF ok Shard_less d a] unfolding c'(1) by simp
next
  fix c c' :: "'v ShardedLRUCache" and k v n h
  assume ok: "cache_ok c" and l: "vInsert (lru_cache malloc deleter) k v n c = Some (h, c')"
  let ?s = "Shard (HashSlice k)"
  let ?x = "shard c ! ?s"
  obtain xs ys where i: "lru_inv ?x xs ys" using shard_at [OF ok, of "HashSlice k"] by (auto simp: shard_ok_def)
  obtain e x ds xs' ys' where r: "LRU_Insert malloc k (HashSlice k) v (of_nat n) deleter ?x = Some (e, x)" "inserted ?x e k (HashSlice k) v deleter x"
    "deleted x = deleted ?x @ ds" "lru_inv x xs' ys'" using Insert_inv [OF i fm, of k "HashSlice k" v "of_nat n" deleter] by blast
  have c': "c' = c\<lparr>shard := (shard c)[?s := x]\<rparr>" using l r(1) by (simp add: lru_cache_def Cache_Insert_def Let_def)
  have e: "account x = {#(deleter, k, v)#} + account ?x" "e \<in> live (lc_mem x)" "h_key (lc_mem x) e = k" "h_value (lc_mem x) e = v"
    using r(2) by (simp_all add: inserted_def)
  have len: "length (shard c') = kNumShards" "shard c' ! ?s = x" using ok Shard_less by (simp_all add: c' cache_ok_def)
  have "finite (live (lc_mem x))" using r(4) by (simp add: lru_inv_def entries_ok_def)
  then have "(k, v) \<in># cache_owned c'" using live_owned [OF len(1) Shard_less, of e "HashSlice k"] e(2-4) len(2) by simp
  then show "cache_owned c' + mset (cache_deleted c c') = add_mset (k, v) (cache_owned c) \<and> (k, v) \<in># cache_owned c'"
    using owned_update [OF ok Shard_less r(3) e(1)] unfolding c' by simp
next
  fix c :: "'v ShardedLRUCache" and h
  assume ok: "cache_ok c" and h: "h \<in># cache_lent c"
  obtain s e where se: "h = (s, e)" by (cases h)
  have "0 < count (cache_lent c) (s, e)" using h se by simp
  then have s: "s < kNumShards" "0 < lent_count (lc_mem (shard c ! s)) e" using count_cache_lent [OF ok, of s e] by (auto split: if_splits)
  let ?x = "shard c ! s"
  have "e \<in> live (lc_mem ?x)" using s(2) by (simp add: lent_count_def split: if_splits)
  then have sh: "Shard (h_hash (lc_mem ?x) e) = s" using ok s(1) unfolding cache_ok_def shard_ok_def by blast
  obtain xs ys where i: "lru_inv ?x xs ys" using ok s(1) by (auto simp: cache_ok_def shard_ok_def)
  have "frame ?x (LRU_Release e ?x)" using Unref_inv [OF i s(2)] unfolding LRU_Release_def by blast
  then have a: "account (LRU_Release e ?x) = {#} + account ?x" by (simp add: frame_def)
  have "\<exists>ds. deleted (LRU_Release e ?x) = deleted ?x @ ds"
    by (cases "h_refs (lc_mem ?x) e - 1 = 0") (simp_all add: LRU_Release_def LRU_Unref_def Let_def)
  then obtain ds where d: "deleted (LRU_Release e ?x) = deleted ?x @ ds" by blast
  show "cache_owned (vRelease (lru_cache malloc deleter) h c) + mset (cache_deleted c (vRelease (lru_cache malloc deleter) h c)) = cache_owned c"
    using owned_update [OF ok s(1) d a] se sh by (simp add: lru_cache_def Cache_Release_def)
qed

interpretation table_owner: owning_cache "lru_cache next_malloc deleter" cache_holds cache_lent cache_ok cache_owned cache_deleted for deleter
  by (rule lru_cache_owns [OF next_malloc_fresh])

section \<open>Tables with a cache\<close>

interpretation cached_blocks: block_source "posix_random_access sys rf" "Some (lru_cache next_malloc deleter)" ropt opt cid bs ro
  "\<lambda>os c H. image_in contents (\<lambda>os. preads_ok sys rf contents (contents os)) ropt opt bs os \<and> cache_ok c \<and> cache_lent c = L + H \<and>
     right_blocks cache_holds opt cid bs c"
  for sys rf contents deleter ropt opt cid bs ro L
  by (rule blocks_from_cache [OF posix_random.random_access_file_axioms lru_cache_contract [OF next_malloc_fresh]])

lemma new_shards_ok:
  "\<exists>cs. new_shards ms n = Some cs \<and> length cs = length ms \<and> (\<forall>c \<in> set cs. lru_inv c [] [] \<and> live (lc_mem c) = {})"
proof (induction ms)
  case (Cons m ms)
  then obtain cs where cs: "new_shards ms n = Some cs" "length cs = length ms" "\<forall>c \<in> set cs. lru_inv c [] [] \<and> live (lc_mem c) = {}" by blast
  obtain c where "LRUCache_new m = Some c" "lru_inv (LRU_SetCapacity n c) [] []" "live (lc_mem (LRU_SetCapacity n c)) = {}"
    using LRUCache_new_inv [of m n] by blast
  then show ?case using cs by auto
qed simp

lemma NewLRUCache_ok:
  assumes "length ms = kNumShards"
  shows "\<exists>c. NewLRUCache ms n = Some c \<and> cache_ok c \<and> cache_lent c = {#} \<and> (\<forall>k v. \<not> cache_holds c k v) \<and> cache_owned c = {#}"
proof -
  obtain cs where cs: "new_shards ms ((n + (of_nat kNumShards - 1)) div of_nat kNumShards) = Some cs" "length cs = length ms"
    "\<forall>c \<in> set cs. lru_inv c [] [] \<and> live (lc_mem c) = {}" using new_shards_ok by blast
  let ?c = "\<lparr>shard = cs, last_id = 0\<rparr>"
  have s: "(\<exists>xs ys. lru_inv (cs ! i) xs ys) \<and> live (lc_mem (cs ! i)) = {}" if "i < kNumShards" for i
  proof -
    have "cs ! i \<in> set cs" using that cs(2) assms by simp
    then show ?thesis using cs(3) by blast
  qed
  have ok: "cache_ok ?c" unfolding cache_ok_def
  proof (intro conjI allI impI)
    fix i assume "i < kNumShards"
    then show "shard_ok i (shard ?c ! i)" using s [of i] unfolding shard_ok_def by (intro conjI ballI) simp_all
  qed (use cs(2) assms in simp)
  moreover have "cache_lent ?c = {#}"
  proof (rule multiset_eqI)
    fix h :: handle
    obtain i a where h: "h = (i, a)" by (cases h)
    show "count (cache_lent ?c) h = count {#} h"
      unfolding h count_cache_lent [OF ok] using s [of i] by (auto simp: lent_count_def)
  qed
  moreover have "\<not> cache_holds ?c k v" for k v using s by (auto simp: cache_holds_def cached_def)
  moreover have "cache_owned ?c = {#}" using s by (simp add: cache_owned_def shard_owned_def)
  ultimately show ?thesis using cs(1) by (simp add: NewLRUCache_def)
qed

text \<open>Lookups one after the other, with the entries that they find.\<close>

fun get_all ::
    "'f RandomAccessFile \<Rightarrow> ('h, 'c, Block) Cache option \<Rightarrow> Table \<Rightarrow> ReadOptions \<Rightarrow> slice list \<Rightarrow> 'f \<Rightarrow> 'c \<Rightarrow> (kv option list \<times> 'f \<times> 'c) option" where
  "get_all vt cache t ro [] f c = Some ([], f, c)"
| "get_all vt cache t ro (k # ks) f c = do {
     (s, r, f, c) \<leftarrow> InternalGet vt cache t ro k None (\<lambda>_ k v. Some (k, v)) f c;
     if ok s then map_option (\<lambda>(rs, x). (r # rs, x)) (get_all vt cache t ro ks f c) else None }"

lemma kv_pair: "(case q of None \<Rightarrow> None | Some kv \<Rightarrow> Some (fst kv, snd kv)) = q"
  by (cases q) simp_all

context block_source
begin

lemma get_all_found:
  assumes d: "db_options valid compare separator successor policy opt"
    and kvs: "concat bs = kvs" "[] \<notin> set bs" "sorted_wrt (\<lambda>a b. InternalKey_Compare compare (fst a) (fst b) < 0) kvs"
      "\<forall>kv \<in> set kvs. internal_valid valid (fst kv)"
    and k: "\<forall>k \<in> set ks. internal_valid valid k" and s: "state f c H"
  shows "\<exists>rs f' c'. get_all vt cache (opened ropt opt cid bs) ro ks f c = Some (rs, f', c') \<and> state f' c' H \<and> list_all2 (found compare kvs) ks rs"
  using k s
proof (induction ks arbitrary: f c)
  case (Cons k ks)
  have v: "internal_valid valid k" and ks: "\<forall>k \<in> set ks. internal_valid valid k" using Cons.prems(1) by simp_all
  obtain q f1 c1 where q: "InternalGet vt cache (opened ropt opt cid bs) ro k None (\<lambda>_ k v. Some (k, v)) f c =
      Some (OK, case q of None \<Rightarrow> None | Some kv \<Rightarrow> Some (fst kv, snd kv), f1, c1)" "state f1 c1 H" "found compare kvs k q"
    using internal_get [OF d kvs v Cons.prems(2), where arg = None and handle_result = "\<lambda>_ k v. Some (k, v)"] by (elim exE conjE) (rule that)
  obtain rs f' c' where "get_all vt cache (opened ropt opt cid bs) ro ks f1 c1 = Some (rs, f', c')" "state f' c' H" "list_all2 (found compare kvs) ks rs"
    using Cons.IH [OF ks q(2)] by (elim exE conjE) (rule that)
  then show ?case using q(1,3) by (intro exI [of _ "q # rs"] exI [of _ f'] exI [of _ c']) (simp add: kv_pair)
qed simp

end

text \<open>
  C7: The block cache does not change what is found. A table of internal keys in order, written with the table builder to a posix file, is
  opened with a new cache of any capacity. Then any sequence of lookups returns, whatever blocks are in the cache or are evicted meanwhile,
  each lookup finds what the table has for its key, as without a cache, and in the end no handle of the cache is left unreleased.
\<close>

theorem cached_get:
  assumes d: "db_options valid compare separator successor policy opt"
    and kvs: "sorted_wrt (\<lambda>a b. InternalKey_Compare compare (fst a) (fst b) < 0) kvs" "\<forall>kv \<in> set kvs. internal_valid valid (fst kv)"
    and w: "writes_ok wsys (wf_fd pf) disk pend" "buf pf = []" "disk wos = []"
    and same: "opt_comparator ropt = opt_comparator opt" "opt_filter ropt = opt_filter opt"
    and ms: "length ms = kNumShards"
  shows "\<exists>r r' c0. table_add_all (posix_writable wsys) kvs (TableBuilder_new opt (pf, wos)) = Some r \<and>
    TableBuilder_Finish (posix_writable wsys) r = Some (OK, r') \<and> NewLRUCache ms n = Some c0 \<and>
    (\<forall>os. contents os = pf_contents disk (tb_file r') \<and> length (contents os) < 2 ^ 32 \<and> preads_ok rsys rf contents (contents os) \<longrightarrow>
       (\<exists>t os' c1. Table_Open (posix_random_access rsys rf) (Some (lru_cache next_malloc deleter)) ropt (TableBuilder_FileSize r') os c0 =
            Some (OK, Some t, os', c1) \<and>
          (\<forall>ks. (\<forall>k \<in> set ks. internal_valid valid k) \<longrightarrow>
             (\<exists>rs os2 c2. get_all (posix_random_access rsys rf) (Some (lru_cache next_malloc deleter)) t ro ks os' c1 = Some (rs, os2, c2) \<and>
                list_all2 (found compare kvs) ks rs \<and> cache_lent c2 = {#}))))"
proof -
  have K: "0 < block_restart_interval opt" using d by (simp add: db_options_def)
  obtain r r' bs where r: "table_add_all (posix_writable wsys) kvs (TableBuilder_new opt (pf, wos)) = Some r"
      "TableBuilder_Finish (posix_writable wsys) r = Some (OK, r')" "pf_contents disk (tb_file r') = table_image opt bs"
      "tb_offset r' = of_nat (length (table_image opt bs))" "concat bs = kvs" "[] \<notin> set bs"
    using posix_table_written [OF w K] by blast
  obtain c0 where c0: "NewLRUCache ms n = Some c0" "cache_ok c0" "cache_lent c0 = {#}" "\<forall>k v. \<not> cache_holds c0 k v"
    using NewLRUCache_ok [OF ms] by blast
  let ?vt = "posix_random_access rsys rf" and ?cache = "Some (lru_cache next_malloc deleter)"
  let ?inv = "\<lambda>os. preads_ok rsys rf contents (contents os)"
  have "\<exists>t os' c1. Table_Open ?vt ?cache ropt (TableBuilder_FileSize r') os c0 = Some (OK, Some t, os', c1) \<and>
      (\<forall>ks. (\<forall>k \<in> set ks. internal_valid valid k) \<longrightarrow>
         (\<exists>rs os2 c2. get_all ?vt ?cache t ro ks os' c1 = Some (rs, os2, c2) \<and> list_all2 (found compare kvs) ks rs \<and> cache_lent c2 = {#}))"
    if c: "contents os = table_image opt bs" and l: "length (contents os) < 2 ^ 32" and p: "?inv os" for os
  proof -
    have fits: "table_fits opt bs" using l K by (simp add: table_fits_def c)
    let ?c1 = "c0\<lparr>last_id := last_id c0 + 1\<rparr>"
    obtain os' where o: "Table_Open ?vt ?cache ropt (TableBuilder_FileSize r') os c0 = Some (OK, Some (opened ropt opt (last_id c0 + 1) bs), os', ?c1)"
        "contents os' = contents os" "?inv os'"
      using posix_random.Table_Open_image [where cache = ?cache, OF p c fits same(2), of c0] r(4)
      by (auto simp: TableBuilder_FileSize_def lru_cache_def Cache_NewId_def)
    have "cache_holds ?c1 k v \<longleftrightarrow> cache_holds c0 k v" for k v by (simp add: cache_holds_def)
    then have "right_blocks cache_holds opt (last_id c0 + 1) bs ?c1" using c0(4) by (simp add: right_blocks_def)
    then have "cache_ok ?c1 \<and> cache_lent ?c1 = {#} + {#} \<and> right_blocks cache_holds opt (last_id c0 + 1) bs ?c1"
      using c0(2,3) by (simp add: cache_ok_def cache_lent_def)
    then have st: "image_in contents ?inv ropt opt bs os' \<and> cache_ok ?c1 \<and> cache_lent ?c1 = {#} + {#} \<and> right_blocks cache_holds opt (last_id c0 + 1) bs ?c1"
      using fits same c o(2,3) by (simp add: image_in_def)
    have "\<exists>rs os2 c2. get_all ?vt ?cache (opened ropt opt (last_id c0 + 1) bs) ro ks os' ?c1 = Some (rs, os2, c2) \<and>
        list_all2 (found compare kvs) ks rs \<and> cache_lent c2 = {#}" if ks: "\<forall>k \<in> set ks. internal_valid valid k" for ks
    proof -
      obtain rs os2 c2 where g: "get_all ?vt ?cache (opened ropt opt (last_id c0 + 1) bs) ro ks os' ?c1 = Some (rs, os2, c2)"
        "cache_lent c2 = {#} + {#}" "list_all2 (found compare kvs) ks rs"
        using cached_blocks.get_all_found [OF d r(5,6) kvs ks st, where ro = ro and deleter = deleter] by (elim exE conjE) (rule that)
      then show ?thesis by (intro exI conjI) simp_all
    qed
    then show ?thesis using o(1) by blast
  qed
  then show ?thesis using r(1,2,3) c0(1) by auto
qed

theorem cached_get_witness:
  "\<exists>r r' c0 t os' c1 os2 c2. table_add_all (posix_writable slow_sys) [(AppendInternalKey [] [7] 1 kTypeValue, [10])]
      (TableBuilder_new small_options (PosixWritableFile_new (c_str ''000005.ldb'') 4, [], 2)) = Some r \<and>
    TableBuilder_Finish (posix_writable slow_sys) r = Some (OK, r') \<and> NewLRUCache (replicate 16 (memory_of (Block_new []))) 8192 = Some c0 \<and>
    Table_Open (posix_random_access slow_sys \<lparr>has_permanent_fd = True, ra_fd = 3, ra_filename = c_str ''000005.ldb''\<rparr>)
      (Some (lru_cache next_malloc 9)) small_options (TableBuilder_FileSize r') (pf_contents fst (tb_file r'), 0) c0 = Some (OK, Some t, os', c1) \<and>
    get_all (posix_random_access slow_sys \<lparr>has_permanent_fd = True, ra_fd = 3, ra_filename = c_str ''000005.ldb''\<rparr>)
      (Some (lru_cache next_malloc 9)) t ReadOptions_new [AppendInternalKey [] [7] 9 kTypeValue, AppendInternalKey [] [7] 9 kTypeValue] os' c1 =
      Some ([Some (AppendInternalKey [] [7] 1 kTypeValue, [10]), Some (AppendInternalKey [] [7] 1 kTypeValue, [10])], os2, c2) \<and> cache_lent c2 = {#}"
proof -
  let ?kvs = "[(AppendInternalKey [] [7] 1 kTypeValue, [10])] :: kv list" and ?pf = "PosixWritableFile_new (c_str ''000005.ldb'') 4"
  let ?rf = "\<lparr>has_permanent_fd = True, ra_fd = 3, ra_filename = c_str ''000005.ldb''\<rparr>"
  let ?vt = "posix_random_access slow_sys ?rf" and ?cache = "Some (lru_cache next_malloc 9)" and ?k = "AppendInternalKey [] [7] 9 kTypeValue"
  let ?ms = "replicate 16 (memory_of (Block_new []))"
  have b: "buf ?pf = []" "fst ([] :: byte list, 2 :: nat) = []" by (simp_all add: PosixWritableFile_new_def)
  have s: "sorted_wrt (\<lambda>a b. InternalKey_Compare slice_compare (fst a) (fst b) < 0) ?kvs" "\<forall>kv \<in> set ?kvs. internal_valid (\<lambda>_. True) (fst kv)"
    by (simp_all add: internal_valid_def)
  have ms: "length ?ms = kNumShards" by (simp add: kNumShards_def)
  obtain r r' c0 where r: "table_add_all (posix_writable slow_sys) ?kvs (TableBuilder_new small_options (?pf, [], 2)) = Some r"
      "TableBuilder_Finish (posix_writable slow_sys) r = Some (OK, r')" "NewLRUCache ?ms 8192 = Some c0"
      "\<And>os. fst os = pf_contents fst (tb_file r') \<and> length (fst os) < 2 ^ 32 \<and> preads_ok slow_sys ?rf fst (fst os) \<Longrightarrow>
        (\<exists>t os' c1. Table_Open ?vt ?cache small_options (TableBuilder_FileSize r') os c0 = Some (OK, Some t, os', c1) \<and>
          (\<forall>ks. (\<forall>k \<in> set ks. internal_valid (\<lambda>_. True) k) \<longrightarrow>
             (\<exists>rs os2 c2. get_all ?vt ?cache t ReadOptions_new ks os' c1 = Some (rs, os2, c2) \<and> list_all2 (found slice_compare ?kvs) ks rs \<and>
                cache_lent c2 = {#})))"
    using cached_get [OF small_options_db s slow_sys_ok(1) b HOL.refl HOL.refl ms, where contents = fst and rsys = slow_sys and
        rf = ?rf and ro = ReadOptions_new and n = 8192 and deleter = 9]
    by (elim exE conjE) (rule that, assumption+, drule spec, erule mp, assumption)
  obtain q q' bs where q: "table_add_all (posix_writable slow_sys) ?kvs (TableBuilder_new small_options (?pf, [], 2)) = Some q"
      "TableBuilder_Finish (posix_writable slow_sys) q = Some (OK, q')" "pf_contents fst (tb_file q') = table_image small_options bs"
      "concat bs = ?kvs" "[] \<notin> set bs"
    using posix_table_written [OF slow_sys_ok(1) b, where opt = small_options and kvs = ?kvs] by (auto simp: small_options_def)
  have l: "length (pf_contents fst (tb_file r')) < 2 ^ 32" using q r(1,2) one_group [OF q(4,5)] small_table_length by simp
  let ?os = "(pf_contents fst (tb_file r'), 0 :: nat)"
  have p: "fst ?os = pf_contents fst (tb_file r') \<and> length (fst ?os) < 2 ^ 32 \<and> preads_ok slow_sys ?rf fst (fst ?os)"
    using l slow_sys_preads [of "pf_contents fst (tb_file r')"] by simp
  obtain t os' c1 where t: "Table_Open ?vt ?cache small_options (TableBuilder_FileSize r') ?os c0 = Some (OK, Some t, os', c1)"
      "\<forall>ks. (\<forall>k \<in> set ks. internal_valid (\<lambda>_. True) k) \<longrightarrow>
         (\<exists>rs os2 c2. get_all ?vt ?cache t ReadOptions_new ks os' c1 = Some (rs, os2, c2) \<and> list_all2 (found slice_compare ?kvs) ks rs \<and> cache_lent c2 = {#})"
    using r(4) [OF p] by (elim exE conjE) (rule that)
  have v: "\<forall>k \<in> set [?k, ?k]. internal_valid (\<lambda>_. True) k" by (simp add: internal_valid_def)
  obtain rs os2 c2 where g: "get_all ?vt ?cache t ReadOptions_new [?k, ?k] os' c1 = Some (rs, os2, c2)"
      "list_all2 (found slice_compare ?kvs) [?k, ?k] rs" "cache_lent c2 = {#}" using t(2) [THEN spec, THEN mp, OF v] by (elim exE conjE) (rule that)
  have e: "slice_compare [7] [7] = 0" by code_simp
  then have n: "\<not> InternalKey_Compare slice_compare (AppendInternalKey [] [7] 1 kTypeValue) ?k < 0"
    by (simp add: internal_less PackSequenceAndType_def)
  have f: "res = Some (AppendInternalKey [] [7] 1 kTypeValue, [10])" if "found slice_compare ?kvs ?k res" for res
    using that [unfolded found_def, THEN conjunct2, THEN spec, THEN mp, THEN mp] n e by simp
  have "rs = [Some (AppendInternalKey [] [7] 1 kTypeValue, [10]), Some (AppendInternalKey [] [7] 1 kTypeValue, [10])]"
    using g(2) f by (auto simp: list_all2_Cons1)
  then show ?thesis using r(1-3) t(1) g(1,3) by blast
qed

end
