(* ===== verification/Ldb_Table_Cache.thy ===== *)
theory Ldb_Table_Cache
  imports Ldb_Version_Get Ldb_Posix_Env Ldb_Filename Ldb_Cache_Blocks
begin

text \<open>
  \<^verbatim>\<open>leveldb-library/db/table_cache.h\<close> and \<^verbatim>\<open>table_cache.cc\<close>: tables are opened when they are needed and kept open in a cache. Lookups
  through it keep the contract that \<^verbatim>\<open>Version::Get\<close> relies on, so that a version on posix files with the least recently used cache
  answers as one map with versions.
\<close>

section \<open>The cache of tables\<close>

record 'x TableAndFile =
  tf_file :: 'x
  tf_table :: Table

text \<open>
  The environment, and the two caches with their virtual functions; \<open>tc_blocks\<close> is the cache of blocks of the options. \<open>tc_deleted\<close> are the keys
  and values that the cache of tables has called its deleter with between two of its states, in order.
\<close>

record ('w, 'x, 'h, 'c, 'bh, 'bc) TableCache =
  tc_env :: "('w, 'x) TableEnv"
  tc_dbname :: "byte list"
  tc_options :: Options
  tc_blocks :: "('bh, 'bc, Block) Cache option"
  tc_cache :: "('h, 'c, 'x TableAndFile) Cache"
  tc_deleted :: "'c \<Rightarrow> 'c \<Rightarrow> (slice \<times> 'x TableAndFile) list"

text \<open>The file under its name or its old name. An error leaves the pointer to the file null, or as the second call has set it.\<close>

definition open_table_file ::
    "('w, 'x, 'h, 'c, 'bh, 'bc) TableCache \<Rightarrow> uint64 \<Rightarrow> 'w \<Rightarrow> (status \<times> 'x option \<times> 'w) option" where
  "open_table_file T file_number w = do {
     fname \<leftarrow> TableFileName (tc_dbname T) file_number;
     (case vNewRandomAccessFile (tc_env T) fname w of
        (s, file, w) \<Rightarrow>
          if \<not> ok s then do {
            old_fname \<leftarrow> SSTTableFileName (tc_dbname T) file_number;
            (case vNewRandomAccessFile (tc_env T) old_fname w of
               (s2, file, w) \<Rightarrow> Some (if ok s2 then OK else s, file, w)) }
          else Some (s, file, w)) }"

definition delete_file_of :: "('w, 'x, 'h, 'c, 'bh, 'bc) TableCache \<Rightarrow> 'x option \<Rightarrow> 'w \<Rightarrow> 'w" where
  "delete_file_of T file w = (case file of None \<Rightarrow> w | Some x \<Rightarrow> vDelete (tc_env T) x w)"

text \<open>
  \<^verbatim>\<open>DeleteEntry\<close> deletes a table with its file; the cache has called it for each entry that it gave up. The calls do not depend on the state
  of the cache, and here they follow the operation of the cache that makes them.
\<close>

definition DeleteEntry :: "('w, 'x, 'h, 'c, 'bh, 'bc) TableCache \<Rightarrow> slice \<Rightarrow> 'x TableAndFile \<Rightarrow> 'w \<Rightarrow> 'w" where
  "DeleteEntry T key tf w = vDelete (tc_env T) (tf_file tf) w"

definition delete_entries :: "('w, 'x, 'h, 'c, 'bh, 'bc) TableCache \<Rightarrow> 'c \<Rightarrow> 'c \<Rightarrow> 'w \<Rightarrow> 'w" where
  "delete_entries T c c' w = foldl (\<lambda>w (key, tf). DeleteEntry T key tf w) w (tc_deleted T c c')"

text \<open>The constructor makes the cache, for as many open files as the options allow.\<close>

definition TableCache_new ::
    "('w, 'x) TableEnv \<Rightarrow> ('bh, 'bc, Block) Cache option \<Rightarrow> uint64 \<Rightarrow> 'x TableAndFile handles list \<Rightarrow> byte list \<Rightarrow> Options \<Rightarrow> int \<Rightarrow>
      (('w, 'x, handle, 'x TableAndFile ShardedLRUCache, 'bh, 'bc) TableCache \<times> 'x TableAndFile ShardedLRUCache) option" where
  "TableCache_new env blocks deleter ms dbname options n = do {
     c \<leftarrow> NewLRUCache ms (of_int n);
     Some (\<lparr>tc_env = env, tc_dbname = dbname, tc_options = options, tc_blocks = blocks, tc_cache = lru_cache next_malloc deleter,
       tc_deleted = cache_deleted\<rparr>, c) }"

text \<open>The status, the handle, and the states of the files, of the cache of blocks and of the cache of tables.\<close>

definition FindTable ::
    "('w, 'x, 'h, 'c, 'bh, 'bc) TableCache \<Rightarrow> uint64 \<Rightarrow> uint64 \<Rightarrow> 'w \<times> 'bc \<times> 'c \<Rightarrow> (status \<times> 'h option \<times> 'w \<times> 'bc \<times> 'c) option" where
  "FindTable T file_number file_size st =
     (case st of (w, b, c) \<Rightarrow>
        let key = EncodeFixed64 file_number in do {
          (handle, c') \<leftarrow> vLookup (tc_cache T) key c;
          let w = delete_entries T c c' w;
          (case handle of
             Some h \<Rightarrow> Some (OK, Some h, w, b, c')
           | None \<Rightarrow> do {
               (s, file, w) \<leftarrow> open_table_file T file_number w;
               (s, table, w, b) \<leftarrow>
                 (if ok s then
                    (case file of
                       None \<Rightarrow> None
                     | Some x \<Rightarrow> Table_Open (vAccess (tc_env T) x) (tc_blocks T) (tc_options T) file_size w b)
                  else Some (s, None, w, b));
               (case (if ok s then (file, table) else (None, None)) of
                  (Some x, Some t) \<Rightarrow> do {
                    (h, c'') \<leftarrow> vInsert (tc_cache T) key \<lparr>tf_file = x, tf_table = t\<rparr> 1 c';
                    Some (s, Some h, delete_entries T c' c'' w, b, c'') }
                | _ \<Rightarrow> Some (s, None, delete_file_of T file w, b, c')) }) })"

definition TableCache_Get ::
    "('w, 'x, 'h, 'c, 'bh, 'bc) TableCache \<Rightarrow> ReadOptions \<Rightarrow> uint64 \<Rightarrow> uint64 \<Rightarrow> slice \<Rightarrow> 'a \<Rightarrow> ('a \<Rightarrow> slice \<Rightarrow> slice \<Rightarrow> 'a) \<Rightarrow>
      'w \<times> 'bc \<times> 'c \<Rightarrow> (status \<times> 'a \<times> 'w \<times> 'bc \<times> 'c) option" where
  "TableCache_Get T ro file_number file_size k arg handle_result st = do {
     (s, handle, w, b, c) \<leftarrow> FindTable T file_number file_size st;
     (case (if ok s then handle else None) of
        None \<Rightarrow> Some (s, arg, w, b, c)
      | Some h \<Rightarrow> do {
          let tf = vValue (tc_cache T) h c;
          (s, arg, w, b) \<leftarrow> InternalGet (vAccess (tc_env T) (tf_file tf)) (tc_blocks T) (tf_table tf) ro k arg handle_result w b;
          let c' = vRelease (tc_cache T) h c;
          Some (s, arg, delete_entries T c c' w, b, c') }) }"

definition TableCache_Evict ::
    "('w, 'x, 'h, 'c, 'bh, 'bc) TableCache \<Rightarrow> (slice \<Rightarrow> 'c \<Rightarrow> 'c option) \<Rightarrow> uint64 \<Rightarrow> 'w \<times> 'c \<Rightarrow> ('w \<times> 'c) option" where
  "TableCache_Evict T erase file_number st =
     (case st of (w, c) \<Rightarrow> map_option (\<lambda>c'. (delete_entries T c c' w, c')) (erase (EncodeFixed64 file_number) c))"

section \<open>The contract\<close>

text \<open>
  \<open>grp\<close> are the entries of the table files by their numbers, as blocks. A file with that number exists, under one of its names, and
  has the image of the table.
\<close>

definition table_data :: "(byte list \<Rightarrow> byte list option) \<Rightarrow> byte list \<Rightarrow> uint64 \<Rightarrow> byte list option" where
  "table_data data dbname n = do {
     fname \<leftarrow> TableFileName dbname n;
     (case data fname of None \<Rightarrow> Option.bind (SSTTableFileName dbname n) data | Some d \<Rightarrow> Some d) }"

definition disk_tables ::
    "(slice \<Rightarrow> bool) \<Rightarrow> (slice \<Rightarrow> slice \<Rightarrow> int) \<Rightarrow> (byte list \<Rightarrow> byte list option) \<Rightarrow> byte list \<Rightarrow> Options \<Rightarrow> Options \<Rightarrow>
      (uint64 \<Rightarrow> kv list list option) \<Rightarrow> uint64 \<Rightarrow> uint64 \<Rightarrow> kv list \<Rightarrow> bool" where
  "disk_tables valid ucmp data dbname ropt opt grp n sz kvs \<longleftrightarrow>
     (\<exists>separator successor policy. db_options valid ucmp separator successor policy opt) \<and>
     opt_comparator ropt = opt_comparator opt \<and> opt_filter ropt = opt_filter opt \<and>
     (\<exists>bs. grp n = Some bs \<and> concat bs = kvs \<and> [] \<notin> set bs \<and> table_data data dbname n = Some (table_image opt bs) \<and>
        sz = of_nat (length (table_image opt bs)) \<and> length (table_image opt bs) < 2 ^ 32) \<and>
     sorted_wrt (\<lambda>a b. InternalKey_Compare ucmp (fst a) (fst b) < 0) kvs \<and> (\<forall>kv \<in> set kvs. internal_valid valid (fst kv))"

text \<open>
  The tables that the cache owns are the right ones, and the open files are theirs, with the bytes that the files have by the keys of their
  entries.
\<close>

definition right_table :: "Options \<Rightarrow> Options \<Rightarrow> (uint64 \<Rightarrow> kv list list option) \<Rightarrow> (uint64 \<Rightarrow> byte list option) \<Rightarrow>
    slice \<times> 'x TableAndFile \<Rightarrow> bool" where
  "right_table ropt opt grp td e \<longleftrightarrow> (\<forall>n bs. fst e = EncodeFixed64 n \<longrightarrow> grp n = Some bs \<longrightarrow> td n = Some (table_image opt bs) \<longrightarrow>
     length (table_image opt bs) < 2 ^ 32 \<longrightarrow> tf_table (snd e) = opened ropt opt 0 bs)"

definition entry_file :: "(uint64 \<Rightarrow> byte list option) \<Rightarrow> slice \<times> 'x TableAndFile \<Rightarrow> 'x \<times> byte list" where
  "entry_file td e = (tf_file (snd e), the (td (DecodeFixed64 (fst e))))"

definition tables_inv ::
    "Options \<Rightarrow> (uint64 \<Rightarrow> kv list list option) \<Rightarrow> (uint64 \<Rightarrow> byte list option) \<Rightarrow> ('w \<Rightarrow> ('x \<times> byte list) multiset \<Rightarrow> bool) \<Rightarrow>
      ('c \<Rightarrow> (slice \<times> 'x TableAndFile) multiset) \<Rightarrow> ('c \<Rightarrow> 'h multiset) \<Rightarrow> ('c \<Rightarrow> bool) \<Rightarrow> Options \<Rightarrow> 'h multiset \<Rightarrow> 'w \<times> 'bc \<times> 'c \<Rightarrow> bool" where
  "tables_inv opt grp td winv owned lent cinv ropt L st \<longleftrightarrow>
     (case st of (w, b, c) \<Rightarrow> cinv c \<and> lent c = L \<and> winv w (image_mset (entry_file td) (owned c)) \<and> (\<forall>e \<in># owned c. right_table ropt opt grp td e))"

lemma EncodeFixed64_inject: "EncodeFixed64 a = EncodeFixed64 b \<longleftrightarrow> a = b"
  by (metis DecodeFixed64_Encode append_Nil2)

lemma DecodeFixed64_key [simp]: "DecodeFixed64 (EncodeFixed64 n) = n"
  by (metis DecodeFixed64_Encode append_Nil2)

lemma open_table_file_ok:
  assumes E: "env_files (tc_env T) data winv" and w: "winv w M" and d: "table_data data (tc_dbname T) n = Some d" "d \<noteq> []"
  shows "\<exists>x w'. open_table_file T n w = Some (OK, Some x, w') \<and> winv w' (add_mset (x, d) M)"
proof -
  obtain name where name: "TableFileName (tc_dbname T) n = Some name" using d(1) by (auto simp: table_data_def split: bind_splits)
  show ?thesis
  proof (cases "data name")
    case (Some d')
    then have "d' = d" using d(1) name by (simp add: table_data_def)
    then show ?thesis using env_files.open_file [OF E w Some] d(2) name by (auto simp: open_table_file_def)
  next
    case None
    obtain s w1 where 1: "vNewRandomAccessFile (tc_env T) name w = (s, None, w1)" "\<not> ok s" "winv w1 M" using env_files.no_file [OF E w None] by blast
    obtain old where old: "SSTTableFileName (tc_dbname T) n = Some old" "data old = Some d"
      using d(1) name None by (auto simp: table_data_def split: bind_splits)
    obtain x w2 where "vNewRandomAccessFile (tc_env T) old w1 = (OK, Some x, w2)" "winv w2 (add_mset (x, d) M)"
      using env_files.open_file [OF E 1(3) old(2) d(2)] by blast
    then show ?thesis using 1 old(1) name by (auto simp: open_table_file_def)
  qed
qed

text \<open>The deleter closes the files of the entries that the cache gives up, and no others.\<close>

lemma delete_entries_inv:
  assumes E: "env_files (tc_env T) data winv" and w: "winv w (image_mset (entry_file td) A)" and A: "A = B + mset (tc_deleted T c c')"
  shows "winv (delete_entries T c c' w) (image_mset (entry_file td) B)"
proof -
  have "winv (foldl (\<lambda>w (key, tf). DeleteEntry T key tf w) w ds) (image_mset (entry_file td) B)"
    if "winv w (image_mset (entry_file td) (B + mset ds))" for ds w
    using that
  proof (induction ds arbitrary: w)
    case (Cons e ds)
    have "winv w (add_mset (tf_file (snd e), the (td (DecodeFixed64 (fst e)))) (image_mset (entry_file td) (B + mset ds)))"
      using Cons.prems by (simp add: entry_file_def [of _ e])
    from Cons.IH [OF env_files.delete [OF E this]] show ?case by (simp add: DeleteEntry_def split_beta)
  qed simp
  then show ?thesis using w A by (simp add: delete_entries_def)
qed

lemma table_image_nonempty: "table_image opt bs \<noteq> []"
  using length_table_image [of opt bs] by auto

lemma FindTable_ok:
  assumes E: "env_files (tc_env T) data winv" and C: "owning_cache (tc_cache T) cholds lent cinv owned (tc_deleted T)" and nb: "tc_blocks T = None"
    and dt: "disk_tables valid ucmp data (tc_dbname T) (tc_options T) opt grp n sz kvs"
    and i: "tables_inv opt grp (table_data data (tc_dbname T)) winv owned lent cinv (tc_options T) L (w, b, c)"
  shows "\<exists>h w' b' c'. FindTable T n sz (w, b, c) = Some (OK, Some h, w', b', c') \<and>
    tables_inv opt grp (table_data data (tc_dbname T)) winv owned lent cinv (tc_options T) (add_mset h L) (w', b', c') \<and>
    (EncodeFixed64 n, vValue (tc_cache T) h c') \<in># owned c'"
proof -
  let ?td = "table_data data (tc_dbname T)" and ?cv = "tc_cache T" and ?ropt = "tc_options T" and ?key = "EncodeFixed64 n"
  note V = owning_cache.axioms(1) [OF C]
  have inv: "winv w (image_mset (entry_file ?td) (owned c))" "cinv c" "lent c = L" "\<forall>e \<in># owned c. right_table ?ropt opt grp ?td e"
    using i by (simp_all add: tables_inv_def)
  obtain bs where bs: "grp n = Some bs" "?td n = Some (table_image opt bs)" "sz = of_nat (length (table_image opt bs))"
    "length (table_image opt bs) < 2 ^ 32" and opts: "opt_filter ?ropt = opt_filter opt" and K: "0 < block_restart_interval opt"
    using dt by (auto simp: disk_tables_def db_options_def)
  obtain r c1 where l: "vLookup ?cv ?key c = Some (r, c1)" and c1: "cinv c1"
    and r: "case r of None \<Rightarrow> lent c1 = lent c | Some h \<Rightarrow> lent c1 = add_mset h (lent c) \<and> cholds c ?key (vValue ?cv h c1)"
    using value_cache.lookup [OF V inv(2), of ?key] by (elim exE conjE) (rule that, blast+)
  have o1: "owned c = owned c1 + mset (tc_deleted T c c1)" "\<And>h. r = Some h \<Longrightarrow> (?key, vValue ?cv h c1) \<in># owned c1"
    using owning_cache.lookup_owned [OF C inv(2) l] by simp_all
  let ?w1 = "delete_entries T c c1 w"
  have w1: "winv ?w1 (image_mset (entry_file ?td) (owned c1))" by (rule delete_entries_inv [OF E inv(1) o1(1)])
  have rt1: "\<forall>e \<in># owned c1. right_table ?ropt opt grp ?td e" using inv(4) o1(1) by simp
  show ?thesis
  proof (cases r)
    case (Some h)
    then have "FindTable T n sz (w, b, c) = Some (OK, Some h, ?w1, b, c1)" using l by (simp add: FindTable_def Let_def)
    moreover have "tables_inv opt grp ?td winv owned lent cinv ?ropt (add_mset h L) (?w1, b, c1)"
      using inv(3) c1 r Some w1 rt1 by (simp add: tables_inv_def)
    ultimately show ?thesis using o1(2) Some by blast
  next
    case None
    obtain x w2 where o: "open_table_file T n ?w1 = Some (OK, Some x, w2)"
      "winv w2 (add_mset (x, table_image opt bs) (image_mset (entry_file ?td) (owned c1)))"
      using open_table_file_ok [OF E w1 bs(2) table_image_nonempty] by blast
    let ?M = "add_mset (x, table_image opt bs) (image_mset (entry_file ?td) (owned c1))"
    have fits: "table_fits opt bs" using bs(4) K by (simp add: table_fits_def)
    have x: "(x, table_image opt bs) \<in># ?M" by simp
    obtain w3 where t: "Table_Open (vAccess (tc_env T) x) (None :: ('e, 'f, Block) Cache option) ?ropt sz w2 b =
        Some (OK, Some (opened ?ropt opt 0 bs), w3, b)" "winv w3 ?M"
      using random_access_file.Table_Open_image [OF env_files.open_random_access [OF E x] o(2) HOL.refl fits opts, of None b] unfolding bs(3) by auto
    let ?tf = "\<lparr>tf_file = x, tf_table = opened ?ropt opt 0 bs\<rparr>"
    obtain h c2 where h: "vInsert ?cv ?key ?tf 1 c1 = Some (h, c2)" "cinv c2" "lent c2 = add_mset h (lent c1)" "vValue ?cv h c2 = ?tf"
      using value_cache.insert [OF V c1, of ?key ?tf 1] by blast
    have o2: "add_mset (?key, ?tf) (owned c1) = owned c2 + mset (tc_deleted T c1 c2)" "(?key, ?tf) \<in># owned c2"
      using owning_cache.insert_owned [OF C c1 h(1)] by simp_all
    have M: "?M = image_mset (entry_file ?td) (add_mset (?key, ?tf) (owned c1))" using bs(2) by (simp add: entry_file_def)
    let ?w4 = "delete_entries T c1 c2 w3"
    have w4: "winv ?w4 (image_mset (entry_file ?td) (owned c2))" by (rule delete_entries_inv [OF E t(2) [unfolded M] o2(1)])
    have "right_table ?ropt opt grp ?td (?key, ?tf)" using bs(1) by (simp add: right_table_def EncodeFixed64_inject)
    then have "\<forall>e \<in># add_mset (?key, ?tf) (owned c1). right_table ?ropt opt grp ?td e" using rt1 by simp
    then have "\<forall>e \<in># owned c2. right_table ?ropt opt grp ?td e" unfolding o2(1) by simp
    then have "tables_inv opt grp ?td winv owned lent cinv ?ropt (add_mset h L) (?w4, b, c2)"
      using w4 h(2,3) r None inv(3) by (simp add: tables_inv_def)
    moreover have "FindTable T n sz (w, b, c) = Some (OK, Some h, ?w4, b, c2)"
      using l None o(1) t(1) h(1) nb by (simp add: FindTable_def Let_def)
    ultimately show ?thesis using o2(2) h(4) by auto
  qed
qed

lemma TableCache_Get_ok:
  assumes E: "env_files (tc_env T) data winv" and C: "owning_cache (tc_cache T) cholds lent cinv owned (tc_deleted T)" and nb: "tc_blocks T = None"
    and dt: "disk_tables valid ucmp data (tc_dbname T) (tc_options T) opt grp n sz kvs" and k: "internal_valid valid k"
    and i: "tables_inv opt grp (table_data data (tc_dbname T)) winv owned lent cinv (tc_options T) L st"
  shows "\<exists>q st'. TableCache_Get T ro n sz k sv hr st = Some (OK, (case q of None \<Rightarrow> sv | Some kv \<Rightarrow> hr sv (fst kv) (snd kv)), st') \<and>
    tables_inv opt grp (table_data data (tc_dbname T)) winv owned lent cinv (tc_options T) L st' \<and> found ucmp kvs k q"
proof -
  let ?td = "table_data data (tc_dbname T)" and ?cv = "tc_cache T" and ?ropt = "tc_options T"
  obtain w b c where st: "st = (w, b, c)" by (cases st)
  obtain h w1 b1 c1 where f: "FindTable T n sz (w, b, c) = Some (OK, Some h, w1, b1, c1)"
    "tables_inv opt grp ?td winv owned lent cinv ?ropt (add_mset h L) (w1, b1, c1)"
    "(EncodeFixed64 n, vValue ?cv h c1) \<in># owned c1" using FindTable_ok [OF E C nb dt i [unfolded st]] by blast
  obtain bs separator successor policy where bs: "grp n = Some bs" "?td n = Some (table_image opt bs)" "length (table_image opt bs) < 2 ^ 32"
    and d: "db_options valid ucmp separator successor policy opt" and same: "opt_comparator ?ropt = opt_comparator opt" "opt_filter ?ropt = opt_filter opt"
    and kvs: "concat bs = kvs" "[] \<notin> set bs" "sorted_wrt (\<lambda>a b. InternalKey_Compare ucmp (fst a) (fst b) < 0) kvs"
      "\<forall>kv \<in> set kvs. internal_valid valid (fst kv)" using dt by (auto simp: disk_tables_def)
  let ?tf = "vValue ?cv h c1" and ?M = "image_mset (entry_file ?td) (owned c1)"
  have inv: "winv w1 ?M" "cinv c1" "lent c1 = add_mset h L" "\<forall>e \<in># owned c1. right_table ?ropt opt grp ?td e" using f(2) by (simp_all add: tables_inv_def)
  have tf: "tf_table ?tf = opened ?ropt opt 0 bs" using bspec [OF inv(4) f(3)] bs by (simp add: right_table_def)
  have x: "(tf_file ?tf, table_image opt bs) \<in># ?M" using imageI [OF f(3), of "entry_file ?td"] bs(2) by (simp add: entry_file_def)
  have im: "image_in (\<lambda>_. table_image opt bs) (\<lambda>w. winv w ?M) ?ropt opt bs w1 \<and> {#} = ({#} :: 'e multiset)"
    using bs(3) same d inv(1) by (simp add: image_in_def table_fits_def db_options_def)
  note B = random_access_file.blocks_from_file [OF env_files.open_random_access [OF E x], of ?ropt opt 0 bs ro]
  obtain q w2 b2 where q: "InternalGet (vAccess (tc_env T) (tf_file ?tf)) (None :: ('e, 'f, Block) Cache option) (opened ?ropt opt 0 bs) ro k sv hr w1 b1 =
      Some (OK, (case q of None \<Rightarrow> sv | Some kv \<Rightarrow> hr sv (fst kv) (snd kv)), w2, b2)"
    "image_in (\<lambda>_. table_image opt bs) (\<lambda>w. winv w ?M) ?ropt opt bs w2" "found ucmp kvs k q"
    using block_source.internal_get [OF B d kvs k im, of sv hr b1] by (elim exE conjE) (rule that)
  have w2: "winv w2 ?M" using q(2) by (simp add: image_in_def)
  have m: "h \<in># lent c1" using inv(3) by simp
  let ?c2 = "vRelease ?cv h c1"
  have R: "cinv ?c2" "lent ?c2 = lent c1 - {#h#}" using value_cache.release [OF owning_cache.axioms(1) [OF C] inv(2) m HOL.refl] by simp_all
  have o2: "owned c1 = owned ?c2 + mset (tc_deleted T c1 ?c2)" using owning_cache.release_owned [OF C inv(2) m] by simp
  let ?w3 = "delete_entries T c1 ?c2 w2"
  have w3: "winv ?w3 (image_mset (entry_file ?td) (owned ?c2))" by (rule delete_entries_inv [OF E w2 o2])
  have "TableCache_Get T ro n sz k sv hr st = Some (OK, (case q of None \<Rightarrow> sv | Some kv \<Rightarrow> hr sv (fst kv) (snd kv)), ?w3, b2, ?c2)"
    using f(1) q(1) tf nb by (simp add: TableCache_Get_def st Let_def)
  moreover have "\<forall>e \<in># owned ?c2. right_table ?ropt opt grp ?td e" using inv(4) unfolding o2 by simp
  then have "tables_inv opt grp ?td winv owned lent cinv ?ropt L (?w3, b2, ?c2)" using R w3 inv(3) by (simp add: tables_inv_def)
  ultimately show ?thesis using q(3) by blast
qed

text \<open>So the cache keeps the contract of lookups in table files.\<close>

lemma table_cache_files:
  assumes "user_order valid ucmp" "env_files (tc_env T) data winv" "owning_cache (tc_cache T) cholds lent cinv owned (tc_deleted T)" "tc_blocks T = None"
  shows "table_files valid ucmp (TableCache_Get T ro)
    (tables_inv opt grp (table_data data (tc_dbname T)) winv owned lent cinv (tc_options T) L)
    (disk_tables valid ucmp data (tc_dbname T) (tc_options T) opt grp)"
proof (rule table_files.intro [OF assms(1)], rule table_files_axioms.intro, goal_cases)
  case (1 w n sz kvs k sv hr)
  then show ?case using TableCache_Get_ok [OF assms(2-4) 1(2,3,1), of ro sv hr] by blast
qed

definition posix_tables ::
    "'os env_sys \<Rightarrow> uint64 \<Rightarrow> byte list \<Rightarrow> Options \<Rightarrow> ('os PosixEnv, PosixReadable, handle, PosixReadable TableAndFile ShardedLRUCache, 'bh, 'bc) TableCache" where
  "posix_tables sys deleter dbname ropt =
     \<lparr>tc_env = posix_env sys, tc_dbname = dbname, tc_options = ropt, tc_blocks = None, tc_cache = lru_cache next_malloc deleter,
      tc_deleted = cache_deleted\<rparr>"

definition posix_tables_inv where
  "posix_tables_inv sys data I fds maps most fd_most dbname ropt opt grp L =
     tables_inv opt grp (table_data data dbname) (posix_inv sys data I fds maps most fd_most) cache_owned cache_lent cache_ok ropt L"

lemma posix_table_files:
  assumes "user_order valid ucmp"
  shows "table_files valid ucmp (TableCache_Get (posix_tables sys deleter dbname ropt :: (_, _, _, _, 'bh, 'bc) TableCache) ro)
    (posix_tables_inv sys data I fds maps most fd_most dbname ropt opt grp L)
    (disk_tables valid ucmp data dbname ropt opt grp)"
proof -
  let ?T = "posix_tables sys deleter dbname ropt :: (_, _, _, _, 'bh, 'bc) TableCache"
  have T: "tc_env ?T = posix_env sys" "tc_cache ?T = lru_cache next_malloc deleter" "tc_blocks ?T = None" "tc_dbname ?T = dbname" "tc_options ?T = ropt"
    "tc_deleted ?T = cache_deleted" by (simp_all add: posix_tables_def)
  have "env_files (tc_env ?T) data (posix_inv sys data I fds maps most fd_most)" unfolding T by (rule posix_env_files)
  moreover have "owning_cache (tc_cache ?T) cache_holds cache_lent cache_ok cache_owned (tc_deleted ?T)"
    unfolding T by (rule lru_cache_owns [OF next_malloc_fresh])
  ultimately show ?thesis using table_cache_files [OF assms, of ?T] T by (simp add: posix_tables_inv_def)
qed

interpretation posix_cached: table_files "\<lambda>_. True" slice_compare "TableCache_Get (posix_tables sys deleter dbname ropt) ro"
  "posix_tables_inv sys data I fds maps most fd_most dbname ropt opt grp L" "disk_tables (\<lambda>_. True) slice_compare data dbname ropt opt grp"
  for sys deleter dbname ropt ro data I fds maps most fd_most opt grp L
  by (rule posix_table_files [OF bytewise_table.user_order_axioms])

end
