(* ===== verification/Ldb_Version_Files.thy ===== *)
theory Ldb_Version_Files
  imports Ldb_Table_Cache
begin

text \<open>
  Lookups in the table files of a version, through a new table cache on posix files: \<^verbatim>\<open>Version::Get\<close> of \<^verbatim>\<open>leveldb-library/db/version_set.cc\<close> over
  \<^verbatim>\<open>TableCache::Get\<close> over \<^verbatim>\<open>Table::InternalGet\<close> over the files, and what it promises as one map with versions.
\<close>

section \<open>Lookups one after the other\<close>



section \<open>The answers\<close>




























section \<open>Overlapping files\<close>

text \<open>
  C9: The files that overlap a range are found completely. For a range of keys that may be open at either end, the search by level reports
  whether a file of the level overlaps it, with the binary search on levels of disjoint files as with the scan on level zero, and
  \<^verbatim>\<open>GetOverlappingInputs\<close> returns: with the files that overlap the range, and on level zero, where it starts again with a larger range, with
  exactly those that overlap it or are linked with it through files that overlap each other, in the order of the level.
\<close>

theorem overlapping_inputs:
  assumes "user_order valid compare" "version_ok valid compare h v" "level < nat kNumLevels"
    and k: "\<forall>k \<in> set_option b \<union> set_option e. internal_valid valid k"
  shows "GetOverlappingInputs compare h v level b e = Some (filter
      (if level = 0 then linked compare h (v_files v ! level) (map_option ExtractUserKey b) (map_option ExtractUserKey e)
       else overlaps compare h (map_option ExtractUserKey b) (map_option ExtractUserKey e)) (v_files v ! level)) \<and>
    OverlapInLevel compare h v level (map_option ExtractUserKey b) (map_option ExtractUserKey e) =
      Some (\<exists>f \<in> set (v_files v ! level). overlaps compare h (map_option ExtractUserKey b) (map_option ExtractUserKey e) f)"
proof
  note l = version_ok_level [OF assms(2,3)]
  show "GetOverlappingInputs compare h v level b e = Some (filter
      (if level = 0 then linked compare h (v_files v ! level) (map_option ExtractUserKey b) (map_option ExtractUserKey e)
       else overlaps compare h (map_option ExtractUserKey b) (map_option ExtractUserKey e)) (v_files v ! level))"
    by (rule user_order.GetOverlappingInputs_files [OF assms(1) l(2) k])
  have "\<forall>k \<in> set_option (map_option ExtractUserKey b) \<union> set_option (map_option ExtractUserKey e). valid k"
    using k by (auto simp: internal_valid_def)
  then show "OverlapInLevel compare h v level (map_option ExtractUserKey b) (map_option ExtractUserKey e) =
      Some (\<exists>f \<in> set (v_files v ! level). overlaps compare h (map_option ExtractUserKey b) (map_option ExtractUserKey e) f)"
    by (rule user_order.OverlapInLevel_iff [OF assms(1-3)])
qed

text \<open>Three files that share their ends.\<close>

definition chain_files :: metas where
  "chain_files f = \<lparr>fm_refs = 1, allowed_seeks = 100, fm_number = of_nat f, fm_size = 4096,
     smallest = AppendInternalKey [] [of_nat (2 * f)] 9 kTypeValue, largest = AppendInternalKey [] [of_nat (2 * f + 2)] 1 kTypeValue\<rparr>"

definition chain_version :: Version where
  "chain_version = Version_new\<lparr>v_files := [[0, 1, 2], [0, 3], [], [], [], [], []]\<rparr>"

lemma chain_version_ok: "version_ok (\<lambda>_. True) slice_compare chain_files chain_version"
proof -
  have k: "key_ok (\<lambda>_. True) (smallest (chain_files f))" "key_ok (\<lambda>_. True) (largest (chain_files f))" for f
    unfolding key_ok_def chain_files_def
    by (rule exI, rule exI [of _ 9], rule exI [of _ kTypeValue], simp add: kMaxSequenceNumber_def)
      (rule exI, rule exI [of _ 1], rule exI [of _ kTypeValue], simp add: kMaxSequenceNumber_def)
  have "InternalKey_Compare slice_compare (smallest (chain_files f)) (largest (chain_files f)) \<le> 0" if "f \<in> {0, 1, 2, 3}" for f
    using that by (elim insertE emptyE; simp only:; code_simp)
  moreover have "InternalKey_Compare slice_compare (largest (chain_files 0)) (smallest (chain_files 3)) < 0" by code_simp
  ultimately show ?thesis using k by (simp add: version_ok_def chain_version_def file_ok_def files_disjoint_def kNumLevels_def)
qed

theorem overlapping_inputs_witness:
  "GetOverlappingInputs slice_compare chain_files chain_version 0 (Some (AppendInternalKey [] [0] 5 kTypeValue)) (Some (AppendInternalKey [] [1] 5 kTypeValue)) =
     Some [0, 1, 2] \<and>
   GetOverlappingInputs slice_compare chain_files chain_version 1 None (Some (AppendInternalKey [] [1] 5 kTypeValue)) = Some [0] \<and>
   OverlapInLevel slice_compare chain_files chain_version 1 (Some [4]) (Some [5]) = Some False"
proof -
  let ?b = "Some (AppendInternalKey [] [0] 5 kTypeValue)" and ?e = "Some (AppendInternalKey [] [1] 5 kTypeValue)"
  have iv: "internal_valid (\<lambda>_. True) (AppendInternalKey [] [x] 5 kTypeValue)" for x by (simp add: internal_valid_def AppendInternalKey_def PutFixed64_def)
  have u: "ExtractUserKey (AppendInternalKey [] [x] 5 kTypeValue) = [x]" for x by simp
  have l: "linked slice_compare chain_files [0, 1, 2] (Some [0]) (Some [1]) f" if "f \<in> {0, 1, 2}" for f
  proof -
    have "overlaps slice_compare chain_files (Some [0]) (Some [1]) 0" by code_simp
    then have 0: "linked slice_compare chain_files [0, 1, 2] (Some [0]) (Some [1]) 0" by (simp add: linked.in_range)
    have "overlaps slice_compare chain_files (Some (file_start chain_files 0)) (Some (file_limit chain_files 0)) 1" by code_simp
    then have 1: "linked slice_compare chain_files [0, 1, 2] (Some [0]) (Some [1]) 1" using linked.next_to [OF 0] by simp
    have "overlaps slice_compare chain_files (Some (file_start chain_files 1)) (Some (file_limit chain_files 1)) 2" by code_simp
    then show ?thesis using linked.next_to [OF 1] 0 1 that by auto
  qed
  have o: "overlaps slice_compare chain_files None (Some [1]) 0" "\<not> overlaps slice_compare chain_files None (Some [1]) 3"
    "\<not> overlaps slice_compare chain_files (Some [4]) (Some [5]) 0" "\<not> overlaps slice_compare chain_files (Some [4]) (Some [5]) 3" by code_simp+
  have v: "v_files chain_version = [[0, 1, 2], [0, 3], [], [], [], [], []]" by (simp add: chain_version_def)
  note T = overlapping_inputs [OF bytewise_table.user_order_axioms chain_version_ok]
  have "GetOverlappingInputs slice_compare chain_files chain_version 0 ?b ?e = Some [0, 1, 2]"
    using T [of 0 ?b ?e] l iv by (simp add: v kNumLevels_def)
  moreover have "GetOverlappingInputs slice_compare chain_files chain_version 1 None ?e = Some [0]"
    using T [of 1 None ?e] iv o by (simp add: v kNumLevels_def)
  moreover have "OverlapInLevel slice_compare chain_files chain_version 1 (Some [4]) (Some [5]) = Some False"
    using T [of 1 "Some (AppendInternalKey [] [4] 5 kTypeValue)" "Some (AppendInternalKey [] [5] 5 kTypeValue)"] iv o by (simp add: v kNumLevels_def)
  ultimately show ?thesis by blast
qed

end
