(* ===== verification/Ldb_Compaction.thy ===== *)
theory Ldb_Compaction
  imports Ldb_Version_Search
begin

text \<open>
  \<^verbatim>\<open>leveldb-library/db/version_set.h\<close> and \<^verbatim>\<open>version_set.cc\<close>, class \<^verbatim>\<open>Compaction\<close> and the choice of its inputs by \<^verbatim>\<open>VersionSet\<close>, and from
  \<^verbatim>\<open>DBImpl::DoCompactionWork\<close> of \<^verbatim>\<open>db_impl.cc\<close> which entries a compaction drops. None: a loop does not end.
\<close>

section \<open>Compactions\<close>

text \<open>The version that is compacted is an argument of the functions that use it.\<close>

record Compaction =
  c_level :: nat
  max_output_file_size :: uint64
  c_edit :: VersionEdit
  c_inputs0 :: "nat list"
  c_inputs1 :: "nat list"
  grandparents :: "nat list"
  grandparent_index :: nat
  seen_key :: bool
  overlapped_bytes :: uint64
  level_ptrs :: "nat list"

definition Compaction_new :: "DBOptions \<Rightarrow> nat \<Rightarrow> Compaction" where
  "Compaction_new opt level =
     \<lparr>c_level = level, max_output_file_size = MaxFileSizeForLevel opt level, c_edit = VersionEdit_new, c_inputs0 = [], c_inputs1 = [],
      grandparents = [], grandparent_index = 0, seen_key = False, overlapped_bytes = 0, level_ptrs = replicate (nat kNumLevels) 0\<rparr>"

definition IsTrivialMove :: "DBOptions \<Rightarrow> metas \<Rightarrow> Compaction \<Rightarrow> bool" where
  "IsTrivialMove opt h c \<longleftrightarrow> length (c_inputs0 c) = 1 \<and> length (c_inputs1 c) = 0 \<and>
     TotalFileSize h (grandparents c) <=s MaxGrandParentOverlapBytes opt"

definition AddInputDeletions :: "metas \<Rightarrow> Compaction \<Rightarrow> VersionEdit \<Rightarrow> VersionEdit" where
  "AddInputDeletions h c e =
     (let e = foldl (\<lambda>e f. VersionEdit_DeleteFile (int (c_level c)) (fm_number (h f)) e) e (c_inputs0 c)
      in foldl (\<lambda>e f. VersionEdit_DeleteFile (int (c_level c) + 1) (fm_number (h f)) e) e (c_inputs1 c))"

text \<open>The loops of \<^verbatim>\<open>IsBaseLevelForKey\<close>: over the files of a level from where the last call stopped, and over the levels.\<close>

function base_files :: "(slice \<Rightarrow> slice \<Rightarrow> int) \<Rightarrow> metas \<Rightarrow> slice \<Rightarrow> nat list \<Rightarrow> nat \<Rightarrow> bool \<times> nat" where
  "base_files ucmp h user_key files p =
     (if p < length files then
        if ucmp user_key (file_limit h (files ! p)) \<le> 0 then (ucmp user_key (file_start h (files ! p)) \<ge> 0, p)
        else base_files ucmp h user_key files (p + 1)
      else (False, p))"
  by pat_completeness auto
termination by (relation "measure (\<lambda>(ucmp, h, user_key, files, p). length files - p)") auto

declare base_files.simps [simp del]

fun base_levels :: "(slice \<Rightarrow> slice \<Rightarrow> int) \<Rightarrow> metas \<Rightarrow> Version \<Rightarrow> slice \<Rightarrow> nat list \<Rightarrow> nat list \<Rightarrow> bool \<times> nat list" where
  "base_levels ucmp h v user_key [] ptrs = (True, ptrs)"
| "base_levels ucmp h v user_key (lvl # lvls) ptrs =
     (case base_files ucmp h user_key (v_files v ! lvl) (ptrs ! lvl) of
        (True, p) \<Rightarrow> (False, ptrs[lvl := p])
      | (False, p) \<Rightarrow> base_levels ucmp h v user_key lvls (ptrs[lvl := p]))"

definition IsBaseLevelForKey :: "(slice \<Rightarrow> slice \<Rightarrow> int) \<Rightarrow> metas \<Rightarrow> Version \<Rightarrow> slice \<Rightarrow> Compaction \<Rightarrow> bool \<times> Compaction" where
  "IsBaseLevelForKey ucmp h v user_key c =
     (case base_levels ucmp h v user_key [c_level c + 2..<nat kNumLevels] (level_ptrs c) of (base, ptrs) \<Rightarrow> (base, c\<lparr>level_ptrs := ptrs\<rparr>))"

function skip_grandparents :: "(slice \<Rightarrow> slice \<Rightarrow> int) \<Rightarrow> metas \<Rightarrow> slice \<Rightarrow> nat list \<Rightarrow> bool \<Rightarrow> nat \<Rightarrow> uint64 \<Rightarrow> nat \<times> uint64" where
  "skip_grandparents ucmp h ikey files seen i bytes =
     (if i < length files \<and> InternalKey_Compare ucmp ikey (largest (h (files ! i))) > 0
      then skip_grandparents ucmp h ikey files seen (i + 1) (if seen then bytes + fm_size (h (files ! i)) else bytes)
      else (i, bytes))"
  by pat_completeness auto
termination by (relation "measure (\<lambda>(ucmp, h, ikey, files, seen, i, bytes). length files - i)") auto

declare skip_grandparents.simps [simp del]

definition ShouldStopBefore :: "DBOptions \<Rightarrow> (slice \<Rightarrow> slice \<Rightarrow> int) \<Rightarrow> metas \<Rightarrow> slice \<Rightarrow> Compaction \<Rightarrow> bool \<times> Compaction" where
  "ShouldStopBefore opt ucmp h ikey c =
     (case skip_grandparents ucmp h ikey (grandparents c) (seen_key c) (grandparent_index c) (overlapped_bytes c) of
        (i, bytes) \<Rightarrow>
          let c = c\<lparr>grandparent_index := i, overlapped_bytes := bytes, seen_key := True\<rparr> in
          if MaxGrandParentOverlapBytes opt <s overlapped_bytes c then (True, c\<lparr>overlapped_bytes := 0\<rparr>) else (False, c))"

section \<open>Ranges and boundaries\<close>

text \<open>
  The smallest and the largest key. The assertion of \<^verbatim>\<open>GetRange\<close> that there are files is not repeated: every use here has at least one, and
  for none both keys would be empty. Nor is that of \<^verbatim>\<open>InternalKey::Encode\<close>: the files of a version have keys that are not empty.
\<close>

definition widen :: "(slice \<Rightarrow> slice \<Rightarrow> int) \<Rightarrow> metas \<Rightarrow> slice \<times> slice \<Rightarrow> nat \<Rightarrow> slice \<times> slice" where
  "widen ucmp h r f =
     ((if InternalKey_Compare ucmp (smallest (h f)) (fst r) < 0 then smallest (h f) else fst r),
      (if InternalKey_Compare ucmp (largest (h f)) (snd r) > 0 then largest (h f) else snd r))"

fun GetRange :: "(slice \<Rightarrow> slice \<Rightarrow> int) \<Rightarrow> metas \<Rightarrow> nat list \<Rightarrow> slice \<times> slice" where
  "GetRange ucmp h [] = ([], [])"
| "GetRange ucmp h (f # fs) = foldl (widen ucmp h) (smallest (h f), largest (h f)) fs"

definition GetRange2 :: "(slice \<Rightarrow> slice \<Rightarrow> int) \<Rightarrow> metas \<Rightarrow> nat list \<Rightarrow> nat list \<Rightarrow> slice \<times> slice" where
  "GetRange2 ucmp h inputs1 inputs2 = GetRange ucmp h (inputs1 @ inputs2)"

fun FindLargestKey :: "(slice \<Rightarrow> slice \<Rightarrow> int) \<Rightarrow> metas \<Rightarrow> nat list \<Rightarrow> slice option" where
  "FindLargestKey ucmp h [] = None"
| "FindLargestKey ucmp h (f # fs) =
     Some (foldl (\<lambda>key f. if InternalKey_Compare ucmp (largest (h f)) key > 0 then largest (h f) else key) (largest (h f)) fs)"

definition boundary_step :: "(slice \<Rightarrow> slice \<Rightarrow> int) \<Rightarrow> metas \<Rightarrow> slice \<Rightarrow> nat option \<Rightarrow> nat \<Rightarrow> nat option" where
  "boundary_step ucmp h largest_key best f =
     (if InternalKey_Compare ucmp (smallest (h f)) largest_key > 0 \<and> ucmp (file_start h f) (ExtractUserKey largest_key) = 0
      then (case best of
              None \<Rightarrow> Some f
            | Some g \<Rightarrow> if InternalKey_Compare ucmp (smallest (h f)) (smallest (h g)) < 0 then Some f else Some g)
      else best)"

definition FindSmallestBoundaryFile :: "(slice \<Rightarrow> slice \<Rightarrow> int) \<Rightarrow> metas \<Rightarrow> nat list \<Rightarrow> slice \<Rightarrow> nat option" where
  "FindSmallestBoundaryFile ucmp h level_files largest_key = foldl (boundary_step ucmp h largest_key) None level_files"

partial_function (option) boundary_loop ::
    "(slice \<Rightarrow> slice \<Rightarrow> int) \<Rightarrow> metas \<Rightarrow> nat list \<Rightarrow> nat list \<Rightarrow> slice \<Rightarrow> nat list option" where
  "boundary_loop ucmp h level_files compaction_files largest_key =
     (case FindSmallestBoundaryFile ucmp h level_files largest_key of
        None \<Rightarrow> Some compaction_files
      | Some f \<Rightarrow> boundary_loop ucmp h level_files (compaction_files @ [f]) (largest (h f)))"

definition AddBoundaryInputs :: "(slice \<Rightarrow> slice \<Rightarrow> int) \<Rightarrow> metas \<Rightarrow> nat list \<Rightarrow> nat list \<Rightarrow> nat list option" where
  "AddBoundaryInputs ucmp h level_files compaction_files =
     (case FindLargestKey ucmp h compaction_files of
        None \<Rightarrow> Some compaction_files
      | Some key \<Rightarrow> boundary_loop ucmp h level_files compaction_files key)"

section \<open>The inputs of a compaction\<close>

text \<open>
  The attempt to take more files of the level without more files of the next: the inputs and the largest key of the level, and the range
  of all inputs. The log message is left out.
\<close>

type_synonym chosen = "nat list \<times> nat list \<times> slice \<times> slice \<times> slice"

definition expand_inputs :: "DBOptions \<Rightarrow> (slice \<Rightarrow> slice \<Rightarrow> int) \<Rightarrow> metas \<Rightarrow> Version \<Rightarrow> nat \<Rightarrow> chosen \<Rightarrow> chosen option" where
  "expand_inputs opt ucmp h v level ch =
     (case ch of (inputs0, inputs1, large, all_start, all_limit) \<Rightarrow>
        if inputs1 = [] then Some ch
        else do {
          expanded0 \<leftarrow> GetOverlappingInputs ucmp h v level (Some all_start) (Some all_limit);
          expanded0 \<leftarrow> AddBoundaryInputs ucmp h (v_files v ! level) expanded0;
          if length expanded0 > length inputs0 \<and>
             TotalFileSize h inputs1 + TotalFileSize h expanded0 <s ExpandedCompactionByteSizeLimit opt
          then (case GetRange ucmp h expanded0 of (new_start, new_limit) \<Rightarrow> do {
                  expanded1 \<leftarrow> GetOverlappingInputs ucmp h v (level + 1) (Some new_start) (Some new_limit);
                  if length expanded1 = length inputs1
                  then (case GetRange2 ucmp h expanded0 expanded1 of
                          (all_start, all_limit) \<Rightarrow> Some (expanded0, expanded1, new_limit, all_start, all_limit))
                  else Some ch })
          else Some ch })"

text \<open>The second part of the state are the compaction pointers of the levels.\<close>

definition SetupOtherInputs ::
    "DBOptions \<Rightarrow> (slice \<Rightarrow> slice \<Rightarrow> int) \<Rightarrow> metas \<Rightarrow> Version \<Rightarrow> Compaction \<times> slice list \<Rightarrow> (Compaction \<times> slice list) option" where
  "SetupOtherInputs opt ucmp h v st =
     (case st of (c, pointers) \<Rightarrow> do {
        let level = c_level c;
        inputs0 \<leftarrow> AddBoundaryInputs ucmp h (v_files v ! level) (c_inputs0 c);
        let (small, large) = GetRange ucmp h inputs0;
        inputs1 \<leftarrow> GetOverlappingInputs ucmp h v (level + 1) (Some small) (Some large);
        let (all_start, all_limit) = GetRange2 ucmp h inputs0 inputs1;
        (inputs0, inputs1, large, all_start, all_limit) \<leftarrow> expand_inputs opt ucmp h v level (inputs0, inputs1, large, all_start, all_limit);
        gp \<leftarrow> (if level + 2 < nat kNumLevels then GetOverlappingInputs ucmp h v (level + 2) (Some all_start) (Some all_limit)
              else Some (grandparents c));
        Some (c\<lparr>c_inputs0 := inputs0, c_inputs1 := inputs1, grandparents := gp, c_edit := SetCompactPointer (int level) large (c_edit c)\<rparr>,
              pointers[level := large]) })"

text \<open>The prefix of the inputs whose sizes reach the limit.\<close>

fun up_to_limit :: "metas \<Rightarrow> uint64 \<Rightarrow> uint64 \<Rightarrow> nat list \<Rightarrow> nat list" where
  "up_to_limit h limit acc [] = []"
| "up_to_limit h limit acc (f # fs) =
     (let acc = acc + fm_size (h f) in if acc \<ge> limit then [f] else f # up_to_limit h limit acc fs)"

text \<open>The outer option is for the loops, the inner one for the null pointer.\<close>

definition CompactRange ::
    "DBOptions \<Rightarrow> (slice \<Rightarrow> slice \<Rightarrow> int) \<Rightarrow> metas \<Rightarrow> Version \<Rightarrow> nat \<Rightarrow> slice option \<Rightarrow> slice option \<Rightarrow> slice list \<Rightarrow>
      (Compaction option \<times> slice list) option" where
  "CompactRange opt ucmp h v level b e pointers = do {
     inputs \<leftarrow> GetOverlappingInputs ucmp h v level b e;
     if inputs = [] then Some (None, pointers)
     else do {
       let inputs = (if level > 0 then up_to_limit h (MaxFileSizeForLevel opt level) 0 inputs else inputs);
       (c, pointers) \<leftarrow> SetupOtherInputs opt ucmp h v ((Compaction_new opt level)\<lparr>c_inputs0 := inputs\<rparr>, pointers);
       Some (Some c, pointers) } }"

text \<open>The first file behind the compaction pointer, or the first one of the level.\<close>

definition pick_file :: "(slice \<Rightarrow> slice \<Rightarrow> int) \<Rightarrow> metas \<Rightarrow> nat list \<Rightarrow> slice \<Rightarrow> nat" where
  "pick_file ucmp h files pointer =
     (case find (\<lambda>f. pointer = [] \<or> InternalKey_Compare ucmp (largest (h f)) pointer > 0) files of
        Some f \<Rightarrow> f
      | None \<Rightarrow> files ! 0)"

text \<open>The argument \<open>size_level\<close> is the level of the best score if that score, a floating point number, is at least one.\<close>

definition PickCompaction ::
    "DBOptions \<Rightarrow> (slice \<Rightarrow> slice \<Rightarrow> int) \<Rightarrow> metas \<Rightarrow> Version \<Rightarrow> nat option \<Rightarrow> slice list \<Rightarrow> (Compaction option \<times> slice list) option" where
  "PickCompaction opt ucmp h v size_level pointers =
     (case (case size_level of
              Some level \<Rightarrow> Some (level, pick_file ucmp h (v_files v ! level) (pointers ! level))
            | None \<Rightarrow> (case file_to_compact v of
                        Some f \<Rightarrow> Some (nat (file_to_compact_level v), f)
                      | None \<Rightarrow> None)) of
        None \<Rightarrow> Some (None, pointers)
      | Some (level, f) \<Rightarrow> do {
          inputs \<leftarrow> (if level = 0 then
                      (case GetRange ucmp h [f] of (small, large) \<Rightarrow> GetOverlappingInputs ucmp h v 0 (Some small) (Some large))
                    else Some [f]);
          (c, pointers) \<leftarrow> SetupOtherInputs opt ucmp h v ((Compaction_new opt level)\<lparr>c_inputs0 := inputs\<rparr>, pointers);
          Some (Some c, pointers) })"

section \<open>What a compaction drops\<close>

text \<open>The variables of the loop over the merged entries of the inputs.\<close>

record drop_state =
  has_current_user_key :: bool
  current_user_key :: slice
  last_sequence_for_key :: uint64
  d_compaction :: Compaction

definition drop_state_new :: "Compaction \<Rightarrow> drop_state" where
  "drop_state_new c = \<lparr>has_current_user_key = False, current_user_key = [], last_sequence_for_key = kMaxSequenceNumber, d_compaction = c\<rparr>"

definition drop_entry :: "(slice \<Rightarrow> slice \<Rightarrow> int) \<Rightarrow> metas \<Rightarrow> Version \<Rightarrow> uint64 \<Rightarrow> slice \<Rightarrow> drop_state \<Rightarrow> bool \<times> drop_state" where
  "drop_entry ucmp h v smallest_snapshot key d =
     (case ParseInternalKey key of
        (True, Some ikey) \<Rightarrow>
          (let d = (if \<not> has_current_user_key d \<or> ucmp (pk_user_key ikey) (current_user_key d) \<noteq> 0
                    then d\<lparr>current_user_key := pk_user_key ikey, has_current_user_key := True, last_sequence_for_key := kMaxSequenceNumber\<rparr>
                    else d);
               (hidden, d) = (if last_sequence_for_key d \<le> smallest_snapshot then (True, d)
                            else if pk_type ikey = value_type kTypeDeletion \<and> pk_sequence ikey \<le> smallest_snapshot then
                              (case IsBaseLevelForKey ucmp h v (pk_user_key ikey) (d_compaction d) of (base, c) \<Rightarrow> (base, d\<lparr>d_compaction := c\<rparr>))
                            else (False, d))
           in (hidden, d\<lparr>last_sequence_for_key := pk_sequence ikey\<rparr>))
      | _ \<Rightarrow> (False, d\<lparr>current_user_key := [], has_current_user_key := False, last_sequence_for_key := kMaxSequenceNumber\<rparr>))"

text \<open>
  The entries of the inputs, in order, that the loop keeps. What else the loop does is left out: where the output is cut into files by
  \<open>ShouldStopBefore\<close>, writing these files, the flush of an in-memory table in between, and stopping when the database is closed.
\<close>

fun compaction_keeps :: "(slice \<Rightarrow> slice \<Rightarrow> int) \<Rightarrow> metas \<Rightarrow> Version \<Rightarrow> uint64 \<Rightarrow> kv list \<Rightarrow> drop_state \<Rightarrow> kv list" where
  "compaction_keeps ucmp h v smallest_snapshot [] d = []"
| "compaction_keeps ucmp h v smallest_snapshot (kv # kvs) d =
     (case drop_entry ucmp h v smallest_snapshot (fst kv) d of
        (hidden, d) \<Rightarrow> (if hidden then id else (#) kv) (compaction_keeps ucmp h v smallest_snapshot kvs d))"

end
