(* ===== verification/Ldb_Compaction_Thms.thy ===== *)
theory Ldb_Compaction_Thms
  imports Ldb_Compaction Ldb_Version_Get
begin

text \<open>
  What a compaction is given and what it drops: boundary files are added until there are none, the inputs of the next level are those that
  overlap, dropped entries are not seen by any snapshot, and a deletion is dropped only when deeper levels have nothing of its key. The last
  part shows where that is not enough: the next level may have files of the key that are not among the inputs.
\<close>

section \<open>Boundary files\<close>

text \<open>A file of the level with older entries of the last user key that the inputs have.\<close>

definition behind :: "(slice \<Rightarrow> slice \<Rightarrow> int) \<Rightarrow> metas \<Rightarrow> slice \<Rightarrow> nat \<Rightarrow> bool" where
  "behind ucmp h key f \<longleftrightarrow> InternalKey_Compare ucmp (smallest (h f)) key > 0 \<and> ucmp (file_start h f) (ExtractUserKey key) = 0"

definition boundary_closed :: "(slice \<Rightarrow> slice \<Rightarrow> int) \<Rightarrow> metas \<Rightarrow> nat list \<Rightarrow> nat list \<Rightarrow> bool" where
  "boundary_closed ucmp h level_files inputs \<longleftrightarrow>
     (\<forall>key. FindLargestKey ucmp h inputs = Some key \<longrightarrow> (\<forall>f \<in> set level_files. \<not> behind ucmp h key f))"

lemma boundary_step_behind:
  "boundary_step ucmp h key best f = (if behind ucmp h key f
     then (case best of None \<Rightarrow> Some f | Some g \<Rightarrow> if InternalKey_Compare ucmp (smallest (h f)) (smallest (h g)) < 0 then Some f else Some g)
     else best)"
  by (simp add: boundary_step_def behind_def)

lemma FindSmallestBoundaryFile_cases:
  "case FindSmallestBoundaryFile ucmp h files key of
     None \<Rightarrow> \<forall>f \<in> set files. \<not> behind ucmp h key f
   | Some f \<Rightarrow> f \<in> set files \<and> behind ucmp h key f"
proof -
  have "case foldl (boundary_step ucmp h key) best files of
      None \<Rightarrow> best = None \<and> (\<forall>f \<in> set files. \<not> behind ucmp h key f)
    | Some f \<Rightarrow> best = Some f \<or> f \<in> set files \<and> behind ucmp h key f" for best
  proof (induction files arbitrary: best)
    case (Cons f files)
    show ?case using Cons.IH [of "boundary_step ucmp h key best f"]
      by (auto simp: boundary_step_behind split: option.splits if_splits)
  qed (simp split: option.split)
  from this [of None] show ?thesis by (simp add: FindSmallestBoundaryFile_def split: option.splits)
qed

lemma FindLargestKey_snoc:
  "FindLargestKey ucmp h (fs @ [f]) = (case FindLargestKey ucmp h fs of
     None \<Rightarrow> Some (largest (h f))
   | Some key \<Rightarrow> Some (if InternalKey_Compare ucmp (largest (h f)) key > 0 then largest (h f) else key))"
  by (cases fs) simp_all

context user_order
begin

lemma behind_larger:
  assumes "file_ok valid compare h f" "internal_valid valid key" "behind compare h key f"
  shows "InternalKey_Compare compare (largest (h f)) key > 0"
proof -
  note v = file_valid [OF assms(1)]
  have "InternalKey_Compare compare key (smallest (h f)) < 0"
    using key_order.flip [OF internal_order assms(2) v(1)] assms(3) by (simp add: behind_def)
  then have "InternalKey_Compare compare key (largest (h f)) < 0"
    by (rule key_order.less_trans [OF internal_order assms(2) v(1,2)]) (use assms(1) in \<open>simp add: file_ok_def\<close>)
  then show ?thesis using key_order.flip [OF internal_order assms(2) v(2)] by simp
qed

lemma FindLargestKey_valid:
  assumes "\<forall>f \<in> set fs. file_ok valid compare h f" "FindLargestKey compare h fs = Some key"
  shows "internal_valid valid key"
  using assms
proof (induction fs arbitrary: key rule: rev_induct)
  case (snoc f fs)
  have "internal_valid valid (largest (h f))" using snoc.prems(1) file_valid(2) by simp
  then show ?case using snoc by (auto simp: FindLargestKey_snoc split: option.splits if_splits)
qed simp

lemma boundary_loop_closed:
  assumes "\<forall>f \<in> set files. file_ok valid compare h f" "\<forall>f \<in> set cs. file_ok valid compare h f" "FindLargestKey compare h cs = Some key"
  shows "\<exists>bs. boundary_loop compare h files cs key = Some (cs @ bs) \<and> set bs \<subseteq> set files \<and> boundary_closed compare h files (cs @ bs) \<and>
    (\<forall>i < length bs. \<forall>k. FindLargestKey compare h (cs @ take i bs) = Some k \<longrightarrow> behind compare h k (bs ! i))"
  using assms
proof (induction "length (filter (\<lambda>f. InternalKey_Compare compare (smallest (h f)) key > 0) files)" arbitrary: cs key rule: less_induct)
  case less
  show ?case
  proof (cases "FindSmallestBoundaryFile compare h files key")
    case None
    then have "boundary_closed compare h files cs"
      using FindSmallestBoundaryFile_cases [where ucmp = compare and h = h and files = files and key = key] less.prems(3) by (simp add: boundary_closed_def)
    then show ?thesis using None by (subst boundary_loop.simps) (auto intro!: exI [of _ "[]"])
  next
    case (Some f)
    then have f: "f \<in> set files" "behind compare h key f" using FindSmallestBoundaryFile_cases [where ucmp = compare and h = h and files = files and key = key] by simp_all
    then have ok: "file_ok valid compare h f" using less.prems(1) by blast
    note key = FindLargestKey_valid [OF less.prems(2,3)]
    have gt: "InternalKey_Compare compare (largest (h f)) key > 0" by (rule behind_larger [OF ok key f(2)])
    have lt: "length (filter (\<lambda>g. InternalKey_Compare compare (smallest (h g)) (largest (h f)) > 0) files) <
        length (filter (\<lambda>g. InternalKey_Compare compare (smallest (h g)) key > 0) files)"
    proof (rule filter_fewer [OF _ f(1)])
      show "InternalKey_Compare compare (smallest (h f)) key > 0" using f(2) by (simp add: behind_def)
      have "\<not> InternalKey_Compare compare (largest (h f)) (smallest (h f)) < 0"
        using ok key_order.flip [OF internal_order file_valid(2) [OF ok] file_valid(1) [OF ok]] by (simp add: file_ok_def)
      then show "\<not> InternalKey_Compare compare (smallest (h f)) (largest (h f)) > 0"
        using ok by (simp add: file_ok_def)
    next
      fix g assume g: "g \<in> set files" "InternalKey_Compare compare (smallest (h g)) (largest (h f)) > 0"
      then have vg: "internal_valid valid (smallest (h g))" using less.prems(1) file_valid(1) by blast
      have "InternalKey_Compare compare key (largest (h f)) < 0"
        using gt key_order.flip [OF internal_order key file_valid(2) [OF ok]] by simp
      moreover have "InternalKey_Compare compare (largest (h f)) (smallest (h g)) < 0"
        using g(2) key_order.flip [OF internal_order file_valid(2) [OF ok] vg] by simp
      ultimately have "InternalKey_Compare compare key (smallest (h g)) < 0"
        using key_order.less_trans [OF internal_order key file_valid(2) [OF ok] vg] by simp
      then show "InternalKey_Compare compare (smallest (h g)) key > 0" using key_order.flip [OF internal_order key vg] by simp
    qed
    have l: "FindLargestKey compare h (cs @ [f]) = Some (largest (h f))" using gt less.prems(3) by (simp add: FindLargestKey_snoc)
    have oks: "\<forall>g \<in> set (cs @ [f]). file_ok valid compare h g" using less.prems(2) ok by simp
    obtain bs where bs: "boundary_loop compare h files (cs @ [f]) (largest (h f)) = Some ((cs @ [f]) @ bs)" "set bs \<subseteq> set files"
      "boundary_closed compare h files ((cs @ [f]) @ bs)"
      "\<forall>i < length bs. \<forall>k. FindLargestKey compare h ((cs @ [f]) @ take i bs) = Some k \<longrightarrow> behind compare h k (bs ! i)"
      using less.hyps [OF lt less.prems(1) oks l] by (elim exE conjE) (rule that)
    have "\<forall>i < length (f # bs). \<forall>k. FindLargestKey compare h (cs @ take i (f # bs)) = Some k \<longrightarrow> behind compare h k ((f # bs) ! i)"
      using bs(4) f(2) less.prems(3) by (auto simp: less_Suc_eq_0_disj)
    then show ?thesis using Some bs(1-3) f(1)
      by (subst boundary_loop.simps) (intro exI [of _ "f # bs"], simp)
  qed
qed

lemma AddBoundaryInputs_closed:
  assumes "\<forall>f \<in> set files. file_ok valid compare h f" "\<forall>f \<in> set cs. file_ok valid compare h f"
  shows "\<exists>bs. AddBoundaryInputs compare h files cs = Some (cs @ bs) \<and> set bs \<subseteq> set files \<and> boundary_closed compare h files (cs @ bs) \<and>
    (\<forall>i < length bs. \<forall>k. FindLargestKey compare h (cs @ take i bs) = Some k \<longrightarrow> behind compare h k (bs ! i))"
proof (cases "FindLargestKey compare h cs")
  case None
  then show ?thesis by (intro exI [of _ "[]"]) (simp add: AddBoundaryInputs_def boundary_closed_def)
next
  case (Some key)
  then show ?thesis using boundary_loop_closed [OF assms Some] by (simp add: AddBoundaryInputs_def)
qed

end

section \<open>Deeper levels\<close>

text \<open>What the pointers into the levels have passed ends before the key.\<close>

definition passed :: "(slice \<Rightarrow> slice \<Rightarrow> int) \<Rightarrow> metas \<Rightarrow> Version \<Rightarrow> slice \<Rightarrow> nat list \<Rightarrow> nat \<Rightarrow> bool" where
  "passed ucmp h v u ptrs lvl \<longleftrightarrow> ptrs ! lvl \<le> length (v_files v ! lvl) \<and> (\<forall>i < ptrs ! lvl. ucmp (file_limit h (v_files v ! lvl ! i)) u < 0)"

definition key_in_level :: "(slice \<Rightarrow> slice \<Rightarrow> int) \<Rightarrow> metas \<Rightarrow> Version \<Rightarrow> slice \<Rightarrow> nat \<Rightarrow> bool" where
  "key_in_level ucmp h v u lvl \<longleftrightarrow> (\<exists>f \<in> set (v_files v ! lvl). overlaps ucmp h (Some u) (Some u) f)"

context user_order
begin

lemma base_files_found:
  assumes ok: "\<forall>f \<in> set files. file_ok valid compare h f" "files_disjoint compare h files" and u: "valid u"
    and p: "p \<le> length files" "\<forall>i < p. compare (file_limit h (files ! i)) u < 0"
  shows "\<exists>b p'. base_files compare h u files p = (b, p') \<and> p' \<le> length files \<and> (\<forall>i < p'. compare (file_limit h (files ! i)) u < 0) \<and>
    (b \<longleftrightarrow> (\<exists>f \<in> set files. overlaps compare h (Some u) (Some u) f))"
  using p
proof (induction "length files - p" arbitrary: p)
  case 0
  then have p: "p = length files" by simp
  then have "\<not> overlaps compare h (Some u) (Some u) f" if "f \<in> set files" for f
    using "0.prems"(2) that by (auto simp: overlaps_def key_before_def in_set_conv_nth)
  then show ?case using "0.prems"(2) p by (subst base_files.simps) auto
next
  case (Suc n)
  then have lt: "p < length files" and n: "n = length files - (p + 1)" by simp_all
  let ?f = "files ! p"
  have fv: "valid (file_start h ?f)" "valid (file_limit h ?f)" using ok(1) lt file_valid(3,4) by simp_all
  show ?case
  proof (cases "compare u (file_limit h ?f) \<le> 0")
    case False
    then have "compare (file_limit h ?f) u < 0" using flip [OF fv(2) u] by simp
    then have nx: "\<forall>i < p + 1. compare (file_limit h (files ! i)) u < 0" using Suc.prems(2) by (auto simp: less_Suc_eq)
    have "p + 1 \<le> length files" using lt by simp
    then obtain b p' where b: "base_files compare h u files (p + 1) = (b, p')" "p' \<le> length files"
      "\<forall>i < p'. compare (file_limit h (files ! i)) u < 0" "b \<longleftrightarrow> (\<exists>f \<in> set files. overlaps compare h (Some u) (Some u) f)"
      using Suc.hyps(1) [OF n _ nx] by blast
    then show ?thesis using False lt by (subst base_files.simps) simp
  next
    case True
    have "\<not> key_before compare (file_limit h ?f) (Some u)" using True flip [OF fv(2) u] by (simp add: key_before_def)
    moreover have "\<forall>j < p. \<not> overlaps compare h (Some u) (Some u) (files ! j)" using Suc.prems(2) by (simp add: overlaps_def key_before_def)
    ultimately have "(\<exists>f \<in> set files. overlaps compare h (Some u) (Some u) f) \<longleftrightarrow> \<not> key_after compare (file_start h ?f) (Some u)"
      using first_overlap [OF _ ok lt] u by simp
    also have "\<dots> \<longleftrightarrow> compare u (file_start h ?f) \<ge> 0" using flip [OF u fv(1)] by (auto simp: key_after_def)
    finally show ?thesis using True lt Suc.prems by (subst base_files.simps) simp
  qed
qed

lemma passed_mono: "passed compare h v u ptrs lvl \<Longrightarrow> version_ok valid compare h v \<Longrightarrow> lvl < nat kNumLevels \<Longrightarrow> valid u \<Longrightarrow> valid u' \<Longrightarrow>
    compare u u' \<le> 0 \<Longrightarrow> passed compare h v u' ptrs lvl"
proof -
  assume a: "passed compare h v u ptrs lvl" "version_ok valid compare h v" "lvl < nat kNumLevels" "valid u" "valid u'" "compare u u' \<le> 0"
  have "compare (file_limit h (v_files v ! lvl ! i)) u' < 0" if "i < ptrs ! lvl" for i
  proof -
    have "i < length (v_files v ! lvl)" using a(1) that by (simp add: passed_def)
    then have "valid (file_limit h (v_files v ! lvl ! i))" using version_ok_level(2) [OF a(2,3)] file_valid(4) by simp
    then show ?thesis using less_trans [of _ u u'] a that by (simp add: passed_def)
  qed
  then show ?thesis using a(1) by (simp add: passed_def)
qed

lemma base_levels_found:
  assumes v: "version_ok valid compare h v" and u: "valid u"
    and "\<forall>lvl \<in> set lvls. 0 < lvl \<and> lvl < nat kNumLevels" "length ptrs = nat kNumLevels" "\<forall>lvl \<in> L. passed compare h v u ptrs lvl" "set lvls \<subseteq> L"
  shows "\<exists>ptrs'. base_levels compare h v u lvls ptrs = (\<not> (\<exists>lvl \<in> set lvls. key_in_level compare h v u lvl), ptrs') \<and>
    length ptrs' = nat kNumLevels \<and> (\<forall>lvl \<in> L. passed compare h v u ptrs' lvl)"
  using assms(3-)
proof (induction lvls arbitrary: ptrs)
  case (Cons lvl lvls)
  have l: "0 < lvl" "lvl < nat kNumLevels" "passed compare h v u ptrs lvl" using Cons.prems by auto
  note vl = version_ok_level [OF v l(2)]
  obtain b p where b: "base_files compare h u (v_files v ! lvl) (ptrs ! lvl) = (b, p)" "p \<le> length (v_files v ! lvl)"
    "\<forall>i < p. compare (file_limit h (v_files v ! lvl ! i)) u < 0" "b \<longleftrightarrow> key_in_level compare h v u lvl"
    using base_files_found [OF vl(2) vl(3) [OF l(1)] u, of "ptrs ! lvl"] l(3) unfolding passed_def key_in_level_def by blast
  have p: "length (ptrs[lvl := p]) = nat kNumLevels" "\<forall>m \<in> L. passed compare h v u (ptrs[lvl := p]) m"
    using Cons.prems(2,3) b(2,3) l(2) by (auto simp: passed_def nth_list_update)
  show ?case
  proof (cases b)
    case True
    then show ?thesis using b p by auto
  next
    case False
    obtain ptrs' where "base_levels compare h v u lvls (ptrs[lvl := p]) = (\<not> (\<exists>lvl \<in> set lvls. key_in_level compare h v u lvl), ptrs')"
      "length ptrs' = nat kNumLevels" "\<forall>lvl \<in> L. passed compare h v u ptrs' lvl" using Cons.IH [OF _ p] Cons.prems(1,4) by auto
    then show ?thesis using b False by auto
  qed
qed simp

lemma IsBaseLevelForKey_found:
  assumes v: "version_ok valid compare h v" and u: "valid u" and c: "length (level_ptrs c) = nat kNumLevels"
    "\<forall>lvl \<in> {c_level c + 2..<nat kNumLevels}. passed compare h v u (level_ptrs c) lvl"
  shows "\<exists>ptrs. IsBaseLevelForKey compare h v u c =
      (\<not> (\<exists>lvl \<in> {c_level c + 2..<nat kNumLevels}. key_in_level compare h v u lvl), c\<lparr>level_ptrs := ptrs\<rparr>) \<and>
    length ptrs = nat kNumLevels \<and> (\<forall>lvl \<in> {c_level c + 2..<nat kNumLevels}. passed compare h v u ptrs lvl)"
proof -
  have "\<forall>lvl \<in> set [c_level c + 2..<nat kNumLevels]. 0 < lvl \<and> lvl < nat kNumLevels" by simp
  from base_levels_found [OF v u this c(1), of "{c_level c + 2..<nat kNumLevels}"] c(2)
  show ?thesis by (auto simp: IsBaseLevelForKey_def)
qed

end

section \<open>What is dropped\<close>

text \<open>The newest entry of a key that a snapshot sees, of entries in the order of internal keys.\<close>

definition newest :: "(slice \<Rightarrow> slice \<Rightarrow> int) \<Rightarrow> slice \<Rightarrow> uint64 \<Rightarrow> mem_write list \<Rightarrow> mem_write option" where
  "newest ucmp u s ws = find (\<lambda>(q, t, k, x). ucmp k u = 0 \<and> q \<le> s) ws"

definition in_key_order :: "(slice \<Rightarrow> slice \<Rightarrow> int) \<Rightarrow> mem_write list \<Rightarrow> bool" where
  "in_key_order ucmp ws \<longleftrightarrow> sorted_wrt (\<lambda>a b. InternalKey_Compare ucmp (fst (write_kv a)) (fst (write_kv b)) < 0) ws"

lemma newest_None: "newest ucmp u s ws = None \<longleftrightarrow> (\<forall>(q, t, k, x) \<in> set ws. ucmp k u = 0 \<longrightarrow> \<not> q \<le> s)"
  by (auto simp: newest_def find_None_iff)

lemma newest_Cons: "newest ucmp u s ((q, t, k, x) # ws) = (if ucmp k u = 0 \<and> q \<le> s then Some (q, t, k, x) else newest ucmp u s ws)"
  by (simp add: newest_def)

text \<open>The state of the loop before the entries \<open>ws\<close>: they are not before the current key, and not newer for that key.\<close>

definition drop_inv :: "(slice \<Rightarrow> bool) \<Rightarrow> (slice \<Rightarrow> slice \<Rightarrow> int) \<Rightarrow> metas \<Rightarrow> Version \<Rightarrow> nat \<Rightarrow> drop_state \<Rightarrow> mem_write list \<Rightarrow> bool" where
  "drop_inv valid ucmp h v level d ws \<longleftrightarrow>
     (has_current_user_key d \<longrightarrow> valid (current_user_key d) \<and> (\<forall>(q, t, k, x) \<in> set ws. ucmp (current_user_key d) k \<le> 0 \<and>
        (ucmp (current_user_key d) k = 0 \<longrightarrow> q \<le> last_sequence_for_key d))) \<and>
     c_level (d_compaction d) = level \<and> length (level_ptrs (d_compaction d)) = nat kNumLevels \<and>
     (\<forall>(q, t, k, x) \<in> set ws. \<forall>lvl \<in> {level + 2..<nat kNumLevels}. passed ucmp h v k (level_ptrs (d_compaction d)) lvl)"

text \<open>Older entries of the key are hidden from every snapshot.\<close>

definition hides :: "(slice \<Rightarrow> slice \<Rightarrow> int) \<Rightarrow> uint64 \<Rightarrow> drop_state \<Rightarrow> slice \<Rightarrow> bool" where
  "hides ucmp ss d u \<longleftrightarrow> has_current_user_key d \<and> ucmp u (current_user_key d) = 0 \<and> last_sequence_for_key d \<le> ss"

definition key_below :: "(slice \<Rightarrow> slice \<Rightarrow> int) \<Rightarrow> metas \<Rightarrow> Version \<Rightarrow> nat \<Rightarrow> slice \<Rightarrow> bool" where
  "key_below ucmp h v level u \<longleftrightarrow> (\<exists>lvl \<in> {level + 2..<nat kNumLevels}. key_in_level ucmp h v u lvl)"

text \<open>
  What a snapshot sees of a key in the entries that are kept: what it sees in all, but not a deletion that every snapshot sees of a key
  that the deeper levels do not have.
\<close>

definition kept_newest ::
    "(slice \<Rightarrow> slice \<Rightarrow> int) \<Rightarrow> metas \<Rightarrow> Version \<Rightarrow> nat \<Rightarrow> uint64 \<Rightarrow> slice \<Rightarrow> mem_write option \<Rightarrow> mem_write option" where
  "kept_newest ucmp h v level ss u r =
     (case r of Some (q, kTypeDeletion, k, x) \<Rightarrow> (if q \<le> ss \<and> \<not> key_below ucmp h v level u then None else r) | _ \<Rightarrow> r)"

definition same_newest :: "(slice \<Rightarrow> slice \<Rightarrow> int) \<Rightarrow> metas \<Rightarrow> Version \<Rightarrow> nat \<Rightarrow> uint64 \<Rightarrow> slice \<Rightarrow> uint64 \<Rightarrow> mem_write list \<Rightarrow> mem_write list \<Rightarrow> bool" where
  "same_newest ucmp h v level ss u s kept ws \<longleftrightarrow> newest ucmp u s kept = kept_newest ucmp h v level ss u (newest ucmp u s ws)"

context user_order
begin

lemma equal_flip: "valid a \<Longrightarrow> valid b \<Longrightarrow> compare a b = 0 \<Longrightarrow> compare b a = 0"
  using flip [of a b] flip [of b a] by linarith

lemma in_key_order_Cons:
  assumes "in_key_order compare ((q, t, k, x) # ws)" "\<forall>w \<in> set ((q, t, k, x) # ws). write_ok valid w"
  shows "in_key_order compare ws" "(q', t', k', x') \<in> set ws \<Longrightarrow> compare k k' \<le> 0 \<and> (compare k k' = 0 \<longrightarrow> q' \<le> q)"
proof -
  show "in_key_order compare ws" using assms(1) by (simp add: in_key_order_def)
  assume m: "(q', t', k', x') \<in> set ws"
  then have "InternalKey_Compare compare (fst (write_kv (q, t, k, x))) (fst (write_kv (q', t', k', x'))) < 0"
    using assms(1) by (auto simp: in_key_order_def simp del: write_kv.simps)
  then have l: "compare k k' < 0 \<or> compare k k' = 0 \<and> PackSequenceAndType q' t' < PackSequenceAndType q t" by (simp add: internal_less)
  have b: "q \<le> kMaxSequenceNumber" "q' \<le> kMaxSequenceNumber" using assms(2) m by auto
  have "\<not> q < q'" if "PackSequenceAndType q' t' < PackSequenceAndType q t" using pack_le(3) [OF b, of t t'] that by auto
  then show "compare k k' \<le> 0 \<and> (compare k k' = 0 \<longrightarrow> q' \<le> q)" using l by auto
qed

lemma drop_entry_step:
  assumes v: "version_ok valid compare h v" and i: "drop_inv valid compare h v level d ((q, t, k, x) # ws)"
    and s: "in_key_order compare ((q, t, k, x) # ws)" "\<forall>w \<in> set ((q, t, k, x) # ws). write_ok valid w" and ss: "ss < kMaxSequenceNumber"
  shows "\<exists>hidden d'. drop_entry compare h v ss (fst (write_kv (q, t, k, x))) d = (hidden, d') \<and> drop_inv valid compare h v level d' ws \<and>
    has_current_user_key d' \<and> compare k (current_user_key d') = 0 \<and> last_sequence_for_key d' = q \<and> valid (current_user_key d') \<and>
    (hidden \<longleftrightarrow> hides compare ss d k \<or> t = kTypeDeletion \<and> q \<le> ss \<and> \<not> key_below compare h v level k)"
proof -
  have k: "valid k" "q \<le> kMaxSequenceNumber" using s(2) by simp_all
  let ?d1 = "if \<not> has_current_user_key d \<or> compare k (current_user_key d) \<noteq> 0
    then d\<lparr>current_user_key := k, has_current_user_key := True, last_sequence_for_key := kMaxSequenceNumber\<rparr> else d"
  have d1: "has_current_user_key ?d1" "compare k (current_user_key ?d1) = 0" "d_compaction ?d1 = d_compaction d"
    "last_sequence_for_key ?d1 \<le> ss \<longleftrightarrow> hides compare ss d k" "valid (current_user_key ?d1)"
    using refl [OF k(1)] ss k(1) i by (auto simp: hides_def drop_inv_def)
  have c: "c_level (d_compaction d) = level" "length (level_ptrs (d_compaction d)) = nat kNumLevels"
    "\<forall>lvl \<in> {level + 2..<nat kNumLevels}. passed compare h v k (level_ptrs (d_compaction d)) lvl" using i by (simp_all add: drop_inv_def)
  obtain ptrs where base: "IsBaseLevelForKey compare h v k (d_compaction d) = (\<not> key_below compare h v level k, d_compaction d\<lparr>level_ptrs := ptrs\<rparr>)"
    "length ptrs = nat kNumLevels" "\<forall>lvl \<in> {level + 2..<nat kNumLevels}. passed compare h v k ptrs lvl"
    using IsBaseLevelForKey_found [OF v k(1) c(2), unfolded c(1), OF c(3)] by (elim exE conjE) (rule that, simp_all add: key_below_def)
  have later: "valid k'" "compare k k' \<le> 0" "compare k k' = 0 \<longrightarrow> q' \<le> q" if "(q', t', k', x') \<in> set ws" for q' t' k' x'
    using in_key_order_Cons(2) [OF s that] s(2) that by auto
  have cur: "compare (current_user_key ?d1) k' \<le> 0 \<and> (compare (current_user_key ?d1) k' = 0 \<longrightarrow> q' \<le> q)" if m: "(q', t', k', x') \<in> set ws" for q' t' k' x'
  proof -
    have e: "compare (current_user_key ?d1) k = 0" by (rule equal_flip [OF k(1) d1(5,2)])
    have "compare (current_user_key ?d1) k' \<le> 0" using trans [OF d1(5) k(1) later(1) [OF m] _ later(2) [OF m]] e by simp
    moreover have "compare (current_user_key ?d1) k' = 0 \<Longrightarrow> compare k k' = 0" by (rule equal_trans [OF k(1) d1(5) later(1) [OF m] d1(2)])
    ultimately show ?thesis using later(3) [OF m] by blast
  qed
  have inv: "drop_inv valid compare h v level (?d1\<lparr>d_compaction := cc, last_sequence_for_key := q\<rparr>) ws"
    if "c_level cc = level" "length (level_ptrs cc) = nat kNumLevels" "\<forall>lvl \<in> {level + 2..<nat kNumLevels}. passed compare h v k (level_ptrs cc) lvl" for cc
  proof -
    have "passed compare h v k' (level_ptrs cc) lvl" if "(q', t', k', x') \<in> set ws" "lvl \<in> {level + 2..<nat kNumLevels}" for q' t' k' x' lvl
      by (rule passed_mono [OF _ v _ k(1) later(1,2) [OF that(1)]]) (use \<open>\<forall>lvl \<in> _. passed compare h v k (level_ptrs cc) lvl\<close> that(2) in auto)
    then show ?thesis using that(1,2) cur d1(5) unfolding drop_inv_def by (auto simp del: if_split)
  qed
  let ?cc = "if \<not> hides compare ss d k \<and> t = kTypeDeletion \<and> q \<le> ss then d_compaction d\<lparr>level_ptrs := ptrs\<rparr> else d_compaction d"
  have e: "drop_entry compare h v ss (fst (write_kv (q, t, k, x))) d =
      (hides compare ss d k \<or> t = kTypeDeletion \<and> q \<le> ss \<and> \<not> key_below compare h v level k,
       ?d1\<lparr>d_compaction := ?cc, last_sequence_for_key := q\<rparr>)"
    unfolding drop_entry_def write_kv.simps fst_conv ParseInternalKey_append [OF k(2)]
    using d1(3,4) base(1) by (cases t) (auto simp: Let_def)
  have "drop_inv valid compare h v level (?d1\<lparr>d_compaction := ?cc, last_sequence_for_key := q\<rparr>) ws"
    by (rule inv) (use c base(2,3) in auto)
  then show ?thesis unfolding e using d1(1,2,5) by (intro exI conjI) (rule HOL.refl, simp_all del: if_split)
qed

lemma key_below_equal:
  assumes v: "version_ok valid compare h v" and k: "valid k" "valid u" "compare k u = 0" and b: "key_below compare h v level u"
  shows "key_below compare h v level k"
proof -
  obtain lvl f where l: "lvl \<in> {level + 2..<nat kNumLevels}" "f \<in> set (v_files v ! lvl)" "overlaps compare h (Some u) (Some u) f"
    using b by (auto simp: key_below_def key_in_level_def)
  then have fv: "valid (file_start h f)" "valid (file_limit h f)" using version_ok_level(2) [OF v, of lvl] file_valid(3,4) by auto
  have e: "compare u k = 0" by (rule equal_flip [OF k])
  have "\<not> compare (file_limit h f) u < 0" "\<not> compare (file_start h f) u > 0" using l(3) by (simp_all add: overlaps_def key_before_def key_after_def)
  then have "\<not> compare (file_limit h f) k < 0" "\<not> compare (file_start h f) k > 0"
    using less_trans [OF fv(2) k(1,2) _ eq_refl [OF k(3)]] less_trans2 [OF k(2,1) fv(1) eq_refl [OF e]] flip [OF k(1) fv(1)] flip [OF k(2) fv(1)] by auto
  then have "overlaps compare h (Some k) (Some k) f" by (simp add: overlaps_def key_before_def key_after_def)
  then show ?thesis using l(1,2) by (auto simp: key_below_def key_in_level_def)
qed

lemma compaction_keeps_same:
  assumes v: "version_ok valid compare h v" and ss: "ss < kMaxSequenceNumber"
    and "drop_inv valid compare h v level d ws" "in_key_order compare ws" "\<forall>w \<in> set ws. write_ok valid w"
  shows "\<exists>kept. compaction_keeps compare h v ss (map write_kv ws) d = map write_kv kept \<and> subseq kept ws \<and>
    (\<forall>u s. valid u \<longrightarrow> ss \<le> s \<longrightarrow> (if hides compare ss d u then newest compare u s kept = None else same_newest compare h v level ss u s kept ws))"
  using assms(3-)
proof (induction ws arbitrary: d)
  case Nil
  then show ?case by (auto simp: same_newest_def kept_newest_def newest_def)
next
  case (Cons w ws)
  obtain q t k x where w: "w = (q, t, k, x)" by (metis prod_cases4)
  note P = Cons.prems [unfolded w]
  obtain hidden d' where st: "drop_entry compare h v ss (fst (write_kv w)) d = (hidden, d')" "drop_inv valid compare h v level d' ws"
    "has_current_user_key d'" "compare k (current_user_key d') = 0" "last_sequence_for_key d' = q" "valid (current_user_key d')"
    "hidden \<longleftrightarrow> hides compare ss d k \<or> t = kTypeDeletion \<and> q \<le> ss \<and> \<not> key_below compare h v level k"
    using drop_entry_step [OF v P ss] by (elim exE conjE) (rule that, simp_all add: w)
  have k: "valid k" using P(3) by simp
  note ord = in_key_order_Cons [OF P(2,3)]
  have oks: "\<forall>w \<in> set ws. write_ok valid w" using P(3) by simp
  obtain kept where kept: "compaction_keeps compare h v ss (map write_kv ws) d' = map write_kv kept" "subseq kept ws"
    "\<And>u s. valid u \<Longrightarrow> ss \<le> s \<Longrightarrow>
      (if hides compare ss d' u then newest compare u s kept = None else same_newest compare h v level ss u s kept ws)"
    using Cons.IH [OF st(2) ord(1) oks] by blast
  let ?kept = "if hidden then kept else w # kept"
  have "if hides compare ss d u then newest compare u s ?kept = None else same_newest compare h v level ss u s ?kept (w # ws)"
    if u: "valid u" "ss \<le> s" for u s
  proof (cases "compare k u = 0")
    case True
    have uk: "compare u k = 0" by (rule equal_flip [OF k u(1) True])
    have h': "hides compare ss d' u \<longleftrightarrow> q \<le> ss"
      using st(3,5) equal_trans [OF u(1) k st(6) uk st(4)] by (simp add: hides_def)
    have h: "hides compare ss d u \<longleftrightarrow> hides compare ss d k"
      using P(1) equal_trans [OF u(1) k _ uk] equal_trans [OF k u(1) _ True] by (auto simp: hides_def drop_inv_def)
    show ?thesis
    proof (cases "hides compare ss d k")
      case hid: True
      then have "q \<le> last_sequence_for_key d" using P(1) equal_flip [OF k] by (auto simp: hides_def drop_inv_def)
      then have "q \<le> ss" using hid by (auto simp: hides_def)
      then show ?thesis using kept(3) [OF u] h' h hid st(7) by simp
    next
      case False
      show ?thesis
      proof (cases hidden)
        case True
        then have d: "t = kTypeDeletion" "q \<le> ss" "\<not> key_below compare h v level k" using st(7) False by simp_all
        then have "newest compare u s kept = None" using kept(3) [OF u] h' by simp
        moreover have "newest compare u s (w # ws) = Some (q, kTypeDeletion, k, x)"
          using d order_trans [OF d(2) u(2)] \<open>compare k u = 0\<close> by (simp add: w newest_Cons)
        moreover have "\<not> key_below compare h v level u" using key_below_equal [OF v k u(1) \<open>compare k u = 0\<close>] d(3) by blast
        ultimately show ?thesis using False True h d(2) by (simp add: same_newest_def kept_newest_def)
      next
        case nh: False
        show ?thesis
        proof (cases "q \<le> s")
          case True
          have "key_below compare h v level u" if "t = kTypeDeletion" "q \<le> ss"
            using key_below_equal [OF v u(1) k uk] that nh st(7) by blast
          then show ?thesis using True False nh h \<open>compare k u = 0\<close>
            by (auto simp: same_newest_def kept_newest_def w newest_Cons split: ValueType.split)
        next
          case gt: False
          then have "\<not> q \<le> ss" using u(2) by (meson order_trans)
          then have "same_newest compare h v level ss u s kept ws" using kept(3) [OF u] h' by simp
          then show ?thesis using False nh h gt by (simp add: same_newest_def w newest_Cons)
        qed
      qed
    qed
  next
    case False
    have skip: "newest compare u s (w # ls) = newest compare u s ls" for ls using False by (simp add: w newest_Cons)
    have "\<not> hides compare ss d' u" using st(4,6) equal_flip [OF u(1) st(6)] equal_trans [OF k st(6) u(1)] False by (auto simp: hides_def)
    then have same: "same_newest compare h v level ss u s kept ws" using kept(3) [OF u] by simp
    show ?thesis
    proof (cases "hides compare ss d u")
      case nh: False
      then show ?thesis using same skip by (simp add: same_newest_def)
    next
      case True
      then have cur: "valid (current_user_key d)" "compare (current_user_key d) k \<le> 0" "compare u (current_user_key d) = 0"
        using P(1) by (auto simp: hides_def drop_inv_def)
      have "compare u k \<le> 0" by (rule trans [OF u(1) cur(1) k eq_refl [OF cur(3)] cur(2)])
      moreover have "compare u k \<noteq> 0" using equal_flip [OF u(1) k] False by blast
      ultimately have lt: "compare u k < 0" by simp
      have "compare k' u \<noteq> 0" if m: "(q', t', k', x') \<in> set ws" for q' t' k' x'
      proof -
        have k': "valid k'" using P(3) m by auto
        have "compare u k' < 0" by (rule less_trans [OF u(1) k k' lt]) (use ord(2) [OF m] in simp)
        then show ?thesis using equal_flip [OF k' u(1)] by auto
      qed
      then have "newest compare u s ws = None" by (auto simp: newest_None)
      then have "newest compare u s kept = None" using same by (auto simp: same_newest_def kept_newest_def)
      then show ?thesis using True skip by simp
    qed
  qed
  moreover have "compaction_keeps compare h v ss (map write_kv (w # ws)) d = map write_kv ?kept" using st(1) kept(1) by simp
  moreover have "subseq ?kept (w # ws)" using list_emb_Cons [OF kept(2)] kept(2) by simp
  ultimately show ?case by blast
qed

end

section \<open>The inputs\<close>

lemma GetRange_snoc: "fs \<noteq> [] \<Longrightarrow> GetRange ucmp h (fs @ [f]) = widen ucmp h (GetRange ucmp h fs) f"
  by (cases fs) simp_all

definition user_range :: "(slice \<Rightarrow> slice \<Rightarrow> int) \<Rightarrow> metas \<Rightarrow> nat list \<Rightarrow> nat \<Rightarrow> bool" where
  "user_range ucmp h inputs f \<longleftrightarrow>
     overlaps ucmp h (Some (ExtractUserKey (fst (GetRange ucmp h inputs)))) (Some (ExtractUserKey (snd (GetRange ucmp h inputs)))) f"

text \<open>What holds of the inputs that are chosen.\<close>

definition inputs_ok :: "(slice \<Rightarrow> slice \<Rightarrow> int) \<Rightarrow> metas \<Rightarrow> Version \<Rightarrow> nat \<Rightarrow> nat list \<Rightarrow> chosen \<Rightarrow> bool" where
  "inputs_ok ucmp h v level given ch \<longleftrightarrow> (case ch of (inputs0, inputs1, large, all_start, all_limit) \<Rightarrow>
     set given \<subseteq> set inputs0 \<and> set inputs0 \<subseteq> set (v_files v ! level) \<and> boundary_closed ucmp h (v_files v ! level) inputs0 \<and>
     inputs1 = filter (user_range ucmp h inputs0) (v_files v ! (level + 1)) \<and> large = snd (GetRange ucmp h inputs0) \<and>
     (all_start, all_limit) = GetRange ucmp h (inputs0 @ inputs1))"

context user_order
begin

lemma GetRange_bounds:
  assumes "fs \<noteq> []" "\<forall>f \<in> set fs. file_ok valid compare h f"
  shows "internal_valid valid (fst (GetRange compare h fs)) \<and> internal_valid valid (snd (GetRange compare h fs)) \<and>
    (\<forall>f \<in> set fs. InternalKey_Compare compare (fst (GetRange compare h fs)) (smallest (h f)) \<le> 0 \<and>
       InternalKey_Compare compare (largest (h f)) (snd (GetRange compare h fs)) \<le> 0)"
  using assms
proof (induction fs rule: rev_induct)
  case (snoc f fs)
  have f: "file_ok valid compare h f" using snoc.prems(2) by simp
  note fv = file_valid [OF f]
  note r = key_order.refl [OF internal_order fv(1)] key_order.refl [OF internal_order fv(2)]
  show ?case
  proof (cases "fs = []")
    case True
    then show ?thesis using fv r by simp
  next
    case False
    let ?r = "GetRange compare h fs"
    have ih: "internal_valid valid (fst ?r)" "internal_valid valid (snd ?r)" "\<forall>g \<in> set fs. InternalKey_Compare compare (fst ?r) (smallest (h g)) \<le> 0 \<and>
        InternalKey_Compare compare (largest (h g)) (snd ?r) \<le> 0" using snoc.IH [OF False] snoc.prems(2) by simp_all
    have s: "InternalKey_Compare compare (fst ?r) (smallest (h f)) \<le> 0" if "\<not> InternalKey_Compare compare (smallest (h f)) (fst ?r) < 0"
      using that key_order.flip [OF internal_order fv(1) ih(1)] by simp
    have l: "InternalKey_Compare compare (snd ?r) (largest (h f)) \<le> 0" if "InternalKey_Compare compare (largest (h f)) (snd ?r) > 0"
      using that key_order.flip [OF internal_order ih(2) fv(2)] by simp
    have ok: "file_ok valid compare h g" if "g \<in> set fs" for g using that snoc.prems(2) by simp
    have g: "InternalKey_Compare compare (smallest (h f)) (smallest (h g)) \<le> 0" if "g \<in> set fs" "InternalKey_Compare compare (smallest (h f)) (fst ?r) < 0" for g
      using key_order.trans [OF internal_order fv(1) ih(1) file_valid(1) [OF ok [OF that(1)]]] that ih(3) by simp
    have g2: "InternalKey_Compare compare (largest (h g)) (largest (h f)) \<le> 0" if "g \<in> set fs" "InternalKey_Compare compare (largest (h f)) (snd ?r) > 0" for g
      using key_order.trans [OF internal_order file_valid(2) [OF ok [OF that(1)]] ih(2) fv(2)] that ih(3) l by simp
    show ?thesis using ih s l g g2 fv r by (auto simp: GetRange_snoc [OF False] widen_def)
  qed
qed simp

lemma range_overlaps:
  assumes "\<forall>f \<in> set fs. file_ok valid compare h f" "f \<in> set fs"
  shows "user_range compare h fs f"
proof -
  have ne: "fs \<noteq> []" using assms(2) by auto
  have f: "file_ok valid compare h f" using assms by blast
  note fv = file_valid [OF f]
  let ?r = "GetRange compare h fs"
  have r: "internal_valid valid (fst ?r)" "internal_valid valid (snd ?r)" "InternalKey_Compare compare (fst ?r) (smallest (h f)) \<le> 0"
    "InternalKey_Compare compare (largest (h f)) (snd ?r) \<le> 0" using GetRange_bounds [OF ne assms(1)] assms(2) by simp_all
  have v: "valid (ExtractUserKey (fst ?r))" "valid (ExtractUserKey (snd ?r))" using r(1,2) by (simp_all add: internal_valid_def)
  have a: "compare (ExtractUserKey (fst ?r)) (file_start h f) \<le> 0" "compare (file_limit h f) (ExtractUserKey (snd ?r)) \<le> 0"
    using r(3,4) by (auto simp: internal_le file_start_def file_limit_def)
  have "compare (ExtractUserKey (fst ?r)) (file_limit h f) \<le> 0" "compare (file_start h f) (ExtractUserKey (snd ?r)) \<le> 0"
    using trans [OF v(1) fv(3,4) a(1) fv(5)] trans [OF fv(3,4) v(2) fv(5) a(2)] .
  then show ?thesis using flip [OF fv(4) v(1)] flip [OF v(1) fv(4)] by (auto simp: user_range_def overlaps_def key_before_def key_after_def)
qed

lemma GetOverlappingInputs_range:
  assumes "version_ok valid compare h v" "lvl < nat kNumLevels" "internal_valid valid a" "internal_valid valid b"
  shows "GetOverlappingInputs compare h v lvl (Some a) (Some b) = Some (filter
    (if lvl = 0 then linked compare h (v_files v ! lvl) (Some (ExtractUserKey a)) (Some (ExtractUserKey b))
     else overlaps compare h (Some (ExtractUserKey a)) (Some (ExtractUserKey b))) (v_files v ! lvl))"
  using GetOverlappingInputs_files [of v lvl h "Some a" "Some b"] version_ok_level(2) [OF assms(1,2)] assms(3,4) by simp

lemma next_level_range:
  assumes v: "version_ok valid compare h v" and l: "level + 1 < nat kNumLevels" and ok: "fs \<noteq> []" "\<forall>f \<in> set fs. file_ok valid compare h f"
  shows "GetOverlappingInputs compare h v (level + 1) (Some (fst (GetRange compare h fs))) (Some (snd (GetRange compare h fs))) =
    Some (filter (user_range compare h fs) (v_files v ! (level + 1)))"
  using GetOverlappingInputs_range [OF v l] GetRange_bounds [OF ok] by (simp add: user_range_def [abs_def])

lemma level_files_ok: "version_ok valid compare h v \<Longrightarrow> level < nat kNumLevels \<Longrightarrow> set fs \<subseteq> set (v_files v ! level) \<Longrightarrow>
    \<forall>f \<in> set fs. file_ok valid compare h f"
  using version_ok_level(2) by blast

lemma expand_inputs_ok:
  assumes v: "version_ok valid compare h v" and l: "level + 1 < nat kNumLevels" and ne: "given \<noteq> []" and ch: "inputs_ok compare h v level given ch"
  shows "\<exists>ch'. expand_inputs opt compare h v level ch = Some ch' \<and> inputs_ok compare h v level given ch'"
proof -
  obtain inputs0 inputs1 large a b where c: "ch = (inputs0, inputs1, large, a, b)" by (metis prod_cases5)
  have i: "set given \<subseteq> set inputs0" "set inputs0 \<subseteq> set (v_files v ! level)" "boundary_closed compare h (v_files v ! level) inputs0"
    "inputs1 = filter (user_range compare h inputs0) (v_files v ! (level + 1))" "(a, b) = GetRange compare h (inputs0 @ inputs1)"
    using ch by (simp_all add: inputs_ok_def c)
  have l0: "level < nat kNumLevels" using l by simp
  have ok0: "\<forall>f \<in> set inputs0. file_ok valid compare h f" by (rule level_files_ok [OF v l0 i(2)])
  have "set inputs1 \<subseteq> set (v_files v ! (level + 1))" unfolding i(4) by simp
  then have ok: "\<forall>f \<in> set (inputs0 @ inputs1). file_ok valid compare h f" using ok0 level_files_ok [OF v l] by auto
  have ne0: "inputs0 \<noteq> []" using ne i(1) by auto
  then have "inputs0 @ inputs1 \<noteq> []" by simp
  note R = GetRange_bounds [OF this ok]
  have ab: "a = fst (GetRange compare h (inputs0 @ inputs1))" "b = snd (GetRange compare h (inputs0 @ inputs1))" using i(5) by (metis fst_conv snd_conv)+
  let ?P = "if level = 0 then linked compare h (v_files v ! level) (Some (ExtractUserKey a)) (Some (ExtractUserKey b))
     else overlaps compare h (Some (ExtractUserKey a)) (Some (ExtractUserKey b))"
  let ?ex = "filter ?P (v_files v ! level)"
  have o: "GetOverlappingInputs compare h v level (Some a) (Some b) = Some ?ex"
    by (rule GetOverlappingInputs_range [OF v l0]) (use R ab in simp_all)
  have in_ex: "f \<in> set ?ex" if "f \<in> set inputs0" for f
  proof -
    have "overlaps compare h (Some (ExtractUserKey a)) (Some (ExtractUserKey b)) f"
      using range_overlaps [OF ok, of f] that by (simp add: user_range_def ab)
    then show ?thesis using that i(2) linked.in_range by auto
  qed
  have ex: "set ?ex \<subseteq> set (v_files v ! level)" by auto
  obtain bs where bs: "AddBoundaryInputs compare h (v_files v ! level) ?ex = Some (?ex @ bs)" "set bs \<subseteq> set (v_files v ! level)"
    "boundary_closed compare h (v_files v ! level) (?ex @ bs)"
    using AddBoundaryInputs_closed [OF level_files_ok [OF v l0 order_refl] level_files_ok [OF v l0 ex]] by blast
  have all: "set (?ex @ bs) \<subseteq> set (v_files v ! level)" using bs(2) ex by simp
  have nx: "?ex @ bs \<noteq> []" using ne0 in_ex by (metis Nil_is_append_conv list.set_intros(1) neq_Nil_conv empty_iff list.set(1))
  note nl = next_level_range [OF v l nx level_files_ok [OF v l0 all]]
  obtain na nb where n: "GetRange compare h (?ex @ bs) = (na, nb)" by fastforce
  let ?ex1 = "filter (user_range compare h (?ex @ bs)) (v_files v ! (level + 1))"
  have n1: "GetOverlappingInputs compare h v (level + 1) (Some na) (Some nb) = Some ?ex1" using nl unfolding n by simp
  obtain aa bb where r2: "GetRange compare h ((?ex @ bs) @ ?ex1) = (aa, bb)" by fastforce
  have new: "inputs_ok compare h v level given (?ex @ bs, ?ex1, nb, aa, bb)"
    using i(1) in_ex all bs(3) n r2 by (auto simp: inputs_ok_def)
  have "expand_inputs opt compare h v level ch \<in> {Some ch, Some (?ex @ bs, ?ex1, nb, aa, bb)}"
    unfolding expand_inputs_def c prod.case o using bs(1) n n1 r2 by (auto simp: GetRange2_def)
  then show ?thesis using ch new by blast
qed

lemma setup_other_inputs:
  assumes v: "version_ok valid compare h v" and l: "c_level c + 1 < nat kNumLevels"
    and g: "c_inputs0 c \<noteq> []" "set (c_inputs0 c) \<subseteq> set (v_files v ! c_level c)"
  shows "\<exists>c'. SetupOtherInputs opt compare h v (c, pointers) = Some (c', pointers[c_level c := snd (GetRange compare h (c_inputs0 c'))]) \<and>
    c_level c' = c_level c \<and> set (c_inputs0 c) \<subseteq> set (c_inputs0 c') \<and> set (c_inputs0 c') \<subseteq> set (v_files v ! c_level c) \<and>
    boundary_closed compare h (v_files v ! c_level c) (c_inputs0 c') \<and>
    c_inputs1 c' = filter (user_range compare h (c_inputs0 c')) (v_files v ! (c_level c + 1)) \<and> level_ptrs c' = level_ptrs c"
proof -
  let ?level = "c_level c"
  have l0: "?level < nat kNumLevels" using l by simp
  obtain bs where bs: "AddBoundaryInputs compare h (v_files v ! ?level) (c_inputs0 c) = Some (c_inputs0 c @ bs)"
    "set bs \<subseteq> set (v_files v ! ?level)" "boundary_closed compare h (v_files v ! ?level) (c_inputs0 c @ bs)"
    using AddBoundaryInputs_closed [OF level_files_ok [OF v l0 order_refl] level_files_ok [OF v l0 g(2)]] by blast
  let ?i0 = "c_inputs0 c @ bs"
  have all: "set ?i0 \<subseteq> set (v_files v ! ?level)" "?i0 \<noteq> []" using g bs(2) by simp_all
  note nl = next_level_range [OF v l all(2) level_files_ok [OF v l0 all(1)]]
  let ?i1 = "filter (user_range compare h ?i0) (v_files v ! (?level + 1))"
  obtain small large where r: "GetRange compare h ?i0 = (small, large)" by fastforce
  obtain a b where r2: "GetRange compare h (?i0 @ ?i1) = (a, b)" by fastforce
  have "inputs_ok compare h v ?level (c_inputs0 c) (?i0, ?i1, large, a, b)" using all(1) bs(3) r r2 by (simp add: inputs_ok_def)
  then obtain ch' where ch': "expand_inputs opt compare h v ?level (?i0, ?i1, large, a, b) = Some ch'"
    "inputs_ok compare h v ?level (c_inputs0 c) ch'" using expand_inputs_ok [OF v l g(1)] by blast
  obtain j0 j1 large' a' b' where c: "ch' = (j0, j1, large', a', b')" by (metis prod_cases5)
  have j: "set (c_inputs0 c) \<subseteq> set j0" "set j0 \<subseteq> set (v_files v ! ?level)" "boundary_closed compare h (v_files v ! ?level) j0"
    "j1 = filter (user_range compare h j0) (v_files v ! (?level + 1))" "large' = snd (GetRange compare h j0)"
    "(a', b') = GetRange compare h (j0 @ j1)" using ch'(2) by (simp_all add: inputs_ok_def c)
  have ok: "\<forall>f \<in> set (j0 @ j1). file_ok valid compare h f" using level_files_ok [OF v l0 j(2)] level_files_ok [OF v l, of j1] j(4) by auto
  have "j0 @ j1 \<noteq> []" using g(1) j(1) by auto
  then have "internal_valid valid a'" "internal_valid valid b'" using GetRange_bounds [OF _ ok] j(6) by (metis fst_conv snd_conv)+
  then have "\<exists>gp. (if ?level + 2 < nat kNumLevels then GetOverlappingInputs compare h v (?level + 2) (Some a') (Some b') else Some (grandparents c)) = Some gp"
    using GetOverlappingInputs_range [OF v] by simp
  then obtain gp where gp: "(if ?level + 2 < nat kNumLevels then GetOverlappingInputs compare h v (?level + 2) (Some a') (Some b')
      else Some (grandparents c)) = Some gp" by blast
  have "SetupOtherInputs opt compare h v (c, pointers) =
      Some (c\<lparr>c_inputs0 := j0, c_inputs1 := j1, grandparents := gp, c_edit := SetCompactPointer (int ?level) large' (c_edit c)\<rparr>,
        pointers[?level := large'])"
    unfolding SetupOtherInputs_def prod.case Let_def bs(1) using r r2 nl ch'(1) gp by (simp add: c GetRange2_def)
  then show ?thesis using j by simp
qed

end

text \<open>A compaction with complete inputs that has not yet moved over any key.\<close>

definition compaction_ok :: "(slice \<Rightarrow> slice \<Rightarrow> int) \<Rightarrow> metas \<Rightarrow> Version \<Rightarrow> nat \<Rightarrow> Compaction \<Rightarrow> bool" where
  "compaction_ok ucmp h v level c \<longleftrightarrow> c_level c = level \<and> c_inputs0 c \<noteq> [] \<and> set (c_inputs0 c) \<subseteq> set (v_files v ! level) \<and>
     boundary_closed ucmp h (v_files v ! level) (c_inputs0 c) \<and>
     c_inputs1 c = filter (user_range ucmp h (c_inputs0 c)) (v_files v ! (level + 1)) \<and> level_ptrs c = replicate (nat kNumLevels) 0"

lemma up_to_limit_prefix: "set (up_to_limit h limit acc fs) \<subseteq> set fs" "up_to_limit h limit acc fs = [] \<longleftrightarrow> fs = []"
proof -
  show "set (up_to_limit h limit acc fs) \<subseteq> set fs" by (induction fs arbitrary: acc) (auto simp: Let_def)
  show "up_to_limit h limit acc fs = [] \<longleftrightarrow> fs = []" by (cases fs) (simp_all add: Let_def)
qed

lemma linked_some: "linked ucmp h files b e f \<Longrightarrow> \<exists>g \<in> set files. overlaps ucmp h b e g"
  by (induction rule: linked.induct) blast+

context user_order
begin

lemma setup_new:
  assumes "version_ok valid compare h v" "level + 1 < nat kNumLevels" "inputs \<noteq> []" "set inputs \<subseteq> set (v_files v ! level)"
  shows "\<exists>c. SetupOtherInputs opt compare h v (Compaction_new opt level\<lparr>c_inputs0 := inputs\<rparr>, pointers) =
      Some (c, pointers[level := snd (GetRange compare h (c_inputs0 c))]) \<and> compaction_ok compare h v level c \<and> set inputs \<subseteq> set (c_inputs0 c)"
proof -
  let ?c = "Compaction_new opt level\<lparr>c_inputs0 := inputs\<rparr>"
  have c: "c_level ?c = level" "c_inputs0 ?c = inputs" "level_ptrs ?c = replicate (nat kNumLevels) 0" by (simp_all add: Compaction_new_def)
  show ?thesis using setup_other_inputs [of h v ?c, unfolded c, OF assms] assms(3) unfolding compaction_ok_def by fastforce
qed

lemma compact_range_ok:
  assumes v: "version_ok valid compare h v" and l: "level + 1 < nat kNumLevels" and k: "\<forall>k \<in> set_option b \<union> set_option e. internal_valid valid k"
  shows "\<exists>r p. CompactRange opt compare h v level b e pointers = Some (r, p) \<and>
    (case r of
       None \<Rightarrow> p = pointers \<and> \<not> (\<exists>f \<in> set (v_files v ! level). overlaps compare h (map_option ExtractUserKey b) (map_option ExtractUserKey e) f)
     | Some c \<Rightarrow> compaction_ok compare h v level c \<and> p = pointers[level := snd (GetRange compare h (c_inputs0 c))])"
proof -
  have l0: "level < nat kNumLevels" using l by simp
  let ?files = "v_files v ! level" and ?b = "map_option ExtractUserKey b" and ?e = "map_option ExtractUserKey e"
  let ?P = "if level = 0 then linked compare h ?files ?b ?e else overlaps compare h ?b ?e"
  let ?in = "filter ?P ?files"
  have o: "GetOverlappingInputs compare h v level b e = Some ?in" using GetOverlappingInputs_files [OF version_ok_level(2) [OF v l0] k] .
  show ?thesis
  proof (cases "?in = []")
    case True
    then have "\<not> overlaps compare h ?b ?e f" if "f \<in> set ?files" for f using that linked.in_range by (auto simp: filter_empty_conv split: if_splits)
    then show ?thesis using o True by (simp add: CompactRange_def)
  next
    case False
    let ?i = "if level > 0 then up_to_limit h (MaxFileSizeForLevel opt level) 0 ?in else ?in"
    have "set ?i \<subseteq> set ?in" by (cases "level > 0") (simp_all only: if_True if_False up_to_limit_prefix(1) order_refl)
    also have "\<dots> \<subseteq> set ?files" by (rule filter_is_subset)
    finally have s: "set ?i \<subseteq> set ?files" .
    have n: "?i \<noteq> []" using False by (cases "level > 0") (simp_all only: if_True if_False up_to_limit_prefix(2) not_False_eq_True)
    note i = n s
    show ?thesis using setup_new [OF v l i, of opt pointers] o False by (auto simp: CompactRange_def Let_def simp del: if_split)
  qed
qed

lemma pick_setup:
  assumes v: "version_ok valid compare h v" and l: "level + 1 < nat kNumLevels" and f: "f \<in> set (v_files v ! level)"
  shows "\<exists>inputs c. (if level = 0 then (case GetRange compare h [f] of (small, large) \<Rightarrow> GetOverlappingInputs compare h v 0 (Some small) (Some large))
      else Some [f]) = Some inputs \<and>
    SetupOtherInputs opt compare h v (Compaction_new opt level\<lparr>c_inputs0 := inputs\<rparr>, pointers) =
      Some (c, pointers[level := snd (GetRange compare h (c_inputs0 c))]) \<and> compaction_ok compare h v level c \<and> f \<in> set (c_inputs0 c)"
proof -
  have l0: "level < nat kNumLevels" using l by simp
  have ok: "\<forall>g \<in> set [f]. file_ok valid compare h g" using version_ok_level(2) [OF v l0] f by simp
  have "\<exists>inputs. (if level = 0 then (case GetRange compare h [f] of (small, large) \<Rightarrow> GetOverlappingInputs compare h v 0 (Some small) (Some large))
      else Some [f]) = Some inputs \<and> f \<in> set inputs \<and> set inputs \<subseteq> set (v_files v ! level)"
  proof (cases "level = 0")
    case True
    have "GetOverlappingInputs compare h v 0 (Some (smallest (h f))) (Some (largest (h f))) = Some (filter
        (linked compare h (v_files v ! 0) (Some (file_start h f)) (Some (file_limit h f))) (v_files v ! 0))"
      using GetOverlappingInputs_range [OF v l0 file_valid(1,2) [OF ok [rule_format]], of f f] True by (simp add: file_start_def file_limit_def)
    moreover have "linked compare h (v_files v ! 0) (Some (file_start h f)) (Some (file_limit h f)) f"
      using range_overlaps [OF ok, of f] f True by (auto simp: user_range_def file_start_def file_limit_def intro: linked.in_range)
    ultimately show ?thesis using f True by auto
  qed (use f in simp)
  then obtain inputs where i: "(if level = 0 then (case GetRange compare h [f] of (small, large) \<Rightarrow>
      GetOverlappingInputs compare h v 0 (Some small) (Some large)) else Some [f]) = Some inputs" "f \<in> set inputs" "set inputs \<subseteq> set (v_files v ! level)"
    by blast
  then have "inputs \<noteq> []" by auto
  from setup_new [OF v l this i(3), of opt pointers] i(1,2) show ?thesis by blast
qed

lemma pick_compaction_ok:
  assumes v: "version_ok valid compare h v" and l: "level + 1 < nat kNumLevels"
    and pick: "case size_level of Some lv \<Rightarrow> lv = level \<and> v_files v ! level \<noteq> []
      | None \<Rightarrow> file_to_compact_level v = int level \<and> (\<exists>f \<in> set (v_files v ! level). file_to_compact v = Some f)"
  shows "\<exists>c. PickCompaction opt compare h v size_level pointers = Some (Some c, pointers[level := snd (GetRange compare h (c_inputs0 c))]) \<and>
    compaction_ok compare h v level c \<and>
    (case size_level of Some lv \<Rightarrow> pick_file compare h (v_files v ! level) (pointers ! level) \<in> set (c_inputs0 c)
     | None \<Rightarrow> the (file_to_compact v) \<in> set (c_inputs0 c))"
proof (cases size_level)
  case None
  then obtain f where f: "f \<in> set (v_files v ! level)" "file_to_compact v = Some f" "file_to_compact_level v = int level" using pick by auto
  show ?thesis using pick_setup [OF v l f(1), of opt pointers] f(2,3) None by (auto simp: PickCompaction_def simp del: if_split)
next
  case (Some lv)
  let ?f = "pick_file compare h (v_files v ! level) (pointers ! level)"
  have f: "?f \<in> set (v_files v ! level)"
    using pick Some by (auto simp: pick_file_def find_Some_iff split: option.splits)
  show ?thesis using pick_setup [OF v l f, of opt pointers] pick Some by (auto simp: PickCompaction_def simp del: if_split)
qed

end

text \<open>
  The inputs of a compaction are complete. Picking a compaction, for a range of keys or after a seek or for the size of a level,
  returns; for a range there is none only if no file of the level overlaps it. The inputs of the level are files of that level, among
  them the files that were picked, with all boundary files: no other file of the level begins, behind them, with the last user key that they
  have. The inputs of the next level are exactly its files that overlap the range of user keys of the first inputs, and the pointer
  of the level moves to the largest key.
\<close>

theorem compaction_inputs:
  assumes "user_order valid compare" and v: "version_ok valid compare h v" and l: "level + 1 < nat kNumLevels"
    and k: "\<forall>k \<in> set_option b \<union> set_option e. internal_valid valid k"
    and pick: "case size_level of Some lv \<Rightarrow> lv = level \<and> v_files v ! level \<noteq> []
      | None \<Rightarrow> file_to_compact_level v = int level \<and> (\<exists>f \<in> set (v_files v ! level). file_to_compact v = Some f)"
  shows "(\<exists>r p. CompactRange opt compare h v level b e pointers = Some (r, p) \<and>
      (case r of
         None \<Rightarrow> p = pointers \<and> \<not> (\<exists>f \<in> set (v_files v ! level). overlaps compare h (map_option ExtractUserKey b) (map_option ExtractUserKey e) f)
       | Some c \<Rightarrow> compaction_ok compare h v level c \<and> p = pointers[level := snd (GetRange compare h (c_inputs0 c))])) \<and>
    (\<exists>c. PickCompaction opt compare h v size_level pointers = Some (Some c, pointers[level := snd (GetRange compare h (c_inputs0 c))]) \<and>
      compaction_ok compare h v level c \<and>
      (case size_level of Some lv \<Rightarrow> pick_file compare h (v_files v ! level) (pointers ! level) \<in> set (c_inputs0 c)
       | None \<Rightarrow> the (file_to_compact v) \<in> set (c_inputs0 c)))"
  using user_order.compact_range_ok [OF assms(1) v l k] user_order.pick_compaction_ok [OF assms(1) v l pick] by blast

text \<open>
  C10: What a compaction drops, exactly. The entries of the inputs come in the order of internal keys. Of these the loop keeps some, in order,
  and every snapshot that is still in use, from the smallest one on, sees of every key in the kept entries what it saw in all, with one
  exception: a deletion that is seen by the smallest snapshot is dropped, with what it hides, if and only if no file in the levels
  behind the next one has the key in its range. Files of the next level that are not among the inputs are not looked at.
\<close>

theorem compaction_drops:
  assumes "user_order valid compare" "version_ok valid compare h v" "ss < kMaxSequenceNumber"
    and ws: "in_key_order compare ws" "\<forall>w \<in> set ws. write_ok valid w" and c: "level_ptrs c = replicate (nat kNumLevels) 0"
  shows "\<exists>kept. compaction_keeps compare h v ss (map write_kv ws) (drop_state_new c) = map write_kv kept \<and> subseq kept ws \<and>
    (\<forall>u s. valid u \<longrightarrow> ss \<le> s \<longrightarrow> newest compare u s kept = kept_newest compare h v (c_level c) ss u (newest compare u s ws))"
proof -
  have "drop_inv valid compare h v (c_level c) (drop_state_new c) ws" using c by (simp add: drop_inv_def drop_state_new_def passed_def split_beta)
  from user_order.compaction_keeps_same [OF assms(1-3) this ws] show ?thesis
    by (simp add: hides_def drop_state_new_def same_newest_def)
qed

section \<open>A deleted key returns\<close>

text \<open>
  Two files of level two share the user key 5, of which the first has a newer deletion and the second an older value. Compaction
  outputs are cut by size, also between entries of one user key.
\<close>

definition split_table :: "nat \<Rightarrow> mem_write list" where
  "split_table f =
     (if f = 0 then [(20, kTypeValue, [1], [11]), (21, kTypeValue, [3], [13])]
      else if f = 1 then [(10, kTypeValue, [2], [12]), (9, kTypeDeletion, [5], [])]
      else [(3, kTypeValue, [5], [15]), (4, kTypeValue, [7], [17])])"

definition split_files :: metas where
  "split_files f = \<lparr>fm_refs = 1, allowed_seeks = 100, fm_number = of_nat (f + 4), fm_size = 100,
     smallest = fst (write_kv (hd (split_table f))), largest = fst (write_kv (last (split_table f)))\<rparr>"

definition split_version :: Version where
  "split_version = Version_new\<lparr>v_files := [[], [0], [1, 2], [], [], [], []]\<rparr>"

definition split_writes :: "mem_write list" where
  "split_writes = [(3, kTypeValue, [5], [15]), (4, kTypeValue, [7], [17]), (9, kTypeDeletion, [5], []), (10, kTypeValue, [2], [12]),
     (20, kTypeValue, [1], [11]), (21, kTypeValue, [3], [13])]"

definition split_inputs :: "mem_write list" where
  "split_inputs = [(20, kTypeValue, [1], [11]), (10, kTypeValue, [2], [12]), (21, kTypeValue, [3], [13]), (9, kTypeDeletion, [5], [])]"

lemma split_key_ok: "q \<le> kMaxSequenceNumber \<Longrightarrow> key_ok (\<lambda>_. True) (AppendInternalKey [] k q t)"
  unfolding key_ok_def by auto

lemma split_version_ok: "version_ok (\<lambda>_. True) slice_compare split_files split_version"
proof -
  have "file_ok (\<lambda>_. True) slice_compare split_files f" if "f \<in> {0, 1, 2}" for f
  proof -
    have "InternalKey_Compare slice_compare (smallest (split_files f)) (largest (split_files f)) \<le> 0"
      using that by (elim insertE emptyE; simp only:; code_simp)
    moreover have "key_ok (\<lambda>_. True) (smallest (split_files f))" "key_ok (\<lambda>_. True) (largest (split_files f))"
      using that by (auto simp: split_files_def split_table_def kMaxSequenceNumber_def intro!: split_key_ok)
    ultimately show ?thesis by (simp add: file_ok_def)
  qed
  moreover have "InternalKey_Compare slice_compare (largest (split_files 1)) (smallest (split_files 2)) < 0" by code_simp
  ultimately show ?thesis by (simp add: version_ok_def split_version_def files_disjoint_def kNumLevels_def)
qed

lemma split_compaction:
  assumes "max_file_size opt = 2097152"
  shows "\<exists>c p. CompactRange opt slice_compare split_files split_version 1 None None (replicate 7 []) = Some (Some c, p) \<and>
    c_inputs0 c = [0] \<and> c_inputs1 c = [1] \<and> c_level c = 1 \<and> level_ptrs c = replicate 7 0"
proof -
  let ?a = "AppendInternalKey [] [1] 20 kTypeValue" and ?b = "AppendInternalKey [] [3] 21 kTypeValue" and ?c = "AppendInternalKey [] [5] 9 kTypeDeletion"
  have iv: "internal_valid (\<lambda>_. True) (AppendInternalKey [] k q t)" for k q t by (simp add: internal_valid_def AppendInternalKey_def PutFixed64_def)
  have lv: "v_files split_version = [[], [0], [1, 2], [], [], [], []]" by (simp add: split_version_def)
  have G: "GetOverlappingInputs slice_compare split_files split_version lvl b e =
      Some (filter (overlaps slice_compare split_files (map_option ExtractUserKey b) (map_option ExtractUserKey e)) (v_files split_version ! lvl))"
    if "lvl \<in> {1, 2, 3}" "\<forall>k \<in> set_option b \<union> set_option e. internal_valid (\<lambda>_. True) k" for lvl b e
    using bytewise_table.GetOverlappingInputs_files [of split_version lvl split_files b e] version_ok_level(2) [OF split_version_ok, of lvl] that
    by (auto simp: kNumLevels_def)
  have f: "filter (overlaps slice_compare split_files None None) [0] = [0]"
    "filter (overlaps slice_compare split_files (Some [1]) (Some [3])) [1, 2] = [1]"
    "filter (overlaps slice_compare split_files (Some [1]) (Some [5])) [0] = [0]" by code_simp+
  have o: "GetOverlappingInputs slice_compare split_files split_version 1 None None = Some [0]"
    "GetOverlappingInputs slice_compare split_files split_version 2 (Some ?a) (Some ?b) = Some [1]"
    "GetOverlappingInputs slice_compare split_files split_version 1 (Some ?a) (Some ?c) = Some [0]"
    "GetOverlappingInputs slice_compare split_files split_version 3 (Some ?a) (Some ?c) = Some []"
    using G [of 1 None None] G [of 2 "Some ?a" "Some ?b"] G [of 1 "Some ?a" "Some ?c"] G [of 3 "Some ?a" "Some ?c"] f iv by (simp_all add: lv)
  have "FindSmallestBoundaryFile slice_compare split_files [0] ?b = None" by code_simp
  moreover have "FindLargestKey slice_compare split_files [0] = Some ?b" by code_simp
  ultimately have b: "AddBoundaryInputs slice_compare split_files [0] [0] = Some [0]"
    by (simp add: AddBoundaryInputs_def boundary_loop.simps)
  have r: "GetRange slice_compare split_files [0] = (?a, ?b)" "GetRange slice_compare split_files [0, 1] = (?a, ?c)" by code_simp+
  have l: "up_to_limit split_files (MaxFileSizeForLevel opt 1) 0 [0] = [0]" by (simp add: Let_def)
  have e: "expand_inputs opt slice_compare split_files split_version 1 ([0], [1], ?b, ?a, ?c) = Some ([0], [1], ?b, ?a, ?c)"
    using o(3) b by (simp add: expand_inputs_def lv)
  have g: "GetRange2 slice_compare split_files [0] [1] = (?a, ?c)" using r(2) by (simp add: GetRange2_def)
  have n: "(1 :: nat) + 1 = 2" "(1 :: nat) + 2 = 3" "3 < nat kNumLevels" by (simp_all add: kNumLevels_def)
  have b1: "AddBoundaryInputs slice_compare split_files (v_files split_version ! 1) [0] = Some [0]" using b by (simp add: lv)
  have s: "SetupOtherInputs opt slice_compare split_files split_version (Compaction_new opt 1\<lparr>c_inputs0 := [0]\<rparr>, p) =
      Some (Compaction_new opt 1\<lparr>c_inputs0 := [0], c_inputs1 := [1], grandparents := [], c_edit := SetCompactPointer 1 ?b VersionEdit_new\<rparr>, p[1 := ?b])" for p
  proof -
    have c: "c_level (Compaction_new opt 1\<lparr>c_inputs0 := [0]\<rparr>) = 1" "c_inputs0 (Compaction_new opt 1\<lparr>c_inputs0 := [0]\<rparr>) = [0]"
      "c_edit (Compaction_new opt 1\<lparr>c_inputs0 := [0]\<rparr>) = VersionEdit_new" by (simp_all add: Compaction_new_def)
    show ?thesis unfolding SetupOtherInputs_def prod.case c Let_def b1 r(1) Option.bind.simps n o(2) g e if_P [OF n(3)] o(4) by (simp add: Compaction_new_def)
  qed
  show ?thesis unfolding CompactRange_def o(1) Option.bind.simps using l s by (simp add: Compaction_new_def kNumLevels_def)
qed

definition split_options :: DBOptions where
  "split_options = \<lparr>opt_comparator = InternalKeyComparator 0 slice_compare FindShortestSeparator FindShortSuccessor, paranoid_checks = True,
     block_size = 4096, block_restart_interval = 16, compression = kSnappyCompression, opt_filter = None, max_file_size = 2097152\<rparr>"

text \<open>
  The two files of the range are picked, and the second file of level two is not: the entry of the key 5 that stays in it was deleted, and the
  deletion is not kept.
\<close>

theorem compaction_drops_witness:
  "\<exists>c p kept. CompactRange split_options slice_compare split_files split_version 1 None None (replicate 7 []) = Some (Some c, p) \<and>
    c_inputs0 c = [0] \<and> c_inputs1 c = [1] \<and>
    compaction_keeps slice_compare split_files split_version 50 (map write_kv split_inputs) (drop_state_new c) = map write_kv kept \<and>
    newest slice_compare [5] 50 split_inputs = Some (9, kTypeDeletion, [5], []) \<and> newest slice_compare [5] 50 kept = None \<and>
    newest slice_compare [5] 50 (split_table 2) = Some (3, kTypeValue, [5], [15]) \<and>
    newest slice_compare [2] 50 kept = Some (10, kTypeValue, [2], [12])"
proof -
  obtain c p where c: "CompactRange split_options slice_compare split_files split_version 1 None None (replicate 7 []) = Some (Some c, p)"
    "c_inputs0 c = [0]" "c_inputs1 c = [1]" "c_level c = 1" "level_ptrs c = replicate (nat kNumLevels) 0"
    using split_compaction [of split_options] by (auto simp: split_options_def kNumLevels_def)
  have "InternalKey_Compare slice_compare (fst (write_kv (split_inputs ! i))) (fst (write_kv (split_inputs ! j))) < 0" if "i < j" "j < 4" for i j
  proof -
    have "(i, j) \<in> {(0, 1), (0, 2), (0, 3), (1, 2), (1, 3), (2, 3)}" using that by auto
    then show ?thesis by (elim insertE emptyE; simp only: prod.inject; elim conjE; simp only:; code_simp)
  qed
  then have o: "in_key_order slice_compare split_inputs" by (simp add: in_key_order_def sorted_wrt_iff_nth_less split_inputs_def)
  have w: "\<forall>w \<in> set split_inputs. write_ok (\<lambda>_. True) w" by (simp add: split_inputs_def kMaxSequenceNumber_def)
  have "(50 :: uint64) < kMaxSequenceNumber" by (simp add: kMaxSequenceNumber_def)
  from compaction_drops [OF bytewise_table.user_order_axioms split_version_ok this o w c(5)] obtain kept where
    k: "compaction_keeps slice_compare split_files split_version 50 (map write_kv split_inputs) (drop_state_new c) = map write_kv kept"
      "\<And>u. newest slice_compare u 50 kept = kept_newest slice_compare split_files split_version 1 50 u (newest slice_compare u 50 split_inputs)"
    using c(4) by auto
  have n: "newest slice_compare [5] 50 split_inputs = Some (9, kTypeDeletion, [5], [])" "newest slice_compare [2] 50 split_inputs = Some (10, kTypeValue, [2], [12])"
    "newest slice_compare [5] 50 (split_table 2) = Some (3, kTypeValue, [5], [15])" by code_simp+
  have "v_files split_version ! lvl = []" if "lvl \<in> {3..<7}" for lvl
    using that by (auto simp: split_version_def nth_Cons split: nat.split)
  then have "\<not> key_below slice_compare split_files split_version 1 [5]" by (auto simp: key_below_def key_in_level_def kNumLevels_def)
  then have "newest slice_compare [5] 50 kept = None" "newest slice_compare [2] 50 kept = Some (10, kTypeValue, [2], [12])"
    unfolding k(2) n by (simp_all add: kept_newest_def)
  then show ?thesis using c(1-3) k(1) n by blast
qed

theorem compaction_inputs_witness:
  "\<exists>c p. PickCompaction split_options slice_compare split_files split_version (Some 1) (replicate 7 []) = Some (Some c, p) \<and>
    set (c_inputs0 c) = {0} \<and> c_inputs1 c = filter (user_range slice_compare split_files (c_inputs0 c)) [1, 2]"
proof -
  have l: "1 + 1 < nat kNumLevels" by (simp add: kNumLevels_def)
  have f: "v_files split_version ! 1 = [0]" "v_files split_version ! 2 = [1, 2]" by (simp_all add: split_version_def)
  obtain c p where c: "PickCompaction split_options slice_compare split_files split_version (Some 1) (replicate 7 []) = Some (Some c, p)"
    "compaction_ok slice_compare split_files split_version 1 c"
    using compaction_inputs [OF bytewise_table.user_order_axioms split_version_ok l, of None None "Some 1" split_options "replicate 7 []"] f by auto
  have "set (c_inputs0 c) = {0}" "c_inputs1 c = filter (user_range slice_compare split_files (c_inputs0 c)) [1, 2]"
    using c(2) f by (auto simp: compaction_ok_def numeral_2_eq_2 dest: subset_singletonD)
  then show ?thesis using c(1) by blast
qed

end
