(* ===== verification/Spec2Isabelle.thy ===== *)
theory Spec2Isabelle
  imports Pb_Encode_Thms Pb_Flat Fbase64_Thms Cct_Messages Ldb_Log_Safe Ldb_Batch Ldb_Mem_Iterator Ldb_Version_Files Ldb_Compaction_Thms
begin

text \<open>
  The C and C++ components of an iOS application that talks to Firebase.

  \<^bold>\<open>The program.\<close> The application itself is Swift over the Firebase SDK; what it links of C and C++ code is in
  \<^verbatim>\<open>src/instagram/Pods\<close>. Three parts of it have logic of their own. \<^verbatim>\<open>nanopb\<close> is a protocol buffer codec that works on C structs
  through arrays of descriptors; the log transport and the core diagnostics bring the generated arrays for their messages.
  \<^verbatim>\<open>SocketRocket/fbase64.c\<close> is the base64 codec of the web socket handshake. \<^verbatim>\<open>leveldb-library\<close> is the storage engine under the
  offline cache of the database: a write goes as a batch to a log file and to an in-memory table, the in-memory table is written to a
  table file when it is full, the set of table files changes by edits that a second log records, and a lookup asks the in-memory table
  and then the table files, through a cache of tables and a cache of blocks. The model is of the 64-bit little endian targets and of
  the configuration of the project: \<^verbatim>\<open>PB_FIELD_32BIT\<close>, \<^verbatim>\<open>PB_NO_PACKED_STRUCTS\<close>, \<^verbatim>\<open>PB_ENABLE_MALLOC\<close>, no hardware CRC and no snappy.

  \<^bold>\<open>Conventions.\<close> Structs and classes are records, enums are datatypes, numbers keep their width where the code can wrap. Operations
  pass the state they change. Errors are values. None is the result of a loop that does not end, and in the parts that say so of a read
  outside of a buffer; so a statement that the result is \<open>Some\<close> says that the code returns. Virtual functions, callbacks, system calls and
  \<^verbatim>\<open>malloc\<close> are arguments, and what is relied on is a locale or a named predicate: \<open>byte_source\<close> and \<open>byte_sink\<close> (streams),
  \<open>copying_decoder\<close> (field decoders), \<open>writable_file\<close>, \<open>sequential_file\<close>, \<open>random_access_file\<close> and \<open>checked_access_file\<close> (files),
  \<open>key_order\<close> and \<open>comparator\<close> (comparators), \<open>filter_policy\<close> (filters), \<open>sorted_store\<close> (skip list), \<open>entry_iterator\<close> (iterators),
  \<open>value_cache\<close> and \<open>owning_cache\<close> (caches, and what they pass to the deleter), \<open>block_source\<close> (blocks of a table), \<open>env_files\<close> (an environment
  that opens files), \<open>table_files\<close> (lookups in table files by number). Each is interpreted by the code that provides it.

  \<^bold>\<open>The theories.\<close>
  \<^item> \<^verbatim>\<open>Prelude\<close>: memory as bytes, little endian numbers, generic lemmas; \<^verbatim>\<open>Varint\<close>: the reference form of variable length numbers
    that both codecs use.
  \<^item> \<^verbatim>\<open>nanopb\<close>. \<^verbatim>\<open>Pb_Types\<close> is \<^verbatim>\<open>pb.h\<close>; \<^verbatim>\<open>Pb_Common\<close> and \<^verbatim>\<open>Pb_Iter\<close> the field iterator of \<^verbatim>\<open>pb_common.c\<close> and what it visits;
    \<^verbatim>\<open>Pb_Ostream\<close>, \<^verbatim>\<open>Pb_Encode\<close> are \<^verbatim>\<open>pb_encode.c\<close>; \<^verbatim>\<open>Pb_Istream\<close>, \<^verbatim>\<open>Pb_Heap\<close>, \<^verbatim>\<open>Pb_Decode\<close>, \<^verbatim>\<open>Pb_Decode_Msg\<close> are \<^verbatim>\<open>pb_decode.c\<close>.
    \<^verbatim>\<open>Pb_Streams\<close>, \<^verbatim>\<open>Pb_Varint\<close>, \<^verbatim>\<open>Pb_Scalars\<close>, \<^verbatim>\<open>Pb_Scalar_Thms\<close> show the streams and scalars exact; \<^verbatim>\<open>Pb_Encode_Spec\<close> has the
    encoding of a message as a function without streams, \<^verbatim>\<open>Pb_Encode_Thms\<close> that \<^verbatim>\<open>pb_encode\<close> computes it, returns, and fails
    where it must; \<^verbatim>\<open>Pb_Codec\<close>, \<^verbatim>\<open>Pb_Decode_Thms\<close> and \<^verbatim>\<open>Pb_Flat\<close> go back: fields, allocation and required fields, and whole messages
    of numeric fields. \<^verbatim>\<open>Cct_Messages\<close> has the generated descriptors of \<^verbatim>\<open>cct.nanopb.c\<close> and \<^verbatim>\<open>firebasecore.nanopb.c\<close>.
    The encoder and decoder recurse over submessages with a bound; \<open>pb_encode_returns\<close> shows that the nesting depth of the descriptors is
    enough.
  \<^item> Base64: \<^verbatim>\<open>Fbase64\<close> has \<^verbatim>\<open>f_b64_ntop\<close> and \<^verbatim>\<open>f_b64_pton\<close>, \<^verbatim>\<open>Fbase64_Thms\<close> the comparison with the format, the bounds and the round trip.
  \<^item> Utilities of leveldb: \<^verbatim>\<open>Ldb_Coding\<close> (\<^verbatim>\<open>util/coding\<close>), \<^verbatim>\<open>Ldb_Crc32c\<close> with \<^verbatim>\<open>Ldb_Crc32c_Tables\<close> and \<^verbatim>\<open>Ldb_Crc32c_Thms\<close>
    (\<^verbatim>\<open>util/crc32c\<close>, equal to the bitwise CRC-32C), \<^verbatim>\<open>Ldb_Status\<close> (\<^verbatim>\<open>slice.h\<close>, \<^verbatim>\<open>status.h\<close>), \<^verbatim>\<open>Ldb_Bloom\<close> and
    \<^verbatim>\<open>Ldb_Filter_Thms\<close> (\<^verbatim>\<open>util/bloom.cc\<close>, \<^verbatim>\<open>table/filter_block.cc\<close>, no false negatives), \<^verbatim>\<open>Ldb_Comparator\<close>
    (\<^verbatim>\<open>util/comparator.cc\<close>, \<^verbatim>\<open>db/dbformat\<close>), \<^verbatim>\<open>Ldb_Iterator\<close> (the contract of iterators).
  \<^item> Files and log: \<^verbatim>\<open>Ldb_Env\<close> has the file classes of \<^verbatim>\<open>util/env_posix.cc\<close> over system calls as parameters, \<^verbatim>\<open>Ldb_File\<close> that they
    keep the contracts. \<^verbatim>\<open>Ldb_Log\<close> has \<^verbatim>\<open>log::Writer\<close> and \<^verbatim>\<open>log::Reader\<close>; \<^verbatim>\<open>Ldb_Log_Thms\<close> shows that records are read back and that a cut
    file loses only the last; \<^verbatim>\<open>Ldb_Log_Safe\<close> what the reader does on files that no writer produced.
  \<^item> Memory: \<^verbatim>\<open>Ldb_Skiplist\<close> and \<^verbatim>\<open>Ldb_Skiplist_Thms\<close> (\<^verbatim>\<open>db/skiplist.h\<close>, its invariant, insertion, iteration), \<^verbatim>\<open>Ldb_Memtable\<close>,
    \<^verbatim>\<open>Ldb_Memtable_Thms\<close> and \<^verbatim>\<open>Ldb_Mem_Iterator\<close> (\<^verbatim>\<open>db/memtable.cc\<close> refines a map with versions), \<^verbatim>\<open>Ldb_Batch\<close> (\<^verbatim>\<open>db/write_batch.cc\<close>).
  \<^item> Tables: \<^verbatim>\<open>Ldb_Block\<close> and \<^verbatim>\<open>Ldb_Block_Thms\<close> (\<^verbatim>\<open>table/block_builder.cc\<close>, \<^verbatim>\<open>block.cc\<close>), \<^verbatim>\<open>Ldb_Format\<close> (\<^verbatim>\<open>table/format.cc\<close>),
    \<^verbatim>\<open>Ldb_Table\<close> (\<^verbatim>\<open>table/table_builder.cc\<close>, \<^verbatim>\<open>table.cc\<close>), \<^verbatim>\<open>Ldb_Table_Build\<close> (the bytes that are written), \<^verbatim>\<open>Ldb_Table_Read\<close> and
    \<^verbatim>\<open>Ldb_Table_Get\<close> (they are found again). The offsets of blocks are kept in 32 bits by the code, so tables are below 4 GiB.
  \<^item> Cache: \<^verbatim>\<open>Ldb_Cache\<close> (\<^verbatim>\<open>util/cache.cc\<close> with its entries on a heap), \<^verbatim>\<open>Ldb_Cache_Table\<close> (the hash table holds a set),
    \<^verbatim>\<open>Ldb_Cache_Thms\<close> (rings, counts and deleters), \<^verbatim>\<open>Ldb_Cache_Blocks\<close> (lookups in tables with the cache).
  \<^item> Versions: \<^verbatim>\<open>Ldb_Version_Edit\<close> (\<^verbatim>\<open>db/version_edit.cc\<close>, encoded and decoded again) and \<^verbatim>\<open>Ldb_Flush\<close> (\<^verbatim>\<open>BuildTable\<close> of
    \<^verbatim>\<open>db/builder.cc\<close> and \<^verbatim>\<open>SaveValue\<close> of \<^verbatim>\<open>db/version_set.cc\<close>: the table file answers as the in-memory table). \<^verbatim>\<open>Ldb_Version\<close> has
    the class \<^verbatim>\<open>Version\<close> of \<^verbatim>\<open>db/version_set.cc\<close>, \<^verbatim>\<open>Ldb_Version_Search\<close> its searches for files and overlaps, \<^verbatim>\<open>Ldb_Version_Get\<close>
    lookups through all levels, over any table files that keep the contract \<open>table_files\<close>.
  \<^item> Compaction: \<^verbatim>\<open>Ldb_Compaction\<close> has the class \<^verbatim>\<open>Compaction\<close> and the choice of its inputs (\<^verbatim>\<open>db/version_set.cc\<close>), and from
    \<^verbatim>\<open>DoCompactionWork\<close> of \<^verbatim>\<open>db/db_impl.cc\<close> which entries are dropped. \<^verbatim>\<open>Ldb_Compaction_Thms\<close> shows that the inputs are complete, what
    exactly is dropped, and on an example that this is too much: a file of the next level with older entries of the last key of the inputs may not
    be among them, so that a deleted value is seen again.
  \<^item> Files of tables: \<^verbatim>\<open>Ldb_Filename\<close> (\<^verbatim>\<open>db/filename.cc\<close>, \<^verbatim>\<open>util/logging.cc\<close>: names are read back), \<^verbatim>\<open>Ldb_Posix_Env\<close> (files for random
    access, mapped or not, of \<^verbatim>\<open>PosixEnv\<close>), \<^verbatim>\<open>Ldb_Table_Cache\<close> (\<^verbatim>\<open>db/table_cache.cc\<close> keeps the contract of table files), and
    \<^verbatim>\<open>Ldb_Version_Files\<close> (lookups in a version from the names of the files on).
  \<^item> This theory has the property that spans the log, the batches and the in-memory table: recovery after a crash.

  \<^bold>\<open>Not modelled.\<close> Of leveldb: the threads and the directory of a database and the running of compactions (the rest of \<^verbatim>\<open>db/db_impl.cc\<close>),
  the scores of levels, the set of versions with its manifest, and the iterators over several levels. \<^verbatim>\<open>BuildTable\<close> is without creating
  the file and without looking it up afterwards. Lookups in a version are without a cache of blocks, whose part is shown on a single table.
  Objective-C and Swift code is in other languages; of the Objective-C libraries only headers are C, and these declare interfaces. Debug
  strings and the formatted log of leveldb go through \<^verbatim>\<open>snprintf\<close>. Concurrent readers of the skip list and the locks of the cache are
  not modelled: every operation runs alone.

  \<^bold>\<open>Simplified.\<close> The counts of references and of entries in the cache are natural numbers where the code has 32 bits, and so is the number
  of keys of a filter, which the code passes as an \<^verbatim>\<open>int\<close>: they agree below \<open>2 ^ 31\<close>. The deleter of the table cache runs behind the operation of the
  cache that calls it; it does not use the cache.
\<close>

section \<open>Recovery\<close>

text \<open>
  C2: Committed batches survive a crash, and a torn one has no effect. Batches are built with \<^verbatim>\<open>Put\<close> and \<^verbatim>\<open>Delete\<close>, numbered with
  growing sequence numbers and added by \<^verbatim>\<open>log::Writer\<close> to an empty posix file, and another record is being added when the
  system stops: the file is cut anywhere from the end of the last batch to before the end of that record. Then the records
  that \<^verbatim>\<open>log::Reader\<close> returns, inserted one by one into a new in-memory table with \<^verbatim>\<open>SetContents\<close> and \<^verbatim>\<open>InsertInto\<close>, are accepted,
  nothing is reported as corrupt, and \<^verbatim>\<open>MemTable::Get\<close> at any snapshot answers with the last committed update of the key
  at or before the snapshot.
\<close>

theorem recovery:
  assumes "writes_ok wsys (wf_fd pf) disk wpend" "buf pf = []" "disk wos = []"
    and "reads_ok rsys (sf_fd sf) rest rpend" "seeks_ok rsys (sf_fd sf) rest"
    and "key_order valid cmp" "\<forall>w \<in> set (batch_writes bs). write_ok valid w"
    "sorted_wrt (\<lambda>a b. fst a < fst b) (batch_writes bs)" "\<forall>(q, us) \<in> set bs. length us < 2 ^ 31"
    and "valid u" "length u + 8 < 2 ^ 32" "s \<le> kMaxSequenceNumber"
  shows "\<exists>w1 w2. add_all (posix_writable wsys) (map batch_record bs) (Writer_new (pf, wos)) = Some (OK, w1) \<and>
    AddRecord (posix_writable wsys) torn w1 = Some (OK, w2) \<and>
    strict_prefix (disk (snd (dest w1))) (disk (snd (dest w2))) \<and>
    (\<forall>D os rep. prefix (disk (snd (dest w1))) D \<and> strict_prefix D (disk (snd (dest w2))) \<and> rest os = D \<longrightarrow>
       (\<exists>rs rd m. all_records (posix_sequential rsys sf) (Reader_new os rep True 0) rs rd \<and> reporter rd = rep \<and>
          insert_all cmp (map (SetContents Batch_Clear) rs) MemTable_new = Some m \<and>
          MemTable_Get cmp (LookupKey_new u s) value st m = Some (answer (visible cmp u s (batch_writes bs)) value st)))"
proof -
  obtain w1 w2 ls cs where w: "add_all (posix_writable wsys) (map batch_record bs) (Writer_new (pf, wos)) = Some (OK, w1)"
      "AddRecord (posix_writable wsys) torn w1 = Some (OK, w2)" "log_at 0 (map batch_record bs) ls" "fragments (length ls) True torn cs"
      "disk (snd (dest w1)) = ls" "disk (snd (dest w2)) = ls @ cs" "strict_prefix ls (ls @ cs)"
    using posix_log_next [OF assms(1-3)] by blast
  obtain m where m: "insert_all cmp (map batch_record bs) MemTable_new = Some m"
      "MemTable_Get cmp (LookupKey_new u s) value st m = Some (answer (visible cmp u s (batch_writes bs)) value st)"
    using batches_answer [OF assms(6-12)] by blast
  have c: "map (SetContents Batch_Clear) rs = rs" for rs by (induction rs) (simp_all add: SetContents_def)
  have "\<exists>rs rd m. all_records (posix_sequential rsys sf) (Reader_new os rep True 0) rs rd \<and> reporter rd = rep \<and>
      insert_all cmp (map (SetContents Batch_Clear) rs) MemTable_new = Some m \<and>
      MemTable_Get cmp (LookupKey_new u s) value st m = Some (answer (visible cmp u s (batch_writes bs)) value st)"
    if "prefix ls (rest os)" "strict_prefix (rest os) (ls @ cs)" for os rep
    using posix_log_read [OF w(3,4) that assms(4,5), of os rep True] m c by auto
  then show ?thesis using w(1,2,5-7) by (auto simp del: map_map)
qed

theorem recovery_witness:
  "\<exists>w1 rs rd m. add_all (posix_writable slow_sys)
      [SetSequence (Batch_Put (Batch_Put Batch_Clear [7] [10]) [8] [11]) 1, SetSequence (Batch_Delete Batch_Clear [7]) 3]
      (Writer_new (PosixWritableFile_new (c_str ''000003.log'') 4, [], 2)) = Some (OK, w1) \<and>
    all_records (posix_sequential slow_sys \<lparr>sf_filename = c_str ''000003.log'', sf_fd = 5\<rparr>)
      (Reader_new (fst (snd (dest w1)), 1) (Some []) True 0) rs rd \<and>
    insert_all slice_compare (map (SetContents Batch_Clear) rs) MemTable_new = Some m \<and>
    MemTable_Get slice_compare (LookupKey_new [7] 2) [] OK m = Some (True, [10], OK)"
proof -
  let ?pf = "PosixWritableFile_new (c_str ''000003.log'') 4"
  let ?bs = "[(1, [Put_update [7] [10], Put_update [8] [11]]), (3, [Delete_update [7]])] :: (uint64 \<times> batch_update list) list"
  have b: "buf ?pf = []" by (simp add: PosixWritableFile_new_def)
  have k: "(2 :: uint64) \<le> kMaxSequenceNumber" "(3 :: uint64) \<le> kMaxSequenceNumber" "(1 :: uint64) \<le> kMaxSequenceNumber"
    by (simp_all add: kMaxSequenceNumber_def)
  have c: "slice_compare [7] [7] = 0" "slice_compare [8] [7] \<noteq> 0" by code_simp+
  have h: "\<forall>w \<in> set (batch_writes ?bs). write_ok (\<lambda>_. True) w" "sorted_wrt (\<lambda>a b. fst a < fst b) (batch_writes ?bs)"
    "\<forall>(q, us) \<in> set ?bs. length us < 2 ^ 31" "length ([7] :: slice) + 8 < 2 ^ 32"
    using k by (simp_all add: batch_writes_def)
  have a: "answer (visible slice_compare [7] 2 (batch_writes ?bs)) [] OK = (True, [10], OK)"
    by (simp add: visible_def answer_def batch_writes_def c)
  obtain w1 w2 where w: "add_all (posix_writable slow_sys) (map batch_record ?bs) (Writer_new (?pf, [], 2)) = Some (OK, w1)"
    "AddRecord (posix_writable slow_sys) [4] w1 = Some (OK, w2)" "strict_prefix (fst (snd (dest w1))) (fst (snd (dest w2)))"
    "\<forall>D os rep. prefix (fst (snd (dest w1))) D \<and> strict_prefix D (fst (snd (dest w2))) \<and> fst os = D \<longrightarrow>
       (\<exists>rs rd m. all_records (posix_sequential slow_sys \<lparr>sf_filename = c_str ''000003.log'', sf_fd = 5\<rparr>) (Reader_new os rep True 0) rs rd \<and>
          reporter rd = rep \<and> insert_all slice_compare (map (SetContents Batch_Clear) rs) MemTable_new = Some m \<and>
          MemTable_Get slice_compare (LookupKey_new [7] 2) [] OK m = Some (answer (visible slice_compare [7] 2 (batch_writes ?bs)) [] OK))"
    using recovery [OF slow_sys_ok(1) b fst_conv slow_sys_ok(2,3) bytewise.key_order_axioms h(1-3) TrueI h(4) k(1), of 2 "[4]"
        "\<lparr>sf_filename = c_str ''000003.log'', sf_fd = 5\<rparr>" "[]" OK]
    by (elim exE conjE) (rule that)
  show ?thesis
    using w(1,3) w(4) [rule_format, of "fst (snd (dest w1))" "(fst (snd (dest w1)), 1)" "Some []"] unfolding a by auto
qed

end
